(* ===== verification/Prelude.thy ===== *)
theory Prelude
  imports Main "HOL-Library.Word" "HOL-Library.Signed_Division"
begin

unbundle bit_operations_syntax

text \<open>
  Shared vocabulary of the development: the kernel's error numbers, the outcome of a kernel
  function (returned a value, returned an error, panicked), a weakest-precondition reading of
  outcomes, byte memory, big-endian integers as the MIPS machine lays them out, and the generic
  lemmas on lists that the component theories share.
\<close>

section \<open>Machine types\<close>

type_synonym u8 = "8 word"
type_synonym u16 = "16 word"
type_synonym u32 = "32 word"

text \<open>
  A C conversion of a signed 64-bit value (\<open>off_t\<close>) to \<open>uint32_t\<close> keeps the value modulo
  \<open>2^32\<close>; a \<open>size_t\<close> subtraction wraps around at \<open>2^32\<close>. Sizes are natural numbers below
  \<open>2^32\<close> in the model, so the wrap-around is written out.
\<close>

definition to_u32 :: "int \<Rightarrow> nat" where
  "to_u32 x = nat (x mod 2 ^ 32)"

definition wsub32 :: "nat \<Rightarrow> nat \<Rightarrow> nat" where
  "wsub32 a b = (if b \<le> a then a - b else (a + 2 ^ 32 - b) mod 2 ^ 32)"

definition wadd32 :: "nat \<Rightarrow> nat \<Rightarrow> nat" where
  "wadd32 a b = (a + b) mod 2 ^ 32"

lemma wsub32_le [simp]: "b \<le> a \<Longrightarrow> wsub32 a b = a - b"
  by (simp add: wsub32_def)

lemma wadd32_less [simp]: "a + b < 2 ^ 32 \<Longrightarrow> wadd32 a b = a + b"
  by (simp add: wadd32_def)

lemma to_u32_nat [simp]: "n < 2 ^ 32 \<Longrightarrow> to_u32 (int n) = n"
  by (simp add: to_u32_def)

lemma to_u32_less: "to_u32 x < 2 ^ 32"
  by (simp add: to_u32_def nat_less_iff)

section \<open>Error numbers\<close>

datatype errno =
    ENOSYS | EUNIMP | ENOMEM | EAGAIN | EINTR | EFAULT | ENAMETOOLONG | EINVAL
  | EPERM | EACCES | EMPROC | ENPROC | ENOEXEC | E2BIG | ESRCH | ECHILD
  | ENOTDIR | EISDIR | ENOENT | ELOOP | ENOTEMPTY | EEXIST | EMLINK | EXDEV
  | ENODEV | ENXIO | EBUSY | EMFILE | ENFILE | EBADF | EIOCTL | EIO
  | ESPIPE | EPIPE | EROFS | ENOSPC | EDQUOT | EFBIG | EFTYPE | EDOM | ERANGE

section \<open>Outcomes of kernel functions\<close>

text \<open>
  A kernel function takes the state it works on and either returns a value and the new state,
  or returns an error code and the state it leaves behind (what it changed before failing stays
  changed), or never returns to its caller: \<open>panic()\<close>, a failed \<open>KASSERT\<close>, a wait that nothing
  can end and a loop that does not terminate are all \<open>Panic\<close>.
  \<open>kbind\<close> is the idiom \<open>result = f(...); if (result) return result;\<close>.
\<close>

datatype ('a, 's) out = Ok 'a 's | Err errno 's | Panic

fun kbind :: "('a, 's) out \<Rightarrow> ('a \<Rightarrow> 's \<Rightarrow> ('b, 's) out) \<Rightarrow> ('b, 's) out" where
  "kbind (Ok a s) f = f a s"
| "kbind (Err e s) f = Err e s"
| "kbind Panic f = Panic"

definition kassert :: "bool \<Rightarrow> ('a, 's) out \<Rightarrow> ('a, 's) out" where
  "kassert b m = (if b then m else Panic)"

lemma kassert_True [simp]: "kassert True m = m"
  by (simp add: kassert_def)

lemma kassert_False [simp]: "kassert False m = Panic"
  by (simp add: kassert_def)

lemma kbind_Ok_right [simp]: "kbind m Ok = m"
  by (cases m) auto

lemma kbind_assoc: "kbind (kbind m f) g = kbind m (\<lambda>x s. kbind (f x s) g)"
  by (cases m) simp_all

lemma kbind_Ok_iff:
  "kbind m f = Ok b s' \<longleftrightarrow> (\<exists>a s. m = Ok a s \<and> f a s = Ok b s')"
  by (cases m) auto

lemma kbind_Err_iff:
  "kbind m f = Err e s' \<longleftrightarrow> m = Err e s' \<or> (\<exists>a s. m = Ok a s \<and> f a s = Err e s')"
  by (cases m) auto

lemma kassert_Ok_iff [simp]: "kassert b m = Ok a s \<longleftrightarrow> b \<and> m = Ok a s"
  by (simp add: kassert_def)

lemma kassert_Err_iff [simp]: "kassert b m = Err e s \<longleftrightarrow> b \<and> m = Err e s"
  by (simp add: kassert_def)

text \<open>
  \<open>out_wp m Q E\<close>: the computation does not panic, \<open>Q\<close> holds of its value and state if it
  succeeds and \<open>E\<close> of its error and state if it fails. The verification conditions of the
  component proofs are computed with the simplifier from the rules collected in \<open>wp\<close>.
\<close>

named_theorems wp \<open>weakest-precondition equations\<close>

fun out_wp :: "('a, 's) out \<Rightarrow> ('a \<Rightarrow> 's \<Rightarrow> bool) \<Rightarrow> (errno \<Rightarrow> 's \<Rightarrow> bool) \<Rightarrow> bool" where
  "out_wp (Ok a s) Q E = Q a s"
| "out_wp (Err e s) Q E = E e s"
| "out_wp Panic Q E = False"

lemma out_wp_kbind [wp]:
  "out_wp (kbind m f) Q E = out_wp m (\<lambda>a s. out_wp (f a s) Q E) E"
  by (cases m) auto

lemma out_wp_kassert [wp]: "out_wp (kassert b m) Q E \<longleftrightarrow> b \<and> out_wp m Q E"
  by (cases b) auto

lemma out_wp_if [wp]:
  "out_wp (if b then m else n) Q E \<longleftrightarrow> (b \<longrightarrow> out_wp m Q E) \<and> (\<not> b \<longrightarrow> out_wp n Q E)"
  by simp

lemma out_wp_conseq:
  assumes "out_wp m Q E"
    and "\<And>a s. m = Ok a s \<Longrightarrow> Q a s \<Longrightarrow> Q' a s"
    and "\<And>e s. m = Err e s \<Longrightarrow> E e s \<Longrightarrow> E' e s"
  shows "out_wp m Q' E'"
  using assms by (cases m) auto

lemma out_wp_OkD: "out_wp m Q E \<Longrightarrow> m = Ok a s \<Longrightarrow> Q a s"
  by simp

lemma out_wp_ErrD: "out_wp m Q E \<Longrightarrow> m = Err e s \<Longrightarrow> E e s"
  by simp

lemma out_wp_not_Panic: "out_wp m Q E \<Longrightarrow> m \<noteq> Panic"
  by auto

lemma out_wp_cases:
  assumes "out_wp m Q E"
  obtains (Ok) a s where "m = Ok a s" "Q a s" | (Err) e s where "m = Err e s" "E e s"
  using assms by (cases m) auto

lemma out_wp_total: "out_wp m Q (\<lambda>_ _. False) \<Longrightarrow> \<exists>a s. m = Ok a s \<and> Q a s"
  by (cases m) auto

section \<open>Byte memory and buffers\<close>

lemma all_from_Suc:
  "(\<forall>x. a \<le> x \<and> x < a + Suc n \<longrightarrow> P x) \<longleftrightarrow> P a \<and> (\<forall>x. Suc a \<le> x \<and> x < Suc a + n \<longrightarrow> P x)"
proof (intro iffI conjI allI impI; (elim conjE)?)
  fix x
  assume "P a" "\<forall>x. Suc a \<le> x \<and> x < Suc a + n \<longrightarrow> P x" "a \<le> x" "x < a + Suc n"
  then show "P x" by (cases "x = a") auto
qed auto

type_synonym memory = "nat \<Rightarrow> u8"

definition mem_read :: "memory \<Rightarrow> nat \<Rightarrow> nat \<Rightarrow> u8 list" where
  "mem_read m a n = map m [a..<a + n]"

definition mem_write :: "memory \<Rightarrow> nat \<Rightarrow> u8 list \<Rightarrow> memory" where
  "mem_write m a bs = (\<lambda>x. if a \<le> x \<and> x < a + length bs then bs ! (x - a) else m x)"

lemma length_mem_read [simp]: "length (mem_read m a n) = n"
  by (simp add: mem_read_def)

lemma mem_write_Nil [simp]: "mem_write m a [] = m"
  by (rule ext) (auto simp: mem_write_def)

lemma mem_read_write_same: "n = length bs \<Longrightarrow> mem_read (mem_write m a bs) a n = bs"
  by (auto simp: mem_read_def mem_write_def intro: nth_equalityI)

text \<open>Overwriting a stretch of a C array from position \<open>pos\<close> on.\<close>

definition buf_write :: "'a list \<Rightarrow> nat \<Rightarrow> 'a list \<Rightarrow> 'a list" where
  "buf_write xs pos ys = take pos xs @ ys @ drop (pos + length ys) xs"

lemma length_buf_write [simp]:
  "pos + length ys \<le> length xs \<Longrightarrow> length (buf_write xs pos ys) = length xs"
  by (simp add: buf_write_def)

lemma nth_buf_write:
  assumes "pos + length ys \<le> length xs" and "i < length xs"
  shows "buf_write xs pos ys ! i = (if pos \<le> i \<and> i < pos + length ys then ys ! (i - pos) else xs ! i)"
  using assms by (auto simp: buf_write_def nth_append)

lemma buf_write_Nil [simp]: "buf_write xs pos [] = xs"
  by (simp add: buf_write_def)

lemma buf_write_all: "length ys = length xs \<Longrightarrow> buf_write xs 0 ys = ys"
  by (simp add: buf_write_def)

lemma buf_write_append:
  "pos + length ys + length zs \<le> length xs \<Longrightarrow>
   buf_write (buf_write xs pos ys) (pos + length ys) zs = buf_write xs pos (ys @ zs)"
  by (auto simp: nth_buf_write nth_append intro!: nth_equalityI)

section \<open>Big-endian integers\<close>

definition be32 :: "u32 \<Rightarrow> u8 list" where
  "be32 w = [ucast (drop_bit 24 w), ucast (drop_bit 16 w), ucast (drop_bit 8 w), ucast w]"

definition unbe32 :: "u8 list \<Rightarrow> u32" where
  "unbe32 bs = push_bit 24 (ucast (bs ! 0)) OR push_bit 16 (ucast (bs ! 1))
     OR push_bit 8 (ucast (bs ! 2)) OR ucast (bs ! 3)"

definition be16 :: "u16 \<Rightarrow> u8 list" where
  "be16 w = [ucast (drop_bit 8 w), ucast w]"

definition unbe16 :: "u8 list \<Rightarrow> u16" where
  "unbe16 bs = push_bit 8 (ucast (bs ! 0)) OR ucast (bs ! 1)"

lemma length_be32 [simp]: "length (be32 w) = 4"
  by (simp add: be32_def)

lemma length_be16 [simp]: "length (be16 w) = 2"
  by (simp add: be16_def)

lemma unbe16_be16 [simp]: "unbe16 (be16 w) = w"
  unfolding unbe16_def be16_def
  by (rule bit_word_eqI) (auto simp: bit_simps)

lemma bit_unbe32:
  "n < 32 \<Longrightarrow> bit (unbe32 [a, b, c, d]) n =
   (if n < 8 then bit d n else if n < 16 then bit c (n - 8)
    else if n < 24 then bit b (n - 16) else bit a (n - 24))"
proof -
  assume "n < 32"
  then consider "n < 8" | "8 \<le> n \<and> n < 16" | "16 \<le> n \<and> n < 24" | "24 \<le> n \<and> n < 32"
    by fastforce
  then show ?thesis
    by cases (auto simp: unbe32_def bit_simps dest: bit_imp_le_length)
qed

lemma unbe32_be32 [simp]: "unbe32 (be32 w) = w"
proof (rule bit_word_eqI)
  fix n
  assume "n < LENGTH(32)"
  then show "bit (unbe32 (be32 w)) n = bit w n"
    by (auto simp: be32_def bit_unbe32 bit_simps)
qed

text \<open>An array of \<open>uint32_t\<close> as bytes and back.\<close>

definition be32s :: "u32 list \<Rightarrow> u8 list" where
  "be32s ws = concat (map be32 ws)"

fun unbe32s :: "nat \<Rightarrow> u8 list \<Rightarrow> u32 list" where
  "unbe32s 0 bs = []"
| "unbe32s (Suc n) bs = unbe32 (take 4 bs) # unbe32s n (drop 4 bs)"

lemma length_be32s [simp]: "length (be32s ws) = 4 * length ws"
  by (induction ws) (auto simp: be32s_def)

lemma length_unbe32s [simp]: "length (unbe32s n bs) = n"
  by (induction n arbitrary: bs) auto

lemma unbe32s_be32s [simp]: "n = length ws \<Longrightarrow> unbe32s n (be32s ws @ rest) = ws"
proof (induction ws arbitrary: n)
  case Nil
  then show ?case by simp
next
  case (Cons w ws)
  have e: "be32s (w # ws) @ rest = be32 w @ be32s ws @ rest"
    by (simp add: be32s_def)
  show ?case
    unfolding e using Cons by simp
qed

lemma unbe32s_be32s_exact [simp]: "n = length ws \<Longrightarrow> unbe32s n (be32s ws) = ws"
  using unbe32s_be32s [of n ws "[]"] by simp

lemma unbe32s_zero: "unbe32s n (replicate (4 * n) 0) = replicate n 0"
proof (induction n)
  case (Suc n)
  have "replicate (4 * Suc n) (0::u8) = replicate 4 0 @ replicate (4 * n) 0"
    by (simp only: replicate_add [symmetric]) simp
  moreover have "unbe32 (replicate 4 0) = 0"
    by (simp add: unbe32_def numeral_eq_Suc)
  ultimately show ?case using Suc.IH by simp
qed simp

end
