(* ===== verification/CopyInOut.thy ===== *)
theory CopyInOut
  imports Prelude
begin

text \<open>
  \<open>kern/vm/copyinout.c\<close>: copying between the kernel and user space. A user address space is its
  contents and the set of addresses whose access faults; the \<open>setjmp\<close>/\<open>tm_badfaultfunc\<close> recovery
  makes a fault in the middle of a copy return \<open>EFAULT\<close>, with what was copied before the fault
  already in place (the copy routines of \<open>common/libc/string\<close> copy upwards). Addresses and sizes
  are 32-bit values, so the end of a region is computed modulo \<open>2^32\<close>.
\<close>

section \<open>Data and operations\<close>

definition USERSPACETOP :: nat where
  "USERSPACETOP = 0x80000000"

record uspace =
  us_mem :: memory
  us_fault :: "nat \<Rightarrow> bool"

text \<open>\<open>Inl EFAULT\<close>, or \<open>Inr stoplen\<close>.\<close>

definition copycheck :: "nat \<Rightarrow> nat \<Rightarrow> errno + nat" where
  "copycheck userptr len =
     (let bot = userptr; top = wsub32 (wadd32 bot len) 1 in
      if top < bot then Inl EFAULT
      else if bot \<ge> USERSPACETOP then Inl EFAULT
      else if top \<ge> USERSPACETOP then Inr (USERSPACETOP - bot)
      else Inr len)"

text \<open>
  The byte-wise effect of \<open>memcpy\<close> with a user region: \<open>Inl\<close> what was copied before the first
  faulting address, \<open>Inr\<close> everything.
\<close>

fun ucopy_in :: "uspace \<Rightarrow> nat \<Rightarrow> nat \<Rightarrow> u8 list + u8 list" where
  "ucopy_in us a 0 = Inr []"
| "ucopy_in us a (Suc n) =
     (if us_fault us a then Inl []
      else (case ucopy_in us (Suc a) n of
              Inl bs \<Rightarrow> Inl (us_mem us a # bs) | Inr bs \<Rightarrow> Inr (us_mem us a # bs)))"

fun ucopy_out :: "uspace \<Rightarrow> nat \<Rightarrow> u8 list \<Rightarrow> uspace + uspace" where
  "ucopy_out us a [] = Inr us"
| "ucopy_out us a (b # bs) =
     (if us_fault us a then Inl us
      else ucopy_out (us\<lparr>us_mem := (us_mem us)(a := b)\<rparr>) (Suc a) bs)"

text \<open>
  \<open>copyin\<close>: the state is the kernel buffer, which is overwritten from its start.
\<close>

definition copyin :: "uspace \<Rightarrow> nat \<Rightarrow> nat \<Rightarrow> u8 list \<Rightarrow> (unit, u8 list) out" where
  "copyin us usersrc len dest =
     (case copycheck usersrc len of
        Inl e \<Rightarrow> Err e dest
      | Inr stoplen \<Rightarrow>
          if stoplen \<noteq> len then Err EFAULT dest
          else (case ucopy_in us usersrc len of
                  Inl bs \<Rightarrow> Err EFAULT (buf_write dest 0 bs)
                | Inr bs \<Rightarrow> Ok () (buf_write dest 0 bs)))"

definition copyout :: "u8 list \<Rightarrow> nat \<Rightarrow> nat \<Rightarrow> uspace \<Rightarrow> (unit, uspace) out" where
  "copyout src userdest len us =
     (case copycheck userdest len of
        Inl e \<Rightarrow> Err e us
      | Inr stoplen \<Rightarrow>
          if stoplen \<noteq> len then Err EFAULT us
          else (case ucopy_out us userdest (take len src) of
                  Inl us' \<Rightarrow> Err EFAULT us'
                | Inr us' \<Rightarrow> Ok () us'))"

text \<open>
  \<open>copystr\<close> from user to kernel and from kernel to user: byte by byte up to a terminator, \<open>maxlen\<close>
  or \<open>stoplen\<close>; the value is the length found, terminator included.
\<close>

function copystr_in :: "uspace \<Rightarrow> nat \<Rightarrow> nat \<Rightarrow> nat \<Rightarrow> nat \<Rightarrow> u8 list \<Rightarrow> (nat, u8 list) out" where
  "copystr_in us src i maxlen stoplen dest =
     (if i < maxlen \<and> i < stoplen
      then if us_fault us (src + i) then Err EFAULT dest
           else (let c = us_mem us (src + i); dest = dest[i := c] in
                 if c = 0 then Ok (i + 1) dest
                 else copystr_in us src (Suc i) maxlen stoplen dest)
      else if stoplen < maxlen then Err EFAULT dest
      else Err ENAMETOOLONG dest)"
  by pat_completeness auto
termination by (relation "measure (\<lambda>(us, src, i, maxlen, stoplen, dest). maxlen - i)") auto

function copystr_out :: "u8 list \<Rightarrow> nat \<Rightarrow> nat \<Rightarrow> nat \<Rightarrow> nat \<Rightarrow> uspace \<Rightarrow> (nat, uspace) out" where
  "copystr_out src dest i maxlen stoplen us =
     (if i < maxlen \<and> i < stoplen
      then if us_fault us (dest + i) then Err EFAULT us
           else (let c = src ! i; us = us\<lparr>us_mem := (us_mem us)(dest + i := c)\<rparr> in
                 if c = 0 then Ok (i + 1) us
                 else copystr_out src dest (Suc i) maxlen stoplen us)
      else if stoplen < maxlen then Err EFAULT us
      else Err ENAMETOOLONG us)"
  by pat_completeness auto
termination by (relation "measure (\<lambda>(src, dest, i, maxlen, stoplen, us). maxlen - i)") auto

declare copystr_in.simps [simp del] copystr_out.simps [simp del]

definition copyinstr :: "uspace \<Rightarrow> nat \<Rightarrow> nat \<Rightarrow> u8 list \<Rightarrow> (nat, u8 list) out" where
  "copyinstr us usersrc len dest =
     (case copycheck usersrc len of
        Inl e \<Rightarrow> Err e dest
      | Inr stoplen \<Rightarrow> copystr_in us usersrc 0 len stoplen dest)"

definition copyoutstr :: "u8 list \<Rightarrow> nat \<Rightarrow> nat \<Rightarrow> uspace \<Rightarrow> (nat, uspace) out" where
  "copyoutstr src userdest len us =
     (case copycheck userdest len of
        Inl e \<Rightarrow> Err e us
      | Inr stoplen \<Rightarrow> copystr_out src userdest 0 len stoplen us)"

section \<open>The region check\<close>

text \<open>For a non-empty region the check accepts exactly the regions that start in user space and do
  not wrap; the length it hands back is the part below \<open>USERSPACETOP\<close>.\<close>

lemma copycheck_nonempty:
  assumes "0 < len" and "len < 2 ^ 32" and "p < 2 ^ 32"
  shows "copycheck p len =
    (if p + len \<le> 2 ^ 32 \<and> p < USERSPACETOP then Inr (min len (USERSPACETOP - p)) else Inl EFAULT)"
proof -
  consider "p + len < 2 ^ 32" | "p + len = 2 ^ 32" | "2 ^ 32 < p + len" by linarith
  then show ?thesis
  proof cases
    case 1
    then have "wsub32 (wadd32 p len) 1 = p + len - 1" using assms by simp
    then show ?thesis using 1 assms by (auto simp: copycheck_def Let_def USERSPACETOP_def min_def)
  next
    case 2
    then have "wsub32 (wadd32 p len) 1 = 2 ^ 32 - 1"
      using assms by (simp add: wadd32_def wsub32_def)
    then show ?thesis using 2 assms by (auto simp: copycheck_def Let_def USERSPACETOP_def min_def)
  next
    case 3
    then have "wadd32 p len = p + len - 2 ^ 32"
      using assms by (simp add: wadd32_def mod_if)
    then have "wsub32 (wadd32 p len) 1 = p + len - 2 ^ 32 - 1" using 3 by simp
    then show ?thesis using 3 assms by (auto simp: copycheck_def Let_def USERSPACETOP_def min_def)
  qed
qed

lemma copycheck_empty:
  assumes "p < 2 ^ 32"
  shows "copycheck p 0 = (if p = 0 then Inr USERSPACETOP else Inl EFAULT)"
  using assms by (auto simp: copycheck_def Let_def wsub32_def wadd32_def USERSPACETOP_def)

section \<open>Copying\<close>

lemma ucopy_in_spec:
  "ucopy_in us a n =
     (if \<forall>x. a \<le> x \<and> x < a + n \<longrightarrow> \<not> us_fault us x then Inr (mem_read (us_mem us) a n)
      else Inl (mem_read (us_mem us) a ((LEAST k. us_fault us (a + k)))))"
proof (induction n arbitrary: a)
  case 0
  then show ?case by (auto simp: mem_read_def)
next
  case (Suc n)
  have rd: "mem_read (us_mem us) a (Suc k) = us_mem us a # mem_read (us_mem us) (Suc a) k" for k
    by (simp add: mem_read_def upt_rec)
  show ?case
  proof (cases "us_fault us a")
    case True
    then have "(LEAST k. us_fault us (a + k)) = 0" by (intro Least_eq_0) simp
    with True show ?thesis by (auto simp: mem_read_def)
  next
    case False
    have all: "(\<forall>x. a \<le> x \<and> x < a + Suc n \<longrightarrow> \<not> us_fault us x) \<longleftrightarrow>
      (\<forall>x. Suc a \<le> x \<and> x < Suc a + n \<longrightarrow> \<not> us_fault us x)"
      using False by (simp only: all_from_Suc) simp
    show ?thesis
    proof (cases "\<forall>x. Suc a \<le> x \<and> x < Suc a + n \<longrightarrow> \<not> us_fault us x")
      case True
      with all False show ?thesis using Suc.IH [of "Suc a"] rd by simp
    next
      case f: False
      then obtain x where x: "us_fault us x" "Suc a \<le> x" by blast
      have "(LEAST k. us_fault us (a + k)) = Suc (LEAST k. us_fault us (a + Suc k))"
        by (rule Least_Suc [of _ "x - a"]) (use x False in auto)
      with all f False show ?thesis using Suc.IH [of "Suc a"] rd by auto
    qed
  qed
qed

lemma ucopy_out_spec:
  "ucopy_out us a bs =
     (if \<forall>x. a \<le> x \<and> x < a + length bs \<longrightarrow> \<not> us_fault us x
      then Inr (us\<lparr>us_mem := mem_write (us_mem us) a bs\<rparr>)
      else Inl (us\<lparr>us_mem := mem_write (us_mem us) a (take (LEAST k. us_fault us (a + k)) bs)\<rparr>))"
proof (induction bs arbitrary: a us)
  case Nil
  then show ?case by simp
next
  case (Cons b bs)
  have wr: "mem_write ((us_mem us)(a := b)) (Suc a) cs = mem_write (us_mem us) a (b # cs)" for cs
    by (rule ext) (auto simp: mem_write_def nth_Cons' Suc_le_eq)
  show ?case
  proof (cases "us_fault us a")
    case True
    then have "(LEAST k. us_fault us (a + k)) = 0" by (intro Least_eq_0) simp
    with True show ?thesis by auto
  next
    case False
    have all: "(\<forall>x. a \<le> x \<and> x < a + Suc n \<longrightarrow> \<not> us_fault us x) \<longleftrightarrow>
      (\<forall>x. Suc a \<le> x \<and> x < Suc a + n \<longrightarrow> \<not> us_fault us x)" for n
      using False by (simp only: all_from_Suc) simp
    show ?thesis
    proof (cases "\<forall>x. Suc a \<le> x \<and> x < Suc a + length bs \<longrightarrow> \<not> us_fault us x")
      case True
      with all [of "length bs"] False show ?thesis
        using Cons.IH [of "us\<lparr>us_mem := (us_mem us)(a := b)\<rparr>" "Suc a"] wr by simp
    next
      case f: False
      then obtain x where x: "us_fault us x" "Suc a \<le> x" by blast
      have "(LEAST k. us_fault us (a + k)) = Suc (LEAST k. us_fault us (a + Suc k))"
        by (rule Least_Suc [of _ "x - a"]) (use x False in auto)
      with all [of "length bs"] f False show ?thesis
        using Cons.IH [of "us\<lparr>us_mem := (us_mem us)(a := b)\<rparr>" "Suc a"] wr by auto
    qed
  qed
qed

section \<open>Properties\<close>

text \<open>C37. For a nonempty range \<open>copycheck\<close> accepts exactly the ranges that start in user space and do not
  wrap around the address space, and clips their length at the top of user space.\<close>

theorem copycheck_user_range:
  assumes "0 < len" and "len < 2 ^ 32" and "p < 2 ^ 32"
  shows "copycheck p len =
    (if p + len \<le> 2 ^ 32 \<and> p < USERSPACETOP then Inr (min len (USERSPACETOP - p)) else Inl EFAULT)"
  using assms by (rule copycheck_nonempty)

theorem copycheck_user_range_witness:
  "copycheck 0x7ffffff0 0x20 = Inr 0x10 \<and> copycheck 0x80000000 4 = Inl EFAULT"
  using copycheck_user_range [of "0x20" "0x7ffffff0"] copycheck_user_range [of 4 "0x80000000"]
  by (simp add: USERSPACETOP_def)

text \<open>An empty range is rejected at every address but zero: \<open>top\<close> is then \<open>bot - 1\<close>. At address zero
  it wraps, and the answer is the size of the whole of user space.\<close>

theorem copycheck_empty_range:
  assumes "p < 2 ^ 32"
  shows "copycheck p 0 = (if p = 0 then Inr USERSPACETOP else Inl EFAULT)"
  using assms by (rule copycheck_empty)

theorem copycheck_empty_range_witness:
  "copycheck 4096 0 = Inl EFAULT"
  using copycheck_empty_range [of 4096] by simp

end
