(* ===== verification/Uio.thy ===== *)
theory Uio
  imports CopyInOut
begin

text \<open>
  \<open>kern/lib/uio.c\<close>: moving data between a kernel buffer and the regions a \<open>struct uio\<close> describes.
  A uio carries the memory its iovecs point into (\<open>uio_mem\<close>: the kernel's for \<open>UIO_SYSSPACE\<close>, the
  process's otherwise). Abstractly a uio is the list of the addresses still to be transferred
  (\<open>uio_addrs\<close>), whatever the number of iovecs; \<open>uiomove\<close> moves the first bytes of that list.
\<close>

section \<open>Data and operations\<close>

datatype uio_rw = UIO_READ | UIO_WRITE

datatype uio_seg = UIO_USERISPACE | UIO_USERSPACE | UIO_SYSSPACE

record iovec =
  iov_base :: nat
  iov_len :: nat

text \<open>
  \<open>uio_space\<close> names the address space (\<open>None\<close> is \<open>NULL\<close>); \<open>uio_cur\<close> is \<open>curthread->t_addrspace\<close>.
\<close>

record uio =
  uio_iov :: "iovec list"
  uio_offset :: int
  uio_resid :: nat
  uio_segflg :: uio_seg
  uio_rw :: uio_rw
  uio_space :: "nat option"
  uio_cur :: "nat option"
  uio_mem :: uspace

text \<open>One transfer of \<open>sz\<close> bytes between the buffer at position \<open>pos\<close> and the address \<open>base\<close>.\<close>

definition uio_copy :: "nat \<Rightarrow> nat \<Rightarrow> nat \<Rightarrow> u8 list \<times> uio \<Rightarrow> (unit, u8 list \<times> uio) out" where
  "uio_copy base pos sz = (\<lambda>(buf, u).
     case uio_segflg u of
       UIO_SYSSPACE \<Rightarrow>
         if uio_rw u = UIO_READ
         then Ok () (buf, u\<lparr>uio_mem := (uio_mem u)\<lparr>us_mem :=
                        mem_write (us_mem (uio_mem u)) base (take sz (drop pos buf))\<rparr>\<rparr>)
         else Ok () (buf_write buf pos (mem_read (us_mem (uio_mem u)) base sz), u)
     | _ \<Rightarrow>
         if uio_rw u = UIO_READ
         then (case copyout (drop pos buf) base sz (uio_mem u) of
                 Ok _ m \<Rightarrow> Ok () (buf, u\<lparr>uio_mem := m\<rparr>)
               | Err e m \<Rightarrow> Err e (buf, u\<lparr>uio_mem := m\<rparr>)
               | Panic \<Rightarrow> Panic)
         else (case copyin (uio_mem u) base sz (drop pos buf) of
                 Ok _ rest \<Rightarrow> Ok () (take pos buf @ rest, u)
               | Err e rest \<Rightarrow> Err e (take pos buf @ rest, u)
               | Panic \<Rightarrow> Panic))"

text \<open>
  The loop of \<open>uiomove\<close>. The buffer pointer is the position \<open>pos\<close>. Running out of iovecs is a
  panic; the subtraction from \<open>uio_resid\<close> is a \<open>size_t\<close> subtraction.
\<close>

function uiomove_loop :: "nat \<Rightarrow> nat \<Rightarrow> u8 list \<times> uio \<Rightarrow> (unit, u8 list \<times> uio) out" where
  "uiomove_loop pos n (buf, u) =
     (if n > 0 \<and> uio_resid u > 0
      then (case uio_iov u of
              [] \<Rightarrow> Panic
            | iov # iovs \<Rightarrow>
                (let sz = (if iov_len iov > n then n else iov_len iov) in
                 if sz = 0
                 then if iovs = [] then Panic
                      else uiomove_loop pos n (buf, u\<lparr>uio_iov := iovs\<rparr>)
                 else kbind (uio_copy (iov_base iov) pos sz (buf, u))
                   (\<lambda>_ (buf, u).
                      uiomove_loop (pos + sz) (n - sz)
                        (buf, u\<lparr>uio_iov := \<lparr>iov_base = iov_base iov + sz,
                                             iov_len = iov_len iov - sz\<rparr> # iovs,
                                uio_resid := wsub32 (uio_resid u) sz,
                                uio_offset := uio_offset u + int sz\<rparr>))))
      else Ok () (buf, u))"
  by pat_completeness auto
termination
  by (relation "measures [\<lambda>(pos, n, buf, u). n, \<lambda>(pos, n, buf, u). length (uio_iov u)]") auto

declare uiomove_loop.simps [simp del]

definition uiomove :: "nat \<Rightarrow> u8 list \<times> uio \<Rightarrow> (unit, u8 list \<times> uio) out" where
  "uiomove n = (\<lambda>(buf, u).
     kassert (if uio_segflg u = UIO_SYSSPACE then uio_space u = None else uio_space u = uio_cur u)
       (uiomove_loop 0 n (buf, u)))"

text \<open>\<open>uiomovezeros\<close> sends a static array of 16 zero bytes as often as needed.\<close>

function uiomovezeros_loop :: "nat \<Rightarrow> uio \<Rightarrow> (unit, uio) out" where
  "uiomovezeros_loop n u =
     (if n > 0
      then (let amt = (if 16 > n then n else 16) in
            case uiomove amt (replicate 16 0, u) of
              Ok _ (_, u) \<Rightarrow> uiomovezeros_loop (n - amt) u
            | Err e (_, u) \<Rightarrow> Err e u
            | Panic \<Rightarrow> Panic)
      else Ok () u)"
  by pat_completeness auto
termination by (relation "measure (\<lambda>(n, u). n)") auto

declare uiomovezeros_loop.simps [simp del]

definition uiomovezeros :: "nat \<Rightarrow> uio \<Rightarrow> (unit, uio) out" where
  "uiomovezeros n u = kassert (uio_rw u = UIO_READ) (uiomovezeros_loop n u)"

text \<open>\<open>uio_kinit\<close>: \<open>kbuf\<close> is an address of the kernel memory \<open>m\<close>.\<close>

definition uio_kinit :: "memory \<Rightarrow> nat \<Rightarrow> nat \<Rightarrow> int \<Rightarrow> uio_rw \<Rightarrow> uio" where
  "uio_kinit m kbuf len pos rw =
     \<lparr>uio_iov = [\<lparr>iov_base = kbuf, iov_len = len\<rparr>], uio_offset = pos, uio_resid = len,
      uio_segflg = UIO_SYSSPACE, uio_rw = rw, uio_space = None, uio_cur = None,
      uio_mem = \<lparr>us_mem = m, us_fault = (\<lambda>_. False)\<rparr>\<rparr>"

section \<open>A uio as a list of addresses\<close>

definition iov_addrs :: "iovec \<Rightarrow> nat list" where
  "iov_addrs iov = [iov_base iov..<iov_base iov + iov_len iov]"

definition uio_addrs :: "uio \<Rightarrow> nat list" where
  "uio_addrs u = concat (map iov_addrs (uio_iov u))"

text \<open>The bytes a uio designates, and storing bytes at a list of addresses.\<close>

definition uio_bytes :: "uio \<Rightarrow> u8 list" where
  "uio_bytes u = map (us_mem (uio_mem u)) (uio_addrs u)"

fun mem_store :: "memory \<Rightarrow> nat list \<Rightarrow> u8 list \<Rightarrow> memory" where
  "mem_store m (a # as) (b # bs) = mem_store (m(a := b)) as bs"
| "mem_store m _ _ = m"

text \<open>A uio that \<open>uiomove\<close> accepts: the right address space and as many bytes as it claims.\<close>

definition uio_ok :: "uio \<Rightarrow> bool" where
  "uio_ok u \<longleftrightarrow> uio_resid u \<le> length (uio_addrs u) \<and> uio_resid u < 2 ^ 32 \<and>
     (if uio_segflg u = UIO_SYSSPACE then uio_space u = None else uio_space u = uio_cur u)"

lemma mem_store_append:
  "length as = length bs \<Longrightarrow> mem_store m (as @ as') (bs @ bs') = mem_store (mem_store m as bs) as' bs'"
  by (induction as bs arbitrary: m rule: list_induct2) auto

lemma mem_store_upt: "n = length bs \<Longrightarrow> mem_store m [a..<a + n] bs = mem_write m a bs"
proof (induction bs arbitrary: m a n)
  case Nil
  then show ?case by simp
next
  case (Cons b bs)
  have wr: "mem_write (m(a := b)) (Suc a) bs = mem_write m a (b # bs)"
    by (rule ext) (auto simp: mem_write_def nth_Cons' Suc_le_eq)
  have upt: "[a..<a + n] = a # [Suc a..<Suc a + length bs]"
    using Cons.prems by (simp add: upt_rec)
  show ?case
    unfolding upt mem_store.simps Cons.IH [OF refl] by (rule wr)
qed

lemma mem_store_other [simp]: "a \<notin> set as \<Longrightarrow> mem_store m as bs a = m a"
  by (induction m as bs rule: mem_store.induct) auto

lemma mem_store_map [simp]:
  "distinct as \<Longrightarrow> length as = length bs \<Longrightarrow> map (mem_store m as bs) as = bs"
proof (induction as bs arbitrary: m rule: list_induct2')
  case (4 a as b bs)
  then show ?case by simp
qed auto

section \<open>What a transfer does\<close>

text \<open>The state after \<open>n\<close> bytes have been moved: the uio has advanced by \<open>n\<close> addresses, and the
  bytes are in memory (a read) or in the buffer at \<open>pos\<close> (a write).\<close>

definition uio_moved :: "nat \<Rightarrow> nat \<Rightarrow> u8 list \<times> uio \<Rightarrow> u8 list \<times> uio \<Rightarrow> bool" where
  "uio_moved pos n = (\<lambda>(buf, u) (buf', u').
     \<exists>iovs. concat (map iov_addrs iovs) = drop n (uio_addrs u) \<and>
       (if uio_rw u = UIO_READ
        then buf' = buf \<and>
          u' = u\<lparr>uio_iov := iovs, uio_offset := uio_offset u + int n, uio_resid := uio_resid u - n,
            uio_mem := (uio_mem u)\<lparr>us_mem :=
              mem_store (us_mem (uio_mem u)) (take n (uio_addrs u)) (take n (drop pos buf))\<rparr>\<rparr>
        else buf' = buf_write buf pos (map (us_mem (uio_mem u)) (take n (uio_addrs u))) \<and>
          u' = u\<lparr>uio_iov := iovs, uio_offset := uio_offset u + int n, uio_resid := uio_resid u - n\<rparr>))"

text \<open>How a transfer can fail: a bad user address.\<close>

abbreviation uio_fault :: "errno \<Rightarrow> uio \<Rightarrow> uio \<Rightarrow> bool" where
  "uio_fault e u u' \<equiv> e = EFAULT \<and> uio_segflg u \<noteq> UIO_SYSSPACE \<and> uio_rw u' = uio_rw u"

lemma copyout_wp:
  "out_wp (copyout src p n us)
     (\<lambda>_ us'. us' = us\<lparr>us_mem := mem_write (us_mem us) p (take n src)\<rparr>) (\<lambda>e us'. e = EFAULT)"
  by (auto simp: copyout_def copycheck_def Let_def ucopy_out_spec split: sum.splits)

lemma copyin_wp:
  assumes "n \<le> length dest"
  shows "out_wp (copyin us p n dest)
     (\<lambda>_ dest'. dest' = buf_write dest 0 (mem_read (us_mem us) p n))
     (\<lambda>e dest'. e = EFAULT \<and> length dest' = length dest)"
proof (cases "\<forall>x. p \<le> x \<and> x < p + n \<longrightarrow> \<not> us_fault us x")
  case True
  then have "ucopy_in us p n = Inr (mem_read (us_mem us) p n)"
    by (subst ucopy_in_spec) simp
  then show ?thesis
    by (auto simp: copyin_def copycheck_def Let_def)
next
  case False
  then have c: "ucopy_in us p n = Inl (mem_read (us_mem us) p (LEAST k. us_fault us (p + k)))"
    by (subst ucopy_in_spec) simp
  obtain x where "p \<le> x" "x < p + n" "us_fault us x" using False by blast
  then have "us_fault us (p + (x - p))" "x - p < n" by auto
  then have "(LEAST k. us_fault us (p + k)) \<le> length dest"
    using Least_le [of "\<lambda>k. us_fault us (p + k)" "x - p"] assms by linarith
  then show ?thesis
    by (auto simp: copyin_def copycheck_def Let_def c)
qed

lemma uio_copy_wp:
  assumes "pos + n \<le> length buf"
  shows "out_wp (uio_copy base pos n (buf, u))
    (\<lambda>_ (buf', u').
       (if uio_rw u = UIO_READ
        then buf' = buf \<and> u' = u\<lparr>uio_mem := (uio_mem u)\<lparr>us_mem :=
               mem_write (us_mem (uio_mem u)) base (take n (drop pos buf))\<rparr>\<rparr>
        else u' = u \<and> buf' = buf_write buf pos (mem_read (us_mem (uio_mem u)) base n)))
    (\<lambda>e (buf', u'). uio_fault e u u' \<and> length buf' = length buf)"
proof (cases "uio_segflg u = UIO_SYSSPACE")
  case True
  then show ?thesis by (auto simp: uio_copy_def)
next
  case False
  have dest: "take pos buf @ buf_write (drop pos buf) 0 bs = buf_write buf pos bs" for bs
    by (simp add: buf_write_def add.commute)
  have len: "n \<le> length (drop pos buf)" using assms by simp
  show ?thesis
    using False assms copyout_wp [of "drop pos buf" base n "uio_mem u"]
      copyin_wp [OF len, of "uio_mem u" base]
    by (auto simp: uio_copy_def dest split: uio_seg.splits out.splits)
qed

lemma uio_addrs_Cons: "uio_iov u = v # vs \<Longrightarrow> uio_addrs u = iov_addrs v @ concat (map iov_addrs vs)"
  by (simp add: uio_addrs_def)

lemma take_iov_addrs: "k \<le> iov_len v \<Longrightarrow> take k (iov_addrs v) = [iov_base v..<iov_base v + k]"
  by (simp add: iov_addrs_def)

lemma drop_iov_addrs:
  "k \<le> iov_len v \<Longrightarrow> drop k (iov_addrs v) = iov_addrs \<lparr>iov_base = iov_base v + k, iov_len = iov_len v - k\<rparr>"
  by (simp add: iov_addrs_def)

lemma length_iov_addrs [simp]: "length (iov_addrs v) = iov_len v"
  by (simp add: iov_addrs_def)

text \<open>Two transfers in a row are one.\<close>

lemma uio_moved_trans:
  assumes "uio_moved pos k (buf, u) (buf1, u1)" and "uio_moved (pos + k) n (buf1, u1) (buf2, u2)"
    and "pos + k + n \<le> length buf" and "k + n \<le> length (uio_addrs u)"
  shows "uio_moved pos (k + n) (buf, u) (buf2, u2)"
proof -
  have k: "length (take k (uio_addrs u)) = k" using assms(4) by simp
  have tk: "take (k + n) xs = take k xs @ take n (drop k xs)" for xs :: "'x list"
    by (simp add: take_add)
  show ?thesis
  proof (cases "uio_rw u = UIO_READ")
    case True
    then show ?thesis
      using assms(1,2,3) k mem_store_append [of "take k (uio_addrs u)" "take k (drop pos buf)"]
      by (auto simp: uio_moved_def uio_addrs_def tk add.commute)
  next
    case False
    then have "uio_rw u = UIO_WRITE" by (cases "uio_rw u") auto
    then show ?thesis
      using assms(1,2,3) k
        buf_write_append [of pos "map (us_mem (uio_mem u)) (take k (uio_addrs u))"]
      by (auto simp: uio_moved_def uio_addrs_def tk add.commute)
  qed
qed

lemma uio_moved_0 [simp]: "uio_moved pos 0 (buf, u) (buf, u)"
  by (cases u) (auto simp: uio_moved_def uio_addrs_def)

lemma uio_moved_frame:
  assumes "uio_moved pos n (buf, u) (buf', u')"
  shows "uio_rw u' = uio_rw u" "uio_segflg u' = uio_segflg u" "uio_space u' = uio_space u"
    "uio_cur u' = uio_cur u" "us_fault (uio_mem u') = us_fault (uio_mem u)"
    "uio_resid u' = uio_resid u - n" "uio_offset u' = uio_offset u + int n"
    "uio_addrs u' = drop n (uio_addrs u)"
proof -
  obtain iovs m where "concat (map iov_addrs iovs) = drop n (uio_addrs u)"
    "u' = u\<lparr>uio_iov := iovs, uio_offset := uio_offset u + int n, uio_resid := uio_resid u - n,
      uio_mem := (uio_mem u)\<lparr>us_mem := m\<rparr>\<rparr>"
  proof (cases "uio_rw u = UIO_READ")
    case True
    then show ?thesis using assms that by (auto simp: uio_moved_def)
  next
    case False
    then obtain iovs where "concat (map iov_addrs iovs) = drop n (uio_addrs u)"
      "u' = u\<lparr>uio_iov := iovs, uio_offset := uio_offset u + int n, uio_resid := uio_resid u - n\<rparr>"
      using assms by (auto simp: uio_moved_def)
    then show ?thesis by (intro that [of iovs "us_mem (uio_mem u)"]) auto
  qed
  then show "uio_rw u' = uio_rw u" "uio_segflg u' = uio_segflg u" "uio_space u' = uio_space u"
    "uio_cur u' = uio_cur u" "us_fault (uio_mem u') = us_fault (uio_mem u)"
    "uio_resid u' = uio_resid u - n" "uio_offset u' = uio_offset u + int n"
    "uio_addrs u' = drop n (uio_addrs u)"
    by (simp_all add: uio_addrs_def)
qed

text \<open>The first iovec gives \<open>sz\<close> of its bytes: one step of the loop.\<close>

lemma uio_moved_step:
  assumes u: "uio_iov u = v # vs" and sz: "sz \<le> iov_len v" and r: "sz \<le> uio_resid u"
    and b: "pos + sz \<le> length buf"
    and c: "if uio_rw u = UIO_READ
        then buf1 = buf \<and> u1 = u\<lparr>uio_mem := (uio_mem u)\<lparr>us_mem :=
               mem_write (us_mem (uio_mem u)) (iov_base v) (take sz (drop pos buf))\<rparr>\<rparr>
        else u1 = u \<and> buf1 = buf_write buf pos (mem_read (us_mem (uio_mem u)) (iov_base v) sz)"
  shows "uio_moved pos sz (buf, u)
    (buf1, u1\<lparr>uio_iov := \<lparr>iov_base = iov_base v + sz, iov_len = iov_len v - sz\<rparr> # vs,
              uio_resid := wsub32 (uio_resid u1) sz, uio_offset := uio_offset u1 + int sz\<rparr>)"
proof -
  let ?iovs = "\<lparr>iov_base = iov_base v + sz, iov_len = iov_len v - sz\<rparr> # vs"
  have "concat (map iov_addrs ?iovs) = drop sz (uio_addrs u)"
    using sz by (simp add: uio_addrs_Cons [OF u] drop_iov_addrs)
  moreover have tk: "take sz (uio_addrs u) = [iov_base v..<iov_base v + sz]"
    using sz by (simp add: uio_addrs_Cons [OF u] take_iov_addrs)
  moreover have "mem_write m (iov_base v) (take sz (drop pos buf)) =
      mem_store m [iov_base v..<iov_base v + sz] (take sz (drop pos buf))" for m
    using b by (simp add: mem_store_upt)
  ultimately show ?thesis
    using c r by (auto simp: uio_moved_def mem_read_def intro!: exI [of _ ?iovs] split: if_splits)
qed

lemma uiomove_loop_wp:
  assumes "uio_resid u \<le> length (uio_addrs u)" and "n \<le> uio_resid u" and "pos + n \<le> length buf"
  shows "out_wp (uiomove_loop pos n (buf, u)) (\<lambda>_. uio_moved pos n (buf, u))
    (\<lambda>e (buf', u'). uio_fault e u u' \<and> length buf' = length buf)"
  using assms
proof (induction pos n "(buf, u)" arbitrary: buf u rule: uiomove_loop.induct)
  case (1 pos n buf u)
  note pre = "1.prems"
  show ?case
  proof (cases "n = 0")
    case True
    then show ?thesis by (simp add: uiomove_loop.simps [of pos])
  next
    case False
    then have pos: "n > 0 \<and> uio_resid u > 0" using pre by simp
    then obtain v vs where v: "uio_iov u = v # vs"
      using pre by (cases "uio_iov u") (auto simp: uio_addrs_def)
    define sz where "sz = (if iov_len v > n then n else iov_len v)"
    show ?thesis
    proof (cases "sz = 0")
      case True
      let ?u = "u\<lparr>uio_iov := vs\<rparr>"
      have "iov_len v = 0" using True pos by (auto simp: sz_def split: if_splits)
      then have a: "uio_addrs ?u = uio_addrs u" by (simp add: uio_addrs_def v iov_addrs_def)
      have "vs \<noteq> []"
      proof
        assume "vs = []"
        then have "uio_addrs ?u = []" by (simp add: uio_addrs_def)
        with a pos pre show False by simp
      qed
      then have eq: "uiomove_loop pos n (buf, u) = uiomove_loop pos n (buf, ?u)"
        using pos True by (simp add: uiomove_loop.simps [of pos n buf u] v sz_def Let_def)
      have "out_wp (uiomove_loop pos n (buf, ?u)) (\<lambda>_. uio_moved pos n (buf, ?u))
        (\<lambda>e (buf', u'). uio_fault e ?u u' \<and> length buf' = length buf)"
        using "1.hyps"(1) [OF pos v sz_def True \<open>vs \<noteq> []\<close>] pre a by simp
      then show ?thesis unfolding eq
        by (rule out_wp_conseq) (auto simp: uio_moved_def a)
    next
      case False
      then have sz: "0 < sz" "sz \<le> n" "sz \<le> iov_len v" by (auto simp: sz_def)
      have eq: "uiomove_loop pos n (buf, u) =
        kbind (uio_copy (iov_base v) pos sz (buf, u)) (\<lambda>_ (buf, u).
          uiomove_loop (pos + sz) (n - sz)
            (buf, u\<lparr>uio_iov := \<lparr>iov_base = iov_base v + sz, iov_len = iov_len v - sz\<rparr> # vs,
                    uio_resid := wsub32 (uio_resid u) sz, uio_offset := uio_offset u + int sz\<rparr>))"
        using pos False by (simp add: uiomove_loop.simps [of pos n buf u] v sz_def Let_def)
      have ps: "pos + sz \<le> length buf" "sz \<le> uio_resid u" using sz pre by auto
      show ?thesis
        unfolding eq out_wp_kbind
      proof (rule out_wp_conseq [OF uio_copy_wp [OF ps(1)]], goal_cases)
        case (1 a bu1)
        obtain buf1 u1 where bu1: "bu1 = (buf1, u1)" by (cases bu1)
        let ?u2 = "u1\<lparr>uio_iov := \<lparr>iov_base = iov_base v + sz, iov_len = iov_len v - sz\<rparr> # vs,
                    uio_resid := wsub32 (uio_resid u1) sz, uio_offset := uio_offset u1 + int sz\<rparr>"
        have mv: "uio_moved pos sz (buf, u) (buf1, ?u2)"
          using uio_moved_step [OF v sz(3) ps(2,1)] 1(2) bu1 by simp
        have len: "length buf1 = length buf"
          using 1(2) bu1 ps by (cases "uio_rw u = UIO_READ") auto
        note fr = uio_moved_frame [OF mv]
        have "out_wp (uiomove_loop (pos + sz) (n - sz) (buf1, ?u2))
            (\<lambda>_. uio_moved (pos + sz) (n - sz) (buf1, ?u2))
            (\<lambda>e (buf', u'). uio_fault e ?u2 u' \<and> length buf' = length buf1)"
        proof (rule "1.hyps"(2) [OF pos v sz_def False])
          show "uio_resid ?u2 \<le> length (uio_addrs ?u2)" "n - sz \<le> uio_resid ?u2"
            unfolding fr using pre sz by auto
          show "pos + sz + (n - sz) \<le> length buf1" using len pre sz by simp
        qed
        then show ?case
          unfolding bu1 prod.case
        proof (rule out_wp_conseq, goal_cases)
          case (1 a s)
          obtain buf3 u3 where s: "s = (buf3, u3)" by (cases s)
          have "uio_moved pos (sz + (n - sz)) (buf, u) (buf3, u3)"
            using uio_moved_trans [OF mv, of "n - sz" buf3 u3] 1(2) s pre sz by simp
          then show ?case using s sz by simp
        next
          case (2 e s)
          then show ?case using fr len by simp
        qed
      next
        case (2 e s)
        then show ?case by simp
      qed
    qed
  qed
qed

lemma uiomove_wp:
  assumes "uio_ok u" and "n \<le> uio_resid u" and "n \<le> length buf"
  shows "out_wp (uiomove n (buf, u)) (\<lambda>_. uio_moved 0 n (buf, u))
    (\<lambda>e (buf', u'). uio_fault e u u' \<and> length buf' = length buf)"
  using uiomove_loop_wp [of u n 0 buf] assms by (auto simp: uiomove_def uio_ok_def)

section \<open>Filling and draining\<close>

text \<open>
  The two directions as clients see them: a read fills the next addresses of the uio with bytes,
  a write takes the next bytes out of it.
\<close>

definition uio_fill :: "u8 list \<Rightarrow> uio \<Rightarrow> uio \<Rightarrow> bool" where
  "uio_fill bs u u' \<longleftrightarrow> length bs \<le> uio_resid u \<and> uio_resid u \<le> length (uio_addrs u) \<and>
     (\<exists>iovs. concat (map iov_addrs iovs) = drop (length bs) (uio_addrs u) \<and>
        u' = u\<lparr>uio_iov := iovs, uio_offset := uio_offset u + int (length bs),
               uio_resid := uio_resid u - length bs,
               uio_mem := (uio_mem u)\<lparr>us_mem :=
                 mem_store (us_mem (uio_mem u)) (take (length bs) (uio_addrs u)) bs\<rparr>\<rparr>)"

definition uio_drain :: "u8 list \<Rightarrow> uio \<Rightarrow> uio \<Rightarrow> bool" where
  "uio_drain bs u u' \<longleftrightarrow> length bs \<le> uio_resid u \<and> uio_resid u \<le> length (uio_addrs u) \<and>
     bs = map (us_mem (uio_mem u)) (take (length bs) (uio_addrs u)) \<and>
     (\<exists>iovs. concat (map iov_addrs iovs) = drop (length bs) (uio_addrs u) \<and>
        u' = u\<lparr>uio_iov := iovs, uio_offset := uio_offset u + int (length bs),
               uio_resid := uio_resid u - length bs\<rparr>)"

lemma uio_fill_frame:
  assumes "uio_fill bs u u'"
  shows "uio_rw u' = uio_rw u" "uio_segflg u' = uio_segflg u" "uio_ok u \<Longrightarrow> uio_ok u'"
    "uio_resid u' = uio_resid u - length bs" "uio_offset u' = uio_offset u + int (length bs)"
    "uio_addrs u' = drop (length bs) (uio_addrs u)"
  using assms by (auto simp: uio_fill_def uio_ok_def uio_addrs_def)

lemma uio_drain_frame:
  assumes "uio_drain bs u u'"
  shows "uio_rw u' = uio_rw u" "uio_segflg u' = uio_segflg u" "uio_ok u \<Longrightarrow> uio_ok u'"
    "uio_resid u' = uio_resid u - length bs" "uio_offset u' = uio_offset u + int (length bs)"
    "uio_addrs u' = drop (length bs) (uio_addrs u)" "uio_mem u' = uio_mem u"
  using assms by (auto simp: uio_drain_def uio_ok_def uio_addrs_def)

lemma uio_fill_Nil [simp]: "uio_ok u \<Longrightarrow> uio_fill [] u u"
  by (cases u) (auto simp: uio_fill_def uio_ok_def uio_addrs_def)

lemma uio_drain_Nil [simp]: "uio_ok u \<Longrightarrow> uio_drain [] u u"
  by (cases u) (auto simp: uio_drain_def uio_ok_def uio_addrs_def)

lemma uio_fill_trans:
  assumes "uio_fill bs u u1" and "uio_fill cs u1 u2"
  shows "uio_fill (bs @ cs) u u2"
  using assms mem_store_append [of "take (length bs) (uio_addrs u)" bs]
  by (auto simp: uio_fill_def uio_addrs_def take_add add.commute)

lemma uio_drain_trans:
  assumes "uio_drain bs u u1" and "uio_drain cs u1 u2"
  shows "uio_drain (bs @ cs) u u2"
  using assms by (auto simp: uio_drain_def uio_addrs_def take_add add.commute)

lemma uiomove_read_wp:
  assumes "uio_ok u" and "n \<le> uio_resid u" and "n \<le> length buf" and "uio_rw u = UIO_READ"
  shows "out_wp (uiomove n (buf, u)) (\<lambda>_ (buf', u'). buf' = buf \<and> uio_fill (take n buf) u u')
    (\<lambda>e (buf', u'). uio_fault e u u' \<and> length buf' = length buf)"
proof (rule out_wp_conseq [OF uiomove_wp [OF assms(1-3)]], goal_cases)
  case (1 a s)
  then show ?case
    using assms by (cases s) (auto simp: uio_moved_def uio_fill_def uio_ok_def min_def)
qed auto

lemma uiomove_write_wp:
  assumes "uio_ok u" and "n \<le> uio_resid u" and "n \<le> length buf" and "uio_rw u = UIO_WRITE"
  shows "out_wp (uiomove n (buf, u))
    (\<lambda>_ (buf', u'). \<exists>bs. length bs = n \<and> buf' = buf_write buf 0 bs \<and> uio_drain bs u u')
    (\<lambda>e (buf', u'). uio_fault e u u' \<and> length buf' = length buf)"
proof (rule out_wp_conseq [OF uiomove_wp [OF assms(1-3)]], goal_cases)
  case (1 a s)
  have n: "n \<le> length (uio_addrs u)" using assms by (simp add: uio_ok_def)
  obtain buf' u' where s: "s = (buf', u')" by (cases s)
  let ?bs = "map (us_mem (uio_mem u)) (take n (uio_addrs u))"
  have "length ?bs = n \<and> buf' = buf_write buf 0 ?bs \<and> uio_drain ?bs u u'"
    using 1(2) s n assms by (auto simp: uio_moved_def uio_drain_def uio_ok_def min_absorb2)
  then show ?case unfolding s by blast
qed auto

lemma uiomovezeros_loop_wp:
  assumes "uio_ok u" and "n \<le> uio_resid u" and "uio_rw u = UIO_READ"
  shows "out_wp (uiomovezeros_loop n u) (\<lambda>_ u'. uio_fill (replicate n 0) u u')
    (\<lambda>e u'. uio_fault e u u')"
  using assms
proof (induction n u rule: uiomovezeros_loop.induct)
  case (1 n u)
  show ?case
  proof (cases "n > 0")
    case False
    then show ?thesis using "1.prems" by (simp add: uiomovezeros_loop.simps [of 0])
  next
    case True
    define amt where "amt = (if 16 > n then n else 16)"
    have amt: "amt \<le> n" "amt \<le> 16" using True by (auto simp: amt_def)
    have mv: "out_wp (uiomove amt (replicate 16 0, u))
      (\<lambda>_ (buf', u'). buf' = replicate 16 0 \<and> uio_fill (take amt (replicate 16 0)) u u')
      (\<lambda>e (buf', u'). uio_fault e u u' \<and>
        length buf' = length (replicate 16 (0::u8)))"
      using "1.prems" amt by (intro uiomove_read_wp) auto
    then show ?thesis
    proof (cases rule: out_wp_cases)
      case (Ok a s)
      obtain buf1 u1 where s: "s = (buf1, u1)" by (cases s)
      have fl: "uio_fill (replicate amt 0) u u1" using Ok s amt by (simp add: min_def)
      note fr = uio_fill_frame [OF fl]
      have "out_wp (uiomovezeros_loop (n - amt) u1) (\<lambda>_ u'. uio_fill (replicate (n - amt) 0) u1 u')
        (\<lambda>e u'. uio_fault e u1 u')"
        using "1.IH" [OF True amt_def Ok(1) s [symmetric]] "1.prems" fr amt by simp
      then have "out_wp (uiomovezeros_loop (n - amt) u1) (\<lambda>_ u'. uio_fill (replicate n 0) u u')
        (\<lambda>e u'. uio_fault e u u')"
      proof (rule out_wp_conseq, goal_cases)
        case (1 a u')
        then show ?case using uio_fill_trans [OF fl, of "replicate (n - amt) 0" u'] amt
          by (simp flip: replicate_add)
      next
        case (2 e u')
        then show ?case using fr by simp
      qed
      then show ?thesis
        using True Ok s by (simp add: uiomovezeros_loop.simps [of n] amt_def [symmetric] Let_def)
    next
      case (Err e s)
      then show ?thesis
        using True by (cases s) (simp add: uiomovezeros_loop.simps [of n] amt_def [symmetric] Let_def)
    qed
  qed
qed

lemma uiomovezeros_wp:
  assumes "uio_ok u" and "n \<le> uio_resid u" and "uio_rw u = UIO_READ"
  shows "out_wp (uiomovezeros n u) (\<lambda>_ u'. uio_fill (replicate n 0) u u')
    (\<lambda>e u'. uio_fault e u u')"
  using uiomovezeros_loop_wp [OF assms] assms by (simp add: uiomovezeros_def)

lemma uio_kinit_ok [simp]: "len < 2 ^ 32 \<Longrightarrow> uio_ok (uio_kinit m a len off rw)"
  by (simp add: uio_kinit_def uio_ok_def uio_addrs_def iov_addrs_def)

lemma uio_kinit_sel [simp]:
  "uio_rw (uio_kinit m a len off rw) = rw" "uio_resid (uio_kinit m a len off rw) = len"
  "uio_offset (uio_kinit m a len off rw) = off" "uio_segflg (uio_kinit m a len off rw) = UIO_SYSSPACE"
  "uio_addrs (uio_kinit m a len off rw) = [a..<a + len]" "us_mem (uio_mem (uio_kinit m a len off rw)) = m"
  by (simp_all add: uio_kinit_def uio_addrs_def iov_addrs_def)

section \<open>Properties\<close>

text \<open>\<open>uiomove\<close> moves exactly the requested bytes between the kernel buffer and the scattered blocks of
  the uio, in order and across block boundaries, and advances offset and residue by that amount; it
  can only fail on a faulting user address.\<close>

theorem uiomove_moves:
  assumes "uio_ok u" and "n \<le> uio_resid u" and "n \<le> length buf"
  shows "out_wp (uiomove n (buf, u)) (\<lambda>_. uio_moved 0 n (buf, u))
    (\<lambda>e (buf', u'). uio_fault e u u' \<and> length buf' = length buf)"
  using assms by (rule uiomove_wp)

theorem uiomove_moves_witness:
  "out_wp (uiomove 2 ([1, 2, 3], uio_kinit (\<lambda>_. 0) 10 2 0 UIO_READ))
    (\<lambda>_ (buf, u). uio_resid u = 0 \<and> us_mem (uio_mem u) 11 = 2) (\<lambda>_ _. False)"
proof -
  have "out_wp (uiomove 2 ([1, 2, 3], uio_kinit (\<lambda>_. 0) 10 2 0 UIO_READ))
    (\<lambda>_. uio_moved 0 2 ([1, 2, 3], uio_kinit (\<lambda>_. 0) 10 2 0 UIO_READ)) (\<lambda>_ _. False)"
    by (rule out_wp_conseq [OF uiomove_moves]) auto
  then show ?thesis
    by (rule out_wp_conseq) (auto simp: uio_moved_def uio_addrs_def iov_addrs_def uio_kinit_def mem_store_upt [of 2, simplified] mem_write_def)
qed

end
