(* ===== verification/Lhd.thy ===== *)
theory Lhd
  imports Uio
begin

text \<open>
  \<open>kern/dev/lamebus/lhd.c\<close>: the disk driver. The disk itself is the function \<open>lh_sectors\<close>; which
  result the hardware reports for the operations to come is the list \<open>lh_hw\<close> (success once the
  list is used up), so faults are part of the state and every run of the driver is a function.
  The semaphores are their counts: a \<open>P\<close> on zero would wait for a \<open>V\<close> that never comes.
\<close>

section \<open>Data and operations\<close>

abbreviation (input) LHD_SECTSIZE :: nat where "LHD_SECTSIZE \<equiv> 512"
abbreviation (input) LHD_IDLE :: nat where "LHD_IDLE \<equiv> 0"
abbreviation (input) LHD_WORKING :: nat where "LHD_WORKING \<equiv> 1"
abbreviation (input) LHD_ISWRITE :: nat where "LHD_ISWRITE \<equiv> 2"
abbreviation (input) LHD_OK :: nat where "LHD_OK \<equiv> 4"
abbreviation (input) LHD_INVSECT :: nat where "LHD_INVSECT \<equiv> 12"
abbreviation (input) LHD_MEDIA :: nat where "LHD_MEDIA \<equiv> 20"
abbreviation (input) LHD_STATEMASK :: nat where "LHD_STATEMASK \<equiv> 0x1d"

datatype hwresult = HwOk | HwInvsect | HwMedia

record lhd =
  d_blocks :: nat
  d_blocksize :: nat
  lh_sectors :: "nat \<Rightarrow> u8 list"
  lh_hw :: "hwresult list"
  lh_stat :: nat
  lh_sect :: nat
  lh_buf :: "u8 list"
  lh_result :: "errno option"
  lh_clear :: nat
  lh_done :: nat

definition lhd_code_to_errno :: "nat \<Rightarrow> errno option" where
  "lhd_code_to_errno code =
     (let c = and code LHD_STATEMASK in
      if c = LHD_OK then None
      else if c = LHD_INVSECT then Some EINVAL
      else if c = LHD_MEDIA then Some EIO
      else Some EAGAIN)"

definition lhd_iodone :: "errno option \<Rightarrow> lhd \<Rightarrow> lhd" where
  "lhd_iodone err lh = lh\<lparr>lh_result := err, lh_done := lh_done lh + 1\<rparr>"

definition lhd_irq :: "lhd \<Rightarrow> lhd" where
  "lhd_irq lh =
     (let val = lh_stat lh; c = and val LHD_STATEMASK in
      if c = LHD_IDLE \<or> c = LHD_WORKING then lh
      else if c = LHD_OK \<or> c = LHD_INVSECT \<or> c = LHD_MEDIA
      then lhd_iodone (lhd_code_to_errno val) (lh\<lparr>lh_stat := 0\<rparr>)
      else lh)"

text \<open>
  What the card does when an operation is started with the value \<open>statval\<close>: it transfers the
  sector between the disk and the on-card buffer unless it reports a failure, leaves the result in
  the status register and raises the interrupt.
\<close>

definition hw_code :: "hwresult \<Rightarrow> nat" where
  "hw_code r = (case r of HwOk \<Rightarrow> LHD_OK | HwInvsect \<Rightarrow> LHD_INVSECT | HwMedia \<Rightarrow> LHD_MEDIA)"

definition lhd_hw_run :: "nat \<Rightarrow> lhd \<Rightarrow> lhd" where
  "lhd_hw_run statval lh =
     (let r = (case lh_hw lh of [] \<Rightarrow> HwOk | r # _ \<Rightarrow> r);
          w = and statval LHD_ISWRITE \<noteq> 0;
          lh = lh\<lparr>lh_hw := tl (lh_hw lh), lh_stat := or (hw_code r) (and statval LHD_ISWRITE)\<rparr>
      in if r \<noteq> HwOk then lh
         else if w then lh\<lparr>lh_sectors := (lh_sectors lh)(lh_sect lh := lh_buf lh)\<rparr>
         else lh\<lparr>lh_buf := lh_sectors lh (lh_sect lh)\<rparr>)"

text \<open>Moving a sector between the on-card buffer and the uio.\<close>

definition lhd_bufmove :: "lhd \<times> uio \<Rightarrow> (unit, lhd \<times> uio) out" where
  "lhd_bufmove = (\<lambda>(lh, u).
     case uiomove LHD_SECTSIZE (lh_buf lh, u) of
       Ok _ (buf, u) \<Rightarrow> Ok () (lh\<lparr>lh_buf := buf\<rparr>, u)
     | Err e (buf, u) \<Rightarrow> Err e (lh\<lparr>lh_buf := buf\<rparr>, u)
     | Panic \<Rightarrow> Panic)"

text \<open>The \<open>P\<close> and \<open>V\<close> the driver does on its two semaphores.\<close>

definition P_clear :: "lhd \<Rightarrow> lhd option" where
  "P_clear lh = (if lh_clear lh > 0 then Some (lh\<lparr>lh_clear := lh_clear lh - 1\<rparr>) else None)"

definition V_clear :: "lhd \<Rightarrow> lhd" where
  "V_clear lh = lh\<lparr>lh_clear := lh_clear lh + 1\<rparr>"

definition P_done :: "lhd \<Rightarrow> lhd option" where
  "P_done lh = (if lh_done lh > 0 then Some (lh\<lparr>lh_done := lh_done lh - 1\<rparr>) else None)"

text \<open>One pass of the loop of \<open>lhd_io\<close>.\<close>

definition lhd_io_sector :: "nat \<Rightarrow> nat \<Rightarrow> lhd \<times> uio \<Rightarrow> (unit, lhd \<times> uio) out" where
  "lhd_io_sector sector statval = (\<lambda>(lh, u).
     case P_clear lh of
       None \<Rightarrow> Panic
     | Some lh \<Rightarrow>
         (case (if uio_rw u = UIO_WRITE then lhd_bufmove (lh, u) else Ok () (lh, u)) of
            Panic \<Rightarrow> Panic
          | Err e (lh, u) \<Rightarrow> Err e (V_clear lh, u)
          | Ok _ (lh, u) \<Rightarrow>
              (let lh = lh\<lparr>lh_sect := sector\<rparr>;
                   lh = lhd_irq (lhd_hw_run statval (lh\<lparr>lh_stat := statval\<rparr>)) in
               case P_done lh of
                 None \<Rightarrow> Panic
               | Some lh \<Rightarrow>
                   (case lh_result lh of
                      Some e \<Rightarrow> Err e (V_clear lh, u)
                    | None \<Rightarrow>
                        if uio_rw u = UIO_READ
                        then (case lhd_bufmove (lh, u) of
                                Ok _ (lh, u) \<Rightarrow> Ok () (V_clear lh, u)
                              | Err e (lh, u) \<Rightarrow> Err e (V_clear lh, u)
                              | Panic \<Rightarrow> Panic)
                        else Ok () (V_clear lh, u)))))"

fun lhd_io_loop :: "nat \<Rightarrow> nat \<Rightarrow> nat \<Rightarrow> nat \<Rightarrow> lhd \<times> uio \<Rightarrow> (unit, lhd \<times> uio) out" where
  "lhd_io_loop sector statval i 0 s = Ok () s"
| "lhd_io_loop sector statval i (Suc k) s =
     kbind (lhd_io_sector (wadd32 sector i) statval s)
       (\<lambda>_ s. lhd_io_loop sector statval (Suc i) k s)"

definition lhd_io :: "lhd \<times> uio \<Rightarrow> (unit, lhd \<times> uio) out" where
  "lhd_io = (\<lambda>(lh, u).
     let sector = to_u32 (uio_offset u sdiv int LHD_SECTSIZE);
         sectoff = to_u32 (uio_offset u smod int LHD_SECTSIZE);
         len = uio_resid u div LHD_SECTSIZE;
         lenoff = uio_resid u mod LHD_SECTSIZE;
         statval = (if uio_rw u = UIO_WRITE then or LHD_WORKING LHD_ISWRITE else LHD_WORKING)
     in if sectoff \<noteq> 0 \<or> lenoff \<noteq> 0 then Err EINVAL (lh, u)
        else if wadd32 sector len > d_blocks lh then Err EINVAL (lh, u)
        else lhd_io_loop sector statval 0 len (lh, u))"

section \<open>One sector\<close>

text \<open>The part of the device a filesystem can observe: everything but the registers, the on-card
  buffer and what the hardware will report next.\<close>

definition lhd_same :: "lhd \<Rightarrow> lhd \<Rightarrow> bool" where
  "lhd_same d d' \<longleftrightarrow> d_blocks d' = d_blocks d \<and> d_blocksize d' = d_blocksize d \<and>
     lh_sectors d' = lh_sectors d \<and> lh_clear d' = lh_clear d \<and> lh_done d' = lh_done d \<and>
     length (lh_buf d') = length (lh_buf d) \<and> (\<exists>n. lh_hw d' = drop n (lh_hw d))"

definition lhd_inv :: "lhd \<Rightarrow> bool" where
  "lhd_inv d \<longleftrightarrow> lh_clear d > 0 \<and> length (lh_buf d) = 512 \<and> d_blocks d < 2 ^ 32 \<and>
     (\<forall>b. length (lh_sectors d b) = 512)"

text \<open>A device that reports no failure.\<close>

definition lhd_healthy :: "lhd \<Rightarrow> bool" where
  "lhd_healthy d \<longleftrightarrow> (\<forall>r \<in> set (lh_hw d). r = HwOk)"

lemma lhd_same_refl [simp]: "lhd_same d d"
  by (auto simp: lhd_same_def intro: exI [of _ 0])

lemma lhd_same_trans: "lhd_same d d1 \<Longrightarrow> lhd_same d1 d2 \<Longrightarrow> lhd_same d d2"
  by (auto simp: lhd_same_def)

lemma lhd_same_inv: "lhd_same d d' \<Longrightarrow> lhd_inv d \<Longrightarrow> lhd_inv d'"
  by (auto simp: lhd_same_def lhd_inv_def)

lemma lhd_same_healthy: "lhd_same d d' \<Longrightarrow> lhd_healthy d \<Longrightarrow> lhd_healthy d'"
  unfolding lhd_same_def lhd_healthy_def by (metis in_set_dropD)

text \<open>What starting an operation and taking its interrupt amounts to.\<close>

definition lhd_outcome :: "hwresult \<Rightarrow> errno option" where
  "lhd_outcome r = (case r of HwOk \<Rightarrow> None | HwInvsect \<Rightarrow> Some EINVAL | HwMedia \<Rightarrow> Some EIO)"

definition lhd_next :: "lhd \<Rightarrow> hwresult" where
  "lhd_next d = (case lh_hw d of [] \<Rightarrow> HwOk | r # _ \<Rightarrow> r)"

lemma lhd_healthy_next: "lhd_healthy d \<Longrightarrow> lhd_next d = HwOk"
  by (auto simp: lhd_healthy_def lhd_next_def split: list.splits)

lemma lhd_irq_read:
  "lhd_irq (lhd_hw_run 1 d) =
    (if lhd_next d = HwOk then d\<lparr>lh_buf := lh_sectors d (lh_sect d)\<rparr> else d)
      \<lparr>lh_hw := tl (lh_hw d), lh_stat := 0, lh_result := lhd_outcome (lhd_next d), lh_done := lh_done d + 1\<rparr>"
  by (cases "lhd_next d")
    (auto simp: lhd_irq_def lhd_hw_run_def hw_code_def lhd_iodone_def lhd_code_to_errno_def
      lhd_outcome_def lhd_next_def Let_def split: list.splits)

lemma lhd_irq_write:
  "lhd_irq (lhd_hw_run 3 d) =
    (if lhd_next d = HwOk then d\<lparr>lh_sectors := (lh_sectors d)(lh_sect d := lh_buf d)\<rparr> else d)
      \<lparr>lh_hw := tl (lh_hw d), lh_stat := 0, lh_result := lhd_outcome (lhd_next d), lh_done := lh_done d + 1\<rparr>"
  by (cases "lhd_next d")
    (auto simp: lhd_irq_def lhd_hw_run_def hw_code_def lhd_iodone_def lhd_code_to_errno_def
      lhd_outcome_def lhd_next_def Let_def split: list.splits)

lemma lhd_outcome_None [simp]: "lhd_outcome r = None \<longleftrightarrow> r = HwOk"
  by (cases r) (auto simp: lhd_outcome_def)

lemma lhd_outcome_HwOk [simp]: "lhd_outcome HwOk = None"
  by simp

lemma lhd_next_update [simp]:
  "lhd_next (d\<lparr>lh_clear := n\<rparr>) = lhd_next d" "lhd_next (d\<lparr>lh_sect := n\<rparr>) = lhd_next d"
  "lhd_next (d\<lparr>lh_stat := n\<rparr>) = lhd_next d" "lhd_next (d\<lparr>lh_buf := bs\<rparr>) = lhd_next d"
  by (simp_all add: lhd_next_def)

lemma tl_is_drop: "\<exists>n. tl xs = drop n xs"
  by (metis drop_Suc drop_0)

lemma lhd_bufmove_read:
  assumes "length (lh_buf d) = 512" and "uio_ok u" and "512 \<le> uio_resid u" and "uio_rw u = UIO_READ"
  shows "out_wp (lhd_bufmove (d, u)) (\<lambda>_ (d', u'). d' = d \<and> uio_fill (lh_buf d) u u')
    (\<lambda>e (d', u'). (\<exists>bs. length bs = 512 \<and> d' = d\<lparr>lh_buf := bs\<rparr>) \<and>
      uio_fault e u u')"
  using uiomove_read_wp [OF assms(2,3), of "lh_buf d"] assms
  by (cases "uiomove 512 (lh_buf d, u)") (auto simp: lhd_bufmove_def)

lemma lhd_bufmove_write:
  assumes "length (lh_buf d) = 512" and "uio_ok u" and "512 \<le> uio_resid u" and "uio_rw u = UIO_WRITE"
  shows "out_wp (lhd_bufmove (d, u))
    (\<lambda>_ (d', u'). \<exists>bs. length bs = 512 \<and> d' = d\<lparr>lh_buf := bs\<rparr> \<and> uio_drain bs u u')
    (\<lambda>e (d', u'). (\<exists>bs. length bs = 512 \<and> d' = d\<lparr>lh_buf := bs\<rparr>) \<and>
      uio_fault e u u')"
  using uiomove_write_wp [OF assms(2,3), of "lh_buf d"] assms
  by (cases "uiomove 512 (lh_buf d, u)") (auto simp: lhd_bufmove_def buf_write_all)

text \<open>
  A read of one sector delivers it to the uio; a failure reported by the hardware leaves the uio
  where it was.
\<close>

lemma lhd_read_sector:
  assumes "lhd_inv d" and "uio_ok u" and "512 \<le> uio_resid u" and "uio_rw u = UIO_READ"
  shows "out_wp (lhd_io_sector b 1 (d, u))
    (\<lambda>_ (d', u'). lhd_same d d' \<and> uio_fill (lh_sectors d b) u u')
    (\<lambda>e (d', u'). lhd_same d d' \<and> (uio_fault e u u' \<or>
       lhd_next d \<noteq> HwOk \<and> u' = u \<and> lhd_outcome (lhd_next d) = Some e))"
proof -
  have cl: "lh_clear d > 0" and ln: "\<And>k. length (lh_sectors d k) = 512" "length (lh_buf d) = 512"
    using assms(1) by (auto simp: lhd_inv_def)
  note tl = tl_is_drop [of "lh_hw d"]
  show ?thesis
  proof (cases "lhd_next d = HwOk")
    case False
    then obtain e where "lhd_outcome (lhd_next d) = Some e" by (cases "lhd_outcome (lhd_next d)") auto
    then show ?thesis using False cl tl assms(4)
      by (auto simp: lhd_io_sector_def P_clear_def P_done_def V_clear_def lhd_irq_read [simplified] lhd_same_def Let_def)
  next
    case True
    let ?d = "d\<lparr>lh_clear := lh_clear d - 1, lh_sect := b, lh_buf := lh_sectors d b,
      lh_hw := tl (lh_hw d), lh_stat := 0, lh_result := None\<rparr>"
    have eq: "lhd_io_sector b 1 (d, u) = (case lhd_bufmove (?d, u) of
        Ok _ (lh, u) \<Rightarrow> Ok () (V_clear lh, u) | Err e (lh, u) \<Rightarrow> Err e (V_clear lh, u) | Panic \<Rightarrow> Panic)"
      using True cl assms(4)
      by (simp add: lhd_io_sector_def P_clear_def P_done_def lhd_irq_read [simplified] Let_def)
    have "out_wp (lhd_bufmove (?d, u)) (\<lambda>_ (d', u'). d' = ?d \<and> uio_fill (lh_buf ?d) u u')
      (\<lambda>e (d', u'). (\<exists>bs. length bs = 512 \<and> d' = ?d\<lparr>lh_buf := bs\<rparr>) \<and>
        uio_fault e u u')"
      using assms ln by (intro lhd_bufmove_read) auto
    then show ?thesis
      unfolding eq using cl tl ln
      by (cases rule: out_wp_cases) (auto simp: V_clear_def lhd_same_def)
  qed
qed

text \<open>
  A write of one sector takes 512 bytes out of the uio and puts them on the disk. A failure
  reported by the hardware leaves the disk as it was, but the uio has already been consumed.
\<close>

lemma lhd_write_sector:
  assumes "lhd_inv d" and "uio_ok u" and "512 \<le> uio_resid u" and "uio_rw u = UIO_WRITE"
  shows "out_wp (lhd_io_sector b 3 (d, u))
    (\<lambda>_ (d', u'). \<exists>bs. length bs = 512 \<and> uio_drain bs u u' \<and>
       lhd_same (d\<lparr>lh_sectors := (lh_sectors d)(b := bs)\<rparr>) d' \<and> lhd_next d = HwOk)
    (\<lambda>e (d', u'). lhd_same d d' \<and> (uio_fault e u u' \<or>
       lhd_outcome (lhd_next d) = Some e \<and> (\<exists>bs. length bs = 512 \<and> uio_drain bs u u')))"
proof -
  have cl: "lh_clear d > 0" and ln: "length (lh_buf d) = 512"
    using assms(1) by (auto simp: lhd_inv_def)
  note tl = tl_is_drop [of "lh_hw d"]
  let ?d = "d\<lparr>lh_clear := lh_clear d - 1\<rparr>"
  have "out_wp (lhd_bufmove (?d, u))
      (\<lambda>_ (d', u'). \<exists>bs. length bs = 512 \<and> d' = ?d\<lparr>lh_buf := bs\<rparr> \<and> uio_drain bs u u')
      (\<lambda>e (d', u'). (\<exists>bs. length bs = 512 \<and> d' = ?d\<lparr>lh_buf := bs\<rparr>) \<and>
        uio_fault e u u')"
    using assms ln by (intro lhd_bufmove_write) auto
  then show ?thesis
  proof (cases rule: out_wp_cases)
    case (Err e s)
    then show ?thesis using cl assms(4) ln
      by (cases s) (auto simp: lhd_io_sector_def P_clear_def V_clear_def lhd_same_def intro: exI [of _ 0])
  next
    case (Ok a s)
    then obtain bs u1 where s: "s = (?d\<lparr>lh_buf := bs\<rparr>, u1)" "length bs = 512" "uio_drain bs u u1"
      by (cases s) auto
    have rw: "uio_rw u1 = UIO_WRITE" using uio_drain_frame [OF s(3)] assms(4) by simp
    show ?thesis
    proof (cases "lhd_outcome (lhd_next d)")
      case None
      then have "lhd_next d = HwOk" by simp
      then show ?thesis using Ok s rw cl assms(4) tl ln
        by (auto simp: lhd_io_sector_def P_clear_def P_done_def V_clear_def lhd_irq_write
            lhd_same_def Let_def intro!: exI [of _ bs])
    next
      case (Some e)
      then have "lhd_next d \<noteq> HwOk" by auto
      then show ?thesis using Some Ok s rw cl assms(4) tl ln
        by (auto simp: lhd_io_sector_def P_clear_def P_done_def V_clear_def lhd_irq_write
            lhd_same_def Let_def)
    qed
  qed
qed

section \<open>One block\<close>

lemma lhd_io_one:
  assumes "b < d_blocks d" and "d_blocks d < 2 ^ 32" and "uio_offset u = int b * 512"
    and "uio_resid u = 512"
  shows "lhd_io (d, u) = lhd_io_sector b (if uio_rw u = UIO_WRITE then 3 else 1) (d, u)"
proof -
  have s: "(int b * 512) sdiv 512 = int b" "(int b * 512) smod 512 = 0"
    by (simp_all add: signed_divide_int_def signed_modulo_int_def sgn_if)
  have l: "(\<lambda>_::unit. lhd_io_loop b w (Suc 0) 0) = (\<lambda>_ s. Ok () s)" for w
    by (intro ext) simp
  show ?thesis
    using assms by (simp add: lhd_io_def s Let_def to_u32_def l)
qed

lemma lhd_io_empty:
  assumes "b \<le> d_blocks d" and "d_blocks d < 2 ^ 32" and "uio_offset u = int b * 512"
    and "uio_resid u = 0"
  shows "lhd_io (d, u) = Ok () (d, u)"
proof -
  have s: "(int b * 512) sdiv 512 = int b" "(int b * 512) smod 512 = 0"
    by (simp_all add: signed_divide_int_def signed_modulo_int_def sgn_if)
  then show ?thesis
    using assms by (simp add: lhd_io_def s Let_def to_u32_def)
qed

text \<open>Whatever happens, the driver gives its semaphores back.\<close>

definition lhd_sems :: "lhd \<Rightarrow> lhd \<Rightarrow> bool" where
  "lhd_sems d d' \<longleftrightarrow> lh_clear d' = lh_clear d \<and> lh_done d' = lh_done d"

lemma lhd_bufmove_sems:
  "lhd_bufmove (d, u) = Ok a (d', u') \<Longrightarrow> \<exists>bs. d' = d\<lparr>lh_buf := bs\<rparr>"
  "lhd_bufmove (d, u) = Err e (d', u') \<Longrightarrow> \<exists>bs. d' = d\<lparr>lh_buf := bs\<rparr>"
  by (auto simp: lhd_bufmove_def split: out.splits)

lemma lhd_start_sems:
  assumes "w \<in> {1, 3}"
  shows "\<exists>d'. P_done (lhd_irq (lhd_hw_run w d)) = Some d' \<and> lhd_sems d d'"
  using assms by (auto simp: lhd_irq_read [simplified] lhd_irq_write P_done_def lhd_sems_def)

lemma lhd_io_sector_sems:
  assumes "w \<in> {1, 3}" and "lh_clear d > 0"
  shows "lhd_io_sector b w (d, u) = Ok a (d', u') \<Longrightarrow> lhd_sems d d'"
    and "lhd_io_sector b w (d, u) = Err e (d', u') \<Longrightarrow> lhd_sems d d'"
proof -
  have st: "lh_clear d2 = lh_clear d1 \<and> lh_done d2 = lh_done d1"
    if "P_done (lhd_irq (lhd_hw_run w d1)) = Some d2" for d1 d2
    using lhd_start_sems [OF assms(1), of d1] that by (auto simp: lhd_sems_def)
  show "lhd_io_sector b w (d, u) = Ok a (d', u') \<Longrightarrow> lhd_sems d d'"
    using assms(2)
    by (auto simp: lhd_io_sector_def P_clear_def V_clear_def lhd_sems_def Let_def
        split: out.splits option.splits if_splits dest!: lhd_bufmove_sems st)
  show "lhd_io_sector b w (d, u) = Err e (d', u') \<Longrightarrow> lhd_sems d d'"
    using assms(2)
    by (auto simp: lhd_io_sector_def P_clear_def V_clear_def lhd_sems_def Let_def
        split: out.splits option.splits if_splits dest!: lhd_bufmove_sems st)
qed

lemma lhd_io_loop_sems:
  assumes "w \<in> {1, 3}" and "lh_clear d > 0"
  shows "(lhd_io_loop sec w i k (d, u) = Ok a (d', u') \<longrightarrow> lhd_sems d d') \<and>
    (lhd_io_loop sec w i k (d, u) = Err e (d', u') \<longrightarrow> lhd_sems d d')"
  using assms(2)
proof (induction k arbitrary: i d u)
  case 0
  then show ?case by (simp add: lhd_sems_def)
next
  case (Suc k)
  show ?case
  proof (cases "lhd_io_sector (wadd32 sec i) w (d, u)")
    case (Ok x s)
    obtain d1 u1 where s: "s = (d1, u1)" by (cases s)
    have "lhd_sems d d1" using lhd_io_sector_sems(1) [OF assms(1) Suc.prems] Ok s by blast
    then show ?thesis using Suc.IH [of d1 "Suc i" u1] Suc.prems Ok s by (auto simp: lhd_sems_def)
  next
    case (Err x s)
    then show ?thesis
      using lhd_io_sector_sems(2) [OF assms(1) Suc.prems] by (cases s) auto
  qed simp
qed

lemma lhd_io_sems:
  assumes "lh_clear d > 0"
  shows "lhd_io (d, u) = Ok a (d', u') \<Longrightarrow> lhd_sems d d'"
    and "lhd_io (d, u) = Err e (d', u') \<Longrightarrow> lhd_sems d d'"
  using lhd_io_loop_sems [of 1 d] lhd_io_loop_sems [of 3 d] assms
  by (auto simp: lhd_io_def Let_def lhd_sems_def split: if_splits)

end
