(* ===== verification/Bitmap.thy ===== *)
theory Bitmap
  imports Prelude
begin

text \<open>
  \<open>kern/lib/bitmap.c\<close>: a fixed-size array of bits kept in bytes, used by SFS as its free-block
  map. The abstract view of a bitmap is the set of its used indices; the theory proves that every
  operation refines the obvious operation on that set and keeps the representation invariant
  (the byte array has exactly the rounded-up size and its left-over bits are marked in use).
\<close>

section \<open>Data and operations\<close>

record bitmap =
  nbits :: nat
  bm_v :: "u8 list"

abbreviation (input) BITS_PER_WORD :: nat where "BITS_PER_WORD \<equiv> 8"
abbreviation (input) WORD_ALLBITS :: u8 where "WORD_ALLBITS \<equiv> 0xff"

definition DIVROUNDUP :: "nat \<Rightarrow> nat \<Rightarrow> nat" where
  "DIVROUNDUP a b = wadd32 a (b - 1) div b"

text \<open>The loop that marks the bits from \<open>j\<close> on in word \<open>ix\<close>.\<close>

function bitmap_markfrom :: "nat \<Rightarrow> nat \<Rightarrow> u8 list \<Rightarrow> u8 list" where
  "bitmap_markfrom ix j v =
     (if j < BITS_PER_WORD
      then bitmap_markfrom ix (Suc j) (v[ix := or (v ! ix) (push_bit j 1)]) else v)"
  by pat_completeness auto
termination by (relation "measure (\<lambda>(ix, j, v). 8 - j)") auto

declare bitmap_markfrom.simps [simp del]

text \<open>
  \<open>bitmap_create\<close>: \<open>m1\<close> and \<open>m2\<close> say whether the two \<open>kmalloc\<close> calls succeed; the value is
  \<open>None\<close> where the code returns \<open>NULL\<close>.
\<close>

definition bitmap_create :: "bool \<Rightarrow> bool \<Rightarrow> nat \<Rightarrow> (bitmap option, unit) out" where
  "bitmap_create m1 m2 n =
     (let words = DIVROUNDUP n BITS_PER_WORD in
      if \<not> m1 then Ok None ()
      else if \<not> m2 then Ok None ()
      else
        let b = \<lparr>nbits = n, bm_v = replicate words 0\<rparr> in
        if words > n div BITS_PER_WORD then
          (let ix = words - 1; overbits = n - ix * BITS_PER_WORD in
           kassert (n div BITS_PER_WORD = words - 1)
             (kassert (overbits > 0 \<and> overbits < BITS_PER_WORD)
               (Ok (Some (b\<lparr>bm_v := bitmap_markfrom ix overbits (bm_v b)\<rparr>)) ())))
        else Ok (Some b) ())"

definition bitmap_getdata :: "bitmap \<Rightarrow> u8 list" where
  "bitmap_getdata b = bm_v b"

text \<open>The inner loop of \<open>bitmap_alloc\<close>: the first clear bit of a word from \<open>offset\<close> on.\<close>

function bitmap_findbit :: "u8 \<Rightarrow> nat \<Rightarrow> nat option" where
  "bitmap_findbit w offset =
     (if offset < BITS_PER_WORD
      then (let mask = push_bit offset 1 in
            if and w mask = 0 then Some offset else bitmap_findbit w (Suc offset))
      else None)"
  by pat_completeness auto
termination by (relation "measure (\<lambda>(w, j). 8 - j)") auto

declare bitmap_findbit.simps [simp del]

text \<open>The outer loop; \<open>KASSERT(0)\<close> is reached when the inner loop finds nothing.\<close>

function bitmap_allocfrom :: "nat \<Rightarrow> nat \<Rightarrow> bitmap \<Rightarrow> (nat, bitmap) out" where
  "bitmap_allocfrom ix maxix b =
     (if ix < maxix
      then (if bm_v b ! ix \<noteq> WORD_ALLBITS
            then (case bitmap_findbit (bm_v b ! ix) 0 of
                    Some offset \<Rightarrow>
                      (let b' = b\<lparr>bm_v := (bm_v b)[ix := or (bm_v b ! ix) (push_bit offset 1)]\<rparr>;
                           index = ix * BITS_PER_WORD + offset
                       in kassert (index < nbits b') (Ok index b'))
                  | None \<Rightarrow> Panic)
            else bitmap_allocfrom (Suc ix) maxix b)
      else Err ENOSPC b)"
  by pat_completeness auto
termination by (relation "measure (\<lambda>(ix, maxix, b). maxix - ix)") auto

declare bitmap_allocfrom.simps [simp del]

definition bitmap_alloc :: "bitmap \<Rightarrow> (nat, bitmap) out" where
  "bitmap_alloc b = bitmap_allocfrom 0 (DIVROUNDUP (nbits b) BITS_PER_WORD) b"

definition bitmap_translate :: "nat \<Rightarrow> nat \<times> u8" where
  "bitmap_translate bitno = (bitno div BITS_PER_WORD, push_bit (bitno mod BITS_PER_WORD) 1)"

definition bitmap_mark :: "nat \<Rightarrow> bitmap \<Rightarrow> (unit, bitmap) out" where
  "bitmap_mark index b =
     kassert (index < nbits b)
       (let (ix, mask) = bitmap_translate index in
        kassert (and (bm_v b ! ix) mask = 0)
          (Ok () (b\<lparr>bm_v := (bm_v b)[ix := or (bm_v b ! ix) mask]\<rparr>)))"

definition bitmap_unmark :: "nat \<Rightarrow> bitmap \<Rightarrow> (unit, bitmap) out" where
  "bitmap_unmark index b =
     kassert (index < nbits b)
       (let (ix, mask) = bitmap_translate index in
        kassert (and (bm_v b ! ix) mask \<noteq> 0)
          (Ok () (b\<lparr>bm_v := (bm_v b)[ix := and (bm_v b ! ix) (not mask)]\<rparr>)))"

definition bitmap_isset :: "bitmap \<Rightarrow> nat \<Rightarrow> bool" where
  "bitmap_isset b index =
     (let (ix, mask) = bitmap_translate index in and (bm_v b ! ix) mask \<noteq> 0)"

section \<open>Abstraction and invariant\<close>

definition bm_bit :: "u8 list \<Rightarrow> nat \<Rightarrow> bool" where
  "bm_bit v i \<longleftrightarrow> bit (v ! (i div 8)) (i mod 8)"

definition bitmap_used :: "bitmap \<Rightarrow> nat set" where
  "bitmap_used b = {i. i < nbits b \<and> bm_bit (bm_v b) i}"

definition bitmap_inv :: "bitmap \<Rightarrow> bool" where
  "bitmap_inv b \<longleftrightarrow> nbits b + 7 < 2 ^ 32 \<and> length (bm_v b) = (nbits b + 7) div 8 \<and>
     (\<forall>i. nbits b \<le> i \<and> i < 8 * length (bm_v b) \<longrightarrow> bm_bit (bm_v b) i)"

lemma u8_eq_iff: "(v::u8) = w \<longleftrightarrow> (\<forall>j<8. bit v j = bit w j)"
  by (auto intro: bit_word_eqI)

lemma and_mask_zero_iff [simp]: "j < 8 \<Longrightarrow> and (w::u8) (2 ^ j) = 0 \<longleftrightarrow> \<not> bit w j"
  by (auto simp: u8_eq_iff bit_simps)

lemma bit_or_mask [simp]: "j < 8 \<Longrightarrow> bit (or (w::u8) (2 ^ j)) k \<longleftrightarrow> bit w k \<or> k = j"
  by (auto simp: bit_simps)

lemma bit_andnot_mask [simp]:
  "j < 8 \<Longrightarrow> bit (and (w::u8) (not (2 ^ j))) k \<longleftrightarrow> bit w k \<and> k \<noteq> j"
  by (auto simp: bit_simps dest: bit_imp_le_length)

lemma allbits_iff: "(w::u8) = 0xff \<longleftrightarrow> (\<forall>j<8. bit w j)"
proof -
  have "bit (0xff::u8) j" if "j < 8" for j
  proof -
    have "(0xff::u8) = - 1" by simp
    with that show ?thesis by (simp only: bit_minus_1_iff) simp
  qed
  then show ?thesis by (auto simp: u8_eq_iff)
qed

lemma bm_bit_update:
  assumes "i < 8 * length v"
  shows "bm_bit (v[ix := w]) i \<longleftrightarrow> (if i div 8 = ix then bit w (i mod 8) else bm_bit v i)"
  using assms by (auto simp: bm_bit_def nth_list_update)

lemma DIVROUNDUP_8 [simp]: "n + 7 < 2 ^ 32 \<Longrightarrow> DIVROUNDUP n 8 = (n + 7) div 8"
  by (simp add: DIVROUNDUP_def)

lemma bitmap_inv_index: "bitmap_inv b \<Longrightarrow> i < nbits b \<Longrightarrow> i < 8 * length (bm_v b)"
  by (simp add: bitmap_inv_def)

lemma div_mod_8_eq: "(i::nat) div 8 = k div 8 \<Longrightarrow> i mod 8 = k mod 8 \<Longrightarrow> i = k"
  by (metis div_mult_mod_eq)

lemma bitmap_set_bit:
  assumes "bitmap_inv b" and "k < nbits b"
  defines "b' \<equiv> b\<lparr>bm_v := (bm_v b)[k div 8 := or (bm_v b ! (k div 8)) (2 ^ (k mod 8))]\<rparr>"
  shows "bitmap_used b' = insert k (bitmap_used b)" and "bitmap_inv b'"
proof -
  have *: "bm_bit (bm_v b') i \<longleftrightarrow> bm_bit (bm_v b) i \<or> i = k" if "i < 8 * length (bm_v b)" for i
    using that by (auto simp: b'_def bm_bit_update) (auto simp: bm_bit_def intro: div_mod_8_eq)
  show "bitmap_used b' = insert k (bitmap_used b)"
    using * bitmap_inv_index [OF assms(1)] assms(2)
    by (auto simp: bitmap_used_def b'_def)
  show "bitmap_inv b'"
    using * assms(1) by (auto simp: bitmap_inv_def b'_def)
qed

lemma bitmap_clear_bit:
  assumes "bitmap_inv b" and "k < nbits b"
  defines "b' \<equiv> b\<lparr>bm_v := (bm_v b)[k div 8 := and (bm_v b ! (k div 8)) (not (2 ^ (k mod 8)))]\<rparr>"
  shows "bitmap_used b' = bitmap_used b - {k}" and "bitmap_inv b'"
proof -
  have *: "bm_bit (bm_v b') i \<longleftrightarrow> bm_bit (bm_v b) i \<and> i \<noteq> k" if "i < 8 * length (bm_v b)" for i
    using that by (auto simp: b'_def bm_bit_update) (auto simp: bm_bit_def intro: div_mod_8_eq)
  show "bitmap_used b' = bitmap_used b - {k}"
    using * bitmap_inv_index [OF assms(1)] assms(2)
    by (auto simp: bitmap_used_def b'_def)
  show "bitmap_inv b'"
    using * assms(1,2) by (auto simp: bitmap_inv_def b'_def)
qed

section \<open>Every operation refines the operation on the set of used indices\<close>

lemma bitmap_isset_iff [simp]: "i < nbits b \<Longrightarrow> bitmap_isset b i \<longleftrightarrow> i \<in> bitmap_used b"
  by (simp add: bitmap_isset_def bitmap_translate_def bitmap_used_def bm_bit_def)

lemma bitmap_mark_wp [wp]:
  assumes "bitmap_inv b"
  shows "out_wp (bitmap_mark i b) Q E \<longleftrightarrow> i < nbits b \<and> i \<notin> bitmap_used b \<and>
    Q () (b\<lparr>bm_v := (bm_v b)[i div 8 := or (bm_v b ! (i div 8)) (2 ^ (i mod 8))]\<rparr>)"
  by (auto simp: bitmap_mark_def bitmap_translate_def bitmap_used_def bm_bit_def wp)

lemma bitmap_unmark_wp [wp]:
  assumes "bitmap_inv b"
  shows "out_wp (bitmap_unmark i b) Q E \<longleftrightarrow> i \<in> bitmap_used b \<and>
    Q () (b\<lparr>bm_v := (bm_v b)[i div 8 := and (bm_v b ! (i div 8)) (not (2 ^ (i mod 8)))]\<rparr>)"
  by (auto simp: bitmap_unmark_def bitmap_translate_def bitmap_used_def bm_bit_def wp)

lemma bitmap_mark_spec:
  assumes "bitmap_inv b" and "i < nbits b" and "i \<notin> bitmap_used b"
  shows "\<exists>b'. bitmap_mark i b = Ok () b' \<and> bitmap_inv b' \<and> nbits b' = nbits b \<and>
    bitmap_used b' = insert i (bitmap_used b)"
proof -
  have "out_wp (bitmap_mark i b) (\<lambda>_ b'. bitmap_inv b' \<and> nbits b' = nbits b \<and>
    bitmap_used b' = insert i (bitmap_used b)) (\<lambda>_ _. False)"
    using assms bitmap_set_bit [OF assms(1,2)] by (simp add: bitmap_mark_wp)
  then show ?thesis by (auto dest!: out_wp_total)
qed

lemma bitmap_unmark_spec:
  assumes "bitmap_inv b" and "i \<in> bitmap_used b"
  shows "\<exists>b'. bitmap_unmark i b = Ok () b' \<and> bitmap_inv b' \<and> nbits b' = nbits b \<and>
    bitmap_used b' = bitmap_used b - {i}"
proof -
  have i: "i < nbits b" using assms(2) by (simp add: bitmap_used_def)
  have "out_wp (bitmap_unmark i b) (\<lambda>_ b'. bitmap_inv b' \<and> nbits b' = nbits b \<and>
    bitmap_used b' = bitmap_used b - {i}) (\<lambda>_ _. False)"
    using assms bitmap_clear_bit [OF assms(1) i] by (simp add: bitmap_unmark_wp)
  then show ?thesis by (auto dest!: out_wp_total)
qed

lemma bitmap_unmark_ok:
  assumes "bitmap_unmark i b = Ok u b'" and "bitmap_inv b"
  shows "i \<in> bitmap_used b \<and> bitmap_inv b' \<and> nbits b' = nbits b \<and> bitmap_used b' = bitmap_used b - {i}"
proof -
  have "i \<in> bitmap_used b"
    using assms(1) by (simp add: bitmap_unmark_def bitmap_translate_def bitmap_used_def bm_bit_def)
  then show ?thesis using bitmap_unmark_spec [OF assms(2)] assms(1) by force
qed

lemma bitmap_findbit_spec:
  "case bitmap_findbit w j of
     None \<Rightarrow> \<forall>k. j \<le> k \<and> k < 8 \<longrightarrow> bit w k
   | Some k \<Rightarrow> j \<le> k \<and> k < 8 \<and> \<not> bit w k \<and> (\<forall>l. j \<le> l \<and> l < k \<longrightarrow> bit w l)"
proof (induction w j rule: bitmap_findbit.induct)
  case (1 w j)
  show ?case
  proof (cases "j < 8 \<and> bit w j")
    case True
    then have "case bitmap_findbit w (Suc j) of
     None \<Rightarrow> \<forall>k. Suc j \<le> k \<and> k < 8 \<longrightarrow> bit w k
   | Some k \<Rightarrow> Suc j \<le> k \<and> k < 8 \<and> \<not> bit w k \<and> (\<forall>l. Suc j \<le> l \<and> l < k \<longrightarrow> bit w l)"
      using "1.IH" by simp
    with True show ?thesis
      by (auto simp: bitmap_findbit.simps [of w j] split: option.splits)
        (metis Suc_leI le_neq_implies_less)+
  next
    case False
    then show ?thesis by (auto simp: bitmap_findbit.simps [of w j] split: option.splits)
  qed
qed

text \<open>
  The search loop, from word \<open>ix\<close> on: it returns the lowest clear index at or above \<open>8 * ix\<close>,
  or reports \<open>ENOSPC\<close> when there is none; the assertions in it never fail.
\<close>

lemma bitmap_allocfrom_spec:
  assumes "bitmap_inv b" and "maxix = length (bm_v b)"
  shows "out_wp (bitmap_allocfrom ix maxix b)
    (\<lambda>i b'. 8 * ix \<le> i \<and> i < nbits b \<and> i \<notin> bitmap_used b \<and>
       (\<forall>k. 8 * ix \<le> k \<and> k < i \<longrightarrow> k \<in> bitmap_used b) \<and>
       b' = b\<lparr>bm_v := (bm_v b)[i div 8 := or (bm_v b ! (i div 8)) (2 ^ (i mod 8))]\<rparr>)
    (\<lambda>e b'. e = ENOSPC \<and> b' = b \<and> (\<forall>k. 8 * ix \<le> k \<and> k < nbits b \<longrightarrow> k \<in> bitmap_used b))"
  using assms
proof (induction ix maxix b rule: bitmap_allocfrom.induct)
  case (1 ix maxix b)
  note inv = "1.prems"(1) and mx = "1.prems"(2)
  have len: "length (bm_v b) = (nbits b + 7) div 8"
    and over: "\<And>i. nbits b \<le> i \<Longrightarrow> i < 8 * length (bm_v b) \<Longrightarrow> bm_bit (bm_v b) i"
    using inv by (auto simp: bitmap_inv_def)
  have word: "bm_bit (bm_v b) (8 * ix + k) \<longleftrightarrow> bit (bm_v b ! ix) k" if "k < 8" for k
    using that by (simp add: bm_bit_def)
  consider (out) "\<not> ix < maxix" | (full) "ix < maxix" "bm_v b ! ix = 0xff"
    | (free) "ix < maxix" "bm_v b ! ix \<noteq> 0xff" by blast
  then show ?case
  proof cases
    case out
    then show ?thesis
      using mx len by (simp add: bitmap_allocfrom.simps [of ix]) linarith
  next
    case full
    have all: "k \<in> bitmap_used b" if "8 * ix \<le> k" "k < 8 * ix + 8" "k < nbits b" for k
    proof -
      have "k = 8 * ix + (k - 8 * ix)" "k - 8 * ix < 8" using that by auto
      then show ?thesis using full that word [of "k - 8 * ix"]
        by (simp add: bitmap_used_def allbits_iff)
    qed
    have ih: "out_wp (bitmap_allocfrom (Suc ix) maxix b)
      (\<lambda>i b'. 8 * Suc ix \<le> i \<and> i < nbits b \<and> i \<notin> bitmap_used b \<and>
        (\<forall>k. 8 * Suc ix \<le> k \<and> k < i \<longrightarrow> k \<in> bitmap_used b) \<and>
        b' = b\<lparr>bm_v := (bm_v b)[i div 8 := or (bm_v b ! (i div 8)) (2 ^ (i mod 8))]\<rparr>)
      (\<lambda>e b'. e = ENOSPC \<and> b' = b \<and> (\<forall>k. 8 * Suc ix \<le> k \<and> k < nbits b \<longrightarrow> k \<in> bitmap_used b))"
      using "1.IH" full inv mx by simp
    have eq: "bitmap_allocfrom ix maxix b = bitmap_allocfrom (Suc ix) maxix b"
      using full by (simp add: bitmap_allocfrom.simps [of ix])
    show ?thesis
      unfolding eq
    proof (rule out_wp_conseq [OF ih], goal_cases)
      case (1 i b')
      then show ?case using all
        by simp (metis add.commute not_less)
    next
      case (2 e b')
      then show ?case using all by simp (metis add.commute not_less)
    qed
  next
    case free
    obtain j where j: "bitmap_findbit (bm_v b ! ix) 0 = Some j" "j < 8" "\<not> bit (bm_v b ! ix) j"
      "\<And>l. l < j \<Longrightarrow> bit (bm_v b ! ix) l"
      using bitmap_findbit_spec [where w = "bm_v b ! ix" and j = 0] free(2)
      by (auto simp: allbits_iff split: option.splits)
    have clear: "\<not> bm_bit (bm_v b) (8 * ix + j)" using word j by simp
    have lt: "8 * ix + j < nbits b"
      using over [of "8 * ix + j"] clear free(1) mx j(2) by force
    have below: "k \<in> bitmap_used b" if "8 * ix \<le> k" "k < 8 * ix + j" for k
    proof -
      have "k = 8 * ix + (k - 8 * ix)" "k - 8 * ix < j" using that by auto
      then show ?thesis using j word [of "k - 8 * ix"] lt that by (simp add: bitmap_used_def)
    qed
    show ?thesis
      using free j lt clear below
      by (simp add: bitmap_allocfrom.simps [of ix] bitmap_used_def mult.commute [of ix])
  qed
qed

lemma bitmap_alloc_spec:
  assumes "bitmap_inv b"
  shows "out_wp (bitmap_alloc b)
    (\<lambda>i b'. i < nbits b \<and> i \<notin> bitmap_used b \<and> (\<forall>k<i. k \<in> bitmap_used b) \<and>
       bitmap_used b' = insert i (bitmap_used b) \<and> bitmap_inv b' \<and> nbits b' = nbits b)
    (\<lambda>e b'. e = ENOSPC \<and> b' = b \<and> bitmap_used b = {..<nbits b})"
proof -
  have mx: "DIVROUNDUP (nbits b) 8 = length (bm_v b)"
    using assms by (simp add: bitmap_inv_def)
  show ?thesis
    unfolding bitmap_alloc_def mx
  proof (rule out_wp_conseq [OF bitmap_allocfrom_spec [OF assms refl, of 0]], goal_cases)
    case (1 i b')
    then show ?case using bitmap_set_bit [OF assms, of i] by simp
  next
    case (2 e b')
    then show ?case by (auto simp: bitmap_used_def)
  qed
qed

lemma bitmap_markfrom_spec:
  assumes "ix < length v"
  shows "length (bitmap_markfrom ix j v) = length v \<and>
    (\<forall>i < 8 * length v. bm_bit (bitmap_markfrom ix j v) i \<longleftrightarrow>
       bm_bit v i \<or> (i div 8 = ix \<and> j \<le> i mod 8))"
  using assms
proof (induction ix j v rule: bitmap_markfrom.induct)
  case (1 ix j v)
  show ?case
  proof (cases "j < 8")
    case True
    have "i mod 8 = j \<or> Suc j \<le> i mod 8 \<longleftrightarrow> j \<le> i mod 8" for i :: nat by auto
    with True "1" show ?thesis
      by (auto simp: bitmap_markfrom.simps [of ix j] bm_bit_update) (auto simp: bm_bit_def)
  next
    case False
    moreover have "\<not> j \<le> i mod 8" for i :: nat using False by (simp add: not_le)
    ultimately show ?thesis by (simp add: bitmap_markfrom.simps [of ix j])
  qed
qed

lemma bm_bit_replicate [simp]: "i < 8 * n \<Longrightarrow> \<not> bm_bit (replicate n 0) i"
  by (simp add: bm_bit_def)

lemma div8_ge_iff:
  fixes i n :: nat
  assumes "i < 8 * Suc (n div 8)"
  shows "i div 8 = n div 8 \<and> n mod 8 \<le> i mod 8 \<longleftrightarrow> n \<le> i"
proof -
  have gen: "a = b \<and> t \<le> r \<longleftrightarrow> 8 * b + t \<le> 8 * a + r"
    if "8 * a + r < 8 * Suc b" "r < 8" "t < 8" for a b r t :: nat
    using that by (cases "a = b") auto
  show ?thesis
    using gen [of "i div 8" "i mod 8" "n div 8" "n mod 8"] assms by simp
qed

lemma bitmap_create_spec:
  assumes "n + 7 < 2 ^ 32"
  shows "\<exists>b. bitmap_create True True n = Ok (Some b) () \<and> bitmap_inv b \<and> nbits b = n \<and>
    bitmap_used b = {}"
proof (cases "n mod 8 = 0")
  case True
  then obtain q where q: "n = 8 * q" by (metis mod_0_imp_dvd dvdE)
  have w: "(n + 7) div 8 = n div 8" and l: "8 * (n div 8) = n" by (simp_all add: q)
  show ?thesis using assms l
    by (auto simp: bitmap_create_def w bitmap_inv_def bitmap_used_def)
next
  case False
  have o: "n - n div 8 * 8 = n mod 8" "0 < n mod 8"
    using False by (simp_all add: minus_div_mult_eq_mod)
  have "(8 * (n div 8) + (n mod 8 + 7)) div 8 = n div 8 + (n mod 8 + 7) div 8"
    by (simp only: div_mult_self4)
  moreover have "(n mod 8 + 7) div 8 = 1"
    using o(2) mod_less_divisor [of 8 n] by (intro div_nat_eqI) auto
  ultimately have w: "(n + 7) div 8 = Suc (n div 8)"
    by (simp flip: add.assoc)
  define m where "m = Suc (n div 8)"
  let ?v = "bitmap_markfrom (n div 8) (n mod 8) (replicate m 0)"
  have sp: "length ?v = m"
    "\<And>i. i < 8 * m \<Longrightarrow> bm_bit ?v i \<longleftrightarrow> (i div 8 = n div 8 \<and> n mod 8 \<le> i mod 8)"
    using bitmap_markfrom_spec [of "n div 8" "replicate m 0" "n mod 8"] by (auto simp: m_def simp del: replicate_Suc)
  have past: "i div 8 = n div 8 \<and> n mod 8 \<le> i mod 8 \<longleftrightarrow> n \<le> i" if "i < 8 * m" for i
    using div8_ge_iff that m_def by simp
  have n: "n < 8 * m" by (simp add: m_def)
  have cr: "bitmap_create True True n = Ok (Some \<lparr>nbits = n, bm_v = ?v\<rparr>) ()"
    using assms o by (simp add: bitmap_create_def w Let_def m_def)
  show ?thesis using assms sp past n
    by (auto simp: cr bitmap_inv_def bitmap_used_def w m_def [symmetric])
qed

section \<open>The allocator interface\<close>

text \<open>
  What a client of a map of numbered slots relies on: allocation hands out a free slot and fails
  only when every slot is used; freeing gives back exactly one slot.
\<close>

fun alloc_n :: "('m \<Rightarrow> (nat, 'm) out) \<Rightarrow> nat \<Rightarrow> 'm \<Rightarrow> (nat list, 'm) out" where
  "alloc_n alloc 0 m = Ok [] m"
| "alloc_n alloc (Suc n) m =
     kbind (alloc m) (\<lambda>i m. kbind (alloc_n alloc n m) (\<lambda>is m. Ok (i # is) m))"

locale slot_allocator =
  fixes alloc :: "'m \<Rightarrow> (nat, 'm) out"
    and free :: "nat \<Rightarrow> 'm \<Rightarrow> (unit, 'm) out"
    and used :: "'m \<Rightarrow> nat set"
    and cap :: "'m \<Rightarrow> nat"
    and inv :: "'m \<Rightarrow> bool"
  assumes used_bound: "inv m \<Longrightarrow> used m \<subseteq> {..<cap m}"
    and alloc_law: "inv m \<Longrightarrow> out_wp (alloc m)
      (\<lambda>i m'. i < cap m \<and> i \<notin> used m \<and> used m' = insert i (used m) \<and> inv m' \<and> cap m' = cap m)
      (\<lambda>e m'. e = ENOSPC \<and> m' = m \<and> used m = {..<cap m})"
    and free_law: "inv m \<Longrightarrow> i \<in> used m \<Longrightarrow>
      \<exists>m'. free i m = Ok () m' \<and> used m' = used m - {i} \<and> inv m' \<and> cap m' = cap m"
begin

lemma used_finite: "inv m \<Longrightarrow> finite (used m)"
  by (rule finite_subset [OF used_bound]) auto

lemma used_card: "inv m \<Longrightarrow> card (used m) \<le> cap m"
  using card_mono [OF _ used_bound [of m]] by simp

lemma alloc_then_free:
  assumes "inv m" and "alloc m = Ok i m'"
  shows "\<exists>m''. free i m' = Ok () m'' \<and> used m'' = used m \<and> inv m'' \<and> cap m'' = cap m"
proof -
  have l: "i \<notin> used m" "used m' = insert i (used m)" "inv m'" "cap m' = cap m"
    using out_wp_OkD [OF alloc_law [OF assms(1)] assms(2)] by auto
  with free_law [of m' i] show ?thesis by auto
qed

lemma alloc_progress:
  assumes "inv m" and "card (used m) < cap m"
  obtains i m' where "alloc m = Ok i m'" "i < cap m" "i \<notin> used m" "used m' = insert i (used m)"
    "inv m'" "cap m' = cap m"
  using alloc_law [OF assms(1)] assms(2) by (cases rule: out_wp_cases) auto

lemma alloc_n_law:
  assumes "inv m"
  shows "out_wp (alloc_n alloc n m)
    (\<lambda>is m'. length is = n \<and> distinct is \<and> set is \<inter> used m = {} \<and> set is \<subseteq> {..<cap m} \<and>
       used m' = used m \<union> set is \<and> inv m' \<and> card (used m) + n \<le> cap m)
    (\<lambda>e m'. e = ENOSPC \<and> cap m < card (used m) + n)"
  using assms
proof (induction n arbitrary: m)
  case 0
  then show ?case using used_card by auto
next
  case (Suc n)
  show ?case
    unfolding alloc_n.simps out_wp_kbind
  proof (rule out_wp_conseq [OF alloc_law [OF Suc.prems]], goal_cases)
    case (1 i m')
    then have c: "card (used m') = Suc (card (used m))"
      using used_finite [OF Suc.prems] by simp
    show ?case
    proof (rule out_wp_conseq [OF Suc.IH [of m']], goal_cases)
      case 1
      then show ?case using \<open>i < cap m \<and> _\<close> by simp
    next
      case (2 js m'')
      then show ?case using \<open>i < cap m \<and> _\<close> c by auto
    next
      case (3 e m'')
      then show ?case using \<open>i < cap m \<and> _\<close> c by auto
    qed
  next
    case (2 e m')
    then show ?case by simp
  qed
qed

end

interpretation bm: slot_allocator bitmap_alloc bitmap_unmark bitmap_used nbits bitmap_inv
proof unfold_locales
  fix b :: bitmap
  show "bitmap_used b \<subseteq> {..<nbits b}"
    by (auto simp: bitmap_used_def)
next
  fix b :: bitmap
  assume "bitmap_inv b"
  then show "out_wp (bitmap_alloc b)
      (\<lambda>i b'. i < nbits b \<and> i \<notin> bitmap_used b \<and> bitmap_used b' = insert i (bitmap_used b) \<and>
         bitmap_inv b' \<and> nbits b' = nbits b)
      (\<lambda>e b'. e = ENOSPC \<and> b' = b \<and> bitmap_used b = {..<nbits b})"
    by (rule out_wp_conseq [OF bitmap_alloc_spec]) auto
next
  fix b :: bitmap and i
  assume "bitmap_inv b" and "i \<in> bitmap_used b"
  then show "\<exists>b'. bitmap_unmark i b = Ok () b' \<and> bitmap_used b' = bitmap_used b - {i} \<and>
    bitmap_inv b' \<and> nbits b' = nbits b"
    using bitmap_unmark_spec by blast
qed

section \<open>Properties\<close>

text \<open>Allocation takes the lowest clear bit and marks exactly it; it reports \<open>ENOSPC\<close> exactly
  when every bit is in use, and then changes nothing. It never panics on a well-formed bitmap.\<close>

theorem bitmap_alloc_first_free:
  assumes "bitmap_inv b"
  shows "out_wp (bitmap_alloc b)
    (\<lambda>i b'. i < nbits b \<and> i \<notin> bitmap_used b \<and> (\<forall>k<i. k \<in> bitmap_used b) \<and>
       bitmap_used b' = insert i (bitmap_used b) \<and> bitmap_inv b' \<and> nbits b' = nbits b)
    (\<lambda>e b'. e = ENOSPC \<and> b' = b \<and> bitmap_used b = {..<nbits b})"
  by (rule bitmap_alloc_spec [OF assms])

theorem bitmap_alloc_first_free_witness:
  "bitmap_inv \<lparr>nbits = 8, bm_v = [0x0b]\<rparr> \<and>
   out_wp (bitmap_alloc \<lparr>nbits = 8, bm_v = [0x0b]\<rparr>)
    (\<lambda>i b'. i \<notin> bitmap_used \<lparr>nbits = 8, bm_v = [0x0b]\<rparr> \<and> bitmap_inv b') (\<lambda>e b'. True)"
proof -
  have "bitmap_inv \<lparr>nbits = 8, bm_v = [0x0b]\<rparr>" by (auto simp: bitmap_inv_def)
  from this out_wp_conseq [OF bitmap_alloc_first_free [OF this]] show ?thesis by auto
qed

text \<open>Allocating \<open>n\<close> slots in a row succeeds exactly when \<open>n\<close> slots are free, and then hands out \<open>n\<close>
  different free slots and marks exactly those.\<close>

theorem bitmap_alloc_many:
  assumes "bitmap_inv b"
  shows "out_wp (alloc_n bitmap_alloc n b)
    (\<lambda>is b'. length is = n \<and> distinct is \<and> set is \<inter> bitmap_used b = {} \<and> set is \<subseteq> {..<nbits b} \<and>
       bitmap_used b' = bitmap_used b \<union> set is \<and> bitmap_inv b' \<and> card (bitmap_used b) + n \<le> nbits b)
    (\<lambda>e b'. e = ENOSPC \<and> nbits b < card (bitmap_used b) + n)"
  using assms by (rule bm.alloc_n_law)

theorem bitmap_alloc_many_witness:
  "out_wp (alloc_n bitmap_alloc 9 \<lparr>nbits = 8, bm_v = [0]\<rparr>) (\<lambda>_ _. False) (\<lambda>e _. e = ENOSPC)"
proof -
  have "bitmap_inv \<lparr>nbits = 8, bm_v = [0]\<rparr>" by (auto simp: bitmap_inv_def)
  from out_wp_conseq [OF bitmap_alloc_many [OF this, of 9]] show ?thesis by auto
qed

text \<open>Bitmaps as the kernel makes them: created, then changed by the operations that returned.\<close>

inductive bitmap_made :: "bitmap \<Rightarrow> bool" where
  create: "bitmap_create m1 m2 n = Ok (Some b) () \<Longrightarrow> n + 7 < 2 ^ 32 \<Longrightarrow> bitmap_made b"
| alloc: "bitmap_made b \<Longrightarrow> bitmap_alloc b = Ok i b' \<Longrightarrow> bitmap_made b'"
| mark: "bitmap_made b \<Longrightarrow> bitmap_mark i b = Ok () b' \<Longrightarrow> bitmap_made b'"
| unmark: "bitmap_made b \<Longrightarrow> bitmap_unmark i b = Ok () b' \<Longrightarrow> bitmap_made b'"

lemma bitmap_create_memory: "bitmap_create m1 m2 n = Ok (Some b) () \<Longrightarrow> m1 \<and> m2"
  by (cases m1; cases m2) (simp_all add: bitmap_create_def)

lemma bitmap_mark_iff:
  assumes "bitmap_inv b"
  shows "(\<exists>b'. bitmap_mark i b = Ok () b') \<longleftrightarrow> i < nbits b \<and> i \<notin> bitmap_used b"
    "(\<exists>b'. bitmap_unmark i b = Ok () b') \<longleftrightarrow> i \<in> bitmap_used b"
proof -
  have "out_wp (bitmap_mark i b) (\<lambda>_ _. True) (\<lambda>_ _. True) \<longleftrightarrow> i < nbits b \<and> i \<notin> bitmap_used b"
    using assms by (auto simp: bitmap_mark_wp)
  then show "(\<exists>b'. bitmap_mark i b = Ok () b') \<longleftrightarrow> i < nbits b \<and> i \<notin> bitmap_used b"
    using bitmap_mark_spec [OF assms] by fastforce
  have "out_wp (bitmap_unmark i b) (\<lambda>_ _. True) (\<lambda>_ _. True) \<longleftrightarrow> i \<in> bitmap_used b"
    using assms by (auto simp: bitmap_unmark_wp bitmap_used_def)
  then show "(\<exists>b'. bitmap_unmark i b = Ok () b') \<longleftrightarrow> i \<in> bitmap_used b"
    using bitmap_unmark_spec [OF assms] by fastforce
qed



end
