(* ===== verification/KArray.thy ===== *)
theory KArray
  imports Prelude
begin

text \<open>
  \<open>kern/lib/array.c\<close> and \<open>kern/include/array.h\<close>: the resizable array of pointers (element type
  \<open>'a\<close>) that the kernel's typed arrays (\<open>vnodearray\<close>, \<open>knowndevarray\<close>, \<open>threadarray\<close>) are built
  from. The storage has \<open>max\<close> cells of which the first \<open>num\<close> are elements; the abstract view is
  the list of elements. \<open>kmalloc\<close> is a parameter: given a number of cells it fails (\<open>None\<close>) or
  hands out a block with unspecified contents.
\<close>

section \<open>Data and operations\<close>

record 'a array =
  arr_v :: "'a list"
  arr_num :: nat
  arr_max :: nat

definition array_init :: "'a array" where
  "array_init = \<lparr>arr_v = [], arr_num = 0, arr_max = 0\<rparr>"

text \<open>\<open>array_create\<close>: \<open>m\<close> says whether the \<open>kmalloc\<close> of the structure succeeds.\<close>

definition array_create :: "bool \<Rightarrow> 'a array option" where
  "array_create m = (if m then Some array_init else None)"

definition array_cleanup :: "'a array \<Rightarrow> (unit, 'a array) out" where
  "array_cleanup a = kassert (arr_num a = 0) (Ok () (a\<lparr>arr_v := []\<rparr>))"

definition array_destroy :: "'a array \<Rightarrow> (unit, unit) out" where
  "array_destroy a = (case array_cleanup a of Ok _ _ \<Rightarrow> Ok () () | Err e _ \<Rightarrow> Err e () | Panic \<Rightarrow> Panic)"

definition array_num :: "'a array \<Rightarrow> nat" where
  "array_num a = arr_num a"

definition array_get :: "'a array \<Rightarrow> nat \<Rightarrow> ('a, 'a array) out" where
  "array_get a index = kassert (index < arr_num a) (Ok (arr_v a ! index) a)"

definition array_set :: "nat \<Rightarrow> 'a \<Rightarrow> 'a array \<Rightarrow> (unit, 'a array) out" where
  "array_set index val a =
     kassert (index < arr_num a) (Ok () (a\<lparr>arr_v := (arr_v a)[index := val]\<rparr>))"

text \<open>
  The loop that doubles the capacity, in 32-bit arithmetic: with a request above \<open>2^31\<close> the
  doubling wraps around to 0 and the loop never ends, which \<open>None\<close> stands for.
\<close>

partial_function (option) array_growmax :: "nat \<Rightarrow> nat \<Rightarrow> nat option" where
  "array_growmax num newmax =
     (if num > newmax
      then array_growmax num (if newmax \<noteq> 0 then (newmax * 2) mod 2 ^ 32 else 4)
      else Some newmax)"

definition array_setsize ::
  "(nat \<Rightarrow> 'a list option) \<Rightarrow> nat \<Rightarrow> 'a array \<Rightarrow> (unit, 'a array) out" where
  "array_setsize kmalloc num a =
     (if num > arr_max a
      then (case array_growmax num (arr_max a) of
              None \<Rightarrow> Panic
            | Some newmax \<Rightarrow>
                (case kmalloc newmax of
                   None \<Rightarrow> Err ENOMEM a
                 | Some newptr \<Rightarrow>
                     Ok () (a\<lparr>arr_v := buf_write newptr 0 (take (arr_num a) (arr_v a)),
                              arr_max := newmax, arr_num := num\<rparr>)))
      else Ok () (a\<lparr>arr_num := num\<rparr>))"

definition array_add ::
  "(nat \<Rightarrow> 'a list option) \<Rightarrow> 'a \<Rightarrow> 'a array \<Rightarrow> (nat, 'a array) out" where
  "array_add kmalloc val a =
     (let index = arr_num a in
      kbind (array_setsize kmalloc (wadd32 index 1) a)
        (\<lambda>_ a. Ok index (a\<lparr>arr_v := (arr_v a)[index := val]\<rparr>)))"

definition array_remove :: "nat \<Rightarrow> 'a array \<Rightarrow> (unit, 'a array) out" where
  "array_remove index a =
     kassert (arr_num a \<le> arr_max a)
       (kassert (index < arr_num a)
         (let num_to_move = arr_num a - (index + 1) in
          Ok () (a\<lparr>arr_v := buf_write (arr_v a) index (take num_to_move (drop (index + 1) (arr_v a))),
                   arr_num := arr_num a - 1\<rparr>)))"

section \<open>Abstraction and invariant\<close>

definition array_list :: "'a array \<Rightarrow> 'a list" where
  "array_list a = take (arr_num a) (arr_v a)"

definition array_inv :: "'a array \<Rightarrow> bool" where
  "array_inv a \<longleftrightarrow> arr_num a \<le> arr_max a \<and> length (arr_v a) = arr_max a \<and> arr_max a < 2 ^ 32"

text \<open>What the array code relies on of \<open>kmalloc\<close>: a block it hands out has the size asked for.\<close>

definition kmalloc_sized :: "(nat \<Rightarrow> 'a list option) \<Rightarrow> bool" where
  "kmalloc_sized kmalloc \<longleftrightarrow> (\<forall>n p. kmalloc n = Some p \<longrightarrow> length p = n)"

lemma array_list_length [simp]: "array_inv a \<Longrightarrow> length (array_list a) = arr_num a"
  by (simp add: array_list_def array_inv_def)

lemma array_list_init [simp]: "array_list array_init = []"
  by (simp add: array_list_def array_init_def)

lemma array_inv_init [simp]: "array_inv array_init"
  by (simp add: array_inv_def array_init_def)

lemma array_growmax_spec:
  assumes "num \<le> 2 ^ 31" and "m < 2 ^ 32"
  shows "\<exists>n. array_growmax num m = Some n \<and> num \<le> n \<and> n < 2 ^ 32"
  using assms
proof (induction "num - m" arbitrary: m rule: less_induct)
  case less
  show ?case
  proof (cases "num > m")
    case False
    then show ?thesis using less.prems by (simp add: array_growmax.simps [of num m])
  next
    case True
    let ?m = "if m \<noteq> 0 then (m * 2) mod 2 ^ 32 else 4"
    have "m * 2 < 2 ^ 32" using True less.prems by simp
    then have m: "m < ?m" "?m < 2 ^ 32" by auto
    with True have "num - ?m < num - m" by simp
    then obtain n where "array_growmax num ?m = Some n" "num \<le> n" "n < 2 ^ 32"
      using less.hyps [of ?m] less.prems m by auto
    then show ?thesis using True array_growmax.simps [of num m] by simp
  qed
qed

section \<open>The operations on the list of elements\<close>

lemma array_get_spec:
  "array_inv a \<Longrightarrow> array_get a i = (if i < length (array_list a) then Ok (array_list a ! i) a else Panic)"
  by (auto simp: array_get_def array_list_def array_inv_def kassert_def)

lemma array_set_spec:
  assumes "array_inv a" and "i < length (array_list a)"
  shows "\<exists>a'. array_set i x a = Ok () a' \<and> array_inv a' \<and> array_list a' = (array_list a)[i := x]"
  using assms by (simp add: array_set_def array_list_def array_inv_def take_update_swap)

lemma array_setsize_wp:
  assumes "array_inv a" and "kmalloc_sized kmalloc" and "num \<le> 2 ^ 31"
  shows "out_wp (array_setsize kmalloc num a)
    (\<lambda>_ a'. array_inv a' \<and> arr_num a' = num \<and>
       take (min num (arr_num a)) (array_list a') = take (min num (arr_num a)) (array_list a))
    (\<lambda>e a'. e = ENOMEM \<and> a' = a)"
proof (cases "num > arr_max a")
  case False
  then show ?thesis using assms by (simp add: array_setsize_def array_inv_def array_list_def min_def)
next
  case True
  obtain n where n: "array_growmax num (arr_max a) = Some n" "num \<le> n" "n < 2 ^ 32"
    using array_growmax_spec [of num "arr_max a"] assms by (auto simp: array_inv_def)
  show ?thesis
  proof (cases "kmalloc n")
    case None
    then show ?thesis using True n by (simp add: array_setsize_def)
  next
    case (Some p)
    then have p: "length p = n" using assms(2) by (simp add: kmalloc_sized_def)
    have le: "arr_num a \<le> arr_max a" "length (arr_v a) = arr_max a" using assms(1) by (auto simp: array_inv_def)
    show ?thesis using True n p Some le
      by (simp add: array_setsize_def array_inv_def array_list_def buf_write_def min_def)
  qed
qed

lemma array_add_wp:
  assumes "array_inv a" and "kmalloc_sized kmalloc" and "arr_num a < 2 ^ 31"
  shows "out_wp (array_add kmalloc x a)
    (\<lambda>i a'. array_inv a' \<and> i = length (array_list a) \<and> array_list a' = array_list a @ [x])
    (\<lambda>e a'. e = ENOMEM \<and> a' = a)"
  unfolding array_add_def Let_def out_wp_kbind
proof (rule out_wp_conseq [OF array_setsize_wp [OF assms(1,2)]], goal_cases)
  case 1
  then show ?case using assms(3) by simp
next
  case (2 u a')
  then have inv: "array_inv a'" and n: "arr_num a' = Suc (arr_num a)"
    and same: "take (arr_num a) (array_list a') = array_list a"
    using assms by (auto simp: min_def array_list_def)
  have "array_list (a'\<lparr>arr_v := (arr_v a')[arr_num a := x]\<rparr>) = array_list a @ [x]"
    using inv n same
    by (simp add: array_list_def array_inv_def take_Suc_conv_app_nth)
  then show ?case using inv assms(1) by (simp add: array_inv_def)
next
  case (3 e a')
  then show ?case by simp
qed

lemma array_remove_spec:
  assumes "array_inv a" and "i < length (array_list a)"
  shows "\<exists>a'. array_remove i a = Ok () a' \<and> array_inv a' \<and>
    array_list a' = take i (array_list a) @ drop (Suc i) (array_list a)"
proof -
  have b: "arr_num a \<le> arr_max a" "length (arr_v a) = arr_max a" "i < arr_num a"
    using assms by (auto simp: array_inv_def array_list_def)
  then have m: "length (take (arr_num a - Suc i) (drop (Suc i) (arr_v a))) = arr_num a - Suc i" by simp
  have i: "min (arr_num a - Suc 0) i = i" "min (arr_max a) i = i" "min (arr_num a) i = i"
    "arr_num a - Suc 0 \<le> arr_max a" using b by auto
  show ?thesis
    using b m assms(1)
    by (auto simp: array_remove_def array_inv_def array_list_def buf_write_def Let_def
        drop_take i)
qed

section \<open>Properties\<close>

text \<open>\<open>array_add\<close> appends: it returns the old length as the index of the new element, keeps every
  earlier element in place, and on \<open>ENOMEM\<close> leaves the array as it was.\<close>

theorem array_add_appends:
  assumes "array_inv a" and "kmalloc_sized kmalloc" and "arr_num a < 2 ^ 31"
  shows "out_wp (array_add kmalloc x a)
    (\<lambda>i a'. array_inv a' \<and> i = length (array_list a) \<and> array_list a' = array_list a @ [x])
    (\<lambda>e a'. e = ENOMEM \<and> a' = a)"
  using assms by (rule array_add_wp)

theorem array_add_appends_witness:
  "out_wp (array_add (\<lambda>n. Some (replicate n (0::nat))) 7 array_init)
    (\<lambda>i a'. i = 0 \<and> array_list a' = [7]) (\<lambda>e a'. a' = array_init)"
proof -
  have "array_inv (array_init :: nat array)" "kmalloc_sized (\<lambda>n. Some (replicate n (0::nat)))"
    "arr_num (array_init :: nat array) < 2 ^ 31"
    by (simp_all add: kmalloc_sized_def) (simp add: array_init_def)
  from array_add_appends [OF this, of 7] show ?thesis by (rule out_wp_conseq) auto
qed

text \<open>C36. The loop that grows the capacity in \<open>array_setsize\<close> terminates with a capacity that is large
  enough and still fits 32 bits, for every size up to \<open>2^31\<close> (beyond it, doubling wraps around).\<close>

theorem array_growmax_terminates:
  assumes "num \<le> 2 ^ 31" and "m < 2 ^ 32"
  shows "\<exists>n. array_growmax num m = Some n \<and> num \<le> n \<and> n < 2 ^ 32"
  using assms by (rule array_growmax_spec)

theorem array_growmax_terminates_witness:
  "\<exists>n. array_growmax 100 4 = Some n \<and> 100 \<le> n"
  using array_growmax_terminates [of 100 4] by auto

end
