(* ===== verification/SfsDisk.thy ===== *)
theory SfsDisk
  imports Lhd Bitmap KArray
begin

text \<open>
  The on-disk format of SFS (\<open>kern/include/kern/sfs.h\<close>), the in-memory state of a mounted
  filesystem (\<open>kern/include/sfs.h\<close>) and the block-level I/O of \<open>kern/fs/sfs/sfs_io.c\<close>. The
  structures are laid out as the big-endian MIPS compiler does; a block is a list of 512 bytes.
\<close>

section \<open>On-disk structures\<close>

abbreviation (input) SFS_BLOCKSIZE :: nat where "SFS_BLOCKSIZE \<equiv> 512"
abbreviation (input) SFS_NDIRECT :: nat where "SFS_NDIRECT \<equiv> 15"
abbreviation (input) SFS_DBPERIDB :: nat where "SFS_DBPERIDB \<equiv> 128"
abbreviation (input) SFS_NAMELEN :: nat where "SFS_NAMELEN \<equiv> 60"
abbreviation (input) SFS_VOLNAME_SIZE :: nat where "SFS_VOLNAME_SIZE \<equiv> 32"
abbreviation (input) SFS_SB_LOCATION :: nat where "SFS_SB_LOCATION \<equiv> 0"
abbreviation (input) SFS_ROOT_LOCATION :: nat where "SFS_ROOT_LOCATION \<equiv> 1"
abbreviation (input) SFS_MAP_LOCATION :: nat where "SFS_MAP_LOCATION \<equiv> 2"
abbreviation (input) SFS_BLOCKBITS :: nat where "SFS_BLOCKBITS \<equiv> 4096"
abbreviation (input) SFS_MAGIC :: u32 where "SFS_MAGIC \<equiv> 0xabadf001"
abbreviation (input) SFS_NOINO :: u32 where "SFS_NOINO \<equiv> 0"
abbreviation (input) SFS_TYPE_INVAL :: u16 where "SFS_TYPE_INVAL \<equiv> 0"
abbreviation (input) SFS_TYPE_FILE :: u16 where "SFS_TYPE_FILE \<equiv> 1"
abbreviation (input) SFS_TYPE_DIR :: u16 where "SFS_TYPE_DIR \<equiv> 2"

record sfs_super =
  sp_magic :: u32
  sp_nblocks :: u32
  sp_volname :: "u8 list"
  sp_reserved :: "u32 list"

record sfs_inode =
  sfi_size :: u32
  sfi_type :: u16
  sfi_linkcount :: u16
  sfi_direct :: "u32 list"
  sfi_indirect :: u32
  sfi_waste :: "u32 list"

record sfs_dir =
  sfd_ino :: u32
  sfd_name :: "u8 list"

definition super_bytes :: "sfs_super \<Rightarrow> u8 list" where
  "super_bytes sp = be32 (sp_magic sp) @ be32 (sp_nblocks sp) @ sp_volname sp @ be32s (sp_reserved sp)"

definition super_of_bytes :: "u8 list \<Rightarrow> sfs_super" where
  "super_of_bytes bs =
     \<lparr>sp_magic = unbe32 (take 4 bs), sp_nblocks = unbe32 (take 4 (drop 4 bs)),
      sp_volname = take 32 (drop 8 bs), sp_reserved = unbe32s 118 (drop 40 bs)\<rparr>"

definition inode_bytes :: "sfs_inode \<Rightarrow> u8 list" where
  "inode_bytes i = be32 (sfi_size i) @ be16 (sfi_type i) @ be16 (sfi_linkcount i)
     @ be32s (sfi_direct i) @ be32 (sfi_indirect i) @ be32s (sfi_waste i)"

definition inode_of_bytes :: "u8 list \<Rightarrow> sfs_inode" where
  "inode_of_bytes bs =
     \<lparr>sfi_size = unbe32 (take 4 bs), sfi_type = unbe16 (take 2 (drop 4 bs)),
      sfi_linkcount = unbe16 (take 2 (drop 6 bs)), sfi_direct = unbe32s 15 (drop 8 bs),
      sfi_indirect = unbe32 (take 4 (drop 68 bs)), sfi_waste = unbe32s 110 (drop 72 bs)\<rparr>"

definition dir_bytes :: "sfs_dir \<Rightarrow> u8 list" where
  "dir_bytes d = be32 (sfd_ino d) @ sfd_name d"

definition dir_of_bytes :: "u8 list \<Rightarrow> sfs_dir" where
  "dir_of_bytes bs = \<lparr>sfd_ino = unbe32 (take 4 bs), sfd_name = take 60 (drop 4 bs)\<rparr>"

text \<open>Structures as C has them: the arrays have their declared lengths.\<close>

definition inode_wf :: "sfs_inode \<Rightarrow> bool" where
  "inode_wf i \<longleftrightarrow> length (sfi_direct i) = 15 \<and> length (sfi_waste i) = 110"

definition super_wf :: "sfs_super \<Rightarrow> bool" where
  "super_wf sp \<longleftrightarrow> length (sp_volname sp) = 32 \<and> length (sp_reserved sp) = 118"

definition dir_wf :: "sfs_dir \<Rightarrow> bool" where
  "dir_wf d \<longleftrightarrow> length (sfd_name d) = 60"

lemma length_inode_bytes [simp]: "inode_wf i \<Longrightarrow> length (inode_bytes i) = 512"
  by (simp add: inode_wf_def inode_bytes_def)

lemma length_super_bytes [simp]: "super_wf sp \<Longrightarrow> length (super_bytes sp) = 512"
  by (simp add: super_wf_def super_bytes_def)

lemma length_dir_bytes [simp]: "dir_wf d \<Longrightarrow> length (dir_bytes d) = 64"
  by (simp add: dir_wf_def dir_bytes_def)

lemma inode_of_bytes_wf [simp]: "inode_wf (inode_of_bytes bs)"
  by (simp add: inode_wf_def inode_of_bytes_def)

lemma inode_roundtrip [simp]: "inode_wf i \<Longrightarrow> inode_of_bytes (inode_bytes i) = i"
  by (simp add: inode_wf_def inode_bytes_def inode_of_bytes_def)

lemma super_roundtrip [simp]: "super_wf sp \<Longrightarrow> super_of_bytes (super_bytes sp) = sp"
  by (simp add: super_wf_def super_bytes_def super_of_bytes_def)

lemma dir_roundtrip [simp]: "dir_wf d \<Longrightarrow> dir_of_bytes (dir_bytes d) = d"
  by (simp add: dir_wf_def dir_bytes_def dir_of_bytes_def)

section \<open>The state of a mounted filesystem\<close>

text \<open>
  A vnode is an object of the kernel heap, named by its address. \<open>vn_ops\<close> is the function table;
  \<open>vn_fs\<close> and \<open>vn_data\<close> always point back to the filesystem and the \<open>sfs_vnode\<close> itself.
\<close>

datatype vnode_ops = sfs_fileops | sfs_dirops

record sfs_vnode =
  vn_ops :: vnode_ops
  vn_refcount :: int
  vn_opencount :: int
  sv_i :: sfs_inode
  sv_ino :: nat
  sv_dirty :: bool

type_synonym vptr = nat

text \<open>
  Besides the fields of \<open>struct sfs_fs\<close>, the state holds the part of the kernel the filesystem
  works in: the heap of vnodes (\<open>sfs_brk\<close> is the next address \<open>kmalloc\<close> hands out, \<open>km_fail\<close> the
  outcomes of the next calls, success once the list is used up) and the recursion depth of the big
  VFS lock held by the running thread.
\<close>

record sfs_fs =
  sfs_super :: sfs_super
  sfs_superdirty :: bool
  sfs_device :: lhd
  sfs_vnodes :: "vptr array"
  sfs_freemap :: bitmap
  sfs_freemapdirty :: bool
  sfs_heap :: "vptr \<Rightarrow> sfs_vnode option"
  sfs_brk :: nat
  km_fail :: "bool list"
  biglock_depth :: nat

definition SFS_BITMAPSIZE :: "nat \<Rightarrow> nat" where
  "SFS_BITMAPSIZE nblocks = (wadd32 nblocks 4095 div SFS_BLOCKBITS) * SFS_BLOCKBITS mod 2 ^ 32"

definition SFS_BITBLOCKS :: "nat \<Rightarrow> nat" where
  "SFS_BITBLOCKS nblocks = SFS_BITMAPSIZE nblocks div SFS_BLOCKBITS"

section \<open>Block I/O\<close>

text \<open>
  \<open>sfs_rwblock\<close>: up to ten retries after \<open>EIO\<close>, a panic on \<open>EINVAL\<close>. The retry passes the same
  uio to the device again.
\<close>

function sfs_rwblock_retry :: "nat \<Rightarrow> sfs_fs \<times> uio \<Rightarrow> (unit, sfs_fs \<times> uio) out" where
  "sfs_rwblock_retry tries (s, u) =
     (case lhd_io (sfs_device s, u) of
        Ok _ (d, u) \<Rightarrow> Ok () (s\<lparr>sfs_device := d\<rparr>, u)
      | Panic \<Rightarrow> Panic
      | Err e (d, u) \<Rightarrow>
          (let s = s\<lparr>sfs_device := d\<rparr> in
           if e = EINVAL then Panic
           else if e = EIO \<and> tries < 10 then sfs_rwblock_retry (Suc tries) (s, u)
           else Err e (s, u)))"
  by pat_completeness auto
termination by (relation "measure (\<lambda>(tries, s, u). 10 - tries)") auto

declare sfs_rwblock_retry.simps [simp del]

definition sfs_rwblock :: "sfs_fs \<times> uio \<Rightarrow> (unit, sfs_fs \<times> uio) out" where
  "sfs_rwblock = (\<lambda>(s, u). kassert (biglock_depth s > 0) (sfs_rwblock_retry 0 (s, u)))"

text \<open>\<open>SFSUIO\<close>: a uio over a kernel buffer holding \<open>data\<close>.\<close>

definition SFSUIO :: "u8 list \<Rightarrow> nat \<Rightarrow> uio_rw \<Rightarrow> uio" where
  "SFSUIO data block rw =
     uio_kinit (mem_write (\<lambda>_. 0) 0 data) 0 SFS_BLOCKSIZE (int block * int SFS_BLOCKSIZE) rw"

definition sfs_rblock :: "nat \<Rightarrow> sfs_fs \<Rightarrow> (u8 list, sfs_fs) out" where
  "sfs_rblock block s =
     (case sfs_rwblock (s, SFSUIO [] block UIO_READ) of
        Ok _ (s, u) \<Rightarrow> Ok (mem_read (us_mem (uio_mem u)) 0 SFS_BLOCKSIZE) s
      | Err e (s, u) \<Rightarrow> Err e s
      | Panic \<Rightarrow> Panic)"

definition sfs_wblock :: "u8 list \<Rightarrow> nat \<Rightarrow> sfs_fs \<Rightarrow> (unit, sfs_fs) out" where
  "sfs_wblock data block s =
     (case sfs_rwblock (s, SFSUIO data block UIO_WRITE) of
        Ok _ (s, u) \<Rightarrow> Ok () s
      | Err e (s, u) \<Rightarrow> Err e s
      | Panic \<Rightarrow> Panic)"

section \<open>What block I/O does\<close>

abbreviation sect :: "sfs_fs \<Rightarrow> nat \<Rightarrow> u8 list" where
  "sect s \<equiv> lh_sectors (sfs_device s)"

text \<open>A device that works and a thread that holds the big lock.\<close>

definition dev_ok :: "sfs_fs \<Rightarrow> bool" where
  "dev_ok s \<longleftrightarrow> lhd_inv (sfs_device s) \<and> lhd_healthy (sfs_device s) \<and> biglock_depth s > 0"

text \<open>
  The state after the device was only read, and after one block was written: nothing else of the
  filesystem changes.
\<close>

definition dev_step :: "sfs_fs \<Rightarrow> sfs_fs \<Rightarrow> bool" where
  "dev_step s s' \<longleftrightarrow> lhd_same (sfs_device s) (sfs_device s') \<and> s' = s\<lparr>sfs_device := sfs_device s'\<rparr>"

definition dev_write :: "nat \<Rightarrow> u8 list \<Rightarrow> sfs_fs \<Rightarrow> sfs_fs \<Rightarrow> bool" where
  "dev_write b bs s s' \<longleftrightarrow>
     lhd_same ((sfs_device s)\<lparr>lh_sectors := (lh_sectors (sfs_device s))(b := bs)\<rparr>) (sfs_device s') \<and>
     s' = s\<lparr>sfs_device := sfs_device s'\<rparr>"

lemma lhd_outcome_cases: "lhd_outcome r = Some e \<Longrightarrow> e = EINVAL \<or> e = EIO"
  by (cases r) (auto simp: lhd_outcome_def)

text \<open>Through a uio: a healthy device only fails with the uio's own fault.\<close>

lemma sfs_rwblock_read:
  assumes "dev_ok s" and "b < d_blocks (sfs_device s)" and "uio_ok u" and "uio_rw u = UIO_READ"
    and "uio_offset u = int b * 512" and "uio_resid u = 512"
  shows "out_wp (sfs_rwblock (s, u))
    (\<lambda>_ (s', u'). dev_step s s' \<and> uio_fill (sect s b) u u')
    (\<lambda>e (s', u'). dev_step s s' \<and>
       uio_fault e u u')"
proof -
  let ?d = "sfs_device s"
  have d: "lhd_inv ?d" "lhd_next ?d = HwOk" "biglock_depth s > 0" "d_blocks ?d < 2 ^ 32"
    using assms(1) by (auto simp: dev_ok_def lhd_inv_def lhd_healthy_next)
  have eq: "lhd_io (?d, u) = lhd_io_sector b 1 (?d, u)"
    using lhd_io_one [of b ?d u] assms d by simp
  have "out_wp (lhd_io (?d, u)) (\<lambda>_ (d', u'). lhd_same ?d d' \<and> uio_fill (lh_sectors ?d b) u u')
    (\<lambda>e (d', u'). lhd_same ?d d' \<and> uio_fault e u u')"
    unfolding eq by (rule out_wp_conseq [OF lhd_read_sector]) (use assms d in auto)
  then show ?thesis
    using d by (cases rule: out_wp_cases)
      (auto simp: sfs_rwblock_def sfs_rwblock_retry.simps [of 0 s] dev_step_def dev_write_def)
qed

lemma sfs_rwblock_write:
  assumes "dev_ok s" and "b < d_blocks (sfs_device s)" and "uio_ok u" and "uio_rw u = UIO_WRITE"
    and "uio_offset u = int b * 512" and "uio_resid u = 512"
  shows "out_wp (sfs_rwblock (s, u))
    (\<lambda>_ (s', u'). \<exists>bs. length bs = 512 \<and> uio_drain bs u u' \<and> dev_write b bs s s')
    (\<lambda>e (s', u'). dev_step s s' \<and>
       uio_fault e u u')"
proof -
  let ?d = "sfs_device s"
  have d: "lhd_inv ?d" "lhd_next ?d = HwOk" "biglock_depth s > 0" "d_blocks ?d < 2 ^ 32"
    using assms(1) by (auto simp: dev_ok_def lhd_inv_def lhd_healthy_next)
  have eq: "lhd_io (?d, u) = lhd_io_sector b 3 (?d, u)"
    using lhd_io_one [of b ?d u] assms d by simp
  have "out_wp (lhd_io (?d, u))
    (\<lambda>_ (d', u'). \<exists>bs. length bs = 512 \<and> uio_drain bs u u' \<and>
       lhd_same (?d\<lparr>lh_sectors := (lh_sectors ?d)(b := bs)\<rparr>) d')
    (\<lambda>e (d', u'). lhd_same ?d d' \<and> uio_fault e u u')"
    unfolding eq by (rule out_wp_conseq [OF lhd_write_sector]) (use assms d in auto)
  then show ?thesis
    using d by (cases rule: out_wp_cases)
      (auto simp: sfs_rwblock_def sfs_rwblock_retry.simps [of 0 s] dev_step_def dev_write_def)
qed

lemma dev_stepD:
  assumes "dev_step s s'"
  shows "sect s' = sect s" "d_blocks (sfs_device s') = d_blocks (sfs_device s)"
    "dev_ok s \<Longrightarrow> dev_ok s'" "s' = s\<lparr>sfs_device := sfs_device s'\<rparr>"
proof -
  have d: "lhd_same (sfs_device s) (sfs_device s')" "s' = s\<lparr>sfs_device := sfs_device s'\<rparr>"
    using assms by (auto simp: dev_step_def)
  then show "sect s' = sect s" "d_blocks (sfs_device s') = d_blocks (sfs_device s)"
    "s' = s\<lparr>sfs_device := sfs_device s'\<rparr>" by (auto simp: lhd_same_def)
  have "biglock_depth s' = biglock_depth s" by (subst d(2)) simp
  then show "dev_ok s'" if "dev_ok s"
    using that d(1) lhd_same_inv lhd_same_healthy by (auto simp: dev_ok_def)
qed

lemma dev_writeD:
  assumes "dev_write b bs s s'"
  shows "sect s' = (sect s)(b := bs)" "d_blocks (sfs_device s') = d_blocks (sfs_device s)"
    "length bs = 512 \<Longrightarrow> dev_ok s \<Longrightarrow> dev_ok s'" "s' = s\<lparr>sfs_device := sfs_device s'\<rparr>"
proof -
  let ?d = "(sfs_device s)\<lparr>lh_sectors := (sect s)(b := bs)\<rparr>"
  have d: "lhd_same ?d (sfs_device s')" "s' = s\<lparr>sfs_device := sfs_device s'\<rparr>"
    using assms by (auto simp: dev_write_def)
  then show "sect s' = (sect s)(b := bs)" "d_blocks (sfs_device s') = d_blocks (sfs_device s)"
    "s' = s\<lparr>sfs_device := sfs_device s'\<rparr>" by (auto simp: lhd_same_def)
  have l: "biglock_depth s' = biglock_depth s" by (subst d(2)) simp
  assume "length bs = 512" "dev_ok s"
  then have "lhd_inv ?d" "lhd_healthy ?d"
    by (auto simp: dev_ok_def lhd_inv_def lhd_healthy_def)
  then show "dev_ok s'"
    using d(1) l lhd_same_inv lhd_same_healthy \<open>dev_ok s\<close> by (auto simp: dev_ok_def)
qed

lemma dev_step_refl [simp]: "dev_step s s"
  by (simp add: dev_step_def)

lemma sfs_device_upd_upd:
  "v = t\<lparr>sfs_device := x\<rparr> \<Longrightarrow> t = s\<lparr>sfs_device := y\<rparr> \<Longrightarrow> v = s\<lparr>sfs_device := x\<rparr>"
  by simp

lemma dev_step_trans:
  assumes "dev_step s t" and "dev_step t v"
  shows "dev_step s v"
proof -
  have "v = t\<lparr>sfs_device := sfs_device v\<rparr>" "t = s\<lparr>sfs_device := sfs_device t\<rparr>"
    using assms by (auto simp: dev_step_def)
  then have "v = s\<lparr>sfs_device := sfs_device v\<rparr>" by (rule sfs_device_upd_upd)
  then show ?thesis using assms lhd_same_trans by (auto simp: dev_step_def)
qed

lemma dev_step_write:
  assumes "dev_step s t" and "dev_write b bs t v"
  shows "dev_write b bs s v"
proof -
  have "v = t\<lparr>sfs_device := sfs_device v\<rparr>" "t = s\<lparr>sfs_device := sfs_device t\<rparr>"
    using assms by (auto simp: dev_step_def dev_write_def)
  then have "v = s\<lparr>sfs_device := sfs_device v\<rparr>" by (rule sfs_device_upd_upd)
  then show ?thesis using assms by (auto simp: dev_step_def dev_write_def lhd_same_def)
qed

lemma SFSUIO_sel [simp]:
  "uio_ok (SFSUIO data b rw)" "uio_rw (SFSUIO data b rw) = rw" "uio_resid (SFSUIO data b rw) = 512"
  "uio_offset (SFSUIO data b rw) = int b * 512" "uio_segflg (SFSUIO data b rw) = UIO_SYSSPACE"
  "uio_addrs (SFSUIO data b rw) = [0..<512]"
  by (simp_all add: SFSUIO_def)

text \<open>Reading a block with a healthy device returns the sector; writing one replaces it.\<close>

lemma sfs_rblock_wp:
  assumes "dev_ok s" and "b < d_blocks (sfs_device s)"
  shows "out_wp (sfs_rblock b s) (\<lambda>bs s'. bs = sect s b \<and> dev_step s s') (\<lambda>_ _. False)"
proof -
  have l: "length (sect s b) = 512" using assms(1) by (simp add: dev_ok_def lhd_inv_def)
  have "out_wp (sfs_rwblock (s, SFSUIO [] b UIO_READ))
    (\<lambda>_ (s', u'). dev_step s s' \<and> uio_fill (sect s b) (SFSUIO [] b UIO_READ) u')
    (\<lambda>e (s', u'). dev_step s s' \<and> uio_fault e (SFSUIO [] b UIO_READ) u')"
    by (rule sfs_rwblock_read) (use assms in auto)
  then show ?thesis
  proof (cases rule: out_wp_cases)
    case (Ok a su)
    obtain s' u' where su: "su = (s', u')" by (cases su)
    have "us_mem (uio_mem u') = mem_store (us_mem (uio_mem (SFSUIO [] b UIO_READ))) [0..<512] (sect s b)"
      using Ok(2) su l by (auto simp: uio_fill_def)
    then have "mem_read (us_mem (uio_mem u')) 0 512 = sect s b"
      using l by (simp add: mem_read_def)
    then show ?thesis using Ok su by (simp add: sfs_rblock_def)
  qed auto
qed

lemma sfs_wblock_wp:
  assumes "dev_ok s" and "b < d_blocks (sfs_device s)" and "length bs = 512"
  shows "out_wp (sfs_wblock bs b s) (\<lambda>_ s'. dev_write b bs s s') (\<lambda>_ _. False)"
proof -
  let ?u = "SFSUIO bs b UIO_WRITE"
  have m: "map (us_mem (uio_mem ?u)) [0..<512] = bs"
    using mem_read_write_same [of 512 bs "\<lambda>_. 0" 0] assms(3) by (simp add: SFSUIO_def mem_read_def)
  have "out_wp (sfs_rwblock (s, ?u))
    (\<lambda>_ (s', u'). \<exists>cs. length cs = 512 \<and> uio_drain cs ?u u' \<and> dev_write b cs s s')
    (\<lambda>e (s', u'). dev_step s s' \<and> uio_fault e ?u u')"
    by (rule sfs_rwblock_write) (use assms in auto)
  then show ?thesis
  proof (cases rule: out_wp_cases)
    case (Ok a su)
    obtain s' u' where su: "su = (s', u')" by (cases su)
    then obtain cs where cs: "length cs = 512" "uio_drain cs ?u u'" "dev_write b cs s s'"
      using Ok(2) by auto
    have "cs = bs" using cs(1,2) m by (simp add: uio_drain_def)
    then show ?thesis using Ok su cs by (simp add: sfs_wblock_def)
  qed auto
qed

text \<open>Whatever the device reports, only the device changes.\<close>

lemma sfs_rwblock_retry_frame:
  "(\<forall>a s' u'. sfs_rwblock_retry tries (s, u) = Ok a (s', u') \<longrightarrow> s' = s\<lparr>sfs_device := sfs_device s'\<rparr>) \<and>
   (\<forall>e s' u'. sfs_rwblock_retry tries (s, u) = Err e (s', u') \<longrightarrow> s' = s\<lparr>sfs_device := sfs_device s'\<rparr>)"
proof (induction tries "(s, u)" arbitrary: s u rule: sfs_rwblock_retry.induct)
  case (1 tries s u)
  show ?case
  proof (cases "lhd_io (sfs_device s, u)")
    case (Ok a x)
    then show ?thesis by (cases x) (simp add: sfs_rwblock_retry.simps [of tries s])
  next
    case Panic
    then show ?thesis by (simp add: sfs_rwblock_retry.simps [of tries s])
  next
    case (Err e x)
    obtain d u1 where x: "x = (d, u1)" by (cases x)
    show ?thesis
    proof (cases "e = EIO \<and> tries < 10")
      case True
      then have "sfs_rwblock_retry tries (s, u) = sfs_rwblock_retry (Suc tries) (s\<lparr>sfs_device := d\<rparr>, u1)"
        using Err x by (simp add: sfs_rwblock_retry.simps [of tries s])
      moreover have "(\<forall>a s' u'. sfs_rwblock_retry (Suc tries) (s\<lparr>sfs_device := d\<rparr>, u1) = Ok a (s', u') \<longrightarrow>
            s' = s\<lparr>sfs_device := d\<rparr>\<lparr>sfs_device := sfs_device s'\<rparr>) \<and>
          (\<forall>e s' u'. sfs_rwblock_retry (Suc tries) (s\<lparr>sfs_device := d\<rparr>, u1) = Err e (s', u') \<longrightarrow>
            s' = s\<lparr>sfs_device := d\<rparr>\<lparr>sfs_device := sfs_device s'\<rparr>)"
        by (rule "1.hyps" [OF Err x [symmetric] refl]) (use True in auto)
      ultimately show ?thesis by simp
    next
      case False
      then show ?thesis using Err x by (auto simp: sfs_rwblock_retry.simps [of tries s] Let_def)
    qed
  qed
qed

lemma sfs_rblock_frame:
  "sfs_rblock b s = Ok bs s' \<Longrightarrow> s' = s\<lparr>sfs_device := sfs_device s'\<rparr>"
  "sfs_rblock b s = Err e s' \<Longrightarrow> s' = s\<lparr>sfs_device := sfs_device s'\<rparr>"
  using sfs_rwblock_retry_frame [of 0 s "SFSUIO [] b UIO_READ"]
  by (auto simp: sfs_rblock_def sfs_rwblock_def split: out.splits)

lemma sfs_wblock_frame:
  "sfs_wblock bs b s = Ok u s' \<Longrightarrow> s' = s\<lparr>sfs_device := sfs_device s'\<rparr>"
  "sfs_wblock bs b s = Err e s' \<Longrightarrow> s' = s\<lparr>sfs_device := sfs_device s'\<rparr>"
  using sfs_rwblock_retry_frame [of 0 s "SFSUIO bs b UIO_WRITE"]
  by (auto simp: sfs_wblock_def sfs_rwblock_def split: out.splits)

text \<open>
  The retry after a failed write transfers nothing: the failed attempt has consumed the uio, so
  the second call of the device is asked for zero sectors and succeeds. The write is reported as
  done and the sector keeps its old contents.
\<close>

lemma sfs_wblock_media_error:
  assumes "lhd_inv (sfs_device s)" and "biglock_depth s > 0" and "b < d_blocks (sfs_device s)"
    and "length bs = 512" and "lh_hw (sfs_device s) = HwMedia # rest"
  shows "\<exists>s'. sfs_wblock bs b s = Ok () s' \<and> sect s' = sect s"
proof -
  let ?d = "sfs_device s" and ?u = "SFSUIO bs b UIO_WRITE"
  have nx: "lhd_outcome (lhd_next ?d) = Some EIO" using assms(5) by (simp add: lhd_next_def lhd_outcome_def)
  have eq: "lhd_io (?d, ?u) = lhd_io_sector b 3 (?d, ?u)"
    using lhd_io_one [of b ?d ?u] assms by (simp add: lhd_inv_def)
  have "out_wp (lhd_io (?d, ?u)) (\<lambda>_ _. False)
    (\<lambda>e (d', u'). lhd_same ?d d' \<and> e = EIO \<and> (\<exists>cs. length cs = 512 \<and> uio_drain cs ?u u'))"
    unfolding eq by (rule out_wp_conseq [OF lhd_write_sector [of ?d ?u b]]) (use assms nx in auto)
  then obtain d1 u1 cs where 1: "lhd_io (?d, ?u) = Err EIO (d1, u1)" "lhd_same ?d d1"
    "length cs = 512" "uio_drain cs ?u u1"
    by (cases rule: out_wp_cases) auto
  have "uio_resid u1 = 0" "uio_offset u1 = int (Suc b) * 512" "d_blocks d1 = d_blocks ?d"
    using uio_drain_frame [OF 1(4)] 1(2,3) by (auto simp: lhd_same_def)
  then have "lhd_io (d1, u1) = Ok () (d1, u1)"
    using assms(1,3) by (intro lhd_io_empty [of "Suc b"]) (auto simp: lhd_inv_def)
  then have "sfs_rwblock (s, ?u) = Ok () (s\<lparr>sfs_device := d1\<rparr>, u1)"
    using 1(1) assms(2) by (simp add: sfs_rwblock_def sfs_rwblock_retry.simps)
  then show ?thesis using 1(2) by (simp add: sfs_wblock_def lhd_same_def)
qed

end
