(* ===== verification/SfsBmap.thy ===== *)
theory SfsBmap
  imports SfsDisk
begin

text \<open>
  Space allocation and block mapping of \<open>kern/fs/sfs/sfs_vnode.c\<close>: clearing, allocating and freeing
  blocks, writing an inode back, the map from file blocks to disk blocks (\<open>sfs_bmap\<close>) and
  \<open>sfs_truncate\<close>; and the recursive big lock of \<open>kern/vfs/vfslist.c\<close> every operation runs under.
  The abstract view of a file is its contents, byte by byte, with zeros in the holes.
\<close>

section \<open>Operations\<close>

text \<open>The big lock, as its recursion depth in the running thread.\<close>

definition vfs_biglock_acquire :: "sfs_fs \<Rightarrow> sfs_fs" where
  "vfs_biglock_acquire s = s\<lparr>biglock_depth := biglock_depth s + 1\<rparr>"

definition vfs_biglock_release :: "sfs_fs \<Rightarrow> (unit, sfs_fs) out" where
  "vfs_biglock_release s =
     kassert (biglock_depth s > 0) (Ok () (s\<lparr>biglock_depth := biglock_depth s - 1\<rparr>))"

text \<open>Following a vnode pointer, and storing through it.\<close>

definition vn_get :: "vptr \<Rightarrow> sfs_fs \<Rightarrow> (sfs_vnode, sfs_fs) out" where
  "vn_get vp s = (case sfs_heap s vp of None \<Rightarrow> Panic | Some sv \<Rightarrow> Ok sv s)"

definition vn_put :: "vptr \<Rightarrow> sfs_vnode \<Rightarrow> sfs_fs \<Rightarrow> sfs_fs" where
  "vn_put vp sv s = s\<lparr>sfs_heap := (sfs_heap s)(vp \<mapsto> sv)\<rparr>"

definition sfs_clearblock :: "nat \<Rightarrow> sfs_fs \<Rightarrow> (unit, sfs_fs) out" where
  "sfs_clearblock block s = sfs_wblock (replicate SFS_BLOCKSIZE 0) block s"

definition sfs_sync_inode :: "vptr \<Rightarrow> sfs_fs \<Rightarrow> (unit, sfs_fs) out" where
  "sfs_sync_inode vp s =
     kbind (vn_get vp s) (\<lambda>sv s.
       if sv_dirty sv
       then kbind (sfs_wblock (inode_bytes (sv_i sv)) (sv_ino sv) s) (\<lambda>_ s.
              Ok () (vn_put vp (sv\<lparr>sv_dirty := False\<rparr>) s))
       else Ok () s)"

abbreviation fs_nblocks :: "sfs_fs \<Rightarrow> nat" where
  "fs_nblocks s \<equiv> unat (sp_nblocks (sfs_super s))"

definition sfs_balloc :: "sfs_fs \<Rightarrow> (nat, sfs_fs) out" where
  "sfs_balloc s =
     (case bitmap_alloc (sfs_freemap s) of
        Panic \<Rightarrow> Panic
      | Err e fm \<Rightarrow> Err e (s\<lparr>sfs_freemap := fm\<rparr>)
      | Ok diskblock fm \<Rightarrow>
          (let s = s\<lparr>sfs_freemap := fm, sfs_freemapdirty := True\<rparr> in
           if diskblock \<ge> fs_nblocks s then Panic
           else kbind (sfs_clearblock diskblock s) (\<lambda>_ s. Ok diskblock s)))"

definition sfs_bfree :: "nat \<Rightarrow> sfs_fs \<Rightarrow> (unit, sfs_fs) out" where
  "sfs_bfree diskblock s =
     (case bitmap_unmark diskblock (sfs_freemap s) of
        Ok _ fm \<Rightarrow> Ok () (s\<lparr>sfs_freemap := fm, sfs_freemapdirty := True\<rparr>)
      | Err e fm \<Rightarrow> Err e (s\<lparr>sfs_freemap := fm\<rparr>)
      | Panic \<Rightarrow> Panic)"

definition sfs_bused :: "nat \<Rightarrow> sfs_fs \<Rightarrow> (bool, sfs_fs) out" where
  "sfs_bused diskblock s =
     (if diskblock \<ge> fs_nblocks s then Panic
      else Ok (bitmap_isset (sfs_freemap s) diskblock) s)"

text \<open>The check before \<open>sfs_bmap\<close> hands a block back: a mapped block must be marked in use.\<close>

definition sfs_bcheck :: "nat \<Rightarrow> sfs_fs \<Rightarrow> (nat, sfs_fs) out" where
  "sfs_bcheck block s =
     (if block \<noteq> 0 then kbind (sfs_bused block s) (\<lambda>used s. if \<not> used then Panic else Ok block s)
      else Ok block s)"

text \<open>The second half of \<open>sfs_bmap\<close>: the entry \<open>idoff\<close> of the indirect block held in \<open>idbuf\<close>.\<close>

definition sfs_bmap_entry :: "nat \<Rightarrow> u32 list \<Rightarrow> nat \<Rightarrow> bool \<Rightarrow> sfs_fs \<Rightarrow> (nat, sfs_fs) out" where
  "sfs_bmap_entry idblock idbuf idoff doalloc s =
     (let block = unat (idbuf ! idoff) in
      kbind
        (if block = 0 \<and> doalloc
         then kbind (sfs_balloc s) (\<lambda>block s.
                kbind (sfs_wblock (be32s (idbuf[idoff := word_of_nat block])) idblock s)
                  (\<lambda>_ s. Ok block s))
         else Ok block s)
        sfs_bcheck)"

definition sfs_bmap :: "vptr \<Rightarrow> nat \<Rightarrow> bool \<Rightarrow> sfs_fs \<Rightarrow> (nat, sfs_fs) out" where
  "sfs_bmap vp fileblock doalloc s =
     kbind (vn_get vp s) (\<lambda>sv s.
       if fileblock < SFS_NDIRECT
       then
         (let block = unat (sfi_direct (sv_i sv) ! fileblock) in
          kbind
            (if block = 0 \<and> doalloc
             then kbind (sfs_balloc s) (\<lambda>block s.
                    Ok block (vn_put vp
                      (sv\<lparr>sv_i := (sv_i sv)\<lparr>sfi_direct :=
                             (sfi_direct (sv_i sv))[fileblock := word_of_nat block]\<rparr>,
                          sv_dirty := True\<rparr>) s))
             else Ok block s)
            sfs_bcheck)
       else
         (let fileblock = fileblock - SFS_NDIRECT;
              idnum = fileblock div SFS_DBPERIDB;
              idoff = fileblock mod SFS_DBPERIDB
          in if idnum > 0 then Err EFBIG s
             else
               (let idblock = unat (sfi_indirect (sv_i sv)) in
                if idblock = 0 \<and> \<not> doalloc then Ok 0 s
                else
                  kbind
                    (if idblock = 0
                     then kbind (sfs_balloc s) (\<lambda>idblock s.
                            Ok (idblock, replicate SFS_DBPERIDB 0)
                              (vn_put vp
                                (sv\<lparr>sv_i := (sv_i sv)\<lparr>sfi_indirect := word_of_nat idblock\<rparr>,
                                    sv_dirty := True\<rparr>) s))
                     else kbind (sfs_rblock idblock s) (\<lambda>bs s.
                            Ok (idblock, unbe32s SFS_DBPERIDB bs) s))
                    (\<lambda>(idblock, idbuf) s. sfs_bmap_entry idblock idbuf idoff doalloc s))))"

text \<open>
  \<open>sfs_truncate\<close>. The first loop goes over the direct blocks, the second over the entries of the
  indirect block, collecting whether any entry is left (\<open>hasnonzero\<close>) and whether one was
  discarded (\<open>iddirty\<close>).
\<close>

fun truncate_direct :: "nat \<Rightarrow> nat \<Rightarrow> vptr \<Rightarrow> nat \<Rightarrow> sfs_fs \<Rightarrow> (unit, sfs_fs) out" where
  "truncate_direct i 0 vp blocklen s = Ok () s"
| "truncate_direct i (Suc n) vp blocklen s =
     kbind (vn_get vp s) (\<lambda>sv s.
       let block = unat (sfi_direct (sv_i sv) ! i) in
       kbind
         (if i \<ge> blocklen \<and> block \<noteq> 0
          then kbind (sfs_bfree block s) (\<lambda>_ s.
                 Ok () (vn_put vp
                   (sv\<lparr>sv_i := (sv_i sv)\<lparr>sfi_direct := (sfi_direct (sv_i sv))[i := 0]\<rparr>,
                       sv_dirty := True\<rparr>) s))
          else Ok () s)
         (\<lambda>_ s. truncate_direct (Suc i) n vp blocklen s))"

fun truncate_indirect ::
  "nat \<Rightarrow> nat \<Rightarrow> nat \<Rightarrow> u32 list \<Rightarrow> bool \<Rightarrow> bool \<Rightarrow> sfs_fs \<Rightarrow> (u32 list \<times> bool \<times> bool, sfs_fs) out" where
  "truncate_indirect j 0 blocklen idbuf hasnonzero iddirty s = Ok (idbuf, hasnonzero, iddirty) s"
| "truncate_indirect j (Suc n) blocklen idbuf hasnonzero iddirty s =
     kbind
       (if blocklen < SFS_NDIRECT + j \<and> idbuf ! j \<noteq> 0
        then kbind (sfs_bfree (unat (idbuf ! j)) s) (\<lambda>_ s. Ok (idbuf[j := 0], True) s)
        else Ok (idbuf, iddirty) s)
       (\<lambda>(idbuf, iddirty) s.
          truncate_indirect (Suc j) n blocklen idbuf (hasnonzero \<or> idbuf ! j \<noteq> 0) iddirty s)"

definition truncate_idblock :: "vptr \<Rightarrow> nat \<Rightarrow> sfs_fs \<Rightarrow> (unit, sfs_fs) out" where
  "truncate_idblock vp blocklen s =
     kbind (vn_get vp s) (\<lambda>sv s.
       let idblock = unat (sfi_indirect (sv_i sv));
           baseblock = SFS_NDIRECT;
           highblock = baseblock + SFS_DBPERIDB - 1
       in if blocklen < highblock \<and> idblock \<noteq> 0
          then
            kbind (sfs_rblock idblock s) (\<lambda>bs s.
              kbind (truncate_indirect 0 SFS_DBPERIDB blocklen (unbe32s SFS_DBPERIDB bs) False False s)
                (\<lambda>(idbuf, hasnonzero, iddirty) s.
                   if \<not> hasnonzero
                   then kbind (sfs_bfree idblock s) (\<lambda>_ s.
                          Ok () (vn_put vp
                            (sv\<lparr>sv_i := (sv_i sv)\<lparr>sfi_indirect := 0\<rparr>, sv_dirty := True\<rparr>) s))
                   else if iddirty then sfs_wblock (be32s idbuf) idblock s
                   else Ok () s))
          else Ok () s)"

text \<open>
  \<open>len\<close> is an \<open>off_t\<close>; \<open>DIVROUNDUP\<close> divides in \<open>off_t\<close> and the quotient is stored in 32 bits, as is
  the new size. When the indirect block cannot be read or written the lock is released and the
  error returned; what was freed before stays freed.
\<close>

definition sfs_truncate :: "vptr \<Rightarrow> int \<Rightarrow> sfs_fs \<Rightarrow> (unit, sfs_fs) out" where
  "sfs_truncate vp len s =
     (let blocklen = to_u32 ((len + int SFS_BLOCKSIZE - 1) sdiv int SFS_BLOCKSIZE);
          s = vfs_biglock_acquire s
      in case kbind (truncate_direct 0 SFS_NDIRECT vp blocklen s) (\<lambda>_ s. truncate_idblock vp blocklen s) of
           Panic \<Rightarrow> Panic
         | Err e s \<Rightarrow> kbind (vfs_biglock_release s) (\<lambda>_ s. Err e s)
         | Ok _ s \<Rightarrow>
             kbind (vn_get vp s) (\<lambda>sv s.
               vfs_biglock_release
                 (vn_put vp (sv\<lparr>sv_i := (sv_i sv)\<lparr>sfi_size := word_of_int len\<rparr>, sv_dirty := True\<rparr>) s)))"

section \<open>Invariants and the abstract file\<close>

abbreviation fs_used :: "sfs_fs \<Rightarrow> nat set" where
  "fs_used s \<equiv> bitmap_used (sfs_freemap s)"

text \<open>
  A consistent mounted filesystem: a working device at least as large as the filesystem, a free
  map in which the superblock and everything past the end of the disk is marked in use.
\<close>

definition fs_ok :: "sfs_fs \<Rightarrow> bool" where
  "fs_ok s \<longleftrightarrow> dev_ok s \<and> bitmap_inv (sfs_freemap s) \<and> 0 \<in> fs_used s \<and>
     fs_nblocks s \<le> nbits (sfs_freemap s) \<and> fs_nblocks s \<le> d_blocks (sfs_device s) \<and>
     (\<forall>i. fs_nblocks s \<le> i \<and> i < nbits (sfs_freemap s) \<longrightarrow> i \<in> fs_used s)"

text \<open>The entries of the indirect block, the disk block behind a file block (0 for a hole), and
  every block an inode refers to.\<close>

definition idbuf_of :: "sfs_fs \<Rightarrow> sfs_inode \<Rightarrow> u32 list" where
  "idbuf_of s i = (if sfi_indirect i = 0 then replicate 128 0
     else unbe32s 128 (sect s (unat (sfi_indirect i))))"

definition bmap_of :: "sfs_fs \<Rightarrow> sfs_inode \<Rightarrow> nat \<Rightarrow> nat" where
  "bmap_of s i fb = (if fb < 15 then unat (sfi_direct i ! fb)
     else if fb < 143 then unat (idbuf_of s i ! (fb - 15)) else 0)"

definition file_refs :: "sfs_fs \<Rightarrow> sfs_inode \<Rightarrow> nat set" where
  "file_refs s i = (bmap_of s i ` {..<143} \<union> {unat (sfi_indirect i)}) - {0}"

text \<open>No block is used twice in a file, none is the indirect block, and all are marked in use.\<close>

definition file_ok :: "sfs_fs \<Rightarrow> sfs_inode \<Rightarrow> bool" where
  "file_ok s i \<longleftrightarrow> inode_wf i \<and>
     (\<forall>x<143. \<forall>y<143. bmap_of s i x = bmap_of s i y \<longrightarrow> bmap_of s i x \<noteq> 0 \<longrightarrow> x = y) \<and>
     (\<forall>x<143. bmap_of s i x \<noteq> 0 \<longrightarrow> bmap_of s i x \<noteq> unat (sfi_indirect i)) \<and>
     file_refs s i \<subseteq> fs_used s \<inter> {..<fs_nblocks s}"

definition file_byte :: "sfs_fs \<Rightarrow> sfs_inode \<Rightarrow> nat \<Rightarrow> u8" where
  "file_byte s i off = (let b = bmap_of s i (off div 512) in if b = 0 then 0 else sect s b ! (off mod 512))"

text \<open>What allocation leaves alone.\<close>

definition fs_frame :: "sfs_fs \<Rightarrow> sfs_fs \<Rightarrow> bool" where
  "fs_frame s s' \<longleftrightarrow> sfs_super s' = sfs_super s \<and> sfs_superdirty s' = sfs_superdirty s \<and>
     sfs_vnodes s' = sfs_vnodes s \<and> sfs_brk s' = sfs_brk s \<and> km_fail s' = km_fail s \<and>
     biglock_depth s' = biglock_depth s \<and> nbits (sfs_freemap s') = nbits (sfs_freemap s) \<and>
     d_blocks (sfs_device s') = d_blocks (sfs_device s)"

lemma fs_frame_refl [simp]: "fs_frame s s"
  by (simp add: fs_frame_def)

lemma fs_frame_trans: "fs_frame s t \<Longrightarrow> fs_frame t v \<Longrightarrow> fs_frame s v"
  by (simp add: fs_frame_def)

lemma fs_frame_put [simp]: "fs_frame s (vn_put vp sv t) = fs_frame s t"
  by (simp add: fs_frame_def vn_put_def)

lemma sfs_device_update_sel:
  assumes e: "s' = s\<lparr>sfs_device := sfs_device s'\<rparr>"
  shows "sfs_super s' = sfs_super s" "sfs_superdirty s' = sfs_superdirty s"
    "sfs_vnodes s' = sfs_vnodes s" "sfs_freemap s' = sfs_freemap s"
    "sfs_freemapdirty s' = sfs_freemapdirty s" "sfs_heap s' = sfs_heap s" "sfs_brk s' = sfs_brk s"
    "km_fail s' = km_fail s" "biglock_depth s' = biglock_depth s"
  using arg_cong [OF e, of sfs_super] arg_cong [OF e, of sfs_superdirty]
    arg_cong [OF e, of sfs_vnodes] arg_cong [OF e, of sfs_freemap]
    arg_cong [OF e, of sfs_freemapdirty] arg_cong [OF e, of sfs_heap] arg_cong [OF e, of sfs_brk]
    arg_cong [OF e, of km_fail] arg_cong [OF e, of biglock_depth]
  by simp_all

lemma dev_step_sel:
  assumes "dev_step s s'"
  shows "sfs_super s' = sfs_super s" "sfs_heap s' = sfs_heap s" "sfs_freemap s' = sfs_freemap s"
    "sfs_freemapdirty s' = sfs_freemapdirty s" "biglock_depth s' = biglock_depth s" "fs_frame s s'"
    "sect s' = sect s" "fs_ok s \<Longrightarrow> fs_ok s'"
  using dev_stepD(1-3) [OF assms] sfs_device_update_sel [OF dev_stepD(4) [OF assms]]
  by (auto simp: fs_frame_def fs_ok_def)

lemma dev_write_sel:
  assumes "dev_write b bs s s'"
  shows "sfs_super s' = sfs_super s" "sfs_heap s' = sfs_heap s" "sfs_freemap s' = sfs_freemap s"
    "sfs_freemapdirty s' = sfs_freemapdirty s" "biglock_depth s' = biglock_depth s" "fs_frame s s'"
    "sect s' = (sect s)(b := bs)" "length bs = 512 \<Longrightarrow> fs_ok s \<Longrightarrow> fs_ok s'"
  using dev_writeD(1-3) [OF assms] sfs_device_update_sel [OF dev_writeD(4) [OF assms]]
  by (auto simp: fs_frame_def fs_ok_def)

lemma fs_ok_put [simp]: "fs_ok (vn_put vp sv s) = fs_ok s"
  by (simp add: fs_ok_def dev_ok_def vn_put_def)

lemma vn_put_sel [simp]:
  "sfs_device (vn_put vp sv s) = sfs_device s" "sfs_freemap (vn_put vp sv s) = sfs_freemap s"
  "sfs_super (vn_put vp sv s) = sfs_super s" "biglock_depth (vn_put vp sv s) = biglock_depth s"
  "sfs_heap (vn_put vp sv s) = (sfs_heap s)(vp \<mapsto> sv)"
  by (simp_all add: vn_put_def)

lemma unat_u32_less: "unat (w :: u32) < 2 ^ 32"
proof -
  have "unat w < 2 ^ LENGTH(32)" by (rule unsigned_less)
  then show ?thesis by simp
qed

lemma bmap_of_cong:
  assumes "sfi_direct i' = sfi_direct i" and "sfi_indirect i' = sfi_indirect i"
    and "sfi_indirect i \<noteq> 0 \<Longrightarrow> sect s' (unat (sfi_indirect i)) = sect s (unat (sfi_indirect i))"
  shows "bmap_of s' i' = bmap_of s i"
  using assms by (intro ext) (auto simp: bmap_of_def idbuf_of_def)

section \<open>Allocation\<close>

text \<open>
  A successful allocation hands out a block that was free, is not 0, lies on the disk and is now
  marked and zeroed; it fails only when the disk is full and then changes nothing.
\<close>

definition balloc_post :: "sfs_fs \<Rightarrow> nat \<Rightarrow> sfs_fs \<Rightarrow> bool" where
  "balloc_post s b s' \<longleftrightarrow> b \<notin> fs_used s \<and> b \<noteq> 0 \<and> b < fs_nblocks s \<and> b < 2 ^ 32 \<and>
     fs_used s' = insert b (fs_used s) \<and> sect s' = (sect s)(b := replicate 512 0) \<and>
     fs_ok s' \<and> fs_frame s s' \<and> sfs_heap s' = sfs_heap s \<and> sfs_freemapdirty s'"

lemma sfs_balloc_wp:
  assumes "fs_ok s"
  shows "out_wp (sfs_balloc s) (balloc_post s)
    (\<lambda>e s'. e = ENOSPC \<and> s' = s \<and> {..<fs_nblocks s} \<subseteq> fs_used s)"
proof -
  have bi: "bitmap_inv (sfs_freemap s)" using assms by (simp add: fs_ok_def)
  show ?thesis
    using bitmap_alloc_spec [OF bi]
  proof (cases rule: out_wp_cases)
    case (Err e fm)
    then show ?thesis using assms by (auto simp: sfs_balloc_def fs_ok_def)
  next
    case (Ok b fm)
    have b: "b \<notin> fs_used s" "b < nbits (sfs_freemap s)" "bitmap_used fm = insert b (fs_used s)"
      "bitmap_inv fm" "nbits fm = nbits (sfs_freemap s)" using Ok(2) by auto
    have lt: "b < fs_nblocks s"
    proof (rule ccontr)
      assume "\<not> b < fs_nblocks s"
      with b(2) assms have "b \<in> fs_used s" by (simp add: fs_ok_def)
      with b(1) show False ..
    qed
    have nz: "b \<noteq> 0" using b(1) assms by (auto simp: fs_ok_def)
    let ?s = "s\<lparr>sfs_freemap := fm, sfs_freemapdirty := True\<rparr>"
    have ok: "fs_ok ?s" using assms b by (auto simp: fs_ok_def dev_ok_def)
    have "out_wp (sfs_clearblock b ?s) (\<lambda>_ s'. dev_write b (replicate 512 0) ?s s') (\<lambda>_ _. False)"
      unfolding sfs_clearblock_def
      by (rule sfs_wblock_wp) (use ok lt in \<open>auto simp: fs_ok_def\<close>)
    then show ?thesis
    proof (cases rule: out_wp_cases)
      case 2: (Ok a s')
      note w = dev_write_sel [OF 2(2)]
      have "balloc_post s b s'"
        using b lt nz w ok unat_u32_less [of "sp_nblocks (sfs_super s)"] by (simp add: balloc_post_def fs_frame_def)
      then show ?thesis using Ok(1) 2(1) lt by (simp add: sfs_balloc_def)
    qed simp
  qed
qed

lemma sfs_bfree_wp:
  assumes "fs_ok s" and "b \<in> fs_used s" and "b < fs_nblocks s" and "b \<noteq> 0"
  shows "out_wp (sfs_bfree b s)
    (\<lambda>_ s'. fs_used s' = fs_used s - {b} \<and> fs_ok s' \<and> fs_frame s s' \<and> sfs_device s' = sfs_device s \<and>
       sfs_heap s' = sfs_heap s \<and> sfs_freemapdirty s')
    (\<lambda>_ _. False)"
proof -
  obtain fm where fm: "bitmap_unmark b (sfs_freemap s) = Ok () fm" "bitmap_inv fm"
    "nbits fm = nbits (sfs_freemap s)" "bitmap_used fm = fs_used s - {b}"
    using bitmap_unmark_spec [of "sfs_freemap s" b] assms by (auto simp: fs_ok_def)
  then show ?thesis
    using assms by (auto simp: sfs_bfree_def fs_ok_def dev_ok_def fs_frame_def)
qed

lemma sfs_bcheck_ok:
  assumes "fs_ok s" and "b \<noteq> 0 \<Longrightarrow> b \<in> fs_used s \<and> b < fs_nblocks s"
  shows "sfs_bcheck b s = Ok b s"
proof -
  have "b < nbits (sfs_freemap s)" if "b < fs_nblocks s" using that assms(1) by (simp add: fs_ok_def)
  then show ?thesis using assms(2) by (cases "b = 0") (auto simp: sfs_bcheck_def sfs_bused_def)
qed

section \<open>Mapping blocks\<close>

text \<open>
  What an allocation may do to a file: its contents stay, the blocks it gains were free before,
  and no block in use outside the file is touched.
\<close>

definition same_meta :: "sfs_inode \<Rightarrow> sfs_inode \<Rightarrow> bool" where
  "same_meta i i' \<longleftrightarrow> sfi_size i' = sfi_size i \<and> sfi_type i' = sfi_type i \<and>
     sfi_linkcount i' = sfi_linkcount i \<and> sfi_waste i' = sfi_waste i"

definition file_step :: "sfs_fs \<Rightarrow> sfs_inode \<Rightarrow> sfs_fs \<Rightarrow> sfs_inode \<Rightarrow> bool" where
  "file_step s i s' i' \<longleftrightarrow> fs_ok s' \<and> fs_frame s s' \<and> fs_used s \<subseteq> fs_used s' \<and> file_ok s' i' \<and>
     file_byte s' i' = file_byte s i \<and>
     (\<forall>b \<in> fs_used s. b \<notin> file_refs s i \<longrightarrow> sect s' b = sect s b) \<and>
     file_refs s' i' \<subseteq> file_refs s i \<union> (fs_used s' - fs_used s) \<and>
     same_meta i i'"

lemma same_meta_refl [simp]: "same_meta i i"
  by (simp add: same_meta_def)

lemma file_step_refl: "fs_ok s \<Longrightarrow> file_ok s i \<Longrightarrow> file_step s i s i"
  by (auto simp: file_step_def)

lemma file_step_trans:
  assumes "file_step s i t j" and "file_step t j v k"
  shows "file_step s i v k"
proof -
  have "b \<in> fs_used t \<and> b \<notin> file_refs t j" if "b \<in> fs_used s" "b \<notin> file_refs s i" for b
    using that assms(1) by (auto simp: file_step_def)
  moreover have "same_meta i k" using assms by (simp add: file_step_def same_meta_def)
  moreover have "fs_frame s v" using assms fs_frame_trans by (auto simp: file_step_def)
  moreover have "file_byte v k = file_byte s i" "fs_used s \<subseteq> fs_used v" "fs_ok v" "file_ok v k"
    using assms by (auto simp: file_step_def)
  moreover have "file_refs v k \<subseteq> file_refs s i \<union> (fs_used v - fs_used s)"
  proof -
    have "file_refs v k \<subseteq> file_refs t j \<union> (fs_used v - fs_used t)" "fs_used t \<subseteq> fs_used v"
      "file_refs t j \<subseteq> file_refs s i \<union> (fs_used t - fs_used s)" "fs_used s \<subseteq> fs_used t"
      using assms by (simp_all add: file_step_def)
    then show ?thesis by blast
  qed
  ultimately show ?thesis
    using assms by (auto simp: file_step_def)
qed

lemma file_step_dev:
  assumes "dev_step s s'" and "fs_ok s" and "file_ok s i"
  shows "file_step s i s' i"
proof -
  note d = dev_step_sel [OF assms(1)]
  have b: "bmap_of s' i = bmap_of s i" by (rule bmap_of_cong) (simp_all add: d)
  moreover have "file_byte s' i = file_byte s i" by (rule ext) (simp add: file_byte_def b d Let_def)
  ultimately show ?thesis
    using assms d by (simp add: file_step_def file_ok_def file_refs_def)
qed

lemma file_refs_used: "file_ok s i \<Longrightarrow> x < 143 \<Longrightarrow> bmap_of s i x \<noteq> 0 \<Longrightarrow>
  bmap_of s i x \<in> fs_used s \<and> bmap_of s i x < fs_nblocks s \<and> bmap_of s i x \<noteq> unat (sfi_indirect i)"
  by (auto simp: file_ok_def file_refs_def)

lemma file_indirect_used: "file_ok s i \<Longrightarrow> sfi_indirect i \<noteq> 0 \<Longrightarrow>
  unat (sfi_indirect i) \<in> fs_used s \<and> unat (sfi_indirect i) < fs_nblocks s"
  by (auto simp: file_ok_def file_refs_def unat_eq_0)

lemma bmap_of_big: "\<not> x < 143 \<Longrightarrow> bmap_of s i x = 0"
  by (simp add: bmap_of_def)

text \<open>A fresh zeroed block put where there was a hole.\<close>

lemma file_step_extend:
  assumes ok: "file_ok s i" and hole: "bmap_of s i fb = 0" and fb: "fb < 143"
    and b: "b \<notin> fs_used s" "b \<noteq> 0" "b < fs_nblocks s"
    and s': "fs_ok s'" "fs_frame s s'" "fs_used s' = insert b (fs_used s)" "sect s' b = replicate 512 0"
      "\<And>x. x \<in> fs_used s \<Longrightarrow> x \<noteq> unat (sfi_indirect i) \<Longrightarrow> sect s' x = sect s x"
      "\<And>x. x \<in> fs_used s \<Longrightarrow> x \<notin> file_refs s i \<Longrightarrow> sect s' x = sect s x"
    and i': "bmap_of s' i' = (bmap_of s i)(fb := b)" "sfi_indirect i' = sfi_indirect i" "inode_wf i'"
      "same_meta i i'"
  shows "file_step s i s' i'"
proof -
  have old: "bmap_of s i x \<in> fs_used s" "bmap_of s i x \<noteq> b" "bmap_of s i x < fs_nblocks s"
    "bmap_of s i x \<noteq> unat (sfi_indirect i)" if "x < 143" "bmap_of s i x \<noteq> 0" for x
    using file_refs_used [OF ok that] b by auto
  have ind: "unat (sfi_indirect i) \<noteq> b"
    using file_indirect_used [OF ok] b by (cases "sfi_indirect i = 0") auto
  have sup: "sfs_super s' = sfs_super s" using s'(2) by (simp add: fs_frame_def)
  have byte: "file_byte s' i' off = file_byte s i off" for off
  proof (cases "off div 512 = fb")
    case True
    then show ?thesis using i' hole b s'(4) by (simp add: file_byte_def Let_def)
  next
    case False
    show ?thesis
    proof (cases "off div 512 < 143 \<and> bmap_of s i (off div 512) \<noteq> 0")
      case True
      then show ?thesis using False i' old s'(5) by (simp add: file_byte_def Let_def)
    next
      case no: False
      then have "bmap_of s i (off div 512) = 0" using bmap_of_big by blast
      then show ?thesis using False i' by (simp add: file_byte_def Let_def)
    qed
  qed
  have refs: "file_refs s' i' = insert b (file_refs s i)"
    using i' fb hole b by (auto simp: file_refs_def image_iff fun_upd_apply)
  have inj: "x = y" if "x < 143" "y < 143" "bmap_of s' i' x = bmap_of s' i' y" "bmap_of s' i' x \<noteq> 0" for x y
    using that ok old(2) [of x] old(2) [of y]
    by (cases "x = fb"; cases "y = fb") (auto simp: i'(1) file_ok_def)
  have nind: "bmap_of s' i' x \<noteq> unat (sfi_indirect i')" if "x < 143" "bmap_of s' i' x \<noteq> 0" for x
    using that old(4) [of x] ind by (cases "x = fb") (auto simp: i'(1,2))
  have "file_refs s' i' \<subseteq> fs_used s' \<inter> {..<fs_nblocks s'}"
    using ok refs s'(3) b sup by (auto simp: file_ok_def)
  then have "file_ok s' i'"
    unfolding file_ok_def using inj nind i'(3) by blast
  then show ?thesis
    using s' byte refs b i'(4) by (auto simp: file_step_def)
qed


text \<open>An empty indirect block added to a file that had none.\<close>

lemma file_step_indirect:
  assumes ok: "file_ok s i" and ind: "sfi_indirect i = 0" and post: "balloc_post s b s'"
    and i': "i' = i\<lparr>sfi_indirect := word_of_nat b\<rparr>"
  shows "file_step s i s' i'" and "idbuf_of s' i' = replicate 128 0"
    and "unat (sfi_indirect i') = b" and "sfi_indirect i' \<noteq> 0"
proof -
  have b: "b \<notin> fs_used s" "b \<noteq> 0" "b < fs_nblocks s" "fs_used s' = insert b (fs_used s)"
    "sect s' = (sect s)(b := replicate 512 0)" "fs_ok s'" "fs_frame s s'" "b < 2 ^ 32"
    using post by (auto simp: balloc_post_def)
  have u: "unat (word_of_nat b :: u32) = b" using b(8) by (simp add: unat_of_nat)
  show ui: "unat (sfi_indirect i') = b" using u i' by simp
  then show "sfi_indirect i' \<noteq> 0" using b(2) by auto
  show id: "idbuf_of s' i' = replicate 128 0"
    using u i' b(2,5) unbe32s_zero [of 128] \<open>sfi_indirect i' \<noteq> 0\<close> by (simp add: idbuf_of_def)
  have bm: "bmap_of s' i' = bmap_of s i"
  proof (rule ext)
    have "idbuf_of s i = replicate 128 0" "sfi_direct i' = sfi_direct i"
      using ind i' by (simp_all add: idbuf_of_def)
    then show "bmap_of s' i' x = bmap_of s i x" for x by (simp add: bmap_of_def id)
  qed
  have old: "bmap_of s i x \<in> fs_used s" "bmap_of s i x \<noteq> b" if "x < 143" "bmap_of s i x \<noteq> 0" for x
    using file_refs_used [OF ok that] b by auto
  have byte: "file_byte s' i' off = file_byte s i off" for off
  proof (cases "off div 512 < 143 \<and> bmap_of s i (off div 512) \<noteq> 0")
    case True
    then show ?thesis using old b(5) by (simp add: file_byte_def Let_def bm)
  next
    case False
    then have "bmap_of s i (off div 512) = 0" using bmap_of_big by blast
    then show ?thesis by (simp add: file_byte_def Let_def bm)
  qed
  have refs: "file_refs s' i' = insert b (file_refs s i)"
    using bm ui ind b(2) by (auto simp: file_refs_def)
  have "sfs_super s' = sfs_super s" using b(7) by (simp add: fs_frame_def)
  then have "file_refs s' i' \<subseteq> fs_used s' \<inter> {..<fs_nblocks s'}"
    using ok refs b by (auto simp: file_ok_def)
  moreover have "inode_wf i'" using ok i' by (simp add: file_ok_def inode_wf_def)
  ultimately have "file_ok s' i'"
    using ok old(2) ui bm unfolding file_ok_def by metis
  moreover have "same_meta i i'" by (simp add: same_meta_def i')
  ultimately show "file_step s i s' i'"
    using b byte refs by (auto simp: file_step_def)
qed

text \<open>An in-memory vnode whose inode may have changed: then it is marked dirty.\<close>

definition vn_same :: "sfs_vnode \<Rightarrow> sfs_vnode \<Rightarrow> bool" where
  "vn_same sv sv' \<longleftrightarrow> vn_ops sv' = vn_ops sv \<and> vn_refcount sv' = vn_refcount sv \<and>
     vn_opencount sv' = vn_opencount sv \<and> sv_ino sv' = sv_ino sv \<and>
     (sv_dirty sv' \<or> sv_dirty sv' = sv_dirty sv \<and> sv_i sv' = sv_i sv)"

lemma vn_same_refl [simp]: "vn_same sv sv"
  by (simp add: vn_same_def)

lemma vn_same_dirty [simp]: "vn_same sv (sv\<lparr>sv_i := i, sv_dirty := True\<rparr>)"
  by (simp add: vn_same_def)

lemma vn_same_trans: "vn_same sv tv \<Longrightarrow> vn_same tv vv \<Longrightarrow> vn_same sv vv"
  by (auto simp: vn_same_def)

text \<open>\<open>sfs_bmap\<close> on the vnode \<open>vp\<close>: the vnode and the disk it leaves behind.\<close>

definition bmap_state :: "sfs_fs \<Rightarrow> vptr \<Rightarrow> sfs_vnode \<Rightarrow> sfs_fs \<Rightarrow> sfs_vnode \<Rightarrow> bool" where
  "bmap_state s vp sv s' sv' \<longleftrightarrow> sfs_heap s' = (sfs_heap s)(vp \<mapsto> sv') \<and>
     file_step s (sv_i sv) s' (sv_i sv') \<and>
     vn_same sv sv'"

lemma bmap_state_refl:
  "fs_ok s \<Longrightarrow> file_ok s (sv_i sv) \<Longrightarrow> sfs_heap s vp = Some sv \<Longrightarrow> bmap_state s vp sv s sv"
  by (auto simp: bmap_state_def file_step_refl fun_upd_idem)

lemma bmap_state_trans:
  assumes "bmap_state s vp sv t tv" and "bmap_state t vp tv v vv"
  shows "bmap_state s vp sv v vv"
  using assms file_step_trans [of s "sv_i sv" t "sv_i tv" v "sv_i vv"] vn_same_trans [of sv tv vv]
  by (auto simp: bmap_state_def)


lemma file_step_direct:
  assumes ok: "file_ok s i" and fb: "fb < 15" and hole: "sfi_direct i ! fb = 0"
    and post: "balloc_post s b s'"
    and i': "i' = i\<lparr>sfi_direct := (sfi_direct i)[fb := word_of_nat b]\<rparr>"
  shows "file_step s i s' i'" and "bmap_of s' i' fb = b"
proof -
  have b: "b \<notin> fs_used s" "b \<noteq> 0" "b < fs_nblocks s" "fs_used s' = insert b (fs_used s)"
    "sect s' = (sect s)(b := replicate 512 0)" "fs_ok s'" "fs_frame s s'" "b < 2 ^ 32"
    using post by (auto simp: balloc_post_def)
  have u: "unat (word_of_nat b :: u32) = b" using b(8) by (simp add: unat_of_nat)
  have len: "length (sfi_direct i) = 15" using ok by (simp add: file_ok_def inode_wf_def)
  have sect: "sect s' x = sect s x" if "x \<in> fs_used s" for x using that b by auto
  have ind: "sect s' (unat (sfi_indirect i)) = sect s (unat (sfi_indirect i))" if "sfi_indirect i \<noteq> 0"
    using file_indirect_used [OF ok that] sect by blast
  have bm: "bmap_of s' i' = (bmap_of s i)(fb := b)"
  proof (rule ext)
    have "idbuf_of s' i' = idbuf_of s i" using ind i' by (auto simp: idbuf_of_def)
    then show "bmap_of s' i' x = ((bmap_of s i)(fb := b)) x" for x
      using fb len u i' by (auto simp: bmap_of_def nth_list_update)
  qed
  show "bmap_of s' i' fb = b" by (simp add: bm)
  show "file_step s i s' i'"
    by (rule file_step_extend [OF ok _ _ b(1-3) b(6,7,4) _ _ _ bm])
      (use fb hole b sect i' len in \<open>auto simp: bmap_of_def inode_wf_def same_meta_def
        ok [unfolded file_ok_def inode_wf_def]\<close>)
qed

text \<open>An entry of the indirect block filled in and the indirect block written back.\<close>

lemma file_step_entry:
  assumes ok: "file_ok s i" and j: "j < 128" and ind: "sfi_indirect i \<noteq> 0"
    and hole: "idbuf_of s i ! j = 0" and post: "balloc_post s b t"
    and wr: "dev_write (unat (sfi_indirect i)) (be32s ((idbuf_of s i)[j := word_of_nat b])) t s'"
  shows "file_step s i s' i" and "bmap_of s' i (j + 15) = b"
proof -
  have b: "b \<notin> fs_used s" "b \<noteq> 0" "b < fs_nblocks s" "fs_used t = insert b (fs_used s)"
    "sect t = (sect s)(b := replicate 512 0)" "fs_ok t" "fs_frame s t" "b < 2 ^ 32"
    using post by (auto simp: balloc_post_def)
  let ?ib = "unat (sfi_indirect i)" and ?buf = "(idbuf_of s i)[j := word_of_nat b]"
  have u: "unat (word_of_nat b :: u32) = b" using b(8) by (simp add: unat_of_nat)
  have ib: "?ib \<in> fs_used s" "?ib \<noteq> b" using file_indirect_used [OF ok ind] b(1) by auto
  have len: "length (idbuf_of s i) = 128" by (simp add: idbuf_of_def)
  note w = dev_write_sel [OF wr]
  have ok': "fs_ok s'" "fs_frame s s'" "fs_used s' = insert b (fs_used s)"
    using w b len fs_frame_trans by (auto simp: fs_frame_def)
  have st: "sect s' = (sect s)(b := replicate 512 0, ?ib := be32s ?buf)" using w(7) b(5) by simp
  have id: "idbuf_of s' i = ?buf" using ind st len by (simp add: idbuf_of_def [of s'])
  have bm: "bmap_of s' i = (bmap_of s i)(j + 15 := b)"
    using j u len by (intro ext) (auto simp: bmap_of_def id nth_list_update)
  show "bmap_of s' i (j + 15) = b" by (simp add: bm)
  have refs: "?ib \<in> file_refs s i" using ind by (simp add: file_refs_def unat_eq_0)
  show "file_step s i s' i"
    by (rule file_step_extend [OF ok _ _ b(1-3) ok' _ _ _ bm])
      (use j hole b st ib refs in \<open>auto simp: bmap_of_def ok [unfolded file_ok_def]\<close>)
qed

lemma view_put [simp]:
  "idbuf_of (vn_put vp sv s) = idbuf_of s" "bmap_of (vn_put vp sv s) = bmap_of s"
  "file_refs (vn_put vp sv s) = file_refs s" "file_ok (vn_put vp sv s) = file_ok s"
  "file_byte (vn_put vp sv s) = file_byte s"
proof -
  show i: "idbuf_of (vn_put vp sv s) = idbuf_of s" by (rule ext) (simp add: idbuf_of_def)
  show b: "bmap_of (vn_put vp sv s) = bmap_of s" by (intro ext) (simp add: bmap_of_def i)
  show r: "file_refs (vn_put vp sv s) = file_refs s" by (rule ext) (simp add: file_refs_def b)
  show "file_ok (vn_put vp sv s) = file_ok s" by (rule ext) (simp add: file_ok_def b r)
  show "file_byte (vn_put vp sv s) = file_byte s" by (intro ext) (simp add: file_byte_def b Let_def)
qed

lemma file_step_put [simp]: "file_step s i (vn_put vp sv t) j = file_step s i t j"
  by (simp add: file_step_def)

lemma bmap_of_indirect: "j < 128 \<Longrightarrow> bmap_of s i (j + 15) = unat (idbuf_of s i ! j)"
  by (simp add: bmap_of_def)

lemma bmap_entry_wp:
  assumes s: "fs_ok s" "file_ok s i" "sfi_indirect i \<noteq> 0" and j: "j < 128"
    and ib: "ib = unat (sfi_indirect i)" and buf: "idbuf = idbuf_of s i"
  shows "out_wp
    (sfs_bmap_entry ib idbuf j doalloc s)
    (\<lambda>b s'. file_step s i s' i \<and> b = bmap_of s' i (j + 15) \<and> (doalloc \<longrightarrow> b \<noteq> 0) \<and>
       (\<not> doalloc \<longrightarrow> s' = s) \<and> sfs_heap s' = sfs_heap s)
    (\<lambda>e s'. e = ENOSPC \<and> doalloc \<and> s' = s \<and> {..<fs_nblocks s} \<subseteq> fs_used s \<and> bmap_of s i (j + 15) = 0)"
proof (cases "idbuf ! j = 0 \<and> doalloc")
  case False
  have b: "unat (idbuf ! j) = bmap_of s i (j + 15)" using j buf by (simp add: bmap_of_indirect)
  have "sfs_bcheck (unat (idbuf ! j)) s = Ok (unat (idbuf ! j)) s"
    by (rule sfs_bcheck_ok) (use s b j file_refs_used [OF s(2), of "j + 15"] in auto)
  then show ?thesis
    using False s b file_step_refl by (auto simp: unat_eq_0 sfs_bmap_entry_def Let_def)
next
  case True
  show ?thesis
    using sfs_balloc_wp [OF s(1)]
  proof (cases rule: out_wp_cases)
    case (Err e t)
    then show ?thesis using True j buf by (simp add: sfs_bmap_entry_def bmap_of_indirect)
  next
    case (Ok b t)
    then have t: "fs_ok t" "fs_frame s t" "sfs_heap t = sfs_heap s" "b \<noteq> 0"
      "fs_used t = insert b (fs_used s)" by (auto simp: balloc_post_def)
    have lt: "ib < d_blocks (sfs_device t)"
      using file_indirect_used [OF s(2,3)] t(1,2) ib by (auto simp: fs_ok_def fs_frame_def)
    have "length (be32s (idbuf[j := word_of_nat b])) = 512"
      by (simp add: buf idbuf_of_def)
    then have "out_wp (sfs_wblock (be32s (idbuf[j := word_of_nat b])) ib t)
      (\<lambda>_ v. dev_write ib (be32s (idbuf[j := word_of_nat b])) t v) (\<lambda>_ _. False)"
      using sfs_wblock_wp t(1) lt by (simp add: fs_ok_def)
    then obtain v where v: "sfs_wblock (be32s (idbuf[j := word_of_nat b])) ib t = Ok () v"
      "dev_write ib (be32s (idbuf[j := word_of_nat b])) t v"
      using out_wp_total by fastforce
    note w = dev_write_sel [OF v(2)]
    have st: "file_step s i v i" "bmap_of v i (j + 15) = b"
      using file_step_entry [OF s(2) j s(3) _ Ok(2)] v(2) True buf ib by auto
    have "sfs_bcheck b v = Ok b v"
      by (rule sfs_bcheck_ok) (use st t w Ok(2) in \<open>auto simp: file_step_def balloc_post_def fs_frame_def\<close>)
    then show ?thesis using True Ok(1) v(1) st t w by (simp add: sfs_bmap_entry_def)
  qed
qed

text \<open>The same from a state the vnode has already moved to.\<close>

lemma bmap_indirect_wp:
  assumes st: "bmap_state s vp sv t tv" and nz: "sfi_indirect (sv_i tv) \<noteq> 0" and fb: "\<not> fb < 15" "fb < 143"
  shows "out_wp
    (sfs_bmap_entry (unat (sfi_indirect (sv_i tv))) (idbuf_of t (sv_i tv)) (fb - 15) doalloc t)
    (\<lambda>b s'. \<exists>sv'. bmap_state s vp sv s' sv' \<and> b = bmap_of s' (sv_i sv') fb \<and>
       (doalloc \<longrightarrow> b \<noteq> 0) \<and> (\<not> doalloc \<longrightarrow> s' = t))
    (\<lambda>e s'. e = ENOSPC \<and> doalloc \<and> {..<fs_nblocks s} \<subseteq> fs_used s' \<and> (\<exists>sv'. bmap_state s vp sv s' sv') \<and>
       bmap_of t (sv_i tv) fb = 0)"
proof (rule out_wp_conseq [OF bmap_entry_wp [OF _ _ nz _ refl refl]])
  show "fs_ok t" "file_ok t (sv_i tv)" using st by (auto simp: bmap_state_def file_step_def)
  show "fb - 15 < 128" using fb by simp
next
  fix b s'
  assume b: "file_step t (sv_i tv) s' (sv_i tv) \<and> b = bmap_of s' (sv_i tv) (fb - 15 + 15) \<and>
    (doalloc \<longrightarrow> b \<noteq> 0) \<and> (\<not> doalloc \<longrightarrow> s' = t) \<and> sfs_heap s' = sfs_heap t"
  then have "bmap_state t vp tv s' tv" using st by (auto simp: bmap_state_def)
  then have "bmap_state s vp sv s' tv" by (rule bmap_state_trans [OF st])
  then show "\<exists>sv'. bmap_state s vp sv s' sv' \<and> b = bmap_of s' (sv_i sv') fb \<and>
       (doalloc \<longrightarrow> b \<noteq> 0) \<and> (\<not> doalloc \<longrightarrow> s' = t)"
    using b fb by auto
next
  fix e s'
  assume "e = ENOSPC \<and> doalloc \<and> s' = t \<and> {..<fs_nblocks t} \<subseteq> fs_used t \<and> bmap_of t (sv_i tv) (fb - 15 + 15) = 0"
  then show "e = ENOSPC \<and> doalloc \<and> {..<fs_nblocks s} \<subseteq> fs_used s' \<and> (\<exists>sv'. bmap_state s vp sv s' sv') \<and>
       bmap_of t (sv_i tv) fb = 0"
    using st fb by (auto simp: bmap_state_def file_step_def fs_frame_def)
qed

text \<open>
  \<open>sfs_bmap\<close> returns the disk block behind a file block. Asked to allocate it always finds or
  makes one, keeping every byte of the file and every block of the other files; otherwise it
  changes nothing. It fails for a block past the indirect block, and when the disk is full.
\<close>

lemma sfs_bmap_wp:
  assumes s: "fs_ok s" "sfs_heap s vp = Some sv" "file_ok s (sv_i sv)"
  shows "out_wp (sfs_bmap vp fb doalloc s)
    (\<lambda>b s'. \<exists>sv'. bmap_state s vp sv s' sv' \<and> b = bmap_of s' (sv_i sv') fb \<and> fb < 143 \<and>
       (doalloc \<longrightarrow> b \<noteq> 0) \<and> (\<not> doalloc \<longrightarrow> dev_step s s'))
    (\<lambda>e s'. e = EFBIG \<and> 143 \<le> fb \<and> s' = s \<or>
       e = ENOSPC \<and> doalloc \<and> fb < 143 \<and> {..<fs_nblocks s} \<subseteq> fs_used s' \<and>
         (\<exists>sv'. bmap_state s vp sv s' sv') \<and> bmap_of s (sv_i sv) fb = 0)"
proof -
  let ?i = "sv_i sv"
  have get: "vn_get vp s = Ok sv s" using s by (simp add: vn_get_def)
  have self: "bmap_state s vp sv s sv" by (rule bmap_state_refl [OF s(1,3,2)])
  show ?thesis
  proof (cases "fb < 15")
    case fb: True
    let ?b = "unat (sfi_direct ?i ! fb)"
    have bm: "bmap_of s ?i fb = ?b" using fb by (simp add: bmap_of_def)
    show ?thesis
    proof (cases "?b = 0 \<and> doalloc")
      case False
      have "sfs_bcheck ?b s = Ok ?b s"
        by (rule sfs_bcheck_ok) (use s bm fb file_refs_used [OF s(3), of fb] in auto)
      then show ?thesis
        using False fb get self bm by (auto simp: sfs_bmap_def Let_def)
    next
      case True
      show ?thesis
        using sfs_balloc_wp [OF s(1)]
      proof (cases rule: out_wp_cases)
        case (Err e t)
        then show ?thesis using True fb get self bm by (auto simp: sfs_bmap_def Let_def)
      next
        case (Ok b t)
        let ?sv = "sv\<lparr>sv_i := ?i\<lparr>sfi_direct := (sfi_direct ?i)[fb := word_of_nat b]\<rparr>, sv_dirty := True\<rparr>"
        have st: "file_step s ?i t (sv_i ?sv)" "bmap_of t (sv_i ?sv) fb = b"
          using file_step_direct [OF s(3) fb _ Ok(2)] True by (simp_all add: unat_eq_0)
        have "sfs_bcheck b (vn_put vp ?sv t) = Ok b (vn_put vp ?sv t)"
          by (rule sfs_bcheck_ok) (use Ok(2) in \<open>auto simp: balloc_post_def fs_frame_def\<close>)
        moreover have "bmap_state s vp sv (vn_put vp ?sv t) ?sv"
          using st Ok(2) by (simp add: bmap_state_def balloc_post_def)
        moreover have "b \<noteq> 0" using Ok(2) by (simp add: balloc_post_def)
        ultimately show ?thesis
          using True fb get Ok(1) st(2) by (auto simp: sfs_bmap_def Let_def)
      qed
    qed
  next
    case fb: False
    let ?j = "fb - 15" and ?ib = "unat (sfi_indirect ?i)"
    show ?thesis
    proof (cases "fb < 143")
      case False
      then have "\<not> ?j < 128" by simp
      then have "?j div 128 > 0" by (simp add: div_greater_zero_iff)
      then show ?thesis using False fb get by (simp add: sfs_bmap_def Let_def)
    next
      case lt: True
      have j: "?j < 128" "?j mod 128 = ?j" "?j div 128 = 0" "?j + 15 = fb" using lt fb by auto
      show ?thesis
      proof (cases "?ib = 0")
        case ib: False
        have "?ib < d_blocks (sfs_device s)"
          using file_indirect_used [OF s(3)] ib s(1) by (auto simp: fs_ok_def unat_eq_0)
        then have "out_wp (sfs_rblock ?ib s) (\<lambda>bs s'. bs = sect s ?ib \<and> dev_step s s') (\<lambda>_ _. False)"
          using sfs_rblock_wp s(1) by (simp add: fs_ok_def)
        then obtain t where t: "sfs_rblock ?ib s = Ok (sect s ?ib) t" "dev_step s t"
          using out_wp_total by fastforce
        note d = dev_step_sel [OF t(2)]
        have st: "bmap_state s vp sv t sv"
          using file_step_dev [OF t(2) s(1,3)] d(2) s(2) by (auto simp: bmap_state_def)
        have buf: "unbe32s 128 (sect s ?ib) = idbuf_of t ?i" using ib d(7) by (auto simp: idbuf_of_def)
        have nz: "sfi_indirect ?i \<noteq> 0" using ib by (simp add: unat_eq_0)
        have bt: "bmap_of t ?i = bmap_of s ?i" by (rule bmap_of_cong) (simp_all add: d(7))
        show ?thesis
          unfolding sfs_bmap_def get kbind.simps
          using fb j(2,3) ib t(1) lt
          by (simp add: buf Let_def)
            (rule out_wp_conseq [OF bmap_indirect_wp [OF st nz fb lt]], auto simp: t(2) bt)
      next
        case ib: True
        show ?thesis
        proof (cases doalloc)
          case no: False
          have "bmap_of s ?i fb = 0" using ib lt j(1) fb by (simp add: bmap_of_def idbuf_of_def unat_eq_0)
          then show ?thesis using no ib fb j(2,3) lt get self by (auto simp: sfs_bmap_def Let_def)
        next
          case da: True
          have hole: "bmap_of s ?i fb = 0" using ib lt j(1) fb by (simp add: bmap_of_def idbuf_of_def unat_eq_0)
          show ?thesis
            using sfs_balloc_wp [OF s(1)]
          proof (cases rule: out_wp_cases)
            case (Err e t)
            then show ?thesis using da ib fb j(2,3) lt get self hole by (auto simp: sfs_bmap_def Let_def)
          next
            case (Ok b t)
            let ?sv = "sv\<lparr>sv_i := ?i\<lparr>sfi_indirect := word_of_nat b\<rparr>, sv_dirty := True\<rparr>"
            let ?t = "vn_put vp ?sv t"
            have iz: "sfi_indirect ?i = 0" using ib by (simp add: unat_eq_0)
            note fi = file_step_indirect [OF s(3) iz Ok(2) refl]
            have st: "bmap_state s vp sv ?t ?sv"
              using fi Ok(2) by (simp add: bmap_state_def balloc_post_def)
            have nz: "sfi_indirect (sv_i ?sv) \<noteq> 0" using fi(4) by simp
            have b: "unat (sfi_indirect (sv_i ?sv)) = b" "idbuf_of ?t (sv_i ?sv) = replicate 128 0"
              using fi by simp_all
            show ?thesis
              unfolding sfs_bmap_def get kbind.simps
              using out_wp_conseq [OF bmap_indirect_wp [OF st nz fb lt, of doalloc]] fb j(2,3) ib da lt Ok(1) hole
              unfolding b
              by (simp add: Let_def)
          qed
        qed
      qed
    qed
  qed
qed

section \<open>Truncation\<close>

text \<open>
  What truncation may do to a file: the file blocks in \<open>D\<close> become holes, exactly the blocks the
  file no longer refers to are freed, and only its indirect block is written.
\<close>

definition file_shrink :: "sfs_fs \<Rightarrow> sfs_inode \<Rightarrow> nat set \<Rightarrow> sfs_fs \<Rightarrow> sfs_inode \<Rightarrow> bool" where
  "file_shrink s i D s' i' \<longleftrightarrow> fs_ok s' \<and> fs_frame s s' \<and> file_ok s' i' \<and>
     bmap_of s' i' = (\<lambda>x. if x \<in> D then 0 else bmap_of s i x) \<and>
     fs_used s' = fs_used s - (file_refs s i - file_refs s' i') \<and> file_refs s' i' \<subseteq> file_refs s i \<and>
     (\<forall>b. b = 0 \<or> b \<noteq> unat (sfi_indirect i) \<longrightarrow> sect s' b = sect s b) \<and> same_meta i i' \<and>
     (sfi_indirect i' = sfi_indirect i \<or> sfi_indirect i' = 0)"

lemma file_okD:
  assumes "file_ok s i"
  shows "inode_wf i"
    and "x < 143 \<Longrightarrow> y < 143 \<Longrightarrow> bmap_of s i x = bmap_of s i y \<Longrightarrow> bmap_of s i x \<noteq> 0 \<Longrightarrow> x = y"
  using assms by (auto simp: file_ok_def)

lemma file_shrink_put [simp]: "file_shrink s i D (vn_put vp sv t) j = file_shrink s i D t j"
  by (simp add: file_shrink_def)

lemma file_shrink_refl: "fs_ok s \<Longrightarrow> file_ok s i \<Longrightarrow> file_shrink s i {} s i"
  by (auto simp: file_shrink_def)

lemma file_shrink_trans:
  assumes "file_shrink s i D t j" and "file_shrink t j E v k" and "sfi_indirect j = sfi_indirect i"
  shows "file_shrink s i (D \<union> E) v k"
proof -
  have "fs_used v = fs_used s - (file_refs s i - file_refs v k)"
    using assms by (auto simp: file_shrink_def)
  moreover have "bmap_of v k = (\<lambda>x. if x \<in> D \<union> E then 0 else bmap_of s i x)"
    using assms by (auto simp: file_shrink_def)
  moreover have "fs_frame s v" "same_meta i k" "file_refs v k \<subseteq> file_refs s i"
    using assms fs_frame_trans by (auto simp: file_shrink_def same_meta_def)
  ultimately show ?thesis using assms by (auto simp: file_shrink_def)
qed

lemma file_shrinkI:
  assumes ok: "file_ok s i" and t: "fs_ok t" "fs_frame s t" and i': "inode_wf i'" "same_meta i i'"
      "sfi_indirect i' = sfi_indirect i \<or> sfi_indirect i' = 0"
    and bm: "bmap_of t i' = (\<lambda>x. if x \<in> D then 0 else bmap_of s i x)"
    and used: "fs_used t = fs_used s - ((bmap_of s i ` (D \<inter> {..<143}) \<union>
       (if sfi_indirect i' = sfi_indirect i then {} else {unat (sfi_indirect i)})) - {0})"
    and sect: "\<And>b. b = 0 \<or> b \<noteq> unat (sfi_indirect i) \<Longrightarrow> sect t b = sect s b"
  shows "file_shrink s i D t i'"
proof -
  let ?g = "(bmap_of s i ` (D \<inter> {..<143}) \<union>
       (if sfi_indirect i' = sfi_indirect i then {} else {unat (sfi_indirect i)})) - {0}"
  have "b \<in> file_refs s i - file_refs t i' \<longleftrightarrow> b \<in> ?g" for b
  proof (cases "b \<noteq> 0 \<and> b \<in> file_refs s i")
    case False
    then show ?thesis by (auto simp: file_refs_def)
  next
    case True
    then consider "b = unat (sfi_indirect i)" | x where "x < 143" "b = bmap_of s i x"
      by (auto simp: file_refs_def)
    then show ?thesis
    proof cases
      case 1
      have "bmap_of s i x \<noteq> b" if "x < 143" for x using file_refs_used [OF ok that] 1 True by auto
      then have "b \<notin> bmap_of s i ` (D \<inter> {..<143})" "b \<notin> bmap_of t i' ` {..<143}" "b \<notin> bmap_of s i ` {..<143}"
        using True by (auto simp: bm)
      then show ?thesis using 1 True i'(3) by (auto simp: file_refs_def simp del: image_iff)
    next
      case 2
      have only: "y = x" if "y < 143" "bmap_of s i y = b" for y
        using file_okD(2) [OF ok, of x y] 2 True that by auto
      have "b \<in> bmap_of s i ` (D \<inter> {..<143}) \<longleftrightarrow> x \<in> D" using only 2 by blast
      moreover have "b \<in> bmap_of t i' ` {..<143} \<longleftrightarrow> x \<notin> D"
      proof
        assume "b \<in> bmap_of t i' ` {..<143}"
        then obtain y where "y < 143" "b = bmap_of t i' y" by auto
        then show "x \<notin> D" using only [of y] True by (auto simp: bm split: if_splits)
      next
        assume "x \<notin> D"
        then have "bmap_of t i' x = b" using 2 by (simp add: bm)
        then show "b \<in> bmap_of t i' ` {..<143}" using 2(1) by blast
      qed
      moreover have "b \<noteq> unat (sfi_indirect i)" using file_refs_used [OF ok 2(1)] 2 True by auto
      ultimately show ?thesis using True i'(3) by (auto simp: file_refs_def simp del: image_iff)
    qed
  qed
  then have gone: "file_refs s i - file_refs t i' = ?g" by blast
  have sub: "file_refs t i' \<subseteq> file_refs s i"
    using bm i'(3) by (auto simp: file_refs_def split: if_splits)
  have sup: "sfs_super t = sfs_super s" using t by (simp add: fs_frame_def)
  have "file_refs t i' \<subseteq> fs_used t \<inter> {..<fs_nblocks t}"
    using sub gone used ok sup by (auto simp: file_ok_def)
  moreover have "x = y" if "x < 143" "y < 143" "bmap_of t i' x = bmap_of t i' y" "bmap_of t i' x \<noteq> 0" for x y
    using that file_okD(2) [OF ok, of x y] by (auto simp: bm split: if_splits)
  moreover have "bmap_of t i' x \<noteq> unat (sfi_indirect i')" if "x < 143" "bmap_of t i' x \<noteq> 0" for x
    using that file_refs_used [OF ok, of x] i'(3) by (auto simp: bm split: if_splits)
  ultimately have "file_ok t i'" using i'(1) unfolding file_ok_def by blast
  then show ?thesis
    using t bm sub gone used sect i' by (auto simp: file_shrink_def)
qed

lemma file_shrink_direct:
  assumes ok: "file_ok s i" and x: "x < 15" and nz: "sfi_direct i ! x \<noteq> 0"
    and t: "fs_ok t" "fs_frame s t" "sfs_device t = sfs_device s"
      "fs_used t = fs_used s - {unat (sfi_direct i ! x)}"
    and i': "i' = i\<lparr>sfi_direct := (sfi_direct i)[x := 0]\<rparr>"
  shows "file_shrink s i {x} t i'"
proof -
  have len: "length (sfi_direct i) = 15" using ok by (simp add: file_ok_def inode_wf_def)
  have b: "bmap_of s i x = unat (sfi_direct i ! x)" "bmap_of s i x \<noteq> 0"
    using x nz by (auto simp: bmap_of_def unat_eq_0)
  have id: "idbuf_of t i' = idbuf_of s i" using t i' by (simp add: idbuf_of_def)
  have bm: "bmap_of t i' = (\<lambda>y. if y \<in> {x} then 0 else bmap_of s i y)"
    using x len i' by (intro ext) (auto simp: bmap_of_def id [unfolded i'] nth_list_update)
  show ?thesis
    by (rule file_shrinkI [OF ok t(1,2) _ _ _ bm])
      (use t b x i' len ok in \<open>auto simp: inode_wf_def file_ok_def same_meta_def\<close>)
qed

lemma truncate_direct_wp:
  assumes "fs_ok s" "sfs_heap s vp = Some sv" "file_ok s (sv_i sv)" and "i + n \<le> 15"
  shows "out_wp (truncate_direct i n vp bl s)
    (\<lambda>_ s'. \<exists>sv'. sfs_heap s' = (sfs_heap s)(vp \<mapsto> sv') \<and> sfs_device s' = sfs_device s \<and>
       file_shrink s (sv_i sv) {x. i \<le> x \<and> x < i + n \<and> bl \<le> x} s' (sv_i sv') \<and>
       sfi_indirect (sv_i sv') = sfi_indirect (sv_i sv) \<and> vn_same sv sv')
    (\<lambda>_ _. False)"
  using assms
proof (induction n arbitrary: i s sv)
  case 0
  have e: "{x. i \<le> x \<and> x < i + 0 \<and> bl \<le> x} = {}" by auto
  show ?case using 0 file_shrink_refl [of s "sv_i sv"]
    unfolding e by (simp del: fun_upd_apply) (intro exI [of _ sv], simp add: fun_upd_idem)
next
  case (Suc n)
  let ?b = "unat (sfi_direct (sv_i sv) ! i)"
  have step: "\<exists>t tv. (if i \<ge> bl \<and> ?b \<noteq> 0
        then kbind (sfs_bfree ?b s) (\<lambda>_ s. Ok () (vn_put vp
                   (sv\<lparr>sv_i := (sv_i sv)\<lparr>sfi_direct := (sfi_direct (sv_i sv))[i := 0]\<rparr>,
                       sv_dirty := True\<rparr>) s))
          else Ok () s) = Ok () t \<and> sfs_heap t = (sfs_heap s)(vp \<mapsto> tv) \<and> sfs_device t = sfs_device s \<and>
     file_shrink s (sv_i sv) {x. x = i \<and> bl \<le> i} t (sv_i tv) \<and>
     sfi_indirect (sv_i tv) = sfi_indirect (sv_i sv) \<and> vn_same sv tv"
  proof (cases "i \<ge> bl \<and> ?b \<noteq> 0")
    case False
    have "{x. x = i \<and> bl \<le> i} = {} \<or> bmap_of s (sv_i sv) i = 0"
      using False Suc.prems by (auto simp: bmap_of_def)
    then have "file_shrink s (sv_i sv) {x. x = i \<and> bl \<le> i} s (sv_i sv)"
      using file_shrink_refl [OF Suc.prems(1,3)] by (auto simp: file_shrink_def)
    then show ?thesis using False Suc.prems(2) by (auto simp: fun_upd_idem intro!: exI [of _ sv])
  next
    case True
    let ?i = "(sv_i sv)\<lparr>sfi_direct := (sfi_direct (sv_i sv))[i := 0]\<rparr>"
    have b: "?b \<in> fs_used s" "?b < fs_nblocks s" "sfi_direct (sv_i sv) ! i \<noteq> 0"
      using file_refs_used [OF Suc.prems(3), of i] True Suc.prems(4) by (auto simp: bmap_of_def)
    obtain t where t: "sfs_bfree ?b s = Ok () t" "fs_used t = fs_used s - {?b}" "fs_ok t" "fs_frame s t"
      "sfs_device t = sfs_device s" "sfs_heap t = sfs_heap s"
      using out_wp_total [OF sfs_bfree_wp [OF Suc.prems(1) b(1,2)]] True by auto
    have "file_shrink s (sv_i sv) {i} t ?i"
      by (rule file_shrink_direct) (use Suc.prems b t in auto)
    then show ?thesis using True t
      by (intro exI [of _ "vn_put vp (sv\<lparr>sv_i := ?i, sv_dirty := True\<rparr>) t"]
            exI [of _ "sv\<lparr>sv_i := ?i, sv_dirty := True\<rparr>"]) (simp add: conj_commute)
  qed
  then obtain t tv where t: "sfs_heap t = (sfs_heap s)(vp \<mapsto> tv)" "sfs_device t = sfs_device s"
     "file_shrink s (sv_i sv) {x. x = i \<and> bl \<le> i} t (sv_i tv)"
     "sfi_indirect (sv_i tv) = sfi_indirect (sv_i sv)" "vn_same sv tv"
     "truncate_direct i (Suc n) vp bl s = truncate_direct (Suc i) n vp bl t"
    using Suc.prems by (auto simp: vn_get_def Let_def)
  have "out_wp (truncate_direct (Suc i) n vp bl t)
    (\<lambda>_ s'. \<exists>sv'. sfs_heap s' = (sfs_heap t)(vp \<mapsto> sv') \<and> sfs_device s' = sfs_device t \<and>
       file_shrink t (sv_i tv) {x. Suc i \<le> x \<and> x < Suc i + n \<and> bl \<le> x} s' (sv_i sv') \<and>
       sfi_indirect (sv_i sv') = sfi_indirect (sv_i tv) \<and> vn_same tv sv')
    (\<lambda>_ _. False)"
    by (rule Suc.IH) (use Suc.prems t in \<open>auto simp: file_shrink_def\<close>)
  then show ?case
    unfolding t(6)
  proof (rule out_wp_conseq, goal_cases)
    case (1 a s')
    obtain sv' where v: "sfs_heap s' = (sfs_heap t)(vp \<mapsto> sv')" "sfs_device s' = sfs_device t"
      "file_shrink t (sv_i tv) {x. Suc i \<le> x \<and> x < Suc i + n \<and> bl \<le> x} s' (sv_i sv')"
      "sfi_indirect (sv_i sv') = sfi_indirect (sv_i tv)" "vn_same tv sv'" using 1 by blast
    have e: "{x. x = i \<and> bl \<le> i} \<union> {x. Suc i \<le> x \<and> x < Suc i + n \<and> bl \<le> x} =
      {x. i \<le> x \<and> x < i + Suc n \<and> bl \<le> x}" by auto
    show ?case
      using v t(1,2,4) file_shrink_trans [OF t(3) v(3) t(4), unfolded e] vn_same_trans [OF t(5) v(5)]
      by (intro exI [of _ sv']) simp
  qed auto
qed

text \<open>The loop over the entries of the indirect block.\<close>

definition id_dropped :: "nat \<Rightarrow> u32 list \<Rightarrow> nat set" where
  "id_dropped bl buf = {j. j < length buf \<and> bl < 15 + j \<and> buf ! j \<noteq> 0}"

definition id_cut :: "nat \<Rightarrow> nat \<Rightarrow> u32 list \<Rightarrow> u32 list" where
  "id_cut bl n buf = map (\<lambda>j. if j < n \<and> bl < 15 + j then 0 else buf ! j) [0..<length buf]"

lemma id_cut_Suc:
  "j < length buf \<Longrightarrow> id_cut bl (Suc j) buf =
     (if bl < 15 + j then (id_cut bl j buf)[j := 0] else id_cut bl j buf)"
  by (auto simp: id_cut_def nth_list_update less_Suc_eq intro!: nth_equalityI)

lemma id_cut_nth [simp]: "j < length buf \<Longrightarrow> id_cut bl n buf ! j = (if j < n \<and> bl < 15 + j then 0 else buf ! j)"
  by (simp add: id_cut_def)

lemma length_id_cut [simp]: "length (id_cut bl n buf) = length buf"
  by (simp add: id_cut_def)

lemma id_cut_0 [simp]: "id_cut bl 0 buf = buf"
  by (simp add: id_cut_def map_nth)

lemma truncate_indirect_wp:
  assumes "fs_ok s" and "j + n = length buf"
    and "\<And>k. k \<in> id_dropped bl buf \<Longrightarrow> k \<ge> j \<Longrightarrow> unat (buf ! k) \<in> fs_used s \<and> unat (buf ! k) < fs_nblocks s"
    and "\<And>k l. k < length buf \<Longrightarrow> l < length buf \<Longrightarrow> buf ! k = buf ! l \<Longrightarrow> buf ! k \<noteq> 0 \<Longrightarrow> k = l"
  shows "out_wp (truncate_indirect j n bl (id_cut bl j buf) h d s)
    (\<lambda>(buf', h', d') s'. buf' = id_cut bl (length buf) buf \<and>
       (h' \<longleftrightarrow> h \<or> (\<exists>k\<ge>j. k < length buf \<and> buf' ! k \<noteq> 0)) \<and>
       (d' \<longleftrightarrow> d \<or> (\<exists>k\<ge>j. k \<in> id_dropped bl buf)) \<and>
       fs_used s' = fs_used s - (\<lambda>k. unat (buf ! k)) ` {k \<in> id_dropped bl buf. j \<le> k} \<and>
       fs_ok s' \<and> fs_frame s s' \<and> sfs_device s' = sfs_device s \<and> sfs_heap s' = sfs_heap s)
    (\<lambda>_ _. False)"
  using assms
proof (induction n arbitrary: j h d s)
  case 0
  have "{k \<in> id_dropped bl buf. j \<le> k} = {}" using 0 by (auto simp: id_dropped_def)
  then show ?case using 0 by (auto simp: id_dropped_def)
next
  case (Suc n)
  have j: "j < length buf" using Suc.prems(2) by simp
  let ?c = "id_cut bl j buf"
  have ge: "{k \<in> id_dropped bl buf. j \<le> k} =
    {k \<in> id_dropped bl buf. Suc j \<le> k} \<union> (if j \<in> id_dropped bl buf then {j} else {})"
    by (auto simp: Suc_le_eq dest: le_neq_implies_less)
  have exs: "(\<exists>k\<ge>j. P k) \<longleftrightarrow> P j \<or> (\<exists>k\<ge>Suc j. P k)" for P
  proof -
    have "j \<le> k \<longleftrightarrow> k = j \<or> Suc j \<le> k" for k by auto
    then show ?thesis by simp blast
  qed
  have "\<exists>t. truncate_indirect j (Suc n) bl ?c h d s =
      truncate_indirect (Suc j) n bl (id_cut bl (Suc j) buf) (h \<or> id_cut bl (Suc j) buf ! j \<noteq> 0)
        (d \<or> j \<in> id_dropped bl buf) t \<and>
    fs_used t = fs_used s - (if j \<in> id_dropped bl buf then {unat (buf ! j)} else {}) \<and>
    fs_ok t \<and> fs_frame s t \<and> sfs_device t = sfs_device s \<and> sfs_heap t = sfs_heap s"
  proof (cases "j \<in> id_dropped bl buf")
    case False
    then have "id_cut bl (Suc j) buf = ?c" using j by (auto simp: id_cut_Suc id_dropped_def list_update_same_conv)
    then show ?thesis using False j Suc.prems(1) by (auto simp: id_dropped_def)
  next
    case True
    then have u: "unat (buf ! j) \<in> fs_used s" "unat (buf ! j) < fs_nblocks s" "buf ! j \<noteq> 0"
      using Suc.prems(3) by (auto simp: id_dropped_def)
    obtain t where "sfs_bfree (unat (buf ! j)) s = Ok () t" "fs_used t = fs_used s - {unat (buf ! j)}"
      "fs_ok t" "fs_frame s t" "sfs_device t = sfs_device s" "sfs_heap t = sfs_heap s"
      using out_wp_total [OF sfs_bfree_wp [OF Suc.prems(1) u(1,2)]] u(3) by (auto simp: unat_eq_0)
    then show ?thesis using True j u(3) by (auto simp: id_cut_Suc id_dropped_def)
  qed
  then obtain t where t: "truncate_indirect j (Suc n) bl ?c h d s =
      truncate_indirect (Suc j) n bl (id_cut bl (Suc j) buf) (h \<or> id_cut bl (Suc j) buf ! j \<noteq> 0)
        (d \<or> j \<in> id_dropped bl buf) t"
    "fs_used t = fs_used s - (if j \<in> id_dropped bl buf then {unat (buf ! j)} else {})"
    "fs_ok t" "fs_frame s t" "sfs_device t = sfs_device s" "sfs_heap t = sfs_heap s" by auto
  have other: "unat (buf ! k) \<noteq> unat (buf ! j)" if "k \<in> id_dropped bl buf" "Suc j \<le> k" for k
    using that Suc.prems(4) [of k j] j by (auto simp: id_dropped_def dest: unsigned_word_eqI)
  have sup: "sfs_super t = sfs_super s" using t(4) by (simp add: fs_frame_def)
  have last: "id_cut bl (length buf) buf ! j = id_cut bl (Suc j) buf ! j" using j by simp
  show ?case
    unfolding t(1)
  proof (rule out_wp_conseq [OF Suc.IH], goal_cases)
    case (5 a s')
    obtain buf' h' d' where a: "a = (buf', h', d')" by (cases a)
    note f = 5 [unfolded a prod.case]
    have "h' \<longleftrightarrow> h \<or> (\<exists>k\<ge>j. k < length buf \<and> buf' ! k \<noteq> 0)"
      using f j last unfolding exs [of "\<lambda>k. k < length buf \<and> buf' ! k \<noteq> 0"] by simp
    moreover have "d' \<longleftrightarrow> d \<or> (\<exists>k\<ge>j. k \<in> id_dropped bl buf)"
      using f unfolding exs [of "\<lambda>k. k \<in> id_dropped bl buf"] by auto
    moreover have "fs_used s' = fs_used s - (\<lambda>k. unat (buf ! k)) ` {k \<in> id_dropped bl buf. j \<le> k}"
      using f t(2) unfolding ge by auto
    moreover have "fs_frame s s'" using f fs_frame_trans [OF t(4)] by blast
    ultimately show ?case using f t(5,6) by (simp add: a)
  qed (use Suc.prems t other sup in auto)
qed

text \<open>The three ways the indirect block can end: written back, unchanged, freed.\<close>

lemma id_dropped_image:
  "(\<lambda>k. unat (idbuf_of s i ! k)) ` id_dropped bl (idbuf_of s i) =
     bmap_of s i ` ({x. 15 \<le> x \<and> bl < x} \<inter> {..<143}) - {0}" (is "?l = ?r")
proof
  have l: "length (idbuf_of s i) = 128" by (simp add: idbuf_of_def)
  show "?l \<subseteq> ?r"
  proof
    fix b
    assume "b \<in> ?l"
    then obtain k where k: "k < 128" "bl < 15 + k" "idbuf_of s i ! k \<noteq> 0" "b = unat (idbuf_of s i ! k)"
      using l by (auto simp: id_dropped_def)
    then have "bmap_of s i (k + 15) = b" "b \<noteq> 0" by (auto simp: bmap_of_indirect unat_eq_0)
    then show "b \<in> ?r" using k by (auto simp: image_iff intro!: bexI [of _ "k + 15"])
  qed
  show "?r \<subseteq> ?l"
  proof
    fix b
    assume "b \<in> ?r"
    then obtain x where x: "15 \<le> x" "bl < x" "x < 143" "b = bmap_of s i x" "b \<noteq> 0" by auto
    then have "x - 15 \<in> id_dropped bl (idbuf_of s i)" "b = unat (idbuf_of s i ! (x - 15))"
      using l by (auto simp: id_dropped_def bmap_of_def)
    then show "b \<in> ?l" by blast
  qed
qed

lemma file_shrink_tail:
  assumes ok: "file_ok s i" and ib: "sfi_indirect i \<noteq> 0"
    and t: "fs_ok t" "fs_frame s t" "\<And>b. b \<noteq> unat (sfi_indirect i) \<Longrightarrow> sect t b = sect s b"
    and i': "i' = i \<or> i' = i\<lparr>sfi_indirect := 0\<rparr>"
    and id: "idbuf_of t i' = id_cut bl 128 (idbuf_of s i)"
    and used: "fs_used t = fs_used s - (\<lambda>k. unat (idbuf_of s i ! k)) ` id_dropped bl (idbuf_of s i) -
      (if i' = i then {} else {unat (sfi_indirect i)})"
  shows "file_shrink s i {x. 15 \<le> x \<and> bl < x} t i'"
proof -
  have l: "length (idbuf_of s i) = 128" by (simp add: idbuf_of_def)
  have ne: "i' = i \<longleftrightarrow> sfi_indirect i' = sfi_indirect i" using i' ib by auto
  have nz: "unat (sfi_indirect i) \<noteq> 0" using ib by (simp add: unat_eq_0)
  have d: "sfi_direct i' = sfi_direct i" using i' by auto
  have bm: "bmap_of t i' = (\<lambda>x. if x \<in> {x. 15 \<le> x \<and> bl < x} then 0 else bmap_of s i x)"
    using l by (intro ext) (auto simp: bmap_of_def id d)
  show ?thesis
    by (rule file_shrinkI [OF ok t(1,2) _ _ _ bm])
      (use t i' nz ok used ne id_dropped_image [of s i bl] in
        \<open>auto simp: inode_wf_def file_ok_def same_meta_def\<close>)
qed

lemma view_depth [simp]:
  "idbuf_of (s\<lparr>biglock_depth := d\<rparr>) = idbuf_of s" "bmap_of (s\<lparr>biglock_depth := d\<rparr>) = bmap_of s"
  "file_refs (s\<lparr>biglock_depth := d\<rparr>) = file_refs s" "file_ok (s\<lparr>biglock_depth := d\<rparr>) = file_ok s"
  "file_byte (s\<lparr>biglock_depth := d\<rparr>) = file_byte s"
proof -
  let ?s = "s\<lparr>biglock_depth := d\<rparr>"
  show i: "idbuf_of ?s = idbuf_of s" by (rule ext) (simp add: idbuf_of_def)
  show b: "bmap_of ?s = bmap_of s" by (intro ext) (simp add: bmap_of_def i)
  show r: "file_refs ?s = file_refs s" by (rule ext) (simp add: file_refs_def b)
  show "file_ok ?s = file_ok s" by (rule ext) (simp add: file_ok_def b r)
  show "file_byte ?s = file_byte s" by (intro ext) (simp add: file_byte_def b Let_def)
qed

lemma fs_ok_depth: "fs_ok s \<Longrightarrow> d > 0 \<Longrightarrow> fs_ok (s\<lparr>biglock_depth := d\<rparr>)"
  by (auto simp: fs_ok_def dev_ok_def)

text \<open>Storing the new size; only the mapping of blocks matters to the file's contents.\<close>

lemma view_size [simp]:
  "bmap_of s (i\<lparr>sfi_size := z\<rparr>) = bmap_of s i" "file_refs s (i\<lparr>sfi_size := z\<rparr>) = file_refs s i"
  "file_ok s (i\<lparr>sfi_size := z\<rparr>) = file_ok s i"
proof -
  show b: "bmap_of s (i\<lparr>sfi_size := z\<rparr>) = bmap_of s i" by (rule bmap_of_cong) simp_all
  show r: "file_refs s (i\<lparr>sfi_size := z\<rparr>) = file_refs s i" by (simp add: file_refs_def b)
  show "file_ok s (i\<lparr>sfi_size := z\<rparr>) = file_ok s i" by (simp add: file_ok_def b r inode_wf_def)
qed

definition trunc_blocks :: "int \<Rightarrow> nat" where
  "trunc_blocks len = to_u32 ((len + 511) sdiv 512)"

lemma trunc_blocks_eq: "to_u32 ((511 + len) sdiv 512) = trunc_blocks len"
  by (simp add: trunc_blocks_def add.commute)

text \<open>The file blocks \<open>sfs_truncate\<close> discards: from \<open>blocklen\<close> on among the direct blocks, but only
  after \<open>blocklen\<close> among those behind the indirect block.\<close>

definition trunc_drops :: "nat \<Rightarrow> nat set" where
  "trunc_drops bl = {x. x < 15 \<and> bl \<le> x} \<union> {x. 15 \<le> x \<and> bl < x}"

definition truncated :: "sfs_fs \<Rightarrow> vptr \<Rightarrow> sfs_vnode \<Rightarrow> int \<Rightarrow> sfs_fs \<Rightarrow> sfs_vnode \<Rightarrow> bool" where
  "truncated s vp sv len s' sv' \<longleftrightarrow> sfs_heap s' = (sfs_heap s)(vp \<mapsto> sv') \<and> vn_same sv sv' \<and>
     file_shrink s (sv_i sv) (trunc_drops (trunc_blocks len)) s' ((sv_i sv')\<lparr>sfi_size := sfi_size (sv_i sv)\<rparr>) \<and>
     sfi_size (sv_i sv') = word_of_int len \<and> sv_dirty sv' \<and>
     (trunc_blocks len < 15 \<longrightarrow> sfi_indirect (sv_i sv') = 0)"

lemma file_shrink_depth:
  "file_shrink (s\<lparr>biglock_depth := Suc (biglock_depth s)\<rparr>) i D t j \<Longrightarrow> biglock_depth s > 0 \<Longrightarrow>
   file_shrink s i D (t\<lparr>biglock_depth := biglock_depth t - 1\<rparr>) j"
  by (auto simp: file_shrink_def fs_frame_def intro!: fs_ok_depth)

lemma file_shrink_dev:
  assumes "dev_step s t" "fs_ok s" "file_ok s i"
  shows "file_shrink s i {} t i"
proof -
  note d = dev_step_sel [OF assms(1)]
  have b: "bmap_of t i = bmap_of s i" by (rule bmap_of_cong) (simp_all add: d)
  then have r: "file_refs t i = file_refs s i" by (simp add: file_refs_def)
  have "file_ok t i" using assms(3) by (simp add: file_ok_def b r d)
  then show ?thesis using d b r assms by (simp add: file_shrink_def)
qed

lemma truncate_idblock_wp:
  assumes s: "fs_ok s" "sfs_heap s vp = Some sv" "file_ok s (sv_i sv)"
  shows "out_wp (truncate_idblock vp bl s)
    (\<lambda>_ s'. \<exists>sv'. sfs_heap s' = (sfs_heap s)(vp \<mapsto> sv') \<and>
       file_shrink s (sv_i sv) {x. 15 \<le> x \<and> bl < x} s' (sv_i sv') \<and> vn_same sv sv' \<and>
       (bl < 15 \<longrightarrow> sfi_indirect (sv_i sv') = 0))
    (\<lambda>_ _. False)"
proof -
  let ?i = "sv_i sv" and ?D = "{x. 15 \<le> x \<and> bl < x}"
  let ?ib = "unat (sfi_indirect ?i)" and ?buf = "idbuf_of s ?i"
  have get: "vn_get vp s = Ok sv s" using s by (simp add: vn_get_def)
  show ?thesis
  proof (cases "bl < 142 \<and> ?ib \<noteq> 0")
    case False
    have hole: "bmap_of s ?i x = 0" if "x \<in> ?D" for x
      using that False by (auto simp: bmap_of_def idbuf_of_def unat_eq_0)
    have "file_shrink s ?i ?D s ?i"
      by (rule file_shrinkI) (use s hole in \<open>auto simp: file_ok_def\<close>)
    moreover have "bl < 15 \<longrightarrow> sfi_indirect ?i = 0" using False by (auto simp: unat_eq_0)
    ultimately show ?thesis using False get s(2)
      by (auto simp: truncate_idblock_def fun_upd_idem intro!: exI [of _ sv])
  next
    case True
    have nz: "sfi_indirect ?i \<noteq> 0" using True by (simp add: unat_eq_0)
    have ib: "?ib \<in> fs_used s" "?ib < fs_nblocks s" using file_indirect_used [OF s(3) nz] by auto
    have len: "length ?buf = 128" by (simp add: idbuf_of_def)
    obtain t where t: "sfs_rblock ?ib s = Ok (sect s ?ib) t" "dev_step s t"
      using out_wp_total [OF sfs_rblock_wp [of s ?ib]] s(1) ib by (fastforce simp: fs_ok_def)
    note d = dev_step_sel [OF t(2)]
    have buf: "unbe32s 128 (sect s ?ib) = ?buf" using nz by (simp add: idbuf_of_def)
    have ent: "unat (?buf ! k) = bmap_of s ?i (k + 15)" if "k < 128" for k
      using that by (simp add: bmap_of_indirect)
    have "out_wp (truncate_indirect 0 128 bl (id_cut bl 0 ?buf) False False t)
    (\<lambda>(buf', h', d') s'. buf' = id_cut bl (length ?buf) ?buf \<and>
       (h' \<longleftrightarrow> False \<or> (\<exists>k\<ge>0. k < length ?buf \<and> buf' ! k \<noteq> 0)) \<and>
       (d' \<longleftrightarrow> False \<or> (\<exists>k\<ge>0. k \<in> id_dropped bl ?buf)) \<and>
       fs_used s' = fs_used t - (\<lambda>k. unat (?buf ! k)) ` {k \<in> id_dropped bl ?buf. 0 \<le> k} \<and>
       fs_ok s' \<and> fs_frame t s' \<and> sfs_device s' = sfs_device t \<and> sfs_heap s' = sfs_heap t)
    (\<lambda>_ _. False)"
    proof (rule truncate_indirect_wp, goal_cases)
      case 1 show ?case using s(1) d by blast
    next
      case 2 show ?case by (simp add: len)
    next
      case (3 k)
      then have "k < 128" "?buf ! k \<noteq> 0" by (auto simp: id_dropped_def len)
      then have "k + 15 < 143" "bmap_of s ?i (k + 15) \<noteq> 0"
        using ent [of k, symmetric] by (simp_all add: unat_eq_0)
      from file_refs_used [OF s(3) this] show ?case using ent [OF \<open>k < 128\<close>] d by simp
    next
      case (4 k l)
      then have "bmap_of s ?i (k + 15) = bmap_of s ?i (l + 15)" "bmap_of s ?i (k + 15) \<noteq> 0"
        using ent [of k, symmetric] ent [of l, symmetric] len by (simp_all add: unat_eq_0)
      from file_okD(2) [OF s(3) _ _ this] have "k + 15 = l + 15" using 4 len by simp
      then show ?case by simp
    qed
    from out_wp_total [OF this] obtain b' h d' u where
      r: "truncate_indirect 0 128 bl ?buf False False t = Ok (b', h, d') u" and
      q: "b' = id_cut bl 128 ?buf" "h \<longleftrightarrow> (\<exists>k<128. b' ! k \<noteq> 0)" "d' \<longleftrightarrow> (\<exists>k. k \<in> id_dropped bl ?buf)"
        "fs_used u = fs_used t - (\<lambda>k. unat (?buf ! k)) ` id_dropped bl ?buf"
        "fs_ok u" "fs_frame t u" "sfs_device u = sfs_device t" "sfs_heap u = sfs_heap t"
      unfolding id_cut_0 len by auto
    have u: "truncate_indirect 0 128 bl ?buf False False t = Ok (id_cut bl 128 ?buf, h, d') u"
      "h \<longleftrightarrow> (\<exists>k<128. id_cut bl 128 ?buf ! k \<noteq> 0)" "d' \<longleftrightarrow> id_dropped bl ?buf \<noteq> {}"
      "fs_used u = fs_used s - (\<lambda>k. unat (?buf ! k)) ` id_dropped bl ?buf"
      "fs_ok u" "fs_frame s u" "sect u = sect s" "sfs_heap u = sfs_heap s"
      using r q(1,2,4-8) d fs_frame_trans [OF d(6) q(6)] by simp_all (use q(3) in blast)
    have nd: "?ib \<notin> (\<lambda>k. unat (?buf ! k)) ` id_dropped bl ?buf"
      using file_refs_used [OF s(3)] unfolding id_dropped_image by fastforce
    have run: "truncate_idblock vp bl s =
      (if \<not> h then kbind (sfs_bfree ?ib u) (\<lambda>_ s.
                          Ok () (vn_put vp
                            (sv\<lparr>sv_i := (sv_i sv)\<lparr>sfi_indirect := 0\<rparr>, sv_dirty := True\<rparr>) s))
       else if d' then sfs_wblock (be32s (id_cut bl 128 ?buf)) ?ib u else Ok () u)"
      using True get t(1) u(1) by (simp add: truncate_idblock_def buf)
    show ?thesis
    proof (cases "\<not> h")
      case z: True
      have zero: "id_cut bl 128 ?buf = replicate 128 0"
        using z u(2) len by (intro nth_equalityI) auto
      let ?i' = "?i\<lparr>sfi_indirect := 0\<rparr>"
      obtain v where v: "sfs_bfree ?ib u = Ok () v" "fs_used v = fs_used u - {?ib}" "fs_ok v" "fs_frame u v"
        "sfs_device v = sfs_device u" "sfs_heap v = sfs_heap u"
        using out_wp_total [OF sfs_bfree_wp [OF u(5), of ?ib]] ib nd u(4,6) True
        by (auto simp: fs_frame_def)
      have "file_shrink s ?i ?D v ?i'"
      proof (rule file_shrink_tail [OF s(3) nz v(3) fs_frame_trans [OF u(6) v(4)]])
        have "?i' \<noteq> ?i" using nz by (metis sfs_inode.select_convs(5) sfs_inode.surjective sfs_inode.update_convs(5))
        then show "fs_used v = fs_used s - (\<lambda>k. unat (?buf ! k)) ` id_dropped bl ?buf -
          (if ?i' = ?i then {} else {?ib})" using v(2) u(4) by simp
        show "idbuf_of v ?i' = id_cut bl 128 ?buf" by (simp add: zero) (simp add: idbuf_of_def)
      qed (simp_all add: u(7) v(5))
      then show ?thesis using z unfolding run
        by (simp add: v(1,6) u(8) del: fun_upd_apply)
          (intro exI [of _ "sv\<lparr>sv_i := ?i', sv_dirty := True\<rparr>"], simp)
    next
      case h: False
      then obtain k where "k < 128" "id_cut bl 128 ?buf ! k \<noteq> 0" using u(2) by blast
      then have nb: "\<not> bl < 15" using len by (auto split: if_splits)
      show ?thesis
      proof (cases d')
        case False
        then have e: "id_dropped bl ?buf = {}" using u(3) by blast
        then have "?buf ! k = 0" if "k < 128" "bl < 15 + k" for k
          using that len unfolding id_dropped_def by auto
        then have c: "id_cut bl 128 ?buf = ?buf"
          using len by (intro nth_equalityI) auto
        have iu: "idbuf_of u ?i = ?buf" by (simp add: idbuf_of_def u(7))
        have "file_shrink s ?i ?D u ?i"
          by (rule file_shrink_tail [OF s(3) nz u(5,6)]) (use u(4,7) e c iu in auto)
        then show ?thesis using h False u(8) s(2) nb unfolding run
          by (auto simp: fun_upd_idem intro!: exI [of _ sv])
      next
        case dt: True
        have "?ib < d_blocks (sfs_device u)" using ib u(5,6) by (auto simp: fs_ok_def fs_frame_def)
        then obtain v where v: "sfs_wblock (be32s (id_cut bl 128 ?buf)) ?ib u = Ok () v"
          "dev_write ?ib (be32s (id_cut bl 128 ?buf)) u v"
          using out_wp_total [OF sfs_wblock_wp [of u ?ib "be32s (id_cut bl 128 ?buf)"]] u(5) len
          by (fastforce simp: fs_ok_def)
        note w = dev_write_sel [OF v(2)]
        have iv: "idbuf_of v ?i = id_cut bl 128 ?buf" using nz len w(7) by (simp add: idbuf_of_def [of v])
        have "file_shrink s ?i ?D v ?i"
          by (rule file_shrink_tail [OF s(3) nz])
            (use u w iv len fs_frame_trans [OF u(6) w(6)] in auto)
        then show ?thesis using h dt v w u(8) s(2) nb unfolding run
          by (auto simp: fun_upd_idem intro!: exI [of _ sv])
      qed
    qed
  qed
qed

lemma sfs_truncate_any:
  assumes s: "fs_ok (vfs_biglock_acquire s)" "sfs_heap s vp = Some sv" "file_ok s (sv_i sv)"
  shows "\<exists>s' sv'. sfs_truncate vp len s = Ok () s' \<and> biglock_depth s' = biglock_depth s \<and>
    truncated (vfs_biglock_acquire s) vp sv len (vfs_biglock_acquire s') sv'"
proof -
  let ?s = "s\<lparr>biglock_depth := Suc (biglock_depth s)\<rparr>" and ?bl = "trunc_blocks len"
  have "fs_ok ?s" using s(1) by (simp add: vfs_biglock_acquire_def)
  then obtain t tv where t: "truncate_direct 0 15 vp ?bl ?s = Ok () t"
    "sfs_heap t = (sfs_heap s)(vp \<mapsto> tv)" "vn_same sv tv"
    "file_shrink ?s (sv_i sv) {x. x < 15 \<and> ?bl \<le> x} t (sv_i tv)"
    "sfi_indirect (sv_i tv) = sfi_indirect (sv_i sv)"
    using out_wp_total [OF truncate_direct_wp [of ?s vp sv 0 15 ?bl]] s by auto
  then have "fs_ok t" "file_ok t (sv_i tv)" by (auto simp: file_shrink_def)
  then obtain u uv where u: "truncate_idblock vp ?bl t = Ok () u"
    "sfs_heap u = (sfs_heap s)(vp \<mapsto> uv)" "vn_same tv uv"
    "file_shrink t (sv_i tv) {x. 15 \<le> x \<and> ?bl < x} u (sv_i uv)" "?bl < 15 \<longrightarrow> sfi_indirect (sv_i uv) = 0"
    using out_wp_total [OF truncate_idblock_wp [of t vp tv ?bl]] t(2) by auto
  let ?uv = "uv\<lparr>sv_i := (sv_i uv)\<lparr>sfi_size := word_of_int len\<rparr>, sv_dirty := True\<rparr>"
  let ?u = "vn_put vp ?uv (u\<lparr>biglock_depth := biglock_depth s\<rparr>)"
  have sh: "file_shrink ?s (sv_i sv) (trunc_drops ?bl) u (sv_i uv)"
    unfolding trunc_drops_def by (rule file_shrink_trans [OF t(4) u(4) t(5)])
  then have d: "biglock_depth u = Suc (biglock_depth s)" and "sv_i uv = (sv_i uv)\<lparr>sfi_size := sfi_size (sv_i sv)\<rparr>"
    by (simp_all add: file_shrink_def fs_frame_def same_meta_def)
  then have "file_shrink ?s (sv_i sv) (trunc_drops ?bl) (vn_put vp ?uv u) ((sv_i ?uv)\<lparr>sfi_size := sfi_size (sv_i sv)\<rparr>)"
    using sh by simp
  moreover have "vfs_biglock_acquire ?u = vn_put vp ?uv u" "biglock_depth ?u = biglock_depth s"
    using d by (simp_all add: vfs_biglock_acquire_def vn_put_def)
  moreover have "sfs_truncate vp len s = Ok () ?u"
    using t(1) u(1,2) d
    by (simp add: sfs_truncate_def Let_def vfs_biglock_acquire_def vfs_biglock_release_def vn_get_def
        trunc_blocks_eq vn_put_def)
  ultimately show ?thesis
    using u(2,5) vn_same_trans [OF vn_same_trans [OF t(3) u(3)] vn_same_dirty]
    by (intro exI [of _ ?u] exI [of _ ?uv]) (simp add: truncated_def vfs_biglock_acquire_def)
qed

lemma truncated_locked:
  "truncated (vfs_biglock_acquire s) vp sv len (vfs_biglock_acquire t) tv \<Longrightarrow> biglock_depth s > 0 \<Longrightarrow>
   truncated s vp sv len t tv"
  by (auto simp: truncated_def vfs_biglock_acquire_def dest!: file_shrink_depth)

lemma sfs_truncate_wp:
  assumes s: "fs_ok s" "sfs_heap s vp = Some sv" "file_ok s (sv_i sv)"
  shows "out_wp (sfs_truncate vp len s) (\<lambda>_ s'. \<exists>sv'. truncated s vp sv len s' sv') (\<lambda>_ _. False)"
proof -
  have bd: "biglock_depth s > 0" using s(1) by (simp add: fs_ok_def dev_ok_def)
  then have "fs_ok (vfs_biglock_acquire s)" using fs_ok_depth [OF s(1)] by (simp add: vfs_biglock_acquire_def)
  then obtain s' sv' where t: "sfs_truncate vp len s = Ok () s'"
    "truncated (vfs_biglock_acquire s) vp sv len (vfs_biglock_acquire s') sv'"
    using sfs_truncate_any [OF _ s(2,3)] by blast
  then show ?thesis using truncated_locked [OF t(2) bd] by auto
qed

end
