(* ===== verification/SfsFile.thy ===== *)
theory SfsFile
  imports SfsBmap
begin

text \<open>
  File-level I/O of \<open>kern/fs/sfs/sfs_vnode.c\<close>: \<open>sfs_partialio\<close>, \<open>sfs_blockio\<close> and \<open>sfs_io\<close>. A read
  delivers the bytes of the abstract file up to its end; a write replaces exactly the bytes it is
  given, extends the size when it goes past the end, and leaves every other file alone.
\<close>

section \<open>Operations\<close>

text \<open>An operation on the filesystem alone, run while a uio is in progress.\<close>

fun with_uio :: "('a, sfs_fs) out \<Rightarrow> uio \<Rightarrow> ('a, sfs_fs \<times> uio) out" where
  "with_uio (Ok a s) u = Ok a (s, u)"
| "with_uio (Err e s) u = Err e (s, u)"
| "with_uio Panic u = Panic"

text \<open>
  \<open>sfs_partialio\<close>: the static buffer is filled before it is used on every path, so it is a local
  value here.
\<close>

definition sfs_partialio ::
  "vptr \<Rightarrow> nat \<Rightarrow> nat \<Rightarrow> sfs_fs \<times> uio \<Rightarrow> (unit, sfs_fs \<times> uio) out" where
  "sfs_partialio vp skipstart len = (\<lambda>(s, u).
     let doalloc = (uio_rw u = UIO_WRITE) in
     kassert (wadd32 skipstart len \<le> SFS_BLOCKSIZE)
       (let fileblock = to_u32 (uio_offset u sdiv int SFS_BLOCKSIZE) in
        kbind (with_uio (sfs_bmap vp fileblock doalloc s) u) (\<lambda>diskblock (s, u).
        kbind (if diskblock = 0
               then kassert (uio_rw u = UIO_READ) (Ok (replicate SFS_BLOCKSIZE 0) (s, u))
               else with_uio (sfs_rblock diskblock s) u) (\<lambda>iobuf (s, u).
        case uiomove len (drop skipstart iobuf, u) of
          Panic \<Rightarrow> Panic
        | Err e (_, u) \<Rightarrow> Err e (s, u)
        | Ok _ (moved, u) \<Rightarrow>
            (if uio_rw u = UIO_WRITE
             then with_uio (sfs_wblock (take skipstart iobuf @ moved) diskblock s) u
             else Ok () (s, u))))))"

text \<open>
  \<open>sfs_blockio\<close>: \<open>diskblock * SFS_BLOCKSIZE\<close> is a 32-bit product, and the residue is restored with
  \<open>off_t\<close> arithmetic before it is stored in a \<open>size_t\<close> again.
\<close>

definition sfs_blockio :: "vptr \<Rightarrow> sfs_fs \<times> uio \<Rightarrow> (unit, sfs_fs \<times> uio) out" where
  "sfs_blockio vp = (\<lambda>(s, u).
     let doalloc = (uio_rw u = UIO_WRITE);
         fileblock = to_u32 (uio_offset u sdiv int SFS_BLOCKSIZE)
     in kbind (with_uio (sfs_bmap vp fileblock doalloc s) u) (\<lambda>diskblock (s, u).
        if diskblock = 0
        then kassert (uio_rw u = UIO_READ)
               (case uiomovezeros SFS_BLOCKSIZE u of
                  Ok _ u \<Rightarrow> Ok () (s, u) | Err e u \<Rightarrow> Err e (s, u) | Panic \<Rightarrow> Panic)
        else
          (let saveoff = uio_offset u;
               diskoff = int ((diskblock * SFS_BLOCKSIZE) mod 2 ^ 32)
           in kassert (uio_resid u \<ge> SFS_BLOCKSIZE)
             (let saveres = int (uio_resid u);
                  diskres = int SFS_BLOCKSIZE;
                  restore = (\<lambda>u. u\<lparr>uio_offset := (uio_offset u - diskoff) + saveoff,
                                    uio_resid := to_u32 ((int (uio_resid u) - diskres) + saveres)\<rparr>)
              in case sfs_rwblock (s, u\<lparr>uio_offset := diskoff, uio_resid := SFS_BLOCKSIZE\<rparr>) of
                   Panic \<Rightarrow> Panic
                 | Ok _ (s, u) \<Rightarrow> Ok () (s, restore u)
                 | Err e (s, u) \<Rightarrow> Err e (s, restore u)))))"

fun sfs_io_blocks :: "nat \<Rightarrow> vptr \<Rightarrow> sfs_fs \<times> uio \<Rightarrow> (unit, sfs_fs \<times> uio) out" where
  "sfs_io_blocks 0 vp su = Ok () su"
| "sfs_io_blocks (Suc n) vp su = kbind (sfs_blockio vp su) (\<lambda>_ su. sfs_io_blocks n vp su)"

text \<open>
  The middle of \<open>sfs_io\<close>, up to the label \<open>out\<close>: the leading partial block, then (\<open>sfs_io_aligned\<close>)
  the whole blocks and the partial block at the end.
\<close>

definition sfs_io_aligned :: "vptr \<Rightarrow> sfs_fs \<times> uio \<Rightarrow> (unit, sfs_fs \<times> uio) out" where
  "sfs_io_aligned vp = (\<lambda>(s, u).
     if uio_resid u = 0 then Ok () (s, u)
     else kassert (uio_offset u smod int SFS_BLOCKSIZE = 0)
       (kbind (sfs_io_blocks (uio_resid u div SFS_BLOCKSIZE) vp (s, u)) (\<lambda>_ (s, u).
          kassert (uio_resid u < SFS_BLOCKSIZE)
            (if uio_resid u > 0 then sfs_partialio vp 0 (uio_resid u) (s, u) else Ok () (s, u)))))"

definition sfs_io_region :: "vptr \<Rightarrow> sfs_fs \<times> uio \<Rightarrow> (unit, sfs_fs \<times> uio) out" where
  "sfs_io_region vp = (\<lambda>(s, u).
     let blkoff = to_u32 (uio_offset u smod int SFS_BLOCKSIZE) in
     kbind (if blkoff \<noteq> 0
            then (let len = wsub32 SFS_BLOCKSIZE blkoff;
                      len = (if len > uio_resid u then uio_resid u else len)
                  in sfs_partialio vp blkoff len (s, u))
            else Ok () (s, u)) (\<lambda>_ su. sfs_io_aligned vp su))"

text \<open>The code at \<open>out\<close>.\<close>

definition sfs_io_out :: "vptr \<Rightarrow> nat \<Rightarrow> sfs_fs \<times> uio \<Rightarrow> (unit, sfs_fs \<times> uio) out" where
  "sfs_io_out vp extraresid = (\<lambda>(s, u).
     kbind (with_uio (vn_get vp s) u) (\<lambda>sv (s, u).
       let s' = (if uio_rw u = UIO_WRITE \<and> uio_offset u > int (unat (sfi_size (sv_i sv)))
                 then vn_put vp (sv\<lparr>sv_i := (sv_i sv)\<lparr>sfi_size := word_of_int (uio_offset u)\<rparr>,
                                   sv_dirty := True\<rparr>) s
                 else s)
       in Ok () (s', u\<lparr>uio_resid := wadd32 (uio_resid u) extraresid\<rparr>)))"

definition sfs_io :: "vptr \<Rightarrow> sfs_fs \<times> uio \<Rightarrow> (unit, sfs_fs \<times> uio) out" where
  "sfs_io vp = (\<lambda>(s, u).
     kbind (with_uio (vn_get vp s) u) (\<lambda>sv (s, u).
       let size = int (unat (sfi_size (sv_i sv)));
           endpos = uio_offset u + int (uio_resid u)
       in if uio_rw u = UIO_READ \<and> uio_offset u \<ge> size then Ok () (s, u)
          else
            (let extraresid = (if uio_rw u = UIO_READ \<and> endpos > size then to_u32 (endpos - size) else 0)
             in kassert (extraresid = 0 \<or> uio_resid u > extraresid)
               (case sfs_io_region vp (s, u\<lparr>uio_resid := uio_resid u - extraresid\<rparr>) of
                  Panic \<Rightarrow> Panic
                | Ok _ su \<Rightarrow> sfs_io_out vp extraresid su
                | Err e su \<Rightarrow> kbind (sfs_io_out vp extraresid su) (\<lambda>_ su. Err e su)))))"

section \<open>Arithmetic of offsets\<close>

lemma sdiv_int_nat: "int a sdiv int b = int (a div b)"
  by (cases "a = 0"; cases "b = 0") (auto simp: signed_divide_int_def zdiv_int)

lemma smod_int_nat: "int a smod int b = int (a mod b)"
  by (cases "a = 0"; cases "b = 0") (auto simp: signed_modulo_int_def zmod_int)

lemma fileblock_off: "off < 2 ^ 32 \<Longrightarrow> to_u32 (int off sdiv 512) = off div 512"
  using sdiv_int_nat [of off 512] by (simp add: div_le_dividend le_less_trans)

lemma blkoff_off: "to_u32 (int off smod 512) = off mod 512"
  using smod_int_nat [of off 512] mod_less_divisor [of 512 off] by (simp del: mod_less_divisor)

section \<open>Reading\<close>

lemma with_uio_wp [wp]:
  "out_wp (with_uio m u) Q E = out_wp m (\<lambda>a s. Q a (s, u)) (\<lambda>e s. E e (s, u))"
  by (cases m) auto

lemma dev_step_view:
  assumes "dev_step s t"
  shows "bmap_of t = bmap_of s" "file_byte t = file_byte s" "file_ok t = file_ok s"
proof -
  note d = dev_step_sel [OF assms]
  show b: "bmap_of t = bmap_of s" by (rule ext, rule bmap_of_cong) (simp_all add: d)
  show "file_byte t = file_byte s" by (intro ext) (simp add: file_byte_def b d Let_def)
  show "file_ok t = file_ok s" by (rule ext) (simp add: file_ok_def file_refs_def b d)
qed

lemma sfs_bmap_read:
  assumes s: "fs_ok s" "sfs_heap s vp = Some sv" "file_ok s (sv_i sv)"
  shows "out_wp (sfs_bmap vp fb False s)
    (\<lambda>b s'. b = bmap_of s (sv_i sv) fb \<and> fb < 143 \<and> dev_step s s') (\<lambda>e s'. e = EFBIG \<and> 143 \<le> fb \<and> s' = s)"
proof (rule out_wp_conseq [OF sfs_bmap_wp [OF s]], goal_cases)
  case (1 b s')
  then obtain sv' where sv': "bmap_state s vp sv s' sv'" "b = bmap_of s' (sv_i sv') fb" "fb < 143"
    "dev_step s s'" by auto
  have "sfs_heap s' = sfs_heap s" using dev_step_sel [OF sv'(4)] by simp
  then have "sv' = sv" using sv'(1) s(2) by (auto simp: bmap_state_def dest: fun_cong [of _ _ vp])
  then show ?case using sv' dev_step_view [OF sv'(4)] by simp
qed auto

definition blk_contents :: "sfs_fs \<Rightarrow> nat \<Rightarrow> u8 list" where
  "blk_contents s b = (if b = 0 then replicate 512 0 else sect s b)"

lemma sect_length: "fs_ok s \<Longrightarrow> length (sect s b) = 512"
  by (simp add: fs_ok_def dev_ok_def lhd_inv_def)

lemma length_blk [simp]: "fs_ok s \<Longrightarrow> length (blk_contents s b) = 512"
  by (simp add: blk_contents_def sect_length)

lemma div_mod_within:
  fixes off :: nat
  assumes "off mod 512 + k < 512"
  shows "(off + k) div 512 = off div 512" "(off + k) mod 512 = off mod 512 + k"
proof -
  have e: "off + k = (off mod 512 + k) + 512 * (off div 512)" by simp
  show "(off + k) mod 512 = off mod 512 + k"
    by (subst e) (simp only: mod_mult_self2 mod_less [OF assms])
  have "(off mod 512 + k) div 512 = 0" using assms by (rule div_less)
  then show "(off + k) div 512 = off div 512"
    by (subst e) (simp only: div_mult_self2 [of 512] zero_neq_numeral not_False_eq_True add_0_right)
qed

lemma file_bytes_block:
  assumes "fs_ok s" and "off mod 512 + n \<le> 512"
  shows "map (file_byte s i) [off..<off + n] =
    take n (drop (off mod 512) (blk_contents s (bmap_of s i (off div 512))))"
proof (rule nth_equalityI)
  fix k
  assume "k < length (map (file_byte s i) [off..<off + n])"
  then have k: "off mod 512 + k < 512" "k < n" using assms(2) by auto
  then show "map (file_byte s i) [off..<off + n] ! k =
    take n (drop (off mod 512) (blk_contents s (bmap_of s i (off div 512)))) ! k"
    using div_mod_within [OF k(1)] assms by (auto simp: file_byte_def blk_contents_def sect_length Let_def)
qed (use assms in auto)

lemma partialio_read_wp:
  assumes s: "fs_ok s" "sfs_heap s vp = Some sv" "file_ok s (sv_i sv)"
    and u: "uio_ok u" "uio_rw u = UIO_READ" "uio_offset u = int off" "n \<le> uio_resid u"
    and off: "off div 512 < 143" "skip = off mod 512" "skip + n \<le> 512"
  shows "out_wp (sfs_partialio vp skip n (s, u))
    (\<lambda>_ (s', u'). dev_step s s' \<and> uio_fill (map (file_byte s (sv_i sv)) [off..<off + n]) u u')
    (\<lambda>e (s', u'). dev_step s s' \<and> uio_fault e u u')"
proof -
  have small: "off < 143 * 512" using off(1) by (simp add: div_less_iff_less_mult)
  let ?b = "bmap_of s (sv_i sv) (off div 512)"
  obtain t where t: "sfs_bmap vp (off div 512) False s = Ok ?b t" "dev_step s t"
    using sfs_bmap_read [OF s, of "off div 512"] off(1) by (cases rule: out_wp_cases) auto
  note d = dev_step_sel [OF t(2)]
  obtain v where v: "(if ?b = 0 then kassert (uio_rw u = UIO_READ) (Ok (replicate 512 0) (t, u))
        else with_uio (sfs_rblock ?b t) u) = Ok (blk_contents s ?b) (v, u)" "dev_step s v"
  proof (cases "?b = 0")
    case True
    then show ?thesis using that [of t] t(2) u(2) by (simp add: blk_contents_def)
  next
    case False
    then have "dev_ok t" "?b < d_blocks (sfs_device t)"
      using file_refs_used [OF s(3) off(1)] s(1) d by (auto simp: fs_ok_def fs_frame_def)
    from out_wp_total [OF sfs_rblock_wp [OF this]] obtain v where
      "sfs_rblock ?b t = Ok (sect t ?b) v" "dev_step t v" by auto
    then show ?thesis using that [of v] False dev_step_trans [OF t(2)] d by (simp add: blk_contents_def)
  qed
  have run: "sfs_partialio vp skip n (s, u) =
    (case uiomove n (drop skip (blk_contents s ?b), u) of
          Panic \<Rightarrow> Panic
        | Err e (_, u) \<Rightarrow> Err e (v, u)
        | Ok _ (moved, u) \<Rightarrow>
            (if uio_rw u = UIO_WRITE
             then with_uio (sfs_wblock (take skip (blk_contents s ?b) @ moved) ?b v) u
             else Ok () (v, u)))"
    using off(3) small t(1) v(1) u(2,3)
    by (simp add: sfs_partialio_def Let_def fileblock_off)
  have mv: "out_wp (uiomove n (drop skip (blk_contents s ?b), u))
     (\<lambda>_ (buf', u'). buf' = drop skip (blk_contents s ?b) \<and> uio_fill (take n (drop skip (blk_contents s ?b))) u u')
     (\<lambda>e (buf', u'). uio_fault e u u' \<and> length buf' = length (drop skip (blk_contents s ?b)))"
    by (rule uiomove_read_wp) (use u off s in auto)
  have bytes: "map (file_byte s (sv_i sv)) [off..<off + n] = take n (drop skip (blk_contents s ?b))"
    using file_bytes_block [OF s(1)] off by simp
  note eqs = run bytes
  show ?thesis
    using mv
  proof (cases rule: out_wp_cases)
    case (Ok a x)
    obtain b1 u1 where x: "x = (b1, u1)" by (cases x)
    then have fl: "uio_fill (take n (drop skip (blk_contents s ?b))) u u1" using Ok(2) by simp
    then show ?thesis using Ok x v(2) uio_fill_frame(1) [OF fl] u(2) by (simp add: eqs)
  next
    case (Err e x)
    then show ?thesis using v(2) by (cases x) (simp add: eqs)
  qed
qed

text \<open>A whole block, through the uio itself.\<close>

lemma uio_fill_swap:
  assumes "uio_fill bs (u\<lparr>uio_offset := o', uio_resid := r'\<rparr>) u'" and "length bs = r'" and "r' \<le> uio_resid u"
    and "uio_ok u"
  shows "uio_fill bs u (u'\<lparr>uio_offset := uio_offset u' - o' + uio_offset u,
    uio_resid := to_u32 (int (uio_resid u') - int r' + int (uio_resid u))\<rparr>)"
proof -
  have r: "uio_resid u < 2 ^ 32" "uio_resid u \<le> length (uio_addrs u)" using assms(4) by (auto simp: uio_ok_def)
  then have "to_u32 (int (uio_resid u) - int r') = uio_resid u - r'"
    using to_u32_nat [of "uio_resid u - r'"] assms(3) by (simp add: of_nat_diff)
  then show ?thesis
    using assms r by (auto simp: uio_fill_def uio_addrs_def)
qed

lemma blockio_read_wp:
  assumes s: "fs_ok s" "sfs_heap s vp = Some sv" "file_ok s (sv_i sv)"
    and u: "uio_ok u" "uio_rw u = UIO_READ" "uio_offset u = int off" "512 \<le> uio_resid u"
    and off: "off div 512 < 143" "off mod 512 = 0" and small: "fs_nblocks s \<le> 2 ^ 23"
  shows "out_wp (sfs_blockio vp (s, u))
    (\<lambda>_ (s', u'). dev_step s s' \<and> uio_fill (map (file_byte s (sv_i sv)) [off..<off + 512]) u u')
    (\<lambda>e (s', u'). dev_step s s' \<and> uio_fault e u u')"
proof -
  have lt: "off < 143 * 512" using off(1) by (simp add: div_less_iff_less_mult)
  let ?b = "bmap_of s (sv_i sv) (off div 512)"
  obtain t where t: "sfs_bmap vp (off div 512) False s = Ok ?b t" "dev_step s t"
    using sfs_bmap_read [OF s, of "off div 512"] off(1) by (cases rule: out_wp_cases) auto
  note d = dev_step_sel [OF t(2)]
  have bytes: "map (file_byte s (sv_i sv)) [off..<off + 512] = blk_contents s ?b"
    using file_bytes_block [OF s(1), of off 512] off s(1) by simp
  show ?thesis
  proof (cases "?b = 0")
    case True
    have "out_wp (uiomovezeros 512 u) (\<lambda>_ u'. uio_fill (replicate 512 0) u u')
      (\<lambda>e u'. uio_fault e u u')"
      by (rule uiomovezeros_wp) (use u in auto)
    then show ?thesis
      by (cases rule: out_wp_cases)
        (use True t u lt in \<open>simp_all add: sfs_blockio_def Let_def fileblock_off bytes blk_contents_def\<close>)
  next
    case False
    let ?u = "u\<lparr>uio_offset := int (?b * 512), uio_resid := 512\<rparr>"
    have b: "?b < fs_nblocks s" using file_refs_used [OF s(3) off(1) False] by simp
    then have dev: "?b < d_blocks (sfs_device t)" "dev_ok t"
      using d s(1) by (auto simp: fs_ok_def fs_frame_def)
    have prod: "?b * 512 mod 2 ^ 32 = ?b * 512" using b small by (intro mod_less) simp
    have "uio_ok ?u" using u by (auto simp: uio_ok_def uio_addrs_def)
    then have "out_wp (sfs_rwblock (t, ?u)) (\<lambda>_ (s', u'). dev_step t s' \<and> uio_fill (sect t ?b) ?u u')
      (\<lambda>e (s', u'). dev_step t s' \<and> uio_fault e ?u u')"
      by (intro sfs_rwblock_read) (use dev u in auto)
    then show ?thesis
    proof (cases rule: out_wp_cases)
      case (Ok a x)
      obtain v u1 where x: "x = (v, u1)" by (cases x)
      have fl: "dev_step t v" "uio_fill (sect t ?b) ?u u1" using Ok(2) x by auto
      have "uio_fill (sect t ?b) u (u1\<lparr>uio_offset := uio_offset u1 - int (?b * 512) + uio_offset u,
          uio_resid := to_u32 (int (uio_resid u1) - int 512 + int (uio_resid u))\<rparr>)"
        by (rule uio_fill_swap [OF fl(2)]) (use s(1) d u in \<open>simp_all add: sect_length\<close>)
      then show ?thesis
        using Ok(1) x False t u lt dev_step_trans [OF t(2) fl(1)] d prod
        by (simp add: sfs_blockio_def Let_def fileblock_off bytes blk_contents_def)
    next
      case (Err e x)
      obtain v u1 where x: "x = (v, u1)" by (cases x)
      then show ?thesis
        using Err False t u lt dev_step_trans [OF t(2)] prod
        by (simp add: sfs_blockio_def Let_def fileblock_off)
    qed
  qed
qed

text \<open>What one read step promises; the steps of a region compose.\<close>

definition io_reads :: "sfs_fs \<Rightarrow> sfs_inode \<Rightarrow> nat \<Rightarrow> nat \<Rightarrow> uio \<Rightarrow> (unit, sfs_fs \<times> uio) out \<Rightarrow> bool" where
  "io_reads s i off n u m \<longleftrightarrow> out_wp m
    (\<lambda>_ (s', u'). dev_step s s' \<and> uio_fill (map (file_byte s i) [off..<off + n]) u u')
    (\<lambda>e (s', u'). dev_step s s' \<and> uio_fault e u u')"

lemma io_reads_0: "uio_ok u \<Longrightarrow> io_reads s i off 0 u (Ok () (s, u))"
  by (simp add: io_reads_def)

lemma io_reads_bind:
  assumes m: "io_reads s i off n u m"
    and f: "\<And>t u1. dev_step s t \<Longrightarrow> uio_fill (map (file_byte s i) [off..<off + n]) u u1 \<Longrightarrow>
      io_reads t i (off + n) k u1 (f () (t, u1))"
  shows "io_reads s i off (n + k) u (kbind m f)"
  using m unfolding io_reads_def
proof (cases rule: out_wp_cases)
  case (Err e x)
  then show "out_wp (kbind m f)
    (\<lambda>_ (s', u'). dev_step s s' \<and> uio_fill (map (file_byte s i) [off..<off + (n + k)]) u u')
    (\<lambda>e (s', u'). dev_step s s' \<and> uio_fault e u u')" by simp
next
  case (Ok a x)
  obtain t u1 where x: "x = (t, u1)" by (cases x)
  have t: "dev_step s t" "uio_fill (map (file_byte s i) [off..<off + n]) u u1" using Ok(2) x by auto
  have up: "map g [off..<off + (n + k)] = map g [off..<off + n] @ map g [off + n..<off + n + k]" for g
    using upt_add_eq_append [of off "off + n" k] by (simp add: add.assoc)
  show "out_wp (kbind m f)
    (\<lambda>_ (s', u'). dev_step s s' \<and> uio_fill (map (file_byte s i) [off..<off + (n + k)]) u u')
    (\<lambda>e (s', u'). dev_step s s' \<and> uio_fault e u u')"
    unfolding Ok(1) x kbind.simps unit_eq [of a]
  proof (rule out_wp_conseq [OF f [OF t, unfolded io_reads_def]], goal_cases)
    case (1 a y)
    then show ?case
      using dev_step_trans [OF t(1)] uio_fill_trans [OF t(2)] dev_step_view(2) [OF t(1)]
      by (cases y) (simp add: up)
  next
    case (2 e y)
    then show ?case
      using dev_step_trans [OF t(1)] uio_fill_frame(1,2) [OF t(2)] by (cases y) simp
  qed
qed

section \<open>Writing\<close>

text \<open>
  The bytes \<open>bs\<close> written at \<open>off\<close>: they replace the old ones, every other byte of the file stays
  (holes read as zero before and after), blocks are only gained from the free ones, and no block
  of another file changes.
\<close>

definition bytes_upd :: "(nat \<Rightarrow> u8) \<Rightarrow> nat \<Rightarrow> u8 list \<Rightarrow> nat \<Rightarrow> u8" where
  "bytes_upd f off bs = (\<lambda>x. if off \<le> x \<and> x < off + length bs then bs ! (x - off) else f x)"

definition file_write :: "sfs_fs \<Rightarrow> sfs_inode \<Rightarrow> nat \<Rightarrow> u8 list \<Rightarrow> sfs_fs \<Rightarrow> sfs_inode \<Rightarrow> bool" where
  "file_write s i off bs s' i' \<longleftrightarrow> fs_ok s' \<and> fs_frame s s' \<and> fs_used s \<subseteq> fs_used s' \<and> file_ok s' i' \<and>
     file_byte s' i' = bytes_upd (file_byte s i) off bs \<and>
     (\<forall>b \<in> fs_used s. b \<notin> file_refs s i \<longrightarrow> sect s' b = sect s b) \<and>
     file_refs s' i' \<subseteq> file_refs s i \<union> (fs_used s' - fs_used s) \<and>
     same_meta i i'"

lemma bytes_upd_Nil [simp]: "bytes_upd f off [] = f"
  by (rule ext) (auto simp: bytes_upd_def)

lemma bytes_upd_append: "bytes_upd (bytes_upd f off bs) (off + length bs) cs = bytes_upd f off (bs @ cs)"
  by (rule ext) (auto simp: bytes_upd_def nth_append)

lemma file_write_step: "file_step s i s' i' \<Longrightarrow> file_write s i off [] s' i'"
  by (simp add: file_step_def file_write_def)

lemma file_write_trans:
  assumes "file_write s i off bs t j" and "file_write t j (off + length bs) cs v k"
  shows "file_write s i off (bs @ cs) v k"
proof -
  have "b \<in> fs_used t \<and> b \<notin> file_refs t j" if "b \<in> fs_used s" "b \<notin> file_refs s i" for b
    using that assms(1) by (auto simp: file_write_def)
  then have "\<forall>b \<in> fs_used s. b \<notin> file_refs s i \<longrightarrow> sect v b = sect s b"
    using assms by (auto simp: file_write_def)
  moreover have "same_meta i k" using assms by (simp add: file_write_def same_meta_def)
  moreover have "fs_frame s v" using assms fs_frame_trans by (auto simp: file_write_def)
  moreover have "file_byte v k = bytes_upd (file_byte s i) off (bs @ cs)" "fs_used s \<subseteq> fs_used v"
    "fs_ok v" "file_ok v k"
    using assms by (auto simp: file_write_def bytes_upd_append)
  moreover have "file_refs v k \<subseteq> file_refs s i \<union> (fs_used v - fs_used s)"
  proof -
    have "file_refs v k \<subseteq> file_refs t j \<union> (fs_used v - fs_used t)" "fs_used t \<subseteq> fs_used v"
      "file_refs t j \<subseteq> file_refs s i \<union> (fs_used t - fs_used s)" "fs_used s \<subseteq> fs_used t"
      using assms by (simp_all add: file_write_def)
    then show ?thesis by blast
  qed
  ultimately show ?thesis by (simp add: file_write_def)
qed

lemma bytes_upd_block:
  assumes "off mod 512 + length bs \<le> 512" and "length old = 512"
  shows "bytes_upd f off bs x =
    (if x div 512 = off div 512
     then (if off mod 512 \<le> x mod 512 \<and> x mod 512 < off mod 512 + length bs
           then bs ! (x mod 512 - off mod 512) else f x)
     else f x)"
proof (cases "x div 512 = off div 512")
  case True
  then have "x = 512 * (off div 512) + x mod 512" "off = 512 * (off div 512) + off mod 512"
    by (metis mult_div_mod_eq, simp)
  then have "off \<le> x \<and> x < off + length bs \<longleftrightarrow> off mod 512 \<le> x mod 512 \<and> x mod 512 < off mod 512 + length bs"
    "x - off = x mod 512 - off mod 512"
    by linarith+
  then show ?thesis using True by (simp add: bytes_upd_def)
next
  case False
  have "\<not> (off \<le> x \<and> x < off + length bs)"
  proof
    assume "off \<le> x \<and> x < off + length bs"
    then have "x = off + (x - off)" "off mod 512 + (x - off) < 512" using assms by linarith+
    then have "x div 512 = off div 512" using div_mod_within(1) by metis
    then show False using False by simp
  qed
  then show ?thesis using False unfolding bytes_upd_def by argo
qed

lemma file_write_block:
  assumes ok: "fs_ok s" "file_ok s i" and b: "b = bmap_of s i (off div 512)" "b \<noteq> 0" "off div 512 < 143"
    and w: "dev_write b (buf_write (sect s b) (off mod 512) bs) s s'" and len: "off mod 512 + length bs \<le> 512"
  shows "file_write s i off bs s' i"
proof -
  note d = dev_write_sel [OF w]
  have l: "length (sect s b) = 512" using sect_length [OF ok(1)] .
  have bu: "b \<in> fs_used s" "b \<noteq> unat (sfi_indirect i)" "b \<in> file_refs s i"
    using file_refs_used [OF ok(2) b(3)] b by (auto simp: file_refs_def)
  have bm: "bmap_of s' i = bmap_of s i" by (rule bmap_of_cong) (use d(7) bu in auto)
  have refs: "file_refs s' i = file_refs s i" by (simp add: file_refs_def bm)
  have "file_byte s' i x = bytes_upd (file_byte s i) off bs x" for x
  proof (cases "x div 512 = off div 512")
    case True
    have "x mod 512 < 512" by simp
    then show ?thesis
      using True b l len d(7) unfolding bytes_upd_block [OF len l]
      by (auto simp: file_byte_def bm Let_def nth_buf_write)
  next
    case False
    have "bmap_of s i (x div 512) \<noteq> b" if "bmap_of s i (x div 512) \<noteq> 0"
    proof -
      have "x div 512 < 143" using that bmap_of_big [of "x div 512" s i] by fastforce
      then show ?thesis using file_okD(2) [OF ok(2), of "x div 512" "off div 512"] b False by auto
    qed
    then show ?thesis using False d(7) unfolding bytes_upd_block [OF len l]
      by (auto simp: file_byte_def bm Let_def)
  qed
  then have "file_byte s' i = bytes_upd (file_byte s i) off bs" by (rule ext)
  moreover have "file_ok s' i" using ok(2) by (simp add: file_ok_def bm refs d)
  ultimately show ?thesis
    using ok d refs bu l len by (auto simp: file_write_def)
qed

definition vn_wrote :: "sfs_fs \<Rightarrow> vptr \<Rightarrow> sfs_vnode \<Rightarrow> nat \<Rightarrow> u8 list \<Rightarrow> sfs_fs \<Rightarrow> sfs_vnode \<Rightarrow> bool" where
  "vn_wrote s vp sv off bs s' sv' \<longleftrightarrow> sfs_heap s' = (sfs_heap s)(vp \<mapsto> sv') \<and>
     file_write s (sv_i sv) off bs s' (sv_i sv') \<and> vn_same sv sv'"

lemma vn_wrote_trans:
  assumes "vn_wrote s vp sv off bs t tv" and "vn_wrote t vp tv (off + length bs) cs v vv"
  shows "vn_wrote s vp sv off (bs @ cs) v vv"
  using assms file_write_trans [of s "sv_i sv" off bs t "sv_i tv" cs v "sv_i vv"] vn_same_trans [of sv tv vv]
  by (simp add: vn_wrote_def)

lemma vn_wrote_ok:
  assumes "vn_wrote s vp sv off bs t tv"
  shows "fs_ok t" "sfs_heap t vp = Some tv" "file_ok t (sv_i tv)" "sfs_super t = sfs_super s"
  using assms by (auto simp: vn_wrote_def file_write_def fs_frame_def)

lemma vn_wrote_bmap: "bmap_state s vp sv t tv \<Longrightarrow> vn_wrote s vp sv off [] t tv"
  by (simp add: vn_wrote_def bmap_state_def file_write_step)

lemma vn_wrote_refl: "fs_ok s \<Longrightarrow> sfs_heap s vp = Some sv \<Longrightarrow> file_ok s (sv_i sv) \<Longrightarrow> vn_wrote s vp sv off [] s sv"
  by (rule vn_wrote_bmap [OF bmap_state_refl])

lemma vn_wrote_dev:
  assumes w: "vn_wrote s vp sv off bs t tv" and d: "dev_step t v"
  shows "vn_wrote s vp sv off bs v tv"
proof -
  have "file_step t (sv_i tv) v (sv_i tv)"
    by (rule file_step_dev [OF d vn_wrote_ok(1) [OF w] vn_wrote_ok(3) [OF w]])
  then have "vn_wrote t vp tv (off + length bs) [] v tv"
    using dev_step_sel(2) [OF d] vn_wrote_ok(2) [OF w] by (auto simp: vn_wrote_def file_write_step fun_upd_idem)
  from vn_wrote_trans [OF w this] show ?thesis by simp
qed

lemma vn_wrote_block:
  assumes w: "vn_wrote s vp sv off [] t tv" and b: "b = bmap_of t (sv_i tv) (off div 512)" "b \<noteq> 0" "off div 512 < 143"
    and d: "dev_write b (buf_write (sect t b) (off mod 512) bs) t v" and len: "off mod 512 + length bs \<le> 512"
  shows "vn_wrote s vp sv off bs v tv"
proof -
  have "file_write t (sv_i tv) off bs v (sv_i tv)"
    by (rule file_write_block [OF vn_wrote_ok(1) [OF w] vn_wrote_ok(3) [OF w] b d len])
  then have "vn_wrote t vp tv (off + length []) bs v tv"
    using dev_write_sel(2) [OF d] vn_wrote_ok(2) [OF w] by (auto simp: vn_wrote_def fun_upd_idem)
  from vn_wrote_trans [OF w this] show ?thesis by simp
qed

text \<open>What one write step promises.\<close>

definition io_writes ::
  "sfs_fs \<Rightarrow> vptr \<Rightarrow> sfs_vnode \<Rightarrow> nat \<Rightarrow> nat \<Rightarrow> uio \<Rightarrow> (unit, sfs_fs \<times> uio) out \<Rightarrow> bool" where
  "io_writes s vp sv off n u m \<longleftrightarrow> out_wp m
    (\<lambda>_ (s', u'). \<exists>bs sv'. length bs = n \<and> uio_drain bs u u' \<and> vn_wrote s vp sv off bs s' sv')
    (\<lambda>e (s', u'). (\<exists>bs sv'. length bs \<le> n \<and> vn_wrote s vp sv off bs s' sv') \<and> uio_rw u' = uio_rw u \<and>
       (e = ENOSPC \<and> {..<fs_nblocks s} \<subseteq> fs_used s' \<or> uio_fault e u u'))"

lemma io_writes_0:
  "fs_ok s \<Longrightarrow> sfs_heap s vp = Some sv \<Longrightarrow> file_ok s (sv_i sv) \<Longrightarrow> uio_ok u \<Longrightarrow>
   io_writes s vp sv off 0 u (Ok () (s, u))"
  using vn_wrote_refl by (fastforce simp: io_writes_def)

lemma io_writes_none:
  "vn_wrote s vp sv off [] t tv \<Longrightarrow> uio_rw u' = uio_rw u \<Longrightarrow>
   e = ENOSPC \<and> {..<fs_nblocks s} \<subseteq> fs_used t \<or> uio_fault e u u' \<Longrightarrow>
   io_writes s vp sv off n u (Err e (t, u'))"
  unfolding io_writes_def by (auto intro!: exI [of _ "[]"])

lemma io_writes_bind:
  assumes m: "io_writes s vp sv off n u m"
    and f: "\<And>bs t tv u1. length bs = n \<Longrightarrow> uio_drain bs u u1 \<Longrightarrow> vn_wrote s vp sv off bs t tv \<Longrightarrow>
      io_writes t vp tv (off + n) k u1 (f () (t, u1))"
  shows "io_writes s vp sv off (n + k) u (kbind m f)"
  using m unfolding io_writes_def [of s vp sv off n u]
proof (cases rule: out_wp_cases)
  case (Err e x)
  obtain t u1 where x: "x = (t, u1)" by (cases x)
  then obtain bs tv where "length bs \<le> n" "vn_wrote s vp sv off bs t tv" using Err(2) by auto
  then have "\<exists>bs tv. length bs \<le> n + k \<and> vn_wrote s vp sv off bs t tv" using trans_le_add1 by blast
  then show ?thesis using Err x by (auto simp: io_writes_def)
next
  case (Ok a x)
  obtain t u1 where x: "x = (t, u1)" by (cases x)
  then obtain bs tv where t: "length bs = n" "uio_drain bs u u1" "vn_wrote s vp sv off bs t tv"
    using Ok(2) by auto
  note fr = uio_drain_frame [OF t(2)]
  have sup: "sfs_super t = sfs_super s" by (rule vn_wrote_ok [OF t(3)])
  show ?thesis
    unfolding io_writes_def Ok(1) x kbind.simps unit_eq [of a]
  proof (rule out_wp_conseq [OF f [OF t, unfolded io_writes_def]], goal_cases)
    case (1 a y)
    obtain v u2 where y: "y = (v, u2)" by (cases y)
    then obtain cs vv where "length cs = k" "uio_drain cs u1 u2" "vn_wrote t vp tv (off + n) cs v vv"
      using 1(2) by auto
    then have "length (bs @ cs) = n + k" "uio_drain (bs @ cs) u u2" "vn_wrote s vp sv off (bs @ cs) v vv"
      using t uio_drain_trans [OF t(2)] vn_wrote_trans [OF t(3)] by simp_all
    then show ?case using y by blast
  next
    case (2 e y)
    obtain v u2 where y: "y = (v, u2)" by (cases y)
    then obtain cs vv where cs: "length cs \<le> k" "vn_wrote t vp tv (off + n) cs v vv"
      "uio_rw u2 = uio_rw u1" "e = ENOSPC \<and> {..<fs_nblocks t} \<subseteq> fs_used v \<or> uio_fault e u1 u2" using 2(2) by auto
    then have "length (bs @ cs) \<le> n + k" "vn_wrote s vp sv off (bs @ cs) v vv"
      using t vn_wrote_trans [OF t(3)] by simp_all
    then show ?case using y cs fr(1,2) sup by (auto simp del: length_append)
  qed
qed

text \<open>The first half of both kinds of block I/O: the block is there, allocated if need be.\<close>

lemma sfs_bmap_write:
  assumes s: "fs_ok s" "sfs_heap s vp = Some sv" "file_ok s (sv_i sv)" and fb: "fb < 143"
  shows "out_wp (sfs_bmap vp fb True s)
    (\<lambda>b t. \<exists>tv. vn_wrote s vp sv off [] t tv \<and> b = bmap_of t (sv_i tv) fb \<and> b \<noteq> 0 \<and> b < fs_nblocks s)
    (\<lambda>e t. e = ENOSPC \<and> {..<fs_nblocks s} \<subseteq> fs_used t \<and> (\<exists>tv. vn_wrote s vp sv off [] t tv) \<and>
       bmap_of s (sv_i sv) fb = 0)"
proof (rule out_wp_conseq [OF sfs_bmap_wp [OF s]], goal_cases)
  case (1 b t)
  then obtain tv where tv: "vn_wrote s vp sv off [] t tv" "b = bmap_of t (sv_i tv) fb" "b \<noteq> 0"
    using vn_wrote_bmap by blast
  then have "b < fs_nblocks s"
    using file_refs_used [OF vn_wrote_ok(3) [OF tv(1)] fb] vn_wrote_ok(4) [OF tv(1)] by simp
  then show ?case using tv by blast
next
  case (2 e t)
  then show ?case using fb vn_wrote_bmap by fastforce
qed

text \<open>A partial block that cannot be written leaves the contents of the file alone.\<close>

lemma partialio_write_wp:
  assumes s: "fs_ok s" "sfs_heap s vp = Some sv" "file_ok s (sv_i sv)"
    and u: "uio_ok u" "uio_rw u = UIO_WRITE" "uio_offset u = int off" "n \<le> uio_resid u"
    and off: "off div 512 < 143" "skip = off mod 512" "skip + n \<le> 512"
  shows "out_wp (sfs_partialio vp skip n (s, u))
    (\<lambda>_ (s', u'). \<exists>bs sv'. length bs = n \<and> uio_drain bs u u' \<and> vn_wrote s vp sv off bs s' sv')
    (\<lambda>e (s', u'). (\<exists>sv'. vn_wrote s vp sv off [] s' sv') \<and>
       (e = ENOSPC \<and> {..<fs_nblocks s} \<subseteq> fs_used s' \<and> u' = u \<and> bmap_of s (sv_i sv) (off div 512) = 0 \<or> uio_fault e u u'))"
proof -
  have small: "off < 143 * 512" using off(1) by (simp add: div_less_iff_less_mult)
  show ?thesis
    using sfs_bmap_write [OF s off(1), of off]
  proof (cases rule: out_wp_cases)
    case (Err e t)
    then have "sfs_partialio vp skip n (s, u) = Err e (t, u)"
      using off(3) small u(2,3) by (simp add: sfs_partialio_def Let_def fileblock_off)
    then show ?thesis using Err(2) by auto
  next
    case (Ok b t)
    then obtain tv where tv: "vn_wrote s vp sv off [] t tv" "b = bmap_of t (sv_i tv) (off div 512)" "b \<noteq> 0"
      "b < fs_nblocks s" by auto
    have dev: "dev_ok t" "b < d_blocks (sfs_device t)" "length (sect t b) = 512"
      using vn_wrote_ok [OF tv(1)] tv(4) sect_length by (auto simp: fs_ok_def)
    obtain v where v: "sfs_rblock b t = Ok (sect t b) v" "dev_step t v"
      using out_wp_total [OF sfs_rblock_wp [OF dev(1,2)]] by auto
    note d = dev_step_sel [OF v(2)]
    have wv: "vn_wrote s vp sv off [] v tv" by (rule vn_wrote_dev [OF tv(1) v(2)])
    have bv: "b = bmap_of v (sv_i tv) (off div 512)" using tv(2) dev_step_view(1) [OF v(2)] by simp
    let ?buf = "sect t b"
    have run: "sfs_partialio vp skip n (s, u) =
      (case uiomove n (drop skip ?buf, u) of
          Panic \<Rightarrow> Panic
        | Err e (_, u) \<Rightarrow> Err e (v, u)
        | Ok _ (moved, u) \<Rightarrow>
            (if uio_rw u = UIO_WRITE then with_uio (sfs_wblock (take skip ?buf @ moved) b v) u
             else Ok () (v, u)))"
      using off(3) small Ok(1) v(1) tv(3) u(2,3)
      by (simp add: sfs_partialio_def Let_def fileblock_off)
    have mv: "out_wp (uiomove n (drop skip ?buf, u))
      (\<lambda>_ (buf', u'). \<exists>bs. length bs = n \<and> buf' = buf_write (drop skip ?buf) 0 bs \<and> uio_drain bs u u')
      (\<lambda>e (buf', u'). uio_fault e u u' \<and> length buf' = length (drop skip ?buf))"
      by (rule uiomove_write_wp) (use u off dev in auto)
    show ?thesis
      using mv
    proof (cases rule: out_wp_cases)
      case e: (Err e x)
      obtain b1 u1 where x: "x = (b1, u1)" by (cases x)
      show ?thesis using e x u(2) wv by (auto simp: run)
    next
      case o: (Ok a x)
      obtain b1 u1 where x: "x = (b1, u1)" by (cases x)
      then obtain bs where bs: "length bs = n" "b1 = buf_write (drop skip ?buf) 0 bs" "uio_drain bs u u1"
        using o(2) by auto
      have blk: "take skip ?buf @ b1 = buf_write ?buf skip bs"
        by (simp add: bs(2) buf_write_def add.commute)
      have "length (buf_write ?buf skip bs) = 512" using off(3) bs(1) dev(3) by simp
      moreover have "dev_ok v" "b < d_blocks (sfs_device v)"
        using dev d by (auto simp: fs_frame_def intro: dev_stepD(3) [OF v(2)])
      ultimately obtain w where w: "sfs_wblock (buf_write ?buf skip bs) b v = Ok () w"
        "dev_write b (buf_write ?buf skip bs) v w"
        using out_wp_total [OF sfs_wblock_wp [of v b "buf_write ?buf skip bs"]] by auto
      have "vn_wrote s vp sv off bs w tv"
        by (rule vn_wrote_block [OF wv bv tv(3) off(1)]) (use w(2) d(7) off bs(1) in auto)
      then show ?thesis
        using o(1) x w(1) bs(1,3) uio_drain_frame(1) [OF bs(3)] u(2) by (auto simp: run blk)
    qed
  qed
qed

lemma partialio_write:
  assumes "fs_ok s" "sfs_heap s vp = Some sv" "file_ok s (sv_i sv)"
    and "uio_ok u" "uio_rw u = UIO_WRITE" "uio_offset u = int off" "n \<le> uio_resid u"
    and "off div 512 < 143" "skip = off mod 512" "skip + n \<le> 512"
  shows "io_writes s vp sv off n u (sfs_partialio vp skip n (s, u))"
  using partialio_write_wp [OF assms]
proof (cases rule: out_wp_cases)
  case (Ok a x)
  then show ?thesis by (simp add: io_writes_def)
next
  case (Err e x)
  obtain t u1 tv where "x = (t, u1)" "vn_wrote s vp sv off [] t tv"
    "e = ENOSPC \<and> {..<fs_nblocks s} \<subseteq> fs_used t \<and> u1 = u \<or> uio_fault e u u1"
    using Err(2) by (cases x) auto
  then show ?thesis using Err(1) io_writes_none by (metis (no_types, lifting))
qed

lemma uio_drain_swap:
  assumes "uio_drain bs (u\<lparr>uio_offset := o', uio_resid := r'\<rparr>) u'" and "length bs = r'" and "r' \<le> uio_resid u"
    and "uio_ok u"
  shows "uio_drain bs u (u'\<lparr>uio_offset := uio_offset u' - o' + uio_offset u,
    uio_resid := to_u32 (int (uio_resid u') - int r' + int (uio_resid u))\<rparr>)"
proof -
  have r: "uio_resid u < 2 ^ 32" "uio_resid u \<le> length (uio_addrs u)" using assms(4) by (auto simp: uio_ok_def)
  then have "to_u32 (int (uio_resid u) - int r') = uio_resid u - r'"
    using to_u32_nat [of "uio_resid u - r'"] assms(3) by (simp add: of_nat_diff)
  then show ?thesis
    using assms r by (auto simp: uio_drain_def uio_addrs_def)
qed

lemma blockio_write:
  assumes s: "fs_ok s" "sfs_heap s vp = Some sv" "file_ok s (sv_i sv)"
    and u: "uio_ok u" "uio_rw u = UIO_WRITE" "uio_offset u = int off" "512 \<le> uio_resid u"
    and off: "off div 512 < 143" "off mod 512 = 0" and small: "fs_nblocks s \<le> 2 ^ 23"
  shows "io_writes s vp sv off 512 u (sfs_blockio vp (s, u))"
proof -
  have lt: "off < 143 * 512" using off(1) by (simp add: div_less_iff_less_mult)
  show ?thesis
    using sfs_bmap_write [OF s off(1), of off]
  proof (cases rule: out_wp_cases)
    case (Err e t)
    then have "sfs_blockio vp (s, u) = Err e (t, u)"
      using lt u(2,3) by (simp add: sfs_blockio_def Let_def fileblock_off)
    then show ?thesis using Err(2) by (auto intro!: io_writes_none)
  next
    case (Ok b t)
    then obtain tv where tv: "vn_wrote s vp sv off [] t tv" "b = bmap_of t (sv_i tv) (off div 512)" "b \<noteq> 0"
      "b < fs_nblocks s" by auto
    have dev: "dev_ok t" "b < d_blocks (sfs_device t)" "length (sect t b) = 512"
      using vn_wrote_ok [OF tv(1)] tv(4) sect_length by (auto simp: fs_ok_def)
    let ?u = "u\<lparr>uio_offset := int (b * 512), uio_resid := 512\<rparr>"
    have prod: "b * 512 mod 2 ^ 32 = b * 512" using tv(4) small by (intro mod_less) simp
    have "uio_ok ?u" using u by (auto simp: uio_ok_def uio_addrs_def)
    then have "out_wp (sfs_rwblock (t, ?u))
      (\<lambda>_ (s', u'). \<exists>bs. length bs = 512 \<and> uio_drain bs ?u u' \<and> dev_write b bs t s')
      (\<lambda>e (s', u'). dev_step t s' \<and> uio_fault e ?u u')"
      by (intro sfs_rwblock_write) (use dev u in auto)
    then show ?thesis
    proof (cases rule: out_wp_cases)
      case o: (Ok a x)
      obtain v u1 where x: "x = (v, u1)" by (cases x)
      then obtain bs where bs: "length bs = 512" "uio_drain bs ?u u1" "dev_write b bs t v" using o(2) by auto
      let ?u1 = "u1\<lparr>uio_offset := uio_offset u1 - int (b * 512) + uio_offset u,
          uio_resid := to_u32 (int (uio_resid u1) - int 512 + int (uio_resid u))\<rparr>"
      have dr: "uio_drain bs u ?u1"
        by (rule uio_drain_swap [OF bs(2)]) (use bs(1) u in simp_all)
      have "buf_write (sect t b) (off mod 512) bs = bs" using off(2) bs(1) dev(3) by (simp add: buf_write_all)
      then have w: "vn_wrote s vp sv off bs v tv"
        by (intro vn_wrote_block [OF tv(1,2,3) off(1)]) (use bs off in auto)
      have "sfs_blockio vp (s, u) = Ok () (v, ?u1)"
        using o(1) x Ok(1) tv(3) u lt prod by (simp add: sfs_blockio_def Let_def fileblock_off)
      then show ?thesis using dr w bs(1) by (auto simp: io_writes_def)
    next
      case e: (Err e x)
      obtain v u1 where x: "x = (v, u1)" by (cases x)
      have w: "vn_wrote s vp sv off [] v tv" by (rule vn_wrote_dev [OF tv(1)]) (use e(2) x in simp)
      show ?thesis
        using e x Ok(1) tv(3) u lt prod io_writes_none [OF w]
        by (simp add: sfs_blockio_def Let_def fileblock_off)
    qed
  qed
qed

section \<open>Regions\<close>

text \<open>
  Both directions go over a region the same way: a partial block, whole blocks, a partial block.
  The interface is what one step promises (\<open>does\<close>) and that promises compose; the loop of \<open>sfs_io\<close>
  is verified once, over it.
\<close>

definition io_pre :: "uio_rw \<Rightarrow> sfs_fs \<Rightarrow> vptr \<Rightarrow> sfs_vnode \<Rightarrow> uio \<Rightarrow> nat \<Rightarrow> bool" where
  "io_pre rw s vp sv u off \<longleftrightarrow> fs_ok s \<and> sfs_heap s vp = Some sv \<and> file_ok s (sv_i sv) \<and>
     fs_nblocks s \<le> 2 ^ 23 \<and> uio_ok u \<and> uio_rw u = rw \<and> uio_offset u = int off"

locale region_io =
  fixes rw :: uio_rw
    and does :: "sfs_fs \<Rightarrow> vptr \<Rightarrow> sfs_vnode \<Rightarrow> nat \<Rightarrow> nat \<Rightarrow> uio \<Rightarrow> (unit, sfs_fs \<times> uio) out \<Rightarrow> bool"
  assumes stop_here: "io_pre rw s vp sv u off \<Longrightarrow> does s vp sv off 0 u (Ok () (s, u))"
    and andthen: "does s vp sv off n u m \<Longrightarrow> io_pre rw s vp sv u off \<Longrightarrow>
      (\<And>t tv u1. io_pre rw t vp tv u1 (off + n) \<Longrightarrow> uio_resid u1 = uio_resid u - n \<Longrightarrow>
         does t vp tv (off + n) k u1 (f () (t, u1))) \<Longrightarrow>
      does s vp sv off (n + k) u (kbind m f)"
    and partial_block: "io_pre rw s vp sv u off \<Longrightarrow> off div 512 < 143 \<Longrightarrow> n \<le> uio_resid u \<Longrightarrow>
      off mod 512 + n \<le> 512 \<Longrightarrow> does s vp sv off n u (sfs_partialio vp (off mod 512) n (s, u))"
    and whole_block: "io_pre rw s vp sv u off \<Longrightarrow> off div 512 < 143 \<Longrightarrow> 512 \<le> uio_resid u \<Longrightarrow>
      off mod 512 = 0 \<Longrightarrow> does s vp sv off 512 u (sfs_blockio vp (s, u))"
begin

lemma blocks:
  assumes "io_pre rw s vp sv u off" and "n * 512 \<le> uio_resid u" and "off mod 512 = 0"
    and "off + n * 512 \<le> 143 * 512"
  shows "does s vp sv off (n * 512) u (sfs_io_blocks n vp (s, u))"
  using assms
proof (induction n arbitrary: s sv u off)
  case 0
  then show ?case unfolding mult_0 sfs_io_blocks.simps by (intro stop_here)
next
  case (Suc n)
  have lt: "off div 512 < 143" using Suc.prems(4) by (simp add: div_less_iff_less_mult)
  have "does s vp sv off (512 + n * 512) u (kbind (sfs_blockio vp (s, u)) (\<lambda>_ su. sfs_io_blocks n vp su))"
  proof (rule andthen [OF whole_block])
    fix t tv u1
    assume "io_pre rw t vp tv u1 (off + 512)" "uio_resid u1 = uio_resid u - 512"
    then show "does t vp tv (off + 512) (n * 512) u1 (sfs_io_blocks n vp (t, u1))"
      by (intro Suc.IH) (use Suc.prems in auto)
  qed (use Suc.prems lt in auto)
  then show ?case by simp
qed

lemma aligned:
  assumes pre: "io_pre rw s vp sv u off" and lim: "off + uio_resid u \<le> 143 * 512"
    and al: "uio_resid u > 0 \<Longrightarrow> off mod 512 = 0"
  shows "does s vp sv off (uio_resid u) u (sfs_io_aligned vp (s, u))"
proof (cases "uio_resid u = 0")
  case True
  then have "sfs_io_aligned vp (s, u) = Ok () (s, u)" by (simp add: sfs_io_aligned_def)
  then show ?thesis using stop_here [OF pre] True by metis
next
  case False
  let ?r = "uio_resid u"
  let ?n = "?r div 512"
  have z: "off mod 512 = 0" using al False by simp
  have r: "?n * 512 + ?r mod 512 = ?r" by simp
  have le: "?n * 512 \<le> ?r" using r by linarith
  have "does s vp sv off (?n * 512 + ?r mod 512) u
    (kbind (sfs_io_blocks ?n vp (s, u)) (\<lambda>_ (s, u). kassert (uio_resid u < 512)
            (if uio_resid u > 0 then sfs_partialio vp 0 (uio_resid u) (s, u) else Ok () (s, u))))"
  proof (rule andthen [OF blocks [OF pre le z] pre])
    show "off + ?n * 512 \<le> 143 * 512" using lim le by linarith
    fix t tv u1
    assume t: "io_pre rw t vp tv u1 (off + ?n * 512)" "uio_resid u1 = ?r - ?n * 512"
    have r1: "uio_resid u1 = ?r mod 512" using t(2) by (simp add: minus_div_mult_eq_mod)
    have z1: "(off + ?n * 512) mod 512 = 0" using z by (simp add: mod_add_eq)
    show "does t vp tv (off + ?n * 512) (?r mod 512) u1
      ((\<lambda>(s, u). kassert (uio_resid u < 512)
            (if uio_resid u > 0 then sfs_partialio vp 0 (uio_resid u) (s, u) else Ok () (s, u))) (t, u1))"
    proof (cases "?r mod 512 = 0")
      case True
      then show ?thesis using stop_here [OF t(1)] r1 by simp
    next
      case False
      then have "off + ?n * 512 < 143 * 512" using lim r by linarith
      then have "(off + ?n * 512) div 512 < 143" by (simp only: div_less_iff_less_mult zero_less_numeral)
      from partial_block [OF t(1) this, of "?r mod 512"] show ?thesis
        using False r1 z1 by (simp add: less_imp_le)
    qed
  qed
  then show ?thesis
    using False pre z smod_int_nat [of off 512] by (simp add: sfs_io_aligned_def io_pre_def)
qed

lemma region:
  assumes pre: "io_pre rw s vp sv u off" and lim: "off + uio_resid u \<le> 143 * 512" "off < 143 * 512"
  shows "does s vp sv off (uio_resid u) u (sfs_io_region vp (s, u))"
proof -
  let ?r = "uio_resid u"
  define k where "k = (if off mod 512 = 0 then 0 else if 512 - off mod 512 > ?r then ?r else 512 - off mod 512)"
  have k: "k \<le> ?r" "off mod 512 + k \<le> 512" "off div 512 < 143"
    using lim by (auto simp: k_def div_less_iff_less_mult)
  have al: "(off + k) mod 512 = 0" if "?r - k > 0"
  proof (cases "off mod 512 = 0")
    case False
    have "k = 512 - off mod 512" using that False by (auto simp: k_def split: if_splits)
    then have "off + k = 512 * (off div 512) + 512"
      using mult_div_mod_eq [of 512 off] mod_less_divisor [of 512 off] by linarith
    then show ?thesis by simp
  qed (simp add: k_def)
  let ?head = "if off mod 512 \<noteq> 0 then sfs_partialio vp (off mod 512) k (s, u) else Ok () (s, u)"
  have "does s vp sv off k u ?head"
  proof (cases "off mod 512 = 0")
    case True
    then show ?thesis by (simp add: k_def) (rule stop_here [OF pre])
  next
    case False
    then show ?thesis using partial_block [OF pre k(3,1,2)] by simp
  qed
  then have "does s vp sv off (k + (?r - k)) u (kbind ?head (\<lambda>_ su. sfs_io_aligned vp su))"
  proof (rule andthen [OF _ pre])
    fix t tv u1
    assume t: "io_pre rw t vp tv u1 (off + k)" "uio_resid u1 = ?r - k"
    show "does t vp tv (off + k) (?r - k) u1 (sfs_io_aligned vp (t, u1))"
      unfolding t(2) [symmetric] by (rule aligned [OF t(1)]) (use t(2) lim k al in simp_all)
  qed
  moreover have "sfs_io_region vp (s, u) = kbind ?head (\<lambda>_ su. sfs_io_aligned vp su)"
    using pre by (auto simp: sfs_io_region_def io_pre_def Let_def blkoff_off k_def less_imp_le)
  ultimately show ?thesis using k(1) by simp
qed

end

interpretation rd: region_io UIO_READ "\<lambda>s vp sv. io_reads s (sv_i sv)"
proof unfold_locales
  fix s vp sv off n u m k f
  assume m: "io_reads s (sv_i sv) off n u m" and pre: "io_pre UIO_READ s vp sv u off"
    and f: "\<And>t tv u1. io_pre UIO_READ t vp tv u1 (off + n) \<Longrightarrow> uio_resid u1 = uio_resid u - n \<Longrightarrow>
      io_reads t (sv_i tv) (off + n) k u1 (f () (t, u1))"
  show "io_reads s (sv_i sv) off (n + k) u (kbind m f)"
  proof (rule io_reads_bind [OF m])
    fix t u1
    assume t: "dev_step s t" "uio_fill (map (file_byte s (sv_i sv)) [off..<off + n]) u u1"
    note d = dev_step_sel [OF t(1)] and fr = uio_fill_frame [OF t(2)]
    show "io_reads t (sv_i sv) (off + n) k u1 (f () (t, u1))"
      by (rule f) (use pre d fr dev_step_view(3) [OF t(1)] in \<open>auto simp: io_pre_def\<close>)
  qed
qed (auto simp: io_pre_def intro!: io_reads_0 partialio_read_wp [folded io_reads_def]
    blockio_read_wp [folded io_reads_def])

interpretation wr: region_io UIO_WRITE io_writes
proof unfold_locales
  fix s vp sv off n u m k f
  assume m: "io_writes s vp sv off n u m" and pre: "io_pre UIO_WRITE s vp sv u off"
    and f: "\<And>t tv u1. io_pre UIO_WRITE t vp tv u1 (off + n) \<Longrightarrow> uio_resid u1 = uio_resid u - n \<Longrightarrow>
      io_writes t vp tv (off + n) k u1 (f () (t, u1))"
  show "io_writes s vp sv off (n + k) u (kbind m f)"
  proof (rule io_writes_bind [OF m])
    fix bs t tv u1
    assume t: "length bs = n" "uio_drain bs u u1" "vn_wrote s vp sv off bs t tv"
    note w = vn_wrote_ok [OF t(3)] and fr = uio_drain_frame [OF t(2)]
    show "io_writes t vp tv (off + n) k u1 (f () (t, u1))"
      by (rule f) (use pre w fr t(1) in \<open>auto simp: io_pre_def\<close>)
  qed
qed (auto simp: io_pre_def intro!: io_writes_0 partialio_write blockio_write)

section \<open>The whole operation\<close>

text \<open>The part of a request that lies beyond the end of the file is put back at the end.\<close>

lemma uio_fill_extra:
  assumes "uio_fill bs (u\<lparr>uio_resid := r\<rparr>) u'" and "r = length bs" and "uio_ok u" and "r \<le> uio_resid u"
  shows "uio_fill bs u (u'\<lparr>uio_resid := wadd32 (uio_resid u') (uio_resid u - r)\<rparr>)"
  using assms by (auto simp: uio_fill_def uio_addrs_def uio_ok_def)

abbreviation file_size :: "sfs_inode \<Rightarrow> nat" where
  "file_size i \<equiv> unat (sfi_size i)"

text \<open>The bytes a read of \<open>n\<close> bytes at \<open>off\<close> delivers: those before the end of the file.\<close>

definition file_read :: "sfs_fs \<Rightarrow> sfs_inode \<Rightarrow> nat \<Rightarrow> nat \<Rightarrow> u8 list" where
  "file_read s i off n = map (file_byte s i) [off..<min (off + n) (file_size i)]"

lemma sfs_io_read_wp:
  assumes s: "fs_ok s" "sfs_heap s vp = Some sv" "file_ok s (sv_i sv)" "fs_nblocks s \<le> 2 ^ 23"
    and sz: "file_size (sv_i sv) \<le> 143 * 512"
    and u: "uio_ok u" "uio_rw u = UIO_READ" "uio_offset u = int off"
  shows "out_wp (sfs_io vp (s, u))
    (\<lambda>_ (s', u'). dev_step s s' \<and> uio_fill (file_read s (sv_i sv) off (uio_resid u)) u u')
    (\<lambda>e (s', u'). dev_step s s' \<and> uio_fault e u u')"
proof (cases "file_size (sv_i sv) \<le> off")
  case True
  then show ?thesis using s(2) u
    by (simp add: sfs_io_def vn_get_def Let_def file_read_def del: of_nat_unat)
next
  case lt: False
  let ?i = "sv_i sv" and ?r = "uio_resid u"
  define n where "n = min (off + ?r) (file_size ?i) - off"
  have n: "n \<le> ?r" "off + n \<le> 143 * 512" "off < 143 * 512" "min (off + ?r) (file_size ?i) = off + n"
    using lt sz by (auto simp: n_def)
  have r32: "?r < 2 ^ 32" using u(1) by (simp add: uio_ok_def)
  define extra where "extra = ?r - n"
  have ex: "(if uio_rw u = UIO_READ \<and> uio_offset u + int ?r > int (file_size ?i)
      then to_u32 (uio_offset u + int ?r - int (file_size ?i)) else 0) = extra"
  proof (cases "off + ?r > file_size ?i")
    case True
    then have "uio_offset u + int ?r - int (file_size ?i) = int extra" "extra < 2 ^ 32"
      using lt r32 u(3) by (auto simp: extra_def n_def)
    then show ?thesis using True u by (simp del: of_nat_unat)
  next
    case False
    then show ?thesis using u by (simp add: extra_def n_def del: of_nat_unat)
  qed
  have asr: "extra = 0 \<or> ?r > extra" using lt by (auto simp: extra_def n_def)
  let ?u = "u\<lparr>uio_resid := ?r - extra\<rparr>"
  have r: "?r - extra = n" using n(1) by (simp add: extra_def)
  have "io_reads s ?i off (uio_resid ?u) ?u (sfs_io_region vp (s, ?u))"
    by (rule rd.region) (use s u n r in \<open>auto simp: io_pre_def uio_ok_def uio_addrs_def\<close>)
  then have rd: "out_wp (sfs_io_region vp (s, ?u))
    (\<lambda>_ (s', u'). dev_step s s' \<and> uio_fill (map (file_byte s ?i) [off..<off + n]) ?u u')
    (\<lambda>e (s', u'). dev_step s s' \<and> uio_fault e u u')"
    by (simp add: io_reads_def r)
  have run: "sfs_io vp (s, u) = (case sfs_io_region vp (s, ?u) of
                  Panic \<Rightarrow> Panic
                | Ok _ su \<Rightarrow> sfs_io_out vp extra su
                | Err e su \<Rightarrow> kbind (sfs_io_out vp extra su) (\<lambda>_ su. Err e su))"
  proof -
    have c: "(uio_rw u = UIO_READ \<and> uio_offset u \<ge> int (file_size ?i)) = False"
      using u lt by (simp del: of_nat_unat)
    have "(extra = 0 \<or> ?r > extra) = True" using asr by simp
    then show ?thesis
      unfolding sfs_io_def vn_get_def Let_def
      by (simp only: split_conv s(2) option.case with_uio.simps kbind.simps c if_False ex kassert_True)
  qed
  show ?thesis
    using rd
  proof (cases rule: out_wp_cases)
    case (Ok a x)
    obtain t u1 where x: "x = (t, u1)" by (cases x)
    have t: "dev_step s t" "uio_fill (map (file_byte s ?i) [off..<off + n]) ?u u1" using Ok(2) x by auto
    have "uio_fill (map (file_byte s ?i) [off..<off + n]) u
      (u1\<lparr>uio_resid := wadd32 (uio_resid u1) (?r - n)\<rparr>)"
      by (rule uio_fill_extra) (use t(2) r n u in simp_all)
    then show ?thesis
      using Ok(1) x t dev_step_sel [OF t(1)] s(2) uio_fill_frame(1) [OF t(2)] u(2) n(4)
      by (simp add: run sfs_io_out_def vn_get_def file_read_def extra_def Let_def)
  next
    case (Err e x)
    obtain t u1 where x: "x = (t, u1)" by (cases x)
    have t: "dev_step s t" "uio_fault e u u1" using Err(2) x u(2) by auto
    show ?thesis
      using Err(1) x t dev_step_sel [OF t(1)] s(2) u(2)
      by (simp add: run sfs_io_out_def vn_get_def Let_def)
  qed
qed


text \<open>
  A write delivers every byte or reports why not; in both cases the file keeps its other bytes, and
  its size grows to the end of what the uio covered.
\<close>

definition size_upto :: "sfs_inode \<Rightarrow> int \<Rightarrow> u32" where
  "size_upto i off = (if off > int (file_size i) then word_of_int off else sfi_size i)"

definition wrote_sized ::
  "sfs_fs \<Rightarrow> vptr \<Rightarrow> sfs_vnode \<Rightarrow> nat \<Rightarrow> u8 list \<Rightarrow> int \<Rightarrow> sfs_fs \<Rightarrow> sfs_vnode \<Rightarrow> bool" where
  "wrote_sized s vp sv off bs endoff s' sv' \<longleftrightarrow> sfs_heap s' = (sfs_heap s)(vp \<mapsto> sv') \<and> vn_same sv sv' \<and>
     file_write s (sv_i sv) off bs s' ((sv_i sv')\<lparr>sfi_size := sfi_size (sv_i sv)\<rparr>) \<and>
     sfi_size (sv_i sv') = size_upto (sv_i sv) endoff"

lemma file_write_size [simp]:
  "file_write s i off bs (vn_put vp v t) j = file_write s i off bs t j"
  by (simp add: file_write_def)

lemma sfs_io_out_write:
  assumes w: "vn_wrote s vp sv off bs t tv" and u: "uio_rw u = UIO_WRITE"
  shows "\<exists>t' tv'. sfs_io_out vp 0 (t, u) = Ok () (t', u\<lparr>uio_resid := wadd32 (uio_resid u) 0\<rparr>) \<and>
    wrote_sized s vp sv off bs (uio_offset u) t' tv'"
proof -
  have sz: "sfi_size (sv_i tv) = sfi_size (sv_i sv)" using w by (simp add: vn_wrote_def file_write_def same_meta_def)
  have get: "vn_get vp t = Ok tv t" using vn_wrote_ok(2) [OF w] by (simp add: vn_get_def)
  have same: "(sv_i tv)\<lparr>sfi_size := sfi_size (sv_i sv)\<rparr> = sv_i tv" by (simp flip: sz)
  show ?thesis
  proof (cases "uio_offset u > int (file_size (sv_i sv))")
    case True
    let ?tv = "tv\<lparr>sv_i := (sv_i tv)\<lparr>sfi_size := word_of_int (uio_offset u)\<rparr>, sv_dirty := True\<rparr>"
    have "sfs_io_out vp 0 (t, u) = Ok () (vn_put vp ?tv t, u\<lparr>uio_resid := wadd32 (uio_resid u) 0\<rparr>)"
      using True u get sz by (simp add: sfs_io_out_def del: of_nat_unat)
    moreover have "wrote_sized s vp sv off bs (uio_offset u) (vn_put vp ?tv t) ?tv"
      using w True same vn_same_trans [OF _ vn_same_dirty]
      by (simp add: wrote_sized_def vn_wrote_def size_upto_def del: of_nat_unat)
    ultimately show ?thesis by blast
  next
    case False
    have "sfs_io_out vp 0 (t, u) = Ok () (t, u\<lparr>uio_resid := wadd32 (uio_resid u) 0\<rparr>)"
      using False u get sz by (simp add: sfs_io_out_def Let_def del: of_nat_unat)
    moreover have "wrote_sized s vp sv off bs (uio_offset u) t tv"
      using w False by (simp add: wrote_sized_def vn_wrote_def size_upto_def same sz del: of_nat_unat)
    ultimately show ?thesis by blast
  qed
qed

lemma sfs_io_write_run:
  assumes "sfs_heap s vp = Some sv" and "uio_rw u = UIO_WRITE"
  shows "sfs_io vp (s, u) = (case sfs_io_region vp (s, u) of
      Panic \<Rightarrow> Panic | Ok _ su \<Rightarrow> sfs_io_out vp 0 su
    | Err e su \<Rightarrow> kbind (sfs_io_out vp 0 su) (\<lambda>_ su. Err e su))"
  using assms by (simp add: sfs_io_def vn_get_def)

lemma uio_drain_wadd:
  assumes "uio_drain bs u u'" and "uio_ok u"
  shows "uio_drain bs u (u'\<lparr>uio_resid := wadd32 (uio_resid u') 0\<rparr>)"
proof -
  have "uio_resid u' < 2 ^ 32" using uio_drain_frame(3) [OF assms] by (simp add: uio_ok_def)
  then show ?thesis using assms(1) by simp
qed

lemma sfs_io_write_wp:
  assumes pre: "io_pre UIO_WRITE s vp sv u off" and lim: "off + uio_resid u \<le> 143 * 512" "off < 143 * 512"
  shows "out_wp (sfs_io vp (s, u))
    (\<lambda>_ (s', u'). \<exists>bs sv'. length bs = uio_resid u \<and> uio_drain bs u u' \<and>
       wrote_sized s vp sv off bs (int (off + uio_resid u)) s' sv')
    (\<lambda>e (s', u'). (e = ENOSPC \<or> uio_fault e u u') \<and>
       (\<exists>bs endoff sv'. length bs \<le> uio_resid u \<and> wrote_sized s vp sv off bs endoff s' sv'))"
proof -
  have u: "uio_ok u" "uio_rw u = UIO_WRITE" "uio_offset u = int off" "sfs_heap s vp = Some sv"
    using pre by (auto simp: io_pre_def)
  note run = sfs_io_write_run [OF u(4,2)]
  show ?thesis
    using wr.region [OF pre lim] unfolding io_writes_def
  proof (cases rule: out_wp_cases)
    case (Ok a x)
    obtain t u1 where x: "x = (t, u1)" by (cases x)
    then obtain bs tv where t: "length bs = uio_resid u" "uio_drain bs u u1" "vn_wrote s vp sv off bs t tv"
      using Ok(2) by auto
    note fr = uio_drain_frame [OF t(2)]
    obtain t' tv' where o: "sfs_io_out vp 0 (t, u1) = Ok () (t', u1\<lparr>uio_resid := wadd32 (uio_resid u1) 0\<rparr>)"
      "wrote_sized s vp sv off bs (uio_offset u1) t' tv'"
      using sfs_io_out_write [OF t(3), of u1] fr(1) u(2) by auto
    then show ?thesis
      using Ok(1) x t(1) fr(5) u(3) uio_drain_wadd [OF t(2) u(1)] by (auto simp: run)
  next
    case (Err e x)
    obtain t u1 where x: "x = (t, u1)" by (cases x)
    then obtain bs tv where t: "length bs \<le> uio_resid u" "vn_wrote s vp sv off bs t tv" "uio_rw u1 = uio_rw u"
      "e = ENOSPC \<or> uio_fault e u u1"
      using Err(2) by auto
    obtain t' tv' where "sfs_io_out vp 0 (t, u1) = Ok () (t', u1\<lparr>uio_resid := wadd32 (uio_resid u1) 0\<rparr>)"
      "wrote_sized s vp sv off bs (uio_offset u1) t' tv'"
      using sfs_io_out_write [OF t(2), of u1] t(3) u(2) by auto
    then show ?thesis using Err(1) x t by (auto simp: run)
  qed
qed

text \<open>
  Past the last block a file can have, nothing can be written; yet the size is set to the offset
  of the request before the error is returned.
\<close>

lemma sfs_bmap_toobig:
  assumes "sfs_heap s vp = Some sv" and "143 \<le> fb"
  shows "sfs_bmap vp fb doalloc s = Err EFBIG s"
proof -
  have "(fb - 15) div 128 > 0" using assms(2) by (simp add: div_greater_zero_iff)
  then show ?thesis using assms by (simp add: sfs_bmap_def vn_get_def Let_def)
qed

lemma sfs_io_write_toobig:
  assumes s: "sfs_heap s vp = Some sv" and u: "uio_rw u = UIO_WRITE" "uio_offset u = int off"
    and off: "143 * 512 \<le> off" "off < 2 ^ 32" and r: "0 < uio_resid u" "uio_resid u < 2 ^ 32"
    and sz: "file_size (sv_i sv) < off"
  shows "sfs_io vp (s, u) = Err EFBIG
    (vn_put vp (sv\<lparr>sv_i := (sv_i sv)\<lparr>sfi_size := word_of_nat off\<rparr>, sv_dirty := True\<rparr>) s, u)"
proof -
  have fb: "143 \<le> off div 512" using div_le_mono [OF off(1), of 512] by simp
  note bm = sfs_bmap_toobig [OF s fb]
  have p: "sfs_partialio vp k n (s, u) = Err EFBIG (s, u)" if "k + n \<le> 512" for k n
    using that u off bm by (simp add: sfs_partialio_def Let_def fileblock_off)
  have b: "sfs_blockio vp (s, u) = Err EFBIG (s, u)"
    using u off bm by (simp add: sfs_blockio_def Let_def fileblock_off)
  have blocks: "sfs_io_blocks (Suc n) vp (s, u) = Err EFBIG (s, u)" for n by (simp add: b)
  have al: "sfs_io_aligned vp (s, u) = Err EFBIG (s, u)" if "off mod 512 = 0"
  proof (cases "uio_resid u div 512")
    case 0
    then have "uio_resid u < 512" by (simp add: div_eq_0_iff)
    then show ?thesis using that u r p [of 0 "uio_resid u"] smod_int_nat [of off 512] 0
      by (simp add: sfs_io_aligned_def)
  next
    case (Suc n)
    then show ?thesis using that u r blocks [of n] smod_int_nat [of off 512]
      by (simp add: sfs_io_aligned_def del: sfs_io_blocks.simps)
  qed
  have reg: "sfs_io_region vp (s, u) = Err EFBIG (s, u)"
  proof (cases "off mod 512 = 0")
    case True
    then show ?thesis using u al by (simp add: sfs_io_region_def blkoff_off)
  next
    case False
    let ?n = "if uio_resid u < 512 - off mod 512 then uio_resid u else 512 - off mod 512"
    have "off mod 512 + ?n \<le> 512" using mod_less_divisor [of 512 off] by (auto simp del: mod_less_divisor)
    from p [OF this] show ?thesis
      using False u by (simp add: sfs_io_region_def blkoff_off Let_def less_imp_le)
  qed
  have "int off > int (file_size (sv_i sv))" using sz by (simp del: of_nat_unat)
  moreover have "u\<lparr>uio_resid := wadd32 (uio_resid u) 0\<rparr> = u" using r by simp
  ultimately have "sfs_io_out vp 0 (s, u) = Ok ()
    (vn_put vp (sv\<lparr>sv_i := (sv_i sv)\<lparr>sfi_size := word_of_int (int off)\<rparr>, sv_dirty := True\<rparr>) s, u)"
    using s u by (simp add: sfs_io_out_def vn_get_def del: of_nat_unat)
  then show ?thesis using reg by (simp add: sfs_io_write_run [OF s u(1)])
qed

text \<open>
  A write from kernel memory that stays within one block: all or nothing, and only a full disk can
  make it fail.
\<close>

lemma sfs_io_small_region:
  assumes u: "uio_offset u = int off" and r: "0 < uio_resid u" "uio_resid u < 512"
    and fit: "off mod 512 + uio_resid u \<le> 512"
  shows "sfs_io_region vp (s, u) =
    (if off mod 512 = 0 then sfs_partialio vp (off mod 512) (uio_resid u) (s, u)
     else kbind (sfs_partialio vp (off mod 512) (uio_resid u) (s, u)) (\<lambda>_ su. sfs_io_aligned vp su))"
proof (cases "off mod 512 = 0")
  case True
  then show ?thesis
    using u r smod_int_nat [of off 512] by (simp add: sfs_io_region_def sfs_io_aligned_def to_u32_def)
next
  case False
  have "(if 512 - off mod 512 > uio_resid u then uio_resid u else 512 - off mod 512) = uio_resid u"
    using fit by auto
  then show ?thesis
    using False u by (simp add: sfs_io_region_def blkoff_off Let_def less_imp_le)
qed

lemma sfs_io_small_write:
  assumes pre: "io_pre UIO_WRITE s vp sv u off" and sys: "uio_segflg u = UIO_SYSSPACE"
    and r: "0 < uio_resid u" "uio_resid u < 512"
    and fit: "off mod 512 + uio_resid u \<le> 512" "off + uio_resid u \<le> 143 * 512"
  shows "out_wp (sfs_io vp (s, u))
    (\<lambda>_ (s', u'). \<exists>bs sv'. length bs = uio_resid u \<and> uio_drain bs u u' \<and>
       wrote_sized s vp sv off bs (int (off + uio_resid u)) s' sv')
    (\<lambda>e (s', u'). e = ENOSPC \<and> {..<fs_nblocks s} \<subseteq> fs_used s' \<and> bmap_of s (sv_i sv) (off div 512) = 0 \<and>
       (\<exists>sv'. wrote_sized s vp sv off [] (int off) s' sv'))"
proof -
  have u: "uio_ok u" "uio_rw u = UIO_WRITE" "uio_offset u = int off" "sfs_heap s vp = Some sv"
    "fs_ok s" "file_ok s (sv_i sv)"
    using pre by (auto simp: io_pre_def)
  have lt: "off div 512 < 143" using fit(2) r(1) by (simp add: div_less_iff_less_mult)
  note run = sfs_io_write_run [OF u(4,2)] sfs_io_small_region [OF u(3) r fit(1)]
  show ?thesis
    using partialio_write_wp [OF u(5,4,6) u(1-3) order.refl lt refl fit(1)]
  proof (cases rule: out_wp_cases)
    case (Ok a x)
    obtain t u1 where x: "x = (t, u1)" by (cases x)
    then obtain bs tv where t: "length bs = uio_resid u" "uio_drain bs u u1" "vn_wrote s vp sv off bs t tv"
      using Ok(2) by auto
    note fr = uio_drain_frame [OF t(2)]
    have z: "uio_resid u1 = 0" using fr(4) t(1) by simp
    obtain t' tv' where o: "sfs_io_out vp 0 (t, u1) = Ok () (t', u1\<lparr>uio_resid := wadd32 (uio_resid u1) 0\<rparr>)"
      "wrote_sized s vp sv off bs (uio_offset u1) t' tv'"
      using sfs_io_out_write [OF t(3), of u1] fr(1) u(2) by auto
    have "sfs_io vp (s, u) = Ok () (t', u1\<lparr>uio_resid := wadd32 (uio_resid u1) 0\<rparr>)"
      using Ok(1) x z o(1) by (cases "off mod 512 = 0") (simp_all add: run sfs_io_aligned_def)
    moreover have "wrote_sized s vp sv off bs (int (off + uio_resid u)) t' tv'"
      using o(2) fr(5) t(1) u(3) by simp
    moreover note uio_drain_wadd [OF t(2) u(1)]
    ultimately show ?thesis
      using t(1) by (simp del: of_nat_add wadd32_less) blast
  next
    case (Err e x)
    obtain t u1 where x: "x = (t, u1)" by (cases x)
    then obtain tv where t: "vn_wrote s vp sv off [] t tv" "e = ENOSPC" "u1 = u"
      "{..<fs_nblocks s} \<subseteq> fs_used t" "bmap_of s (sv_i sv) (off div 512) = 0"
      using Err(2) sys by auto
    obtain t' tv' where o: "sfs_io_out vp 0 (t, u) = Ok () (t', u\<lparr>uio_resid := wadd32 (uio_resid u) 0\<rparr>)"
      "wrote_sized s vp sv off [] (uio_offset u) t' tv'"
      using sfs_io_out_write [OF t(1), of u] u(2) by auto
    have "sfs_freemap t' = sfs_freemap t"
      using o(1) by (auto simp: sfs_io_out_def vn_get_def Let_def split: option.splits if_splits)
    then show ?thesis using Err(1) x t o u(3) by (auto simp: run)
  qed
qed

end
