(* ===== verification/SfsDir.thy ===== *)
theory SfsDir
  imports SfsFile
begin

text \<open>
  Directory I/O of \<open>kern/fs/sfs/sfs_vnode.c\<close>: entries are 64-byte records of the directory's file.
  The abstract directory is the list of its entries, and a partial map from names to inode numbers;
  linking and unlinking update that map and nothing else.
\<close>

section \<open>Operations\<close>

text \<open>A C string in an array of characters ends at the first zero byte.\<close>

definition cstr :: "u8 list \<Rightarrow> u8 list" where
  "cstr bs = takeWhile (\<lambda>c. c \<noteq> 0) bs"

text \<open>\<open>slot * sizeof(struct sfs_dir)\<close> is a product of \<open>size_t\<close> width.\<close>

definition dir_pos :: "nat \<Rightarrow> int" where
  "dir_pos slot = int ((slot * 64) mod 2 ^ 32)"

definition sfs_readdir :: "vptr \<Rightarrow> nat \<Rightarrow> sfs_fs \<Rightarrow> (sfs_dir, sfs_fs) out" where
  "sfs_readdir vp slot s =
     (case sfs_io vp (s, uio_kinit (\<lambda>_. 0) 0 64 (dir_pos slot) UIO_READ) of
        Panic \<Rightarrow> Panic
      | Err e (s, u) \<Rightarrow> Err e s
      | Ok _ (s, u) \<Rightarrow>
          if uio_resid u > 0 then Panic
          else Ok (dir_of_bytes (mem_read (us_mem (uio_mem u)) 0 64)) s)"

definition sfs_writedir :: "vptr \<Rightarrow> sfs_dir \<Rightarrow> nat \<Rightarrow> sfs_fs \<Rightarrow> (unit, sfs_fs) out" where
  "sfs_writedir vp sd slot s =
     (case sfs_io vp (s, uio_kinit (mem_write (\<lambda>_. 0) 0 (dir_bytes sd)) 0 64 (dir_pos slot) UIO_WRITE) of
        Panic \<Rightarrow> Panic
      | Err e (s, u) \<Rightarrow> Err e s
      | Ok _ (s, u) \<Rightarrow> if uio_resid u > 0 then Panic else Ok () s)"

definition sfs_dir_nentries :: "vptr \<Rightarrow> sfs_fs \<Rightarrow> (nat, sfs_fs) out" where
  "sfs_dir_nentries vp s =
     kbind (vn_get vp s) (\<lambda>sv s.
       kassert (sfi_type (sv_i sv) = SFS_TYPE_DIR)
         (let size = unat (sfi_size (sv_i sv)) in
          if size mod 64 \<noteq> 0 then Panic else Ok (size div 64) s))"

text \<open>
  The loop of \<open>sfs_dir_findname\<close> over the slots \<open>i\<close>, \<open>i + 1\<close>, \<dots>. \<open>found\<close> holds the inode number and
  the slot of the name once it was seen, \<open>emptyslot\<close> the empty slot seen last. The result \<open>found = None\<close>
  is the error \<open>ENOENT\<close>, kept as a value because callers use \<open>emptyslot\<close> in that case.
\<close>

fun findname_loop ::
  "nat \<Rightarrow> nat \<Rightarrow> vptr \<Rightarrow> u8 list \<Rightarrow> (nat \<times> nat) option \<Rightarrow> nat option \<Rightarrow> sfs_fs \<Rightarrow>
   ((nat \<times> nat) option \<times> nat option, sfs_fs) out" where
  "findname_loop i 0 vp name found emptyslot s = Ok (found, emptyslot) s"
| "findname_loop i (Suc n) vp name found emptyslot s =
     kbind (sfs_readdir vp i s) (\<lambda>tsd s.
       if sfd_ino tsd = SFS_NOINO
       then findname_loop (Suc i) n vp name found (Some i) s
       else if cstr ((sfd_name tsd)[SFS_NAMELEN - 1 := 0]) = name
       then kassert (found = None)
              (findname_loop (Suc i) n vp name (Some (unat (sfd_ino tsd), i)) emptyslot s)
       else findname_loop (Suc i) n vp name found emptyslot s)"

definition sfs_dir_findname ::
  "vptr \<Rightarrow> u8 list \<Rightarrow> sfs_fs \<Rightarrow> ((nat \<times> nat) option \<times> nat option, sfs_fs) out" where
  "sfs_dir_findname vp name s =
     kbind (sfs_dir_nentries vp s) (\<lambda>nentries s. findname_loop 0 nentries vp name None None s)"

definition sfs_dir_link :: "vptr \<Rightarrow> u8 list \<Rightarrow> nat \<Rightarrow> sfs_fs \<Rightarrow> (nat, sfs_fs) out" where
  "sfs_dir_link vp name ino s =
     kbind (sfs_dir_findname vp name s) (\<lambda>(found, emptyslot) s.
       if found \<noteq> None then Err EEXIST s
       else if length name + 1 > SFS_NAMELEN then Err ENAMETOOLONG s
       else
         kbind (case emptyslot of Some slot \<Rightarrow> Ok slot s | None \<Rightarrow> sfs_dir_nentries vp s) (\<lambda>slot s.
         kbind (sfs_writedir vp \<lparr>sfd_ino = word_of_nat ino,
                                 sfd_name = name @ replicate (SFS_NAMELEN - length name) 0\<rparr> slot s)
           (\<lambda>_ s. Ok slot s)))"

definition sfs_dir_unlink :: "vptr \<Rightarrow> nat \<Rightarrow> sfs_fs \<Rightarrow> (unit, sfs_fs) out" where
  "sfs_dir_unlink vp slot s =
     sfs_writedir vp \<lparr>sfd_ino = SFS_NOINO, sfd_name = replicate SFS_NAMELEN 0\<rparr> slot s"

section \<open>The abstract directory\<close>

definition dlive :: "sfs_dir \<Rightarrow> bool" where
  "dlive d \<longleftrightarrow> sfd_ino d \<noteq> 0"

definition dname :: "sfs_dir \<Rightarrow> u8 list" where
  "dname d = cstr ((sfd_name d)[59 := 0])"

text \<open>Where a name is found and which empty slot is reported, on a list of entries.\<close>

definition dir_found :: "u8 list \<Rightarrow> sfs_dir list \<Rightarrow> (nat \<times> nat) option" where
  "dir_found name ds = (case filter (\<lambda>k. dlive (ds ! k) \<and> dname (ds ! k) = name) [0..<length ds] of
     [] \<Rightarrow> None | k # _ \<Rightarrow> Some (unat (sfd_ino (ds ! k)), k))"

definition dir_empty :: "sfs_dir list \<Rightarrow> nat option" where
  "dir_empty ds = (case rev (filter (\<lambda>k. \<not> dlive (ds ! k)) [0..<length ds]) of [] \<Rightarrow> None | k # _ \<Rightarrow> Some k)"

definition dir_unique :: "sfs_dir list \<Rightarrow> bool" where
  "dir_unique ds \<longleftrightarrow> (\<forall>j<length ds. \<forall>k<length ds.
     dlive (ds ! j) \<longrightarrow> dlive (ds ! k) \<longrightarrow> dname (ds ! j) = dname (ds ! k) \<longrightarrow> j = k)"

definition dir_map :: "sfs_dir list \<Rightarrow> u8 list \<Rightarrow> nat option" where
  "dir_map ds name = map_option fst (dir_found name ds)"

lemma filter_upt_snoc:
  "filter (\<lambda>k. P ((ds @ [d]) ! k)) [0..<length (ds @ [d])] =
   filter (\<lambda>k. P (ds ! k)) [0..<length ds] @ (if P d then [length ds] else [])"
proof -
  have "filter (\<lambda>k. P ((ds @ [d]) ! k)) [0..<length ds] = filter (\<lambda>k. P (ds ! k)) [0..<length ds]"
    by (rule filter_cong) (auto simp: nth_append)
  then show ?thesis by simp
qed

lemma dir_found_snoc:
  "dir_found name (ds @ [d]) = (case dir_found name ds of
     Some x \<Rightarrow> Some x
   | None \<Rightarrow> if dlive d \<and> dname d = name then Some (unat (sfd_ino d), length ds) else None)"
proof (cases "filter (\<lambda>k. dlive (ds ! k) \<and> dname (ds ! k) = name) [0..<length ds]")
  case Nil
  then show ?thesis
    unfolding dir_found_def filter_upt_snoc [where P = "\<lambda>d. dlive d \<and> dname d = name"] by simp
next
  case (Cons k ks)
  then have "k \<in> set (filter (\<lambda>k. dlive (ds ! k) \<and> dname (ds ! k) = name) [0..<length ds])" by simp
  then have "k < length ds" by simp
  then show ?thesis
    unfolding dir_found_def filter_upt_snoc [where P = "\<lambda>d. dlive d \<and> dname d = name"] Cons
    by (simp add: nth_append)
qed

lemma dir_empty_snoc:
  "dir_empty (ds @ [d]) = (if dlive d then dir_empty ds else Some (length ds))"
  unfolding dir_empty_def filter_upt_snoc [where P = "\<lambda>d. \<not> dlive d"] by simp

lemma dir_found_Nil [simp]: "dir_found name [] = None"
  by (simp add: dir_found_def)

lemma dir_empty_Nil [simp]: "dir_empty [] = None"
  by (simp add: dir_empty_def)

lemma dir_found_None: "dir_found name ds = None \<longleftrightarrow> (\<forall>k<length ds. dlive (ds ! k) \<longrightarrow> dname (ds ! k) \<noteq> name)"
proof -
  have "dir_found name ds = None \<longleftrightarrow>
    filter (\<lambda>k. dlive (ds ! k) \<and> dname (ds ! k) = name) [0..<length ds] = []"
    by (simp add: dir_found_def split: list.splits)
  then show ?thesis by (auto simp: filter_empty_conv)
qed

lemma dir_found_SomeD:
  assumes "dir_found name ds = Some (ino, k)"
  shows "k < length ds" "dlive (ds ! k)" "dname (ds ! k) = name" "ino = unat (sfd_ino (ds ! k))"
proof -
  obtain ks where e: "filter (\<lambda>k. dlive (ds ! k) \<and> dname (ds ! k) = name) [0..<length ds] = k # ks"
    "ino = unat (sfd_ino (ds ! k))"
    using assms by (auto simp: dir_found_def split: list.splits)
  then have "k \<in> set (filter (\<lambda>k. dlive (ds ! k) \<and> dname (ds ! k) = name) [0..<length ds])" by simp
  then show "k < length ds" "dlive (ds ! k)" "dname (ds ! k) = name" "ino = unat (sfd_ino (ds ! k))"
    using e(2) by auto
qed

lemma dir_empty_SomeD:
  assumes "dir_empty ds = Some k"
  shows "k < length ds" "\<not> dlive (ds ! k)"
proof -
  obtain ks where "rev (filter (\<lambda>k. \<not> dlive (ds ! k)) [0..<length ds]) = k # ks"
    using assms by (auto simp: dir_empty_def split: list.splits)
  then have "k \<in> set (rev (filter (\<lambda>k. \<not> dlive (ds ! k)) [0..<length ds]))" by simp
  then show "k < length ds" "\<not> dlive (ds ! k)" by auto
qed

lemma dir_map_iff:
  assumes "dir_unique ds"
  shows "dir_map ds name = Some ino \<longleftrightarrow>
    (\<exists>k<length ds. dlive (ds ! k) \<and> dname (ds ! k) = name \<and> ino = unat (sfd_ino (ds ! k)))"
proof (cases "dir_found name ds")
  case None
  moreover from None have "dir_map ds name = None" by (simp add: dir_map_def)
  ultimately show ?thesis by (auto simp: dir_found_None)
next
  case (Some x)
  obtain i k where x: "x = (i, k)" by (cases x)
  note f = dir_found_SomeD [OF Some [unfolded x]]
  have "j = k" if "j < length ds" "dlive (ds ! j)" "dname (ds ! j) = name" for j
    using that f assms by (simp add: dir_unique_def)
  moreover have "dir_map ds name = Some (unat (sfd_ino (ds ! k)))"
    using Some x f(4) by (simp add: dir_map_def)
  ultimately show ?thesis using f(1-3) by (metis option.inject)
qed

text \<open>Storing an entry: in an existing slot, or as a new one at the end.\<close>

definition dir_put :: "sfs_dir list \<Rightarrow> nat \<Rightarrow> sfs_dir \<Rightarrow> sfs_dir list" where
  "dir_put ds k d = (if k < length ds then ds[k := d] else ds @ [d])"

lemma dir_put_nth:
  assumes "k \<le> length ds"
  shows "j < length (dir_put ds k d) \<longleftrightarrow> j < length ds \<or> j = k"
    and "j < length (dir_put ds k d) \<Longrightarrow> dir_put ds k d ! j = (if j = k then d else ds ! j)"
  using assms by (auto simp: dir_put_def nth_append nth_list_update)

lemma dir_put_ex:
  assumes "k \<le> length ds"
  shows "(\<exists>j<length (dir_put ds k d). P (dir_put ds k d ! j)) \<longleftrightarrow> P d \<or> (\<exists>j<length ds. j \<noteq> k \<and> P (ds ! j))"
    (is "?l \<longleftrightarrow> ?r")
proof
  assume ?l
  then obtain j where "j < length (dir_put ds k d)" "P (dir_put ds k d ! j)" by blast
  then show ?r using dir_put_nth [OF assms] by (cases "j = k") auto
next
  assume ?r
  then consider "P d" | j where "j < length ds" "j \<noteq> k" "P (ds ! j)" by blast
  then show ?l
  proof cases
    case 1
    then show ?thesis using dir_put_nth [OF assms, of k d] by (intro exI [of _ k]) auto
  next
    case 2
    then show ?thesis using dir_put_nth [OF assms, of j d] by (intro exI [of _ j]) auto
  qed
qed

lemma dir_put_live:
  assumes u: "dir_unique ds" and k: "k \<le> length ds" and free: "k < length ds \<Longrightarrow> \<not> dlive (ds ! k)"
    and new: "dir_found (dname d) ds = None" and d: "dlive d"
  shows "dir_unique (dir_put ds k d)" "dir_map (dir_put ds k d) = (dir_map ds)(dname d \<mapsto> unat (sfd_ino d))"
proof -
  note put = dir_put_nth [OF k]
  have no: "dname (ds ! j) \<noteq> dname d" if "j < length ds" "dlive (ds ! j)" for j
    using new that by (simp add: dir_found_None)
  show u': "dir_unique (dir_put ds k d)"
    unfolding dir_unique_def
  proof (intro allI impI)
    fix i j
    assume ij: "i < length (dir_put ds k d)" "j < length (dir_put ds k d)" "dlive (dir_put ds k d ! i)"
      "dlive (dir_put ds k d ! j)" "dname (dir_put ds k d ! i) = dname (dir_put ds k d ! j)"
    show "i = j"
    proof (cases "i = k"; cases "j = k")
      assume "i \<noteq> k" "j \<noteq> k"
      then show "i = j" using ij u by (auto simp: put dir_unique_def)
    qed (use ij no put in auto)
  qed
  show "dir_map (dir_put ds k d) = (dir_map ds)(dname d \<mapsto> unat (sfd_ino d))"
  proof (rule ext)
    fix n
    have "dir_map (dir_put ds k d) n = Some x \<longleftrightarrow> ((dir_map ds)(dname d \<mapsto> unat (sfd_ino d))) n = Some x" for x
    proof (cases "n = dname d")
      case True
      have "dir_map (dir_put ds k d) n = Some x \<longleftrightarrow> x = unat (sfd_ino d)"
        unfolding dir_map_iff [OF u'] dir_put_ex [OF k, where P = "\<lambda>d. dlive d \<and> dname d = n \<and> x = unat (sfd_ino d)"] using True d no by blast
      then show ?thesis using True by auto
    next
      case False
      have "j \<noteq> k" if "j < length ds" "dlive (ds ! j)" for j using that free by auto
      then show ?thesis
        unfolding dir_map_iff [OF u'] dir_put_ex [OF k, where P = "\<lambda>d. dlive d \<and> dname d = n \<and> x = unat (sfd_ino d)"] fun_upd_other [OF False] dir_map_iff [OF u]
        using False by blast
    qed
    then show "dir_map (dir_put ds k d) n = ((dir_map ds)(dname d \<mapsto> unat (sfd_ino d))) n"
      by (metis option.exhaust)
  qed
qed

lemma dir_put_dead:
  assumes u: "dir_unique ds" and f: "dir_found name ds = Some (ino, k)" and d: "\<not> dlive d"
  shows "dir_unique (dir_put ds k d)" "dir_map (dir_put ds k d) = (dir_map ds)(name := None)"
proof -
  note fd = dir_found_SomeD [OF f]
  have k: "k \<le> length ds" using fd(1) by simp
  have len: "length (dir_put ds k d) = length ds" using fd(1) by (simp add: dir_put_def)
  have nth: "dir_put ds k d ! j = (if j = k then d else ds ! j)" if "j < length ds" for j
    using dir_put_nth(2) [OF k] that len by simp
  show u': "dir_unique (dir_put ds k d)"
    using u d by (auto simp: dir_unique_def len nth split: if_splits)
  have only: "j = k" if "j < length ds" "dlive (ds ! j)" "dname (ds ! j) = name" for j
    using that u fd by (auto simp: dir_unique_def)
  show "dir_map (dir_put ds k d) = (dir_map ds)(name := None)"
  proof (rule ext)
    fix n
    have "dir_map (dir_put ds k d) n = Some x \<longleftrightarrow> ((dir_map ds)(name := None)) n = Some x" for x
    proof (cases "n = name")
      case True
      have "\<not> (\<exists>j<length ds. j \<noteq> k \<and> dlive (ds ! j) \<and> dname (ds ! j) = n \<and> x = unat (sfd_ino (ds ! j)))"
        using only True by blast
      then have "dir_map (dir_put ds k d) n \<noteq> Some x"
        unfolding dir_map_iff [OF u'] dir_put_ex [OF k, where P = "\<lambda>d. dlive d \<and> dname d = n \<and> x = unat (sfd_ino d)"] using d by blast
      then show ?thesis using True by simp
    next
      case False
      then show ?thesis
        unfolding dir_map_iff [OF u'] dir_put_ex [OF k, where P = "\<lambda>d. dlive d \<and> dname d = n \<and> x = unat (sfd_ino d)"] fun_upd_other [OF False] dir_map_iff [OF u]
        using d fd(3) by blast
    qed
    then show "dir_map (dir_put ds k d) n = ((dir_map ds)(name := None)) n"
      by (metis option.exhaust)
  qed
qed

section \<open>Reading entries\<close>

text \<open>
  A directory that can be worked on, and its entries: the 64-byte records of its file. The bound on
  the size is that of the largest file.
\<close>

definition dir_ok :: "sfs_fs \<Rightarrow> sfs_inode \<Rightarrow> bool" where
  "dir_ok s i \<longleftrightarrow> fs_ok s \<and> file_ok s i \<and> fs_nblocks s \<le> 2 ^ 23 \<and> sfi_type i = SFS_TYPE_DIR \<and>
     file_size i mod 64 = 0 \<and> file_size i \<le> 143 * 512"

definition dir_nslots :: "sfs_inode \<Rightarrow> nat" where
  "dir_nslots i = file_size i div 64"

definition slot_of :: "(nat \<Rightarrow> u8) \<Rightarrow> nat \<Rightarrow> sfs_dir" where
  "slot_of f k = dir_of_bytes (map f [k * 64..<k * 64 + 64])"

definition dir_slots :: "sfs_fs \<Rightarrow> sfs_inode \<Rightarrow> sfs_dir list" where
  "dir_slots s i = map (slot_of (file_byte s i)) [0..<dir_nslots i]"

lemma length_dir_slots [simp]: "length (dir_slots s i) = dir_nslots i"
  by (simp add: dir_slots_def)

lemma dir_slots_nth: "k < dir_nslots i \<Longrightarrow> dir_slots s i ! k = slot_of (file_byte s i) k"
  by (simp add: dir_slots_def)

lemma dir_ok_size:
  assumes "dir_ok s i"
  shows "file_size i = dir_nslots i * 64" "dir_nslots i \<le> 1144"
proof -
  show "file_size i = dir_nslots i * 64"
    using assms div_mult_mod_eq [of "file_size i" 64] by (simp add: dir_ok_def dir_nslots_def)
  then show "dir_nslots i \<le> 1144" using assms by (simp add: dir_ok_def)
qed

lemma dir_pos_small: "slot < 2 ^ 26 \<Longrightarrow> dir_pos slot = int (slot * 64)"
  by (simp add: dir_pos_def)

lemma dir_ok_dev:
  assumes d: "dev_step s t" and ok: "dir_ok s i"
  shows "dir_ok t i" "dir_slots t i = dir_slots s i"
proof -
  have "fs_ok t" "file_ok t i" "file_byte t i = file_byte s i" "sfs_super t = sfs_super s"
    using dev_step_view [OF d] dev_step_sel [OF d] ok by (auto simp: dir_ok_def)
  then show "dir_ok t i" "dir_slots t i = dir_slots s i" using ok by (auto simp: dir_ok_def dir_slots_def)
qed

lemma sfs_readdir_wp:
  assumes ok: "dir_ok s (sv_i sv)" and vp: "sfs_heap s vp = Some sv" and k: "k < dir_nslots (sv_i sv)"
  shows "out_wp (sfs_readdir vp k s) (\<lambda>d s'. d = dir_slots s (sv_i sv) ! k \<and> dev_step s s') (\<lambda>_ _. False)"
proof -
  let ?u = "uio_kinit (\<lambda>_. 0) 0 64 (dir_pos k) UIO_READ" and ?i = "sv_i sv"
  have pos: "dir_pos k = int (k * 64)" using k dir_ok_size(2) [OF ok] by (simp add: dir_pos_small)
  have rd: "file_read s ?i (k * 64) 64 = map (file_byte s ?i) [k * 64..<k * 64 + 64]"
    using k dir_ok_size(1) [OF ok] by (simp add: file_read_def min_def)
  have "out_wp (sfs_io vp (s, ?u))
    (\<lambda>_ (s', u'). dev_step s s' \<and> uio_fill (file_read s ?i (k * 64) (uio_resid ?u)) ?u u')
    (\<lambda>e (s', u'). dev_step s s' \<and> uio_fault e ?u u')"
    by (rule sfs_io_read_wp) (use ok vp pos in \<open>auto simp: dir_ok_def\<close>)
  then show ?thesis
  proof (cases rule: out_wp_cases)
    case (Ok a x)
    obtain t u where x: "x = (t, u)" by (cases x)
    let ?bs = "map (file_byte s ?i) [k * 64..<k * 64 + 64]"
    have t: "dev_step s t" "uio_fill ?bs ?u u" using Ok(2) x by (simp_all add: rd)
    have "us_mem (uio_mem u) = mem_store (\<lambda>_. 0) [0..<64] ?bs" using t(2) by (auto simp: uio_fill_def)
    then have "mem_read (us_mem (uio_mem u)) 0 64 = ?bs" by (simp add: mem_read_def)
    then show ?thesis
      using Ok(1) x t uio_fill_frame(4) [OF t(2)] k by (simp add: sfs_readdir_def dir_slots_nth slot_of_def)
  qed auto
qed

text \<open>The search over a directory with unique names finds what the list of entries says.\<close>

lemma findname_loop_wp:
  assumes "dir_ok s (sv_i sv)" and "sfs_heap s vp = Some sv" and "i + n = dir_nslots (sv_i sv)"
    and "dir_unique (dir_slots s (sv_i sv))"
    and "found = dir_found name (take i (dir_slots s (sv_i sv)))"
    and "emptyslot = dir_empty (take i (dir_slots s (sv_i sv)))"
  shows "out_wp (findname_loop i n vp name found emptyslot s)
    (\<lambda>r s'. r = (dir_found name (dir_slots s (sv_i sv)), dir_empty (dir_slots s (sv_i sv))) \<and> dev_step s s')
    (\<lambda>_ _. False)"
  using assms
proof (induction n arbitrary: i found emptyslot s)
  case 0
  then show ?case by simp
next
  case (Suc n)
  let ?ds = "dir_slots s (sv_i sv)"
  have i: "i < dir_nslots (sv_i sv)" using Suc.prems(3) by simp
  have tk: "take (Suc i) ?ds = take i ?ds @ [?ds ! i]" using i by (simp add: take_Suc_conv_app_nth)
  have len: "min (dir_nslots (sv_i sv)) i = i" using i by simp
  have nodup: "found = None" if "dlive (?ds ! i)" "dname (?ds ! i) = name"
  proof (rule ccontr)
    assume "found \<noteq> None"
    then obtain ino k where "dir_found name (take i ?ds) = Some (ino, k)" using Suc.prems(5) by fastforce
    note f = dir_found_SomeD [OF this]
    then have "k < i" "dlive (?ds ! k)" "dname (?ds ! k) = name" using i by auto
    moreover have "k < length ?ds" "i < length ?ds" using \<open>k < i\<close> i by simp_all
    ultimately have "k = i" using Suc.prems(4) that unfolding dir_unique_def by blast
    then show False using \<open>k < i\<close> by simp
  qed
  show ?case
    using sfs_readdir_wp [OF Suc.prems(1,2) i]
  proof (cases rule: out_wp_cases)
    case (Ok d t)
    note ok = dir_ok_dev [OF conjunct2 [OF Ok(2)] Suc.prems(1)]
    have ih: "out_wp (findname_loop (Suc i) n vp name (dir_found name (take (Suc i) ?ds)) (dir_empty (take (Suc i) ?ds)) t)
      (\<lambda>r s'. r = (dir_found name ?ds, dir_empty ?ds) \<and> dev_step t s') (\<lambda>_ _. False)"
      unfolding ok(2) [symmetric]
      by (rule Suc.IH) (use Suc.prems ok dev_step_sel(2) [OF conjunct2 [OF Ok(2)]] in auto)
    have step: "findname_loop i (Suc n) vp name found emptyslot s =
      findname_loop (Suc i) n vp name (dir_found name (take (Suc i) ?ds)) (dir_empty (take (Suc i) ?ds)) t"
      using Ok Suc.prems(5,6) nodup
      by (simp add: tk dir_found_snoc dir_empty_snoc len dlive_def dname_def split: option.splits)
    show ?thesis unfolding step
      by (rule out_wp_conseq [OF ih]) (use Ok(2) dev_step_trans in auto)
  qed auto
qed

lemma sfs_dir_nentries_eq:
  assumes "dir_ok s (sv_i sv)" and "sfs_heap s vp = Some sv"
  shows "sfs_dir_nentries vp s = Ok (dir_nslots (sv_i sv)) s"
  using assms by (simp add: sfs_dir_nentries_def vn_get_def dir_ok_def dir_nslots_def Let_def)

lemma sfs_dir_findname_wp:
  assumes "dir_ok s (sv_i sv)" and "sfs_heap s vp = Some sv" and "dir_unique (dir_slots s (sv_i sv))"
  shows "out_wp (sfs_dir_findname vp name s)
    (\<lambda>r s'. r = (dir_found name (dir_slots s (sv_i sv)), dir_empty (dir_slots s (sv_i sv))) \<and> dev_step s s')
    (\<lambda>_ _. False)"
  unfolding sfs_dir_findname_def sfs_dir_nentries_eq [OF assms(1,2)] kbind.simps
  by (rule findname_loop_wp) (use assms in auto)

section \<open>Writing entries\<close>

text \<open>
  What a directory operation may do: its entries become \<open>ds\<close>; blocks are only gained from the free
  ones, and no block of anything else changes.
\<close>

definition dir_step :: "sfs_fs \<Rightarrow> vptr \<Rightarrow> sfs_vnode \<Rightarrow> sfs_dir list \<Rightarrow> sfs_fs \<Rightarrow> sfs_vnode \<Rightarrow> bool" where
  "dir_step s vp sv ds s' sv' \<longleftrightarrow> sfs_heap s' = (sfs_heap s)(vp \<mapsto> sv') \<and> vn_same sv sv' \<and>
     dir_ok s' (sv_i sv') \<and> dir_slots s' (sv_i sv') = ds \<and> fs_frame s s' \<and> fs_used s \<subseteq> fs_used s' \<and>
     (\<forall>b \<in> fs_used s. b \<notin> file_refs s (sv_i sv) \<longrightarrow> sect s' b = sect s b) \<and>
     file_refs s' (sv_i sv') \<subseteq> file_refs s (sv_i sv) \<union> (fs_used s' - fs_used s) \<and>
     sfi_linkcount (sv_i sv') = sfi_linkcount (sv_i sv)"

lemma slot_of_upd:
  assumes "length bs = 64"
  shows "slot_of (bytes_upd f (slot * 64) bs) k = (if k = slot then dir_of_bytes bs else slot_of f k)"
proof (cases "k = slot")
  case True
  have "map (bytes_upd f (slot * 64) bs) [slot * 64..<slot * 64 + 64] = bs"
    using assms by (auto simp: bytes_upd_def intro: nth_equalityI)
  then show ?thesis using True by (simp add: slot_of_def)
next
  case False
  then have "slot + 1 \<le> k \<or> k + 1 \<le> slot" by linarith
  then have "\<not> (slot * 64 \<le> x \<and> x < slot * 64 + 64)" if "k * 64 \<le> x" "x < k * 64 + 64" for x
    using that by linarith
  then have "map (bytes_upd f (slot * 64) bs) [k * 64..<k * 64 + 64] = map f [k * 64..<k * 64 + 64]"
    using assms by (intro map_cong) (auto simp: bytes_upd_def)
  then show ?thesis using False by (simp only: slot_of_def if_False)
qed

lemma slot_fits: "slot * 64 mod 512 + 64 \<le> (512 :: nat)"
proof -
  have "slot * 64 mod 512 = 64 * (slot mod 8)" using mult_mod_right [of 64 slot 8] by (simp add: mult.commute)
  moreover have "slot mod 8 < 8" by simp
  ultimately show ?thesis by linarith
qed

lemma wrote_sized_dir:
  assumes w: "wrote_sized s vp sv off bs endoff s' sv'" and ok: "dir_ok s (sv_i sv)"
    and sz: "file_size (sv_i sv') mod 64 = 0" "file_size (sv_i sv') \<le> 143 * 512"
    and ds: "dir_slots s' (sv_i sv') = ds"
  shows "dir_step s vp sv ds s' sv'"
proof -
  have fw: "file_write s (sv_i sv) off bs s' ((sv_i sv')\<lparr>sfi_size := sfi_size (sv_i sv)\<rparr>)"
    and h: "sfs_heap s' = (sfs_heap s)(vp \<mapsto> sv')" "vn_same sv sv'" using w by (auto simp: wrote_sized_def)
  have "fs_nblocks s' = fs_nblocks s" using fw by (simp add: file_write_def fs_frame_def)
  then have "dir_ok s' (sv_i sv')" using fw ok sz by (auto simp: dir_ok_def file_write_def same_meta_def)
  then show ?thesis using fw h ds by (simp add: dir_step_def file_write_def same_meta_def)
qed

lemma file_byte_size: "file_byte s (i\<lparr>sfi_size := z\<rparr>) = file_byte s i"
  by (rule ext) (simp add: file_byte_def)

lemma wrote_sized_byte:
  "wrote_sized s vp sv off bs endoff s' sv' \<Longrightarrow> file_byte s' (sv_i sv') = bytes_upd (file_byte s (sv_i sv)) off bs"
  by (simp add: wrote_sized_def file_write_def file_byte_size)

lemma sfs_writedir_wp:
  assumes ok: "dir_ok s (sv_i sv)" and vp: "sfs_heap s vp = Some sv"
    and k: "slot \<le> dir_nslots (sv_i sv)" "slot < 1144" and sd: "dir_wf sd"
  shows "out_wp (sfs_writedir vp sd slot s)
    (\<lambda>_ s'. \<exists>sv'. dir_step s vp sv (dir_put (dir_slots s (sv_i sv)) slot sd) s' sv')
    (\<lambda>e s'. e = ENOSPC \<and> {..<fs_nblocks s} \<subseteq> fs_used s' \<and> bmap_of s (sv_i sv) (slot * 64 div 512) = 0 \<and>
       (\<exists>sv'. dir_step s vp sv (dir_slots s (sv_i sv)) s' sv'))"
proof -
  let ?u = "uio_kinit (mem_write (\<lambda>_. 0) 0 (dir_bytes sd)) 0 64 (dir_pos slot) UIO_WRITE" and ?i = "sv_i sv"
  have pos: "dir_pos slot = int (slot * 64)" using k(2) by (simp add: dir_pos_small)
  have pre: "io_pre UIO_WRITE s vp sv ?u (slot * 64)" using ok vp pos by (simp add: io_pre_def dir_ok_def)
  note sz = dir_ok_size [OF ok]
  have m: "map (mem_write (\<lambda>_. 0) 0 (dir_bytes sd)) [0..<64] = dir_bytes sd"
    using mem_read_write_same [of 64 "dir_bytes sd" "\<lambda>_. 0" 0] sd by (simp add: mem_read_def)
  have "out_wp (sfs_io vp (s, ?u))
    (\<lambda>_ (s', u'). \<exists>bs sv'. length bs = uio_resid ?u \<and> uio_drain bs ?u u' \<and>
       wrote_sized s vp sv (slot * 64) bs (int (slot * 64 + uio_resid ?u)) s' sv')
    (\<lambda>e (s', u'). e = ENOSPC \<and> {..<fs_nblocks s} \<subseteq> fs_used s' \<and> bmap_of s ?i (slot * 64 div 512) = 0 \<and>
       (\<exists>sv'. wrote_sized s vp sv (slot * 64) [] (int (slot * 64)) s' sv'))"
    by (rule sfs_io_small_write [OF pre]) (use slot_fits [of slot] k in simp_all)
  then show ?thesis
  proof (cases rule: out_wp_cases)
    case (Ok a x)
    obtain t u where x: "x = (t, u)" by (cases x)
    then obtain bs tv where t: "length bs = 64" "uio_drain bs ?u u"
      "wrote_sized s vp sv (slot * 64) bs (int (slot * 64 + 64)) t tv" using Ok(2) by auto
    have bs: "bs = dir_bytes sd" using t(1,2) m by (simp add: uio_drain_def)
    have size: "file_size (sv_i tv) = length (dir_put (dir_slots s ?i) slot sd) * 64"
    proof (cases "slot < dir_nslots ?i")
      case True
      then have "\<not> int (slot * 64 + 64) > int (file_size ?i)" using sz by (simp del: of_nat_unat)
      then show ?thesis using t(3) True sz by (simp add: wrote_sized_def size_upto_def dir_put_def del: of_nat_unat)
    next
      case False
      then have e: "slot = dir_nslots ?i" using k(1) by simp
      then have "int (slot * 64 + 64) > int (file_size ?i)" using sz by (simp del: of_nat_unat)
      then have "sfi_size (sv_i tv) = word_of_int (int (slot * 64 + 64))"
        using t(3) by (simp add: wrote_sized_def size_upto_def del: of_nat_unat)
      then have "sfi_size (sv_i tv) = word_of_nat (slot * 64 + 64)" by simp
      then have "file_size (sv_i tv) = slot * 64 + 64" using k(2)
        by (simp only: unat_of_nat) simp
      then show ?thesis using e by (simp add: dir_put_def)
    qed
    have len: "length (dir_put (dir_slots s ?i) slot sd) \<le> 1144" using k sz by (simp add: dir_put_def)
    have "dir_slots t (sv_i tv) = dir_put (dir_slots s ?i) slot sd"
    proof (rule nth_equalityI)
      show l: "length (dir_slots t (sv_i tv)) = length (dir_put (dir_slots s ?i) slot sd)"
        using size by (simp add: dir_nslots_def)
      fix j
      assume j: "j < length (dir_slots t (sv_i tv))"
      have "dir_slots t (sv_i tv) ! j = (if j = slot then sd else slot_of (file_byte s ?i) j)"
        using j sd by (simp add: dir_slots_nth wrote_sized_byte [OF t(3)] slot_of_upd bs)
      then show "dir_slots t (sv_i tv) ! j = dir_put (dir_slots s ?i) slot sd ! j"
        using j l k dir_put_nth [of slot "dir_slots s ?i" j sd] by (auto simp: dir_slots_nth)
    qed
    then have "dir_step s vp sv (dir_put (dir_slots s ?i) slot sd) t tv"
      by (intro wrote_sized_dir [OF t(3) ok]) (use size len in auto)
    then show ?thesis using Ok(1) x uio_drain_frame(4) [OF t(2)] t(1) by (auto simp: sfs_writedir_def)
  next
    case (Err e x)
    obtain t u where x: "x = (t, u)" by (cases x)
    then obtain tv where t: "e = ENOSPC" "{..<fs_nblocks s} \<subseteq> fs_used t"
      "wrote_sized s vp sv (slot * 64) [] (int (slot * 64)) t tv" "bmap_of s ?i (slot * 64 div 512) = 0" using Err(2) by auto
    have "\<not> int (slot * 64) > int (file_size ?i)" using sz k by (simp del: of_nat_unat)
    then have size: "sfi_size (sv_i tv) = sfi_size ?i"
      using t(3) by (simp add: wrote_sized_def size_upto_def del: of_nat_unat)
    have "dir_step s vp sv (dir_slots s ?i) t tv"
      by (intro wrote_sized_dir [OF t(3) ok])
        (use ok size wrote_sized_byte [OF t(3)] in \<open>auto simp: dir_ok_def dir_slots_def dir_nslots_def\<close>)
    then show ?thesis using Err(1) x t by (auto simp: sfs_writedir_def)
  qed
qed

lemma dir_step_refl: "dir_ok s (sv_i sv) \<Longrightarrow> sfs_heap s vp = Some sv \<Longrightarrow> dir_step s vp sv (dir_slots s (sv_i sv)) s sv"
  by (simp add: dir_step_def fun_upd_idem)

lemma dir_step_after_dev:
  assumes d: "dev_step s t" and w: "dir_step t vp sv ds v vv"
  shows "dir_step s vp sv ds v vv"
proof -
  have "file_refs t (sv_i sv) = file_refs s (sv_i sv)" using dev_step_view(1) [OF d] by (simp add: file_refs_def)
  then show ?thesis
    using w dev_step_sel [OF d] fs_frame_trans [of s t v] by (simp add: dir_step_def)
qed

text \<open>The entry \<open>sfs_dir_link\<close> stores.\<close>

definition new_entry :: "u8 list \<Rightarrow> nat \<Rightarrow> sfs_dir" where
  "new_entry name ino = \<lparr>sfd_ino = word_of_nat ino, sfd_name = name @ replicate (60 - length name) 0\<rparr>"

definition name_ok :: "u8 list \<Rightarrow> bool" where
  "name_ok name \<longleftrightarrow> 0 \<notin> set name \<and> length name < 60"

lemma cstr_pad: "0 \<notin> set name \<Longrightarrow> 0 < n \<Longrightarrow> cstr (name @ replicate n 0) = name"
  unfolding cstr_def by (induction name) (auto simp: gr0_conv_Suc)

lemma new_entry_name:
  assumes "name_ok name"
  shows "dname (new_entry name ino) = name" "dir_wf (new_entry name ino)"
proof -
  have "(name @ replicate (60 - length name) 0)[59 := 0] = name @ replicate (60 - length name) 0"
    using assms by (auto simp: name_ok_def nth_list_update nth_append intro: nth_equalityI)
  then show "dname (new_entry name ino) = name"
    using assms by (simp add: dname_def new_entry_def cstr_pad name_ok_def)
  show "dir_wf (new_entry name ino)" using assms by (simp add: dir_wf_def new_entry_def name_ok_def)
qed

lemma new_entry_live:
  assumes "0 < ino" "ino < 2 ^ 32"
  shows "dlive (new_entry name ino)" "unat (sfd_ino (new_entry name ino)) = ino"
proof -
  show u: "unat (sfd_ino (new_entry name ino)) = ino"
    using assms(2) by (simp add: new_entry_def unat_of_nat)
  show "dlive (new_entry name ino)"
    unfolding dlive_def using u assms(1) by (auto simp del: new_entry_def)
qed

section \<open>Linking and unlinking\<close>

abbreviation dir_names :: "sfs_fs \<Rightarrow> sfs_vnode \<Rightarrow> u8 list \<Rightarrow> nat option" where
  "dir_names s sv \<equiv> dir_map (dir_slots s (sv_i sv))"

lemma dir_map_None: "dir_map ds name = None \<longleftrightarrow> dir_found name ds = None"
  by (simp add: dir_map_def)

lemma dir_found_unique:
  assumes "dir_unique ds" and "k < length ds" "dlive (ds ! k)"
  shows "dir_found (dname (ds ! k)) ds = Some (unat (sfd_ino (ds ! k)), k)"
proof (cases "dir_found (dname (ds ! k)) ds")
  case None
  then have False using assms(2,3) unfolding dir_found_None by blast
  then show ?thesis ..
next
  case (Some x)
  obtain i j where x: "x = (i, j)" by (cases x)
  note f = dir_found_SomeD [OF Some [unfolded x]]
  have "j = k" using assms f unfolding dir_unique_def by blast
  then show ?thesis using Some x f by simp
qed

text \<open>Adding an entry moves no other entry.\<close>

lemma dir_put_found:
  assumes uq: "dir_unique (dir_put ds k d)" and k: "k \<le> length ds" and free: "k < length ds \<Longrightarrow> \<not> dlive (ds ! k)"
    and d: "dlive d"
  shows "dir_found (dname d) (dir_put ds k d) = Some (unat (sfd_ino d), k)"
    "dir_found n ds = Some (i, j) \<Longrightarrow> dir_found n (dir_put ds k d) = Some (i, j)"
proof -
  note put = dir_put_nth [OF k]
  show "dir_found (dname d) (dir_put ds k d) = Some (unat (sfd_ino d), k)"
    using dir_found_unique [OF uq, of k] d put by simp
  assume "dir_found n ds = Some (i, j)"
  note f = dir_found_SomeD [OF this]
  then have "j \<noteq> k" using free by auto
  then show "dir_found n (dir_put ds k d) = Some (i, j)"
    using dir_found_unique [OF uq, of j] f put by simp
qed

lemma sfs_dir_link_wp:
  assumes ok: "dir_ok s (sv_i sv)" and vp: "sfs_heap s vp = Some sv" and uq: "dir_unique (dir_slots s (sv_i sv))"
    and nm: "0 \<notin> set name" and ino: "0 < ino" "ino < 2 ^ 32" and sp: "dir_nslots (sv_i sv) < 1144"
  shows "out_wp (sfs_dir_link vp name ino s)
    (\<lambda>slot s'. dir_names s sv name = None \<and> (\<exists>sv'.
       dir_step s vp sv (dir_put (dir_slots s (sv_i sv)) slot (new_entry name ino)) s' sv' \<and>
       dir_unique (dir_slots s' (sv_i sv')) \<and> dir_names s' sv' = (dir_names s sv)(name \<mapsto> ino)) \<and>
       slot \<le> dir_nslots (sv_i sv) \<and>
       (slot < dir_nslots (sv_i sv) \<longrightarrow> \<not> dlive (dir_slots s (sv_i sv) ! slot)))
    (\<lambda>e s'. (\<exists>sv'. dir_step s vp sv (dir_slots s (sv_i sv)) s' sv') \<and>
       (if dir_names s sv name \<noteq> None then e = EEXIST
        else if 60 \<le> length name then e = ENAMETOOLONG
        else e = ENOSPC \<and> {..<fs_nblocks s} \<subseteq> fs_used s'))"
proof -
  let ?ds = "dir_slots s (sv_i sv)"
  show ?thesis
    using sfs_dir_findname_wp [OF ok vp uq, of name]
  proof (cases rule: out_wp_cases)
    case (Ok r t)
    have r: "r = (dir_found name ?ds, dir_empty ?ds)" and d: "dev_step s t" using Ok(2) by auto
    note ok' = dir_ok_dev [OF d ok]
    have vp': "sfs_heap t vp = Some sv" using vp dev_step_sel(2) [OF d] by simp
    have t: "dir_step s vp sv ?ds t sv"
      using dir_step_after_dev [OF d dir_step_refl [OF ok'(1) vp']] ok'(2) by simp
    have nb: "fs_nblocks t = fs_nblocks s" using dev_step_sel(1) [OF d] by simp
    show ?thesis
    proof (cases "dir_found name ?ds = None \<and> length name < 60")
      case False
      then show ?thesis using Ok(1) r t by (auto simp: sfs_dir_link_def dir_map_None)
    next
      case True
      define slot where "slot = (case dir_empty ?ds of Some k \<Rightarrow> k | None \<Rightarrow> dir_nslots (sv_i sv))"
      have slot: "slot \<le> length ?ds" "slot < length ?ds \<Longrightarrow> \<not> dlive (?ds ! slot)" "slot < 1144"
        using dir_empty_SomeD [of ?ds] sp by (auto simp: slot_def split: option.splits)
      have run: "sfs_dir_link vp name ino s = kbind (sfs_writedir vp (new_entry name ino) slot t) (\<lambda>_ s. Ok slot s)"
        using Ok(1) r True sfs_dir_nentries_eq [OF ok'(1) vp']
        by (cases "dir_empty ?ds") (simp_all add: sfs_dir_link_def slot_def new_entry_def)
      have nk: "name_ok name" using nm True by (simp add: name_ok_def)
      have w: "out_wp (sfs_writedir vp (new_entry name ino) slot t)
        (\<lambda>_ s'. \<exists>sv'. dir_step t vp sv (dir_put ?ds slot (new_entry name ino)) s' sv')
        (\<lambda>e s'. e = ENOSPC \<and> {..<fs_nblocks t} \<subseteq> fs_used s' \<and> (\<exists>sv'. dir_step t vp sv ?ds s' sv'))"
        using out_wp_conseq [OF sfs_writedir_wp [OF ok'(1) vp', of slot "new_entry name ino"]] slot
          new_entry_name(2) [OF nk] ok'(2) by simp
      note live = dir_put_live [OF uq slot(1,2), of "new_entry name ino"]
      have "dir_unique (dir_put ?ds slot (new_entry name ino))"
        "dir_map (dir_put ?ds slot (new_entry name ino)) = (dir_map ?ds)(name \<mapsto> ino)"
        using live True new_entry_live [OF ino] new_entry_name [OF nk] by auto
      note upd = this
      show ?thesis
        using w
      proof (cases rule: out_wp_cases)
        case (Ok a v)
        then obtain vv where "dir_step t vp sv (dir_put ?ds slot (new_entry name ino)) v vv" by blast
        then have vv: "dir_step s vp sv (dir_put ?ds slot (new_entry name ino)) v vv" by (rule dir_step_after_dev [OF d])
        then have "dir_slots v (sv_i vv) = dir_put ?ds slot (new_entry name ino)" by (simp add: dir_step_def)
        then show ?thesis using Ok(1) run vv upd slot True by (auto simp: dir_map_None)
      next
        case (Err e v)
        then obtain vv where "dir_step t vp sv ?ds v vv" by blast
        then have "dir_step s vp sv ?ds v vv" by (rule dir_step_after_dev [OF d])
        then show ?thesis using Err run True nb by (auto simp: dir_map_None)
      qed
    qed
  qed auto
qed

text \<open>Unlinking the slot where a name was found removes the name from the map.\<close>

lemma hole_dead:
  assumes "bmap_of s i (k * 64 div 512) = 0"
  shows "\<not> dlive (slot_of (file_byte s i) k)"
proof -
  have "x div 512 = k * 64 div 512" if "k * 64 \<le> x" "x < k * 64 + 64" for x
  proof -
    have "x mod 512 \<le> x" "x - k * 64 + k * 64 mod 512 < 512" using that slot_fits [of k] by auto
    moreover have "x = k * 64 div 512 * 512 + (x - k * 64 + k * 64 mod 512)"
      using that(1) div_mult_mod_eq [of "k * 64" 512] by linarith
    ultimately show ?thesis by (metis add.commute div_mult_self3 mod_less_divisor div_less add_0 zero_neq_numeral)
  qed
  then have "map (file_byte s i) [k * 64..<k * 64 + 64] = map (\<lambda>_. 0) [k * 64..<k * 64 + 64]"
    using assms by (intro map_cong) (auto simp: file_byte_def)
  then have "slot_of (file_byte s i) k = dir_of_bytes (replicate 64 0)"
    by (simp add: slot_of_def map_replicate_const)
  moreover have "unbe32 (replicate 4 0) = 0" by (simp add: unbe32_def numeral_eq_Suc)
  ultimately show ?thesis by (simp add: dlive_def dir_of_bytes_def)
qed

text \<open>Removing an entry that is there needs no new block, so it cannot fail.\<close>

lemma sfs_dir_unlink_wp:
  assumes ok: "dir_ok s (sv_i sv)" and vp: "sfs_heap s vp = Some sv" and uq: "dir_unique (dir_slots s (sv_i sv))"
    and f: "dir_found name (dir_slots s (sv_i sv)) = Some (ino, slot)"
  shows "out_wp (sfs_dir_unlink vp slot s)
    (\<lambda>_ s'. \<exists>sv'. dir_step s vp sv (dir_slots s' (sv_i sv')) s' sv' \<and>
       dir_unique (dir_slots s' (sv_i sv')) \<and> dir_names s' sv' = (dir_names s sv)(name := None))
    (\<lambda>_ _. False)"
proof -
  let ?e = "\<lparr>sfd_ino = 0, sfd_name = replicate 60 0\<rparr>" and ?ds = "dir_slots s (sv_i sv)"
  have slot: "slot < dir_nslots (sv_i sv)" using dir_found_SomeD(1) [OF f] by simp
  have "dlive (slot_of (file_byte s (sv_i sv)) slot)"
    using dir_found_SomeD(2) [OF f] slot by (simp add: dir_slots_nth)
  then have nh: "bmap_of s (sv_i sv) (slot * 64 div 512) \<noteq> 0" using hole_dead by blast
  note dead = dir_put_dead [OF uq f, of ?e]
  have ds: "dir_slots s' (sv_i sv') = ds" if "dir_step s vp sv ds s' sv'" for ds s' sv'
    using that by (simp add: dir_step_def)
  have "out_wp (sfs_writedir vp ?e slot s)
    (\<lambda>_ s'. \<exists>sv'. dir_step s vp sv (dir_put ?ds slot ?e) s' sv')
    (\<lambda>e s'. e = ENOSPC \<and> {..<fs_nblocks s} \<subseteq> fs_used s' \<and> bmap_of s (sv_i sv) (slot * 64 div 512) = 0 \<and>
       (\<exists>sv'. dir_step s vp sv ?ds s' sv'))"
    by (rule sfs_writedir_wp [OF ok vp]) (use slot dir_ok_size(2) [OF ok] in \<open>auto simp: dir_wf_def\<close>)
  then show ?thesis unfolding sfs_dir_unlink_def
    by (rule out_wp_conseq) (use dead ds nh in \<open>auto simp: dlive_def, metis\<close>)
qed

section \<open>The directory as a table of names\<close>

text \<open>
  What the name operations of SFS (\<open>sfs_creat\<close>, \<open>sfs_link\<close>, \<open>sfs_remove\<close>, \<open>sfs_rename\<close>, \<open>sfs_lookup\<close>)
  rely on: a partial map that is searched, extended by names that are new and cut down by names that
  are there; a failed operation leaves the map.
\<close>

locale name_table =
  fixes inv :: "'s \<Rightarrow> bool"
    and room :: "'s \<Rightarrow> bool"
    and names :: "'s \<Rightarrow> u8 list \<Rightarrow> nat option"
    and lookup :: "u8 list \<Rightarrow> 's \<Rightarrow> (nat option, 's) out"
    and insert_name :: "u8 list \<Rightarrow> nat \<Rightarrow> 's \<Rightarrow> (nat, 's) out"
    and delete_name :: "u8 list \<Rightarrow> 's \<Rightarrow> (unit, 's) out"
  assumes lookup_law: "inv s \<Longrightarrow>
      out_wp (lookup n s) (\<lambda>r s'. r = names s n \<and> inv s' \<and> names s' = names s) (\<lambda>_ _. False)"
    and insert_law: "inv s \<Longrightarrow> room s \<Longrightarrow> 0 \<notin> set n \<Longrightarrow> 0 < ino \<Longrightarrow> ino < 2 ^ 32 \<Longrightarrow>
      out_wp (insert_name n ino s)
        (\<lambda>_ s'. inv s' \<and> names s n = None \<and> names s' = (names s)(n \<mapsto> ino))
        (\<lambda>e s'. inv s' \<and> names s' = names s \<and> (names s n \<noteq> None \<longrightarrow> e = EEXIST))"
    and delete_law: "inv s \<Longrightarrow>
      out_wp (delete_name n s)
        (\<lambda>_ s'. inv s' \<and> names s n \<noteq> None \<and> names s' = (names s)(n := None))
        (\<lambda>e s'. inv s' \<and> names s' = names s \<and> (names s n = None \<longrightarrow> e = ENOENT))"
begin

lemma insert_lookup:
  assumes "inv s" "room s" "0 \<notin> set n" "0 < ino" "ino < 2 ^ 32" and "insert_name n ino s = Ok slot s'"
  shows "\<exists>t. lookup m s' = Ok (if m = n then Some ino else names s m) t \<and> names t = names s'"
proof -
  have "inv s'" "names s' = (names s)(n \<mapsto> ino)" using insert_law [OF assms(1-5)] assms(6) by auto
  then show ?thesis using out_wp_total [OF lookup_law [of s' m]] by auto
qed

lemma insert_twice:
  assumes "inv s" "0 \<notin> set n" "0 < ino" "ino < 2 ^ 32" "0 < j" "j < 2 ^ 32"
    and "room s" "insert_name n ino s = Ok slot s'" "room s'"
  shows "\<exists>t. insert_name n j s' = Err EEXIST t \<and> names t = names s'"
proof -
  have s': "inv s'" "names s' = (names s)(n \<mapsto> ino)" using insert_law [of s n ino] assms by auto
  then have "out_wp (insert_name n j s') (\<lambda>_ _. False) (\<lambda>e t. e = EEXIST \<and> names t = names s')"
    by (intro out_wp_conseq [OF insert_law [of s' n j]]) (use assms in auto)
  then show ?thesis by (cases rule: out_wp_cases) auto
qed

lemma insert_delete:
  assumes "inv s" "room s" "0 \<notin> set n" "0 < ino" "ino < 2 ^ 32" and "insert_name n ino s = Ok slot s'"
    and "delete_name n s' = Ok () t"
  shows "names t = names s"
proof -
  have s': "inv s'" "names s n = None" "names s' = (names s)(n \<mapsto> ino)"
    using insert_law [OF assms(1-5)] assms(6) by auto
  then have "names t = (names s')(n := None)" using delete_law [OF s'(1), of n] assms(7) by auto
  then show ?thesis using s' by auto
qed

end

text \<open>The operations of SFS on the directory \<open>vp\<close>, removal the way \<open>sfs_remove\<close> composes it.\<close>

definition dir_inv :: "vptr \<Rightarrow> sfs_fs \<Rightarrow> bool" where
  "dir_inv vp s \<longleftrightarrow> (case sfs_heap s vp of None \<Rightarrow> False
     | Some sv \<Rightarrow> dir_ok s (sv_i sv) \<and> dir_unique (dir_slots s (sv_i sv)))"

definition dir_room :: "vptr \<Rightarrow> sfs_fs \<Rightarrow> bool" where
  "dir_room vp s \<longleftrightarrow> (case sfs_heap s vp of None \<Rightarrow> False | Some sv \<Rightarrow> dir_nslots (sv_i sv) < 1144)"

definition dir_table :: "vptr \<Rightarrow> sfs_fs \<Rightarrow> u8 list \<Rightarrow> nat option" where
  "dir_table vp s = (case sfs_heap s vp of None \<Rightarrow> Map.empty | Some sv \<Rightarrow> dir_names s sv)"

definition dir_lookup :: "vptr \<Rightarrow> u8 list \<Rightarrow> sfs_fs \<Rightarrow> (nat option, sfs_fs) out" where
  "dir_lookup vp name s = kbind (sfs_dir_findname vp name s) (\<lambda>(found, _) s. Ok (map_option fst found) s)"

definition dir_remove :: "vptr \<Rightarrow> u8 list \<Rightarrow> sfs_fs \<Rightarrow> (unit, sfs_fs) out" where
  "dir_remove vp name s = kbind (sfs_dir_findname vp name s) (\<lambda>(found, _) s.
     case found of None \<Rightarrow> Err ENOENT s | Some (_, slot) \<Rightarrow> sfs_dir_unlink vp slot s)"

lemma dir_inv_step:
  assumes "dir_step s vp sv ds s' sv'" and "dir_unique ds"
  shows "dir_inv vp s'" "dir_table vp s' = dir_map ds"
  using assms by (auto simp: dir_step_def dir_inv_def dir_table_def)

lemma dir_inv_dev:
  assumes d: "dev_step s t" and i: "dir_inv vp s"
  shows "dir_inv vp t" "dir_table vp t = dir_table vp s"
proof -
  obtain sv where sv: "sfs_heap s vp = Some sv" "dir_ok s (sv_i sv)" "dir_unique (dir_slots s (sv_i sv))"
    using i by (auto simp: dir_inv_def split: option.splits)
  note ok = dir_ok_dev [OF d sv(2)]
  show "dir_inv vp t" "dir_table vp t = dir_table vp s"
    using sv ok dev_step_sel(2) [OF d] by (auto simp: dir_inv_def dir_table_def)
qed

lemma dir_insert_law:
  assumes "dir_inv vp s" "dir_room vp s" "0 \<notin> set n" "0 < ino" "ino < 2 ^ 32"
  shows "out_wp (sfs_dir_link vp n ino s)
    (\<lambda>_ s'. dir_inv vp s' \<and> dir_table vp s n = None \<and> dir_table vp s' = (dir_table vp s)(n \<mapsto> ino))
    (\<lambda>e s'. dir_inv vp s' \<and> dir_table vp s' = dir_table vp s \<and> (dir_table vp s n \<noteq> None \<longrightarrow> e = EEXIST))"
proof -
  obtain sv where sv: "sfs_heap s vp = Some sv" "dir_ok s (sv_i sv)" "dir_unique (dir_slots s (sv_i sv))"
    "dir_nslots (sv_i sv) < 1144" "dir_table vp s = dir_names s sv"
    using assms by (auto simp: dir_inv_def dir_room_def dir_table_def split: option.splits)
  show ?thesis
    using sfs_dir_link_wp [OF sv(2,1,3) assms(3-5) sv(4)]
  proof (cases rule: out_wp_cases)
    case (Ok slot s')
    then obtain sv' where x: "sfs_heap s' = (sfs_heap s)(vp \<mapsto> sv')" "dir_ok s' (sv_i sv')"
      "dir_unique (dir_slots s' (sv_i sv'))" "dir_names s' sv' = (dir_names s sv)(n \<mapsto> ino)"
      "dir_names s sv n = None"
      by (auto simp: dir_step_def)
    then show ?thesis using Ok(1) sv(5) by (simp add: dir_inv_def) (simp add: dir_table_def)
  next
    case (Err e s')
    then obtain sv' where "dir_step s vp sv (dir_slots s (sv_i sv)) s' sv'" by blast
    note st = dir_inv_step [OF this sv(3)]
    then show ?thesis using Err sv(5) by simp
  qed
qed

lemma dir_delete_law:
  assumes "dir_inv vp s"
  shows "out_wp (dir_remove vp n s)
    (\<lambda>_ s'. dir_inv vp s' \<and> dir_table vp s n \<noteq> None \<and> dir_table vp s' = (dir_table vp s)(n := None))
    (\<lambda>e s'. dir_inv vp s' \<and> dir_table vp s' = dir_table vp s \<and> (dir_table vp s n = None \<longrightarrow> e = ENOENT))"
proof -
  obtain sv where sv: "sfs_heap s vp = Some sv" "dir_ok s (sv_i sv)" "dir_unique (dir_slots s (sv_i sv))"
    "dir_table vp s = dir_names s sv"
    using assms by (auto simp: dir_inv_def dir_table_def split: option.splits)
  show ?thesis
    using sfs_dir_findname_wp [OF sv(2,1,3), of n]
  proof (cases rule: out_wp_cases)
    case (Ok r t)
    have r: "r = (dir_found n (dir_slots s (sv_i sv)), dir_empty (dir_slots s (sv_i sv)))"
      and d: "dev_step s t" using Ok(2) by auto
    note inv = dir_inv_dev [OF d assms] and ok = dir_ok_dev [OF d sv(2)]
    have vp: "sfs_heap t vp = Some sv" using sv(1) dev_step_sel(2) [OF d] by simp
    show ?thesis
    proof (cases "dir_found n (dir_slots s (sv_i sv))")
      case None
      then show ?thesis using Ok(1) r inv sv(4) by (simp add: dir_remove_def dir_map_None)
    next
      case (Some x)
      obtain ino slot where x: "x = (ino, slot)" by (cases x)
      have u: "dir_unique (dir_slots t (sv_i sv))" "dir_found n (dir_slots t (sv_i sv)) = Some (ino, slot)"
        using sv(3) Some x by (simp_all add: ok(2))
      have run: "dir_remove vp n s = sfs_dir_unlink vp slot t" using Ok(1) r Some x by (simp add: dir_remove_def)
      have nn: "dir_table vp s n \<noteq> None" using sv(4) Some by (simp add: dir_map_None)
      show ?thesis
        using sfs_dir_unlink_wp [OF ok(1) vp u]
      proof (cases rule: out_wp_cases)
        case (Ok a s')
        then obtain sv' where w: "dir_step t vp sv (dir_slots s' (sv_i sv')) s' sv'" "dir_unique (dir_slots s' (sv_i sv'))"
          "dir_names s' sv' = (dir_names t sv)(n := None)" by blast
        show ?thesis
          using Ok(1) w(3) dir_inv_step [OF w(1,2)] nn sv(4) ok(2) by (simp add: run)
      qed simp
    qed
  qed auto
qed

interpretation sd: name_table "dir_inv vp" "dir_room vp" "dir_table vp" "dir_lookup vp" "sfs_dir_link vp" "dir_remove vp"
  for vp
proof unfold_locales
  fix s n
  assume i: "dir_inv vp s"
  then obtain sv where sv: "sfs_heap s vp = Some sv" "dir_ok s (sv_i sv)" "dir_unique (dir_slots s (sv_i sv))"
    "dir_table vp s = dir_names s sv"
    by (auto simp: dir_inv_def dir_table_def split: option.splits)
  show "out_wp (dir_lookup vp n s) (\<lambda>r s'. r = dir_table vp s n \<and> dir_inv vp s' \<and> dir_table vp s' = dir_table vp s)
    (\<lambda>_ _. False)"
    using sfs_dir_findname_wp [OF sv(2,1,3), of n]
  proof (cases rule: out_wp_cases)
    case (Ok r t)
    note inv = dir_inv_dev [OF conjunct2 [OF Ok(2)] i]
    show ?thesis using Ok inv sv(4) by (simp add: dir_lookup_def dir_map_def)
  qed auto
qed (rule dir_insert_law dir_delete_law; assumption)+

end
