(* ===== verification/SfsVnode.thy ===== *)
theory SfsVnode
  imports SfsDir
begin

text \<open>
  Vnodes: the reference counts of \<open>kern/vfs/vnode.c\<close>, the table of loaded vnodes and the vnode
  operations of \<open>kern/fs/sfs/sfs_vnode.c\<close>. The operations are modelled whole, with every release of
  the big lock where the code has it.
\<close>

section \<open>Idioms\<close>

text \<open>\<open>vfs_biglock_release(); return e;\<close>, \<open>vfs_biglock_release(); return 0;\<close> and
  \<open>if (result) { vfs_biglock_release(); return result; }\<close>.\<close>

definition fail_unlock :: "errno \<Rightarrow> sfs_fs \<Rightarrow> ('a, sfs_fs) out" where
  "fail_unlock e s = kbind (vfs_biglock_release s) (\<lambda>_ s. Err e s)"

definition ret_unlock :: "'a \<Rightarrow> sfs_fs \<Rightarrow> ('a, sfs_fs) out" where
  "ret_unlock a s = kbind (vfs_biglock_release s) (\<lambda>_ s. Ok a s)"

fun kbind_unlock :: "('a, sfs_fs) out \<Rightarrow> ('a \<Rightarrow> sfs_fs \<Rightarrow> ('b, sfs_fs) out) \<Rightarrow> ('b, sfs_fs) out" where
  "kbind_unlock (Ok a s) f = f a s"
| "kbind_unlock (Err e s) f = fail_unlock e s"
| "kbind_unlock Panic f = Panic"

text \<open>Calling a function whose error is only printed.\<close>

fun ignore_err :: "('a, sfs_fs) out \<Rightarrow> (sfs_fs \<Rightarrow> ('b, sfs_fs) out) \<Rightarrow> ('b, sfs_fs) out" where
  "ignore_err (Ok a s) f = f s"
| "ignore_err (Err e s) f = f s"
| "ignore_err Panic f = Panic"

definition vn_update :: "vptr \<Rightarrow> (sfs_vnode \<Rightarrow> sfs_vnode) \<Rightarrow> sfs_fs \<Rightarrow> (unit, sfs_fs) out" where
  "vn_update vp f s = kbind (vn_get vp s) (\<lambda>sv s. Ok () (vn_put vp (f sv) s))"

text \<open>\<open>kmalloc\<close> and \<open>kfree\<close> of a \<open>struct sfs_vnode\<close>, and growing the table of vnodes.\<close>

definition km_next :: "sfs_fs \<Rightarrow> bool \<times> sfs_fs" where
  "km_next s = (case km_fail s of [] \<Rightarrow> (True, s) | f # fs \<Rightarrow> (\<not> f, s\<lparr>km_fail := fs\<rparr>))"

definition vnodearray_add :: "vptr \<Rightarrow> sfs_fs \<Rightarrow> (unit, sfs_fs) out" where
  "vnodearray_add vp s =
     (let (ok, s) = (if wadd32 (arr_num (sfs_vnodes s)) 1 > arr_max (sfs_vnodes s) then km_next s else (True, s))
      in case array_add (\<lambda>n. if ok then Some (replicate n 0) else None) vp (sfs_vnodes s) of
           Ok _ a \<Rightarrow> Ok () (s\<lparr>sfs_vnodes := a\<rparr>)
         | Err e a \<Rightarrow> Err e (s\<lparr>sfs_vnodes := a\<rparr>)
         | Panic \<Rightarrow> Panic)"

definition vnodearray_get :: "nat \<Rightarrow> sfs_fs \<Rightarrow> (vptr, sfs_fs) out" where
  "vnodearray_get i s = (case array_get (sfs_vnodes s) i of Ok v _ \<Rightarrow> Ok v s | Err e _ \<Rightarrow> Err e s | Panic \<Rightarrow> Panic)"

definition vnodearray_remove :: "nat \<Rightarrow> sfs_fs \<Rightarrow> (unit, sfs_fs) out" where
  "vnodearray_remove i s =
     (case array_remove i (sfs_vnodes s) of
        Ok _ a \<Rightarrow> Ok () (s\<lparr>sfs_vnodes := a\<rparr>) | Err e a \<Rightarrow> Err e s | Panic \<Rightarrow> Panic)"

section \<open>Common vnode code\<close>

definition vnode_init :: "vnode_ops \<Rightarrow> sfs_vnode \<Rightarrow> sfs_vnode" where
  "vnode_init ops sv = sv\<lparr>vn_ops := ops, vn_refcount := 1, vn_opencount := 0\<rparr>"

definition vnode_cleanup :: "vptr \<Rightarrow> sfs_fs \<Rightarrow> (unit, sfs_fs) out" where
  "vnode_cleanup vp s =
     kbind (vn_get vp s) (\<lambda>sv s.
       kassert (vn_refcount sv = 1)
         (kassert (vn_opencount sv = 0)
           (Ok () (vn_put vp (sv\<lparr>vn_refcount := 0, vn_opencount := 0\<rparr>) s))))"

definition vnode_incref :: "vptr \<Rightarrow> sfs_fs \<Rightarrow> (unit, sfs_fs) out" where
  "vnode_incref vp s =
     (let s = vfs_biglock_acquire s in
      kbind (vn_update vp (\<lambda>sv. sv\<lparr>vn_refcount := vn_refcount sv + 1\<rparr>) s) (\<lambda>_ s.
        vfs_biglock_release s))"

text \<open>
  The checks before every \<open>VOP_\<close> call that can fail for a vnode of the model; a null, freed or
  overwritten pointer is a pointer the heap does not hold.
\<close>

definition vnode_check :: "vptr \<Rightarrow> string \<Rightarrow> sfs_fs \<Rightarrow> (unit, sfs_fs) out" where
  "vnode_check vp opstr s =
     (let s = vfs_biglock_acquire s in
      kbind (vn_get vp s) (\<lambda>sv s.
        if vn_refcount sv < 0 then Panic
        else if vn_refcount sv = 0 \<and> opstr \<noteq> ''reclaim'' then Panic
        else if vn_opencount sv < 0 then Panic
        else vfs_biglock_release s))"

text \<open>\<open>__VOP(vn, op)\<close>: check, then call through the table of the vnode's kind.\<close>

definition vop :: "vptr \<Rightarrow> string \<Rightarrow> (sfs_fs \<Rightarrow> ('a, sfs_fs) out) \<Rightarrow> (sfs_fs \<Rightarrow> ('a, sfs_fs) out) \<Rightarrow>
  sfs_fs \<Rightarrow> ('a, sfs_fs) out" where
  "vop vp opstr file_op dir_op s =
     kbind (vnode_check vp opstr s) (\<lambda>_ s.
     kbind (vn_get vp s) (\<lambda>sv s.
       case vn_ops sv of sfs_fileops \<Rightarrow> file_op s | sfs_dirops \<Rightarrow> dir_op s))"

definition sfs_notdir :: "sfs_fs \<Rightarrow> ('a, sfs_fs) out" where
  "sfs_notdir s = Err ENOTDIR s"

definition sfs_isdir :: "sfs_fs \<Rightarrow> ('a, sfs_fs) out" where
  "sfs_isdir s = Err EISDIR s"

definition sfs_unimp :: "sfs_fs \<Rightarrow> ('a, sfs_fs) out" where
  "sfs_unimp s = Err EUNIMP s"

section \<open>Simple vnode operations\<close>

abbreviation (input) O_RDONLY :: u32 where "O_RDONLY \<equiv> 0"
abbreviation (input) O_ACCMODE :: u32 where "O_ACCMODE \<equiv> 3"
abbreviation (input) O_APPEND :: u32 where "O_APPEND \<equiv> 32"

definition sfs_open :: "vptr \<Rightarrow> u32 \<Rightarrow> sfs_fs \<Rightarrow> (unit, sfs_fs) out" where
  "sfs_open vp openflags s = (if openflags AND O_APPEND \<noteq> 0 then Err EUNIMP s else Ok () s)"

definition sfs_opendir :: "vptr \<Rightarrow> u32 \<Rightarrow> sfs_fs \<Rightarrow> (unit, sfs_fs) out" where
  "sfs_opendir vp openflags s =
     (if openflags AND O_ACCMODE \<noteq> O_RDONLY then Err EISDIR s
      else if openflags AND O_APPEND \<noteq> 0 then Err EISDIR s
      else Ok () s)"

definition sfs_fsync :: "vptr \<Rightarrow> sfs_fs \<Rightarrow> (unit, sfs_fs) out" where
  "sfs_fsync vp s =
     kbind_unlock (sfs_sync_inode vp (vfs_biglock_acquire s)) (\<lambda>_ s. ret_unlock () s)"

definition VOP_FSYNC :: "vptr \<Rightarrow> sfs_fs \<Rightarrow> (unit, sfs_fs) out" where
  "VOP_FSYNC vp = vop vp ''fsync'' (sfs_fsync vp) (sfs_fsync vp)"

definition sfs_close :: "vptr \<Rightarrow> sfs_fs \<Rightarrow> (unit, sfs_fs) out" where
  "sfs_close vp s = VOP_FSYNC vp s"

definition sfs_read :: "vptr \<Rightarrow> sfs_fs \<times> uio \<Rightarrow> (unit, sfs_fs \<times> uio) out" where
  "sfs_read vp = (\<lambda>(s, u).
     kassert (uio_rw u = UIO_READ)
       (case sfs_io vp (vfs_biglock_acquire s, u) of
          Panic \<Rightarrow> Panic
        | Ok _ (s, u) \<Rightarrow> with_uio (ret_unlock () s) u
        | Err e (s, u) \<Rightarrow> with_uio (fail_unlock e s) u))"

definition sfs_write :: "vptr \<Rightarrow> sfs_fs \<times> uio \<Rightarrow> (unit, sfs_fs \<times> uio) out" where
  "sfs_write vp = (\<lambda>(s, u).
     kassert (uio_rw u = UIO_WRITE)
       (case sfs_io vp (vfs_biglock_acquire s, u) of
          Panic \<Rightarrow> Panic
        | Ok _ (s, u) \<Rightarrow> with_uio (ret_unlock () s) u
        | Err e (s, u) \<Rightarrow> with_uio (fail_unlock e s) u))"

definition sfs_ioctl :: "vptr \<Rightarrow> nat \<Rightarrow> nat \<Rightarrow> sfs_fs \<Rightarrow> (unit, sfs_fs) out" where
  "sfs_ioctl vp op data s = Err EINVAL s"

datatype file_type = S_IFREG | S_IFDIR

definition sfs_gettype :: "vptr \<Rightarrow> sfs_fs \<Rightarrow> (file_type, sfs_fs) out" where
  "sfs_gettype vp s =
     kbind (vn_get vp (vfs_biglock_acquire s)) (\<lambda>sv s.
       if sfi_type (sv_i sv) = SFS_TYPE_FILE then ret_unlock S_IFREG s
       else if sfi_type (sv_i sv) = SFS_TYPE_DIR then ret_unlock S_IFDIR s
       else Panic)"

record stat =
  st_mode :: file_type
  st_size :: nat
  st_nlink :: nat
  st_blocks :: nat

definition sfs_stat :: "vptr \<Rightarrow> sfs_fs \<Rightarrow> (stat, sfs_fs) out" where
  "sfs_stat vp s =
     kbind (vop vp ''gettype'' (sfs_gettype vp) (sfs_gettype vp) s) (\<lambda>mode s.
     kbind (vn_get vp s) (\<lambda>sv s.
       Ok \<lparr>st_mode = mode, st_size = unat (sfi_size (sv_i sv)), st_nlink = 0, st_blocks = 0\<rparr> s))"

definition sfs_tryseek :: "vptr \<Rightarrow> int \<Rightarrow> sfs_fs \<Rightarrow> (unit, sfs_fs) out" where
  "sfs_tryseek vp pos s = (if pos < 0 then Err EINVAL s else Ok () s)"

definition sfs_mmap :: "vptr \<Rightarrow> sfs_fs \<Rightarrow> (unit, sfs_fs) out" where
  "sfs_mmap vp s = Err EUNIMP s"

definition sfs_namefile :: "vptr \<Rightarrow> sfs_fs \<times> uio \<Rightarrow> (unit, sfs_fs \<times> uio) out" where
  "sfs_namefile vp = (\<lambda>(s, u).
     kbind (with_uio (vn_get vp s) u) (\<lambda>sv su.
       kassert (sv_ino sv = SFS_ROOT_LOCATION) (Ok () su)))"

section \<open>Reference counts and reclaiming\<close>

definition VOP_TRUNCATE :: "vptr \<Rightarrow> int \<Rightarrow> sfs_fs \<Rightarrow> (unit, sfs_fs) out" where
  "VOP_TRUNCATE vp len = vop vp ''truncate'' (sfs_truncate vp len) sfs_isdir"

text \<open>The search for the vnode's place in the table.\<close>

fun vnode_index :: "nat \<Rightarrow> nat \<Rightarrow> vptr \<Rightarrow> sfs_fs \<Rightarrow> (nat option, sfs_fs) out" where
  "vnode_index i 0 vp s = Ok None s"
| "vnode_index i (Suc n) vp s =
     kbind (vnodearray_get i s) (\<lambda>v2 s.
       if v2 = vp then Ok (Some i) s else vnode_index (Suc i) n vp s)"

definition sfs_reclaim :: "vptr \<Rightarrow> sfs_fs \<Rightarrow> (unit, sfs_fs) out" where
  "sfs_reclaim vp s =
     kbind (vn_get vp (vfs_biglock_acquire s)) (\<lambda>sv s.
       if vn_refcount sv \<noteq> 1
       then kassert (vn_refcount sv > 1)
              (fail_unlock EBUSY (vn_put vp (sv\<lparr>vn_refcount := vn_refcount sv - 1\<rparr>) s))
       else
         kbind_unlock (if sfi_linkcount (sv_i sv) = 0 then VOP_TRUNCATE vp 0 s else Ok () s) (\<lambda>_ s.
         kbind_unlock (sfs_sync_inode vp s) (\<lambda>_ s.
         kbind (vn_get vp s) (\<lambda>sv s.
         kbind (if sfi_linkcount (sv_i sv) = 0 then sfs_bfree (sv_ino sv) s else Ok () s) (\<lambda>_ s.
         kbind (vnode_index 0 (array_num (sfs_vnodes s)) vp s) (\<lambda>ix s.
           case ix of
             None \<Rightarrow> Panic
           | Some ix \<Rightarrow>
               kbind (vnodearray_remove ix s) (\<lambda>_ s.
               kbind (vnode_cleanup vp s) (\<lambda>_ s.
               kbind (vfs_biglock_release s) (\<lambda>_ s.
                 Ok () (s\<lparr>sfs_heap := (sfs_heap s)(vp := None)\<rparr>))))))))))"

definition VOP_RECLAIM :: "vptr \<Rightarrow> sfs_fs \<Rightarrow> (unit, sfs_fs) out" where
  "VOP_RECLAIM vp = vop vp ''reclaim'' (sfs_reclaim vp) (sfs_reclaim vp)"

definition vnode_decref :: "vptr \<Rightarrow> sfs_fs \<Rightarrow> (unit, sfs_fs) out" where
  "vnode_decref vp s =
     kbind (vn_get vp (vfs_biglock_acquire s)) (\<lambda>sv s.
       kassert (vn_refcount sv > 0)
         (if vn_refcount sv > 1
          then vfs_biglock_release (vn_put vp (sv\<lparr>vn_refcount := vn_refcount sv - 1\<rparr>) s)
          else ignore_err (VOP_RECLAIM vp s) vfs_biglock_release))"

definition vnode_incopen :: "vptr \<Rightarrow> sfs_fs \<Rightarrow> (unit, sfs_fs) out" where
  "vnode_incopen vp s =
     kbind (vn_update vp (\<lambda>sv. sv\<lparr>vn_opencount := vn_opencount sv + 1\<rparr>) (vfs_biglock_acquire s)) (\<lambda>_ s.
       vfs_biglock_release s)"

definition vnode_decopen :: "vptr \<Rightarrow> sfs_fs \<Rightarrow> (unit, sfs_fs) out" where
  "vnode_decopen vp s =
     kbind (vn_get vp (vfs_biglock_acquire s)) (\<lambda>sv s.
       kassert (vn_opencount sv > 0)
         (let s = vn_put vp (sv\<lparr>vn_opencount := vn_opencount sv - 1\<rparr>) s in
          if vn_opencount sv - 1 > 0 then vfs_biglock_release s
          else ignore_err (vop vp ''close'' (sfs_close vp) (sfs_close vp) s) vfs_biglock_release))"

end
