(* ===== verification/SfsName.thy ===== *)
theory SfsName
  imports SfsVnode
begin

text \<open>
  Loading inodes into memory and the operations on names of \<open>kern/fs/sfs/sfs_vnode.c\<close>:
  \<open>sfs_loadvnode\<close>, \<open>sfs_lookonce\<close>, \<open>sfs_makeobj\<close> and the vnode operations \<open>creat\<close>, \<open>link\<close>,
  \<open>remove\<close>, \<open>rename\<close>, \<open>lookparent\<close>, \<open>lookup\<close>, with \<open>sfs_getroot\<close>.
\<close>

section \<open>Loading\<close>

text \<open>The linear search of the table of loaded vnodes.\<close>

fun vnode_search :: "nat \<Rightarrow> nat \<Rightarrow> nat \<Rightarrow> sfs_fs \<Rightarrow> (vptr option, sfs_fs) out" where
  "vnode_search i 0 ino s = Ok None s"
| "vnode_search i (Suc n) ino s =
     kbind (vnodearray_get i s) (\<lambda>v s.
     kbind (vn_get v s) (\<lambda>sv s.
     kbind (sfs_bused (sv_ino sv) s) (\<lambda>used s.
       if \<not> used then Panic
       else if sv_ino sv = ino then Ok (Some v) s
       else vnode_search (Suc i) n ino s)))"

text \<open>The vnode structure read from disk, before it is entered into the table.\<close>

definition vnode_of_inode :: "nat \<Rightarrow> u16 \<Rightarrow> sfs_inode \<Rightarrow> sfs_vnode option" where
  "vnode_of_inode ino forcetype i =
     (let i' = (if forcetype \<noteq> SFS_TYPE_INVAL then i\<lparr>sfi_type := forcetype\<rparr> else i);
          sv = \<lparr>vn_ops = sfs_fileops, vn_refcount = 0, vn_opencount = 0, sv_i = i', sv_ino = ino,
                sv_dirty = (forcetype \<noteq> SFS_TYPE_INVAL)\<rparr>
      in if forcetype \<noteq> SFS_TYPE_INVAL \<and> sfi_type i \<noteq> SFS_TYPE_INVAL then None
         else if sfi_type i' = SFS_TYPE_FILE then Some (vnode_init sfs_fileops sv)
         else if sfi_type i' = SFS_TYPE_DIR then Some (vnode_init sfs_dirops sv)
         else None)"

definition sfs_loadvnode :: "nat \<Rightarrow> u16 \<Rightarrow> sfs_fs \<Rightarrow> (vptr, sfs_fs) out" where
  "sfs_loadvnode ino forcetype s =
     kbind (vnode_search 0 (array_num (sfs_vnodes s)) ino s) (\<lambda>found s.
       case found of
         Some v \<Rightarrow>
           kassert (forcetype = SFS_TYPE_INVAL)
             (kbind (vnode_incref v s) (\<lambda>_ s. Ok v s))
       | None \<Rightarrow>
           (let (ok, s) = km_next s in
            if \<not> ok then Err ENOMEM s
            else
              kbind (sfs_bused ino s) (\<lambda>used s.
                if \<not> used then Panic
                else
                  kbind (sfs_rblock ino s) (\<lambda>bs s.
                    case vnode_of_inode ino forcetype (inode_of_bytes bs) of
                      None \<Rightarrow> Panic
                    | Some sv \<Rightarrow>
                        (let vp = sfs_brk s;
                             s = vn_put vp sv (s\<lparr>sfs_brk := vp + 1\<rparr>)
                         in case vnodearray_add vp s of
                              Ok _ s \<Rightarrow> Ok vp s
                            | Panic \<Rightarrow> Panic
                            | Err e s \<Rightarrow>
                                kbind (vnode_cleanup vp s) (\<lambda>_ s.
                                  Err e (s\<lparr>sfs_heap := (sfs_heap s)(vp := None)\<rparr>)))))))"

definition sfs_lookonce :: "vptr \<Rightarrow> u8 list \<Rightarrow> sfs_fs \<Rightarrow> (vptr \<times> nat, sfs_fs) out" where
  "sfs_lookonce vp name s =
     kbind (sfs_dir_findname vp name s) (\<lambda>(found, _) s.
       case found of
         None \<Rightarrow> Err ENOENT s
       | Some (ino, slot) \<Rightarrow>
           kbind (sfs_loadvnode ino SFS_TYPE_INVAL s) (\<lambda>v s.
           kbind (vn_get v s) (\<lambda>sv s.
             if sfi_linkcount (sv_i sv) = 0 then Panic else Ok (v, slot) s)))"

definition sfs_makeobj :: "u16 \<Rightarrow> sfs_fs \<Rightarrow> (vptr, sfs_fs) out" where
  "sfs_makeobj type s = kbind (sfs_balloc s) (\<lambda>ino s. sfs_loadvnode ino type s)"

definition sfs_getroot :: "sfs_fs \<Rightarrow> (vptr, sfs_fs) out" where
  "sfs_getroot s =
     (case sfs_loadvnode SFS_ROOT_LOCATION SFS_TYPE_INVAL (vfs_biglock_acquire s) of
        Ok v s \<Rightarrow> ret_unlock v s
      | _ \<Rightarrow> Panic)"

section \<open>Operations on names\<close>

text \<open>\<open>sfi_linkcount++\<close> and \<open>sfi_linkcount--\<close> with \<open>sv_dirty = true\<close>; the field has 16 bits.\<close>

definition link_inc :: "vptr \<Rightarrow> sfs_fs \<Rightarrow> (unit, sfs_fs) out" where
  "link_inc vp = vn_update vp (\<lambda>sv. sv\<lparr>sv_i := (sv_i sv)\<lparr>sfi_linkcount := sfi_linkcount (sv_i sv) + 1\<rparr>,
                                       sv_dirty := True\<rparr>)"

definition link_dec :: "vptr \<Rightarrow> sfs_fs \<Rightarrow> (unit, sfs_fs) out" where
  "link_dec vp s =
     kbind (vn_get vp s) (\<lambda>sv s.
       kassert (sfi_linkcount (sv_i sv) > 0)
         (Ok () (vn_put vp (sv\<lparr>sv_i := (sv_i sv)\<lparr>sfi_linkcount := sfi_linkcount (sv_i sv) - 1\<rparr>,
                               sv_dirty := True\<rparr>) s)))"

definition sfs_creat :: "vptr \<Rightarrow> u8 list \<Rightarrow> bool \<Rightarrow> sfs_fs \<Rightarrow> (vptr, sfs_fs) out" where
  "sfs_creat vp name excl s =
     kbind_unlock (sfs_dir_findname vp name (vfs_biglock_acquire s)) (\<lambda>(found, _) s.
       case found of
         Some (ino, _) \<Rightarrow>
           if excl then fail_unlock EEXIST s
           else kbind_unlock (sfs_loadvnode ino SFS_TYPE_INVAL s) (\<lambda>newguy s. ret_unlock newguy s)
       | None \<Rightarrow>
           kbind_unlock (sfs_makeobj SFS_TYPE_FILE s) (\<lambda>newguy s.
           kbind (vn_get newguy s) (\<lambda>sv s.
             case sfs_dir_link vp name (sv_ino sv) s of
               Panic \<Rightarrow> Panic
             | Err e s \<Rightarrow> kbind (vnode_decref newguy s) (\<lambda>_ s. fail_unlock e s)
             | Ok _ s \<Rightarrow> kbind (link_inc newguy s) (\<lambda>_ s. ret_unlock newguy s))))"

definition sfs_link :: "vptr \<Rightarrow> u8 list \<Rightarrow> vptr \<Rightarrow> sfs_fs \<Rightarrow> (unit, sfs_fs) out" where
  "sfs_link dir name file s =
     kbind (vn_get file (vfs_biglock_acquire s)) (\<lambda>f s.
     kbind_unlock (sfs_dir_link dir name (sv_ino f) s) (\<lambda>_ s.
     kbind (link_inc file s) (\<lambda>_ s. ret_unlock () s)))"

definition sfs_remove :: "vptr \<Rightarrow> u8 list \<Rightarrow> sfs_fs \<Rightarrow> (unit, sfs_fs) out" where
  "sfs_remove dir name s =
     kbind_unlock (sfs_lookonce dir name (vfs_biglock_acquire s)) (\<lambda>(victim, slot) s.
       case sfs_dir_unlink dir slot s of
         Panic \<Rightarrow> Panic
       | Ok _ s \<Rightarrow>
           kbind (link_dec victim s) (\<lambda>_ s.
           kbind (vnode_decref victim s) (\<lambda>_ s. ret_unlock () s))
       | Err e s \<Rightarrow> kbind (vnode_decref victim s) (\<lambda>_ s. fail_unlock e s))"

definition sfs_rename :: "vptr \<Rightarrow> u8 list \<Rightarrow> vptr \<Rightarrow> u8 list \<Rightarrow> sfs_fs \<Rightarrow> (unit, sfs_fs) out" where
  "sfs_rename d1 n1 d2 n2 s =
     kassert (d1 = d2)
       (kbind (vn_get d1 (vfs_biglock_acquire s)) (\<lambda>sv s.
        kassert (sv_ino sv = SFS_ROOT_LOCATION)
          (kbind_unlock (sfs_lookonce d1 n1 s) (\<lambda>(g1, slot1) s.
           kbind (vn_get g1 s) (\<lambda>g s.
           kassert (sfi_type (sv_i g) = SFS_TYPE_FILE)
             (case sfs_dir_link d1 n2 (sv_ino g) s of
                Panic \<Rightarrow> Panic
              | Err e s \<Rightarrow> kbind (vnode_decref g1 s) (\<lambda>_ s. fail_unlock e s)
              | Ok slot2 s \<Rightarrow>
                  kbind (link_inc g1 s) (\<lambda>_ s.
                    case sfs_dir_unlink d1 slot1 s of
                      Panic \<Rightarrow> Panic
                    | Ok _ s \<Rightarrow>
                        kbind (link_dec g1 s) (\<lambda>_ s.
                        kbind (vnode_decref g1 s) (\<lambda>_ s. ret_unlock () s))
                    | Err e s \<Rightarrow>
                        (case sfs_dir_unlink d1 slot2 s of
                           Ok _ s \<Rightarrow>
                             kbind (vn_update g1 (\<lambda>sv. sv\<lparr>sv_i := (sv_i sv)\<lparr>sfi_linkcount :=
                                       sfi_linkcount (sv_i sv) - 1\<rparr>\<rparr>) s) (\<lambda>_ s.
                             kbind (vnode_decref g1 s) (\<lambda>_ s. fail_unlock e s))
                         | _ \<Rightarrow> Panic))))))))"

definition sfs_lookparent :: "vptr \<Rightarrow> u8 list \<Rightarrow> nat \<Rightarrow> sfs_fs \<Rightarrow> (vptr \<times> u8 list, sfs_fs) out" where
  "sfs_lookparent vp path buflen s =
     kbind (vn_get vp (vfs_biglock_acquire s)) (\<lambda>sv s.
       if sfi_type (sv_i sv) \<noteq> SFS_TYPE_DIR then fail_unlock ENOTDIR s
       else if length path + 1 > buflen then fail_unlock ENAMETOOLONG s
       else kbind (vnode_incref vp s) (\<lambda>_ s. ret_unlock (vp, path) s))"

definition sfs_lookup :: "vptr \<Rightarrow> u8 list \<Rightarrow> sfs_fs \<Rightarrow> (vptr, sfs_fs) out" where
  "sfs_lookup vp path s =
     kbind (vn_get vp (vfs_biglock_acquire s)) (\<lambda>sv s.
       if sfi_type (sv_i sv) \<noteq> SFS_TYPE_DIR then fail_unlock ENOTDIR s
       else kbind_unlock (sfs_lookonce vp path s) (\<lambda>(final, _) s. ret_unlock final s))"

end
