(* ===== verification/SfsFs.thy ===== *)
theory SfsFs
  imports SfsName
begin

text \<open>
  \<open>kern/fs/sfs/sfs_fs.c\<close>: reading and writing the free-block bitmap, syncing, mounting and
  unmounting.
\<close>

section \<open>Operations\<close>

text \<open>
  \<open>sfs_mapio\<close>: block \<open>j\<close> of the bitmap is the bytes \<open>512 j\<close> to \<open>512 j + 511\<close> of the bitmap's data.
\<close>

fun sfs_mapio_loop :: "nat \<Rightarrow> nat \<Rightarrow> uio_rw \<Rightarrow> sfs_fs \<Rightarrow> (unit, sfs_fs) out" where
  "sfs_mapio_loop j 0 rw s = Ok () s"
| "sfs_mapio_loop j (Suc n) rw s =
     kbind
       (if rw = UIO_READ
        then kbind (sfs_rblock (SFS_MAP_LOCATION + j) s) (\<lambda>bs s.
               Ok () (s\<lparr>sfs_freemap := (sfs_freemap s)\<lparr>bm_v :=
                         buf_write (bitmap_getdata (sfs_freemap s)) (j * SFS_BLOCKSIZE) bs\<rparr>\<rparr>))
        else sfs_wblock (take SFS_BLOCKSIZE (drop (j * SFS_BLOCKSIZE) (bitmap_getdata (sfs_freemap s))))
               (SFS_MAP_LOCATION + j) s)
       (\<lambda>_ s. sfs_mapio_loop (Suc j) n rw s)"

definition sfs_mapio :: "uio_rw \<Rightarrow> sfs_fs \<Rightarrow> (unit, sfs_fs) out" where
  "sfs_mapio rw s = sfs_mapio_loop 0 (SFS_BITBLOCKS (fs_nblocks s)) rw s"

fun sync_vnodes :: "nat \<Rightarrow> nat \<Rightarrow> sfs_fs \<Rightarrow> (unit, sfs_fs) out" where
  "sync_vnodes i 0 s = Ok () s"
| "sync_vnodes i (Suc n) s =
     kbind (vnodearray_get i s) (\<lambda>v s. ignore_err (VOP_FSYNC v s) (\<lambda>s. sync_vnodes (Suc i) n s))"

definition sfs_sync :: "sfs_fs \<Rightarrow> (unit, sfs_fs) out" where
  "sfs_sync s =
     (let s = vfs_biglock_acquire s in
      kbind (sync_vnodes 0 (array_num (sfs_vnodes s)) s) (\<lambda>_ s.
      kbind_unlock
        (if sfs_freemapdirty s
         then kbind (sfs_mapio UIO_WRITE s) (\<lambda>_ s. Ok () (s\<lparr>sfs_freemapdirty := False\<rparr>))
         else Ok () s) (\<lambda>_ s.
      kbind_unlock
        (if sfs_superdirty s
         then kbind (sfs_wblock (super_bytes (sfs_super s)) SFS_SB_LOCATION s) (\<lambda>_ s.
                Ok () (s\<lparr>sfs_superdirty := False\<rparr>))
         else Ok () s) (\<lambda>_ s. ret_unlock () s))))"

definition sfs_getvolname :: "sfs_fs \<Rightarrow> (u8 list, sfs_fs) out" where
  "sfs_getvolname s = (let s = vfs_biglock_acquire s in ret_unlock (cstr (sp_volname (sfs_super s))) s)"

text \<open>
  \<open>sfs_unmount\<close>. The filesystem object is freed, so only the device and the lock are left; the
  model keeps them in the state and empties the table.
\<close>

definition sfs_unmount :: "sfs_fs \<Rightarrow> (unit, sfs_fs) out" where
  "sfs_unmount s =
     (let s = vfs_biglock_acquire s in
      if array_num (sfs_vnodes s) > 0 then fail_unlock EBUSY s
      else kassert (\<not> sfs_superdirty s)
        (kassert (\<not> sfs_freemapdirty s)
          (case array_destroy (sfs_vnodes s) of
             Ok _ _ \<Rightarrow> ret_unlock () (s\<lparr>sfs_vnodes := array_init\<rparr>)
           | _ \<Rightarrow> Panic)))"

text \<open>
  \<open>sfs_domount\<close>: the state passed in is the kernel before the mount, with the device to mount on;
  the fields of the new \<open>struct sfs_fs\<close> are filled in as the code does. The three allocations (the
  object, the table, the bitmap with its data) draw from \<open>km_fail\<close>. A successful mount hands the
  state back; an error leaves only the device and the lock.
\<close>

definition km_next2 :: "sfs_fs \<Rightarrow> bool \<times> bool \<times> sfs_fs" where
  "km_next2 s = (let (a, s) = km_next s in
     if a then (let (b, s) = km_next s in (a, b, s)) else (a, False, s))"

definition sfs_domount :: "sfs_fs \<Rightarrow> (unit, sfs_fs) out" where
  "sfs_domount s =
     (let s = vfs_biglock_acquire s in
      if d_blocksize (sfs_device s) \<noteq> SFS_BLOCKSIZE then fail_unlock ENXIO s
      else
        (let (m1, m2, s) = km_next2 s in
         if \<not> m1 \<or> array_create m2 = (None :: vptr array option) then fail_unlock ENOMEM s
         else
           (let s = s\<lparr>sfs_vnodes := array_init\<rparr> in
            kbind_unlock (sfs_rblock SFS_SB_LOCATION s) (\<lambda>bs s.
              let sp = super_of_bytes bs in
              if sp_magic sp \<noteq> SFS_MAGIC then fail_unlock EINVAL (s\<lparr>sfs_super := sp\<rparr>)
              else
                (let sp = sp\<lparr>sp_volname := (sp_volname sp)[SFS_VOLNAME_SIZE - 1 := 0]\<rparr>;
                     (m3, m4, s) = km_next2 (s\<lparr>sfs_super := sp\<rparr>)
                 in case bitmap_create m3 m4 (SFS_BITMAPSIZE (unat (sp_nblocks sp))) of
                      Ok (Some fm) _ \<Rightarrow>
                        kbind_unlock (sfs_mapio UIO_READ (s\<lparr>sfs_freemap := fm\<rparr>)) (\<lambda>_ s.
                          ret_unlock () (s\<lparr>sfs_superdirty := False, sfs_freemapdirty := False\<rparr>))
                    | Ok None _ \<Rightarrow> fail_unlock ENOMEM s
                    | _ \<Rightarrow> Panic)))))"

end
