(* ===== verification/Vfs.thy ===== *)
theory Vfs
  imports SfsFs
begin

text \<open>
  The VFS layer: the table of named devices (\<open>kern/vfs/vfslist.c\<close>), translation of path names (\<open>vfslookup.c\<close>), the current directory
  (\<open>vfscwd.c\<close>), the operations on path names (\<open>vfspath.c\<close>) and the vnodes of devices (\<open>device.c\<close>, \<open>devnull.c\<close>). The file
  systems behind it are SFS volumes, each with a state of its own; they share the big lock, whose depth is kept here and lent to the volume an
  operation is called on. \<open>vfs_biglock_do_i_hold\<close> is the test that this depth is positive, as the lock is meant to work; in this kernel \<open>lock_do_i_hold\<close>
  returns true always. Messages are not modelled. Strings are lists of bytes without the terminating 0.
\<close>

section \<open>Data\<close>

text \<open>A vnode is one of a volume or one of a device.\<close>

datatype vref = FsVn nat vptr | DevVn nat

record devvnode =
  dv_refcount :: int
  dv_opencount :: int
  dv_dev :: "nat option"

record knowndev =
  kd_name :: "u8 list"
  kd_rawname :: "u8 list option"
  kd_device :: "nat option"
  kd_vnode :: vref
  kd_fs :: "nat option"

text \<open>
  \<open>v_vol\<close> are the volumes by the number of the device they are on, mounted or not; \<open>v_dev\<close> the vnodes of devices and \<open>v_brk\<close> the address of
  the next one. \<open>vfs_km\<close> are the outcomes of the next allocations, success once the list is used up. \<open>d_open\<close> is the function of that
  name of each device, with the error it returns; \<open>dev_blocks\<close> and \<open>dev_blocksize\<close> are its fields \<open>d_blocks\<close> and \<open>d_blocksize\<close>, 32-bit numbers.
\<close>

record vfs =
  knowndevs :: "knowndev list"
  v_vol :: "nat \<Rightarrow> sfs_fs"
  v_dev :: "nat \<Rightarrow> devvnode option"
  v_brk :: nat
  d_devnumber :: "nat \<Rightarrow> nat"
  dev_blocks :: "nat \<Rightarrow> nat"
  dev_blocksize :: "nat \<Rightarrow> nat"
  d_open :: "nat \<Rightarrow> u32 \<Rightarrow> errno option"
  bootfs_vnode :: "vref option"
  t_cwd :: "vref option"
  vfs_km :: "bool list"
  big_depth :: nat

definition NAME_MAX :: nat where "NAME_MAX = 255"

abbreviation (input) COLON :: u8 where "COLON \<equiv> 58"
abbreviation (input) SLASH :: u8 where "SLASH \<equiv> 47"

text \<open>\<open>vfs_biglock_acquire\<close> and \<open>vfs_biglock_release\<close> on the state of the VFS layer.\<close>

definition big_acquire :: "vfs \<Rightarrow> vfs" where
  "big_acquire s = s\<lparr>big_depth := Suc (big_depth s)\<rparr>"

definition big_release :: "vfs \<Rightarrow> (unit, vfs) out" where
  "big_release s = kassert (big_depth s > 0) (Ok () (s\<lparr>big_depth := big_depth s - 1\<rparr>))"

text \<open>Leaving a function with the lock released: with an error, with a value, or with the error of a call that failed.\<close>

definition big_fail :: "errno \<Rightarrow> vfs \<Rightarrow> ('a, vfs) out" where
  "big_fail e s = kbind (big_release s) (\<lambda>_ s. Err e s)"

definition big_ret :: "'a \<Rightarrow> vfs \<Rightarrow> ('a, vfs) out" where
  "big_ret a s = kbind (big_release s) (\<lambda>_ s. Ok a s)"

fun big_bind :: "('a, vfs) out \<Rightarrow> ('a \<Rightarrow> vfs \<Rightarrow> ('b, vfs) out) \<Rightarrow> ('b, vfs) out" where
  "big_bind (Ok a s) k = k a s"
| "big_bind (Err e s) k = big_fail e s"
| "big_bind Panic k = Panic"

text \<open>A call of an operation of volume \<open>f\<close>.\<close>

definition on_vol :: "nat \<Rightarrow> (sfs_fs \<Rightarrow> ('a, sfs_fs) out) \<Rightarrow> vfs \<Rightarrow> ('a, vfs) out" where
  "on_vol f g s =
     (let back = (\<lambda>t. s\<lparr>v_vol := (v_vol s)(f := t\<lparr>biglock_depth := biglock_depth (v_vol s f)\<rparr>), big_depth := biglock_depth t\<rparr>) in
      case g ((v_vol s f)\<lparr>biglock_depth := big_depth s\<rparr>) of
        Ok a t \<Rightarrow> Ok a (back t)
      | Err e t \<Rightarrow> Err e (back t)
      | Panic \<Rightarrow> Panic)"

definition km_take :: "vfs \<Rightarrow> bool \<times> vfs" where
  "km_take s = (case vfs_km s of [] \<Rightarrow> (True, s) | b # bs \<Rightarrow> (b, s\<lparr>vfs_km := bs\<rparr>))"

section \<open>File system operations\<close>

definition FSOP_SYNC :: "nat \<Rightarrow> vfs \<Rightarrow> (unit, vfs) out" where
  "FSOP_SYNC f = on_vol f sfs_sync"

definition FSOP_GETVOLNAME :: "nat \<Rightarrow> vfs \<Rightarrow> (u8 list option, vfs) out" where
  "FSOP_GETVOLNAME f s = kbind (on_vol f sfs_getvolname s) (\<lambda>v s. Ok (Some v) s)"

definition FSOP_GETROOT :: "nat \<Rightarrow> vfs \<Rightarrow> (vref, vfs) out" where
  "FSOP_GETROOT f s = kbind (on_vol f sfs_getroot s) (\<lambda>v s. Ok (FsVn f v) s)"

definition FSOP_UNMOUNT :: "nat \<Rightarrow> vfs \<Rightarrow> (unit, vfs) out" where
  "FSOP_UNMOUNT f = on_vol f sfs_unmount"

text \<open>What \<open>sfs_mount\<close> passes to \<open>vfs_mount\<close>.\<close>

definition sfs_mountfunc :: "nat \<Rightarrow> vfs \<Rightarrow> (nat, vfs) out" where
  "sfs_mountfunc d s = kbind (on_vol d sfs_domount s) (\<lambda>_ s. Ok d s)"

section \<open>Vnode operations\<close>

definition dv_get :: "nat \<Rightarrow> vfs \<Rightarrow> (devvnode \<Rightarrow> ('a, vfs) out) \<Rightarrow> ('a, vfs) out" where
  "dv_get n s k = (case v_dev s n of Some dv \<Rightarrow> k dv | None \<Rightarrow> Panic)"

definition dv_put :: "nat \<Rightarrow> devvnode \<Rightarrow> vfs \<Rightarrow> vfs" where
  "dv_put n dv s = s\<lparr>v_dev := (v_dev s)(n \<mapsto> dv)\<rparr>"

text \<open>\<open>vnode_check\<close> for a vnode of a device, then the operation.\<close>

definition dev_vop :: "nat \<Rightarrow> (devvnode \<Rightarrow> vfs \<Rightarrow> ('a, vfs) out) \<Rightarrow> vfs \<Rightarrow> ('a, vfs) out" where
  "dev_vop n g s =
     (let s = big_acquire s in
      dv_get n s (\<lambda>dv.
        if dv_refcount dv \<le> 0 then Panic
        else if dv_opencount dv < 0 then Panic
        else kbind (big_release s) (\<lambda>_ s. g dv s)))"

fun vn_fs :: "vref \<Rightarrow> nat option" where
  "vn_fs (FsVn f v) = Some f"
| "vn_fs (DevVn n) = None"

fun VOP_INCREF :: "vref \<Rightarrow> vfs \<Rightarrow> (unit, vfs) out" where
  "VOP_INCREF (FsVn f v) s = on_vol f (vnode_incref v) s"
| "VOP_INCREF (DevVn n) s =
     (let s = big_acquire s in dv_get n s (\<lambda>dv. big_release (dv_put n (dv\<lparr>dv_refcount := dv_refcount dv + 1\<rparr>) s)))"

text \<open>The \<open>d_close\<close> of every device returns 0.\<close>

definition dev_close :: "devvnode \<Rightarrow> vfs \<Rightarrow> (unit, vfs) out" where
  "dev_close dv s = (case dv_dev dv of None \<Rightarrow> Panic | Some d \<Rightarrow> Ok () s)"

definition dev_reclaim :: "devvnode \<Rightarrow> vfs \<Rightarrow> (unit, vfs) out" where
  "dev_reclaim dv s = Ok () s"

fun VOP_DECREF :: "vref \<Rightarrow> vfs \<Rightarrow> (unit, vfs) out" where
  "VOP_DECREF (FsVn f v) s = on_vol f (vnode_decref v) s"
| "VOP_DECREF (DevVn n) s =
     (let s = big_acquire s in
      dv_get n s (\<lambda>dv. kassert (dv_refcount dv > 0)
        (if dv_refcount dv > 1 then big_release (dv_put n (dv\<lparr>dv_refcount := dv_refcount dv - 1\<rparr>) s)
         else kbind (dev_vop n dev_reclaim s) (\<lambda>_ s. big_release s))))"

fun VOP_INCOPEN :: "vref \<Rightarrow> vfs \<Rightarrow> (unit, vfs) out" where
  "VOP_INCOPEN (FsVn f v) s = on_vol f (vnode_incopen v) s"
| "VOP_INCOPEN (DevVn n) s =
     (let s = big_acquire s in dv_get n s (\<lambda>dv. big_release (dv_put n (dv\<lparr>dv_opencount := dv_opencount dv + 1\<rparr>) s)))"

fun VOP_DECOPEN :: "vref \<Rightarrow> vfs \<Rightarrow> (unit, vfs) out" where
  "VOP_DECOPEN (FsVn f v) s = on_vol f (vnode_decopen v) s"
| "VOP_DECOPEN (DevVn n) s =
     (let s = big_acquire s in
      dv_get n s (\<lambda>dv. kassert (dv_opencount dv > 0)
        (let s = dv_put n (dv\<lparr>dv_opencount := dv_opencount dv - 1\<rparr>) s in
         if dv_opencount dv - 1 > 0 then big_release s else kbind (dev_vop n dev_close s) (\<lambda>_ s. big_release s))))"

definition dev_open :: "u32 \<Rightarrow> devvnode \<Rightarrow> vfs \<Rightarrow> (unit, vfs) out" where
  "dev_open flags dv s =
     (if flags AND (4 OR 16 OR 8 OR 32) \<noteq> 0 then Err EINVAL s
      else
        (case dv_dev dv of
           None \<Rightarrow> Panic
         | Some d \<Rightarrow> (case d_open s d flags of None \<Rightarrow> Ok () s | Some e \<Rightarrow> Err e s)))"

definition dev_gettype :: "devvnode \<Rightarrow> vfs \<Rightarrow> (nat, vfs) out" where
  "dev_gettype dv s =
     (case dv_dev dv of None \<Rightarrow> Panic | Some d \<Rightarrow> Ok (if dev_blocks s d > 0 then 28672 else 24576) s)"

definition dev_truncate :: "int \<Rightarrow> devvnode \<Rightarrow> vfs \<Rightarrow> (unit, vfs) out" where
  "dev_truncate len dv s =
     (case dv_dev dv of
        None \<Rightarrow> Panic
      | Some d \<Rightarrow> if dev_blocks s d > 0 \<and> int (dev_blocks s d * dev_blocksize s d mod 2 ^ 32) = len then Ok () s else Err EINVAL s)"

definition dev_lookup :: "nat \<Rightarrow> u8 list \<Rightarrow> vfs \<Rightarrow> (vref, vfs) out" where
  "dev_lookup n pathname s =
     (if pathname \<noteq> [] then Err ENOENT s else kbind (VOP_INCREF (DevVn n) s) (\<lambda>_ s. Ok (DevVn n) s))"

fun VOP_OPEN :: "vref \<Rightarrow> u32 \<Rightarrow> vfs \<Rightarrow> (unit, vfs) out" where
  "VOP_OPEN (FsVn f v) flags s = on_vol f (vop v ''open'' (sfs_open v flags) (sfs_opendir v flags)) s"
| "VOP_OPEN (DevVn n) flags s = dev_vop n (dev_open flags) s"

fun VOP_GETTYPE :: "vref \<Rightarrow> vfs \<Rightarrow> (nat, vfs) out" where
  "VOP_GETTYPE (FsVn f v) s =
     kbind (on_vol f (vop v ''gettype'' (sfs_gettype v) (sfs_gettype v)) s) (\<lambda>ty s. Ok (case ty of S_IFREG \<Rightarrow> 4096 | S_IFDIR \<Rightarrow> 8192) s)"
| "VOP_GETTYPE (DevVn n) s = dev_vop n dev_gettype s"

fun VOP_TRUNC :: "vref \<Rightarrow> int \<Rightarrow> vfs \<Rightarrow> (unit, vfs) out" where
  "VOP_TRUNC (FsVn f v) len s = on_vol f (VOP_TRUNCATE v len) s"
| "VOP_TRUNC (DevVn n) len s = dev_vop n (dev_truncate len) s"

fun VOP_LOOKUP :: "vref \<Rightarrow> u8 list \<Rightarrow> vfs \<Rightarrow> (vref, vfs) out" where
  "VOP_LOOKUP (FsVn f v) path s =
     kbind (on_vol f (vop v ''lookup'' sfs_notdir (sfs_lookup v path)) s) (\<lambda>r s. Ok (FsVn f r) s)"
| "VOP_LOOKUP (DevVn n) path s = dev_vop n (\<lambda>_. dev_lookup n path) s"

fun VOP_LOOKPARENT :: "vref \<Rightarrow> u8 list \<Rightarrow> nat \<Rightarrow> vfs \<Rightarrow> (vref \<times> u8 list, vfs) out" where
  "VOP_LOOKPARENT (FsVn f v) path buflen s =
     kbind (on_vol f (vop v ''lookparent'' sfs_notdir (sfs_lookparent v path buflen)) s) (\<lambda>(r, name) s. Ok (FsVn f r, name) s)"
| "VOP_LOOKPARENT (DevVn n) path buflen s = dev_vop n (\<lambda>_ s. Err ENOTDIR s) s"

fun VOP_CREAT :: "vref \<Rightarrow> u8 list \<Rightarrow> bool \<Rightarrow> vfs \<Rightarrow> (vref, vfs) out" where
  "VOP_CREAT (FsVn f v) name excl s =
     kbind (on_vol f (vop v ''creat'' sfs_notdir (sfs_creat v name excl)) s) (\<lambda>r s. Ok (FsVn f r) s)"
| "VOP_CREAT (DevVn n) name excl s = dev_vop n (\<lambda>_ s. Err ENOTDIR s) s"

fun VOP_REMOVE :: "vref \<Rightarrow> u8 list \<Rightarrow> vfs \<Rightarrow> (unit, vfs) out" where
  "VOP_REMOVE (FsVn f v) name s = on_vol f (vop v ''remove'' sfs_notdir (sfs_remove v name)) s"
| "VOP_REMOVE (DevVn n) name s = dev_vop n (\<lambda>_ s. Err ENOTDIR s) s"

text \<open>\<open>rename\<close> and \<open>link\<close> take a second vnode, which their callers make sure is of the same volume.\<close>

fun VOP_RENAME :: "vref \<Rightarrow> u8 list \<Rightarrow> vref \<Rightarrow> u8 list \<Rightarrow> vfs \<Rightarrow> (unit, vfs) out" where
  "VOP_RENAME (FsVn f v) n1 (FsVn f' v') n2 s =
     kassert (f = f') (on_vol f (vop v ''rename'' sfs_notdir (sfs_rename v n1 v' n2)) s)"
| "VOP_RENAME (DevVn n) n1 d2 n2 s = dev_vop n (\<lambda>_ s. Err ENOTDIR s) s"
| "VOP_RENAME (FsVn f v) n1 (DevVn n) n2 s = Panic"

fun VOP_LINK :: "vref \<Rightarrow> u8 list \<Rightarrow> vref \<Rightarrow> vfs \<Rightarrow> (unit, vfs) out" where
  "VOP_LINK (FsVn f v) name (FsVn f' v') s =
     kassert (f = f') (on_vol f (vop v ''link'' sfs_notdir (sfs_link v name v')) s)"
| "VOP_LINK (DevVn n) name file s = dev_vop n (\<lambda>_ s. Err ENOTDIR s) s"
| "VOP_LINK (FsVn f v) name (DevVn n) s = Panic"

text \<open>\<open>symlink\<close>, \<open>mkdir\<close> and \<open>rmdir\<close>: not implemented by SFS.\<close>

fun VOP_unimp :: "string \<Rightarrow> vref \<Rightarrow> vfs \<Rightarrow> (unit, vfs) out" where
  "VOP_unimp opstr (FsVn f v) s = on_vol f (vop v opstr sfs_notdir sfs_unimp) s"
| "VOP_unimp opstr (DevVn n) s = dev_vop n (\<lambda>_ s. Err ENOTDIR s) s"

definition dev_create_vnode :: "nat option \<Rightarrow> vfs \<Rightarrow> nat option \<times> vfs" where
  "dev_create_vnode dev s =
     (let (m, s) = km_take s in
      if \<not> m then (None, s)
      else (Some (v_brk s), dv_put (v_brk s) \<lparr>dv_refcount = 1, dv_opencount = 0, dv_dev = dev\<rparr> (s\<lparr>v_brk := Suc (v_brk s)\<rparr>)))"

section \<open>The table of devices\<close>

text \<open>\<open>vfs_sync\<close> goes over the devices by index and does not look at the results.\<close>

fun sync_loop :: "knowndev list \<Rightarrow> vfs \<Rightarrow> (unit, vfs) out" where
  "sync_loop [] s = Ok () s"
| "sync_loop (dev # devs) s =
     (case kd_fs dev of
        None \<Rightarrow> sync_loop devs s
      | Some f \<Rightarrow> (case FSOP_SYNC f s of Ok _ s \<Rightarrow> sync_loop devs s | Err _ s \<Rightarrow> sync_loop devs s | Panic \<Rightarrow> Panic))"

definition vfs_sync :: "vfs \<Rightarrow> (unit, vfs) out" where
  "vfs_sync s = (let s = big_acquire s in kbind (sync_loop (knowndevs s) s) (\<lambda>_ s. big_ret () s))"

text \<open>The last two tests of the loop of \<open>vfs_getroot\<close>, with \<open>k\<close> for going on.\<close>

definition getroot_dev :: "knowndev \<Rightarrow> u8 list \<Rightarrow> vfs \<Rightarrow> (vfs \<Rightarrow> (vref, vfs) out) \<Rightarrow> (vref, vfs) out" where
  "getroot_dev kd devname s k =
     (if kd_name kd = devname then
        kassert (kd_fs kd = None) (kassert (kd_rawname kd = None) (kassert (kd_device kd \<noteq> None)
          (kbind (VOP_INCREF (kd_vnode kd) s) (\<lambda>_ s. Ok (kd_vnode kd) s))))
      else if kd_rawname kd = Some devname then
        kassert (kd_device kd \<noteq> None) (kbind (VOP_INCREF (kd_vnode kd) s) (\<lambda>_ s. Ok (kd_vnode kd) s))
      else k s)"

fun getroot_loop :: "knowndev list \<Rightarrow> u8 list \<Rightarrow> vfs \<Rightarrow> (vref, vfs) out" where
  "getroot_loop [] devname s = Err ENODEV s"
| "getroot_loop (kd # kds) devname s =
     (case kd_fs kd of
        Some f \<Rightarrow>
          kbind (FSOP_GETVOLNAME f s) (\<lambda>volname s.
            if kd_name kd = devname \<or> volname = Some devname then FSOP_GETROOT f s
            else getroot_dev kd devname s (getroot_loop kds devname))
      | None \<Rightarrow>
          if kd_rawname kd \<noteq> None \<and> kd_name kd = devname then Err ENXIO s
          else getroot_dev kd devname s (getroot_loop kds devname))"

definition vfs_getroot :: "u8 list \<Rightarrow> vfs \<Rightarrow> (vref, vfs) out" where
  "vfs_getroot devname s = kassert (big_depth s > 0) (getroot_loop (knowndevs s) devname s)"

definition vfs_getdevname :: "nat \<Rightarrow> vfs \<Rightarrow> (u8 list option, vfs) out" where
  "vfs_getdevname f s =
     kassert (big_depth s > 0) (Ok (map_option kd_name (List.find (\<lambda>kd. kd_fs kd = Some f) (knowndevs s))) s)"

definition mkrawname :: "u8 list \<Rightarrow> u8 list" where
  "mkrawname name = name @ [114, 97, 119]"

definition samestring :: "u8 list option \<Rightarrow> u8 list option \<Rightarrow> bool" where
  "samestring a b \<longleftrightarrow> a \<noteq> None \<and> b \<noteq> None \<and> a = b"

definition samestring3 :: "u8 list option \<Rightarrow> u8 list option \<Rightarrow> u8 list option \<Rightarrow> u8 list option \<Rightarrow> bool" where
  "samestring3 a b c d \<longleftrightarrow> samestring a b \<or> samestring a c \<or> samestring a d"

fun badnames_loop :: "knowndev list \<Rightarrow> u8 list option \<Rightarrow> u8 list option \<Rightarrow> u8 list option \<Rightarrow> vfs \<Rightarrow> (bool, vfs) out" where
  "badnames_loop [] n1 n2 n3 s = Ok False s"
| "badnames_loop (kd # kds) n1 n2 n3 s =
     kbind (case kd_fs kd of
              Some f \<Rightarrow> kbind (FSOP_GETVOLNAME f s) (\<lambda>volname s. Ok (samestring3 volname n1 n2 n3) s)
            | None \<Rightarrow> Ok False s) (\<lambda>bad s.
       if bad then Ok True s
       else if samestring3 (kd_rawname kd) n1 n2 n3 \<or> samestring3 (Some (kd_name kd)) n1 n2 n3 then Ok True s
       else badnames_loop kds n1 n2 n3 s)"

definition badnames :: "u8 list option \<Rightarrow> u8 list option \<Rightarrow> u8 list option \<Rightarrow> vfs \<Rightarrow> (bool, vfs) out" where
  "badnames n1 n2 n3 s = kassert (big_depth s > 0) (badnames_loop (knowndevs s) n1 n2 n3 s)"

text \<open>The exit \<open>nomem\<close> of \<open>vfs_doadd\<close> frees the vnode, when there is one.\<close>

definition doadd_nomem :: "nat option \<Rightarrow> vfs \<Rightarrow> (unit, vfs) out" where
  "doadd_nomem vnode s =
     big_fail ENOMEM (case vnode of None \<Rightarrow> s | Some v \<Rightarrow> s\<lparr>v_dev := (v_dev s)(v := None)\<rparr>)"

text \<open>From the point where everything has been allocated; the last allocation is the one that may be needed to extend the array.\<close>

definition doadd_enter :: "knowndev \<Rightarrow> vfs \<Rightarrow> (unit, vfs) out" where
  "doadd_enter kd s =
     kbind (case kd_fs kd of Some f \<Rightarrow> FSOP_GETVOLNAME f s | None \<Rightarrow> Ok None s) (\<lambda>volname s.
     kbind (badnames (Some (kd_name kd)) (kd_rawname kd) volname s) (\<lambda>bad s.
       if bad then big_fail EEXIST s
       else
         (let (m, s) = km_take s in
          if \<not> m then big_fail ENOMEM s
          else
            (let index = length (knowndevs s);
                 s = s\<lparr>knowndevs := knowndevs s @ [kd]\<rparr>;
                 s = (case kd_device kd of None \<Rightarrow> s | Some d \<Rightarrow> s\<lparr>d_devnumber := (d_devnumber s)(d := index + 1)\<rparr>)
             in big_ret () s))))"

definition vfs_doadd :: "u8 list \<Rightarrow> bool \<Rightarrow> nat option \<Rightarrow> nat option \<Rightarrow> vfs \<Rightarrow> (unit, vfs) out" where
  "vfs_doadd devname mountable dev fs s =
     (let (m1, s) = km_take (big_acquire s) in
      if \<not> m1 then doadd_nomem None s
      else
        (let (m2, s) = (if mountable then km_take s else (True, s)) in
         if \<not> m2 then doadd_nomem None s
         else
           (case dev_create_vnode dev s of
              (None, s) \<Rightarrow> doadd_nomem None s
            | (Some v, s) \<Rightarrow>
                (let (m3, s) = km_take s in
                 if \<not> m3 then doadd_nomem (Some v) s
                 else doadd_enter \<lparr>kd_name = devname, kd_rawname = (if mountable then Some (mkrawname devname) else None), kd_device = dev,
                                   kd_vnode = DevVn v, kd_fs = fs\<rparr> s))))"

definition vfs_adddev :: "u8 list \<Rightarrow> nat \<Rightarrow> bool \<Rightarrow> vfs \<Rightarrow> (unit, vfs) out" where
  "vfs_adddev devname dev mountable = vfs_doadd devname mountable (Some dev) None"

definition vfs_addfs :: "u8 list \<Rightarrow> nat \<Rightarrow> vfs \<Rightarrow> (unit, vfs) out" where
  "vfs_addfs devname fs = vfs_doadd devname False None (Some fs)"

text \<open>The null device, of number \<open>dev\<close>.\<close>

definition devnull_create :: "nat \<Rightarrow> vfs \<Rightarrow> (unit, vfs) out" where
  "devnull_create dev s =
     (let (m, s) = km_take s in
      if \<not> m then Panic
      else
        (let s = s\<lparr>dev_blocks := (dev_blocks s)(dev := 0), dev_blocksize := (dev_blocksize s)(dev := 1), d_devnumber := (d_devnumber s)(dev := 0), d_open := (d_open s)(dev := \<lambda>_. None)\<rparr> in
         case vfs_adddev [110, 117, 108, 108] dev False s of Ok _ s \<Rightarrow> Ok () s | _ \<Rightarrow> Panic))"

definition vfs_bootstrap :: "nat \<Rightarrow> vfs \<Rightarrow> (unit, vfs) out" where
  "vfs_bootstrap dev s =
     (let (m1, s) = km_take s in
      if \<not> m1 then Panic
      else
        (let (m2, s) = km_take s in
         if \<not> m2 then Panic else devnull_create dev (s\<lparr>knowndevs := [], big_depth := 0\<rparr>)))"

fun findmount_loop :: "nat \<Rightarrow> knowndev list \<Rightarrow> u8 list \<Rightarrow> nat option" where
  "findmount_loop i [] devname = None"
| "findmount_loop i (dev # devs) devname =
     (if kd_rawname dev = None then findmount_loop (Suc i) devs devname
      else if devname = kd_name dev then Some i
      else findmount_loop (Suc i) devs devname)"

text \<open>The device found is named by its index.\<close>

definition findmount :: "u8 list \<Rightarrow> vfs \<Rightarrow> (nat, vfs) out" where
  "findmount devname s =
     kassert (big_depth s > 0) (case findmount_loop 0 (knowndevs s) devname of Some i \<Rightarrow> Ok i s | None \<Rightarrow> Err ENODEV s)"

definition set_fs :: "nat \<Rightarrow> nat option \<Rightarrow> vfs \<Rightarrow> vfs" where
  "set_fs i fs s = s\<lparr>knowndevs := (knowndevs s)[i := (knowndevs s ! i)\<lparr>kd_fs := fs\<rparr>]\<rparr>"

definition vfs_mount :: "u8 list \<Rightarrow> (nat \<Rightarrow> vfs \<Rightarrow> (nat, vfs) out) \<Rightarrow> vfs \<Rightarrow> (unit, vfs) out" where
  "vfs_mount devname mountfunc s =
     big_bind (findmount devname (big_acquire s)) (\<lambda>i s.
       let kd = knowndevs s ! i in
       if kd_fs kd \<noteq> None then big_fail EBUSY s
       else kassert (kd_rawname kd \<noteq> None)
         (case kd_device kd of
            None \<Rightarrow> Panic
          | Some d \<Rightarrow>
              big_bind (mountfunc d s) (\<lambda>fs s.
                let s = set_fs i (Some fs) s in
                kbind (FSOP_GETVOLNAME fs s) (\<lambda>_ s. big_ret () s))))"

definition vfs_unmount :: "u8 list \<Rightarrow> vfs \<Rightarrow> (unit, vfs) out" where
  "vfs_unmount devname s =
     big_bind (findmount devname (big_acquire s)) (\<lambda>i s.
       let kd = knowndevs s ! i in
       case kd_fs kd of
         None \<Rightarrow> big_fail EINVAL s
       | Some f \<Rightarrow>
           kassert (kd_rawname kd \<noteq> None) (kassert (kd_device kd \<noteq> None)
             (big_bind (FSOP_SYNC f s) (\<lambda>_ s.
              big_bind (FSOP_UNMOUNT f s) (\<lambda>_ s. big_ret () (set_fs i None s))))))"

text \<open>One device of \<open>vfs_unmountall\<close>: a failed sync is tried once more, and a file system that cannot be unmounted stays.\<close>

definition unmount_one :: "nat \<Rightarrow> nat \<Rightarrow> vfs \<Rightarrow> (unit, vfs) out" where
  "unmount_one i f s =
     (let un = (\<lambda>s. case FSOP_UNMOUNT f s of Ok _ s \<Rightarrow> Ok () (set_fs i None s) | Err e s \<Rightarrow> Ok () s | Panic \<Rightarrow> Panic) in
      case FSOP_SYNC f s of
        Ok _ s \<Rightarrow> un s
      | Panic \<Rightarrow> Panic
      | Err _ s \<Rightarrow> (case FSOP_SYNC f s of Ok _ s \<Rightarrow> un s | Err _ s \<Rightarrow> Ok () s | Panic \<Rightarrow> Panic))"

fun unmountall_loop :: "nat \<Rightarrow> nat \<Rightarrow> vfs \<Rightarrow> (unit, vfs) out" where
  "unmountall_loop i 0 s = Ok () s"
| "unmountall_loop i (Suc k) s =
     (let dev = knowndevs s ! i in
      case kd_fs dev of
        None \<Rightarrow> unmountall_loop (Suc i) k s
      | Some f \<Rightarrow>
          if kd_rawname dev = None then unmountall_loop (Suc i) k s
          else kbind (unmount_one i f s) (\<lambda>_ s. unmountall_loop (Suc i) k s))"

definition vfs_unmountall :: "vfs \<Rightarrow> (unit, vfs) out" where
  "vfs_unmountall s =
     (let s = big_acquire s in kbind (unmountall_loop 0 (length (knowndevs s)) s) (\<lambda>_ s. big_ret () s))"

section \<open>The current directory\<close>

definition vfs_getcurdir :: "vfs \<Rightarrow> (vref, vfs) out" where
  "vfs_getcurdir s =
     (case t_cwd s of Some v \<Rightarrow> kbind (VOP_INCREF v s) (\<lambda>_ s. Ok v s) | None \<Rightarrow> Err ENOENT s)"

text \<open>Giving up a vnode that may be missing.\<close>

definition drop_old :: "vref option \<Rightarrow> vfs \<Rightarrow> (unit, vfs) out" where
  "drop_old old s = (case old of Some v \<Rightarrow> VOP_DECREF v s | None \<Rightarrow> Ok () s)"

definition vfs_setcurdir :: "vref \<Rightarrow> vfs \<Rightarrow> (unit, vfs) out" where
  "vfs_setcurdir dir s =
     kbind (VOP_GETTYPE dir s) (\<lambda>vtype s.
       if vtype \<noteq> 8192 then Err ENOTDIR s
       else kbind (VOP_INCREF dir s) (\<lambda>_ s. let old = t_cwd s in drop_old old (s\<lparr>t_cwd := Some dir\<rparr>)))"

definition vfs_clearcurdir :: "vfs \<Rightarrow> (unit, vfs) out" where
  "vfs_clearcurdir s = drop_old (t_cwd s) (s\<lparr>t_cwd := None\<rparr>)"

section \<open>Path names\<close>

text \<open>The positions of the first colon or slash, whichever comes first.\<close>

fun first_sep :: "nat \<Rightarrow> u8 list \<Rightarrow> nat option \<times> nat option" where
  "first_sep i [] = (None, None)"
| "first_sep i (c # cs) = (if c = COLON then (Some i, None) else if c = SLASH then (None, Some i) else first_sep (Suc i) cs)"

definition skip_slashes :: "u8 list \<Rightarrow> u8 list" where
  "skip_slashes = dropWhile (\<lambda>c. c = SLASH)"

text \<open>The result is the vnode to start from and the rest of the path.\<close>

definition getdevice :: "u8 list \<Rightarrow> vfs \<Rightarrow> (vref \<times> u8 list, vfs) out" where
  "getdevice path s =
     kassert (big_depth s > 0)
       (let (colon, slash) = first_sep 0 path in
        if colon = None \<and> slash \<noteq> Some 0 then kbind (vfs_getcurdir s) (\<lambda>vn s. Ok (vn, path) s)
        else
          (case colon of
             Some (Suc i) \<Rightarrow> kbind (vfs_getroot (take (Suc i) path) s) (\<lambda>vn s. Ok (vn, skip_slashes (drop (Suc (Suc i)) path)) s)
           | _ \<Rightarrow>
               if slash = Some 0 then
                 (case bootfs_vnode s of
                    None \<Rightarrow> Err ENOENT s
                  | Some b \<Rightarrow> kbind (VOP_INCREF b s) (\<lambda>_ s. Ok (b, skip_slashes (tl path)) s))
               else
                 kbind (vfs_getcurdir s) (\<lambda>vn s.
                   case vn_fs vn of
                     None \<Rightarrow> Panic
                   | Some f \<Rightarrow>
                       kbind (FSOP_GETROOT f s) (\<lambda>r s.
                       kbind (VOP_DECREF vn s) (\<lambda>_ s. Ok (r, skip_slashes (tl path)) s)))))"

text \<open>Giving the result of a call on, after the start vnode is given up and the lock released.\<close>

definition lookup_end :: "vref \<Rightarrow> ('a, vfs) out \<Rightarrow> ('a, vfs) out" where
  "lookup_end startvn m =
     (case m of
        Ok r s \<Rightarrow> kbind (VOP_DECREF startvn s) (\<lambda>_ s. big_ret r s)
      | Err e s \<Rightarrow> kbind (VOP_DECREF startvn s) (\<lambda>_ s. big_fail e s)
      | Panic \<Rightarrow> Panic)"

definition vfs_lookparent :: "u8 list \<Rightarrow> nat \<Rightarrow> vfs \<Rightarrow> (vref \<times> u8 list, vfs) out" where
  "vfs_lookparent path buflen s =
     big_bind (getdevice path (big_acquire s)) (\<lambda>(startvn, path) s.
       lookup_end startvn (if path = [] then Err EINVAL s else VOP_LOOKPARENT startvn path buflen s))"

definition vfs_lookup :: "u8 list \<Rightarrow> vfs \<Rightarrow> (vref, vfs) out" where
  "vfs_lookup path s =
     big_bind (getdevice path (big_acquire s)) (\<lambda>(startvn, path) s.
       if path = [] then big_ret startvn s
       else lookup_end startvn (VOP_LOOKUP startvn path s))"

definition vfs_chdir :: "u8 list \<Rightarrow> vfs \<Rightarrow> (unit, vfs) out" where
  "vfs_chdir path s =
     kbind (vfs_lookup path s) (\<lambda>vn s.
       case vfs_setcurdir vn s of
         Ok _ s \<Rightarrow> VOP_DECREF vn s
       | Err e s \<Rightarrow> kbind (VOP_DECREF vn s) (\<lambda>_ s. Err e s)
       | Panic \<Rightarrow> Panic)"

definition change_bootfs :: "vref option \<Rightarrow> vfs \<Rightarrow> (unit, vfs) out" where
  "change_bootfs newvn s = (let oldvn = bootfs_vnode s in drop_old oldvn (s\<lparr>bootfs_vnode := newvn\<rparr>))"

text \<open>\<open>snprintf\<close> leaves at most \<open>NAME_MAX - 1\<close> characters. The string from the colon on is never empty, so that every name with a colon is refused.\<close>

definition vfs_setbootfs :: "u8 list \<Rightarrow> vfs \<Rightarrow> (unit, vfs) out" where
  "vfs_setbootfs fsname s =
     (let s = big_acquire s; tmp = take (NAME_MAX - 1) fsname in
      if COLON \<in> set tmp \<and> length (dropWhile (\<lambda>c. c \<noteq> COLON) tmp) > 0 then big_fail EINVAL s
      else
        (let tmp = (if COLON \<in> set tmp then tmp else tmp @ [COLON]) in
         big_bind (vfs_chdir tmp s) (\<lambda>_ s.
         big_bind (vfs_getcurdir s) (\<lambda>newguy s.
         kbind (change_bootfs (Some newguy) s) (\<lambda>_ s. big_ret () s)))))"

definition vfs_clearbootfs :: "vfs \<Rightarrow> (unit, vfs) out" where
  "vfs_clearbootfs s = kbind (change_bootfs None (big_acquire s)) (\<lambda>_ s. big_ret () s)"

section \<open>Operations on path names\<close>

text \<open>Giving up a vnode on the way out.\<close>

definition and_decref :: "vref \<Rightarrow> ('a, vfs) out \<Rightarrow> ('a, vfs) out" where
  "and_decref v m =
     (case m of
        Ok r s \<Rightarrow> kbind (VOP_DECREF v s) (\<lambda>_ s. Ok r s)
      | Err e s \<Rightarrow> kbind (VOP_DECREF v s) (\<lambda>_ s. Err e s)
      | Panic \<Rightarrow> Panic)"

text \<open>The flags \<open>O_CREAT\<close>, \<open>O_EXCL\<close> and \<open>O_TRUNC\<close> are 4, 8 and 16.\<close>

definition open_lookup :: "u8 list \<Rightarrow> u32 \<Rightarrow> vfs \<Rightarrow> (vref, vfs) out" where
  "open_lookup path openflags s =
     (if openflags AND 4 \<noteq> 0
      then kbind (vfs_lookparent path (NAME_MAX + 1) s) (\<lambda>(dir, name) s. and_decref dir (VOP_CREAT dir name (openflags AND 8 \<noteq> 0) s))
      else vfs_lookup path s)"

definition vfs_open :: "u8 list \<Rightarrow> u32 \<Rightarrow> vfs \<Rightarrow> (vref, vfs) out" where
  "vfs_open path openflags s =
     (let how = openflags AND O_ACCMODE in
      if how > 2 then Err EINVAL s
      else
        (let canwrite = (how \<noteq> O_RDONLY) in
         kbind (open_lookup path openflags s) (\<lambda>vn s.
           case VOP_OPEN vn openflags s of
             Panic \<Rightarrow> Panic
           | Err e s \<Rightarrow> kbind (VOP_DECREF vn s) (\<lambda>_ s. Err e s)
           | Ok _ s \<Rightarrow>
               kbind (VOP_INCOPEN vn s) (\<lambda>_ s.
                 if openflags AND 16 \<noteq> 0 then
                   (case (if \<not> canwrite then Err EINVAL s else VOP_TRUNC vn 0 s) of
                      Ok _ s \<Rightarrow> Ok vn s
                    | Err e s \<Rightarrow> kbind (VOP_DECOPEN vn s) (\<lambda>_ s. kbind (VOP_DECREF vn s) (\<lambda>_ s. Err e s))
                    | Panic \<Rightarrow> Panic)
                 else Ok vn s))))"

definition vfs_close :: "vref \<Rightarrow> vfs \<Rightarrow> (unit, vfs) out" where
  "vfs_close vn s = kbind (VOP_DECOPEN vn s) (\<lambda>_ s. VOP_DECREF vn s)"

definition vfs_remove :: "u8 list \<Rightarrow> vfs \<Rightarrow> (unit, vfs) out" where
  "vfs_remove path s =
     kbind (vfs_lookparent path (NAME_MAX + 1) s) (\<lambda>(dir, name) s. and_decref dir (VOP_REMOVE dir name s))"

definition vfs_rename :: "u8 list \<Rightarrow> u8 list \<Rightarrow> vfs \<Rightarrow> (unit, vfs) out" where
  "vfs_rename oldpath newpath s =
     kbind (vfs_lookparent oldpath (NAME_MAX + 1) s) (\<lambda>(olddir, oldname) s.
       case vfs_lookparent newpath (NAME_MAX + 1) s of
         Panic \<Rightarrow> Panic
       | Err e s \<Rightarrow> kbind (VOP_DECREF olddir s) (\<lambda>_ s. Err e s)
       | Ok (newdir, newname) s \<Rightarrow>
           and_decref olddir (and_decref newdir
             (if vn_fs olddir = None \<or> vn_fs newdir = None \<or> vn_fs olddir \<noteq> vn_fs newdir then Err EXDEV s
              else VOP_RENAME olddir oldname newdir newname s)))"

definition vfs_link :: "u8 list \<Rightarrow> u8 list \<Rightarrow> vfs \<Rightarrow> (unit, vfs) out" where
  "vfs_link oldpath newpath s =
     kbind (vfs_lookup oldpath s) (\<lambda>oldfile s.
       case vfs_lookparent newpath (NAME_MAX + 1) s of
         Panic \<Rightarrow> Panic
       | Err e s \<Rightarrow> kbind (VOP_DECREF oldfile s) (\<lambda>_ s. Err e s)
       | Ok (newdir, newname) s \<Rightarrow>
           and_decref oldfile (and_decref newdir
             (if vn_fs oldfile = None \<or> vn_fs newdir = None \<or> vn_fs oldfile \<noteq> vn_fs newdir then Err EXDEV s
              else VOP_LINK newdir newname oldfile s)))"

text \<open>\<open>vfs_symlink\<close>, \<open>vfs_mkdir\<close> and \<open>vfs_rmdir\<close>.\<close>

definition vfs_nameop :: "string \<Rightarrow> u8 list \<Rightarrow> vfs \<Rightarrow> (unit, vfs) out" where
  "vfs_nameop opstr path s =
     kbind (vfs_lookparent path (NAME_MAX + 1) s) (\<lambda>(dir, name) s. and_decref dir (VOP_unimp opstr dir s))"

end
