(* ===== verification/SfsLock.thy ===== *)
theory SfsLock
  imports SfsFs
begin

text \<open>
  The big lock is recursive, and every vnode and filesystem operation takes it once and gives it
  back on every path, error paths included. The claim is about the code's structure alone: no
  assumption on the state of the filesystem or of the device is made.
\<close>

section \<open>Rules\<close>

text \<open>\<open>keeps f d m\<close>: if \<open>m\<close> returns, with a value or an error, the measure \<open>f\<close> of the state is \<open>d\<close>.\<close>

definition keeps :: "('s \<Rightarrow> 'b) \<Rightarrow> 'b \<Rightarrow> ('a, 's) out \<Rightarrow> bool" where
  "keeps f d m \<longleftrightarrow> (case m of Ok _ s \<Rightarrow> f s = d | Err _ s \<Rightarrow> f s = d | Panic \<Rightarrow> True)"

abbreviation keeps_lock :: "nat \<Rightarrow> ('a, sfs_fs) out \<Rightarrow> bool" where
  "keeps_lock \<equiv> keeps biglock_depth"

abbreviation keeps_lock_uio :: "nat \<Rightarrow> ('a, sfs_fs \<times> uio) out \<Rightarrow> bool" where
  "keeps_lock_uio \<equiv> keeps (\<lambda>su. biglock_depth (fst su))"

named_theorems lock_intro \<open>rules for \<open>keeps\<close>\<close>

lemma keeps_Ok [simp]: "keeps f d (Ok a s) \<longleftrightarrow> f s = d"
  by (simp add: keeps_def)

lemma keeps_Err [simp]: "keeps f d (Err e s) \<longleftrightarrow> f s = d"
  by (simp add: keeps_def)

lemma keeps_Panic [simp]: "keeps f d Panic"
  by (simp add: keeps_def)

lemma keeps_kbind [lock_intro]:
  "keeps f d m \<Longrightarrow> (\<And>a s. f s = d \<Longrightarrow> keeps f d (k a s)) \<Longrightarrow> keeps f d (kbind m k)"
  by (cases m) auto

lemma keeps_kassert [lock_intro]: "(b \<Longrightarrow> keeps f d m) \<Longrightarrow> keeps f d (kassert b m)"
  by (cases b) auto

lemma keeps_if [lock_intro]: "(b \<Longrightarrow> keeps f d m) \<Longrightarrow> (\<not> b \<Longrightarrow> keeps f d n) \<Longrightarrow> keeps f d (if b then m else n)"
  by simp

lemma keeps_case_out:
  "keeps f d m \<Longrightarrow> (\<And>a s. f s = d \<Longrightarrow> keeps g d' (k a s)) \<Longrightarrow> (\<And>e s. f s = d \<Longrightarrow> keeps g d' (h e s)) \<Longrightarrow>
   keeps g d' p \<Longrightarrow> keeps g d' (case m of Ok a s \<Rightarrow> k a s | Err e s \<Rightarrow> h e s | Panic \<Rightarrow> p)"
  by (cases m) auto

lemma keeps_option [lock_intro]:
  "(x = None \<Longrightarrow> keeps f d m) \<Longrightarrow> (\<And>y. x = Some y \<Longrightarrow> keeps f d (k y)) \<Longrightarrow>
   keeps f d (case x of None \<Rightarrow> m | Some y \<Rightarrow> k y)"
  by (cases x) auto

lemma keeps_prod [lock_intro]: "(\<And>a b. p = (a, b) \<Longrightarrow> keeps f d (k a b)) \<Longrightarrow> keeps f d (case p of (a, b) \<Rightarrow> k a b)"
  by (cases p) auto

lemma keeps_prod_app [lock_intro]:
  "(\<And>a b. p = (a, b) \<Longrightarrow> keeps f d (k a b s)) \<Longrightarrow> keeps f d ((case p of (a, b) \<Rightarrow> k a b) s)"
  by (cases p) auto

lemma keeps_with_uio [lock_intro]: "keeps_lock d m \<Longrightarrow> keeps_lock_uio d (with_uio m u)"
  by (cases m) auto

lemma keeps_frame:
  assumes "\<And>a t. m = Ok a t \<Longrightarrow> t = s\<lparr>sfs_device := sfs_device t\<rparr>"
    and "\<And>e t. m = Err e t \<Longrightarrow> t = s\<lparr>sfs_device := sfs_device t\<rparr>" and "biglock_depth s = d"
  shows "keeps_lock d m"
  using assms(3) sfs_device_update_sel(9) [OF assms(1)] sfs_device_update_sel(9) [OF assms(2)]
  by (cases m) auto

section \<open>Block I/O and files\<close>

lemma keeps_acquire [simp]: "biglock_depth (vfs_biglock_acquire s) = Suc (biglock_depth s)"
  by (simp add: vfs_biglock_acquire_def)

lemma keeps_release [lock_intro]: "biglock_depth s = Suc d \<Longrightarrow> keeps_lock d (vfs_biglock_release s)"
  by (simp add: vfs_biglock_release_def)

lemma keeps_rblock [lock_intro]: "biglock_depth s = d \<Longrightarrow> keeps_lock d (sfs_rblock b s)"
  by (rule keeps_frame) (auto dest: sfs_rblock_frame)

lemma keeps_wblock [lock_intro]: "biglock_depth s = d \<Longrightarrow> keeps_lock d (sfs_wblock bs b s)"
  by (rule keeps_frame) (auto dest: sfs_wblock_frame)

lemma keeps_rwblock [lock_intro]: "biglock_depth s = d \<Longrightarrow> keeps_lock_uio d (sfs_rwblock (s, u))"
proof -
  assume d: "biglock_depth s = d"
  have "keeps_lock_uio d (sfs_rwblock_retry 0 (s, u))"
  proof (cases "sfs_rwblock_retry 0 (s, u)")
    case (Ok a x)
    obtain t v where x: "x = (t, v)" by (cases x)
    have "t = s\<lparr>sfs_device := sfs_device t\<rparr>" using sfs_rwblock_retry_frame [of 0 s u] Ok x by blast
    from sfs_device_update_sel(9) [OF this] show ?thesis using Ok x d by simp
  next
    case (Err e x)
    obtain t v where x: "x = (t, v)" by (cases x)
    have "t = s\<lparr>sfs_device := sfs_device t\<rparr>" using sfs_rwblock_retry_frame [of 0 s u] Err x by blast
    from sfs_device_update_sel(9) [OF this] show ?thesis using Err x d by simp
  qed simp
  then show ?thesis by (simp add: sfs_rwblock_def kassert_def)
qed

lemma keeps_vn_get [lock_intro]: "biglock_depth s = d \<Longrightarrow> keeps_lock d (vn_get vp s)"
  by (simp add: vn_get_def split: option.splits)

lemma keeps_vn_update [lock_intro]: "biglock_depth s = d \<Longrightarrow> keeps_lock d (vn_update vp g s)"
  unfolding vn_update_def by (intro lock_intro) auto

lemma keeps_sync_inode [lock_intro]: "biglock_depth s = d \<Longrightarrow> keeps_lock d (sfs_sync_inode vp s)"
  unfolding sfs_sync_inode_def by (intro lock_intro) auto

lemma keeps_balloc [lock_intro]: "biglock_depth s = d \<Longrightarrow> keeps_lock d (sfs_balloc s)"
  unfolding sfs_balloc_def sfs_clearblock_def
  by (cases "bitmap_alloc (sfs_freemap s)") (auto simp: Let_def intro!: lock_intro)

lemma keeps_bfree [lock_intro]: "biglock_depth s = d \<Longrightarrow> keeps_lock d (sfs_bfree b s)"
  by (simp add: sfs_bfree_def split: out.splits)

lemma keeps_bused [lock_intro]: "biglock_depth s = d \<Longrightarrow> keeps_lock d (sfs_bused b s)"
  by (simp add: sfs_bused_def)

lemma keeps_bcheck [lock_intro]: "biglock_depth s = d \<Longrightarrow> keeps_lock d (sfs_bcheck b s)"
  unfolding sfs_bcheck_def by (intro lock_intro) auto

lemma keeps_bmap_entry [lock_intro]: "biglock_depth s = d \<Longrightarrow> keeps_lock d (sfs_bmap_entry ib buf j a s)"
  unfolding sfs_bmap_entry_def Let_def by (intro lock_intro) auto

lemma keeps_bmap [lock_intro]: "biglock_depth s = d \<Longrightarrow> keeps_lock d (sfs_bmap vp fb a s)"
  unfolding sfs_bmap_def Let_def by (intro lock_intro) (auto intro!: lock_intro)

lemma keeps_truncate_direct [lock_intro]:
  "biglock_depth s = d \<Longrightarrow> keeps_lock d (truncate_direct i n vp bl s)"
  by (induction n arbitrary: i s) (auto simp: Let_def intro!: lock_intro)

lemma keeps_truncate_indirect [lock_intro]:
  "biglock_depth s = d \<Longrightarrow> keeps_lock d (truncate_indirect j n bl buf nz dirty s)"
  by (induction n arbitrary: j buf nz dirty s) (auto intro!: lock_intro)

lemma keeps_truncate_idblock [lock_intro]: "biglock_depth s = d \<Longrightarrow> keeps_lock d (truncate_idblock vp bl s)"
  unfolding truncate_idblock_def Let_def by (intro lock_intro) (auto intro!: lock_intro)

text \<open>A call that cannot return an error, made under another depth of the lock.\<close>

definition noerr :: "('a, 's) out \<Rightarrow> bool" where
  "noerr m \<longleftrightarrow> (\<forall>e s. m \<noteq> Err e s)"

named_theorems noerr_intro \<open>calls that return no error\<close>

lemma noerr_simps [simp]: "noerr (Ok a s)" "noerr Panic" "\<not> noerr (Err e s)"
  by (auto simp: noerr_def)

lemma noerr_kbind [noerr_intro]: "noerr m \<Longrightarrow> (\<And>a s. noerr (k a s)) \<Longrightarrow> noerr (kbind m k)"
  by (cases m) auto

lemma noerr_kassert [noerr_intro]: "noerr m \<Longrightarrow> noerr (kassert b m)"
  by (cases b) auto

lemma noerr_if [noerr_intro]: "noerr m \<Longrightarrow> noerr n \<Longrightarrow> noerr (if b then m else n)"
  by simp

lemma keeps_under:
  "noerr m \<Longrightarrow> keeps f d' m \<Longrightarrow> (\<And>a s. f s = d' \<Longrightarrow> keeps f d (k a s)) \<Longrightarrow> keeps f d (kbind m k)"
  by (cases m) auto

lemma noerr_vn_get [noerr_intro]: "noerr (vn_get vp s)"
  by (simp add: vn_get_def split: option.splits)

lemma noerr_release [noerr_intro]: "noerr (vfs_biglock_release s)"
  by (simp add: vfs_biglock_release_def kassert_def)

lemma keeps_get [lock_intro]: "(\<And>sv. keeps f d (k sv s)) \<Longrightarrow> keeps f d (kbind (vn_get vp s) k)"
  by (simp add: vn_get_def split: option.splits)

lemma keeps_fail_unlock [lock_intro]: "biglock_depth s = Suc d \<Longrightarrow> keeps_lock d (fail_unlock e s)"
  by (simp add: fail_unlock_def vfs_biglock_release_def)

lemma keeps_ret_unlock [lock_intro]: "biglock_depth s = Suc d \<Longrightarrow> keeps_lock d (ret_unlock a s)"
  by (simp add: ret_unlock_def vfs_biglock_release_def)

lemma keeps_kbind_unlock [lock_intro]:
  "keeps_lock (Suc d) m \<Longrightarrow> (\<And>a s. biglock_depth s = Suc d \<Longrightarrow> keeps_lock d (k a s)) \<Longrightarrow>
   keeps_lock d (kbind_unlock m k)"
  by (cases m) (auto intro: keeps_fail_unlock)

lemma keeps_ignore_err [lock_intro]:
  "keeps_lock d' m \<Longrightarrow> (\<And>s. biglock_depth s = d' \<Longrightarrow> keeps_lock d (k s)) \<Longrightarrow> keeps_lock d (ignore_err m k)"
  by (cases m) auto

lemma keeps_truncate [lock_intro]: "biglock_depth s = d \<Longrightarrow> keeps_lock d (sfs_truncate vp len s)"
  unfolding sfs_truncate_def Let_def
  by (rule keeps_case_out [where d = "Suc d" and f = biglock_depth])
    (auto simp: vn_get_def vfs_biglock_release_def split: option.splits intro!: keeps_kbind
      keeps_truncate_direct keeps_truncate_idblock)

lemma keeps_partialio [lock_intro]: "biglock_depth (fst su) = d \<Longrightarrow> keeps_lock_uio d (sfs_partialio vp k n su)"
  unfolding sfs_partialio_def Let_def
  by (cases su) (auto intro!: lock_intro split: out.split)

lemma keeps_movezeros [lock_intro]: "biglock_depth s = d \<Longrightarrow> keeps_lock_uio d
    (case uiomovezeros n u of Ok _ u \<Rightarrow> Ok () (s, u) | Err e u \<Rightarrow> Err e (s, u) | Panic \<Rightarrow> Panic)"
  by (simp split: out.split)

lemma keeps_blockio [lock_intro]: "biglock_depth (fst su) = d \<Longrightarrow> keeps_lock_uio d (sfs_blockio vp su)"
  unfolding sfs_blockio_def Let_def
  by (cases su) (auto intro!: lock_intro keeps_case_out [where f = "\<lambda>su. biglock_depth (fst su)" and d = d])

lemma keeps_io_blocks [lock_intro]: "biglock_depth (fst su) = d \<Longrightarrow> keeps_lock_uio d (sfs_io_blocks n vp su)"
  by (induction n arbitrary: su) (auto intro!: lock_intro)

lemma keeps_io_aligned [lock_intro]: "biglock_depth (fst su) = d \<Longrightarrow> keeps_lock_uio d (sfs_io_aligned vp su)"
  unfolding sfs_io_aligned_def by (cases su) (auto intro!: lock_intro)

lemma keeps_io_region [lock_intro]: "biglock_depth (fst su) = d \<Longrightarrow> keeps_lock_uio d (sfs_io_region vp su)"
  unfolding sfs_io_region_def Let_def by (cases su) (auto intro!: lock_intro)

lemma keeps_io_out [lock_intro]: "biglock_depth (fst su) = d \<Longrightarrow> keeps_lock_uio d (sfs_io_out vp x su)"
  unfolding sfs_io_out_def Let_def by (cases su) (auto intro!: lock_intro)

lemma keeps_io [lock_intro]: "biglock_depth s = d \<Longrightarrow> keeps_lock_uio d (sfs_io vp (s, u))"
  unfolding sfs_io_def Let_def split_conv
  by (intro lock_intro keeps_case_out [where f = "\<lambda>su. biglock_depth (fst su)" and d = d]) auto

section \<open>Directories and vnodes\<close>

lemma keeps_readdir [lock_intro]: "biglock_depth s = d \<Longrightarrow> keeps_lock d (sfs_readdir vp k s)"
  unfolding sfs_readdir_def
  by (rule keeps_case_out [where f = "\<lambda>su. biglock_depth (fst su)" and d = d]) (auto intro!: lock_intro)

lemma keeps_writedir [lock_intro]: "biglock_depth s = d \<Longrightarrow> keeps_lock d (sfs_writedir vp sd k s)"
  unfolding sfs_writedir_def
  by (rule keeps_case_out [where f = "\<lambda>su. biglock_depth (fst su)" and d = d]) (auto intro!: lock_intro)

lemma keeps_nentries [lock_intro]: "biglock_depth s = d \<Longrightarrow> keeps_lock d (sfs_dir_nentries vp s)"
  unfolding sfs_dir_nentries_def Let_def by (intro lock_intro) auto

lemma keeps_findname_loop [lock_intro]:
  "biglock_depth s = d \<Longrightarrow> keeps_lock d (findname_loop i n vp name fnd es s)"
  by (induction n arbitrary: i fnd es s) (auto intro!: lock_intro)

lemma keeps_findname [lock_intro]: "biglock_depth s = d \<Longrightarrow> keeps_lock d (sfs_dir_findname vp name s)"
  unfolding sfs_dir_findname_def by (intro lock_intro)

lemma keeps_dir_link [lock_intro]: "biglock_depth s = d \<Longrightarrow> keeps_lock d (sfs_dir_link vp name ino s)"
  unfolding sfs_dir_link_def by (auto intro!: lock_intro)

lemma keeps_dir_unlink [lock_intro]: "biglock_depth s = d \<Longrightarrow> keeps_lock d (sfs_dir_unlink vp k s)"
  unfolding sfs_dir_unlink_def by (intro lock_intro)

lemma keeps_vnodearray [lock_intro]:
  "biglock_depth s = d \<Longrightarrow> keeps_lock d (vnodearray_add vp s)"
  "biglock_depth s = d \<Longrightarrow> keeps_lock d (vnodearray_get i s)"
  "biglock_depth s = d \<Longrightarrow> keeps_lock d (vnodearray_remove i s)"
  by (auto simp: vnodearray_add_def vnodearray_get_def vnodearray_remove_def km_next_def Let_def
      split: out.split list.split)

lemma noerr_vnodearray [noerr_intro]: "noerr (vnodearray_get i s)" "noerr (vnodearray_remove i s)"
  by (auto simp: vnodearray_get_def vnodearray_remove_def array_get_def array_remove_def kassert_def
      split: out.split)

lemma keeps_vnode_ops [lock_intro]:
  "biglock_depth s = d \<Longrightarrow> keeps_lock d (vnode_cleanup vp s)"
  "biglock_depth s = d \<Longrightarrow> keeps_lock d (vnode_incref vp s)"
  "biglock_depth s = d \<Longrightarrow> keeps_lock d (vnode_check vp opstr s)"
  "biglock_depth s = d \<Longrightarrow> keeps_lock d (vnode_incopen vp s)"
  by (auto simp: vnode_cleanup_def vnode_incref_def vnode_check_def vnode_incopen_def vn_update_def vn_get_def
      vfs_biglock_release_def Let_def kassert_def split: option.split)

lemma noerr_vnode_ops [noerr_intro]:
  "noerr (vnode_cleanup vp s)" "noerr (vn_update vp g s)" "noerr (vnode_incref vp s)"
  "noerr (sfs_bfree b s)" "noerr (link_inc vp s)" "noerr (link_dec vp s)"
  by (auto simp: vnode_cleanup_def vnode_incref_def vn_update_def vn_get_def link_inc_def link_dec_def
      vfs_biglock_release_def sfs_bfree_def bitmap_unmark_def Let_def kassert_def split: option.split out.split prod.split)

lemma keeps_vop [lock_intro]:
  assumes "biglock_depth s = d" and "\<And>t. biglock_depth t = d \<Longrightarrow> keeps_lock d (g t)"
    and "\<And>t. biglock_depth t = d \<Longrightarrow> keeps_lock d (h t)"
  shows "keeps_lock d (vop vp opstr g h s)"
  unfolding vop_def using assms by (intro lock_intro) (auto split: vnode_ops.split)

lemma keeps_fsync [lock_intro]: "biglock_depth s = d \<Longrightarrow> keeps_lock d (sfs_fsync vp s)"
  unfolding sfs_fsync_def by (intro lock_intro) auto

lemma keeps_VOP_FSYNC [lock_intro]: "biglock_depth s = d \<Longrightarrow> keeps_lock d (VOP_FSYNC vp s)"
  unfolding VOP_FSYNC_def by (intro lock_intro)

lemma keeps_VOP_TRUNCATE [lock_intro]: "biglock_depth s = d \<Longrightarrow> keeps_lock d (VOP_TRUNCATE vp len s)"
  unfolding VOP_TRUNCATE_def sfs_isdir_def by (intro lock_intro) auto

lemma vnode_index_keeps [lock_intro]: "biglock_depth s = d \<Longrightarrow> keeps_lock d (vnode_index i n vp s)"
  by (induction n arbitrary: i s) (auto intro!: lock_intro)

lemma vnode_index_noerr [noerr_intro]: "noerr (vnode_index i n vp s)"
  by (induction n arbitrary: i s) (auto intro!: noerr_intro)

lemma keeps_release_then [lock_intro]:
  "biglock_depth s = Suc d \<Longrightarrow> (\<And>t. biglock_depth t = d \<Longrightarrow> keeps_lock d (k () t)) \<Longrightarrow>
   keeps_lock d (kbind (vfs_biglock_release s) k)"
  by (simp add: vfs_biglock_release_def)

text \<open>Bodies that run with the lock taken once more: what they call cannot fail, up to the unlocking.\<close>

lemmas locked_body = keeps_prod_app keeps_get keeps_if keeps_kassert keeps_option keeps_prod keeps_kbind_unlock keeps_release_then
  keeps_fail_unlock keeps_ret_unlock keeps_release

lemma keeps_reclaim [lock_intro]: "biglock_depth s = d \<Longrightarrow> keeps_lock d (sfs_reclaim vp s)"
  unfolding sfs_reclaim_def
  by (intro locked_body keeps_under [where d' = "Suc d"] noerr_intro) (auto intro!: lock_intro)

lemma keeps_VOP_RECLAIM [lock_intro]: "biglock_depth s = d \<Longrightarrow> keeps_lock d (VOP_RECLAIM vp s)"
  unfolding VOP_RECLAIM_def by (intro lock_intro)

lemma keeps_decref [lock_intro]: "biglock_depth s = d \<Longrightarrow> keeps_lock d (vnode_decref vp s)"
  unfolding vnode_decref_def
  by (intro locked_body keeps_ignore_err [where d' = "Suc d"]) (auto intro!: lock_intro)

lemma noerr_ignore_err [noerr_intro]: "(\<And>s. noerr (k s)) \<Longrightarrow> noerr (ignore_err m k)"
  by (cases m) auto

lemma noerr_decref [noerr_intro]: "noerr (vnode_decref vp s)"
  unfolding vnode_decref_def by (intro noerr_intro)

lemma keeps_close [lock_intro]: "biglock_depth s = d \<Longrightarrow> keeps_lock d (sfs_close vp s)"
  unfolding sfs_close_def by (intro lock_intro)

lemma keeps_decopen [lock_intro]: "biglock_depth s = d \<Longrightarrow> keeps_lock d (vnode_decopen vp s)"
  unfolding vnode_decopen_def Let_def
  by (intro locked_body keeps_ignore_err [where d' = "Suc d"]) (auto intro!: lock_intro)

lemma keeps_simple_ops [lock_intro]:
  assumes "biglock_depth s = d"
  shows "keeps_lock d (sfs_open vp fl s)" "keeps_lock d (sfs_opendir vp fl s)" "keeps_lock d (sfs_ioctl vp op data s)"
    "keeps_lock d (sfs_tryseek vp pos s)" "keeps_lock d (sfs_mmap vp s)" "keeps_lock_uio d (sfs_namefile vp (s, u))"
  using assms
  by (auto simp: sfs_open_def sfs_opendir_def sfs_ioctl_def sfs_tryseek_def sfs_mmap_def sfs_namefile_def
      intro!: lock_intro)

lemma keeps_gettype [lock_intro]: "biglock_depth s = d \<Longrightarrow> keeps_lock d (sfs_gettype vp s)"
  unfolding sfs_gettype_def by (intro locked_body) auto

lemma keeps_stat [lock_intro]: "biglock_depth s = d \<Longrightarrow> keeps_lock d (sfs_stat vp s)"
  unfolding sfs_stat_def by (intro lock_intro) auto

lemma keeps_read [lock_intro]: "biglock_depth s = d \<Longrightarrow> keeps_lock_uio d (sfs_read vp (s, u))"
  unfolding sfs_read_def split_conv
  by (intro keeps_kassert keeps_case_out [where f = "\<lambda>su. biglock_depth (fst su)" and d = "Suc d"])
    (auto intro!: lock_intro)

lemma keeps_write [lock_intro]: "biglock_depth s = d \<Longrightarrow> keeps_lock_uio d (sfs_write vp (s, u))"
  unfolding sfs_write_def split_conv
  by (intro keeps_kassert keeps_case_out [where f = "\<lambda>su. biglock_depth (fst su)" and d = "Suc d"])
    (auto intro!: lock_intro)

section \<open>Names, mounting and syncing\<close>

lemma keeps_vnode_search [lock_intro]: "biglock_depth s = d \<Longrightarrow> keeps_lock d (vnode_search i n ino s)"
  by (induction n arbitrary: i s) (auto intro!: lock_intro)

lemma km_next_depth: "km_next s = (ok, t) \<Longrightarrow> biglock_depth t = biglock_depth s"
  by (auto simp: km_next_def split: list.splits)

lemma keeps_loadvnode [lock_intro]: "biglock_depth s = d \<Longrightarrow> keeps_lock d (sfs_loadvnode ino ft s)"
  unfolding sfs_loadvnode_def Let_def
  by (intro lock_intro keeps_case_out [where f = biglock_depth and d = d])
    (auto simp: km_next_depth intro!: lock_intro)

lemma keeps_lookonce [lock_intro]: "biglock_depth s = d \<Longrightarrow> keeps_lock d (sfs_lookonce vp name s)"
  unfolding sfs_lookonce_def by (auto intro!: lock_intro)

lemma keeps_makeobj [lock_intro]: "biglock_depth s = d \<Longrightarrow> keeps_lock d (sfs_makeobj ty s)"
  unfolding sfs_makeobj_def by (intro lock_intro)

lemma keeps_getroot [lock_intro]: "biglock_depth s = d \<Longrightarrow> keeps_lock d (sfs_getroot s)"
  unfolding sfs_getroot_def
  by (rule keeps_case_out [where f = biglock_depth and d = "Suc d"]) (auto intro!: lock_intro)

lemma keeps_links [lock_intro]:
  "biglock_depth s = d \<Longrightarrow> keeps_lock d (link_inc vp s)" "biglock_depth s = d \<Longrightarrow> keeps_lock d (link_dec vp s)"
  unfolding link_inc_def link_dec_def by (intro lock_intro; simp)+

text \<open>A call that may fail, made with the lock taken once more, whose error path unlocks by itself.\<close>

lemmas locked_call = keeps_case_out [where f = biglock_depth and g = biglock_depth and d = "Suc d" and d' = d] for d

lemma keeps_creat [lock_intro]: "biglock_depth s = d \<Longrightarrow> keeps_lock d (sfs_creat vp name excl s)"
  unfolding sfs_creat_def
  by (intro locked_body keeps_under [where d' = "Suc d"] locked_call noerr_intro) (auto intro!: lock_intro)

lemma keeps_link [lock_intro]: "biglock_depth s = d \<Longrightarrow> keeps_lock d (sfs_link dir name file s)"
  unfolding sfs_link_def
  by (intro locked_body keeps_under [where d' = "Suc d"] locked_call noerr_intro) (auto intro!: lock_intro)

lemma keeps_remove [lock_intro]: "biglock_depth s = d \<Longrightarrow> keeps_lock d (sfs_remove dir name s)"
  unfolding sfs_remove_def
  by (intro locked_body keeps_under [where d' = "Suc d"] locked_call noerr_intro) (auto intro!: lock_intro)

lemma keeps_rename [lock_intro]: "biglock_depth s = d \<Longrightarrow> keeps_lock d (sfs_rename d1 n1 d2 n2 s)"
  unfolding sfs_rename_def
  by (intro locked_body keeps_under [where d' = "Suc d"] locked_call noerr_intro) (auto intro!: lock_intro)

lemma keeps_lookparent [lock_intro]: "biglock_depth s = d \<Longrightarrow> keeps_lock d (sfs_lookparent vp path n s)"
  unfolding sfs_lookparent_def
  by (intro locked_body keeps_under [where d' = "Suc d"] noerr_intro) (auto intro!: lock_intro)

lemma keeps_lookup [lock_intro]: "biglock_depth s = d \<Longrightarrow> keeps_lock d (sfs_lookup vp path s)"
  unfolding sfs_lookup_def by (intro locked_body) (auto intro!: lock_intro)

lemma keeps_mapio_loop [lock_intro]: "biglock_depth s = d \<Longrightarrow> keeps_lock d (sfs_mapio_loop j n rw s)"
  by (induction n arbitrary: j s) (auto intro!: lock_intro)

lemma keeps_mapio [lock_intro]: "biglock_depth s = d \<Longrightarrow> keeps_lock d (sfs_mapio rw s)"
  unfolding sfs_mapio_def by (intro lock_intro)

lemma keeps_sync_vnodes [lock_intro]: "biglock_depth s = d \<Longrightarrow> keeps_lock d (sync_vnodes i n s)"
  by (induction n arbitrary: i s) (auto intro!: lock_intro)

lemma noerr_sync_vnodes [noerr_intro]: "noerr (sync_vnodes i n s)"
  by (induction n arbitrary: i s) (auto intro!: noerr_intro)

lemma keeps_sync [lock_intro]: "biglock_depth s = d \<Longrightarrow> keeps_lock d (sfs_sync s)"
  unfolding sfs_sync_def Let_def
  by (intro locked_body keeps_under [where d' = "Suc d" and d = d] noerr_intro) (auto intro!: lock_intro)

lemma keeps_getvolname [lock_intro]: "biglock_depth s = d \<Longrightarrow> keeps_lock d (sfs_getvolname s)"
  unfolding sfs_getvolname_def Let_def by (intro locked_body) simp

lemma keeps_unmount [lock_intro]: "biglock_depth s = d \<Longrightarrow> keeps_lock d (sfs_unmount s)"
  unfolding sfs_unmount_def Let_def by (auto split: out.split intro!: locked_body)

lemma km_next2_depth: "km_next2 s = (a, b, t) \<Longrightarrow> biglock_depth t = biglock_depth s"
  by (auto simp: km_next2_def km_next_depth split: prod.splits if_splits)

lemma keeps_case_other:
  "(\<And>a x. keeps f d (k a x)) \<Longrightarrow> (\<And>e x. keeps f d (h e x)) \<Longrightarrow> keeps f d p \<Longrightarrow>
   keeps f d (case m of Ok a x \<Rightarrow> k a x | Err e x \<Rightarrow> h e x | Panic \<Rightarrow> p)"
  by (cases m) auto

lemma keeps_domount [lock_intro]: "biglock_depth s = d \<Longrightarrow> keeps_lock d (sfs_domount s)"
  unfolding sfs_domount_def Let_def
  by (intro locked_body keeps_case_other) (auto simp: km_next2_depth intro!: lock_intro)

end
