(* ===== verification/VfsTable.thy ===== *)
theory VfsTable
  imports Vfs SfsLock
begin

text \<open>
  The table of devices: names resolve to the one device that has them, whatever the order of the table, and the operations on the table keep
  that so.
\<close>

section \<open>Volumes keep their names\<close>

lemma keeps_super_block [intro]: "sfs_super s = sp \<Longrightarrow> keeps sfs_super sp (sfs_wblock bs b s)" "sfs_super s = sp \<Longrightarrow> keeps sfs_super sp (sfs_rblock b s)"
proof -
  assume s: "sfs_super s = sp"
  show "keeps sfs_super sp (sfs_wblock bs b s)"
    using s sfs_device_update_sel(1) [OF sfs_wblock_frame(1)] sfs_device_update_sel(1) [OF sfs_wblock_frame(2)] by (cases "sfs_wblock bs b s") auto
  show "keeps sfs_super sp (sfs_rblock b s)"
    using s sfs_device_update_sel(1) [OF sfs_rblock_frame(1)] sfs_device_update_sel(1) [OF sfs_rblock_frame(2)] by (cases "sfs_rblock b s") auto
qed

lemma super_lock [simp]: "sfs_super (vfs_biglock_acquire s) = sfs_super s"
  "keeps sfs_super sp (vfs_biglock_release s) \<longleftrightarrow> biglock_depth s > 0 \<longrightarrow> sfs_super s = sp"
  by (simp_all add: vfs_biglock_acquire_def vfs_biglock_release_def kassert_def)

lemma keeps_super_unlock:
  "sfs_super s = sp \<Longrightarrow> keeps sfs_super sp (fail_unlock e s)" "sfs_super s = sp \<Longrightarrow> keeps sfs_super sp (ret_unlock a s)"
  "keeps sfs_super sp m \<Longrightarrow> (\<And>a s. sfs_super s = sp \<Longrightarrow> keeps sfs_super sp (k a s)) \<Longrightarrow> keeps sfs_super sp (kbind_unlock m k)"
  by (auto simp: fail_unlock_def ret_unlock_def vfs_biglock_release_def kassert_def) (cases m; auto simp: fail_unlock_def vfs_biglock_release_def kassert_def)

lemma keeps_super_vnode:
  "sfs_super s = sp \<Longrightarrow> keeps sfs_super sp (vn_get v s)" "sfs_super s = sp \<Longrightarrow> keeps sfs_super sp (vnode_check v x s)"
  "sfs_super s = sp \<Longrightarrow> keeps sfs_super sp (vnodearray_get i s)"
  by (auto simp: vn_get_def vnode_check_def vnodearray_get_def Let_def vfs_biglock_release_def kassert_def split: option.split out.split)

lemmas super_intro = keeps_kbind keeps_if keeps_prod keeps_option keeps_super_unlock keeps_super_vnode keeps_super_block

lemma keeps_super_fsync: "sfs_super s = sp \<Longrightarrow> keeps sfs_super sp (VOP_FSYNC v s)"
proof -
  have i: "keeps sfs_super sp (sfs_sync_inode v s)" if "sfs_super s = sp" for s
    unfolding sfs_sync_inode_def using that by (intro super_intro) (auto simp: vn_put_def)
  then have "keeps sfs_super sp (sfs_fsync v s)" if "sfs_super s = sp" for s
    unfolding sfs_fsync_def using that by (intro super_intro) auto
  then show "sfs_super s = sp \<Longrightarrow> keeps sfs_super sp (VOP_FSYNC v s)"
    unfolding VOP_FSYNC_def vop_def by (intro super_intro) (auto split: vnode_ops.split)
qed

lemma keeps_super_sync_vnodes: "sfs_super s = sp \<Longrightarrow> keeps sfs_super sp (sync_vnodes i n s)"
proof (induction n arbitrary: i s)
  case (Suc n)
  have "keeps sfs_super sp (ignore_err (VOP_FSYNC v s) (\<lambda>s. sync_vnodes (Suc i) n s))" if "sfs_super s = sp" for v s
    using keeps_super_fsync [OF that, of v] Suc.IH by (cases "VOP_FSYNC v s") auto
  then show ?case using Suc.prems by (auto intro!: super_intro)
qed simp

lemma keeps_super_mapio: "sfs_super s = sp \<Longrightarrow> keeps sfs_super sp (sfs_mapio UIO_WRITE s)"
proof -
  have "sfs_super s = sp \<Longrightarrow> keeps sfs_super sp (sfs_mapio_loop j n UIO_WRITE s)" for j n s
    by (induction n arbitrary: j s) (auto intro!: super_intro)
  then show "sfs_super s = sp \<Longrightarrow> keeps sfs_super sp (sfs_mapio UIO_WRITE s)" by (simp add: sfs_mapio_def)
qed

lemma keeps_super_sync: "keeps sfs_super (sfs_super s) (sfs_sync s)"
  unfolding sfs_sync_def Let_def
  by (intro super_intro keeps_super_sync_vnodes keeps_super_mapio) auto

lemma keeps_super_unmount: "keeps sfs_super (sfs_super s) (sfs_unmount s)"
  unfolding sfs_unmount_def Let_def
  by (auto intro!: keeps_super_unlock keeps_kassert split: out.split)

section \<open>Calls of a volume\<close>

definition vol_name :: "vfs \<Rightarrow> nat \<Rightarrow> u8 list" where
  "vol_name s f = cstr (sp_volname (sfs_super (v_vol s f)))"

lemma getvolname_eq [simp]: "FSOP_GETVOLNAME f s = Ok (Some (vol_name s f)) s"
proof -
  have "(v_vol s f)\<lparr>biglock_depth := x, biglock_depth := biglock_depth (v_vol s f)\<rparr> = v_vol s f" for x by (cases "v_vol s f") simp
  then show ?thesis
    by (simp add: FSOP_GETVOLNAME_def on_vol_def sfs_getvolname_def ret_unlock_def vfs_biglock_acquire_def vfs_biglock_release_def vol_name_def Let_def)
qed

text \<open>Only volume \<open>f\<close> has changed.\<close>

definition vol_only :: "nat \<Rightarrow> vfs \<Rightarrow> vfs \<Rightarrow> bool" where
  "vol_only f s t \<longleftrightarrow> (\<exists>v. t = s\<lparr>v_vol := (v_vol s)(f := v)\<rparr>)"

lemma vol_only_sel:
  assumes "vol_only f s t"
  shows "knowndevs t = knowndevs s" "big_depth t = big_depth s" "g \<noteq> f \<Longrightarrow> vol_name t g = vol_name s g" "v_dev t = v_dev s"
  using assms by (auto simp: vol_only_def vol_name_def)

lemma on_vol_only:
  assumes "\<And>u. keeps_lock (biglock_depth u) (g u)"
  shows "on_vol f g s = Ok a t \<Longrightarrow> vol_only f s t" "on_vol f g s = Err e t \<Longrightarrow> vol_only f s t"
  using assms [of "(v_vol s f)\<lparr>biglock_depth := big_depth s\<rparr>"]
  by (auto simp: on_vol_def vol_only_def Let_def keeps_def split: out.splits)

lemma on_vol_name:
  assumes "\<And>u. keeps sfs_super (sfs_super u) (g u)"
  shows "on_vol f g s = Ok a t \<Longrightarrow> vol_name t h = vol_name s h" "on_vol f g s = Err e t \<Longrightarrow> vol_name t h = vol_name s h"
  using assms [of "(v_vol s f)\<lparr>biglock_depth := big_depth s\<rparr>"]
  by (auto simp: on_vol_def vol_name_def Let_def keeps_def split: out.splits)

text \<open>A call that keeps the table and the names.\<close>

definition table_kept :: "vfs \<Rightarrow> vfs \<Rightarrow> bool" where
  "table_kept s t \<longleftrightarrow> knowndevs t = knowndevs s \<and> big_depth t = big_depth s \<and> (\<forall>f. vol_name t f = vol_name s f)"

lemma sync_kept: "FSOP_SYNC f s = Ok a t \<Longrightarrow> table_kept s t" "FSOP_SYNC f s = Err e t \<Longrightarrow> table_kept s t"
  using on_vol_only [of sfs_sync f s] on_vol_name [of sfs_sync f s] keeps_sync [OF refl] keeps_super_sync vol_only_sel
  unfolding FSOP_SYNC_def table_kept_def by metis+

lemma unmount_kept: "FSOP_UNMOUNT f s = Ok a t \<Longrightarrow> table_kept s t" "FSOP_UNMOUNT f s = Err e t \<Longrightarrow> table_kept s t"
  using on_vol_only [of sfs_unmount f s] on_vol_name [of sfs_unmount f s] keeps_unmount [OF refl] keeps_super_unmount vol_only_sel
  unfolding FSOP_UNMOUNT_def table_kept_def by metis+

lemma domount_only: "sfs_mountfunc d s = Ok f t \<Longrightarrow> f = d \<and> vol_only d s t" "sfs_mountfunc d s = Err e t \<Longrightarrow> vol_only d s t"
  using on_vol_only [of sfs_domount d s] keeps_domount [OF refl] by (cases "on_vol d sfs_domount s"; auto simp: sfs_mountfunc_def)+

section \<open>Names\<close>

text \<open>All the names a device goes by.\<close>

definition names :: "vfs \<Rightarrow> knowndev \<Rightarrow> u8 list set" where
  "names s kd = {kd_name kd} \<union> set_option (kd_rawname kd) \<union> vol_name s ` set_option (kd_fs kd)"

text \<open>What a name of the device stands for: the root of the file system, no file system, or the device itself.\<close>

definition resolved :: "knowndev \<Rightarrow> u8 list \<Rightarrow> vfs \<Rightarrow> (vref, vfs) out" where
  "resolved kd n s =
     (case kd_fs kd of
        Some f \<Rightarrow> if n = kd_name kd \<or> n = vol_name s f then FSOP_GETROOT f s else kbind (VOP_INCREF (kd_vnode kd) s) (\<lambda>_ s. Ok (kd_vnode kd) s)
      | None \<Rightarrow> if n = kd_name kd \<and> kd_rawname kd \<noteq> None then Err ENXIO s else kbind (VOP_INCREF (kd_vnode kd) s) (\<lambda>_ s. Ok (kd_vnode kd) s))"

text \<open>Without a device there is only the file system.\<close>

definition kd_ok :: "knowndev \<Rightarrow> bool" where
  "kd_ok kd \<longleftrightarrow> (kd_device kd = None \<longrightarrow> kd_rawname kd = None \<and> kd_fs kd \<noteq> None) \<and>
     (\<forall>f. kd_rawname kd \<noteq> None \<longrightarrow> kd_fs kd = Some f \<longrightarrow> kd_device kd = Some f)"

definition kd_objs :: "knowndev \<Rightarrow> nat set" where
  "kd_objs kd = set_option (kd_device kd) \<union> set_option (kd_fs kd)"

definition apart :: "vfs \<Rightarrow> knowndev \<Rightarrow> knowndev \<Rightarrow> bool" where
  "apart s a b \<longleftrightarrow> names s a \<inter> names s b = {} \<and> kd_objs a \<inter> kd_objs b = {}"

definition dev_table :: "vfs \<Rightarrow> bool" where
  "dev_table s \<longleftrightarrow> (\<forall>kd \<in> set (knowndevs s). kd_ok kd) \<and>
     (\<forall>i j. i < length (knowndevs s) \<longrightarrow> j < length (knowndevs s) \<longrightarrow> i \<noteq> j \<longrightarrow> apart s (knowndevs s ! i) (knowndevs s ! j))"

lemma getroot_skip: "n \<notin> names s kd \<Longrightarrow> getroot_loop (kd # kds) n s = getroot_loop kds n s"
  by (auto simp: names_def getroot_dev_def split: option.split)

lemma getroot_hit: "n \<in> names s kd \<Longrightarrow> kd_ok kd \<Longrightarrow> getroot_loop (kd # kds) n s = resolved kd n s"
  by (cases "kd_fs kd"; cases "kd_rawname kd") (auto simp: names_def getroot_dev_def resolved_def kd_ok_def)

lemma getroot_at:
  assumes "i < length kds" "n \<in> names s (kds ! i)" "kd_ok (kds ! i)" "\<And>j. j < i \<Longrightarrow> n \<notin> names s (kds ! j)"
  shows "getroot_loop kds n s = resolved (kds ! i) n s"
  using assms
proof (induction kds arbitrary: i)
  case (Cons kd kds)
  show ?case
  proof (cases i)
    case 0
    then show ?thesis using Cons.prems getroot_hit by simp
  next
    case (Suc k)
    have "n \<notin> names s kd" using Cons.prems(4) [of 0] Suc by simp
    moreover have "getroot_loop kds n s = resolved (kds ! k) n s" using Cons.IH [of k] Cons.prems(1-3) Cons.prems(4) [of "Suc j" for j] Suc by simp
    ultimately show ?thesis using getroot_skip Suc by simp
  qed
qed simp

lemma getroot_none: "(\<And>kd. kd \<in> set kds \<Longrightarrow> n \<notin> names s kd) \<Longrightarrow> getroot_loop kds n s = Err ENODEV s"
  by (induction kds) (auto simp: getroot_skip simp del: getroot_loop.simps(2))

lemma dev_tableD:
  assumes "dev_table s"
  shows "kd \<in> set (knowndevs s) \<Longrightarrow> kd_ok kd"
    "i < length (knowndevs s) \<Longrightarrow> j < length (knowndevs s) \<Longrightarrow> i \<noteq> j \<Longrightarrow> apart s (knowndevs s ! i) (knowndevs s ! j)"
  using assms by (auto simp: dev_table_def)

lemma getroot_resolves:
  assumes "dev_table s" "0 < big_depth s"
  shows "i < length (knowndevs s) \<Longrightarrow> n \<in> names s (knowndevs s ! i) \<Longrightarrow> vfs_getroot n s = resolved (knowndevs s ! i) n s"
    "(\<And>kd. kd \<in> set (knowndevs s) \<Longrightarrow> n \<notin> names s kd) \<Longrightarrow> vfs_getroot n s = Err ENODEV s"
proof -
  assume i: "i < length (knowndevs s)" "n \<in> names s (knowndevs s ! i)"
  have "n \<notin> names s (knowndevs s ! j)" if "j < i" for j
    using dev_tableD(2) [OF assms(1), of j i] i that by (auto simp: apart_def)
  then show "vfs_getroot n s = resolved (knowndevs s ! i) n s"
    using getroot_at [OF i dev_tableD(1) [OF assms(1)]] i(1) assms(2) by (simp add: vfs_getroot_def)
qed (use assms(2) getroot_none in \<open>simp add: vfs_getroot_def\<close>)

section \<open>Operations keep the table\<close>

lemma dev_table_kept: "table_kept s t \<Longrightarrow> dev_table t = dev_table s"
proof -
  assume k: "table_kept s t"
  then have "names t = names s" by (auto simp: table_kept_def names_def fun_eq_iff)
  then show ?thesis using k by (simp add: dev_table_def apart_def table_kept_def)
qed

lemma table_kept_simps [simp]: "table_kept s s" "dev_table (s\<lparr>big_depth := d\<rparr>) = dev_table s" "dev_table (big_acquire s) = dev_table s"
proof -
  have "names (s\<lparr>big_depth := d\<rparr>) = names s" for d by (auto simp: names_def vol_name_def fun_eq_iff)
  then show "dev_table (s\<lparr>big_depth := d\<rparr>) = dev_table s" for d by (simp add: dev_table_def apart_def)
  then show "dev_table (big_acquire s) = dev_table s" by (simp add: big_acquire_def)
qed (simp add: table_kept_def)

lemma table_kept_trans: "table_kept s t \<Longrightarrow> table_kept t u \<Longrightarrow> table_kept s u"
  by (simp add: table_kept_def)

text \<open>How an operation that took the lock ends.\<close>

lemma big_end [simp]:
  "big_ret a s = (if big_depth s = 0 then Panic else Ok a (s\<lparr>big_depth := big_depth s - 1\<rparr>))"
  "big_fail e s = (if big_depth s = 0 then Panic else Err e (s\<lparr>big_depth := big_depth s - 1\<rparr>))"
  by (simp_all add: big_ret_def big_fail_def big_release_def kassert_def)

definition good_end :: "vfs \<Rightarrow> ('a, vfs) out \<Rightarrow> bool" where
  "good_end s m \<longleftrightarrow> (case m of Ok _ t \<Rightarrow> dev_table t \<and> big_depth t = big_depth s | Err _ t \<Rightarrow> dev_table t \<and> big_depth t = big_depth s | Panic \<Rightarrow> True)"

lemma badnames_eq:
  "badnames_loop kds (Some n) r v s = Ok (\<exists>kd \<in> set kds. names s kd \<inter> ({n} \<union> set_option r \<union> set_option v) \<noteq> {}) s"
proof -
  have d: "samestring3 a (Some n) r v \<longleftrightarrow> set_option a \<inter> ({n} \<union> set_option r \<union> set_option v) \<noteq> {}" for a
    by (cases a; cases r; cases v) (auto simp: samestring3_def samestring_def)
  show ?thesis
  proof (induction kds)
    case (Cons kd kds)
    have "names s kd \<inter> ({n} \<union> set_option r \<union> set_option v) \<noteq> {} \<longleftrightarrow>
      samestring3 (map_option (vol_name s) (kd_fs kd)) (Some n) r v \<or> samestring3 (kd_rawname kd) (Some n) r v \<or> samestring3 (Some (kd_name kd)) (Some n) r v"
      unfolding d by (cases "kd_fs kd") (auto simp: names_def)
    moreover have "\<not> samestring3 None (Some n) r v" by (simp add: samestring3_def samestring_def)
    ultimately show ?case using Cons by (cases "kd_fs kd") auto
  qed simp
qed

lemma names_cong: "v_vol t = v_vol s \<Longrightarrow> names t = names s"
  by (simp add: fun_eq_iff names_def vol_name_def)

lemma dev_table_cong: "v_vol t = v_vol s \<Longrightarrow> knowndevs t = knowndevs s \<Longrightarrow> dev_table t = dev_table s"
  using names_cong [of t s] by (simp add: dev_table_def apart_def)

lemma apart_sym: "apart s a b = apart s b a"
  by (auto simp: apart_def)

lemma dev_table_add:
  assumes "dev_table s" "kd_ok kd" "\<And>k. k \<in> set (knowndevs s) \<Longrightarrow> apart s k kd" "v_vol t = v_vol s" "knowndevs t = knowndevs s @ [kd]"
  shows "dev_table t"
proof -
  have a: "apart t = apart s" using names_cong [OF assms(4)] by (simp add: fun_eq_iff apart_def)
  let ?n = "length (knowndevs s)"
  have "apart s ((knowndevs s @ [kd]) ! i) ((knowndevs s @ [kd]) ! j)" if "i < Suc ?n" "j < Suc ?n" "i \<noteq> j" for i j
  proof (cases "i < ?n")
    case True
    then show ?thesis using that dev_tableD(2) [OF assms(1), of i j] assms(3) by (cases "j < ?n") (simp_all add: nth_append)
  next
    case False
    then have "j < ?n" "i = ?n" using that by linarith+
    then show ?thesis using assms(3) [of "knowndevs s ! j"] apart_sym [of s kd "knowndevs s ! j"] by (simp add: nth_append)
  qed
  then show ?thesis unfolding dev_table_def a assms(5) using dev_tableD(1) [OF assms(1)] assms(2) by auto
qed

text \<open>Steps of an operation that leave the table, the volumes and the lock alone.\<close>

definition same_table :: "vfs \<Rightarrow> vfs \<Rightarrow> bool" where
  "same_table s t \<longleftrightarrow> knowndevs t = knowndevs s \<and> v_vol t = v_vol s \<and> big_depth t = big_depth s"

lemma km_take_same: "km_take s = (m, t) \<Longrightarrow> same_table s t"
  by (auto simp: km_take_def same_table_def split: list.splits)

lemma create_vnode_same: "dev_create_vnode dev s = (v, t) \<Longrightarrow> same_table s t"
  by (auto simp: dev_create_vnode_def dv_put_def km_take_def same_table_def Let_def split: list.splits if_splits)

lemma same_table_trans: "same_table s t \<Longrightarrow> same_table t u \<Longrightarrow> same_table s u"
  by (simp add: same_table_def)

lemma same_table_dev: "same_table s t \<Longrightarrow> dev_table t = dev_table s"
  unfolding same_table_def by (elim conjE) (rule dev_table_cong)

definition objects :: "vfs \<Rightarrow> nat set" where
  "objects s = (\<Union>kd \<in> set (knowndevs s). kd_objs kd)"

lemma good_fail: "dev_table s \<Longrightarrow> big_depth s = Suc d \<Longrightarrow> big_depth u = d \<Longrightarrow> good_end u (big_fail e s)"
  by (simp add: good_end_def)

lemma doadd_enter_good:
  assumes T: "dev_table s" and d: "big_depth s = Suc d" "big_depth u = d" and k: "kd_ok kd" "kd_objs kd \<inter> objects s = {}"
  shows "good_end u (doadd_enter kd s)"
proof -
  have "{kd_name kd} \<union> set_option (kd_rawname kd) \<union> set_option (map_option (vol_name s) (kd_fs kd)) = names s kd"
    by (cases "kd_fs kd") (auto simp: names_def)
  then have b: "badnames (Some (kd_name kd)) (kd_rawname kd) (map_option (vol_name s) (kd_fs kd)) s = Ok (\<exists>k \<in> set (knowndevs s). names s k \<inter> names s kd \<noteq> {}) s"
    using d(1) by (simp add: badnames_def badnames_eq)
  have v: "(case kd_fs kd of Some f \<Rightarrow> FSOP_GETVOLNAME f s | None \<Rightarrow> Ok None s) = Ok (map_option (vol_name s) (kd_fs kd)) s" by (cases "kd_fs kd") simp_all
  obtain m t where m: "km_take s = (m, t)" by (cases "km_take s")
  note st = km_take_same [OF m]
  have tt: "dev_table t" "big_depth t = Suc d" "knowndevs t = knowndevs s" using st T d same_table_dev [OF st] by (simp_all add: same_table_def)
  show ?thesis
  proof (cases "\<exists>k \<in> set (knowndevs s). names s k \<inter> names s kd \<noteq> {}")
    case True
    then show ?thesis using good_fail [OF T d] v b by (simp add: doadd_enter_def del: big_end)
  next
    case False
    then have ap: "apart t k kd" if "k \<in> set (knowndevs t)" for k using that k(2) tt(3) names_cong [of t s] st by (auto simp: apart_def objects_def same_table_def)
    have "dev_table (t\<lparr>knowndevs := knowndevs s @ [kd], d_devnumber := x\<rparr>)" "dev_table (t\<lparr>knowndevs := knowndevs s @ [kd]\<rparr>)" for x
      using tt(3) by (intro dev_table_add [OF tt(1) k(1) ap]; simp)+
    then show ?thesis using False v b m tt d(2) by (auto simp: doadd_enter_def Let_def good_end_def split: option.split)
  qed
qed

lemma doadd_good:
  assumes T: "dev_table s" and k: "dev \<noteq> None \<and> fs = None \<or> dev = None \<and> fs \<noteq> None \<and> \<not> mountable" "(set_option dev \<union> set_option fs) \<inter> objects s = {}"
  shows "good_end s (vfs_doadd n mountable dev fs s)"
proof -
  let ?s = "big_acquire s"
  obtain m1 s1 where 1: "km_take ?s = (m1, s1)" by (cases "km_take ?s")
  obtain m2 s2 where 2: "(if mountable then km_take s1 else (True, s1)) = (m2, s2)" by (cases "if mountable then km_take s1 else (True, s1)")
  obtain v s3 where 3: "dev_create_vnode dev s2 = (v, s3)" by (cases "dev_create_vnode dev s2")
  obtain m4 s4 where 4: "km_take s3 = (m4, s4)" by (cases "km_take s3")
  have "same_table s1 s2" using 2 km_take_same by (auto simp: same_table_def split: if_splits)
  then have st: "same_table ?s s1" "same_table ?s s2" "same_table ?s s3" "same_table ?s s4"
    using km_take_same [OF 1] create_vnode_same [OF 3] km_take_same [OF 4] same_table_trans by blast+
  have g: "dev_table t" "big_depth t = Suc (big_depth s)" "objects t = objects s" if "same_table ?s t" for t
    using that T same_table_dev [OF that] by (simp_all add: same_table_def objects_def big_acquire_def)
  have nm: "good_end s (doadd_nomem w t)" if "same_table ?s t" for w t
  proof -
    have "same_table ?s (t\<lparr>v_dev := y\<rparr>)" for y using that by (simp add: same_table_def)
    then show ?thesis using good_fail [OF g(1,2) refl] that by (auto simp: doadd_nomem_def simp del: big_end split: option.split)
  qed
  have "good_end s (doadd_enter \<lparr>kd_name = n, kd_rawname = (if mountable then Some (mkrawname n) else None), kd_device = dev, kd_vnode = DevVn w, kd_fs = fs\<rparr> s4)" for w
    by (rule doadd_enter_good [OF g(1,2) [OF st(4)] refl]) (use k g(3) [OF st(4)] in \<open>auto simp: kd_ok_def kd_objs_def\<close>)
  then show ?thesis using 1 2 3 4 nm st by (auto simp: vfs_doadd_def Let_def split: option.split)
qed

lemma findmount_loop_Some: "findmount_loop i kds n = Some j \<Longrightarrow> i \<le> j \<and> j - i < length kds \<and> kd_rawname (kds ! (j - i)) \<noteq> None \<and> kd_name (kds ! (j - i)) = n"
proof (induction kds arbitrary: i)
  case (Cons kd kds)
  show ?case
  proof (cases "findmount_loop (Suc i) kds n = Some j")
    case True
    then show ?thesis using Cons.IH [OF True] by (auto simp: nth_Cons')
  qed (use Cons.prems in \<open>auto split: if_splits\<close>)
qed simp

lemma findmount_cases:
  assumes "0 < big_depth s"
  obtains i where "findmount n s = Ok i s" "i < length (knowndevs s)" "kd_rawname (knowndevs s ! i) \<noteq> None" "kd_name (knowndevs s ! i) = n"
  | "findmount n s = Err ENODEV s"
  using assms findmount_loop_Some [of 0 "knowndevs s" n] by (cases "findmount_loop 0 (knowndevs s) n") (auto simp: findmount_def)

text \<open>Setting or clearing the file system of one device.\<close>

lemma dev_table_set:
  assumes T: "dev_table s" and i: "i < length (knowndevs s)" and k: "kd_ok ((knowndevs s ! i)\<lparr>kd_fs := fs\<rparr>)" and v: "\<And>f j. f \<in> kd_objs (knowndevs s ! j) \<Longrightarrow> j < length (knowndevs s) \<Longrightarrow> j \<noteq> i \<Longrightarrow> vol_name t f = vol_name s f"
    and n: "\<And>j. j < length (knowndevs s) \<Longrightarrow> j \<noteq> i \<Longrightarrow> vol_name t ` set_option fs \<inter> names s (knowndevs s ! j) = {}"
    and f: "set_option fs \<subseteq> kd_objs (knowndevs s ! i)" and t: "knowndevs t = (knowndevs s)[i := (knowndevs s ! i)\<lparr>kd_fs := fs\<rparr>]"
  shows "dev_table t"
proof -
  let ?k = "(knowndevs s ! i)\<lparr>kd_fs := fs\<rparr>" and ?ks = "knowndevs s"
  have nm: "names t (?ks ! j) = names s (?ks ! j)" if "j < length ?ks" "j \<noteq> i" for j
  proof -
    have "vol_name t ` set_option (kd_fs (?ks ! j)) = vol_name s ` set_option (kd_fs (?ks ! j))"
      by (rule image_cong) (use v [OF _ that] in \<open>simp_all add: kd_objs_def\<close>)
    then show ?thesis by (simp add: names_def)
  qed
  have nk: "names t ?k \<subseteq> names s (?ks ! i) \<union> vol_name t ` set_option fs" by (auto simp: names_def)
  have ok: "kd_objs ?k \<subseteq> kd_objs (?ks ! i)" using f by (auto simp: kd_objs_def)
  have ap: "apart t ?k (?ks ! j)" if j: "j < length ?ks" "j \<noteq> i" for j
  proof -
    have sp: "names s (?ks ! i) \<inter> names s (?ks ! j) = {}" "kd_objs (?ks ! i) \<inter> kd_objs (?ks ! j) = {}"
      using dev_tableD(2) [OF T i j(1)] j(2) by (simp_all add: apart_def)
    have "names t ?k \<inter> names s (?ks ! j) = {}" using nk sp(1) n [OF j] by blast
    moreover have "kd_objs ?k \<inter> kd_objs (?ks ! j) = {}" using ok sp(2) by blast
    ultimately show ?thesis by (simp add: apart_def nm [OF j])
  qed
  have "apart t (knowndevs t ! a) (knowndevs t ! b)" if ab: "a < length ?ks" "b < length ?ks" "a \<noteq> b" for a b
  proof -
    consider "a = i" | "b = i" | "a \<noteq> i" "b \<noteq> i" by blast
    then show ?thesis
    proof cases
      case 1
      then show ?thesis using ap [of b] ab t by simp
    next
      case 2
      then show ?thesis using ap [of a] ab t apart_sym by simp
    next
      case 3
      then show ?thesis using dev_tableD(2) [OF T ab] nm ab t by (simp add: apart_def)
    qed
  qed
  moreover have "kd_ok kd" if "kd \<in> set (knowndevs t)" for kd
    using that t k dev_tableD(1) [OF T] set_update_subset_insert [of ?ks i ?k] by auto
  ultimately show ?thesis using t by (simp add: dev_table_def)
qed

lemma dev_table_clear:
  assumes "dev_table s" "i < length (knowndevs s)" "kd_rawname (knowndevs s ! i) \<noteq> None"
  shows "dev_table (set_fs i None s)"
proof -
  have k: "kd_ok (knowndevs s ! i)" using dev_tableD(1) [OF assms(1)] assms(2) by simp
  show ?thesis by (rule dev_table_set [OF assms(1,2), of None]) (use k assms(3) in \<open>auto simp: set_fs_def kd_ok_def vol_name_def\<close>)
qed

lemma set_fs_sel [simp]: "big_depth (set_fs i fs s) = big_depth s" "length (knowndevs (set_fs i fs s)) = length (knowndevs s)" "v_vol (set_fs i fs s) = v_vol s"
  "i < length (knowndevs s) \<Longrightarrow> kd_rawname (knowndevs (set_fs i fs s) ! j) = kd_rawname (knowndevs s ! j)"
  by (auto simp: set_fs_def nth_list_update)

lemma unmount_good:
  assumes T: "dev_table s"
  shows "good_end s (vfs_unmount n s)"
proof -
  let ?s = "big_acquire s"
  have d: "0 < big_depth ?s" "big_depth ?s = Suc (big_depth s)" "dev_table ?s" using T by (simp_all add: big_acquire_def del: table_kept_simps) (simp_all add: big_acquire_def)
  have fl: "good_end s (big_fail e t)" if "table_kept ?s t" for e t
    using good_fail [of t "big_depth s" s e] that d dev_table_kept [OF that] by (simp add: table_kept_def del: big_end)
  show ?thesis
  proof (rule findmount_cases [OF d(1), of n])
    assume "findmount n ?s = Err ENODEV ?s"
    then show ?thesis using fl [of ?s] by (simp add: vfs_unmount_def del: big_end)
  next
    fix i
    assume f: "findmount n ?s = Ok i ?s" "i < length (knowndevs ?s)" "kd_rawname (knowndevs ?s ! i) \<noteq> None"
    let ?kd = "knowndevs ?s ! i"
    have kd: "kd_ok ?kd" using dev_tableD(1) [OF d(3)] f(2) by simp
    show ?thesis
    proof (cases "kd_fs ?kd")
      case None
      then show ?thesis using f fl [of ?s] by (simp add: vfs_unmount_def Let_def del: big_end)
    next
      case (Some v)
      have c: "vfs_unmount n s = big_bind (FSOP_SYNC v ?s) (\<lambda>_ s. big_bind (FSOP_UNMOUNT v s) (\<lambda>_ s. big_ret () (set_fs i None s)))"
        using f Some kd by (simp add: vfs_unmount_def Let_def kd_ok_def del: big_end)
      show ?thesis
      proof (cases "FSOP_SYNC v ?s")
        case (Ok a t)
        note t = sync_kept(1) [OF Ok]
        show ?thesis
        proof (cases "FSOP_UNMOUNT v t")
          case (Ok b u)
          note u = table_kept_trans [OF t unmount_kept(1) [OF this]]
          have "dev_table (set_fs i None u)" using dev_table_clear [of u i] u f(2,3) dev_table_kept [OF u] d(3) by (simp add: table_kept_def)
          then show ?thesis using Ok \<open>FSOP_SYNC v ?s = Ok a t\<close> c u d(2) by (simp add: good_end_def table_kept_def)
        next
          case (Err e u)
          then show ?thesis using fl [OF table_kept_trans [OF t unmount_kept(2) [OF Err]]] Ok c by (simp del: big_end)
        qed (use Ok c in \<open>simp add: good_end_def\<close>)
      next
        case (Err e t)
        then show ?thesis using fl [OF sync_kept(2) [OF Err]] c by (simp del: big_end)
      qed (use c in \<open>simp add: good_end_def\<close>)
    qed
  qed
qed

lemma sync_loop_kept: "sync_loop kds s = Ok a t \<Longrightarrow> table_kept s t" "sync_loop kds s \<noteq> Err e t"
proof -
  have "case sync_loop kds s of Ok _ t \<Rightarrow> table_kept s t | Err _ _ \<Rightarrow> False | Panic \<Rightarrow> True"
  proof (induction kds arbitrary: s)
    case (Cons kd kds)
    have "case sync_loop kds t of Ok _ u \<Rightarrow> table_kept s u | Err _ _ \<Rightarrow> False | Panic \<Rightarrow> True" if "table_kept s t" for t
      using Cons.IH [of t] table_kept_trans [OF that] by (auto split: out.splits)
    note go = this
    show ?case
    proof (cases "kd_fs kd")
      case None
      then show ?thesis using Cons.IH [of s] by simp
    next
      case (Some f)
      then show ?thesis using go [OF sync_kept(1)] go [OF sync_kept(2)] by (cases "FSOP_SYNC f s") (simp_all split: out.splits)
    qed
  qed simp
  then show "sync_loop kds s = Ok a t \<Longrightarrow> table_kept s t" "sync_loop kds s \<noteq> Err e t" by (auto split: out.splits)
qed

lemma sync_good: "dev_table s \<Longrightarrow> good_end s (vfs_sync s)"
proof -
  assume T: "dev_table s"
  show "good_end s (vfs_sync s)"
  proof (cases "sync_loop (knowndevs (big_acquire s)) (big_acquire s)")
    case (Ok a t)
    note k = sync_loop_kept(1) [OF Ok]
    have "dev_table t" "big_depth t = Suc (big_depth s)" using k T dev_table_kept [OF k] by (simp_all add: table_kept_def big_acquire_def)
    then show ?thesis using Ok by (simp add: vfs_sync_def good_end_def Let_def)
  qed (use sync_loop_kept(2) in \<open>simp_all add: vfs_sync_def good_end_def Let_def\<close>)
qed

lemma unmount_one_good:
  assumes T: "dev_table s" and i: "i < length (knowndevs s)" "kd_rawname (knowndevs s ! i) \<noteq> None"
  shows "case unmount_one i f s of Ok _ t \<Rightarrow> dev_table t \<and> big_depth t = big_depth s \<and> length (knowndevs t) = length (knowndevs s) | Err _ _ \<Rightarrow> False | Panic \<Rightarrow> True"
proof -
  let ?un = "\<lambda>s. case FSOP_UNMOUNT f s of Ok _ s \<Rightarrow> Ok () (set_fs i None s) | Err e s \<Rightarrow> Ok () s | Panic \<Rightarrow> Panic"
  let ?good = "\<lambda>m. case m of Ok _ t \<Rightarrow> dev_table t \<and> big_depth t = big_depth s \<and> length (knowndevs t) = length (knowndevs s) | Err _ _ \<Rightarrow> False | Panic \<Rightarrow> True"
  have kept: "dev_table t \<and> big_depth t = big_depth s \<and> length (knowndevs t) = length (knowndevs s) \<and> kd_rawname (knowndevs t ! i) \<noteq> None" if "table_kept s t" for t
    using that T i dev_table_kept [OF that] by (simp add: table_kept_def)
  have un: "?good (?un t)" if t: "table_kept s t" for t
  proof (cases "FSOP_UNMOUNT f t")
    case (Ok a u)
    have "table_kept s u" by (rule table_kept_trans [OF t unmount_kept(1) [OF Ok]])
    from kept [OF this] have "dev_table (set_fs i None u)" "big_depth u = big_depth s" "length (knowndevs u) = length (knowndevs s)"
      using dev_table_clear [of u i] i(1) by auto
    then show ?thesis using Ok by simp
  next
    case (Err e u)
    have "table_kept s u" by (rule table_kept_trans [OF t unmount_kept(2) [OF Err]])
    from kept [OF this] show ?thesis using Err by simp
  qed simp
  show ?thesis
  proof (cases "FSOP_SYNC f s")
    case (Ok a t)
    then show ?thesis using un [OF sync_kept(1) [OF Ok]] by (simp add: unmount_one_def)
  next
    case (Err e t)
    note t = sync_kept(2) [OF Err]
    show ?thesis
    proof (cases "FSOP_SYNC f t")
      case (Ok a u)
      then show ?thesis using un [OF table_kept_trans [OF t sync_kept(1) [OF Ok]]] Err by (simp add: unmount_one_def)
    next
      case (Err e' u)
      then show ?thesis using kept [OF table_kept_trans [OF t sync_kept(2) [OF Err]]] \<open>FSOP_SYNC f s = Err e t\<close> by (simp add: unmount_one_def)
    qed (use Err in \<open>simp add: unmount_one_def\<close>)
  qed (simp add: unmount_one_def)
qed

lemma unmountall_loop_good:
  assumes "dev_table s" "i + k \<le> length (knowndevs s)"
  shows "case unmountall_loop i k s of Ok _ t \<Rightarrow> dev_table t \<and> big_depth t = big_depth s | Err _ _ \<Rightarrow> False | Panic \<Rightarrow> True"
  using assms
proof (induction k arbitrary: i s)
  case (Suc k)
  let ?kd = "knowndevs s ! i"
  have step: "case unmountall_loop (Suc i) k t of Ok _ u \<Rightarrow> dev_table u \<and> big_depth u = big_depth s | Err _ _ \<Rightarrow> False | Panic \<Rightarrow> True"
    if "dev_table t" "big_depth t = big_depth s" "length (knowndevs t) = length (knowndevs s)" for t
    using Suc.IH [of t "Suc i"] Suc.prems(2) that by (cases "unmountall_loop (Suc i) k t") simp_all
  show ?case
  proof (cases "kd_fs ?kd = None \<or> kd_rawname ?kd = None")
    case True
    then show ?thesis using step [of s] Suc.prems(1) by (auto simp: Let_def split: option.split)
  next
    case False
    then obtain f where f: "kd_fs ?kd = Some f" "kd_rawname ?kd \<noteq> None" by auto
    have "i < length (knowndevs s)" using Suc.prems(2) by simp
    note one = unmount_one_good [OF Suc.prems(1) this f(2), of f]
    have "unmountall_loop i (Suc k) s = kbind (unmount_one i f s) (\<lambda>_ s. unmountall_loop (Suc i) k s)" using f by (auto simp: Let_def)
    then show ?thesis using one step by (cases "unmount_one i f s") simp_all
  qed
qed simp

lemma unmountall_good: "dev_table s \<Longrightarrow> good_end s (vfs_unmountall s)"
proof -
  assume T: "dev_table s"
  let ?s = "big_acquire s"
  have "dev_table ?s" using T by simp
  from unmountall_loop_good [OF this, of 0 "length (knowndevs ?s)"] show "good_end s (vfs_unmountall s)"
    by (cases "unmountall_loop 0 (length (knowndevs ?s)) ?s") (simp_all add: vfs_unmountall_def good_end_def Let_def, simp add: big_acquire_def)
qed

text \<open>
  Mounting binds one more name, that of the volume, and the code does not look whether it is taken. \<open>mounted i d s t\<close>: the volume of
  device \<open>d\<close> is now on entry \<open>i\<close> of the table.
\<close>

definition mounted :: "nat \<Rightarrow> nat \<Rightarrow> vfs \<Rightarrow> vfs \<Rightarrow> bool" where
  "mounted i d s t \<longleftrightarrow> i < length (knowndevs s) \<and> kd_rawname (knowndevs s ! i) \<noteq> None \<and> kd_fs (knowndevs s ! i) = None \<and>
     kd_device (knowndevs s ! i) = Some d \<and> knowndevs t = (knowndevs s)[i := (knowndevs s ! i)\<lparr>kd_fs := Some d\<rparr>] \<and>
     (\<forall>f. f \<noteq> d \<longrightarrow> vol_name t f = vol_name s f) \<and> big_depth t = big_depth s"

lemma vol_only_table:
  assumes T: "dev_table s" and v: "vol_only d s t" and i: "i < length (knowndevs s)" "kd_device (knowndevs s ! i) = Some d" "kd_fs (knowndevs s ! i) = None"
  shows "dev_table t"
proof -
  note sel = vol_only_sel [OF v]
  have e: "(knowndevs s ! i)\<lparr>kd_fs := None\<rparr> = knowndevs s ! i" using i(3) by (cases "knowndevs s ! i") simp
  have "f \<noteq> d" if "f \<in> kd_objs (knowndevs s ! j)" "j < length (knowndevs s)" "j \<noteq> i" for f j
    using dev_tableD(2) [OF T i(1) that(2)] that i(2) by (auto simp: apart_def kd_objs_def)
  then show ?thesis using sel i dev_tableD(1) [OF T] by (intro dev_table_set [OF T i(1), of None t]) (auto simp: e list_update_id)
qed

text \<open>What \<open>vfs_mount\<close> relies on: the function it is given works on the volume of the device only, and returns it.\<close>

locale mount_function =
  fixes mountfunc :: "nat \<Rightarrow> vfs \<Rightarrow> (nat, vfs) out"
  assumes mount_Ok: "mountfunc d s = Ok f t \<Longrightarrow> f = d \<and> vol_only d s t"
    and mount_Err: "mountfunc d s = Err e t \<Longrightarrow> vol_only d s t"
begin

lemma mount_cases:
  assumes T: "dev_table s"
  shows "vfs_mount n mountfunc s = Err e t \<Longrightarrow> dev_table t \<and> big_depth t = big_depth s"
    "vfs_mount n mountfunc s = Ok a t \<Longrightarrow> \<exists>i d. kd_name (knowndevs s ! i) = n \<and> mounted i d s t"
proof -
  let ?s = "big_acquire s"
  have d: "0 < big_depth ?s" "big_depth ?s = Suc (big_depth s)" "knowndevs ?s = knowndevs s" "vol_name ?s = vol_name s"
    by (simp_all add: big_acquire_def fun_eq_iff vol_name_def)
  have T': "dev_table ?s" using T by simp
  have fl: "dev_table u \<and> big_depth u = big_depth s" if "big_fail e v = Err e' u" "dev_table v" "big_depth v = Suc (big_depth s)" for e e' u v
    using that by auto
  let ?goal = "case vfs_mount n mountfunc s of Ok _ t \<Rightarrow> \<exists>i d. kd_name (knowndevs s ! i) = n \<and> mounted i d s t | Err _ t \<Rightarrow> dev_table t \<and> big_depth t = big_depth s | Panic \<Rightarrow> True"
  have ?goal
  proof (rule findmount_cases [OF d(1), of n])
    assume "findmount n ?s = Err ENODEV ?s"
    then show ?thesis using T' d by (simp add: vfs_mount_def)
  next
    fix i
    assume f: "findmount n ?s = Ok i ?s" "i < length (knowndevs ?s)" "kd_rawname (knowndevs ?s ! i) \<noteq> None" "kd_name (knowndevs ?s ! i) = n"
    let ?kd = "knowndevs ?s ! i"
    show ?thesis
    proof (cases "kd_fs ?kd")
      case (Some v)
      then show ?thesis using f T' d by (simp add: vfs_mount_def Let_def)
    next
      case None
      then obtain dv where dv: "kd_device ?kd = Some dv" using dev_tableD(1) [OF T', of ?kd] f(2,3) by (auto simp: kd_ok_def)
      have c: "vfs_mount n mountfunc s = big_bind (mountfunc dv ?s) (\<lambda>fs s. big_ret () (set_fs i (Some fs) s))"
        using f None dv by (simp add: vfs_mount_def Let_def del: big_end)
      show ?thesis
      proof (cases "mountfunc dv ?s")
        case (Ok g t)
        note m = mount_Ok [OF Ok] and sel = vol_only_sel [OF conjunct2 [OF mount_Ok [OF Ok]]]
        have "mounted i dv s (set_fs i (Some dv) t\<lparr>big_depth := big_depth s\<rparr>)"
          using f None dv sel d by (auto simp: mounted_def set_fs_def vol_name_def)
        then show ?thesis using Ok c m sel d f(4) by (auto simp del: big_end simp: big_ret_def big_release_def)
      next
        case (Err e t)
        note v = mount_Err [OF Err]
        have "dev_table t" by (rule vol_only_table [OF T' v f(2) dv None])
        then show ?thesis using Err c vol_only_sel(2) [OF v] d by simp
      qed (use c in simp)
    qed
  qed
  then show "vfs_mount n mountfunc s = Err e t \<Longrightarrow> dev_table t \<and> big_depth t = big_depth s"
    "vfs_mount n mountfunc s = Ok a t \<Longrightarrow> \<exists>i d. kd_name (knowndevs s ! i) = n \<and> mounted i d s t" by simp_all
qed

end

interpretation sfs_mount: mount_function sfs_mountfunc
  by unfold_locales (use domount_only in blast)+

lemma mounted_names:
  assumes T: "dev_table s" and m: "mounted i d s t" and j: "j < length (knowndevs s)" "j \<noteq> i"
  shows "names t (knowndevs t ! j) = names s (knowndevs s ! j)" "knowndevs t ! j = knowndevs s ! j"
proof -
  have "f \<noteq> d" if "f \<in> set_option (kd_fs (knowndevs s ! j))" for f
    using dev_tableD(2) [OF T _ j(1), of i] m that j(2) by (auto simp: mounted_def apart_def kd_objs_def)
  then have "vol_name t ` set_option (kd_fs (knowndevs s ! j)) = vol_name s ` set_option (kd_fs (knowndevs s ! j))"
    using m by (intro image_cong) (auto simp: mounted_def)
  moreover show "knowndevs t ! j = knowndevs s ! j" using m j(2) by (simp add: mounted_def)
  ultimately show "names t (knowndevs t ! j) = names s (knowndevs s ! j)" by (simp add: names_def)
qed

lemma mounted_table:
  assumes T: "dev_table s" and m: "mounted i d s t" and n: "\<And>j. j < length (knowndevs s) \<Longrightarrow> j \<noteq> i \<Longrightarrow> vol_name t d \<notin> names s (knowndevs s ! j)"
  shows "dev_table t"
proof -
  have M: "i < length (knowndevs s)" "kd_rawname (knowndevs s ! i) \<noteq> None" "kd_device (knowndevs s ! i) = Some d"
    "knowndevs t = (knowndevs s)[i := (knowndevs s ! i)\<lparr>kd_fs := Some d\<rparr>]" "\<And>f. f \<noteq> d \<Longrightarrow> vol_name t f = vol_name s f" using m by (auto simp: mounted_def)
  have "f \<noteq> d" if "f \<in> kd_objs (knowndevs s ! j)" "j < length (knowndevs s)" "j \<noteq> i" for f j
    using dev_tableD(2) [OF T M(1) that(2)] that M(3) by (auto simp: apart_def kd_objs_def)
  then show ?thesis using M n by (intro dev_table_set [OF T M(1), of "Some d" t]) (auto simp: kd_ok_def kd_objs_def)
qed

end
