(* ===== verification/SfsInv.thy ===== *)
theory SfsInv
  imports SfsFs
begin

text \<open>
  The consistency of a mounted filesystem as a whole: the table of loaded vnodes, the free map and
  the inodes, loaded or on disk. \<open>I\<close> is the set of inode numbers in use. No block belongs to two
  files or is both an inode and a block of a file, and a vnode that is not dirty agrees with the
  disk. The operations of the previous theories are shown to keep it, and to leave every other file
  as it is.
\<close>

section \<open>The invariant\<close>

definition loaded :: "sfs_fs \<Rightarrow> vptr set" where
  "loaded s = set (array_list (sfs_vnodes s))"

definition vnode_has :: "sfs_fs \<Rightarrow> nat \<Rightarrow> vptr \<Rightarrow> bool" where
  "vnode_has s ino vp = (case sfs_heap s vp of None \<Rightarrow> False | Some sv \<Rightarrow> sv_ino sv = ino)"

text \<open>The current contents of an inode: of its vnode when it is loaded, of its block otherwise.\<close>

definition inode_of :: "sfs_fs \<Rightarrow> nat \<Rightarrow> sfs_inode" where
  "inode_of s ino = (case List.find (vnode_has s ino) (array_list (sfs_vnodes s)) of
     Some vp \<Rightarrow> sv_i (the (sfs_heap s vp)) | None \<Rightarrow> inode_of_bytes (sect s ino))"

definition table_ok :: "sfs_fs \<Rightarrow> bool" where
  "table_ok s \<longleftrightarrow> array_inv (sfs_vnodes s) \<and> distinct (array_list (sfs_vnodes s)) \<and>
     (\<forall>vp. sfs_heap s vp \<noteq> None \<longleftrightarrow> vp \<in> loaded s) \<and> (\<forall>vp \<in> loaded s. vp < sfs_brk s) \<and>
     (\<forall>vp sv vq sw. sfs_heap s vp = Some sv \<longrightarrow> sfs_heap s vq = Some sw \<longrightarrow> sv_ino sv = sv_ino sw \<longrightarrow> vp = vq)"

definition vnode_ok :: "sfs_fs \<Rightarrow> sfs_vnode \<Rightarrow> bool" where
  "vnode_ok s sv \<longleftrightarrow> vn_refcount sv \<ge> 1 \<and> vn_opencount sv \<ge> 0 \<and>
     (sfi_type (sv_i sv) = SFS_TYPE_FILE \<and> vn_ops sv = sfs_fileops \<or>
      sfi_type (sv_i sv) = SFS_TYPE_DIR \<and> vn_ops sv = sfs_dirops) \<and>
     (sv_dirty sv \<or> inode_of_bytes (sect s (sv_ino sv)) = sv_i sv)"

definition inodes_ok :: "sfs_fs \<Rightarrow> nat set \<Rightarrow> (nat \<Rightarrow> sfs_inode) \<Rightarrow> bool" where
  "inodes_ok s I f \<longleftrightarrow> I \<subseteq> fs_used s \<inter> {0<..<fs_nblocks s} \<and>
     (\<forall>i \<in> I. file_ok s (f i) \<and> file_refs s (f i) \<inter> I = {} \<and> sfi_type (f i) \<in> {SFS_TYPE_FILE, SFS_TYPE_DIR}) \<and>
     (\<forall>i \<in> I. \<forall>j \<in> I. i \<noteq> j \<longrightarrow> file_refs s (f i) \<inter> file_refs s (f j) = {})"

definition fs_inv :: "sfs_fs \<Rightarrow> nat set \<Rightarrow> bool" where
  "fs_inv s I \<longleftrightarrow> fs_ok (s\<lparr>biglock_depth := 1\<rparr>) \<and> fs_nblocks s \<le> 2 ^ 23 \<and> table_ok s \<and>
     (\<forall>vp sv. sfs_heap s vp = Some sv \<longrightarrow> vnode_ok s sv \<and> sv_ino sv \<in> I) \<and> inodes_ok s I (inode_of s)"

lemma fs_invD:
  assumes "fs_inv s I"
  shows "fs_ok (s\<lparr>biglock_depth := 1\<rparr>)" "fs_nblocks s \<le> 2 ^ 23" "table_ok s" "inodes_ok s I (inode_of s)"
    "sfs_heap s vp = Some sv \<Longrightarrow> vnode_ok s sv" "sfs_heap s vp = Some sv \<Longrightarrow> sv_ino sv \<in> I"
  using assms by (auto simp: fs_inv_def)

lemma inodes_okD:
  assumes "inodes_ok s I f"
  shows "I \<subseteq> fs_used s" "i \<in> I \<Longrightarrow> 0 < i \<and> i < fs_nblocks s" "i \<in> I \<Longrightarrow> file_ok s (f i)"
    "i \<in> I \<Longrightarrow> file_refs s (f i) \<inter> I = {}"
    "i \<in> I \<Longrightarrow> j \<in> I \<Longrightarrow> i \<noteq> j \<Longrightarrow> file_refs s (f i) \<inter> file_refs s (f j) = {}"
    "i \<in> I \<Longrightarrow> file_refs s (f i) \<subseteq> fs_used s" "i \<in> I \<Longrightarrow> sfi_type (f i) \<in> {SFS_TYPE_FILE, SFS_TYPE_DIR}"
proof -
  show "I \<subseteq> fs_used s" and ok: "i \<in> I \<Longrightarrow> file_ok s (f i)" using assms by (simp_all add: inodes_ok_def)
  then show "i \<in> I \<Longrightarrow> file_refs s (f i) \<subseteq> fs_used s" by (simp add: file_ok_def)
  show "i \<in> I \<Longrightarrow> 0 < i \<and> i < fs_nblocks s" "i \<in> I \<Longrightarrow> sfi_type (f i) \<in> {SFS_TYPE_FILE, SFS_TYPE_DIR}"
    using assms by (auto simp: inodes_ok_def)
  show "i \<in> I \<Longrightarrow> file_refs s (f i) \<inter> I = {}"
    "i \<in> I \<Longrightarrow> j \<in> I \<Longrightarrow> i \<noteq> j \<Longrightarrow> file_refs s (f i) \<inter> file_refs s (f j) = {}"
    using assms unfolding inodes_ok_def by blast+
qed

lemma fs_inv_ok: "fs_inv s I \<Longrightarrow> biglock_depth s > 0 \<Longrightarrow> fs_ok s"
  by (auto simp: fs_inv_def fs_ok_def dev_ok_def)

lemma inode_of_loaded:
  assumes "table_ok s" and "sfs_heap s vp = Some sv"
  shows "inode_of s (sv_ino sv) = sv_i sv"
proof -
  have vp: "vp \<in> set (array_list (sfs_vnodes s))" using assms by (auto simp: table_ok_def loaded_def)
  have "\<exists>vq. List.find (vnode_has s (sv_ino sv)) (array_list (sfs_vnodes s)) = Some vq"
    using vp assms(2) by (auto simp: vnode_has_def find_None_iff simp flip: not_None_eq)
  then obtain vq where vq: "List.find (vnode_has s (sv_ino sv)) (array_list (sfs_vnodes s)) = Some vq" ..
  then have "vnode_has s (sv_ino sv) vq" by (auto simp: find_Some_iff)
  then obtain sw where "sfs_heap s vq = Some sw" "sv_ino sw = sv_ino sv"
    by (auto simp: vnode_has_def split: option.splits)
  then have "vq = vp" using assms by (auto simp: table_ok_def)
  then show ?thesis using vq assms(2) by (simp add: inode_of_def)
qed

lemma inode_of_unloaded:
  assumes "\<And>vp sv. sfs_heap s vp = Some sv \<Longrightarrow> sv_ino sv \<noteq> ino"
  shows "inode_of s ino = inode_of_bytes (sect s ino)"
proof -
  have "List.find (vnode_has s ino) (array_list (sfs_vnodes s)) = None"
    using assms by (auto simp: find_None_iff vnode_has_def split: option.splits)
  then show ?thesis by (simp add: inode_of_def)
qed

lemma inode_of_cases:
  assumes "table_ok s"
  obtains (loaded) vp sv where "sfs_heap s vp = Some sv" "sv_ino sv = ino" "inode_of s ino = sv_i sv"
  | (disk) "\<And>vp sv. sfs_heap s vp = Some sv \<Longrightarrow> sv_ino sv \<noteq> ino" "inode_of s ino = inode_of_bytes (sect s ino)"
  using inode_of_loaded [OF assms] inode_of_unloaded [of s ino] by metis

text \<open>What a file shows depends only on its inode and on its own blocks.\<close>

lemma file_view_cong:
  assumes "\<And>b. b \<in> file_refs s i \<Longrightarrow> sect s' b = sect s b"
  shows "bmap_of s' i = bmap_of s i" "file_refs s' i = file_refs s i" "file_byte s' i = file_byte s i"
proof -
  have "unat (sfi_indirect i) \<in> file_refs s i" if "sfi_indirect i \<noteq> 0"
    using that by (simp add: file_refs_def unat_eq_0)
  then show b: "bmap_of s' i = bmap_of s i"
    using assms by (intro bmap_of_cong) auto
  show "file_refs s' i = file_refs s i" by (simp add: file_refs_def b)
  have "bmap_of s i x \<in> file_refs s i" if "bmap_of s i x \<noteq> 0" for x
    using that bmap_of_big [of x s i] by (cases "x < 143") (auto simp: file_refs_def)
  then show "file_byte s' i = file_byte s i" using assms by (intro ext) (auto simp: file_byte_def b Let_def)
qed

lemma file_ok_cong:
  assumes "\<And>b. b \<in> file_refs s i \<Longrightarrow> sect s' b = sect s b" and "file_ok s i"
    and "file_refs s i \<subseteq> fs_used s'" and "fs_nblocks s' = fs_nblocks s"
  shows "file_ok s' i"
  using assms(2-) by (simp add: file_ok_def file_view_cong [OF assms(1)])

section \<open>One file changes\<close>

text \<open>
  A step that works on the file behind the vnode \<open>vp\<close>: the blocks it gains were free, and no block
  in use outside the file is touched or freed.
\<close>

definition file_change :: "sfs_fs \<Rightarrow> vptr \<Rightarrow> sfs_vnode \<Rightarrow> sfs_fs \<Rightarrow> sfs_vnode \<Rightarrow> bool" where
  "file_change s vp sv s' sv' \<longleftrightarrow> sfs_heap s' = (sfs_heap s)(vp \<mapsto> sv') \<and> fs_frame s s' \<and> fs_ok s' \<and>
     sv_ino sv' = sv_ino sv \<and> file_ok s' (sv_i sv') \<and>
     (\<forall>b \<in> fs_used s. b \<notin> file_refs s (sv_i sv) \<longrightarrow> b \<in> fs_used s' \<and> sect s' b = sect s b) \<and>
     file_refs s' (sv_i sv') \<inter> fs_used s \<subseteq> file_refs s (sv_i sv)"

text \<open>The same, except that the inode's own block may be written.\<close>

definition file_changed :: "sfs_fs \<Rightarrow> vptr \<Rightarrow> sfs_vnode \<Rightarrow> sfs_fs \<Rightarrow> sfs_vnode \<Rightarrow> bool" where
  "file_changed s vp sv s' sv' \<longleftrightarrow> sfs_heap s' = (sfs_heap s)(vp \<mapsto> sv') \<and> fs_frame s s' \<and> fs_ok s' \<and>
     sv_ino sv' = sv_ino sv \<and> file_ok s' (sv_i sv') \<and>
     (\<forall>b \<in> fs_used s. b \<notin> file_refs s (sv_i sv) \<longrightarrow> b \<in> fs_used s' \<and> (b \<noteq> sv_ino sv \<longrightarrow> sect s' b = sect s b)) \<and>
     file_refs s' (sv_i sv') \<inter> fs_used s \<subseteq> file_refs s (sv_i sv)"

lemma file_change_changed: "file_change s vp sv s' sv' \<Longrightarrow> file_changed s vp sv s' sv'"
  by (auto simp: file_change_def file_changed_def)

definition others_same :: "sfs_fs \<Rightarrow> nat set \<Rightarrow> nat \<Rightarrow> sfs_fs \<Rightarrow> bool" where
  "others_same s I ino s' \<longleftrightarrow> (\<forall>j \<in> I. j \<noteq> ino \<longrightarrow>
     inode_of s' j = inode_of s j \<and> file_byte s' (inode_of s' j) = file_byte s (inode_of s j))"

lemma file_changed_table:
  assumes "table_ok s" and "sfs_heap s vp = Some sv" and "file_changed s vp sv s' sv'"
  shows "table_ok s'"
  using assms by (auto simp: table_ok_def file_changed_def fs_frame_def loaded_def split: if_splits)

lemma file_changed_inv:
  assumes inv: "fs_inv s I" and vp: "sfs_heap s vp = Some sv" and ch: "file_changed s vp sv s' sv'"
    and vok: "vnode_ok s' sv'"
  shows "fs_inv s' I" "others_same s I (sv_ino sv) s'" "inode_of s' (sv_ino sv) = sv_i sv'"
proof -
  let ?n = "sv_ino sv" and ?i = "sv_i sv"
  have tab: "table_ok s" "table_ok s'" using fs_invD(3) [OF inv] file_changed_table [OF _ vp ch] by auto
  have h: "sfs_heap s' = (sfs_heap s)(vp \<mapsto> sv')" "sv_ino sv' = ?n" "fs_ok s'" "file_ok s' (sv_i sv')"
    "fs_nblocks s' = fs_nblocks s" "nbits (sfs_freemap s') = nbits (sfs_freemap s)"
    using ch by (auto simp: file_changed_def fs_frame_def)
  have keep: "b \<in> fs_used s'" "b \<noteq> ?n \<Longrightarrow> sect s' b = sect s b" if "b \<in> fs_used s" "b \<notin> file_refs s ?i" for b
    using ch that by (auto simp: file_changed_def)
  have ref: "file_refs s' (sv_i sv') \<inter> fs_used s \<subseteq> file_refs s ?i" using ch by (simp add: file_changed_def)
  note io = fs_invD(4) [OF inv]
  have n: "?n \<in> I" using fs_invD(6) [OF inv vp] .
  have me: "inode_of s ?n = ?i" by (rule inode_of_loaded [OF tab(1) vp])
  show me': "inode_of s' ?n = sv_i sv'" using inode_of_loaded [OF tab(2), of vp sv'] h by simp
  have I: "I \<subseteq> fs_used s" by (rule inodes_okD(1) [OF io])
  have "file_refs s (inode_of s ?n) \<inter> I = {}" by (rule inodes_okD(4) [OF io n])
  then have J: "I \<inter> file_refs s ?i = {}" using me by auto
  have same: "inode_of s' j = inode_of s j" if "j \<in> I" "j \<noteq> ?n" for j
    using tab(1)
  proof (cases rule: inode_of_cases [where ino = j])
    case (loaded vq sw)
    then have "vq \<noteq> vp" using vp that by auto
    then show ?thesis using inode_of_loaded [OF tab(2), of vq sw] loaded h(1) by simp
  next
    case disk
    have "sv_ino sw \<noteq> j" if "sfs_heap s' vq = Some sw" for vq sw
      using that disk(1) h(1,2) \<open>j \<noteq> ?n\<close> by (auto split: if_splits)
    then have "inode_of s' j = inode_of_bytes (sect s' j)" by (rule inode_of_unloaded)
    moreover have "sect s' j = sect s j" by (rule keep(2)) (use I J that in blast)+
    ultimately show ?thesis using disk(2) by simp
  qed
  have oth: "file_refs s (inode_of s j) \<subseteq> fs_used s" "file_refs s (inode_of s j) \<inter> file_refs s ?i = {}"
    "file_ok s (inode_of s j)" if "j \<in> I" "j \<noteq> ?n" for j
    using inodes_okD(3,6) [OF io that(1)] inodes_okD(5) [OF io that(1) n that(2)] me by simp_all
  have sec: "sect s' b = sect s b" if "j \<in> I" "j \<noteq> ?n" "b \<in> file_refs s (inode_of s j)" for j b
    by (rule keep(2)) (use oth that n inodes_okD(4) [OF io that(1)] in auto)
  have view: "file_refs s' (inode_of s' j) = file_refs s (inode_of s j)"
    "file_byte s' (inode_of s' j) = file_byte s (inode_of s j)" "file_ok s' (inode_of s' j)"
    if "j \<in> I" "j \<noteq> ?n" for j
  proof -
    have "file_refs s (inode_of s j) \<subseteq> fs_used s'" using oth [OF that] keep(1) by blast
    then show "file_refs s' (inode_of s' j) = file_refs s (inode_of s j)"
      "file_byte s' (inode_of s' j) = file_byte s (inode_of s j)" "file_ok s' (inode_of s' j)"
      using file_view_cong [OF sec [OF that]] file_ok_cong [OF sec [OF that] oth(3) [OF that]] h(5)
      by (simp_all add: same [OF that])
  qed
  show "others_same s I ?n s'" using same view(2) by (simp add: others_same_def)
  have disj: "file_refs s' (sv_i sv') \<inter> file_refs s (inode_of s j) = {}" if "j \<in> I" "j \<noteq> ?n" for j
    using oth [OF that] ref by blast
  have "inodes_ok s' I (inode_of s')"
    unfolding inodes_ok_def
  proof (intro conjI ballI impI)
    show "I \<subseteq> fs_used s' \<inter> {0<..<fs_nblocks s'}" using I J keep(1) h(5) inodes_okD(2) [OF io] by auto
    fix i
    assume i: "i \<in> I"
    show "file_ok s' (inode_of s' i)" using i view(3) [of i] me' h(4) by (cases "i = ?n") auto
    show "sfi_type (inode_of s' i) \<in> {SFS_TYPE_FILE, SFS_TYPE_DIR}"
      using me' vok same [OF i] inodes_okD(7) [OF io i] by (cases "i = ?n") (auto simp: vnode_ok_def)
    show "file_refs s' (inode_of s' i) \<inter> I = {}"
    proof (cases "i = ?n")
      case True
      have "file_refs s' (sv_i sv') \<inter> I = {}" using ref I J by blast
      then show ?thesis using True me' by simp
    next
      case False
      then show ?thesis using view(1) [OF i] inodes_okD(4) [OF io i] by simp
    qed
    fix j
    assume j: "j \<in> I" "i \<noteq> j"
    consider "i = ?n" "j \<noteq> ?n" | "j = ?n" "i \<noteq> ?n" | "i \<noteq> ?n" "j \<noteq> ?n" using j by blast
    then show "file_refs s' (inode_of s' i) \<inter> file_refs s' (inode_of s' j) = {}"
    proof cases
      case 1
      then show ?thesis using disj [OF j(1)] view(1) [OF j(1)] me' by simp
    next
      case 2
      then show ?thesis using disj [OF i] view(1) [OF i] me' by (simp add: Int_commute)
    next
      case 3
      then show ?thesis using inodes_okD(5) [OF io i j] view(1) [OF i] view(1) [OF j(1)] by simp
    qed
  qed
  moreover have "vnode_ok s' sw \<and> sv_ino sw \<in> I" if "sfs_heap s' vq = Some sw" for vq sw
  proof (cases "vq = vp")
    case True
    then show ?thesis using that h vok n by auto
  next
    case False
    then have w: "sfs_heap s vq = Some sw" using that h(1) by simp
    then have "sv_ino sw \<in> I" using fs_invD(6) [OF inv] by auto
    moreover have "sv_ino sw \<noteq> ?n" using tab(1) w vp False by (auto simp: table_ok_def)
    then have "sect s' (sv_ino sw) = sect s (sv_ino sw)" using keep(2) I J \<open>sv_ino sw \<in> I\<close> by auto
    ultimately show ?thesis using fs_invD(5) [OF inv w] by (simp add: vnode_ok_def)
  qed
  ultimately show "fs_inv s' I"
    using tab(2) h(3,5) fs_ok_depth [OF h(3), of 1] fs_invD(2) [OF inv] by (auto simp: fs_inv_def)
qed

section \<open>The lock does not matter\<close>

lemma fs_ok_depth1: "fs_ok (s\<lparr>biglock_depth := d\<rparr>\<lparr>biglock_depth := 1\<rparr>) = fs_ok (s\<lparr>biglock_depth := 1\<rparr>)"
  by simp

lemma inv_depth [simp]:
  "loaded (s\<lparr>biglock_depth := d\<rparr>) = loaded s" "table_ok (s\<lparr>biglock_depth := d\<rparr>) = table_ok s"
  "vnode_ok (s\<lparr>biglock_depth := d\<rparr>) = vnode_ok s" "inode_of (s\<lparr>biglock_depth := d\<rparr>) = inode_of s"
  "inodes_ok (s\<lparr>biglock_depth := d\<rparr>) = inodes_ok s" "fs_inv (s\<lparr>biglock_depth := d\<rparr>) = fs_inv s"
  "others_same (s\<lparr>biglock_depth := d\<rparr>) = others_same s"
  "others_same t I n (s\<lparr>biglock_depth := d\<rparr>) = others_same t I n s"
proof -
  let ?s = "s\<lparr>biglock_depth := d\<rparr>"
  show l: "loaded ?s = loaded s" by (simp add: loaded_def)
  show t: "table_ok ?s = table_ok s" by (simp add: table_ok_def l)
  show v: "vnode_ok ?s = vnode_ok s" by (rule ext) (simp add: vnode_ok_def)
  have "vnode_has ?s = vnode_has s" by (intro ext) (simp add: vnode_has_def)
  then show n: "inode_of ?s = inode_of s" by (intro ext) (simp add: inode_of_def split: option.split)
  show i: "inodes_ok ?s = inodes_ok s" by (intro ext) (simp add: inodes_ok_def)
  show "fs_inv ?s = fs_inv s" by (intro ext) (simp add: fs_inv_def t v n i)
  show "others_same ?s = others_same s" "others_same t I m ?s = others_same t I m s" for t m
    by (intro ext | simp add: others_same_def n)+
qed

lemma inv_acquire [simp]:
  "fs_inv (vfs_biglock_acquire s) = fs_inv s" "inode_of (vfs_biglock_acquire s) = inode_of s"
  "others_same (vfs_biglock_acquire s) = others_same s" "others_same t I n (vfs_biglock_acquire s) = others_same t I n s"
  "file_byte (vfs_biglock_acquire s) = file_byte s"
  "sfs_heap (vfs_biglock_acquire s) = sfs_heap s" "sfs_super (vfs_biglock_acquire s) = sfs_super s"
  "biglock_depth (vfs_biglock_acquire s) = Suc (biglock_depth s)"
  by (simp_all add: vfs_biglock_acquire_def)

lemma fs_inv_locked: "fs_inv s I \<Longrightarrow> fs_ok (vfs_biglock_acquire s)"
  by (rule fs_inv_ok [where I = I]) simp_all

section \<open>Operations on one file\<close>

lemma fs_inv_vnode:
  assumes inv: "fs_inv s I" and vp: "sfs_heap s vp = Some sv"
  shows "file_ok s (sv_i sv)" "sv_ino sv \<in> I" "inode_of s (sv_ino sv) = sv_i sv"
    "sv_ino sv \<in> fs_used s" "sv_ino sv \<notin> file_refs s (sv_i sv)" "0 < sv_ino sv" "sv_ino sv < fs_nblocks s"
proof -
  note io = fs_invD(4) [OF inv]
  show n: "sv_ino sv \<in> I" by (rule fs_invD(6) [OF inv vp])
  show e: "inode_of s (sv_ino sv) = sv_i sv" by (rule inode_of_loaded [OF fs_invD(3) [OF inv] vp])
  show "file_ok s (sv_i sv)" "sv_ino sv \<in> fs_used s" "0 < sv_ino sv" "sv_ino sv < fs_nblocks s"
    using inodes_okD(1) [OF io] inodes_okD(2,3) [OF io n] n e by auto
  show "sv_ino sv \<notin> file_refs s (sv_i sv)" using inodes_okD(4) [OF io n] n e by auto
qed

lemma vnode_ok_change:
  assumes inv: "fs_inv s I" and vp: "sfs_heap s vp = Some sv" and ch: "file_change s vp sv s' sv'"
    and same: "vn_same sv sv'" "sfi_type (sv_i sv') = sfi_type (sv_i sv)"
  shows "vnode_ok s' sv'"
proof -
  have "sect s' (sv_ino sv) = sect s (sv_ino sv)"
    using fs_inv_vnode [OF inv vp] ch by (auto simp: file_change_def)
  then show ?thesis using fs_invD(5) [OF inv vp] same by (auto simp: vnode_ok_def vn_same_def)
qed

lemma file_change_wrote:
  assumes "wrote_sized s vp sv off bs endoff s' sv'"
  shows "file_change s vp sv s' sv'" "vn_same sv sv'" "sfi_type (sv_i sv') = sfi_type (sv_i sv)"
  using assms by (auto simp: wrote_sized_def file_write_def file_change_def vn_same_def same_meta_def)

lemma file_change_trunc:
  assumes "truncated s vp sv len s' sv'"
  shows "file_change s vp sv s' sv'" "vn_same sv sv'" "sfi_type (sv_i sv') = sfi_type (sv_i sv)"
proof -
  have t: "sfs_heap s' = (sfs_heap s)(vp \<mapsto> sv')" "vn_same sv sv'"
    and sh: "file_shrink s (sv_i sv) (trunc_drops (trunc_blocks len)) s' ((sv_i sv')\<lparr>sfi_size := sfi_size (sv_i sv)\<rparr>)"
    using assms by (auto simp: truncated_def)
  have "sect s' b = sect s b" if "b \<notin> file_refs s (sv_i sv)" for b
    using sh that by (auto simp: file_shrink_def file_refs_def)
  then show "file_change s vp sv s' sv'" "vn_same sv sv'" "sfi_type (sv_i sv') = sfi_type (sv_i sv)"
    using sh t by (auto simp: file_shrink_def file_change_def vn_same_def same_meta_def)
qed

lemma file_change_keeps:
  assumes "fs_inv s I" "sfs_heap s vp = Some sv" "file_change s vp sv s' sv'" "vn_same sv sv'"
    "sfi_type (sv_i sv') = sfi_type (sv_i sv)"
  shows "fs_inv s' I" "others_same s I (sv_ino sv) s'" "inode_of s' (sv_ino sv) = sv_i sv'"
  using file_changed_inv [OF assms(1,2) file_change_changed [OF assms(3)] vnode_ok_change [OF assms]] by auto

lemma file_change_frame: "file_change s vp sv s' sv' \<Longrightarrow> fs_frame s s'"
  by (simp add: file_change_def)

lemma ret_unlock_eq: "biglock_depth s > 0 \<Longrightarrow> ret_unlock a s = Ok a (s\<lparr>biglock_depth := biglock_depth s - 1\<rparr>)"
  by (simp add: ret_unlock_def vfs_biglock_release_def)

lemma fail_unlock_eq: "biglock_depth s > 0 \<Longrightarrow> fail_unlock e s = Err e (s\<lparr>biglock_depth := biglock_depth s - 1\<rparr>)"
  by (simp add: fail_unlock_def vfs_biglock_release_def)

lemma size_upto_max: "off < 2 ^ 32 \<Longrightarrow> unat (size_upto i (int off)) = max (file_size i) off"
  by (simp add: size_upto_def max_def unat_of_nat del: of_nat_unat)

text \<open>Writing and reading a file through its vnode operations.\<close>

definition vn_moved :: "sfs_fs \<Rightarrow> vptr \<Rightarrow> sfs_vnode \<Rightarrow> sfs_fs \<Rightarrow> bool" where
  "vn_moved s vp sv s' \<longleftrightarrow> biglock_depth s' = biglock_depth s \<and> (\<exists>sv'. sfs_heap s' = (sfs_heap s)(vp \<mapsto> sv') \<and> vn_same sv sv' \<and>
     sv_i sv' = inode_of s' (sv_ino sv) \<and> sfi_type (sv_i sv') = sfi_type (sv_i sv) \<and>
     sfi_linkcount (sv_i sv') = sfi_linkcount (sv_i sv))"

lemma wrote_sized_meta:
  "wrote_sized s vp sv off bs z s' sv' \<Longrightarrow> sfi_type (sv_i sv') = sfi_type (sv_i sv) \<and> sfi_linkcount (sv_i sv') = sfi_linkcount (sv_i sv)"
  by (auto simp: wrote_sized_def file_write_def same_meta_def)

lemma sfs_write_wp:
  assumes inv: "fs_inv s I" and vp: "sfs_heap s vp = Some sv"
    and u: "uio_ok u" "uio_rw u = UIO_WRITE" "uio_offset u = int off"
    and lim: "off + uio_resid u \<le> 143 * 512" "off < 143 * 512"
  shows "out_wp (sfs_write vp (s, u))
    (\<lambda>_ (s', u'). \<exists>bs. length bs = uio_resid u \<and> uio_drain bs u u' \<and> fs_inv s' I \<and>
       others_same s I (sv_ino sv) s' \<and> vn_moved s vp sv s' \<and>
       file_byte s' (inode_of s' (sv_ino sv)) = bytes_upd (file_byte s (sv_i sv)) off bs \<and>
       file_size (inode_of s' (sv_ino sv)) = max (file_size (sv_i sv)) (off + length bs))
    (\<lambda>e (s', u'). (e = ENOSPC \<or> uio_fault e u u') \<and> fs_inv s' I \<and> others_same s I (sv_ino sv) s' \<and>
       vn_moved s vp sv s')"
proof -
  let ?s = "vfs_biglock_acquire s" and ?n = "sv_ino sv"
  have inv': "fs_inv ?s I" and vp': "sfs_heap ?s vp = Some sv" using inv vp by simp_all
  have pre: "io_pre UIO_WRITE ?s vp sv u off"
    using fs_inv_locked [OF inv] fs_inv_vnode(1) [OF inv' vp'] vp' u fs_invD(2) [OF inv] by (simp add: io_pre_def)
  show ?thesis
    using sfs_io_write_wp [OF pre lim]
  proof (cases rule: out_wp_cases)
    case (Ok a x)
    obtain t v where x: "x = (t, v)" by (cases x)
    then obtain bs tv where t: "length bs = uio_resid u" "uio_drain bs u v"
      "wrote_sized ?s vp sv off bs (int (off + uio_resid u)) t tv" using Ok(2) by auto
    note ch = file_change_wrote [OF t(3)]
    note k = file_change_keeps [OF inv' vp' ch]
    have d: "biglock_depth t = Suc (biglock_depth s)" using file_change_frame [OF ch(1)] by (simp add: fs_frame_def)
    have "file_size (sv_i tv) = max (file_size (sv_i sv)) (off + length bs)"
      using t(1,3) lim size_upto_max [of "off + length bs" "sv_i sv"] by (simp add: wrote_sized_def del: of_nat_add)
    moreover have "sfs_write vp (s, u) = Ok () (t\<lparr>biglock_depth := biglock_depth t - 1\<rparr>, v)"
      using Ok(1) x d u(2) by (simp add: sfs_write_def ret_unlock_eq)
    moreover have "sfs_heap t = (sfs_heap s)(vp \<mapsto> tv)" using t(3) by (simp add: wrote_sized_def)
    ultimately show ?thesis
      using k t d ch(2) wrote_sized_byte [OF t(3)] wrote_sized_meta [OF t(3)] by (auto simp: vn_moved_def)
  next
    case (Err e x)
    obtain t v where x: "x = (t, v)" by (cases x)
    then obtain bs z tv where t: "e = ENOSPC \<or> uio_fault e u v" "wrote_sized ?s vp sv off bs z t tv"
      using Err(2) by auto
    note ch = file_change_wrote [OF t(2)]
    note k = file_change_keeps [OF inv' vp' ch]
    have d: "biglock_depth t = Suc (biglock_depth s)" using file_change_frame [OF ch(1)] by (simp add: fs_frame_def)
    have "sfs_write vp (s, u) = Err e (t\<lparr>biglock_depth := biglock_depth t - 1\<rparr>, v)"
      using Err(1) x d u(2) by (simp add: sfs_write_def fail_unlock_eq)
    moreover have "sfs_heap t = (sfs_heap s)(vp \<mapsto> tv)" using t(2) by (simp add: wrote_sized_def)
    ultimately show ?thesis using k t d ch(2) wrote_sized_meta [OF t(2)] by (auto simp: vn_moved_def)
  qed
qed

lemma sfs_read_wp:
  assumes inv: "fs_inv s I" and vp: "sfs_heap s vp = Some sv" and sz: "file_size (sv_i sv) \<le> 143 * 512"
    and u: "uio_ok u" "uio_rw u = UIO_READ" "uio_offset u = int off"
  shows "out_wp (sfs_read vp (s, u))
    (\<lambda>_ (s', u'). dev_step s s' \<and> uio_fill (file_read s (sv_i sv) off (uio_resid u)) u u')
    (\<lambda>e (s', u'). dev_step s s' \<and> uio_fault e u u')"
proof -
  let ?s = "vfs_biglock_acquire s"
  have inv': "fs_inv ?s I" and vp': "sfs_heap ?s vp = Some sv" using inv vp by simp_all
  have rd: "file_read ?s (sv_i sv) = file_read s (sv_i sv)" by (intro ext) (simp add: file_read_def)
  have un: "dev_step s (t\<lparr>biglock_depth := biglock_depth t - 1\<rparr>)" "biglock_depth t > 0" if "dev_step ?s t" for t
  proof -
    have e: "t = ?s\<lparr>sfs_device := sfs_device t\<rparr>" by (rule dev_stepD(4) [OF that])
    show "biglock_depth t > 0" using dev_step_sel(5) [OF that] by simp
    have "t\<lparr>biglock_depth := biglock_depth t - 1\<rparr> = s\<lparr>sfs_device := sfs_device t\<rparr>"
      by (subst e, subst (2) e) (simp add: vfs_biglock_acquire_def)
    then show "dev_step s (t\<lparr>biglock_depth := biglock_depth t - 1\<rparr>)"
      using that by (simp add: dev_step_def vfs_biglock_acquire_def)
  qed
  have "out_wp (sfs_io vp (?s, u))
    (\<lambda>_ (s', u'). dev_step ?s s' \<and> uio_fill (file_read ?s (sv_i sv) off (uio_resid u)) u u')
    (\<lambda>e (s', u'). dev_step ?s s' \<and> uio_fault e u u')"
    by (rule sfs_io_read_wp [OF fs_inv_locked [OF inv] vp' fs_inv_vnode(1) [OF inv' vp'] _ sz u])
      (use fs_invD(2) [OF inv] in simp)
  then show ?thesis
  proof (cases rule: out_wp_cases)
    case (Ok a x)
    obtain t v where x: "x = (t, v)" by (cases x)
    then show ?thesis using Ok un [of t] u(2) rd by (simp add: sfs_read_def ret_unlock_eq)
  next
    case (Err e x)
    obtain t v where x: "x = (t, v)" by (cases x)
    then show ?thesis using Err un [of t] u(2) by (simp add: sfs_read_def fail_unlock_eq)
  qed
qed

lemma sfs_truncate_any_inv:
  assumes inv: "fs_inv s I" and vp: "sfs_heap s vp = Some sv"
  shows "\<exists>s' sv'. sfs_truncate vp len s = Ok () s' \<and> biglock_depth s' = biglock_depth s \<and>
    truncated (vfs_biglock_acquire s) vp sv len (vfs_biglock_acquire s') sv' \<and> fs_inv s' I \<and>
    others_same s I (sv_ino sv) s' \<and> inode_of s' (sv_ino sv) = sv_i sv'"
proof -
  let ?s = "vfs_biglock_acquire s"
  have inv': "fs_inv ?s I" and vp': "sfs_heap ?s vp = Some sv" using inv vp by simp_all
  obtain t tv where t: "sfs_truncate vp len s = Ok () t" "biglock_depth t = biglock_depth s"
    "truncated ?s vp sv len (vfs_biglock_acquire t) tv"
    using sfs_truncate_any [OF fs_inv_locked [OF inv] vp fs_inv_vnode(1) [OF inv vp]] by blast
  have "fs_inv t I" "others_same s I (sv_ino sv) t" "inode_of t (sv_ino sv) = sv_i tv"
    using file_change_keeps [OF inv' vp' file_change_trunc [OF t(3)]] by simp_all
  then show ?thesis using t by blast
qed

lemma sfs_truncate_inv:
  assumes inv: "fs_inv s I" and vp: "sfs_heap s vp = Some sv" and bd: "biglock_depth s > 0"
  shows "out_wp (sfs_truncate vp len s)
    (\<lambda>_ s'. \<exists>sv'. truncated s vp sv len s' sv' \<and> fs_inv s' I \<and> others_same s I (sv_ino sv) s' \<and>
       inode_of s' (sv_ino sv) = sv_i sv')
    (\<lambda>_ _. False)"
proof -
  have "\<exists>sv'. truncated s vp sv len t sv' \<and> fs_inv t I \<and> others_same s I (sv_ino sv) t \<and> inode_of t (sv_ino sv) = sv_i sv'"
    if "truncated s vp sv len t tv" for t tv
    using file_change_keeps [OF inv vp file_change_trunc [OF that]] that by blast
  then show ?thesis
    by (intro out_wp_conseq [OF sfs_truncate_wp [OF fs_inv_ok [OF inv bd] vp fs_inv_vnode(1) [OF inv vp]]]) blast+
qed

abbreviation files_same :: "sfs_fs \<Rightarrow> nat set \<Rightarrow> sfs_fs \<Rightarrow> bool" where
  "files_same s I s' \<equiv> others_same s I 0 s'"

lemma files_sameI:
  assumes "fs_inv s I" and "sfs_heap s vp = Some sv" and "others_same s I (sv_ino sv) s'"
    and "inode_of s' (sv_ino sv) = sv_i sv" and "file_byte s' (sv_i sv) = file_byte s (sv_i sv)"
  shows "files_same s I s'"
  using assms fs_inv_vnode(3) [OF assms(1,2)] by (auto simp: others_same_def)

lemma files_same_refl [simp]: "files_same s I s"
  by (simp add: others_same_def)

lemma others_same_trans: "others_same s I n t \<Longrightarrow> others_same t I n v \<Longrightarrow> others_same s I n v"
  unfolding others_same_def by metis

lemma others_same_files: "files_same s I t \<Longrightarrow> 0 \<notin> I \<Longrightarrow> others_same s I n t"
  by (auto simp: others_same_def)

lemma fs_inv_zero: "fs_inv s I \<Longrightarrow> 0 \<notin> I"
  using inodes_okD(2) [OF fs_invD(4), of s I 0] by auto

text \<open>Updating fields of a vnode other than its block pointers.\<close>

lemma vn_put_inv:
  assumes inv: "fs_inv s I" and vp: "sfs_heap s vp = Some sv" and bd: "biglock_depth s > 0"
    and sv': "sv_ino sv' = sv_ino sv" "sfi_direct (sv_i sv') = sfi_direct (sv_i sv)"
      "sfi_indirect (sv_i sv') = sfi_indirect (sv_i sv)" "sfi_waste (sv_i sv') = sfi_waste (sv_i sv)" "vnode_ok s sv'"
  shows "fs_inv (vn_put vp sv' s) I" "others_same s I (sv_ino sv) (vn_put vp sv' s)"
    "inode_of (vn_put vp sv' s) (sv_ino sv) = sv_i sv'" "file_byte (vn_put vp sv' s) (sv_i sv') = file_byte s (sv_i sv)"
proof -
  let ?s = "vn_put vp sv' s"
  have b: "bmap_of s (sv_i sv') = bmap_of s (sv_i sv)" by (rule bmap_of_cong) (use sv' in auto)
  then have r: "file_refs s (sv_i sv') = file_refs s (sv_i sv)" using sv' by (simp add: file_refs_def)
  have "file_ok s (sv_i sv')"
    using fs_inv_vnode(1) [OF inv vp] sv' by (simp add: file_ok_def b r inode_wf_def)
  then have ch: "file_changed s vp sv ?s sv'"
    using fs_inv_ok [OF inv bd] r sv'(1) by (simp add: file_changed_def)
  have "vnode_ok ?s sv'" using sv'(5) by (simp add: vnode_ok_def)
  from file_changed_inv [OF inv vp ch this]
  show "fs_inv ?s I" "others_same s I (sv_ino sv) ?s" "inode_of ?s (sv_ino sv) = sv_i sv'" by auto
  show "file_byte ?s (sv_i sv') = file_byte s (sv_i sv)" by (intro ext) (simp add: file_byte_def b)
qed

text \<open>Counts of references and opens: no inode changes.\<close>

lemma vn_count_inv:
  assumes inv: "fs_inv s I" and vp: "sfs_heap s vp = Some sv" and bd: "biglock_depth s > 0"
    and n: "1 \<le> r" "0 \<le> m"
  shows "fs_inv (vn_put vp (sv\<lparr>vn_refcount := r, vn_opencount := m\<rparr>) s) I"
    "files_same s I (vn_put vp (sv\<lparr>vn_refcount := r, vn_opencount := m\<rparr>) s)"
proof -
  let ?sv = "sv\<lparr>vn_refcount := r, vn_opencount := m\<rparr>"
  have "vnode_ok s ?sv" using fs_invD(5) [OF inv vp] n by (simp add: vnode_ok_def)
  note p = vn_put_inv [OF inv vp bd _ _ _ _ this]
  show "fs_inv (vn_put vp ?sv s) I" by (rule p(1)) simp_all
  show "files_same s I (vn_put vp ?sv s)"
    by (rule files_sameI [OF inv vp]) (use p(2-4) in simp_all)
qed

text \<open>Writing the inode back: the disk now agrees with the vnode.\<close>

lemma sfs_sync_inode_wp:
  assumes inv: "fs_inv s I" and vp: "sfs_heap s vp = Some sv" and bd: "biglock_depth s > 0"
  shows "out_wp (sfs_sync_inode vp s)
    (\<lambda>_ s'. fs_inv s' I \<and> files_same s I s' \<and> sfs_heap s' = (sfs_heap s)(vp \<mapsto> sv\<lparr>sv_dirty := False\<rparr>) \<and>
       fs_frame s s' \<and> sfs_freemap s' = sfs_freemap s \<and> inode_of_bytes (sect s' (sv_ino sv)) = sv_i sv)
    (\<lambda>_ _. False)"
proof (cases "sv_dirty sv")
  case False
  then have "sfs_sync_inode vp s = Ok () s" using vp by (simp add: sfs_sync_inode_def vn_get_def)
  moreover have "sv\<lparr>sv_dirty := False\<rparr> = sv" using False by (cases sv) simp
  ultimately show ?thesis
    using inv vp fs_invD(5) [OF inv vp] False by (simp add: fun_upd_idem vnode_ok_def)
next
  case True
  let ?n = "sv_ino sv" and ?i = "sv_i sv" and ?sv = "sv\<lparr>sv_dirty := False\<rparr>"
  note v = fs_inv_vnode [OF inv vp]
  have ok: "fs_ok s" by (rule fs_inv_ok [OF inv bd])
  have wf: "inode_wf ?i" by (rule file_okD(1) [OF v(1)])
  obtain t where t: "sfs_wblock (inode_bytes ?i) ?n s = Ok () t" "dev_write ?n (inode_bytes ?i) s t"
    using out_wp_total [OF sfs_wblock_wp [of s ?n "inode_bytes ?i"]] ok v(7) wf by (auto simp: fs_ok_def)
  note d = dev_write_sel [OF t(2)]
  have t_ok: "fs_ok t" using d(8) ok wf by simp
  have sec: "sect t b = sect s b" if "b \<in> file_refs s ?i" for b using that v(5) d(7) by auto
  note view = file_view_cong [of s ?i t, OF sec]
  have fok: "file_ok t ?i"
    by (rule file_ok_cong [OF sec v(1)]) (use v(1) d(1,3) in \<open>auto simp: file_ok_def\<close>)
  have ch: "file_changed s vp sv (vn_put vp ?sv t) ?sv"
    using t_ok fok view d by (auto simp: file_changed_def)
  have dsk: "inode_of_bytes (sect (vn_put vp ?sv t) ?n) = ?i" using d(7) wf by simp
  then have "vnode_ok (vn_put vp ?sv t) ?sv" using fs_invD(5) [OF inv vp] by (simp add: vnode_ok_def)
  note k = file_changed_inv [OF inv vp ch this]
  have "files_same s I (vn_put vp ?sv t)"
    by (rule files_sameI [OF inv vp]) (use k view(3) in simp_all)
  then show ?thesis
    using True vp t(1) k dsk d by (simp add: sfs_sync_inode_def vn_get_def)
qed

section \<open>Loading inodes\<close>

lemma table_nth:
  assumes "table_ok s" and "k < arr_num (sfs_vnodes s)"
  shows "\<exists>sv. vnodearray_get k s = Ok (array_list (sfs_vnodes s) ! k) s \<and>
    sfs_heap s (array_list (sfs_vnodes s) ! k) = Some sv"
proof -
  have a: "array_inv (sfs_vnodes s)" using assms(1) by (simp add: table_ok_def)
  then have "array_list (sfs_vnodes s) ! k \<in> loaded s" using assms(2) by (simp add: loaded_def)
  then have "sfs_heap s (array_list (sfs_vnodes s) ! k) \<noteq> None" using assms(1) by (simp add: table_ok_def)
  then show ?thesis using a assms(2) by (auto simp: vnodearray_get_def array_get_spec)
qed

lemma vnode_search_eq:
  assumes inv: "fs_inv s I" and n: "i + n = arr_num (sfs_vnodes s)"
  shows "vnode_search i n ino s = Ok (List.find (vnode_has s ino) (drop i (array_list (sfs_vnodes s)))) s"
  using n
proof (induction n arbitrary: i)
  case 0
  have "length (array_list (sfs_vnodes s)) = arr_num (sfs_vnodes s)"
    using fs_invD(3) [OF inv] by (simp add: table_ok_def)
  then show ?case using 0 by simp
next
  case (Suc n)
  let ?l = "array_list (sfs_vnodes s)"
  have i: "i < arr_num (sfs_vnodes s)" using Suc.prems by simp
  then obtain sv where sv: "vnodearray_get i s = Ok (?l ! i) s" "sfs_heap s (?l ! i) = Some sv"
    using table_nth [OF fs_invD(3) [OF inv]] by blast
  have "length ?l = arr_num (sfs_vnodes s)" using fs_invD(3) [OF inv] by (simp add: table_ok_def)
  then have dr: "drop i ?l = ?l ! i # drop (Suc i) ?l" using i by (simp add: Cons_nth_drop_Suc)
  have "fs_nblocks s \<le> nbits (sfs_freemap s)" using fs_invD(1) [OF inv] by (simp add: fs_ok_def)
  then have "sfs_bused (sv_ino sv) s = Ok True s"
    using fs_inv_vnode(4,7) [OF inv sv(2)] by (simp add: sfs_bused_def)
  then show ?case using sv Suc.IH [of "Suc i"] Suc.prems by (simp add: vn_get_def dr vnode_has_def)
qed

lemma km_next_eq: "snd (km_next s) = s\<lparr>km_fail := tl (km_fail s)\<rparr>"
  by (cases s; cases "km_fail s") (auto simp: km_next_def)

text \<open>What \<open>kmalloc\<close> draws on does not matter to the invariant.\<close>

definition alloc_step :: "sfs_fs \<Rightarrow> sfs_fs \<Rightarrow> bool" where
  "alloc_step s t \<longleftrightarrow> sfs_device t = sfs_device s \<and> sfs_super t = sfs_super s \<and> sfs_freemap t = sfs_freemap s \<and>
     sfs_heap t = sfs_heap s \<and> sfs_vnodes t = sfs_vnodes s \<and> sfs_brk s \<le> sfs_brk t \<and>
     biglock_depth t = biglock_depth s"

lemma alloc_step_inv:
  assumes a: "alloc_step s t"
  shows "inode_of t = inode_of s" "file_byte t = file_byte s" "fs_inv s I \<Longrightarrow> fs_inv t I" "fs_ok t = fs_ok s"
proof -
  note e = a [unfolded alloc_step_def]
  have b: "bmap_of t = bmap_of s" by (intro ext) (simp add: bmap_of_def idbuf_of_def e)
  have r: "file_refs t = file_refs s" by (intro ext) (simp add: file_refs_def b)
  have fok: "file_ok t = file_ok s" by (intro ext) (simp add: file_ok_def b r e)
  show "file_byte t = file_byte s" by (intro ext) (simp add: file_byte_def b e Let_def)
  have "vnode_has t = vnode_has s" by (intro ext) (simp add: vnode_has_def e)
  then show n: "inode_of t = inode_of s" by (intro ext) (simp add: inode_of_def e split: option.split)
  show "fs_ok t = fs_ok s" using e by (simp add: fs_ok_def dev_ok_def)
  assume inv: "fs_inv s I"
  have "table_ok t" using fs_invD(3) [OF inv] e by (auto simp: table_ok_def loaded_def)
  moreover have "vnode_ok t = vnode_ok s" by (rule ext) (simp add: vnode_ok_def e)
  moreover have "inodes_ok t = inodes_ok s" by (intro ext) (simp add: inodes_ok_def r fok e)
  moreover have "fs_ok (t\<lparr>biglock_depth := 1\<rparr>)" using fs_invD(1) [OF inv] e by (simp add: fs_ok_def dev_ok_def)
  ultimately show "fs_inv t I" using inv e by (simp add: fs_inv_def n)
qed

lemma alloc_step_km: "alloc_step s (snd (km_next s))"
  by (simp add: alloc_step_def km_next_def split: list.splits)

text \<open>Reading a block leaves the invariant and every file alone.\<close>

lemma dev_step_inv:
  assumes d: "dev_step s t"
  shows "inode_of t = inode_of s" "fs_inv s I \<Longrightarrow> fs_inv t I" "files_same s I t"
proof -
  note sel = dev_step_sel [OF d] and view = dev_step_view [OF d]
  have vs: "sfs_vnodes t = sfs_vnodes s" "sfs_brk t = sfs_brk s" using sel(6) by (simp_all add: fs_frame_def)
  have "vnode_has t = vnode_has s" by (intro ext) (simp add: vnode_has_def sel)
  then show n: "inode_of t = inode_of s" by (intro ext) (simp add: inode_of_def vs sel split: option.split)
  show "files_same s I t" using view by (simp add: others_same_def n)
  have r: "file_refs t = file_refs s" using view(1) by (intro ext) (simp add: file_refs_def)
  have v: "vnode_ok t = vnode_ok s" by (rule ext) (simp add: vnode_ok_def sel)
  assume inv: "fs_inv s I"
  have "inodes_ok t I (inode_of t) = inodes_ok s I (inode_of s)"
    using view(3) by (simp add: inodes_ok_def n r sel)
  moreover have "table_ok t = table_ok s" by (simp add: table_ok_def loaded_def vs sel)
  moreover have "fs_ok (t\<lparr>biglock_depth := 1\<rparr>)"
    using fs_invD(1) [OF inv] dev_stepD [OF d] d by (auto simp: fs_ok_def dev_ok_def sel dev_step_def lhd_same_inv lhd_same_healthy)
  ultimately show "fs_inv t I" using inv by (simp add: fs_inv_def v sel)
qed

lemma table_heap: "table_ok s \<Longrightarrow> vp \<in> set (array_list (sfs_vnodes s)) \<longleftrightarrow> (\<exists>sv. sfs_heap s vp = Some sv)"
  unfolding table_ok_def loaded_def by auto

text \<open>The table has at most one entry per block of the disk.\<close>

lemma table_size:
  assumes inv: "fs_inv s I"
  shows "arr_num (sfs_vnodes s) \<le> fs_nblocks s"
proof -
  let ?l = "array_list (sfs_vnodes s)" and ?f = "\<lambda>vp. sv_ino (the (sfs_heap s vp))"
  have tab: "table_ok s" by (rule fs_invD(3) [OF inv])
  have sub: "?f ` set ?l \<subseteq> {..<fs_nblocks s}"
  proof
    fix x
    assume "x \<in> ?f ` set ?l"
    then obtain vp where "vp \<in> set ?l" "x = ?f vp" by auto
    moreover from this obtain sv where "sfs_heap s vp = Some sv" using table_heap [OF tab] by blast
    ultimately show "x \<in> {..<fs_nblocks s}" using fs_inv_vnode(7) [OF inv] by auto
  qed
  have "inj_on ?f (set ?l)"
  proof (rule inj_onI)
    fix vp vq
    assume "vp \<in> set ?l" "vq \<in> set ?l" "?f vp = ?f vq"
    then obtain sv sw where "sfs_heap s vp = Some sv" "sfs_heap s vq = Some sw" "sv_ino sv = sv_ino sw"
      using table_heap [OF tab] by force
    then show "vp = vq" using tab unfolding table_ok_def by blast
  qed
  then have "card (set ?l) = card (?f ` set ?l)" by (simp add: card_image)
  also have "\<dots> \<le> card {..<fs_nblocks s}" by (rule card_mono) (use sub in auto)
  finally have "card (set ?l) \<le> fs_nblocks s" by simp
  moreover have "card (set ?l) = arr_num (sfs_vnodes s)"
    using tab distinct_card [of ?l] by (simp add: table_ok_def)
  ultimately show ?thesis by simp
qed

lemma vnodearray_add_wp:
  assumes "array_inv (sfs_vnodes s)" and "arr_num (sfs_vnodes s) < 2 ^ 31"
  shows "out_wp (vnodearray_add vp s)
    (\<lambda>_ s'. \<exists>x a. s' = s\<lparr>km_fail := x, sfs_vnodes := a\<rparr> \<and> array_inv a \<and>
       array_list a = array_list (sfs_vnodes s) @ [vp])
    (\<lambda>e s'. e = ENOMEM \<and> (\<exists>x. s' = s\<lparr>km_fail := x\<rparr>))"
proof -
  define p where "p = (if wadd32 (arr_num (sfs_vnodes s)) 1 > arr_max (sfs_vnodes s) then km_next s else (True, s))"
  obtain ok t where p: "p = (ok, t)" by (cases p)
  have t: "\<exists>x. t = s\<lparr>km_fail := x\<rparr>"
  proof (cases "wadd32 (arr_num (sfs_vnodes s)) 1 > arr_max (sfs_vnodes s)")
    case True
    then show ?thesis using p km_next_eq [of s] by (auto simp: p_def)
  next
    case False
    then have "t = s\<lparr>km_fail := km_fail s\<rparr>" using p by (simp add: p_def)
    then show ?thesis ..
  qed
  let ?k = "\<lambda>n. if ok then Some (replicate n 0) else None"
  have "kmalloc_sized ?k" by (simp add: kmalloc_sized_def)
  moreover have a: "sfs_vnodes t = sfs_vnodes s" using t by auto
  ultimately have w: "out_wp (array_add ?k vp (sfs_vnodes t))
    (\<lambda>i a'. array_inv a' \<and> i = length (array_list (sfs_vnodes t)) \<and> array_list a' = array_list (sfs_vnodes t) @ [vp])
    (\<lambda>e a'. e = ENOMEM \<and> a' = sfs_vnodes t)"
    using assms by (intro array_add_wp) simp_all
  have run: "vnodearray_add vp s = (case array_add ?k vp (sfs_vnodes t) of
      Ok _ a \<Rightarrow> Ok () (t\<lparr>sfs_vnodes := a\<rparr>) | Err e a \<Rightarrow> Err e (t\<lparr>sfs_vnodes := a\<rparr>) | Panic \<Rightarrow> Panic)"
    unfolding vnodearray_add_def p_def [symmetric] p by simp
  obtain x where x: "t = s\<lparr>km_fail := x\<rparr>" using t ..
  show ?thesis
    using w
  proof (cases rule: out_wp_cases)
    case (Ok i b)
    then have "vnodearray_add vp s = Ok () (s\<lparr>km_fail := x, sfs_vnodes := b\<rparr>)" using run x by simp
    then show ?thesis using Ok(2) a by auto
  next
    case (Err e b)
    then have "vnodearray_add vp s = Err e (s\<lparr>km_fail := x\<rparr>)" using run x by simp
    then show ?thesis using Err(2) by auto
  qed
qed

text \<open>Entering a vnode for an inode that was not loaded into the table.\<close>

lemma enter_vnode_inv:
  assumes inv: "fs_inv s I" and new: "\<And>vq sw. sfs_heap s vq = Some sw \<Longrightarrow> sv_ino sw \<noteq> sv_ino sv"
    and vok: "vnode_ok s sv" and ino: "inodes_ok s (insert (sv_ino sv) I) ((inode_of s)(sv_ino sv := sv_i sv))"
    and t: "t = s\<lparr>sfs_heap := (sfs_heap s)(sfs_brk s \<mapsto> sv), sfs_brk := sfs_brk s + 1, km_fail := x, sfs_vnodes := a\<rparr>"
    and a: "array_inv a" "array_list a = array_list (sfs_vnodes s) @ [sfs_brk s]"
  shows "fs_inv t (insert (sv_ino sv) I)" "\<And>j. inode_of t j = (if j = sv_ino sv then sv_i sv else inode_of s j)"
    "file_byte t = file_byte s"
proof -
  let ?vp = "sfs_brk s"
  note tab = fs_invD(3) [OF inv]
  have fresh: "sfs_heap s ?vp = None" using tab by (auto simp: table_ok_def)
  have heap: "sfs_heap t = (sfs_heap s)(?vp \<mapsto> sv)" and sec: "sect t = sect s" and sup: "sfs_super t = sfs_super s"
    and fm: "sfs_freemap t = sfs_freemap s" and brk: "sfs_brk t = Suc ?vp" and arr: "sfs_vnodes t = a" using t by simp_all
  have b: "bmap_of t = bmap_of s" by (intro ext) (simp add: bmap_of_def idbuf_of_def sec)
  have r: "file_refs t = file_refs s" by (intro ext) (simp add: file_refs_def b)
  have fok: "file_ok t = file_ok s" by (intro ext) (simp add: file_ok_def b r fm sup)
  show "file_byte t = file_byte s" by (intro ext) (simp add: file_byte_def b sec Let_def)
  have tab': "table_ok t"
    using tab a new new [THEN not_sym] fresh unfolding table_ok_def heap brk arr loaded_def by (auto split: if_splits)
  have in1: "inode_of t (sv_ino sv) = sv_i sv" using inode_of_loaded [OF tab', of ?vp sv] heap by simp
  have in2: "inode_of t j = inode_of s j" if "j \<noteq> sv_ino sv" for j
    using tab
  proof (cases rule: inode_of_cases [where ino = j])
    case (loaded vq sw)
    then have "sfs_heap t vq = Some sw" using heap fresh by auto
    then show ?thesis using inode_of_loaded [OF tab'] loaded by auto
  next
    case disk
    have "inode_of t j = inode_of_bytes (sect t j)"
      by (rule inode_of_unloaded) (use disk(1) heap that in \<open>auto split: if_splits\<close>)
    then show ?thesis using disk(2) sec by simp
  qed
  show n: "\<And>j. inode_of t j = (if j = sv_ino sv then sv_i sv else inode_of s j)" using in1 in2 by simp
  then have "inode_of t = (inode_of s)(sv_ino sv := sv_i sv)" by auto
  then have "inodes_ok t (insert (sv_ino sv) I) (inode_of t)" using ino by (simp add: inodes_ok_def r fok fm sup)
  moreover have "fs_ok (t\<lparr>biglock_depth := 1\<rparr>)" using fs_invD(1) [OF inv] by (simp add: t fs_ok_def dev_ok_def)
  moreover have "vnode_ok t = vnode_ok s" by (rule ext) (simp add: vnode_ok_def sec)
  ultimately show "fs_inv t (insert (sv_ino sv) I)"
    using tab' vok heap fs_invD(2,5,6) [OF inv] unfolding fs_inv_def by (auto simp: sup split: if_splits)
qed

lemma load_new_wp:
  assumes inv: "fs_inv s I" and bd: "biglock_depth s > 0"
    and new: "\<And>vq sw. sfs_heap s vq = Some sw \<Longrightarrow> sv_ino sw \<noteq> ino"
    and used: "ino \<in> fs_used s" "ino < fs_nblocks s"
    and sv: "vnode_of_inode ino ft (inode_of_bytes (sect s ino)) = Some sv" "sv_ino sv = ino" "vn_refcount sv = 1"
      "vn_opencount sv = 0" "vnode_ok s sv"
    and io: "inodes_ok s (insert ino I) ((inode_of s)(ino := sv_i sv))"
  shows "out_wp (sfs_loadvnode ino ft s)
    (\<lambda>vp s'. fs_inv s' (insert ino I) \<and> sfs_heap s vp = None \<and> sfs_heap s' = (sfs_heap s)(vp \<mapsto> sv) \<and>
       (\<forall>j. inode_of s' j = (if j = ino then sv_i sv else inode_of s j)) \<and> file_byte s' = file_byte s \<and>
       sfs_freemap s' = sfs_freemap s \<and> sfs_super s' = sfs_super s \<and> biglock_depth s' = biglock_depth s)
    (\<lambda>e s'. e = ENOMEM \<and> fs_inv s' I \<and> files_same s I s' \<and> sfs_heap s' = sfs_heap s \<and>
       sfs_freemap s' = sfs_freemap s \<and> sfs_super s' = sfs_super s \<and> biglock_depth s' = biglock_depth s)"
proof -
  have find: "List.find (vnode_has s ino) (array_list (sfs_vnodes s)) = None"
    using new by (auto simp: find_None_iff vnode_has_def split: option.splits)
  have se: "vnode_search 0 (array_num (sfs_vnodes s)) ino s = Ok None s"
    using vnode_search_eq [OF inv, of 0 "array_num (sfs_vnodes s)" ino] find by (simp add: array_num_def)
  obtain ok s1 where s1: "km_next s = (ok, s1)" by (cases "km_next s")
  have al: "alloc_step s s1" using alloc_step_km [of s] s1 by simp
  note e = al [unfolded alloc_step_def] and k = alloc_step_inv [OF al]
  show ?thesis
  proof (cases ok)
    case False
    then show ?thesis using se s1 k inv e by (simp add: sfs_loadvnode_def others_same_def)
  next
    case True
    have "fs_nblocks s \<le> nbits (sfs_freemap s)" using fs_invD(1) [OF inv] by (simp add: fs_ok_def)
    then have bu: "sfs_bused ino s1 = Ok True s1" using used e by (simp add: sfs_bused_def)
    have ok1: "fs_ok s1" using k(4) fs_inv_ok [OF inv bd] by simp
    obtain t where t: "sfs_rblock ino s1 = Ok (sect s ino) t" "dev_step s1 t"
      using out_wp_total [OF sfs_rblock_wp [of s1 ino]] ok1 used(2) e by (auto simp: fs_ok_def)
    note d = dev_step_sel [OF t(2)] and dk = dev_step_inv [OF t(2)] and dv = dev_step_view [OF t(2)]
    let ?vp = "sfs_brk t"
    have brk: "sfs_vnodes t = sfs_vnodes s" "?vp = sfs_brk s1" using d(6) e by (simp_all add: fs_frame_def)
    have inv_t: "fs_inv t I" using dk(2) k(3) inv by blast
    have heap: "sfs_heap t = sfs_heap s" "sfs_freemap t = sfs_freemap s" "sfs_super t = sfs_super s"
      "biglock_depth t = biglock_depth s" "inode_of t = inode_of s" "file_byte t = file_byte s" "sect t = sect s"
      using d e dk dv k by simp_all
    have fresh: "sfs_heap s ?vp = None" using fs_invD(3) [OF inv_t] heap(1) by (auto simp: table_ok_def)
    let ?u = "vn_put ?vp sv (t\<lparr>sfs_brk := ?vp + 1\<rparr>)"
    have run: "sfs_loadvnode ino ft s = (case vnodearray_add ?vp ?u of Ok _ s \<Rightarrow> Ok ?vp s | Panic \<Rightarrow> Panic
        | Err e s \<Rightarrow> kbind (vnode_cleanup ?vp s) (\<lambda>_ s. Err e (s\<lparr>sfs_heap := (sfs_heap s)(?vp := None)\<rparr>)))"
      unfolding sfs_loadvnode_def Let_def se kbind.simps using True s1 bu t(1) sv(1) by simp
    have num: "array_inv (sfs_vnodes ?u)" "arr_num (sfs_vnodes ?u) < 2 ^ 31"
      using fs_invD(3) [OF inv_t] table_size [OF inv_t] fs_invD(2) [OF inv_t] by (auto simp: vn_put_def table_ok_def)
    show ?thesis
      using vnodearray_add_wp [OF num, of ?vp]
    proof (cases rule: out_wp_cases)
      case (Ok a v)
      then obtain x a where v: "v = ?u\<lparr>km_fail := x, sfs_vnodes := a\<rparr>" "array_inv a"
        "array_list a = array_list (sfs_vnodes s) @ [?vp]" using brk(1) by (auto simp: vn_put_def)
      have vt: "v = t\<lparr>sfs_heap := (sfs_heap t)(?vp \<mapsto> sv), sfs_brk := ?vp + 1, km_fail := x, sfs_vnodes := a\<rparr>"
        using v(1) by (simp add: vn_put_def)
      have vok: "vnode_ok t sv" using sv(5) heap by (simp add: vnode_ok_def)
      have "file_ok t = file_ok s" "file_refs t = file_refs s"
        using dv e heap by (auto simp: fun_eq_iff file_ok_def file_refs_def bmap_of_def idbuf_of_def)
      then have io': "inodes_ok t (insert (sv_ino sv) I) ((inode_of t)(sv_ino sv := sv_i sv))"
        using io heap sv(2) by (simp add: inodes_ok_def)
      note en = enter_vnode_inv [OF inv_t _ vok io' vt v(2)]
      have en': "fs_inv v (insert ino I)" "\<And>j. inode_of v j = (if j = ino then sv_i sv else inode_of s j)"
        "file_byte v = file_byte s"
        using en v(3) brk(1) heap new sv(2) by auto
      then show ?thesis using run Ok(1) fresh vt heap by simp
    next
      case (Err e' v)
      then obtain x where v: "e' = ENOMEM" "v = ?u\<lparr>km_fail := x\<rparr>" by auto
      let ?w = "v\<lparr>sfs_heap := (sfs_heap s)\<rparr>"
      have hs: "(sfs_heap s)(?vp := None) = sfs_heap s" using fresh by auto
      have "vnode_cleanup ?vp v = Ok () (vn_put ?vp (sv\<lparr>vn_refcount := 0, vn_opencount := 0\<rparr>) v)"
        using v(2) sv(3,4) by (simp add: vnode_cleanup_def vn_get_def vn_put_def)
      then have res: "sfs_loadvnode ino ft s = Err ENOMEM ?w"
        using run Err(1) v heap(1) hs by (simp add: vn_put_def)
      have al': "alloc_step t ?w" using v(2) heap(1) by (simp add: alloc_step_def vn_put_def)
      note k' = alloc_step_inv [OF al'] and e' = al' [unfolded alloc_step_def]
      show ?thesis using res k' inv_t heap e' by (simp add: others_same_def)
    qed
  qed
qed

lemma vnode_incref_eq:
  "sfs_heap s vp = Some sv \<Longrightarrow> vnode_incref vp s = Ok () (vn_put vp (sv\<lparr>vn_refcount := vn_refcount sv + 1\<rparr>) s)"
  by (simp add: vnode_incref_def vn_update_def vn_get_def vfs_biglock_acquire_def vfs_biglock_release_def vn_put_def Let_def)

lemma refcount_inv:
  assumes "fs_inv s I" "sfs_heap s vp = Some sv" "biglock_depth s > 0" "1 \<le> r"
  shows "fs_inv (vn_put vp (sv\<lparr>vn_refcount := r\<rparr>) s) I" "files_same s I (vn_put vp (sv\<lparr>vn_refcount := r\<rparr>) s)"
proof -
  have "0 \<le> vn_opencount sv" using fs_invD(5) [OF assms(1,2)] by (simp add: vnode_ok_def)
  note c = vn_count_inv [OF assms this]
  have "sv\<lparr>vn_refcount := r, vn_opencount := vn_opencount sv\<rparr> = sv\<lparr>vn_refcount := r\<rparr>" by (cases sv) simp
  then show "fs_inv (vn_put vp (sv\<lparr>vn_refcount := r\<rparr>) s) I" "files_same s I (vn_put vp (sv\<lparr>vn_refcount := r\<rparr>) s)"
    using c by simp_all
qed

text \<open>
  Loading an inode that exists: the same vnode again with one more reference, or a new vnode that
  holds what is on disk; never two vnodes for one inode.
\<close>

lemma sfs_loadvnode_wp:
  assumes inv: "fs_inv s I" and bd: "biglock_depth s > 0" and ino: "ino \<in> I"
  shows "out_wp (sfs_loadvnode ino 0 s)
    (\<lambda>vp s'. fs_inv s' I \<and> files_same s I s' \<and> sfs_freemap s' = sfs_freemap s \<and>
       sfs_super s' = sfs_super s \<and> biglock_depth s' = biglock_depth s \<and>
       (\<exists>sv. sfs_heap s' = (sfs_heap s)(vp \<mapsto> sv) \<and> sv_ino sv = ino \<and> sv_i sv = inode_of s ino \<and>
          vn_refcount sv = (case sfs_heap s vp of None \<Rightarrow> 1 | Some sw \<Rightarrow> vn_refcount sw + 1) \<and>
          (\<forall>sw. sfs_heap s vp = Some sw \<longrightarrow> sv = sw\<lparr>vn_refcount := vn_refcount sw + 1\<rparr>) \<and>
          (sfs_heap s vp = None \<longrightarrow> vn_opencount sv = 0)))
    (\<lambda>e s'. e = ENOMEM \<and> fs_inv s' I \<and> files_same s I s' \<and> sfs_heap s' = sfs_heap s \<and>
       sfs_freemap s' = sfs_freemap s \<and> sfs_super s' = sfs_super s \<and> biglock_depth s' = biglock_depth s)"
  using fs_invD(3) [OF inv]
proof (cases rule: inode_of_cases [where ino = ino])
  case (loaded vp sv)
  have "vp \<in> set (array_list (sfs_vnodes s))" using table_heap [OF fs_invD(3) [OF inv]] loaded(1) by blast
  moreover have "vnode_has s ino vp" using loaded by (simp add: vnode_has_def)
  ultimately have "List.find (vnode_has s ino) (array_list (sfs_vnodes s)) \<noteq> None"
    by (auto simp: find_None_iff simp del: not_None_eq)
  then obtain vq where vq: "List.find (vnode_has s ino) (array_list (sfs_vnodes s)) = Some vq" by blast
  then have "vnode_has s ino vq" by (auto simp: find_Some_iff)
  then have "vq = vp" using loaded fs_invD(3) [OF inv] by (auto simp: vnode_has_def table_ok_def split: option.splits)
  then have se: "vnode_search 0 (array_num (sfs_vnodes s)) ino s = Ok (Some vp) s"
    using vnode_search_eq [OF inv, of 0 "array_num (sfs_vnodes s)" ino] vq by (simp add: array_num_def)
  let ?sv = "sv\<lparr>vn_refcount := vn_refcount sv + 1\<rparr>"
  have run: "sfs_loadvnode ino 0 s = Ok vp (vn_put vp ?sv s)"
    using se vnode_incref_eq [OF loaded(1)] by (simp add: sfs_loadvnode_def)
  have "1 \<le> vn_refcount sv + 1" using fs_invD(5) [OF inv loaded(1)] by (simp add: vnode_ok_def)
  note r = refcount_inv [OF inv loaded(1) bd this]
  show ?thesis using run r loaded by simp
next
  case disk
  note io = fs_invD(4) [OF inv]
  let ?i = "inode_of_bytes (sect s ino)"
  have ty: "sfi_type ?i = 1 \<or> sfi_type ?i = 2" using inodes_okD(7) [OF io ino] disk(2) by simp
  then obtain sv where sv: "vnode_of_inode ino 0 ?i = Some sv" "sv_ino sv = ino" "vn_refcount sv = 1"
    "vn_opencount sv = 0" "sv_i sv = ?i" "vnode_ok s sv"
    by (auto simp: vnode_of_inode_def vnode_init_def vnode_ok_def Let_def)
  have "(inode_of s)(ino := sv_i sv) = inode_of s" "insert ino I = I" using disk(2) sv(5) ino by auto
  then have io': "inodes_ok s (insert ino I) ((inode_of s)(ino := sv_i sv))" using io by simp
  have "ino \<in> fs_used s" "ino < fs_nblocks s" using inodes_okD(1) [OF io] inodes_okD(2) [OF io ino] ino by auto
  from load_new_wp [OF inv bd disk(1) this sv(1-4,6) io']
  show ?thesis
    by (rule out_wp_conseq) (use sv disk(2) \<open>insert ino I = I\<close> in \<open>auto simp: others_same_def\<close>)
qed

text \<open>A new object: an empty inode of the given type in a block that was free.\<close>

definition new_inode :: "u16 \<Rightarrow> sfs_inode" where
  "new_inode ty = \<lparr>sfi_size = 0, sfi_type = ty, sfi_linkcount = 0, sfi_direct = replicate 15 0,
     sfi_indirect = 0, sfi_waste = replicate 110 0\<rparr>"

lemma inode_of_zeros: "inode_of_bytes (replicate 512 0) = new_inode 0"
proof -
  have 1: "unbe32 (replicate 4 0) = 0" "unbe16 (replicate 2 0) = 0"
    by (simp_all add: unbe32_def unbe16_def numeral_eq_Suc)
  have "replicate 504 (0::u8) = replicate (4 * 15) 0 @ replicate 444 0"
    by (simp only: replicate_add [symmetric]) simp
  then have d: "unbe32s 15 (replicate 504 0) = replicate 15 0"
    using unbe32s_be32s [of 15 "replicate 15 0" "replicate 444 0"] by (simp add: be32s_def be32_def numeral_eq_Suc)
  have w: "unbe32s 110 (replicate 440 0) = replicate 110 0" using unbe32s_zero [of 110] by simp
  show ?thesis using 1 d w by (simp add: inode_of_bytes_def new_inode_def)
qed

lemma new_inode_empty: "bmap_of s (new_inode ty) x = 0" "file_refs s (new_inode ty) = {}" "file_ok s (new_inode ty)"
proof -
  show b: "bmap_of s (new_inode ty) x = 0" for x by (simp add: bmap_of_def idbuf_of_def new_inode_def)
  show r: "file_refs s (new_inode ty) = {}" by (auto simp: file_refs_def b) (simp add: new_inode_def)
  show "file_ok s (new_inode ty)" by (simp add: file_ok_def b r) (simp add: inode_wf_def new_inode_def)
qed

text \<open>Taking free blocks, and writing into them, disturbs no file.\<close>

lemma grow_inv:
  assumes inv: "fs_inv s I" and t: "fs_ok t" "fs_frame s t" "sfs_heap t = sfs_heap s" "fs_used s \<subseteq> fs_used t"
    and sec: "\<And>b. b \<in> fs_used s \<Longrightarrow> sect t b = sect s b"
  shows "fs_inv t I" "files_same s I t"
proof -
  note io = fs_invD(4) [OF inv] and tab = fs_invD(3) [OF inv]
  have fr: "sfs_vnodes t = sfs_vnodes s" "sfs_brk t = sfs_brk s" "sfs_super t = sfs_super s" using t(2) by (auto simp: fs_frame_def)
  have tab': "table_ok t" using tab by (simp add: table_ok_def loaded_def fr t)
  have n: "inode_of t j = inode_of s j" if "j \<in> I" for j
    using tab
  proof (cases rule: inode_of_cases [where ino = j])
    case (loaded vq sw)
    then show ?thesis using inode_of_loaded [OF tab', of vq sw] t(3) by simp
  next
    case disk
    have "inode_of t j = inode_of_bytes (sect t j)" by (rule inode_of_unloaded) (use disk(1) t(3) in auto)
    moreover have "sect t j = sect s j" using sec inodes_okD(1) [OF io] that by auto
    ultimately show ?thesis using disk(2) by simp
  qed
  have own: "sect t b = sect s b" if "j \<in> I" "b \<in> file_refs s (inode_of s j)" for j b
    using sec inodes_okD(6) [OF io that(1)] that(2) by auto
  note view = file_view_cong [OF own]
  have fok: "file_ok t (inode_of s j)" if "j \<in> I" for j
    by (rule file_ok_cong [OF own inodes_okD(3) [OF io]]) (use that inodes_okD(6) [OF io] t(4) fr in auto)
  show "files_same s I t" using n view(3) by (simp add: others_same_def)
  have "inodes_ok t I (inode_of t)"
    unfolding inodes_ok_def
  proof (intro conjI ballI impI)
    show "I \<subseteq> fs_used t \<inter> {0<..<fs_nblocks t}" using inodes_okD(1,2) [OF io] t(4) fr by auto
    fix i
    assume i: "i \<in> I"
    show "file_ok t (inode_of t i)" using fok n i by simp
    show "file_refs t (inode_of t i) \<inter> I = {}" using inodes_okD(4) [OF io i] view(2) [OF i] n i by simp
    show "sfi_type (inode_of t i) \<in> {SFS_TYPE_FILE, SFS_TYPE_DIR}" using inodes_okD(7) [OF io i] n i by simp
    fix j
    assume "j \<in> I" "i \<noteq> j"
    then show "file_refs t (inode_of t i) \<inter> file_refs t (inode_of t j) = {}"
      using inodes_okD(5) [OF io i] view(2) n i by simp
  qed
  moreover have "vnode_ok t sw" if "sfs_heap s vq = Some sw" for vq sw
    using fs_invD(5) [OF inv that] sec fs_inv_vnode(4) [OF inv that] by (simp add: vnode_ok_def)
  ultimately show "fs_inv t I"
    using tab' fs_ok_depth [OF t(1), of 1] fs_invD(2,6) [OF inv] t(3) fr by (auto simp: fs_inv_def)
qed

lemma sfs_makeobj_wp:
  assumes inv: "fs_inv s I" and bd: "biglock_depth s > 0" and ty: "ty = SFS_TYPE_FILE \<or> ty = SFS_TYPE_DIR"
  shows "out_wp (sfs_makeobj ty s)
    (\<lambda>vp s'. \<exists>sv. sv_ino sv \<notin> fs_used s \<and> fs_inv s' (insert (sv_ino sv) I) \<and> files_same s I s' \<and>
       sfs_heap s vp = None \<and> sfs_heap s' = (sfs_heap s)(vp \<mapsto> sv) \<and> sv_i sv = new_inode ty \<and>
       vn_refcount sv = 1 \<and> vn_opencount sv = 0 \<and> sv_dirty sv \<and> sfs_super s' = sfs_super s \<and> biglock_depth s' = biglock_depth s)
    (\<lambda>e s'. fs_inv s' I \<and> files_same s I s' \<and> sfs_heap s' = sfs_heap s \<and> sfs_super s' = sfs_super s \<and>
       biglock_depth s' = biglock_depth s \<and>
       (e = ENOSPC \<and> s' = s \<or> e = ENOMEM \<and> (\<exists>b. b \<notin> fs_used s \<and> fs_used s' = insert b (fs_used s))))"
proof -
  have ok: "fs_ok s" by (rule fs_inv_ok [OF inv bd])
  show ?thesis
    using sfs_balloc_wp [OF ok]
  proof (cases rule: out_wp_cases)
    case (Err e t)
    then show ?thesis using inv by (simp add: sfs_makeobj_def)
  next
    case (Ok b t)
    note post = Ok(2) [unfolded balloc_post_def]
    have g: "fs_inv t I" "files_same s I t"
      by (rule grow_inv [OF inv]; use post in auto)+
    have fr: "sfs_super t = sfs_super s" "biglock_depth t = biglock_depth s" using post by (simp_all add: fs_frame_def)
    have new: "sv_ino sw \<noteq> b" if "sfs_heap t vq = Some sw" for vq sw
      using fs_inv_vnode(4) [OF inv, of vq sw] that post by auto
    have nI: "b \<notin> I" using inodes_okD(1) [OF fs_invD(4) [OF inv]] post by auto
    define sv where "sv = vnode_init (if ty = 1 then sfs_fileops else sfs_dirops)
      \<lparr>vn_ops = sfs_fileops, vn_refcount = 0, vn_opencount = 0, sv_i = new_inode ty, sv_ino = b, sv_dirty = True\<rparr>"
    have sv: "sv_ino sv = b" "vn_refcount sv = 1" "vn_opencount sv = 0" "sv_i sv = new_inode ty" "sv_dirty sv"
      by (simp_all add: sv_def vnode_init_def)
    have z: "(new_inode 0)\<lparr>sfi_type := ty\<rparr> = new_inode ty" "sfi_type (new_inode ty) = ty" "sfi_type (new_inode 0) = 0"
      by (simp_all add: new_inode_def)
    have "vnode_of_inode b ty (inode_of_bytes (sect t b)) = Some sv"
      using post ty z by (auto simp: inode_of_zeros vnode_of_inode_def sv_def)
    moreover have "vnode_ok t sv" using ty z by (auto simp: vnode_ok_def vnode_init_def sv_def)
    moreover have "inodes_ok t (insert b I) ((inode_of t)(b := sv_i sv))"
    proof -
      note io = fs_invD(4) [OF g(1)]
      have "b \<notin> file_refs t (inode_of t i)" if "i \<in> I" for i
      proof -
        have "inode_of t i = inode_of s i" using g(2) that fs_inv_zero [OF inv] by (auto simp: others_same_def)
        moreover have "file_refs t (inode_of s i) = file_refs s (inode_of s i)"
          by (rule file_view_cong(2)) (use inodes_okD(6) [OF fs_invD(4) [OF inv] that] post in auto)
        ultimately show ?thesis using inodes_okD(6) [OF fs_invD(4) [OF inv] that] post by auto
      qed
      then show ?thesis
        using io ty z nI post fr new_inode_empty sv(4) by (auto simp: inodes_ok_def)
    qed
    ultimately have "out_wp (sfs_loadvnode b ty t)
      (\<lambda>vp s'. fs_inv s' (insert b I) \<and> sfs_heap t vp = None \<and> sfs_heap s' = (sfs_heap t)(vp \<mapsto> sv) \<and>
         (\<forall>j. inode_of s' j = (if j = b then sv_i sv else inode_of t j)) \<and> file_byte s' = file_byte t \<and>
         sfs_freemap s' = sfs_freemap t \<and> sfs_super s' = sfs_super t \<and> biglock_depth s' = biglock_depth t)
      (\<lambda>e s'. e = ENOMEM \<and> fs_inv s' I \<and> files_same t I s' \<and> sfs_heap s' = sfs_heap t \<and>
         sfs_freemap s' = sfs_freemap t \<and> sfs_super s' = sfs_super t \<and> biglock_depth s' = biglock_depth t)"
      using load_new_wp [OF g(1) _ new, where ft = ty and sv = sv] bd fr post sv by auto
    then show ?thesis
    proof (cases rule: out_wp_cases)
      case (Ok vp v)
      have "files_same t I v" using Ok(2) nI by (auto simp: others_same_def)
      then have "files_same s I v" by (rule others_same_trans [OF g(2)])
      then show ?thesis using Ok \<open>sfs_balloc s = Ok b t\<close> post fr
        by (auto simp: sfs_makeobj_def sv intro!: exI [of _ sv])
    next
      case (Err e v)
      then have "files_same s I v" using others_same_trans [OF g(2)] by blast
      then show ?thesis using Err \<open>sfs_balloc s = Ok b t\<close> post fr by (auto simp: sfs_makeobj_def)
    qed
  qed
qed

section \<open>Giving vnodes up\<close>

text \<open>
  A vnode leaves the table: its inode stays in use, and then the disk must hold it, or its block
  has been freed.
\<close>

lemma leave_vnode_inv:
  assumes inv: "fs_inv s I" and vp: "sfs_heap s vp = Some sv"
    and J: "J = I \<or> J = I - {sv_ino sv}" and dsk: "sv_ino sv \<in> J \<Longrightarrow> inode_of_bytes (sect s (sv_ino sv)) = sv_i sv"
    and t: "fs_ok t" "sect t = sect s" "sfs_super t = sfs_super s" "sfs_brk t = sfs_brk s"
      "sfs_heap t = (sfs_heap s)(vp := None)" "fs_used t = fs_used s - (I - J)"
    and a: "array_inv (sfs_vnodes t)" "array_list (sfs_vnodes t) = remove1 vp (array_list (sfs_vnodes s))"
  shows "fs_inv t J" "files_same s J t"
proof -
  note io = fs_invD(4) [OF inv] and tab = fs_invD(3) [OF inv]
  have b: "bmap_of t = bmap_of s" by (intro ext) (simp add: bmap_of_def idbuf_of_def t)
  have r: "file_refs t = file_refs s" by (intro ext) (simp add: file_refs_def b)
  have fb: "file_byte t = file_byte s" by (intro ext) (simp add: file_byte_def b t Let_def)
  have tab': "table_ok t"
    using tab a unfolding table_ok_def loaded_def t(4,5) by (auto split: if_splits)
  have n: "inode_of t j = inode_of s j" if "j \<in> J" for j
    using tab
  proof (cases rule: inode_of_cases [where ino = j])
    case (loaded vq sw)
    show ?thesis
    proof (cases "vq = vp")
      case True
      then have sw: "sw = sv" using loaded(1) vp by simp
      have "sv_ino sx \<noteq> j" if "sfs_heap t vr = Some sx" for vr sx
        using that t(5) tab vp loaded sw by (auto simp: table_ok_def split: if_splits)
      then have "inode_of t j = inode_of_bytes (sect t j)" by (rule inode_of_unloaded)
      then show ?thesis using dsk that loaded sw t(2) by simp
    next
      case False
      then show ?thesis using inode_of_loaded [OF tab', of vq sw] loaded t(5) by simp
    qed
  next
    case disk
    have "inode_of t j = inode_of_bytes (sect t j)"
      by (rule inode_of_unloaded) (use disk(1) t(5) in \<open>auto split: if_splits\<close>)
    then show ?thesis using disk(2) t(2) by simp
  qed
  show "files_same s J t" using n fb by (simp add: others_same_def)
  have JI: "J \<subseteq> I" using J by auto
  have gone: "file_refs s (inode_of s i) \<inter> (I - J) = {}" if "i \<in> J" for i
    using inodes_okD(4) [OF io, of i] that JI by blast
  have fok: "file_ok t (inode_of s i)" if "i \<in> J" for i
    using inodes_okD(3) [OF io, of i] gone [OF that] that JI unfolding file_ok_def b r t(3,6) by blast
  have "inodes_ok t J (inode_of t)"
    unfolding inodes_ok_def
  proof (intro conjI ballI impI)
    show "J \<subseteq> fs_used t \<inter> {0<..<fs_nblocks t}"
      using inodes_okD(1,2) [OF io] JI unfolding t(3,6) by auto
    fix i
    assume i: "i \<in> J"
    then have iI: "i \<in> I" using JI by blast
    show "file_ok t (inode_of t i)" using fok [OF i] n [OF i] by simp
    show "file_refs t (inode_of t i) \<inter> J = {}" using inodes_okD(4) [OF io iI] JI unfolding r n [OF i] by blast
    show "sfi_type (inode_of t i) \<in> {SFS_TYPE_FILE, SFS_TYPE_DIR}" using inodes_okD(7) [OF io iI] n [OF i] by simp
    fix j
    assume j: "j \<in> J" "i \<noteq> j"
    then show "file_refs t (inode_of t i) \<inter> file_refs t (inode_of t j) = {}"
      using inodes_okD(5) [OF io iI, of j] JI unfolding r n [OF i] n [OF j(1)] by blast
  qed
  moreover have "vnode_ok t sw \<and> sv_ino sw \<in> J" if "sfs_heap t vq = Some sw" for vq sw
  proof -
    have w: "vq \<noteq> vp" "sfs_heap s vq = Some sw" using that t(5) by (auto split: if_splits)
    then have "sv_ino sw \<noteq> sv_ino sv" using tab vp by (auto simp: table_ok_def)
    then show ?thesis using fs_invD(5,6) [OF inv w(2)] J t(2) by (auto simp: vnode_ok_def)
  qed
  ultimately show "fs_inv t J"
    using tab' fs_ok_depth [OF t(1), of 1] fs_invD(2) [OF inv] t(3) by (auto simp: fs_inv_def)
qed

lemma vnode_index_eq:
  assumes "table_ok s" and "i + n = arr_num (sfs_vnodes s)" and "vp \<in> set (drop i (array_list (sfs_vnodes s)))"
  shows "\<exists>k. vnode_index i n vp s = Ok (Some k) s \<and> k < arr_num (sfs_vnodes s) \<and> array_list (sfs_vnodes s) ! k = vp"
  using assms(2,3)
proof (induction n arbitrary: i)
  case 0
  then show ?case using assms(1) by (simp add: table_ok_def)
next
  case (Suc n)
  let ?l = "array_list (sfs_vnodes s)"
  have i: "i < arr_num (sfs_vnodes s)" using Suc.prems by simp
  have "length ?l = arr_num (sfs_vnodes s)" using assms(1) by (simp add: table_ok_def)
  then have dr: "drop i ?l = ?l ! i # drop (Suc i) ?l" using i by (simp add: Cons_nth_drop_Suc)
  have g: "vnodearray_get i s = Ok (?l ! i) s" using table_nth [OF assms(1) i] by blast
  show ?case
  proof (cases "?l ! i = vp")
    case True
    then show ?thesis using g i by simp
  next
    case False
    then have "vp \<in> set (drop (Suc i) ?l)" using Suc.prems(2) dr by auto
    then show ?thesis using Suc.IH [of "Suc i"] Suc.prems(1) g False by simp
  qed
qed

lemma remove1_nth:
  assumes "distinct xs" and "k < length xs" and "xs ! k = x"
  shows "take k xs @ drop (Suc k) xs = remove1 x xs"
proof -
  have "xs = take k xs @ x # drop (Suc k) xs" using id_take_nth_drop [OF assms(2)] assms(3) by metis
  moreover from this have "x \<notin> set (take k xs)" using assms(1) by (metis distinct_append disjoint_iff list.set_intros(1))
  ultimately show ?thesis by (metis remove1_append remove1.simps(2))
qed

lemma vnodearray_remove_eq:
  assumes tab: "table_ok s" and k: "k < arr_num (sfs_vnodes s)" "array_list (sfs_vnodes s) ! k = vp"
  shows "\<exists>a. vnodearray_remove k s = Ok () (s\<lparr>sfs_vnodes := a\<rparr>) \<and> array_inv a \<and>
    array_list a = remove1 vp (array_list (sfs_vnodes s))"
proof -
  have t: "array_inv (sfs_vnodes s)" "distinct (array_list (sfs_vnodes s))" using tab by (auto simp: table_ok_def)
  then have "k < length (array_list (sfs_vnodes s))" using k by simp
  from array_remove_spec [OF t(1) this] remove1_nth [OF t(2) this k(2)]
  show ?thesis by (auto simp: vnodearray_remove_def)
qed

lemma vnode_check_eq:
  "sfs_heap s vp = Some sv \<Longrightarrow> vn_refcount sv \<ge> 1 \<Longrightarrow> vn_opencount sv \<ge> 0 \<Longrightarrow> vnode_check vp opstr s = Ok () s"
  by (simp add: vnode_check_def vn_get_def vfs_biglock_acquire_def vfs_biglock_release_def Let_def)

lemma vop_eq:
  assumes "fs_inv s I" and "sfs_heap s vp = Some sv"
  shows "vop vp opstr f g s = (case vn_ops sv of sfs_fileops \<Rightarrow> f s | sfs_dirops \<Rightarrow> g s)"
  using vnode_check_eq [OF assms(2)] fs_invD(5) [OF assms] assms(2) by (simp add: vop_def vnode_ok_def vn_get_def)

text \<open>The inode numbers left when a vnode is given up: a file without links is gone.\<close>

definition inodes_left :: "nat set \<Rightarrow> sfs_vnode \<Rightarrow> nat set" where
  "inodes_left I sv = (if sfi_linkcount (sv_i sv) = 0 then I - {sv_ino sv} else I)"

text \<open>The end of \<open>sfs_reclaim\<close>, once the inode is on disk.\<close>

lemma reclaim_end_wp:
  assumes inv: "fs_inv s I" and vp: "sfs_heap s vp = Some sv" and bd: "biglock_depth s = Suc d" "0 < d"
    and cnt: "vn_refcount sv = 1" "vn_opencount sv = 0" and dsk: "inode_of_bytes (sect s (sv_ino sv)) = sv_i sv"
  shows "out_wp
    (kbind (if sfi_linkcount (sv_i sv) = 0 then sfs_bfree (sv_ino sv) s else Ok () s) (\<lambda>_ s.
         kbind (vnode_index 0 (array_num (sfs_vnodes s)) vp s) (\<lambda>ix s.
           case ix of
             None \<Rightarrow> Panic
           | Some ix \<Rightarrow>
               kbind (vnodearray_remove ix s) (\<lambda>_ s.
               kbind (vnode_cleanup vp s) (\<lambda>_ s.
               kbind (vfs_biglock_release s) (\<lambda>_ s.
                 Ok () (s\<lparr>sfs_heap := (sfs_heap s)(vp := None)\<rparr>)))))))
    (\<lambda>_ s'. fs_inv s' (inodes_left I sv) \<and> files_same s (inodes_left I sv) s' \<and> biglock_depth s' = d \<and>
       sfs_heap s' = (sfs_heap s)(vp := None) \<and> sfs_super s' = sfs_super s \<and>
       fs_used s' = fs_used s - (I - inodes_left I sv))
    (\<lambda>_ _. False)" (is "out_wp (kbind ?m ?k) ?Q ?E")
proof -
  note v = fs_inv_vnode [OF inv vp]
  have ok: "fs_ok s" by (rule fs_inv_ok [OF inv]) (use bd in simp)
  have "\<exists>t. ?m = Ok () t \<and> fs_ok t \<and> fs_frame s t \<and> sfs_device t = sfs_device s \<and> sfs_heap t = sfs_heap s \<and>
      fs_used t = fs_used s - (I - inodes_left I sv)"
  proof (cases "sfi_linkcount (sv_i sv) = 0")
    case True
    have "I - inodes_left I sv = {sv_ino sv}" using True v(2) by (auto simp: inodes_left_def)
    then show ?thesis using True out_wp_total [OF sfs_bfree_wp [OF ok v(4,7)]] v(6) by auto
  next
    case False
    then show ?thesis using ok by (simp add: inodes_left_def)
  qed
  then obtain t where t: "?m = Ok () t" "fs_ok t" "fs_frame s t" "sfs_device t = sfs_device s"
    "sfs_heap t = sfs_heap s" "fs_used t = fs_used s - (I - inodes_left I sv)" by blast
  have fr: "sfs_vnodes t = sfs_vnodes s" "sfs_brk t = sfs_brk s" "sfs_super t = sfs_super s" "biglock_depth t = Suc d"
    using t(3) bd by (auto simp: fs_frame_def)
  have tab: "table_ok t" using fs_invD(3) [OF inv] by (simp add: table_ok_def loaded_def fr t(5))
  have "vp \<in> set (drop 0 (array_list (sfs_vnodes t)))" using table_heap [OF tab] vp t(5) by auto
  then obtain k where k: "vnode_index 0 (array_num (sfs_vnodes t)) vp t = Ok (Some k) t"
    "k < arr_num (sfs_vnodes t)" "array_list (sfs_vnodes t) ! k = vp"
    using vnode_index_eq [OF tab, of 0 "array_num (sfs_vnodes t)"] by (auto simp: array_num_def)
  obtain a where a: "vnodearray_remove k t = Ok () (t\<lparr>sfs_vnodes := a\<rparr>)" "array_inv a"
    "array_list a = remove1 vp (array_list (sfs_vnodes s))"
    using vnodearray_remove_eq [OF tab k(2,3)] fr(1) by auto
  let ?u = "t\<lparr>sfs_vnodes := a, biglock_depth := d, sfs_heap := (sfs_heap s)(vp := None)\<rparr>"
  have run: "kbind ?m ?k = Ok () ?u"
    using t(1,5) k(1) a(1) vp cnt fr(4)
    by (simp add: vnode_cleanup_def vn_get_def vfs_biglock_release_def vn_put_def)
  have "fs_ok ?u" using t(2) bd(2) by (simp add: fs_ok_def dev_ok_def)
  then have "fs_inv ?u (inodes_left I sv)" "files_same s (inodes_left I sv) ?u"
    by (intro leave_vnode_inv [OF inv vp]; use t a fr dsk in \<open>simp add: inodes_left_def\<close>)+
  then show ?thesis unfolding run using t(6) fr(3) by simp
qed

lemma others_same_sub: "others_same s I n t \<Longrightarrow> J \<subseteq> I \<Longrightarrow> n \<notin> J \<or> n = 0 \<Longrightarrow> files_same s J t"
  unfolding others_same_def by (metis subsetD)

lemma trunc_all: "trunc_blocks 0 = 0" "trunc_drops 0 = UNIV"
  by (auto simp: trunc_blocks_def trunc_drops_def to_u32_def signed_divide_int_def)

text \<open>Truncating to nothing leaves a file without blocks.\<close>

lemma truncated_zero:
  assumes "truncated s vp sv 0 s' sv'"
  shows "file_refs s' (sv_i sv') = {}" "fs_used s' = fs_used s - file_refs s (sv_i sv)"
    "sfi_linkcount (sv_i sv') = sfi_linkcount (sv_i sv)"
proof -
  let ?i = "(sv_i sv')\<lparr>sfi_size := sfi_size (sv_i sv)\<rparr>"
  have sh: "file_shrink s (sv_i sv) UNIV s' ?i" and z: "sfi_indirect (sv_i sv') = 0"
    using assms by (auto simp: truncated_def trunc_all)
  have "bmap_of s' (sv_i sv') = (\<lambda>x. 0)" using sh by (simp add: file_shrink_def)
  then show r: "file_refs s' (sv_i sv') = {}" using z by (auto simp: file_refs_def)
  show "fs_used s' = fs_used s - file_refs s (sv_i sv)" using sh r by (simp add: file_shrink_def)
  show "sfi_linkcount (sv_i sv') = sfi_linkcount (sv_i sv)" using sh by (simp add: file_shrink_def same_meta_def)
qed

text \<open>
  Reclaiming a vnode nobody refers to: a file without a link loses its blocks and its inode, any
  other file stays as it is, on disk.
\<close>

lemma sfs_reclaim_wp:
  assumes inv: "fs_inv s I" and vp: "sfs_heap s vp = Some sv" and bd: "0 < biglock_depth s"
    and cnt: "vn_refcount sv = 1" "vn_opencount sv = 0"
    and ops: "sfi_linkcount (sv_i sv) = 0 \<Longrightarrow> vn_ops sv = sfs_fileops"
  shows "out_wp (sfs_reclaim vp s)
    (\<lambda>_ s'. fs_inv s' (inodes_left I sv) \<and> files_same s (inodes_left I sv) s' \<and> biglock_depth s' = biglock_depth s \<and>
       sfs_heap s' = (sfs_heap s)(vp := None) \<and> sfs_super s' = sfs_super s \<and>
       fs_used s' = fs_used s - (if sfi_linkcount (sv_i sv) = 0 then insert (sv_ino sv) (file_refs s (sv_i sv)) else {}))
    (\<lambda>_ _. False)"
proof -
  let ?s = "vfs_biglock_acquire s" and ?J = "inodes_left I sv" and ?n = "sv_ino sv"
  let ?m = "if sfi_linkcount (sv_i sv) = 0 then VOP_TRUNCATE vp 0 ?s else Ok () ?s"
  have inv': "fs_inv ?s I" and vp': "sfs_heap ?s vp = Some sv" using inv vp by simp_all
  have J: "?J \<subseteq> I" by (auto simp: inodes_left_def)
  have "\<exists>t tv. ?m = Ok () t \<and> fs_inv t I \<and> files_same s ?J t \<and> sfs_heap t = (sfs_heap s)(vp \<mapsto> tv) \<and>
      vn_refcount tv = 1 \<and> vn_opencount tv = 0 \<and> sv_ino tv = ?n \<and> sfi_linkcount (sv_i tv) = sfi_linkcount (sv_i sv) \<and>
      biglock_depth t = Suc (biglock_depth s) \<and> sfs_super t = sfs_super s \<and>
      fs_used t = fs_used s - (if sfi_linkcount (sv_i sv) = 0 then file_refs s (sv_i sv) else {})"
  proof (cases "sfi_linkcount (sv_i sv) = 0")
    case True
    then have "VOP_TRUNCATE vp 0 ?s = sfs_truncate vp 0 ?s"
      using vop_eq [OF inv' vp'] ops by (simp add: VOP_TRUNCATE_def)
    then obtain t tv where t: "?m = Ok () t" "truncated ?s vp sv 0 t tv" "fs_inv t I" "others_same ?s I ?n t"
      using out_wp_total [OF sfs_truncate_inv [OF inv' vp', of 0]] True by auto
    note z = truncated_zero [OF t(2)] and ch = file_change_trunc [OF t(2)]
    have "files_same s ?J t" using others_same_sub [OF _ J, of s ?n t] t(4) True by (simp add: inodes_left_def)
    moreover have "file_refs ?s = file_refs s" "fs_used ?s = fs_used s" by (simp_all add: vfs_biglock_acquire_def)
    ultimately show ?thesis
      using t z ch cnt True by (auto simp: truncated_def vn_same_def file_change_def fs_frame_def)
  next
    case False
    have "files_same s ?J ?s" by (simp add: others_same_def)
    then show ?thesis using False inv' vp cnt by (auto simp: fun_upd_idem vfs_biglock_acquire_def intro!: exI [of _ sv])
  qed
  then obtain t tv where t: "?m = Ok () t" "fs_inv t I" "files_same s ?J t" "sfs_heap t = (sfs_heap s)(vp \<mapsto> tv)"
    "vn_refcount tv = 1" "vn_opencount tv = 0" "sv_ino tv = ?n" "sfi_linkcount (sv_i tv) = sfi_linkcount (sv_i sv)"
    "biglock_depth t = Suc (biglock_depth s)" "sfs_super t = sfs_super s"
    "fs_used t = fs_used s - (if sfi_linkcount (sv_i sv) = 0 then file_refs s (sv_i sv) else {})" by blast
  have tvp: "sfs_heap t vp = Some tv" using t(4) by simp
  obtain u where u: "sfs_sync_inode vp t = Ok () u" "fs_inv u I" "files_same t I u"
    "sfs_heap u = (sfs_heap t)(vp \<mapsto> tv\<lparr>sv_dirty := False\<rparr>)" "fs_frame t u" "sfs_freemap u = sfs_freemap t"
    "inode_of_bytes (sect u ?n) = sv_i tv"
    using out_wp_total [OF sfs_sync_inode_wp [OF t(2) tvp]] t(7,9) by auto
  let ?uv = "tv\<lparr>sv_dirty := False\<rparr>"
  have uvp: "sfs_heap u vp = Some ?uv" and ud: "biglock_depth u = Suc (biglock_depth s)"
    using u(4,5) t(9) by (auto simp: fs_frame_def)
  have left: "inodes_left I ?uv = ?J" using t(7,8) by (simp add: inodes_left_def)
  note fin = reclaim_end_wp [OF u(2) uvp ud bd, unfolded left]
  have "vn_get vp ?s = Ok sv ?s" "vn_get vp u = Ok ?uv u" using vp' uvp by (simp_all add: vn_get_def)
  then have run: "sfs_reclaim vp s = kbind (if sfi_linkcount (sv_i ?uv) = 0 then sfs_bfree (sv_ino ?uv) u else Ok () u) (\<lambda>_ s.
         kbind (vnode_index 0 (array_num (sfs_vnodes s)) vp s) (\<lambda>ix s.
           case ix of None \<Rightarrow> Panic | Some ix \<Rightarrow>
               kbind (vnodearray_remove ix s) (\<lambda>_ s. kbind (vnode_cleanup vp s) (\<lambda>_ s.
               kbind (vfs_biglock_release s) (\<lambda>_ s. Ok () (s\<lparr>sfs_heap := (sfs_heap s)(vp := None)\<rparr>))))))"
    using t(1) u(1) cnt(1) unfolding sfs_reclaim_def by (simp only: kbind.simps kbind_unlock.simps if_False simp_thms)
  have diff: "fs_used s - A - (I - ?J) = fs_used s - (if sfi_linkcount (sv_i sv) = 0 then insert ?n (file_refs s (sv_i sv)) else {})"
    if "A = (if sfi_linkcount (sv_i sv) = 0 then file_refs s (sv_i sv) else {})" for A
    using that fs_inv_vnode(2) [OF inv vp] by (auto simp: inodes_left_def)
  have "files_same s ?J v" if "files_same u ?J v" for v
    using others_same_trans [OF others_same_trans [OF t(3) others_same_sub [OF u(3) J]] that] by simp
  then show ?thesis unfolding run
    by (intro out_wp_conseq [OF fin]) (use t u diff in \<open>auto simp: fs_frame_def\<close>)
qed

definition inodes_after :: "nat set \<Rightarrow> sfs_vnode \<Rightarrow> nat set" where
  "inodes_after I sv = (if vn_refcount sv = 1 then inodes_left I sv else I)"

text \<open>Dropping a reference; the last one gives the vnode up.\<close>

lemma vnode_decref_wp:
  assumes inv: "fs_inv s I" and vp: "sfs_heap s vp = Some sv"
    and last: "vn_refcount sv = 1 \<Longrightarrow> vn_opencount sv = 0"
      "vn_refcount sv = 1 \<Longrightarrow> sfi_linkcount (sv_i sv) = 0 \<Longrightarrow> vn_ops sv = sfs_fileops"
  shows "out_wp (vnode_decref vp s)
    (\<lambda>_ s'. fs_inv s' (inodes_after I sv) \<and> files_same s (inodes_after I sv) s' \<and> biglock_depth s' = biglock_depth s \<and>
       sfs_super s' = sfs_super s \<and> sfs_heap s' = (sfs_heap s)(vp :=
         (if vn_refcount sv = 1 then None else Some (sv\<lparr>vn_refcount := vn_refcount sv - 1\<rparr>))))
    (\<lambda>_ _. False)"
proof (cases "vn_refcount sv = 1")
  case False
  let ?sv = "sv\<lparr>vn_refcount := vn_refcount sv - 1\<rparr>"
  have r: "vn_refcount sv > 1" using False fs_invD(5) [OF inv vp] by (simp add: vnode_ok_def)
  have run: "vnode_decref vp s = Ok () (vn_put vp ?sv s)"
    using r vp by (simp add: vnode_decref_def vn_get_def vfs_biglock_acquire_def vfs_biglock_release_def vn_put_def)
  let ?s = "s\<lparr>biglock_depth := 1\<rparr>"
  have "fs_inv ?s I" "sfs_heap ?s vp = Some sv" using inv vp by simp_all
  from refcount_inv [OF this, of "vn_refcount sv - 1"] r
  have c: "fs_inv (vn_put vp ?sv ?s) I" "files_same ?s I (vn_put vp ?sv ?s)" by simp_all
  have "vn_put vp ?sv s = (vn_put vp ?sv ?s)\<lparr>biglock_depth := biglock_depth s\<rparr>" by (simp add: vn_put_def)
  then have "fs_inv (vn_put vp ?sv s) I" "files_same s I (vn_put vp ?sv s)" using c by simp_all
  then show ?thesis using run False by (simp add: inodes_after_def)
next
  case True
  let ?s = "vfs_biglock_acquire s"
  have inv': "fs_inv ?s I" and vp': "sfs_heap ?s vp = Some sv" using inv vp by simp_all
  have "VOP_RECLAIM vp ?s = sfs_reclaim vp ?s"
    by (cases "vn_ops sv") (simp_all add: VOP_RECLAIM_def vop_eq [OF inv' vp'])
  moreover obtain t where t: "sfs_reclaim vp ?s = Ok () t" "fs_inv t (inodes_left I sv)" "files_same s (inodes_left I sv) t"
    "biglock_depth t = Suc (biglock_depth s)" "sfs_heap t = (sfs_heap s)(vp := None)" "sfs_super t = sfs_super s"
    using out_wp_total [OF sfs_reclaim_wp [OF inv' vp' _ True last(1)]] last True by auto
  ultimately have "vnode_decref vp s = Ok () (t\<lparr>biglock_depth := biglock_depth s\<rparr>)"
    using vp' True by (simp add: vnode_decref_def vn_get_def vfs_biglock_release_def)
  then show ?thesis using t True by (simp add: inodes_after_def)
qed

end
