(* ===== verification/SfsTree.thy ===== *)
theory SfsTree
  imports SfsInv
begin

text \<open>
  The name space: SFS has one directory, the root. On top of the consistency of \<open>SfsInv\<close>, every name
  leads to a file in use and the link count of every file is the number of its names. The name
  operations of \<open>kern/fs/sfs/sfs_vnode.c\<close> keep this, act on the map of names as their callers expect,
  and leave the map alone when they fail.
\<close>

section \<open>Counting links\<close>

definition links_of :: "(u8 list \<Rightarrow> nat option) \<Rightarrow> nat \<Rightarrow> nat" where
  "links_of tab ino = card {n. tab n = Some ino}"

lemma links_finite: "finite (dom tab) \<Longrightarrow> finite {n. tab n = Some ino}"
  by (rule finite_subset [of _ "dom tab"]) auto

lemma links_insert:
  assumes "finite (dom tab)" and "tab n = None"
  shows "links_of (tab(n \<mapsto> i)) j = links_of tab j + (if j = i then 1 else 0)"
proof (cases "j = i")
  case True
  have "{m. (tab(n \<mapsto> i)) m = Some i} = insert n {m. tab m = Some i}" using assms(2) by auto
  then show ?thesis using True assms links_finite [OF assms(1), of i] by (simp add: links_of_def)
next
  case False
  have "{m. (tab(n \<mapsto> i)) m = Some j} = {m. tab m = Some j}" using assms(2) False by auto
  then show ?thesis using False by (simp add: links_of_def)
qed

lemma links_delete:
  assumes "finite (dom tab)" and "tab n = Some i"
  shows "links_of tab j = links_of (tab(n := None)) j + (if j = i then 1 else 0)"
proof -
  have "links_of ((tab(n := None))(n \<mapsto> i)) j = links_of (tab(n := None)) j + (if j = i then 1 else 0)"
    by (rule links_insert) (use assms(1) in auto)
  moreover have "(tab(n := None))(n \<mapsto> i) = tab" using assms(2) by auto
  ultimately show ?thesis by simp
qed

lemma links_zero: "finite (dom tab) \<Longrightarrow> links_of tab i = 0 \<longleftrightarrow> (\<forall>n. tab n \<noteq> Some i)"
  using links_finite [of tab i] by (auto simp: links_of_def)

section \<open>The invariant of the name space\<close>

definition names_of :: "sfs_fs \<Rightarrow> u8 list \<Rightarrow> nat option" where
  "names_of s = dir_map (dir_slots s (inode_of s SFS_ROOT_LOCATION))"

definition root_ok :: "sfs_fs \<Rightarrow> sfs_inode \<Rightarrow> bool" where
  "root_ok s i \<longleftrightarrow> sfi_type i = SFS_TYPE_DIR \<and> file_size i mod 64 = 0 \<and> file_size i \<le> 143 * 512 \<and>
     dir_unique (dir_slots s i) \<and> sfi_linkcount i \<noteq> 0"

text \<open>While a name is added or removed, the link count of one file (in \<open>X\<close>) is out of step.\<close>

definition tree_ok :: "sfs_fs \<Rightarrow> nat set \<Rightarrow> nat set \<Rightarrow> bool" where
  "tree_ok s I X \<longleftrightarrow> fs_inv s I \<and> SFS_ROOT_LOCATION \<in> I \<and> root_ok s (inode_of s SFS_ROOT_LOCATION) \<and>
     ran (names_of s) \<subseteq> I - {SFS_ROOT_LOCATION} \<and>
     (\<forall>j \<in> I - {SFS_ROOT_LOCATION}. sfi_type (inode_of s j) = SFS_TYPE_FILE \<and>
        (j \<notin> X \<longrightarrow> unat (sfi_linkcount (inode_of s j)) = links_of (names_of s) j))"

abbreviation tree_inv :: "sfs_fs \<Rightarrow> nat set \<Rightarrow> bool" where
  "tree_inv s I \<equiv> tree_ok s I {}"

lemma tree_okD:
  assumes "tree_ok s I X"
  shows "fs_inv s I" "1 \<in> I" "root_ok s (inode_of s 1)" "names_of s n = Some j \<Longrightarrow> j \<in> I \<and> j \<noteq> 1"
    "j \<in> I \<Longrightarrow> j \<noteq> 1 \<Longrightarrow> sfi_type (inode_of s j) = SFS_TYPE_FILE"
    "j \<in> I \<Longrightarrow> j \<noteq> 1 \<Longrightarrow> j \<notin> X \<Longrightarrow> unat (sfi_linkcount (inode_of s j)) = links_of (names_of s) j"
  using assms by (auto simp: tree_ok_def intro: ranI)

lemma dir_map_dom: "dom (dir_map ds) \<subseteq> dname ` set ds"
proof
  fix n
  assume "n \<in> dom (dir_map ds)"
  then obtain x where "dir_found n ds = Some x" by (auto simp: dir_map_def)
  moreover obtain i k where "x = (i, k)" by (cases x)
  ultimately show "n \<in> dname ` set ds" using dir_found_SomeD [of n ds i k] by auto
qed

lemma names_finite [simp]: "finite (dom (names_of s))"
  unfolding names_of_def by (rule finite_subset [OF dir_map_dom]) simp

lemma names_card: "card (dom (names_of s)) \<le> dir_nslots (inode_of s 1)"
proof -
  have "card (dom (names_of s)) \<le> card (dname ` set (dir_slots s (inode_of s 1)))"
    unfolding names_of_def by (rule card_mono) (use dir_map_dom in auto)
  also have "\<dots> \<le> length (dir_slots s (inode_of s 1))" by (metis card_image_le card_length finite_set le_trans)
  finally show ?thesis by simp
qed

text \<open>A directory has room for fewer names than a link count can hold.\<close>

lemma links_bound:
  assumes "tree_ok s I X"
  shows "links_of (names_of s) j \<le> 1144"
proof -
  have r: "root_ok s (inode_of s 1)" by (rule tree_okD(3) [OF assms])
  have "links_of (names_of s) j \<le> card (dom (names_of s))"
    unfolding links_of_def by (rule card_mono) auto
  also have "\<dots> \<le> dir_nslots (inode_of s 1)" by (rule names_card)
  also have "\<dots> \<le> 1144" using r div_le_mono [of "file_size (inode_of s 1)" "143 * 512" 64]
    by (simp add: root_ok_def dir_nslots_def)
  finally show ?thesis .
qed

text \<open>The name space looks the same when the files do.\<close>

lemma names_same:
  assumes "files_same s I t" and "1 \<in> I"
  shows "inode_of t 1 = inode_of s 1" "dir_slots t (inode_of t 1) = dir_slots s (inode_of s 1)" "names_of t = names_of s"
proof -
  have e: "inode_of t 1 = inode_of s 1" "file_byte t (inode_of t 1) = file_byte s (inode_of s 1)"
    using assms by (auto simp: others_same_def)
  then show "inode_of t 1 = inode_of s 1" "dir_slots t (inode_of t 1) = dir_slots s (inode_of s 1)"
    by (auto simp: dir_slots_def)
  then show "names_of t = names_of s" by (simp add: names_of_def)
qed

text \<open>Nothing changes but that some files without a name go away.\<close>

lemma tree_keep:
  assumes tree: "tree_ok s I X" and t: "fs_inv t J" "files_same s J t"
    and J: "J \<subseteq> I" "1 \<in> J" "\<And>j. j \<in> I \<Longrightarrow> j \<notin> J \<Longrightarrow> links_of (names_of s) j = 0"
  shows "tree_ok t J X" "names_of t = names_of s"
proof -
  note same = names_same [OF t(2) J(2)]
  show "names_of t = names_of s" by (rule same(3))
  have "ran (names_of s) \<subseteq> J - {1}"
  proof
    fix j
    assume "j \<in> ran (names_of s)"
    then obtain n where n: "names_of s n = Some j" by (auto simp: ran_def)
    then have "j \<in> I" "j \<noteq> 1" using tree_okD(4) [OF tree] by auto
    then show "j \<in> J - {1}" using J(3) [of j] n links_zero [OF names_finite, of s j] by auto
  qed
  moreover have "inode_of t j = inode_of s j" if "j \<in> J" for j
    using t that fs_inv_zero [OF t(1)] by (auto simp: others_same_def)
  moreover have "root_ok t (inode_of t 1)"
    using tree_okD(3) [OF tree] same(1,2) by (simp add: root_ok_def)
  ultimately show "tree_ok t J X"
    using t(1) J tree_okD(5,6) [OF tree] same(3) by (auto simp: tree_ok_def)
qed

section \<open>Steps on the directory and on link counts\<close>

text \<open>\<open>d\<close> is the vnode of the root directory.\<close>

definition root_at :: "sfs_fs \<Rightarrow> vptr \<Rightarrow> sfs_vnode \<Rightarrow> bool" where
  "root_at s d dv \<longleftrightarrow> sfs_heap s d = Some dv \<and> sv_ino dv = SFS_ROOT_LOCATION"

lemma root_dir:
  assumes tree: "tree_ok s I X" and d: "root_at s d dv" and bd: "biglock_depth s > 0"
  shows "dir_ok s (sv_i dv)" "dir_unique (dir_slots s (sv_i dv))" "inode_of s 1 = sv_i dv" "names_of s = dir_names s dv"
    "sfs_heap s d = Some dv" "sv_ino dv = 1"
proof -
  show h: "sfs_heap s d = Some dv" "sv_ino dv = 1" using d by (auto simp: root_at_def)
  note inv = tree_okD(1) [OF tree]
  show e: "inode_of s 1 = sv_i dv" using fs_inv_vnode(3) [OF inv h(1)] h(2) by simp
  have r: "root_ok s (sv_i dv)" using tree_okD(3) [OF tree] e by simp
  then show "dir_unique (dir_slots s (sv_i dv))" by (simp add: root_ok_def)
  show "dir_ok s (sv_i dv)"
    using r fs_inv_ok [OF inv bd] fs_inv_vnode(1) [OF inv h(1)] fs_invD(2) [OF inv] by (simp add: dir_ok_def root_ok_def)
  show "names_of s = dir_names s dv" using e by (simp add: names_of_def)
qed

lemma dir_step_change:
  assumes "dir_step s vp sv ds s' sv'"
  shows "file_change s vp sv s' sv'" "vn_same sv sv'"
  using assms by (auto simp: dir_step_def file_change_def vn_same_def dir_ok_def)

text \<open>A step on the directory: the other files stay, the map of names becomes that of \<open>ds\<close>.\<close>

lemma root_step:
  assumes tree: "tree_ok s I X" and d: "root_at s d dv" and bd: "biglock_depth s > 0"
    and st: "dir_step s d dv ds s' dv'" and uq: "dir_unique ds"
  shows "fs_inv s' I" "others_same s I 1 s'" "names_of s' = dir_map ds" "root_ok s' (inode_of s' 1)" "root_at s' d dv'"
    "biglock_depth s' = biglock_depth s" "sfs_heap s' = (sfs_heap s)(d \<mapsto> dv')"
proof -
  note r = root_dir [OF tree d bd] and inv = tree_okD(1) [OF tree]
  note e = st [unfolded dir_step_def]
  have ty: "sfi_type (sv_i dv') = sfi_type (sv_i dv)" "sfi_linkcount (sv_i dv') = sfi_linkcount (sv_i dv)"
    using e r(1) by (auto simp: dir_ok_def)
  note k = file_change_keeps [OF inv r(5) dir_step_change [OF st] ty(1)]
  show "fs_inv s' I" "others_same s I 1 s'" using k r(6) by simp_all
  have i: "inode_of s' 1 = sv_i dv'" using k(3) r(6) by simp
  show "names_of s' = dir_map ds" using e i by (simp add: names_of_def)
  show "root_ok s' (inode_of s' 1)"
    using e uq i ty tree_okD(3) [OF tree] r(3) by (simp add: root_ok_def dir_ok_def)
  show "root_at s' d dv'" using e r(6) by (auto simp: root_at_def vn_same_def)
  show "biglock_depth s' = biglock_depth s" "sfs_heap s' = (sfs_heap s)(d \<mapsto> dv')" using e by (auto simp: fs_frame_def)
qed

lemma tree_after_dir:
  assumes tree: "tree_ok s I X" and st: "fs_inv s' I" "others_same s I 1 s'" "root_ok s' (inode_of s' 1)"
    and ran: "ran (names_of s') \<subseteq> I - {1}" and X: "X \<subseteq> Y"
    and cnt: "\<And>j. j \<in> I \<Longrightarrow> j \<noteq> 1 \<Longrightarrow> j \<notin> Y \<Longrightarrow> links_of (names_of s') j = links_of (names_of s) j"
  shows "tree_ok s' I Y"
proof -
  have "inode_of s' j = inode_of s j" if "j \<in> I" "j \<noteq> 1" for j using st(2) that by (simp add: others_same_def)
  then show ?thesis using tree st ran X cnt by (auto simp: tree_ok_def)
qed

definition root_moved :: "sfs_fs \<Rightarrow> vptr \<Rightarrow> sfs_fs \<Rightarrow> bool" where
  "root_moved s d s' \<longleftrightarrow> (\<exists>dv'. root_at s' d dv' \<and> sfs_heap s' = (sfs_heap s)(d \<mapsto> dv')) \<and>
     biglock_depth s' = biglock_depth s"

lemma sfs_dir_link_short: "sfs_dir_link vp name ino s = Ok slot t \<Longrightarrow> length name < 60"
  by (auto simp: sfs_dir_link_def kbind_Ok_iff split: if_splits prod.splits)

lemma tree_link_wp:
  assumes tree: "tree_inv s I" and d: "root_at s d dv" and bd: "biglock_depth s > 0"
    and nm: "0 \<notin> set name" and ino: "ino \<in> I" "ino \<noteq> 1" and sp: "dir_nslots (sv_i dv) < 1144"
  shows "out_wp (sfs_dir_link d name ino s)
    (\<lambda>slot s'. tree_ok s' I {ino} \<and> others_same s I 1 s' \<and> root_moved s d s' \<and> names_of s name = None \<and>
       names_of s' = (names_of s)(name \<mapsto> ino) \<and>
       dir_found name (dir_slots s' (inode_of s' 1)) = Some (ino, slot) \<and>
       (\<forall>n x. dir_found n (dir_slots s (inode_of s 1)) = Some x \<longrightarrow> dir_found n (dir_slots s' (inode_of s' 1)) = Some x))
    (\<lambda>e s'. tree_inv s' I \<and> others_same s I 1 s' \<and> root_moved s d s' \<and> names_of s' = names_of s \<and>
       (if names_of s name \<noteq> None then e = EEXIST
        else if 60 \<le> length name then e = ENAMETOOLONG else e = ENOSPC))"
proof -
  note r = root_dir [OF tree d bd] and inv = tree_okD(1) [OF tree]
  have "0 < ino" "ino < fs_nblocks s" using inodes_okD(2) [OF fs_invD(4) [OF inv] ino(1)] by auto
  then have i: "0 < ino" "ino < 2 ^ 32" using fs_invD(2) [OF inv] by auto
  show ?thesis
    using sfs_dir_link_wp [OF r(1,5,2) nm i sp]
  proof (cases rule: out_wp_cases)
    case (Ok slot t)
    then obtain dv' where t: "dir_names s dv name = None" "dir_step s d dv (dir_slots t (sv_i dv')) t dv'"
      "dir_unique (dir_slots t (sv_i dv'))" "dir_names t dv' = (dir_names s dv)(name \<mapsto> ino)"
      and sl: "dir_slots t (sv_i dv') = dir_put (dir_slots s (sv_i dv)) slot (new_entry name ino)"
        "slot \<le> length (dir_slots s (sv_i dv))"
        "slot < length (dir_slots s (sv_i dv)) \<Longrightarrow> \<not> dlive (dir_slots s (sv_i dv) ! slot)"
      by (auto simp: dir_step_def)
    have len: "length name < 60"
      using Ok(1) sfs_dir_link_short by blast
    note put = dir_put_found [OF t(3) [unfolded sl(1)] sl(2,3) new_entry_live(1) [OF i]]
    note st = root_step [OF tree d bd t(2,3)]
    have nn: "names_of t = (names_of s)(name \<mapsto> ino)" "names_of s name = None" using st(3) t r(4) by simp_all
    have "tree_ok t I {ino}"
    proof (rule tree_after_dir [OF tree st(1,2,4)])
      show "ran (names_of t) \<subseteq> I - {1}"
        using tree_okD(4) [OF tree] nn ino by (auto simp: ran_def)
      show "links_of (names_of t) j = links_of (names_of s) j" if "j \<in> I" "j \<noteq> 1" "j \<notin> {ino}" for j
        using links_insert [OF names_finite nn(2), of ino j] nn(1) that by simp
    qed simp
    moreover have "inode_of t 1 = sv_i dv'"
      using fs_inv_vnode(3) [OF st(1), of d dv'] st(5) by (simp add: root_at_def)
    moreover have "dname (new_entry name ino) = name" by (rule new_entry_name) (simp add: name_ok_def nm len)
    ultimately show ?thesis using Ok(1) st nn put sl(1) r(3) new_entry_live(2) [OF i] by (auto simp: root_moved_def)
  next
    case (Err e t)
    then obtain dv' where t: "dir_step s d dv (dir_slots s (sv_i dv)) t dv'" by blast
    note st = root_step [OF tree d bd t r(2)]
    have nn: "names_of t = names_of s" using st(3) r(4) by simp
    have "tree_inv t I"
      by (rule tree_after_dir [OF tree st(1,2,4)]) (use tree nn in \<open>auto simp: tree_ok_def\<close>)
    then show ?thesis using Err st nn r(4) by (auto simp: root_moved_def)
  qed
qed

lemma tree_unlink_wp:
  assumes tree: "tree_ok s I X" and d: "root_at s d dv" and bd: "biglock_depth s > 0"
    and f: "dir_found name (dir_slots s (sv_i dv)) = Some (ino, slot)"
  shows "out_wp (sfs_dir_unlink d slot s)
    (\<lambda>_ s'. tree_ok s' I (insert ino X) \<and> others_same s I 1 s' \<and> root_moved s d s' \<and> names_of s name = Some ino \<and>
       names_of s' = (names_of s)(name := None))
    (\<lambda>_ _. False)"
proof -
  note r = root_dir [OF tree d bd]
  have fn: "names_of s name = Some ino" using f r(4) by (simp add: dir_map_def)
  show ?thesis
    using sfs_dir_unlink_wp [OF r(1,5,2) f]
  proof (cases rule: out_wp_cases)
    case (Ok a t)
    then obtain dv' where t: "dir_step s d dv (dir_slots t (sv_i dv')) t dv'"
      "dir_unique (dir_slots t (sv_i dv'))" "dir_names t dv' = (dir_names s dv)(name := None)" by blast
    note st = root_step [OF tree d bd t(1,2)]
    have nn: "names_of t = (names_of s)(name := None)" using st(3) t(3) r(4) by simp
    have "tree_ok t I (insert ino X)"
    proof (rule tree_after_dir [OF tree st(1,2,4)])
      show "ran (names_of t) \<subseteq> I - {1}"
        using tree_okD(4) [OF tree] nn by (auto simp: ran_def split: if_splits)
      show "links_of (names_of t) j = links_of (names_of s) j" if "j \<in> I" "j \<noteq> 1" "j \<notin> insert ino X" for j
        using links_delete [OF names_finite fn, of j] nn that by simp
    qed auto
    then show ?thesis using Ok(1) st nn fn by (auto simp: root_moved_def)
  qed simp
qed

text \<open>Setting a link count to the number of names.\<close>

lemma link_put:
  assumes tree: "tree_ok s I X" and vp: "sfs_heap s vp = Some sv" "sv_ino sv \<noteq> 1" and bd: "biglock_depth s > 0"
    and c: "unat c = links_of (names_of s) (sv_ino sv)" and X: "X \<subseteq> {sv_ino sv}"
    and t: "t = vn_put vp (sv\<lparr>sv_i := (sv_i sv)\<lparr>sfi_linkcount := c\<rparr>, sv_dirty := True\<rparr>) s"
  shows "tree_inv t I" "names_of t = names_of s" "others_same s I (sv_ino sv) t"
    "dir_slots t (inode_of t 1) = dir_slots s (inode_of s 1)"
    "file_byte t (inode_of t (sv_ino sv)) = file_byte s (sv_i sv)"
proof -
  let ?n = "sv_ino sv" and ?sv = "sv\<lparr>sv_i := (sv_i sv)\<lparr>sfi_linkcount := c\<rparr>, sv_dirty := True\<rparr>"
  note inv = tree_okD(1) [OF tree]
  have "vnode_ok s ?sv" using fs_invD(5) [OF inv vp(1)] by (auto simp: vnode_ok_def)
  note p = vn_put_inv [OF inv vp(1) bd _ _ _ _ this, folded t, simplified]
  have n: "?n \<in> I" by (rule fs_invD(6) [OF inv vp(1)])
  have e1: "inode_of t 1 = inode_of s 1" "file_byte t (inode_of t 1) = file_byte s (inode_of s 1)"
    using p(2) tree_okD(2) [OF tree] vp(2) by (auto simp: others_same_def)
  then show ds: "dir_slots t (inode_of t 1) = dir_slots s (inode_of s 1)" by (simp add: dir_slots_def)
  then show nn: "names_of t = names_of s" by (simp add: names_of_def)
  show "others_same s I ?n t" "file_byte t (inode_of t ?n) = file_byte s (sv_i sv)" using p by simp_all
  have "inode_of t j = inode_of s j" if "j \<in> I" "j \<noteq> ?n" for j using p(2) that by (simp add: others_same_def)
  moreover have "sfi_type (inode_of t ?n) = sfi_type (inode_of s ?n)" "sfi_linkcount (inode_of t ?n) = c"
    using p(3) fs_inv_vnode(3) [OF inv vp(1)] by simp_all
  ultimately have "sfi_type (inode_of t j) = 1 \<and> unat (sfi_linkcount (inode_of t j)) = links_of (names_of t) j"
    if "j \<in> I" "j \<noteq> 1" for j
    using that tree_okD(5,6) [OF tree] c X nn by (cases "j = ?n") auto
  then show "tree_inv t I"
    using p(1) tree e1(1) ds nn by (simp add: tree_ok_def root_ok_def)
qed

section \<open>Looking names up\<close>

lemma tree_dev:
  assumes "tree_ok s I X" and "dev_step s t"
  shows "tree_ok t I X" "names_of t = names_of s" "inode_of t = inode_of s" "files_same s I t"
    "dir_slots t (inode_of t 1) = dir_slots s (inode_of s 1)"
proof -
  note dk = dev_step_inv [OF assms(2)]
  show "inode_of t = inode_of s" "files_same s I t" using dk by auto
  show "tree_ok t I X" "names_of t = names_of s"
    using tree_keep [OF assms(1) dk(2) [OF tree_okD(1) [OF assms(1)]] dk(3)] tree_okD(2) [OF assms(1)] by auto
  show "dir_slots t (inode_of t 1) = dir_slots s (inode_of s 1)"
    by (rule names_same(2) [OF dk(3) tree_okD(2) [OF assms(1)]])
qed

lemma tree_find_wp:
  assumes tree: "tree_ok s I X" and d: "root_at s d dv" and bd: "biglock_depth s > 0"
  shows "out_wp (sfs_dir_findname d name s)
    (\<lambda>r s'. fst r = dir_found name (dir_slots s (inode_of s 1)) \<and> dev_step s s' \<and> root_at s' d dv)
    (\<lambda>_ _. False)"
proof -
  note r = root_dir [OF tree d bd]
  have "root_at s' d dv" if "dev_step s s'" for s' using d dev_step_sel(2) [OF that] by (simp add: root_at_def)
  then show ?thesis
    by (intro out_wp_conseq [OF sfs_dir_findname_wp [OF r(1,5,2)]]) (use r(3) in auto)
qed

definition got_vnode :: "sfs_fs \<Rightarrow> nat \<Rightarrow> vptr \<Rightarrow> sfs_fs \<Rightarrow> sfs_vnode \<Rightarrow> bool" where
  "got_vnode s ino v s' sv \<longleftrightarrow> sfs_heap s' = (sfs_heap s)(v \<mapsto> sv) \<and> sv_ino sv = ino \<and> sv_i sv = inode_of s ino \<and>
     vn_refcount sv = (case sfs_heap s v of None \<Rightarrow> 1 | Some sw \<Rightarrow> vn_refcount sw + 1) \<and>
     (sfs_heap s v = None \<longrightarrow> vn_opencount sv = 0) \<and> (\<forall>sw. sfs_heap s v = Some sw \<longrightarrow> sv_ino sw = ino)"

text \<open>Getting the vnode of a file that has a name.\<close>

lemma tree_load_wp:
  assumes tree: "tree_inv s I" and d: "root_at s d dv" and bd: "biglock_depth s > 0" and n: "names_of s name = Some ino"
  shows "out_wp (sfs_loadvnode ino 0 s)
    (\<lambda>v s'. tree_inv s' I \<and> files_same s I s' \<and> names_of s' = names_of s \<and> biglock_depth s' = biglock_depth s \<and>
       v \<noteq> d \<and> root_at s' d dv \<and> (\<exists>sv. got_vnode s ino v s' sv))
    (\<lambda>e s'. e = ENOMEM \<and> tree_inv s' I \<and> files_same s I s' \<and> names_of s' = names_of s \<and>
       biglock_depth s' = biglock_depth s \<and> root_at s' d dv)"
proof -
  note inv = tree_okD(1) [OF tree]
  have ino: "ino \<in> I" "ino \<noteq> 1" using tree_okD(4) [OF tree n] by auto
  have keep: "tree_inv t I" "names_of t = names_of s" if "fs_inv t I" "files_same s I t" for t
    using tree_keep [OF tree that] tree_okD(2) [OF tree] by auto
  show ?thesis
    using sfs_loadvnode_wp [OF inv bd ino(1)]
  proof (cases rule: out_wp_cases)
    case (Ok v t)
    from Ok(2) obtain sv where sv: "sfs_heap t = (sfs_heap s)(v \<mapsto> sv)" "sv_ino sv = ino" "sv_i sv = inode_of s ino"
      "vn_refcount sv = (case sfs_heap s v of None \<Rightarrow> 1 | Some sw \<Rightarrow> vn_refcount sw + 1)"
      "\<forall>sw. sfs_heap s v = Some sw \<longrightarrow> sv = sw\<lparr>vn_refcount := vn_refcount sw + 1\<rparr>"
      "sfs_heap s v = None \<longrightarrow> vn_opencount sv = 0"
      by (elim conjE exE) (rule that; assumption)
    have "v \<noteq> d" using sv(2,5) d ino(2) by (auto simp: root_at_def)
    then have "root_at t d dv" using d sv(1) by (simp add: root_at_def)
    moreover have "got_vnode s ino v t sv" using sv by (auto simp: got_vnode_def)
    moreover have "tree_inv t I" "names_of t = names_of s" by (rule keep; use Ok(2) in blast)+
    ultimately show ?thesis using Ok \<open>v \<noteq> d\<close> by (simp del: fun_upd_apply) blast
  next
    case (Err e t)
    moreover from this have "tree_inv t I" "names_of t = names_of s" by (intro keep; blast)+
    ultimately show ?thesis using d by (simp add: root_at_def)
  qed
qed

lemma tree_depth [simp]:
  "names_of (s\<lparr>biglock_depth := b\<rparr>) = names_of s" "tree_ok (s\<lparr>biglock_depth := b\<rparr>) = tree_ok s"
  "root_at (s\<lparr>biglock_depth := b\<rparr>) = root_at s"
proof -
  let ?s = "s\<lparr>biglock_depth := b\<rparr>"
  have d: "dir_slots ?s = dir_slots s" by (intro ext) (simp add: dir_slots_def)
  show n: "names_of ?s = names_of s" by (simp add: names_of_def d)
  show "tree_ok ?s = tree_ok s" by (intro ext) (simp add: tree_ok_def root_ok_def n d)
  show "root_at ?s = root_at s" by (intro ext) (simp add: root_at_def)
qed

lemma tree_acquire [simp]:
  "names_of (vfs_biglock_acquire s) = names_of s" "tree_ok (vfs_biglock_acquire s) = tree_ok s"
  "root_at (vfs_biglock_acquire s) = root_at s"
  by (simp_all add: vfs_biglock_acquire_def)

text \<open>What a user of the name space can see of the files: their bytes and their sizes.\<close>

definition contents_same :: "sfs_fs \<Rightarrow> nat set \<Rightarrow> sfs_fs \<Rightarrow> bool" where
  "contents_same s J s' \<longleftrightarrow> (\<forall>j \<in> J - {SFS_ROOT_LOCATION}.
     file_byte s' (inode_of s' j) = file_byte s (inode_of s j) \<and>
     file_size (inode_of s' j) = file_size (inode_of s j))"

lemma contents_same_simps [simp]:
  "contents_same s J s" "contents_same (vfs_biglock_acquire s) = contents_same s"
  "contents_same s J (t\<lparr>biglock_depth := b\<rparr>) = contents_same s J t"
  by (auto simp: contents_same_def fun_eq_iff)

lemma contents_same_trans:
  "contents_same s I t \<Longrightarrow> contents_same t J v \<Longrightarrow> J \<subseteq> I \<Longrightarrow> contents_same s J v"
  unfolding contents_same_def by (metis Diff_iff subsetD)

lemma others_sameD:
  assumes "others_same s I n t" "j \<in> I" "j \<noteq> n"
  shows "inode_of t j = inode_of s j" "file_byte t (inode_of t j) = file_byte s (inode_of s j)"
  using assms by (auto simp: others_same_def)

lemma contents_others: "others_same s I 1 t \<Longrightarrow> contents_same s I t"
  using others_sameD [of s I 1 t] by (auto simp: contents_same_def)

lemma contents_files: "files_same s I t \<Longrightarrow> 0 \<notin> I \<Longrightarrow> contents_same s I t"
  unfolding contents_same_def others_same_def by (metis Diff_iff)

lemma contents_link:
  assumes "others_same s I (sv_ino sv) t" "file_byte t (inode_of t (sv_ino sv)) = file_byte s (inode_of s (sv_ino sv))"
    "file_size (inode_of t (sv_ino sv)) = file_size (inode_of s (sv_ino sv))"
  shows "contents_same s I t"
proof -
  have "file_byte t (inode_of t j) = file_byte s (inode_of s j) \<and> file_size (inode_of t j) = file_size (inode_of s j)"
    if "j \<in> I" for j
    using assms(2,3) others_sameD [OF assms(1) that] by (cases "j = sv_ino sv") simp_all
  then show ?thesis by (simp add: contents_same_def)
qed

lemma tree_lookonce_wp:
  assumes tree: "tree_inv s I" and d: "root_at s d dv" and bd: "biglock_depth s > 0"
  shows "out_wp (sfs_lookonce d name s)
    (\<lambda>(v, slot) s'. tree_inv s' I \<and> contents_same s I s' \<and> names_of s' = names_of s \<and>
       biglock_depth s' = biglock_depth s \<and> v \<noteq> d \<and> root_at s' d dv \<and>
       (\<exists>ino sv t. names_of s name = Some ino \<and> sfs_heap t = sfs_heap s \<and> got_vnode t ino v s' sv \<and>
          inode_of s' ino = sv_i sv \<and> dir_found name (dir_slots s' (inode_of s' 1)) = Some (ino, slot)))
    (\<lambda>e s'. tree_inv s' I \<and> contents_same s I s' \<and> names_of s' = names_of s \<and>
       biglock_depth s' = biglock_depth s \<and> root_at s' d dv \<and>
       e = (if names_of s name = None then ENOENT else ENOMEM))"
  using tree_find_wp [OF tree d bd, of name]
proof (cases rule: out_wp_cases)
  case (Ok r t)
  have r: "fst r = dir_found name (dir_slots s (inode_of s 1))" and dt: "dev_step s t" "root_at t d dv" using Ok(2) by auto
  note k = tree_dev [OF tree dt(1)]
  have z: "0 \<notin> I" by (rule fs_inv_zero [OF tree_okD(1) [OF tree]])
  have c: "contents_same s I t" by (rule contents_files [OF k(4) z])
  have bt: "biglock_depth t = biglock_depth s" by (rule dev_step_sel(5) [OF dt(1)])
  show ?thesis
  proof (cases "dir_found name (dir_slots s (inode_of s 1))")
    case None
    then have "names_of s name = None" by (simp add: names_of_def dir_map_def)
    then show ?thesis using Ok(1) r None k c bt dt by (cases r) (simp add: sfs_lookonce_def)
  next
    case (Some x)
    obtain ino slot where x: "x = (ino, slot)" by (cases x)
    have n: "names_of s name = Some ino" using Some x by (simp add: names_of_def dir_map_def)
    then have nt: "names_of t name = Some ino" using k(2) by simp
    have run: "sfs_lookonce d name s = kbind (sfs_loadvnode ino 0 t) (\<lambda>v s. kbind (vn_get v s) (\<lambda>sv s.
        if sfi_linkcount (sv_i sv) = 0 then Panic else Ok (v, slot) s))"
      using Ok(1) r Some x by (cases r) (simp add: sfs_lookonce_def)
    have li: "sfi_linkcount (inode_of t ino) \<noteq> 0"
    proof -
      have "ino \<in> I" "ino \<noteq> 1" using tree_okD(4) [OF k(1) nt] by auto
      then have "unat (sfi_linkcount (inode_of t ino)) = links_of (names_of t) ino"
        using tree_okD(6) [OF k(1)] by simp
      moreover have "links_of (names_of t) ino \<noteq> 0" using links_zero [OF names_finite, of t ino] nt by auto
      ultimately show ?thesis by auto
    qed
    have "0 < biglock_depth t" using bt bd by simp
    from tree_load_wp [OF k(1) dt(2) this nt] show ?thesis
    proof (cases rule: out_wp_cases)
      case (Ok v u)
      then obtain sv where u: "tree_inv u I" "files_same t I u" "names_of u = names_of t"
        "biglock_depth u = biglock_depth t" "v \<noteq> d" "root_at u d dv" "got_vnode t ino v u sv" by blast
      have g: "sfs_heap u v = Some sv" "sv_i sv = inode_of t ino" "sv_ino sv = ino" using u(7) by (auto simp: got_vnode_def)
      have "dir_slots u (inode_of u 1) = dir_slots s (inode_of s 1)"
        using names_same(2) [OF u(2) tree_okD(2) [OF tree]] k(5) by simp
      moreover have "contents_same s I u" by (rule contents_same_trans [OF c contents_files [OF u(2) z]]) simp
      moreover have "inode_of u ino = sv_i sv" using fs_inv_vnode(3) [OF tree_okD(1) [OF u(1)] g(1)] g(3) by simp
      moreover have "sfs_lookonce d name s = Ok (v, slot) u"
        using run Ok(1) g li by (simp add: vn_get_def)
      moreover have "sfs_heap t = sfs_heap s" by (rule dev_step_sel(2) [OF dt(1)])
      ultimately show ?thesis using u k(2) bt n Some x by (auto simp del: One_nat_def)
    next
      case (Err e u)
      then have "contents_same s I u" using contents_same_trans [OF c contents_files [of t I u]] z by blast
      then show ?thesis using Err run k(2) bt n by simp
    qed
  qed
qed auto

section \<open>Operations on names\<close>

lemma link_step:
  assumes tree: "tree_ok s I X" and vp: "sfs_heap s vp = Some sv" "sv_ino sv \<noteq> 1" and bd: "biglock_depth s > 0"
    and c: "unat c = links_of (names_of s) (sv_ino sv)" and X: "X \<subseteq> {sv_ino sv}"
  shows "tree_inv (vn_put vp (sv\<lparr>sv_i := (sv_i sv)\<lparr>sfi_linkcount := c\<rparr>, sv_dirty := True\<rparr>) s) I"
    "names_of (vn_put vp (sv\<lparr>sv_i := (sv_i sv)\<lparr>sfi_linkcount := c\<rparr>, sv_dirty := True\<rparr>) s) = names_of s"
    "contents_same s I (vn_put vp (sv\<lparr>sv_i := (sv_i sv)\<lparr>sfi_linkcount := c\<rparr>, sv_dirty := True\<rparr>) s)"
    "dir_slots (vn_put vp (sv\<lparr>sv_i := (sv_i sv)\<lparr>sfi_linkcount := c\<rparr>, sv_dirty := True\<rparr>) s)
       (inode_of (vn_put vp (sv\<lparr>sv_i := (sv_i sv)\<lparr>sfi_linkcount := c\<rparr>, sv_dirty := True\<rparr>) s) 1) =
     dir_slots s (inode_of s 1)"
proof -
  let ?sv = "sv\<lparr>sv_i := (sv_i sv)\<lparr>sfi_linkcount := c\<rparr>, sv_dirty := True\<rparr>"
  note p = link_put [OF assms refl]
  show "tree_inv (vn_put vp ?sv s) I" "names_of (vn_put vp ?sv s) = names_of s"
    "dir_slots (vn_put vp ?sv s) (inode_of (vn_put vp ?sv s) 1) = dir_slots s (inode_of s 1)" by (fact p)+
  have e: "inode_of s (sv_ino sv) = sv_i sv" by (rule fs_inv_vnode(3) [OF tree_okD(1) [OF tree] vp(1)])
  have "inode_of (vn_put vp ?sv s) (sv_ino sv) = sv_i ?sv"
    using fs_inv_vnode(3) [OF tree_okD(1) [OF p(1)], of vp ?sv] by simp
  then show "contents_same s I (vn_put vp ?sv s)"
    by (intro contents_link [OF p(3)]) (use p(5) e in simp_all)
qed

lemma tree_inc_wp:
  assumes tree: "tree_ok s I {sv_ino sv}" and vp: "sfs_heap s vp = Some sv" "sv_ino sv \<noteq> 1" and bd: "biglock_depth s > 0"
    and c: "links_of (names_of s) (sv_ino sv) = unat (sfi_linkcount (sv_i sv)) + 1"
  shows "out_wp (link_inc vp s)
    (\<lambda>_ t. tree_inv t I \<and> names_of t = names_of s \<and> contents_same s I t \<and> biglock_depth t = biglock_depth s \<and>
       dir_slots t (inode_of t 1) = dir_slots s (inode_of s 1) \<and>
       sfs_heap t = (sfs_heap s)(vp \<mapsto> sv\<lparr>sv_i := (sv_i sv)\<lparr>sfi_linkcount := sfi_linkcount (sv_i sv) + 1\<rparr>, sv_dirty := True\<rparr>))
    (\<lambda>_ _. False)"
proof -
  let ?l = "sfi_linkcount (sv_i sv)"
  have "unat ?l + 1 \<le> 1144" using c links_bound [OF tree, of "sv_ino sv"] by simp
  then have "unat (?l + 1) = unat ?l + 1" by (simp add: unat_word_ariths)
  then have u: "unat (?l + 1) = links_of (names_of s) (sv_ino sv)" using c by simp
  note st = link_step [OF tree vp bd u order.refl]
  show ?thesis using st vp(1) by (simp add: link_inc_def vn_update_def vn_get_def)
qed

lemma tree_dec_wp:
  assumes tree: "tree_ok s I {sv_ino sv}" and vp: "sfs_heap s vp = Some sv" "sv_ino sv \<noteq> 1" and bd: "biglock_depth s > 0"
    and c: "unat (sfi_linkcount (sv_i sv)) = links_of (names_of s) (sv_ino sv) + 1"
  shows "out_wp (link_dec vp s)
    (\<lambda>_ t. tree_inv t I \<and> names_of t = names_of s \<and> contents_same s I t \<and> biglock_depth t = biglock_depth s \<and>
       sfs_heap t = (sfs_heap s)(vp \<mapsto> sv\<lparr>sv_i := (sv_i sv)\<lparr>sfi_linkcount := sfi_linkcount (sv_i sv) - 1\<rparr>, sv_dirty := True\<rparr>))
    (\<lambda>_ _. False)"
proof -
  let ?l = "sfi_linkcount (sv_i sv)"
  have nz: "?l \<noteq> 0" using c by auto
  then have "unat (?l - 1) = unat ?l - 1" by (simp add: unat_minus_one)
  then have u: "unat (?l - 1) = links_of (names_of s) (sv_ino sv)" using c by simp
  note st = link_step [OF tree vp bd u order.refl]
  have "?l > 0" using nz by (simp add: word_neq_0_conv)
  then show ?thesis using st vp(1) by (simp add: link_dec_def vn_get_def)
qed

lemma tree_decref_wp:
  assumes tree: "tree_inv s I" and vp: "sfs_heap s vp = Some sv" "sv_ino sv \<noteq> 1"
    and oc: "vn_refcount sv = 1 \<Longrightarrow> vn_opencount sv = 0"
  shows "out_wp (vnode_decref vp s)
    (\<lambda>_ t. tree_inv t (inodes_after I sv) \<and> names_of t = names_of s \<and> contents_same s (inodes_after I sv) t \<and>
       biglock_depth t = biglock_depth s \<and> (\<forall>d. d \<noteq> vp \<longrightarrow> sfs_heap t d = sfs_heap s d))
    (\<lambda>_ _. False)"
proof -
  let ?J = "inodes_after I sv" and ?n = "sv_ino sv"
  note inv = tree_okD(1) [OF tree] and v = fs_inv_vnode [OF tree_okD(1) [OF tree] vp(1)]
  have "sfi_type (sv_i sv) = 1" using tree_okD(5) [OF tree v(2) vp(2)] v(3) by simp
  then have ops: "vn_ops sv = sfs_fileops" using fs_invD(5) [OF inv vp(1)] by (auto simp: vnode_ok_def)
  have J: "?J \<subseteq> I" "1 \<in> ?J" using tree_okD(2) [OF tree] vp(2)
    by (auto simp: inodes_after_def inodes_left_def)
  have gone: "links_of (names_of s) j = 0" if "j \<in> I" "j \<notin> ?J" for j
  proof -
    have "j = ?n" "sfi_linkcount (sv_i sv) = 0" using that
      by (auto simp: inodes_after_def inodes_left_def split: if_splits)
    then show ?thesis using tree_okD(6) [OF tree v(2) vp(2)] v(3) by simp
  qed
  obtain t where t: "vnode_decref vp s = Ok () t" "fs_inv t ?J" "files_same s ?J t" "biglock_depth t = biglock_depth s"
    "sfs_heap t = (sfs_heap s)(vp := (if vn_refcount sv = 1 then None else Some (sv\<lparr>vn_refcount := vn_refcount sv - 1\<rparr>)))"
    using out_wp_total [OF vnode_decref_wp [OF inv vp(1) oc]] ops by auto
  note k = tree_keep [OF tree t(2,3) J gone]
  have "contents_same s ?J t" by (rule contents_files [OF t(3) fs_inv_zero [OF t(2)]])
  then show ?thesis using t k by simp
qed

lemma sfs_lookup_wp:
  assumes tree: "tree_inv s I" and d: "root_at s d dv"
  shows "out_wp (sfs_lookup d path s)
    (\<lambda>v s'. tree_inv s' I \<and> contents_same s I s' \<and> names_of s' = names_of s \<and> biglock_depth s' = biglock_depth s \<and>
       v \<noteq> d \<and> root_at s' d dv \<and> (\<exists>sv. sfs_heap s' v = Some sv \<and> names_of s path = Some (sv_ino sv)))
    (\<lambda>e s'. tree_inv s' I \<and> contents_same s I s' \<and> names_of s' = names_of s \<and> biglock_depth s' = biglock_depth s \<and>
       root_at s' d dv \<and> e = (if names_of s path = None then ENOENT else ENOMEM))"
proof -
  let ?s = "vfs_biglock_acquire s"
  have tree': "tree_inv ?s I" and d': "root_at ?s d dv" and bd: "0 < biglock_depth ?s" using tree d by simp_all
  have "vn_get d ?s = Ok dv ?s" "sfi_type (sv_i dv) = SFS_TYPE_DIR"
    using d' root_dir(1) [OF tree' d' bd] by (auto simp: root_at_def vn_get_def dir_ok_def)
  then have run: "sfs_lookup d path s = kbind_unlock (sfs_lookonce d path ?s) (\<lambda>(final, _) s. ret_unlock final s)"
    by (simp add: sfs_lookup_def)
  show ?thesis
    using tree_lookonce_wp [OF tree' d' bd, of path]
  proof (cases rule: out_wp_cases)
    case (Ok x t)
    obtain v slot where x: "x = (v, slot)" by (cases x)
    then obtain ino sv u where g: "names_of s path = Some ino" "got_vnode u ino v t sv" using Ok(2) by auto
    then have "sfs_heap t v = Some sv" "sv_ino sv = ino" by (auto simp: got_vnode_def)
    then show ?thesis using Ok x run g by (simp add: ret_unlock_eq)
  next
    case (Err e t)
    then show ?thesis using run by (simp add: fail_unlock_eq)
  qed
qed

text \<open>The vnode is a new one, with one reference, exactly when the file was not loaded.\<close>

lemma got_vnode_fresh:
  assumes g: "got_vnode w ino v t sv" and inv: "fs_inv s I" "fs_inv t I" and w: "sfs_heap w = sfs_heap s"
  shows "vn_refcount sv = 1 \<longleftrightarrow> (\<forall>u su. sfs_heap s u = Some su \<longrightarrow> sv_ino su \<noteq> ino)"
proof (cases "sfs_heap s v")
  case None
  have "sv_ino su \<noteq> ino" if "sfs_heap s u = Some su" for u su
  proof
    assume "sv_ino su = ino"
    moreover have "u \<noteq> v" using None that by auto
    then have "sfs_heap t u = Some su" "sfs_heap t v = Some sv" "sv_ino sv = ino"
      using that g w by (auto simp: got_vnode_def)
    ultimately have "u = v" using fs_invD(3) [OF inv(2)] unfolding table_ok_def by metis
    then show False using \<open>u \<noteq> v\<close> by simp
  qed
  then show ?thesis using None g w by (auto simp: got_vnode_def)
next
  case (Some sw)
  then have "vn_refcount sw \<ge> 1" using fs_invD(5) [OF inv(1) Some] by (simp add: vnode_ok_def)
  then show ?thesis using Some g w by (auto simp: got_vnode_def)
qed

lemma got_vnodeD:
  assumes "got_vnode w ino v t sv" "fs_inv s I" "sfs_heap w = sfs_heap s"
  shows "sfs_heap t v = Some sv" "sv_ino sv = ino" "vn_refcount sv = 1 \<Longrightarrow> vn_opencount sv = 0"
proof -
  show "sfs_heap t v = Some sv" "sv_ino sv = ino" using assms by (auto simp: got_vnode_def)
  assume r: "vn_refcount sv = 1"
  have "sfs_heap s v = None"
  proof (rule ccontr)
    assume "sfs_heap s v \<noteq> None"
    then obtain sw where sw: "sfs_heap s v = Some sw" by auto
    then have "vn_refcount sw \<ge> 1" using fs_invD(5) [OF assms(2) sw] by (simp add: vnode_ok_def)
    then show False using r sw assms by (simp add: got_vnode_def)
  qed
  then show "vn_opencount sv = 0" using assms by (simp add: got_vnode_def)
qed

text \<open>
  The common end of \<open>sfs_remove\<close> and \<open>sfs_rename\<close>: take the name away, adjust the link count, drop
  the reference. The file goes away with its last name and its last reference.
\<close>

definition inodes_unlinked :: "sfs_fs \<Rightarrow> nat set \<Rightarrow> sfs_vnode \<Rightarrow> nat set" where
  "inodes_unlinked s I sv =
     (if links_of (names_of s) (sv_ino sv) = 1 \<and> vn_refcount sv = 1 then I - {sv_ino sv} else I)"

lemma drop_name_wp:
  assumes tree: "tree_inv t I" and d: "root_at t d dv" and bd: "biglock_depth t = Suc b"
    and f: "dir_found name (dir_slots t (inode_of t 1)) = Some (sv_ino sv, slot)"
    and v: "sfs_heap t v = Some sv" "v \<noteq> d" "vn_refcount sv = 1 \<Longrightarrow> vn_opencount sv = 0"
  shows "out_wp (case sfs_dir_unlink d slot t of
         Panic \<Rightarrow> Panic
       | Ok _ s \<Rightarrow> kbind (link_dec v s) (\<lambda>_ s. kbind (vnode_decref v s) (\<lambda>_ s. ret_unlock () s))
       | Err e s \<Rightarrow> h e s)
    (\<lambda>_ s'. tree_inv s' (inodes_unlinked t I sv) \<and> contents_same t (inodes_unlinked t I sv) s' \<and>
       names_of s' = (names_of t)(name := None) \<and> biglock_depth s' = b)
    (\<lambda>_ _. False)" (is "out_wp ?m ?Q ?E")
proof -
  let ?n = "sv_ino sv"
  have nt: "names_of t name = Some ?n" using f by (simp add: names_of_def dir_map_def)
  have ino: "?n \<in> I" "?n \<noteq> 1" using tree_okD(4) [OF tree nt] by auto
  have bt: "0 < biglock_depth t" using bd by simp
  have f': "dir_found name (dir_slots t (sv_i dv)) = Some (?n, slot)" using f root_dir(3) [OF tree d bt] by simp
  have cnt: "unat (sfi_linkcount (sv_i sv)) = links_of (names_of t) ?n"
    using tree_okD(6) [OF tree ino] fs_inv_vnode(3) [OF tree_okD(1) [OF tree] v(1)] by simp
  obtain u where u: "sfs_dir_unlink d slot t = Ok () u" "tree_ok u I {?n}" "names_of u = (names_of t)(name := None)"
    "contents_same t I u" "sfs_heap u v = Some sv" "biglock_depth u = Suc b"
    using out_wp_total [OF tree_unlink_wp [OF tree d bt f']] v(1,2) bd contents_others by (auto simp: root_moved_def)
  have bu: "0 < biglock_depth u" using u(6) by simp
  have links: "links_of (names_of t) ?n = links_of (names_of u) ?n + 1"
    using links_delete [OF names_finite nt, of ?n] u(3) by simp
  let ?sv = "sv\<lparr>sv_i := (sv_i sv)\<lparr>sfi_linkcount := sfi_linkcount (sv_i sv) - 1\<rparr>, sv_dirty := True\<rparr>"
  obtain y where y: "link_dec v u = Ok () y" "tree_inv y I" "names_of y = names_of u" "contents_same u I y"
    "biglock_depth y = biglock_depth u" "sfs_heap y v = Some ?sv"
    using out_wp_total [OF tree_dec_wp [OF u(2,5) ino(2) bu]] cnt links by auto
  have by0: "0 < biglock_depth y" using y(5) bu by simp
  obtain z where z: "vnode_decref v y = Ok () z" "tree_inv z (inodes_after I ?sv)" "names_of z = names_of y"
    "contents_same y (inodes_after I ?sv) z" "biglock_depth z = biglock_depth y"
    using out_wp_total [OF tree_decref_wp [OF y(2,6)]] ino(2) v(3) by auto
  have "unat (sfi_linkcount (sv_i ?sv)) = links_of (names_of y) ?n"
    using tree_okD(6) [OF y(2) ino] fs_inv_vnode(3) [OF tree_okD(1) [OF y(2)] y(6)] by simp
  then have "sfi_linkcount (sv_i ?sv) = 0 \<longleftrightarrow> links_of (names_of t) ?n = 1"
    using links y(3) by (auto simp: unat_eq_0)
  then have J: "inodes_after I ?sv = inodes_unlinked t I sv"
    by (auto simp: inodes_after_def inodes_left_def inodes_unlinked_def)
  have sub: "inodes_unlinked t I sv \<subseteq> I" by (auto simp: inodes_unlinked_def)
  have "contents_same t (inodes_unlinked t I sv) z"
    by (rule contents_same_trans [OF contents_same_trans [OF u(4) y(4) order.refl] z(4) [unfolded J] sub])
  moreover have "?m = Ok () (z\<lparr>biglock_depth := b\<rparr>)" using u(1,6) y(1,5) z(1,5) by (simp add: ret_unlock_eq)
  ultimately show ?thesis using z(2,3) y(3) u(3) J by simp
qed

text \<open>
  Removing a name. The file goes away with its last name unless its vnode was loaded: then the last
  reference takes it away.
\<close>

lemma sfs_remove_wp:
  assumes tree: "tree_inv s I" and d: "root_at s d dv"
  shows "out_wp (sfs_remove d name s)
    (\<lambda>_ s'. \<exists>ino J. names_of s name = Some ino \<and> tree_inv s' J \<and> contents_same s J s' \<and>
       names_of s' = (names_of s)(name := None) \<and> biglock_depth s' = biglock_depth s \<and>
       J = (if links_of (names_of s) ino = 1 \<and> (\<forall>v sv. sfs_heap s v = Some sv \<longrightarrow> sv_ino sv \<noteq> ino)
            then I - {ino} else I))
    (\<lambda>e s'. tree_inv s' I \<and> contents_same s I s' \<and> names_of s' = names_of s \<and> biglock_depth s' = biglock_depth s \<and>
       e = (if names_of s name = None then ENOENT else ENOMEM))"
proof -
  let ?s = "vfs_biglock_acquire s"
  have tree': "tree_inv ?s I" and d': "root_at ?s d dv" and bd: "0 < biglock_depth ?s" using tree d by simp_all
  show ?thesis
    using tree_lookonce_wp [OF tree' d' bd, of name]
  proof (cases rule: out_wp_cases)
    case (Err e t)
    then show ?thesis by (simp add: sfs_remove_def fail_unlock_eq)
  next
    case (Ok x t)
    obtain v slot where x: "x = (v, slot)" by (cases x)
    then obtain ino sv w where t: "tree_inv t I" "contents_same s I t" "names_of t = names_of s"
      "biglock_depth t = Suc (biglock_depth s)" "v \<noteq> d" "root_at t d dv" "names_of s name = Some ino"
      "sfs_heap w = sfs_heap s" "got_vnode w ino v t sv"
      "dir_found name (dir_slots t (inode_of t 1)) = Some (ino, slot)" using Ok(2) by auto
    note inv = tree_okD(1) [OF tree] tree_okD(1) [OF t(1)]
    note g = got_vnodeD [OF t(9) inv(1) t(8)] got_vnode_fresh [OF t(9) inv t(8)]
    have J: "inodes_unlinked t I sv = (if links_of (names_of s) ino = 1 \<and>
        (\<forall>v sv. sfs_heap s v = Some sv \<longrightarrow> sv_ino sv \<noteq> ino) then I - {ino} else I)"
      unfolding inodes_unlinked_def g(2,4) t(3) ..
    have sub: "inodes_unlinked t I sv \<subseteq> I" by (auto simp: inodes_unlinked_def)
    have run: "sfs_remove d name s = (case sfs_dir_unlink d slot t of
         Panic \<Rightarrow> Panic
       | Ok _ s \<Rightarrow> kbind (link_dec v s) (\<lambda>_ s. kbind (vnode_decref v s) (\<lambda>_ s. ret_unlock () s))
       | Err e s \<Rightarrow> kbind (vnode_decref v s) (\<lambda>_ s. fail_unlock e s))"
      using Ok(1) x by (simp add: sfs_remove_def)
    have f: "dir_found name (dir_slots t (inode_of t 1)) = Some (sv_ino sv, slot)" using t(10) g(2) by simp
    have "out_wp (sfs_remove d name s) (\<lambda>_ z. tree_inv z (inodes_unlinked t I sv) \<and>
        contents_same t (inodes_unlinked t I sv) z \<and> names_of z = (names_of t)(name := None) \<and>
        biglock_depth z = biglock_depth s) (\<lambda>_ _. False)"
      unfolding run by (rule drop_name_wp [OF t(1,6,4) f g(1) t(5)]) (rule g(3))
    then obtain z where z: "sfs_remove d name s = Ok () z" "tree_inv z (inodes_unlinked t I sv)"
      "contents_same t (inodes_unlinked t I sv) z" "names_of z = (names_of t)(name := None)"
      "biglock_depth z = biglock_depth s"
      using out_wp_total by fastforce
    have "contents_same s (inodes_unlinked t I sv) z" by (rule contents_same_trans [OF t(2) z(3) sub])
    then show ?thesis using z t(3,7) unfolding J by simp
  qed
qed

text \<open>A new file without a name joins the files.\<close>

lemma tree_new:
  assumes tree: "tree_inv s I" and u: "fs_inv u (insert n I)" "files_same s I u" "n \<notin> I"
    and i: "inode_of u n = new_inode SFS_TYPE_FILE"
  shows "tree_inv u (insert n I)" "names_of u = names_of s"
proof -
  note same = names_same [OF u(2) tree_okD(2) [OF tree]]
  show nn: "names_of u = names_of s" by (rule same(3))
  have z: "0 \<notin> I" by (rule fs_inv_zero [OF tree_okD(1) [OF tree]])
  have old: "inode_of u j = inode_of s j" if "j \<in> I" for j using others_sameD(1) [OF u(2) that] that z by auto
  have "links_of (names_of s) n = 0"
    using links_zero [OF names_finite] tree_okD(4) [OF tree] u(3) by blast
  then have "sfi_type (inode_of u j) = 1 \<and> unat (sfi_linkcount (inode_of u j)) = links_of (names_of u) j"
    if "j \<in> insert n I - {1}" for j
    using that i nn old tree_okD(5,6) [OF tree] by (auto simp: new_inode_def)
  moreover have "ran (names_of u) \<subseteq> insert n I - {1}" using tree nn by (auto simp: tree_ok_def)
  moreover have "root_ok u (inode_of u 1)" using tree_okD(3) [OF tree] same(1,2) by (simp add: root_ok_def)
  ultimately show "tree_inv u (insert n I)" using u(1) tree_okD(2) [OF tree] by (simp add: tree_ok_def)
qed

lemma contents_mono: "contents_same s I t \<Longrightarrow> J \<subseteq> I \<Longrightarrow> contents_same s J t"
  by (auto simp: contents_same_def)

definition linked_once :: "sfs_inode \<Rightarrow> sfs_inode" where
  "linked_once i = i\<lparr>sfi_linkcount := sfi_linkcount i + 1\<rparr>"

text \<open>The part of \<open>sfs_creat\<close> that makes a new file: it appears under its name, or not at all.\<close>

lemma creat_new_wp:
  assumes tree: "tree_inv s I" and d: "root_at s d dv" and bd: "biglock_depth s = Suc b"
    and nm: "0 \<notin> set name" and sp: "dir_nslots (sv_i dv) < 1144" and nn: "names_of s name = None"
  shows "out_wp (kbind_unlock (sfs_makeobj SFS_TYPE_FILE s) (\<lambda>newguy s.
           kbind (vn_get newguy s) (\<lambda>sv s.
             case sfs_dir_link d name (sv_ino sv) s of
               Panic \<Rightarrow> Panic
             | Err e s \<Rightarrow> kbind (vnode_decref newguy s) (\<lambda>_ s. fail_unlock e s)
             | Ok _ s \<Rightarrow> kbind (link_inc newguy s) (\<lambda>_ s. ret_unlock newguy s))))
    (\<lambda>v s'. \<exists>sv. sfs_heap s' v = Some sv \<and> sv_ino sv \<notin> I \<and> sv_i sv = linked_once (new_inode SFS_TYPE_FILE) \<and>
       tree_inv s' (insert (sv_ino sv) I) \<and> names_of s' = (names_of s)(name \<mapsto> sv_ino sv) \<and>
       contents_same s I s' \<and> biglock_depth s' = b)
    (\<lambda>e s'. tree_inv s' I \<and> names_of s' = names_of s \<and> contents_same s I s' \<and> biglock_depth s' = b \<and>
       (e = ENOSPC \<or> e = ENOMEM \<or> e = ENAMETOOLONG \<and> 60 \<le> length name))" (is "out_wp ?m ?Q ?E")
proof -
  note inv = tree_okD(1) [OF tree]
  have b0: "0 < biglock_depth s" using bd by simp
  have z: "0 \<notin> I" by (rule fs_inv_zero [OF inv])
  show ?thesis
    using sfs_makeobj_wp [OF inv b0 disjI1 [OF refl]]
  proof (cases rule: out_wp_cases)
    case (Err e t)
    then have "tree_inv t I" "names_of t = names_of s"
      using tree_keep [OF tree, of t I] tree_okD(2) [OF tree] by auto
    then show ?thesis using Err bd contents_files [OF _ z, of s t] by (auto simp: fail_unlock_eq)
  next
    case (Ok v t)
    then obtain sv where t: "sv_ino sv \<notin> fs_used s" "fs_inv t (insert (sv_ino sv) I)" "files_same s I t"
      "sfs_heap s v = None" "sfs_heap t = (sfs_heap s)(v \<mapsto> sv)" "sv_i sv = new_inode 1" "vn_refcount sv = 1"
      "vn_opencount sv = 0" "biglock_depth t = Suc b" using bd by auto
    let ?n = "sv_ino sv" and ?I = "insert (sv_ino sv) I"
    have vp: "sfs_heap t v = Some sv" "v \<noteq> d" "root_at t d dv" using t(4,5) d by (auto simp: root_at_def)
    have nI: "?n \<notin> I" using inodes_okD(1) [OF fs_invD(4) [OF inv]] t(1) by auto
    have n1: "?n \<noteq> 1" using nI tree_okD(2) [OF tree] by auto
    have in_t: "inode_of t ?n = new_inode 1" using fs_inv_vnode(3) [OF t(2) vp(1)] t(6) by simp
    note tr = tree_new [OF tree t(2,3) nI in_t]
    have ct: "contents_same s I t" by (rule contents_files [OF t(3) z])
    have bt: "0 < biglock_depth t" using t(9) by simp
    have run: "?m = (case sfs_dir_link d name ?n t of
               Panic \<Rightarrow> Panic
             | Err e s \<Rightarrow> kbind (vnode_decref v s) (\<lambda>_ s. fail_unlock e s)
             | Ok _ s \<Rightarrow> kbind (link_inc v s) (\<lambda>_ s. ret_unlock v s))"
      using Ok(1) vp(1) by (simp add: vn_get_def)
    show ?thesis
      using tree_link_wp [OF tr(1) vp(3) bt nm insertI1 n1 sp]
    proof (cases rule: out_wp_cases)
      case (Ok slot u)
      then have u: "tree_ok u ?I {?n}" "contents_same t ?I u" "names_of u = (names_of s)(name \<mapsto> ?n)"
        "sfs_heap u v = Some sv" "biglock_depth u = Suc b"
        using tr(2) vp t(9) contents_others by (auto simp: root_moved_def)
      have "links_of (names_of u) ?n = unat (sfi_linkcount (sv_i sv)) + 1"
        using links_insert [OF names_finite nn, of ?n ?n] u(3) tree_okD(6) [OF tr(1) _ n1] in_t t(6) tr(2)
        by (simp add: new_inode_def)
      then obtain y where y: "link_inc v u = Ok () y" "tree_inv y ?I" "names_of y = names_of u" "contents_same u ?I y"
        "biglock_depth y = biglock_depth u" "sfs_heap y v = Some (sv\<lparr>sv_i := linked_once (sv_i sv), sv_dirty := True\<rparr>)"
        using out_wp_total [OF tree_inc_wp [OF u(1,4) n1]] u(5) by (auto simp: linked_once_def)
      have "contents_same s I y"
        by (rule contents_same_trans [OF contents_same_trans [OF ct contents_mono [OF u(2)] order.refl] contents_mono [OF y(4)] order.refl])
          auto
      then show ?thesis using run Ok(1) y u(3,5) nI t(6) by (simp add: ret_unlock_eq)
    next
      case (Err e u)
      then have u: "tree_inv u ?I" "contents_same t ?I u" "names_of u = names_of s"
        "sfs_heap u v = Some sv" "biglock_depth u = Suc b"
        using tr(2) vp t(9) contents_others by (auto simp: root_moved_def)
      have J: "inodes_after ?I sv = I" using t(6,7) nI by (auto simp: inodes_after_def inodes_left_def new_inode_def)
      obtain y where y: "vnode_decref v u = Ok () y" "tree_inv y I" "names_of y = names_of u" "contents_same u I y"
        "biglock_depth y = biglock_depth u"
        using out_wp_total [OF tree_decref_wp [OF u(1,4) n1]] u(5) t(8) J by auto
      have "contents_same s I y"
        by (rule contents_same_trans [OF contents_same_trans [OF ct contents_mono [OF u(2)] order.refl] y(4) order.refl]) auto
      then show ?thesis using run Err y u(3,5) nn tr(2) by (auto simp: fail_unlock_eq split: if_splits)
    qed
  qed
qed

lemma sfs_creat_wp:
  assumes tree: "tree_inv s I" and d: "root_at s d dv" and nm: "0 \<notin> set name" and sp: "dir_nslots (sv_i dv) < 1144"
  shows "out_wp (sfs_creat d name excl s)
    (\<lambda>v s'. biglock_depth s' = biglock_depth s \<and> contents_same s I s' \<and> (\<exists>sv. sfs_heap s' v = Some sv \<and>
       (case names_of s name of
          Some ino \<Rightarrow> \<not> excl \<and> sv_ino sv = ino \<and> tree_inv s' I \<and> names_of s' = names_of s
        | None \<Rightarrow> sv_ino sv \<notin> I \<and> sv_i sv = linked_once (new_inode SFS_TYPE_FILE) \<and>
            tree_inv s' (insert (sv_ino sv) I) \<and> names_of s' = (names_of s)(name \<mapsto> sv_ino sv))))
    (\<lambda>e s'. tree_inv s' I \<and> names_of s' = names_of s \<and> contents_same s I s' \<and> biglock_depth s' = biglock_depth s \<and>
       (e = EEXIST \<and> excl \<and> names_of s name \<noteq> None \<or> e = ENOSPC \<or> e = ENOMEM \<or> e = ENAMETOOLONG \<and> 60 \<le> length name))"
proof -
  let ?s = "vfs_biglock_acquire s"
  have tree': "tree_inv ?s I" and d': "root_at ?s d dv" and bd: "0 < biglock_depth ?s" using tree d by simp_all
  have z: "0 \<notin> I" by (rule fs_inv_zero [OF tree_okD(1) [OF tree]])
  show ?thesis
    using tree_find_wp [OF tree' d' bd, of name]
  proof (cases rule: out_wp_cases)
    case (Ok r t)
    have "map_option fst (fst r) = names_of ?s name"
      unfolding names_of_def dir_map_def using Ok(2) by simp
    then have r: "map_option fst (fst r) = names_of s name" by simp
    have dt: "dev_step ?s t" "root_at t d dv" using Ok(2) by simp_all
    note k = tree_dev [OF tree' dt(1)]
    have bt: "biglock_depth t = Suc (biglock_depth s)" using dev_step_sel(5) [OF dt(1)] by simp
    have ct: "contents_same s I t" using contents_files [OF k(4) z] by simp
    obtain fnd es where re: "r = (fnd, es)" by (cases r)
    show ?thesis
    proof (cases "names_of s name")
      case None
      then have "fnd = None" using r re by auto
      then have run: "sfs_creat d name excl s = kbind_unlock (sfs_makeobj SFS_TYPE_FILE t) (\<lambda>newguy s.
           kbind (vn_get newguy s) (\<lambda>sv s.
             case sfs_dir_link d name (sv_ino sv) s of
               Panic \<Rightarrow> Panic
             | Err e s \<Rightarrow> kbind (vnode_decref newguy s) (\<lambda>_ s. fail_unlock e s)
             | Ok _ s \<Rightarrow> kbind (link_inc newguy s) (\<lambda>_ s. ret_unlock newguy s)))"
        using Ok(1) re by (simp add: sfs_creat_def)
      have nt: "names_of t name = None" "names_of t = names_of s" using None k(2) by simp_all
      show ?thesis unfolding run
        by (rule out_wp_conseq [OF creat_new_wp [OF k(1) dt(2) bt nm sp nt(1)]])
          (use None nt(2) contents_same_trans [OF ct _ order.refl] in auto)
    next
      case (Some ino)
      then obtain slot where f: "fnd = Some (ino, slot)" using r re by auto
      have nt: "names_of t name = Some ino" using Some k(2) by simp
      show ?thesis
      proof (cases excl)
        case True
        then show ?thesis using Ok(1) re f k ct bt Some by (simp add: sfs_creat_def fail_unlock_eq)
      next
        case False
        then have run: "sfs_creat d name excl s = kbind_unlock (sfs_loadvnode ino 0 t) (\<lambda>newguy s. ret_unlock newguy s)"
          using Ok(1) re f by (simp add: sfs_creat_def)
        have "0 < biglock_depth t" using bt by simp
        from tree_load_wp [OF k(1) dt(2) this nt] show ?thesis
        proof (cases rule: out_wp_cases)
          case (Ok v u)
          then have "contents_same s I u" "\<exists>sv. sfs_heap u v = Some sv \<and> sv_ino sv = ino"
            using contents_same_trans [OF ct contents_files [OF _ z] order.refl] by (auto simp: got_vnode_def)
          then show ?thesis using run Ok Some False k(2) bt by (simp add: ret_unlock_eq)
        next
          case (Err e u)
          then have "contents_same s I u" using contents_same_trans [OF ct contents_files [OF _ z] order.refl] by blast
          then show ?thesis using run Err k(2) bt by (simp add: fail_unlock_eq)
        qed
      qed
    qed
  qed auto
qed

text \<open>A second name for a file.\<close>

lemma sfs_link_wp:
  assumes tree: "tree_inv s I" and d: "root_at s d dv" and nm: "0 \<notin> set name" and sp: "dir_nslots (sv_i dv) < 1144"
    and f: "sfs_heap s file = Some fv" "sv_ino fv \<noteq> 1"
  shows "out_wp (sfs_link d name file s)
    (\<lambda>_ s'. names_of s name = None \<and> tree_inv s' I \<and> names_of s' = (names_of s)(name \<mapsto> sv_ino fv) \<and>
       contents_same s I s' \<and> biglock_depth s' = biglock_depth s)
    (\<lambda>e s'. tree_inv s' I \<and> names_of s' = names_of s \<and> contents_same s I s' \<and> biglock_depth s' = biglock_depth s \<and>
       (if names_of s name \<noteq> None then e = EEXIST
        else if 60 \<le> length name then e = ENAMETOOLONG else e = ENOSPC))"
proof -
  let ?s = "vfs_biglock_acquire s" and ?n = "sv_ino fv"
  have tree': "tree_inv ?s I" and d': "root_at ?s d dv" and bd: "0 < biglock_depth ?s" and f': "sfs_heap ?s file = Some fv"
    using tree d f by simp_all
  have n: "?n \<in> I" by (rule fs_invD(6) [OF tree_okD(1) [OF tree] f(1)])
  have fd: "file \<noteq> d" using f d by (auto simp: root_at_def)
  have in_s: "inode_of s ?n = sv_i fv" by (rule fs_inv_vnode(3) [OF tree_okD(1) [OF tree] f(1)])
  have run: "sfs_link d name file s = kbind_unlock (sfs_dir_link d name ?n ?s) (\<lambda>_ s.
     kbind (link_inc file s) (\<lambda>_ s. ret_unlock () s))"
    using f' by (simp add: sfs_link_def vn_get_def)
  show ?thesis
    using tree_link_wp [OF tree' d' bd nm n f(2) sp]
  proof (cases rule: out_wp_cases)
    case (Ok slot t)
    then have t: "tree_ok t I {?n}" "contents_same s I t" "names_of s name = None"
      "names_of t = (names_of s)(name \<mapsto> ?n)" "sfs_heap t file = Some fv" "biglock_depth t = Suc (biglock_depth s)"
      using fd f' contents_others [of ?s I t] by (auto simp: root_moved_def)
    have "links_of (names_of t) ?n = unat (sfi_linkcount (sv_i fv)) + 1"
      using links_insert [OF names_finite t(3), of ?n ?n] t(4) tree_okD(6) [OF tree n f(2)] in_s by simp
    then obtain y where y: "link_inc file t = Ok () y" "tree_inv y I" "names_of y = names_of t" "contents_same t I y"
      "biglock_depth y = biglock_depth t"
      using out_wp_total [OF tree_inc_wp [OF t(1,5) f(2)]] t(6) by auto
    then show ?thesis
      using run Ok(1) t contents_same_trans [OF t(2) y(4) order.refl] by (simp add: ret_unlock_eq)
  next
    case (Err e t)
    then show ?thesis using run contents_others [of ?s I t] by (simp add: root_moved_def fail_unlock_eq)
  qed
qed

text \<open>Renaming: the file appears under its new name and is gone under the old one, in one step or not at all.\<close>

lemma sfs_rename_wp:
  assumes tree: "tree_inv s I" and d: "root_at s d dv" and nm: "0 \<notin> set n2" and sp: "dir_nslots (sv_i dv) < 1144"
  shows "out_wp (sfs_rename d n1 d n2 s)
    (\<lambda>_ s'. \<exists>ino. names_of s n1 = Some ino \<and> names_of s n2 = None \<and> tree_inv s' I \<and>
       names_of s' = (names_of s)(n2 \<mapsto> ino, n1 := None) \<and> contents_same s I s' \<and> biglock_depth s' = biglock_depth s)
    (\<lambda>e s'. tree_inv s' I \<and> names_of s' = names_of s \<and> contents_same s I s' \<and> biglock_depth s' = biglock_depth s \<and>
       (names_of s n1 = None \<longrightarrow> e = ENOENT))"
proof -
  let ?s = "vfs_biglock_acquire s"
  have tree': "tree_inv ?s I" and d': "root_at ?s d dv" and bd: "0 < biglock_depth ?s" using tree d by simp_all
  have get: "vn_get d ?s = Ok dv ?s" "sv_ino dv = 1" using d' by (auto simp: root_at_def vn_get_def)
  show ?thesis
    using tree_lookonce_wp [OF tree' d' bd, of n1]
  proof (cases rule: out_wp_cases)
    case (Err e t)
    then show ?thesis using get by (simp add: sfs_rename_def fail_unlock_eq)
  next
    case (Ok x t)
    obtain v slot where x: "x = (v, slot)" by (cases x)
    then obtain ino sv w where t: "tree_inv t I" "contents_same s I t" "names_of t = names_of s"
      "biglock_depth t = Suc (biglock_depth s)" "v \<noteq> d" "root_at t d dv" "names_of s n1 = Some ino"
      "sfs_heap w = sfs_heap s" "got_vnode w ino v t sv" "inode_of t ino = sv_i sv"
      "dir_found n1 (dir_slots t (inode_of t 1)) = Some (ino, slot)" using Ok(2) by auto
    note inv = tree_okD(1) [OF tree] tree_okD(1) [OF t(1)]
    note g = got_vnodeD [OF t(9) inv(1) t(8)]
    have bt: "0 < biglock_depth t" using t(4) by simp
    have ino: "ino \<in> I" "ino \<noteq> 1" "sv_ino sv \<noteq> 1" using tree_okD(4) [OF tree t(7)] g(2) by auto
    have cnt: "unat (sfi_linkcount (sv_i sv)) = links_of (names_of t) ino"
      using tree_okD(6) [OF t(1) ino(1,2)] t(10) by simp
    have nz: "links_of (names_of t) ino \<noteq> 0" using links_zero [OF names_finite, of t ino] t(3,7) by auto
    have ty: "sfi_type (sv_i sv) = SFS_TYPE_FILE" using tree_okD(5) [OF t(1) ino(1,2)] t(10) by simp
    show ?thesis
      using tree_link_wp [OF t(1,6) bt nm ino(1,2) sp]
    proof (cases rule: out_wp_cases)
      case (Err e u)
      then have u: "tree_inv u I" "names_of u = names_of s" "contents_same t I u"
        "sfs_heap u v = Some sv" "biglock_depth u = Suc (biglock_depth s)"
        using t(3-5) g(1) contents_others by (auto simp: root_moved_def)
      have J: "inodes_after I sv = I" using cnt nz by (auto simp: inodes_after_def inodes_left_def)
      obtain z where z: "vnode_decref v u = Ok () z" "tree_inv z I" "names_of z = names_of u"
        "contents_same u I z" "biglock_depth z = biglock_depth u"
        using out_wp_total [OF tree_decref_wp [OF u(1,4)]] ino(3) g(3) u(5) J by auto
      have "contents_same s I z"
        by (rule contents_same_trans [OF contents_same_trans [OF t(2) u(3) order.refl] z(4) order.refl])
      moreover have "sfs_rename d n1 d n2 s = Err e (z\<lparr>biglock_depth := biglock_depth s\<rparr>)"
        using Ok(1) x get g(1,2) ty Err(1) z(1,5) u(5) by (simp add: sfs_rename_def vn_get_def fail_unlock_eq)
      ultimately show ?thesis using t(7) z(2,3) u(2) by simp
    next
      case (Ok slot2 u)
      then have u: "tree_ok u I {ino}" "names_of u = (names_of s)(n2 \<mapsto> ino)" "contents_same t I u"
        "sfs_heap u v = Some sv" "biglock_depth u = Suc (biglock_depth s)" "names_of s n2 = None"
        "dir_found n1 (dir_slots u (inode_of u 1)) = Some (ino, slot)" and rm: "\<exists>dv'. root_at u d dv'"
        using t(3-5,11) g(1) contents_others by (auto simp: root_moved_def)
      have ne: "n1 \<noteq> n2" using t(7) u(6) by auto
      have lu: "links_of (names_of u) ino = unat (sfi_linkcount (sv_i sv)) + 1"
        using links_insert [OF names_finite u(6), of ino ino] u(2) cnt t(3) by simp
      let ?sv = "sv\<lparr>sv_i := (sv_i sv)\<lparr>sfi_linkcount := sfi_linkcount (sv_i sv) + 1\<rparr>, sv_dirty := True\<rparr>"
      obtain y where y: "link_inc v u = Ok () y" "tree_inv y I" "names_of y = names_of u" "contents_same u I y"
        "biglock_depth y = biglock_depth u" "sfs_heap y = (sfs_heap u)(v \<mapsto> ?sv)"
        "dir_slots y (inode_of y 1) = dir_slots u (inode_of u 1)"
        using out_wp_total [OF tree_inc_wp [of u I sv v]] u(1,4,5) ino(3) g(2) lu by auto
      obtain dv' where dy: "root_at y d dv'" using rm y(6) t(5) by (auto simp: root_at_def)
      have by0: "0 < biglock_depth y" using y(5) u(5) by simp
      have f: "dir_found n1 (dir_slots y (inode_of y 1)) = Some (sv_ino ?sv, slot)" using u(7) y(7) g(2) by simp
      have yv: "sfs_heap y v = Some ?sv" and yd: "biglock_depth y = Suc (biglock_depth s)" using y(5,6) u(5) by simp_all
      have J: "inodes_unlinked y I ?sv = I" using lu cnt nz y(3) g(2) by (simp add: inodes_unlinked_def)
      have cs: "contents_same s I y"
        by (rule contents_same_trans [OF contents_same_trans [OF t(2) u(3) order.refl] y(4) order.refl])
      have "\<exists>h. sfs_rename d n1 d n2 s = (case sfs_dir_unlink d slot y of
         Panic \<Rightarrow> Panic
       | Ok _ s \<Rightarrow> kbind (link_dec v s) (\<lambda>_ s. kbind (vnode_decref v s) (\<lambda>_ s. ret_unlock () s))
       | Err e s \<Rightarrow> h e s)"
        unfolding sfs_rename_def kassert_True get kbind.simps
        using \<open>sfs_lookonce d n1 ?s = Ok x t\<close> x g(1,2) ty Ok(1) y(1) get(2)
        by (intro exI [of _ "\<lambda>e s. case sfs_dir_unlink d slot2 s of
              Ok _ s \<Rightarrow> kbind (vn_update v (\<lambda>sv. sv\<lparr>sv_i := (sv_i sv)\<lparr>sfi_linkcount := sfi_linkcount (sv_i sv) - 1\<rparr>\<rparr>) s)
                (\<lambda>_ s. kbind (vnode_decref v s) (\<lambda>_ s. fail_unlock e s))
            | _ \<Rightarrow> Panic"]) (simp add: vn_get_def)
      then obtain h where run: "sfs_rename d n1 d n2 s = (case sfs_dir_unlink d slot y of
         Panic \<Rightarrow> Panic
       | Ok _ s \<Rightarrow> kbind (link_dec v s) (\<lambda>_ s. kbind (vnode_decref v s) (\<lambda>_ s. ret_unlock () s))
       | Err e s \<Rightarrow> h e s)" ..
      show ?thesis unfolding run
        by (rule out_wp_conseq [OF drop_name_wp [OF y(2) dy yd f yv t(5)]])
          (use g(3) J t(7) u(2,6) y(3) contents_same_trans [OF cs _ order.refl] in auto)
    qed
  qed
qed

end
