(* ===== verification/SfsRun.thy ===== *)
theory SfsRun
  imports SfsTree
begin

text \<open>
  SFS as a state machine. The steps are the calls a client of the volume makes through the vnode
  operations, each with the obligations the VFS layer meets; the abstract machine they implement knows
  only names, inode numbers and byte strings. The simulation says that every step of the code, failing
  ones included, is a step of the abstract machine and keeps the volume consistent.
\<close>

section \<open>The abstract volume\<close>

record volume =
  vol_names :: "u8 list \<Rightarrow> nat option"
  vol_data :: "nat \<Rightarrow> u8 list option"

definition file_bytes :: "sfs_fs \<Rightarrow> sfs_inode \<Rightarrow> u8 list" where
  "file_bytes s i = map (file_byte s i) [0..<file_size i]"

definition volume_of :: "sfs_fs \<Rightarrow> nat set \<Rightarrow> volume" where
  "volume_of s I = \<lparr>vol_names = names_of s,
     vol_data = (\<lambda>j. if j \<in> I \<and> j \<noteq> SFS_ROOT_LOCATION then Some (file_bytes s (inode_of s j)) else None)\<rparr>"

datatype sfs_call =
    Creat "u8 list" bool
  | Remove "u8 list"
  | Link "u8 list" nat
  | Rename "u8 list" "u8 list"
  | Lookup "u8 list"
  | Read nat
  | Write nat nat "u8 list"
  | Truncate nat nat
  | Fsync nat
  | Decref nat

text \<open>
  \<open>spliced old off new bs\<close>: \<open>bs\<close> is \<open>old\<close> overwritten with \<open>new\<close> from \<open>off\<close> on. What a gap between the
  old end and \<open>off\<close> holds is left open: \<open>sfs_truncate\<close> does not clear what it cuts off.
\<close>

definition spliced :: "u8 list \<Rightarrow> nat \<Rightarrow> u8 list \<Rightarrow> u8 list \<Rightarrow> bool" where
  "spliced old off new bs \<longleftrightarrow> length bs = max (length old) (off + length new) \<and>
     take (length new) (drop off bs) = new \<and>
     (\<forall>x < length old. x < off \<or> off + length new \<le> x \<longrightarrow> bs ! x = old ! x)"

definition forgets :: "volume \<Rightarrow> nat \<Rightarrow> volume \<Rightarrow> bool" where
  "forgets v ino v' \<longleftrightarrow> v' = v \<or> ino \<notin> ran (vol_names v) \<and> v' = v\<lparr>vol_data := (vol_data v)(ino := None)\<rparr>"

text \<open>The second-to-last argument is the error a call reports, if any.\<close>

fun vol_step :: "volume \<Rightarrow> sfs_call \<Rightarrow> errno option \<Rightarrow> volume \<Rightarrow> bool" where
  "vol_step v (Creat n excl) None v' \<longleftrightarrow> (case vol_names v n of
     Some ino \<Rightarrow> \<not> excl \<and> v' = v
   | None \<Rightarrow> \<exists>ino. vol_data v ino = None \<and>
       v' = \<lparr>vol_names = (vol_names v)(n \<mapsto> ino), vol_data = (vol_data v)(ino \<mapsto> [])\<rparr>)"
| "vol_step v (Remove n) None v' \<longleftrightarrow> (\<exists>ino. vol_names v n = Some ino \<and>
     forgets (v\<lparr>vol_names := (vol_names v)(n := None)\<rparr>) ino v')"
| "vol_step v (Link n ino) None v' \<longleftrightarrow> vol_names v n = None \<and> vol_data v ino \<noteq> None \<and>
     v' = v\<lparr>vol_names := (vol_names v)(n \<mapsto> ino)\<rparr>"
| "vol_step v (Rename n1 n2) None v' \<longleftrightarrow> (\<exists>ino. vol_names v n1 = Some ino \<and> vol_names v n2 = None \<and>
     v' = v\<lparr>vol_names := (vol_names v)(n2 \<mapsto> ino, n1 := None)\<rparr>)"
| "vol_step v (Lookup n) r v' \<longleftrightarrow> v' = v \<and> (r = None \<longrightarrow> vol_names v n \<noteq> None) \<and> (r = Some ENOENT \<longleftrightarrow> vol_names v n = None)"
| "vol_step v (Write ino off new) r v' \<longleftrightarrow> (\<exists>old bs. vol_data v ino = Some old \<and>
     v' = v\<lparr>vol_data := (vol_data v)(ino \<mapsto> bs)\<rparr> \<and> (r = None \<longrightarrow> spliced old off new bs))"
| "vol_step v (Truncate ino len) r v' \<longleftrightarrow> r = None \<and> (\<exists>old. vol_data v ino = Some old \<and>
     v' = v\<lparr>vol_data := (vol_data v)(ino \<mapsto> take len old)\<rparr>)"
| "vol_step v (Decref ino) r v' \<longleftrightarrow> r = None \<and> forgets v ino v'"
| "vol_step v c r v' \<longleftrightarrow> v' = v"

section \<open>The steps of the code\<close>

fun ended :: "('a, 's) out \<Rightarrow> errno option \<Rightarrow> 's \<Rightarrow> bool" where
  "ended (Ok a s) r s' \<longleftrightarrow> r = None \<and> s' = s"
| "ended (Err e s) r s' \<longleftrightarrow> r = Some e \<and> s' = s"
| "ended Panic r s' \<longleftrightarrow> False"

text \<open>A vnode of a file of the volume, as opposed to its root directory.\<close>

definition file_at :: "sfs_fs \<Rightarrow> vptr \<Rightarrow> sfs_vnode \<Rightarrow> bool" where
  "file_at s vp sv \<longleftrightarrow> sfs_heap s vp = Some sv \<and> sv_ino sv \<noteq> SFS_ROOT_LOCATION"

definition dir_has_room :: "sfs_vnode \<Rightarrow> bool" where
  "dir_has_room dv \<longleftrightarrow> dir_nslots (sv_i dv) < 1144"

definition io_request :: "uio_rw \<Rightarrow> uio \<Rightarrow> nat \<Rightarrow> bool" where
  "io_request rw u off \<longleftrightarrow> uio_ok u \<and> uio_rw u = rw \<and> uio_offset u = int off"

definition uio_data :: "uio \<Rightarrow> u8 list" where
  "uio_data u = map (us_mem (uio_mem u)) (take (uio_resid u) (uio_addrs u))"

inductive sfs_step :: "sfs_fs \<Rightarrow> sfs_call \<Rightarrow> errno option \<Rightarrow> sfs_fs \<Rightarrow> bool" where
  creat: "root_at s d dv \<Longrightarrow> dir_has_room dv \<Longrightarrow> 0 \<notin> set n \<Longrightarrow>
    ended (sfs_creat d n excl s) r s' \<Longrightarrow> sfs_step s (Creat n excl) r s'"
| remove: "root_at s d dv \<Longrightarrow> ended (sfs_remove d n s) r s' \<Longrightarrow> sfs_step s (Remove n) r s'"
| link: "root_at s d dv \<Longrightarrow> dir_has_room dv \<Longrightarrow> 0 \<notin> set n \<Longrightarrow> file_at s vp sv \<Longrightarrow>
    ended (sfs_link d n vp s) r s' \<Longrightarrow> sfs_step s (Link n (sv_ino sv)) r s'"
| rename: "root_at s d dv \<Longrightarrow> dir_has_room dv \<Longrightarrow> 0 \<notin> set n2 \<Longrightarrow>
    ended (sfs_rename d n1 d n2 s) r s' \<Longrightarrow> sfs_step s (Rename n1 n2) r s'"
| lookup: "root_at s d dv \<Longrightarrow> ended (sfs_lookup d n s) r s' \<Longrightarrow> sfs_step s (Lookup n) r s'"
| read_file: "file_at s vp sv \<Longrightarrow> file_size (sv_i sv) \<le> 143 * 512 \<Longrightarrow> io_request UIO_READ u off \<Longrightarrow>
    ended (sfs_read vp (s, u)) r (s', u') \<Longrightarrow> sfs_step s (Read (sv_ino sv)) r s'"
| write_file: "file_at s vp sv \<Longrightarrow> io_request UIO_WRITE u off \<Longrightarrow> off < 143 * 512 \<Longrightarrow> off + uio_resid u \<le> 143 * 512 \<Longrightarrow>
    ended (sfs_write vp (s, u)) r (s', u') \<Longrightarrow> sfs_step s (Write (sv_ino sv) off (uio_data u)) r s'"
| truncate: "file_at s vp sv \<Longrightarrow> len \<le> file_size (sv_i sv) \<Longrightarrow> len + 511 < 2 ^ 32 \<Longrightarrow>
    ended (sfs_truncate vp (int len) s) r s' \<Longrightarrow> sfs_step s (Truncate (sv_ino sv) len) r s'"
| fsync: "file_at s vp sv \<Longrightarrow> ended (sfs_fsync vp s) r s' \<Longrightarrow> sfs_step s (Fsync (sv_ino sv)) r s'"
| decref: "file_at s vp sv \<Longrightarrow> vn_refcount sv > 1 \<or> vn_opencount sv = 0 \<Longrightarrow>
    ended (vnode_decref vp s) r s' \<Longrightarrow> sfs_step s (Decref (sv_ino sv)) r s'"

inductive_cases sfs_stepE: "sfs_step s c r s'"

inductive sfs_run :: "sfs_fs \<Rightarrow> (sfs_call \<times> errno option) list \<Rightarrow> sfs_fs \<Rightarrow> bool" where
  run_Nil: "sfs_run s [] s"
| run_Cons: "sfs_step s c r s' \<Longrightarrow> sfs_run s' cs s'' \<Longrightarrow> sfs_run s ((c, r) # cs) s''"

inductive vol_run :: "volume \<Rightarrow> (sfs_call \<times> errno option) list \<Rightarrow> volume \<Rightarrow> bool" where
  vol_Nil: "vol_run v [] v"
| vol_Cons: "vol_step v c r v' \<Longrightarrow> vol_run v' cs v'' \<Longrightarrow> vol_run v ((c, r) # cs) v''"


section \<open>The simulation\<close>

lemma ended_wp:
  assumes "ended m r s'" and "out_wp m Q E"
  shows "(case r of None \<Rightarrow> \<exists>a. Q a s' | Some e \<Rightarrow> E e s')"
  using assms by (cases m) auto

lemma ended_wp_pair:
  assumes "ended m r (s', u')" and "out_wp m (\<lambda>a (s, u). Q a s u) (\<lambda>e (s, u). E e s u)"
  shows "(case r of None \<Rightarrow> \<exists>a. Q a s' u' | Some e \<Rightarrow> E e s' u')"
  using assms by (cases m) auto

lemma ended_total: "m \<noteq> Panic \<Longrightarrow> \<exists>r s'. ended m r s'"
  by (cases m) auto

text \<open>Steps that keep names and contents, drop inodes, or change one file.\<close>

lemma volume_same:
  assumes "contents_same s I s'" "names_of s' = names_of s"
  shows "volume_of s' I = volume_of s I"
  using assms by (auto simp: volume_of_def contents_same_def file_bytes_def)

lemma volume_names:
  assumes "contents_same s I s'"
  shows "volume_of s' I = (volume_of s I)\<lparr>vol_names := names_of s'\<rparr>"
  using assms by (auto simp: volume_of_def contents_same_def file_bytes_def)

lemma volume_drop:
  assumes "contents_same s (I - {ino}) s'" "ino \<noteq> 1"
  shows "volume_of s' (I - {ino}) = \<lparr>vol_names = names_of s', vol_data = (vol_data (volume_of s I))(ino := None)\<rparr>"
  using assms by (auto simp: volume_of_def contents_same_def file_bytes_def)

lemma volume_new:
  assumes "contents_same s I s'" "file_size (inode_of s' ino) = 0" "ino \<noteq> 1"
  shows "volume_of s' (insert ino I) = \<lparr>vol_names = names_of s', vol_data = (vol_data (volume_of s I))(ino \<mapsto> [])\<rparr>"
  using assms by (auto simp: volume_of_def contents_same_def file_bytes_def)

lemma volume_one:
  assumes "others_same s I ino s'" "ino \<in> I" "ino \<noteq> 1" "names_of s' = names_of s"
  shows "volume_of s' I = (volume_of s I)\<lparr>vol_data := (vol_data (volume_of s I))(ino \<mapsto> file_bytes s' (inode_of s' ino))\<rparr>"
proof -
  have "file_bytes s' (inode_of s' j) = file_bytes s (inode_of s j)" if "j \<in> I" "j \<noteq> ino" for j
    using others_sameD [OF assms(1) that] by (simp add: file_bytes_def)
  then show ?thesis using assms(2-) by (auto simp: volume_of_def)
qed

lemma tree_one:
  assumes tree: "tree_inv s I" and st: "fs_inv s' I" "others_same s I ino s'" and ino: "ino \<in> I" "ino \<noteq> 1"
    and i: "sfi_type (inode_of s' ino) = sfi_type (inode_of s ino)"
      "sfi_linkcount (inode_of s' ino) = sfi_linkcount (inode_of s ino)"
  shows "tree_inv s' I" "names_of s' = names_of s"
proof -
  have r: "inode_of s' 1 = inode_of s 1" "file_byte s' (inode_of s' 1) = file_byte s (inode_of s 1)"
    using others_sameD [OF st(2) tree_okD(2) [OF tree]] ino by simp_all
  then have d: "dir_slots s' (inode_of s' 1) = dir_slots s (inode_of s 1)" by (simp add: dir_slots_def)
  then show n: "names_of s' = names_of s" by (simp add: names_of_def)
  have m: "sfi_type (inode_of s' j) = sfi_type (inode_of s j)" "sfi_linkcount (inode_of s' j) = sfi_linkcount (inode_of s j)"
    if "j \<in> I" for j using st(2) i that by (cases "j = ino"; simp add: others_same_def)+
  have "root_ok s' (inode_of s' 1)" using tree_okD(3) [OF tree] r d by (simp add: root_ok_def)
  then show "tree_inv s' I" using tree st(1) n m by (auto simp: tree_ok_def)
qed


definition simulated :: "sfs_fs \<Rightarrow> nat set \<Rightarrow> sfs_call \<Rightarrow> errno option \<Rightarrow> sfs_fs \<Rightarrow> bool" where
  "simulated s I c r s' \<longleftrightarrow> (\<exists>J. tree_inv s' J \<and> biglock_depth s' = biglock_depth s \<and>
     vol_step (volume_of s I) c r (volume_of s' J))"

lemma vol_sel [simp]: "vol_names (volume_of s I) = names_of s"
  "vol_data (volume_of s I) j = (if j \<in> I \<and> j \<noteq> 1 then Some (file_bytes s (inode_of s j)) else None)"
  by (simp_all add: volume_of_def)

lemma simulated_skip:
  assumes "tree_inv s' I" "contents_same s I s'" "names_of s' = names_of s" "biglock_depth s' = biglock_depth s"
    and "vol_step (volume_of s I) c r (volume_of s I)"
  shows "simulated s I c r s'"
  using assms volume_same [OF assms(2,3)] unfolding simulated_def by auto

lemma sim_creat:
  assumes tree: "tree_inv s I" and d: "root_at s d dv" "dir_has_room dv" "0 \<notin> set n" and e: "ended (sfs_creat d n excl s) r s'"
  shows "simulated s I (Creat n excl) r s'"
proof (cases r)
  case (Some x)
  then show ?thesis
    using ended_wp [OF e sfs_creat_wp [OF tree d(1,3)]] d(2) by (auto simp: dir_has_room_def intro!: simulated_skip)
next
  case None
  then obtain v sv where v: "biglock_depth s' = biglock_depth s" "contents_same s I s'" "sfs_heap s' v = Some sv"
    "case names_of s n of
       Some ino \<Rightarrow> \<not> excl \<and> sv_ino sv = ino \<and> tree_inv s' I \<and> names_of s' = names_of s
     | None \<Rightarrow> sv_ino sv \<notin> I \<and> sv_i sv = linked_once (new_inode SFS_TYPE_FILE) \<and>
         tree_inv s' (insert (sv_ino sv) I) \<and> names_of s' = (names_of s)(n \<mapsto> sv_ino sv)"
    using ended_wp [OF e sfs_creat_wp [OF tree d(1,3)]] d(2) by (auto simp: dir_has_room_def)
  show ?thesis
  proof (cases "names_of s n")
    case None
    let ?n = "sv_ino sv"
    have t: "?n \<notin> I" "tree_inv s' (insert ?n I)" "names_of s' = (names_of s)(n \<mapsto> ?n)"
      "sv_i sv = linked_once (new_inode SFS_TYPE_FILE)" using v(4) None by simp_all
    then have "inode_of s' ?n = sv_i sv" using fs_inv_vnode(3) [OF tree_okD(1) v(3)] by blast
    then have "file_size (inode_of s' ?n) = 0" using t(4) by (simp add: linked_once_def new_inode_def)
    moreover have "?n \<noteq> 1" using t(1) tree_okD(2) [OF tree] by auto
    ultimately show ?thesis
      using \<open>r = None\<close> None t v(1) volume_new [OF v(2), of ?n] unfolding simulated_def
      by (intro exI [of _ "insert ?n I"]) auto
  next
    case (Some ino)
    then show ?thesis using v \<open>r = None\<close> by (intro simulated_skip) auto
  qed
qed

lemma sim_remove:
  assumes tree: "tree_inv s I" and d: "root_at s d dv" and e: "ended (sfs_remove d n s) r s'"
  shows "simulated s I (Remove n) r s'"
proof (cases r)
  case (Some x)
  then show ?thesis using ended_wp [OF e sfs_remove_wp [OF tree d]] by (auto intro!: simulated_skip)
next
  case None
  then obtain ino J where j: "names_of s n = Some ino" "tree_inv s' J" "contents_same s J s'"
    "names_of s' = (names_of s)(n := None)" "biglock_depth s' = biglock_depth s"
    "J = (if links_of (names_of s) ino = 1 \<and> (\<forall>v sv. sfs_heap s v = Some sv \<longrightarrow> sv_ino sv \<noteq> ino) then I - {ino} else I)"
    using ended_wp [OF e sfs_remove_wp [OF tree d]] by auto
  have ino: "ino \<noteq> 1" using tree_okD(4) [OF tree j(1)] by simp
  have "forgets ((volume_of s I)\<lparr>vol_names := (names_of s)(n := None)\<rparr>) ino (volume_of s' J)"
  proof (cases "J = I")
    case True
    then show ?thesis using volume_names [of s I s'] j by (simp add: forgets_def)
  next
    case False
    then have J: "J = I - {ino}" using j(6) by (auto split: if_splits)
    have "ran (names_of s') \<subseteq> J - {1}" using j(2) by (simp add: tree_ok_def)
    then have "ino \<notin> ran ((names_of s)(n := None))" using J j(4) by auto
    moreover have "volume_of s' J = \<lparr>vol_names = (names_of s)(n := None), vol_data = (vol_data (volume_of s I))(ino := None)\<rparr>"
      using volume_drop [OF _ ino] j(3,4) J by simp
    ultimately show ?thesis by (simp add: forgets_def)
  qed
  then show ?thesis using None j unfolding simulated_def by (intro exI [of _ J]) auto
qed

lemma sim_link:
  assumes tree: "tree_inv s I" and d: "root_at s d dv" "dir_has_room dv" "0 \<notin> set n" and f: "file_at s vp sv"
    and e: "ended (sfs_link d n vp s) r s'"
  shows "simulated s I (Link n (sv_ino sv)) r s'"
proof -
  have v: "sfs_heap s vp = Some sv" "sv_ino sv \<noteq> 1" "sv_ino sv \<in> I" "dir_nslots (sv_i dv) < 1144"
    using f d(2) fs_inv_vnode(2) [OF tree_okD(1) [OF tree]] by (auto simp: file_at_def dir_has_room_def)
  note w = ended_wp [OF e sfs_link_wp [OF tree d(1,3) v(4,1,2)]]
  show ?thesis
  proof (cases r)
    case (Some x)
    then show ?thesis using w by (auto intro!: simulated_skip)
  next
    case None
    then have "names_of s n = None" "tree_inv s' I" "names_of s' = (names_of s)(n \<mapsto> sv_ino sv)" "contents_same s I s'"
      "biglock_depth s' = biglock_depth s" using w by auto
    then show ?thesis using None v volume_names [of s I s'] unfolding simulated_def by (intro exI [of _ I]) auto
  qed
qed

lemma sim_rename:
  assumes tree: "tree_inv s I" and d: "root_at s d dv" "dir_has_room dv" "0 \<notin> set n2"
    and e: "ended (sfs_rename d n1 d n2 s) r s'"
  shows "simulated s I (Rename n1 n2) r s'"
proof -
  have sp: "dir_nslots (sv_i dv) < 1144" using d(2) by (simp add: dir_has_room_def)
  note w = ended_wp [OF e sfs_rename_wp [OF tree d(1,3) sp]]
  show ?thesis
  proof (cases r)
    case (Some x)
    then show ?thesis using w by (auto intro!: simulated_skip)
  next
    case None
    then obtain ino where "names_of s n1 = Some ino" "names_of s n2 = None" "tree_inv s' I"
      "names_of s' = (names_of s)(n2 \<mapsto> ino, n1 := None)" "contents_same s I s'" "biglock_depth s' = biglock_depth s"
      using w by auto
    then show ?thesis using None volume_names [of s I s'] unfolding simulated_def by (intro exI [of _ I]) auto
  qed
qed

lemma sim_lookup:
  assumes tree: "tree_inv s I" and d: "root_at s d dv" and e: "ended (sfs_lookup d n s) r s'"
  shows "simulated s I (Lookup n) r s'"
  using ended_wp [OF e sfs_lookup_wp [OF tree d]]
  by (cases r) (auto intro!: simulated_skip split: if_splits)


lemma sim_read:
  assumes tree: "tree_inv s I" and f: "file_at s vp sv" "file_size (sv_i sv) \<le> 143 * 512" and u: "io_request UIO_READ u off"
    and e: "ended (sfs_read vp (s, u)) r (s', u')"
  shows "simulated s I (Read (sv_ino sv)) r s'"
proof -
  have v: "sfs_heap s vp = Some sv" and u': "uio_ok u" "uio_rw u = UIO_READ" "uio_offset u = int off"
    using f u by (simp_all add: file_at_def io_request_def)
  have d: "dev_step s s'"
    using ended_wp_pair [OF e sfs_read_wp [OF tree_okD(1) [OF tree] v f(2) u']] by (auto split: option.splits)
  note t = tree_dev [OF tree d]
  have "contents_same s I s'" by (rule contents_files [OF t(4) fs_inv_zero [OF tree_okD(1) [OF tree]]])
  then show ?thesis using t dev_step_sel(5) [OF d] by (intro simulated_skip) auto
qed

lemma simulated_one:
  assumes tree: "tree_inv s I" and f: "file_at s vp sv" and st: "fs_inv s' I" "others_same s I (sv_ino sv) s'" "vn_moved s vp sv s'"
    and step: "vol_step (volume_of s I) c r ((volume_of s I)\<lparr>vol_data :=
      (vol_data (volume_of s I))(sv_ino sv \<mapsto> file_bytes s' (inode_of s' (sv_ino sv)))\<rparr>)"
  shows "simulated s I c r s'"
proof -
  have v: "sfs_heap s vp = Some sv" "sv_ino sv \<noteq> 1" using f by (simp_all add: file_at_def)
  note i = fs_inv_vnode(2,3) [OF tree_okD(1) [OF tree] v(1)]
  have "tree_inv s' I" "names_of s' = names_of s" "biglock_depth s' = biglock_depth s"
    using tree_one [OF tree st(1,2) i(1) v(2)] i(2) st(3) by (auto simp: vn_moved_def)
  then show ?thesis using volume_one [OF st(2) i(1) v(2)] step unfolding simulated_def by (intro exI [of _ I]) auto
qed

lemma spliced_bytes:
  assumes "f' = bytes_upd f off bs" and "n' = max n (off + length bs)"
  shows "spliced (map f [0..<n]) off bs (map f' [0..<n'])"
  using assms by (auto simp: spliced_def bytes_upd_def intro!: nth_equalityI)

lemma uio_drain_data: "uio_drain bs u u' \<Longrightarrow> length bs = uio_resid u \<Longrightarrow> bs = uio_data u"
  by (simp add: uio_drain_def uio_data_def)

lemma sim_write:
  assumes tree: "tree_inv s I" and f: "file_at s vp sv" and u: "io_request UIO_WRITE u off"
    and lim: "off < 143 * 512" "off + uio_resid u \<le> 143 * 512"
    and e: "ended (sfs_write vp (s, u)) r (s', u')"
  shows "simulated s I (Write (sv_ino sv) off (uio_data u)) r s'"
proof -
  have v: "sfs_heap s vp = Some sv" "sv_ino sv \<noteq> 1" and u': "uio_ok u" "uio_rw u = UIO_WRITE" "uio_offset u = int off"
    using f u by (simp_all add: file_at_def io_request_def)
  note i = fs_inv_vnode(2,3) [OF tree_okD(1) [OF tree] v(1)]
  note w = ended_wp_pair [OF e sfs_write_wp [OF tree_okD(1) [OF tree] v(1) u' lim(2,1)]]
  have "fs_inv s' I" "others_same s I (sv_ino sv) s'" "vn_moved s vp sv s'" using w by (auto split: option.splits)
  moreover have "spliced (file_bytes s (sv_i sv)) off (uio_data u) (file_bytes s' (inode_of s' (sv_ino sv)))" if rn: "r = None"
  proof -
    obtain bs where "length bs = uio_resid u" "uio_drain bs u u'"
      and f': "file_byte s' (inode_of s' (sv_ino sv)) = bytes_upd (file_byte s (sv_i sv)) off bs"
        "file_size (inode_of s' (sv_ino sv)) = max (file_size (sv_i sv)) (off + length bs)"
      using w by (auto simp: rn)
    then have "uio_data u = bs" using uio_drain_data by blast
    then show ?thesis unfolding file_bytes_def using spliced_bytes [OF f'] by simp
  qed
  ultimately show ?thesis using i v(2) by (intro simulated_one [OF tree f]) auto
qed

lemma trunc_blocks_nat: "len + 511 < 2 ^ 32 \<Longrightarrow> trunc_blocks (int len) = (len + 511) div 512"
proof -
  assume l: "len + 511 < 2 ^ 32"
  have "(int len + 511) sdiv 512 = int ((len + 511) div 512)" by (simp add: signed_divide_int_def zdiv_int)
  moreover have "(len + 511) div 512 < 2 ^ 32" using l by (simp add: less_mult_imp_div_less)
  ultimately show ?thesis by (simp add: trunc_blocks_def del: of_nat_add)
qed

lemma trunc_keeps_bytes:
  assumes t: "truncated s vp sv (int len) s' sv'" and ok: "file_ok s (sv_i sv)" and len: "len \<le> file_size (sv_i sv)"
    and big: "len + 511 < 2 ^ 32"
  shows "file_bytes s' (sv_i sv') = take len (file_bytes s (sv_i sv))"
proof -
  let ?i = "(sv_i sv')\<lparr>sfi_size := sfi_size (sv_i sv)\<rparr>" and ?D = "trunc_drops ((len + 511) div 512)"
  have sh: "file_shrink s (sv_i sv) ?D s' ?i" and sz: "file_size (sv_i sv') = len"
    using t trunc_blocks_nat [OF big] big by (simp_all add: truncated_def unat_of_nat)
  have "file_byte s' (sv_i sv') x = file_byte s (sv_i sv) x" if x: "x < len" for x
  proof -
    let ?b = "bmap_of s (sv_i sv) (x div 512)"
    have "bmap_of s' (sv_i sv') = bmap_of s' ?i" by (intro ext) (simp add: bmap_of_def idbuf_of_def)
    moreover have "x div 512 \<notin> ?D" using x by (auto simp: trunc_drops_def)
    ultimately have b: "bmap_of s' (sv_i sv') (x div 512) = ?b" using sh by (simp add: file_shrink_def)
    have "?b = 0 \<or> ?b \<noteq> unat (sfi_indirect (sv_i sv))"
      using file_refs_used [OF ok] bmap_of_big by (cases "x div 512 < 143") blast+
    then have "sect s' ?b = sect s ?b" using sh by (auto simp: file_shrink_def)
    then show ?thesis by (simp add: file_byte_def Let_def b)
  qed
  then show ?thesis using sz len by (auto simp: file_bytes_def intro!: nth_equalityI)
qed

lemma truncated_moved:
  assumes "truncated (vfs_biglock_acquire s) vp sv len (vfs_biglock_acquire s') sv'" "biglock_depth s' = biglock_depth s"
    "inode_of s' (sv_ino sv) = sv_i sv'"
  shows "vn_moved s vp sv s'"
  using assms by (auto simp: truncated_def vn_moved_def file_shrink_def same_meta_def)

lemma sim_truncate:
  assumes tree: "tree_inv s I" and f: "file_at s vp sv" and len: "len \<le> file_size (sv_i sv)" "len + 511 < 2 ^ 32"
    and e: "ended (sfs_truncate vp (int len) s) r s'"
  shows "simulated s I (Truncate (sv_ino sv) len) r s'"
proof -
  have v: "sfs_heap s vp = Some sv" "sv_ino sv \<noteq> 1" using f by (simp_all add: file_at_def)
  note i = fs_inv_vnode(2,3) [OF tree_okD(1) [OF tree] v(1)]
  obtain sv' where r: "r = None" "biglock_depth s' = biglock_depth s"
    "truncated (vfs_biglock_acquire s) vp sv (int len) (vfs_biglock_acquire s') sv'" "fs_inv s' I"
    "others_same s I (sv_ino sv) s'" "inode_of s' (sv_ino sv) = sv_i sv'"
    using sfs_truncate_any_inv [OF tree_okD(1) [OF tree] v(1), of "int len"] e by auto
  have "file_bytes s' (sv_i sv') = take len (file_bytes s (sv_i sv))"
    using trunc_keeps_bytes [OF r(3)] fs_inv_vnode(1) [OF tree_okD(1) [OF tree] v(1)] len
    by (simp add: file_bytes_def vfs_biglock_acquire_def)
  then show ?thesis
    using i v(2) r by (intro simulated_one [OF tree f r(4,5) truncated_moved [OF r(3,2,6)]]) auto
qed

lemma sim_fsync:
  assumes tree: "tree_inv s I" and f: "file_at s vp sv" and e: "ended (sfs_fsync vp s) r s'"
  shows "simulated s I (Fsync (sv_ino sv)) r s'"
proof -
  let ?s = "vfs_biglock_acquire s"
  have v: "sfs_heap ?s vp = Some sv" using f by (simp add: file_at_def)
  have tree': "tree_inv ?s I" using tree by simp
  obtain t where t: "sfs_sync_inode vp ?s = Ok () t" "fs_inv t I" "files_same s I t" "biglock_depth t = Suc (biglock_depth s)"
    using out_wp_total [OF sfs_sync_inode_wp [OF tree_okD(1) [OF tree'] v]] by (auto simp: fs_frame_def)
  have s': "s' = t\<lparr>biglock_depth := biglock_depth s\<rparr>"
    using e t(1,4) by (simp add: sfs_fsync_def ret_unlock_eq)
  have "tree_inv s' I" "names_of s' = names_of s"
    using tree_keep [OF tree t(2,3)] tree_okD(2) [OF tree] s' by auto
  moreover have "contents_same s I s'"
    using contents_files [of s I s'] t(3) fs_inv_zero [OF tree_okD(1) [OF tree]] s' by simp
  ultimately show ?thesis using s' by (intro simulated_skip) auto
qed

lemma sim_decref:
  assumes tree: "tree_inv s I" and f: "file_at s vp sv" and c: "vn_refcount sv > 1 \<or> vn_opencount sv = 0"
    and e: "ended (vnode_decref vp s) r s'"
  shows "simulated s I (Decref (sv_ino sv)) r s'"
proof -
  let ?n = "sv_ino sv" and ?J = "inodes_after I sv"
  have v: "sfs_heap s vp = Some sv" "?n \<noteq> 1" using f by (simp_all add: file_at_def)
  have t: "r = None" "tree_inv s' ?J" "names_of s' = names_of s" "contents_same s ?J s'" "biglock_depth s' = biglock_depth s"
    using ended_wp [OF e tree_decref_wp [OF tree v]] c by (auto split: option.splits)
  have "forgets (volume_of s I) ?n (volume_of s' ?J)"
  proof (cases "?J = I")
    case True
    then show ?thesis using volume_same [of s I s'] t by (simp add: forgets_def)
  next
    case False
    then have J: "?J = I - {?n}" by (auto simp: inodes_after_def inodes_left_def split: if_splits)
    have "ran (names_of s') \<subseteq> ?J - {1}" using t(2) by (simp add: tree_ok_def)
    then show ?thesis using volume_drop [of s I ?n s'] v(2) t J by (auto simp: forgets_def volume_of_def)
  qed
  then show ?thesis using t unfolding simulated_def by (intro exI [of _ ?J]) auto
qed


lemma step_simulated:
  assumes "sfs_step s c r s'" and "tree_inv s I"
  shows "simulated s I c r s'"
  using assms(1)
  by (cases rule: sfs_step.cases)
    (blast intro: sim_creat [OF assms(2)] sim_remove [OF assms(2)] sim_link [OF assms(2)] sim_rename [OF assms(2)]
      sim_lookup [OF assms(2)] sim_read [OF assms(2)] sim_write [OF assms(2)] sim_truncate [OF assms(2)]
      sim_fsync [OF assms(2)] sim_decref [OF assms(2)])+

lemma run_simulated:
  assumes "sfs_run s cs s'" and "tree_inv s I"
  shows "\<exists>J. tree_inv s' J \<and> biglock_depth s' = biglock_depth s \<and> vol_run (volume_of s I) cs (volume_of s' J)"
  using assms
proof (induction arbitrary: I rule: sfs_run.induct)
  case (run_Nil s)
  then show ?case by (auto intro: vol_Nil)
next
  case (run_Cons s c r s' cs s'')
  then obtain J where J: "tree_inv s' J" "biglock_depth s' = biglock_depth s" "vol_step (volume_of s I) c r (volume_of s' J)"
    using step_simulated [OF run_Cons.hyps(1) run_Cons.prems] by (auto simp: simulated_def)
  then show ?case using run_Cons.IH [OF J(1)] by (auto intro: vol_Cons)
qed

end
