(* ===== verification/SfsExample.thy ===== *)
theory SfsExample
  imports SfsRun
begin

text \<open>
  A small mounted filesystem that satisfies the invariants: sixteen blocks, the root directory with
  one entry \<open>a\<close>, and the file \<open>a\<close> holding the five bytes of \<open>hello\<close>. It instantiates the hypotheses of
  the theorems about SFS.
\<close>

definition ex_root :: sfs_inode where
  "ex_root = \<lparr>sfi_size = 64, sfi_type = 2, sfi_linkcount = 1, sfi_direct = 5 # replicate 14 0,
     sfi_indirect = 0, sfi_waste = replicate 110 0\<rparr>"

definition ex_file :: sfs_inode where
  "ex_file = \<lparr>sfi_size = 5, sfi_type = 1, sfi_linkcount = 1, sfi_direct = 4 # replicate 14 0,
     sfi_indirect = 0, sfi_waste = replicate 110 0\<rparr>"

definition ex_sect :: "nat \<Rightarrow> u8 list" where
  "ex_sect = (\<lambda>_. replicate 512 0)
     (1 := inode_bytes ex_root, 3 := inode_bytes ex_file, 4 := [104, 101, 108, 108, 111] @ replicate 507 0,
      5 := dir_bytes (new_entry [97] 3) @ replicate 448 0)"

definition ex_dev :: lhd where
  "ex_dev = \<lparr>d_blocks = 16, d_blocksize = 512, lh_sectors = ex_sect, lh_hw = [], lh_stat = 0, lh_sect = 0,
     lh_buf = replicate 512 0, lh_result = None, lh_clear = 1, lh_done = 0\<rparr>"

definition ex_root_vn :: sfs_vnode where
  "ex_root_vn = \<lparr>vn_ops = sfs_dirops, vn_refcount = 1, vn_opencount = 0, sv_i = ex_root, sv_ino = 1, sv_dirty = False\<rparr>"

definition ex_file_vn :: sfs_vnode where
  "ex_file_vn = \<lparr>vn_ops = sfs_fileops, vn_refcount = 1, vn_opencount = 0, sv_i = ex_file, sv_ino = 3, sv_dirty = False\<rparr>"

definition ex_fs :: sfs_fs where
  "ex_fs = \<lparr>sfs_super = \<lparr>sp_magic = SFS_MAGIC, sp_nblocks = 16, sp_volname = replicate 32 0, sp_reserved = replicate 118 0\<rparr>,
     sfs_superdirty = False, sfs_device = ex_dev, sfs_vnodes = \<lparr>arr_v = [0, 1], arr_num = 2, arr_max = 2\<rparr>,
     sfs_freemap = \<lparr>nbits = 16, bm_v = [63, 0]\<rparr>, sfs_freemapdirty = False,
     sfs_heap = [0 \<mapsto> ex_root_vn, 1 \<mapsto> ex_file_vn], sfs_brk = 2, km_fail = [], biglock_depth = 1\<rparr>"

lemma ex_inode_wf [simp]: "inode_wf ex_root" "inode_wf ex_file"
  by (simp_all add: inode_wf_def ex_root_def ex_file_def)

lemma ex_fs_sel [simp]:
  "sfs_device ex_fs = ex_dev" "sect ex_fs = ex_sect" "fs_nblocks ex_fs = 16" "biglock_depth ex_fs = 1"
  "array_list (sfs_vnodes ex_fs) = [0, 1]" "sfs_heap ex_fs = [0 \<mapsto> ex_root_vn, 1 \<mapsto> ex_file_vn]"
  "sfs_brk ex_fs = 2" "nbits (sfs_freemap ex_fs) = 16" "sv_i ex_root_vn = ex_root" "sv_i ex_file_vn = ex_file"
  "sv_ino ex_root_vn = 1" "sv_ino ex_file_vn = 3" "lh_sectors ex_dev = ex_sect"
  by (simp_all add: ex_fs_def ex_dev_def array_list_def ex_root_vn_def ex_file_vn_def)

lemma nat_less_16: "(i::nat) < 16 \<longleftrightarrow> i \<in> {0, 1, 2, 3, 4, 5, 6, 7, 8, 9, 10, 11, 12, 13, 14, 15}"
  by (simp, presburger)

lemma ex_used: "fs_used ex_fs = {0, 1, 2, 3, 4, 5}"
proof -
  have "i \<in> fs_used ex_fs \<longleftrightarrow> i \<in> {0, 1, 2, 3, 4, 5}" for i
  proof (cases "i < 16")
    case True
    then show ?thesis unfolding nat_less_16
      by (auto simp: bitmap_used_def bm_bit_def ex_fs_def bit_numeral_rec)
  qed (auto simp: bitmap_used_def)
  then show ?thesis by blast
qed

lemma ex_name: "name_ok [97]" "length (dir_bytes (new_entry [97] 3)) = 64"
  "dname (new_entry [97] 3) = [97]" "dlive (new_entry [97] 3)" "unat (sfd_ino (new_entry [97] 3)) = 3"
proof -
  show n: "name_ok [97]" by (simp add: name_ok_def)
  show "length (dir_bytes (new_entry [97] 3)) = 64" "dname (new_entry [97] 3) = [97]"
    using new_entry_name [OF n] by simp_all
  show "dlive (new_entry [97] 3)" "unat (sfd_ino (new_entry [97] 3)) = 3"
    using new_entry_live [of 3 "[97]"] by simp_all
qed

lemma ex_fs_ok: "fs_ok ex_fs"
proof -
  have "length (ex_sect b) = 512" for b by (simp add: ex_sect_def ex_name)
  then have "dev_ok ex_fs" by (simp add: dev_ok_def lhd_inv_def lhd_healthy_def ex_dev_def)
  moreover have "bitmap_inv (sfs_freemap ex_fs)" by (auto simp: bitmap_inv_def ex_fs_def)
  ultimately show ?thesis using ex_used by (simp add: fs_ok_def) (simp add: ex_dev_def)
qed

lemma ex_bmap: "bmap_of ex_fs ex_root = (\<lambda>x. if x = 0 then 5 else 0)" "bmap_of ex_fs ex_file = (\<lambda>x. if x = 0 then 4 else 0)"
  by (rule ext, simp add: bmap_of_def idbuf_of_def ex_root_def ex_file_def nth_Cons')+

lemma ex_refs: "file_refs ex_fs ex_root = {5}" "file_refs ex_fs ex_file = {4}"
  by (auto simp: file_refs_def ex_bmap) (simp_all add: ex_root_def ex_file_def)

lemma ex_file_ok: "file_ok ex_fs ex_root" "file_ok ex_fs ex_file"
  by (simp_all add: file_ok_def ex_bmap ex_refs ex_used) (simp_all add: ex_root_def ex_file_def)

lemma ex_inode_of: "inode_of ex_fs 1 = ex_root" "inode_of ex_fs 3 = ex_file"
  by (simp_all add: inode_of_def vnode_has_def)

lemma ex_fs_inv: "fs_inv ex_fs {1, 3}"
proof -
  have sz: "array_inv (sfs_vnodes ex_fs)" by (simp add: array_inv_def ex_fs_def)
  have "table_ok ex_fs" using sz by (auto simp: table_ok_def loaded_def split: if_splits)
  moreover have "vnode_ok ex_fs ex_root_vn" "vnode_ok ex_fs ex_file_vn"
    by (simp_all add: vnode_ok_def ex_sect_def ex_root_vn_def ex_file_vn_def) (simp_all add: ex_root_def ex_file_def)
  moreover have "inodes_ok ex_fs {1, 3} (inode_of ex_fs)"
    using ex_file_ok ex_refs ex_used ex_inode_of by (simp add: inodes_ok_def) (simp add: ex_root_def ex_file_def)
  moreover have "fs_ok (ex_fs\<lparr>biglock_depth := 1\<rparr>)" by (rule fs_ok_depth [OF ex_fs_ok]) simp
  ultimately show ?thesis by (auto simp: fs_inv_def split: if_splits)
qed

lemma ex_slots: "dir_slots ex_fs ex_root = [new_entry [97] 3]"
proof -
  have "map (file_byte ex_fs ex_root) [0..<64] = dir_bytes (new_entry [97] 3)"
    by (rule nth_equalityI) (auto simp: ex_name file_byte_def ex_bmap ex_sect_def nth_append)
  then have "slot_of (file_byte ex_fs ex_root) 0 = new_entry [97] 3"
    using new_entry_name(2) [OF ex_name(1), of 3] by (simp add: slot_of_def)
  moreover have "dir_nslots ex_root = 1" by (simp add: dir_nslots_def ex_root_def)
  ultimately show ?thesis by (simp add: dir_slots_def)
qed

lemma ex_names: "names_of ex_fs = [[97] \<mapsto> 3]"
proof -
  have "dir_map [new_entry [97] 3] n = (if n = [97] then Some 3 else None)" for n
    using ex_name by (auto simp: dir_map_def dir_found_def)
  then show ?thesis using ex_inode_of ex_slots by (auto simp: names_of_def)
qed

lemma ex_tree_inv: "tree_inv ex_fs {1, 3}"
proof -
  have "dir_unique [new_entry [97] 3]" by (simp add: dir_unique_def)
  then have "root_ok ex_fs ex_root" using ex_slots by (simp add: root_ok_def) (simp add: ex_root_def)
  moreover have "links_of (names_of ex_fs) 3 = 1"
    using links_insert [of Map.empty "[97]" 3 3] by (simp add: ex_names links_of_def)
  moreover have "ran (names_of ex_fs) = {3}" by (simp add: ex_names)
  ultimately show ?thesis
    using ex_fs_inv ex_inode_of by (simp add: tree_ok_def) (simp add: ex_file_def)
qed

lemma ex_root_at: "root_at ex_fs 0 ex_root_vn"
  by (simp add: root_at_def)

end
