(* ===== verification/VfsRun.thy ===== *)
theory VfsRun
  imports VfsTable SfsExample
begin

text \<open>
  The VFS layer from startup on: what device names stand for, what a path name leads to in a volume, and the flaws of the table.
\<close>

section \<open>The table from startup on\<close>

lemma big_acquire_sel:
  "knowndevs (big_acquire s) = knowndevs s" "names (big_acquire s) = names s" "0 < big_depth (big_acquire s)" "vol_name (big_acquire s) = vol_name s" "v_vol (big_acquire s) = v_vol s"
proof -
  show v: "v_vol (big_acquire s) = v_vol s" by (simp add: big_acquire_def)
  show "names (big_acquire s) = names s" by (rule names_cong [OF v])
  show "vol_name (big_acquire s) = vol_name s" by (simp add: fun_eq_iff vol_name_def v)
qed (simp_all add: big_acquire_def)

text \<open>The volume that was mounted does not bear a name of another device.\<close>

definition fresh_volume :: "vfs \<Rightarrow> vfs \<Rightarrow> bool" where
  "fresh_volume s t \<longleftrightarrow> (\<forall>i d j. mounted i d s t \<longrightarrow> j < length (knowndevs s) \<longrightarrow> j \<noteq> i \<longrightarrow> vol_name t d \<notin> names s (knowndevs s ! j))"

text \<open>The operations on the table. A device or file system object is added once.\<close>

inductive table_step :: "vfs \<Rightarrow> vfs \<Rightarrow> bool" where
  adddev: "d \<notin> objects s \<Longrightarrow> ended (vfs_adddev n d m s) r t \<Longrightarrow> table_step s t"
| addfs: "f \<notin> objects s \<Longrightarrow> ended (vfs_addfs n f s) r t \<Longrightarrow> table_step s t"
| mount: "vfs_mount n sfs_mountfunc s = Ok () t \<Longrightarrow> fresh_volume s t \<Longrightarrow> table_step s t"
| mount_fails: "vfs_mount n sfs_mountfunc s = Err e t \<Longrightarrow> table_step s t"
| unmount: "ended (vfs_unmount n s) r t \<Longrightarrow> table_step s t"
| unmountall: "ended (vfs_unmountall s) r t \<Longrightarrow> table_step s t"
| sync: "ended (vfs_sync s) r t \<Longrightarrow> table_step s t"

lemma good_ended: "good_end s m \<Longrightarrow> ended m r t \<Longrightarrow> dev_table t \<and> big_depth t = big_depth s"
  by (cases m) (auto simp: good_end_def)

lemma table_step_inv: "table_step s t \<Longrightarrow> dev_table s \<Longrightarrow> dev_table t \<and> big_depth t = big_depth s"
proof (induction rule: table_step.induct)
  case (adddev d s n m r t)
  then show ?case using good_ended [OF doadd_good [of s "Some d" None m n]] by (simp add: vfs_adddev_def)
next
  case (addfs f s n r t)
  then show ?case using good_ended [OF doadd_good [of s None "Some f" False n]] by (simp add: vfs_addfs_def)
next
  case (mount n s t)
  obtain i d where m: "mounted i d s t" using sfs_mount.mount_cases(2) [OF mount(3,1)] by blast
  then have "dev_table t" using mounted_table [OF mount(3) m] mount(2) unfolding fresh_volume_def by blast
  then show ?case using m by (simp add: mounted_def)
next
  case (mount_fails n s e t)
  then show ?case using sfs_mount.mount_cases(1) by blast
next
  case (unmount n s r t)
  then show ?case using good_ended [OF unmount_good] by blast
next
  case (unmountall s r t)
  then show ?case using good_ended [OF unmountall_good] by blast
next
  case (sync s r t)
  then show ?case using good_ended [OF sync_good] by blast
qed

lemma bootstrap_inv:
  assumes "vfs_bootstrap dev s = Ok () t"
  shows "dev_table t" "big_depth t = 0"
proof -
  have n: "dev_table u \<and> big_depth u = 0" if "devnull_create dev v = Ok () u" "knowndevs v = []" "big_depth v = 0" for u v
  proof -
    obtain m w where w: "km_take v = (m, w)" by (cases "km_take v")
    let ?w = "w\<lparr>dev_blocks := (dev_blocks w)(dev := 0), dev_blocksize := (dev_blocksize w)(dev := 1), d_devnumber := (d_devnumber w)(dev := 0), d_open := (d_open w)(dev := \<lambda>_. None)\<rparr>"
    have k: "knowndevs ?w = []" "big_depth ?w = 0" using km_take_same [OF w] that(2,3) by (simp_all add: same_table_def)
    then have "good_end ?w (vfs_adddev [110, 117, 108, 108] dev False ?w)"
      unfolding vfs_adddev_def by (intro doadd_good) (simp_all add: dev_table_def objects_def)
    moreover have "vfs_adddev [110, 117, 108, 108] dev False ?w = Ok () u" using that(1) w by (auto simp: devnull_create_def Let_def split: if_splits out.splits)
    ultimately show ?thesis using k by (simp add: good_end_def)
  qed
  show "dev_table t" "big_depth t = 0" using assms n
    by (auto simp: vfs_bootstrap_def Let_def split: if_splits prod.splits)
qed

lemma table_run_inv: "table_step\<^sup>*\<^sup>* s t \<Longrightarrow> dev_table s \<Longrightarrow> dev_table t \<and> big_depth t = big_depth s"
  by (induction rule: rtranclp_induct) (auto dest: table_step_inv)

section \<open>Path names\<close>

lemma first_sep_device: "COLON \<notin> set n \<Longrightarrow> SLASH \<notin> set n \<Longrightarrow> first_sep i (n @ COLON # r) = (Some (i + length n), None)"
  by (induction n arbitrary: i) auto

lemma getdevice_device:
  assumes "n \<noteq> []" "COLON \<notin> set n" "SLASH \<notin> set n" "0 < big_depth s"
  shows "getdevice (n @ COLON # replicate k SLASH @ p) s = kbind (vfs_getroot n s) (\<lambda>vn s. Ok (vn, skip_slashes p) s)"
proof -
  obtain i where i: "length n = Suc i" using assms(1) by (cases n) auto
  have "skip_slashes (replicate k SLASH @ p) = skip_slashes p" by (induction k) (simp_all add: skip_slashes_def)
  then show ?thesis using first_sep_device [OF assms(2,3), of 0 "replicate k SLASH @ p"] assms(4) i by (simp add: getdevice_def)
qed

section \<open>Looking up a file\<close>

text \<open>The rule for a call of a volume.\<close>

definition vol_back :: "nat \<Rightarrow> sfs_fs \<Rightarrow> vfs \<Rightarrow> vfs" where
  "vol_back f u s = s\<lparr>v_vol := (v_vol s)(f := u\<lparr>biglock_depth := biglock_depth (v_vol s f)\<rparr>), big_depth := biglock_depth u\<rparr>"

definition vol_lent :: "nat \<Rightarrow> vfs \<Rightarrow> sfs_fs" where
  "vol_lent f s = (v_vol s f)\<lparr>biglock_depth := big_depth s\<rparr>"

lemma on_vol_eq: "on_vol f g s = (case g (vol_lent f s) of Ok a u \<Rightarrow> Ok a (vol_back f u s) | Err e u \<Rightarrow> Err e (vol_back f u s) | Panic \<Rightarrow> Panic)"
  by (simp add: on_vol_def vol_back_def vol_lent_def Let_def split: out.split)

lemma vol_lent_back [simp]: "vol_lent f (vol_back f u s) = u" "big_depth (vol_back f u s) = biglock_depth u" "vol_back f v (vol_back f u s) = vol_back f v s"
  by (simp_all add: vol_lent_def vol_back_def)

text \<open>The root is in memory: it is found again, with one reference more.\<close>

lemma getroot_loaded:
  assumes tree: "tree_inv s I" and r: "root_at s d dv"
  shows "sfs_getroot s = Ok d (vn_put d (dv\<lparr>vn_refcount := vn_refcount dv + 1\<rparr>) s)"
proof -
  let ?s = "vfs_biglock_acquire s"
  have inv: "fs_inv ?s I" and h: "sfs_heap ?s d = Some dv" "sv_ino dv = 1" using tree r tree_okD(1) [of ?s I "{}"] by (auto simp: root_at_def)
  have "d \<in> set (array_list (sfs_vnodes ?s))" using table_heap [OF fs_invD(3) [OF inv]] h(1) by blast
  moreover have "vnode_has ?s 1 d" using h by (simp add: vnode_has_def)
  ultimately have "List.find (vnode_has ?s 1) (array_list (sfs_vnodes ?s)) \<noteq> None" by (auto simp: find_None_iff simp del: not_None_eq)
  then obtain vq where vq: "List.find (vnode_has ?s 1) (array_list (sfs_vnodes ?s)) = Some vq" by blast
  then have "vnode_has ?s 1 vq" by (auto simp: find_Some_iff)
  then have "vq = d" using h fs_invD(3) [OF inv] by (auto simp: vnode_has_def table_ok_def split: option.splits)
  then have se: "vnode_search 0 (array_num (sfs_vnodes ?s)) 1 ?s = Ok (Some d) ?s"
    using vnode_search_eq [OF inv, of 0 "array_num (sfs_vnodes ?s)" 1] vq by (simp add: array_num_def)
  have "sfs_loadvnode SFS_ROOT_LOCATION SFS_TYPE_INVAL ?s = Ok d (vn_put d (dv\<lparr>vn_refcount := vn_refcount dv + 1\<rparr>) ?s)"
    using se vnode_incref_eq [OF h(1)] by (simp add: sfs_loadvnode_def)
  then show ?thesis by (simp add: sfs_getroot_def ret_unlock_def vfs_biglock_release_def vn_put_def vfs_biglock_acquire_def)
qed

lemma tree_refcount:
  assumes "tree_inv s I" "sfs_heap s d = Some dv" "1 \<le> r" "0 < biglock_depth s"
  shows "tree_inv (vn_put d (dv\<lparr>vn_refcount := r\<rparr>) s) I" "names_of (vn_put d (dv\<lparr>vn_refcount := r\<rparr>) s) = names_of s"
  using tree_keep [OF assms(1) refcount_inv [OF tree_okD(1) [OF assms(1)] assms(2,4,3)]] tree_okD(2) [OF assms(1)] by auto

lemma lookup_vop:
  assumes tree: "tree_inv u I" and r: "root_at u d dv"
  shows "vop d ''lookup'' sfs_notdir (sfs_lookup d p) u = sfs_lookup d p u"
proof -
  have h: "sfs_heap u d = Some dv" "sv_ino dv = 1" using r by (simp_all add: root_at_def)
  have v: "vnode_ok u dv" using fs_invD(5) [OF tree_okD(1) [OF tree] h(1)] .
  have "sfi_type (sv_i dv) = SFS_TYPE_DIR"
    using fs_inv_vnode(3) [OF tree_okD(1) [OF tree] h(1)] h(2) tree_okD(3) [OF tree] by (simp add: root_ok_def)
  then have "vn_ops dv = sfs_dirops" "0 < vn_refcount dv" "0 \<le> vn_opencount dv" using v by (auto simp: vnode_ok_def)
  then show ?thesis using h(1)
    by (simp add: vop_def vnode_check_def vn_get_def vfs_biglock_acquire_def vfs_biglock_release_def Let_def)
qed

text \<open>Giving up the second reference of a vnode.\<close>

lemma decref_second:
  assumes "sfs_heap u d = Some dv" "1 < vn_refcount dv"
  shows "vnode_decref d u = Ok () (vn_put d (dv\<lparr>vn_refcount := vn_refcount dv - 1\<rparr>) u)"
  using assms by (simp add: vnode_decref_def vn_get_def vn_put_def vfs_biglock_acquire_def vfs_biglock_release_def)

text \<open>A path name with a device starts at the root of its volume, with a reference to it.\<close>

lemma getdevice_volume:
  assumes T: "dev_table s" "0 < big_depth s" and i: "i < length (knowndevs s)" "kd_fs (knowndevs s ! i) = Some f"
    and n: "n = kd_name (knowndevs s ! i) \<or> n = vol_name s f" "n \<noteq> []" "COLON \<notin> set n" "SLASH \<notin> set n" and p: "p \<noteq> []" "hd p \<noteq> SLASH"
    and tree: "tree_inv (v_vol s f) I" and r: "root_at (v_vol s f) d dv"
  shows "getdevice (n @ COLON # replicate k SLASH @ p) s =
    Ok (FsVn f d, p) (vol_back f (vn_put d (dv\<lparr>vn_refcount := vn_refcount dv + 1\<rparr>) (vol_lent f s)) s)"
proof -
  have "n \<in> names s (knowndevs s ! i)" using n(1) i(2) by (auto simp: names_def)
  then have "vfs_getroot n s = resolved (knowndevs s ! i) n s" using getroot_resolves(1) [OF T i(1)] by simp
  also have "\<dots> = FSOP_GETROOT f s" using i(2) n(1) by (auto simp: resolved_def)
  also have "\<dots> = Ok (FsVn f d) (vol_back f (vn_put d (dv\<lparr>vn_refcount := vn_refcount dv + 1\<rparr>) (vol_lent f s)) s)"
    using getroot_loaded [of "vol_lent f s" I d dv] tree r by (simp add: FSOP_GETROOT_def on_vol_eq) (simp add: vol_lent_def)
  finally show ?thesis using getdevice_device [OF n(2-4) T(2), of k p] p by (cases p) (simp_all add: skip_slashes_def)
qed

section \<open>Properties\<close>

text \<open>C2. Looking up \<open>device:name\<close> or \<open>volume:name\<close>, with any number of slashes after the colon, in a consistent volume returns a vnode of the file the name is
  bound to in that volume, \<open>ENOENT\<close> for a name that is not bound; names, link counts, references to the root and the lock are as before.\<close>

theorem vfs_lookup_file:
  assumes T: "dev_table s" and i: "i < length (knowndevs s)" "kd_fs (knowndevs s ! i) = Some f" and n: "n = kd_name (knowndevs s ! i) \<or> n = vol_name s f"
    and nn: "n \<noteq> []" "COLON \<notin> set n" "SLASH \<notin> set n" and p: "p \<noteq> []" "hd p \<noteq> SLASH"
    and tree: "tree_inv (v_vol s f) I" and r: "root_at (v_vol s f) d dv"
  shows "out_wp (vfs_lookup (n @ COLON # replicate k SLASH @ p) s)
    (\<lambda>v t. \<exists>x sv. v = FsVn f x \<and> sfs_heap (v_vol t f) x = Some sv \<and> names_of (v_vol s f) p = Some (sv_ino sv) \<and> x \<noteq> d \<and>
       tree_inv (v_vol t f) I \<and> names_of (v_vol t f) = names_of (v_vol s f) \<and> root_at (v_vol t f) d dv \<and> big_depth t = big_depth s)
    (\<lambda>e t. e = (if names_of (v_vol s f) p = None then ENOENT else ENOMEM) \<and>
       tree_inv (v_vol t f) I \<and> names_of (v_vol t f) = names_of (v_vol s f) \<and> root_at (v_vol t f) d dv \<and> big_depth t = big_depth s)"
proof -
  let ?s = "big_acquire s" and ?dv = "dv\<lparr>vn_refcount := vn_refcount dv + 1\<rparr>"
  define u where "u = vol_lent f ?s"
  have u: "tree_inv u I" "root_at u d dv" "names_of u = names_of (v_vol s f)" "biglock_depth u = Suc (big_depth s)"
    using tree r by (simp_all add: u_def vol_lent_def big_acquire_def)
  have rc: "1 \<le> vn_refcount dv" using fs_invD(5) [OF tree_okD(1) [OF tree]] r by (auto simp: root_at_def vnode_ok_def)
  define w where "w = vn_put d ?dv u"
  have ud: "sfs_heap u d = Some dv" "sv_ino dv = SFS_ROOT_LOCATION" using u(2) by (simp_all add: root_at_def)
  have w: "tree_inv w I" "names_of w = names_of u" "root_at w d ?dv" "biglock_depth w = Suc (big_depth s)"
    using tree_refcount [OF u(1) ud(1), of "vn_refcount dv + 1"] rc u(4) ud(2) by (simp_all add: w_def root_at_def vn_put_def)
  have d: "dev_table ?s" "0 < big_depth ?s" "vol_name ?s = vol_name s" "knowndevs ?s = knowndevs s" "v_vol ?s = v_vol s"
    using T by (simp_all add: big_acquire_sel)
  have g: "getdevice (n @ COLON # replicate k SLASH @ p) ?s = Ok (FsVn f d, p) (vol_back f w ?s)"
    unfolding w_def u_def using i n tree r by (intro getdevice_volume [OF d(1,2) _ _ _ nn p]) (simp_all add: d(3-5))
  have run: "vfs_lookup (n @ COLON # replicate k SLASH @ p) s = lookup_end (FsVn f d) (VOP_LOOKUP (FsVn f d) p (vol_back f w ?s))"
    using g p(1) by (simp add: vfs_lookup_def)
  have gv: "VOP_DECREF (FsVn f d) (vol_back f y ?s) = Ok () (vol_back f (vn_put d dv y) ?s)" if "root_at y d ?dv" for y
    using decref_second [of y d ?dv] that rc by (simp add: on_vol_eq root_at_def)
  have fin: "tree_inv (vn_put d dv y) I" "names_of (vn_put d dv y) = names_of y" "root_at (vn_put d dv y) d dv" if "root_at y d ?dv" "tree_inv y I" "0 < biglock_depth y" for y
    using tree_refcount [OF that(2), of d ?dv "vn_refcount dv"] that ud(2) rc by (auto simp: root_at_def vn_put_def)
  have vb: "v_vol (vol_back f z ?s) f = z\<lparr>biglock_depth := biglock_depth (v_vol s f)\<rparr>" for z by (simp add: vol_back_def big_acquire_def)
  show ?thesis
    using sfs_lookup_wp [OF w(1,3), of p]
  proof (cases rule: out_wp_cases)
    case (Ok v y)
    then obtain sv where y: "tree_inv y I" "names_of y = names_of w" "biglock_depth y = Suc (big_depth s)" "v \<noteq> d" "root_at y d ?dv"
      "sfs_heap y v = Some sv" "names_of w p = Some (sv_ino sv)" using w(4) by auto
    have "VOP_LOOKUP (FsVn f d) p (vol_back f w ?s) = Ok (FsVn f v) (vol_back f y ?s)" using Ok(1) lookup_vop [OF w(1,3)] by (simp add: on_vol_eq)
    then have "vfs_lookup (n @ COLON # replicate k SLASH @ p) s = Ok (FsVn f v) ((vol_back f (vn_put d dv y) ?s)\<lparr>big_depth := big_depth s\<rparr>)"
      using run gv [OF y(5)] y(3) by (simp add: lookup_end_def vn_put_def)
    then show ?thesis using fin [OF y(5,1)] y u w(2) vb by (auto simp: vn_put_def)
  next
    case (Err e y)
    then have y: "tree_inv y I" "names_of y = names_of w" "biglock_depth y = Suc (big_depth s)" "root_at y d ?dv" "e = (if names_of w p = None then ENOENT else ENOMEM)"
      using w(4) by auto
    have "VOP_LOOKUP (FsVn f d) p (vol_back f w ?s) = Err e (vol_back f y ?s)" using Err(1) lookup_vop [OF w(1,3)] by (simp add: on_vol_eq)
    then have "vfs_lookup (n @ COLON # replicate k SLASH @ p) s = Err e ((vol_back f (vn_put d dv y) ?s)\<lparr>big_depth := big_depth s\<rparr>)"
      using run gv [OF y(4)] y(3) by (simp add: lookup_end_def vn_put_def)
    then show ?thesis using fin [OF y(4,1)] y u w(2) vb by auto
  qed
qed


text \<open>C32. \<open>vfs_mount\<close> does not look at the name of the volume it mounts. A volume that bears the name of a device later in the table hides that device: its name leads
  to the volume from then on.\<close>

theorem vfs_mount_shadows:
  assumes "dev_table s" and "mount_function mountfunc" and "vfs_mount (kd_name (knowndevs s ! i)) mountfunc s = Ok () t"
    and "i < j" and "j < length (knowndevs s)" and "kd_device (knowndevs s ! i) = Some d" and "vol_name t d = kd_name (knowndevs s ! j)"
  shows "vfs_getroot (kd_name (knowndevs s ! j)) (big_acquire t) = FSOP_GETROOT d (big_acquire t)"
proof -
  obtain i' d' where m: "kd_name (knowndevs s ! i') = kd_name (knowndevs s ! i)" "mounted i' d' s t"
    using mount_function.mount_cases(2) [OF assms(2,1,3)] by blast
  have "i' = i"
  proof (rule ccontr)
    assume "i' \<noteq> i"
    then have "apart s (knowndevs s ! i') (knowndevs s ! i)" using dev_tableD(2) [OF assms(1)] m(2) assms(4,5) by (simp add: mounted_def)
    then show False using m(1) by (auto simp: apart_def names_def)
  qed
  moreover from this have "d' = d" using m(2) assms(6) by (simp add: mounted_def)
  ultimately have m: "mounted i d s t" using m(2) by simp
  let ?n = "kd_name (knowndevs s ! j)" and ?kd = "(knowndevs s ! i)\<lparr>kd_fs := Some d\<rparr>"
  have k: "knowndevs t ! i = ?kd" "length (knowndevs t) = length (knowndevs s)" "i < length (knowndevs s)" using m by (simp_all add: mounted_def)
  have "?n \<notin> names t (knowndevs t ! l)" if "l < i" for l
    using mounted_names(1) [OF assms(1) m, of l] that assms(4,5) dev_tableD(2) [OF assms(1), of l j] by (auto simp: apart_def names_def)
  moreover have "?n \<in> names t (knowndevs t ! i)" using k(1) assms(7) by (simp add: names_def)
  moreover have "kd_ok ?kd" using m dev_tableD(1) [OF assms(1), of "knowndevs s ! i"] k(3) by (auto simp: kd_ok_def mounted_def)
  ultimately have "vfs_getroot ?n (big_acquire t) = resolved ?kd ?n (big_acquire t)"
    using getroot_at [of i "knowndevs t" ?n "big_acquire t"] k by (simp add: vfs_getroot_def big_acquire_sel)
  also have "\<dots> = FSOP_GETROOT d (big_acquire t)" using assms(7) by (simp add: resolved_def big_acquire_sel)
  finally show ?thesis .
qed

section \<open>Smaller flaws\<close>

text \<open>\<open>vfs_setbootfs\<close> means to take a colon at the end of the name, but refuses every colon.\<close>

lemma setbootfs_colon: "COLON \<in> set (take 254 fsname) \<Longrightarrow> vfs_setbootfs fsname s = Err EINVAL s"
  by (auto simp: vfs_setbootfs_def NAME_MAX_def Let_def big_acquire_def dropWhile_eq_Nil_conv)

text \<open>Adding a device whose name is taken leaves the vnode made for it allocated, and nothing refers to it.\<close>

lemma doadd_leaks:
  assumes "kd \<in> set (knowndevs s)" "n \<in> names s kd" "vfs_km s = []"
  shows "\<exists>t. vfs_adddev n d m s = Err EEXIST t \<and> knowndevs t = knowndevs s \<and> v_dev t = (v_dev s)(v_brk s \<mapsto> \<lparr>dv_refcount = 1, dv_opencount = 0, dv_dev = Some d\<rparr>)"
proof -
  let ?kd = "\<lparr>kd_name = n, kd_rawname = (if m then Some (mkrawname n) else None), kd_device = Some d, kd_vnode = DevVn (v_brk s), kd_fs = None\<rparr>"
  let ?s = "dv_put (v_brk s) \<lparr>dv_refcount = 1, dv_opencount = 0, dv_dev = Some d\<rparr> (big_acquire s\<lparr>v_brk := Suc (v_brk s)\<rparr>)"
  have "vfs_adddev n d m s = doadd_enter ?kd ?s"
    using assms(3) by (simp add: vfs_adddev_def vfs_doadd_def km_take_def dev_create_vnode_def big_acquire_def dv_put_def Let_def)
  moreover have "names ?s = names s" by (rule names_cong) (simp add: dv_put_def big_acquire_def)
  then have "badnames (Some n) (kd_rawname ?kd) None ?s = Ok True ?s"
    using assms(1,2) by (auto simp: badnames_def badnames_eq dv_put_def big_acquire_def)
  ultimately show ?thesis by (simp add: doadd_enter_def) (simp add: dv_put_def big_acquire_def)
qed

section \<open>An example\<close>

text \<open>Two disks \<open>lhd0\<close> and \<open>lhd1\<close>; the volume on the first is called \<open>lhd1\<close>.\<close>

definition ex_lhd :: "u8 \<Rightarrow> u8 list" where
  "ex_lhd c = [108, 104, 100, c]"

definition ex_kd :: "u8 \<Rightarrow> nat \<Rightarrow> nat option \<Rightarrow> knowndev" where
  "ex_kd c d f = \<lparr>kd_name = ex_lhd c, kd_rawname = Some (mkrawname (ex_lhd c)), kd_device = Some d, kd_vnode = DevVn d, kd_fs = f\<rparr>"

definition ex_named :: sfs_fs where
  "ex_named = ex_fs\<lparr>sfs_super := (sfs_super ex_fs)\<lparr>sp_volname := ex_lhd 49 @ replicate 28 0\<rparr>\<rparr>"

definition ex_vfs :: "sfs_fs \<Rightarrow> knowndev list \<Rightarrow> vfs" where
  "ex_vfs vol kds = \<lparr>knowndevs = kds, v_vol = (\<lambda>_. vol),
     v_dev = Map.empty, v_brk = 5, d_devnumber = (\<lambda>_. 0), dev_blocks = (\<lambda>_. 0), dev_blocksize = (\<lambda>_. 1), d_open = (\<lambda>_ _. None), bootfs_vnode = None, t_cwd = None,
     vfs_km = [], big_depth = 0\<rparr>"

lemma ex_vol_name: "vol_name (ex_vfs ex_named kds) f = ex_lhd 49"
  by (simp add: vol_name_def ex_vfs_def cstr_def ex_lhd_def ex_named_def)


lemma ex_two_table: "dev_table (ex_vfs ex_named [ex_kd 48 0 None, ex_kd 49 1 None])"
proof -
  have "apart s (ex_kd 48 0 None) (ex_kd 49 1 None)" for s
    by (simp add: apart_def names_def kd_objs_def ex_kd_def ex_lhd_def mkrawname_def)
  then have "apart s ([ex_kd 48 0 None, ex_kd 49 1 None] ! i) ([ex_kd 48 0 None, ex_kd 49 1 None] ! j)" if "i < 2" "j < 2" "i \<noteq> j" for s i j
    using that apart_sym by (auto simp: less_2_cases_iff)
  then show ?thesis by (simp add: dev_table_def ex_vfs_def kd_ok_def numeral_2_eq_2) (simp add: ex_kd_def)
qed

theorem vfs_mount_shadows_witness:
  "\<exists>t. vfs_mount (ex_lhd 48) (\<lambda>d s. Ok d s) (ex_vfs ex_named [ex_kd 48 0 None, ex_kd 49 1 None]) = Ok () t \<and>
     vfs_getroot (ex_lhd 49) (big_acquire t) = FSOP_GETROOT 0 (big_acquire t)"
proof -
  let ?s = "ex_vfs ex_named [ex_kd 48 0 None, ex_kd 49 1 None]" and ?t = "ex_vfs ex_named [ex_kd 48 0 (Some 0), ex_kd 49 1 None]"
  have k: "knowndevs ?s = [ex_kd 48 0 None, ex_kd 49 1 None]" by (simp add: ex_vfs_def)
  have m: "vfs_mount (kd_name (knowndevs ?s ! 0)) (\<lambda>d s. Ok d s) ?s = Ok () ?t"
    by (simp add: vfs_mount_def findmount_def big_acquire_def set_fs_def Let_def k) (simp add: ex_vfs_def ex_kd_def set_fs_def)
  have "vol_only d s s" for d s by (auto simp: vol_only_def intro!: exI [of _ "v_vol s d"])
  then have f: "mount_function (\<lambda>d s. Ok d s)" by unfold_locales auto
  have c: "(0 :: nat) < 1" "1 < length (knowndevs ?s)" "kd_device (knowndevs ?s ! 0) = Some 0" "vol_name ?t 0 = kd_name (knowndevs ?s ! 1)"
    unfolding k ex_vol_name by (simp_all add: ex_kd_def)
  have n: "kd_name (knowndevs ?s ! 0) = ex_lhd 48" "kd_name (knowndevs ?s ! 1) = ex_lhd 49" unfolding k by (simp_all add: ex_kd_def)
  show ?thesis using vfs_mount_shadows [OF ex_two_table f m c] m unfolding n by blast
qed

lemma ex_one_table: "dev_table (ex_vfs ex_fs [ex_kd 48 0 (Some 0)])"
  by (simp add: dev_table_def ex_vfs_def kd_ok_def ex_kd_def)

theorem vfs_lookup_file_witness:
  "out_wp (vfs_lookup (ex_lhd 48 @ 58 # replicate 2 47 @ [98]) (ex_vfs ex_fs [ex_kd 48 0 (Some 0)])) (\<lambda>_ _. False) (\<lambda>e t. e = ENOENT \<and> big_depth t = 0)"
proof -
  let ?s = "ex_vfs ex_fs [ex_kd 48 0 (Some 0)]"
  have i: "0 < length (knowndevs ?s)" "kd_fs (knowndevs ?s ! 0) = Some 0" "ex_lhd 48 = kd_name (knowndevs ?s ! 0) \<or> ex_lhd 48 = vol_name ?s 0"
    "ex_lhd 48 \<noteq> []" "58 \<notin> set (ex_lhd 48)" "47 \<notin> set (ex_lhd 48)" "[98] \<noteq> []" "hd [98 :: u8] \<noteq> 47"
    by (simp_all add: ex_vfs_def ex_kd_def ex_lhd_def)
  have v: "v_vol ?s 0 = ex_fs" by (simp add: ex_vfs_def)
  have b: "big_depth ?s = 0" by (simp add: ex_vfs_def)
  show ?thesis by (rule out_wp_conseq [OF vfs_lookup_file [OF ex_one_table i, of "{1, 3}" 0 ex_root_vn 2]])
    (use ex_tree_inv ex_root_at in \<open>auto simp: v b ex_names\<close>)
qed

end
