(* ===== verification/ThreadList.thy ===== *)
theory ThreadList
  imports Prelude
begin

text \<open>
  The thread lists of \<open>kern/thread/threadlist.c\<close>: doubly linked lists with a bookend node at each end,
  embedded in the thread structures. All list nodes of the system live in one store, so that what an
  operation does to one list can be seen to leave the others alone. A list is named by a value of type
  \<open>'l\<close>, a thread by its address; following a \<open>NULL\<close> pointer is \<open>Panic\<close>. \<open>DEBUGASSERT\<close> is compiled to
  nothing in this kernel and is not an assertion here.
\<close>

section \<open>Nodes, lists and their operations\<close>

datatype 'l tln = HeadOf 'l | TailOf 'l | NodeOf nat

record 'l tlheap =
  tln_prev :: "'l tln \<Rightarrow> 'l tln option"
  tln_next :: "'l tln \<Rightarrow> 'l tln option"
  tln_self :: "'l tln \<Rightarrow> nat option"
  tl_count :: "'l \<Rightarrow> nat"

definition set_prev :: "'l tln \<Rightarrow> 'l tln option \<Rightarrow> 'l tlheap \<Rightarrow> 'l tlheap" where
  "set_prev x p h = h\<lparr>tln_prev := (tln_prev h)(x := p)\<rparr>"

definition set_next :: "'l tln \<Rightarrow> 'l tln option \<Rightarrow> 'l tlheap \<Rightarrow> 'l tlheap" where
  "set_next x p h = h\<lparr>tln_next := (tln_next h)(x := p)\<rparr>"

definition set_self :: "'l tln \<Rightarrow> nat option \<Rightarrow> 'l tlheap \<Rightarrow> 'l tlheap" where
  "set_self x t h = h\<lparr>tln_self := (tln_self h)(x := t)\<rparr>"

definition set_count :: "'l \<Rightarrow> nat \<Rightarrow> 'l tlheap \<Rightarrow> 'l tlheap" where
  "set_count l n h = h\<lparr>tl_count := (tl_count h)(l := n)\<rparr>"

definition deref :: "'p option \<Rightarrow> ('p \<Rightarrow> ('a, 's) out) \<Rightarrow> ('a, 's) out" where
  "deref p f = (case p of None \<Rightarrow> Panic | Some x \<Rightarrow> f x)"

definition threadlistnode_init :: "nat \<Rightarrow> 'l tlheap \<Rightarrow> (unit, 'l tlheap) out" where
  "threadlistnode_init t h =
     kassert (t \<noteq> 0)
       (Ok () (set_self (NodeOf t) (Some t) (set_prev (NodeOf t) None (set_next (NodeOf t) None h))))"

definition threadlistnode_cleanup :: "nat \<Rightarrow> 'l tlheap \<Rightarrow> (unit, 'l tlheap) out" where
  "threadlistnode_cleanup t h =
     kassert (tln_next h (NodeOf t) = None)
       (kassert (tln_prev h (NodeOf t) = None) (kassert (tln_self h (NodeOf t) \<noteq> None) (Ok () h)))"

definition threadlist_init :: "'l \<Rightarrow> 'l tlheap \<Rightarrow> 'l tlheap" where
  "threadlist_init l h =
     set_count l 0 (set_self (TailOf l) None (set_self (HeadOf l) None
       (set_prev (TailOf l) (Some (HeadOf l)) (set_next (TailOf l) None
         (set_prev (HeadOf l) None (set_next (HeadOf l) (Some (TailOf l)) h))))))"

definition threadlist_isempty :: "'l \<Rightarrow> 'l tlheap \<Rightarrow> bool" where
  "threadlist_isempty l h \<longleftrightarrow> tl_count h l = 0"

definition threadlist_cleanup :: "'l \<Rightarrow> 'l tlheap \<Rightarrow> (unit, 'l tlheap) out" where
  "threadlist_cleanup l h = kassert (threadlist_isempty l h) (kassert (tl_count h l = 0) (Ok () h))"

definition threadlist_insertafternode :: "'l tln \<Rightarrow> nat \<Rightarrow> 'l tlheap \<Rightarrow> (unit, 'l tlheap) out" where
  "threadlist_insertafternode onlist t h =
     (let addee = NodeOf t;
          h = set_prev addee (Some onlist) h;
          h = set_next addee (tln_next h onlist) h
      in deref (tln_prev h addee) (\<lambda>p.
           let h = set_next p (Some addee) h
           in deref (tln_next h addee) (\<lambda>n. Ok () (set_prev n (Some addee) h))))"

definition threadlist_insertbeforenode :: "nat \<Rightarrow> 'l tln \<Rightarrow> 'l tlheap \<Rightarrow> (unit, 'l tlheap) out" where
  "threadlist_insertbeforenode t onlist h =
     (let addee = NodeOf t;
          h = set_prev addee (tln_prev h onlist) h;
          h = set_next addee (Some onlist) h
      in deref (tln_prev h addee) (\<lambda>p.
           let h = set_next p (Some addee) h
           in deref (tln_next h addee) (\<lambda>n. Ok () (set_prev n (Some addee) h))))"

definition threadlist_removenode :: "'l tln \<Rightarrow> 'l tlheap \<Rightarrow> (unit, 'l tlheap) out" where
  "threadlist_removenode x h =
     deref (tln_prev h x) (\<lambda>p.
       let h = set_next p (tln_next h x) h
       in deref (tln_next h x) (\<lambda>n.
            let h = set_prev n (tln_prev h x) h
            in Ok () (set_next x None (set_prev x None h))))"

definition count_up :: "'l \<Rightarrow> 'l tlheap \<Rightarrow> 'l tlheap" where
  "count_up l h = set_count l (wadd32 (tl_count h l) 1) h"

definition count_down :: "'l \<Rightarrow> 'l tlheap \<Rightarrow> 'l tlheap" where
  "count_down l h = set_count l (wsub32 (tl_count h l) 1) h"

definition threadlist_addhead :: "'l \<Rightarrow> nat \<Rightarrow> 'l tlheap \<Rightarrow> (unit, 'l tlheap) out" where
  "threadlist_addhead l t h =
     kbind (threadlist_insertafternode (HeadOf l) t h) (\<lambda>_ h. Ok () (count_up l h))"

definition threadlist_addtail :: "'l \<Rightarrow> nat \<Rightarrow> 'l tlheap \<Rightarrow> (unit, 'l tlheap) out" where
  "threadlist_addtail l t h =
     kbind (threadlist_insertbeforenode t (TailOf l) h) (\<lambda>_ h. Ok () (count_up l h))"

definition threadlist_remhead :: "'l \<Rightarrow> 'l tlheap \<Rightarrow> (nat option, 'l tlheap) out" where
  "threadlist_remhead l h =
     deref (tln_next h (HeadOf l)) (\<lambda>x.
       if tln_next h x = None then Ok None h
       else kbind (threadlist_removenode x h) (\<lambda>_ h. Ok (tln_self h x) (count_down l h)))"

definition threadlist_remtail :: "'l \<Rightarrow> 'l tlheap \<Rightarrow> (nat option, 'l tlheap) out" where
  "threadlist_remtail l h =
     deref (tln_prev h (TailOf l)) (\<lambda>x.
       if tln_prev h x = None then Ok None h
       else kbind (threadlist_removenode x h) (\<lambda>_ h. Ok (tln_self h x) (count_down l h)))"

definition threadlist_insertafter :: "'l \<Rightarrow> nat \<Rightarrow> nat \<Rightarrow> 'l tlheap \<Rightarrow> (unit, 'l tlheap) out" where
  "threadlist_insertafter l onlist addee h =
     kbind (threadlist_insertafternode (NodeOf onlist) addee h) (\<lambda>_ h. Ok () (count_up l h))"

definition threadlist_insertbefore :: "'l \<Rightarrow> nat \<Rightarrow> nat \<Rightarrow> 'l tlheap \<Rightarrow> (unit, 'l tlheap) out" where
  "threadlist_insertbefore l addee onlist h =
     kbind (threadlist_insertbeforenode addee (NodeOf onlist) h) (\<lambda>_ h. Ok () (count_up l h))"

definition threadlist_remove :: "'l \<Rightarrow> nat \<Rightarrow> 'l tlheap \<Rightarrow> (unit, 'l tlheap) out" where
  "threadlist_remove l t h =
     kbind (threadlist_removenode (NodeOf t) h) (\<lambda>_ h. Ok () (count_down l h))"

text \<open>
  The iteration macro \<open>THREADLIST_FORALL\<close>: the loop variable is a thread pointer, at first
  \<open>tl_head.tln_next->tln_self\<close>, and the loop condition reads the list node of that thread. The threads
  visited are returned. The number bounds the iterations; \<open>None\<close> says it did not suffice.
\<close>

fun forall_loop :: "nat option \<Rightarrow> nat \<Rightarrow> 'l tlheap \<Rightarrow> (nat list, 'l tlheap) out option" where
  "forall_loop itervar 0 h = None"
| "forall_loop itervar (Suc fuel) h =
     (case itervar of
        None \<Rightarrow> Some Panic
      | Some t \<Rightarrow>
          (case tln_next h (NodeOf t) of
             None \<Rightarrow> Some (Ok [] h)
           | Some n \<Rightarrow>
               (case forall_loop (tln_self h n) fuel h of
                  None \<Rightarrow> None
                | Some m \<Rightarrow> Some (kbind m (\<lambda>ts h. Ok (t # ts) h)))))"

definition THREADLIST_FORALL :: "'l \<Rightarrow> nat \<Rightarrow> 'l tlheap \<Rightarrow> (nat list, 'l tlheap) out option" where
  "THREADLIST_FORALL l fuel h =
     (case tln_next h (HeadOf l) of None \<Rightarrow> Some Panic | Some n \<Rightarrow> forall_loop (tln_self h n) fuel h)"

section \<open>The list a store represents\<close>

fun linked :: "'l tlheap \<Rightarrow> 'l tln list \<Rightarrow> bool" where
  "linked h (x # y # xs) \<longleftrightarrow> tln_next h x = Some y \<and> tln_prev h y = Some x \<and> linked h (y # xs)"
| "linked h xs \<longleftrightarrow> True"

definition tl_nodes :: "'l \<Rightarrow> nat list \<Rightarrow> 'l tln list" where
  "tl_nodes l ts = HeadOf l # map NodeOf ts @ [TailOf l]"

text \<open>\<open>tl_repr h l ts\<close>: in store \<open>h\<close> the list \<open>l\<close> holds the threads \<open>ts\<close>, in this order. Threads are nonzero
  32-bit addresses, so the count never wraps.\<close>

definition tl_repr :: "'l tlheap \<Rightarrow> 'l \<Rightarrow> nat list \<Rightarrow> bool" where
  "tl_repr h l ts \<longleftrightarrow> linked h (tl_nodes l ts) \<and> tln_prev h (HeadOf l) = None \<and> tln_next h (TailOf l) = None \<and>
     tln_self h (HeadOf l) = None \<and> tln_self h (TailOf l) = None \<and>
     distinct ts \<and> set ts \<subseteq> {0<..<2 ^ 32} \<and> (\<forall>t \<in> set ts. tln_self h (NodeOf t) = Some t) \<and> tl_count h l = length ts"

lemma deref_Some [simp]: "deref (Some x) f = f x"
  by (simp add: deref_def)

lemma deref_None [simp]: "deref None f = Panic"
  by (simp add: deref_def)

lemma set_sel [simp]:
  "tln_prev (set_prev x p h) = (tln_prev h)(x := p)" "tln_next (set_prev x p h) = tln_next h"
  "tln_self (set_prev x p h) = tln_self h" "tl_count (set_prev x p h) = tl_count h"
  "tln_prev (set_next x p h) = tln_prev h" "tln_next (set_next x p h) = (tln_next h)(x := p)"
  "tln_self (set_next x p h) = tln_self h" "tl_count (set_next x p h) = tl_count h"
  "tln_prev (set_self x t h) = tln_prev h" "tln_next (set_self x t h) = tln_next h"
  "tln_self (set_self x t h) = (tln_self h)(x := t)" "tl_count (set_self x t h) = tl_count h"
  "tln_prev (set_count l n h) = tln_prev h" "tln_next (set_count l n h) = tln_next h"
  "tln_self (set_count l n h) = tln_self h" "tl_count (set_count l n h) = (tl_count h)(l := n)"
  by (simp_all add: set_prev_def set_next_def set_self_def set_count_def)

lemma linked_append: "linked h (xs @ x # y # ys) \<longleftrightarrow>
  linked h (xs @ [x]) \<and> tln_next h x = Some y \<and> tln_prev h y = Some x \<and> linked h (y # ys)"
  by (induction xs rule: induct_list012) auto

lemma linked_cong:
  assumes "linked h xs" and "\<And>x. x \<in> set (butlast xs) \<Longrightarrow> tln_next h' x = tln_next h x"
    and "\<And>x. x \<in> set (tl xs) \<Longrightarrow> tln_prev h' x = tln_prev h x"
  shows "linked h' xs"
  using assms by (induction h xs rule: linked.induct) auto

text \<open>Splicing a node in and out.\<close>

definition spliced_in :: "'l tln \<Rightarrow> 'l tln \<Rightarrow> 'l tln \<Rightarrow> 'l tlheap \<Rightarrow> 'l tlheap" where
  "spliced_in x a y h = set_prev y (Some a) (set_next x (Some a) (set_next a (Some y) (set_prev a (Some x) h)))"

definition spliced_out :: "'l tln \<Rightarrow> 'l tln \<Rightarrow> 'l tln \<Rightarrow> 'l tlheap \<Rightarrow> 'l tlheap" where
  "spliced_out x a y h = set_next a None (set_prev a None (set_prev y (Some x) (set_next x (Some y) h)))"

lemma linked_spliced_in:
  assumes "linked h (xs @ x # y # ys)" and "distinct (xs @ x # y # ys)" and "a \<notin> set (xs @ x # y # ys)"
  shows "linked (spliced_in x a y h) (xs @ x # a # y # ys)"
proof -
  let ?h = "spliced_in x a y h"
  have l: "linked h (xs @ [x])" "linked h (y # ys)" using assms(1) by (simp_all add: linked_append)
  have "linked ?h (xs @ [x])"
    by (rule linked_cong [OF l(1)]) (use assms in \<open>auto simp: spliced_in_def butlast_append tl_append split: list.splits\<close>)
  moreover have "linked ?h (y # ys)"
    by (rule linked_cong [OF l(2)]) (use assms in \<open>auto simp: spliced_in_def dest: in_set_butlastD split: if_splits\<close>)
  ultimately show ?thesis using assms by (simp add: linked_append) (auto simp: spliced_in_def)
qed

lemma linked_spliced_out:
  assumes "linked h (xs @ x # a # y # ys)" and "distinct (xs @ x # a # y # ys)"
  shows "linked (spliced_out x a y h) (xs @ x # y # ys)"
proof -
  let ?h = "spliced_out x a y h"
  have l: "linked h (xs @ [x])" "linked h (y # ys)" using assms(1) by (simp_all add: linked_append)
  have "linked ?h (xs @ [x])"
    by (rule linked_cong [OF l(1)]) (use assms in \<open>auto simp: spliced_out_def butlast_append tl_append split: list.splits\<close>)
  moreover have "linked ?h (y # ys)"
    by (rule linked_cong [OF l(2)]) (use assms in \<open>auto simp: spliced_out_def dest: in_set_butlastD split: if_splits\<close>)
  ultimately show ?thesis using assms by (simp add: linked_append) (auto simp: spliced_out_def)
qed


text \<open>The node before position \<open>length us\<close> of \<open>us @ vs\<close> and the node at it, bookends included.\<close>

definition node_before :: "'l \<Rightarrow> nat list \<Rightarrow> 'l tln" where
  "node_before l us = (if us = [] then HeadOf l else NodeOf (last us))"

definition node_at :: "'l \<Rightarrow> nat list \<Rightarrow> 'l tln" where
  "node_at l vs = (case vs of [] \<Rightarrow> TailOf l | v # _ \<Rightarrow> NodeOf v)"

lemma tl_nodes_split:
  "\<exists>xs ys. tl_nodes l (us @ vs) = xs @ node_before l us # node_at l vs # ys \<and>
     (\<forall>t. tl_nodes l (us @ t # vs) = xs @ node_before l us # NodeOf t # node_at l vs # ys)"
proof -
  have "\<exists>xs. HeadOf l # map NodeOf us = xs @ [node_before l us]"
    by (cases us rule: rev_cases) (auto simp: node_before_def)
  then obtain xs where xs: "HeadOf l # map NodeOf us = xs @ [node_before l us]" ..
  have "\<exists>ys. map NodeOf vs @ [TailOf l] = node_at l vs # ys" by (cases vs) (auto simp: node_at_def)
  then obtain ys where ys: "map NodeOf vs @ [TailOf l] = node_at l vs # ys" ..
  have n: "tl_nodes l (us @ vs) = (HeadOf l # map NodeOf us) @ map NodeOf vs @ [TailOf l]"
    "tl_nodes l (us @ t # vs) = (HeadOf l # map NodeOf us) @ NodeOf t # map NodeOf vs @ [TailOf l]" for t
    by (simp_all add: tl_nodes_def)
  show ?thesis unfolding n xs ys by auto
qed

lemma distinct_tl_nodes: "distinct (tl_nodes l ts) \<longleftrightarrow> distinct ts"
  by (auto simp: tl_nodes_def distinct_map inj_on_def)

lemma tl_repr_length: "tl_repr h l ts \<Longrightarrow> length ts < 2 ^ 32"
proof -
  assume "tl_repr h l ts"
  then have "distinct ts" "set ts \<subseteq> {0<..<2 ^ 32}" by (auto simp: tl_repr_def)
  then have "length ts \<le> card {0<..<2 ^ 32 :: nat}" by (metis card_mono distinct_card finite_greaterThanLessThan)
  then show ?thesis by simp
qed

lemma tl_repr_neighbours:
  assumes "tl_repr h l (us @ vs)"
  shows "tln_next h (node_before l us) = Some (node_at l vs)" "tln_prev h (node_at l vs) = Some (node_before l us)"
  using assms tl_nodes_split [of l us vs] by (auto simp: tl_repr_def linked_append)

lemma tl_repr_node:
  assumes "tl_repr h l (us @ t # vs)"
  shows "tln_prev h (NodeOf t) = Some (node_before l us)" "tln_next h (NodeOf t) = Some (node_at l vs)"
    "tln_self h (NodeOf t) = Some t"
proof -
  obtain xs ys where "tl_nodes l (us @ t # vs) = xs @ node_before l us # NodeOf t # node_at l vs # ys"
    using tl_nodes_split [of l us vs] by blast
  then show "tln_prev h (NodeOf t) = Some (node_before l us)" "tln_next h (NodeOf t) = Some (node_at l vs)"
    using assms by (auto simp: tl_repr_def linked_append)
  show "tln_self h (NodeOf t) = Some t" using assms by (simp add: tl_repr_def)
qed

lemma insert_repr:
  assumes r: "tl_repr h l (us @ vs)" and t: "t \<notin> set (us @ vs)" "t \<in> {0<..<2 ^ 32}" "tln_self h (NodeOf t) = Some t"
  shows "tl_repr (count_up l (spliced_in (node_before l us) (NodeOf t) (node_at l vs) h)) l (us @ t # vs)"
proof -
  let ?b = "node_before l us" and ?a = "node_at l vs"
  obtain xs ys where n: "tl_nodes l (us @ vs) = xs @ ?b # ?a # ys"
    "\<forall>t. tl_nodes l (us @ t # vs) = xs @ ?b # NodeOf t # ?a # ys" using tl_nodes_split [of l us vs] by blast
  have "distinct (tl_nodes l (us @ vs))" using r by (simp add: distinct_tl_nodes tl_repr_def)
  moreover have "NodeOf t \<notin> set (tl_nodes l (us @ vs))" using t(1) by (auto simp: tl_nodes_def)
  ultimately have "linked (spliced_in ?b (NodeOf t) ?a h) (tl_nodes l (us @ t # vs))"
    using r linked_spliced_in [of h xs ?b ?a ys "NodeOf t"] by (simp add: tl_repr_def n)
  then have "linked (count_up l (spliced_in ?b (NodeOf t) ?a h)) (tl_nodes l (us @ t # vs))"
    by (rule linked_cong) (simp_all add: count_up_def)
  moreover have "Suc (length (us @ vs)) < 2 ^ 32"
  proof -
    have "distinct (t # us @ vs)" "set (t # us @ vs) \<subseteq> {0<..<2 ^ 32}" using r t by (auto simp: tl_repr_def)
    then have "length (t # us @ vs) \<le> card {0<..<2 ^ 32 :: nat}"
      by (metis card_mono distinct_card finite_greaterThanLessThan)
    then show ?thesis by simp
  qed
  moreover have "?a \<noteq> HeadOf l" "?b \<noteq> TailOf l" by (auto simp: node_at_def node_before_def split: list.splits)
  ultimately show ?thesis using r t by (auto simp: tl_repr_def count_up_def spliced_in_def)
qed

lemma remove_repr:
  assumes r: "tl_repr h l (us @ t # vs)"
  shows "tl_repr (count_down l (spliced_out (node_before l us) (NodeOf t) (node_at l vs) h)) l (us @ vs)"
proof -
  let ?b = "node_before l us" and ?a = "node_at l vs"
  obtain xs ys where n: "tl_nodes l (us @ vs) = xs @ ?b # ?a # ys"
    "\<forall>t. tl_nodes l (us @ t # vs) = xs @ ?b # NodeOf t # ?a # ys" using tl_nodes_split [of l us vs] by blast
  have "distinct (tl_nodes l (us @ t # vs))" using r by (simp add: distinct_tl_nodes tl_repr_def)
  then have "linked (spliced_out ?b (NodeOf t) ?a h) (tl_nodes l (us @ vs))"
    using r linked_spliced_out [of h xs ?b "NodeOf t" ?a ys] by (simp add: tl_repr_def n)
  then have "linked (count_down l (spliced_out ?b (NodeOf t) ?a h)) (tl_nodes l (us @ vs))"
    by (rule linked_cong) (simp_all add: count_down_def)
  moreover have "?a \<noteq> HeadOf l" "?b \<noteq> TailOf l" by (auto simp: node_at_def node_before_def split: list.splits)
  ultimately show ?thesis using r by (auto simp: tl_repr_def count_down_def spliced_out_def)
qed


lemma insertafternode_eq:
  assumes "tln_next h x = Some y" and "x \<noteq> NodeOf t"
  shows "threadlist_insertafternode x t h = Ok () (spliced_in x (NodeOf t) y h)"
  using assms by (simp add: threadlist_insertafternode_def spliced_in_def Let_def)

lemma insertbeforenode_eq:
  assumes "tln_prev h y = Some x" and "x \<noteq> NodeOf t"
  shows "threadlist_insertbeforenode t y h = Ok () (spliced_in x (NodeOf t) y h)"
  using assms by (simp add: threadlist_insertbeforenode_def spliced_in_def Let_def)

lemma removenode_eq:
  assumes "tln_prev h a = Some x" "tln_next h a = Some y" and "x \<noteq> a" "y \<noteq> a"
  shows "threadlist_removenode a h = Ok () (spliced_out x a y h)"
  using assms by (simp add: threadlist_removenode_def spliced_out_def Let_def)

lemma neighbours_neq:
  assumes "tl_repr h l (us @ vs)" "t \<notin> set (us @ vs)"
  shows "node_before l us \<noteq> NodeOf t" "node_at l vs \<noteq> NodeOf t"
  using assms by (auto simp: node_before_def node_at_def split: list.splits)

section \<open>All lists of the system\<close>

text \<open>
  \<open>tls h L T\<close>: \<open>T\<close> is the set of live threads; every initialised list \<open>l\<close> holds \<open>L l\<close>; no thread is on two
  lists, and the node of a thread on no list has both pointers \<open>NULL\<close>.
\<close>

definition off_list :: "('l \<Rightarrow> nat list option) \<Rightarrow> nat \<Rightarrow> bool" where
  "off_list L t \<longleftrightarrow> (\<forall>l ts. L l = Some ts \<longrightarrow> t \<notin> set ts)"

definition tls :: "'l tlheap \<Rightarrow> ('l \<Rightarrow> nat list option) \<Rightarrow> nat set \<Rightarrow> bool" where
  "tls h L T \<longleftrightarrow> (\<forall>l ts. L l = Some ts \<longrightarrow> tl_repr h l ts \<and> set ts \<subseteq> T) \<and>
     (\<forall>l l' ts ts'. L l = Some ts \<longrightarrow> L l' = Some ts' \<longrightarrow> l \<noteq> l' \<longrightarrow> set ts \<inter> set ts' = {}) \<and>
     (\<forall>t \<in> T. t \<in> {0<..<2 ^ 32} \<and> tln_self h (NodeOf t) = Some t \<and>
        (off_list L t \<longrightarrow> tln_prev h (NodeOf t) = None \<and> tln_next h (NodeOf t) = None))"

lemma tlsD:
  assumes "tls h L T"
  shows "L l = Some ts \<Longrightarrow> tl_repr h l ts" "L l = Some ts \<Longrightarrow> set ts \<subseteq> T"
    "L l = Some ts \<Longrightarrow> L l' = Some ts' \<Longrightarrow> l \<noteq> l' \<Longrightarrow> set ts \<inter> set ts' = {}"
    "t \<in> T \<Longrightarrow> t \<in> {0<..<2 ^ 32}" "t \<in> T \<Longrightarrow> tln_self h (NodeOf t) = Some t"
    "t \<in> T \<Longrightarrow> off_list L t \<Longrightarrow> tln_prev h (NodeOf t) = None \<and> tln_next h (NodeOf t) = None"
  using assms by (simp_all add: tls_def)

lemma tl_repr_cong:
  assumes r: "tl_repr h l ts" and n: "\<And>x. x \<in> set (tl_nodes l ts) \<Longrightarrow>
      tln_prev h' x = tln_prev h x \<and> tln_next h' x = tln_next h x \<and> tln_self h' x = tln_self h x"
    and c: "tl_count h' l = tl_count h l"
  shows "tl_repr h' l ts"
proof -
  have "linked h' (tl_nodes l ts)"
    by (rule linked_cong [of h]) (use r n in \<open>auto simp: tl_repr_def tl_nodes_def dest: in_set_butlastD\<close>)
  then show ?thesis using r n c by (simp add: tl_repr_def tl_nodes_def)
qed

lemma splice_elsewhere:
  assumes "tl_repr h l' ts'" "l' \<noteq> l" "set ts' \<inter> set (us @ t # vs) = {}"
  shows "tl_repr (count_up l (spliced_in (node_before l us) (NodeOf t) (node_at l vs) h)) l' ts'"
    "tl_repr (count_down l (spliced_out (node_before l us) (NodeOf t) (node_at l vs) h)) l' ts'"
proof -
  have "node_before l us \<notin> set (tl_nodes l' ts')" "node_at l vs \<notin> set (tl_nodes l' ts')" "NodeOf t \<notin> set (tl_nodes l' ts')"
    using assms by (auto simp: node_before_def node_at_def tl_nodes_def split: list.splits if_splits)
  then show "tl_repr (count_up l (spliced_in (node_before l us) (NodeOf t) (node_at l vs) h)) l' ts'"
    "tl_repr (count_down l (spliced_out (node_before l us) (NodeOf t) (node_at l vs) h)) l' ts'"
    using assms(2) by (auto intro!: tl_repr_cong [OF assms(1)] simp: count_up_def count_down_def spliced_in_def spliced_out_def)
qed

lemma splice_self [simp]:
  "tln_self (count_up l (spliced_in x a y h)) = tln_self h" "tln_self (count_down l (spliced_out x a y h)) = tln_self h"
  by (simp_all add: count_up_def count_down_def spliced_in_def spliced_out_def)

lemma splice_node:
  assumes "NodeOf u \<noteq> x" "NodeOf u \<noteq> y"
  shows "u \<noteq> t \<Longrightarrow> tln_prev (count_up l (spliced_in x (NodeOf t) y h)) (NodeOf u) = tln_prev h (NodeOf u)"
    "u \<noteq> t \<Longrightarrow> tln_next (count_up l (spliced_in x (NodeOf t) y h)) (NodeOf u) = tln_next h (NodeOf u)"
    "tln_prev (count_down l (spliced_out x (NodeOf t) y h)) (NodeOf u) = (if u = t then None else tln_prev h (NodeOf u))"
    "tln_next (count_down l (spliced_out x (NodeOf t) y h)) (NodeOf u) = (if u = t then None else tln_next h (NodeOf u))"
  using assms by (auto simp: count_up_def count_down_def spliced_in_def spliced_out_def)

lemma off_list_at:
  "L l = Some ts \<Longrightarrow> off_list L u \<longleftrightarrow> u \<notin> set ts \<and> (\<forall>k us. k \<noteq> l \<longrightarrow> L k = Some us \<longrightarrow> u \<notin> set us)"
  unfolding off_list_def by (metis option.inject)

lemma off_list_upd: "off_list (L(l \<mapsto> ts)) u \<longleftrightarrow> u \<notin> set ts \<and> (\<forall>k us. k \<noteq> l \<longrightarrow> L k = Some us \<longrightarrow> u \<notin> set us)"
  by (subst off_list_at [of _ l ts]) simp_all

lemma off_nodes:
  assumes "L l = Some (us @ vs)" "off_list L u"
  shows "NodeOf u \<noteq> node_before l us" "NodeOf u \<noteq> node_at l vs"
proof -
  have "u \<notin> set (us @ vs)" using assms unfolding off_list_def by blast
  then show "NodeOf u \<noteq> node_before l us" "NodeOf u \<noteq> node_at l vs"
    by (auto simp: node_before_def node_at_def split: list.splits if_splits)
qed

lemma tls_insert:
  assumes t: "tls h L T" and l: "L l = Some (us @ vs)" and n: "t \<in> T" "off_list L t"
  shows "tls (count_up l (spliced_in (node_before l us) (NodeOf t) (node_at l vs) h)) (L(l \<mapsto> us @ t # vs)) T"
    (is "tls ?h ?L T")
proof -
  note d = tlsD [OF t]
  have nt: "t \<notin> set (us @ vs)" using n(2) l unfolding off_list_def by blast
  have "tl_repr ?h k ks \<and> set ks \<subseteq> T" if k: "?L k = Some ks" for k ks
  proof (cases "k = l")
    case True
    then show ?thesis using insert_repr [OF d(1) [OF l] nt d(4,5) [OF n(1)]] k d(2) [OF l] n(1) by auto
  next
    case False
    then have "L k = Some ks" using k by simp
    moreover from this have "set ks \<inter> set (us @ t # vs) = {}" using d(3) [OF _ l False] n(2) by (auto simp: off_list_def)
    ultimately show ?thesis using splice_elsewhere(1) [OF d(1) False] d(2) by blast
  qed
  moreover have "set ks \<inter> set js = {}" if "?L k = Some ks" "?L j = Some js" "k \<noteq> j" for k j ks js
    using that d(3) [OF _ l] d(3) n(2) by (auto simp: off_list_def split: if_splits; blast)
  moreover have "tln_prev ?h (NodeOf u) = None \<and> tln_next ?h (NodeOf u) = None" if u: "u \<in> T" "off_list ?L u" for u
  proof -
    have "u \<noteq> t" "off_list L u" using u(2) off_list_at [of L, OF l] by (auto simp: off_list_upd)
    then show ?thesis using d(6) [OF u(1)] off_nodes [of L l us vs, OF l] by (simp add: splice_node)
  qed
  ultimately show ?thesis using d(4,5) by (simp add: tls_def)
qed

lemma tls_delete:
  assumes t: "tls h L T" and l: "L l = Some (us @ t # vs)"
  shows "tls (count_down l (spliced_out (node_before l us) (NodeOf t) (node_at l vs) h)) (L(l \<mapsto> us @ vs)) T"
    (is "tls ?h ?L T")
proof -
  note d = tlsD [OF t]
  have dis: "distinct (us @ t # vs)" using d(1) [OF l] by (simp add: tl_repr_def)
  have "tl_repr ?h k ks \<and> set ks \<subseteq> T" if k: "?L k = Some ks" for k ks
  proof (cases "k = l")
    case True
    then show ?thesis using remove_repr [OF d(1) [OF l]] k d(2) [OF l] by auto
  next
    case False
    then have "L k = Some ks" using k by simp
    then show ?thesis using splice_elsewhere(2) [OF d(1) False] d(2) d(3) [OF _ l False] by blast
  qed
  moreover have "set ks \<inter> set js = {}" if "?L k = Some ks" "?L j = Some js" "k \<noteq> j" for k j ks js
    using that d(3) [OF _ l] d(3) by (auto split: if_splits; blast)
  moreover have "tln_prev ?h (NodeOf u) = None \<and> tln_next ?h (NodeOf u) = None" if u: "u \<in> T" "off_list ?L u" for u
  proof -
    have "NodeOf u \<noteq> node_before l us" "NodeOf u \<noteq> node_at l vs"
      using u(2) by (auto simp: off_list_upd node_before_def node_at_def split: list.splits if_splits)
    moreover have "off_list L u" if "u \<noteq> t"
      using u(2) that off_list_at [of L, OF l] by (simp add: off_list_upd)
    ultimately show ?thesis using d(6) [OF u(1)] by (simp add: splice_node)
  qed
  ultimately show ?thesis using d(4,5) by (simp add: tls_def)
qed


section \<open>The operations on the lists of the system\<close>

lemma tls_addhead:
  assumes t: "tls h L T" and l: "L l = Some ts" and n: "t \<in> T" "off_list L t"
  shows "\<exists>h'. threadlist_addhead l t h = Ok () h' \<and> tls h' (L(l \<mapsto> t # ts)) T"
  using tls_insert [of h L T l "[]" ts t] tl_repr_neighbours [of h l "[]" ts] assms tlsD(1) [OF t l]
  by (simp add: threadlist_addhead_def insertafternode_eq node_before_def)

lemma tls_addtail:
  assumes t: "tls h L T" and l: "L l = Some ts" and n: "t \<in> T" "off_list L t"
  shows "\<exists>h'. threadlist_addtail l t h = Ok () h' \<and> tls h' (L(l \<mapsto> ts @ [t])) T"
proof -
  have r: "tl_repr h l (ts @ [])" using tlsD(1) [OF t l] by simp
  have "node_before l ts \<noteq> NodeOf t" using off_nodes(1) [of L l ts "[]" t] l n(2) by auto
  then show ?thesis
    using tls_insert [of h L T l ts "[]" t] tl_repr_neighbours [OF r] assms
    by (simp add: threadlist_addtail_def insertbeforenode_eq node_at_def)
qed

lemma removenode_tls:
  assumes t: "tls h L T" and l: "L l = Some (us @ t # vs)"
  shows "threadlist_removenode (NodeOf t) h = Ok () (spliced_out (node_before l us) (NodeOf t) (node_at l vs) h)"
proof -
  note r = tlsD(1) [OF t l]
  have "distinct (us @ t # vs)" using r by (simp add: tl_repr_def)
  then show ?thesis using tl_repr_node [OF r]
    by (intro removenode_eq) (auto simp: node_before_def node_at_def split: list.splits if_splits)
qed

lemma tls_remove:
  assumes "tls h L T" and "L l = Some (us @ t # vs)"
  shows "\<exists>h'. threadlist_remove l t h = Ok () h' \<and> tls h' (L(l \<mapsto> us @ vs)) T"
  using removenode_tls [OF assms] tls_delete [OF assms] by (simp add: threadlist_remove_def)

lemma tls_remhead_Nil:
  assumes "tls h L T" and "L l = Some []"
  shows "threadlist_remhead l h = Ok None h"
  using tl_repr_neighbours(1) [of h l "[]" "[]"] tlsD(1) [OF assms]
  by (simp add: threadlist_remhead_def node_before_def node_at_def tl_repr_def)

lemma tls_remtail_Nil:
  assumes "tls h L T" and "L l = Some []"
  shows "threadlist_remtail l h = Ok None h"
  using tl_repr_neighbours(2) [of h l "[]" "[]"] tlsD(1) [OF assms]
  by (simp add: threadlist_remtail_def node_before_def node_at_def tl_repr_def)

lemma splice_out_self [simp]: "tln_self (spliced_out x a y h) = tln_self h"
  by (simp add: spliced_out_def)

lemma tls_remhead:
  assumes t: "tls h L T" and l: "L l = Some (t # ts)"
  shows "\<exists>h'. threadlist_remhead l h = Ok (Some t) h' \<and> tls h' (L(l \<mapsto> ts)) T"
proof -
  have l': "L l = Some ([] @ t # ts)" using l by simp
  note r = tlsD(1) [OF t l']
  have "tln_next h (HeadOf l) = Some (NodeOf t)"
    using tl_repr_neighbours(1) [of h l "[]" "t # ts"] r by (simp add: node_before_def node_at_def)
  then show ?thesis using tl_repr_node [OF r] removenode_tls [OF t l'] tls_delete [OF t l']
    by (simp add: threadlist_remhead_def)
qed

lemma tls_remtail:
  assumes t: "tls h L T" and l: "L l = Some (ts @ [t])"
  shows "\<exists>h'. threadlist_remtail l h = Ok (Some t) h' \<and> tls h' (L(l \<mapsto> ts)) T"
proof -
  note r = tlsD(1) [OF t l]
  have "tln_prev h (TailOf l) = Some (NodeOf t)"
    using tl_repr_neighbours(2) [of h l "ts @ [t]" "[]"] r by (simp add: node_before_def node_at_def)
  then show ?thesis using tl_repr_node [OF r] removenode_tls [OF t l] tls_delete [OF t l]
    by (simp add: threadlist_remtail_def)
qed

lemma tls_insertafter:
  assumes t: "tls h L T" and l: "L l = Some (us @ x # vs)" and n: "t \<in> T" "off_list L t"
  shows "\<exists>h'. threadlist_insertafter l x t h = Ok () h' \<and> tls h' (L(l \<mapsto> us @ x # t # vs)) T"
proof -
  have l': "L l = Some ((us @ [x]) @ vs)" using l by simp
  have b: "node_before l (us @ [x]) = NodeOf x" by (simp add: node_before_def)
  have "x \<noteq> t" using off_nodes(1) [of L l, OF l' n(2)] by (auto simp: b)
  then show ?thesis using tls_insert [OF t l' n] tl_repr_neighbours(1) [OF tlsD(1) [OF t l']]
    by (simp add: threadlist_insertafter_def insertafternode_eq b)
qed

lemma tls_insertbefore:
  assumes t: "tls h L T" and l: "L l = Some (us @ x # vs)" and n: "t \<in> T" "off_list L t"
  shows "\<exists>h'. threadlist_insertbefore l t x h = Ok () h' \<and> tls h' (L(l \<mapsto> us @ t # x # vs)) T"
proof -
  have b: "node_at l (x # vs) = NodeOf x" by (simp add: node_at_def)
  then show ?thesis using tls_insert [OF t l n] tl_repr_neighbours(2) [OF tlsD(1) [OF t l]] off_nodes(1) [of L l, OF l n(2)]
    by (simp add: threadlist_insertbefore_def insertbeforenode_eq)
qed

lemma tls_isempty: "tls h L T \<Longrightarrow> L l = Some ts \<Longrightarrow> threadlist_isempty l h \<longleftrightarrow> ts = []"
  using tlsD(1) [of h L T l ts] by (simp add: threadlist_isempty_def tl_repr_def)

lemma tls_count: "tls h L T \<Longrightarrow> L l = Some ts \<Longrightarrow> tl_count h l = length ts"
  using tlsD(1) [of h L T l ts] by (simp add: tl_repr_def)

lemma tls_cleanup: "tls h L T \<Longrightarrow> L l = Some [] \<Longrightarrow> threadlist_cleanup l h = Ok () h"
  using tlsD(1) [of h L T l "[]"] by (simp add: threadlist_cleanup_def threadlist_isempty_def tl_repr_def)

lemma tls_forget: "tls h L T \<Longrightarrow> L l = Some [] \<Longrightarrow> tls h (L(l := None)) T"
proof -
  assume t: "tls h L T" and l: "L l = Some []"
  have "off_list (L(l := None)) u \<longleftrightarrow> off_list L u" for u
    using off_list_at [of L, OF l] by (auto simp: off_list_def)
  then show ?thesis using t unfolding tls_def by auto
qed

lemma tls_init:
  assumes t: "tls h L T" and l: "L l = None"
  shows "tls (threadlist_init l h) (L(l \<mapsto> [])) T"
proof -
  let ?h = "threadlist_init l h"
  have "tl_repr ?h k ks" if "L k = Some ks" for k ks
  proof (rule tl_repr_cong [OF tlsD(1) [OF t that]])
    have "k \<noteq> l" using that l by auto
    then show "tl_count ?h k = tl_count h k" by (simp add: threadlist_init_def)
    fix x
    assume "x \<in> set (tl_nodes k ks)"
    then have "x \<noteq> HeadOf l" "x \<noteq> TailOf l" using \<open>k \<noteq> l\<close> by (auto simp: tl_nodes_def)
    then show "tln_prev ?h x = tln_prev h x \<and> tln_next ?h x = tln_next h x \<and> tln_self ?h x = tln_self h x"
      by (simp add: threadlist_init_def)
  qed
  moreover have "tl_repr ?h l []" by (simp add: tl_repr_def tl_nodes_def threadlist_init_def)
  moreover have "tln_prev ?h (NodeOf u) = tln_prev h (NodeOf u)" "tln_next ?h (NodeOf u) = tln_next h (NodeOf u)"
    "tln_self ?h (NodeOf u) = tln_self h (NodeOf u)" for u by (simp_all add: threadlist_init_def)
  moreover have "off_list (L(l \<mapsto> [])) u \<longleftrightarrow> off_list L u" for u 
    using l by (simp add: off_list_upd off_list_def) (metis option.distinct(1))
  ultimately show ?thesis using t unfolding tls_def by (auto split: if_splits)
qed

lemma tls_node_init:
  assumes t: "tls h L T" and n: "t \<notin> T" "t \<in> {0<..<2 ^ 32}"
  shows "\<exists>h'. threadlistnode_init t h = Ok () h' \<and> tls h' L (insert t T)"
proof -
  let ?h = "set_self (NodeOf t) (Some t) (set_prev (NodeOf t) None (set_next (NodeOf t) None h))"
  have "tl_repr ?h k ks" if "L k = Some ks" for k ks
  proof (rule tl_repr_cong [OF tlsD(1) [OF t that]])
    fix x
    assume "x \<in> set (tl_nodes k ks)"
    then have "x \<noteq> NodeOf t" using tlsD(2) [OF t that] n(1) by (auto simp: tl_nodes_def)
    then show "tln_prev ?h x = tln_prev h x \<and> tln_next ?h x = tln_next h x \<and> tln_self ?h x = tln_self h x" by simp
  qed simp
  moreover have "set ks \<subseteq> insert t T" if "L k = Some ks" for k ks using tlsD(2) [OF t that] by blast
  ultimately have "tls ?h L (insert t T)" using t n unfolding tls_def by auto
  then show ?thesis using n(2) by (simp add: threadlistnode_init_def)
qed

lemma tls_node_cleanup:
  assumes t: "tls h L T" and n: "t \<in> T" "off_list L t"
  shows "threadlistnode_cleanup t h = Ok () h" "tls h L (T - {t})"
proof -
  show "threadlistnode_cleanup t h = Ok () h" using tlsD(5,6) [OF t n(1)] n(2) by (simp add: threadlistnode_cleanup_def)
  have "set ts \<subseteq> T - {t}" if "L l = Some ts" for l ts using tlsD(2) [OF t that] n(2) that by (auto simp: off_list_def)
  then show "tls h L (T - {t})" using t by (auto simp: tls_def)
qed


lemma forall_loop_faults:
  assumes "tl_repr h l (us @ vs)" and "length vs < fuel"
  shows "forall_loop (tln_self h (node_at l vs)) fuel h = Some Panic"
  using assms
proof (induction vs arbitrary: us fuel)
  case Nil
  then show ?case by (cases fuel) (simp_all add: node_at_def tl_repr_def)
next
  case (Cons v vs)
  obtain k where k: "fuel = Suc k" using Cons.prems(2) by (cases fuel) auto
  have "tl_repr h l ((us @ [v]) @ vs)" using Cons.prems(1) by simp
  from Cons.IH [OF this, of k] show ?case
    using tl_repr_node [OF Cons.prems(1)] Cons.prems(2) k by (simp add: node_at_def)
qed

lemma forall_faults:
  assumes "tl_repr h l ts" and "length ts < fuel"
  shows "THREADLIST_FORALL l fuel h = Some Panic"
  using forall_loop_faults [of h l "[]" ts fuel] tl_repr_neighbours(1) [of h l "[]" ts] assms
  by (simp add: THREADLIST_FORALL_def node_before_def)

section \<open>The queue interface\<close>

text \<open>
  What the scheduler and the wait channels rely on: a family of queues over one state, of which no
  element is in two.
\<close>

fun push_all :: "('l \<Rightarrow> nat \<Rightarrow> 's \<Rightarrow> (unit, 's) out) \<Rightarrow> 'l \<Rightarrow> nat list \<Rightarrow> 's \<Rightarrow> (unit, 's) out" where
  "push_all push l [] s = Ok () s"
| "push_all push l (t # ts) s = kbind (push l t s) (\<lambda>_ s. push_all push l ts s)"

fun pop_all :: "('l \<Rightarrow> 's \<Rightarrow> (nat option, 's) out) \<Rightarrow> 'l \<Rightarrow> nat \<Rightarrow> 's \<Rightarrow> (nat option list, 's) out" where
  "pop_all pop l 0 s = Ok [] s"
| "pop_all pop l (Suc n) s = kbind (pop l s) (\<lambda>x s. kbind (pop_all pop l n s) (\<lambda>xs s. Ok (x # xs) s))"

text \<open>\<open>while ((t = pop(k)) != NULL) push(l, t);\<close> with a bound on the iterations.\<close>

fun move_all :: "('l \<Rightarrow> 's \<Rightarrow> (nat option, 's) out) \<Rightarrow> ('l \<Rightarrow> nat \<Rightarrow> 's \<Rightarrow> (unit, 's) out) \<Rightarrow>
  'l \<Rightarrow> 'l \<Rightarrow> nat \<Rightarrow> 's \<Rightarrow> (unit, 's) out" where
  "move_all pop push k l 0 s = Panic"
| "move_all pop push k l (Suc n) s =
     kbind (pop k s) (\<lambda>x s.
       case x of
         None \<Rightarrow> Ok () s
       | Some t \<Rightarrow> kbind (push l t s) (\<lambda>_ s. move_all pop push k l n s))"

locale queue_system =
  fixes repr :: "'s \<Rightarrow> ('l \<Rightarrow> nat list option) \<Rightarrow> nat set \<Rightarrow> bool"
    and push :: "'l \<Rightarrow> nat \<Rightarrow> 's \<Rightarrow> (unit, 's) out"
    and pop :: "'l \<Rightarrow> 's \<Rightarrow> (nat option, 's) out"
  assumes elems: "repr s L T \<Longrightarrow> L l = Some ts \<Longrightarrow> distinct ts \<and> set ts \<subseteq> T"
    and disjoint: "repr s L T \<Longrightarrow> L l = Some ts \<Longrightarrow> L k = Some us \<Longrightarrow> l \<noteq> k \<Longrightarrow> set ts \<inter> set us = {}"
    and push_law: "repr s L T \<Longrightarrow> L l = Some ts \<Longrightarrow> t \<in> T \<Longrightarrow> off_list L t \<Longrightarrow>
      \<exists>s'. push l t s = Ok () s' \<and> repr s' (L(l \<mapsto> ts @ [t])) T"
    and pop_nil: "repr s L T \<Longrightarrow> L l = Some [] \<Longrightarrow> pop l s = Ok None s"
    and pop_law: "repr s L T \<Longrightarrow> L l = Some (t # ts) \<Longrightarrow>
      \<exists>s'. pop l s = Ok (Some t) s' \<and> repr s' (L(l \<mapsto> ts)) T"
begin

lemma push_all_law:
  assumes "repr s L T" "L l = Some qs" "distinct ts" "set ts \<subseteq> T" "\<And>t. t \<in> set ts \<Longrightarrow> off_list L t"
  shows "\<exists>s'. push_all push l ts s = Ok () s' \<and> repr s' (L(l \<mapsto> qs @ ts)) T"
  using assms
proof (induction ts arbitrary: s L qs)
  case Nil
  then show ?case by (simp add: fun_upd_idem)
next
  case (Cons t ts)
  obtain s1 where s1: "push l t s = Ok () s1" "repr s1 (L(l \<mapsto> qs @ [t])) T"
    using push_law [OF Cons.prems(1,2), of t] Cons.prems(4,5) by auto
  have "off_list (L(l \<mapsto> qs @ [t])) u" if "u \<in> set ts" for u
    using Cons.prems(3) Cons.prems(5) [of u] that off_list_at [of L, OF Cons.prems(2)] by (auto simp: off_list_upd)
  from Cons.IH [OF s1(2) _ _ _ this, of "qs @ [t]"] obtain s2 where "push_all push l ts s1 = Ok () s2"
    "repr s2 (L(l \<mapsto> qs @ t # ts)) T" using Cons.prems(3,4) by (auto simp del: fun_upd_apply simp: fun_upd_same)
  then show ?case using s1(1) by (simp del: fun_upd_apply)
qed

lemma pop_all_law:
  assumes "repr s L T" "L l = Some (ts @ us)"
  shows "\<exists>s'. pop_all pop l (length ts) s = Ok (map Some ts) s' \<and> repr s' (L(l \<mapsto> us)) T"
  using assms
proof (induction ts arbitrary: s L)
  case Nil
  then show ?case by (simp add: fun_upd_idem)
next
  case (Cons t ts)
  obtain s1 where s1: "pop l s = Ok (Some t) s1" "repr s1 (L(l \<mapsto> ts @ us)) T"
    using pop_law [of s L T l t "ts @ us"] Cons.prems by auto
  then show ?case using Cons.IH [OF s1(2)] by (auto simp del: fun_upd_apply simp: fun_upd_same)
qed

text \<open>First in, first out.\<close>

lemma fifo:
  assumes "repr s L T" "L l = Some []" "distinct ts" "set ts \<subseteq> T" "\<And>t. t \<in> set ts \<Longrightarrow> off_list L t"
  shows "\<exists>s'. kbind (push_all push l ts s) (\<lambda>_ s. pop_all pop l (length ts) s) = Ok (map Some ts) s' \<and> repr s' L T"
proof -
  obtain s1 where s1: "push_all push l ts s = Ok () s1" "repr s1 (L(l \<mapsto> ts)) T"
    using push_all_law [OF assms] by auto
  have "(L(l \<mapsto> ts)) l = Some (ts @ [])" by simp
  from pop_all_law [OF s1(2) this] obtain s2 where "pop_all pop l (length ts) s1 = Ok (map Some ts) s2"
    "repr s2 (L(l \<mapsto> [])) T" by (auto simp del: fun_upd_apply)
  moreover have "L(l \<mapsto> []) = L" using assms(2) by (rule fun_upd_idem)
  ultimately show ?thesis using s1(1) by simp
qed

lemma move_all_law:
  assumes "repr s L T" "L k = Some xs" "L l = Some ys" "k \<noteq> l" "length xs < n"
  shows "\<exists>s'. move_all pop push k l n s = Ok () s' \<and> repr s' (L(k \<mapsto> [], l \<mapsto> ys @ xs)) T"
  using assms
proof (induction xs arbitrary: s L ys n)
  case Nil
  then have "L(k \<mapsto> [], l \<mapsto> ys @ []) = L" by auto
  then show ?case using Nil.prems pop_nil [OF Nil.prems(1,2)] by (cases n) (simp_all del: fun_upd_apply)
next
  case (Cons x xs)
  obtain m where m: "n = Suc m" using Cons.prems(5) by (cases n) auto
  obtain s1 where s1: "pop k s = Ok (Some x) s1" "repr s1 (L(k \<mapsto> xs)) T" using pop_law [OF Cons.prems(1,2)] by auto
  have x: "x \<in> T" "x \<notin> set xs" "off_list (L(k \<mapsto> xs)) x"
    using elems [OF Cons.prems(1,2)] disjoint [OF Cons.prems(1,2)] by (auto simp: off_list_upd)
  have y: "(L(k \<mapsto> xs)) l = Some ys" using Cons.prems(3,4) by simp
  obtain s2 where s2: "push l x s1 = Ok () s2" "repr s2 (L(k \<mapsto> xs, l \<mapsto> ys @ [x])) T"
    using push_law [OF s1(2) y x(1,3)] by auto
  have e: "(L(k \<mapsto> xs, l \<mapsto> ys @ [x])) k = Some xs" "(L(k \<mapsto> xs, l \<mapsto> ys @ [x])) l = Some (ys @ [x])"
    using Cons.prems(4) by simp_all
  have f: "L(k \<mapsto> xs, l \<mapsto> ys @ [x], k \<mapsto> [], l \<mapsto> (ys @ [x]) @ xs) = L(k \<mapsto> [], l \<mapsto> ys @ x # xs)"
    using Cons.prems(4) by auto
  from Cons.IH [OF s2(2) e Cons.prems(4), of m] Cons.prems(5) m s1(1) s2(1) f show ?case by (simp del: fun_upd_apply)
qed

end

interpretation tq: queue_system tls threadlist_addtail threadlist_remhead
proof unfold_locales
  fix h :: "'l tlheap" and L T l ts
  assume "tls h L T" "L l = Some ts"
  then show "distinct ts \<and> set ts \<subseteq> T" using tlsD(1,2) [of h L T l ts] by (simp add: tl_repr_def)
next
  fix h :: "'l tlheap" and L T l ts k us
  assume "tls h L T" "L l = Some ts" "L k = Some us" "l \<noteq> k"
  then show "set ts \<inter> set us = {}" by (rule tlsD(3))
qed (blast intro: tls_addtail tls_remhead_Nil tls_remhead)+

section \<open>Properties\<close>

lemma tls_empty: "tls h (\<lambda>_. None) {}"
  by (simp add: tls_def)

lemma tls_example: "\<exists>h :: nat tlheap. tls h [0 \<mapsto> []] {4096, 8192}"
proof -
  obtain h1 :: "nat tlheap" where "tls h1 (\<lambda>_. None) {4096}"
    using tls_node_init [OF tls_empty, of 4096] by auto
  from tls_node_init [OF this, of 8192] obtain h2 :: "nat tlheap"
    where "tls h2 (\<lambda>_. None) {4096, 8192}" by (auto simp: insert_commute)
  from tls_init [OF this] show ?thesis by auto
qed

text \<open>C39. The linked lists are first-in first-out queues: threads appended to an empty list come off its head
  in the order they went in, and afterwards every list of the system is as it was before.\<close>

theorem threadlist_fifo:
  assumes "tls h L T" and "L l = Some []" and "distinct ts" and "set ts \<subseteq> T" and "\<And>t. t \<in> set ts \<Longrightarrow> off_list L t"
  shows "\<exists>h'. kbind (push_all threadlist_addtail l ts h) (\<lambda>_ h. pop_all threadlist_remhead l (length ts) h) =
      Ok (map Some ts) h' \<and> tls h' L T"
  using assms by (rule tq.fifo)

theorem threadlist_fifo_witness:
  "\<exists>h h'. kbind (push_all threadlist_addtail (0::nat) [8192, 4096] h) (\<lambda>_ h. pop_all threadlist_remhead 0 2 h) =
      Ok [Some 8192, Some 4096] h'"
proof -
  obtain h :: "nat tlheap" where h: "tls h [0 \<mapsto> []] {4096, 8192}" using tls_example by blast
  have "off_list [0 \<mapsto> []] t" for t by (simp add: off_list_def)
  then show ?thesis using threadlist_fifo [OF h, of 0 "[8192, 4096]"] by (auto simp: numeral_2_eq_2)
qed

text \<open>Taking a thread out of the middle of a list leaves the other threads of that list in order and
  every other list untouched, and inserting it next to its old neighbour puts it back.\<close>

theorem threadlist_remove_insert:
  assumes "tls h L T" and "L l = Some (us @ x # t # vs)"
  shows "\<exists>h'. kbind (threadlist_remove l t h) (\<lambda>_ h. threadlist_insertafter l x t h) = Ok () h' \<and> tls h' L T"
proof -
  have l: "L l = Some ((us @ [x]) @ t # vs)" using assms(2) by simp
  obtain h1 where h1: "threadlist_remove l t h = Ok () h1" "tls h1 (L(l \<mapsto> us @ x # vs)) T"
    using tls_remove [OF assms(1) l] by auto
  have t: "t \<in> T" "distinct (us @ x # t # vs)" using tq.elems [OF assms(1,2)] by auto
  have "off_list (L(l \<mapsto> us @ x # vs)) t" using t(2) tq.disjoint [OF assms] by (auto simp: off_list_upd)
  from tls_insertafter [OF h1(2) _ t(1) this, of l us x vs] obtain h2 where
    h2: "threadlist_insertafter l x t h1 = Ok () h2" "tls h2 (L(l \<mapsto> us @ x # t # vs)) T"
    by (auto simp del: fun_upd_apply simp: fun_upd_same)
  moreover have "L(l \<mapsto> us @ x # t # vs) = L" using assms(2) by (rule fun_upd_idem)
  ultimately show ?thesis using h1(1) by simp
qed

theorem threadlist_remove_insert_witness:
  "\<exists>h h' L. L (0::nat) = Some [8192, 4096] \<and>
     kbind (threadlist_remove 0 4096 h) (\<lambda>_ h. threadlist_insertafter 0 8192 4096 h) = Ok () h' \<and> tls h' L {4096, 8192}"
proof -
  obtain h :: "nat tlheap" where h: "tls h [0 \<mapsto> []] {4096, 8192}" using tls_example by blast
  have "off_list [0 \<mapsto> []] t" for t by (simp add: off_list_def)
  then obtain h1 :: "nat tlheap" where h1: "tls h1 [0 \<mapsto> [8192, 4096]] {4096, 8192}"
    using tq.push_all_law [OF h, of 0 "[]" "[8192, 4096]"] by auto
  obtain h2 where "kbind (threadlist_remove 0 4096 h1) (\<lambda>_ h. threadlist_insertafter 0 8192 4096 h) = Ok () h2"
    "tls h2 [0 \<mapsto> [8192, 4096]] {4096, 8192}"
    using threadlist_remove_insert [OF h1, of 0 "[]" 8192 4096 "[]"] by auto
  then show ?thesis by (intro exI [of _ h1] exI [of _ h2] exI [of _ "[0 \<mapsto> [8192, 4096]]"]) simp
qed

text \<open>The iteration macro cannot be used: on every well-formed list, the empty one included, it follows the
  \<open>NULL\<close> thread pointer of the closing bookend instead of stopping.\<close>

theorem threadlist_forall_faults:
  assumes "tl_repr h l ts" and "length ts < fuel"
  shows "THREADLIST_FORALL l fuel h = Some Panic"
  using assms by (rule forall_faults)

theorem threadlist_forall_faults_witness:
  "\<exists>h. tl_repr h (0::nat) [] \<and> THREADLIST_FORALL 0 1 h = Some Panic"
proof -
  obtain h :: "nat tlheap" where "tls h [0 \<mapsto> []] {4096, 8192}" using tls_example by blast
  then have r: "tl_repr h 0 []" by (rule tlsD(1)) simp
  then show ?thesis using threadlist_forall_faults [OF r, of 1] by auto
qed

end
