(* ===== verification/Thread.thy ===== *)
theory Thread
  imports ThreadList
begin

text \<open>
  The thread system of \<open>kern/thread/thread.c\<close>: threads, run queues of the processors, context switching,
  wait channels, interprocessor interrupts, with the spinlocks of \<open>kern/thread/spinlock.c\<close>.

  Every function takes the number of the processor it runs on; \<open>curthread\<close> is that processor's current
  thread. A function runs until it returns or until the processor leaves the thread in
  \<open>switchframe_switch\<close>; the second half of \<open>thread_switch\<close> then belongs to the thread switched to. Between
  two such stretches other processors run. Spinning on a lock another processor holds is waiting for that
  processor to finish its stretch, so a lock found taken here is one that can never be had. Interrupt
  priority levels (\<open>spl\<close>), register contexts, address spaces and the vnode behind \<open>t_cwd\<close> are not
  modelled beyond whether the pointers are \<open>NULL\<close>.
\<close>

section \<open>State\<close>

text \<open>
  Of a stack the record keeps the four guard words at its end; \<open>None\<close> is the boot stack, which is never freed.
  The fields \<open>t_machdep\<close>, \<open>t_context\<close>, \<open>t_curspl\<close>, \<open>t_iplhigh_count\<close> and the unused \<open>exit_code\<close> are left out, as is
  the pointer \<open>c_self\<close> of a processor. A current thread 0 is the null pointer.
\<close>

datatype threadstate = S_RUN | S_READY | S_SLEEP | S_ZOMBIE

record thread =
  t_name :: string
  t_wchan_name :: "string option"
  t_state :: threadstate
  t_stack :: "u32 list option"
  t_cpu :: "nat option"
  t_in_interrupt :: bool
  t_addrspace :: "nat option"
  t_cwd :: "nat option"

text \<open>The lists of threads in the system: run queues and zombies per processor, wait channels, and the list
  on the stack of \<open>wchan_wakeall\<close> and \<open>thread_consider_migration\<close>.\<close>

datatype tlid = RunQ nat | Zombies nat | WchanList nat | StackList nat

text \<open>A spinlock is its holder; the lock word is set exactly while there is one.\<close>

type_synonym spinlock = "nat option"

record tlbshootdown =
  ts_addrspace :: nat
  ts_vaddr :: u32

record cpu =
  c_number :: nat
  c_hardware_number :: nat
  c_curthread :: nat
  c_hardclocks :: u32
  c_isidle :: bool
  c_runqueue_lock :: spinlock
  c_ipi_pending :: u32
  c_shootdown :: "tlbshootdown list"
  c_numshootdown :: int
  c_ipi_lock :: spinlock

record wchan =
  wc_name :: string
  wc_lock :: spinlock

record kern =
  k_threads :: "nat \<Rightarrow> thread option"
  k_ncpus :: nat
  k_cpus :: "nat \<Rightarrow> cpu"
  k_wchans :: "nat \<Rightarrow> wchan option"
  k_lists :: "tlid tlheap"

definition THREAD_STACK_MAGIC :: u32 where "THREAD_STACK_MAGIC = 0xbaadf00d"
definition TLBSHOOTDOWN_MAX :: int where "TLBSHOOTDOWN_MAX = 16"
definition TLBSHOOTDOWN_ALL :: int where "TLBSHOOTDOWN_ALL = -1"
definition IPI_PANIC :: nat where "IPI_PANIC = 0"
definition IPI_OFFLINE :: nat where "IPI_OFFLINE = 1"
definition IPI_UNIDLE :: nat where "IPI_UNIDLE = 2"
definition IPI_TLBSHOOTDOWN :: nat where "IPI_TLBSHOOTDOWN = 3"

definition upd_thread :: "nat \<Rightarrow> (thread \<Rightarrow> thread) \<Rightarrow> kern \<Rightarrow> kern" where
  "upd_thread t f s = s\<lparr>k_threads := (k_threads s)(t := map_option f (k_threads s t))\<rparr>"

definition upd_cpu :: "nat \<Rightarrow> (cpu \<Rightarrow> cpu) \<Rightarrow> kern \<Rightarrow> kern" where
  "upd_cpu c f s = s\<lparr>k_cpus := (k_cpus s)(c := f (k_cpus s c))\<rparr>"

definition upd_wchan :: "nat \<Rightarrow> (wchan \<Rightarrow> wchan) \<Rightarrow> kern \<Rightarrow> kern" where
  "upd_wchan w f s = s\<lparr>k_wchans := (k_wchans s)(w := map_option f (k_wchans s w))\<rparr>"

definition on_lists :: "(tlid tlheap \<Rightarrow> ('a, tlid tlheap) out) \<Rightarrow> kern \<Rightarrow> ('a, kern) out" where
  "on_lists f s = (case f (k_lists s) of
     Ok a h \<Rightarrow> Ok a (s\<lparr>k_lists := h\<rparr>) | Err e h \<Rightarrow> Err e (s\<lparr>k_lists := h\<rparr>) | Panic \<Rightarrow> Panic)"

section \<open>Spinlocks\<close>

definition spinlock_acquire :: "nat \<Rightarrow> spinlock \<Rightarrow> (spinlock \<Rightarrow> ('a, 's) out) \<Rightarrow> ('a, 's) out" where
  "spinlock_acquire c lk k = (if lk = Some c then Panic else if lk \<noteq> None then Panic else k (Some c))"

definition spinlock_release :: "nat \<Rightarrow> spinlock \<Rightarrow> (spinlock \<Rightarrow> ('a, 's) out) \<Rightarrow> ('a, 's) out" where
  "spinlock_release c lk k = kassert (lk = Some c) (k None)"

definition spinlock_do_i_hold :: "nat \<Rightarrow> spinlock \<Rightarrow> bool" where
  "spinlock_do_i_hold c lk \<longleftrightarrow> lk = Some c"

definition spinlock_cleanup :: "spinlock \<Rightarrow> ('a, 's) out \<Rightarrow> ('a, 's) out" where
  "spinlock_cleanup lk m = kassert (lk = None) m"

definition rq_acquire :: "nat \<Rightarrow> nat \<Rightarrow> kern \<Rightarrow> (unit, kern) out" where
  "rq_acquire c tc s = spinlock_acquire c (c_runqueue_lock (k_cpus s tc))
     (\<lambda>lk. Ok () (upd_cpu tc (\<lambda>p. p\<lparr>c_runqueue_lock := lk\<rparr>) s))"

definition rq_release :: "nat \<Rightarrow> nat \<Rightarrow> kern \<Rightarrow> (unit, kern) out" where
  "rq_release c tc s = spinlock_release c (c_runqueue_lock (k_cpus s tc))
     (\<lambda>lk. Ok () (upd_cpu tc (\<lambda>p. p\<lparr>c_runqueue_lock := lk\<rparr>) s))"

definition ipi_acquire :: "nat \<Rightarrow> nat \<Rightarrow> kern \<Rightarrow> (unit, kern) out" where
  "ipi_acquire c tc s = spinlock_acquire c (c_ipi_lock (k_cpus s tc))
     (\<lambda>lk. Ok () (upd_cpu tc (\<lambda>p. p\<lparr>c_ipi_lock := lk\<rparr>) s))"

definition ipi_release :: "nat \<Rightarrow> nat \<Rightarrow> kern \<Rightarrow> (unit, kern) out" where
  "ipi_release c tc s = spinlock_release c (c_ipi_lock (k_cpus s tc))
     (\<lambda>lk. Ok () (upd_cpu tc (\<lambda>p. p\<lparr>c_ipi_lock := lk\<rparr>) s))"

section \<open>Interprocessor interrupts\<close>

definition ipi_send :: "nat \<Rightarrow> nat \<Rightarrow> nat \<Rightarrow> kern \<Rightarrow> (unit, kern) out" where
  "ipi_send c target code s =
     kassert (code < 32)
       (kbind (ipi_acquire c target s) (\<lambda>_ s.
        let s = upd_cpu target (\<lambda>p. p\<lparr>c_ipi_pending := c_ipi_pending p OR push_bit code 1\<rparr>) s
        in ipi_release c target s))"

fun ipi_broadcast_loop :: "nat \<Rightarrow> nat \<Rightarrow> nat \<Rightarrow> nat \<Rightarrow> kern \<Rightarrow> (unit, kern) out" where
  "ipi_broadcast_loop c code i 0 s = Ok () s"
| "ipi_broadcast_loop c code i (Suc n) s =
     kbind (if i \<noteq> c then ipi_send c i code s else Ok () s) (\<lambda>_ s. ipi_broadcast_loop c code (Suc i) n s)"

definition ipi_broadcast :: "nat \<Rightarrow> nat \<Rightarrow> kern \<Rightarrow> (unit, kern) out" where
  "ipi_broadcast c code s = ipi_broadcast_loop c code 0 (k_ncpus s) s"

text \<open>Storing outside the array \<open>c_shootdown\<close> has no defined effect and is \<open>Panic\<close>.\<close>

definition ipi_tlbshootdown :: "nat \<Rightarrow> nat \<Rightarrow> tlbshootdown \<Rightarrow> kern \<Rightarrow> (unit, kern) out" where
  "ipi_tlbshootdown c target mapping s =
     kbind (ipi_acquire c target s) (\<lambda>_ s.
       let n = c_numshootdown (k_cpus s target) in
       kbind
         (if n = TLBSHOOTDOWN_MAX
          then Ok () (upd_cpu target (\<lambda>p. p\<lparr>c_numshootdown := TLBSHOOTDOWN_ALL\<rparr>) s)
          else if 0 \<le> n \<and> n < TLBSHOOTDOWN_MAX
          then Ok () (upd_cpu target (\<lambda>p. p\<lparr>c_shootdown := (c_shootdown p)[nat n := mapping],
                                            c_numshootdown := n + 1\<rparr>) s)
          else Panic) (\<lambda>_ s.
       let s = upd_cpu target (\<lambda>p. p\<lparr>c_ipi_pending := c_ipi_pending p OR push_bit IPI_TLBSHOOTDOWN 1\<rparr>) s
       in ipi_release c target s))"

text \<open>What the interrupt handler asks of the VM system: nothing, single mappings, or the whole TLB.\<close>

datatype shoot = ShootAll | Shoot "tlbshootdown list"

definition interprocessor_interrupt :: "nat \<Rightarrow> kern \<Rightarrow> (shoot, kern) out" where
  "interprocessor_interrupt c s =
     kbind (ipi_acquire c c s) (\<lambda>_ s.
       let bits = c_ipi_pending (k_cpus s c) in
       if bit bits IPI_PANIC then Panic
       else if bit bits IPI_OFFLINE then kbind (rq_acquire c c s) (\<lambda>_ s. kbind (rq_release c c s) (\<lambda>_ s. Panic))
       else
         (let p = k_cpus s c;
              todo = (if \<not> bit bits IPI_TLBSHOOTDOWN then Shoot []
                      else if c_numshootdown p = TLBSHOOTDOWN_ALL then ShootAll
                      else Shoot (take (nat (c_numshootdown p)) (c_shootdown p)));
              s = (if bit bits IPI_TLBSHOOTDOWN then upd_cpu c (\<lambda>p. p\<lparr>c_numshootdown := 0\<rparr>) s else s);
              s = upd_cpu c (\<lambda>p. p\<lparr>c_ipi_pending := 0\<rparr>) s
          in kbind (ipi_release c c s) (\<lambda>_ s. Ok todo s)))"

section \<open>Creating and destroying threads\<close>

definition thread_checkstack_init :: "nat \<Rightarrow> kern \<Rightarrow> kern" where
  "thread_checkstack_init t = upd_thread t (\<lambda>th. th\<lparr>t_stack := Some (replicate 4 THREAD_STACK_MAGIC)\<rparr>)"

definition thread_checkstack :: "nat \<Rightarrow> kern \<Rightarrow> (unit, kern) out" where
  "thread_checkstack t s =
     deref (k_threads s t) (\<lambda>th.
       case t_stack th of None \<Rightarrow> Ok () s
       | Some st \<Rightarrow> kassert (\<forall>i < 4. st ! i = THREAD_STACK_MAGIC) (Ok () s))"

text \<open>\<open>mem\<close> is the address \<open>kmalloc\<close> returns for the structure, \<open>namemem\<close> whether \<open>kstrdup\<close> succeeds.\<close>

definition thread_create :: "nat option \<Rightarrow> bool \<Rightarrow> string \<Rightarrow> kern \<Rightarrow> (nat option, kern) out" where
  "thread_create mem namemem name s =
     (case mem of
        None \<Rightarrow> Ok None s
      | Some t \<Rightarrow>
          if \<not> namemem then Ok None s
          else
            (let th = \<lparr>t_name = name, t_wchan_name = Some ''NEW'', t_state = S_READY, t_stack = None, t_cpu = None,
                       t_in_interrupt = False, t_addrspace = None, t_cwd = None\<rparr>
             in kbind (on_lists (threadlistnode_init t) s) (\<lambda>_ s.
                  Ok (Some t) (s\<lparr>k_threads := (k_threads s)(t \<mapsto> th)\<rparr>))))"

text \<open>\<open>mem\<close> and \<open>grow\<close> are the outcomes of the allocation of the structure and of \<open>cpuarray_add\<close>; the other
  memory arguments are those of the thread and its stack. The name of the thread is built by \<open>snprintf\<close> into
  16 bytes and is an argument. The array \<open>c_shootdown\<close> keeps what the memory held.\<close>

definition cpu_create ::
  "bool \<Rightarrow> bool \<Rightarrow> nat option \<Rightarrow> bool \<Rightarrow> bool \<Rightarrow> (nat \<Rightarrow> string) \<Rightarrow> tlbshootdown list \<Rightarrow> nat \<Rightarrow> kern \<Rightarrow> (nat, kern) out" where
  "cpu_create mem grow tmem tnamemem stackmem namebuf junk hardware_number s =
     (if \<not> mem then Panic
      else
        let n = k_ncpus s;
            c = \<lparr>c_number = n, c_hardware_number = hardware_number, c_curthread = 0, c_hardclocks = 0, c_isidle = False,
                 c_runqueue_lock = None, c_ipi_pending = 0, c_shootdown = junk, c_numshootdown = 0, c_ipi_lock = None\<rparr>;
            s = s\<lparr>k_lists := threadlist_init (RunQ n) (threadlist_init (Zombies n) (k_lists s))\<rparr>
        in if \<not> grow then Panic
           else
             let s = s\<lparr>k_cpus := (k_cpus s)(n := c), k_ncpus := Suc n\<rparr>
             in kbind (thread_create tmem tnamemem (namebuf n) s) (\<lambda>t s.
                  case t of
                    None \<Rightarrow> Panic
                  | Some t \<Rightarrow>
                      let s = upd_cpu n (\<lambda>p. p\<lparr>c_curthread := t\<rparr>) s
                      in kbind (if n = 0 then Ok () s
                                else if \<not> stackmem then Panic
                                else Ok () (thread_checkstack_init t s)) (\<lambda>_ s.
                           Ok n (upd_thread t (\<lambda>th. th\<lparr>t_cpu := Some n\<rparr>) s))))"

definition thread_bootstrap ::
  "bool \<Rightarrow> bool \<Rightarrow> nat option \<Rightarrow> bool \<Rightarrow> (nat \<Rightarrow> string) \<Rightarrow> tlbshootdown list \<Rightarrow> kern \<Rightarrow> (nat, kern) out" where
  "thread_bootstrap mem grow tmem tnamemem namebuf junk s =
     kbind (cpu_create mem grow tmem tnamemem True namebuf junk 0 (s\<lparr>k_ncpus := 0\<rparr>)) (\<lambda>bootcpu s.
       let bootthread = c_curthread (k_cpus s bootcpu);
           s = upd_thread bootthread (\<lambda>th. th\<lparr>t_cpu := Some bootcpu\<rparr>) s
       in Ok bootcpu (upd_cpu bootcpu (\<lambda>p. p\<lparr>c_curthread := bootthread\<rparr>) s))"

definition thread_destroy :: "nat \<Rightarrow> nat \<Rightarrow> kern \<Rightarrow> (unit, kern) out" where
  "thread_destroy c t s =
     kassert (t \<noteq> c_curthread (k_cpus s c))
       (deref (k_threads s t) (\<lambda>th.
          kassert (t_state th \<noteq> S_RUN)
            (kassert (t_cwd th = None)
              (kassert (t_addrspace th = None)
                (kbind (on_lists (threadlistnode_cleanup t) s) (\<lambda>_ s.
                  Ok () (s\<lparr>k_threads := (k_threads s)(t := None)\<rparr>)))))))"

fun exorcise_loop :: "nat \<Rightarrow> nat \<Rightarrow> kern \<Rightarrow> (unit, kern) out" where
  "exorcise_loop 0 c s = Panic"
| "exorcise_loop (Suc n) c s =
     kbind (on_lists (threadlist_remhead (Zombies c)) s) (\<lambda>z s.
       case z of
         None \<Rightarrow> Ok () s
       | Some z \<Rightarrow>
           kassert (z \<noteq> c_curthread (k_cpus s c))
             (deref (k_threads s z) (\<lambda>th.
                kassert (t_state th = S_ZOMBIE) (kbind (thread_destroy c z s) (\<lambda>_ s. exorcise_loop n c s)))))"

definition exorcise :: "nat \<Rightarrow> kern \<Rightarrow> (unit, kern) out" where
  "exorcise c s = exorcise_loop (Suc (tl_count (k_lists s) (Zombies c))) c s"

section \<open>Running threads\<close>

definition thread_make_runnable :: "nat \<Rightarrow> nat \<Rightarrow> bool \<Rightarrow> kern \<Rightarrow> (unit, kern) out" where
  "thread_make_runnable c target already_have_lock s =
     deref (k_threads s target) (\<lambda>th. deref (t_cpu th) (\<lambda>targetcpu.
       kbind (if already_have_lock
              then kassert (spinlock_do_i_hold c (c_runqueue_lock (k_cpus s targetcpu))) (Ok () s)
              else rq_acquire c targetcpu s) (\<lambda>_ s.
       let isidle = c_isidle (k_cpus s targetcpu) in
       kbind (on_lists (threadlist_addtail (RunQ targetcpu) target) s) (\<lambda>_ s.
       kbind (if isidle then ipi_send c targetcpu IPI_UNIDLE s else Ok () s) (\<lambda>_ s.
       if already_have_lock then Ok () s else rq_release c targetcpu s)))))"

text \<open>The memory arguments are the outcomes of the three allocations.\<close>

definition thread_fork :: "nat \<Rightarrow> nat option \<Rightarrow> bool \<Rightarrow> bool \<Rightarrow> string \<Rightarrow> kern \<Rightarrow> (nat, kern) out" where
  "thread_fork c mem namemem stackmem name s =
     kbind (thread_create mem namemem name s) (\<lambda>newthread s.
       case newthread of
         None \<Rightarrow> Err ENOMEM s
       | Some t \<Rightarrow>
           if \<not> stackmem then kbind (thread_destroy c t s) (\<lambda>_ s. Err ENOMEM s)
           else
             deref (k_threads s (c_curthread (k_cpus s c))) (\<lambda>cur.
               let s = thread_checkstack_init t s;
                   s = upd_thread t (\<lambda>th. th\<lparr>t_cpu := t_cpu cur, t_cwd := t_cwd cur\<rparr>) s
               in kbind (thread_make_runnable c t False s) (\<lambda>_ s. Ok t s)))"

text \<open>The tail of \<open>thread_switch\<close>, run by the thread switched to; \<open>thread_startup\<close> begins the same way.\<close>

definition switch_in :: "nat \<Rightarrow> kern \<Rightarrow> (unit, kern) out" where
  "switch_in c s =
     (let cur = c_curthread (k_cpus s c);
          s = upd_thread cur (\<lambda>th. th\<lparr>t_wchan_name := None, t_state := S_RUN\<rparr>) s
      in kbind (rq_release c c s) (\<lambda>_ s. exorcise c s))"

text \<open>One iteration of the loop that looks for the next thread; with none there the processor idles.\<close>

definition switch_pick :: "nat \<Rightarrow> kern \<Rightarrow> (unit, kern) out" where
  "switch_pick c s =
     kbind (on_lists (threadlist_remhead (RunQ c)) s) (\<lambda>next s.
       case next of
         None \<Rightarrow> rq_release c c s
       | Some t \<Rightarrow> switch_in c (upd_cpu c (\<lambda>p. p\<lparr>c_isidle := False, c_curthread := t\<rparr>) s))"

text \<open>\<open>cpu_idle\<close> has returned: the next iteration of that loop.\<close>

definition switch_again :: "nat \<Rightarrow> kern \<Rightarrow> (unit, kern) out" where
  "switch_again c s = kbind (rq_acquire c c s) (\<lambda>_ s. switch_pick c s)"

definition wchan_lock :: "nat \<Rightarrow> nat \<Rightarrow> kern \<Rightarrow> (unit, kern) out" where
  "wchan_lock c w s = deref (k_wchans s w) (\<lambda>wc.
     spinlock_acquire c (wc_lock wc) (\<lambda>lk. Ok () (upd_wchan w (\<lambda>wc. wc\<lparr>wc_lock := lk\<rparr>) s)))"

definition wchan_unlock :: "nat \<Rightarrow> nat \<Rightarrow> kern \<Rightarrow> (unit, kern) out" where
  "wchan_unlock c w s = deref (k_wchans s w) (\<lambda>wc.
     spinlock_release c (wc_lock wc) (\<lambda>lk. Ok () (upd_wchan w (\<lambda>wc. wc\<lparr>wc_lock := lk\<rparr>) s)))"

definition thread_switch :: "nat \<Rightarrow> threadstate \<Rightarrow> nat option \<Rightarrow> kern \<Rightarrow> (unit, kern) out" where
  "thread_switch c newstate wc s =
     (let cur = c_curthread (k_cpus s c) in
      if c_isidle (k_cpus s c) then Ok () s
      else
        kbind (thread_checkstack cur s) (\<lambda>_ s.
        kbind (rq_acquire c c s) (\<lambda>_ s.
        if newstate = S_READY \<and> threadlist_isempty (RunQ c) (k_lists s) then rq_release c c s
        else
          kbind
            (case newstate of
               S_RUN \<Rightarrow> Panic
             | S_READY \<Rightarrow> thread_make_runnable c cur True s
             | S_SLEEP \<Rightarrow>
                 deref wc (\<lambda>w. deref (k_wchans s w) (\<lambda>wch.
                   let s = upd_thread cur (\<lambda>th. th\<lparr>t_wchan_name := Some (wc_name wch)\<rparr>) s
                   in kbind (on_lists (threadlist_addtail (WchanList w) cur) s) (\<lambda>_ s. wchan_unlock c w s)))
             | S_ZOMBIE \<Rightarrow>
                 (let s = upd_thread cur (\<lambda>th. th\<lparr>t_wchan_name := Some ''ZOMBIE''\<rparr>) s
                  in on_lists (threadlist_addtail (Zombies c) cur) s)) (\<lambda>_ s.
          let s = upd_thread cur (\<lambda>th. th\<lparr>t_state := newstate\<rparr>) s;
              s = upd_cpu c (\<lambda>p. p\<lparr>c_isidle := True\<rparr>) s
          in switch_pick c s))))"

definition thread_yield :: "nat \<Rightarrow> kern \<Rightarrow> (unit, kern) out" where
  "thread_yield c s = thread_switch c S_READY None s"

definition thread_exit :: "nat \<Rightarrow> kern \<Rightarrow> (unit, kern) out" where
  "thread_exit c s =
     (let cur = c_curthread (k_cpus s c);
          s = upd_thread cur (\<lambda>th. th\<lparr>t_cwd := None\<rparr>) s;
          s = upd_thread cur (\<lambda>th. th\<lparr>t_addrspace := None\<rparr>) s
      in kbind (thread_checkstack cur s) (\<lambda>_ s. thread_switch c S_ZOMBIE None s))"

section \<open>Stopping the system\<close>

definition thread_panic :: "nat \<Rightarrow> kern \<Rightarrow> (unit, kern) out" where
  "thread_panic c s =
     kbind (ipi_broadcast c IPI_PANIC s) (\<lambda>_ s.
       Ok () (s\<lparr>k_lists := set_prev (TailOf (RunQ c)) None (set_next (HeadOf (RunQ c)) None
                            (set_count (RunQ c) 0 (k_lists s)))\<rparr>))"

definition thread_shutdown :: "nat \<Rightarrow> kern \<Rightarrow> (unit, kern) out" where
  "thread_shutdown c s = ipi_broadcast c IPI_OFFLINE s"

section \<open>Migration\<close>

text \<open>The loops of \<open>thread_consider_migration\<close>. The first adds up the lengths of the run queues.\<close>

fun count_loop :: "nat \<Rightarrow> nat \<Rightarrow> nat \<Rightarrow> nat \<Rightarrow> nat \<Rightarrow> kern \<Rightarrow> (nat \<times> nat, kern) out" where
  "count_loop c i 0 my_count total_count s = Ok (my_count, total_count) s"
| "count_loop c i (Suc n) my_count total_count s =
     kbind (rq_acquire c i s) (\<lambda>_ s.
       let k = tl_count (k_lists s) (RunQ i);
           total_count = wadd32 total_count k;
           my_count = (if i = c then k else my_count)
       in kbind (rq_release c i s) (\<lambda>_ s. count_loop c (Suc i) n my_count total_count s))"

fun victim_loop :: "nat \<Rightarrow> nat \<Rightarrow> kern \<Rightarrow> (unit, kern) out" where
  "victim_loop c 0 s = Ok () s"
| "victim_loop c (Suc n) s =
     kbind (on_lists (threadlist_remtail (RunQ c)) s) (\<lambda>t s. deref t (\<lambda>t.
     kbind (on_lists (threadlist_addhead (StackList c) t) s) (\<lambda>_ s. victim_loop c n s)))"

text \<open>The inner loop gives threads to processor \<open>i\<close> until it has its share; the result is what is left of
  \<open>to_send\<close>, which every iteration decrements.\<close>

fun give_loop :: "nat \<Rightarrow> nat \<Rightarrow> nat \<Rightarrow> nat \<Rightarrow> kern \<Rightarrow> (nat, kern) out" where
  "give_loop c i one_share 0 s = Ok 0 s"
| "give_loop c i one_share (Suc to_send) s =
     (if tl_count (k_lists s) (RunQ i) < one_share then
        kbind (on_lists (threadlist_remhead (StackList c)) s) (\<lambda>t s. deref t (\<lambda>t.
          if t = c_curthread (k_cpus s c)
          then kbind (on_lists (threadlist_addtail (StackList c) t) s) (\<lambda>_ s. give_loop c i one_share to_send s)
          else
            let s = upd_thread t (\<lambda>th. th\<lparr>t_cpu := Some i\<rparr>) s
            in kbind (on_lists (threadlist_addtail (RunQ i) t) s) (\<lambda>_ s.
               kbind (if c_isidle (k_cpus s i) then ipi_send c i IPI_UNIDLE s else Ok () s) (\<lambda>_ s.
                 give_loop c i one_share to_send s))))
      else Ok (Suc to_send) s)"

fun share_loop :: "nat \<Rightarrow> nat \<Rightarrow> nat \<Rightarrow> nat \<Rightarrow> nat \<Rightarrow> kern \<Rightarrow> (unit, kern) out" where
  "share_loop c i 0 one_share to_send s = Ok () s"
| "share_loop c i (Suc n) one_share to_send s =
     (if to_send = 0 then Ok () s
      else if i = c then share_loop c (Suc i) n one_share to_send s
      else
        kbind (rq_acquire c i s) (\<lambda>_ s.
        kbind (give_loop c i one_share to_send s) (\<lambda>to_send s.
        kbind (rq_release c i s) (\<lambda>_ s. share_loop c (Suc i) n one_share to_send s))))"

definition DIVROUNDUP :: "nat \<Rightarrow> nat \<Rightarrow> nat" where
  "DIVROUNDUP a b = wsub32 (wadd32 a b) 1 div b"

definition thread_consider_migration :: "nat \<Rightarrow> kern \<Rightarrow> (unit, kern) out" where
  "thread_consider_migration c s =
     kbind (count_loop c 0 (k_ncpus s) 0 0 s) (\<lambda>(my_count, total_count) s.
       let one_share = DIVROUNDUP total_count (k_ncpus s) in
       if my_count < one_share then Ok () s
       else
         let to_send = my_count - one_share;
             s = s\<lparr>k_lists := threadlist_init (StackList c) (k_lists s)\<rparr>
         in kbind (rq_acquire c c s) (\<lambda>_ s.
            kbind (victim_loop c to_send s) (\<lambda>_ s.
            kbind (rq_release c c s) (\<lambda>_ s.
            kbind (share_loop c 0 (k_ncpus s) one_share to_send s) (\<lambda>_ s.
            kbind (if \<not> threadlist_isempty (StackList c) (k_lists s)
                   then kbind (rq_acquire c c s) (\<lambda>_ s.
                        kbind (on_lists (move_all threadlist_remhead threadlist_addtail (StackList c) (RunQ c)
                                 (Suc (tl_count (k_lists s) (StackList c)))) s) (\<lambda>_ s. rq_release c c s))
                   else Ok () s) (\<lambda>_ s.
            kassert (threadlist_isempty (StackList c) (k_lists s))
              (on_lists (threadlist_cleanup (StackList c)) s)))))))"

section \<open>Wait channels\<close>

definition wchan_create :: "nat option \<Rightarrow> string \<Rightarrow> kern \<Rightarrow> nat option \<times> kern" where
  "wchan_create mem name s =
     (case mem of
        None \<Rightarrow> (None, s)
      | Some w \<Rightarrow> (Some w, s\<lparr>k_wchans := (k_wchans s)(w \<mapsto> \<lparr>wc_name = name, wc_lock = None\<rparr>),
                               k_lists := threadlist_init (WchanList w) (k_lists s)\<rparr>))"

definition wchan_destroy :: "nat \<Rightarrow> kern \<Rightarrow> (unit, kern) out" where
  "wchan_destroy w s =
     deref (k_wchans s w) (\<lambda>wc. spinlock_cleanup (wc_lock wc)
       (kbind (on_lists (threadlist_cleanup (WchanList w)) s) (\<lambda>_ s.
          Ok () (s\<lparr>k_wchans := (k_wchans s)(w := None)\<rparr>))))"

definition wchan_sleep :: "nat \<Rightarrow> nat \<Rightarrow> kern \<Rightarrow> (unit, kern) out" where
  "wchan_sleep c w s =
     deref (k_threads s (c_curthread (k_cpus s c))) (\<lambda>cur.
       kassert (\<not> t_in_interrupt cur) (thread_switch c S_SLEEP (Some w) s))"

definition wchan_wakeone :: "nat \<Rightarrow> nat \<Rightarrow> kern \<Rightarrow> (unit, kern) out" where
  "wchan_wakeone c w s =
     kbind (wchan_lock c w s) (\<lambda>_ s.
     kbind (on_lists (threadlist_remhead (WchanList w)) s) (\<lambda>target s.
     kbind (wchan_unlock c w s) (\<lambda>_ s.
       case target of None \<Rightarrow> Ok () s | Some t \<Rightarrow> thread_make_runnable c t False s)))"

fun wake_loop :: "nat \<Rightarrow> nat \<Rightarrow> kern \<Rightarrow> (unit, kern) out" where
  "wake_loop 0 c s = Panic"
| "wake_loop (Suc n) c s =
     kbind (on_lists (threadlist_remhead (StackList c)) s) (\<lambda>target s.
       case target of
         None \<Rightarrow> Ok () s
       | Some t \<Rightarrow> kbind (thread_make_runnable c t False s) (\<lambda>_ s. wake_loop n c s))"

definition wchan_wakeall :: "nat \<Rightarrow> nat \<Rightarrow> kern \<Rightarrow> (unit, kern) out" where
  "wchan_wakeall c w s =
     (let s = s\<lparr>k_lists := threadlist_init (StackList c) (k_lists s)\<rparr> in
      kbind (wchan_lock c w s) (\<lambda>_ s.
      kbind (on_lists (move_all threadlist_remhead threadlist_addtail (WchanList w) (StackList c)
               (Suc (tl_count (k_lists s) (WchanList w)))) s) (\<lambda>_ s.
      kbind (wchan_unlock c w s) (\<lambda>_ s.
      kbind (wake_loop (Suc (tl_count (k_lists s) (StackList c))) c s) (\<lambda>_ s.
        on_lists (threadlist_cleanup (StackList c)) s)))))"

definition wchan_isempty :: "nat \<Rightarrow> nat \<Rightarrow> kern \<Rightarrow> (bool, kern) out" where
  "wchan_isempty c w s =
     kbind (wchan_lock c w s) (\<lambda>_ s.
       let ret = threadlist_isempty (WchanList w) (k_lists s) in kbind (wchan_unlock c w s) (\<lambda>_ s. Ok ret s))"

section \<open>The clock\<close>

definition SCHEDULE_HARDCLOCKS :: u32 where "SCHEDULE_HARDCLOCKS = 4"
definition MIGRATE_HARDCLOCKS :: u32 where "MIGRATE_HARDCLOCKS = 16"

definition schedule :: "kern \<Rightarrow> kern" where "schedule s = s"

definition timerclock :: "nat \<Rightarrow> nat \<Rightarrow> kern \<Rightarrow> (unit, kern) out" where
  "timerclock c lbolt s = wchan_wakeall c lbolt s"

definition hardclock :: "nat \<Rightarrow> kern \<Rightarrow> (unit, kern) out" where
  "hardclock c s =
     (let s = upd_cpu c (\<lambda>p. p\<lparr>c_hardclocks := c_hardclocks p + 1\<rparr>) s;
          n = c_hardclocks (k_cpus s c);
          s = (if n mod SCHEDULE_HARDCLOCKS = 0 then schedule s else s)
      in kbind (if n mod MIGRATE_HARDCLOCKS = 0 then thread_consider_migration c s else Ok () s) (\<lambda>_ s.
           thread_yield c s))"

end
