(* ===== verification/Sched.thy ===== *)
theory Sched
  imports Thread
begin

text \<open>
  The invariant of the thread system of \<open>Thread\<close> and its proof for every operation: no thread is lost or in two
  places, no processor sleeps with work to do and nothing pending to wake it, no lock is left held, and the
  stack a processor idles on belongs to nobody else.
\<close>

section \<open>Where threads are\<close>

text \<open>
  The invariant of the scheduler. \<open>L\<close> gives the contents of the lists; \<open>F\<close> is the set of threads that are on
  no list and on no processor, which is empty between operations. Every live thread is in exactly one
  place, in a state that fits the place (\<open>sched_inv\<close>); a processor that idles with work in its run queue
  has an interrupt pending, but for the processors in \<open>C\<close> that are about to look, and no processor has been told
  to halt (\<open>ipi_inv\<close>).
\<close>

fun place_ok :: "nat \<Rightarrow> tlid \<Rightarrow> thread \<Rightarrow> bool" where
  "place_ok n (RunQ c) th \<longleftrightarrow> c < n \<and> t_cpu th = Some c \<and> t_state th \<in> {S_READY, S_SLEEP}"
| "place_ok n (Zombies c) th \<longleftrightarrow> c < n \<and> t_cpu th = Some c \<and> t_state th = S_ZOMBIE \<and> t_cwd th = None \<and> t_addrspace th = None"
| "place_ok n (WchanList w) th \<longleftrightarrow> (\<exists>c < n. t_cpu th = Some c) \<and> t_state th = S_SLEEP"
| "place_ok n (StackList c) th \<longleftrightarrow> (\<exists>c < n. t_cpu th = Some c) \<and> t_state th \<in> {S_READY, S_SLEEP}"

definition running :: "kern \<Rightarrow> nat \<Rightarrow> nat \<Rightarrow> bool" where
  "running s c t \<longleftrightarrow> c < k_ncpus s \<and> \<not> c_isidle (k_cpus s c) \<and> c_curthread (k_cpus s c) = t"

definition stack_ok :: "thread \<Rightarrow> bool" where
  "stack_ok th \<longleftrightarrow> (case t_stack th of None \<Rightarrow> True | Some st \<Rightarrow> (\<forall>i < 4. st ! i = THREAD_STACK_MAGIC))"

fun list_exists :: "kern \<Rightarrow> tlid \<Rightarrow> bool" where
  "list_exists s (RunQ c) \<longleftrightarrow> c < k_ncpus s"
| "list_exists s (Zombies c) \<longleftrightarrow> c < k_ncpus s"
| "list_exists s (WchanList w) \<longleftrightarrow> k_wchans s w \<noteq> None"
| "list_exists s (StackList c) \<longleftrightarrow> False"

definition sched_inv :: "kern \<Rightarrow> (tlid \<Rightarrow> nat list option) \<Rightarrow> nat set \<Rightarrow> bool" where
  "sched_inv s L F \<longleftrightarrow> tls (k_lists s) L (dom (k_threads s)) \<and>
     (\<forall>l. list_exists s l \<longrightarrow> L l \<noteq> None) \<and>
     (\<forall>l ts t. L l = Some ts \<longrightarrow> t \<in> set ts \<longrightarrow> (\<exists>th. k_threads s t = Some th \<and> place_ok (k_ncpus s) l th)) \<and>
     (\<forall>c t. running s c t \<longrightarrow> off_list L t \<and> (\<exists>th. k_threads s t = Some th \<and> t_state th \<in> {S_RUN, S_READY} \<and> t_cpu th = Some c)) \<and>
     (\<forall>t th. k_threads s t = Some th \<longrightarrow> stack_ok th \<and> (off_list L t \<longrightarrow> t \<in> F \<or> (\<exists>c. running s c t)))"

definition ipi_inv :: "kern \<Rightarrow> (tlid \<Rightarrow> nat list option) \<Rightarrow> nat set \<Rightarrow> bool" where
  "ipi_inv s L C \<longleftrightarrow> (\<forall>c < k_ncpus s. c \<notin> C \<longrightarrow> c_isidle (k_cpus s c) \<longrightarrow> L (RunQ c) \<noteq> Some [] \<longrightarrow>
     bit (c_ipi_pending (k_cpus s c)) IPI_UNIDLE) \<and>
   (\<forall>c. \<not> bit (c_ipi_pending (k_cpus s c)) IPI_PANIC \<and> \<not> bit (c_ipi_pending (k_cpus s c)) IPI_OFFLINE)"

text \<open>All spinlocks free, and all but the run queue lock of one processor, which that processor holds.\<close>

definition locks_free :: "kern \<Rightarrow> bool" where
  "locks_free s \<longleftrightarrow> (\<forall>c. c_runqueue_lock (k_cpus s c) = None \<and> c_ipi_lock (k_cpus s c) = None) \<and>
     (\<forall>w wc. k_wchans s w = Some wc \<longrightarrow> wc_lock wc = None)"

definition rq_locked :: "nat \<Rightarrow> kern \<Rightarrow> bool" where
  "rq_locked c s \<longleftrightarrow> c_runqueue_lock (k_cpus s c) = Some c \<and> (\<forall>k. k \<noteq> c \<longrightarrow> c_runqueue_lock (k_cpus s k) = None) \<and>
     (\<forall>k. c_ipi_lock (k_cpus s k) = None) \<and> (\<forall>w wc. k_wchans s w = Some wc \<longrightarrow> wc_lock wc = None)"

lemma on_lists_Ok [simp]: "f (k_lists s) = Ok a h \<Longrightarrow> on_lists f s = Ok a (s\<lparr>k_lists := h\<rparr>)"
  by (simp add: on_lists_def)

lemma kern_sel [simp]:
  "k_threads (upd_cpu c f s) = k_threads s" "k_ncpus (upd_cpu c f s) = k_ncpus s"
  "k_cpus (upd_cpu c f s) = (k_cpus s)(c := f (k_cpus s c))" "k_wchans (upd_cpu c f s) = k_wchans s"
  "k_lists (upd_cpu c f s) = k_lists s"
  "k_threads (upd_thread t g s) = (k_threads s)(t := map_option g (k_threads s t))" "k_ncpus (upd_thread t g s) = k_ncpus s"
  "k_cpus (upd_thread t g s) = k_cpus s" "k_wchans (upd_thread t g s) = k_wchans s" "k_lists (upd_thread t g s) = k_lists s"
  "k_threads (upd_wchan w e s) = k_threads s" "k_ncpus (upd_wchan w e s) = k_ncpus s" "k_cpus (upd_wchan w e s) = k_cpus s"
  "k_wchans (upd_wchan w e s) = (k_wchans s)(w := map_option e (k_wchans s w))" "k_lists (upd_wchan w e s) = k_lists s"
  by (simp_all add: upd_cpu_def upd_thread_def upd_wchan_def)

lemma cpu_lock_restore: "c_runqueue_lock p = None \<Longrightarrow> p\<lparr>c_runqueue_lock := None\<rparr> = p"
  "c_ipi_lock p = None \<Longrightarrow> p\<lparr>c_ipi_lock := None\<rparr> = p" by (cases p; simp)+

lemma wchan_lock_restore: "wc_lock wc = None \<Longrightarrow> wc\<lparr>wc_lock := None\<rparr> = wc"
  by (cases wc) simp

text \<open>Sending an interrupt to a processor that idles.\<close>

definition kick :: "nat \<Rightarrow> kern \<Rightarrow> kern" where
  "kick k s = (if c_isidle (k_cpus s k)
     then upd_cpu k (\<lambda>p. p\<lparr>c_ipi_pending := c_ipi_pending p OR push_bit IPI_UNIDLE 1\<rparr>) s else s)"

lemma kick_sel [simp]:
  "k_threads (kick k s) = k_threads s" "k_ncpus (kick k s) = k_ncpus s" "k_wchans (kick k s) = k_wchans s"
  "k_lists (kick k s) = k_lists s" "c_isidle (k_cpus (kick k s) c) = c_isidle (k_cpus s c)"
  "c_curthread (k_cpus (kick k s) c) = c_curthread (k_cpus s c)"
  "c_runqueue_lock (k_cpus (kick k s) c) = c_runqueue_lock (k_cpus s c)"
  "c_ipi_lock (k_cpus (kick k s) c) = c_ipi_lock (k_cpus s c)"
  "running (kick k s) = running s" "list_exists (kick k s) = list_exists s"
proof -
  show a: "k_threads (kick k s) = k_threads s" "k_ncpus (kick k s) = k_ncpus s" "k_wchans (kick k s) = k_wchans s"
    "k_lists (kick k s) = k_lists s" by (simp_all add: kick_def)
  show b: "c_isidle (k_cpus (kick k s) c) = c_isidle (k_cpus s c)" "c_curthread (k_cpus (kick k s) c) = c_curthread (k_cpus s c)"
    "c_runqueue_lock (k_cpus (kick k s) c) = c_runqueue_lock (k_cpus s c)"
    "c_ipi_lock (k_cpus (kick k s) c) = c_ipi_lock (k_cpus s c)" for c by (simp_all add: kick_def)
  show "running (kick k s) = running s" by (intro ext) (simp add: running_def a b)
  show "list_exists (kick k s) = list_exists s"
  proof
    fix l
    show "list_exists (kick k s) l = list_exists s l" by (cases l) (simp_all add: a)
  qed
qed

lemma kick_halt:
  "bit (c_ipi_pending (k_cpus (kick k s) c)) IPI_PANIC = bit (c_ipi_pending (k_cpus s c)) IPI_PANIC"
  "bit (c_ipi_pending (k_cpus (kick k s) c)) IPI_OFFLINE = bit (c_ipi_pending (k_cpus s c)) IPI_OFFLINE"
  by (auto simp: kick_def bit_simps IPI_UNIDLE_def IPI_PANIC_def IPI_OFFLINE_def)

lemma kick_pending:
  "bit (c_ipi_pending (k_cpus s c)) j \<Longrightarrow> bit (c_ipi_pending (k_cpus (kick k s) c)) j"
  "c_isidle (k_cpus s k) \<Longrightarrow> bit (c_ipi_pending (k_cpus (kick k s) k)) IPI_UNIDLE"
  by (auto simp: kick_def bit_simps IPI_UNIDLE_def)

lemma ipi_send_eq:
  assumes "c_ipi_lock (k_cpus s k) = None" "code < 32"
  shows "ipi_send c k code s = Ok () (upd_cpu k (\<lambda>p. p\<lparr>c_ipi_pending := c_ipi_pending p OR push_bit code 1\<rparr>) s)"
  using assms by (cases "k_cpus s k")
    (simp add: ipi_send_def ipi_acquire_def ipi_release_def spinlock_acquire_def spinlock_release_def upd_cpu_def)

lemma make_runnable_eq:
  assumes t: "k_threads s t = Some th" "t_cpu th = Some k" and l: "c_ipi_lock (k_cpus s k) = None"
    and h: "threadlist_addtail (RunQ k) t (k_lists s) = Ok () h"
  shows "c_runqueue_lock (k_cpus s k) = None \<Longrightarrow> thread_make_runnable c t False s = Ok () (kick k (s\<lparr>k_lists := h\<rparr>))"
    and "c_runqueue_lock (k_cpus s k) = Some c \<Longrightarrow> thread_make_runnable c t True s = Ok () (kick k (s\<lparr>k_lists := h\<rparr>))"
proof -
  assume r: "c_runqueue_lock (k_cpus s k) = None"
  let ?s = "upd_cpu k (\<lambda>p. p\<lparr>c_runqueue_lock := Some c\<rparr>) s"
  have "rq_acquire c k s = Ok () ?s" using r by (simp add: rq_acquire_def spinlock_acquire_def)
  moreover have "on_lists (threadlist_addtail (RunQ k) t) ?s = Ok () (?s\<lparr>k_lists := h\<rparr>)" using h by simp
  ultimately show "thread_make_runnable c t False s = Ok () (kick k (s\<lparr>k_lists := h\<rparr>))"
    using t l r by (simp add: thread_make_runnable_def Let_def ipi_send_eq IPI_UNIDLE_def rq_release_def spinlock_release_def)
      (cases "k_cpus s k"; auto simp: kick_def upd_cpu_def IPI_UNIDLE_def fun_upd_idem)
next
  assume r: "c_runqueue_lock (k_cpus s k) = Some c"
  show "thread_make_runnable c t True s = Ok () (kick k (s\<lparr>k_lists := h\<rparr>))"
    using t l r h by (simp add: thread_make_runnable_def Let_def ipi_send_eq IPI_UNIDLE_def spinlock_do_i_hold_def)
      (auto simp: kick_def upd_cpu_def IPI_UNIDLE_def)
qed


text \<open>The current thread of a processor, on whose stack it idles if it does, is alive and belongs to it.\<close>

definition cur_inv :: "kern \<Rightarrow> bool" where
  "cur_inv s \<longleftrightarrow> (\<forall>c < k_ncpus s. \<exists>th. k_threads s (c_curthread (k_cpus s c)) = Some th \<and> t_cpu th = Some c)"

definition kern_ok :: "kern \<Rightarrow> (tlid \<Rightarrow> nat list option) \<Rightarrow> bool" where
  "kern_ok s L \<longleftrightarrow> sched_inv s L {} \<and> ipi_inv s L {} \<and> locks_free s \<and> cur_inv s \<and> (\<forall>c. L (StackList c) = None)"

lemma kern_okD:
  assumes "kern_ok s L"
  shows "sched_inv s L {}" "ipi_inv s L {}" "locks_free s" "cur_inv s" "L (StackList c) = None"
  using assms by (simp_all add: kern_ok_def)

lemma sched_invD:
  assumes "sched_inv s L F"
  shows "tls (k_lists s) L (dom (k_threads s))" "list_exists s l \<Longrightarrow> \<exists>ts. L l = Some ts"
    "L l = Some ts \<Longrightarrow> t \<in> set ts \<Longrightarrow> \<exists>th. k_threads s t = Some th \<and> place_ok (k_ncpus s) l th"
    "running s c t \<Longrightarrow> off_list L t" "running s c t \<Longrightarrow> \<exists>th. k_threads s t = Some th \<and> t_state th \<in> {S_RUN, S_READY} \<and> t_cpu th = Some c"
    "k_threads s t = Some th \<Longrightarrow> stack_ok th" "k_threads s t = Some th \<Longrightarrow> off_list L t \<Longrightarrow> t \<in> F \<or> (\<exists>c. running s c t)"
  using assms by (auto simp: sched_inv_def)

lemma sched_inv_cong:
  assumes "sched_inv s L F" and "k_threads s' = k_threads s" "k_ncpus s' = k_ncpus s" "k_lists s' = k_lists s"
    "running s' = running s" "\<And>w. k_wchans s' w \<noteq> None \<Longrightarrow> k_wchans s w \<noteq> None"
  shows "sched_inv s' L F"
proof -
  have "list_exists s' l \<Longrightarrow> list_exists s l" for l using assms by (cases l) auto
  then show ?thesis using assms(1-5) by (simp add: sched_inv_def)
qed

lemma sched_inv_kick [simp]: "sched_inv (kick k s) L F = sched_inv s L F"
  by (simp add: sched_inv_def)

lemma list_exists_lists [simp]: "list_exists (s\<lparr>k_lists := h\<rparr>) = list_exists s" "running (s\<lparr>k_lists := h\<rparr>) = running s"
proof -
  show "list_exists (s\<lparr>k_lists := h\<rparr>) = list_exists s"
  proof
    fix l
    show "list_exists (s\<lparr>k_lists := h\<rparr>) l = list_exists s l" by (cases l) simp_all
  qed
  show "running (s\<lparr>k_lists := h\<rparr>) = running s" by (intro ext) (simp add: running_def)
qed

text \<open>Threads enter and leave lists.\<close>

lemma sched_enter:
  assumes inv: "sched_inv s L F" and t: "k_threads s t = Some th" "off_list L t" "\<And>c. \<not> running s c t"
    and l: "L l = Some q" "place_ok (k_ncpus s) l th"
  shows "\<exists>h. threadlist_addtail l t (k_lists s) = Ok () h \<and> sched_inv (s\<lparr>k_lists := h\<rparr>) (L(l \<mapsto> q @ [t])) (F - {t})"
proof -
  have "t \<in> dom (k_threads s)" using t(1) by auto
  from tls_addtail [OF sched_invD(1) [OF inv] l(1) this t(2)] obtain h where
    h: "threadlist_addtail l t (k_lists s) = Ok () h" "tls h (L(l \<mapsto> q @ [t])) (dom (k_threads s))" by auto
  have off: "off_list (L(l \<mapsto> q @ [t])) u \<longleftrightarrow> u \<noteq> t \<and> off_list L u" for u
    using off_list_at [of L, OF l(1)] by (auto simp: off_list_upd)
  have "sched_inv (s\<lparr>k_lists := h\<rparr>) (L(l \<mapsto> q @ [t])) (F - {t})"
    unfolding sched_inv_def
  proof (intro conjI allI impI; (simp only: off list_exists_lists)?)
    show "tls (k_lists (s\<lparr>k_lists := h\<rparr>)) (L(l \<mapsto> q @ [t])) (dom (k_threads (s\<lparr>k_lists := h\<rparr>)))" using h(2) by simp
    show "(L(l \<mapsto> q @ [t])) k \<noteq> None" if "list_exists s k" for k using sched_invD(2) [OF inv that] by auto
    show "\<exists>th. k_threads (s\<lparr>k_lists := h\<rparr>) u = Some th \<and> place_ok (k_ncpus (s\<lparr>k_lists := h\<rparr>)) k th"
      if "(L(l \<mapsto> q @ [t])) k = Some ts" "u \<in> set ts" for k ts u
      using that sched_invD(3) [OF inv] t(1) l by (auto split: if_splits)
    show "u \<noteq> t \<and> off_list L u" if "running s c u" for c u using sched_invD(4) [OF inv that] t(3) that by auto
    show "\<exists>th. k_threads (s\<lparr>k_lists := h\<rparr>) u = Some th \<and> t_state th \<in> {S_RUN, S_READY} \<and> t_cpu th = Some c" if "running s c u" for c u
      using sched_invD(5) [OF inv that] by simp
    show "stack_ok tu" if "k_threads (s\<lparr>k_lists := h\<rparr>) u = Some tu" for u tu using that sched_invD(6) [OF inv] by simp
    show "u \<in> F - {t} \<or> (\<exists>c. running s c u)" if "k_threads (s\<lparr>k_lists := h\<rparr>) u = Some tu" "u \<noteq> t \<and> off_list L u" for u tu
      using that sched_invD(7) [OF inv] by auto
  qed
  then show ?thesis using h(1) by blast
qed

lemma sched_leave:
  assumes inv: "sched_inv s L F" and l: "L l = Some (t # q)"
  shows "\<exists>h. threadlist_remhead l (k_lists s) = Ok (Some t) h \<and> sched_inv (s\<lparr>k_lists := h\<rparr>) (L(l \<mapsto> q)) (insert t F)"
    "\<exists>th. k_threads s t = Some th \<and> place_ok (k_ncpus s) l th" "off_list (L(l \<mapsto> q)) t" "\<not> running s c t"
proof -
  note tl = sched_invD(1) [OF inv]
  obtain h where h: "threadlist_remhead l (k_lists s) = Ok (Some t) h" "tls h (L(l \<mapsto> q)) (dom (k_threads s))"
    using tls_remhead [OF tl l] by auto
  have d: "distinct (t # q)" using tq.elems [OF tl l] by simp
  have off: "off_list (L(l \<mapsto> q)) u \<longleftrightarrow> u = t \<or> off_list L u" for u
    using off_list_at [of L, OF l, of u] d tq.disjoint [OF tl l] by (auto simp: off_list_upd)
  show "\<exists>th. k_threads s t = Some th \<and> place_ok (k_ncpus s) l th" using sched_invD(3) [OF inv l] by simp
  show "off_list (L(l \<mapsto> q)) t" by (simp add: off)
  have nr: "\<not> running s c t" for c using sched_invD(4) [OF inv, of c t] off_list_at [of L, OF l, of t] by auto
  then show "\<not> running s c t" .
  have "sched_inv (s\<lparr>k_lists := h\<rparr>) (L(l \<mapsto> q)) (insert t F)"
    unfolding sched_inv_def
  proof (intro conjI allI impI; (simp only: off list_exists_lists)?)
    show "tls (k_lists (s\<lparr>k_lists := h\<rparr>)) (L(l \<mapsto> q)) (dom (k_threads (s\<lparr>k_lists := h\<rparr>)))" using h(2) by simp
    show "(L(l \<mapsto> q)) k \<noteq> None" if "list_exists s k" for k using sched_invD(2) [OF inv that] by auto
    show "\<exists>th. k_threads (s\<lparr>k_lists := h\<rparr>) u = Some th \<and> place_ok (k_ncpus (s\<lparr>k_lists := h\<rparr>)) k th"
      if "(L(l \<mapsto> q)) k = Some ts" "u \<in> set ts" for k ts u
      using that sched_invD(3) [OF inv] sched_invD(3) [OF inv l] by (auto split: if_splits)
    show "u = t \<or> off_list L u" if "running s c u" for c u using sched_invD(4) [OF inv that] by auto
    show "\<exists>th. k_threads (s\<lparr>k_lists := h\<rparr>) u = Some th \<and> t_state th \<in> {S_RUN, S_READY} \<and> t_cpu th = Some c" if "running s c u" for c u
      using sched_invD(5) [OF inv that] by simp
    show "stack_ok tu" if "k_threads (s\<lparr>k_lists := h\<rparr>) u = Some tu" for u tu using that sched_invD(6) [OF inv] by simp
    show "u \<in> insert t F \<or> (\<exists>c. running s c u)" if "k_threads (s\<lparr>k_lists := h\<rparr>) u = Some tu" "u = t \<or> off_list L u" for u tu
      using that sched_invD(7) [OF inv] by auto
  qed
  then show "\<exists>h. threadlist_remhead l (k_lists s) = Ok (Some t) h \<and> sched_inv (s\<lparr>k_lists := h\<rparr>) (L(l \<mapsto> q)) (insert t F)"
    using h(1) by blast
qed


lemma sched_upd_thread:
  assumes inv: "sched_inv s L F" and t: "k_threads s t = Some th" "stack_ok (f th)"
    and l: "\<And>l q. L l = Some q \<Longrightarrow> t \<in> set q \<Longrightarrow> place_ok (k_ncpus s) l (f th)"
    and r: "\<And>c. running s c t \<Longrightarrow> t_state (f th) \<in> {S_RUN, S_READY} \<and> t_cpu (f th) = Some c"
  shows "sched_inv (upd_thread t f s) L F"
proof -
  have e: "running (upd_thread t f s) = running s" by (intro ext) (simp add: running_def)
  have x: "list_exists (upd_thread t f s) k = list_exists s k" for k by (cases k) simp_all
  have "dom (k_threads (upd_thread t f s)) = dom (k_threads s)" using t(1) by (auto split: if_splits)
  moreover have "k_threads (upd_thread t f s) u = (if u = t then Some (f th) else k_threads s u)" for u using t(1) by simp
  ultimately show ?thesis
    using sched_invD [OF inv] t l r unfolding sched_inv_def e x by (simp del: kern_sel(6))
qed

lemma sched_dispatch:
  assumes inv: "sched_inv s L F" and t: "k_threads s t = Some th" "t_cpu th = Some c" "off_list L t"
    and c: "c < k_ncpus s" "c_isidle (k_cpus s c)"
  shows "sched_inv (upd_thread t (\<lambda>th. th\<lparr>t_wchan_name := None, t_state := S_RUN\<rparr>)
    (upd_cpu c (\<lambda>p. p\<lparr>c_isidle := False, c_curthread := t\<rparr>) s)) L (F - {t})" (is "sched_inv ?s L _")
proof -
  have nr: "\<not> running s k t" if "k \<noteq> c" for k using sched_invD(5) [OF inv, of k t] t that by auto
  have e: "running ?s k u \<longleftrightarrow> running s k u \<or> k = c \<and> u = t" for k u using c by (auto simp: running_def)
  have x: "list_exists ?s k = list_exists s k" for k by (cases k) simp_all
  have d: "dom (k_threads ?s) = dom (k_threads s)" using t(1) by (auto split: if_splits)
  have n: "L l = Some q \<Longrightarrow> t \<notin> set q" for l q using t(3) by (auto simp: off_list_def)
  show ?thesis
    unfolding sched_inv_def x
  proof (intro conjI allI impI)
    show "tls (k_lists ?s) L (dom (k_threads ?s))" using sched_invD(1) [OF inv] unfolding d by simp
    show "L k \<noteq> None" if "list_exists s k" for k using sched_invD(2) [OF inv that] by auto
    show "\<exists>th. k_threads ?s u = Some th \<and> place_ok (k_ncpus ?s) k th" if "L k = Some ts" "u \<in> set ts" for k ts u
      using sched_invD(3) [OF inv that] n [OF that(1)] that(2) by auto
    show "off_list L u" if "running ?s k u" for k u using that sched_invD(4) [OF inv] t(3) by (auto simp: e)
    show "\<exists>th. k_threads ?s u = Some th \<and> t_state th \<in> {S_RUN, S_READY} \<and> t_cpu th = Some k" if "running ?s k u" for k u
    proof (cases "k = c \<and> u = t")
      case True
      then show ?thesis using t by simp
    next
      case False
      then have r: "running s k u" using that by (simp only: e) blast
      then have "u \<noteq> t" using nr [of k] c by (auto simp: running_def)
      then show ?thesis using sched_invD(5) [OF inv r] by simp
    qed
    show "stack_ok tu" if "k_threads ?s u = Some tu" for u tu
      using that sched_invD(6) [OF inv] t(1) by (auto simp: stack_ok_def split: if_splits)
    show "u \<in> F - {t} \<or> (\<exists>k. running ?s k u)" if "k_threads ?s u = Some tu" "off_list L u" for u tu
      using that sched_invD(7) [OF inv] t(1) by (auto simp: e split: if_splits)
  qed
qed

lemma sched_destroy:
  assumes inv: "sched_inv s L F" and z: "k_threads s z = Some th" "off_list L z" "\<And>c. \<not> running s c z"
    and ok: "t_state th \<noteq> S_RUN" "t_cwd th = None" "t_addrspace th = None" "z \<noteq> c_curthread (k_cpus s c)"
  shows "thread_destroy c z s = Ok () (s\<lparr>k_threads := (k_threads s)(z := None)\<rparr>)"
    "sched_inv (s\<lparr>k_threads := (k_threads s)(z := None)\<rparr>) L (F - {z})"
proof -
  let ?s = "s\<lparr>k_threads := (k_threads s)(z := None)\<rparr>"
  have "z \<in> dom (k_threads s)" using z(1) by auto
  note k = tls_node_cleanup [OF sched_invD(1) [OF inv] this z(2)]
  show "thread_destroy c z s = Ok () ?s" using z(1) ok k(1) by (simp add: thread_destroy_def)
  have e: "running ?s = running s" by (intro ext) (simp add: running_def)
  have x: "list_exists ?s l = list_exists s l" for l by (cases l) simp_all
  have "dom (k_threads ?s) = dom (k_threads s) - {z}" by auto
  then have tl: "tls (k_lists ?s) L (dom (k_threads ?s))" using k(2) by simp
  have n: "L l = Some q \<Longrightarrow> z \<notin> set q" for l q using z(2) by (auto simp: off_list_def)
  show "sched_inv ?s L (F - {z})"
    unfolding sched_inv_def x e
  proof (intro conjI allI impI)
    show "tls (k_lists ?s) L (dom (k_threads ?s))" by (rule tl)
    show "L l \<noteq> None" if "list_exists s l" for l using sched_invD(2) [OF inv that] by auto
    show "\<exists>th. k_threads ?s u = Some th \<and> place_ok (k_ncpus ?s) l th" if "L l = Some ts" "u \<in> set ts" for l ts u
      using sched_invD(3) [OF inv that] n [OF that(1)] that(2) by auto
    show "off_list L u" if "running s k u" for k u using sched_invD(4) [OF inv that] .
    show "\<exists>th. k_threads ?s u = Some th \<and> t_state th \<in> {S_RUN, S_READY} \<and> t_cpu th = Some k" if "running s k u" for k u
      using sched_invD(5) [OF inv that] z(3) that by auto
    show "stack_ok tu" if "k_threads ?s u = Some tu" for u tu using that sched_invD(6) [OF inv] by (auto split: if_splits)
    show "u \<in> F - {z} \<or> (\<exists>k. running s k u)" if "k_threads ?s u = Some tu" "off_list L u" for u tu
      using that sched_invD(7) [OF inv] by (auto split: if_splits)
  qed
qed

lemma exorcise_loop_inv:
  assumes "sched_inv s L {}" "L (Zombies c) = Some zs" "running s c cur" "length zs < n"
  shows "\<exists>s'. exorcise_loop n c s = Ok () s' \<and> sched_inv s' (L(Zombies c \<mapsto> [])) {} \<and>
    s' = s\<lparr>k_lists := k_lists s', k_threads := (\<lambda>t. if t \<in> set zs then None else k_threads s t)\<rparr>"
  using assms
proof (induction zs arbitrary: s L n)
  case Nil
  then have "threadlist_remhead (Zombies c) (k_lists s) = Ok None (k_lists s)" using tls_remhead_Nil [OF sched_invD(1)] by blast
  moreover have "L(Zombies c \<mapsto> []) = L" using Nil.prems(2) by (rule fun_upd_idem)
  ultimately show ?case using Nil.prems by (cases n) (simp_all del: fun_upd_apply)
next
  case (Cons z zs)
  obtain m where m: "n = Suc m" using Cons.prems(4) by (cases n) auto
  note lv = sched_leave [OF Cons.prems(1,2)]
  obtain h where h: "threadlist_remhead (Zombies c) (k_lists s) = Ok (Some z) h"
    "sched_inv (s\<lparr>k_lists := h\<rparr>) (L(Zombies c \<mapsto> zs)) {z}" using lv(1) by blast
  obtain th where th: "k_threads s z = Some th" "t_state th = S_ZOMBIE" "t_cwd th = None" "t_addrspace th = None"
    using lv(2) by auto
  have zc: "z \<noteq> c_curthread (k_cpus s c)" using lv(4) [of c] Cons.prems(3) by (auto simp: running_def)
  let ?s = "s\<lparr>k_lists := h, k_threads := (k_threads s)(z := None)\<rparr>"
  have d: "thread_destroy c z (s\<lparr>k_lists := h\<rparr>) = Ok () ?s" "sched_inv ?s (L(Zombies c \<mapsto> zs)) {}"
    using sched_destroy [OF h(2), of z th c] lv(3,4) th zc by (simp_all add: running_def del: fun_upd_apply)
  have r: "running ?s c cur" using Cons.prems(3) by (simp add: running_def)
  obtain s' where s': "exorcise_loop m c ?s = Ok () s'" "sched_inv s' (L(Zombies c \<mapsto> [])) {}"
    "s' = ?s\<lparr>k_lists := k_lists s', k_threads := (\<lambda>t. if t \<in> set zs then None else k_threads ?s t)\<rparr>"
    using Cons.IH [OF d(2) _ r, of m] Cons.prems(4) m by (auto simp del: fun_upd_apply simp: fun_upd_same)
  have "(\<lambda>t. if t \<in> set zs then None else k_threads ?s t) = (\<lambda>t. if t \<in> set (z # zs) then None else k_threads s t)"
    by (rule ext) auto
  then have "s' = s\<lparr>k_lists := k_lists s', k_threads := (\<lambda>t. if t \<in> set (z # zs) then None else k_threads s t)\<rparr>"
    using s'(3) by simp
  moreover have "exorcise_loop n c s = Ok () s'" using m h(1) th zc d(1) s'(1) by simp
  ultimately show ?case using s'(2) by blast
qed


lemma rq_release_eq: "c_runqueue_lock (k_cpus s k) = Some c \<Longrightarrow>
  rq_release c k s = Ok () (upd_cpu k (\<lambda>p. p\<lparr>c_runqueue_lock := None\<rparr>) s)"
  by (simp add: rq_release_def spinlock_release_def)

lemma rq_acquire_eq: "c_runqueue_lock (k_cpus s k) = None \<Longrightarrow>
  rq_acquire c k s = Ok () (upd_cpu k (\<lambda>p. p\<lparr>c_runqueue_lock := Some c\<rparr>) s)"
  by (simp add: rq_acquire_def spinlock_acquire_def)

lemma running_cpu_lock [simp]: "running (upd_cpu k (\<lambda>p. p\<lparr>c_runqueue_lock := lk\<rparr>) s) = running s"
  by (intro ext) (simp add: running_def)

lemma sched_inv_cpu_lock [simp]: "sched_inv (upd_cpu k (\<lambda>p. p\<lparr>c_runqueue_lock := lk\<rparr>) s) L F = sched_inv s L F"
proof -
  have "list_exists (upd_cpu k (\<lambda>p. p\<lparr>c_runqueue_lock := lk\<rparr>) s) l = list_exists s l" for l by (cases l) simp_all
  then show ?thesis by (simp add: sched_inv_def)
qed

lemma cpu_upd_sel: "c_isidle (k_cpus (upd_cpu k (\<lambda>p. p\<lparr>c_runqueue_lock := lk\<rparr>) s) c) = c_isidle (k_cpus s c)"
  "c_ipi_pending (k_cpus (upd_cpu k (\<lambda>p. p\<lparr>c_runqueue_lock := lk\<rparr>) s) c) = c_ipi_pending (k_cpus s c)"
  by simp_all

lemma ipi_inv_cpu_lock [simp]: "ipi_inv (upd_cpu k (\<lambda>p. p\<lparr>c_runqueue_lock := lk\<rparr>) s) L C = ipi_inv s L C"
  by (simp only: ipi_inv_def cpu_upd_sel kern_sel(2))

lemma locks_release: "rq_locked c s \<Longrightarrow> locks_free (upd_cpu c (\<lambda>p. p\<lparr>c_runqueue_lock := None\<rparr>) s)"
  by (auto simp: rq_locked_def locks_free_def)

lemma locks_acquire: "locks_free s \<Longrightarrow> rq_locked c (upd_cpu c (\<lambda>p. p\<lparr>c_runqueue_lock := Some c\<rparr>) s)"
  by (auto simp: rq_locked_def locks_free_def)

lemma locks_lists [simp]: "locks_free (s\<lparr>k_lists := h\<rparr>) = locks_free s" "rq_locked c (s\<lparr>k_lists := h\<rparr>) = rq_locked c s"
  "locks_free (upd_thread t f s) = locks_free s" "rq_locked c (upd_thread t f s) = rq_locked c s"
  "locks_free (s\<lparr>k_threads := x\<rparr>) = locks_free s" "locks_free (kick k s) = locks_free s" "rq_locked c (kick k s) = rq_locked c s"
  by (simp_all add: locks_free_def rq_locked_def)

lemma ipi_lists [simp]: "ipi_inv (s\<lparr>k_lists := h\<rparr>) L C = ipi_inv s L C" "ipi_inv (upd_thread t f s) L C = ipi_inv s L C"
  "ipi_inv (s\<lparr>k_threads := x\<rparr>) L C = ipi_inv s L C"
  by (simp_all add: ipi_inv_def)

lemma cur_inv_lists [simp]: "cur_inv (s\<lparr>k_lists := h\<rparr>) = cur_inv s"
  by (simp add: cur_inv_def)

lemma cur_inv_cong:
  assumes "cur_inv s" "k_ncpus s' = k_ncpus s" "\<And>k. c_curthread (k_cpus s' k) = c_curthread (k_cpus s k)"
    "\<And>t th. k_threads s t = Some th \<Longrightarrow> \<exists>th'. k_threads s' t = Some th' \<and> t_cpu th' = t_cpu th"
  shows "cur_inv s'"
  using assms unfolding cur_inv_def by metis

lemma cur_inv_kick [simp]: "cur_inv (kick k s) = cur_inv s"
  by (simp add: cur_inv_def)

lemma cur_inv_exorcise:
  assumes inv: "sched_inv s L F" and cur: "cur_inv s" and z: "L (Zombies c) = Some zs" and r: "running s c t"
  shows "cur_inv (s\<lparr>k_lists := h, k_threads := (\<lambda>t. if t \<in> set zs then None else k_threads s t)\<rparr>)"
proof -
  have "c_curthread (k_cpus s k) \<notin> set zs" if k: "k < k_ncpus s" for k
  proof (cases "k = c")
    case True
    then show ?thesis using sched_invD(4) [OF inv r] z r by (auto simp: off_list_def running_def)
  next
    case False
    then show ?thesis using cur k sched_invD(3) [OF inv z] unfolding cur_inv_def by fastforce
  qed
  then show ?thesis using cur by (simp add: cur_inv_def)
qed

section \<open>The abstract scheduler\<close>

text \<open>
  What the thread system promises, without linked lists, locks and interrupts: the processor each live
  thread belongs to, the thread each busy processor runs, and the queues. \<open>refines s a\<close> says that the kernel
  state \<open>s\<close> is well-formed and represents \<open>a\<close>.
\<close>

record asched =
  a_cpu :: "nat \<Rightarrow> nat option"
  a_run :: "nat \<Rightarrow> nat option"
  a_q :: "tlid \<Rightarrow> nat list option"

definition homes :: "kern \<Rightarrow> nat \<Rightarrow> nat option" where
  "homes s t = (case k_threads s t of None \<Rightarrow> None | Some th \<Rightarrow> t_cpu th)"

definition runs :: "kern \<Rightarrow> nat \<Rightarrow> nat option" where
  "runs s c = (if c < k_ncpus s \<and> \<not> c_isidle (k_cpus s c) then Some (c_curthread (k_cpus s c)) else None)"

definition refines :: "kern \<Rightarrow> asched \<Rightarrow> bool" where
  "refines s a \<longleftrightarrow> kern_ok s (a_q a) \<and> a_cpu a = homes s \<and> a_run a = runs s"

definition a_put :: "tlid \<Rightarrow> nat \<Rightarrow> asched \<Rightarrow> asched" where
  "a_put l t a = a\<lparr>a_q := (a_q a)(l \<mapsto> the (a_q a l) @ [t])\<rparr>"

text \<open>Dispatch the first thread of the run queue and bury the zombies, or go idle.\<close>

definition a_pick :: "nat \<Rightarrow> asched \<Rightarrow> asched" where
  "a_pick c a =
     (case a_q a (RunQ c) of
        Some (t # q) \<Rightarrow>
          a\<lparr>a_run := (a_run a)(c \<mapsto> t), a_q := (a_q a)(RunQ c \<mapsto> q, Zombies c \<mapsto> []),
            a_cpu := (\<lambda>u. if u \<in> set (the (a_q a (Zombies c))) then None else a_cpu a u)\<rparr>
      | _ \<Rightarrow> a\<lparr>a_run := (a_run a)(c := None)\<rparr>)"

definition a_leave :: "nat \<Rightarrow> tlid \<Rightarrow> asched \<Rightarrow> asched" where
  "a_leave c l a = (case a_run a c of None \<Rightarrow> a | Some t \<Rightarrow> a_pick c (a_put l t a))"

definition a_yield :: "nat \<Rightarrow> asched \<Rightarrow> asched" where
  "a_yield c a = (if a_q a (RunQ c) = Some [] then a else a_leave c (RunQ c) a)"

definition a_wake :: "nat \<Rightarrow> asched \<Rightarrow> asched" where
  "a_wake t a = a_put (RunQ (the (a_cpu a t))) t a"

definition a_wakeone :: "nat \<Rightarrow> asched \<Rightarrow> asched" where
  "a_wakeone w a =
     (case a_q a (WchanList w) of
        Some (t # q) \<Rightarrow> a_wake t (a\<lparr>a_q := (a_q a)(WchanList w \<mapsto> q)\<rparr>)
      | _ \<Rightarrow> a)"

definition a_wakeall :: "nat \<Rightarrow> asched \<Rightarrow> asched" where
  "a_wakeall w a = fold a_wake (the (a_q a (WchanList w))) (a\<lparr>a_q := (a_q a)(WchanList w \<mapsto> [])\<rparr>)"

definition a_fork :: "nat \<Rightarrow> nat \<Rightarrow> asched \<Rightarrow> asched" where
  "a_fork c t a = a_wake t (a\<lparr>a_cpu := (a_cpu a)(t \<mapsto> c)\<rparr>)"

lemma asched_upd [simp]: "a_cpu (a_put l t a) = a_cpu a" "a_run (a_put l t a) = a_run a"
  "a_q (a_put l t a) = (a_q a)(l \<mapsto> the (a_q a l) @ [t])"
  by (simp_all add: a_put_def)

lemma homes_lists [simp]: "homes (s\<lparr>k_lists := h\<rparr>) = homes s" "homes (upd_cpu c f s) = homes s" "homes (kick k s) = homes s"
  by (simp_all add: homes_def fun_eq_iff)

lemma homes_thread: "k_threads s t = Some th \<Longrightarrow> t_cpu (g th) = t_cpu th \<Longrightarrow> homes (upd_thread t g s) = homes s"
  by (auto simp: homes_def fun_eq_iff)

lemma runs_lists [simp]: "runs (s\<lparr>k_lists := h\<rparr>) = runs s" "runs (upd_thread t g s) = runs s" "runs (kick k s) = runs s"
  "runs (upd_cpu k (\<lambda>p. p\<lparr>c_runqueue_lock := lk\<rparr>) s) = runs s"
  by (simp_all add: runs_def fun_eq_iff)

lemma runs_running: "runs s c = Some t \<longleftrightarrow> running s c t"
  by (auto simp: runs_def running_def)

lemma runs_cong: "k_ncpus s' = k_ncpus s \<Longrightarrow> (\<And>k. k \<noteq> c \<Longrightarrow> k_cpus s' k = k_cpus s k) \<Longrightarrow> runs s' = (runs s)(c := runs s' c)"
  by (auto simp: runs_def fun_eq_iff)

lemma exorcise_ok:
  assumes inv: "sched_inv s L {}" and z: "L (Zombies c) = Some zs" and r: "running s c t"
  shows "\<exists>h. exorcise c s = Ok () (s\<lparr>k_lists := h, k_threads := (\<lambda>t. if t \<in> set zs then None else k_threads s t)\<rparr>) \<and>
    sched_inv (s\<lparr>k_lists := h, k_threads := (\<lambda>t. if t \<in> set zs then None else k_threads s t)\<rparr>) (L(Zombies c \<mapsto> [])) {}"
proof -
  have "tl_count (k_lists s) (Zombies c) = length zs" by (rule tls_count [OF sched_invD(1) [OF inv] z])
  then have e: "exorcise c s = exorcise_loop (Suc (length zs)) c s" by (simp only: exorcise_def)
  obtain s' where s': "exorcise_loop (Suc (length zs)) c s = Ok () s'" "sched_inv s' (L(Zombies c \<mapsto> [])) {}"
    "s' = s\<lparr>k_lists := k_lists s', k_threads := (\<lambda>t. if t \<in> set zs then None else k_threads s t)\<rparr>"
    using exorcise_loop_inv [OF inv z r lessI] by (elim exE conjE)
  show ?thesis unfolding e
    by (rule exI [of _ "k_lists s'"]) (simp only: s'(1,2) s'(3) [symmetric] simp_thms)
qed

lemma switch_in_ok:
  assumes inv: "sched_inv s L F" "F \<subseteq> {t}" and cur: "cur_inv s" and st: "\<And>k. L (StackList k) = None" and l: "rq_locked c s" and ipi: "ipi_inv s L {c}"
    and t: "k_threads s t = Some th" "t_cpu th = Some c" "off_list L t"
    and c: "c < k_ncpus s" "c_isidle (k_cpus s c)" and z: "L (Zombies c) = Some zs"
  shows "\<exists>s'. switch_in c (upd_cpu c (\<lambda>p. p\<lparr>c_isidle := False, c_curthread := t\<rparr>) s) = Ok () s' \<and>
    kern_ok s' (L(Zombies c \<mapsto> [])) \<and> k_ncpus s' = k_ncpus s \<and> k_wchans s' = k_wchans s \<and> running s' c t \<and>
    (\<forall>k. k \<noteq> c \<longrightarrow> k_cpus s' k = k_cpus s k) \<and> homes s' = (\<lambda>u. if u \<in> set zs then None else homes s u)"
proof -
  define s1 where "s1 = upd_thread t (\<lambda>th. th\<lparr>t_wchan_name := None, t_state := S_RUN\<rparr>)
    (upd_cpu c (\<lambda>p. p\<lparr>c_isidle := False, c_curthread := t\<rparr>) s)"
  define s2 where "s2 = upd_cpu c (\<lambda>p. p\<lparr>c_runqueue_lock := None\<rparr>) s1"
  have e: "F - {t} = {}" using inv(2) by auto
  have i: "sched_inv s2 L {}" using sched_dispatch [OF inv(1) t c] unfolding e by (simp add: s2_def s1_def)
  have r: "running s2 c t" using c by (simp add: running_def s2_def s1_def)
  have rel: "rq_release c c s1 = Ok () s2" using l unfolding s2_def
    by (intro rq_release_eq) (simp add: rq_locked_def s1_def)
  have lf: "locks_free s2" using l by (simp add: rq_locked_def locks_free_def s2_def s1_def)
  have ii: "ipi_inv s2 (L(Zombies c \<mapsto> [])) {}" using ipi unfolding ipi_inv_def by (simp add: s2_def s1_def)
  have d: "homes s2 = homes s" using t(1) by (auto simp: s2_def s1_def homes_thread)
  have o: "k_ncpus s2 = k_ncpus s" "k_wchans s2 = k_wchans s" "\<And>k. k \<noteq> c \<Longrightarrow> k_cpus s2 k = k_cpus s k"
    by (simp_all add: s2_def s1_def)
  have cu: "cur_inv s2" unfolding cur_inv_def
  proof (intro allI impI)
    fix k
    assume "k < k_ncpus s2"
    then show "\<exists>th. k_threads s2 (c_curthread (k_cpus s2 k)) = Some th \<and> t_cpu th = Some k"
      using cur t by (cases "k = c") (auto simp: cur_inv_def s2_def s1_def)
  qed
  note ce = cur_inv_exorcise [OF i cu z r]
  have sw: "switch_in c (upd_cpu c (\<lambda>p. p\<lparr>c_isidle := False, c_curthread := t\<rparr>) s) = exorcise c s2"
    using rel by (simp add: switch_in_def s1_def)
  let ?g = "\<lambda>t. if t \<in> set zs then None else k_threads s2 t"
  obtain h where h: "exorcise c s2 = Ok () (s2\<lparr>k_lists := h, k_threads := ?g\<rparr>)"
    "sched_inv (s2\<lparr>k_lists := h, k_threads := ?g\<rparr>) (L(Zombies c \<mapsto> [])) {}" using exorcise_ok [OF i z r] by blast
  have dm: "homes (s2\<lparr>k_lists := h, k_threads := ?g\<rparr>) = (\<lambda>u. if u \<in> set zs then None else homes s u)"
    unfolding d [symmetric] by (auto simp: homes_def)
  show ?thesis unfolding sw
    by (rule exI [of _ "s2\<lparr>k_lists := h, k_threads := ?g\<rparr>"])
      (use h lf ii o r dm ce st in \<open>simp add: kern_ok_def running_def fun_upd_other del: fun_upd_apply\<close>)
qed

lemma switch_pick_ok:
  assumes inv: "sched_inv s L {}" and cur: "cur_inv s" and st: "\<And>k. L (StackList k) = None" and l: "rq_locked c s"
    and ipi: "ipi_inv s L {c}" and c: "c < k_ncpus s" "c_isidle (k_cpus s c)"
  shows "\<exists>s'. switch_pick c s = Ok () s' \<and> refines s' (a_pick c \<lparr>a_cpu = homes s, a_run = runs s, a_q = L\<rparr>) \<and>
    k_ncpus s' = k_ncpus s \<and> k_wchans s' = k_wchans s"
proof -
  obtain q zs where q: "L (RunQ c) = Some q" and zs: "L (Zombies c) = Some zs"
    using sched_invD(2) [OF inv, of "RunQ c"] sched_invD(2) [OF inv, of "Zombies c"] c by auto
  show ?thesis
  proof (cases q)
    case Nil
    let ?s = "upd_cpu c (\<lambda>p. p\<lparr>c_runqueue_lock := None\<rparr>) s"
    have "threadlist_remhead (RunQ c) (k_lists s) = Ok None (k_lists s)"
      using tls_remhead_Nil [OF sched_invD(1) [OF inv]] q Nil by simp
    moreover have "s\<lparr>k_lists := k_lists s\<rparr> = s" by simp
    ultimately have "switch_pick c s = Ok () ?s"
      using rq_release_eq [of s c c] l by (simp add: switch_pick_def rq_locked_def)
    moreover have "ipi_inv s L {}" using ipi q Nil by (auto simp: ipi_inv_def)
    moreover have "cur_inv ?s" by (rule cur_inv_cong [OF cur]) simp_all
    moreover have "(runs s)(c := None) = runs s" using c by (auto simp: runs_def)
    ultimately show ?thesis
      using inv locks_release [OF l] q Nil st
      by (intro exI [of _ ?s]) (simp add: kern_ok_def refines_def a_pick_def)
  next
    case (Cons t ts)
    then have q': "L (RunQ c) = Some (t # ts)" using q by simp
    note lv = sched_leave [OF inv q']
    obtain h where h: "threadlist_remhead (RunQ c) (k_lists s) = Ok (Some t) h"
      "sched_inv (s\<lparr>k_lists := h\<rparr>) (L(RunQ c \<mapsto> ts)) {t}" using lv(1) by blast
    obtain th where th: "k_threads s t = Some th" "t_cpu th = Some c" using lv(2) by auto
    have "ipi_inv (s\<lparr>k_lists := h\<rparr>) (L(RunQ c \<mapsto> ts)) {c}" using ipi by (auto simp: ipi_inv_def)
    from switch_in_ok [OF h(2) subset_refl _ _ _ this, of th zs] obtain s' where s':
      "switch_in c (upd_cpu c (\<lambda>p. p\<lparr>c_isidle := False, c_curthread := t\<rparr>) (s\<lparr>k_lists := h\<rparr>)) = Ok () s'"
      "kern_ok s' (L(RunQ c \<mapsto> ts, Zombies c \<mapsto> []))" "k_ncpus s' = k_ncpus s" "k_wchans s' = k_wchans s" "running s' c t"
      "\<forall>k. k \<noteq> c \<longrightarrow> k_cpus s' k = k_cpus s k" "homes s' = (\<lambda>u. if u \<in> set zs then None else homes s u)"
      using th lv(3) l c zs cur st by (auto simp del: fun_upd_apply simp: fun_upd_same fun_upd_other cong: if_cong)
    moreover have "switch_pick c s = Ok () s'" using h(1) s'(1) by (simp add: switch_pick_def)
    moreover have "runs s' = (runs s)(c \<mapsto> t)" using runs_cong [of s' s c] s'(3,5,6) runs_running [of s' c t] by simp
    ultimately show ?thesis
      using q' zs by (intro exI [of _ s']) (simp add: refines_def a_pick_def del: fun_upd_apply cong: if_cong)
  qed
qed

text \<open>The current thread stops running: it is on no list yet.\<close>

lemma sched_stop:
  assumes inv: "sched_inv s L {}" and r: "running s c cur" and t: "k_threads s cur = Some th" "stack_ok (g th)"
  shows "sched_inv (upd_cpu c (\<lambda>p. p\<lparr>c_isidle := True\<rparr>) (upd_thread cur g s)) L {cur}" (is "sched_inv ?s L _")
proof -
  have off: "off_list L cur" by (rule sched_invD(4) [OF inv r])
  have e: "running ?s k u \<longleftrightarrow> running s k u \<and> k \<noteq> c" for k u by (auto simp: running_def)
  have nr: "u \<noteq> cur" if "running s k u" "k \<noteq> c" for k u
    using sched_invD(5) [OF inv r] sched_invD(5) [OF inv that(1)] that(2) by auto
  have x: "list_exists ?s l = list_exists s l" for l by (cases l) simp_all
  have d: "dom (k_threads ?s) = dom (k_threads s)" using t(1) by (auto split: if_splits)
  have n: "L l = Some q \<Longrightarrow> cur \<notin> set q" for l q using off by (auto simp: off_list_def)
  show ?thesis
    unfolding sched_inv_def x e
  proof (intro conjI allI impI)
    show "tls (k_lists ?s) L (dom (k_threads ?s))" using sched_invD(1) [OF inv] unfolding d by simp
    show "L l \<noteq> None" if "list_exists s l" for l using sched_invD(2) [OF inv that] by auto
    show "\<exists>th. k_threads ?s u = Some th \<and> place_ok (k_ncpus ?s) l th" if "L l = Some ts" "u \<in> set ts" for l ts u
      using sched_invD(3) [OF inv that] n [OF that(1)] that(2) by auto
    show "off_list L u" if "running s k u \<and> k \<noteq> c" for k u using sched_invD(4) [OF inv] that by blast
    show "\<exists>th. k_threads ?s u = Some th \<and> t_state th \<in> {S_RUN, S_READY} \<and> t_cpu th = Some k"
      if "running s k u \<and> k \<noteq> c" for k u using sched_invD(5) [OF inv, of k u] nr [of k u] that by auto
    show "stack_ok tu" if "k_threads ?s u = Some tu" for u tu
      using that sched_invD(6) [OF inv] t by (auto split: if_splits)
    show "u \<in> {cur} \<or> (\<exists>k. running s k u \<and> k \<noteq> c)" if "k_threads ?s u = Some tu" "off_list L u" for u tu
    proof (cases "u = cur")
      case False
      then have "\<exists>k. running s k u" using that sched_invD(7) [OF inv, of u] by auto
      then show ?thesis using False r by (auto simp: running_def)
    qed simp
  qed
qed

lemma sched_park:
  assumes inv: "sched_inv s L {}" and r: "running s c cur" and t: "k_threads s cur = Some th" "stack_ok (g th)"
    and l: "L l = Some q" "place_ok (k_ncpus s) l (g th)"
  shows "\<exists>h. threadlist_addtail l cur (k_lists s) = Ok () h \<and>
    sched_inv (upd_cpu c (\<lambda>p. p\<lparr>c_isidle := True\<rparr>) (upd_thread cur g (s\<lparr>k_lists := h\<rparr>))) (L(l \<mapsto> q @ [cur])) {}"
proof -
  let ?s = "upd_cpu c (\<lambda>p. p\<lparr>c_isidle := True\<rparr>) (upd_thread cur g s)"
  note st = sched_stop [of s L c cur th g, OF inv r t]
  have nr: "\<not> running ?s k cur" for k
    using sched_invD(5) [OF inv, of k cur] sched_invD(5) [OF inv r] r by (auto simp: running_def split: if_splits)
  have "k_threads ?s cur = Some (g th)" using t(1) by simp
  from sched_enter [OF st this sched_invD(4) [OF inv r] nr l(1)] l(2) obtain h where
    h: "threadlist_addtail l cur (k_lists s) = Ok () h" "sched_inv (?s\<lparr>k_lists := h\<rparr>) (L(l \<mapsto> q @ [cur])) {}"
    by (auto simp del: fun_upd_apply)
  moreover have "?s\<lparr>k_lists := h\<rparr> = upd_cpu c (\<lambda>p. p\<lparr>c_isidle := True\<rparr>) (upd_thread cur g (s\<lparr>k_lists := h\<rparr>))"
    by (simp add: upd_cpu_def upd_thread_def)
  ultimately show ?thesis by metis
qed

lemma leave_pick:
  assumes inv: "sched_inv s L {}" and cur: "cur_inv s" and st: "\<And>k. L (StackList k) = None" and lk: "rq_locked c s"
    and ipi: "ipi_inv s L {}" and r: "running s c t" and t: "k_threads s t = Some th" "stack_ok (g th)" "t_cpu (g th) = t_cpu th"
    and l: "L l = Some q" "place_ok (k_ncpus s) l (g th)"
  shows "\<exists>h s'. threadlist_addtail l t (k_lists s) = Ok () h \<and>
    switch_pick c (upd_cpu c (\<lambda>p. p\<lparr>c_isidle := True\<rparr>) (upd_thread t g (s\<lparr>k_lists := h\<rparr>))) = Ok () s' \<and>
    refines s' (a_leave c l \<lparr>a_cpu = homes s, a_run = runs s, a_q = L\<rparr>) \<and> k_ncpus s' = k_ncpus s \<and> k_wchans s' = k_wchans s"
proof -
  let ?L = "L(l \<mapsto> q @ [t])"
  from sched_park [of s L c t th g l q, OF inv r t(1,2) l] obtain h where
    h: "threadlist_addtail l t (k_lists s) = Ok () h"
    "sched_inv (upd_cpu c (\<lambda>p. p\<lparr>c_isidle := True\<rparr>) (upd_thread t g (s\<lparr>k_lists := h\<rparr>))) ?L {}" by blast
  define s3 where "s3 = upd_cpu c (\<lambda>p. p\<lparr>c_isidle := True\<rparr>) (upd_thread t g (s\<lparr>k_lists := h\<rparr>))"
  have cpu: "t_cpu th = Some c" using sched_invD(5) [OF inv r] t(1) by auto
  have ll: "l \<noteq> StackList k" for k using l(1) st by auto
  have lr: "l = RunQ k \<Longrightarrow> k = c" for k using l(2) t(3) cpu by auto
  have c: "c < k_ncpus s" using r by (simp add: running_def)
  have i: "sched_inv s3 ?L {}" using h(2) by (simp only: s3_def)
  have st3: "?L (StackList k) = None" for k using st ll [of k] by auto
  have cu: "cur_inv s3"
    by (rule cur_inv_cong [OF cur]) (use t in \<open>auto simp: s3_def\<close>)
  have lk3: "rq_locked c s3" using lk by (auto simp: rq_locked_def s3_def)
  have ipi3: "ipi_inv s3 ?L {c}" using ipi lr unfolding ipi_inv_def by (auto simp: s3_def)
  have c3: "c < k_ncpus s3" "c_isidle (k_cpus s3 c)" using c by (simp_all add: s3_def)
  have pk: "a_pick c \<lparr>a_cpu = x, a_run = y(c := z), a_q = M\<rparr> = a_pick c \<lparr>a_cpu = x, a_run = y, a_q = M\<rparr>" for x y z M
    by (simp add: a_pick_def split: option.splits list.splits cong: if_cong)
  have "homes s3 = homes s" using t by (simp add: s3_def homes_thread)
  moreover have "runs s3 = (runs s)(c := None)" using c by (auto simp: s3_def runs_def)
  ultimately have e: "a_pick c \<lparr>a_cpu = homes s3, a_run = runs s3, a_q = ?L\<rparr> = a_leave c l \<lparr>a_cpu = homes s, a_run = runs s, a_q = L\<rparr>"
    using r l(1) by (simp only: pk) (simp add: a_leave_def a_put_def runs_running [symmetric])
  from switch_pick_ok [OF i cu st3 lk3 ipi3 c3] obtain s' where "switch_pick c s3 = Ok () s'"
    "refines s' (a_leave c l \<lparr>a_cpu = homes s, a_run = runs s, a_q = L\<rparr>)" "k_ncpus s' = k_ncpus s3" "k_wchans s' = k_wchans s3"
    unfolding e by blast
  then show ?thesis using h(1) by (intro exI [of _ h] exI [of _ s']) (simp add: s3_def)
qed

lemma checkstack_ok: "k_threads s t = Some th \<Longrightarrow> stack_ok th \<Longrightarrow> thread_checkstack t s = Ok () s"
  by (auto simp: thread_checkstack_def stack_ok_def split: option.splits)

lemma refinesD:
  assumes "refines s a"
  shows "kern_ok s (a_q a)" "a_cpu a = homes s" "a_run a = runs s" "a = \<lparr>a_cpu = homes s, a_run = runs s, a_q = a_q a\<rparr>"
  using assms by (simp_all add: refines_def)

lemma lock_unlock: "c_runqueue_lock (k_cpus s k) = None \<Longrightarrow>
  upd_cpu k (\<lambda>p. p\<lparr>c_runqueue_lock := None\<rparr>) (upd_cpu k (\<lambda>p. p\<lparr>c_runqueue_lock := Some c\<rparr>) s) = s"
  by (simp add: upd_cpu_def cpu_lock_restore)

lemma leave_refines:
  assumes a: "refines s a" and r: "running s c t" and th: "k_threads s t = Some th" "stack_ok (g th)" "t_cpu (g th) = t_cpu th"
    and l: "a_q a l = Some q" "place_ok (k_ncpus s) l (g th)"
  shows "\<exists>h s'. threadlist_addtail l t (k_lists s) = Ok () h \<and>
    switch_pick c (upd_cpu c (\<lambda>p. p\<lparr>c_isidle := True\<rparr>) (upd_thread t g ((upd_cpu c (\<lambda>p. p\<lparr>c_runqueue_lock := Some c\<rparr>) s)\<lparr>k_lists := h\<rparr>))) = Ok () s' \<and>
    refines s' (a_leave c l a) \<and> k_ncpus s' = k_ncpus s \<and> k_wchans s' = k_wchans s"
proof -
  note k = kern_okD [OF refinesD(1) [OF a]]
  define s1 where "s1 = upd_cpu c (\<lambda>p. p\<lparr>c_runqueue_lock := Some c\<rparr>) s"
  have i1: "sched_inv s1 (a_q a) {}" "ipi_inv s1 (a_q a) {}" "rq_locked c s1" "running s1 c t"
    using k(1,2,3) r by (simp_all add: s1_def locks_acquire)
  have cu: "cur_inv s1" by (rule cur_inv_cong [OF k(4)]) (simp_all add: s1_def)
  have th1: "k_threads s1 t = Some th" using th(1) by (simp add: s1_def)
  have p: "place_ok (k_ncpus s1) l (g th)" using l(2) by (simp add: s1_def)
  have e: "\<lparr>a_cpu = homes s1, a_run = runs s1, a_q = a_q a\<rparr> = a" using refinesD(4) [OF a] by (simp add: s1_def)
  have "k_lists s1 = k_lists s" "k_ncpus s1 = k_ncpus s" "k_wchans s1 = k_wchans s" by (simp_all add: s1_def)
  then show ?thesis
    using leave_pick [of s1 "a_q a" c t th g l q, OF i1(1) cu k(5) i1(3,2,4) th1 th(2,3) l(1) p]
    unfolding s1_def [symmetric] e by simp
qed

text \<open>Yielding: round robin.\<close>

lemma thread_yield_refines:
  assumes a: "refines s a" and c: "c < k_ncpus s"
  shows "\<exists>s'. thread_yield c s = Ok () s' \<and> refines s' (a_yield c a) \<and> k_ncpus s' = k_ncpus s \<and> k_wchans s' = k_wchans s"
proof (cases "c_isidle (k_cpus s c)")
  case True
  then have "runs s c = None" by (simp add: runs_def)
  then show ?thesis using a True by (simp add: thread_yield_def thread_switch_def a_yield_def a_leave_def refinesD(3))
next
  case False
  define t where "t = c_curthread (k_cpus s c)"
  note k = kern_okD [OF refinesD(1) [OF a]]
  have r: "running s c t" using c False by (simp add: running_def t_def)
  obtain th where th: "k_threads s t = Some th" "t_cpu th = Some c" using sched_invD(5) [OF k(1) r] by auto
  obtain q where q: "a_q a (RunQ c) = Some q" using sched_invD(2) [OF k(1), of "RunQ c"] c by auto
  define s1 where "s1 = upd_cpu c (\<lambda>p. p\<lparr>c_runqueue_lock := Some c\<rparr>) s"
  have free: "c_runqueue_lock (k_cpus s c) = None" using k(3) by (simp add: locks_free_def)
  have acq: "rq_acquire c c s = Ok () s1" unfolding s1_def by (rule rq_acquire_eq [OF free])
  have chk: "thread_checkstack t s = Ok () s" using checkstack_ok th(1) sched_invD(6) [OF k(1)] by blast
  have em: "threadlist_isempty (RunQ c) (k_lists s1) \<longleftrightarrow> q = []"
    using tls_isempty [OF sched_invD(1) [OF k(1)] q] by (simp add: s1_def)
  show ?thesis
  proof (cases "q = []")
    case True
    have "rq_release c c s1 = Ok () s" using rq_release_eq [of s1 c c] lock_unlock [OF free] by (simp add: s1_def)
    then show ?thesis using a q True False chk acq em by (simp add: thread_yield_def thread_switch_def a_yield_def t_def [symmetric])
  next
    case ne: False
    define g where "g = (\<lambda>th :: thread. th\<lparr>t_state := S_READY\<rparr>)"
    have g: "stack_ok (g th)" "t_cpu (g th) = t_cpu th" "place_ok (k_ncpus s) (RunQ c) (g th)"
      using th sched_invD(6) [OF k(1) th(1)] c by (simp_all add: g_def stack_ok_def)
    from leave_refines [of s a c t th g "RunQ c" q, OF a r th(1) g(1,2) q g(3)]
    obtain h s' where h: "threadlist_addtail (RunQ c) t (k_lists s) = Ok () h"
      "switch_pick c (upd_cpu c (\<lambda>p. p\<lparr>c_isidle := True\<rparr>) (upd_thread t g (s1\<lparr>k_lists := h\<rparr>))) = Ok () s'"
      "refines s' (a_leave c (RunQ c) a)" "k_ncpus s' = k_ncpus s" "k_wchans s' = k_wchans s" unfolding s1_def by blast
    have th1: "k_threads s1 t = Some th" "threadlist_addtail (RunQ c) t (k_lists s1) = Ok () h"
      "c_runqueue_lock (k_cpus s1 c) = Some c" "c_ipi_lock (k_cpus s1 c) = None"
      using th(1) h(1) k(3) by (simp_all add: s1_def locks_free_def)
    have "thread_make_runnable c t True s1 = Ok () (kick c (s1\<lparr>k_lists := h\<rparr>))"
      by (rule make_runnable_eq(2) [OF th1(1) th(2) th1(4,2,3)])
    moreover have "kick c (s1\<lparr>k_lists := h\<rparr>) = s1\<lparr>k_lists := h\<rparr>" using False by (simp add: kick_def s1_def)
    ultimately have "thread_yield c s = Ok () s'"
      using False chk acq em ne h(2)
      by (simp add: thread_yield_def thread_switch_def t_def [symmetric] g_def)
    then show ?thesis using h(3-5) q ne by (simp add: a_yield_def)
  qed
qed

lemma running_thread:
  assumes inv: "sched_inv s L {}" and r: "running s c t"
  obtains th where "k_threads s t = Some th" "t_cpu th = Some c" "stack_ok th" "t_state th \<in> {S_RUN, S_READY}"
    "thread_checkstack t s = Ok () s" "c_curthread (k_cpus s c) = t" "\<not> c_isidle (k_cpus s c)" "c < k_ncpus s"
proof -
  obtain th where th: "k_threads s t = Some th" "t_cpu th = Some c" "t_state th \<in> {S_RUN, S_READY}"
    using sched_invD(5) [OF inv r] by auto
  then have "stack_ok th" using sched_invD(6) [OF inv] by blast
  then show ?thesis using that th checkstack_ok r by (auto simp: running_def)
qed

lemma refines_upd_thread:
  assumes a: "refines s a" and r: "running s c t" and th: "k_threads s t = Some th"
    and g: "t_cpu (g th) = t_cpu th" "t_state (g th) = t_state th" "t_stack (g th) = t_stack th"
  shows "refines (upd_thread t g s) a"
proof -
  note k = kern_okD [OF refinesD(1) [OF a]]
  have off: "a_q a l = Some q \<Longrightarrow> t \<notin> set q" for l q using sched_invD(4) [OF k(1) r] by (auto simp: off_list_def)
  have "stack_ok (g th)" using sched_invD(6) [OF k(1) th] g(3) by (simp add: stack_ok_def)
  moreover have "t_state (g th) \<in> {S_RUN, S_READY} \<and> t_cpu (g th) = Some k" if "running s k t" for k
    using sched_invD(5) [OF k(1) that] th g by auto
  ultimately have "sched_inv (upd_thread t g s) (a_q a) {}"
    using sched_upd_thread [of s "a_q a" "{}" t th g, OF k(1) th] off by blast
  moreover have "cur_inv (upd_thread t g s)" by (rule cur_inv_cong [OF k(4)]) (use th g in auto)
  ultimately show ?thesis using k(2,3,5) refinesD(2,3) [OF a] homes_thread [of s t th g, OF th g(1)]
    by (simp add: refines_def kern_ok_def)
qed

lemma thread_switch_zombie:
  assumes a: "refines s a" and r: "a_run a c = Some t" and th: "k_threads s t = Some th" "t_cwd th = None" "t_addrspace th = None"
  shows "\<exists>s'. thread_switch c S_ZOMBIE wc s = Ok () s' \<and> refines s' (a_leave c (Zombies c) a) \<and> k_ncpus s' = k_ncpus s \<and> k_wchans s' = k_wchans s"
proof -
  note k = kern_okD [OF refinesD(1) [OF a]]
  have r: "running s c t" using r refinesD(3) [OF a] by (simp add: runs_running)
  have run: "t_cpu th = Some c" "stack_ok th" "thread_checkstack t s = Ok () s" "c_curthread (k_cpus s c) = t"
    "\<not> c_isidle (k_cpus s c)" "c < k_ncpus s" using running_thread [OF k(1) r] th(1) by (metis option.inject)+
  obtain q where q: "a_q a (Zombies c) = Some q" using sched_invD(2) [OF k(1), of "Zombies c"] run(6) by auto
  define s1 where "s1 = upd_cpu c (\<lambda>p. p\<lparr>c_runqueue_lock := Some c\<rparr>) s"
  have acq: "rq_acquire c c s = Ok () s1" unfolding s1_def using k(3) by (intro rq_acquire_eq) (simp add: locks_free_def)
  define g where "g = (\<lambda>th :: thread. th\<lparr>t_wchan_name := Some ''ZOMBIE'', t_state := S_ZOMBIE\<rparr>)"
  have g: "stack_ok (g th)" "t_cpu (g th) = t_cpu th" "place_ok (k_ncpus s) (Zombies c) (g th)"
    using th run by (simp_all add: g_def stack_ok_def)
  from leave_refines [of s a c t th g "Zombies c" q, OF a r th(1) g(1,2) q g(3)]
  obtain h s' where h: "threadlist_addtail (Zombies c) t (k_lists s) = Ok () h"
    "switch_pick c (upd_cpu c (\<lambda>p. p\<lparr>c_isidle := True\<rparr>) (upd_thread t g (s1\<lparr>k_lists := h\<rparr>))) = Ok () s'"
    "refines s' (a_leave c (Zombies c) a)" "k_ncpus s' = k_ncpus s" "k_wchans s' = k_wchans s" unfolding s1_def by blast
  have h1: "threadlist_addtail (Zombies c) t (k_lists s1) = Ok () h" using h(1) by (simp add: s1_def)
  have "upd_thread t (\<lambda>th. th\<lparr>t_state := S_ZOMBIE\<rparr>) ((upd_thread t (\<lambda>th. th\<lparr>t_wchan_name := Some ''ZOMBIE''\<rparr>) s1)\<lparr>k_lists := h\<rparr>)
    = upd_thread t g (s1\<lparr>k_lists := h\<rparr>)" by (simp add: upd_thread_def g_def option.map_comp comp_def)
  then have "thread_switch c S_ZOMBIE wc s = Ok () s'" using run acq h1 h(2) by (simp add: thread_switch_def)
  then show ?thesis using h(3-5) by blast
qed

lemma thread_exit_refines:
  assumes a: "refines s a" and r: "a_run a c = Some t"
  shows "\<exists>s'. thread_exit c s = Ok () s' \<and> refines s' (a_leave c (Zombies c) a) \<and> k_ncpus s' = k_ncpus s \<and> k_wchans s' = k_wchans s"
proof -
  have rr: "running s c t" using r refinesD(3) [OF a] by (simp add: runs_running)
  from running_thread [OF kern_okD(1) [OF refinesD(1) [OF a]] rr] obtain th
    where th: "k_threads s t = Some th" "c_curthread (k_cpus s c) = t" by blast
  define s1 where "s1 = upd_thread t (\<lambda>th. th\<lparr>t_cwd := None\<rparr>) s"
  have a1: "refines s1 a" unfolding s1_def by (rule refines_upd_thread [OF a rr th(1)]) simp_all
  have r1: "running s1 c t" using rr by (simp add: s1_def running_def)
  define s2 where "s2 = upd_thread t (\<lambda>th. th\<lparr>t_addrspace := None\<rparr>) s1"
  have "k_threads s1 t = Some (th\<lparr>t_cwd := None\<rparr>)" using th by (simp add: s1_def)
  then have a2: "refines s2 a" unfolding s2_def by (rule refines_upd_thread [OF a1 r1]) simp_all
  have r2: "running s2 c t" using rr by (simp add: s2_def s1_def running_def)
  have t2: "k_threads s2 t = Some (th\<lparr>t_cwd := None, t_addrspace := None\<rparr>)" using th by (simp add: s2_def s1_def)
  have "thread_checkstack t s2 = Ok () s2" using running_thread [OF kern_okD(1) [OF refinesD(1) [OF a2]] r2] by blast
  then have "thread_exit c s = thread_switch c S_ZOMBIE None s2" using th(2) by (simp add: thread_exit_def s2_def s1_def)
  then show ?thesis using thread_switch_zombie [OF a2 r t2, of None] by (simp add: s2_def s1_def)
qed

text \<open>Going to sleep on a wait channel that is locked; \<open>unlocked w s\<close> is the state with that lock free.\<close>

definition unlocked :: "nat \<Rightarrow> kern \<Rightarrow> kern" where
  "unlocked w s = upd_wchan w (\<lambda>wc. wc\<lparr>wc_lock := None\<rparr>) s"

lemma wchan_sleep_refines:
  assumes a: "refines (unlocked w s) a" and wc: "k_wchans s w = Some wc" "wc_lock wc = Some c"
    and r: "a_run a c = Some t" and th: "k_threads s t = Some th" "\<not> t_in_interrupt th"
  shows "\<exists>s'. wchan_sleep c w s = Ok () s' \<and> refines s' (a_leave c (WchanList w) a) \<and>
    k_ncpus s' = k_ncpus s \<and> k_wchans s' = k_wchans (unlocked w s)"
proof -
  define u where "u = unlocked w s"
  note k = kern_okD [OF refinesD(1) [OF a], folded u_def]
  have us: "k_threads u = k_threads s" "k_cpus u = k_cpus s" "k_ncpus u = k_ncpus s" "k_lists u = k_lists s"
    by (simp_all add: u_def unlocked_def)
  have r: "running u c t" using r refinesD(3) [OF a] by (simp add: runs_running u_def)
  have th': "k_threads u t = Some th" using th(1) us by simp
  have run: "t_cpu th = Some c" "stack_ok th" "thread_checkstack t u = Ok () u" "c_curthread (k_cpus u c) = t"
    "\<not> c_isidle (k_cpus u c)" "c < k_ncpus u" using running_thread [OF k(1) r] th' by (metis option.inject)+
  have chk: "thread_checkstack t s = Ok () s" by (rule checkstack_ok [OF th(1) run(2)])
  obtain q where q: "a_q a (WchanList w) = Some q"
    using sched_invD(2) [OF k(1), of "WchanList w"] wc by (auto simp: u_def unlocked_def)
  define g where "g = (\<lambda>th :: thread. th\<lparr>t_wchan_name := Some (wc_name wc), t_state := S_SLEEP\<rparr>)"
  define s1 where "s1 = upd_cpu c (\<lambda>p. p\<lparr>c_runqueue_lock := Some c\<rparr>) s"
  have acq: "rq_acquire c c s = Ok () s1" unfolding s1_def using k(3) us
    by (intro rq_acquire_eq) (simp add: locks_free_def)
  have g: "stack_ok (g th)" "t_cpu (g th) = t_cpu th" "place_ok (k_ncpus u) (WchanList w) (g th)"
    using run by (simp_all add: g_def stack_ok_def)
  from leave_refines [of u a c t th g "WchanList w" q, OF _ r th' g(1,2) q g(3)] a
  obtain h s' where h: "threadlist_addtail (WchanList w) t (k_lists u) = Ok () h"
    "switch_pick c (upd_cpu c (\<lambda>p. p\<lparr>c_isidle := True\<rparr>) (upd_thread t g ((upd_cpu c (\<lambda>p. p\<lparr>c_runqueue_lock := Some c\<rparr>) u)\<lparr>k_lists := h\<rparr>))) = Ok () s'"
    "refines s' (a_leave c (WchanList w) a)" "k_ncpus s' = k_ncpus u" "k_wchans s' = k_wchans u" unfolding u_def by blast
  have h1: "threadlist_addtail (WchanList w) t (k_lists s1) = Ok () h" using h(1) us by (simp add: s1_def)
  let ?s2 = "(upd_thread t (\<lambda>th. th\<lparr>t_wchan_name := Some (wc_name wc)\<rparr>) s1)\<lparr>k_lists := h\<rparr>"
  have ul: "wchan_unlock c w ?s2 = Ok () (upd_wchan w (\<lambda>wc. wc\<lparr>wc_lock := None\<rparr>) ?s2)"
    using wc by (simp add: wchan_unlock_def spinlock_release_def s1_def)
  have "upd_thread t (\<lambda>th. th\<lparr>t_state := S_SLEEP\<rparr>) (upd_wchan w (\<lambda>wc. wc\<lparr>wc_lock := None\<rparr>) ?s2)
    = upd_thread t g ((upd_cpu c (\<lambda>p. p\<lparr>c_runqueue_lock := Some c\<rparr>) u)\<lparr>k_lists := h\<rparr>)"
    by (simp add: upd_thread_def upd_wchan_def upd_cpu_def s1_def u_def unlocked_def g_def option.map_comp comp_def)
  then have "thread_switch c S_SLEEP (Some w) s = Ok () s'"
    using run us chk acq h1 ul h(2) wc by (simp add: thread_switch_def s1_def)
  then show ?thesis using h(3-5) th run(4) us by (simp add: wchan_sleep_def u_def)
qed

section \<open>Waking threads\<close>

lemma ipi_kick:
  assumes "ipi_inv s L {}"
  shows "ipi_inv (kick k s) (L(RunQ k := x)) {}"
  unfolding ipi_inv_def kick_halt
proof (intro conjI allI impI)
  fix c
  assume c: "c < k_ncpus (kick k s)" "c_isidle (k_cpus (kick k s) c)" "(L(RunQ k := x)) (RunQ c) \<noteq> Some []"
  show "bit (c_ipi_pending (k_cpus (kick k s) c)) IPI_UNIDLE"
  proof (cases "c = k")
    case True
    then show ?thesis using c(2) by (auto intro: kick_pending(2))
  next
    case False
    then show ?thesis using assms c by (intro kick_pending(1)) (auto simp: ipi_inv_def)
  qed
qed (use assms in \<open>auto simp: ipi_inv_def\<close>)

lemma make_runnable_ok:
  assumes inv: "sched_inv s L F" and ipi: "ipi_inv s L {}" and lk: "locks_free s"
    and t: "k_threads s t = Some th" "t_cpu th = Some k" "k < k_ncpus s" "t_state th \<in> {S_READY, S_SLEEP}"
    and off: "off_list L t" "\<And>c. \<not> running s c t"
  shows "\<exists>h. thread_make_runnable c t False s = Ok () (kick k (s\<lparr>k_lists := h\<rparr>)) \<and>
    sched_inv (kick k (s\<lparr>k_lists := h\<rparr>)) (L(RunQ k \<mapsto> the (L (RunQ k)) @ [t])) (F - {t}) \<and>
    ipi_inv (kick k (s\<lparr>k_lists := h\<rparr>)) (L(RunQ k \<mapsto> the (L (RunQ k)) @ [t])) {}"
proof -
  obtain q where q: "L (RunQ k) = Some q" using sched_invD(2) [OF inv, of "RunQ k"] t(3) by auto
  have p: "place_ok (k_ncpus s) (RunQ k) th" using t by simp
  from sched_enter [OF inv t(1) off q p] obtain h where h: "threadlist_addtail (RunQ k) t (k_lists s) = Ok () h"
    "sched_inv (s\<lparr>k_lists := h\<rparr>) (L(RunQ k \<mapsto> q @ [t])) (F - {t})" by blast
  have l: "c_ipi_lock (k_cpus s k) = None" "c_runqueue_lock (k_cpus s k) = None" using lk by (simp_all add: locks_free_def)
  have "ipi_inv (kick k (s\<lparr>k_lists := h\<rparr>)) (L(RunQ k \<mapsto> q @ [t])) {}" using ipi by (intro ipi_kick) simp
  then show ?thesis using make_runnable_eq(1) [OF t(1,2) l(1) h(1) l(2)] h(2) q by (intro exI [of _ h]) simp
qed

lemma wchan_lock_eq: "k_wchans s w = Some wc \<Longrightarrow> wc_lock wc = None \<Longrightarrow>
  wchan_lock c w s = Ok () (upd_wchan w (\<lambda>wc. wc\<lparr>wc_lock := Some c\<rparr>) s)"
  by (simp add: wchan_lock_def spinlock_acquire_def)

lemma wchan_unlock_eq:
  assumes "k_wchans s w = Some wc" "wc_lock wc = None"
  shows "wchan_unlock c w ((upd_wchan w (\<lambda>wc. wc\<lparr>wc_lock := Some c\<rparr>) s)\<lparr>k_lists := h\<rparr>) = Ok () (s\<lparr>k_lists := h\<rparr>)"
  using assms by (simp add: wchan_unlock_def spinlock_release_def upd_wchan_def wchan_lock_restore fun_upd_idem)

lemma wchan_ex:
  assumes "kern_ok s L" "k_wchans s w = Some wc"
  shows "\<exists>ts. L (WchanList w) = Some ts" "wc_lock wc = None"
  using sched_invD(2) [OF kern_okD(1) [OF assms(1)], of "WchanList w"] kern_okD(3) [OF assms(1)] assms(2)
  by (auto simp: locks_free_def)

lemma wchan_wakeone_refines:
  assumes a: "refines s a" and w: "k_wchans s w = Some wc"
  shows "\<exists>s'. wchan_wakeone c w s = Ok () s' \<and> refines s' (a_wakeone w a) \<and> k_ncpus s' = k_ncpus s \<and> k_wchans s' = k_wchans s"
proof -
  note k = kern_okD [OF refinesD(1) [OF a]]
  obtain ts where ts: "a_q a (WchanList w) = Some ts" using wchan_ex(1) [OF refinesD(1) [OF a] w] by blast
  note wl = wchan_ex(2) [OF refinesD(1) [OF a] w]
  note lk = wchan_lock_eq [OF w wl] and ul = wchan_unlock_eq [OF w wl]
  show ?thesis
  proof (cases ts)
    case Nil
    then have "threadlist_remhead (WchanList w) (k_lists s) = Ok None (k_lists s)"
      using tls_remhead_Nil [OF sched_invD(1) [OF k(1)]] ts by simp
    then have "wchan_wakeone c w s = Ok () s" using lk [of c] ul [of c "k_lists s"] by (simp add: wchan_wakeone_def)
    then show ?thesis using a ts Nil by (simp add: a_wakeone_def)
  next
    case (Cons t q)
    then have l: "a_q a (WchanList w) = Some (t # q)" using ts by simp
    note lv = sched_leave [OF k(1) l]
    obtain h where h: "threadlist_remhead (WchanList w) (k_lists s) = Ok (Some t) h"
      "sched_inv (s\<lparr>k_lists := h\<rparr>) ((a_q a)(WchanList w \<mapsto> q)) {t}" using lv(1) by blast
    obtain th j where th: "k_threads s t = Some th" "t_cpu th = Some j" "j < k_ncpus s" "t_state th \<in> {S_READY, S_SLEEP}"
      using lv(2) by auto
    have ipi: "ipi_inv (s\<lparr>k_lists := h\<rparr>) ((a_q a)(WchanList w \<mapsto> q)) {}" using k(2) by (simp add: ipi_inv_def)
    define s2 where "s2 = s\<lparr>k_lists := h\<rparr>"
    let ?L = "(a_q a)(WchanList w \<mapsto> q)" and ?R = "(a_q a)(WchanList w \<mapsto> q, RunQ j \<mapsto> the (a_q a (RunQ j)) @ [t])"
    from make_runnable_ok [of s2 ?L "{t}" t th j c] h(2) ipi k(3) th lv(3,4)
    obtain h' where h': "thread_make_runnable c t False s2 = Ok () (kick j (s2\<lparr>k_lists := h'\<rparr>))"
      "sched_inv (kick j (s2\<lparr>k_lists := h'\<rparr>)) ?R {}" "ipi_inv (kick j (s2\<lparr>k_lists := h'\<rparr>)) ?R {}"
      by (auto simp: s2_def fun_upd_other simp del: fun_upd_apply)
    have "wchan_wakeone c w s = Ok () (kick j (s2\<lparr>k_lists := h'\<rparr>))"
      using lk [of c] ul [of c h] h(1) h'(1) by (simp add: wchan_wakeone_def s2_def)
    moreover have "a_cpu a t = Some j" using th refinesD(2) [OF a] by (simp add: homes_def)
    ultimately show ?thesis using h'(2,3) k refinesD(2,3) [OF a] l
      by (intro exI [of _ "kick j (s2\<lparr>k_lists := h'\<rparr>)"])
        (simp add: refines_def kern_ok_def a_wakeone_def a_wake_def s2_def del: fun_upd_apply add: fun_upd_other)
  qed
qed

text \<open>Inside an operation the list on its stack exists too.\<close>

definition kern_mid :: "kern \<Rightarrow> (tlid \<Rightarrow> nat list option) \<Rightarrow> bool" where
  "kern_mid s L \<longleftrightarrow> sched_inv s L {} \<and> ipi_inv s L {} \<and> locks_free s \<and> cur_inv s"

lemma kern_midD:
  assumes "kern_mid s L"
  shows "sched_inv s L {}" "ipi_inv s L {}" "locks_free s" "cur_inv s"
  using assms by (simp_all add: kern_mid_def)

lemma kern_ok_mid: "kern_ok s L \<longleftrightarrow> kern_mid s L \<and> (\<forall>c. L (StackList c) = None)"
  by (auto simp: kern_ok_def kern_mid_def)

text \<open>The lists change, the threads do not.\<close>

lemma sched_relist:
  assumes inv: "sched_inv s L F" and h: "tls h L' (dom (k_threads s))"
    and x: "\<And>l. list_exists s l \<Longrightarrow> L' l \<noteq> None" and off: "\<And>t. off_list L' t \<longleftrightarrow> off_list L t"
    and p: "\<And>l ts t. L' l = Some ts \<Longrightarrow> t \<in> set ts \<Longrightarrow> \<exists>th. k_threads s t = Some th \<and> place_ok (k_ncpus s) l th"
  shows "sched_inv (s\<lparr>k_lists := h\<rparr>) L' F"
  using inv h x p unfolding sched_inv_def off by simp

lemma kern_relist:
  assumes k: "kern_mid s L" and h: "tls h L' (dom (k_threads s))"
    and x: "\<And>l. list_exists s l \<Longrightarrow> L' l \<noteq> None" and off: "\<And>t. off_list L' t \<longleftrightarrow> off_list L t"
    and p: "\<And>l ts t. L' l = Some ts \<Longrightarrow> t \<in> set ts \<Longrightarrow> \<exists>th. k_threads s t = Some th \<and> place_ok (k_ncpus s) l th"
    and r: "\<And>c. c < k_ncpus s \<Longrightarrow> L' (RunQ c) = L (RunQ c)"
  shows "kern_mid (s\<lparr>k_lists := h\<rparr>) L'"
proof -
  have "sched_inv (s\<lparr>k_lists := h\<rparr>) L' {}" by (rule sched_relist [OF kern_midD(1) [OF k] h x off p])
  moreover have "ipi_inv (s\<lparr>k_lists := h\<rparr>) L' {}" using kern_midD(2) [OF k] r by (simp add: ipi_inv_def)
  ultimately show ?thesis using kern_midD(3,4) [OF k] by (simp add: kern_mid_def)
qed

lemma off_listD: "off_list L t \<Longrightarrow> L k = Some ts \<Longrightarrow> t \<notin> set ts"
  by (auto simp: off_list_def)

lemma off_list_empty:
  assumes "L l = None \<or> L l = Some []" "x = None \<or> x = Some []"
  shows "off_list (L(l := x)) t = off_list L t"
proof
  assume o: "off_list (L(l := x)) t"
  show "off_list L t" unfolding off_list_def
  proof (intro allI impI)
    fix k ts
    assume "L k = Some ts"
    then show "t \<notin> set ts" using off_listD [OF o, of k ts] assms(1) by (cases "k = l") auto
  qed
next
  assume "off_list L t"
  then show "off_list (L(l := x)) t" using assms(2) by (auto simp: off_list_def split: if_splits)
qed

lemma off_list_move:
  assumes "L k = Some ts" "L l = None \<or> L l = Some []" "k \<noteq> l"
  shows "off_list (L(k \<mapsto> [], l \<mapsto> ts)) t = off_list L t"
proof
  assume o: "off_list (L(k \<mapsto> [], l \<mapsto> ts)) t"
  show "off_list L t" unfolding off_list_def
  proof (intro allI impI)
    fix j us
    assume "L j = Some us"
    moreover have "t \<notin> set ts" using off_listD [OF o, of l ts] by simp
    ultimately show "t \<notin> set us" using off_listD [OF o, of j us] assms by (cases "j = k"; cases "j = l") auto
  qed
next
  assume "off_list L t"
  then show "off_list (L(k \<mapsto> [], l \<mapsto> ts)) t" using assms by (auto simp: off_list_def split: if_splits)
qed

lemma kern_stack_init:
  assumes k: "kern_mid s L" and n: "L (StackList c) = None"
  shows "kern_mid (s\<lparr>k_lists := threadlist_init (StackList c) (k_lists s)\<rparr>) (L(StackList c \<mapsto> []))"
proof (rule kern_relist [OF k tls_init [OF sched_invD(1) [OF kern_midD(1) [OF k]] n]])
  show "off_list (L(StackList c \<mapsto> [])) t = off_list L t" for t
    using n by (intro off_list_empty) auto
qed (use sched_invD(2,3) [OF kern_midD(1) [OF k]] in \<open>auto split: if_splits\<close>)

lemma kern_stack_cleanup:
  assumes k: "kern_mid s L" and n: "L (StackList c) = Some []"
  shows "on_lists (threadlist_cleanup (StackList c)) s = Ok () s" "kern_mid s (L(StackList c := None))"
proof -
  note t = sched_invD(1) [OF kern_midD(1) [OF k]]
  show "on_lists (threadlist_cleanup (StackList c)) s = Ok () s"
    using tls_cleanup [OF t n] by (simp add: on_lists_def)
  have "kern_mid (s\<lparr>k_lists := k_lists s\<rparr>) (L(StackList c := None))"
  proof (rule kern_relist [OF k tls_forget [OF t n]])
    show "off_list (L(StackList c := None)) t = off_list L t" for t using n by (intro off_list_empty) auto
    show "(L(StackList c := None)) l \<noteq> None" if "list_exists s l" for l
      using that sched_invD(2) [OF kern_midD(1) [OF k] that] by auto
  qed (use sched_invD(3) [OF kern_midD(1) [OF k]] in \<open>auto split: if_splits\<close>)
  then show "kern_mid s (L(StackList c := None))" by simp
qed

lemma wake_loop_ok:
  assumes "kern_mid s L" "L (StackList c) = Some ts" "length ts < n"
  shows "\<exists>s'. wake_loop n c s = Ok () s' \<and>
    kern_mid s' (a_q (fold a_wake ts \<lparr>a_cpu = homes s, a_run = runs s, a_q = L(StackList c \<mapsto> [])\<rparr>)) \<and>
    homes s' = homes s \<and> runs s' = runs s \<and> k_ncpus s' = k_ncpus s \<and> k_wchans s' = k_wchans s"
  using assms
proof (induction ts arbitrary: s L n)
  case Nil
  have "threadlist_remhead (StackList c) (k_lists s) = Ok None (k_lists s)"
    using tls_remhead_Nil [OF sched_invD(1) [OF kern_midD(1) [OF Nil.prems(1)]] Nil.prems(2)] .
  moreover have "L(StackList c \<mapsto> []) = L" using Nil.prems(2) by (rule fun_upd_idem)
  ultimately show ?case using Nil.prems by (cases n) (simp_all del: fun_upd_apply)
next
  case (Cons t ts)
  obtain m where m: "n = Suc m" using Cons.prems(3) by (cases n) auto
  note k = kern_midD [OF Cons.prems(1)]
  note lv = sched_leave [OF k(1) Cons.prems(2)]
  obtain h where h: "threadlist_remhead (StackList c) (k_lists s) = Ok (Some t) h"
    "sched_inv (s\<lparr>k_lists := h\<rparr>) (L(StackList c \<mapsto> ts)) {t}" using lv(1) by blast
  obtain th j where th: "k_threads s t = Some th" "t_cpu th = Some j" "j < k_ncpus s" "t_state th \<in> {S_READY, S_SLEEP}"
    using lv(2) by auto
  have ipi: "ipi_inv (s\<lparr>k_lists := h\<rparr>) (L(StackList c \<mapsto> ts)) {}" using k(2) by (simp add: ipi_inv_def)
  define s2 where "s2 = s\<lparr>k_lists := h\<rparr>"
  let ?R = "L(StackList c \<mapsto> ts, RunQ j \<mapsto> the (L (RunQ j)) @ [t])"
  from make_runnable_ok [of s2 "L(StackList c \<mapsto> ts)" "{t}" t th j c] h(2) ipi k(3) th lv(3,4)
  obtain h' where h': "thread_make_runnable c t False s2 = Ok () (kick j (s2\<lparr>k_lists := h'\<rparr>))"
    "sched_inv (kick j (s2\<lparr>k_lists := h'\<rparr>)) ?R {}" "ipi_inv (kick j (s2\<lparr>k_lists := h'\<rparr>)) ?R {}"
    by (auto simp: s2_def fun_upd_other simp del: fun_upd_apply)
  define s3 where "s3 = kick j (s2\<lparr>k_lists := h'\<rparr>)"
  have k3: "kern_mid s3 ?R" using h' k(3,4) by (simp add: kern_mid_def s3_def s2_def del: fun_upd_apply)
  have R: "?R(StackList c \<mapsto> []) = L(StackList c \<mapsto> [], RunQ j \<mapsto> the (L (RunQ j)) @ [t])" by auto
  have f: "homes s3 = homes s" "runs s3 = runs s" "k_ncpus s3 = k_ncpus s" "k_wchans s3 = k_wchans s" by (simp_all add: s3_def s2_def)
  have "homes s t = Some j" using th by (simp add: homes_def)
  then have w: "a_wake t \<lparr>a_cpu = homes s, a_run = runs s, a_q = L(StackList c \<mapsto> [])\<rparr> =
    \<lparr>a_cpu = homes s3, a_run = runs s3, a_q = ?R(StackList c \<mapsto> [])\<rparr>"
    unfolding R f by (simp add: a_wake_def a_put_def)
  have "wake_loop n c s = wake_loop m c s3" using h(1) h'(1) m by (simp add: s2_def s3_def)
  then show ?case using Cons.IH [OF k3, of m] Cons.prems(3) m f by (simp add: w del: fun_upd_apply add: fun_upd_same fun_upd_other)
qed

lemma fold_wake_stack: "fold a_wake ts (a\<lparr>a_q := (a_q a)(StackList c := x)\<rparr>) =
  (fold a_wake ts a)\<lparr>a_q := (a_q (fold a_wake ts a))(StackList c := x)\<rparr>"
proof (induction ts arbitrary: a)
  case (Cons t ts)
  have "a_wake t (a\<lparr>a_q := (a_q a)(StackList c := x)\<rparr>) = (a_wake t a)\<lparr>a_q := (a_q (a_wake t a))(StackList c := x)\<rparr>"
    by (simp add: a_wake_def a_put_def fun_upd_twist)
  then show ?case using Cons.IH by (simp del: fun_upd_apply)
qed simp

lemma fold_wake_sel [simp]: "a_cpu (fold a_wake ts a) = a_cpu a" "a_run (fold a_wake ts a) = a_run a"
  "a_q (fold a_wake ts a) (StackList c) = a_q a (StackList c)"
  by (induction ts arbitrary: a) (simp_all add: a_wake_def)

lemma wchan_wakeall_refines:
  assumes a: "refines s a" and w: "k_wchans s w = Some wc"
  shows "\<exists>s'. wchan_wakeall c w s = Ok () s' \<and> refines s' (a_wakeall w a) \<and> k_ncpus s' = k_ncpus s \<and> k_wchans s' = k_wchans s"
proof -
  note k = refinesD(1) [OF a, unfolded kern_ok_mid]
  obtain ts where ts: "a_q a (WchanList w) = Some ts" using wchan_ex(1) [OF refinesD(1) [OF a] w] by blast
  define s1 where "s1 = s\<lparr>k_lists := threadlist_init (StackList c) (k_lists s)\<rparr>"
  let ?L = "(a_q a)(StackList c \<mapsto> [])" and ?M = "(a_q a)(WchanList w \<mapsto> [], StackList c \<mapsto> ts)"
  have k1: "kern_mid s1 ?L" unfolding s1_def by (rule kern_stack_init) (use k in auto)
  have w1: "k_wchans s1 w = Some wc" "wc_lock wc = None" "?L (WchanList w) = Some ts" "?L (StackList c) = Some []"
    using w wchan_ex(2) [OF refinesD(1) [OF a] w] ts by (simp_all add: s1_def)
  have cnt: "tl_count (k_lists s1) (WchanList w) = length ts" using tls_count [OF sched_invD(1) [OF kern_midD(1) [OF k1]] w1(3)] .
  have M: "?L(WchanList w \<mapsto> [], StackList c \<mapsto> [] @ ts) = ?M" by auto
  obtain h where h: "move_all threadlist_remhead threadlist_addtail (WchanList w) (StackList c) (Suc (length ts)) (k_lists s1) = Ok () h"
    "tls h ?M (dom (k_threads s1))"
    using tq.move_all_law [OF sched_invD(1) [OF kern_midD(1) [OF k1]] w1(3,4), of "Suc (length ts)"] unfolding M by auto
  have k2: "kern_mid (s1\<lparr>k_lists := h\<rparr>) ?M"
  proof (rule kern_relist [OF k1 h(2)])
    show "off_list ?M t = off_list ?L t" for t
      using off_list_move [of "a_q a" "WchanList w" ts "StackList c"] off_list_empty [of "a_q a" "StackList c" "Some []"] ts k by simp
    show "?M l \<noteq> None" if "list_exists s1 l" for l using sched_invD(2) [OF kern_midD(1) [OF k1] that] by auto
    show "\<exists>th. k_threads s1 t = Some th \<and> place_ok (k_ncpus s1) l th" if "?M l = Some us" "t \<in> set us" for l us t
      using that sched_invD(3) [OF kern_midD(1) [OF k1], of l us t] sched_invD(3) [OF kern_midD(1) [OF k1] w1(3), of t]
      by (auto split: if_splits)
  qed simp
  define s2 where "s2 = s1\<lparr>k_lists := h\<rparr>"
  have cnt2: "tl_count (k_lists s2) (StackList c) = length ts"
    using tls_count [OF h(2), of "StackList c" ts] by (simp add: s2_def)
  have f: "homes s2 = homes s" "runs s2 = runs s" "k_ncpus s2 = k_ncpus s" "k_wchans s2 = k_wchans s" by (simp_all add: s2_def s1_def)
  let ?A = "fold a_wake ts \<lparr>a_cpu = homes s2, a_run = runs s2, a_q = ?M(StackList c \<mapsto> [])\<rparr>"
  have "?M (StackList c) = Some ts" by simp
  from wake_loop_ok [OF k2 [folded s2_def] this, of "Suc (length ts)"] obtain s' where
    s': "wake_loop (Suc (length ts)) c s2 = Ok () s'" "kern_mid s' (a_q ?A)" "homes s' = homes s2" "runs s' = runs s2"
    "k_ncpus s' = k_ncpus s2" "k_wchans s' = k_wchans s2" by (auto simp del: fun_upd_apply)
  have n: "a_q ?A (StackList c) = Some []" by simp
  note cl = kern_stack_cleanup [OF s'(2) n]
  have "?A = (a_wakeall w a)\<lparr>a_q := (a_q (a_wakeall w a))(StackList c \<mapsto> [])\<rparr>"
    using fold_wake_stack [of ts "a\<lparr>a_q := (a_q a)(WchanList w \<mapsto> [])\<rparr>" c "Some []"] refinesD(2,3) [OF a] ts f
    by (simp add: a_wakeall_def fun_upd_twist [of "WchanList w"] del: fun_upd_apply)
       (cases a, simp)
  then have "(a_q ?A)(StackList c := None) = (a_q (a_wakeall w a))(StackList c := None)" by simp
  moreover have "a_q (a_wakeall w a) (StackList j) = None" for j using k by (simp add: a_wakeall_def)
  ultimately have A: "(a_q ?A)(StackList c := None) = a_q (a_wakeall w a)" "\<And>j. a_q (a_wakeall w a) (StackList j) = None"
    by (simp_all add: fun_upd_idem)
  have ul: "wchan_unlock c w ((upd_wchan w (\<lambda>wc. wc\<lparr>wc_lock := Some c\<rparr>) s1)\<lparr>k_lists := h\<rparr>) = Ok () s2"
    using wchan_unlock_eq [OF w1(1,2)] by (simp add: s2_def)
  have "wchan_wakeall c w s = Ok () s'"
    using wchan_lock_eq [OF w1(1,2), of c] ul h(1) cnt cnt2 s'(1) cl(1)
    by (simp add: wchan_wakeall_def s1_def [symmetric] del: wake_loop.simps move_all.simps)
  moreover have "a_cpu (a_wakeall w a) = homes s'" "a_run (a_wakeall w a) = runs s'"
    using s'(3,4) f refinesD(2,3) [OF a] by (simp_all add: a_wakeall_def)
  moreover have "kern_mid s' (a_q (a_wakeall w a))" using cl(2) unfolding A(1) .
  ultimately have "refines s' (a_wakeall w a)" "wchan_wakeall c w s = Ok () s'" using A(2) by (simp_all add: refines_def kern_ok_mid)
  then show ?thesis using s'(5,6) f by simp
qed

end
