(* ===== verification/SchedOps.thy ===== *)
theory SchedOps
  imports Sched
begin

text \<open>
  The remaining operations of the thread system: creating threads and wait channels, interrupts between
  processors, startup, migration and the clock.
\<close>

section \<open>Creating threads\<close>

lemma sched_create:
  assumes inv: "sched_inv s L F" and t: "k_threads s t = None" "t \<in> {0<..<2 ^ 32}" and st: "stack_ok th"
  shows "\<exists>h. threadlistnode_init t (k_lists s) = Ok () h \<and>
    sched_inv (s\<lparr>k_lists := h, k_threads := (k_threads s)(t \<mapsto> th)\<rparr>) L (insert t F)"
    "off_list L t" "\<not> running s c t"
proof -
  have "t \<notin> dom (k_threads s)" using t(1) by auto
  from tls_node_init [OF sched_invD(1) [OF inv] this t(2)] obtain h where
    h: "threadlistnode_init t (k_lists s) = Ok () h" "tls h L (insert t (dom (k_threads s)))" by auto
  have n: "L l = Some ts \<Longrightarrow> t \<notin> set ts" for l ts using sched_invD(3) [OF inv, of l ts t] t(1) by auto
  then show "off_list L t" by (auto simp: off_list_def)
  have nr: "\<not> running s c t" for c using sched_invD(5) [OF inv, of c t] t(1) by auto
  then show "\<not> running s c t" .
  let ?s = "s\<lparr>k_lists := h, k_threads := (k_threads s)(t \<mapsto> th)\<rparr>"
  have e: "running ?s = running s" by (intro ext) (simp add: running_def)
  have x: "list_exists ?s l = list_exists s l" for l by (cases l) simp_all
  have "sched_inv ?s L (insert t F)"
    unfolding sched_inv_def x e
  proof (intro conjI allI impI)
    show "tls (k_lists ?s) L (dom (k_threads ?s))" using h(2) by simp
    show "L l \<noteq> None" if "list_exists s l" for l using sched_invD(2) [OF inv that] by auto
    show "\<exists>th. k_threads ?s u = Some th \<and> place_ok (k_ncpus ?s) l th" if "L l = Some ts" "u \<in> set ts" for l ts u
      using sched_invD(3) [OF inv that] n [OF that(1)] that(2) by auto
    show "off_list L u" if "running s k u" for k u using sched_invD(4) [OF inv that] .
    show "\<exists>th. k_threads ?s u = Some th \<and> t_state th \<in> {S_RUN, S_READY} \<and> t_cpu th = Some k" if "running s k u" for k u
      using sched_invD(5) [OF inv that] nr [of k] that by auto
    show "stack_ok tu" if "k_threads ?s u = Some tu" for u tu using that sched_invD(6) [OF inv] st by (auto split: if_splits)
    show "u \<in> insert t F \<or> (\<exists>k. running s k u)" if "k_threads ?s u = Some tu" "off_list L u" for u tu
      using that sched_invD(7) [OF inv] by (auto split: if_splits)
  qed
  then show "\<exists>h. threadlistnode_init t (k_lists s) = Ok () h \<and>
    sched_inv (s\<lparr>k_lists := h, k_threads := (k_threads s)(t \<mapsto> th)\<rparr>) L (insert t F)" using h(1) by blast
qed

definition new_thread :: "string \<Rightarrow> thread" where
  "new_thread name = \<lparr>t_name = name, t_wchan_name = Some ''NEW'', t_state = S_READY, t_stack = None, t_cpu = None,
     t_in_interrupt = False, t_addrspace = None, t_cwd = None\<rparr>"

lemma new_thread_sel [simp]: "t_state (new_thread n) = S_READY" "t_stack (new_thread n) = None" "t_cpu (new_thread n) = None"
  "t_addrspace (new_thread n) = None" "t_cwd (new_thread n) = None" "stack_ok (new_thread n)" "(new_thread n)\<lparr>t_stack := None\<rparr> = new_thread n"
  by (simp_all add: new_thread_def stack_ok_def)

lemma thread_create_ok:
  assumes inv: "sched_inv s L F" and t: "k_threads s t = None" "t \<in> {0<..<2 ^ 32}"
  shows "\<exists>h. thread_create (Some t) True name s = Ok (Some t) (s\<lparr>k_lists := h, k_threads := (k_threads s)(t \<mapsto> new_thread name)\<rparr>) \<and>
    sched_inv (s\<lparr>k_lists := h, k_threads := (k_threads s)(t \<mapsto> new_thread name)\<rparr>) L (insert t F)"
proof -
  obtain h where h: "threadlistnode_init t (k_lists s) = Ok () h"
    "sched_inv (s\<lparr>k_lists := h, k_threads := (k_threads s)(t \<mapsto> new_thread name)\<rparr>) L (insert t F)"
    using sched_create(1) [OF inv t, of "new_thread name"] by auto
  then show ?thesis by (intro exI [of _ h]) (simp add: thread_create_def new_thread_def)
qed

text \<open>Replacing the fields of a thread that is in no place yet.\<close>

lemma sched_upd_free:
  assumes inv: "sched_inv s L F" and t: "k_threads s t = Some th" "off_list L t" "\<And>c. \<not> running s c t" and st: "stack_ok (g th)"
  shows "sched_inv (upd_thread t g s) L F"
proof (rule sched_upd_thread [of s L F t th g, OF inv t(1) st])
  show "place_ok (k_ncpus s) l (g th)" if "L l = Some q" "t \<in> set q" for l q using that t(2) by (auto simp: off_list_def)
qed (use t(3) in blast)

lemma thread_fork_refines:
  assumes a: "refines s a" and c: "c < k_ncpus s" and t: "k_threads s t = None" "t \<in> {0<..<2 ^ 32}"
  shows "\<exists>s'. thread_fork c (Some t) True True name s = Ok t s' \<and> refines s' (a_fork c t a) \<and>
    k_ncpus s' = k_ncpus s \<and> k_wchans s' = k_wchans s"
proof -
  note k = kern_okD [OF refinesD(1) [OF a]]
  obtain h where h: "thread_create (Some t) True name s = Ok (Some t) (s\<lparr>k_lists := h, k_threads := (k_threads s)(t \<mapsto> new_thread name)\<rparr>)"
    "sched_inv (s\<lparr>k_lists := h, k_threads := (k_threads s)(t \<mapsto> new_thread name)\<rparr>) (a_q a) {t}"
    using thread_create_ok [OF k(1) t] by auto
  define s1 where "s1 = s\<lparr>k_lists := h, k_threads := (k_threads s)(t \<mapsto> new_thread name)\<rparr>"
  note off = sched_create(2,3) [OF k(1) t new_thread_sel(6)]
  have off1: "\<not> running s1 k t" for k using off(2) by (simp add: s1_def running_def)
  obtain cur where cur: "k_threads s (c_curthread (k_cpus s c)) = Some cur" "t_cpu cur = Some c" "c_curthread (k_cpus s c) \<noteq> t"
    using k(4) c t(1) by (fastforce simp: cur_inv_def)
  define g where "g = (\<lambda>th :: thread. th\<lparr>t_stack := Some (replicate 4 THREAD_STACK_MAGIC), t_cpu := Some c, t_cwd := t_cwd cur\<rparr>)"
  define s2 where "s2 = upd_thread t g s1"
  define th where "th = g (new_thread name)"
  have th: "k_threads s2 t = Some th" "t_cpu th = Some c" "t_state th \<in> {S_READY, S_SLEEP}" "c < k_ncpus s2"
    using c by (simp_all add: s2_def s1_def th_def g_def)
  have i2: "sched_inv s2 (a_q a) {t}" unfolding s2_def
    by (rule sched_upd_free [of s1 "a_q a" "{t}" t "new_thread name" g, OF _ _ off(1) off1])
      (use h(2) in \<open>simp_all add: s1_def g_def stack_ok_def\<close>)
  have off2: "\<not> running s2 k t" for k using off(2) by (simp add: s2_def s1_def running_def)
  have p2: "ipi_inv s2 (a_q a) {}" "locks_free s2" using k(2,3) by (simp_all add: s2_def s1_def)
  have c2: "cur_inv s2" by (rule cur_inv_cong [OF k(4)]) (use t(1) in \<open>auto simp: s2_def s1_def\<close>)
  from make_runnable_ok [OF i2 p2 th(1,2,4,3) off(1) off2] obtain h' where
    h': "thread_make_runnable c t False s2 = Ok () (kick c (s2\<lparr>k_lists := h'\<rparr>))"
    "sched_inv (kick c (s2\<lparr>k_lists := h'\<rparr>)) ((a_q a)(RunQ c \<mapsto> the (a_q a (RunQ c)) @ [t])) {}"
    "ipi_inv (kick c (s2\<lparr>k_lists := h'\<rparr>)) ((a_q a)(RunQ c \<mapsto> the (a_q a (RunQ c)) @ [t])) {}" by auto
  have "upd_thread t (\<lambda>th. th\<lparr>t_cpu := t_cpu cur, t_cwd := t_cwd cur\<rparr>) (thread_checkstack_init t s1) = s2"
    using cur(2) by (simp add: s2_def thread_checkstack_init_def upd_thread_def g_def option.map_comp comp_def)
  moreover have "k_threads s1 (c_curthread (k_cpus s1 c)) = Some cur" using cur by (simp add: s1_def)
  ultimately have "thread_fork c (Some t) True True name s = Ok t (kick c (s2\<lparr>k_lists := h'\<rparr>))"
    using h(1) h'(1) by (simp add: thread_fork_def s1_def [symmetric])
  moreover have "homes s2 = (homes s)(t \<mapsto> c)" by (auto simp: s2_def s1_def homes_def g_def)
  moreover have "runs s2 = runs s" by (auto simp: s2_def s1_def runs_def)
  ultimately show ?thesis
    using h'(2,3) p2 c2 k(5) refinesD(2,3) [OF a]
    by (intro exI [of _ "kick c (s2\<lparr>k_lists := h'\<rparr>)"])
      (simp add: refines_def kern_ok_def a_fork_def a_wake_def s2_def s1_def fun_upd_same fun_upd_other del: fun_upd_apply)
qed

lemma thread_fork_enomem:
  assumes a: "refines s a" and t: "k_threads s t = None" "t \<in> {0<..<2 ^ 32}" and c: "c < k_ncpus s"
  shows "\<exists>s'. thread_fork c (Some t) True False name s = Err ENOMEM s' \<and> refines s' a \<and> k_ncpus s' = k_ncpus s \<and> k_wchans s' = k_wchans s"
proof -
  note k = kern_okD [OF refinesD(1) [OF a]]
  obtain h where h: "thread_create (Some t) True name s = Ok (Some t) (s\<lparr>k_lists := h, k_threads := (k_threads s)(t \<mapsto> new_thread name)\<rparr>)"
    "sched_inv (s\<lparr>k_lists := h, k_threads := (k_threads s)(t \<mapsto> new_thread name)\<rparr>) (a_q a) {t}"
    using thread_create_ok [OF k(1) t] by auto
  define s1 where "s1 = s\<lparr>k_lists := h, k_threads := (k_threads s)(t \<mapsto> new_thread name)\<rparr>"
  note off = sched_create(2,3) [OF k(1) t new_thread_sel(6)]
  have th1: "k_threads s1 t = Some (new_thread name)" "\<And>k. \<not> running s1 k t" "t \<noteq> c_curthread (k_cpus s1 c)"
    using off(2) k(4) c t(1) by (auto simp: s1_def running_def cur_inv_def)
  have "s1\<lparr>k_threads := (k_threads s1)(t := None)\<rparr> = s\<lparr>k_lists := h\<rparr>" using t(1) by (simp add: s1_def fun_upd_idem)
  then have "thread_destroy c t s1 = Ok () (s\<lparr>k_lists := h\<rparr>)" "sched_inv (s\<lparr>k_lists := h\<rparr>) (a_q a) {}"
    using sched_destroy [of s1 "a_q a" "{t}" t "new_thread name" c] h(2) th1 off(1) by (simp_all add: s1_def [symmetric])
  then show ?thesis using h(1) k refinesD(2,3) [OF a]
    by (intro exI [of _ "s\<lparr>k_lists := h\<rparr>"]) (simp add: thread_fork_def s1_def [symmetric] refines_def kern_ok_def)
qed

section \<open>Wait channels\<close>

lemma wchan_create_refines:
  assumes a: "refines s a" and w: "k_wchans s w = None" "a_q a (WchanList w) = None"
  shows "\<exists>s'. wchan_create (Some w) name s = (Some w, s') \<and> refines s' (a\<lparr>a_q := (a_q a)(WchanList w \<mapsto> [])\<rparr>) \<and>
    k_wchans s' = (k_wchans s)(w \<mapsto> \<lparr>wc_name = name, wc_lock = None\<rparr>) \<and> k_ncpus s' = k_ncpus s"
proof -
  note k = kern_okD [OF refinesD(1) [OF a]]
  let ?h = "threadlist_init (WchanList w) (k_lists s)" and ?L = "(a_q a)(WchanList w \<mapsto> [])"
  let ?s = "s\<lparr>k_wchans := (k_wchans s)(w \<mapsto> \<lparr>wc_name = name, wc_lock = None\<rparr>), k_lists := ?h\<rparr>"
  have off: "off_list ?L t = off_list (a_q a) t" for t using w(2) by (intro off_list_empty) auto
  have run: "running ?s = running s" by (intro ext) (simp add: running_def)
  have h: "tls ?h ?L (dom (k_threads s))" by (rule tls_init [OF sched_invD(1) [OF k(1)] w(2)])
  have x: "?L l \<noteq> None" if "list_exists ?s l" for l
    using that sched_invD(2) [OF k(1), of l] by (cases l) (auto split: if_splits)
  have p: "\<exists>th. k_threads s t = Some th \<and> place_ok (k_ncpus s) l th" if "?L l = Some ts" "t \<in> set ts" for l ts t
    using that sched_invD(3) [OF k(1)] by (auto split: if_splits)
  have "sched_inv ?s ?L {}"
    using k(1) h x p unfolding sched_inv_def off run by simp
  moreover have "ipi_inv ?s ?L {}" "locks_free ?s" "cur_inv ?s" "homes ?s = homes s" "runs ?s = runs s"
    using k(2,3,4) by (simp_all add: ipi_inv_def locks_free_def cur_inv_def homes_def runs_def fun_eq_iff)
  ultimately show ?thesis using k(5) refinesD(2,3) [OF a]
    by (intro exI [of _ ?s]) (simp add: wchan_create_def refines_def kern_ok_def)
qed

lemma wchan_destroy_refines:
  assumes a: "refines s a" and w: "k_wchans s w = Some wc" "a_q a (WchanList w) = Some []"
  shows "\<exists>s'. wchan_destroy w s = Ok () s' \<and> refines s' (a\<lparr>a_q := (a_q a)(WchanList w := None)\<rparr>) \<and>
    k_wchans s' = (k_wchans s)(w := None) \<and> k_ncpus s' = k_ncpus s"
proof -
  note k = kern_okD [OF refinesD(1) [OF a]]
  let ?L = "(a_q a)(WchanList w := None)" and ?s = "s\<lparr>k_wchans := (k_wchans s)(w := None)\<rparr>"
  note t = sched_invD(1) [OF k(1)]
  have off: "off_list ?L t = off_list (a_q a) t" for t using w(2) by (intro off_list_empty) auto
  have run: "running ?s = running s" by (intro ext) (simp add: running_def)
  have h: "tls (k_lists s) ?L (dom (k_threads s))" by (rule tls_forget [OF t w(2)])
  have x: "?L l \<noteq> None" if "list_exists ?s l" for l
    using that sched_invD(2) [OF k(1), of l] by (cases l) (auto split: if_splits)
  have p: "\<exists>th. k_threads s t = Some th \<and> place_ok (k_ncpus s) l th" if "?L l = Some ts" "t \<in> set ts" for l ts t
    using that sched_invD(3) [OF k(1)] by (auto split: if_splits)
  have "sched_inv ?s ?L {}" using k(1) h x p unfolding sched_inv_def off run by simp
  moreover have "ipi_inv ?s ?L {}" "locks_free ?s" "cur_inv ?s" "homes ?s = homes s" "runs ?s = runs s"
    using k(2,3,4) by (simp_all add: ipi_inv_def locks_free_def cur_inv_def homes_def runs_def fun_eq_iff)
  moreover have "wchan_destroy w s = Ok () ?s"
    using tls_cleanup [OF t w(2)] w(1) wchan_ex(2) [OF refinesD(1) [OF a] w(1)]
    by (simp add: wchan_destroy_def spinlock_cleanup_def)
  ultimately show ?thesis using k(5) refinesD(2,3) [OF a]
    by (intro exI [of _ ?s]) (simp add: refines_def kern_ok_def)
qed

lemma wchan_isempty_eq:
  assumes a: "refines s a" and w: "k_wchans s w = Some wc"
  shows "wchan_isempty c w s = Ok (a_q a (WchanList w) = Some []) s"
proof -
  note t = sched_invD(1) [OF kern_okD(1) [OF refinesD(1) [OF a]]]
  obtain ts where ts: "a_q a (WchanList w) = Some ts" using wchan_ex(1) [OF refinesD(1) [OF a] w] by blast
  note wl = wchan_ex(2) [OF refinesD(1) [OF a] w]
  have "wchan_unlock c w (upd_wchan w (\<lambda>wc. wc\<lparr>wc_lock := Some c\<rparr>) s) = Ok () s"
    using wchan_unlock_eq [OF w wl, of c "k_lists s"] by (simp add: upd_wchan_def)
  then show ?thesis using wchan_lock_eq [OF w wl, of c] tls_isempty [OF t ts] ts by (simp add: wchan_isempty_def)
qed

section \<open>Interrupts and the idle loop\<close>

definition serviced :: "nat \<Rightarrow> kern \<Rightarrow> kern" where
  "serviced c s = upd_cpu c (\<lambda>p. p\<lparr>c_numshootdown := if bit (c_ipi_pending p) IPI_TLBSHOOTDOWN then 0 else c_numshootdown p,
     c_ipi_pending := 0\<rparr>) s"

lemma interprocessor_interrupt_eq:
  assumes "c_ipi_lock (k_cpus s c) = None" "\<not> bit (c_ipi_pending (k_cpus s c)) IPI_PANIC"
    "\<not> bit (c_ipi_pending (k_cpus s c)) IPI_OFFLINE"
  shows "\<exists>todo. interprocessor_interrupt c s = Ok todo (serviced c s)"
  using assms
  by (cases "k_cpus s c")
    (auto simp: interprocessor_interrupt_def ipi_acquire_def ipi_release_def spinlock_acquire_def spinlock_release_def
      serviced_def upd_cpu_def Let_def)

lemma serviced_sel [simp]:
  "k_threads (serviced c s) = k_threads s" "k_ncpus (serviced c s) = k_ncpus s" "k_wchans (serviced c s) = k_wchans s"
  "k_lists (serviced c s) = k_lists s" "c_isidle (k_cpus (serviced c s) k) = c_isidle (k_cpus s k)"
  "c_curthread (k_cpus (serviced c s) k) = c_curthread (k_cpus s k)"
  "c_runqueue_lock (k_cpus (serviced c s) k) = c_runqueue_lock (k_cpus s k)"
  "c_ipi_lock (k_cpus (serviced c s) k) = c_ipi_lock (k_cpus s k)"
  "k \<noteq> c \<Longrightarrow> c_ipi_pending (k_cpus (serviced c s) k) = c_ipi_pending (k_cpus s k)"
  by (simp_all add: serviced_def)

lemma serviced_inv:
  assumes "kern_ok s L"
  shows "sched_inv (serviced c s) L {}" "ipi_inv (serviced c s) L {c}" "locks_free (serviced c s)" "cur_inv (serviced c s)"
    "homes (serviced c s) = homes s" "runs (serviced c s) = runs s"
proof -
  note k = kern_okD [OF assms]
  show "sched_inv (serviced c s) L {}"
    by (rule sched_inv_cong [OF k(1)]) (simp_all add: running_def fun_eq_iff)
  have "c_ipi_pending (k_cpus (serviced c s) j) = (if j = c then 0 else c_ipi_pending (k_cpus s j))" for j by (simp add: serviced_def)
  then show "ipi_inv (serviced c s) L {c}" using k(2) by (simp add: ipi_inv_def)
  show "locks_free (serviced c s)" using k(3) by (simp add: locks_free_def)
  show "cur_inv (serviced c s)" using k(4) by (simp add: cur_inv_def)
  show "homes (serviced c s) = homes s" "runs (serviced c s) = runs s" by (simp_all add: homes_def runs_def fun_eq_iff)
qed

lemma interprocessor_interrupt_refines:
  assumes a: "refines s a"
  shows "\<exists>todo. interprocessor_interrupt c s = Ok todo (serviced c s)"
  using kern_okD(2,3) [OF refinesD(1) [OF a]] by (intro interprocessor_interrupt_eq) (auto simp: ipi_inv_def locks_free_def)

text \<open>A busy processor handles the interrupt and goes on; an idle one looks at its run queue.\<close>

lemma interrupt_busy:
  assumes a: "refines s a" and r: "a_run a c \<noteq> None"
  shows "refines (serviced c s) a"
proof -
  note sv = serviced_inv [OF refinesD(1) [OF a], of c]
  have "\<not> c_isidle (k_cpus s c)" using r refinesD(3) [OF a] by (auto simp: runs_def split: if_splits)
  then have "ipi_inv (serviced c s) (a_q a) {}" using sv(2) unfolding ipi_inv_def by (metis empty_iff insert_iff serviced_sel(5))
  then show ?thesis using sv refinesD [OF a] by (simp add: refines_def kern_ok_def)
qed

lemma switch_again_refines:
  assumes i: "sched_inv s L {}" and cur: "cur_inv s" and st: "\<And>k. L (StackList k) = None" and lk: "locks_free s"
    and ipi: "ipi_inv s L {c}" and c: "c < k_ncpus s" "c_isidle (k_cpus s c)"
  shows "\<exists>s'. switch_again c s = Ok () s' \<and> refines s' (a_pick c \<lparr>a_cpu = homes s, a_run = runs s, a_q = L\<rparr>) \<and>
    k_ncpus s' = k_ncpus s \<and> k_wchans s' = k_wchans s"
proof -
  define s1 where "s1 = upd_cpu c (\<lambda>p. p\<lparr>c_runqueue_lock := Some c\<rparr>) s"
  have acq: "rq_acquire c c s = Ok () s1" unfolding s1_def using lk by (intro rq_acquire_eq) (simp add: locks_free_def)
  have i1: "sched_inv s1 L {}" "ipi_inv s1 L {c}" "rq_locked c s1" using i ipi lk by (simp_all add: s1_def locks_acquire)
  have cu: "cur_inv s1" by (rule cur_inv_cong [OF cur]) (simp_all add: s1_def)
  have c1: "c < k_ncpus s1" "c_isidle (k_cpus s1 c)" using c by (simp_all add: s1_def)
  have e: "homes s1 = homes s" "runs s1 = runs s" "k_ncpus s1 = k_ncpus s" "k_wchans s1 = k_wchans s" by (simp_all add: s1_def)
  from switch_pick_ok [OF i1(1) cu st i1(3,2) c1] show ?thesis unfolding e by (simp add: switch_again_def acq)
qed

lemma idle_interrupt_refines:
  assumes a: "refines s a" and c: "c < k_ncpus s" "c_isidle (k_cpus s c)"
  shows "\<exists>s'. kbind (interprocessor_interrupt c s) (\<lambda>_ s. switch_again c s) = Ok () s' \<and> refines s' (a_pick c a) \<and>
    k_ncpus s' = k_ncpus s \<and> k_wchans s' = k_wchans s"
proof -
  note k = kern_okD [OF refinesD(1) [OF a]] and sv = serviced_inv [OF refinesD(1) [OF a], of c]
  obtain todo where "interprocessor_interrupt c s = Ok todo (serviced c s)"
    using interprocessor_interrupt_refines [OF a] by blast
  moreover have "\<lparr>a_cpu = homes s, a_run = runs s, a_q = a_q a\<rparr> = a" using refinesD(4) [OF a] by simp
  ultimately show ?thesis using switch_again_refines [OF sv(1,4) k(5) sv(3,2)] c sv(5,6) by simp
qed

section \<open>Startup\<close>

lemma place_ok_mono: "place_ok n l th \<Longrightarrow> n \<le> m \<Longrightarrow> place_ok m l th"
  by (cases l) auto

definition a_cpu_create :: "nat \<Rightarrow> nat \<Rightarrow> asched \<Rightarrow> asched" where
  "a_cpu_create n t a = \<lparr>a_cpu = (a_cpu a)(t \<mapsto> n), a_run = (a_run a)(n \<mapsto> t), a_q = (a_q a)(RunQ n \<mapsto> [], Zombies n \<mapsto> [])\<rparr>"

lemma sched_new_cpu:
  assumes inv: "sched_inv s L {}" and t: "k_threads s t = None" and n: "n = k_ncpus s" "L (RunQ n) = None" "L (Zombies n) = None"
    and s': "k_threads s' = (k_threads s)(t \<mapsto> th)" "k_ncpus s' = Suc n" "\<And>k. k < n \<Longrightarrow> k_cpus s' k = k_cpus s k"
      "k_wchans s' = k_wchans s" "c_curthread (k_cpus s' n) = t" "\<not> c_isidle (k_cpus s' n)"
    and th: "stack_ok th" "t_cpu th = Some n" "t_state th = S_READY"
    and h: "tls (k_lists s') (L(RunQ n \<mapsto> [], Zombies n \<mapsto> [])) (dom (k_threads s'))"
  shows "sched_inv s' (L(RunQ n \<mapsto> [], Zombies n \<mapsto> [])) {}" (is "sched_inv s' ?L {}")
proof -
  have off: "off_list ?L u = off_list L u" for u
    using off_list_empty [of L "RunQ n" "Some []"] off_list_empty [of "L(RunQ n \<mapsto> [])" "Zombies n" "Some []"] n by simp
  have run: "running s' k u \<longleftrightarrow> running s k u \<or> k = n \<and> u = t" for k u
    using s' n(1) by (cases "k < n") (auto simp: running_def less_Suc_eq)
  have nt: "L l = Some ts \<Longrightarrow> t \<notin> set ts" for l ts using sched_invD(3) [OF inv, of l ts t] t by auto
  have nr: "\<not> running s k t" for k using sched_invD(5) [OF inv, of k t] t by auto
  show ?thesis
    unfolding sched_inv_def off run
  proof (intro conjI allI impI)
    show "tls (k_lists s') ?L (dom (k_threads s'))" by (rule h)
    show "?L l \<noteq> None" if "list_exists s' l" for l
    proof -
      have "list_exists s l \<or> l = RunQ n \<or> l = Zombies n" using that s'(2,4) n(1) by (cases l) (auto simp: less_Suc_eq)
      then show ?thesis using sched_invD(2) [OF inv] by auto
    qed
    show "\<exists>tu. k_threads s' u = Some tu \<and> place_ok (k_ncpus s') l tu" if "?L l = Some ts" "u \<in> set ts" for l ts u
    proof -
      have l: "L l = Some ts" using that by (auto split: if_splits)
      then show ?thesis using sched_invD(3) [OF inv l that(2)] nt [OF l] that(2) s'(1,2) n(1) place_ok_mono by fastforce
    qed
    show "off_list L u" if "running s k u \<or> k = n \<and> u = t" for k u
      using that sched_invD(4) [OF inv] nt by (auto simp: off_list_def)
    show "\<exists>tu. k_threads s' u = Some tu \<and> t_state tu \<in> {S_RUN, S_READY} \<and> t_cpu tu = Some k"
      if "running s k u \<or> k = n \<and> u = t" for k u
      using that sched_invD(5) [OF inv, of k u] nr [of k] th s'(1) by auto
    show "stack_ok tu" if "k_threads s' u = Some tu" for u tu
      using that sched_invD(6) [OF inv] th(1) s'(1) by (auto split: if_splits)
    show "u \<in> {} \<or> (\<exists>k. running s k u \<or> k = n \<and> u = t)" if "k_threads s' u = Some tu" "off_list L u" for u tu
      using that sched_invD(7) [OF inv, of u tu] s'(1) by (auto split: if_splits)
  qed
qed

lemma cpu_create_refines:
  assumes a: "refines s a" and n: "a_q a (RunQ (k_ncpus s)) = None" "a_q a (Zombies (k_ncpus s)) = None"
    and t: "k_threads s t = None" "t \<in> {0<..<2 ^ 32}"
  shows "\<exists>s'. cpu_create True True (Some t) True True nb junk hw s = Ok (k_ncpus s) s' \<and>
    refines s' (a_cpu_create (k_ncpus s) t a) \<and> k_ncpus s' = Suc (k_ncpus s) \<and> k_wchans s' = k_wchans s \<and>
    c_curthread (k_cpus s' (k_ncpus s)) = t \<and> (\<exists>th. k_threads s' t = Some th \<and> \<not> t_in_interrupt th)"
proof -
  note k = kern_okD [OF refinesD(1) [OF a]]
  define n where "n = k_ncpus s"
  let ?L = "(a_q a)(RunQ n \<mapsto> [], Zombies n \<mapsto> [])"
  define c where "c = \<lparr>c_number = n, c_hardware_number = hw, c_curthread = 0, c_hardclocks = 0, c_isidle = False,
    c_runqueue_lock = None, c_ipi_pending = 0, c_shootdown = junk, c_numshootdown = 0, c_ipi_lock = None\<rparr>"
  define h0 where "h0 = threadlist_init (RunQ n) (threadlist_init (Zombies n) (k_lists s))"
  have "tls h0 ((a_q a)(Zombies n \<mapsto> [], RunQ n \<mapsto> [])) (dom (k_threads s))" unfolding h0_def
    by (intro tls_init sched_invD(1) [OF k(1)]) (use assms(2,3) in \<open>simp_all add: n_def\<close>)
  then have h0: "tls h0 ?L (dom (k_threads s))" by (simp add: fun_upd_twist)
  have "t \<notin> dom (k_threads s)" using t(1) by auto
  from tls_node_init [OF h0 this t(2)] obtain h where h: "threadlistnode_init t h0 = Ok () h" "tls h ?L (insert t (dom (k_threads s)))" by auto
  define g where "g = (\<lambda>th :: thread. th\<lparr>t_stack := if n = 0 then t_stack th else Some (replicate 4 THREAD_STACK_MAGIC), t_cpu := Some n\<rparr>)"
  define th where "th = g (new_thread (nb n))"
  define s' where "s' = s\<lparr>k_threads := (k_threads s)(t \<mapsto> th), k_ncpus := Suc n, k_cpus := (k_cpus s)(n := c\<lparr>c_curthread := t\<rparr>), k_lists := h\<rparr>"
  have "cpu_create True True (Some t) True True nb junk hw s = Ok n s'"
    using h(1) by (simp add: cpu_create_def n_def [symmetric] c_def [symmetric] h0_def [symmetric] thread_create_def
      new_thread_def [symmetric] thread_checkstack_init_def upd_cpu_def upd_thread_def s'_def th_def g_def Let_def)
  moreover have "sched_inv s' ?L {}"
    by (rule sched_new_cpu [OF k(1) t(1) n_def, where th = th])
      (use assms(2,3) h(2) in \<open>simp_all add: s'_def n_def [symmetric] c_def th_def g_def stack_ok_def\<close>)
  moreover have "ipi_inv s' ?L {}"
    using k(2) unfolding ipi_inv_def by (auto simp: s'_def c_def n_def less_Suc_eq)
  moreover have "locks_free s'" using k(3) by (auto simp: locks_free_def s'_def c_def)
  moreover have "cur_inv s'" unfolding cur_inv_def
  proof (intro allI impI)
    fix j
    assume "j < k_ncpus s'"
    then consider "j = n" | "j < n" "j < k_ncpus s" by (auto simp: s'_def n_def less_Suc_eq)
    then show "\<exists>tu. k_threads s' (c_curthread (k_cpus s' j)) = Some tu \<and> t_cpu tu = Some j"
    proof cases
      case 1
      then show ?thesis by (simp add: s'_def th_def g_def)
    next
      case 2
      then show ?thesis using k(4) t(1) by (auto simp: cur_inv_def s'_def)
    qed
  qed
  moreover have "homes s' = (homes s)(t \<mapsto> n)" by (auto simp: homes_def s'_def th_def g_def)
  moreover have "k_threads s' t = Some th \<and> \<not> t_in_interrupt th" by (simp add: s'_def th_def g_def new_thread_def)
  moreover have "runs s' = (runs s)(n \<mapsto> t)" by (auto simp: runs_def s'_def c_def n_def less_Suc_eq)
  ultimately show ?thesis using k(5) refinesD(2,3) [OF a]
    by (intro exI [of _ s']) (simp add: refines_def kern_ok_def a_cpu_create_def n_def [symmetric] s'_def del: fun_upd_apply
      add: fun_upd_other fun_upd_same)
qed

text \<open>The machine before startup: no processor, no thread, no wait channel.\<close>

definition no_cpu :: cpu where
  "no_cpu = \<lparr>c_number = 0, c_hardware_number = 0, c_curthread = 0, c_hardclocks = 0, c_isidle = False, c_runqueue_lock = None,
     c_ipi_pending = 0, c_shootdown = [], c_numshootdown = 0, c_ipi_lock = None\<rparr>"

definition no_kern :: kern where
  "no_kern = \<lparr>k_threads = \<lambda>_. None, k_ncpus = 0, k_cpus = \<lambda>_. no_cpu, k_wchans = \<lambda>_. None,
     k_lists = \<lparr>tln_prev = \<lambda>_. None, tln_next = \<lambda>_. None, tln_self = \<lambda>_. None, tl_count = \<lambda>_. 0\<rparr>\<rparr>"

definition a_none :: asched where
  "a_none = \<lparr>a_cpu = \<lambda>_. None, a_run = \<lambda>_. None, a_q = \<lambda>_. None\<rparr>"

lemma no_kern_refines: "refines no_kern a_none"
proof -
  have "list_exists no_kern l = False" for l by (cases l) (simp_all add: no_kern_def)
  then have "sched_inv no_kern (\<lambda>_. None) {}"
    unfolding sched_inv_def using tls_empty by (simp add: no_kern_def running_def)
  then show ?thesis
    by (simp add: refines_def kern_ok_def a_none_def ipi_inv_def locks_free_def cur_inv_def homes_def runs_def no_kern_def
      no_cpu_def fun_eq_iff)
qed

lemma thread_bootstrap_refines:
  assumes t: "t \<in> {0<..<2 ^ 32}"
  shows "\<exists>s. thread_bootstrap True True (Some t) True nb junk no_kern = Ok 0 s \<and> refines s (a_cpu_create 0 t a_none) \<and>
    k_ncpus s = 1 \<and> k_wchans s = (\<lambda>_. None)"
proof -
  obtain s where s: "cpu_create True True (Some t) True True nb junk 0 no_kern = Ok 0 s" "refines s (a_cpu_create 0 t a_none)"
    "k_ncpus s = 1" "k_wchans s = (\<lambda>_. None)" "c_curthread (k_cpus s 0) = t"
    using cpu_create_refines [OF no_kern_refines, of t nb junk 0] t by (auto simp: no_kern_def a_none_def)
  have "homes s t = Some 0" using refinesD(2) [OF s(2), symmetric] by (simp add: a_cpu_create_def)
  then obtain th where th: "k_threads s t = Some th" "t_cpu th = Some 0" by (auto simp: homes_def split: option.splits)
  have "th\<lparr>t_cpu := Some 0\<rparr> = th" using th(2) by (cases th) simp
  then have "upd_thread t (\<lambda>th. th\<lparr>t_cpu := Some 0\<rparr>) s = s" using th(1) by (simp add: upd_thread_def fun_upd_idem)
  moreover have "(k_cpus s 0)\<lparr>c_curthread := t\<rparr> = k_cpus s 0" using s(5) by (cases "k_cpus s 0") simp
  then have "upd_cpu 0 (\<lambda>p. p\<lparr>c_curthread := t\<rparr>) s = s" by (simp add: upd_cpu_def fun_upd_idem)
  moreover have "no_kern\<lparr>k_ncpus := 0\<rparr> = no_kern" by (simp add: no_kern_def)
  ultimately show ?thesis using s by (simp add: thread_bootstrap_def Let_def)
qed

end
