(* ===== verification/Migrate.thy ===== *)
theory Migrate
  imports SchedOps
begin

text \<open>
  Thread migration and the clock interrupt: \<open>thread_consider_migration\<close> keeps every thread, never moves the
  thread whose stack the processor is on, and leaves a busy processor with no more than its share.
\<close>

section \<open>Counting\<close>

definition qlen :: "(tlid \<Rightarrow> nat list option) \<Rightarrow> nat \<Rightarrow> nat" where
  "qlen L i = length (the (L (RunQ i)))"

lemma count_loop_eq:
  assumes "sched_inv s L F" "locks_free s" "i + n \<le> k_ncpus s" "tot < 2 ^ 32"
  shows "count_loop c i n my tot s =
    Ok (if c \<in> {i..<i + n} then qlen L c else my, (tot + sum (qlen L) {i..<i + n}) mod 2 ^ 32) s"
  using assms(3,4)
proof (induction n arbitrary: i my tot)
  case (Suc n)
  obtain q where q: "L (RunQ i) = Some q" using sched_invD(2) [OF assms(1), of "RunQ i"] Suc.prems by auto
  have cnt: "tl_count (k_lists s) (RunQ i) = qlen L i" using tls_count [OF sched_invD(1) [OF assms(1)] q] q by (simp add: qlen_def)
  have free: "c_runqueue_lock (k_cpus s i) = None" using assms(2) by (simp add: locks_free_def)
  have r: "rq_release c i (upd_cpu i (\<lambda>p. p\<lparr>c_runqueue_lock := Some c\<rparr>) s) = Ok () s"
    using rq_release_eq [of "upd_cpu i (\<lambda>p. p\<lparr>c_runqueue_lock := Some c\<rparr>) s" i c] lock_unlock [OF free] by simp
  have e: "{i..<i + Suc n} = insert i {Suc i..<Suc i + n}" by auto
  have s: "sum (qlen L) {i..<i + Suc n} = qlen L i + sum (qlen L) {Suc i..<Suc i + n}" unfolding e by simp
  have m: "((tot + qlen L i) mod 2 ^ 32 + x) mod 2 ^ 32 = (tot + (qlen L i + x)) mod 2 ^ 32" for x
    by (simp add: mod_add_left_eq add.assoc)
  have st: "count_loop c i (Suc n) my tot s =
    count_loop c (Suc i) n (if i = c then qlen L c else my) ((tot + qlen L i) mod 2 ^ 32) s"
    using rq_acquire_eq [OF free, of c] r cnt by (auto simp: wadd32_def Let_def)
  have ih: "count_loop c (Suc i) n my' ((tot + qlen L i) mod 2 ^ 32) s =
    Ok (if c \<in> {Suc i..<Suc i + n} then qlen L c else my', ((tot + qlen L i) mod 2 ^ 32 + sum (qlen L) {Suc i..<Suc i + n}) mod 2 ^ 32) s" for my'
    by (rule Suc.IH) (use Suc.prems in simp_all)
  show ?case unfolding st ih s m by (cases "c = i") auto
qed simp

lemma qlen_total:
  assumes "sched_inv s L F"
  shows "sum (qlen L) {..<k_ncpus s} < 2 ^ 32"
proof -
  note t = sched_invD(1) [OF assms]
  have q: "\<exists>q. L (RunQ i) = Some q" if "i < k_ncpus s" for i using sched_invD(2) [OF assms, of "RunQ i"] that by simp
  have "qlen L i = card (set (the (L (RunQ i))))" if "i < k_ncpus s" for i
    using q [OF that] tq.elems [OF t] by (auto simp: qlen_def distinct_card)
  then have "sum (qlen L) {..<k_ncpus s} = (\<Sum>i<k_ncpus s. card (set (the (L (RunQ i)))))" by simp
  also have "\<dots> = card (\<Union>i<k_ncpus s. set (the (L (RunQ i))))"
  proof (rule card_UN_disjoint [symmetric])
    show "\<forall>i\<in>{..<k_ncpus s}. \<forall>j\<in>{..<k_ncpus s}. i \<noteq> j \<longrightarrow> set (the (L (RunQ i))) \<inter> set (the (L (RunQ j))) = {}"
    proof (intro ballI impI)
      fix i j
      assume "i \<in> {..<k_ncpus s}" "j \<in> {..<k_ncpus s}" and ij: "i \<noteq> j"
      then obtain p r where pr: "L (RunQ i) = Some p" "L (RunQ j) = Some r" using q by blast
      show "set (the (L (RunQ i))) \<inter> set (the (L (RunQ j))) = {}" using tq.disjoint [OF t pr] pr ij by simp
    qed
  qed simp_all
  also have "\<dots> \<le> card {0<..<2 ^ 32 :: nat}"
  proof (rule card_mono)
    show "(\<Union>i<k_ncpus s. set (the (L (RunQ i)))) \<subseteq> {0<..<2 ^ 32}"
    proof
      fix u
      assume "u \<in> (\<Union>i<k_ncpus s. set (the (L (RunQ i))))"
      then obtain i where i: "i < k_ncpus s" "u \<in> set (the (L (RunQ i)))" by auto
      obtain p where "L (RunQ i) = Some p" using q [OF i(1)] by blast
      then show "u \<in> {0<..<2 ^ 32}" using tq.elems [OF t] tlsD(4) [OF t, of u] i(2) by fastforce
    qed
  qed simp
  finally show ?thesis by simp
qed

section \<open>Choosing the victims\<close>

fun victims :: "nat \<Rightarrow> nat \<Rightarrow> tlid tlheap \<Rightarrow> (unit, tlid tlheap) out" where
  "victims c 0 h = Ok () h"
| "victims c (Suc n) h = kbind (threadlist_remtail (RunQ c) h) (\<lambda>t h. deref t (\<lambda>t.
     kbind (threadlist_addhead (StackList c) t h) (\<lambda>_ h. victims c n h)))"

lemma victim_loop_lists: "victims c n (k_lists s) = Ok () h \<Longrightarrow> victim_loop c n s = Ok () (s\<lparr>k_lists := h\<rparr>)"
proof (induction n arbitrary: s)
  case (Suc n)
  obtain t h1 where 1: "threadlist_remtail (RunQ c) (k_lists s) = Ok (Some t) h1"
    using Suc.prems by (cases "threadlist_remtail (RunQ c) (k_lists s)") (auto simp: deref_def split: option.splits)
  obtain h2 where 2: "threadlist_addhead (StackList c) t h1 = Ok () h2"
    using Suc.prems 1 by (cases "threadlist_addhead (StackList c) t h1") auto
  show ?case using Suc.prems Suc.IH [of "s\<lparr>k_lists := h2\<rparr>"] 1 2 by simp
qed simp

lemma victims_tls:
  assumes "tls h L T" "L (RunQ c) = Some (us @ vs)" "L (StackList c) = Some ws"
  shows "\<exists>h'. victims c (length vs) h = Ok () h' \<and> tls h' (L(RunQ c \<mapsto> us, StackList c \<mapsto> vs @ ws)) T"
  using assms
proof (induction vs arbitrary: h L ws rule: rev_induct)
  case Nil
  then have "L(RunQ c \<mapsto> us, StackList c \<mapsto> [] @ ws) = L" by auto
  then show ?case using Nil by (simp del: fun_upd_apply)
next
  case (snoc v vs)
  have q: "L (RunQ c) = Some ((us @ vs) @ [v])" using snoc.prems(2) by simp
  obtain h1 where h1: "threadlist_remtail (RunQ c) h = Ok (Some v) h1" "tls h1 (L(RunQ c \<mapsto> us @ vs)) T"
    using tls_remtail [OF snoc.prems(1) q] by auto
  have v: "v \<in> T" "off_list (L(RunQ c \<mapsto> us @ vs)) v"
    using tq.elems [OF snoc.prems(1) q] tq.disjoint [OF snoc.prems(1) q] by (auto simp: off_list_upd)
  have w: "(L(RunQ c \<mapsto> us @ vs)) (StackList c) = Some ws" using snoc.prems(3) by simp
  obtain h2 where h2: "threadlist_addhead (StackList c) v h1 = Ok () h2" "tls h2 (L(RunQ c \<mapsto> us @ vs, StackList c \<mapsto> v # ws)) T"
    using tls_addhead [OF h1(2) w v] by auto
  have e: "L(RunQ c \<mapsto> us @ vs, StackList c \<mapsto> v # ws, RunQ c \<mapsto> us, StackList c \<mapsto> vs @ v # ws) =
    L(RunQ c \<mapsto> us, StackList c \<mapsto> (vs @ [v]) @ ws)" by auto
  from snoc.IH [OF h2(2)] obtain h3 where "victims c (length vs) h2 = Ok () h3"
    "tls h3 (L(RunQ c \<mapsto> us, StackList c \<mapsto> (vs @ [v]) @ ws)) T" unfolding e [symmetric] by (auto simp del: fun_upd_apply simp: fun_upd_same fun_upd_other)
  then show ?case using h1(1) h2(1) by (auto simp del: fun_upd_apply)
qed

section \<open>Handing threads over\<close>

text \<open>Nothing but threads waiting to run and pending interrupts changes.\<close>

definition same_but_ipi :: "kern \<Rightarrow> kern \<Rightarrow> bool" where
  "same_but_ipi s s' \<longleftrightarrow> k_ncpus s' = k_ncpus s \<and> k_wchans s' = k_wchans s \<and> dom (homes s') = dom (homes s) \<and>
     (\<forall>k. c_isidle (k_cpus s' k) = c_isidle (k_cpus s k) \<and> c_curthread (k_cpus s' k) = c_curthread (k_cpus s k) \<and>
          c_runqueue_lock (k_cpus s' k) = c_runqueue_lock (k_cpus s k) \<and> c_ipi_lock (k_cpus s' k) = c_ipi_lock (k_cpus s k) \<and>
          (bit (c_ipi_pending (k_cpus s k)) IPI_UNIDLE \<longrightarrow> bit (c_ipi_pending (k_cpus s' k)) IPI_UNIDLE))"

lemma same_but_ipi_refl [simp]: "same_but_ipi s s" "same_but_ipi s (s\<lparr>k_lists := h\<rparr>)"
  by (simp_all add: same_but_ipi_def)

lemma same_but_ipi_trans: "same_but_ipi s s1 \<Longrightarrow> same_but_ipi s1 s2 \<Longrightarrow> same_but_ipi s s2"
  by (auto simp: same_but_ipi_def)

lemma same_but_ipiD:
  assumes "same_but_ipi s s'"
  shows "runs s' = runs s" "locks_free s' = locks_free s"
  using assms by (simp_all add: same_but_ipi_def runs_def locks_free_def fun_eq_iff)

text \<open>In the middle of a migration off processor \<open>c\<close>, with \<open>vs\<close> in transit.\<close>

definition mig :: "nat \<Rightarrow> kern \<Rightarrow> (tlid \<Rightarrow> nat list option) \<Rightarrow> nat list \<Rightarrow> bool" where
  "mig c s L vs \<longleftrightarrow> sched_inv s L {} \<and> ipi_inv s L {} \<and> cur_inv s \<and> L (StackList c) = Some vs \<and> (\<forall>t \<in> set vs. homes s t = Some c)"

lemma migD:
  assumes "mig c s L vs"
  shows "sched_inv s L {}" "ipi_inv s L {}" "cur_inv s" "L (StackList c) = Some vs" "t \<in> set vs \<Longrightarrow> homes s t = Some c"
  using assms by (simp_all add: mig_def)

text \<open>The current thread is shuffled to the end.\<close>

lemma give_skip:
  assumes m: "mig c s L (t # vs)"
  shows "\<exists>h1 h2. threadlist_remhead (StackList c) (k_lists s) = Ok (Some t) h1 \<and>
    threadlist_addtail (StackList c) t h1 = Ok () h2 \<and>
    mig c (s\<lparr>k_lists := h2\<rparr>) (L(StackList c \<mapsto> vs @ [t])) (vs @ [t])"
proof -
  note k = migD [OF m]
  note lv = sched_leave [OF k(1,4)]
  obtain h1 where h1: "threadlist_remhead (StackList c) (k_lists s) = Ok (Some t) h1"
    "sched_inv (s\<lparr>k_lists := h1\<rparr>) (L(StackList c \<mapsto> vs)) {t}" using lv(1) by blast
  obtain th where th: "k_threads s t = Some th" "place_ok (k_ncpus s) (StackList c) th" using lv(2) by blast
  from sched_enter [OF h1(2), of t th "StackList c" vs] th lv(3,4) obtain h2 where
    h2: "threadlist_addtail (StackList c) t h1 = Ok () h2" "sched_inv (s\<lparr>k_lists := h2\<rparr>) (L(StackList c \<mapsto> vs @ [t])) {}"
    by (auto simp: fun_upd_same simp del: fun_upd_apply)
  have "ipi_inv s (L(StackList c \<mapsto> vs @ [t])) {}" using k(2) by (simp add: ipi_inv_def)
  then have "mig c (s\<lparr>k_lists := h2\<rparr>) (L(StackList c \<mapsto> vs @ [t])) (vs @ [t])"
    using h2(2) k(3,5) by (simp add: mig_def del: fun_upd_apply) simp
  then show ?thesis using h1(1) h2(1) by auto
qed

lemma give_move:
  assumes m: "mig c s L (t # vs)" and t: "t \<noteq> c_curthread (k_cpus s c)" and i: "i < k_ncpus s" "i \<noteq> c" "L (RunQ i) = Some q"
    and lk: "c_ipi_lock (k_cpus s i) = None"
  defines "s1 \<equiv> \<lambda>h. upd_thread t (\<lambda>th. th\<lparr>t_cpu := Some i\<rparr>) (s\<lparr>k_lists := h\<rparr>)"
    and "L' \<equiv> L(StackList c \<mapsto> vs, RunQ i \<mapsto> q @ [t])"
  shows "\<exists>h1 h2. threadlist_remhead (StackList c) (k_lists s) = Ok (Some t) h1 \<and>
    threadlist_addtail (RunQ i) t h1 = Ok () h2 \<and>
    mig c (kick i ((s1 h1)\<lparr>k_lists := h2\<rparr>)) L' vs \<and> same_but_ipi s (kick i ((s1 h1)\<lparr>k_lists := h2\<rparr>))"
proof -
  note k = migD [OF m]
  note lv = sched_leave [OF k(1,4)]
  let ?g = "\<lambda>th :: thread. th\<lparr>t_cpu := Some i\<rparr>"
  obtain h1 where h1: "threadlist_remhead (StackList c) (k_lists s) = Ok (Some t) h1"
    "sched_inv (s\<lparr>k_lists := h1\<rparr>) (L(StackList c \<mapsto> vs)) {t}" using lv(1) by blast
  obtain th where th: "k_threads s t = Some th" "place_ok (k_ncpus s) (StackList c) th" using lv(2) by blast
  have hc: "t_cpu th = Some c" using k(5) [of t] th(1) by (simp add: homes_def)
  have st: "stack_ok (?g th)" using sched_invD(6) [OF k(1) th(1)] by (simp add: stack_ok_def)
  have i1: "sched_inv (s1 h1) (L(StackList c \<mapsto> vs)) {t}" unfolding s1_def
    by (rule sched_upd_free [of _ _ _ t th ?g, OF h1(2) _ lv(3)]) (use th lv(4) st in simp_all)
  have t1: "k_threads (s1 h1) t = Some (?g th)" "\<not> running (s1 h1) k t" for k
    using th(1) lv(4) [of k] by (simp_all add: s1_def running_def)
  have q: "(L(StackList c \<mapsto> vs)) (RunQ i) = Some q" "place_ok (k_ncpus (s1 h1)) (RunQ i) (?g th)"
    using i th(2) by (simp_all add: s1_def)
  obtain h2 where h2: "threadlist_addtail (RunQ i) t (k_lists (s1 h1)) = Ok () h2" "sched_inv ((s1 h1)\<lparr>k_lists := h2\<rparr>) L' {}"
    using sched_enter [OF i1 t1(1) lv(3) t1(2) q] unfolding L'_def by (auto simp del: fun_upd_apply)
  let ?s = "kick i ((s1 h1)\<lparr>k_lists := h2\<rparr>)"
  have nc: "t \<noteq> c_curthread (k_cpus s k)" if "k < k_ncpus s" for k
    using t k(3) that th(1) hc by (cases "k = c") (auto simp: cur_inv_def)
  have cu: "cur_inv ?s" using k(3) nc unfolding cur_inv_def by (fastforce simp: s1_def)
  have "ipi_inv ((s1 h1)\<lparr>k_lists := h2\<rparr>) (L(StackList c \<mapsto> vs)) {}" using k(2) by (simp add: ipi_inv_def s1_def)
  then have ipi: "ipi_inv ?s L' {}" unfolding L'_def by (rule ipi_kick)
  have hm: "homes ?s = (homes s)(t \<mapsto> i)" using th(1) by (auto simp: homes_def s1_def)
  have d: "t \<notin> set vs" using tq.elems [OF sched_invD(1) [OF k(1)] k(4)] by simp
  have "mig c ?s L' vs" using h2(2) ipi cu k(5) d i(2) unfolding mig_def hm by (simp add: L'_def) auto
  moreover have "same_but_ipi s ?s" using hm k(5) [of t]
    by (auto simp: same_but_ipi_def s1_def intro!: kick_pending(1))
  ultimately show ?thesis using h1(1) h2(1) by (auto simp: s1_def)
qed

lemma give_loop_ok:
  assumes "mig c s L vs" "n \<le> length vs" and i: "i < k_ncpus s" "i \<noteq> c" and lk: "c_ipi_lock (k_cpus s i) = None"
  shows "\<exists>n' s' L' vs'. give_loop c i share n s = Ok n' s' \<and> mig c s' L' vs' \<and> n' \<le> length vs' \<and> same_but_ipi s s' \<and>
    (\<forall>l. l \<noteq> RunQ i \<longrightarrow> l \<noteq> StackList c \<longrightarrow> L' l = L l) \<and> qlen L' i + length vs' = qlen L i + length vs \<and>
    (n' = 0 \<or> share \<le> qlen L' i) \<and> set vs' \<subseteq> set vs \<and>
    (c_curthread (k_cpus s c) \<notin> set vs \<longrightarrow> n = length vs \<longrightarrow> n' = length vs')"
  using assms
proof (induction n arbitrary: s L vs)
  case 0
  then show ?case by (intro exI [of _ 0] exI [of _ s] exI [of _ L] exI [of _ vs]) simp
next
  case (Suc n)
  note k = migD [OF Suc.prems(1)]
  obtain q where q: "L (RunQ i) = Some q" using sched_invD(2) [OF k(1), of "RunQ i"] Suc.prems(3) by auto
  have cnt: "tl_count (k_lists s) (RunQ i) = qlen L i" using tls_count [OF sched_invD(1) [OF k(1)] q] q by (simp add: qlen_def)
  obtain t us where vs: "vs = t # us" using Suc.prems(2) by (cases vs) auto
  note m = Suc.prems(1) [unfolded vs]
  show ?case
  proof (cases "qlen L i < share")
    case False
    then show ?thesis using Suc.prems cnt
      by (intro exI [of _ "Suc n"] exI [of _ s] exI [of _ L] exI [of _ vs]) simp
  next
    case lt: True
    show ?thesis
    proof (cases "t = c_curthread (k_cpus s c)")
      case True
      from give_skip [OF m] obtain h1 h2 where h: "threadlist_remhead (StackList c) (k_lists s) = Ok (Some t) h1"
        "threadlist_addtail (StackList c) t h1 = Ok () h2" "mig c (s\<lparr>k_lists := h2\<rparr>) (L(StackList c \<mapsto> us @ [t])) (us @ [t])" by blast
      have st: "give_loop c i share (Suc n) s = give_loop c i share n (s\<lparr>k_lists := h2\<rparr>)" using h(1,2) lt cnt True by simp
      have ql: "qlen (L(StackList c \<mapsto> us @ [t])) i = qlen L i" by (simp add: qlen_def)
      from Suc.IH [OF h(3)] Suc.prems vs obtain n' s' L' vs' where
        r: "give_loop c i share n (s\<lparr>k_lists := h2\<rparr>) = Ok n' s'" "mig c s' L' vs'" "n' \<le> length vs'" "same_but_ipi (s\<lparr>k_lists := h2\<rparr>) s'"
        "\<forall>l. l \<noteq> RunQ i \<longrightarrow> l \<noteq> StackList c \<longrightarrow> L' l = (L(StackList c \<mapsto> us @ [t])) l"
        "qlen L' i + length vs' = qlen L i + length vs" "n' = 0 \<or> share \<le> qlen L' i" "set vs' \<subseteq> set vs"
        unfolding ql by (auto simp del: fun_upd_apply)
      then show ?thesis unfolding st using True vs same_but_ipi_trans [OF same_but_ipi_refl(2) r(4)]
        by (intro exI [of _ n'] exI [of _ s'] exI [of _ L'] exI [of _ vs']) simp
    next
      case False
      define s2 where "s2 h1 h2 = kick i ((upd_thread t (\<lambda>th. th\<lparr>t_cpu := Some i\<rparr>) (s\<lparr>k_lists := h1\<rparr>))\<lparr>k_lists := h2\<rparr>)" for h1 h2
      let ?L = "L(StackList c \<mapsto> us, RunQ i \<mapsto> q @ [t])"
      from give_move [OF m False Suc.prems(3) i(2) q Suc.prems(5)] obtain h1 h2 where
        h: "threadlist_remhead (StackList c) (k_lists s) = Ok (Some t) h1" "threadlist_addtail (RunQ i) t h1 = Ok () h2"
        "mig c (s2 h1 h2) ?L us" "same_but_ipi s (s2 h1 h2)" unfolding s2_def by blast
      have st: "give_loop c i share (Suc n) s = give_loop c i share n (s2 h1 h2)"
        using h(1,2) lt cnt False Suc.prems(5) by (simp add: s2_def kick_def ipi_send_eq IPI_UNIDLE_def)
      have ql: "qlen ?L i = Suc (qlen L i)" using q by (simp add: qlen_def)
      have f: "i < k_ncpus (s2 h1 h2)" "c_ipi_lock (k_cpus (s2 h1 h2) i) = None" "c_curthread (k_cpus (s2 h1 h2) c) = c_curthread (k_cpus s c)"
        using h(4) Suc.prems(3,5) by (simp_all add: same_but_ipi_def)
      have len: "n \<le> length us" using Suc.prems(2) vs by simp
      from Suc.IH [OF h(3) len f(1) i(2) f(2), unfolded f(3)] obtain n' s' L' vs' where
        r: "give_loop c i share n (s2 h1 h2) = Ok n' s'" "mig c s' L' vs'" "n' \<le> length vs'" "same_but_ipi (s2 h1 h2) s'"
        "\<forall>l. l \<noteq> RunQ i \<longrightarrow> l \<noteq> StackList c \<longrightarrow> L' l = ?L l"
        "qlen L' i + length vs' = qlen ?L i + length us" "n' = 0 \<or> share \<le> qlen L' i" "set vs' \<subseteq> set us"
        "c_curthread (k_cpus s c) \<notin> set us \<longrightarrow> n = length us \<longrightarrow> n' = length vs'" by blast
      show ?thesis unfolding st
        by (rule exI [of _ n'], rule exI [of _ s'], rule exI [of _ L'], rule exI [of _ vs'])
          (use r vs ql same_but_ipi_trans [OF h(4) r(4)] in auto)
    qed
  qed
qed

lemma mig_lock [simp]: "mig c (upd_cpu k (\<lambda>p. p\<lparr>c_runqueue_lock := lk\<rparr>) s) L vs = mig c s L vs"
proof -
  have "cur_inv (upd_cpu k (\<lambda>p. p\<lparr>c_runqueue_lock := lk\<rparr>) s) = cur_inv s"
  proof -
    have "c_curthread (k_cpus (upd_cpu k (\<lambda>p. p\<lparr>c_runqueue_lock := lk\<rparr>) s) j) = c_curthread (k_cpus s j)" for j by simp
    then show ?thesis unfolding cur_inv_def by simp
  qed
  then show ?thesis by (simp add: mig_def)
qed

lemma locked_give:
  assumes m: "mig c s L vs" and lk: "locks_free s" and n: "n \<le> length vs" and i: "i < k_ncpus s" "i \<noteq> c"
  shows "\<exists>n' s' L' vs'. kbind (rq_acquire c i s) (\<lambda>_ s. kbind (give_loop c i share n s) (\<lambda>n s. kbind (rq_release c i s) (\<lambda>_ s. f n s))) = f n' s' \<and>
    mig c s' L' vs' \<and> n' \<le> length vs' \<and> same_but_ipi s s' \<and> (\<forall>l. l \<noteq> RunQ i \<longrightarrow> l \<noteq> StackList c \<longrightarrow> L' l = L l) \<and>
    qlen L' i + length vs' = qlen L i + length vs \<and> (n' = 0 \<or> share \<le> qlen L' i) \<and> set vs' \<subseteq> set vs \<and>
    (c_curthread (k_cpus s c) \<notin> set vs \<longrightarrow> n = length vs \<longrightarrow> n' = length vs')"
proof -
  have free: "c_runqueue_lock (k_cpus s i) = None" "c_ipi_lock (k_cpus s i) = None" using lk by (simp_all add: locks_free_def)
  define s1 where "s1 = upd_cpu i (\<lambda>p. p\<lparr>c_runqueue_lock := Some c\<rparr>) s"
  have acq: "rq_acquire c i s = Ok () s1" unfolding s1_def by (rule rq_acquire_eq [OF free(1)])
  have m1: "mig c s1 L vs" "i < k_ncpus s1" "c_ipi_lock (k_cpus s1 i) = None" "c_curthread (k_cpus s1 c) = c_curthread (k_cpus s c)"
    using m i free by (simp_all add: s1_def)
  from give_loop_ok [OF m1(1) n m1(2) i(2) m1(3), of share] obtain n' s2 L' vs' where
    r: "give_loop c i share n s1 = Ok n' s2" "mig c s2 L' vs'" "n' \<le> length vs'" "same_but_ipi s1 s2"
    "\<forall>l. l \<noteq> RunQ i \<longrightarrow> l \<noteq> StackList c \<longrightarrow> L' l = L l" "qlen L' i + length vs' = qlen L i + length vs"
    "n' = 0 \<or> share \<le> qlen L' i" "set vs' \<subseteq> set vs"
    "c_curthread (k_cpus s c) \<notin> set vs \<longrightarrow> n = length vs \<longrightarrow> n' = length vs'" unfolding m1(4) by blast
  define s' where "s' = upd_cpu i (\<lambda>p. p\<lparr>c_runqueue_lock := None\<rparr>) s2"
  have "rq_release c i s2 = Ok () s'" unfolding s'_def
    by (rule rq_release_eq) (use r(4) in \<open>simp add: same_but_ipi_def s1_def\<close>)
  moreover have "same_but_ipi s s'"
    using r(4) free unfolding same_but_ipi_def by (auto simp: s'_def s1_def)
  moreover have "mig c s' L' vs'" using r(2) by (simp add: s'_def)
  ultimately show ?thesis using r acq by (intro exI [of _ n'] exI [of _ s'] exI [of _ L'] exI [of _ vs']) simp
qed

lemma share_loop_ok:
  assumes "mig c s L vs" "locks_free s" "i + n \<le> k_ncpus s" "to_send \<le> length vs"
  shows "\<exists>s' L' vs'. share_loop c i n share to_send s = Ok () s' \<and> mig c s' L' vs' \<and> same_but_ipi s s' \<and>
    (\<forall>l. l \<noteq> StackList c \<longrightarrow> (\<forall>k \<in> {i..<i + n} - {c}. l \<noteq> RunQ k) \<longrightarrow> L' l = L l) \<and> set vs' \<subseteq> set vs \<and>
    sum (qlen L') ({i..<i + n} - {c}) + length vs' = sum (qlen L) ({i..<i + n} - {c}) + length vs \<and>
    (c_curthread (k_cpus s c) \<notin> set vs \<longrightarrow> to_send = length vs \<longrightarrow> vs' = [] \<or> (\<forall>k \<in> {i..<i + n} - {c}. share \<le> qlen L' k))"
  using assms
proof (induction n arbitrary: i s L vs to_send)
  case 0
  then show ?case by (intro exI [of _ s] exI [of _ L] exI [of _ vs]) simp
next
  case (Suc n)
  let ?R = "{Suc i..<Suc i + n} - {c}"
  consider "to_send = 0" | "to_send > 0" "i = c" | "to_send > 0" "i \<noteq> c" by auto
  then show ?case
  proof cases
    case 1
    then show ?thesis using Suc.prems by (intro exI [of _ s] exI [of _ L] exI [of _ vs]) simp
  next
    case 2
    then have "{i..<i + Suc n} - {c} = ?R" by auto
    then show ?thesis using Suc.IH [of s L vs "Suc i" to_send] Suc.prems 2 by simp
  next
    case 3
    then have e: "{i..<i + Suc n} - {c} = insert i ?R" by auto
    have ic: "i < k_ncpus s" using Suc.prems(3) by simp
    from locked_give [OF Suc.prems(1,2,4) ic 3(2), of share "\<lambda>to_send s. share_loop c (Suc i) n share to_send s"]
    obtain n1 s1 L1 vs1 where r: "share_loop c i (Suc n) share to_send s = share_loop c (Suc i) n share n1 s1"
      "mig c s1 L1 vs1" "n1 \<le> length vs1" "same_but_ipi s s1" "\<forall>l. l \<noteq> RunQ i \<longrightarrow> l \<noteq> StackList c \<longrightarrow> L1 l = L l"
      "qlen L1 i + length vs1 = qlen L i + length vs" "n1 = 0 \<or> share \<le> qlen L1 i" "set vs1 \<subseteq> set vs"
      "c_curthread (k_cpus s c) \<notin> set vs \<longrightarrow> to_send = length vs \<longrightarrow> n1 = length vs1" using 3 by auto
    have f: "locks_free s1" "Suc i + n \<le> k_ncpus s1" "c_curthread (k_cpus s1 c) = c_curthread (k_cpus s c)"
      using same_but_ipiD(2) [OF r(4)] r(4) Suc.prems(2,3) by (simp_all add: same_but_ipi_def)
    from Suc.IH [OF r(2) f(1,2) r(3), unfolded f(3)] obtain s' L' vs' where
      q: "share_loop c (Suc i) n share n1 s1 = Ok () s'" "mig c s' L' vs'" "same_but_ipi s1 s'"
      "\<forall>l. l \<noteq> StackList c \<longrightarrow> (\<forall>k \<in> ?R. l \<noteq> RunQ k) \<longrightarrow> L' l = L1 l" "set vs' \<subseteq> set vs1"
      "sum (qlen L') ?R + length vs' = sum (qlen L1) ?R + length vs1"
      "c_curthread (k_cpus s c) \<notin> set vs1 \<longrightarrow> n1 = length vs1 \<longrightarrow> vs' = [] \<or> (\<forall>k \<in> ?R. share \<le> qlen L' k)" by blast
    have li: "qlen L' i = qlen L1 i" using q(4) by (simp add: qlen_def)
    have "sum (qlen L1) ?R = sum (qlen L) ?R" by (rule sum.cong) (use r(5) in \<open>auto simp: qlen_def\<close>)
    then have sm: "sum (qlen L') (insert i ?R) + length vs' = sum (qlen L) (insert i ?R) + length vs"
      using q(6) r(6) li by simp
    have lf: "L' l = L l" if "l \<noteq> StackList c" "\<forall>k \<in> insert i ?R. l \<noteq> RunQ k" for l
      using that q(4) r(5) by simp
    have bal: "vs' = [] \<or> (\<forall>k \<in> insert i ?R. share \<le> qlen L' k)"
      if "c_curthread (k_cpus s c) \<notin> set vs" "to_send = length vs"
    proof (cases "vs' = []")
      case False
      then have "n1 \<noteq> 0" using that r(9) q(5) by auto
      then show ?thesis using that r(7,8,9) q(7) li False by auto
    qed simp
    show ?thesis unfolding r(1) e
      by (rule exI [of _ s'], rule exI [of _ L'], rule exI [of _ vs'])
        (use q(1,2,5) r(8) same_but_ipi_trans [OF r(4) q(3)] sm lf bal in blast)
  qed
qed

section \<open>The whole operation\<close>

lemma off_list_split:
  assumes "L j = Some xs" "L k = Some ys" "j \<noteq> k" "set us \<union> set vs = set xs \<union> set ys"
  shows "off_list (L(j \<mapsto> us, k \<mapsto> vs)) t = off_list L t"
proof
  assume o: "off_list (L(j \<mapsto> us, k \<mapsto> vs)) t"
  have "t \<notin> set us" "t \<notin> set vs" using off_listD [OF o, of j us] off_listD [OF o, of k vs] assms(3) by simp_all
  then show "off_list L t" unfolding off_list_def
  proof (intro allI impI)
    fix l ts
    assume "L l = Some ts"
    then show "t \<notin> set ts" using \<open>t \<notin> set us\<close> \<open>t \<notin> set vs\<close> assms off_listD [OF o, of l ts] by (cases "l = j"; cases "l = k") auto
  qed
next
  assume o: "off_list L t"
  then have "t \<notin> set us" "t \<notin> set vs" using off_listD [OF o assms(1)] off_listD [OF o assms(2)] assms(4) by auto
  then show "off_list (L(j \<mapsto> us, k \<mapsto> vs)) t" using o by (auto simp: off_list_def split: if_splits)
qed

lemma rq_locked_section:
  assumes "locks_free s" "f (k_lists s) = Ok () h"
  shows "kbind (rq_acquire c k s) (\<lambda>_ s. kbind (on_lists f s) (\<lambda>_ s. rq_release c k s)) = Ok () (s\<lparr>k_lists := h\<rparr>)"
proof -
  have free: "c_runqueue_lock (k_cpus s k) = None" using assms(1) by (simp add: locks_free_def)
  let ?s = "upd_cpu k (\<lambda>p. p\<lparr>c_runqueue_lock := Some c\<rparr>) s"
  have "upd_cpu k (\<lambda>p. p\<lparr>c_runqueue_lock := None\<rparr>) (?s\<lparr>k_lists := h\<rparr>) = s\<lparr>k_lists := h\<rparr>"
    using free by (simp add: upd_cpu_def cpu_lock_restore)
  then show ?thesis using rq_acquire_eq [OF free, of c] rq_release_eq [of "?s\<lparr>k_lists := h\<rparr>" k c] assms(2) by simp
qed

lemma take_victims:
  assumes k: "kern_mid s L" and q: "L (RunQ c) = Some (us @ vs)" and n: "L (StackList c) = Some []" and c: "c < k_ncpus s"
  shows "\<exists>h. kbind (rq_acquire c c s) (\<lambda>_ s. kbind (victim_loop c (length vs) s) (\<lambda>_ s. rq_release c c s)) = Ok () (s\<lparr>k_lists := h\<rparr>) \<and>
    mig c (s\<lparr>k_lists := h\<rparr>) (L(RunQ c \<mapsto> us, StackList c \<mapsto> vs)) vs"
proof -
  note kd = kern_midD [OF k]
  let ?M = "L(RunQ c \<mapsto> us, StackList c \<mapsto> vs)"
  obtain h where h: "victims c (length vs) (k_lists s) = Ok () h" "tls h ?M (dom (k_threads s))"
    using victims_tls [OF sched_invD(1) [OF kd(1)] q n] by (auto simp del: fun_upd_apply)
  have e: "kbind (victim_loop c (length vs) t) f = kbind (on_lists (victims c (length vs)) t) f" if "k_lists t = k_lists s" for t f
    using victim_loop_lists [of c "length vs" t h] h(1) that by simp
  have "kbind (rq_acquire c c s) (\<lambda>_ s. kbind (victim_loop c (length vs) s) (\<lambda>_ s. rq_release c c s)) = Ok () (s\<lparr>k_lists := h\<rparr>)"
    using rq_locked_section [of s "victims c (length vs)" h, OF kd(3) h(1), of c c] rq_acquire_eq [of s c c] kd(3) by (simp add: e locks_free_def)
  moreover have "sched_inv (s\<lparr>k_lists := h\<rparr>) ?M {}"
  proof (rule sched_relist [OF kd(1) h(2)])
    show "?M l \<noteq> None" if "list_exists s l" for l using sched_invD(2) [OF kd(1) that] by auto
    show "off_list ?M t = off_list L t" for t
      using off_list_split [of L "RunQ c" "us @ vs" "StackList c" "[]" us vs t] q n by simp
    show "\<exists>th. k_threads s t = Some th \<and> place_ok (k_ncpus s) l th" if "?M l = Some ts" "t \<in> set ts" for l ts t
      using that sched_invD(3) [OF kd(1)] sched_invD(3) [OF kd(1) q, of t] by (auto split: if_splits)
  qed
  moreover have "ipi_inv s ?M {}" using kd(2) q by (auto simp: ipi_inv_def)
  moreover have "homes s t = Some c" if "t \<in> set vs" for t
    using sched_invD(3) [OF kd(1) q, of t] that by (auto simp: homes_def)
  ultimately show ?thesis using kd(4) by (intro exI [of _ h]) (simp add: mig_def)
qed

lemma put_back:
  assumes m: "mig c s L vs" and lk: "locks_free s" and q: "L (RunQ c) = Some us" and c: "c < k_ncpus s"
    and b: "c_isidle (k_cpus s c) \<Longrightarrow> vs \<noteq> [] \<Longrightarrow> bit (c_ipi_pending (k_cpus s c)) IPI_UNIDLE"
  shows "\<exists>h. (if \<not> threadlist_isempty (StackList c) (k_lists s)
      then kbind (rq_acquire c c s) (\<lambda>_ s. kbind (on_lists (move_all threadlist_remhead threadlist_addtail (StackList c) (RunQ c)
             (Suc (tl_count (k_lists s) (StackList c)))) s) (\<lambda>_ s. rq_release c c s))
      else Ok () s) = Ok () (s\<lparr>k_lists := h\<rparr>) \<and> kern_mid (s\<lparr>k_lists := h\<rparr>) (L(StackList c \<mapsto> [], RunQ c \<mapsto> us @ vs))"
proof (cases "vs = []")
  case True
  note k = migD [OF m]
  have "threadlist_isempty (StackList c) (k_lists s)" using tls_isempty [OF sched_invD(1) [OF k(1)] k(4)] True by simp
  moreover have "L(StackList c \<mapsto> [], RunQ c \<mapsto> us @ vs) = L" using True k(4) q by (simp add: fun_upd_idem)
  ultimately show ?thesis using k lk by (intro exI [of _ "k_lists s"]) (simp add: kern_mid_def)
next
  case False
  note k = migD [OF m] and t = sched_invD(1) [OF migD(1) [OF m]]
  let ?M = "L(StackList c \<mapsto> [], RunQ c \<mapsto> us @ vs)"
  have ne: "\<not> threadlist_isempty (StackList c) (k_lists s)" "tl_count (k_lists s) (StackList c) = length vs"
    using tls_isempty [OF t k(4)] tls_count [OF t k(4)] False by simp_all
  obtain h where h: "move_all threadlist_remhead threadlist_addtail (StackList c) (RunQ c) (Suc (length vs)) (k_lists s) = Ok () h"
    "tls h ?M (dom (k_threads s))"
    using tq.move_all_law [OF t k(4) q, of "Suc (length vs)"] by (auto simp del: fun_upd_apply)
  have acq: "rq_acquire c c s = Ok () (upd_cpu c (\<lambda>p. p\<lparr>c_runqueue_lock := Some c\<rparr>) s)"
    using lk by (intro rq_acquire_eq) (simp add: locks_free_def)
  note sec = rq_locked_section [of s "move_all threadlist_remhead threadlist_addtail (StackList c) (RunQ c) (Suc (length vs))" h, OF lk h(1), of c c]
  have "sched_inv (s\<lparr>k_lists := h\<rparr>) ?M {}"
  proof (rule sched_relist [OF k(1) h(2)])
    show "?M l \<noteq> None" if "list_exists s l" for l using sched_invD(2) [OF k(1) that] that by auto
    show "off_list ?M u = off_list L u" for u
      using off_list_split [of L "StackList c" vs "RunQ c" us "[]" "us @ vs" u] q k(4) by auto
    show "\<exists>th. k_threads s u = Some th \<and> place_ok (k_ncpus s) l th" if M: "?M l = Some ts" "u \<in> set ts" for l ts u
    proof (cases "l = RunQ c \<and> u \<in> set vs")
      case True
      obtain th where "k_threads s u = Some th" "place_ok (k_ncpus s) (StackList c) th"
        using sched_invD(3) [OF k(1,4), of u] True by blast
      then show ?thesis using True k(5) [of u] c by (auto simp: homes_def)
    next
      case False
      then show ?thesis using M sched_invD(3) [OF k(1) q, of u] sched_invD(3) [OF k(1), of l ts u] by (auto split: if_splits)
    qed
  qed
  moreover have "ipi_inv s ?M {}" using k(2) b False q by (auto simp: ipi_inv_def)
  ultimately show ?thesis using sec acq ne lk k(3) by (intro exI [of _ h]) (simp add: kern_mid_def)
qed

lemma div_round_up: "0 < b \<Longrightarrow> a + b \<le> 2 ^ 32 \<Longrightarrow> 0 < a + b \<Longrightarrow> a + b < 2 ^ 32 \<Longrightarrow> DIVROUNDUP a b = (a + b - 1) div b"
  by (simp add: DIVROUNDUP_def)

lemma share_enough: "0 < (n :: nat) \<Longrightarrow> tot \<le> n * ((tot + n - 1) div n)"
proof -
  assume n: "0 < n"
  have "tot + n - 1 = n * ((tot + n - 1) div n) + (tot + n - 1) mod n" by simp
  moreover have "(tot + n - 1) mod n < n" using n by simp
  ultimately show ?thesis using n by linarith
qed

lemma all_handed_over:
  assumes c: "c < N" and f: "\<forall>k \<in> {0..<N} - {c}. share \<le> (f k :: nat)" and s: "sum f ({0..<N} - {c}) + m + share = tot"
    and t: "tot \<le> N * share"
  shows "m = 0"
proof -
  have "card ({0..<N} - {c}) * share \<le> sum f ({0..<N} - {c})" using sum_bounded_below [of "{0..<N} - {c}" share f] f by simp
  then have "(N - 1) * share + m + share \<le> N * share" using s t c by simp
  moreover have "(N - 1) * share + share = N * share" using c by (cases N) simp_all
  ultimately show ?thesis by linarith
qed

lemma migration_body:
  assumes a: "refines s a" and c: "c < k_ncpus s" and cnt: "count_loop c 0 (k_ncpus s) 0 0 s = Ok (qlen (a_q a) c, tot) s"
    and share: "share = DIVROUNDUP tot (k_ncpus s)" "share \<le> qlen (a_q a) c"
  defines "R \<equiv> {0..<k_ncpus s} - {c}"
  shows "\<exists>s' P (vs :: nat list). thread_consider_migration c s = Ok () s' \<and> kern_mid s' P \<and> same_but_ipi s s' \<and>
    (\<forall>l. (\<forall>k < k_ncpus s. l \<noteq> RunQ k) \<longrightarrow> P l = a_q a l) \<and> qlen P c = share + length vs \<and>
    sum (qlen P) R + length vs + share = sum (qlen (a_q a)) R + qlen (a_q a) c \<and>
    (a_run a c \<noteq> None \<longrightarrow> vs = [] \<or> (\<forall>k \<in> R. share \<le> qlen P k))"
proof -
  note k = kern_okD [OF refinesD(1) [OF a]] and km = refinesD(1) [OF a, unfolded kern_ok_mid]
  obtain q where q: "a_q a (RunQ c) = Some q" using sched_invD(2) [OF k(1), of "RunQ c"] c by auto
  define us vs where "us = take share q" and "vs = drop share q"
  have uv: "q = us @ vs" "length us = share" "length vs = qlen (a_q a) c - share"
    using share(2) q by (simp_all add: us_def vs_def qlen_def)
  define s1 where "s1 = s\<lparr>k_lists := threadlist_init (StackList c) (k_lists s)\<rparr>"
  let ?L = "(a_q a)(StackList c \<mapsto> [])"
  let ?M = "?L(RunQ c \<mapsto> us, StackList c \<mapsto> vs)"
  have k1: "kern_mid s1 ?L" unfolding s1_def by (rule kern_stack_init) (use km in auto)
  have l1: "?L (RunQ c) = Some (us @ vs)" "?L (StackList c) = Some []" "c < k_ncpus s1" using q uv c by (simp_all add: s1_def)
  obtain h where h: "kbind (rq_acquire c c s1) (\<lambda>_ s. kbind (victim_loop c (length vs) s) (\<lambda>_ s. rq_release c c s)) = Ok () (s1\<lparr>k_lists := h\<rparr>)"
    "mig c (s1\<lparr>k_lists := h\<rparr>) ?M vs" using take_victims [OF k1 l1] by blast
  define s2 where "s2 = s1\<lparr>k_lists := h\<rparr>"
  have s2: "k_ncpus s2 = k_ncpus s" "locks_free s2" "same_but_ipi s s2" "k_cpus s2 = k_cpus s"
    using k(3) by (simp_all add: s2_def s1_def same_but_ipi_def)
  have "0 + k_ncpus s \<le> k_ncpus s2" "length vs \<le> length vs" using s2 by simp_all
  from share_loop_ok [OF h(2) [folded s2_def] s2(2) this, of share] obtain s3 M vs' where
    r: "share_loop c 0 (k_ncpus s) share (length vs) s2 = Ok () s3" "mig c s3 M vs'" "same_but_ipi s2 s3"
    "\<forall>l. l \<noteq> StackList c \<longrightarrow> (\<forall>k \<in> R. l \<noteq> RunQ k) \<longrightarrow> M l = ?M l" "set vs' \<subseteq> set vs"
    "sum (qlen M) R + length vs' = sum (qlen ?M) R + length vs"
    "c_curthread (k_cpus s2 c) \<notin> set vs \<longrightarrow> vs' = [] \<or> (\<forall>k \<in> R. share \<le> qlen M k)"
    unfolding add_0 R_def by blast
  note sb = same_but_ipi_trans [OF s2(3) r(3)]
  have f3: "locks_free s3" "M (RunQ c) = Some us" "c < k_ncpus s3"
    using same_but_ipiD(2) [OF r(3)] s2(2) r(4) sb c by (simp_all add: same_but_ipi_def R_def)
  have b3: "bit (c_ipi_pending (k_cpus s3 c)) IPI_UNIDLE" if "c_isidle (k_cpus s3 c)" "vs' \<noteq> []"
  proof -
    have "q \<noteq> []" using that(2) r(5) uv by auto
    then have "bit (c_ipi_pending (k_cpus s c)) IPI_UNIDLE" using k(2) c q sb that(1) by (auto simp: ipi_inv_def same_but_ipi_def)
    then show ?thesis using sb by (simp add: same_but_ipi_def)
  qed
  define P where "P = M(StackList c \<mapsto> [], RunQ c \<mapsto> us @ vs')"
  obtain h' where h': "(if \<not> threadlist_isempty (StackList c) (k_lists s3)
    then kbind (rq_acquire c c s3) (\<lambda>_ s. kbind (on_lists (move_all threadlist_remhead threadlist_addtail (StackList c) (RunQ c)
           (Suc (tl_count (k_lists s) (StackList c)))) s) (\<lambda>_ s. rq_release c c s))
    else Ok () s3) = Ok () (s3\<lparr>k_lists := h'\<rparr>)" "kern_mid (s3\<lparr>k_lists := h'\<rparr>) P"
    using put_back [OF r(2) f3 b3] unfolding P_def by blast
  have P: "P (StackList c) = Some []" "P (RunQ c) = Some (us @ vs')" by (simp_all add: P_def)
  define s' where "s' = s3\<lparr>k_lists := h'\<rparr>"
  note cl = kern_stack_cleanup [OF h'(2) [folded s'_def] P(1)]
  have em: "threadlist_isempty (StackList c) (k_lists s')"
    using tls_isempty [OF sched_invD(1) [OF kern_midD(1) [OF h'(2)]] P(1)] by (simp add: s'_def)
  have run: "thread_consider_migration c s = Ok () s'"
    using cnt share(2) h(1) r(1) h'(1) cl(1) em uv(3)
    unfolding kbind_assoc [symmetric]
    by (simp add: thread_consider_migration_def share(1) [symmetric] s1_def [symmetric]
      s2_def [symmetric] s2(1) s'_def [symmetric] Let_def kbind_assoc [symmetric]) (auto split: if_splits)
  have nc: "c_curthread (k_cpus s2 c) \<notin> set vs" if "a_run a c \<noteq> None"
  proof -
    have "running s c (c_curthread (k_cpus s c))" using that refinesD(3) [OF a] by (auto simp: runs_def running_def split: if_splits)
    then show ?thesis using off_listD [OF sched_invD(4) [OF k(1)] q] s2(4) uv(1) by auto
  qed
  have qP: "qlen (P(StackList c := None)) j = qlen M j" if "j \<in> R" for j using that by (simp add: qlen_def P_def R_def)
  have "sum (qlen ?M) R = sum (qlen (a_q a)) R" by (rule sum.cong) (auto simp: qlen_def R_def)
  moreover have "sum (qlen (P(StackList c := None))) R = sum (qlen M) R" by (rule sum.cong) (simp_all add: qP)
  ultimately have "sum (qlen (P(StackList c := None))) R + length vs' + share = sum (qlen (a_q a)) R + qlen (a_q a) c"
    using r(6) uv(3) share(2) by linarith
  moreover have "(P(StackList c := None)) l = a_q a l" if "\<forall>k < k_ncpus s. l \<noteq> RunQ k" for l
    using that r(4) k(5) c by (cases "l = StackList c") (simp_all add: P_def R_def)
  moreover have "qlen (P(StackList c := None)) c = share + length vs'" using P(2) uv(2) by (simp add: qlen_def)
  moreover have "same_but_ipi s s'" using same_but_ipi_trans [OF sb same_but_ipi_refl(2)] by (simp add: s'_def)
  moreover have "a_run a c \<noteq> None \<longrightarrow> vs' = [] \<or> (\<forall>k \<in> R. share \<le> qlen (P(StackList c := None)) k)"
    using r(7) nc qP by (auto simp del: fun_upd_apply)
  ultimately show ?thesis using run cl(2) by blast
qed

lemma migration_refines:
  assumes a: "refines s a" and c: "c < k_ncpus s"
  shows "\<exists>s' a'. thread_consider_migration c s = Ok () s' \<and> refines s' a' \<and> a_run a' = a_run a \<and> dom (a_cpu a') = dom (a_cpu a) \<and>
    (\<forall>l. (\<forall>k < k_ncpus s. l \<noteq> RunQ k) \<longrightarrow> a_q a' l = a_q a l) \<and> k_ncpus s' = k_ncpus s \<and> k_wchans s' = k_wchans s \<and>
    (a_run a c \<noteq> None \<longrightarrow> sum (qlen (a_q a)) {..<k_ncpus s} + k_ncpus s < 2 ^ 32 \<longrightarrow>
       qlen (a_q a') c \<le> (sum (qlen (a_q a)) {..<k_ncpus s} + k_ncpus s - 1) div k_ncpus s)"
proof -
  note k = kern_okD [OF refinesD(1) [OF a]]
  define N where "N = k_ncpus s"
  define tot where "tot = sum (qlen (a_q a)) {..<N}"
  define share where "share = DIVROUNDUP tot N"
  have cnt: "count_loop c 0 (k_ncpus s) 0 0 s = Ok (qlen (a_q a) c, tot) s"
    using count_loop_eq [OF k(1,3), of 0 N 0 c 0] qlen_total [OF k(1)] c by (simp add: N_def tot_def lessThan_atLeast0)
  have sh: "share = (tot + N - 1) div N" if "tot + N < 2 ^ 32" using that c by (simp add: share_def div_round_up N_def)
  show ?thesis
  proof (cases "qlen (a_q a) c < share")
    case True
    then have "thread_consider_migration c s = Ok () s" using cnt by (simp add: thread_consider_migration_def N_def share_def)
    moreover have "qlen (a_q a) c \<le> (tot + N - 1) div N" if "tot + N < 2 ^ 32" using sh [OF that] True by simp
    ultimately show ?thesis using a unfolding tot_def N_def by (intro exI [of _ s] exI [of _ a]) blast
  next
    case False
    let ?R = "{0..<N} - {c}"
    from migration_body [OF a c cnt, of share] False obtain s' P and vs :: "nat list" where
      b: "thread_consider_migration c s = Ok () s'" "kern_mid s' P" "same_but_ipi s s'" "\<forall>l. (\<forall>k < k_ncpus s. l \<noteq> RunQ k) \<longrightarrow> P l = a_q a l"
      "qlen P c = share + length vs" "sum (qlen P) ?R + length vs + share = sum (qlen (a_q a)) ?R + qlen (a_q a) c"
      "a_run a c \<noteq> None \<longrightarrow> vs = [] \<or> (\<forall>k \<in> ?R. share \<le> qlen P k)" by (auto simp: share_def N_def)
    define a' where "a' = \<lparr>a_cpu = homes s', a_run = runs s', a_q = P\<rparr>"
    have "refines s' a'" using b(2,4) k(5) by (simp add: refines_def kern_ok_mid a'_def)
    moreover have "qlen P c \<le> (tot + N - 1) div N" if busy: "a_run a c \<noteq> None" and small: "tot + N < 2 ^ 32"
    proof -
      have "tot = qlen (a_q a) c + sum (qlen (a_q a)) ?R"
        unfolding tot_def lessThan_atLeast0 using c by (subst sum.remove [of _ c]) (auto simp: N_def)
      moreover have "tot \<le> N * share" using share_enough [of N tot] sh [OF small] c by (simp add: N_def)
      ultimately have "vs = []" using all_handed_over [of c N share "qlen P" "length vs" tot] b(6,7) busy c by (auto simp: N_def)
      then show ?thesis using b(5) sh [OF small] by simp
    qed
    ultimately show ?thesis using b(1,3,4) same_but_ipiD(1) [OF b(3)] refinesD(2,3) [OF a]
      by (intro exI [of _ s'] exI [of _ a']) (simp add: same_but_ipi_def a'_def tot_def N_def)
  qed
qed

section \<open>The clock interrupt\<close>

text \<open>What a migration may do, seen from the abstract scheduler: threads waiting to run change processors.\<close>

definition a_migrated :: "asched \<Rightarrow> asched \<Rightarrow> bool" where
  "a_migrated a a' \<longleftrightarrow> a_run a' = a_run a \<and> dom (a_cpu a') = dom (a_cpu a) \<and> (\<forall>l. (\<forall>k. l \<noteq> RunQ k) \<longrightarrow> a_q a' l = a_q a l) \<and>
     (\<forall>l. a_q a' l = None \<longleftrightarrow> a_q a l = None)"

lemma hardclock_tick:
  assumes a: "refines s a"
  shows "refines (upd_cpu c (\<lambda>p. p\<lparr>c_hardclocks := n\<rparr>) s) a"
proof -
  let ?s = "upd_cpu c (\<lambda>p. p\<lparr>c_hardclocks := n\<rparr>) s"
  have f: "c_isidle (k_cpus ?s k) = c_isidle (k_cpus s k)" "c_curthread (k_cpus ?s k) = c_curthread (k_cpus s k)"
    "c_runqueue_lock (k_cpus ?s k) = c_runqueue_lock (k_cpus s k)" "c_ipi_lock (k_cpus ?s k) = c_ipi_lock (k_cpus s k)"
    "c_ipi_pending (k_cpus ?s k) = c_ipi_pending (k_cpus s k)" for k by simp_all
  have g: "k_ncpus ?s = k_ncpus s" "k_threads ?s = k_threads s" "k_wchans ?s = k_wchans s" "k_lists ?s = k_lists s" by simp_all
  note k = kern_okD [OF refinesD(1) [OF a]]
  have "sched_inv ?s (a_q a) {}" by (rule sched_inv_cong [OF k(1)]) (simp_all add: running_def fun_eq_iff)
  moreover have "ipi_inv ?s (a_q a) {}" using k(2) unfolding ipi_inv_def f g .
  moreover have "locks_free ?s" using k(3) unfolding locks_free_def f g .
  moreover have "cur_inv ?s" using k(4) unfolding cur_inv_def f g .
  moreover have "homes ?s = homes s" "runs ?s = runs s" by (simp_all add: homes_def runs_def fun_eq_iff)
  ultimately show ?thesis using k(5) refinesD(2,3) [OF a] by (simp add: refines_def kern_ok_def)
qed

lemma hardclock_refines:
  assumes a: "refines s a" and c: "c < k_ncpus s"
  shows "\<exists>s' a1. hardclock c s = Ok () s' \<and> refines s' (a_yield c a1) \<and> a_migrated a a1 \<and> k_ncpus s' = k_ncpus s \<and> k_wchans s' = k_wchans s"
proof -
  define n where "n = c_hardclocks (k_cpus s c) + 1"
  define s1 where "s1 = upd_cpu c (\<lambda>p. p\<lparr>c_hardclocks := n\<rparr>) s"
  have s1: "refines s1 a" "c < k_ncpus s1" "k_ncpus s1 = k_ncpus s" "k_wchans s1 = k_wchans s"
    using hardclock_tick [OF a] c by (simp_all add: s1_def)
  have "\<exists>s2 a1. (if n mod MIGRATE_HARDCLOCKS = 0 then thread_consider_migration c s1 else Ok () s1) = Ok () s2 \<and>
    refines s2 a1 \<and> a_migrated a a1 \<and> k_ncpus s2 = k_ncpus s \<and> k_wchans s2 = k_wchans s"
  proof (cases "n mod MIGRATE_HARDCLOCKS = 0")
    case True
    from migration_refines [OF s1(1,2)] obtain s2 a1 where 2: "thread_consider_migration c s1 = Ok () s2" "refines s2 a1"
      and m: "a_run a1 = a_run a" "dom (a_cpu a1) = dom (a_cpu a)" "\<forall>l. (\<forall>k < k_ncpus s1. l \<noteq> RunQ k) \<longrightarrow> a_q a1 l = a_q a l"
        "k_ncpus s2 = k_ncpus s1" "k_wchans s2 = k_wchans s1" by blast
    have "a_q a (RunQ k) \<noteq> None \<and> a_q a1 (RunQ k) \<noteq> None" if "k < k_ncpus s1" for k
      using sched_invD(2) [OF kern_okD(1) [OF refinesD(1) [OF s1(1)]], of "RunQ k"]
        sched_invD(2) [OF kern_okD(1) [OF refinesD(1) [OF 2(2)]], of "RunQ k"] m(4) that by auto
    then have "a_migrated a a1" using m(1-3) unfolding a_migrated_def by metis
    then show ?thesis using True s1 2 m(4,5) by auto
  next
    case False
    then show ?thesis using s1 by (auto simp: a_migrated_def)
  qed
  then obtain s2 a1 where 2: "(if n mod MIGRATE_HARDCLOCKS = 0 then thread_consider_migration c s1 else Ok () s1) = Ok () s2"
    "refines s2 a1" "a_migrated a a1" "k_ncpus s2 = k_ncpus s" "k_wchans s2 = k_wchans s" by blast
  have "upd_cpu c (\<lambda>p. p\<lparr>c_hardclocks := c_hardclocks p + 1\<rparr>) s = s1" by (simp add: s1_def n_def upd_cpu_def)
  moreover have "c_hardclocks (k_cpus s1 c) = n" by (simp add: s1_def)
  ultimately have "hardclock c s = thread_yield c s2" using 2(1) by (simp add: hardclock_def schedule_def)
  then show ?thesis using thread_yield_refines [OF 2(2), of c] 2(3-5) c by (metis)
qed

end
