(* ===== verification/SchedRun.thy ===== *)
theory SchedRun
  imports Migrate
begin

text \<open>
  The thread system as a whole: any sequence of operations on any processors, from the moment the kernel is
  started. Every operation returns, keeps the invariant and does what the abstract scheduler does.
\<close>

section \<open>Events\<close>

datatype event = Yield nat | Exit nat | Sleep nat nat | WakeOne nat nat | WakeAll nat nat | Fork nat nat string
  | ForkFail nat nat string | Interrupt nat | Clock nat | NewWchan nat string | DropWchan nat | NewCpu nat string "tlbshootdown list"

text \<open>What the callers see to: a thread runs when it forks, exits or sleeps, a thread does not sleep in an interrupt handler,
  addresses from \<open>kmalloc\<close> are fresh, a wait channel exists and is empty when it goes away.\<close>

fun enabled :: "kern \<Rightarrow> event \<Rightarrow> bool" where
  "enabled s (Yield c) \<longleftrightarrow> c < k_ncpus s"
| "enabled s (Exit c) \<longleftrightarrow> runs s c \<noteq> None"
| "enabled s (Sleep c w) \<longleftrightarrow> k_wchans s w \<noteq> None \<and>
     (case runs s c of None \<Rightarrow> False
      | Some t \<Rightarrow> (case k_threads s t of None \<Rightarrow> False | Some th \<Rightarrow> \<not> t_in_interrupt th))"
| "enabled s (WakeOne c w) \<longleftrightarrow> c < k_ncpus s \<and> k_wchans s w \<noteq> None"
| "enabled s (WakeAll c w) \<longleftrightarrow> c < k_ncpus s \<and> k_wchans s w \<noteq> None"
| "enabled s (Fork c t name) \<longleftrightarrow> runs s c \<noteq> None \<and> k_threads s t = None \<and> 0 < t \<and> t < 2 ^ 32"
| "enabled s (ForkFail c t name) \<longleftrightarrow> runs s c \<noteq> None \<and> k_threads s t = None \<and> 0 < t \<and> t < 2 ^ 32"
| "enabled s (Interrupt c) \<longleftrightarrow> c < k_ncpus s"
| "enabled s (Clock c) \<longleftrightarrow> c < k_ncpus s"
| "enabled s (NewWchan w name) \<longleftrightarrow> k_wchans s w = None"
| "enabled s (DropWchan w) \<longleftrightarrow> k_wchans s w \<noteq> None \<and> tl_count (k_lists s) (WchanList w) = 0"
| "enabled s (NewCpu t name junk) \<longleftrightarrow> k_threads s t = None \<and> 0 < t \<and> t < 2 ^ 32"

fun kexec :: "event \<Rightarrow> kern \<Rightarrow> (unit, kern) out" where
  "kexec (Yield c) s = thread_yield c s"
| "kexec (Exit c) s = thread_exit c s"
| "kexec (Sleep c w) s = kbind (wchan_lock c w s) (\<lambda>_ s. wchan_sleep c w s)"
| "kexec (WakeOne c w) s = wchan_wakeone c w s"
| "kexec (WakeAll c w) s = wchan_wakeall c w s"
| "kexec (Fork c t name) s = kbind (thread_fork c (Some t) True True name s) (\<lambda>_ s. Ok () s)"
| "kexec (ForkFail c t name) s = (case thread_fork c (Some t) True False name s of Err _ s' \<Rightarrow> Ok () s' | _ \<Rightarrow> Panic)"
| "kexec (Interrupt c) s =
     kbind (interprocessor_interrupt c s) (\<lambda>_ s. if c_isidle (k_cpus s c) then switch_again c s else Ok () s)"
| "kexec (Clock c) s = hardclock c s"
| "kexec (NewWchan w name) s = Ok () (snd (wchan_create (Some w) name s))"
| "kexec (DropWchan w) s = wchan_destroy w s"
| "kexec (NewCpu t name junk) s = kbind (cpu_create True True (Some t) True True (\<lambda>_. name) junk (k_ncpus s) s) (\<lambda>_ s. Ok () s)"

inductive astep :: "asched \<Rightarrow> event \<Rightarrow> asched \<Rightarrow> bool" where
  "astep a (Yield c) (a_yield c a)"
| "astep a (Exit c) (a_leave c (Zombies c) a)"
| "astep a (Sleep c w) (a_leave c (WchanList w) a)"
| "astep a (WakeOne c w) (a_wakeone w a)"
| "astep a (WakeAll c w) (a_wakeall w a)"
| "astep a (Fork c t name) (a_fork c t a)"
| "astep a (ForkFail c t name) a"
| "astep a (Interrupt c) (if a_run a c = None then a_pick c a else a)"
| "a_migrated a a1 \<Longrightarrow> astep a (Clock c) (a_yield c a1)"
| "astep a (NewWchan w name) (a\<lparr>a_q := (a_q a)(WchanList w \<mapsto> [])\<rparr>)"
| "astep a (DropWchan w) (a\<lparr>a_q := (a_q a)(WchanList w := None)\<rparr>)"
| "a_q a (RunQ n) = None \<Longrightarrow> astep a (NewCpu t name junk) (a_cpu_create n t a)"

inductive_simps astep_simps [simp]: "astep a (Yield c) a'" "astep a (Exit c) a'" "astep a (Sleep c w) a'" "astep a (WakeOne c w) a'"
  "astep a (WakeAll c w) a'" "astep a (Fork c t name) a'" "astep a (ForkFail c t name) a'" "astep a (Interrupt c) a'"
  "astep a (Clock c) a'" "astep a (NewWchan w name) a'" "astep a (DropWchan w) a'" "astep a (NewCpu t name junk) a'"

text \<open>The lists in the store are those of the processors and wait channels there are.\<close>

definition sim :: "kern \<Rightarrow> asched \<Rightarrow> bool" where
  "sim s a \<longleftrightarrow> refines s a \<and> (\<forall>l. list_exists s l \<longleftrightarrow> a_q a l \<noteq> None)"

lemma list_exists_cong: "k_ncpus s' = k_ncpus s \<Longrightarrow> k_wchans s' = k_wchans s \<Longrightarrow> list_exists s' l = list_exists s l"
  by (cases l) simp_all

lemma sim_keep:
  assumes "sim s a" "refines s' a'" "k_ncpus s' = k_ncpus s" "k_wchans s' = k_wchans s" "\<And>l. a_q a' l = None \<longleftrightarrow> a_q a l = None"
  shows "sim s' a'"
  using assms list_exists_cong [OF assms(3,4)] by (simp add: sim_def)

lemma simD:
  assumes "sim s a"
  shows "refines s a" "c < k_ncpus s \<Longrightarrow> a_q a (RunQ c) \<noteq> None" "c < k_ncpus s \<Longrightarrow> a_q a (Zombies c) \<noteq> None"
    "k_wchans s w \<noteq> None \<Longrightarrow> a_q a (WchanList w) \<noteq> None"
proof -
  show "refines s a" using assms by (simp add: sim_def)
  have "list_exists s l \<longleftrightarrow> a_q a l \<noteq> None" for l using assms by (simp add: sim_def)
  from this [of "RunQ c"] this [of "Zombies c"] this [of "WchanList w"]
  show "c < k_ncpus s \<Longrightarrow> a_q a (RunQ c) \<noteq> None" "c < k_ncpus s \<Longrightarrow> a_q a (Zombies c) \<noteq> None"
    "k_wchans s w \<noteq> None \<Longrightarrow> a_q a (WchanList w) \<noteq> None" by simp_all
qed

lemma a_put_dom: "a_q a l \<noteq> None \<Longrightarrow> a_q (a_put l t a) k = None \<longleftrightarrow> a_q a k = None"
  by (auto simp: a_put_def)

lemma a_pick_dom: "a_q a (Zombies c) \<noteq> None \<Longrightarrow> a_q (a_pick c a) k = None \<longleftrightarrow> a_q a k = None"
  by (auto simp: a_pick_def split: option.splits list.splits)

lemma a_leave_dom: "a_q a l \<noteq> None \<Longrightarrow> a_q a (Zombies c) \<noteq> None \<Longrightarrow> a_q (a_leave c l a) k = None \<longleftrightarrow> a_q a k = None"
  by (simp add: a_leave_def a_pick_dom a_put_dom split: option.splits)

lemma a_yield_dom: "a_q a (RunQ c) \<noteq> None \<Longrightarrow> a_q a (Zombies c) \<noteq> None \<Longrightarrow> a_q (a_yield c a) k = None \<longleftrightarrow> a_q a k = None"
  by (simp add: a_yield_def a_leave_dom)

lemma fold_wake_dom: "(\<And>t. t \<in> set ts \<Longrightarrow> a_q a (RunQ (the (a_cpu a t))) \<noteq> None) \<Longrightarrow> a_q (fold a_wake ts a) k = None \<longleftrightarrow> a_q a k = None"
proof (induction ts arbitrary: a)
  case (Cons t ts)
  have d: "a_q (a_wake t a) j = None \<longleftrightarrow> a_q a j = None" for j
    unfolding a_wake_def by (rule a_put_dom) (use Cons.prems in simp)
  have "a_q (fold a_wake ts (a_wake t a)) k = None \<longleftrightarrow> a_q (a_wake t a) k = None"
    by (rule Cons.IH) (use Cons.prems d in \<open>simp add: a_wake_def\<close>)
  then show ?case using d by simp
qed simp

text \<open>Threads waiting in a channel belong to existing processors.\<close>

lemma sleeper_home:
  assumes s: "sim s a" and q: "a_q a (WchanList w) = Some ts" "t \<in> set ts"
  shows "a_q a (RunQ (the (a_cpu a t))) \<noteq> None"
proof -
  obtain th k where "k_threads s t = Some th" "t_cpu th = Some k" "k < k_ncpus s"
    using sched_invD(3) [OF kern_okD(1) [OF refinesD(1) [OF simD(1) [OF s]]] q] by auto
  then show ?thesis using simD(2) [OF s] refinesD(2) [OF simD(1) [OF s]] by (simp add: homes_def)
qed

section \<open>Simulation\<close>

lemma a_wakeone_dom:
  assumes "sim s a" "k_wchans s w \<noteq> None"
  shows "a_q (a_wakeone w a) k = None \<longleftrightarrow> a_q a k = None"
proof -
  obtain ts where ts: "a_q a (WchanList w) = Some ts" using simD(4) [OF assms] by auto
  show ?thesis
  proof (cases ts)
    case (Cons t q)
    then have "a_q a (RunQ (the (a_cpu a t))) \<noteq> None" using sleeper_home [OF assms(1) ts] by simp
    then show ?thesis using ts Cons by (auto simp: a_wakeone_def a_wake_def)
  qed (use ts in \<open>simp add: a_wakeone_def\<close>)
qed

lemma a_wakeall_dom:
  assumes "sim s a" "k_wchans s w \<noteq> None"
  shows "a_q (a_wakeall w a) k = None \<longleftrightarrow> a_q a k = None"
proof -
  obtain ts where ts: "a_q a (WchanList w) = Some ts" using simD(4) [OF assms] by auto
  let ?a = "a\<lparr>a_q := (a_q a)(WchanList w \<mapsto> [])\<rparr>"
  have "a_q (fold a_wake ts ?a) k = None \<longleftrightarrow> a_q ?a k = None"
    by (rule fold_wake_dom) (use sleeper_home [OF assms(1) ts] in simp)
  then show ?thesis using ts by (simp add: a_wakeall_def)
qed

lemma exec_yield:
  assumes s: "sim s a" and c: "c < k_ncpus s"
  shows "\<exists>s'. thread_yield c s = Ok () s' \<and> sim s' (a_yield c a)"
  using thread_yield_refines [OF simD(1) [OF s] c] sim_keep [OF s] a_yield_dom [OF simD(2,3) [OF s c]] by blast

lemma run_cpu: "refines s a \<Longrightarrow> a_run a c \<noteq> None \<Longrightarrow> c < k_ncpus s"
  by (auto simp: refinesD(3) runs_def split: if_splits)

lemma exec_exit:
  assumes "sim s a" "a_run a c \<noteq> None"
  shows "\<exists>s'. thread_exit c s = Ok () s' \<and> sim s' (a_leave c (Zombies c) a)"
proof -
  have c: "c < k_ncpus s" by (rule run_cpu [OF simD(1) [OF assms(1)] assms(2)])
  obtain s' where "thread_exit c s = Ok () s'" "refines s' (a_leave c (Zombies c) a)" "k_ncpus s' = k_ncpus s" "k_wchans s' = k_wchans s"
    using thread_exit_refines [OF simD(1) [OF assms(1)]] assms(2) by blast
  then show ?thesis using sim_keep [OF assms(1)] a_leave_dom [OF simD(3) simD(3), OF assms(1) c assms(1) c] by blast
qed

lemma exec_sleep:
  assumes s: "sim s a" and w: "k_wchans s w = Some wc" and t: "a_run a c = Some t" "k_threads s t = Some th" "\<not> t_in_interrupt th"
  shows "\<exists>s'. kbind (wchan_lock c w s) (\<lambda>_ s. wchan_sleep c w s) = Ok () s' \<and> sim s' (a_leave c (WchanList w) a)"
proof -
  have c: "c < k_ncpus s" by (rule run_cpu [OF simD(1) [OF s]]) (use t in simp)
  have wl: "wc_lock wc = None" by (rule wchan_ex(2) [OF refinesD(1) [OF simD(1) [OF s]] w])
  define s1 where "s1 = upd_wchan w (\<lambda>wc. wc\<lparr>wc_lock := Some c\<rparr>) s"
  have l: "wchan_lock c w s = Ok () s1" unfolding s1_def by (rule wchan_lock_eq [OF w wl])
  have u: "unlocked w s1 = s" using w wl by (simp add: unlocked_def s1_def upd_wchan_def wchan_lock_restore fun_upd_idem)
  have "k_wchans s1 w = Some (wc\<lparr>wc_lock := Some c\<rparr>)" "k_threads s1 t = Some th" using w t by (simp_all add: s1_def)
  with wchan_sleep_refines [of w s1 a "wc\<lparr>wc_lock := Some c\<rparr>" c t th] simD(1) [OF s] t(1,3) obtain s' where
    "wchan_sleep c w s1 = Ok () s'" "refines s' (a_leave c (WchanList w) a)" "k_ncpus s' = k_ncpus s" "k_wchans s' = k_wchans s"
    unfolding u by (auto simp: s1_def)
  then show ?thesis using l sim_keep [OF s] a_leave_dom [OF simD(4) [OF s, of w] simD(3) [OF s c]] w by auto
qed

lemma exec_wake:
  assumes s: "sim s a" and w: "k_wchans s w \<noteq> None"
  shows "\<exists>s'. wchan_wakeone c w s = Ok () s' \<and> sim s' (a_wakeone w a)"
    "\<exists>s'. wchan_wakeall c w s = Ok () s' \<and> sim s' (a_wakeall w a)"
proof -
  obtain wc where wc: "k_wchans s w = Some wc" using w by auto
  show "\<exists>s'. wchan_wakeone c w s = Ok () s' \<and> sim s' (a_wakeone w a)"
    using wchan_wakeone_refines [OF simD(1) [OF s] wc, of c] sim_keep [OF s] a_wakeone_dom [OF s w] by blast
  show "\<exists>s'. wchan_wakeall c w s = Ok () s' \<and> sim s' (a_wakeall w a)"
    using wchan_wakeall_refines [OF simD(1) [OF s] wc, of c] sim_keep [OF s] a_wakeall_dom [OF s w] by blast
qed

lemma exec_fork:
  assumes s: "sim s a" and c: "c < k_ncpus s" and t: "k_threads s t = None" "0 < t" "t < 2 ^ 32"
  shows "\<exists>s'. thread_fork c (Some t) True True name s = Ok t s' \<and> sim s' (a_fork c t a)"
    "\<exists>s'. thread_fork c (Some t) True False name s = Err ENOMEM s' \<and> sim s' a"
proof -
  have t': "t \<in> {0<..<2 ^ 32}" using t by simp
  have "a_q (a_fork c t a) k = None \<longleftrightarrow> a_q a k = None" for k
    using simD(2) [OF s c] by (auto simp: a_fork_def a_wake_def)
  then show "\<exists>s'. thread_fork c (Some t) True True name s = Ok t s' \<and> sim s' (a_fork c t a)"
    using thread_fork_refines [OF simD(1) [OF s] c t(1) t', of name] sim_keep [OF s] by blast
  obtain s' where "thread_fork c (Some t) True False name s = Err ENOMEM s'" "refines s' a" "k_ncpus s' = k_ncpus s" "k_wchans s' = k_wchans s"
    using thread_fork_enomem [OF simD(1) [OF s] t(1) t' c, of name] by blast
  then show "\<exists>s'. thread_fork c (Some t) True False name s = Err ENOMEM s' \<and> sim s' a" using sim_keep [OF s] by blast
qed

lemma exec_interrupt:
  assumes s: "sim s a" and c: "c < k_ncpus s"
  shows "\<exists>s'. kexec (Interrupt c) s = Ok () s' \<and> sim s' (if a_run a c = None then a_pick c a else a)"
proof -
  note r = simD(1) [OF s]
  have idle: "a_run a c = None \<longleftrightarrow> c_isidle (k_cpus s c)" using c by (simp add: refinesD(3) [OF r] runs_def)
  obtain todo where i: "interprocessor_interrupt c s = Ok todo (serviced c s)" using interprocessor_interrupt_refines [OF r] by blast
  show ?thesis
  proof (cases "c_isidle (k_cpus s c)")
    case True
    obtain s' where "kbind (interprocessor_interrupt c s) (\<lambda>_ s. switch_again c s) = Ok () s'" "refines s' (a_pick c a)"
      "k_ncpus s' = k_ncpus s" "k_wchans s' = k_wchans s" using idle_interrupt_refines [OF r c True] by blast
    then show ?thesis using True i idle sim_keep [OF s] a_pick_dom [OF simD(3) [OF s c]] by auto
  next
    case False
    then have "refines (serviced c s) a" using interrupt_busy [OF r] idle by blast
    then have "sim (serviced c s) a" using sim_keep [OF s] by simp
    then show ?thesis using False i idle by auto
  qed
qed

lemma exec_clock:
  assumes s: "sim s a" and c: "c < k_ncpus s"
  shows "\<exists>s' a1. hardclock c s = Ok () s' \<and> a_migrated a a1 \<and> sim s' (a_yield c a1)"
proof -
  obtain s' a1 where h: "hardclock c s = Ok () s'" "refines s' (a_yield c a1)" "a_migrated a a1" "k_ncpus s' = k_ncpus s" "k_wchans s' = k_wchans s"
    using hardclock_refines [OF simD(1) [OF s] c] by blast
  have d: "a_q a1 l = None \<longleftrightarrow> a_q a l = None" for l using h(3) by (simp add: a_migrated_def)
  have "a_q (a_yield c a1) l = None \<longleftrightarrow> a_q a l = None" for l
    using a_yield_dom [of a1 c l] simD(2,3) [OF s c] by (simp add: d)
  then show ?thesis using h sim_keep [OF s] by blast
qed

lemma exec_new_wchan:
  assumes s: "sim s a" and w: "k_wchans s w = None"
  shows "\<exists>s'. wchan_create (Some w) name s = (Some w, s') \<and> sim s' (a\<lparr>a_q := (a_q a)(WchanList w \<mapsto> [])\<rparr>)"
proof -
  have x: "list_exists s l \<longleftrightarrow> a_q a l \<noteq> None" for l using s by (simp add: sim_def)
  then have "a_q a (WchanList w) = None" using w x [of "WchanList w"] by simp
  then obtain s' where s': "wchan_create (Some w) name s = (Some w, s')" "refines s' (a\<lparr>a_q := (a_q a)(WchanList w \<mapsto> [])\<rparr>)"
    "k_wchans s' = (k_wchans s)(w \<mapsto> \<lparr>wc_name = name, wc_lock = None\<rparr>)" "k_ncpus s' = k_ncpus s"
    using wchan_create_refines [OF simD(1) [OF s] w] by blast
  have "list_exists s' l \<longleftrightarrow> ((a_q a)(WchanList w \<mapsto> [])) l \<noteq> None" for l using x [of l] s'(3,4) by (cases l) auto
  then show ?thesis using s'(1,2) by (simp add: sim_def)
qed

lemma exec_drop_wchan:
  assumes s: "sim s a" and w: "k_wchans s w \<noteq> None" "tl_count (k_lists s) (WchanList w) = 0"
  shows "\<exists>s'. wchan_destroy w s = Ok () s' \<and> sim s' (a\<lparr>a_q := (a_q a)(WchanList w := None)\<rparr>)"
proof -
  have x: "list_exists s l \<longleftrightarrow> a_q a l \<noteq> None" for l using s by (simp add: sim_def)
  obtain ts where ts: "a_q a (WchanList w) = Some ts" using simD(4) [OF s w(1)] by auto
  then have e: "a_q a (WchanList w) = Some []"
    using w(2) tls_count [OF sched_invD(1) [OF kern_okD(1) [OF refinesD(1) [OF simD(1) [OF s]]]] ts] by simp
  obtain wc where wc: "k_wchans s w = Some wc" using w(1) by auto
  obtain s' where s': "wchan_destroy w s = Ok () s'" "refines s' (a\<lparr>a_q := (a_q a)(WchanList w := None)\<rparr>)"
    "k_wchans s' = (k_wchans s)(w := None)" "k_ncpus s' = k_ncpus s" using wchan_destroy_refines [OF simD(1) [OF s] wc e] by blast
  have "list_exists s' l \<longleftrightarrow> ((a_q a)(WchanList w := None)) l \<noteq> None" for l using x [of l] s'(3,4) by (cases l) auto
  then show ?thesis using s'(1,2) by (simp add: sim_def)
qed

lemma exec_new_cpu:
  assumes s: "sim s a" and t: "k_threads s t = None" "0 < t" "t < 2 ^ 32"
  shows "a_q a (RunQ (k_ncpus s)) = None"
    "\<exists>s'. cpu_create True True (Some t) True True nb junk hw s = Ok (k_ncpus s) s' \<and> sim s' (a_cpu_create (k_ncpus s) t a)"
proof -
  have x: "list_exists s l \<longleftrightarrow> a_q a l \<noteq> None" for l using s by (simp add: sim_def)
  have n: "a_q a (RunQ (k_ncpus s)) = None" "a_q a (Zombies (k_ncpus s)) = None"
    using x [of "RunQ (k_ncpus s)"] x [of "Zombies (k_ncpus s)"] by simp_all
  then show "a_q a (RunQ (k_ncpus s)) = None" by simp
  obtain s' where s': "cpu_create True True (Some t) True True nb junk hw s = Ok (k_ncpus s) s'"
    "refines s' (a_cpu_create (k_ncpus s) t a)" "k_ncpus s' = Suc (k_ncpus s)" "k_wchans s' = k_wchans s"
    using cpu_create_refines [OF simD(1) [OF s] n t(1), of nb junk hw] t by auto
  have "list_exists s' l \<longleftrightarrow> a_q (a_cpu_create (k_ncpus s) t a) l \<noteq> None" for l
    using x [of l] s'(3,4) by (cases l) (auto simp: a_cpu_create_def less_Suc_eq)
  then show "\<exists>s'. cpu_create True True (Some t) True True nb junk hw s = Ok (k_ncpus s) s' \<and> sim s' (a_cpu_create (k_ncpus s) t a)"
    using s'(1,2) by (auto simp: sim_def)
qed

text \<open>Every enabled event returns and is a step of the abstract scheduler.\<close>

lemma kexec_sim:
  assumes s: "sim s a" and e: "enabled s e"
  shows "\<exists>s' a'. kexec e s = Ok () s' \<and> astep a e a' \<and> sim s' a'"
proof (cases e)
  case (Sleep c w)
  obtain wc where "k_wchans s w = Some wc" using e Sleep by auto
  moreover obtain t th where "a_run a c = Some t" "k_threads s t = Some th" "\<not> t_in_interrupt th"
    using e Sleep refinesD(3) [OF simD(1) [OF s]] by (auto split: option.splits)
  ultimately show ?thesis using exec_sleep [OF s] Sleep by auto
next
  case (Fork c t name)
  then have "c < k_ncpus s" using e by (auto simp: runs_def split: if_splits)
  then show ?thesis using exec_fork(1) [OF s, of c t name] e Fork by auto
next
  case (ForkFail c t name)
  then have "c < k_ncpus s" using e by (auto simp: runs_def split: if_splits)
  then show ?thesis using exec_fork(2) [OF s, of c t name] e ForkFail by auto
next
  case (Interrupt c)
  then have c: "c < k_ncpus s" using e by simp
  show ?thesis unfolding Interrupt using exec_interrupt [OF s c] by (auto simp del: kexec.simps)
next
  case (Clock c)
  then show ?thesis using exec_clock [OF s, of c] e by auto
next
  case (NewWchan w name)
  then show ?thesis using exec_new_wchan [OF s, of w name] e by auto
next
  case (NewCpu t name junk)
  then have t: "k_threads s t = None" "0 < t" "t < 2 ^ 32" using e by simp_all
  obtain s' where "cpu_create True True (Some t) True True (\<lambda>_. name) junk (k_ncpus s) s = Ok (k_ncpus s) s'"
    "sim s' (a_cpu_create (k_ncpus s) t a)" using exec_new_cpu(2) [OF s t] by blast
  then show ?thesis using exec_new_cpu(1) [OF s t] NewCpu
    by (intro exI [of _ s'] exI [of _ "a_cpu_create (k_ncpus s) t a"]) auto
qed (use s e in \<open>auto intro: exec_yield exec_exit exec_wake exec_drop_wchan simp: refinesD(3) [OF simD(1) [OF s], symmetric]\<close>)

section \<open>Reachable states\<close>

inductive kreach :: "kern \<Rightarrow> bool" where
  boot: "thread_bootstrap True True (Some t) True nb junk no_kern = Ok 0 s \<Longrightarrow> 0 < t \<Longrightarrow> t < 2 ^ 32 \<Longrightarrow> kreach s"
| step: "kreach s \<Longrightarrow> enabled s e \<Longrightarrow> kexec e s = Ok () s' \<Longrightarrow> kreach s'"

lemma boot_sim:
  assumes "thread_bootstrap True True (Some t) True nb junk no_kern = Ok 0 s" "0 < t" "t < 2 ^ 32"
  shows "sim s (a_cpu_create 0 t a_none)"
proof -
  have r: "refines s (a_cpu_create 0 t a_none)" "k_ncpus s = 1" "k_wchans s = (\<lambda>_. None)"
    using thread_bootstrap_refines [of t nb junk] assms by auto
  then have "list_exists s l \<longleftrightarrow> a_q (a_cpu_create 0 t a_none) l \<noteq> None" for l
    by (cases l) (auto simp: a_cpu_create_def a_none_def)
  then show ?thesis using r(1) by (simp add: sim_def)
qed

lemma kreach_sim: "kreach s \<Longrightarrow> \<exists>a. sim s a"
proof (induction rule: kreach.induct)
  case (boot t nb junk s)
  then show ?case using boot_sim by blast
next
  case (step s e s')
  then show ?case using kexec_sim by fastforce
qed

text \<open>The places a thread can be in.\<close>

datatype place = OnCpu nat | OnList tlid

definition in_place :: "kern \<Rightarrow> nat \<Rightarrow> place \<Rightarrow> bool" where
  "in_place s t p = (case p of OnCpu c \<Rightarrow> running s c t
     | OnList l \<Rightarrow> list_exists s l \<and> (\<exists>ts. tl_repr (k_lists s) l ts \<and> t \<in> set ts))"

lemma linked_unique:
  "linked h (x # map NodeOf ts @ [TailOf l]) \<Longrightarrow> linked h (x # map NodeOf us @ [TailOf l]) \<Longrightarrow> ts = us"
proof (induction ts arbitrary: x us)
  case Nil
  then show ?case by (cases us) auto
next
  case (Cons t ts)
  then show ?case by (cases us) auto
qed

lemma tl_repr_unique: "tl_repr h l ts \<Longrightarrow> tl_repr h l us \<Longrightarrow> ts = us"
  using linked_unique [of h "HeadOf l" ts l us] by (simp add: tl_repr_def tl_nodes_def)

lemma sim_list:
  assumes s: "sim s a" and l: "list_exists s l"
  shows "tl_repr (k_lists s) l ts \<longleftrightarrow> a_q a l = Some ts"
proof -
  obtain us where us: "a_q a l = Some us" using s l by (auto simp: sim_def)
  then have "tl_repr (k_lists s) l us" using tlsD(1) [OF sched_invD(1) [OF kern_okD(1) [OF refinesD(1) [OF simD(1) [OF s]]]]] by blast
  then show ?thesis using us tl_repr_unique by auto
qed

lemma in_place_list:
  assumes "sim s a"
  shows "in_place s t (OnList l) \<longleftrightarrow> (\<exists>ts. a_q a l = Some ts \<and> t \<in> set ts)"
  using assms sim_list [OF assms, of l] by (auto simp: in_place_def sim_def)

lemma one_place:
  assumes s: "sim s a" and t: "k_threads s t = Some th"
  shows "\<exists>!p. in_place s t p"
proof -
  note i = kern_okD(1) [OF refinesD(1) [OF simD(1) [OF s]]]
  have "\<exists>p. in_place s t p"
  proof (cases "off_list (a_q a) t")
    case True
    then obtain c where "running s c t" using sched_invD(7) [OF i t] by auto
    then show ?thesis by (intro exI [of _ "OnCpu c"]) (simp add: in_place_def)
  next
    case False
    then show ?thesis using in_place_list [OF s, of t] by (auto simp: off_list_def)
  qed
  moreover have "p = p'" if p: "in_place s t p" "in_place s t p'" for p p'
  proof -
    have cc: "c = c'" if "running s c t" "running s c' t" for c c' using sched_invD(5) [OF i that(1)] sched_invD(5) [OF i that(2)] by auto
    have cl: False if "running s c t" "in_place s t (OnList l)" for c l
      using sched_invD(4) [OF i that(1)] that(2) in_place_list [OF s] by (auto simp: off_list_def)
    have ll: "l = l'" if "in_place s t (OnList l)" "in_place s t (OnList l')" for l l'
      using that in_place_list [OF s] tq.disjoint [OF sched_invD(1) [OF i], of l _ l'] by blast
    show ?thesis using p cc cl ll by (cases p; cases p') (auto simp: in_place_def)
  qed
  ultimately show ?thesis by blast
qed

text \<open>Yielding over and over.\<close>

fun yields :: "nat \<Rightarrow> nat \<Rightarrow> kern \<Rightarrow> (unit, kern) out" where
  "yields 0 c s = Ok () s"
| "yields (Suc n) c s = kbind (thread_yield c s) (\<lambda>_ s. yields n c s)"

lemma a_yield_rotate:
  assumes "a_run a c = Some t" "a_q a (RunQ c) = Some q"
  shows "a_run (a_yield c a) c = Some (hd (rotate1 (t # q)))" "a_q (a_yield c a) (RunQ c) = Some (tl (rotate1 (t # q)))"
  using assms by (cases q; simp add: a_yield_def a_leave_def a_pick_def a_put_def)+

lemma yields_rotate:
  assumes "sim s a" "a_run a c = Some t" "a_q a (RunQ c) = Some q"
  shows "\<exists>s' a'. yields n c s = Ok () s' \<and> sim s' a' \<and> a_run a' c = Some (hd (rotate n (t # q))) \<and>
    a_q a' (RunQ c) = Some (tl (rotate n (t # q)))"
  using assms
proof (induction n arbitrary: s a t q)
  case 0
  then show ?case by auto
next
  case (Suc n)
  have c: "c < k_ncpus s" by (rule run_cpu [OF simD(1) [OF Suc.prems(1)]]) (use Suc.prems in simp)
  obtain s1 where s1: "thread_yield c s = Ok () s1" "sim s1 (a_yield c a)" using exec_yield [OF Suc.prems(1) c] by blast
  have "hd (rotate1 (t # q)) # tl (rotate1 (t # q)) = rotate1 (t # q)" by simp
  then show ?case using Suc.IH [OF s1(2) a_yield_rotate [OF Suc.prems(2,3)]] s1(1) by (simp add: rotate_Suc rotate1_rotate_swap)
qed

lemma live_home: "refines s a \<Longrightarrow> k_threads s t = Some th \<Longrightarrow> homes s t \<noteq> None"
proof -
  assume s: "refines s a" and t: "k_threads s t = Some th"
  note i = kern_okD(1) [OF refinesD(1) [OF s]]
  show "homes s t \<noteq> None"
  proof (cases "off_list (a_q a) t")
    case True
    then show ?thesis using sched_invD(7) [OF i t] sched_invD(5) [OF i] t by (fastforce simp: homes_def)
  next
    case False
    then obtain l ts where "a_q a l = Some ts" "t \<in> set ts" by (auto simp: off_list_def)
    then have "place_ok (k_ncpus s) l th" using sched_invD(3) [OF i] t by fastforce
    then show ?thesis using t by (cases l) (auto simp: homes_def)
  qed
qed

lemma dom_homes: "refines s a \<Longrightarrow> dom (homes s) = dom (k_threads s)"
  using live_home [of s a] by (auto simp: homes_def split: option.splits)

section \<open>A small run\<close>

text \<open>Two processors; the second sleeps on a wait channel, goes idle and is woken by the first.\<close>

lemma run_step:
  assumes "kreach s" "sim s a" "enabled s e"
  obtains s' a' where "kexec e s = Ok () s'" "kreach s'" "astep a e a'" "sim s' a'"
  using kexec_sim [OF assms(2,3)] kreach.step [OF assms(1,3)] by blast

definition ex_cpus :: asched where
  "ex_cpus = a_cpu_create 1 8192 (a_cpu_create 0 4096 a_none)"

lemma example_cpus: "\<exists>s th. kreach s \<and> sim s ex_cpus \<and> k_ncpus s = 2 \<and> k_wchans s = (\<lambda>_. None) \<and>
  k_threads s 8192 = Some th \<and> \<not> t_in_interrupt th"
proof -
  obtain s0 where s0: "thread_bootstrap True True (Some 4096) True (\<lambda>_. ''boot'') [] no_kern = Ok 0 s0" "k_ncpus s0 = 1" "k_wchans s0 = (\<lambda>_. None)"
    using thread_bootstrap_refines [of 4096 "\<lambda>_. ''boot''" "[]"] by auto
  have r0: "kreach s0" "sim s0 (a_cpu_create 0 4096 a_none)"
    using boot [OF s0(1)] boot_sim [OF s0(1)] by simp_all
  have "homes s0 8192 = None" using refinesD(2) [OF simD(1) [OF r0(2)], symmetric] by (simp add: a_cpu_create_def a_none_def)
  then have t: "k_threads s0 8192 = None" using live_home [OF simD(1) [OF r0(2)]] by (cases "k_threads s0 8192") auto
  have n: "a_q (a_cpu_create 0 4096 a_none) (RunQ (k_ncpus s0)) = None" "a_q (a_cpu_create 0 4096 a_none) (Zombies (k_ncpus s0)) = None"
    using s0(2) by (simp_all add: a_cpu_create_def a_none_def)
  obtain s1 th where s1: "cpu_create True True (Some 8192) True True (\<lambda>_. ''cpu1'') [] (k_ncpus s0) s0 = Ok (k_ncpus s0) s1"
    "k_ncpus s1 = Suc (k_ncpus s0)" "k_wchans s1 = k_wchans s0" "k_threads s1 8192 = Some th" "\<not> t_in_interrupt th"
    using cpu_create_refines [OF simD(1) [OF r0(2)] n t, of "\<lambda>_. ''cpu1''" "[]" "k_ncpus s0"] by auto
  have e: "enabled s0 (NewCpu 8192 ''cpu1'' [])" using t by simp
  from run_step [OF r0 e] obtain s1' a1 where r1: "kexec (NewCpu 8192 ''cpu1'' []) s0 = Ok () s1'" "kreach s1'" "sim s1' a1" by blast
  have "s1' = s1" using r1(1) s1(1) by simp
  moreover have "sim s1 ex_cpus" using exec_new_cpu(2) [OF r0(2) t, of "\<lambda>_. ''cpu1''" "[]" "k_ncpus s0"] s1(1) s0(2) by (simp add: ex_cpus_def)
  ultimately show ?thesis using r1(2) s1 s0 by (intro exI [of _ s1] exI [of _ th]) simp
qed

lemma example_wchan: "\<exists>s a. kreach s \<and> sim s a \<and> enabled s (Sleep 1 100) \<and> a_run a = [0 \<mapsto> 4096, 1 \<mapsto> 8192] \<and>
  a_cpu a 8192 = Some 1 \<and> a_q a (RunQ 0) = Some [] \<and> a_q a (RunQ 1) = Some [] \<and> a_q a (Zombies 1) = Some [] \<and> a_q a (WchanList 100) = Some []"
proof -
  obtain s th where s: "kreach s" "sim s ex_cpus" "k_ncpus s = 2" "k_wchans s = (\<lambda>_. None)" "k_threads s 8192 = Some th" "\<not> t_in_interrupt th"
    using example_cpus by blast
  define s1 where "s1 = snd (wchan_create (Some 100) ''w'' s)"
  have s1: "k_wchans s1 100 \<noteq> None" "k_threads s1 = k_threads s" "k_ncpus s1 = 2" using s(3) by (simp_all add: s1_def wchan_create_def)
  obtain a1 where a1: "kreach s1" "astep ex_cpus (NewWchan 100 ''w'') a1" "sim s1 a1"
    using run_step [OF s(1,2), of "NewWchan 100 ''w''"] s(4) by (auto simp: s1_def)
  have e: "a_run a1 = [0 \<mapsto> 4096, 1 \<mapsto> 8192]" using a1(2) by (simp add: ex_cpus_def a_cpu_create_def a_none_def)
  have "enabled s1 (Sleep 1 100)" using s1 s(5,6) refinesD(3) [OF simD(1) [OF a1(3)], symmetric] e by simp
  then show ?thesis using a1 e
    by (intro exI [of _ s1] exI [of _ a1]) (simp add: ex_cpus_def a_cpu_create_def a_none_def del: enabled.simps)
qed

lemma example_idle: "\<exists>s a. kreach s \<and> sim s a \<and> 1 < k_ncpus s \<and> a_run a 0 = Some 4096 \<and> a_run a 1 = None \<and> a_q a (RunQ 1) = Some [8192]"
proof -
  obtain s1 a1 where a1: "kreach s1" "sim s1 a1" "enabled s1 (Sleep 1 100)"
    and a1e: "a_run a1 = [0 \<mapsto> 4096, 1 \<mapsto> 8192]" "a_cpu a1 8192 = Some 1" "a_q a1 (RunQ 0) = Some []" "a_q a1 (RunQ 1) = Some []"
      "a_q a1 (Zombies 1) = Some []" "a_q a1 (WchanList 100) = Some []" using example_wchan by blast
  from run_step [OF a1] obtain s2 a2 where
    a2: "kexec (Sleep 1 100) s1 = Ok () s2" "kreach s2" "astep a1 (Sleep 1 100) a2" "sim s2 a2" by blast
  have a2e: "a_run a2 = [0 \<mapsto> 4096]" "a_q a2 (WchanList 100) = Some [8192]" "a_q a2 (RunQ 1) = Some []" "a_cpu a2 8192 = Some 1"
    "a_q a2 (RunQ 0) = Some []" using a2(3) a1e by (simp_all add: a_leave_def a_pick_def a_put_def)
  have ex: "list_exists s l \<longleftrightarrow> a_q a l \<noteq> None" if "sim s a" for s a l using that by (simp add: sim_def)
  have "enabled s2 (WakeOne 0 100)" using ex [OF a2(4), of "WchanList 100"] ex [OF a2(4), of "RunQ 0"] a2e by simp
  from run_step [OF a2(2,4) this] obtain s3 a3 where a3: "kreach s3" "astep a2 (WakeOne 0 100) a3" "sim s3 a3" by blast
  have a3e: "a_run a3 = [0 \<mapsto> 4096]" "a_q a3 (RunQ 1) = Some [8192]"
    using a3(2) a2e by (simp_all add: a_wakeone_def a_wake_def)
  then have "1 < k_ncpus s3" using ex [OF a3(3), of "RunQ 1"] by simp
  then show ?thesis using a3(1,3) a3e by (intro exI [of _ s3] exI [of _ a3]) simp
qed

lemma example_busy: "\<exists>s a. kreach s \<and> sim s a \<and> k_ncpus s = 2 \<and> a_run a 0 = Some 4096 \<and> a_q a (RunQ 0) = Some [12288, 16384] \<and> a_q a (RunQ 1) = Some []"
proof -
  obtain s where s: "kreach s" "sim s ex_cpus" using example_cpus by blast
  have fresh: "k_threads s t = None" if "sim s a" "a_cpu a t = None" for s a t
    using live_home [OF simD(1) [OF that(1)], of t] refinesD(2) [OF simD(1) [OF that(1)]] that(2) by (cases "k_threads s t") auto
  have run: "runs s c \<noteq> None" if "sim s a" "a_run a c \<noteq> None" for s a c using that refinesD(3) [OF simD(1) [OF that(1)]] by simp
  have "enabled s (Fork 0 12288 ''a'')" using fresh [OF s(2), of 12288] run [OF s(2), of 0] by (simp add: ex_cpus_def a_cpu_create_def a_none_def)
  from run_step [OF s this] obtain s1 a1 where 1: "kreach s1" "astep ex_cpus (Fork 0 12288 ''a'') a1" "sim s1 a1" by blast
  have e1: "a_run a1 0 = Some 4096" "a_q a1 (RunQ 0) = Some [12288]" "a_q a1 (RunQ 1) = Some []" "a_cpu a1 16384 = None" "a_q a1 (RunQ 2) = None"
    using 1(2) by (simp_all add: ex_cpus_def a_cpu_create_def a_none_def a_fork_def a_wake_def)
  have "enabled s1 (Fork 0 16384 ''b'')" using fresh [OF 1(3), of 16384] run [OF 1(3), of 0] e1 by simp
  from run_step [OF 1(1,3) this] obtain s2 a2 where 2: "kreach s2" "astep a1 (Fork 0 16384 ''b'') a2" "sim s2 a2" by blast
  have e2: "a_run a2 0 = Some 4096" "a_q a2 (RunQ 0) = Some [12288, 16384]" "a_q a2 (RunQ 1) = Some []" "a_q a2 (RunQ 2) = None"
    using 2(2) e1 by (simp_all add: a_fork_def a_wake_def)
  have "list_exists s2 l \<longleftrightarrow> a_q a2 l \<noteq> None" for l using 2(3) by (simp add: sim_def)
  from this [of "RunQ 1"] this [of "RunQ 2"] e2 have "k_ncpus s2 = 2" by simp
  then show ?thesis using 2(1,3) e2 by blast
qed

section \<open>Properties\<close>

text \<open>C4. From startup on, whatever the processors do and in whatever order, every operation of the thread
  system returns without a failed assertion, a deadlock or a null pointer, and is a step of the abstract
  scheduler, to which the linked lists, locks and interrupts refine.\<close>

theorem thread_system_refines:
  assumes "kreach s" and "enabled s e"
  shows "\<exists>a s' a'. sim s a \<and> kexec e s = Ok () s' \<and> kreach s' \<and> astep a e a' \<and> sim s' a'"
  using kreach_sim [OF assms(1)] kexec_sim [OF _ assms(2)] kreach.step [OF assms] by blast

theorem thread_system_refines_witness:
  "\<exists>s a s' a'. enabled s (Exit 1) \<and> sim s a \<and> kexec (Exit 1) s = Ok () s' \<and> astep a (Exit 1) a' \<and> sim s' a'"
proof -
  obtain s where s: "kreach s" "sim s ex_cpus" using example_cpus by blast
  have e: "enabled s (Exit 1)" using refinesD(3) [OF simD(1) [OF s(2)], symmetric] by (simp add: ex_cpus_def a_cpu_create_def)
  then show ?thesis using thread_system_refines [OF s(1) e] by blast
qed

text \<open>C5. No thread is lost and none is in two places: in every reachable state a live thread either runs on
  exactly one processor or is on exactly one list, a run queue, a wait channel or a zombie list.\<close>

theorem thread_in_one_place:
  assumes "kreach s" and "k_threads s t = Some th"
  shows "\<exists>!p. in_place s t p"
  using kreach_sim [OF assms(1)] one_place [OF _ assms(2)] by blast

theorem thread_in_one_place_witness: "\<exists>s. kreach s \<and> (\<exists>!p. in_place s 8192 p)"
proof -
  obtain s th where "kreach s" "k_threads s 8192 = Some th" using example_cpus by blast
  then show ?thesis using thread_in_one_place by blast
qed

text \<open>C6. A processor keeps its stack to itself: the thread it runs, or ran last and idles on the stack of, exists,
  belongs to it and is the current thread of no other processor. In particular migration never
  moves it and \<open>exorcise\<close> never frees it.\<close>

theorem current_stack_private:
  assumes "kreach s" and "c < k_ncpus s"
  shows "(\<exists>th. k_threads s (c_curthread (k_cpus s c)) = Some th \<and> t_cpu th = Some c) \<and>
    (\<forall>k < k_ncpus s. c_curthread (k_cpus s k) = c_curthread (k_cpus s c) \<longrightarrow> k = c)"
proof -
  obtain a where "sim s a" using kreach_sim [OF assms(1)] by blast
  then have "cur_inv s" using kern_okD(4) [OF refinesD(1) [OF simD(1)]] by blast
  then show ?thesis using assms(2) unfolding cur_inv_def by (metis option.inject)
qed

theorem current_stack_private_witness:
  "\<exists>s. kreach s \<and> 1 < k_ncpus s \<and> c_isidle (k_cpus s 1) \<and> c_curthread (k_cpus s 0) \<noteq> c_curthread (k_cpus s 1)"
proof -
  obtain s a where s: "kreach s" "sim s a" "1 < k_ncpus s" "a_run a 1 = None" using example_idle by blast
  have "c_isidle (k_cpus s 1)" using s refinesD(3) [OF simD(1) [OF s(2)]] by (simp add: runs_def split: if_splits)
  moreover have "c_curthread (k_cpus s 0) \<noteq> c_curthread (k_cpus s 1)"
    using current_stack_private [OF s(1,3)] s(3) by (metis less_numeral_extra(1) order.strict_trans zero_neq_one)
  ultimately show ?thesis using s(1,3) by blast
qed

text \<open>C7. A processor that idles while its run queue holds a thread has an interrupt pending, and taking it runs
  the first thread of the queue: no wakeup is lost.\<close>

theorem idle_cpu_wakes:
  assumes "kreach s" and "c < k_ncpus s" and "c_isidle (k_cpus s c)" and "tl_repr (k_lists s) (RunQ c) (t # q)"
  shows "bit (c_ipi_pending (k_cpus s c)) IPI_UNIDLE \<and>
    (\<exists>s'. kexec (Interrupt c) s = Ok () s' \<and> running s' c t \<and> tl_repr (k_lists s') (RunQ c) q)"
proof -
  obtain a where a: "sim s a" using kreach_sim [OF assms(1)] by blast
  have q: "a_q a (RunQ c) = Some (t # q)" using sim_list [OF a, of "RunQ c" "t # q"] assms(2,4) by simp
  have r: "a_run a c = None" using refinesD(3) [OF simD(1) [OF a]] assms(3) by (simp add: runs_def)
  have "ipi_inv s (a_q a) {}" by (rule kern_okD(2) [OF refinesD(1) [OF simD(1) [OF a]]])
  then have b: "bit (c_ipi_pending (k_cpus s c)) IPI_UNIDLE" using assms(2,3) q by (auto simp: ipi_inv_def)
  obtain s' where s': "kexec (Interrupt c) s = Ok () s'" "sim s' (a_pick c a)" using exec_interrupt [OF a assms(2)] r by auto
  have "a_run (a_pick c a) c = Some t" "a_q (a_pick c a) (RunQ c) = Some q" using q by (simp_all add: a_pick_def)
  moreover have "list_exists s' (RunQ c)" using s'(2) calculation(2) unfolding sim_def by blast
  ultimately have "running s' c t" "tl_repr (k_lists s') (RunQ c) q"
    using refinesD(3) [OF simD(1) [OF s'(2)]] sim_list [OF s'(2)] by (simp_all add: runs_running)
  then show ?thesis using b s'(1) by blast
qed

theorem idle_cpu_wakes_witness: "\<exists>s s'. kreach s \<and> c_isidle (k_cpus s 1) \<and> kexec (Interrupt 1) s = Ok () s' \<and> running s' 1 8192"
proof -
  obtain s a where s: "kreach s" "sim s a" "1 < k_ncpus s" "a_run a 1 = None" "a_q a (RunQ 1) = Some [8192]" using example_idle by blast
  have i: "c_isidle (k_cpus s 1)" using s refinesD(3) [OF simD(1) [OF s(2)]] by (simp add: runs_def split: if_splits)
  have "tl_repr (k_lists s) (RunQ 1) [8192]" using sim_list [OF s(2), of "RunQ 1"] s(3,5) by simp
  from idle_cpu_wakes [OF s(1,3) i this] i s(1) show ?thesis by blast
qed

text \<open>Threads take turns: while nothing else happens to a processor, each call of \<open>thread_yield\<close> rotates the
  running thread and the run queue by one, so after as many yields as there are threads waiting every
  one of them has run.\<close>

theorem yield_round_robin:
  assumes "kreach s" and "running s c t" and "tl_repr (k_lists s) (RunQ c) q"
  shows "\<exists>s'. yields n c s = Ok () s' \<and> running s' c (hd (rotate n (t # q))) \<and> tl_repr (k_lists s') (RunQ c) (tl (rotate n (t # q)))"
proof -
  obtain a where a: "sim s a" using kreach_sim [OF assms(1)] by blast
  have c: "c < k_ncpus s" using assms(2) by (simp add: running_def)
  have q: "a_q a (RunQ c) = Some q" using sim_list [OF a, of "RunQ c" q] assms(3) c by simp
  have r: "a_run a c = Some t" using refinesD(3) [OF simD(1) [OF a]] assms(2) by (simp add: runs_running)
  obtain s' a' where s': "yields n c s = Ok () s'" "sim s' a'" "a_run a' c = Some (hd (rotate n (t # q)))"
    "a_q a' (RunQ c) = Some (tl (rotate n (t # q)))" using yields_rotate [OF a r q] by blast
  have "list_exists s' (RunQ c)" using s'(2,4) unfolding sim_def by blast
  then show ?thesis using s' sim_list [OF s'(2), of "RunQ c"] refinesD(3) [OF simD(1) [OF s'(2)]] by (simp add: runs_running)
qed

theorem yield_round_robin_witness:
  "\<exists>s s'. kreach s \<and> running s 1 8192 \<and> yields 3 1 s = Ok () s' \<and> running s' 1 8192"
proof -
  obtain s where s: "kreach s" "sim s ex_cpus" using example_cpus by blast
  have x: "list_exists s l \<longleftrightarrow> a_q ex_cpus l \<noteq> None" for l using s(2) by (simp add: sim_def)
  have "a_q ex_cpus (RunQ 1) = Some []" "a_run ex_cpus 1 = Some 8192" by (simp_all add: ex_cpus_def a_cpu_create_def)
  then have "tl_repr (k_lists s) (RunQ 1) []" "running s 1 8192"
    using sim_list [OF s(2), of "RunQ 1"] x [of "RunQ 1"] refinesD(3) [OF simD(1) [OF s(2)]] by (simp_all add: runs_running)
  then show ?thesis using yield_round_robin [OF s(1), of 1 8192 "[]" 3] s(1) by auto
qed



text \<open>Waking the sleepers of a channel one at a time.\<close>

fun wakeones :: "nat \<Rightarrow> nat \<Rightarrow> nat \<Rightarrow> kern \<Rightarrow> (unit, kern) out" where
  "wakeones 0 c w s = Ok () s"
| "wakeones (Suc n) c w s = kbind (wchan_wakeone c w s) (\<lambda>_ s. wakeones n c w s)"

lemma a_wake_wchan: "a_wake t (a\<lparr>a_q := (a_q a)(WchanList w := x)\<rparr>) = (a_wake t a)\<lparr>a_q := (a_q (a_wake t a))(WchanList w := x)\<rparr>"
  by (simp add: a_wake_def a_put_def fun_upd_twist)

lemma a_wakeone_wakeall:
  assumes "a_q a (WchanList w) = Some (t # ts)"
  shows "a_wakeall w (a_wakeone w a) = a_wakeall w a" "a_q (a_wakeone w a) (WchanList w) = Some ts"
  using assms by (simp_all add: a_wakeall_def a_wakeone_def a_wake_wchan)

lemma wakeones_sim:
  assumes "sim s a" "a_q a (WchanList w) = Some ts"
  shows "\<exists>s'. wakeones (length ts) c w s = Ok () s' \<and> sim s' (a_wakeall w a)"
  using assms
proof (induction ts arbitrary: s a)
  case Nil
  then have "a_wakeall w a = a" by (simp add: a_wakeall_def fun_upd_idem)
  then show ?case using Nil by simp
next
  case (Cons t ts)
  have "k_wchans s w \<noteq> None"
  proof -
    have "list_exists s (WchanList w)" using Cons.prems unfolding sim_def by blast
    then show ?thesis by simp
  qed
  from exec_wake(1) [OF Cons.prems(1) this, of c] obtain s1 where s1: "wchan_wakeone c w s = Ok () s1" "sim s1 (a_wakeone w a)" by blast
  show ?case using Cons.IH [OF s1(2)] a_wakeone_wakeall [OF Cons.prems(2)] s1(1) by simp
qed

text \<open>C11. Waking all sleepers of a wait channel at once, with the private list \<open>wchan_wakeall\<close> moves them to first, is the
  same as waking them one at a time: every processor runs the same thread, every thread belongs to the same processor
  and every list has the same threads in the same order.\<close>

theorem wakeall_is_repeated_wakeone:
  assumes "kreach s" and "k_wchans s w \<noteq> None" and "tl_repr (k_lists s) (WchanList w) ts"
  shows "\<exists>s1 s2. wchan_wakeall c w s = Ok () s1 \<and> wakeones (length ts) c w s = Ok () s2 \<and>
    runs s1 = runs s2 \<and> homes s1 = homes s2 \<and>
    (\<forall>l. list_exists s l \<longrightarrow> (\<forall>us. tl_repr (k_lists s1) l us \<longleftrightarrow> tl_repr (k_lists s2) l us))"
proof -
  obtain a where a: "sim s a" using kreach_sim [OF assms(1)] by blast
  have ts: "a_q a (WchanList w) = Some ts" using sim_list [OF a, of "WchanList w" ts] assms(2,3) by simp
  obtain s1 where s1: "wchan_wakeall c w s = Ok () s1" "sim s1 (a_wakeall w a)" using exec_wake(2) [OF a assms(2)] by blast
  obtain s2 where s2: "wakeones (length ts) c w s = Ok () s2" "sim s2 (a_wakeall w a)" using wakeones_sim [OF a ts] by blast
  have "tl_repr (k_lists s1) l us \<longleftrightarrow> tl_repr (k_lists s2) l us" if "list_exists s l" for l us
  proof -
    have "a_q (a_wakeall w a) l \<noteq> None" using a_wakeall_dom [OF a assms(2)] a that by (simp add: sim_def)
    then show ?thesis using sim_list [OF s1(2)] sim_list [OF s2(2)] s1(2) s2(2) unfolding sim_def by blast
  qed
  moreover have "runs s1 = runs s2" "homes s1 = homes s2"
    using refinesD(2,3) [OF simD(1) [OF s1(2)]] refinesD(2,3) [OF simD(1) [OF s2(2)]] by simp_all
  ultimately show ?thesis using s1(1) s2(1) by blast
qed

theorem wakeall_is_repeated_wakeone_witness:
  "\<exists>s s1 s2. kreach s \<and> wchan_wakeall 0 100 s = Ok () s1 \<and> wakeones 1 0 100 s = Ok () s2 \<and> runs s1 = runs s2"
proof -
  obtain s1 a1 where 1: "kreach s1" "sim s1 a1" "enabled s1 (Sleep 1 100)" "a_run a1 = [0 \<mapsto> 4096, 1 \<mapsto> 8192]" "a_q a1 (RunQ 1) = Some []"
    "a_q a1 (WchanList 100) = Some []" using example_wchan by blast
  from run_step [OF 1(1-3)] obtain s2 a2 where 2: "kreach s2" "astep a1 (Sleep 1 100) a2" "sim s2 a2" by blast
  have q: "a_q a2 (WchanList 100) = Some [8192]" using 2(2) 1(4-6) by (simp add: a_leave_def a_pick_def a_put_def split: option.splits)
  then have "list_exists s2 (WchanList 100)" using 2(3) unfolding sim_def by blast
  then have "k_wchans s2 100 \<noteq> None" "tl_repr (k_lists s2) (WchanList 100) [8192]" using sim_list [OF 2(3), of "WchanList 100"] q by simp_all
  from wakeall_is_repeated_wakeone [OF 2(1) this, of 0] 2(1) show ?thesis by auto
qed

text \<open>Posting several mappings to one processor before it takes the interrupt.\<close>

fun post_shootdowns :: "nat \<Rightarrow> nat \<Rightarrow> tlbshootdown list \<Rightarrow> kern \<Rightarrow> (unit, kern) out" where
  "post_shootdowns c target [] s = Ok () s"
| "post_shootdowns c target (m # ms) s = kbind (ipi_tlbshootdown c target m s) (\<lambda>_ s. post_shootdowns c target ms s)"

definition posted :: "nat \<Rightarrow> tlbshootdown list \<Rightarrow> int \<Rightarrow> kern \<Rightarrow> kern" where
  "posted target ms n s = upd_cpu target (\<lambda>p. p\<lparr>c_ipi_pending := c_ipi_pending p OR push_bit IPI_TLBSHOOTDOWN 1,
     c_shootdown := ms, c_numshootdown := n\<rparr>) s"

lemma ipi_tlbshootdown_eq:
  assumes "c_ipi_lock (k_cpus s k) = None"
  shows "c_numshootdown (k_cpus s k) = 16 \<Longrightarrow> ipi_tlbshootdown c k m s = Ok () (posted k (c_shootdown (k_cpus s k)) (-1) s)"
    "0 \<le> c_numshootdown (k_cpus s k) \<Longrightarrow> c_numshootdown (k_cpus s k) < 16 \<Longrightarrow>
      ipi_tlbshootdown c k m s = Ok () (posted k ((c_shootdown (k_cpus s k))[nat (c_numshootdown (k_cpus s k)) := m]) (c_numshootdown (k_cpus s k) + 1) s)"
    "c_numshootdown (k_cpus s k) < 0 \<Longrightarrow> ipi_tlbshootdown c k m s = Panic"
  using assms by (cases "k_cpus s k"; simp add: ipi_tlbshootdown_def ipi_acquire_def ipi_release_def spinlock_acquire_def
    spinlock_release_def posted_def upd_cpu_def TLBSHOOTDOWN_MAX_def TLBSHOOTDOWN_ALL_def Let_def)+

lemma posted_sel [simp]: "c_ipi_lock (k_cpus (posted k ms n s) j) = c_ipi_lock (k_cpus s j)" "c_shootdown (k_cpus (posted k ms n s) k) = ms"
  "c_numshootdown (k_cpus (posted k ms n s) k) = n" "posted k ms n (posted k ms' n' s) = posted k ms n s"
  by (simp_all add: posted_def upd_cpu_def or.assoc)

lemma post_shootdowns_eq:
  assumes "c_ipi_lock (k_cpus s k) = None" "c_numshootdown (k_cpus s k) = int j" "length (c_shootdown (k_cpus s k)) = 16"
    "j + length ms \<le> 16" "ms \<noteq> []"
  shows "post_shootdowns c k ms s = Ok () (posted k (take j (c_shootdown (k_cpus s k)) @ ms @ drop (j + length ms) (c_shootdown (k_cpus s k)))
    (int (j + length ms)) s)"
  using assms
proof (induction ms arbitrary: s j)
  case (Cons m ms)
  let ?xs = "c_shootdown (k_cpus s k)"
  let ?s = "posted k (?xs[j := m]) (int j + 1) s"
  have p: "ipi_tlbshootdown c k m s = Ok () ?s" using ipi_tlbshootdown_eq(2) [OF Cons.prems(1), of c m] Cons.prems(2,4) by simp
  have t: "take (Suc j) (?xs[j := m]) = take j ?xs @ [m]" "drop (Suc j + n) (?xs[j := m]) = drop (Suc j + n) ?xs" for n
    using Cons.prems(3,4) by (simp_all add: take_Suc_conv_app_nth)
  show ?case
  proof (cases "ms = []")
    case True
    have "?xs[j := m] = take j ?xs @ m # drop (Suc j) ?xs" using Cons.prems(3,4) by (intro upd_conv_take_nth_drop) simp
    then show ?thesis using p True by (simp add: add.commute)
  next
    case False
    then show ?thesis using Cons.IH [of ?s "Suc j"] Cons.prems p t by (simp add: add.commute)
  qed
qed simp

lemma post_shootdowns_append:
  "post_shootdowns c k (xs @ ys) t = kbind (post_shootdowns c k xs t) (\<lambda>_ s. post_shootdowns c k ys s)"
proof (induction xs arbitrary: t)
  case (Cons x xs)
  then show ?case by (cases "ipi_tlbshootdown c k x t") simp_all
qed simp

lemma post_shootdowns_full:
  assumes l: "c_ipi_lock (k_cpus s k) = None" and n: "c_numshootdown (k_cpus s k) = 0" "length (c_shootdown (k_cpus s k)) = 16"
    and xs: "length xs = 16"
  shows "post_shootdowns c k (xs @ [m]) s = Ok () (posted k xs (-1) s)" "post_shootdowns c k (xs @ m # m' # ms) s = Panic"
proof -
  have "xs \<noteq> []" using xs by auto
  then have f: "post_shootdowns c k xs s = Ok () (posted k xs 16 s)" using post_shootdowns_eq [of s k 0 xs c] l n xs by simp
  have 17: "ipi_tlbshootdown c k m (posted k xs 16 s) = Ok () (posted k xs (-1) s)"
    using ipi_tlbshootdown_eq(1) [of "posted k xs 16 s" k c m] l by simp
  have 18: "ipi_tlbshootdown c k m' (posted k xs (-1) s) = Panic" using ipi_tlbshootdown_eq(3) [of "posted k xs (-1) s" k c m'] l by simp
  show "post_shootdowns c k (xs @ [m]) s = Ok () (posted k xs (-1) s)" by (simp add: post_shootdowns_append f 17)
  show "post_shootdowns c k (xs @ m # m' # ms) s = Panic" by (simp add: post_shootdowns_append f 17 18)
qed

lemma interrupt_shoots:
  assumes "c_ipi_lock (k_cpus s k) = None" "bit (c_ipi_pending (k_cpus s k)) IPI_TLBSHOOTDOWN"
    "\<not> bit (c_ipi_pending (k_cpus s k)) IPI_PANIC" "\<not> bit (c_ipi_pending (k_cpus s k)) IPI_OFFLINE"
  shows "\<exists>s'. interprocessor_interrupt k s = Ok (if c_numshootdown (k_cpus s k) = -1 then ShootAll
    else Shoot (take (nat (c_numshootdown (k_cpus s k))) (c_shootdown (k_cpus s k)))) s'"
  using assms
  by (auto simp: interprocessor_interrupt_def ipi_acquire_def ipi_release_def spinlock_acquire_def spinlock_release_def
      TLBSHOOTDOWN_ALL_def Let_def)

lemma posted_pending:
  "bit (c_ipi_pending (k_cpus (posted k ms n s) k)) IPI_TLBSHOOTDOWN"
  "bit (c_ipi_pending (k_cpus (posted k ms n s) k)) IPI_PANIC = bit (c_ipi_pending (k_cpus s k)) IPI_PANIC"
  "bit (c_ipi_pending (k_cpus (posted k ms n s) k)) IPI_OFFLINE = bit (c_ipi_pending (k_cpus s k)) IPI_OFFLINE"
  by (auto simp: posted_def bit_simps IPI_TLBSHOOTDOWN_def IPI_PANIC_def IPI_OFFLINE_def)



text \<open>After \<open>thread_panic\<close>.\<close>

lemma ipi_broadcast_frame:
  assumes "\<And>k. c_ipi_lock (k_cpus s k) = None" "code < 32"
  shows "\<exists>s'. ipi_broadcast_loop c code i n s = Ok () s' \<and> k_threads s' = k_threads s \<and> k_lists s' = k_lists s \<and> k_wchans s' = k_wchans s \<and>
    k_cpus s' c = k_cpus s c \<and> (\<forall>k. c_runqueue_lock (k_cpus s' k) = c_runqueue_lock (k_cpus s k))"
  using assms(1)
proof (induction n arbitrary: i s)
  case (Suc n)
  define s1 where "s1 = (if i \<noteq> c then upd_cpu i (\<lambda>p. p\<lparr>c_ipi_pending := c_ipi_pending p OR push_bit code 1\<rparr>) s else s)"
  have e: "ipi_broadcast_loop c code i (Suc n) s = ipi_broadcast_loop c code (Suc i) n s1"
    using ipi_send_eq [OF Suc.prems assms(2)] by (simp add: s1_def)
  have f: "k_threads s1 = k_threads s" "k_lists s1 = k_lists s" "k_wchans s1 = k_wchans s" "k_cpus s1 c = k_cpus s c"
    "c_runqueue_lock (k_cpus s1 k) = c_runqueue_lock (k_cpus s k)" "c_ipi_lock (k_cpus s1 k) = c_ipi_lock (k_cpus s k)" for k
    by (simp_all add: s1_def)
  show ?case unfolding e using Suc.IH [of s1 "Suc i"] Suc.prems by (simp add: f)
qed simp

lemma thread_panic_eq:
  assumes "locks_free s"
  shows "\<exists>s'. thread_panic c s = Ok () s' \<and> k_threads s' = k_threads s \<and> k_wchans s' = k_wchans s \<and> k_cpus s' c = k_cpus s c \<and>
    k_lists s' = set_prev (TailOf (RunQ c)) None (set_next (HeadOf (RunQ c)) None (set_count (RunQ c) 0 (k_lists s)))"
proof -
  obtain s' where "ipi_broadcast_loop c IPI_PANIC 0 (k_ncpus s) s = Ok () s'" "k_threads s' = k_threads s" "k_lists s' = k_lists s"
    "k_wchans s' = k_wchans s" "k_cpus s' c = k_cpus s c"
    using ipi_broadcast_frame [of s IPI_PANIC c 0 "k_ncpus s"] assms by (auto simp: locks_free_def IPI_PANIC_def)
  then show ?thesis by (simp add: thread_panic_def ipi_broadcast_def)
qed

lemma remhead_null: "tln_next h (HeadOf l) = None \<Longrightarrow> threadlist_remhead l h = Panic"
  by (simp add: threadlist_remhead_def)

lemma addtail_other:
  assumes r: "tl_repr h l ts" and t: "t \<notin> set ts" and k: "k \<noteq> l" "tln_prev h' (TailOf l) = tln_prev h (TailOf l)" "tln_next h' (HeadOf k) = None"
  shows "\<exists>h2. threadlist_addtail l t h' = Ok () h2 \<and> tln_next h2 (HeadOf k) = None"
proof -
  have p: "tln_prev h' (TailOf l) = Some (node_before l ts)" using tl_repr_neighbours(2) [of h l ts "[]"] r k(2) by (simp add: node_at_def)
  have n: "node_before l ts \<noteq> NodeOf t" "node_before l ts \<noteq> HeadOf k" using t k(1) by (auto simp: node_before_def)
  show ?thesis using insertbeforenode_eq [OF p n(1)] n k(1,3) by (simp add: threadlist_addtail_def count_up_def spliced_in_def)
qed

text \<open>\<open>thread_panic\<close> leaves a run queue that cannot be used: a thread that goes to sleep afterwards, as \<open>panic\<close> itself
  does when it syncs the disks, makes \<open>thread_switch\<close> follow a null pointer, however the system got there.\<close>

theorem panic_then_sleep_faults:
  assumes "kreach s" and "enabled s (Sleep c w)"
  shows "kbind (thread_panic c s) (\<lambda>_ s. kexec (Sleep c w) s) = Panic"
proof -
  obtain a where a: "sim s a" using kreach_sim [OF assms(1)] by blast
  note k = kern_okD [OF refinesD(1) [OF simD(1) [OF a]]]
  obtain wc where wc: "k_wchans s w = Some wc" "wc_lock wc = None" using assms(2) wchan_ex(2) [OF refinesD(1) [OF simD(1) [OF a]]] by auto
  obtain t th where th: "runs s c = Some t" "k_threads s t = Some th" "\<not> t_in_interrupt th" using assms(2) by (auto split: option.splits)
  have r: "running s c t" using th(1) by (simp add: runs_running)
  have run: "c_curthread (k_cpus s c) = t" "\<not> c_isidle (k_cpus s c)" "stack_ok th"
    using running_thread [OF k(1) r] th(2) by (metis option.inject)+
  obtain s1 where s1: "thread_panic c s = Ok () s1" "k_threads s1 = k_threads s" "k_wchans s1 = k_wchans s" "k_cpus s1 c = k_cpus s c"
    "k_lists s1 = set_prev (TailOf (RunQ c)) None (set_next (HeadOf (RunQ c)) None (set_count (RunQ c) 0 (k_lists s)))"
    using thread_panic_eq [OF k(3)] by blast
  obtain ts where ts: "a_q a (WchanList w) = Some ts" using simD(4) [OF a, of w] wc by auto
  have tr: "tl_repr (k_lists s) (WchanList w) ts" by (rule tlsD(1) [OF sched_invD(1) [OF k(1)] ts])
  have nt: "t \<notin> set ts" using off_listD [OF sched_invD(4) [OF k(1) r] ts] .
  obtain h2 where h2: "threadlist_addtail (WchanList w) t (k_lists s1) = Ok () h2" "tln_next h2 (HeadOf (RunQ c)) = None"
    using addtail_other [OF tr nt, of "RunQ c" "k_lists s1"] s1(5) by auto
  have chk: "thread_checkstack t (upd_wchan w f s1) = Ok () (upd_wchan w f s1)" for f
    by (rule checkstack_ok [OF _ run(3)]) (use th s1 in simp)
  have "c_runqueue_lock (k_cpus s1 c) = None" using k(3) s1(4) by (simp add: locks_free_def)
  then have "kexec (Sleep c w) s1 = Panic"
    using wc th run s1(2-4) h2 chk remhead_null [OF h2(2)]
    by (simp add: wchan_lock_eq wchan_sleep_def thread_switch_def rq_acquire_eq wchan_unlock_def spinlock_release_def switch_pick_def on_lists_def)
  then show ?thesis using s1(1) by simp
qed

theorem panic_then_sleep_faults_witness: "\<exists>s. kreach s \<and> kbind (thread_panic 1 s) (\<lambda>_ s. kexec (Sleep 1 100) s) = Panic"
proof -
  obtain s where "kreach s" "enabled s (Sleep 1 100)" using example_wchan by blast
  then show ?thesis using panic_then_sleep_faults by blast
qed

end
