(* ===== verification/Synch.thy ===== *)
theory Synch
  imports SchedRun
begin

text \<open>
  The semaphores of \<open>kern/thread/synch.c\<close> on top of the thread system. A thread that finds the count zero goes to
  sleep in the middle of \<open>P\<close>; \<open>s_inP\<close> records for such a thread which semaphore it will look at again when it
  runs, so \<open>P\<close> is two operations here: \<open>P\<close> up to the first time the thread sleeps, and \<open>P_resume\<close> from the return of
  \<open>wchan_sleep\<close> to the next time it sleeps. Locks and condition variables are empty stubs in this kernel.
\<close>

section \<open>Operations\<close>

record semaphore =
  sem_name :: string
  sem_wchan :: nat
  sem_lock :: spinlock
  sem_count :: int

record sys =
  s_kern :: kern
  s_sems :: "nat \<Rightarrow> semaphore option"
  s_inP :: "nat \<Rightarrow> nat option"

definition on_kern :: "(kern \<Rightarrow> ('a, kern) out) \<Rightarrow> sys \<Rightarrow> ('a, sys) out" where
  "on_kern f y = (case f (s_kern y) of
     Ok a k \<Rightarrow> Ok a (y\<lparr>s_kern := k\<rparr>) | Err e k \<Rightarrow> Err e (y\<lparr>s_kern := k\<rparr>) | Panic \<Rightarrow> Panic)"

definition upd_sem :: "nat \<Rightarrow> (semaphore \<Rightarrow> semaphore) \<Rightarrow> sys \<Rightarrow> sys" where
  "upd_sem m f y = y\<lparr>s_sems := (s_sems y)(m := map_option f (s_sems y m))\<rparr>"

definition curthread :: "nat \<Rightarrow> sys \<Rightarrow> nat" where
  "curthread c y = c_curthread (k_cpus (s_kern y) c)"

definition sem_acquire :: "nat \<Rightarrow> nat \<Rightarrow> sys \<Rightarrow> (unit, sys) out" where
  "sem_acquire c m y = deref (s_sems y m) (\<lambda>sem.
     spinlock_acquire c (sem_lock sem) (\<lambda>lk. Ok () (upd_sem m (\<lambda>sem. sem\<lparr>sem_lock := lk\<rparr>) y)))"

definition sem_release :: "nat \<Rightarrow> nat \<Rightarrow> sys \<Rightarrow> (unit, sys) out" where
  "sem_release c m y = deref (s_sems y m) (\<lambda>sem.
     spinlock_release c (sem_lock sem) (\<lambda>lk. Ok () (upd_sem m (\<lambda>sem. sem\<lparr>sem_lock := lk\<rparr>) y)))"

text \<open>The memory arguments are the outcomes of the allocations of the semaphore, its name and its wait channel.\<close>

definition sem_create :: "nat option \<Rightarrow> bool \<Rightarrow> nat option \<Rightarrow> string \<Rightarrow> int \<Rightarrow> sys \<Rightarrow> (nat option, sys) out" where
  "sem_create mem namemem wmem name initial_count y =
     kassert (initial_count \<ge> 0)
       (case mem of
          None \<Rightarrow> Ok None y
        | Some m \<Rightarrow>
            if \<not> namemem then Ok None y
            else
              (case wchan_create wmem name (s_kern y) of
                 (None, k) \<Rightarrow> Ok None (y\<lparr>s_kern := k\<rparr>)
               | (Some w, k) \<Rightarrow>
                   Ok (Some m) (y\<lparr>s_kern := k, s_sems := (s_sems y)(m \<mapsto>
                     \<lparr>sem_name = name, sem_wchan = w, sem_lock = None, sem_count = initial_count\<rparr>)\<rparr>)))"

definition sem_destroy :: "nat \<Rightarrow> sys \<Rightarrow> (unit, sys) out" where
  "sem_destroy m y = deref (s_sems y m) (\<lambda>sem. spinlock_cleanup (sem_lock sem)
     (kbind (on_kern (wchan_destroy (sem_wchan sem)) y) (\<lambda>_ y. Ok () (y\<lparr>s_sems := (s_sems y)(m := None)\<rparr>))))"

text \<open>The loop of \<open>P\<close>, entered with the spinlock held. \<open>False\<close>: the thread has gone to sleep and will come
  back to \<open>P_resume\<close>; \<open>True\<close>: it has taken the semaphore.\<close>

definition P_loop :: "nat \<Rightarrow> nat \<Rightarrow> sys \<Rightarrow> (bool, sys) out" where
  "P_loop c m y = deref (s_sems y m) (\<lambda>sem.
     let t = curthread c y in
     if sem_count sem = 0 then
       kbind (on_kern (wchan_lock c (sem_wchan sem)) y) (\<lambda>_ y.
       kbind (sem_release c m y) (\<lambda>_ y.
       kbind (on_kern (wchan_sleep c (sem_wchan sem)) (y\<lparr>s_inP := (s_inP y)(t \<mapsto> m)\<rparr>)) (\<lambda>_ y. Ok False y)))
     else
       kassert (sem_count sem > 0)
         (let y = upd_sem m (\<lambda>sem. sem\<lparr>sem_count := sem_count sem - 1\<rparr>) y in
          kbind (sem_release c m y) (\<lambda>_ y. Ok True (y\<lparr>s_inP := (s_inP y)(t := None)\<rparr>))))"

definition P :: "nat \<Rightarrow> nat \<Rightarrow> sys \<Rightarrow> (bool, sys) out" where
  "P c m y = deref (s_sems y m) (\<lambda>_. deref (k_threads (s_kern y) (curthread c y)) (\<lambda>cur.
     kassert (t_in_interrupt cur = False)
       (kbind (sem_acquire c m y) (\<lambda>_ y. P_loop c m y))))"

definition P_resume :: "nat \<Rightarrow> nat \<Rightarrow> sys \<Rightarrow> (bool, sys) out" where
  "P_resume c m y = kbind (sem_acquire c m y) (\<lambda>_ y. P_loop c m y)"

text \<open>Incrementing past the largest \<open>int\<close> wraps to a negative number, which the assertion catches.\<close>

definition wrap_int :: "int \<Rightarrow> int" where
  "wrap_int i = (i + 2 ^ 31) mod 2 ^ 32 - 2 ^ 31"

definition V :: "nat \<Rightarrow> nat \<Rightarrow> sys \<Rightarrow> (unit, sys) out" where
  "V c m y = deref (s_sems y m) (\<lambda>_.
     kbind (sem_acquire c m y) (\<lambda>_ y.
       let y = upd_sem m (\<lambda>sem. sem\<lparr>sem_count := wrap_int (sem_count sem + 1)\<rparr>) y in
       deref (s_sems y m) (\<lambda>sem.
         kassert (sem_count sem > 0)
           (kbind (on_kern (wchan_wakeone c (sem_wchan sem)) y) (\<lambda>_ y. sem_release c m y)))))"

section \<open>What the thread system does for others\<close>

text \<open>Which events touch a wait channel, and which end the life of the thread running on a processor.\<close>

fun touches :: "event \<Rightarrow> nat \<Rightarrow> bool" where
  "touches (Sleep c v) w = (v = w)"
| "touches (WakeOne c v) w = (v = w)"
| "touches (WakeAll c v) w = (v = w)"
| "touches (NewWchan v name) w = (v = w)"
| "touches (DropWchan v) w = (v = w)"
| "touches e w = False"

definition zombie :: "asched \<Rightarrow> nat \<Rightarrow> bool" where
  "zombie a t \<longleftrightarrow> (\<exists>k q. a_q a (Zombies k) = Some q \<and> t \<in> set q)"

lemma a_pick_keeps:
  "a_q (a_pick c a) (WchanList w) = a_q a (WchanList w)" "zombie (a_pick c a) t \<Longrightarrow> zombie a t"
  "a_cpu a t \<noteq> None \<Longrightarrow> \<not> zombie a t \<Longrightarrow> a_q a (Zombies c) \<noteq> None \<Longrightarrow> a_cpu (a_pick c a) t \<noteq> None"
  by (auto simp: a_pick_def zombie_def split: option.splits list.splits if_splits)

lemma zombie_cong: "(\<And>k. a_q a' (Zombies k) = a_q a (Zombies k)) \<Longrightarrow> zombie a' t = zombie a t"
  by (simp add: zombie_def)

lemma a_put_keeps:
  "l \<noteq> WchanList w \<Longrightarrow> a_q (a_put l u a) (WchanList w) = a_q a (WchanList w)"
  "(\<And>k. l \<noteq> Zombies k) \<Longrightarrow> zombie (a_put l u a) t = zombie a t"
  "a_q a (Zombies k) \<noteq> None \<Longrightarrow> zombie (a_put (Zombies k) u a) t \<Longrightarrow> zombie a t \<or> t = u"
proof -
  show "l \<noteq> WchanList w \<Longrightarrow> a_q (a_put l u a) (WchanList w) = a_q a (WchanList w)" by (simp add: a_put_def)
  assume "\<And>k. l \<noteq> Zombies k"
  then have "Zombies k \<noteq> l" for k by metis
  then show "zombie (a_put l u a) t = zombie a t" by (intro zombie_cong) (simp add: a_put_def)
next
  assume "a_q a (Zombies k) \<noteq> None" "zombie (a_put (Zombies k) u a) t"
  then show "zombie a t \<or> t = u" by (auto simp: a_put_def zombie_def split: if_splits)
qed

lemma a_leave_keeps:
  assumes l: "\<And>k. l = Zombies k \<Longrightarrow> k = c \<and> a_run a c \<noteq> Some t" and z: "a_q a (Zombies c) \<noteq> None"
  shows "l \<noteq> WchanList w \<Longrightarrow> a_q (a_leave c l a) (WchanList w) = a_q a (WchanList w)" "zombie (a_leave c l a) t \<Longrightarrow> zombie a t"
    "a_cpu a t \<noteq> None \<Longrightarrow> \<not> zombie a t \<Longrightarrow> a_cpu (a_leave c l a) t \<noteq> None"
proof -
  show "l \<noteq> WchanList w \<Longrightarrow> a_q (a_leave c l a) (WchanList w) = a_q a (WchanList w)"
    by (simp add: a_leave_def a_pick_keeps a_put_keeps split: option.splits)
  have zp: "zombie (a_put l u a) t \<Longrightarrow> zombie a t" if u: "a_run a c = Some u" for u
  proof (cases l)
    case (Zombies k)
    then have "k = c" "u \<noteq> t" using l u by auto
    then show "zombie (a_put l u a) t \<Longrightarrow> zombie a t" using a_put_keeps(3) [OF z] Zombies by blast
  qed (simp_all add: a_put_keeps(2))
  then show "zombie (a_leave c l a) t \<Longrightarrow> zombie a t"
    by (cases "a_run a c") (auto simp: a_leave_def dest: a_pick_keeps(2))
  show "a_cpu (a_leave c l a) t \<noteq> None" if h: "a_cpu a t \<noteq> None" "\<not> zombie a t"
  proof (cases "a_run a c")
    case (Some u)
    have "a_q (a_put l u a) (Zombies c) \<noteq> None" using z by (simp add: a_put_def)
    moreover have "\<not> zombie (a_put l u a) t" using zp [OF Some] h(2) by blast
    ultimately show ?thesis using Some h(1) a_pick_keeps(3) [of "a_put l u a" t c] by (simp add: a_leave_def)
  qed (use h in \<open>simp add: a_leave_def\<close>)
qed

lemma fold_wake_keeps: "a_q (fold a_wake ts a) (WchanList w) = a_q a (WchanList w)" "zombie (fold a_wake ts a) t = zombie a t"
  by (induction ts arbitrary: a) (simp_all add: a_wake_def a_put_keeps)

lemma zombie_upd [simp]: "zombie (a\<lparr>a_q := (a_q a)(WchanList w := x)\<rparr>) t = zombie a t" "zombie (a\<lparr>a_cpu := h\<rparr>) t = zombie a t"
  by (auto simp: zombie_def split: if_splits)

lemma a_yield_keeps:
  assumes "a_q a (Zombies c) \<noteq> None"
  shows "a_q (a_yield c a) (WchanList w) = a_q a (WchanList w)" "zombie (a_yield c a) t \<Longrightarrow> zombie a t"
    "a_cpu a t \<noteq> None \<Longrightarrow> \<not> zombie a t \<Longrightarrow> a_cpu (a_yield c a) t \<noteq> None"
  using a_leave_keeps [of "RunQ c" c a t, OF _ assms] by (auto simp: a_yield_def split: if_splits)

lemma a_wakeone_keeps:
  "v \<noteq> w \<Longrightarrow> a_q (a_wakeone v a) (WchanList w) = a_q a (WchanList w)" "zombie (a_wakeone v a) t = zombie a t"
  "a_cpu (a_wakeone v a) = a_cpu a"
  by (auto simp: a_wakeone_def a_wake_def a_put_keeps split: option.splits list.splits)

lemma a_wakeall_keeps:
  "v \<noteq> w \<Longrightarrow> a_q (a_wakeall v a) (WchanList w) = a_q a (WchanList w)" "zombie (a_wakeall v a) t = zombie a t"
  "a_cpu (a_wakeall v a) = a_cpu a"
  by (simp_all add: a_wakeall_def fold_wake_keeps)

lemma a_fork_keeps: "a_q (a_fork c u a) (WchanList w) = a_q a (WchanList w)" "zombie (a_fork c u a) t = zombie a t"
  "a_cpu a t \<noteq> None \<Longrightarrow> a_cpu (a_fork c u a) t \<noteq> None"
  by (auto simp: a_fork_def a_wake_def a_put_keeps)

lemma a_cpu_create_keeps: "a_q (a_cpu_create n u a) (WchanList w) = a_q a (WchanList w)" "zombie (a_cpu_create n u a) t \<Longrightarrow> zombie a t"
  "a_cpu a t \<noteq> None \<Longrightarrow> a_cpu (a_cpu_create n u a) t \<noteq> None"
  by (auto simp: a_cpu_create_def zombie_def split: if_splits)

lemma a_migrated_keeps:
  assumes "a_migrated a a1"
  shows "a_q a1 (WchanList w) = a_q a (WchanList w)" "zombie a1 t = zombie a t" "a_cpu a t \<noteq> None \<Longrightarrow> a_cpu a1 t \<noteq> None"
    "a_q a1 (Zombies c) = a_q a (Zombies c)"
  using assms unfolding a_migrated_def zombie_def by auto

definition kept :: "nat \<Rightarrow> asched \<Rightarrow> asched \<Rightarrow> bool" where
  "kept t a a' \<longleftrightarrow> (zombie a' t \<longrightarrow> zombie a t) \<and> (a_cpu a t \<noteq> None \<longrightarrow> \<not> zombie a t \<longrightarrow> a_cpu a' t \<noteq> None)"

lemma event_zombies:
  assumes s: "sim s a" and c: "runs s c \<noteq> None \<or> c < k_ncpus s"
  shows "a_q a (Zombies c) \<noteq> None"
  using c simD(3) [OF s] by (auto simp: runs_def split: if_splits)

lemma a_leave_wchan: "l \<noteq> WchanList w \<Longrightarrow> a_q (a_leave c l a) (WchanList w) = a_q a (WchanList w)"
  by (simp add: a_leave_def a_pick_keeps(1) a_put_keeps(1) split: option.splits)

lemma astep_wchan:
  assumes "astep a e a'" "\<not> touches e w"
  shows "a_q a' (WchanList w) = a_q a (WchanList w)"
  using assms by (cases rule: astep.cases)
    (simp_all add: a_leave_wchan a_yield_def a_wakeone_keeps a_wakeall_keeps a_fork_keeps a_pick_keeps a_cpu_create_keeps a_migrated_keeps)

lemma astep_keeps:
  assumes s: "sim s a" "enabled s e" "astep a e a'" and t: "\<And>c. e = Exit c \<Longrightarrow> a_run a c \<noteq> Some t"
  shows "kept t a a'"
proof -
  note z = event_zombies [OF s(1)]
  show ?thesis
  proof (cases e)
    case (Yield c)
    then show ?thesis using a_yield_keeps [OF z, of c] s(2,3) by (auto simp: kept_def)
  next
    case (Exit c)
    then show ?thesis using a_leave_keeps [of "Zombies c" c a t] t z [of c] s(2,3) by (auto simp: kept_def)
  next
    case (Sleep c v)
    then have "runs s c \<noteq> None" using s(2) by (auto split: option.splits)
    then show ?thesis using Sleep a_leave_keeps [of "WchanList v" c a t] z [of c] s(3) by (auto simp: kept_def)
  next
    case (Interrupt c)
    then show ?thesis using a_pick_keeps z [of c] s(2,3) by (auto simp: kept_def)
  next
    case (Clock c)
    then obtain a1 where m: "a_migrated a a1" and a': "a' = a_yield c a1" using s(3) by auto
    have "a_q a1 (Zombies c) \<noteq> None" using z [of c] s(2) Clock a_migrated_keeps(4) [OF m] by simp
    from a_yield_keeps [OF this] show ?thesis using a_migrated_keeps [OF m] a' by (auto simp: kept_def)
  next
    case (Fork c u name)
    then show ?thesis using a_fork_keeps s(3) by (auto simp: kept_def)
  next
    case (NewCpu u name junk)
    then show ?thesis using a_cpu_create_keeps s(3) by (auto simp: kept_def)
  qed (use s(3) a_wakeone_keeps a_wakeall_keeps in \<open>auto simp: kept_def\<close>)
qed

section \<open>What the operations do\<close>

lemma sem_lock_restore: "sem_lock sem = None \<Longrightarrow> sem\<lparr>sem_lock := None\<rparr> = sem"
  by (cases sem) simp

lemma sem_unlock: "sem_lock sem = None \<Longrightarrow> sem\<lparr>sem_count := x, sem_lock := None\<rparr> = sem\<lparr>sem_count := x\<rparr>"
  "sem_lock sem = None \<Longrightarrow> sem\<lparr>sem_lock := None, sem_count := x\<rparr> = sem\<lparr>sem_count := x\<rparr>"
  by (cases sem; simp)+

lemma on_kern_Ok [simp]: "f (s_kern y) = Ok a k \<Longrightarrow> on_kern f y = Ok a (y\<lparr>s_kern := k\<rparr>)"
  by (simp add: on_kern_def)

lemma P_blocks:
  assumes "s_sems y m = Some sem" "sem_lock sem = None" "sem_count sem = 0"
    and k: "kbind (wchan_lock c (sem_wchan sem) (s_kern y)) (\<lambda>_ k. wchan_sleep c (sem_wchan sem) k) = Ok () k'"
    and cur: "\<And>k. wchan_lock c (sem_wchan sem) (s_kern y) = Ok () k \<Longrightarrow> k_cpus k = k_cpus (s_kern y)"
  shows "P_resume c m y = Ok False (y\<lparr>s_kern := k', s_inP := (s_inP y)(curthread c y \<mapsto> m)\<rparr>)"
proof -
  obtain k1 where k1: "wchan_lock c (sem_wchan sem) (s_kern y) = Ok () k1" "wchan_sleep c (sem_wchan sem) k1 = Ok () k'"
    using k by (cases "wchan_lock c (sem_wchan sem) (s_kern y)") auto
  have "on_kern (wchan_lock c (sem_wchan sem)) (upd_sem m (\<lambda>sem. sem\<lparr>sem_lock := Some c\<rparr>) y) = Ok () ((upd_sem m (\<lambda>sem. sem\<lparr>sem_lock := Some c\<rparr>) y)\<lparr>s_kern := k1\<rparr>)"
    using k1(1) by (simp add: upd_sem_def)
  then show ?thesis using assms(1-3) k1(2)
    by (simp add: P_resume_def sem_acquire_def sem_release_def spinlock_acquire_def spinlock_release_def P_loop_def upd_sem_def
      curthread_def sem_lock_restore fun_upd_idem Let_def)
qed

lemma P_takes:
  assumes "s_sems y m = Some sem" "sem_lock sem = None" "sem_count sem > 0"
  shows "P_resume c m y = Ok True (y\<lparr>s_sems := (s_sems y)(m \<mapsto> sem\<lparr>sem_count := sem_count sem - 1\<rparr>), s_inP := (s_inP y)(curthread c y := None)\<rparr>)"
  using assms by (simp add: P_resume_def sem_acquire_def sem_release_def spinlock_acquire_def spinlock_release_def P_loop_def upd_sem_def
    curthread_def sem_unlock Let_def)

lemma P_is_resume:
  assumes "s_sems y m \<noteq> None" "k_threads (s_kern y) (curthread c y) = Some th" "\<not> t_in_interrupt th"
  shows "P c m y = P_resume c m y"
  using assms by (auto simp: P_def P_resume_def)

lemma wrap_int_id: "- (2 ^ 31) \<le> i \<Longrightarrow> i < 2 ^ 31 \<Longrightarrow> wrap_int i = i"
  by (simp add: wrap_int_def)

lemma V_eq:
  assumes "s_sems y m = Some sem" "sem_lock sem = None" "0 \<le> sem_count sem" "sem_count sem + 1 < 2 ^ 31"
    and k: "wchan_wakeone c (sem_wchan sem) (s_kern y) = Ok () k'"
  shows "V c m y = Ok () (y\<lparr>s_kern := k', s_sems := (s_sems y)(m \<mapsto> sem\<lparr>sem_count := sem_count sem + 1\<rparr>)\<rparr>)"
proof -
  have w: "wrap_int (sem_count sem + 1) = sem_count sem + 1" using assms(3,4) by (intro wrap_int_id) auto
  show ?thesis using assms(1-3) k
    by (simp add: V_def sem_acquire_def sem_release_def spinlock_acquire_def spinlock_release_def upd_sem_def Let_def w sem_unlock)
qed

section \<open>The invariant\<close>

definition asleep :: "asched \<Rightarrow> nat \<Rightarrow> nat set" where
  "asleep a w = (case a_q a (WchanList w) of None \<Rightarrow> {} | Some q \<Rightarrow> set q)"

definition inP :: "sys \<Rightarrow> nat \<Rightarrow> nat set" where
  "inP y m = {t. s_inP y t = Some m}"

text \<open>Sleepers on the channel of a semaphore are in its \<open>P\<close>, and while there are any, every unit of the count is
  matched by a thread in \<open>P\<close> that is awake.\<close>

definition sem_ok :: "sys \<Rightarrow> asched \<Rightarrow> nat \<Rightarrow> semaphore \<Rightarrow> bool" where
  "sem_ok y a m sem \<longleftrightarrow> a_q a (WchanList (sem_wchan sem)) \<noteq> None \<and> sem_lock sem = None \<and> 0 \<le> sem_count sem \<and> sem_count sem < 2 ^ 31 \<and>
     asleep a (sem_wchan sem) \<subseteq> inP y m \<and>
     (asleep a (sem_wchan sem) \<noteq> {} \<longrightarrow> sem_count sem \<le> int (card (inP y m - asleep a (sem_wchan sem))))"

definition sys_inv :: "sys \<Rightarrow> asched \<Rightarrow> bool" where
  "sys_inv y a \<longleftrightarrow> sim (s_kern y) a \<and> (\<forall>m sem. s_sems y m = Some sem \<longrightarrow> sem_ok y a m sem) \<and>
     (\<forall>m m' sem sem'. s_sems y m = Some sem \<longrightarrow> s_sems y m' = Some sem' \<longrightarrow> sem_wchan sem = sem_wchan sem' \<longrightarrow> m = m') \<and>
     (\<forall>t m. s_inP y t = Some m \<longrightarrow> a_cpu a t \<noteq> None \<and> \<not> zombie a t \<and>
        (\<exists>sem. s_sems y m = Some sem \<and> (\<forall>w. t \<in> asleep a w \<longrightarrow> w = sem_wchan sem)))"

lemma sys_invD:
  assumes "sys_inv y a"
  shows "sim (s_kern y) a" "s_sems y m = Some sem \<Longrightarrow> sem_ok y a m sem"
    "s_sems y m = Some sem \<Longrightarrow> s_sems y m' = Some sem' \<Longrightarrow> sem_wchan sem = sem_wchan sem' \<Longrightarrow> m = m'"
    "s_inP y t = Some m \<Longrightarrow> a_cpu a t \<noteq> None" "s_inP y t = Some m \<Longrightarrow> \<not> zombie a t"
    "s_inP y t = Some m \<Longrightarrow> \<exists>sem. s_sems y m = Some sem \<and> (\<forall>w. t \<in> asleep a w \<longrightarrow> w = sem_wchan sem)"
  using assms unfolding sys_inv_def by blast+

lemma sys_invI:
  assumes "sim (s_kern y) a" "\<And>m sem. s_sems y m = Some sem \<Longrightarrow> sem_ok y a m sem"
    "\<And>m m' sem sem'. s_sems y m = Some sem \<Longrightarrow> s_sems y m' = Some sem' \<Longrightarrow> sem_wchan sem = sem_wchan sem' \<Longrightarrow> m = m'"
    "\<And>t m. s_inP y t = Some m \<Longrightarrow> a_cpu a t \<noteq> None" "\<And>t m. s_inP y t = Some m \<Longrightarrow> \<not> zombie a t"
    "\<And>t m. s_inP y t = Some m \<Longrightarrow> \<exists>sem. s_sems y m = Some sem \<and> (\<forall>w. t \<in> asleep a w \<longrightarrow> w = sem_wchan sem)"
  shows "sys_inv y a"
  using assms unfolding sys_inv_def by blast

lemma sim_finite: "sim s a \<Longrightarrow> finite (dom (a_cpu a))"
proof -
  assume s: "sim s a"
  note i = kern_okD(1) [OF refinesD(1) [OF simD(1) [OF s]]]
  have "dom (a_cpu a) = dom (k_threads s)" using dom_homes [OF simD(1) [OF s]] refinesD(2) [OF simD(1) [OF s]] by simp
  moreover have "dom (k_threads s) \<subseteq> {0<..<2 ^ 32}" using tlsD(4) [OF sched_invD(1) [OF i]] by blast
  ultimately show ?thesis by (metis finite_greaterThanLessThan finite_subset)
qed

lemma inP_finite: "sys_inv y a \<Longrightarrow> finite (inP y m)"
  using sys_invD(4) [of y a] by (intro finite_subset [OF _ sim_finite [OF sys_invD(1)]]) (auto simp: inP_def)

lemma running_awake:
  assumes s: "sim s a" and r: "a_run a c = Some t"
  shows "t \<notin> asleep a w" "\<not> zombie a t" "a_cpu a t \<noteq> None"
proof -
  note i = kern_okD(1) [OF refinesD(1) [OF simD(1) [OF s]]]
  have run: "running s c t" using r refinesD(3) [OF simD(1) [OF s]] by (simp add: runs_running)
  note o = off_listD [OF sched_invD(4) [OF i run]]
  show "t \<notin> asleep a w" "\<not> zombie a t" using o by (auto simp: asleep_def zombie_def split: option.splits)
  show "a_cpu a t \<noteq> None" using sched_invD(5) [OF i run] refinesD(2) [OF simD(1) [OF s]] by (auto simp: homes_def)
qed

lemma asleep_leave:
  assumes "a_run a c = Some t" "a_q a (WchanList w) \<noteq> None"
  shows "asleep (a_leave c (WchanList w) a) v = (if v = w then insert t (asleep a w) else asleep a v)"
  using assms by (auto simp: a_leave_def asleep_def a_pick_keeps(1) a_put_def split: option.splits)

lemma asleep_wakeone: "a_q a (WchanList w) = Some (u # q) \<Longrightarrow> asleep (a_wakeone w a) v = (if v = w then set q else asleep a v)"
  "a_q a (WchanList w) = Some [] \<Longrightarrow> a_wakeone w a = a"
  by (simp_all add: a_wakeone_def asleep_def a_wake_def a_put_keeps)

lemma asleep_wakeall: "asleep (a_wakeall w a) v = (if v = w then {} else asleep a v)"
  by (simp add: a_wakeall_def asleep_def fold_wake_keeps)

lemma astep_asleep:
  assumes s: "sim s a" "enabled s e" "astep a e a'" and t: "\<And>c v. e = Sleep c v \<Longrightarrow> a_run a c \<noteq> Some t" and u: "t \<in> asleep a' w"
  shows "t \<in> asleep a w"
proof (cases "touches e w")
  case False
  then show ?thesis using astep_wchan [OF s(3)] u by (simp add: asleep_def)
next
  case True
  then show ?thesis
  proof (cases e)
    case (Sleep c v)
    then obtain x where x: "a_run a c = Some x" "x \<noteq> t" using s(2) t refinesD(3) [OF simD(1) [OF s(1)]] by (auto split: option.splits)
    have "a_q a (WchanList v) \<noteq> None" using s(2) Sleep simD(4) [OF s(1), of v] by auto
    then show ?thesis using asleep_leave [OF x(1)] s(3) Sleep u True x(2) by auto
  next
    case (WakeOne c v)
    then obtain q where "a_q a (WchanList v) = Some q" using s(2) simD(4) [OF s(1), of v] by auto
    then show ?thesis using asleep_wakeone [of a v] WakeOne s(3) u True by (cases q) (auto simp: asleep_def)
  qed (use s(3) u True asleep_wakeall in \<open>auto simp: asleep_def\<close>)
qed

definition sem_free :: "sys \<Rightarrow> nat \<Rightarrow> bool" where
  "sem_free y w \<longleftrightarrow> (\<forall>m sem. s_sems y m = Some sem \<longrightarrow> sem_wchan sem \<noteq> w)"

definition outside_P :: "sys \<Rightarrow> nat \<Rightarrow> bool" where
  "outside_P y c \<longleftrightarrow> (case runs (s_kern y) c of None \<Rightarrow> True | Some t \<Rightarrow> s_inP y t = None)"

text \<open>What threads do besides semaphores: nobody else uses the channel of a semaphore, and a thread in \<open>P\<close>
  neither exits nor sleeps elsewhere.\<close>

fun kern_free :: "sys \<Rightarrow> event \<Rightarrow> bool" where
  "kern_free y (Exit c) = outside_P y c"
| "kern_free y (Sleep c w) = (outside_P y c \<and> sem_free y w)"
| "kern_free y (WakeOne c w) = sem_free y w"
| "kern_free y (WakeAll c w) = sem_free y w"
| "kern_free y (DropWchan w) = sem_free y w"
| "kern_free y e = True"

lemma kern_step_inv:
  assumes inv: "sys_inv y a" and e: "enabled (s_kern y) e" "kern_free y e" and st: "astep a e a'" "sim k' a'"
  shows "sys_inv (y\<lparr>s_kern := k'\<rparr>) a'"
proof -
  note s = sys_invD(1) [OF inv]
  have out: "a_run a c \<noteq> Some t" if "s_inP y t = Some m" "outside_P y c" for t m c
    using that refinesD(3) [OF simD(1) [OF s]] by (auto simp: outside_P_def)
  have nt: "\<not> touches e (sem_wchan sem)" if m: "s_sems y m = Some sem" for m sem
  proof -
    have "list_exists (s_kern y) (WchanList (sem_wchan sem))" using sys_invD(2) [OF inv m] s unfolding sim_def sem_ok_def by blast
    then show ?thesis using e m by (cases e) (auto simp: sem_free_def)
  qed
  have inP: "inP (y\<lparr>s_kern := k'\<rparr>) m = inP y m" for m by (simp add: inP_def)
  have keep: "kept t a a'" "t \<in> asleep a' w \<Longrightarrow> t \<in> asleep a w" if t: "s_inP y t = Some m" for t m w
  proof -
    have x: "a_run a c \<noteq> Some t" if "e = Exit c \<or> (\<exists>v. e = Sleep c v)" for c using out [OF t, of c] e(2) that by auto
    then show "kept t a a'" using astep_keeps [OF s e(1) st(1), of t] by blast
    show "t \<in> asleep a' w \<Longrightarrow> t \<in> asleep a w" using astep_asleep [OF s e(1) st(1), of t w] x by blast
  qed
  have q: "a_q a' (WchanList (sem_wchan sem)) = a_q a (WchanList (sem_wchan sem))" if m: "s_sems y m = Some sem" for m sem
    by (rule astep_wchan [OF st(1) nt [OF m]])
  have "sem_ok (y\<lparr>s_kern := k'\<rparr>) a' m sem" if m: "s_sems y m = Some sem" for m sem
    using sys_invD(2) [OF inv m] q [OF m] by (simp add: sem_ok_def asleep_def inP)
  moreover have "\<exists>sem. s_sems y m = Some sem \<and> (\<forall>w. t \<in> asleep a' w \<longrightarrow> w = sem_wchan sem)" if "s_inP y t = Some m" for t m
    using sys_invD(6) [OF inv that] keep(2) [OF that] by blast
  ultimately show ?thesis using st(2) sys_invD(3-5) [OF inv] keep(1) unfolding sys_inv_def kept_def by simp
qed

text \<open>\<open>P\<close> finds the count zero and the thread goes to sleep.\<close>

lemma block_inv:
  assumes inv: "sys_inv y a" and m: "s_sems y m = Some sem" "sem_count sem = 0" and r: "a_run a c = Some t"
    and p: "s_inP y t = None \<or> s_inP y t = Some m" and k': "sim k' (a_leave c (WchanList (sem_wchan sem)) a)"
  shows "sys_inv (y\<lparr>s_kern := k', s_inP := (s_inP y)(t \<mapsto> m)\<rparr>) (a_leave c (WchanList (sem_wchan sem)) a)"
    (is "sys_inv ?y ?a")
proof -
  note s = sys_invD(1) [OF inv] and ok = sys_invD(2) [OF inv]
  have w: "a_q a (WchanList (sem_wchan sem)) \<noteq> None" using ok [OF m(1)] by (simp add: sem_ok_def)
  note as = asleep_leave [OF r w] and ra = running_awake [OF s r]
  have z: "a_q a (Zombies c) \<noteq> None" using event_zombies [OF s] run_cpu [OF simD(1) [OF s]] r by simp
  have kp: "kept u a ?a" for u using a_leave_keeps [of "WchanList (sem_wchan sem)" c a u] z by (auto simp: kept_def)
  have i: "inP ?y m' = (if m' = m then insert t (inP y m) else inP y m')" for m' using p by (auto simp: inP_def)
  have "sem_ok ?y ?a m' sem'" if m': "s_sems y m' = Some sem'" for m' sem'
  proof (cases "m' = m")
    case True
    then have "sem' = sem" using m(1) m' by simp
    then show ?thesis using ok [OF m(1)] True m(2) w a_leave_dom [OF w z] by (auto simp: sem_ok_def i as)
  next
    case False
    then have "sem_wchan sem' \<noteq> sem_wchan sem" using sys_invD(3) [OF inv m(1) m'] by metis
    then show ?thesis using ok [OF m'] False a_leave_dom [OF w z] by (simp add: sem_ok_def i as)
  qed
  moreover have "\<exists>sem'. s_sems y m' = Some sem' \<and> (\<forall>v. u \<in> asleep ?a v \<longrightarrow> v = sem_wchan sem')"
    "a_cpu ?a u \<noteq> None" "\<not> zombie ?a u" if u: "s_inP ?y u = Some m'" for u m'
  proof -
    have h: "u = t \<and> m' = m \<or> u \<noteq> t \<and> s_inP y u = Some m'" using u by (auto split: if_splits)
    then show "\<exists>sem'. s_sems y m' = Some sem' \<and> (\<forall>v. u \<in> asleep ?a v \<longrightarrow> v = sem_wchan sem')"
      using m(1) ra(1) sys_invD(6) [OF inv, of u m'] by (auto simp: as)
    have "a_cpu a u \<noteq> None" "\<not> zombie a u" using h ra sys_invD(4,5) [OF inv, of u m'] by auto
    then show "a_cpu ?a u \<noteq> None" "\<not> zombie ?a u" using kp [of u] by (auto simp: kept_def)
  qed
  ultimately show ?thesis using k' sys_invD(3) [OF inv] unfolding sys_inv_def by simp
qed

text \<open>An update that keeps the channels of the semaphores keeps them different.\<close>

lemma wchan_unique:
  assumes inv: "sys_inv y a" and h: "\<And>m sem. f m = Some sem \<Longrightarrow> \<exists>old. s_sems y m = Some old \<and> sem_wchan old = sem_wchan sem"
    and m: "f m1 = Some sem1" "f m2 = Some sem2" "sem_wchan sem1 = sem_wchan sem2"
  shows "m1 = m2"
proof -
  obtain o1 o2 where "s_sems y m1 = Some o1" "sem_wchan o1 = sem_wchan sem1" "s_sems y m2 = Some o2" "sem_wchan o2 = sem_wchan sem2"
    using h [OF m(1)] h [OF m(2)] by blast
  then show ?thesis using sys_invD(3) [OF inv, of m1 o1 m2 o2] m(3) by simp
qed

text \<open>\<open>P\<close> takes the semaphore.\<close>

lemma take_inv:
  assumes inv: "sys_inv y a" and m: "s_sems y m = Some sem" "sem_count sem > 0" and r: "a_run a c = Some t"
    and p: "s_inP y t = None \<or> s_inP y t = Some m"
  shows "sys_inv (y\<lparr>s_sems := (s_sems y)(m \<mapsto> sem\<lparr>sem_count := sem_count sem - 1\<rparr>), s_inP := (s_inP y)(t := None)\<rparr>) a"
    (is "sys_inv ?y a")
proof -
  note s = sys_invD(1) [OF inv] and ok = sys_invD(2) [OF inv]
  note ra = running_awake [OF s r]
  have i: "inP ?y m' = (if m' = m then inP y m - {t} else inP y m')" for m' using p by (auto simp: inP_def)
  let ?A = "asleep a (sem_wchan sem)"
  have "sem_ok ?y a m (sem\<lparr>sem_count := sem_count sem - 1\<rparr>)"
  proof -
    have "inP y m - {t} - ?A = (inP y m - ?A) - {t}" by auto
    moreover have "card (inP y m - ?A) \<le> card ((inP y m - ?A) - {t}) + 1" by (auto simp: card_Diff_singleton_if)
    ultimately have "sem_count sem - 1 \<le> int (card (inP y m - {t} - ?A))" if "sem_count sem \<le> int (card (inP y m - ?A))"
      using that by simp
    then show ?thesis using ok [OF m(1)] m(2) ra(1) [of "sem_wchan sem"] by (auto simp: sem_ok_def i)
  qed
  moreover have "sem_ok ?y a m' sem'" if "s_sems y m' = Some sem'" "m' \<noteq> m" for m' sem'
    using ok [OF that(1)] that(2) by (simp add: sem_ok_def i)
  ultimately have ok1: "sem_ok ?y a m' sem'" if "s_sems ?y m' = Some sem'" for m' sem' using that by (auto split: if_splits)
  have uq: "m1 = m2" if "s_sems ?y m1 = Some sem1" "s_sems ?y m2 = Some sem2" "sem_wchan sem1 = sem_wchan sem2" for m1 m2 sem1 sem2
    by (rule wchan_unique [of y a "s_sems ?y", OF inv _ that]) (use m(1) in \<open>auto split: if_splits\<close>)
  have th: "a_cpu a u \<noteq> None" "\<not> zombie a u" "\<exists>sem'. s_sems ?y m' = Some sem' \<and> (\<forall>v. u \<in> asleep a v \<longrightarrow> v = sem_wchan sem')"
    if "s_inP ?y u = Some m'" for u m'
  proof -
    have u: "s_inP y u = Some m'" using that by (auto split: if_splits)
    show "a_cpu a u \<noteq> None" "\<not> zombie a u" using sys_invD(4,5) [OF inv u] by blast+
    show "\<exists>sem'. s_sems ?y m' = Some sem' \<and> (\<forall>v. u \<in> asleep a v \<longrightarrow> v = sem_wchan sem')" using sys_invD(6) [OF inv u] m(1) by auto
  qed
  show ?thesis
  proof (rule sys_invI)
    show "sim (s_kern ?y) a" using s by simp
  qed (erule ok1, erule(2) uq, (erule th)+)
qed

text \<open>\<open>V\<close> adds a unit and wakes a sleeper, if there is one.\<close>

lemma give_inv:
  assumes inv: "sys_inv y a" and m: "s_sems y m = Some sem" "sem_count sem + 1 < 2 ^ 31" and k': "sim k' (a_wakeone (sem_wchan sem) a)"
  shows "sys_inv (y\<lparr>s_kern := k', s_sems := (s_sems y)(m \<mapsto> sem\<lparr>sem_count := sem_count sem + 1\<rparr>)\<rparr>) (a_wakeone (sem_wchan sem) a)"
    (is "sys_inv ?y ?a")
proof -
  note s = sys_invD(1) [OF inv] and ok = sys_invD(2) [OF inv]
  define w where "w = sem_wchan sem"
  obtain q where q: "a_q a (WchanList w) = Some q" using ok [OF m(1)] by (auto simp: sem_ok_def w_def)
  have x: "k_wchans (s_kern y) w \<noteq> None"
  proof -
    have "list_exists (s_kern y) (WchanList w)" using s q unfolding sim_def by blast
    then show ?thesis by simp
  qed
  note dm = a_wakeone_dom [OF s x, folded w_def]
  have i: "inP ?y m' = inP y m'" for m' by (simp add: inP_def)
  have sub: "asleep ?a v \<subseteq> asleep a v" "v \<noteq> w \<Longrightarrow> asleep ?a v = asleep a v" for v
    using asleep_wakeone [of a w] q by (cases q; auto simp: w_def asleep_def)+
  have "sem_ok ?y ?a m (sem\<lparr>sem_count := sem_count sem + 1\<rparr>)"
  proof (cases q)
    case Nil
    then show ?thesis using ok [OF m(1)] m(2) q asleep_wakeone(2) [of a w] by (simp add: sem_ok_def i asleep_def w_def)
  next
    case (Cons u r)
    then have as: "asleep a w = insert u (set r)" "asleep ?a w = set r" using q asleep_wakeone(1) [of a w u r w] by (simp_all add: asleep_def w_def)
    have u: "u \<notin> set r" "u \<in> inP y m"
      using tq.elems [OF sched_invD(1) [OF kern_okD(1) [OF refinesD(1) [OF simD(1) [OF s]]]] q] Cons ok [OF m(1)] as by (auto simp: sem_ok_def w_def)
    have "inP y m - set r = insert u (inP y m - asleep a w)" "u \<notin> inP y m - asleep a w" using u as by auto
    then have "int (card (inP y m - set r)) = int (card (inP y m - asleep a w)) + 1" using inP_finite [OF inv, of m] by simp
    then show ?thesis using ok [OF m(1)] m(2) as dm [of "WchanList w"] by (auto simp: sem_ok_def i w_def [symmetric])
  qed
  moreover have "sem_ok ?y ?a m' sem'" if "s_sems y m' = Some sem'" "m' \<noteq> m" for m' sem'
  proof -
    have "sem_wchan sem' \<noteq> w" using sys_invD(3) [OF inv m(1) that(1)] that(2) w_def by metis
    then show ?thesis using ok [OF that(1)] sub(2) dm by (simp add: sem_ok_def i w_def)
  qed
  ultimately have ok1: "sem_ok ?y ?a m' sem'" if "s_sems ?y m' = Some sem'" for m' sem' using that by (auto split: if_splits)
  have uq: "m1 = m2" if "s_sems ?y m1 = Some sem1" "s_sems ?y m2 = Some sem2" "sem_wchan sem1 = sem_wchan sem2" for m1 m2 sem1 sem2
    by (rule wchan_unique [of y a "s_sems ?y", OF inv _ that]) (use m(1) in \<open>auto split: if_splits\<close>)
  have th: "a_cpu ?a u \<noteq> None" "\<not> zombie ?a u" "\<exists>sem'. s_sems ?y m' = Some sem' \<and> (\<forall>v. u \<in> asleep ?a v \<longrightarrow> v = sem_wchan sem')"
    if "s_inP y u = Some m'" for u m'
  proof -
    show "a_cpu ?a u \<noteq> None" "\<not> zombie ?a u" using sys_invD(4,5) [OF inv that] a_wakeone_keeps by simp_all
    show "\<exists>sem'. s_sems ?y m' = Some sem' \<and> (\<forall>v. u \<in> asleep ?a v \<longrightarrow> v = sem_wchan sem')"
      using sys_invD(6) [OF inv that] m(1) sub(1) by (cases "m' = m") (fastforce simp: subset_iff)+
  qed
  show ?thesis
  proof (rule sys_invI)
    show "sim (s_kern ?y) ?a" using k' by simp
  qed (erule ok1, erule(2) uq, (rule th, simp)+)
qed

lemma add_sem_inv:
  assumes inv: "sys_inv y a" and m: "s_sems y m = None" and w: "sem_free y w" "a_q a (WchanList w) = Some []" and n: "0 \<le> n" "n < 2 ^ 31"
  shows "sys_inv (y\<lparr>s_sems := (s_sems y)(m \<mapsto> \<lparr>sem_name = name, sem_wchan = w, sem_lock = None, sem_count = n\<rparr>)\<rparr>) a" (is "sys_inv ?y a")
proof -
  have i: "inP ?y = inP y" by (simp add: inP_def fun_eq_iff)
  have ok1: "sem_ok ?y a m' sem'" if "s_sems ?y m' = Some sem'" for m' sem'
    using that sys_invD(2) [OF inv, of m' sem'] w(2) n by (auto simp: sem_ok_def i asleep_def split: if_splits)
  have uq: "m1 = m2" if "s_sems ?y m1 = Some sem1" "s_sems ?y m2 = Some sem2" "sem_wchan sem1 = sem_wchan sem2" for m1 m2 sem1 sem2
  proof (cases "m1 = m \<or> m2 = m")
    case True
    then show ?thesis using that w(1) unfolding sem_free_def by (cases "m1 = m"; cases "m2 = m") fastforce+
  next
    case False
    then show ?thesis using that sys_invD(3) [OF inv, of m1 sem1 m2 sem2] by simp
  qed
  have th: "\<exists>sem'. s_sems ?y m' = Some sem' \<and> (\<forall>v. u \<in> asleep a v \<longrightarrow> v = sem_wchan sem')" if "s_inP y u = Some m'" for u m'
    using sys_invD(6) [OF inv that] m by (cases "m' = m") auto
  show ?thesis
  proof (rule sys_invI)
    show "sim (s_kern ?y) a" using sys_invD(1) [OF inv] by simp
  qed (erule ok1, erule(2) uq, rule sys_invD(4) [OF inv], simp, rule sys_invD(5) [OF inv], simp, rule th, simp)
qed

lemma remove_sem_inv:
  assumes inv: "sys_inv y a" and m: "s_sems y m = Some sem" and p: "inP y m = {}"
  shows "sys_inv (y\<lparr>s_sems := (s_sems y)(m := None)\<rparr>) a" "sem_free (y\<lparr>s_sems := (s_sems y)(m := None)\<rparr>) (sem_wchan sem)"
    "a_q a (WchanList (sem_wchan sem)) = Some []" "sem_lock sem = None"
proof -
  let ?y = "y\<lparr>s_sems := (s_sems y)(m := None)\<rparr>"
  have ok: "sem_ok y a m sem" by (rule sys_invD(2) [OF inv m])
  then show "a_q a (WchanList (sem_wchan sem)) = Some []" "sem_lock sem = None"
    using p by (auto simp: sem_ok_def asleep_def split: option.splits)
  show "sem_free ?y (sem_wchan sem)" using sys_invD(3) [OF inv m] by (auto simp: sem_free_def split: if_splits)
  have i: "inP ?y = inP y" by (simp add: inP_def fun_eq_iff)
  have ok1: "sem_ok ?y a m' sem'" if "s_sems ?y m' = Some sem'" for m' sem'
    using that sys_invD(2) [OF inv, of m' sem'] by (auto simp: sem_ok_def i split: if_splits)
  have uq: "m1 = m2" if "s_sems ?y m1 = Some sem1" "s_sems ?y m2 = Some sem2" "sem_wchan sem1 = sem_wchan sem2" for m1 m2 sem1 sem2
    by (rule wchan_unique [of y a "s_sems ?y", OF inv _ that]) (auto split: if_splits)
  have th: "\<exists>sem'. s_sems ?y m' = Some sem' \<and> (\<forall>v. u \<in> asleep a v \<longrightarrow> v = sem_wchan sem')" if "s_inP y u = Some m'" for u m'
    using sys_invD(6) [OF inv that] p that by (auto simp: inP_def)
  show "sys_inv ?y a"
  proof (rule sys_invI)
    show "sim (s_kern ?y) a" using sys_invD(1) [OF inv] by simp
  qed (erule ok1, erule(2) uq, rule sys_invD(4) [OF inv], simp, rule sys_invD(5) [OF inv], simp, rule th, simp)
qed

section \<open>Runs\<close>

datatype sevent = Kern event | SemP nat nat | SemResume nat nat | SemV nat nat | SemCreate nat nat string int | SemDestroy nat

definition runs_thread :: "sys \<Rightarrow> nat \<Rightarrow> nat option \<Rightarrow> bool" where
  "runs_thread y c p \<longleftrightarrow> (case runs (s_kern y) c of None \<Rightarrow> False
     | Some t \<Rightarrow> s_inP y t = p \<and> (case k_threads (s_kern y) t of None \<Rightarrow> False | Some th \<Rightarrow> \<not> t_in_interrupt th))"

fun senabled :: "sys \<Rightarrow> sevent \<Rightarrow> bool" where
  "senabled y (Kern e) \<longleftrightarrow> enabled (s_kern y) e \<and> kern_free y e"
| "senabled y (SemP c m) \<longleftrightarrow> s_sems y m \<noteq> None \<and> runs_thread y c None"
| "senabled y (SemResume c m) \<longleftrightarrow> runs_thread y c (Some m)"
| "senabled y (SemV c m) \<longleftrightarrow> c < k_ncpus (s_kern y) \<and> (case s_sems y m of None \<Rightarrow> False | Some sem \<Rightarrow> sem_count sem + 1 < 2 ^ 31)"
| "senabled y (SemCreate m w name n) \<longleftrightarrow> s_sems y m = None \<and> k_wchans (s_kern y) w = None \<and> 0 \<le> n \<and> n < 2 ^ 31"
| "senabled y (SemDestroy m) \<longleftrightarrow> s_sems y m \<noteq> None \<and> inP y m = {}"

text \<open>The result says whether a \<open>P\<close> was completed.\<close>

fun sexec :: "sevent \<Rightarrow> sys \<Rightarrow> (bool, sys) out" where
  "sexec (Kern e) y = kbind (on_kern (kexec e) y) (\<lambda>_ y. Ok False y)"
| "sexec (SemP c m) y = P c m y"
| "sexec (SemResume c m) y = P_resume c m y"
| "sexec (SemV c m) y = kbind (V c m y) (\<lambda>_ y. Ok False y)"
| "sexec (SemCreate m w name n) y = kbind (sem_create (Some m) True (Some w) name n y) (\<lambda>_ y. Ok False y)"
| "sexec (SemDestroy m) y = kbind (sem_destroy m y) (\<lambda>_ y. Ok False y)"

lemma P_resume_inv:
  assumes inv: "sys_inv y a" and m: "s_sems y m = Some sem" and p: "p = None \<or> p = Some m" and r: "runs_thread y c p"
  shows "\<exists>y' a' b. P_resume c m y = Ok b y' \<and> sys_inv y' a' \<and>
    s_sems y' = (if b then (s_sems y)(m \<mapsto> sem\<lparr>sem_count := sem_count sem - 1\<rparr>) else s_sems y) \<and>
    (sem_count sem = 0 \<longrightarrow> \<not> b \<and> a' = a_leave c (WchanList (sem_wchan sem)) a \<and> s_inP y' = (s_inP y)(curthread c y \<mapsto> m))"
proof -
  note s = sys_invD(1) [OF inv] and ok = sys_invD(2) [OF inv m]
  obtain t th where t: "runs (s_kern y) c = Some t" "s_inP y t = p" "k_threads (s_kern y) t = Some th" "\<not> t_in_interrupt th"
    using r by (auto simp: runs_thread_def split: option.splits)
  have cur: "curthread c y = t" using t(1) by (simp add: runs_def curthread_def split: if_splits)
  have ra: "a_run a c = Some t" using t(1) refinesD(3) [OF simD(1) [OF s]] by simp
  have lk: "sem_lock sem = None" using ok by (simp add: sem_ok_def)
  show ?thesis
  proof (cases "sem_count sem = 0")
    case True
    have "list_exists (s_kern y) (WchanList (sem_wchan sem))" using ok s unfolding sim_def sem_ok_def by blast
    then obtain wc where wc: "k_wchans (s_kern y) (sem_wchan sem) = Some wc" by auto
    obtain k' where k': "kbind (wchan_lock c (sem_wchan sem) (s_kern y)) (\<lambda>_ s. wchan_sleep c (sem_wchan sem) s) = Ok () k'"
      "sim k' (a_leave c (WchanList (sem_wchan sem)) a)" using exec_sleep [OF s wc ra t(3,4)] by blast
    have "k_cpus k = k_cpus (s_kern y)" if "wchan_lock c (sem_wchan sem) (s_kern y) = Ok () k" for k
      using that wc wchan_ex(2) [OF refinesD(1) [OF simD(1) [OF s]] wc] by (auto simp: wchan_lock_eq)
    from P_blocks [OF m lk True k'(1) this] show ?thesis
      using block_inv [OF inv m True ra _ k'(2)] t(2) p cur by auto
  next
    case False
    then have pos: "sem_count sem > 0" using ok by (simp add: sem_ok_def)
    then show ?thesis using P_takes [OF m lk pos, of c] take_inv [OF inv m pos ra] t(2) p cur by auto
  qed
qed

text \<open>Who gives and who takes.\<close>

fun gives :: "nat \<Rightarrow> sevent \<Rightarrow> bool" where
  "gives m (SemV c m') \<longleftrightarrow> m' = m"
| "gives m e \<longleftrightarrow> False"

fun takes :: "nat \<Rightarrow> sevent \<Rightarrow> bool" where
  "takes m (SemP c m') \<longleftrightarrow> m' = m"
| "takes m (SemResume c m') \<longleftrightarrow> m' = m"
| "takes m e \<longleftrightarrow> False"

definition after :: "sevent \<Rightarrow> bool \<Rightarrow> nat \<Rightarrow> int" where
  "after e b m = (if gives m e then 1 else 0) - (if takes m e \<and> b then 1 else 0)"

definition counted :: "sevent \<Rightarrow> bool \<Rightarrow> sys \<Rightarrow> sys \<Rightarrow> bool" where
  "counted e b y y' \<longleftrightarrow> (\<forall>m sem. s_sems y m = Some sem \<longrightarrow> e \<noteq> SemDestroy m \<longrightarrow>
     (\<exists>sem'. s_sems y' m = Some sem' \<and> sem_count sem' = sem_count sem + after e b m))"

lemma step_P:
  assumes inv: "sys_inv y a" and m: "s_sems y m = Some sem" and p: "p = None \<or> p = Some m" and r: "runs_thread y c p"
    and e: "sexec e y = P_resume c m y" "\<And>m'. takes m' e \<longleftrightarrow> m = m'" "\<And>m'. \<not> gives m' e"
  shows "\<exists>b y' a'. sexec e y = Ok b y' \<and> sys_inv y' a' \<and> counted e b y y'"
  using P_resume_inv [OF inv m p r] m e(2,3) unfolding e(1) by (fastforce simp: counted_def after_def)

lemma step_V:
  assumes inv: "sys_inv y a" and m: "s_sems y m = Some sem" and n: "sem_count sem + 1 < 2 ^ 31"
  shows "\<exists>y' a'. V c m y = Ok () y' \<and> sys_inv y' a' \<and> s_sems y' = (s_sems y)(m \<mapsto> sem\<lparr>sem_count := sem_count sem + 1\<rparr>)"
proof -
  note s = sys_invD(1) [OF inv] and ok = sys_invD(2) [OF inv m]
  have "list_exists (s_kern y) (WchanList (sem_wchan sem))" using ok s unfolding sim_def sem_ok_def by blast
  then obtain k' where k': "wchan_wakeone c (sem_wchan sem) (s_kern y) = Ok () k'" "sim k' (a_wakeone (sem_wchan sem) a)"
    using exec_wake(1) [OF s, of "sem_wchan sem" c] by auto
  have "sem_lock sem = None" "0 \<le> sem_count sem" using ok by (simp_all add: sem_ok_def)
  from V_eq [OF m this n k'(1)] give_inv [OF inv m n k'(2)] show ?thesis by auto
qed

lemma step_kern:
  assumes inv: "sys_inv y a" and e: "enabled (s_kern y) e" "kern_free y e"
  shows "\<exists>k' a'. kexec e (s_kern y) = Ok () k' \<and> astep a e a' \<and> sys_inv (y\<lparr>s_kern := k'\<rparr>) a'"
  using kexec_sim [OF sys_invD(1) [OF inv] e(1)] kern_step_inv [OF inv e] by blast

lemma step_create:
  assumes inv: "sys_inv y a" and m: "s_sems y m = None" and w: "k_wchans (s_kern y) w = None" and n: "0 \<le> n" "n < 2 ^ 31"
  shows "\<exists>y' a'. sem_create (Some m) True (Some w) name n y = Ok (Some m) y' \<and> sys_inv y' a' \<and>
    s_sems y' = (s_sems y)(m \<mapsto> \<lparr>sem_name = name, sem_wchan = w, sem_lock = None, sem_count = n\<rparr>)"
proof -
  obtain k' where k': "kexec (NewWchan w name) (s_kern y) = Ok () k'" and a': "sys_inv (y\<lparr>s_kern := k'\<rparr>) (a\<lparr>a_q := (a_q a)(WchanList w \<mapsto> [])\<rparr>)"
    using step_kern [OF inv, of "NewWchan w name"] w by auto
  have "sem_free y w" unfolding sem_free_def
  proof (intro allI impI notI)
    fix m sem assume h: "s_sems y m = Some sem" "sem_wchan sem = w"
    then have "list_exists (s_kern y) (WchanList w)" using sys_invD(1,2) [OF inv] unfolding sim_def sem_ok_def by blast
    then show False using w by simp
  qed
  then have "sem_free (y\<lparr>s_kern := k'\<rparr>) w" by (simp add: sem_free_def)
  from add_sem_inv [OF a' _ this _ n, of m name] m k' show ?thesis using n by (auto simp: sem_create_def wchan_create_def)
qed

lemma step_destroy:
  assumes inv: "sys_inv y a" and m: "s_sems y m = Some sem" and p: "inP y m = {}"
  shows "\<exists>y' a'. sem_destroy m y = Ok () y' \<and> sys_inv y' a' \<and> s_sems y' = (s_sems y)(m := None)"
proof -
  define y1 where "y1 = y\<lparr>s_sems := (s_sems y)(m := None)\<rparr>"
  note r = remove_sem_inv [OF inv m p, folded y1_def]
  note s = sys_invD(1) [OF r(1)]
  have "list_exists (s_kern y1) (WchanList (sem_wchan sem))" using s r(3) unfolding sim_def by blast
  moreover have "tl_count (k_lists (s_kern y1)) (WchanList (sem_wchan sem)) = 0"
    using tls_count [OF sched_invD(1) [OF kern_okD(1) [OF refinesD(1) [OF simD(1) [OF s]]]] r(3)] by simp
  ultimately obtain k' a' where k': "wchan_destroy (sem_wchan sem) (s_kern y) = Ok () k'" "sys_inv (y1\<lparr>s_kern := k'\<rparr>) a'"
    using step_kern [OF r(1), of "DropWchan (sem_wchan sem)"] r(2) by (auto simp: y1_def)
  have "sem_destroy m y = Ok () (y1\<lparr>s_kern := k'\<rparr>)" using m r(4) k'(1) by (simp add: sem_destroy_def spinlock_cleanup_def y1_def)
  then show ?thesis using k'(2) by (auto simp: y1_def)
qed

lemma sexec_inv:
  assumes inv: "sys_inv y a" and e: "senabled y e"
  shows "\<exists>b y' a'. sexec e y = Ok b y' \<and> sys_inv y' a' \<and> counted e b y y'"
proof (cases e)
  case (Kern x)
  then show ?thesis using step_kern [OF inv, of x] e by (auto simp: counted_def after_def)
next
  case (SemP c m)
  then obtain sem where m: "s_sems y m = Some sem" and r: "runs_thread y c None" using e by auto
  obtain t th where "runs (s_kern y) c = Some t" "k_threads (s_kern y) t = Some th" "\<not> t_in_interrupt th"
    using r by (auto simp: runs_thread_def split: option.splits)
  then have "P c m y = P_resume c m y" using m by (intro P_is_resume) (auto simp: curthread_def runs_def split: if_splits)
  then show ?thesis using step_P [OF inv m _ r, of e] SemP by simp
next
  case (SemResume c m)
  then have r: "runs_thread y c (Some m)" using e by simp
  then obtain t where "s_inP y t = Some m" by (auto simp: runs_thread_def split: option.splits)
  then obtain sem where m: "s_sems y m = Some sem" using sys_invD(6) [OF inv] by blast
  then show ?thesis using step_P [OF inv m _ r, of e] SemResume by simp
next
  case (SemV c m)
  then obtain sem where "s_sems y m = Some sem" "sem_count sem + 1 < 2 ^ 31" using e by (auto split: option.splits)
  from step_V [OF inv this, of c] this SemV show ?thesis by (fastforce simp: counted_def after_def)
next
  case (SemCreate m w name n)
  then show ?thesis using step_create [OF inv, of m w n name] e by (fastforce simp: counted_def after_def)
next
  case (SemDestroy m)
  then show ?thesis using step_destroy [OF inv, of m] e by (fastforce simp: counted_def after_def)
qed

text \<open>Any sequence of events, from a running kernel that has no semaphores yet.\<close>

fun senabled_run :: "sys \<Rightarrow> sevent list \<Rightarrow> bool" where
  "senabled_run y [] \<longleftrightarrow> True"
| "senabled_run y (e # es) \<longleftrightarrow> senabled y e \<and> (case sexec e y of Ok b y' \<Rightarrow> senabled_run y' es | _ \<Rightarrow> True)"

fun sexecs :: "sevent list \<Rightarrow> sys \<Rightarrow> (bool list, sys) out" where
  "sexecs [] y = Ok [] y"
| "sexecs (e # es) y = kbind (sexec e y) (\<lambda>b y. kbind (sexecs es y) (\<lambda>bs y. Ok (b # bs) y))"

inductive sreach :: "sys \<Rightarrow> bool" where
  start: "kreach k \<Longrightarrow> sreach \<lparr>s_kern = k, s_sems = (\<lambda>_. None), s_inP = (\<lambda>_. None)\<rparr>"
| step: "sreach y \<Longrightarrow> senabled y e \<Longrightarrow> sexec e y = Ok b y' \<Longrightarrow> sreach y'"

lemma sreach_inv: "sreach y \<Longrightarrow> \<exists>a. sys_inv y a"
proof (induction rule: sreach.induct)
  case (start k)
  then show ?case using kreach_sim by (auto simp: sys_inv_def)
next
  case (step y e b y')
  then show ?case using sexec_inv by fastforce
qed

lemma sexecs_counted:
  assumes "sreach y" "senabled_run y es" "s_sems y m = Some sem" "SemDestroy m \<notin> set es"
  shows "\<exists>bs y' sem'. sexecs es y = Ok bs y' \<and> sreach y' \<and> s_sems y' m = Some sem' \<and>
    sem_count sem' + int (length (filter (\<lambda>(e, b). takes m e \<and> b) (zip es bs))) = sem_count sem + int (length (filter (gives m) es))"
  using assms
proof (induction es arbitrary: y sem)
  case (Cons e es)
  obtain a where a: "sys_inv y a" using sreach_inv [OF Cons.prems(1)] by blast
  have e: "senabled y e" using Cons.prems(2) by simp
  obtain b y1 where y1: "sexec e y = Ok b y1" "counted e b y y1" using sexec_inv [OF a e] by blast
  obtain sem1 where sem1: "s_sems y1 m = Some sem1" "sem_count sem1 = sem_count sem + after e b m"
    using y1(2) Cons.prems(3,4) unfolding counted_def by auto
  have r: "sreach y1" by (rule sreach.step [OF Cons.prems(1) e y1(1)])
  obtain bs y' sem' where h: "sexecs es y1 = Ok bs y'" "sreach y'" "s_sems y' m = Some sem'"
    "sem_count sem' + int (length (filter (\<lambda>(e, b). takes m e \<and> b) (zip es bs))) = sem_count sem1 + int (length (filter (gives m) es))"
    using Cons.IH [OF r _ sem1(1)] Cons.prems(2,4) y1(1) by auto
  have "sem_count sem' + int (length (filter (\<lambda>(e, b). takes m e \<and> b) (zip (e # es) (b # bs)))) =
    sem_count sem + int (length (filter (gives m) (e # es)))" using h(4) sem1(2) by (auto simp: after_def split: if_splits)
  then show ?case using h(1-3) y1(1) by (intro exI [of _ "b # bs"] exI [of _ y'] exI [of _ sem']) (auto split: if_splits)
qed simp

text \<open>Threads that can run: on a processor or on a run queue.\<close>

definition runnable :: "kern \<Rightarrow> nat \<Rightarrow> bool" where
  "runnable s t \<longleftrightarrow> (\<exists>c. in_place s t (OnCpu c) \<or> in_place s t (OnList (RunQ c)))"

lemma awake_runnable:
  assumes inv: "sys_inv y a" and t: "s_inP y t = Some m" "s_sems y m = Some sem" "t \<notin> asleep a (sem_wchan sem)"
  shows "runnable (s_kern y) t"
proof -
  note s = sys_invD(1) [OF inv]
  have "k_threads (s_kern y) t \<noteq> None"
    using sys_invD(4) [OF inv t(1)] refinesD(2) [OF simD(1) [OF s]] dom_homes [OF simD(1) [OF s]] by (metis domIff)
  then obtain p where p: "in_place (s_kern y) t p" using one_place [OF s] by blast
  have z: "\<not> in_place (s_kern y) t (OnList (Zombies c))" for c
    using sys_invD(5) [OF inv t(1)] in_place_list [OF s] by (auto simp: zombie_def)
  have st: "\<not> in_place (s_kern y) t (OnList (StackList c))" for c by (simp add: in_place_def)
  have w: "\<not> in_place (s_kern y) t (OnList (WchanList w))" for w
  proof
    assume "in_place (s_kern y) t (OnList (WchanList w))"
    then have "t \<in> asleep a w" using in_place_list [OF s] by (auto simp: asleep_def)
    then show False using sys_invD(6) [OF inv t(1)] t(2,3) by auto
  qed
  show ?thesis
  proof (cases p)
    case (OnList l)
    then show ?thesis using p z w st by (cases l) (auto simp: runnable_def)
  qed (use p in \<open>auto simp: runnable_def\<close>)
qed

section \<open>An example\<close>

text \<open>The second processor's thread finds a new semaphore at zero and sleeps.\<close>

lemma example_sem:
  "\<exists>y sem. sreach y \<and> s_sems y 7 = Some sem \<and> sem_count sem = 0 \<and> sem_wchan sem = 100 \<and> 
    0 < k_ncpus (s_kern y) \<and> runs (s_kern y) 1 = Some 8192 \<and> s_inP y = (\<lambda>_. None) \<and> senabled y (SemP 1 7)"
proof -
  obtain k th where k: "kreach k" "sim k ex_cpus" "k_ncpus k = 2" "k_wchans k = (\<lambda>_. None)" "k_threads k 8192 = Some th" "\<not> t_in_interrupt th"
    using example_cpus by blast
  define y where "y = \<lparr>s_kern = k, s_sems = (\<lambda>_. None), s_inP = (\<lambda>_. None)\<rparr>"
  define k1 where "k1 = snd (wchan_create (Some 100) ''s'' k)"
  define y1 where "y1 = \<lparr>s_kern = k1, s_sems = [7 \<mapsto> \<lparr>sem_name = ''s'', sem_wchan = 100, sem_lock = None, sem_count = 0\<rparr>], s_inP = (\<lambda>_. None)\<rparr>"
  have "sreach y" unfolding y_def by (rule sreach.start [OF k(1)])
  moreover have "senabled y (SemCreate 7 100 ''s'' 0)" using k(4) by (simp add: y_def)
  moreover have "sexec (SemCreate 7 100 ''s'' 0) y = Ok False y1" by (simp add: y_def y1_def k1_def sem_create_def wchan_create_def)
  ultimately have r: "sreach y1" by (rule sreach.step)
  have "runs k 1 = Some 8192" using refinesD(3) [OF simD(1) [OF k(2)], symmetric] by (simp add: ex_cpus_def a_cpu_create_def)
  moreover have "runs k1 1 = runs k 1" by (simp add: runs_def k1_def wchan_create_def)
  ultimately have rn: "runs k1 1 = Some 8192" by simp
  then have "senabled y1 (SemP 1 7)" using k(5,6) by (simp add: y1_def k1_def runs_thread_def wchan_create_def)
  moreover have "0 < k_ncpus k1" using k(3) by (simp add: k1_def wchan_create_def)
  ultimately show ?thesis using r rn unfolding y1_def by (intro exI conjI) auto
qed

section \<open>Properties\<close>

text \<open>C9. Semaphores count. Whatever the threads of the system do, every \<open>P\<close>, \<open>V\<close>, creation and removal returns, and over any
  run the units taken from a semaphore are those it had plus those given, less those left: no unit is lost,
  none is taken twice, so at most as many threads pass \<open>P\<close> as the initial count and the \<open>V\<close>s allow.\<close>

theorem semaphore_counts:
  assumes "sreach y" and "senabled_run y es" and "s_sems y m = Some sem" and "SemDestroy m \<notin> set es"
  shows "\<exists>bs y' sem'. sexecs es y = Ok bs y' \<and> sreach y' \<and> s_sems y' m = Some sem' \<and> 0 \<le> sem_count sem' \<and>
    sem_count sem' + int (length (filter (\<lambda>(e, b). takes m e \<and> b) (zip es bs))) = sem_count sem + int (length (filter (gives m) es))"
proof -
  obtain bs y' sem' where h: "sexecs es y = Ok bs y'" "sreach y'" "s_sems y' m = Some sem'"
    "sem_count sem' + int (length (filter (\<lambda>(e, b). takes m e \<and> b) (zip es bs))) = sem_count sem + int (length (filter (gives m) es))"
    using sexecs_counted [OF assms] by blast
  obtain a where "sys_inv y' a" using sreach_inv [OF h(2)] by blast
  then have "0 \<le> sem_count sem'" using sys_invD(2) h(3) by (auto simp: sem_ok_def)
  then show ?thesis using h by blast
qed

theorem semaphore_counts_witness:
  "\<exists>y bs y' sem'. sreach y \<and> sexecs [SemV 0 7] y = Ok bs y' \<and> s_sems y' 7 = Some sem' \<and> sem_count sem' = 1"
proof -
  obtain y sem where y: "sreach y" "s_sems y 7 = Some sem" "sem_count sem = 0" "0 < k_ncpus (s_kern y)" using example_sem by blast
  have "senabled_run y [SemV 0 7]" using y by (simp split: out.splits)
  then obtain bs y' sem' where h: "sexecs [SemV 0 7] y = Ok bs y'" "s_sems y' 7 = Some sem'"
    "sem_count sem' + int (length (filter (\<lambda>(e, b). takes 7 e \<and> b) (zip [SemV 0 7] bs))) = 1"
    using semaphore_counts [OF y(1) _ y(2), of "[SemV 0 7]"] y(3) by auto
  have "sem_count sem' = 1" using h(3) by (cases bs) simp_all
  then show ?thesis using h(1,2) y(1) by blast
qed



text \<open>A \<open>V\<close> that would take the count past the largest \<open>int\<close> stops at the assertion that the count is positive.\<close>

theorem V_overflow_asserts:
  assumes "s_sems y m = Some sem" and "sem_lock sem = None" and "sem_count sem = 2 ^ 31 - 1"
  shows "V c m y = Panic"
  using assms by (simp add: V_def sem_acquire_def spinlock_acquire_def upd_sem_def wrap_int_def Let_def)

theorem V_overflow_asserts_witness:
  "V 0 7 \<lparr>s_kern = no_kern, s_sems = [7 \<mapsto> \<lparr>sem_name = ''s'', sem_wchan = 100, sem_lock = None, sem_count = 2147483647\<rparr>], s_inP = (\<lambda>_. None)\<rparr> = Panic"
  by (rule V_overflow_asserts [of _ 7 "\<lparr>sem_name = ''s'', sem_wchan = 100, sem_lock = None, sem_count = 2147483647\<rparr>"]) simp_all

end
