(* ===== verification/Kmalloc.thy ===== *)
theory Kmalloc
  imports Thread
begin

text \<open>
  The kernel heap, \<open>kern/vm/kmalloc.c\<close>, on the page allocator of \<open>kern/arch/mips/vm/dumbvm.c\<close> and \<open>ram.c\<close>. Pages are
  filled with blocks of one size; each page has a list of its free blocks, linked through their first words, and an
  entry in a table of page references, which are on one list with all others and on one with those of the same
  block size. Memory is an explicit store of 32-bit words, so that the links the allocator writes into free blocks and the
  contents of allocated blocks share it.
\<close>

section \<open>Data\<close>

definition PAGE_SIZE :: nat where "PAGE_SIZE = 4096"
definition PAGE_FRAME :: nat where "PAGE_FRAME = 0xfffff000"
definition MIPS_KSEG0 :: nat where "MIPS_KSEG0 = 0x80000000"
definition NSIZES :: nat where "NSIZES = 8"
definition sizes :: "nat list" where "sizes = [16, 32, 64, 128, 256, 512, 1024, 2048]"
definition LARGEST_SUBPAGE_SIZE :: nat where "LARGEST_SUBPAGE_SIZE = 2048"
definition INVALID_OFFSET :: nat where "INVALID_OFFSET = 0xffff"

text \<open>A page reference takes 16 bytes, so a page holds 256 of them. A pointer to one is its index.\<close>

definition NPAGEREFS :: nat where "NPAGEREFS = PAGE_SIZE div 16"
definition INUSE_WORDS :: nat where "INUSE_WORDS = NPAGEREFS div 32"

record pageref =
  next_samesize :: "nat option"
  next_all :: "nat option"
  pageaddr_and_blocktype :: nat
  freelist_offset :: nat
  nfree :: nat

record kheap =
  pagerefs :: "pageref list"
  pagerefs_inuse :: "u32 list"
  sizebases :: "nat option list"
  allbase :: "nat option"
  kmalloc_spinlock :: spinlock
  stealmem_lock :: spinlock
  firstpaddr :: nat
  lastpaddr :: nat
  mem :: "nat \<Rightarrow> nat"

definition PR_PAGEADDR :: "pageref \<Rightarrow> nat" where
  "PR_PAGEADDR pr = pageaddr_and_blocktype pr AND PAGE_FRAME"

definition PR_BLOCKTYPE :: "pageref \<Rightarrow> nat" where
  "PR_BLOCKTYPE pr = pageaddr_and_blocktype pr AND (2 ^ 32 - 1 - PAGE_FRAME)"

definition MKPAB :: "nat \<Rightarrow> nat \<Rightarrow> nat" where
  "MKPAB pa blk = (pa AND PAGE_FRAME) OR (blk AND (2 ^ 32 - 1 - PAGE_FRAME))"

definition upd_pr :: "nat \<Rightarrow> (pageref \<Rightarrow> pageref) \<Rightarrow> kheap \<Rightarrow> kheap" where
  "upd_pr p f h = h\<lparr>pagerefs := (pagerefs h)[p := f (pagerefs h ! p)]\<rparr>"

definition store :: "nat \<Rightarrow> nat \<Rightarrow> kheap \<Rightarrow> kheap" where
  "store a v h = h\<lparr>mem := (mem h)(a := v)\<rparr>"

section \<open>Pages\<close>

definition ram_bootstrap :: "nat \<Rightarrow> nat \<Rightarrow> kheap \<Rightarrow> kheap" where
  "ram_bootstrap ramsize firstfree h =
     (let ramsize = (if ramsize > 508 * 1024 * 1024 then 508 * 1024 * 1024 else ramsize) in
      h\<lparr>lastpaddr := ramsize, firstpaddr := wsub32 firstfree MIPS_KSEG0\<rparr>)"

definition ram_stealmem :: "nat \<Rightarrow> kheap \<Rightarrow> nat \<times> kheap" where
  "ram_stealmem npages h =
     (let size = (npages * PAGE_SIZE) mod 2 ^ 32 in
      if wadd32 (firstpaddr h) size > lastpaddr h then (0, h)
      else (firstpaddr h, h\<lparr>firstpaddr := wadd32 (firstpaddr h) size\<rparr>))"

definition ram_getsize :: "kheap \<Rightarrow> (nat \<times> nat) \<times> kheap" where
  "ram_getsize h = ((firstpaddr h, lastpaddr h), h\<lparr>firstpaddr := 0, lastpaddr := 0\<rparr>)"

definition getppages :: "nat \<Rightarrow> nat \<Rightarrow> kheap \<Rightarrow> (nat, kheap) out" where
  "getppages c npages h =
     spinlock_acquire c (stealmem_lock h) (\<lambda>lk.
       let (addr, h) = ram_stealmem npages (h\<lparr>stealmem_lock := lk\<rparr>) in
       spinlock_release c (stealmem_lock h) (\<lambda>lk. Ok addr (h\<lparr>stealmem_lock := lk\<rparr>)))"

definition alloc_kpages :: "nat \<Rightarrow> nat \<Rightarrow> kheap \<Rightarrow> (nat, kheap) out" where
  "alloc_kpages c npages h =
     kbind (getppages c npages h) (\<lambda>pa h. if pa = 0 then Ok 0 h else Ok (wadd32 pa MIPS_KSEG0) h)"

text \<open>\<open>free_kpages\<close> of this VM system leaks the memory.\<close>

definition free_kpages :: "nat \<Rightarrow> kheap \<Rightarrow> (unit, kheap) out" where
  "free_kpages addr h = Ok () h"

section \<open>Page references\<close>

lemma push_bit_one: "push_bit j (1 :: u32) \<noteq> 0 \<longleftrightarrow> j < 32"
  by (simp add: push_bit_eq_mult exp_eq_zero_iff not_le)

function find_clear :: "u32 \<Rightarrow> nat \<Rightarrow> nat option" where
  "find_clear w j =
     (let k = push_bit j 1 in
      if k \<noteq> 0 then (if w AND k = 0 then Some j else find_clear w (Suc j)) else None)"
  by pat_completeness auto
termination by (relation "measure (\<lambda>(w, j). 32 - j)") (auto simp: push_bit_one)

declare find_clear.simps [simp del]

text \<open>\<open>None\<close> is the null pointer; \<open>KASSERT(0)\<close> is reached when a word that is not full has no clear bit.\<close>

function allocpageref_from :: "nat \<Rightarrow> kheap \<Rightarrow> (nat option, kheap) out" where
  "allocpageref_from i h =
     (if i < INUSE_WORDS then
        (if pagerefs_inuse h ! i = 0xffffffff then allocpageref_from (Suc i) h
         else
           (case find_clear (pagerefs_inuse h ! i) 0 of
              Some j \<Rightarrow> Ok (Some (i * 32 + j))
                (h\<lparr>pagerefs_inuse := (pagerefs_inuse h)[i := pagerefs_inuse h ! i OR push_bit j 1]\<rparr>)
            | None \<Rightarrow> Panic))
      else Ok None h)"
  by pat_completeness auto
termination by (relation "measure (\<lambda>(i, h). INUSE_WORDS - i)") auto

declare allocpageref_from.simps [simp del]

definition allocpageref :: "kheap \<Rightarrow> (nat option, kheap) out" where
  "allocpageref h = allocpageref_from 0 h"

definition freepageref :: "nat \<Rightarrow> kheap \<Rightarrow> (unit, kheap) out" where
  "freepageref p h =
     kassert (p < NPAGEREFS)
       (let i = p div 32; k = push_bit (p mod 32) 1 in
        kassert (pagerefs_inuse h ! i AND k \<noteq> 0)
          (Ok () (h\<lparr>pagerefs_inuse := (pagerefs_inuse h)[i := pagerefs_inuse h ! i AND NOT k]\<rparr>)))"

text \<open>
  The two loops of \<open>remove_lists\<close> walk a list with a pointer to the place that points to the current entry: the base of
  the list or the link field of an entry. A list has at most 256 entries, so a walk of more than 257
  steps goes round in a circle and never ends.
\<close>

datatype guy = Base | Field nat

definition get_same :: "nat \<Rightarrow> kheap \<Rightarrow> guy \<Rightarrow> nat option" where
  "get_same b h g = (case g of Base \<Rightarrow> sizebases h ! b | Field p \<Rightarrow> next_samesize (pagerefs h ! p))"

definition set_same :: "nat \<Rightarrow> guy \<Rightarrow> nat option \<Rightarrow> kheap \<Rightarrow> kheap" where
  "set_same b g v h =
     (case g of Base \<Rightarrow> h\<lparr>sizebases := (sizebases h)[b := v]\<rparr> | Field p \<Rightarrow> upd_pr p (\<lambda>pr. pr\<lparr>next_samesize := v\<rparr>) h)"

definition get_all :: "kheap \<Rightarrow> guy \<Rightarrow> nat option" where
  "get_all h g = (case g of Base \<Rightarrow> allbase h | Field p \<Rightarrow> next_all (pagerefs h ! p))"

definition set_all :: "guy \<Rightarrow> nat option \<Rightarrow> kheap \<Rightarrow> kheap" where
  "set_all g v h = (case g of Base \<Rightarrow> h\<lparr>allbase := v\<rparr> | Field p \<Rightarrow> upd_pr p (\<lambda>pr. pr\<lparr>next_all := v\<rparr>) h)"

fun unlink_loop :: "nat \<Rightarrow> (kheap \<Rightarrow> guy \<Rightarrow> nat option) \<Rightarrow> (guy \<Rightarrow> nat option \<Rightarrow> kheap \<Rightarrow> kheap) \<Rightarrow> nat \<Rightarrow> guy \<Rightarrow> kheap \<Rightarrow> (unit, kheap) out" where
  "unlink_loop 0 get put pr g h = Panic"
| "unlink_loop (Suc n) get put pr g h =
     (case get h g of
        None \<Rightarrow> Ok () h
      | Some p \<Rightarrow> if p = pr then Ok () (put g (get h (Field pr)) h) else unlink_loop n get put pr (Field p) h)"

definition remove_lists :: "nat \<Rightarrow> nat \<Rightarrow> kheap \<Rightarrow> (unit, kheap) out" where
  "remove_lists pr blktype h =
     kassert (blktype < NSIZES)
       (kbind (unlink_loop (Suc NPAGEREFS) (get_same blktype) (set_same blktype) pr Base h) (\<lambda>_ h.
          unlink_loop (Suc NPAGEREFS) get_all set_all pr Base h))"

section \<open>Blocks\<close>

definition fill_words :: "nat \<Rightarrow> nat \<Rightarrow> kheap \<Rightarrow> kheap" where
  "fill_words ptr n h = fold (\<lambda>i. store (ptr + 4 * i) 0xdeadbeef) [0..<n] h"

definition fill_deadbeef :: "nat \<Rightarrow> nat \<Rightarrow> kheap \<Rightarrow> kheap" where
  "fill_deadbeef vptr len h = fill_words vptr (len div 4) h"

function blocktype_from :: "nat \<Rightarrow> nat \<Rightarrow> nat option" where
  "blocktype_from i sz = (if i < NSIZES then (if sz \<le> sizes ! i then Some i else blocktype_from (Suc i) sz) else None)"
  by pat_completeness auto
termination by (relation "measure (\<lambda>(i, sz). NSIZES - i)") auto

declare blocktype_from.simps [simp del]

text \<open>\<open>None\<close> is the panic of the code.\<close>

definition blocktype :: "nat \<Rightarrow> nat option" where
  "blocktype sz = blocktype_from 0 sz"

text \<open>The search of \<open>subpage_kmalloc\<close> for a page with a free block.\<close>

fun search_loop :: "nat \<Rightarrow> nat \<Rightarrow> nat option \<Rightarrow> kheap \<Rightarrow> (nat option, kheap) out" where
  "search_loop 0 blktype pr h = Panic"
| "search_loop (Suc n) blktype pr h =
     (case pr of
        None \<Rightarrow> Ok None h
      | Some p \<Rightarrow>
          kassert (PR_BLOCKTYPE (pagerefs h ! p) = blktype)
            (if nfree (pagerefs h ! p) > 0 then Ok (Some p) h
             else search_loop n blktype (next_samesize (pagerefs h ! p)) h))"

text \<open>Taking the first free block of a page, from the label \<open>doalloc\<close> on.\<close>

definition doalloc :: "nat \<Rightarrow> nat \<Rightarrow> kheap \<Rightarrow> (nat, kheap) out" where
  "doalloc c p h =
     kassert (freelist_offset (pagerefs h ! p) < PAGE_SIZE)
       (let prpage = PR_PAGEADDR (pagerefs h ! p);
            retptr = wadd32 prpage (freelist_offset (pagerefs h ! p));
            fl = mem h retptr;
            h = upd_pr p (\<lambda>pr. pr\<lparr>nfree := (nfree pr + 0xffff) mod 2 ^ 16\<rparr>) h
        in kbind
             (if fl \<noteq> 0 then
                kassert (nfree (pagerefs h ! p) > 0)
                  (kassert (wsub32 fl prpage < PAGE_SIZE)
                    (Ok () (upd_pr p (\<lambda>pr. pr\<lparr>freelist_offset := wsub32 fl prpage mod 2 ^ 16\<rparr>) h)))
              else
                kassert (nfree (pagerefs h ! p) = 0)
                  (Ok () (upd_pr p (\<lambda>pr. pr\<lparr>freelist_offset := INVALID_OFFSET\<rparr>) h)))
             (\<lambda>_ h. spinlock_release c (kmalloc_spinlock h) (\<lambda>lk. Ok retptr (h\<lparr>kmalloc_spinlock := lk\<rparr>))))"

text \<open>The loop that links the blocks of a new page, from block \<open>i\<close> on, with \<open>fl\<close> the block before; it returns the last one.\<close>

function link_blocks :: "nat \<Rightarrow> nat \<Rightarrow> nat \<Rightarrow> nat \<Rightarrow> nat \<Rightarrow> kheap \<Rightarrow> (nat, kheap) out" where
  "link_blocks i n sz fla fl h =
     (if i < n then
        (let fl = wadd32 fla (i * sz); next = wadd32 fla ((i - 1) * sz) in
         kassert (fl \<noteq> next) (link_blocks (Suc i) n sz fla fl (store fl next h)))
      else Ok fl h)"
  by pat_completeness auto
termination by (relation "measure (\<lambda>(i, n, sz, fla, fl, h). n - i)") auto

declare link_blocks.simps [simp del]

text \<open>A page \<open>prpage\<close> fresh from \<open>alloc_kpages\<close> becomes a page of blocks of type \<open>blktype\<close>.\<close>

text \<open>The part of \<open>subpage_kmalloc\<close> that fills in the reference \<open>p\<close> for the new page.\<close>

definition page_setup :: "nat \<Rightarrow> nat \<Rightarrow> nat \<Rightarrow> nat \<Rightarrow> kheap \<Rightarrow> (nat, kheap) out" where
  "page_setup c blktype prpage p h =
     (let sz = sizes ! blktype;
          h = upd_pr p (\<lambda>pr. pr\<lparr>pageaddr_and_blocktype := MKPAB prpage blktype, nfree := (PAGE_SIZE div sz) mod 2 ^ 16\<rparr>) h
      in kbind (link_blocks 1 (nfree (pagerefs h ! p)) sz prpage prpage (store prpage 0 h)) (\<lambda>fl h.
           let h = upd_pr p (\<lambda>pr. pr\<lparr>freelist_offset := wsub32 fl prpage mod 2 ^ 16\<rparr>) h in
           kassert (freelist_offset (pagerefs h ! p) = (nfree (pagerefs h ! p) - 1) * sz)
             (let h = upd_pr p (\<lambda>pr. pr\<lparr>next_samesize := sizebases h ! blktype\<rparr>) h;
                  h = h\<lparr>sizebases := (sizebases h)[blktype := Some p]\<rparr>;
                  h = upd_pr p (\<lambda>pr. pr\<lparr>next_all := allbase h\<rparr>) h;
                  h = h\<lparr>allbase := Some p\<rparr>
              in doalloc c p h)))"

definition new_page :: "nat \<Rightarrow> nat \<Rightarrow> nat \<Rightarrow> kheap \<Rightarrow> (nat, kheap) out" where
  "new_page c blktype prpage h =
     spinlock_acquire c (kmalloc_spinlock h) (\<lambda>lk.
       kbind (allocpageref (h\<lparr>kmalloc_spinlock := lk\<rparr>)) (\<lambda>pr h.
         case pr of
           None \<Rightarrow> spinlock_release c (kmalloc_spinlock h) (\<lambda>lk.
             kbind (free_kpages prpage (h\<lparr>kmalloc_spinlock := lk\<rparr>)) (\<lambda>_ h. Ok 0 h))
         | Some p \<Rightarrow> page_setup c blktype prpage p h))"

definition subpage_kmalloc :: "nat \<Rightarrow> nat \<Rightarrow> kheap \<Rightarrow> (nat, kheap) out" where
  "subpage_kmalloc c sz h =
     deref (blocktype sz) (\<lambda>blktype.
       spinlock_acquire c (kmalloc_spinlock h) (\<lambda>lk.
         kbind (search_loop (Suc NPAGEREFS) blktype (sizebases h ! blktype) (h\<lparr>kmalloc_spinlock := lk\<rparr>)) (\<lambda>pr h.
           case pr of
             Some p \<Rightarrow> doalloc c p h
           | None \<Rightarrow> spinlock_release c (kmalloc_spinlock h) (\<lambda>lk.
               kbind (alloc_kpages c 1 (h\<lparr>kmalloc_spinlock := lk\<rparr>)) (\<lambda>prpage h.
                 if prpage = 0 then Ok 0 h else new_page c blktype prpage h)))))"

text \<open>The search of \<open>subpage_kfree\<close> for the page a pointer is on.\<close>

fun page_loop :: "nat \<Rightarrow> nat \<Rightarrow> nat option \<Rightarrow> kheap \<Rightarrow> (nat option, kheap) out" where
  "page_loop 0 ptraddr pr h = Panic"
| "page_loop (Suc n) ptraddr pr h =
     (case pr of
        None \<Rightarrow> Ok None h
      | Some p \<Rightarrow>
          let prpage = PR_PAGEADDR (pagerefs h ! p) in
          kassert (PR_BLOCKTYPE (pagerefs h ! p) < NSIZES)
            (if ptraddr \<ge> prpage \<and> ptraddr < wadd32 prpage PAGE_SIZE then Ok (Some p) h
             else page_loop n ptraddr (next_all (pagerefs h ! p)) h))"

text \<open>\<open>True\<close> is the result 0, \<open>False\<close> the result -1: the pointer is on none of our pages.\<close>

definition subpage_kfree :: "nat \<Rightarrow> nat \<Rightarrow> kheap \<Rightarrow> (bool, kheap) out" where
  "subpage_kfree c ptr h =
     spinlock_acquire c (kmalloc_spinlock h) (\<lambda>lk.
       kbind (page_loop (Suc NPAGEREFS) ptr (allbase h) (h\<lparr>kmalloc_spinlock := lk\<rparr>)) (\<lambda>pr h.
         case pr of
           None \<Rightarrow> spinlock_release c (kmalloc_spinlock h) (\<lambda>lk. Ok False (h\<lparr>kmalloc_spinlock := lk\<rparr>))
         | Some p \<Rightarrow>
             let prpage = PR_PAGEADDR (pagerefs h ! p);
                 blktype = PR_BLOCKTYPE (pagerefs h ! p);
                 sz = sizes ! blktype;
                 offset = wsub32 ptr prpage
             in if offset \<ge> PAGE_SIZE \<or> offset mod sz \<noteq> 0 then Panic
                else
                  let h = fill_deadbeef ptr sz h;
                      off = freelist_offset (pagerefs h ! p);
                      h = store (wadd32 prpage offset) (if off = INVALID_OFFSET then 0 else wadd32 prpage off) h;
                      h = upd_pr p (\<lambda>pr. pr\<lparr>freelist_offset := offset mod 2 ^ 16, nfree := (nfree pr + 1) mod 2 ^ 16\<rparr>) h
                  in kassert (nfree (pagerefs h ! p) \<le> PAGE_SIZE div sz)
                       (if nfree (pagerefs h ! p) = PAGE_SIZE div sz then
                          kbind (remove_lists p blktype h) (\<lambda>_ h.
                          kbind (freepageref p h) (\<lambda>_ h.
                          spinlock_release c (kmalloc_spinlock h) (\<lambda>lk.
                            kbind (free_kpages prpage (h\<lparr>kmalloc_spinlock := lk\<rparr>)) (\<lambda>_ h. Ok True h))))
                        else spinlock_release c (kmalloc_spinlock h) (\<lambda>lk. Ok True (h\<lparr>kmalloc_spinlock := lk\<rparr>)))))"

section \<open>The interface\<close>

text \<open>The null pointer is 0. \<open>alloc_kpages\<close> takes an \<open>int\<close>; the page counts here are below \<open>2^20\<close>.\<close>

definition kmalloc :: "nat \<Rightarrow> nat \<Rightarrow> kheap \<Rightarrow> (nat, kheap) out" where
  "kmalloc c sz h =
     (if sz \<ge> LARGEST_SUBPAGE_SIZE then alloc_kpages c (wsub32 (wadd32 sz PAGE_SIZE) 1 div PAGE_SIZE) h
      else subpage_kmalloc c sz h)"

definition kfree :: "nat \<Rightarrow> nat \<Rightarrow> kheap \<Rightarrow> (unit, kheap) out" where
  "kfree c ptr h =
     (if ptr = 0 then Ok () h
      else kbind (subpage_kfree c ptr h) (\<lambda>done h.
        if \<not> done then kassert (ptr mod PAGE_SIZE = 0) (free_kpages ptr h) else Ok () h))"

end
