(* ===== verification/KmallocInv.thy ===== *)
theory KmallocInv
  imports Kmalloc
begin

text \<open>
  The invariant of the kernel heap and what its operations do to it.
\<close>

section \<open>Linked lists, block sizes and addresses\<close>

fun chain :: "('a \<Rightarrow> 'a option) \<Rightarrow> 'a option \<Rightarrow> 'a list \<Rightarrow> bool" where
  "chain f p [] \<longleftrightarrow> p = None"
| "chain f p (x # xs) \<longleftrightarrow> p = Some x \<and> chain f (f x) xs"

lemma chain_cong: "(\<And>x. x \<in> set xs \<Longrightarrow> f x = g x) \<Longrightarrow> chain f p xs = chain g p xs"
  by (induction xs arbitrary: p) auto

lemma chain_None [simp]: "chain f None xs \<longleftrightarrow> xs = []"
  by (cases xs) auto

lemma chain_Some: "chain f (Some x) xs \<longleftrightarrow> (\<exists>ys. xs = x # ys \<and> chain f (f x) ys)"
  by (cases xs) auto

lemma chain_remove:
  assumes "chain f p (xs @ y # ys)" "distinct (xs @ y # ys)" "xs \<noteq> []"
  shows "chain (f(last xs := f y)) p (xs @ ys)"
  using assms
proof (induction xs arbitrary: p)
  case (Cons x xs)
  show ?case
  proof (cases "xs = []")
    case True
    then have "chain f (f y) ys" "x \<notin> set ys" using Cons.prems by auto
    then have "chain (f(x := f y)) (f y) ys" using chain_cong [of ys "f(x := f y)" f] by fastforce
    then show ?thesis using True Cons.prems by (simp add: fun_upd_def)
  next
    case False
    then have "x \<noteq> last xs" using Cons.prems(2) last_in_set [OF False] by auto
    then show ?thesis using Cons.IH [of "f x"] Cons.prems False by auto
  qed
qed simp

lemma sizes_eq: "b < 8 \<Longrightarrow> sizes ! b = 2 ^ (b + 4)"
proof -
  assume "b < 8"
  then have "b \<in> {0, 1, 2, 3, 4, 5, 6, 7}" by auto
  then show ?thesis by (auto simp: sizes_def)
qed

lemma sizes_facts:
  assumes "b < 8"
  shows "sizes ! b * (4096 div sizes ! b) = 4096" "16 dvd sizes ! b" "16 \<le> sizes ! b" "sizes ! b \<le> 2048" "2 \<le> 4096 div sizes ! b"
    "4096 div sizes ! b \<le> 256" "4 dvd sizes ! b" "sizes ! b mod 16 = 0"
proof -
  have "b \<in> {0, 1, 2, 3, 4, 5, 6, 7}" using assms by auto
  then show "sizes ! b * (4096 div sizes ! b) = 4096" "16 dvd sizes ! b" "16 \<le> sizes ! b" "sizes ! b \<le> 2048" "2 \<le> 4096 div sizes ! b"
    "4096 div sizes ! b \<le> 256" "4 dvd sizes ! b" "sizes ! b mod 16 = 0" by (auto simp: sizes_def)
qed

lemma and_frame: "x < 2 ^ 32 \<Longrightarrow> x AND PAGE_FRAME = x - x mod 4096"
proof -
  assume x: "x < 2 ^ 32"
  have "x AND PAGE_FRAME = push_bit 12 (take_bit 20 (drop_bit 12 x))"
  proof (rule bit_eqI)
    fix n
    have f: "PAGE_FRAME = push_bit 12 (mask 20)" by (simp add: PAGE_FRAME_def mask_eq_exp_minus_1 push_bit_eq_mult)
    show "bit (x AND PAGE_FRAME) n = bit (push_bit 12 (take_bit 20 (drop_bit 12 x))) n"
      unfolding f by (auto simp: bit_simps)
  qed
  moreover have "take_bit 20 (drop_bit 12 x) = x div 4096"
    using x by (simp add: take_bit_eq_mod drop_bit_eq_div div_less_iff_less_mult)
  ultimately show ?thesis by (simp add: push_bit_eq_mult minus_mod_eq_div_mult)
qed

lemma and_offset: "x AND (2 ^ 32 - 1 - PAGE_FRAME) = x mod 4096"
proof -
  have "2 ^ 32 - 1 - PAGE_FRAME = mask 12" by (simp add: PAGE_FRAME_def mask_eq_exp_minus_1)
  then show ?thesis by (simp add: take_bit_eq_mask [symmetric] take_bit_eq_mod)
qed

lemma MKPAB_eq: "pa < 2 ^ 32 \<Longrightarrow> pa mod 4096 = 0 \<Longrightarrow> b < 4096 \<Longrightarrow> MKPAB pa b = pa + b"
proof -
  assume pa: "pa < 2 ^ 32" "pa mod 4096 = 0" "b < 4096"
  have "MKPAB pa b = pa OR b" using pa unfolding MKPAB_def and_offset by (simp add: and_frame)
  moreover have "pa AND b = 0"
  proof (rule bit_eqI)
    fix n
    have "take_bit 12 pa = 0" "take_bit 12 b = b" using pa by (simp_all add: take_bit_eq_mod)
    then have "bit pa n \<Longrightarrow> 12 \<le> n" "bit b n \<Longrightarrow> n < 12" by (metis bit_take_bit_iff bit_0_eq bot_apply bot_bool_def leI) (metis \<open>take_bit 12 b = b\<close> bit_take_bit_iff)
    then show "bit (pa AND b) n = bit 0 n" by (auto simp: bit_simps)
  qed
  ultimately show ?thesis using disjunctive_add_eq_or [of pa b] by simp
qed

section \<open>The table of page references\<close>

definition inuse :: "kheap \<Rightarrow> nat set" where
  "inuse h = {p. p < NPAGEREFS \<and> bit (pagerefs_inuse h ! (p div 32)) (p mod 32)}"

lemma and_bit_zero: "w AND 2 ^ j = (0 :: u32) \<longleftrightarrow> \<not> bit w j"
  by (rule and_exp_eq_0_iff_not_bit)

lemma exp_nonzero: "(2 :: u32) ^ j = 0 \<longleftrightarrow> 32 \<le> j"
  by (simp add: exp_eq_zero_iff)

lemma no_high_bits: "32 \<le> j \<Longrightarrow> \<not> bit (w :: u32) j"
  using bit_imp_le_length [of w j] by auto

lemma find_clear_spec:
  "case find_clear w j of None \<Rightarrow> \<forall>k. j \<le> k \<and> k < 32 \<longrightarrow> bit w k | Some k \<Rightarrow> k < 32 \<and> \<not> bit w k"
proof (induction w j rule: find_clear.induct)
  case (1 w j)
  show ?case
  proof (cases "j < 32 \<and> bit w j")
    case True
    then have e: "find_clear w j = find_clear w (Suc j)"
      by (subst find_clear.simps) (simp add: exp_nonzero and_bit_zero Let_def)
    have "case find_clear w (Suc j) of None \<Rightarrow> \<forall>k. Suc j \<le> k \<and> k < 32 \<longrightarrow> bit w k | Some k \<Rightarrow> k < 32 \<and> \<not> bit w k"
      using 1 [of "push_bit j 1"] True by (simp add: exp_nonzero and_bit_zero)
    then show ?thesis using True unfolding e by (auto split: option.splits) (metis le_neq_implies_less Suc_leI)
  next
    case False
    then show ?thesis by (subst find_clear.simps) (auto simp: exp_nonzero and_bit_zero Let_def no_high_bits)
  qed
qed

lemma full_word: "(\<forall>k < 32. bit w k) \<longleftrightarrow> w = (0xffffffff :: u32)"
proof
  assume "\<forall>k < 32. bit w k"
  then have "w = mask 32" by (intro bit_word_eqI) (simp add: bit_simps)
  then show "w = 0xffffffff" by (simp add: mask_eq_exp_minus_1)
next
  assume "w = 0xffffffff"
  then have "w = mask 32" by (simp add: mask_eq_exp_minus_1)
  then show "\<forall>k < 32. bit w k" by (simp add: bit_simps)
qed

lemma inuse_set:
  assumes "length (pagerefs_inuse h) = 8" "i < 8" "j < 32"
  shows "inuse (h\<lparr>pagerefs_inuse := (pagerefs_inuse h)[i := pagerefs_inuse h ! i OR push_bit j 1]\<rparr>) = insert (i * 32 + j) (inuse h)"
    "inuse (h\<lparr>pagerefs_inuse := (pagerefs_inuse h)[i := pagerefs_inuse h ! i AND NOT (push_bit j 1)]\<rparr>) = inuse h - {i * 32 + j}"
proof -
  have e: "p = i * 32 + j \<longleftrightarrow> p div 32 = i \<and> p mod 32 = j" for p using assms(3) by (metis div_mult_mod_eq div_mult_self3 mod_mult_self3 div_less mod_less add.right_neutral add_0 zero_neq_numeral)
  have n: "NPAGEREFS = 256" by (simp add: NPAGEREFS_def PAGE_SIZE_def)
  have "i * 32 + j < 256" using assms(2,3) by simp
  then show "inuse (h\<lparr>pagerefs_inuse := (pagerefs_inuse h)[i := pagerefs_inuse h ! i OR push_bit j 1]\<rparr>) = insert (i * 32 + j) (inuse h)"
    "inuse (h\<lparr>pagerefs_inuse := (pagerefs_inuse h)[i := pagerefs_inuse h ! i AND NOT (push_bit j 1)]\<rparr>) = inuse h - {i * 32 + j}"
    using assms by (auto simp: inuse_def n e bit_simps nth_list_update split: if_splits)
qed

lemma allocpageref_from_spec:
  assumes l: "length (pagerefs_inuse h) = 8"
  shows "\<exists>r ws. allocpageref_from i h = Ok r (h\<lparr>pagerefs_inuse := ws\<rparr>) \<and> length ws = 8 \<and>
    (case r of None \<Rightarrow> ws = pagerefs_inuse h \<and> (\<forall>p. 32 * i \<le> p \<and> p < NPAGEREFS \<longrightarrow> p \<in> inuse h)
     | Some p \<Rightarrow> p < NPAGEREFS \<and> p \<notin> inuse h \<and> inuse (h\<lparr>pagerefs_inuse := ws\<rparr>) = insert p (inuse h))"
  using l
proof (induction i h rule: allocpageref_from.induct)
  case (1 i h)
  have n: "NPAGEREFS = 256" "INUSE_WORDS = 8" by (simp_all add: NPAGEREFS_def INUSE_WORDS_def PAGE_SIZE_def)
  consider (past) "8 \<le> i" | (full) "i < 8" "pagerefs_inuse h ! i = 0xffffffff" | (free) "i < 8" "pagerefs_inuse h ! i \<noteq> 0xffffffff" by linarith
  then show ?case
  proof cases
    case past
    then show ?thesis by (subst allocpageref_from.simps) (auto simp: n intro!: exI [of _ "pagerefs_inuse h"] 1)
  next
    case full
    have e: "allocpageref_from i h = allocpageref_from (Suc i) h" using full by (subst allocpageref_from.simps) (simp add: n)
    have f: "p \<in> inuse h" if "32 * i \<le> p" "p < 32 * Suc i" for p
    proof -
      have "p div 32 = i" using that by auto
      then show ?thesis using full that full_word [of "pagerefs_inuse h ! i"] by (auto simp: inuse_def n)
    qed
    obtain r ws where r: "allocpageref_from (Suc i) h = Ok r (h\<lparr>pagerefs_inuse := ws\<rparr>)" "length ws = 8"
      "case r of None \<Rightarrow> ws = pagerefs_inuse h \<and> (\<forall>p. 32 * Suc i \<le> p \<and> p < NPAGEREFS \<longrightarrow> p \<in> inuse h)
       | Some p \<Rightarrow> p < NPAGEREFS \<and> p \<notin> inuse h \<and> inuse (h\<lparr>pagerefs_inuse := ws\<rparr>) = insert p (inuse h)"
      using 1 full by (auto simp: n)
    have "case r of None \<Rightarrow> ws = pagerefs_inuse h \<and> (\<forall>p. 32 * i \<le> p \<and> p < NPAGEREFS \<longrightarrow> p \<in> inuse h)
       | Some p \<Rightarrow> p < NPAGEREFS \<and> p \<notin> inuse h \<and> inuse (h\<lparr>pagerefs_inuse := ws\<rparr>) = insert p (inuse h)"
    proof (cases r)
      case None
      then have "p \<in> inuse h" if "32 * i \<le> p" "p < NPAGEREFS" for p using r(3) f [of p] that by (cases "p < 32 * Suc i") auto
      then show ?thesis using None r(3) by simp
    qed (use r(3) in simp)
    then show ?thesis unfolding e r(1) by (intro exI [of _ r] exI [of _ ws] conjI refl r(2))
  next
    case free
    then obtain j where j: "find_clear (pagerefs_inuse h ! i) 0 = Some j" "j < 32" "\<not> bit (pagerefs_inuse h ! i) j"
      using find_clear_spec [of 0 "pagerefs_inuse h ! i"] full_word [of "pagerefs_inuse h ! i"] by (auto split: option.splits)
    have e: "allocpageref_from i h = Ok (Some (i * 32 + j)) (h\<lparr>pagerefs_inuse := (pagerefs_inuse h)[i := pagerefs_inuse h ! i OR push_bit j 1]\<rparr>)"
      using free j(1) by (subst allocpageref_from.simps) (simp add: n)
    have "i * 32 + j \<notin> inuse h" using j by (simp add: inuse_def)
    moreover have "i * 32 + j < NPAGEREFS" using free j(2) by (simp add: n)
    ultimately show ?thesis using e inuse_set(1) [OF 1(2) free(1) j(2)] 1(2)
      by (intro exI [of _ "Some (i * 32 + j)"] exI [of _ "(pagerefs_inuse h)[i := pagerefs_inuse h ! i OR push_bit j 1]"]) simp
  qed
qed

lemma allocpageref_spec:
  assumes "length (pagerefs_inuse h) = 8"
  obtains (full) "allocpageref h = Ok None h" "inuse h = {..<NPAGEREFS}"
  | (found) p ws where "allocpageref h = Ok (Some p) (h\<lparr>pagerefs_inuse := ws\<rparr>)" "length ws = 8" "p < NPAGEREFS" "p \<notin> inuse h"
      "inuse (h\<lparr>pagerefs_inuse := ws\<rparr>) = insert p (inuse h)"
proof -
  obtain r ws where r: "allocpageref_from 0 h = Ok r (h\<lparr>pagerefs_inuse := ws\<rparr>)" "length ws = 8"
    "case r of None \<Rightarrow> ws = pagerefs_inuse h \<and> (\<forall>p. 32 * 0 \<le> p \<and> p < NPAGEREFS \<longrightarrow> p \<in> inuse h)
     | Some p \<Rightarrow> p < NPAGEREFS \<and> p \<notin> inuse h \<and> inuse (h\<lparr>pagerefs_inuse := ws\<rparr>) = insert p (inuse h)"
    using allocpageref_from_spec [OF assms] by blast
  show thesis
  proof (cases r)
    case None
    moreover have "inuse h \<subseteq> {..<NPAGEREFS}" by (auto simp: inuse_def)
    ultimately show ?thesis using r by (intro full) (auto simp: allocpageref_def)
  next
    case (Some p)
    then show ?thesis using r by (intro found [of p ws]) (simp_all add: allocpageref_def)
  qed
qed

lemma freepageref_spec:
  assumes "length (pagerefs_inuse h) = 8" "p \<in> inuse h"
  shows "\<exists>ws. freepageref p h = Ok () (h\<lparr>pagerefs_inuse := ws\<rparr>) \<and> length ws = 8 \<and> inuse (h\<lparr>pagerefs_inuse := ws\<rparr>) = inuse h - {p}"
proof -
  have p: "p < 256" "bit (pagerefs_inuse h ! (p div 32)) (p mod 32)" using assms(2) by (simp_all add: inuse_def NPAGEREFS_def PAGE_SIZE_def)
  then have "pagerefs_inuse h ! (p div 32) AND push_bit (p mod 32) 1 \<noteq> 0" by (simp add: and_bit_zero)
  then show ?thesis using inuse_set(2) [OF assms(1), of "p div 32" "p mod 32"] p assms(1)
    by (auto simp: freepageref_def NPAGEREFS_def PAGE_SIZE_def Let_def)
qed

section \<open>The invariant\<close>

text \<open>What the links of the heap stand for: the page references in use in the order of the list of all of them and of the
  lists by block size, and the free blocks of each page in the order of its free list.\<close>

record gheap =
  g_all :: "nat list"
  g_same :: "nat \<Rightarrow> nat list"
  g_free :: "nat \<Rightarrow> nat list"

definition ptr :: "nat \<Rightarrow> nat option" where
  "ptr a = (if a = 0 then None else Some a)"

abbreviation pr_of :: "kheap \<Rightarrow> nat \<Rightarrow> pageref" where "pr_of h p \<equiv> pagerefs h ! p"

definition slots :: "nat \<Rightarrow> nat \<Rightarrow> nat set" where
  "slots pa sz = (\<lambda>k. pa + k * sz) ` {..<4096 div sz}"

definition pr_ok :: "nat \<Rightarrow> (nat \<Rightarrow> nat) \<Rightarrow> pageref \<Rightarrow> nat list \<Rightarrow> bool" where
  "pr_ok hi m pr fl \<longleftrightarrow>
     PR_BLOCKTYPE pr < 8 \<and> PR_PAGEADDR pr mod 4096 = 0 \<and> MIPS_KSEG0 < PR_PAGEADDR pr \<and> PR_PAGEADDR pr + 4096 \<le> MIPS_KSEG0 + hi \<and>
     distinct fl \<and> set fl \<subseteq> slots (PR_PAGEADDR pr) (sizes ! PR_BLOCKTYPE pr) \<and> nfree pr = length fl \<and>
     freelist_offset pr = (case fl of [] \<Rightarrow> INVALID_OFFSET | a # _ \<Rightarrow> a - PR_PAGEADDR pr) \<and>
     chain (\<lambda>a. ptr (m a)) (case fl of [] \<Rightarrow> None | a # _ \<Rightarrow> Some a) fl"

definition ram_ok :: "kheap \<Rightarrow> bool" where
  "ram_ok h \<longleftrightarrow> stealmem_lock h = None \<and> firstpaddr h mod 4096 = 0 \<and> 0 < firstpaddr h \<and> firstpaddr h \<le> lastpaddr h \<and> lastpaddr h \<le> 508 * 1024 * 1024"

definition lists_ok :: "kheap \<Rightarrow> gheap \<Rightarrow> bool" where
  "lists_ok h g \<longleftrightarrow> length (pagerefs h) = 256 \<and> length (pagerefs_inuse h) = 8 \<and> length (sizebases h) = 8 \<and>
     chain (\<lambda>p. next_all (pr_of h p)) (allbase h) (g_all g) \<and> distinct (g_all g) \<and> set (g_all g) = inuse h \<and>
     (\<forall>b < 8. chain (\<lambda>p. next_samesize (pr_of h p)) (sizebases h ! b) (g_same g b) \<and> distinct (g_same g b) \<and>
        set (g_same g b) = {p \<in> inuse h. PR_BLOCKTYPE (pr_of h p) = b})"

definition pages_ok :: "kheap \<Rightarrow> gheap \<Rightarrow> bool" where
  "pages_ok h g \<longleftrightarrow> (\<forall>p \<in> inuse h. pr_ok (firstpaddr h) (mem h) (pr_of h p) (g_free g p)) \<and>
     (\<forall>p \<in> inuse h. \<forall>q \<in> inuse h. PR_PAGEADDR (pr_of h p) = PR_PAGEADDR (pr_of h q) \<longrightarrow> p = q)"

definition heap_inv :: "kheap \<Rightarrow> gheap \<Rightarrow> bool" where
  "heap_inv h g \<longleftrightarrow> ram_ok h \<and> lists_ok h g \<and> pages_ok h g"

text \<open>Between calls the lock is free and no page is wholly free.\<close>

definition page_used :: "pageref \<Rightarrow> nat list \<Rightarrow> bool" where
  "page_used pr fl \<longleftrightarrow> length fl < 4096 div sizes ! PR_BLOCKTYPE pr"

definition heap_ok :: "kheap \<Rightarrow> gheap \<Rightarrow> bool" where
  "heap_ok h g \<longleftrightarrow> heap_inv h g \<and> kmalloc_spinlock h = None \<and> (\<forall>p \<in> inuse h. page_used (pr_of h p) (g_free g p))"

lemma sizes_of_tables [simp]: "NPAGEREFS = 256" "PAGE_SIZE = 4096" "NSIZES = 8"
  by (simp_all add: NPAGEREFS_def PAGE_SIZE_def NSIZES_def)

lemma slots_card: "b < 8 \<Longrightarrow> finite (slots pa (sizes ! b)) \<and> card (slots pa (sizes ! b)) = 4096 div sizes ! b"
  using sizes_facts(3) [of b] by (auto simp: slots_def card_image inj_on_def)

lemma slot_bounds:
  assumes "b < 8" "a \<in> slots pa (sizes ! b)"
  shows "pa \<le> a" "a + sizes ! b \<le> pa + 4096" "(a - pa) mod sizes ! b = 0" "pa mod 16 = 0 \<Longrightarrow> a mod 16 = 0"
proof -
  obtain k where k: "k < 4096 div sizes ! b" "a = pa + k * sizes ! b" using assms(2) by (auto simp: slots_def)
  have "(k + 1) * sizes ! b \<le> 4096 div sizes ! b * sizes ! b" using k(1) by (intro mult_le_mono1) simp
  then show "pa \<le> a" "a + sizes ! b \<le> pa + 4096" "(a - pa) mod sizes ! b = 0"
    using k sizes_facts(1) [OF assms(1)] by (simp_all add: mult.commute)
  have "16 dvd k * sizes ! b" using sizes_facts(2) [OF assms(1)] by simp
  then show "pa mod 16 = 0 \<Longrightarrow> a mod 16 = 0" using k(2) by (metis dvd_add mod_0_imp_dvd dvd_imp_mod_0)
qed

lemma slot_apart:
  assumes b: "b < 8" and a: "a \<in> slots pa (sizes ! b)" "a' \<in> slots pa (sizes ! b)" "a < a'"
  shows "a + sizes ! b \<le> a'"
proof -
  obtain k k' where k: "a = pa + k * sizes ! b" "a' = pa + k' * sizes ! b" using a(1,2) by (auto simp: slots_def)
  then have "k < k'" using a(3) by (metis add_less_cancel_left mult_less_cancel2)
  then have "(k + 1) * sizes ! b \<le> k' * sizes ! b" by (intro mult_le_mono1) simp
  then show ?thesis using k by simp
qed

lemma slotI: "b < 8 \<Longrightarrow> pa \<le> a \<Longrightarrow> a < pa + 4096 \<Longrightarrow> (a - pa) mod sizes ! b = 0 \<Longrightarrow> a \<in> slots pa (sizes ! b)"
proof -
  assume h: "b < 8" "pa \<le> a" "a < pa + 4096" "(a - pa) mod sizes ! b = 0"
  then have "a = pa + (a - pa) div sizes ! b * sizes ! b" by (metis le_add_diff_inverse mod_0_imp_dvd dvd_div_mult_self)
  moreover have "(a - pa) div sizes ! b < 4096 div sizes ! b"
    by (rule less_mult_imp_div_less) (use h(2,3) sizes_facts(1) [OF h(1)] in \<open>simp add: mult.commute\<close>)
  ultimately show ?thesis unfolding slots_def by blast
qed

section \<open>Walks through the lists\<close>

lemma search_loop_spec:
  assumes "chain (\<lambda>p. next_samesize (pr_of h p)) q ps" "\<And>p. p \<in> set ps \<Longrightarrow> PR_BLOCKTYPE (pr_of h p) = b" "length ps < n"
  shows "search_loop n b q h = Ok (find (\<lambda>p. nfree (pr_of h p) > 0) ps) h"
  using assms
proof (induction ps arbitrary: n q)
  case Nil
  then show ?case by (cases n) auto
next
  case (Cons p ps)
  then show ?case by (cases n) auto
qed

lemma page_loop_spec:
  assumes "chain (\<lambda>p. next_all (pr_of h p)) q ps" "\<And>p. p \<in> set ps \<Longrightarrow> PR_BLOCKTYPE (pr_of h p) < 8"
    "\<And>p. p \<in> set ps \<Longrightarrow> PR_PAGEADDR (pr_of h p) + 4096 < 2 ^ 32" "length ps < n"
  shows "page_loop n a q h = Ok (find (\<lambda>p. PR_PAGEADDR (pr_of h p) \<le> a \<and> a < PR_PAGEADDR (pr_of h p) + 4096) ps) h"
  using assms
proof (induction ps arbitrary: n q)
  case Nil
  then show ?case by (cases n) auto
next
  case (Cons p ps)
  then show ?case by (cases n) (auto simp: Let_def)
qed

section \<open>Changing one page\<close>

lemma upd_pr_sel [simp]: "pagerefs (upd_pr p f h) = (pagerefs h)[p := f (pr_of h p)]" "pagerefs_inuse (upd_pr p f h) = pagerefs_inuse h"
  "sizebases (upd_pr p f h) = sizebases h" "allbase (upd_pr p f h) = allbase h" "kmalloc_spinlock (upd_pr p f h) = kmalloc_spinlock h"
  "stealmem_lock (upd_pr p f h) = stealmem_lock h" "firstpaddr (upd_pr p f h) = firstpaddr h" "lastpaddr (upd_pr p f h) = lastpaddr h"
  "mem (upd_pr p f h) = mem h"
  by (simp_all add: upd_pr_def)

lemma store_sel [simp]: "pagerefs (store a v h) = pagerefs h" "pagerefs_inuse (store a v h) = pagerefs_inuse h"
  "sizebases (store a v h) = sizebases h" "allbase (store a v h) = allbase h" "kmalloc_spinlock (store a v h) = kmalloc_spinlock h"
  "stealmem_lock (store a v h) = stealmem_lock h" "firstpaddr (store a v h) = firstpaddr h" "lastpaddr (store a v h) = lastpaddr h"
  "mem (store a v h) = (mem h)(a := v)"
  by (simp_all add: store_def)

lemma pab_sel [simp]: "PR_PAGEADDR (pr\<lparr>nfree := n\<rparr>) = PR_PAGEADDR pr" "PR_PAGEADDR (pr\<lparr>freelist_offset := n\<rparr>) = PR_PAGEADDR pr"
  "PR_PAGEADDR (pr\<lparr>next_all := q\<rparr>) = PR_PAGEADDR pr" "PR_PAGEADDR (pr\<lparr>next_samesize := q\<rparr>) = PR_PAGEADDR pr"
  "PR_BLOCKTYPE (pr\<lparr>nfree := n\<rparr>) = PR_BLOCKTYPE pr" "PR_BLOCKTYPE (pr\<lparr>freelist_offset := n\<rparr>) = PR_BLOCKTYPE pr"
  "PR_BLOCKTYPE (pr\<lparr>next_all := q\<rparr>) = PR_BLOCKTYPE pr" "PR_BLOCKTYPE (pr\<lparr>next_samesize := q\<rparr>) = PR_BLOCKTYPE pr"
  by (simp_all add: PR_PAGEADDR_def PR_BLOCKTYPE_def)

lemma pab_eq: "pageaddr_and_blocktype pr' = pageaddr_and_blocktype pr \<Longrightarrow> PR_PAGEADDR pr' = PR_PAGEADDR pr \<and> PR_BLOCKTYPE pr' = PR_BLOCKTYPE pr"
  by (simp add: PR_PAGEADDR_def PR_BLOCKTYPE_def)

lemma inuse_cong: "pagerefs_inuse h' = pagerefs_inuse h \<Longrightarrow> inuse h' = inuse h"
  by (simp add: inuse_def)

lemma inuse_less: "p \<in> inuse h \<Longrightarrow> p < 256"
  by (simp add: inuse_def)

lemma heap_invD:
  assumes "heap_inv h g"
  shows "length (pagerefs h) = 256" "length (pagerefs_inuse h) = 8" "length (sizebases h) = 8"
    "chain (\<lambda>p. next_all (pr_of h p)) (allbase h) (g_all g)" "distinct (g_all g)" "set (g_all g) = inuse h"
    "b < 8 \<Longrightarrow> chain (\<lambda>p. next_samesize (pr_of h p)) (sizebases h ! b) (g_same g b)" "b < 8 \<Longrightarrow> distinct (g_same g b)"
    "b < 8 \<Longrightarrow> set (g_same g b) = {p \<in> inuse h. PR_BLOCKTYPE (pr_of h p) = b}"
    "p \<in> inuse h \<Longrightarrow> pr_ok (firstpaddr h) (mem h) (pr_of h p) (g_free g p)"
    "p \<in> inuse h \<Longrightarrow> q \<in> inuse h \<Longrightarrow> PR_PAGEADDR (pr_of h p) = PR_PAGEADDR (pr_of h q) \<Longrightarrow> p = q"
    "stealmem_lock h = None" "firstpaddr h mod 4096 = 0" "0 < firstpaddr h" "firstpaddr h \<le> lastpaddr h" "lastpaddr h \<le> 508 * 1024 * 1024"
  using assms unfolding heap_inv_def ram_ok_def lists_ok_def pages_ok_def by blast+

lemma pr_okD:
  assumes "pr_ok hi m pr fl"
  shows "PR_BLOCKTYPE pr < 8" "PR_PAGEADDR pr mod 4096 = 0" "MIPS_KSEG0 < PR_PAGEADDR pr" "PR_PAGEADDR pr + 4096 \<le> MIPS_KSEG0 + hi"
    "distinct fl" "set fl \<subseteq> slots (PR_PAGEADDR pr) (sizes ! PR_BLOCKTYPE pr)" "nfree pr = length fl"
    "freelist_offset pr = (case fl of [] \<Rightarrow> INVALID_OFFSET | a # _ \<Rightarrow> a - PR_PAGEADDR pr)"
    "chain (\<lambda>a. ptr (m a)) (case fl of [] \<Rightarrow> None | a # _ \<Rightarrow> Some a) fl"
  using assms unfolding pr_ok_def by blast+

lemma pr_ok_cong:
  assumes "pr_ok hi m pr fl" "\<And>a. a \<in> set fl \<Longrightarrow> m' a = m a" "hi \<le> hi'"
  shows "pr_ok hi' m' pr fl"
proof -
  have "chain (\<lambda>a. ptr (m' a)) q fl = chain (\<lambda>a. ptr (m a)) q fl" for q by (rule chain_cong) (simp add: assms(2))
  then show ?thesis using assms(1,3) unfolding pr_ok_def by auto
qed

text \<open>Pages lie apart: a block of one page is not in another.\<close>

lemma page_aligned_apart: "(a :: nat) mod 4096 = 0 \<Longrightarrow> b mod 4096 = 0 \<Longrightarrow> a \<noteq> b \<Longrightarrow> a + 4096 \<le> b \<or> b + 4096 \<le> a"
proof -
  assume h: "a mod 4096 = 0" "b mod 4096 = 0" "a \<noteq> b"
  then obtain i j where ij: "a = 4096 * i" "b = 4096 * j" by (metis dvdE mod_0_imp_dvd)
  then have "i + 1 \<le> j \<or> j + 1 \<le> i" using h(3) by auto
  then show ?thesis using ij by auto
qed

lemma pages_apart:
  assumes "heap_inv h g" "p \<in> inuse h" "q \<in> inuse h" "p \<noteq> q"
  shows "PR_PAGEADDR (pr_of h p) + 4096 \<le> PR_PAGEADDR (pr_of h q) \<or> PR_PAGEADDR (pr_of h q) + 4096 \<le> PR_PAGEADDR (pr_of h p)"
  using heap_invD(11) [OF assms(1-3)] assms(4)
  by (intro page_aligned_apart pr_okD(2) [OF heap_invD(10) [OF assms(1,2)]] pr_okD(2) [OF heap_invD(10) [OF assms(1,3)]]) blast

lemma free_in_page:
  assumes "pr_ok hi m pr fl" "a \<in> set fl"
  shows "PR_PAGEADDR pr \<le> a" "a + 16 \<le> PR_PAGEADDR pr + 4096" "a mod 16 = 0"
proof -
  note k = pr_okD [OF assms(1)]
  have a: "a \<in> slots (PR_PAGEADDR pr) (sizes ! PR_BLOCKTYPE pr)" using k(6) assms(2) by blast
  have "PR_PAGEADDR pr mod 16 = 0" using k(2) by (auto elim!: dvdE simp: dvd_eq_mod_eq_0 [symmetric] intro: dvd_trans [of 16 4096])
  then show "PR_PAGEADDR pr \<le> a" "a + 16 \<le> PR_PAGEADDR pr + 4096" "a mod 16 = 0"
    using slot_bounds [OF k(1) a] sizes_facts(3) [OF k(1)] by auto
qed

lemma set_page_inv:
  assumes inv: "heap_inv h g" and p: "p \<in> inuse h"
    and pr: "pageaddr_and_blocktype pr' = pageaddr_and_blocktype (pr_of h p)" "next_all pr' = next_all (pr_of h p)"
      "next_samesize pr' = next_samesize (pr_of h p)" "pr_ok (firstpaddr h) m' pr' fl'"
    and m: "\<And>a. a < PR_PAGEADDR (pr_of h p) \<or> PR_PAGEADDR (pr_of h p) + 4096 \<le> a \<Longrightarrow> m' a = mem h a"
  shows "heap_inv (h\<lparr>pagerefs := (pagerefs h)[p := pr'], kmalloc_spinlock := lk, mem := m'\<rparr>) (g\<lparr>g_free := (g_free g)(p := fl')\<rparr>)"
    (is "heap_inv ?h ?g")
proof -
  note i = heap_invD [OF inv]
  have l: "p < length (pagerefs h)" using inuse_less [OF p] i(1) by simp
  have iu: "inuse ?h = inuse h" by (rule inuse_cong) simp
  have q: "PR_PAGEADDR (pr_of ?h q) = PR_PAGEADDR (pr_of h q)" "PR_BLOCKTYPE (pr_of ?h q) = PR_BLOCKTYPE (pr_of h q)"
    "next_all (pr_of ?h q) = next_all (pr_of h q)" "next_samesize (pr_of ?h q) = next_samesize (pr_of h q)" for q
    using pr l pab_eq [OF pr(1)] by (simp_all add: nth_list_update)
  have "pr_ok (firstpaddr ?h) (mem ?h) (pr_of ?h q) (g_free ?g q)" if "q \<in> inuse h" for q
  proof (cases "q = p")
    case False
    have "m' a = mem h a" if "a \<in> set (g_free g q)" for a
      using free_in_page [OF i(10) [OF \<open>q \<in> inuse h\<close>] that] pages_apart [OF inv p \<open>q \<in> inuse h\<close>] False by (intro m) auto
    then show ?thesis using pr_ok_cong [OF i(10) [OF that], of m'] False by simp
  qed (use pr l in simp)
  then have "pages_ok ?h ?g" unfolding pages_ok_def iu using i(11) by (simp only: q(1)) blast
  moreover have "lists_ok ?h ?g" unfolding lists_ok_def iu using i(1-9) q by simp
  moreover have "ram_ok ?h" using i(12-16) by (simp add: ram_ok_def)
  ultimately show ?thesis by (simp add: heap_inv_def)
qed

section \<open>Taking a block\<close>

lemma doalloc_spec:
  assumes inv: "heap_inv h g" and p: "p \<in> inuse h" and fl: "g_free g p = a # r" and lk: "kmalloc_spinlock h = Some c"
  shows "\<exists>prs. doalloc c p h = Ok a (h\<lparr>pagerefs := prs, kmalloc_spinlock := None\<rparr>) \<and>
    heap_inv (h\<lparr>pagerefs := prs, kmalloc_spinlock := None\<rparr>) (g\<lparr>g_free := (g_free g)(p := r)\<rparr>) \<and>
    (\<forall>q. pageaddr_and_blocktype (prs ! q) = pageaddr_and_blocktype (pr_of h q))"
proof -
  let ?pr = "pr_of h p" and ?pa = "PR_PAGEADDR (pr_of h p)"
  note i = heap_invD [OF inv]
  have ok: "pr_ok (firstpaddr h) (mem h) ?pr (a # r)" using i(10) [OF p] fl by simp
  note k = pr_okD [OF ok]
  have l: "p < length (pagerefs h)" using inuse_less [OF p] i(1) by simp
  have a: "?pa \<le> x" "x + 16 \<le> ?pa + 4096" if "x \<in> set (a # r)" for x using free_in_page [OF ok that] by auto
  have hi: "?pa + 4096 < 2 ^ 32" using k(4) i(15,16) by (simp add: MIPS_KSEG0_def)
  have n: "length (a # r) \<le> 256"
  proof -
    have "length (a # r) = card (set (a # r))" using distinct_card [OF k(5)] by simp
    also have "\<dots> \<le> 4096 div sizes ! PR_BLOCKTYPE ?pr" using card_mono [OF _ k(6)] slots_card [OF k(1)] by metis
    finally show ?thesis using sizes_facts(6) [OF k(1)] by simp
  qed
  define pr' where "pr' = ?pr\<lparr>nfree := length r, freelist_offset := (case r of [] \<Rightarrow> INVALID_OFFSET | x # _ \<Rightarrow> x - ?pa)\<rparr>"
  have pab: "pageaddr_and_blocktype pr' = pageaddr_and_blocktype ?pr" by (simp add: pr'_def)
  have nx: "ptr (mem h a) = (case r of [] \<Rightarrow> None | x # _ \<Rightarrow> Some x)" using k(9) by (cases r) auto
  have ok': "pr_ok (firstpaddr h) (mem h) pr' r"
    using ok nx pab_eq [OF pab] unfolding pr_ok_def by (cases r) (auto simp: pr'_def)
  have off: "freelist_offset ?pr = a - ?pa" "a - ?pa < 4096" "wadd32 ?pa (a - ?pa) = a" using k(8) a [of a] hi by auto
  have nf: "(nfree ?pr + 0xffff) mod 2 ^ 16 = length r" using k(7) n by (simp add: mod_if)
  have "doalloc c p h = Ok a (h\<lparr>pagerefs := (pagerefs h)[p := pr'], kmalloc_spinlock := None\<rparr>)"
  proof (cases r)
    case Nil
    then have "mem h a = 0" using nx by (simp add: ptr_def split: if_splits)
    then show ?thesis using off nf l lk Nil by (simp add: doalloc_def Let_def upd_pr_def spinlock_release_def pr'_def)
  next
    case (Cons x r')
    then have "mem h a = x" "x \<noteq> 0" using nx by (auto simp: ptr_def split: if_splits)
    moreover have "?pa \<le> x" "x - ?pa < 4096" "(x - ?pa) mod 65536 = x - ?pa" using a [of x] Cons by auto
    ultimately show ?thesis using off nf l lk Cons by (simp add: doalloc_def Let_def upd_pr_def spinlock_release_def pr'_def)
  qed
  moreover have "heap_inv (h\<lparr>pagerefs := (pagerefs h)[p := pr'], kmalloc_spinlock := None, mem := mem h\<rparr>) (g\<lparr>g_free := (g_free g)(p := r)\<rparr>)"
    by (rule set_page_inv [OF inv p pab _ _ ok']) (simp_all add: pr'_def)
  moreover have "pageaddr_and_blocktype ((pagerefs h)[p := pr'] ! q) = pageaddr_and_blocktype (pr_of h q)" for q
    using pab l by (simp add: nth_list_update)
  moreover have "h\<lparr>pagerefs := (pagerefs h)[p := pr'], kmalloc_spinlock := None, mem := mem h\<rparr> = h\<lparr>pagerefs := (pagerefs h)[p := pr'], kmalloc_spinlock := None\<rparr>"
    by simp
  ultimately show ?thesis by (intro exI [of _ "(pagerefs h)[p := pr']"]) simp
qed

section \<open>New pages\<close>

lemma alloc_kpages_spec:
  assumes inv: "heap_inv h g" and n: "n * 4096 + 508 * 1024 * 1024 < 2 ^ 32"
  shows "lastpaddr h < firstpaddr h + n * 4096 \<Longrightarrow> alloc_kpages c n h = Ok 0 h"
    "firstpaddr h + n * 4096 \<le> lastpaddr h \<Longrightarrow>
       alloc_kpages c n h = Ok (MIPS_KSEG0 + firstpaddr h) (h\<lparr>firstpaddr := firstpaddr h + n * 4096\<rparr>) \<and>
       heap_inv (h\<lparr>firstpaddr := firstpaddr h + n * 4096\<rparr>) g"
proof -
  note i = heap_invD [OF inv]
  have m: "n * 4096 mod 2 ^ 32 = n * 4096" "wadd32 (firstpaddr h) (n * 4096) = firstpaddr h + n * 4096"
    "wadd32 (firstpaddr h) MIPS_KSEG0 = MIPS_KSEG0 + firstpaddr h" using n i(15,16) by (simp_all add: MIPS_KSEG0_def wadd32_def)
  show "lastpaddr h < firstpaddr h + n * 4096 \<Longrightarrow> alloc_kpages c n h = Ok 0 h"
    using i(12) m by (simp add: alloc_kpages_def getppages_def ram_stealmem_def spinlock_acquire_def spinlock_release_def Let_def)
  assume le: "firstpaddr h + n * 4096 \<le> lastpaddr h"
  let ?h = "h\<lparr>firstpaddr := firstpaddr h + n * 4096\<rparr>"
  have "alloc_kpages c n h = Ok (MIPS_KSEG0 + firstpaddr h) ?h"
    using le i(12,14) m by (simp add: alloc_kpages_def getppages_def ram_stealmem_def spinlock_acquire_def spinlock_release_def Let_def)
  moreover have "heap_inv ?h g"
  proof -
    have iu: "inuse ?h = inuse h" by (rule inuse_cong) simp
    have "pr_ok (firstpaddr ?h) (mem ?h) (pr_of ?h p) (g_free g p)" if "p \<in> inuse h" for p
      using pr_ok_cong [OF i(10) [OF that], of "mem h"] by simp
    then have "pages_ok ?h g" unfolding pages_ok_def iu using i(11) by simp
    moreover have "lists_ok ?h g" using inv unfolding heap_inv_def lists_ok_def iu by simp
    moreover have "ram_ok ?h" using i(12-16) le by (auto simp: ram_ok_def)
    ultimately show ?thesis by (simp add: heap_inv_def)
  qed
  ultimately show "alloc_kpages c n h = Ok (MIPS_KSEG0 + firstpaddr h) ?h \<and> heap_inv ?h g" by blast
qed

definition linked_mem :: "nat \<Rightarrow> nat \<Rightarrow> nat \<Rightarrow> nat \<Rightarrow> (nat \<Rightarrow> nat) \<Rightarrow> nat \<Rightarrow> nat" where
  "linked_mem i n sz pa m a = (if a \<in> (\<lambda>k. pa + k * sz) ` {i..<n} then a - sz else m a)"

lemma linked_mem_step:
  assumes "i < n" "0 < sz"
  shows "linked_mem (Suc i) n sz pa (m(pa + i * sz := pa + i * sz - sz)) = linked_mem i n sz pa m"
proof
  fix a
  have "{i..<n} = insert i {Suc i..<n}" using assms(1) by auto
  then show "linked_mem (Suc i) n sz pa (m(pa + i * sz := pa + i * sz - sz)) a = linked_mem i n sz pa m a"
    by (auto simp: linked_mem_def)
qed

lemma link_blocks_spec:
  assumes "1 \<le> i" "0 < sz" "pa + n * sz < 2 ^ 32" "i \<le> n" "fl = pa + (i - 1) * sz"
  shows "link_blocks i n sz pa fl h = Ok (pa + (n - 1) * sz) (h\<lparr>mem := linked_mem i n sz pa (mem h)\<rparr>)"
  using assms
proof (induction i n sz pa fl h rule: link_blocks.induct)
  case (1 i n sz pa fl h)
  show ?case
  proof (cases "i < n")
    case True
    have "pa + j * sz < 2 ^ 32" if "j \<le> n" for j using mult_le_mono1 [OF that, of sz] "1.prems"(3) by linarith
    then have "pa + i * sz < 2 ^ 32" "pa + (i - 1) * sz < 2 ^ 32" using True by simp_all
    then have w: "wadd32 pa (i * sz) = pa + i * sz" "wadd32 pa ((i - 1) * sz) = pa + (i - 1) * sz" by (simp_all del: power_numeral)
    have d: "pa + (i - 1) * sz = pa + i * sz - sz" using "1.prems"(1,2) by (simp add: diff_mult_distrib)
    have ne: "(pa + i * sz = pa + i * sz - sz) = False" unfolding d [symmetric] using "1.prems"(1,2) by auto
    have "link_blocks i n sz pa fl h = link_blocks (Suc i) n sz pa (pa + i * sz) (store (pa + i * sz) (pa + i * sz - sz) h)"
      using True by (subst link_blocks.simps) (simp only: Let_def w d ne if_True not_False_eq_True kassert_True)
    also have "\<dots> = Ok (pa + (n - 1) * sz) (h\<lparr>mem := linked_mem i n sz pa (mem h)\<rparr>)"
    proof -
      have "link_blocks (Suc i) n sz pa (pa + i * sz) (store (pa + i * sz) (pa + i * sz - sz) h) =
        Ok (pa + (n - 1) * sz) ((store (pa + i * sz) (pa + i * sz - sz) h)\<lparr>mem := linked_mem (Suc i) n sz pa (mem (store (pa + i * sz) (pa + i * sz - sz) h))\<rparr>)"
        using 1(1) [OF True refl refl] "1.prems" True unfolding w d by (simp add: fun_upd_def)
      then show ?thesis using linked_mem_step [OF True "1.prems"(2)] by (simp add: store_def)
    qed
    finally show ?thesis .
  next
    case False
    then have "linked_mem i n sz pa (mem h) = mem h" by (simp add: linked_mem_def fun_eq_iff)
    moreover have "i = n" using False "1.prems"(4) by simp
    ultimately show ?thesis using "1.prems"(5) by (subst link_blocks.simps) simp
  qed
qed

text \<open>The free list of a new page: its blocks from the last to the first.\<close>

definition new_free :: "nat \<Rightarrow> nat \<Rightarrow> nat \<Rightarrow> nat list" where
  "new_free n sz pa = map (\<lambda>k. pa + k * sz) (rev [0..<n])"

lemma new_free_Suc [simp]: "new_free (Suc n) sz pa = (pa + n * sz) # new_free n sz pa"
  by (simp add: new_free_def)

lemma new_free_chain:
  assumes "0 < sz" "0 < pa" "\<And>k. k < n \<Longrightarrow> m (pa + k * sz) = (if k = 0 then 0 else pa + k * sz - sz)"
  shows "chain (\<lambda>a. ptr (m a)) (case new_free n sz pa of [] \<Rightarrow> None | a # _ \<Rightarrow> Some a) (new_free n sz pa)"
  using assms(3)
proof (induction n)
  case (Suc n)
  have "ptr (m (pa + n * sz)) = (case new_free n sz pa of [] \<Rightarrow> None | a # _ \<Rightarrow> Some a)"
    using Suc.prems [of n] assms(1,2) by (cases n) (simp_all add: new_free_def ptr_def)
  then show ?case using Suc by simp
qed (simp add: new_free_def)

lemma new_free_facts: "0 < sz \<Longrightarrow> distinct (new_free n sz pa)" "set (new_free n sz pa) = (\<lambda>k. pa + k * sz) ` {..<n}" "length (new_free n sz pa) = n"
  by (auto simp: new_free_def distinct_map inj_on_def atLeast0LessThan [symmetric])

lemma MKPAB_fields:
  assumes "pageaddr_and_blocktype pr = MKPAB pa b" "pa + 4096 < 2 ^ 32" "pa mod 4096 = 0" "b < 8"
  shows "PR_PAGEADDR pr = pa" "PR_BLOCKTYPE pr = b"
proof -
  have pab: "pageaddr_and_blocktype pr = pa + b" using assms MKPAB_eq [of pa b] by simp
  have md: "(pa + b) mod 4096 = b" using assms(3,4) by (simp add: mod_add_left_eq [symmetric])
  show "PR_PAGEADDR pr = pa" using assms(2,4) md by (simp add: PR_PAGEADDR_def pab and_frame)
  show "PR_BLOCKTYPE pr = b" unfolding PR_BLOCKTYPE_def pab and_offset by (rule md)
qed

lemma add_page_inv:
  assumes inv: "heap_inv h g" and p: "p < 256" "p \<notin> inuse h" and b: "b < 8"
    and ws: "length ws = 8" "inuse (h\<lparr>pagerefs_inuse := ws\<rparr>) = insert p (inuse h)"
    and pr: "next_all pr' = allbase h" "next_samesize pr' = sizebases h ! b" "PR_BLOCKTYPE pr' = b" "pr_ok (firstpaddr h) m' pr' fl"
    and far: "\<And>q. q \<in> inuse h \<Longrightarrow> PR_PAGEADDR (pr_of h q) + 4096 \<le> PR_PAGEADDR pr'"
    and m: "\<And>a. a < PR_PAGEADDR pr' \<Longrightarrow> m' a = mem h a"
  shows "heap_inv (h\<lparr>pagerefs := (pagerefs h)[p := pr'], pagerefs_inuse := ws, sizebases := (sizebases h)[b := Some p], allbase := Some p,
      kmalloc_spinlock := lk, mem := m'\<rparr>)
    (g\<lparr>g_all := p # g_all g, g_same := (g_same g)(b := p # g_same g b), g_free := (g_free g)(p := fl)\<rparr>)"
    (is "heap_inv ?h ?g")
proof -
  note i = heap_invD [OF inv]
  have iu: "inuse ?h = insert p (inuse h)" using ws(2) inuse_cong [of ?h "h\<lparr>pagerefs_inuse := ws\<rparr>"] by simp
  have prp: "pr_of ?h p = pr'" using p i(1) by simp
  have prq: "pr_of ?h q = pr_of h q" if "q \<in> inuse h" for q using that p(2) by (cases "q = p") auto
  have ch: "chain (\<lambda>q. f (pr_of ?h q)) s qs = chain (\<lambda>q. f (pr_of h q)) s qs" if "set qs \<subseteq> inuse h" for f :: "pageref \<Rightarrow> nat option" and s qs
    by (rule chain_cong) (use that prq in \<open>auto simp: subset_iff\<close>)
  have A: "pr_ok (firstpaddr h) m' (pr_of ?h q) (g_free ?g q)" if "q \<in> insert p (inuse h)" for q
  proof (cases "q = p")
    case False
    then have q: "q \<in> inuse h" using that by simp
    have "m' a = mem h a" if "a \<in> set (g_free g q)" for a using free_in_page [OF i(10) [OF q] that] far [OF q] by (intro m) simp
    then show ?thesis using pr_ok_cong [OF i(10) [OF q], of m'] False prq [OF q] by simp
  qed (use pr(4) prp in simp)
  have B: "PR_PAGEADDR (pr_of ?h q) = PR_PAGEADDR (pr_of ?h q') \<Longrightarrow> q = q'" if "q \<in> insert p (inuse h)" "q' \<in> insert p (inuse h)" for q q'
    using that far [of q] far [of q'] i(11) [of q q'] prp prq [of q] prq [of q'] by auto
  have "pages_ok ?h ?g" unfolding pages_ok_def iu
  proof (intro conjI ballI impI)
    show "pr_ok (firstpaddr ?h) (mem ?h) (pr_of ?h q) (g_free ?g q)" if "q \<in> insert p (inuse h)" for q using A [OF that] by simp
  qed (rule B)
  moreover have "lists_ok ?h ?g"
  proof -
    have "chain (\<lambda>q. next_all (pr_of ?h q)) (Some p) (p # g_all g)" using ch [of "g_all g" next_all] i(4,6) prp pr(1) by simp
    moreover have "chain (\<lambda>q. next_samesize (pr_of ?h q)) (sizebases ?h ! k) (g_same ?g k) \<and> distinct (g_same ?g k) \<and>
      set (g_same ?g k) = {q \<in> insert p (inuse h). PR_BLOCKTYPE (pr_of ?h q) = k}" if k: "k < 8" for k
    proof -
      have c: "chain (\<lambda>q. next_samesize (pr_of ?h q)) (sizebases h ! k) (g_same g k)"
        using ch [of "g_same g k" next_samesize] i(7,9) [OF k] by simp
      have st: "set (g_same g k) = {q \<in> inuse h. PR_BLOCKTYPE (pr_of ?h q) = k}" using i(9) [OF k] prq by auto
      have pb: "PR_BLOCKTYPE (pr_of ?h p) = b" using prp pr(3) by simp
      show ?thesis
      proof (cases "k = b")
        case True
        have "chain (\<lambda>q. next_samesize (pr_of ?h q)) (Some p) (p # g_same g b)" using c True prp pr(2) by simp
        moreover have "distinct (p # g_same g b)" using i(8) [OF k] i(9) [OF k] True p(2) by simp
        moreover have "set (p # g_same g b) = {q \<in> insert p (inuse h). PR_BLOCKTYPE (pr_of ?h q) = b}" using st [unfolded True] pb unfolding list.set by blast
        ultimately show ?thesis using True i(3) b by simp
      next
        case False
        then have "set (g_same g k) = {q \<in> insert p (inuse h). PR_BLOCKTYPE (pr_of ?h q) = k}" using st pb by blast
        then show ?thesis using False c i(8) [OF k] by simp
      qed
    qed
    ultimately show ?thesis unfolding lists_ok_def iu using i(1,3,5,6) ws(1) p(2) by simp
  qed
  moreover have "ram_ok ?h" using i(12-16) by (simp add: ram_ok_def)
  ultimately show ?thesis by (simp add: heap_inv_def)
qed

lemma page_setup_eq:
  assumes l: "p < length (pagerefs h)" and b: "b < 8" "length (sizebases h) = 8" and pa: "pa + 4096 < 2 ^ 32"
  defines "n \<equiv> 4096 div sizes ! b"
  shows "page_setup c b pa p h = doalloc c p (h\<lparr>pagerefs := (pagerefs h)[p := \<lparr>next_samesize = sizebases h ! b, next_all = allbase h,
      pageaddr_and_blocktype = MKPAB pa b, freelist_offset = (n - 1) * sizes ! b, nfree = n\<rparr>],
    sizebases := (sizebases h)[b := Some p], allbase := Some p, mem := linked_mem 1 n (sizes ! b) pa ((mem h)(pa := 0))\<rparr>)"
proof -
  let ?sz = "sizes ! b"
  note f = sizes_facts [OF b(1)]
  have n: "n mod 2 ^ 16 = n" "1 \<le> n" using f(5,6) by (simp_all add: n_def)
  have "n * ?sz = 4096" using f(1) by (simp add: n_def mult.commute)
  then have o: "(n - 1) * ?sz < 4096" using f(3) by (simp add: diff_mult_distrib)
  have "link_blocks 1 n ?sz pa pa h' = Ok (pa + (n - 1) * ?sz) (h'\<lparr>mem := linked_mem 1 n ?sz pa (mem h')\<rparr>)" for h'
    by (rule link_blocks_spec) (use f(1,3) n(2) pa in \<open>simp_all add: n_def mult.commute\<close>)
  note lb = this
  have rc: "pr\<lparr>pageaddr_and_blocktype := MKPAB pa b, nfree := n, freelist_offset := x, next_samesize := y, next_all := z\<rparr> =
    \<lparr>next_samesize = y, next_all = z, pageaddr_and_blocktype = MKPAB pa b, freelist_offset = x, nfree = n\<rparr>" for pr x y z
    by (cases pr) simp
  show ?thesis using l n o
    by (cases h) (simp add: lb [unfolded One_nat_def] rc [unfolded One_nat_def] page_setup_def Let_def n_def [symmetric] upd_pr_def store_def)
qed

lemma page_setup_spec:
  assumes inv: "heap_inv h g" and p: "p < 256" "p \<notin> inuse h" and b: "b < 8"
    and ws: "length ws = 8" "inuse (h\<lparr>pagerefs_inuse := ws\<rparr>) = insert p (inuse h)"
    and pa: "pa mod 4096 = 0" "MIPS_KSEG0 < pa" "pa + 4096 \<le> MIPS_KSEG0 + firstpaddr h"
    and far: "\<And>q. q \<in> inuse h \<Longrightarrow> PR_PAGEADDR (pr_of h q) + 4096 \<le> pa"
  shows "\<exists>h' g' a r. page_setup c b pa p (h\<lparr>kmalloc_spinlock := Some c, pagerefs_inuse := ws\<rparr>) = Ok a h' \<and> heap_inv h' g' \<and> kmalloc_spinlock h' = None \<and>
       inuse h' = insert p (inuse h) \<and> PR_PAGEADDR (pr_of h' p) = pa \<and> PR_BLOCKTYPE (pr_of h' p) = b \<and>
       (\<forall>q \<in> inuse h. pageaddr_and_blocktype (pr_of h' q) = pageaddr_and_blocktype (pr_of h q)) \<and>
       g_free g' = (g_free g)(p := r) \<and> new_free (4096 div sizes ! b) (sizes ! b) pa = a # r \<and>
       firstpaddr h' = firstpaddr h \<and> lastpaddr h' = lastpaddr h \<and> (\<forall>x. x < pa \<or> pa + 4096 \<le> x \<longrightarrow> mem h' x = mem h x)"
proof -
  let ?sz = "sizes ! b"
  define n where "n = 4096 div ?sz"
  define m' where "m' = linked_mem 1 n ?sz pa ((mem h)(pa := 0))"
  define pr' where "pr' = \<lparr>next_samesize = sizebases h ! b, next_all = allbase h, pageaddr_and_blocktype = MKPAB pa b, freelist_offset = (n - 1) * ?sz, nfree = n\<rparr>"
  note i = heap_invD [OF inv] and f = sizes_facts [OF b]
  have hi: "pa + 4096 < 2 ^ 32" using pa(3) i(15,16) by (simp add: MIPS_KSEG0_def)
  have pr: "PR_PAGEADDR pr' = pa" "PR_BLOCKTYPE pr' = b" using MKPAB_fields [of pr' pa b] hi pa(1) b by (simp_all add: pr'_def)
  have n: "n * ?sz = 4096" "2 \<le> n" using f(1,5) by (simp_all add: n_def mult.commute)
  obtain k where k: "n = Suc k" using n(2) by (cases n) auto
  define a where "a = pa + k * ?sz"
  define r where "r = new_free k ?sz pa"
  have fl: "new_free n ?sz pa = a # r" by (simp add: k a_def r_def)
  have m0: "m' x = mem h x" if "x < pa \<or> pa + 4096 \<le> x" for x
  proof -
    have nx: "x \<noteq> pa + j * ?sz" if "j < n" for j
      using mult_le_mono1 [of "Suc j" n ?sz] that f(3) n(1) \<open>x < pa \<or> pa + 4096 \<le> x\<close> by auto
    have "x \<notin> (\<lambda>k. pa + k * ?sz) ` {1..<n}"
    proof
      assume "x \<in> (\<lambda>k. pa + k * ?sz) ` {1..<n}"
      then obtain j where "j \<in> {1..<n}" "x = pa + j * ?sz" by blast
      then show False using nx [of j] by simp
    qed
    moreover have "x \<noteq> pa" using that by auto
    ultimately show ?thesis by (simp add: m'_def linked_mem_def)
  qed
  have ml: "m' (pa + j * ?sz) = (if j = 0 then 0 else pa + j * ?sz - ?sz)" if "j < n" for j
    using that f(3) by (auto simp: m'_def linked_mem_def image_iff Ball_def)
  have sz: "0 < ?sz" using f(3) by simp
  have ch: "chain (\<lambda>a. ptr (m' a)) (Some a) (a # r)" using new_free_chain [of ?sz pa n m'] ml sz pa(2) unfolding fl by simp
  have ds: "distinct (a # r)" using new_free_facts(1) [OF sz, of n pa] unfolding fl .
  have st: "set (a # r) = slots pa ?sz" using new_free_facts(2) [of n ?sz pa] unfolding fl by (simp add: slots_def n_def)
  have ln: "length (a # r) = n" using new_free_facts(3) [of n ?sz pa] unfolding fl .
  have off: "freelist_offset pr' = a - pa" "nfree pr' = n" by (simp_all add: pr'_def a_def k)
  have pk: "pr_ok (firstpaddr h) m' pr' (a # r)"
    unfolding pr_ok_def pr using b pa ch ds st ln off by simp
  define h1 where "h1 = h\<lparr>pagerefs := (pagerefs h)[p := pr'], pagerefs_inuse := ws, sizebases := (sizebases h)[b := Some p], allbase := Some p,
      kmalloc_spinlock := Some c, mem := m'\<rparr>"
  define g1 where "g1 = g\<lparr>g_all := p # g_all g, g_same := (g_same g)(b := p # g_same g b), g_free := (g_free g)(p := a # r)\<rparr>"
  have inv1: "heap_inv h1 g1" unfolding h1_def g1_def
    by (rule add_page_inv [OF inv p b ws _ _ pr(2) pk]) (use far pr m0 in \<open>simp_all add: pr'_def\<close>)
  have iu1: "inuse h1 = insert p (inuse h)" using ws(2) inuse_cong [of h1 "h\<lparr>pagerefs_inuse := ws\<rparr>"] by (simp add: h1_def)
  have e: "page_setup c b pa p (h\<lparr>kmalloc_spinlock := Some c, pagerefs_inuse := ws\<rparr>) = doalloc c p h1"
    using page_setup_eq [of p "h\<lparr>kmalloc_spinlock := Some c, pagerefs_inuse := ws\<rparr>" b pa c] p(1) i(1,3) b hi
    by (cases h) (simp add: h1_def pr'_def m'_def n_def)
  obtain prs where d: "doalloc c p h1 = Ok a (h1\<lparr>pagerefs := prs, kmalloc_spinlock := None\<rparr>)"
    "heap_inv (h1\<lparr>pagerefs := prs, kmalloc_spinlock := None\<rparr>) (g1\<lparr>g_free := (g_free g1)(p := r)\<rparr>)"
    "\<And>q. pageaddr_and_blocktype (prs ! q) = pageaddr_and_blocktype (pr_of h1 q)"
    using doalloc_spec [OF inv1, of p a r c] iu1 by (auto simp: g1_def h1_def)
  have pq: "pageaddr_and_blocktype (prs ! q) = pageaddr_and_blocktype (pr_of h q)" if "q \<in> inuse h" for q
    using d(3) [of q] that p(2) by (cases "q = p") (auto simp: h1_def)
  have pp: "PR_PAGEADDR (prs ! p) = pa" "PR_BLOCKTYPE (prs ! p) = b"
    using d(3) [of p] pab_eq [of "prs ! p" pr'] pr p(1) i(1) by (simp_all add: h1_def)
  have "inuse (h1\<lparr>pagerefs := prs, kmalloc_spinlock := None\<rparr>) = insert p (inuse h)" using iu1 inuse_cong [of "h1\<lparr>pagerefs := prs, kmalloc_spinlock := None\<rparr>" h1] by simp
  then show ?thesis using e d(1,2) pq pp fl m0 unfolding n_def
    by (intro exI [of _ "h1\<lparr>pagerefs := prs, kmalloc_spinlock := None\<rparr>"] exI [of _ "g1\<lparr>g_free := (g_free g1)(p := r)\<rparr>"] exI [of _ a] exI [of _ r])
      (simp add: h1_def g1_def)
qed

lemma new_page_spec:
  assumes inv: "heap_inv h g" and lk: "kmalloc_spinlock h = None" and b: "b < 8"
    and pa: "pa mod 4096 = 0" "MIPS_KSEG0 < pa" "pa + 4096 \<le> MIPS_KSEG0 + firstpaddr h"
    and far: "\<And>q. q \<in> inuse h \<Longrightarrow> PR_PAGEADDR (pr_of h q) + 4096 \<le> pa"
  shows "inuse h = {..<256} \<Longrightarrow> new_page c b pa h = Ok 0 h"
    "inuse h \<noteq> {..<256} \<Longrightarrow> \<exists>h' g' a p r. new_page c b pa h = Ok a h' \<and> heap_inv h' g' \<and> kmalloc_spinlock h' = None \<and>
       p \<notin> inuse h \<and> inuse h' = insert p (inuse h) \<and> PR_PAGEADDR (pr_of h' p) = pa \<and> PR_BLOCKTYPE (pr_of h' p) = b \<and>
       (\<forall>q \<in> inuse h. pageaddr_and_blocktype (pr_of h' q) = pageaddr_and_blocktype (pr_of h q)) \<and>
       g_free g' = (g_free g)(p := r) \<and> new_free (4096 div sizes ! b) (sizes ! b) pa = a # r \<and>
       firstpaddr h' = firstpaddr h \<and> lastpaddr h' = lastpaddr h \<and> (\<forall>x. x < pa \<or> pa + 4096 \<le> x \<longrightarrow> mem h' x = mem h x)"
proof -
  define h1 where "h1 = h\<lparr>kmalloc_spinlock := Some c\<rparr>"
  note i = heap_invD [OF inv]
  have l1: "length (pagerefs_inuse h1) = 8" using i(2) by (simp add: h1_def)
  have iu1: "inuse h1 = inuse h" by (rule inuse_cong) (simp add: h1_def)
  have np: "new_page c b pa h = kbind (allocpageref h1) (\<lambda>pr h. case pr of
      None \<Rightarrow> spinlock_release c (kmalloc_spinlock h) (\<lambda>lk. kbind (free_kpages pa (h\<lparr>kmalloc_spinlock := lk\<rparr>)) (\<lambda>_ h. Ok 0 h))
    | Some p \<Rightarrow> page_setup c b pa p h)"
    using lk by (simp add: new_page_def spinlock_acquire_def h1_def)
  show "new_page c b pa h = Ok 0 h" if full: "inuse h = {..<256}"
  proof (cases rule: allocpageref_spec [OF l1])
    case 1
    then show ?thesis using lk unfolding np by (simp add: spinlock_release_def free_kpages_def h1_def)
  next
    case (2 p ws)
    then show ?thesis using full iu1 by simp
  qed
  show "\<exists>h' g' a p r. new_page c b pa h = Ok a h' \<and> heap_inv h' g' \<and> kmalloc_spinlock h' = None \<and>
       p \<notin> inuse h \<and> inuse h' = insert p (inuse h) \<and> PR_PAGEADDR (pr_of h' p) = pa \<and> PR_BLOCKTYPE (pr_of h' p) = b \<and>
       (\<forall>q \<in> inuse h. pageaddr_and_blocktype (pr_of h' q) = pageaddr_and_blocktype (pr_of h q)) \<and>
       g_free g' = (g_free g)(p := r) \<and> new_free (4096 div sizes ! b) (sizes ! b) pa = a # r \<and>
       firstpaddr h' = firstpaddr h \<and> lastpaddr h' = lastpaddr h \<and> (\<forall>x. x < pa \<or> pa + 4096 \<le> x \<longrightarrow> mem h' x = mem h x)"
    if "inuse h \<noteq> {..<256}"
  proof (cases rule: allocpageref_spec [OF l1])
    case 1
    then show ?thesis using that iu1 by simp
  next
    case (2 p ws)
    then have "inuse (h\<lparr>pagerefs_inuse := ws\<rparr>) = insert p (inuse h)" using iu1 inuse_cong [of "h1\<lparr>pagerefs_inuse := ws\<rparr>" "h\<lparr>pagerefs_inuse := ws\<rparr>"] by simp
    from page_setup_spec [OF inv _ _ b 2(2) this pa far, of c] 2(1,3,4) iu1 show ?thesis unfolding np h1_def by simp blast
  qed
qed

end
