(* ===== verification/KmallocOps.thy ===== *)
theory KmallocOps
  imports KmallocInv
begin

text \<open>
  What \<open>kmalloc\<close> and \<open>kfree\<close> do to a heap in order.
\<close>

section \<open>Allocated blocks\<close>

text \<open>The block at \<open>a\<close> of block type \<open>b\<close> is allocated.\<close>

definition used_in :: "kheap \<Rightarrow> gheap \<Rightarrow> nat \<Rightarrow> nat \<Rightarrow> nat \<Rightarrow> bool" where
  "used_in h g b a p \<longleftrightarrow> PR_BLOCKTYPE (pr_of h p) = b \<and> a \<in> slots (PR_PAGEADDR (pr_of h p)) (sizes ! b) \<and> a \<notin> set (g_free g p)"

definition used_at :: "kheap \<Rightarrow> gheap \<Rightarrow> nat \<Rightarrow> nat \<Rightarrow> bool" where
  "used_at h g b a \<longleftrightarrow> (\<exists>p \<in> inuse h. used_in h g b a p)"

lemma bex_change: "p \<in> A \<Longrightarrow> (\<And>q. q \<in> A \<Longrightarrow> q \<noteq> p \<Longrightarrow> P' q = P q) \<Longrightarrow> (P' p \<longleftrightarrow> P p \<or> R) \<Longrightarrow> (\<exists>q \<in> A. P' q) \<longleftrightarrow> (\<exists>q \<in> A. P q) \<or> R"
  by metis

lemma heap_inv_lock [simp]: "heap_inv (h\<lparr>kmalloc_spinlock := x\<rparr>) g = heap_inv h g"
proof -
  have "inuse (h\<lparr>kmalloc_spinlock := x\<rparr>) = inuse h" by (rule inuse_cong) simp
  then show ?thesis by (simp add: heap_inv_def lists_ok_def pages_ok_def ram_ok_def)
qed

lemma inuse_lock [simp]: "inuse (h\<lparr>kmalloc_spinlock := x\<rparr>) = inuse h" "inuse (h\<lparr>pagerefs := y, kmalloc_spinlock := x\<rparr>) = inuse h"
  "inuse (h\<lparr>firstpaddr := z\<rparr>) = inuse h"
  by (simp_all add: inuse_def)

lemma g_free_upd: "g\<lparr>g_free := (g_free g)(p := r)\<rparr> = g' \<Longrightarrow> g_free g' = (g_free g)(p := r)"
  by auto

lemma slot_in_page:
  assumes inv: "heap_inv h g" and p: "p \<in> inuse h" "a \<in> slots (PR_PAGEADDR (pr_of h p)) (sizes ! PR_BLOCKTYPE (pr_of h p))"
  shows "PR_PAGEADDR (pr_of h p) \<le> a" "a + sizes ! PR_BLOCKTYPE (pr_of h p) \<le> PR_PAGEADDR (pr_of h p) + 4096" "a < PR_PAGEADDR (pr_of h p) + 4096"
proof -
  have b: "PR_BLOCKTYPE (pr_of h p) < 8" using pr_okD(1) [OF heap_invD(10) [OF inv p(1)]] .
  show "PR_PAGEADDR (pr_of h p) \<le> a" "a + sizes ! PR_BLOCKTYPE (pr_of h p) \<le> PR_PAGEADDR (pr_of h p) + 4096" "a < PR_PAGEADDR (pr_of h p) + 4096"
    using slot_bounds [OF b p(2)] sizes_facts(3) [OF b] by auto
qed

text \<open>A block is in one page only.\<close>

lemma same_page:
  assumes inv: "heap_inv h g" and p: "p \<in> inuse h" "q \<in> inuse h"
    and a: "PR_PAGEADDR (pr_of h p) \<le> a" "a < PR_PAGEADDR (pr_of h p) + 4096" "PR_PAGEADDR (pr_of h q) \<le> a" "a < PR_PAGEADDR (pr_of h q) + 4096"
  shows "p = q"
  using pages_apart [OF inv p] a by force

text \<open>Taking the first block off the free list of a page.\<close>

lemma used_take:
  assumes inv: "heap_inv h g" and p: "p \<in> inuse h" and fl: "g_free g p = a # r" and b: "PR_BLOCKTYPE (pr_of h p) = b"
    and pab: "\<And>q. q \<in> inuse h \<Longrightarrow> PR_PAGEADDR (pr_of h' q) = PR_PAGEADDR (pr_of h q) \<and> PR_BLOCKTYPE (pr_of h' q) = PR_BLOCKTYPE (pr_of h q)"
    and iu: "inuse h' = inuse h" and g': "g_free g' = (g_free g)(p := r)"
  shows "used_at h' g' b' x \<longleftrightarrow> used_at h g b' x \<or> b' = b \<and> x = a" "\<not> used_at h g b' a"
proof -
  note ok = pr_okD [OF heap_invD(10) [OF inv p]]
  have a: "a \<in> slots (PR_PAGEADDR (pr_of h p)) (sizes ! b)" "a \<notin> set r" using ok(5,6) fl b by auto
  show "\<not> used_at h g b' a"
  proof
    assume "used_at h g b' a"
    then obtain q where q: "q \<in> inuse h" "PR_BLOCKTYPE (pr_of h q) = b'" "a \<in> slots (PR_PAGEADDR (pr_of h q)) (sizes ! b')" "a \<notin> set (g_free g q)"
      by (auto simp: used_at_def used_in_def)
    have "p = q" using same_page [OF inv p q(1), of a] slot_in_page [OF inv p] slot_in_page [OF inv q(1)] a(1) b q(2,3) by blast
    then show False using q(4) fl by simp
  qed
  show "used_at h' g' b' x \<longleftrightarrow> used_at h g b' x \<or> b' = b \<and> x = a" unfolding used_at_def iu
  proof (rule bex_change [OF p])
    show "used_in h' g' b' x p \<longleftrightarrow> used_in h g b' x p \<or> b' = b \<and> x = a" using a b fl pab [OF p] g' by (auto simp: used_in_def)
  qed (simp add: used_in_def pab g')
qed

section \<open>Small requests\<close>

lemma blocktype_spec: "sz \<le> 2048 \<Longrightarrow> \<exists>b < 8. blocktype sz = Some b \<and> sz \<le> sizes ! b"
proof -
  assume sz: "sz \<le> 2048"
  have "\<exists>b < 8. blocktype_from i sz = Some b \<and> sz \<le> sizes ! b" if "i < 8" for i
    using that
  proof (induction "8 - i" arbitrary: i)
    case (Suc n)
    show ?case
    proof (cases "sz \<le> sizes ! i")
      case True
      then show ?thesis using Suc.prems by (subst blocktype_from.simps) auto
    next
      case False
      then have "i \<noteq> 7" using sz by (auto simp: sizes_def)
      then have "\<exists>b < 8. blocktype_from (Suc i) sz = Some b \<and> sz \<le> sizes ! b" using Suc by auto
      moreover have "blocktype_from i sz = blocktype_from (Suc i) sz" using False Suc.prems by (subst blocktype_from.simps) simp
      ultimately show ?thesis by simp
    qed
  qed simp
  then show ?thesis by (simp add: blocktype_def)
qed

lemma heap_okD:
  assumes "heap_ok h g"
  shows "heap_inv h g" "kmalloc_spinlock h = None" "p \<in> inuse h \<Longrightarrow> page_used (pr_of h p) (g_free g p)"
  using assms unfolding heap_ok_def by blast+

definition page_addrs :: "kheap \<Rightarrow> nat set" where
  "page_addrs h = (\<lambda>p. PR_PAGEADDR (pr_of h p)) ` inuse h"

text \<open>What is the same after a call: the end of memory and every word below the first page that was free; pages are
  added above it only.\<close>

definition mem_kept :: "kheap \<Rightarrow> kheap \<Rightarrow> bool" where
  "mem_kept h h' \<longleftrightarrow> lastpaddr h' = lastpaddr h \<and> firstpaddr h \<le> firstpaddr h' \<and> (\<forall>x < MIPS_KSEG0 + firstpaddr h. mem h' x = mem h x) \<and>
     page_addrs h' \<subseteq> page_addrs h \<union> {MIPS_KSEG0 + firstpaddr h..}"

text \<open>\<open>kmalloc\<close> handed out the block \<open>a\<close> of type \<open>b\<close>.\<close>

definition took :: "kheap \<Rightarrow> gheap \<Rightarrow> nat \<Rightarrow> nat \<Rightarrow> kheap \<Rightarrow> gheap \<Rightarrow> bool" where
  "took h g b a h' g' \<longleftrightarrow> a \<noteq> 0 \<and> heap_ok h' g' \<and> mem_kept h h' \<and> (\<forall>b'. \<not> used_at h g b' a) \<and>
     (\<forall>b' x. used_at h' g' b' x \<longleftrightarrow> used_at h g b' x \<or> b' = b \<and> x = a)"

lemma take_from_page:
  assumes ok: "heap_ok h g" and p: "p \<in> inuse h" "PR_BLOCKTYPE (pr_of h p) = b" and fl: "g_free g p = a # r"
  shows "\<exists>h' g'. doalloc c p (h\<lparr>kmalloc_spinlock := Some c\<rparr>) = Ok a h' \<and> took h g b a h' g'"
proof -
  note inv = heap_okD(1) [OF ok]
  define h1 where "h1 = h\<lparr>kmalloc_spinlock := Some c\<rparr>"
  have h1: "heap_inv h1 g" "p \<in> inuse h1" "kmalloc_spinlock h1 = Some c" using inv p by (simp_all add: h1_def)
  obtain prs where d: "doalloc c p h1 = Ok a (h1\<lparr>pagerefs := prs, kmalloc_spinlock := None\<rparr>)"
    "heap_inv (h1\<lparr>pagerefs := prs, kmalloc_spinlock := None\<rparr>) (g\<lparr>g_free := (g_free g)(p := r)\<rparr>)"
    "\<And>q. pageaddr_and_blocktype (prs ! q) = pageaddr_and_blocktype (pr_of h1 q)"
    using doalloc_spec [OF h1(1,2) fl h1(3)] by blast
  define h' where "h' = h1\<lparr>pagerefs := prs, kmalloc_spinlock := None\<rparr>"
  define g' where "g' = g\<lparr>g_free := (g_free g)(p := r)\<rparr>"
  have pab: "PR_PAGEADDR (pr_of h' q) = PR_PAGEADDR (pr_of h q) \<and> PR_BLOCKTYPE (pr_of h' q) = PR_BLOCKTYPE (pr_of h q)" for q
    using pab_eq [OF d(3) [of q]] by (simp add: h'_def h1_def)
  have iu: "inuse h' = inuse h" by (rule inuse_cong) (simp add: h'_def h1_def)
  have "page_used (pr_of h' q) (g_free g' q)" if "q \<in> inuse h" for q
    using heap_okD(3) [OF ok that] fl pab [of q] by (auto simp: page_used_def g'_def)
  then have ok': "heap_ok h' g'" using d(2) iu unfolding heap_ok_def h'_def g'_def by simp
  have u: "used_at h' g' b' x \<longleftrightarrow> used_at h g b' x \<or> b' = b \<and> x = a" "\<not> used_at h g b' a" for b' x
    using used_take [OF inv p(1) fl p(2) pab iu, of g'] by (simp_all add: g'_def)
  have kp: "page_addrs h' = page_addrs h" using pab iu by (simp add: page_addrs_def)
  have "0 < a" using free_in_page(1) [OF heap_invD(10) [OF inv p(1)], of a] pr_okD(3) [OF heap_invD(10) [OF inv p(1)]] fl by simp
  then show ?thesis using d(1) ok' u unfolding h1_def [symmetric] h'_def [symmetric] took_def
    by (intro exI [of _ h'] exI [of _ g']) (simp add: mem_kept_def kp, simp add: h'_def h1_def)
qed

text \<open>There is no memory for another page of blocks.\<close>

definition no_page :: "kheap \<Rightarrow> bool" where
  "no_page h \<longleftrightarrow> lastpaddr h < firstpaddr h + 4096 \<or> inuse h = {..<256}"

text \<open>\<open>kmalloc\<close> returned the null pointer: nothing is allocated, though a page may have been lost.\<close>

definition refused :: "kheap \<Rightarrow> gheap \<Rightarrow> kheap \<Rightarrow> gheap \<Rightarrow> bool" where
  "refused h g h' g' \<longleftrightarrow> heap_ok h' g' \<and> mem_kept h h' \<and> (\<forall>b x. used_at h' g' b x \<longleftrightarrow> used_at h g b x)"

lemma fresh_page:
  assumes ok: "heap_ok h g" and b: "b < 8" and room: "firstpaddr h + 4096 \<le> lastpaddr h"
  shows "\<exists>a h' g'. kbind (alloc_kpages c 1 h) (\<lambda>prpage h. if prpage = 0 then Ok 0 h else new_page c b prpage h) = Ok a h' \<and>
    (if a = 0 then refused h g h' g' \<and> no_page h else took h g b a h' g')"
proof -
  note inv = heap_okD(1) [OF ok]
  note i = heap_invD [OF inv]
  define h1 where "h1 = h\<lparr>firstpaddr := firstpaddr h + 4096\<rparr>"
  define pa where "pa = MIPS_KSEG0 + firstpaddr h"
  have al: "alloc_kpages c 1 h = Ok pa h1" "heap_inv h1 g" using alloc_kpages_spec(2) [OF inv, of 1 c] room by (simp_all add: h1_def pa_def)
  have iu1: "inuse h1 = inuse h" by (simp add: h1_def)
  have pa: "pa mod 4096 = 0" "MIPS_KSEG0 < pa" "pa + 4096 \<le> MIPS_KSEG0 + firstpaddr h1" "pa \<noteq> 0" "kmalloc_spinlock h1 = None"
    using i(13,14) heap_okD(2) [OF ok] by (auto simp: pa_def h1_def MIPS_KSEG0_def dvd_add)
  have far: "PR_PAGEADDR (pr_of h1 q) + 4096 \<le> pa" if "q \<in> inuse h1" for q
    using pr_okD(4) [OF i(10)] that iu1 by (simp add: pa_def h1_def)
  note np = new_page_spec [OF al(2) pa(5) b pa(1-3) far, of c]
  have used1: "used_at h1 g b' x \<longleftrightarrow> used_at h g b' x" for b' x by (simp add: used_at_def used_in_def h1_def)
  show ?thesis
  proof (cases "inuse h = {..<256}")
    case True
    then have "new_page c b pa h1 = Ok 0 h1" using np(1) iu1 by simp
    moreover have "heap_ok h1 g" using ok al(2) by (simp add: heap_ok_def h1_def)
    then have "refused h g h1 g" using used1 by (simp add: refused_def mem_kept_def page_addrs_def h1_def)
    ultimately show ?thesis using True al(1) pa(4) by (auto simp: no_page_def)
  next
    case False
    have sel: "pagerefs h1 = pagerefs h" "mem h1 = mem h" "lastpaddr h1 = lastpaddr h" by (simp_all add: h1_def)
    obtain h' g' a p r where n: "new_page c b pa h1 = Ok a h'" "heap_inv h' g'" "kmalloc_spinlock h' = None"
      "p \<notin> inuse h" "inuse h' = insert p (inuse h)" "PR_PAGEADDR (pr_of h' p) = pa" "PR_BLOCKTYPE (pr_of h' p) = b"
      "\<forall>q \<in> inuse h. pageaddr_and_blocktype (pr_of h' q) = pageaddr_and_blocktype (pr_of h q)"
      "g_free g' = (g_free g)(p := r)" "new_free (4096 div sizes ! b) (sizes ! b) pa = a # r"
      "firstpaddr h' = firstpaddr h1" "lastpaddr h' = lastpaddr h" "\<forall>x. x < pa \<or> pa + 4096 \<le> x \<longrightarrow> mem h' x = mem h x"
      using np(2) [OF _ False [folded iu1]] unfolding iu1 sel by blast
    have old: "used_in h' g' b' x q \<longleftrightarrow> used_in h g b' x q" if "q \<in> inuse h" for b' x q
      using pab_eq [OF n(8) [rule_format, OF that]] n(4,9) that by (auto simp: used_in_def)
    have sz: "0 < sizes ! b" using sizes_facts(3) [OF b] by simp
    have st: "set (a # r) = slots pa (sizes ! b)" "distinct (a # r)" "length (a # r) = 4096 div sizes ! b"
      using new_free_facts [of "sizes ! b" "4096 div sizes ! b" pa] new_free_facts(2,3) [of "4096 div sizes ! b" "sizes ! b" pa] sz
      unfolding n(10) by (simp_all add: slots_def)
    have new: "used_in h' g' b' x p \<longleftrightarrow> b' = b \<and> x = a" for b' x
      using n(6,7,9) st(1,2) by (auto simp: used_in_def)
    have u: "used_at h' g' b' x \<longleftrightarrow> used_at h g b' x \<or> b' = b \<and> x = a" for b' x
      unfolding used_at_def n(5) using old new by auto
    have a: "pa \<le> a" using slot_bounds(1) [OF b, of a pa] st(1) by auto
    have "\<not> used_at h g b' a" for b'
    proof
      assume "used_at h g b' a"
      then obtain q where q: "q \<in> inuse h" "a \<in> slots (PR_PAGEADDR (pr_of h q)) (sizes ! PR_BLOCKTYPE (pr_of h q))"
        by (auto simp: used_at_def used_in_def)
      then show False using slot_in_page(3) [OF inv q] far [of q] a iu1 by (simp add: h1_def)
    qed
    moreover have "page_used (pr_of h' q) (g_free g' q)" if "q \<in> inuse h'" for q
    proof (cases "q = p")
      case True
      then show ?thesis using st(3) n(7,9) by (simp add: page_used_def)
    next
      case False
      then have "q \<in> inuse h" using that n(5) by simp
      then show ?thesis using heap_okD(3) [OF ok] pab_eq [OF n(8) [rule_format]] False n(9) by (auto simp: page_used_def)
    qed
    moreover have "page_addrs h' = insert pa (page_addrs h)"
      using pab_eq [OF n(8) [rule_format]] n(5,6) by (auto simp: page_addrs_def image_iff)
    then have "mem_kept h h'" using n(11-13) by (simp add: mem_kept_def h1_def pa_def)
    ultimately have "took h g b a h' g'" using n(2,3) u a pa(4) by (auto simp: took_def heap_ok_def)
    moreover have "a \<noteq> 0" using a pa(4) by simp
    ultimately show ?thesis using n(1) al(1) pa(4) by auto
  qed
qed

lemma subpage_kmalloc_spec:
  assumes ok: "heap_ok h g" and b: "blocktype sz = Some b" "b < 8"
  shows "\<exists>a h' g'. subpage_kmalloc c sz h = Ok a h' \<and>
    (if a = 0 then refused h g h' g' \<and> no_page h \<and> (\<forall>p \<in> inuse h. PR_BLOCKTYPE (pr_of h p) = b \<longrightarrow> g_free g p = []) else took h g b a h' g')"
proof -
  note inv = heap_okD(1) [OF ok]
  note i = heap_invD [OF inv]
  define h1 where "h1 = h\<lparr>kmalloc_spinlock := Some c\<rparr>"
  define ps where "ps = g_same g b"
  have st: "set ps = {p \<in> inuse h. PR_BLOCKTYPE (pr_of h p) = b}" using i(9) [OF b(2)] by (simp add: ps_def)
  have len: "length ps < Suc NPAGEREFS"
  proof -
    have "length ps = card (set ps)" using i(8) [OF b(2)] by (simp add: distinct_card ps_def)
    also have "\<dots> \<le> card {..<256 :: nat}" using inuse_less st by (intro card_mono) auto
    finally show ?thesis by simp
  qed
  have s: "search_loop (Suc NPAGEREFS) b (sizebases h ! b) h1 = Ok (find (\<lambda>p. nfree (pr_of h1 p) > 0) ps) h1"
    using i(7) [OF b(2)] st len by (intro search_loop_spec) (auto simp: h1_def ps_def)
  have nf: "nfree (pr_of h1 p) = length (g_free g p)" if "p \<in> set ps" for p
    using pr_okD(7) [OF i(10)] that st by (simp add: h1_def)
  show ?thesis
  proof (cases "find (\<lambda>p. nfree (pr_of h1 p) > 0) ps")
    case (Some p)
    then have p: "p \<in> set ps" "nfree (pr_of h1 p) > 0" by (auto simp: find_Some_iff)
    then obtain a r where fl: "g_free g p = a # r" using nf by (cases "g_free g p") auto
    have "p \<in> inuse h" "PR_BLOCKTYPE (pr_of h p) = b" using p st by auto
    from take_from_page [OF ok this fl, of c] obtain h' g' where "doalloc c p h1 = Ok a h'" "took h g b a h' g'" by (auto simp: h1_def)
    moreover have "subpage_kmalloc c sz h = doalloc c p h1"
      using s Some b(1) heap_okD(2) [OF ok] by (simp add: subpage_kmalloc_def deref_def spinlock_acquire_def h1_def)
    moreover have "a \<noteq> 0" using calculation(2) by (simp add: took_def)
    ultimately show ?thesis by auto
  next
    case None
    have none: "g_free g p = []" if "p \<in> inuse h" "PR_BLOCKTYPE (pr_of h p) = b" for p
      using None nf [of p] that st by (auto simp: find_None_iff)
    have unlock: "h\<lparr>kmalloc_spinlock := None\<rparr> = h" using heap_okD(2) [OF ok] by (cases h) simp
    have e: "subpage_kmalloc c sz h = kbind (alloc_kpages c 1 h) (\<lambda>prpage h. if prpage = 0 then Ok 0 h else new_page c b prpage h)"
      using s None b(1) heap_okD(2) [OF ok] by (simp add: unlock subpage_kmalloc_def deref_def spinlock_acquire_def spinlock_release_def h1_def)
    show ?thesis
    proof (cases "lastpaddr h < firstpaddr h + 4096")
      case True
      have "refused h g h g" using ok by (simp add: refused_def mem_kept_def)
      then show ?thesis using True none alloc_kpages_spec(1) [OF inv, of 1 c] unfolding e by (auto simp: no_page_def)
    next
      case False
      then obtain a h' g' where "kbind (alloc_kpages c 1 h) (\<lambda>prpage h. if prpage = 0 then Ok 0 h else new_page c b prpage h) = Ok a h'"
        "if a = 0 then refused h g h' g' \<and> no_page h else took h g b a h' g'" using fresh_page [OF ok b(2), of c] by auto
      then show ?thesis using none unfolding e by (intro exI [of _ a] exI [of _ h'] exI [of _ g']) simp
    qed
  qed
qed

section \<open>Unlinking a page\<close>

lemma unlink_loop_spec:
  assumes "chain (\<lambda>q. get h (Field q)) (get h g0) (xs @ p # ys)" "p \<notin> set xs" "length xs < n"
  shows "unlink_loop n get put p g0 h = Ok () (put (if xs = [] then g0 else Field (last xs)) (get h (Field p)) h)"
  using assms
proof (induction xs arbitrary: n g0)
  case Nil
  then show ?case by (cases n) auto
next
  case (Cons x xs)
  obtain n' where n: "n = Suc n'" using Cons.prems(3) by (cases n) auto
  have "unlink_loop n' get put p (Field x) h = Ok () (put (if xs = [] then Field x else Field (last xs)) (get h (Field p)) h)"
    using Cons.prems n by (intro Cons.IH) auto
  then show ?case using Cons.prems n by auto
qed

text \<open>The list of all pages or of the pages of one block size, as one of the two fields of a reference and a base.\<close>

lemma chain_unlink:
  assumes "chain f base (xs @ p # ys)" "distinct (xs @ p # ys)"
    and f': "\<And>q. f' q = (if xs \<noteq> [] \<and> q = last xs then f p else f q)" and b': "base' = (if xs = [] then f p else base)"
  shows "chain f' base' (xs @ ys)"
proof (cases "xs = []")
  case True
  then show ?thesis using assms(1) b' chain_cong [of ys f' f] f' by auto
next
  case False
  have "f' = f(last xs := f p)" using f' False by auto
  then show ?thesis using chain_remove [OF assms(1,2) False] False b' by simp
qed

lemma split_remove1: "distinct ps \<Longrightarrow> p \<in> set ps \<Longrightarrow> \<exists>xs ys. ps = xs @ p # ys \<and> p \<notin> set xs \<and> remove1 p ps = xs @ ys"
  by (metis in_set_conv_decomp_first remove1_append remove1.simps(2))

definition same_pages :: "pageref list \<Rightarrow> pageref list \<Rightarrow> bool" where
  "same_pages prs prs' \<longleftrightarrow> length prs' = length prs \<and> (\<forall>q. pageaddr_and_blocktype (prs' ! q) = pageaddr_and_blocktype (prs ! q) \<and>
     freelist_offset (prs' ! q) = freelist_offset (prs ! q) \<and> nfree (prs' ! q) = nfree (prs ! q))"

lemma unlink_same:
  assumes c: "chain (\<lambda>q. next_samesize (pr_of h q)) (sizebases h ! b) ps" "distinct ps" "p \<in> set ps" "length ps < n"
    and l: "set ps \<subseteq> {..<length (pagerefs h)}" "b < length (sizebases h)"
  shows "\<exists>prs sb. unlink_loop n (get_same b) (set_same b) p Base h = Ok () (h\<lparr>pagerefs := prs, sizebases := sb\<rparr>) \<and> same_pages (pagerefs h) prs \<and>
    (\<forall>q. next_all (prs ! q) = next_all (pr_of h q)) \<and> (\<forall>q. q \<notin> set ps \<longrightarrow> prs ! q = pr_of h q) \<and>
    length sb = length (sizebases h) \<and> (\<forall>k. k \<noteq> b \<longrightarrow> sb ! k = sizebases h ! k) \<and> chain (\<lambda>q. next_samesize (prs ! q)) (sb ! b) (remove1 p ps)"
proof -
  obtain xs ys where ps: "ps = xs @ p # ys" "p \<notin> set xs" "remove1 p ps = xs @ ys" using split_remove1 [OF c(2,3)] by blast
  have u: "unlink_loop n (get_same b) (set_same b) p Base h =
    Ok () (set_same b (if xs = [] then Base else Field (last xs)) (get_same b h (Field p)) h)"
    using c(1,4) ps by (intro unlink_loop_spec) (auto simp: get_same_def)
  show ?thesis
  proof (cases "xs = []")
    case True
    have "chain (\<lambda>q. next_samesize (pr_of h q)) (next_samesize (pr_of h p)) (xs @ ys)"
      using c(1) ps True by simp
    then show ?thesis using u True ps l(2)
      by (intro exI [of _ "pagerefs h"] exI [of _ "(sizebases h)[b := next_samesize (pr_of h p)]"]) (simp add: set_same_def get_same_def same_pages_def)
  next
    case False
    let ?prs = "(pagerefs h)[last xs := pr_of h (last xs)\<lparr>next_samesize := next_samesize (pr_of h p)\<rparr>]"
    have lx: "last xs < length (pagerefs h)" "last xs \<in> set ps" using last_in_set [OF False] l(1) ps(1) by auto
    have "chain (\<lambda>q. next_samesize (?prs ! q)) (sizebases h ! b) (xs @ ys)"
      by (rule chain_unlink [of "\<lambda>q. next_samesize (pr_of h q)" "sizebases h ! b" xs p ys])
        (use c(1,2) ps(1) lx(1) False in \<open>auto simp: nth_list_update\<close>)
    then show ?thesis using u False ps(3) lx
      by (intro exI [of _ ?prs] exI [of _ "sizebases h"]) (auto simp: set_same_def get_same_def same_pages_def upd_pr_def nth_list_update)
  qed
qed

lemma unlink_all:
  assumes c: "chain (\<lambda>q. next_all (pr_of h q)) (allbase h) ps" "distinct ps" "p \<in> set ps" "length ps < n"
    and l: "set ps \<subseteq> {..<length (pagerefs h)}"
  shows "\<exists>prs ab. unlink_loop n get_all set_all p Base h = Ok () (h\<lparr>pagerefs := prs, allbase := ab\<rparr>) \<and> same_pages (pagerefs h) prs \<and>
    (\<forall>q. next_samesize (prs ! q) = next_samesize (pr_of h q)) \<and> chain (\<lambda>q. next_all (prs ! q)) ab (remove1 p ps)"
proof -
  obtain xs ys where ps: "ps = xs @ p # ys" "p \<notin> set xs" "remove1 p ps = xs @ ys" using split_remove1 [OF c(2,3)] by blast
  have u: "unlink_loop n get_all set_all p Base h = Ok () (set_all (if xs = [] then Base else Field (last xs)) (get_all h (Field p)) h)"
    using c(1,4) ps by (intro unlink_loop_spec) (auto simp: get_all_def)
  show ?thesis
  proof (cases "xs = []")
    case True
    have "chain (\<lambda>q. next_all (pr_of h q)) (next_all (pr_of h p)) (xs @ ys)" using c(1) ps True by simp
    then show ?thesis using u True ps
      by (intro exI [of _ "pagerefs h"] exI [of _ "next_all (pr_of h p)"]) (simp add: set_all_def get_all_def same_pages_def)
  next
    case False
    let ?prs = "(pagerefs h)[last xs := pr_of h (last xs)\<lparr>next_all := next_all (pr_of h p)\<rparr>]"
    have lx: "last xs < length (pagerefs h)" using last_in_set [OF False] l ps(1) by auto
    have "chain (\<lambda>q. next_all (?prs ! q)) (allbase h) (xs @ ys)"
      by (rule chain_unlink [of "\<lambda>q. next_all (pr_of h q)" "allbase h" xs p ys])
        (use c(1,2) ps(1) lx(1) False in \<open>auto simp: nth_list_update\<close>)
    then show ?thesis using u False ps(3) lx
      by (intro exI [of _ ?prs] exI [of _ "allbase h"]) (auto simp: set_all_def get_all_def same_pages_def upd_pr_def nth_list_update)
  qed
qed

lemma set_length_256: "distinct ps \<Longrightarrow> set ps \<subseteq> {..<256 :: nat} \<Longrightarrow> length ps < 257"
  using card_mono [of "{..<256 :: nat}" "set ps"] by (simp add: distinct_card)

lemma remove_page:
  assumes inv: "heap_inv h g" and p: "p \<in> inuse h" "PR_BLOCKTYPE (pr_of h p) = b"
  shows "\<exists>h' g'. kbind (remove_lists p b h) (\<lambda>_ h. freepageref p h) = Ok () h' \<and> heap_inv h' g' \<and> inuse h' = inuse h - {p} \<and>
    g_free g' = g_free g \<and> (\<forall>q. pageaddr_and_blocktype (pr_of h' q) = pageaddr_and_blocktype (pr_of h q)) \<and>
    kmalloc_spinlock h' = kmalloc_spinlock h \<and> mem h' = mem h \<and> firstpaddr h' = firstpaddr h \<and> lastpaddr h' = lastpaddr h"
proof -
  note i = heap_invD [OF inv]
  have b: "b < 8" using pr_okD(1) [OF i(10) [OF p(1)]] p(2) by simp
  have small: "inuse h \<subseteq> {..<256}" using inuse_less by auto
  have st: "set (g_same g b) = {q \<in> inuse h. PR_BLOCKTYPE (pr_of h q) = b}" by (rule i(9) [OF b])
  have pin: "p \<in> set (g_same g b)" using p st by simp
  have len: "length (g_same g b) < Suc NPAGEREFS" using set_length_256 [OF i(8) [OF b]] st small by auto
  have sub: "set (g_same g b) \<subseteq> {..<length (pagerefs h)}" "b < length (sizebases h)" using st small i(1,3) b by auto
  obtain prs1 sb where u1: "unlink_loop (Suc NPAGEREFS) (get_same b) (set_same b) p Base h = Ok () (h\<lparr>pagerefs := prs1, sizebases := sb\<rparr>)"
    "same_pages (pagerefs h) prs1" "\<And>q. next_all (prs1 ! q) = next_all (pr_of h q)" "\<And>q. q \<notin> set (g_same g b) \<Longrightarrow> prs1 ! q = pr_of h q"
    "length sb = length (sizebases h)" "\<And>k. k \<noteq> b \<Longrightarrow> sb ! k = sizebases h ! k" "chain (\<lambda>q. next_samesize (prs1 ! q)) (sb ! b) (remove1 p (g_same g b))"
    using unlink_same [OF i(7) [OF b] i(8) [OF b] pin len sub] by blast
  define h1 where "h1 = h\<lparr>pagerefs := prs1, sizebases := sb\<rparr>"
  have "chain (\<lambda>q. next_all (pr_of h1 q)) (allbase h1) (g_all g)" using i(4) u1(3) by (simp add: h1_def)
  moreover have "length (g_all g) < 257" using set_length_256 [OF i(5)] i(6) small by simp
  moreover have "length prs1 = 256" using u1(2) i(1) by (simp add: same_pages_def)
  ultimately obtain prs ab where u2: "unlink_loop (Suc NPAGEREFS) get_all set_all p Base h1 = Ok () (h1\<lparr>pagerefs := prs, allbase := ab\<rparr>)"
    "same_pages prs1 prs" "\<And>q. next_samesize (prs ! q) = next_samesize (prs1 ! q)" "chain (\<lambda>q. next_all (prs ! q)) ab (remove1 p (g_all g))"
    using unlink_all [of h1 "g_all g" p "Suc NPAGEREFS"] i(5,6) p(1) small by (auto simp: h1_def)
  define h2 where "h2 = h1\<lparr>pagerefs := prs, allbase := ab\<rparr>"
  have r: "remove_lists p b h = Ok () h2" using u1(1) u2(1) b by (simp add: remove_lists_def h1_def h2_def)
  have iu2: "inuse h2 = inuse h" by (rule inuse_cong) (simp add: h2_def h1_def)
  obtain ws where f: "freepageref p h2 = Ok () (h2\<lparr>pagerefs_inuse := ws\<rparr>)" "length ws = 8" "inuse (h2\<lparr>pagerefs_inuse := ws\<rparr>) = inuse h - {p}"
    using freepageref_spec [of h2 p] i(2) p(1) iu2 by (auto simp: h2_def h1_def)
  define h' where "h' = h2\<lparr>pagerefs_inuse := ws\<rparr>"
  define g' where "g' = g\<lparr>g_all := remove1 p (g_all g), g_same := (g_same g)(b := remove1 p (g_same g b))\<rparr>"
  have sp: "same_pages (pagerefs h) prs" using u1(2) u2(2) by (simp add: same_pages_def)
  have pab: "PR_PAGEADDR (prs ! q) = PR_PAGEADDR (pr_of h q)" "PR_BLOCKTYPE (prs ! q) = PR_BLOCKTYPE (pr_of h q)" for q
    using sp pab_eq [of "prs ! q" "pr_of h q"] by (simp_all add: same_pages_def)
  have iu': "inuse h' = inuse h - {p}" using f(3) by (simp add: h'_def)
  have prs': "pagerefs h' = prs" "sizebases h' = sb" "allbase h' = ab" "mem h' = mem h" "firstpaddr h' = firstpaddr h" "lastpaddr h' = lastpaddr h"
    "kmalloc_spinlock h' = kmalloc_spinlock h" "stealmem_lock h' = stealmem_lock h" "pagerefs_inuse h' = ws"
    by (simp_all add: h'_def h2_def h1_def)
  have "pr_ok (firstpaddr h) (mem h) (prs ! q) (g_free g q)" if "q \<in> inuse h" for q
    using i(10) [OF that] sp pab [of q] unfolding pr_ok_def same_pages_def by (simp cong: list.case_cong)
  then have "pages_ok h' g'" unfolding pages_ok_def iu' prs' pab using i(11) by (auto simp: g'_def)
  moreover have "lists_ok h' g'"
  proof -
    have "chain (\<lambda>q. next_samesize (prs ! q)) (sb ! k) (g_same g' k) \<and> distinct (g_same g' k) \<and>
      set (g_same g' k) = {q \<in> inuse h - {p}. PR_BLOCKTYPE (pr_of h q) = k}" if k: "k < 8" for k
    proof (cases "k = b")
      case True
      then show ?thesis using u1(7) u2(3) i(8) [OF b] st by (auto simp: g'_def set_remove1_eq)
    next
      case False
      have "chain (\<lambda>q. next_samesize (prs1 ! q)) (sizebases h ! k) (g_same g k) = chain (\<lambda>q. next_samesize (pr_of h q)) (sizebases h ! k) (g_same g k)"
        by (rule chain_cong) (use u1(4) i(9) [OF k] st False in auto)
      then show ?thesis using False i(7-9) [OF k] u1(6) u2(3) p(2) by (auto simp: g'_def)
    qed
    then show ?thesis unfolding lists_ok_def iu' prs' pab using u2(4) i(1,3,5,6) sp u1(5) f(2)
      by (simp add: g'_def same_pages_def set_remove1_eq)
  qed
  moreover have "ram_ok h'" using i(12-16) by (simp add: ram_ok_def prs')
  ultimately have "heap_inv h' g'" by (simp add: heap_inv_def)
  moreover have "kbind (remove_lists p b h) (\<lambda>_ h. freepageref p h) = Ok () h'" using r f(1) by (simp add: h'_def)
  ultimately show ?thesis using iu' prs' sp by (intro exI [of _ h'] exI [of _ g']) (simp add: g'_def same_pages_def)
qed

section \<open>Freeing a block\<close>

lemma fill_words_eq: "fill_words a n h = h\<lparr>mem := \<lambda>x. if \<exists>i < n. x = a + 4 * i then 0xdeadbeef else mem h x\<rparr>"
proof (induction n)
  case (Suc n)
  have "fill_words a (Suc n) h = store (a + 4 * n) 0xdeadbeef (fill_words a n h)" by (simp add: fill_words_def)
  moreover have "(\<lambda>x. if \<exists>i < n. x = a + 4 * i then 0xdeadbeef else mem h x)(a + 4 * n := 0xdeadbeef) =
    (\<lambda>x. if \<exists>i < Suc n. x = a + 4 * i then 0xdeadbeef else mem h x)" by (auto simp: fun_eq_iff less_Suc_eq)
  ultimately show ?case unfolding Suc by (simp add: store_def)
qed (simp add: fill_words_def)

lemma find_page:
  assumes inv: "heap_inv h g"
  shows "page_loop (Suc NPAGEREFS) a (allbase h) (h\<lparr>kmalloc_spinlock := x\<rparr>) =
    Ok (find (\<lambda>p. PR_PAGEADDR (pr_of h p) \<le> a \<and> a < PR_PAGEADDR (pr_of h p) + 4096) (g_all g)) (h\<lparr>kmalloc_spinlock := x\<rparr>)"
proof -
  note i = heap_invD [OF inv]
  have ok: "PR_BLOCKTYPE (pr_of h p) < 8" "PR_PAGEADDR (pr_of h p) + 4096 < 2 ^ 32" if "p \<in> set (g_all g)" for p
    using pr_okD(1,4) [OF i(10), of p] that i(6,15,16) by (simp_all add: MIPS_KSEG0_def)
  have "inuse h \<subseteq> {..<256}" using inuse_less by auto
  then have "length (g_all g) < Suc NPAGEREFS" using set_length_256 [OF i(5)] i(6) by simp
  then show ?thesis using page_loop_spec [of "h\<lparr>kmalloc_spinlock := x\<rparr>" "allbase h" "g_all g" "Suc NPAGEREFS" a] ok i(4) by simp
qed

lemma find_page_Some:
  assumes inv: "heap_inv h g" and p: "p \<in> inuse h" "PR_PAGEADDR (pr_of h p) \<le> a" "a < PR_PAGEADDR (pr_of h p) + 4096"
  shows "find (\<lambda>p. PR_PAGEADDR (pr_of h p) \<le> a \<and> a < PR_PAGEADDR (pr_of h p) + 4096) (g_all g) = Some p"
proof -
  obtain q where q: "find (\<lambda>p. PR_PAGEADDR (pr_of h p) \<le> a \<and> a < PR_PAGEADDR (pr_of h p) + 4096) (g_all g) = Some q"
    using p heap_invD(6) [OF inv] by (cases "find (\<lambda>p. PR_PAGEADDR (pr_of h p) \<le> a \<and> a < PR_PAGEADDR (pr_of h p) + 4096) (g_all g)") (auto simp: find_None_iff)
  then have "q \<in> inuse h" "PR_PAGEADDR (pr_of h q) \<le> a" "a < PR_PAGEADDR (pr_of h q) + 4096" using heap_invD(6) [OF inv] by (auto simp: find_Some_iff)
  then show ?thesis using q same_page [OF inv p(1)] p(2,3) by blast
qed

text \<open>The page after the block \<open>a\<close> was put at the front of its free list.\<close>

definition freed_mem :: "nat \<Rightarrow> nat \<Rightarrow> nat list \<Rightarrow> (nat \<Rightarrow> nat) \<Rightarrow> nat \<Rightarrow> nat" where
  "freed_mem a sz fl m x = (if x = a then (case fl of [] \<Rightarrow> 0 | y # _ \<Rightarrow> y) else if \<exists>i < sz div 4. x = a + 4 * i then 0xdeadbeef else m x)"

lemma freed_mem_outside: "0 < sz \<Longrightarrow> x < a \<or> a + sz \<le> x \<Longrightarrow> freed_mem a sz fl m x = m x"
proof -
  assume x: "0 < sz" "x < a \<or> a + sz \<le> x"
  have "x \<noteq> a + 4 * i" if "i < sz div 4" for i
  proof -
    have "4 * i < sz" using that by linarith
    then show ?thesis using x(2) by auto
  qed
  then show ?thesis using x by (auto simp: freed_mem_def)
qed

lemma freed_page_ok:
  assumes ok: "pr_ok hi m pr fl" and a: "a \<in> slots (PR_PAGEADDR pr) (sizes ! PR_BLOCKTYPE pr)" "a \<notin> set fl"
  shows "pr_ok hi (freed_mem a (sizes ! PR_BLOCKTYPE pr) fl m) (pr\<lparr>freelist_offset := a - PR_PAGEADDR pr, nfree := Suc (length fl)\<rparr>) (a # fl)"
proof -
  note k = pr_okD [OF ok]
  let ?sz = "sizes ! PR_BLOCKTYPE pr"
  let ?m = "freed_mem a ?sz fl m"
  have out: "?m x = m x" if "x \<in> set fl" for x
  proof -
    have "x \<in> slots (PR_PAGEADDR pr) ?sz" "x \<noteq> a" using that k(6) a(2) by auto
    then have "x + ?sz \<le> a \<or> a + ?sz \<le> x" using slot_apart [OF k(1)] a(1) by (metis nat_neq_iff)
    then show ?thesis using sizes_facts(3) [OF k(1)] by (intro freed_mem_outside) auto
  qed
  have nz: "0 \<notin> set fl" using free_in_page(1) [OF ok] k(3) by fastforce
  have "chain (\<lambda>x. ptr (?m x)) q fl = chain (\<lambda>x. ptr (m x)) q fl" for q by (rule chain_cong) (simp add: out)
  moreover have "ptr (?m a) = (case fl of [] \<Rightarrow> None | x # _ \<Rightarrow> Some x)" using nz by (cases fl) (simp_all add: freed_mem_def ptr_def)
  ultimately have "chain (\<lambda>x. ptr (?m x)) (Some a) (a # fl)" using k(9) by simp
  then show ?thesis unfolding pr_ok_def using k a by simp
qed

text \<open>\<open>kfree\<close> took back the block \<open>a\<close> of type \<open>b\<close>.\<close>

definition gave :: "kheap \<Rightarrow> gheap \<Rightarrow> nat \<Rightarrow> nat \<Rightarrow> kheap \<Rightarrow> gheap \<Rightarrow> bool" where
  "gave h g b a h' g' \<longleftrightarrow> heap_ok h' g' \<and> lastpaddr h' = lastpaddr h \<and> firstpaddr h' = firstpaddr h \<and>
     page_addrs h' \<subseteq> page_addrs h \<and> (\<forall>b' x. used_at h' g' b' x \<longleftrightarrow> used_at h g b' x \<and> x \<noteq> a) \<and> (\<forall>x. x < a \<or> a + sizes ! b \<le> x \<longrightarrow> mem h' x = mem h x)"

lemma used_atD:
  assumes inv: "heap_inv h g" and u: "used_at h g b a"
  obtains p where "p \<in> inuse h" "PR_BLOCKTYPE (pr_of h p) = b" "a \<in> slots (PR_PAGEADDR (pr_of h p)) (sizes ! b)" "a \<notin> set (g_free g p)" "b < 8"
    "PR_PAGEADDR (pr_of h p) \<le> a" "a + sizes ! b \<le> PR_PAGEADDR (pr_of h p) + 4096" "a < PR_PAGEADDR (pr_of h p) + 4096"
proof -
  obtain p where p: "p \<in> inuse h" "used_in h g b a p" using u by (auto simp: used_at_def)
  then show thesis using slot_in_page [OF inv p(1), of a] pr_okD(1) [OF heap_invD(10) [OF inv p(1)]] by (intro that [of p]) (auto simp: used_in_def)
qed

lemma used_not:
  assumes inv: "heap_inv h g" and p: "p \<in> inuse h" "PR_PAGEADDR (pr_of h p) \<le> a" "a < PR_PAGEADDR (pr_of h p) + 4096"
    and q: "q \<in> inuse h" "q \<noteq> p"
  shows "\<not> used_in h g b' a q"
proof
  assume "used_in h g b' a q"
  then have "a \<in> slots (PR_PAGEADDR (pr_of h q)) (sizes ! PR_BLOCKTYPE (pr_of h q))" by (auto simp: used_in_def)
  from slot_in_page [OF inv q(1) this] same_page [OF inv p(1) q(1) p(2,3)] q(2) show False by blast
qed

definition freed :: "nat \<Rightarrow> nat \<Rightarrow> nat \<Rightarrow> nat list \<Rightarrow> kheap \<Rightarrow> kheap" where
  "freed c p a fl h = h\<lparr>pagerefs := (pagerefs h)[p := pr_of h p\<lparr>freelist_offset := a - PR_PAGEADDR (pr_of h p), nfree := Suc (length fl)\<rparr>],
     kmalloc_spinlock := Some c, mem := freed_mem a (sizes ! PR_BLOCKTYPE (pr_of h p)) fl (mem h)\<rparr>"

lemma subpage_kfree_eq:
  assumes ok: "heap_ok h g" and p: "p \<in> inuse h" "PR_BLOCKTYPE (pr_of h p) = b" "a \<in> slots (PR_PAGEADDR (pr_of h p)) (sizes ! b)"
  defines "fl \<equiv> g_free g p" and "sz \<equiv> sizes ! b"
  shows "subpage_kfree c a h = (if Suc (length fl) = 4096 div sz
      then kbind (kbind (remove_lists p b (freed c p a fl h)) (\<lambda>_ h. freepageref p h)) (\<lambda>_ h.
        spinlock_release c (kmalloc_spinlock h) (\<lambda>lk. Ok True (h\<lparr>kmalloc_spinlock := lk\<rparr>)))
      else Ok True ((freed c p a fl h)\<lparr>kmalloc_spinlock := None\<rparr>))"
proof -
  note inv = heap_okD(1) [OF ok]
  note i = heap_invD [OF inv]
  define pa where "pa = PR_PAGEADDR (pr_of h p)"
  define m' where "m' = freed_mem a sz fl (mem h)"
  define h2 where "h2 = freed c p a fl h"
  have pk: "pr_ok (firstpaddr h) (mem h) (pr_of h p) fl" using i(10) [OF p(1)] by (simp add: fl_def)
  note k = pr_okD [OF pk, unfolded p(2), folded pa_def sz_def]
  have b: "b < 8" using k(1) .
  have pa: "pa \<le> a" "a < pa + 4096" using slot_in_page [OF inv p(1)] p(2,3) by (auto simp: pa_def)
  have lp: "p < length (pagerefs h)" using inuse_less [OF p(1)] i(1) by simp
  have h2: "h2 = h\<lparr>pagerefs := (pagerefs h)[p := pr_of h p\<lparr>freelist_offset := a - pa, nfree := Suc (length fl)\<rparr>], kmalloc_spinlock := Some c, mem := m'\<rparr>"
    by (simp add: h2_def freed_def m'_def pa_def sz_def p(2))
  have 1: "page_loop (Suc NPAGEREFS) a (allbase h) (h\<lparr>kmalloc_spinlock := Some c\<rparr>) = Ok (Some p) (h\<lparr>kmalloc_spinlock := Some c\<rparr>)"
    using find_page [OF inv, of a "Some c"] find_page_Some [OF inv p(1) pa [unfolded pa_def]] by simp
  have off: "wsub32 a pa = a - pa" "a - pa < 4096" "(a - pa) mod sz = 0" "wadd32 pa (a - pa) = a" "(a - pa) mod 65536 = a - pa"
    using pa slot_bounds(3) [OF b p(3)] k(4) i(15,16) by (auto simp: pa_def sz_def MIPS_KSEG0_def)
  have lf: "length fl < 4096 div sz" "4096 div sz \<le> 256"
    using heap_okD(3) [OF ok p(1)] sizes_facts(6) [OF b] p(2) by (simp_all add: page_used_def fl_def sz_def)
  have fo: "(if freelist_offset (pr_of h p) = INVALID_OFFSET then 0 else wadd32 pa (freelist_offset (pr_of h p))) = (case fl of [] \<Rightarrow> 0 | y # _ \<Rightarrow> y)"
  proof (cases fl)
    case (Cons y ys)
    then have "pa \<le> y" "y < pa + 4096" using free_in_page [OF pk, of y] by (auto simp: pa_def)
    then show ?thesis using Cons k(4,8) i(15,16) by (auto simp: INVALID_OFFSET_def MIPS_KSEG0_def)
  qed (use k(8) in simp)
  have m: "(\<lambda>x. if \<exists>i < sz div 4. x = a + 4 * i then 0xdeadbeef else mem h x)(a := case fl of [] \<Rightarrow> 0 | y # _ \<Rightarrow> y) = m'"
    by (auto simp: m'_def freed_mem_def fun_eq_iff)
  have nf: "(nfree (pr_of h p) + 1) mod 65536 = Suc (length fl)" using k(7) lf by simp
  have st: "store a (case fl of [] \<Rightarrow> 0 | y # _ \<Rightarrow> y) (fill_deadbeef a sz (h\<lparr>kmalloc_spinlock := Some c\<rparr>)) = h\<lparr>kmalloc_spinlock := Some c, mem := m'\<rparr>"
    unfolding fill_deadbeef_def fill_words_eq using m by (simp add: store_def cong: if_cong)
  have up: "upd_pr p (\<lambda>pr. pr\<lparr>freelist_offset := (a - pa) mod 2 ^ 16, nfree := (nfree pr + 1) mod 2 ^ 16\<rparr>) (h\<lparr>kmalloc_spinlock := Some c, mem := m'\<rparr>) = h2"
    using nf off(5) by (simp add: upd_pr_def h2)
  have fp: "pagerefs (fill_deadbeef a sz h') = pagerefs h'" for h' by (simp add: fill_deadbeef_def fill_words_eq)
  have sel: "pagerefs (h\<lparr>kmalloc_spinlock := Some c\<rparr>) = pagerefs h" by simp
  have ok2: "nfree (pr_of h2 p) = Suc (length fl)" "kmalloc_spinlock h2 = Some c" using lp by (simp_all add: h2)
  have cond: "(PAGE_SIZE \<le> a - pa \<or> (a - pa) mod sz \<noteq> 0) = False" "(Suc (length fl) \<le> PAGE_SIZE div sz) = True" using off lf by auto
  have "subpage_kfree c a h = (if Suc (length fl) = PAGE_SIZE div sz
    then kbind (remove_lists p b h2) (\<lambda>_ h. kbind (freepageref p h) (\<lambda>_ h. spinlock_release c (kmalloc_spinlock h) (\<lambda>lk.
      kbind (free_kpages pa (h\<lparr>kmalloc_spinlock := lk\<rparr>)) (\<lambda>_ h. Ok True h))))
    else spinlock_release c (kmalloc_spinlock h2) (\<lambda>lk. Ok True (h2\<lparr>kmalloc_spinlock := lk\<rparr>)))"
    unfolding subpage_kfree_def spinlock_acquire_def heap_okD(2) [OF ok]
    by (simp only: 1 kbind.simps option.case option.distinct if_False not_True_eq_False Let_def sel fp pa_def [symmetric] p(2)
      sz_def [symmetric] off(1,4) cond fo st up ok2 kassert_True simp_thms)
  then show ?thesis using ok2(2) by (simp add: free_kpages_def spinlock_release_def kbind_assoc h2_def)
qed

lemma freed_pab: "p < length (pagerefs h) \<Longrightarrow> PR_PAGEADDR (pr_of (freed c p a fl h) q) = PR_PAGEADDR (pr_of h q) \<and>
    PR_BLOCKTYPE (pr_of (freed c p a fl h) q) = PR_BLOCKTYPE (pr_of h q)"
  by (cases "q = p") (simp_all add: freed_def)

lemma freed_spec:
  fixes c :: nat
  assumes inv: "heap_inv h g" and p: "p \<in> inuse h" "PR_BLOCKTYPE (pr_of h p) = b" "a \<in> slots (PR_PAGEADDR (pr_of h p)) (sizes ! b)" "a \<notin> set (g_free g p)"
  defines "h2 \<equiv> freed c p a (g_free g p) h" and "g2 \<equiv> g\<lparr>g_free := (g_free g)(p := a # g_free g p)\<rparr>"
  shows "heap_inv h2 g2" "inuse h2 = inuse h" "used_at h2 g2 b' x \<longleftrightarrow> used_at h g b' x \<and> x \<noteq> a"
    "x < a \<or> a + sizes ! b \<le> x \<Longrightarrow> mem h2 x = mem h x"
proof -
  note i = heap_invD [OF inv]
  have pk: "pr_ok (firstpaddr h) (mem h) (pr_of h p) (g_free g p)" by (rule i(10) [OF p(1)])
  have b: "b < 8" using pr_okD(1) [OF pk] p(2) by simp
  have pa: "PR_PAGEADDR (pr_of h p) \<le> a" "a + sizes ! b \<le> PR_PAGEADDR (pr_of h p) + 4096" "a < PR_PAGEADDR (pr_of h p) + 4096"
    using slot_in_page [OF inv p(1)] p(2,3) by auto
  have lp: "p < length (pagerefs h)" using inuse_less [OF p(1)] i(1) by simp
  show out: "mem h2 x = mem h x" if "x < a \<or> a + sizes ! b \<le> x" for x
    using freed_mem_outside [of "sizes ! b" x a] that sizes_facts(3) [OF b] p(2) by (simp add: h2_def freed_def)
  show "heap_inv h2 g2" unfolding h2_def g2_def freed_def
    by (rule set_page_inv [OF inv p(1) _ _ _ freed_page_ok [OF pk]]) (use p pa out in \<open>auto simp: h2_def freed_def\<close>)
  show iu: "inuse h2 = inuse h" by (rule inuse_cong) (simp add: h2_def freed_def)
  have in2: "used_in h2 g2 b' x q \<longleftrightarrow> used_in h g b' x q \<and> x \<noteq> a" if "q \<in> inuse h" for q
  proof (cases "q = p")
    case True
    then show ?thesis using freed_pab [OF lp] p by (auto simp: used_in_def h2_def g2_def)
  next
    case False
    then have "\<not> used_in h g b' a q" using used_not [OF inv p(1) pa(1,3) that] by simp
    then show ?thesis using False freed_pab [OF lp] by (auto simp: used_in_def h2_def g2_def)
  qed
  then show "used_at h2 g2 b' x \<longleftrightarrow> used_at h g b' x \<and> x \<noteq> a" unfolding used_at_def iu by auto
qed

lemma subpage_kfree_spec:
  assumes ok: "heap_ok h g" and u: "used_at h g b a"
  shows "\<exists>h' g'. subpage_kfree c a h = Ok True h' \<and> gave h g b a h' g'"
proof -
  note inv = heap_okD(1) [OF ok]
  obtain p where p: "p \<in> inuse h" "PR_BLOCKTYPE (pr_of h p) = b" "a \<in> slots (PR_PAGEADDR (pr_of h p)) (sizes ! b)" "a \<notin> set (g_free g p)" "b < 8"
    using used_atD [OF inv u] by blast
  define h2 where "h2 = freed c p a (g_free g p) h"
  define g2 where "g2 = g\<lparr>g_free := (g_free g)(p := a # g_free g p)\<rparr>"
  note f = freed_spec [OF inv p(1-4), where c = c, folded h2_def g2_def]
  have lp: "p < length (pagerefs h)" using inuse_less [OF p(1)] heap_invD(1) [OF inv] by simp
  have pu: "page_used (pr_of h2 q) (g_free g2 q)" if "q \<in> inuse h" "q \<noteq> p" for q
    using heap_okD(3) [OF ok that(1)] that(2) freed_pab [OF lp, of c a "g_free g p" q] by (simp add: page_used_def g2_def h2_def)
  have sel: "lastpaddr h2 = lastpaddr h" "firstpaddr h2 = firstpaddr h" "kmalloc_spinlock h2 = Some c" by (simp_all add: h2_def freed_def)
  have pa2: "page_addrs h2 = page_addrs h" using freed_pab [OF lp, of c a "g_free g p"] f(2) by (simp add: page_addrs_def h2_def)
  note e = subpage_kfree_eq [OF ok p(1-3), of c, folded h2_def]
  show ?thesis
  proof (cases "Suc (length (g_free g p)) = 4096 div sizes ! b")
    case False
    define h' where "h' = h2\<lparr>kmalloc_spinlock := None\<rparr>"
    have "page_used (pr_of h2 p) (g_free g2 p)"
      using heap_okD(3) [OF ok p(1)] False freed_pab [OF lp, of c a "g_free g p" p] p(2) by (simp add: page_used_def g2_def h2_def)
    then have "heap_ok h' g2" using f(1,2) pu by (auto simp: heap_ok_def h'_def)
    moreover have "used_at h' g2 b' x \<longleftrightarrow> used_at h2 g2 b' x" for b' x by (simp add: used_at_def used_in_def h'_def)
    moreover have "page_addrs h' = page_addrs h" using pa2 by (simp add: page_addrs_def h'_def)
    ultimately have "gave h g b a h' g2" using f(3,4) sel by (simp add: gave_def h'_def)
    then show ?thesis using e False by (auto simp: h'_def)
  next
    case True
    have "PR_BLOCKTYPE (pr_of h2 p) = b" using freed_pab [OF lp] p(2) by (simp add: h2_def)
    then obtain h3 g3 where r: "kbind (remove_lists p b h2) (\<lambda>_ h. freepageref p h) = Ok () h3" "heap_inv h3 g3" "inuse h3 = inuse h - {p}"
      "g_free g3 = g_free g2" "\<forall>q. pageaddr_and_blocktype (pr_of h3 q) = pageaddr_and_blocktype (pr_of h2 q)"
      "kmalloc_spinlock h3 = Some c" "mem h3 = mem h2" "firstpaddr h3 = firstpaddr h" "lastpaddr h3 = lastpaddr h"
      using remove_page [OF f(1), of p b] p(1) f(2) sel by auto
    define h' where "h' = h3\<lparr>kmalloc_spinlock := None\<rparr>"
    have pab: "PR_PAGEADDR (pr_of h3 q) = PR_PAGEADDR (pr_of h2 q) \<and> PR_BLOCKTYPE (pr_of h3 q) = PR_BLOCKTYPE (pr_of h2 q)" for q
      using pab_eq [OF r(5) [rule_format]] by blast
    have none: "\<not> used_in h2 g2 b' x p" for b' x
    proof -
      have k: "pr_ok (firstpaddr h2) (mem h2) (pr_of h2 p) (a # g_free g p)" using heap_invD(10) [OF f(1), of p] p(1) f(2) by (simp add: g2_def)
      have "card (set (a # g_free g p)) = 4096 div sizes ! PR_BLOCKTYPE (pr_of h2 p)"
        using distinct_card [OF pr_okD(5) [OF k]] True freed_pab [OF lp, of c a "g_free g p" p] p(2) by (simp add: h2_def)
      then have "set (a # g_free g p) = slots (PR_PAGEADDR (pr_of h2 p)) (sizes ! PR_BLOCKTYPE (pr_of h2 p))"
        using pr_okD(6) [OF k] slots_card [OF pr_okD(1) [OF k]] by (intro card_subset_eq) auto
      then show ?thesis by (auto simp: used_in_def g2_def)
    qed
    have "used_at h' g3 b' x \<longleftrightarrow> used_at h2 g2 b' x" for b' x
      unfolding used_at_def f(2) using none r(3,4) pab p(1) by (auto simp: used_in_def h'_def)
    moreover have "heap_ok h' g3" using r(2-4) pu pab by (auto simp: heap_ok_def h'_def page_used_def)
    moreover have "page_addrs h' \<subseteq> page_addrs h" using pa2 r(3) pab f(2) by (auto simp: page_addrs_def h'_def)
    ultimately have "gave h g b a h' g3" using f(3,4) r(7-9) by (simp add: gave_def h'_def)
    then show ?thesis using e True r(1,6) by (auto simp: h'_def spinlock_release_def)
  qed
qed

text \<open>A pointer on none of the pages is left alone.\<close>

lemma subpage_kfree_other:
  assumes ok: "heap_ok h g" and a: "\<And>p. p \<in> inuse h \<Longrightarrow> a < PR_PAGEADDR (pr_of h p) \<or> PR_PAGEADDR (pr_of h p) + 4096 \<le> a"
  shows "subpage_kfree c a h = Ok False h"
proof -
  note inv = heap_okD(1) [OF ok]
  have n: "find (\<lambda>p. PR_PAGEADDR (pr_of h p) \<le> a \<and> a < PR_PAGEADDR (pr_of h p) + 4096) (g_all g) = None"
    using a heap_invD(6) [OF inv] by (fastforce simp: find_None_iff)
  have "h\<lparr>kmalloc_spinlock := None\<rparr> = h" using heap_okD(2) [OF ok] by (cases h) simp
  then show ?thesis using find_page [OF inv, of a "Some c"] n heap_okD(2) [OF ok]
    by (simp add: subpage_kfree_def spinlock_acquire_def spinlock_release_def)
qed

end
