(* ===== verification/KmallocRun.thy ===== *)
theory KmallocRun
  imports KmallocOps
begin

text \<open>
  The kernel heap seen by its users: the contract of an allocator as a locale, what follows from it for any
  sequence of requests, and its interpretation on \<open>kmalloc\<close> and \<open>kfree\<close>.
\<close>

section \<open>The contract of an allocator\<close>

datatype request = Alloc nat | Release nat | Write nat nat nat

text \<open>\<open>Write p off v\<close> stores the word \<open>v\<close> at offset \<open>off\<close> of the block \<open>p\<close>. Well-behaved users release and write only what
  they have: other such requests are not made. Their view of the heap is the map from the pointers they hold to the sizes they asked for.\<close>

fun heap_run :: "(nat \<Rightarrow> 's \<Rightarrow> (nat, 's) out) \<Rightarrow> (nat \<Rightarrow> 's \<Rightarrow> (unit, 's) out) \<Rightarrow> (nat \<Rightarrow> nat \<Rightarrow> 's \<Rightarrow> 's) \<Rightarrow> request list \<Rightarrow> (nat \<Rightarrow> nat option) \<Rightarrow> 's \<Rightarrow>
    (nat \<Rightarrow> nat option, 's) out" where
  "heap_run malloc free putw [] L s = Ok L s"
| "heap_run malloc free putw (Alloc n # rs) L s =
     kbind (malloc n s) (\<lambda>p s. heap_run malloc free putw rs (if p = 0 then L else L(p \<mapsto> n)) s)"
| "heap_run malloc free putw (Release p # rs) L s =
     (if L p = None then heap_run malloc free putw rs L s
      else kbind (free p s) (\<lambda>_ s. heap_run malloc free putw rs (L(p := None)) s))"
| "heap_run malloc free putw (Write p off v # rs) L s =
     (case L p of
        None \<Rightarrow> heap_run malloc free putw rs L s
      | Some n \<Rightarrow> heap_run malloc free putw rs L (if off mod 4 = 0 \<and> off + 4 \<le> n then putw (p + off) v s else s))"

text \<open>Requests that leave a block alone.\<close>

fun leaves :: "nat \<Rightarrow> request \<Rightarrow> bool" where
  "leaves q (Alloc n) \<longleftrightarrow> True"
| "leaves q (Release p) \<longleftrightarrow> p \<noteq> q"
| "leaves q (Write p off v) \<longleftrightarrow> p \<noteq> q"

locale block_heap =
  fixes malloc :: "nat \<Rightarrow> 's \<Rightarrow> (nat, 's) out"
    and free :: "nat \<Rightarrow> 's \<Rightarrow> (unit, 's) out"
    and putw :: "nat \<Rightarrow> nat \<Rightarrow> 's \<Rightarrow> 's"
    and inv :: "'s \<Rightarrow> (nat \<Rightarrow> nat option) \<Rightarrow> bool"
    and extent :: "nat \<Rightarrow> nat"
    and word_at :: "'s \<Rightarrow> nat \<Rightarrow> nat"
    and limit :: nat
  assumes apart: "inv s L \<Longrightarrow> L p = Some m \<Longrightarrow> L q = Some n \<Longrightarrow> p \<noteq> q \<Longrightarrow> p + extent m \<le> q \<or> q + extent n \<le> p"
    and malloc_law: "inv s L \<Longrightarrow> n \<le> limit \<Longrightarrow> \<exists>p s'. malloc n s = Ok p s' \<and>
      (if p = 0 then inv s' L else L p = None \<and> inv s' (L(p \<mapsto> n))) \<and>
      (\<forall>q m x. L q = Some m \<longrightarrow> q \<le> x \<longrightarrow> x < q + extent m \<longrightarrow> word_at s' x = word_at s x)"
    and free_law: "inv s L \<Longrightarrow> L p = Some n \<Longrightarrow> \<exists>s'. free p s = Ok () s' \<and> inv s' (L(p := None)) \<and>
      (\<forall>x. x < p \<or> p + extent n \<le> x \<longrightarrow> word_at s' x = word_at s x)"
    and extent_law: "n \<le> extent n"
    and write_law: "inv s L \<Longrightarrow> L p = Some n \<Longrightarrow> off < extent n \<Longrightarrow> inv (putw (p + off) v s) L \<and> word_at (putw (p + off) v s) = (word_at s)(p + off := v)"
begin

lemma free_keeps:
  assumes "inv s L" "L p = Some n"
  obtains s' where "free p s = Ok () s'" "inv s' (L(p := None))"
    "\<And>q m x. L q = Some m \<Longrightarrow> q \<noteq> p \<Longrightarrow> q \<le> x \<Longrightarrow> x < q + extent m \<Longrightarrow> word_at s' x = word_at s x"
proof -
  obtain s' where s': "free p s = Ok () s'" "inv s' (L(p := None))" "\<And>x. x < p \<or> p + extent n \<le> x \<Longrightarrow> word_at s' x = word_at s x"
    using free_law [OF assms] by blast
  have "word_at s' x = word_at s x" if "L q = Some m" "q \<noteq> p" "q \<le> x" "x < q + extent m" for q m x
    using apart [OF assms(1) that(1) assms(2) that(2)] that(3,4) by (intro s'(3)) auto
  then show thesis using that s'(1,2) by blast
qed

lemma write_keeps:
  assumes "inv s L" "L p = Some n" "off < n"
  shows "inv (putw (p + off) v s) L"
    "L q = Some m \<Longrightarrow> q \<noteq> p \<Longrightarrow> q \<le> x \<Longrightarrow> x < q + extent m \<Longrightarrow> word_at (putw (p + off) v s) x = word_at s x"
proof -
  have off: "off < extent n" using assms(3) extent_law [of n] by simp
  show "inv (putw (p + off) v s) L" using write_law [OF assms(1,2) off] by blast
  show "word_at (putw (p + off) v s) x = word_at s x" if "L q = Some m" "q \<noteq> p" "q \<le> x" "x < q + extent m"
    using write_law [OF assms(1,2) off, of v] apart [OF assms(1) that(1) assms(2) that(2)] that(3,4) off by auto
qed

definition holds :: "(nat \<Rightarrow> nat option) \<Rightarrow> 's \<Rightarrow> (nat \<Rightarrow> nat option) \<Rightarrow> 's \<Rightarrow> nat \<Rightarrow> bool" where
  "holds L s L' s' q \<longleftrightarrow> (\<forall>m. L q = Some m \<longrightarrow> L' q = Some m \<and> (\<forall>x. q \<le> x \<longrightarrow> x < q + extent m \<longrightarrow> word_at s' x = word_at s x))"

lemma holds_trans: "holds L s L1 s1 q \<Longrightarrow> holds L1 s1 L' s' q \<Longrightarrow> holds L s L' s' q"
  unfolding holds_def by simp

lemma request_served:
  assumes "inv s L" "\<And>n. r = Alloc n \<Longrightarrow> n \<le> limit"
  shows "\<exists>L1 s1. inv s1 L1 \<and> (\<forall>q. leaves q r \<longrightarrow> holds L s L1 s1 q) \<and> (\<forall>rs. heap_run malloc free putw (r # rs) L s = heap_run malloc free putw rs L1 s1)"
proof (cases r)
  case (Alloc n)
  then obtain p s1 where s1: "malloc n s = Ok p s1" "if p = 0 then inv s1 L else L p = None \<and> inv s1 (L(p \<mapsto> n))"
    "\<And>q m x. L q = Some m \<Longrightarrow> q \<le> x \<Longrightarrow> x < q + extent m \<Longrightarrow> word_at s1 x = word_at s x"
    using malloc_law [OF assms(1), of n] assms(2) by auto
  have "holds L s (if p = 0 then L else L(p \<mapsto> n)) s1 q" for q using s1(2,3) by (auto simp: holds_def split: if_splits)
  then show ?thesis using Alloc s1(1,2) by (intro exI [of _ "if p = 0 then L else L(p \<mapsto> n)"] exI [of _ s1]) (auto split: if_splits)
next
  case (Release p)
  show ?thesis
  proof (cases "L p")
    case None
    then show ?thesis using Release assms(1) by (intro exI [of _ L] exI [of _ s]) (simp add: holds_def)
  next
    case (Some n)
    then obtain s1 where s1: "free p s = Ok () s1" "inv s1 (L(p := None))"
      "\<And>q m x. L q = Some m \<Longrightarrow> q \<noteq> p \<Longrightarrow> q \<le> x \<Longrightarrow> x < q + extent m \<Longrightarrow> word_at s1 x = word_at s x"
      using free_keeps [OF assms(1) Some] by blast
    then show ?thesis using Release Some by (intro exI [of _ "L(p := None)"] exI [of _ s1]) (simp add: holds_def)
  qed
next
  case (Write p off v)
  show ?thesis
  proof (cases "\<exists>n. L p = Some n \<and> off mod 4 = 0 \<and> off + 4 \<le> n")
    case True
    then obtain n where n: "L p = Some n" "off mod 4 = 0" "off + 4 \<le> n" by (elim exE conjE)
    then have "off < n" by simp
    from write_keeps [OF assms(1) n(1) this, where v = v] show ?thesis using Write n
      by (intro exI [of _ L] exI [of _ "putw (p + off) v s"]) (auto simp: holds_def)
  next
    case False
    then show ?thesis using Write assms(1) by (intro exI [of _ L] exI [of _ s]) (auto simp: holds_def split: option.splits)
  qed
qed

text \<open>Any sequence of requests is served, and a block that is left alone keeps its owner and its contents.\<close>

lemma run_served:
  assumes "inv s L" "\<And>n. Alloc n \<in> set rs \<Longrightarrow> n \<le> limit"
  shows "\<exists>L' s'. heap_run malloc free putw rs L s = Ok L' s' \<and> inv s' L' \<and> (\<forall>q. (\<forall>r \<in> set rs. leaves q r) \<longrightarrow> holds L s L' s' q)"
  using assms
proof (induction rs arbitrary: L s)
  case Nil
  then show ?case by (simp add: holds_def)
next
  case (Cons r rs)
  obtain L1 s1 where 1: "inv s1 L1" "\<And>q. leaves q r \<Longrightarrow> holds L s L1 s1 q" "\<And>rs. heap_run malloc free putw (r # rs) L s = heap_run malloc free putw rs L1 s1"
    using request_served [OF Cons.prems(1), of r] Cons.prems(2) by auto
  obtain L' s' where 2: "heap_run malloc free putw rs L1 s1 = Ok L' s'" "inv s' L'" "\<And>q. \<forall>r \<in> set rs. leaves q r \<Longrightarrow> holds L1 s1 L' s' q"
    using Cons.IH [OF 1(1)] Cons.prems(2) by auto
  have "holds L s L' s' q" if "\<forall>x \<in> set (r # rs). leaves q x" for q
    using holds_trans [OF 1(2) 2(3), of q] that by simp
  then show ?case using 1(3) 2(1,2) by (intro exI [of _ L'] exI [of _ s']) simp
qed

end

section \<open>Blocks in use\<close>

text \<open>The size a request is rounded up to.\<close>

definition extent :: "nat \<Rightarrow> nat" where
  "extent n = (if n < LARGEST_SUBPAGE_SIZE then sizes ! the (blocktype n) else (n + 4095) div 4096 * 4096)"

definition clear_of_pages :: "kheap \<Rightarrow> nat \<Rightarrow> nat \<Rightarrow> bool" where
  "clear_of_pages h p n \<longleftrightarrow> (\<forall>a \<in> page_addrs h. p + n \<le> a \<or> a + 4096 \<le> p)"

definition big_ok :: "kheap \<Rightarrow> nat \<Rightarrow> nat \<Rightarrow> bool" where
  "big_ok h p n \<longleftrightarrow> p mod 4096 = 0 \<and> MIPS_KSEG0 < p \<and> p + n \<le> MIPS_KSEG0 + firstpaddr h \<and> clear_of_pages h p n"

definition live_ok :: "kheap \<Rightarrow> gheap \<Rightarrow> (nat \<Rightarrow> nat option) \<Rightarrow> bool" where
  "live_ok h g L \<longleftrightarrow>
     (\<forall>p n. L p = Some n \<longrightarrow> n < 2048 \<longrightarrow> used_at h g (the (blocktype n)) p) \<and>
     (\<forall>p n. L p = Some n \<longrightarrow> 2048 \<le> n \<longrightarrow> big_ok h p (extent n)) \<and>
     (\<forall>p q m n. L p = Some m \<longrightarrow> L q = Some n \<longrightarrow> 2048 \<le> m \<longrightarrow> 2048 \<le> n \<longrightarrow> p \<noteq> q \<longrightarrow> p + extent m \<le> q \<or> q + extent n \<le> p)"

text \<open>Everything lies between \<open>lo\<close>, where the kernel's own code and data end, and the end \<open>hi\<close> of the RAM.\<close>

definition within :: "nat \<Rightarrow> nat \<Rightarrow> kheap \<Rightarrow> (nat \<Rightarrow> nat option) \<Rightarrow> bool" where
  "within lo hi h L \<longleftrightarrow> lastpaddr h = hi \<and> lo \<le> MIPS_KSEG0 + firstpaddr h \<and> (\<forall>a \<in> page_addrs h. lo \<le> a) \<and> (\<forall>p. L p \<noteq> None \<longrightarrow> lo \<le> p)"

definition km_inv :: "nat \<Rightarrow> nat \<Rightarrow> kheap \<Rightarrow> (nat \<Rightarrow> nat option) \<Rightarrow> bool" where
  "km_inv lo hi h L \<longleftrightarrow> (\<exists>g. heap_ok h g \<and> live_ok h g L) \<and> within lo hi h L"

lemma live_okD:
  assumes "live_ok h g L"
  shows "L p = Some n \<Longrightarrow> n < 2048 \<Longrightarrow> used_at h g (the (blocktype n)) p" "L p = Some n \<Longrightarrow> 2048 \<le> n \<Longrightarrow> big_ok h p (extent n)"
    "L p = Some m \<Longrightarrow> L q = Some n \<Longrightarrow> 2048 \<le> m \<Longrightarrow> 2048 \<le> n \<Longrightarrow> p \<noteq> q \<Longrightarrow> p + extent m \<le> q \<or> q + extent n \<le> p"
  using assms unfolding live_ok_def by blast+

lemma extent_small: "n < 2048 \<Longrightarrow> \<exists>b < 8. blocktype n = Some b \<and> extent n = sizes ! b \<and> n \<le> extent n"
  using blocktype_spec [of n] by (auto simp: extent_def LARGEST_SUBPAGE_SIZE_def)

lemma extent_big: "2048 \<le> n \<Longrightarrow> extent n = (n + 4095) div 4096 * 4096 \<and> n \<le> extent n"
proof -
  assume n: "2048 \<le> n"
  have "n + 4095 < ((n + 4095) div 4096 + 1) * 4096" using div_mult_mod_eq [of "n + 4095" 4096] mod_less_divisor [of 4096 "n + 4095"] by simp
  then show ?thesis using n by (simp add: extent_def LARGEST_SUBPAGE_SIZE_def)
qed

text \<open>Where a small block is.\<close>

lemma used_page:
  assumes inv: "heap_inv h g" and u: "used_at h g b p"
  obtains a where "a \<in> page_addrs h" "a \<le> p" "p + sizes ! b \<le> a + 4096" "p < a + 4096" "b < 8"
proof -
  obtain i where "i \<in> inuse h" "b < 8" "PR_PAGEADDR (pr_of h i) \<le> p" "p + sizes ! b \<le> PR_PAGEADDR (pr_of h i) + 4096" "p < PR_PAGEADDR (pr_of h i) + 4096"
    using used_atD [OF inv u] by metis
  then show thesis using that [of "PR_PAGEADDR (pr_of h i)"] by (simp add: page_addrs_def)
qed

lemma page_low: "heap_inv h g \<Longrightarrow> a \<in> page_addrs h \<Longrightarrow> a + 4096 \<le> MIPS_KSEG0 + firstpaddr h \<and> MIPS_KSEG0 < a \<and> a mod 4096 = 0"
  using pr_okD(2-4) [OF heap_invD(10)] by (fastforce simp: page_addrs_def)

lemma used_apart:
  assumes inv: "heap_inv h g" and p: "used_at h g b p" and q: "used_at h g b' q" and ne: "p < q"
  shows "p + sizes ! b \<le> q"
proof -
  obtain i where i: "i \<in> inuse h" "PR_BLOCKTYPE (pr_of h i) = b" "p \<in> slots (PR_PAGEADDR (pr_of h i)) (sizes ! b)" "b < 8"
    "PR_PAGEADDR (pr_of h i) \<le> p" "p + sizes ! b \<le> PR_PAGEADDR (pr_of h i) + 4096" using used_atD [OF inv p] by metis
  obtain j where j: "j \<in> inuse h" "PR_BLOCKTYPE (pr_of h j) = b'" "q \<in> slots (PR_PAGEADDR (pr_of h j)) (sizes ! b')" "b' < 8"
    "PR_PAGEADDR (pr_of h j) \<le> q" "q < PR_PAGEADDR (pr_of h j) + 4096" using used_atD [OF inv q] by metis
  show ?thesis
  proof (cases "i = j")
    case True
    then show ?thesis using slot_apart [OF i(4,3), of q] j(2,3) i(2) ne by simp
  next
    case False
    then show ?thesis using pages_apart [OF inv i(1) j(1)] i(5,6) j(5,6) ne by auto
  qed
qed

lemma km_apart:
  assumes ok: "heap_inv h g" and l: "live_ok h g L" and p: "L p = Some m" and q: "L q = Some n" and ne: "p \<noteq> q"
  shows "p + extent m \<le> q \<or> q + extent n \<le> p"
proof -
  have mix: "x + extent k \<le> y \<or> y + extent k' \<le> x" if "L x = Some k" "k < 2048" "L y = Some k'" "2048 \<le> k'" for x k y k'
  proof -
    note t = that
    obtain b where b: "blocktype k = Some b" "extent k = sizes ! b" using extent_small [OF t(2)] by auto
    obtain a where "a \<in> page_addrs h" "a \<le> x" "x + sizes ! b \<le> a + 4096"
      using used_page [OF ok live_okD(1) [OF l t(1,2)]] b(1) by (metis option.sel)
    then show ?thesis using live_okD(2) [OF l t(3,4)] b(2) by (fastforce simp: big_ok_def clear_of_pages_def)
  qed
  consider "m < 2048" "n < 2048" | "m < 2048" "2048 \<le> n" | "2048 \<le> m" "n < 2048" | "2048 \<le> m" "2048 \<le> n" by linarith
  then show ?thesis
  proof cases
    case 1
    have "x + extent k \<le> y" if "L x = Some k" "k < 2048" "L y = Some k'" "k' < 2048" "x < y" for x k y k'
      using used_apart [OF ok live_okD(1) [OF l that(1,2)] live_okD(1) [OF l that(3,4)] that(5)] extent_small [OF that(2)] by auto
    then show ?thesis using 1 p q ne by (metis nat_neq_iff)
  qed (use mix [OF p _ q] mix [OF q _ p] live_okD(3) [OF l p q _ _ ne] in blast)+
qed

section \<open>\<open>kmalloc\<close> and \<open>kfree\<close> keep the contract\<close>

text \<open>Blocks of whole pages stay where they are as long as no page is added below the memory handed out so far.\<close>

lemma big_kept:
  assumes "big_ok h p n" "0 < n" "firstpaddr h \<le> firstpaddr h'" "page_addrs h' \<subseteq> page_addrs h \<union> {MIPS_KSEG0 + firstpaddr h..}"
  shows "big_ok h' p n"
  using assms by (fastforce simp: big_ok_def clear_of_pages_def)

lemma extent_pos: "0 < extent n"
  using extent_small [of n] extent_big [of n] sizes_facts(3) by (cases "n < 2048") fastforce+

lemma live_below: 
  assumes inv: "heap_inv h g" and l: "live_ok h g L" and p: "L p = Some n"
  shows "p + extent n \<le> MIPS_KSEG0 + firstpaddr h" "MIPS_KSEG0 < p" "p mod 16 = 0"
proof -
  have "p + extent n \<le> MIPS_KSEG0 + firstpaddr h \<and> MIPS_KSEG0 < p \<and> p mod 16 = 0"
  proof (cases "n < 2048")
    case True
    obtain b where b: "blocktype n = Some b" "extent n = sizes ! b" using extent_small [OF True] by auto
    have u: "used_at h g b p" using live_okD(1) [OF l p True] b(1) by simp
    obtain i where i: "i \<in> inuse h" "p \<in> slots (PR_PAGEADDR (pr_of h i)) (sizes ! b)" "b < 8" "PR_PAGEADDR (pr_of h i) \<le> p"
      "p + sizes ! b \<le> PR_PAGEADDR (pr_of h i) + 4096" using used_atD [OF inv u] by metis
    note k = pr_okD [OF heap_invD(10) [OF inv i(1)]]
    have "4096 dvd PR_PAGEADDR (pr_of h i)" using k(2) by (simp add: dvd_eq_mod_eq_0)
    then have "16 dvd PR_PAGEADDR (pr_of h i)" by (rule dvd_trans [rotated]) simp
    then show ?thesis using k(3,4) i slot_bounds(4) [OF i(3,2)] b(2) by (simp add: dvd_eq_mod_eq_0)
  next
    case False
    then have g: "big_ok h p (extent n)" using live_okD(2) [OF l p] by simp
    then have "4096 dvd p" by (simp add: big_ok_def dvd_eq_mod_eq_0)
    then have "16 dvd p" by (rule dvd_trans [rotated]) simp
    then show ?thesis using g by (simp add: big_ok_def dvd_eq_mod_eq_0)
  qed
  then show "p + extent n \<le> MIPS_KSEG0 + firstpaddr h" "MIPS_KSEG0 < p" "p mod 16 = 0" by blast+
qed

lemma kmalloc_small:
  assumes ok: "heap_ok h g" and l: "live_ok h g L" and lo: "within lo hi h L" and n: "n < 2048"
  shows "\<exists>p h'. kmalloc c n h = Ok p h' \<and> (if p = 0 then km_inv lo hi h' L \<and> no_page h else L p = None \<and> km_inv lo hi h' (L(p \<mapsto> n))) \<and>
    (\<forall>x < MIPS_KSEG0 + firstpaddr h. mem h' x = mem h x)"
proof -
  note inv = heap_okD(1) [OF ok]
  obtain b where b: "blocktype n = Some b" "b < 8" using extent_small [OF n] by auto
  have e: "kmalloc c n h = subpage_kmalloc c n h" using n by (simp add: kmalloc_def LARGEST_SUBPAGE_SIZE_def)
  obtain p h' g' where s: "subpage_kmalloc c n h = Ok p h'"
    "if p = 0 then refused h g h' g' \<and> no_page h \<and> (\<forall>q \<in> inuse h. PR_BLOCKTYPE (pr_of h q) = b \<longrightarrow> g_free g q = []) else took h g b p h' g'"
    using subpage_kmalloc_spec [OF ok b, of c] by blast
  have kept: "mem_kept h h'" using s(2) by (auto simp: refused_def took_def split: if_splits)
  have big: "big_ok h' q (extent m)" if "L q = Some m" "2048 \<le> m" for q m
    by (rule big_kept [OF live_okD(2) [OF l that] extent_pos]) (use kept in \<open>auto simp: mem_kept_def\<close>)
  show ?thesis
  proof (cases "p = 0")
    case True
    then have "live_ok h' g' L" using s(2) l big live_okD(1,3) [OF l] by (simp add: live_ok_def refused_def)
    moreover have "within lo hi h' L" using lo kept by (fastforce simp: within_def mem_kept_def)
    ultimately show ?thesis using True s e kept by (auto simp: km_inv_def refused_def mem_kept_def)
  next
    case False
    then have t: "heap_ok h' g'" "\<And>b'. \<not> used_at h g b' p" "\<And>b' x. used_at h' g' b' x \<longleftrightarrow> used_at h g b' x \<or> b' = b \<and> x = p"
      using s(2) by (simp_all add: took_def)
    have new: "L p = None"
    proof (rule ccontr)
      assume "L p \<noteq> None"
      then obtain m where m: "L p = Some m" by auto
      then have "2048 \<le> m" using live_okD(1) [OF l m] t(2) by (meson not_le)
      then have g: "big_ok h' p (extent m)" by (rule big [OF m])
      obtain a where "a \<in> page_addrs h'" "a \<le> p" "p < a + 4096" using used_page [OF heap_okD(1) [OF t(1)], of b p] t(3) by metis
      then show False using g extent_pos [of m] by (fastforce simp: big_ok_def clear_of_pages_def)
    qed
    have "live_ok h' g' (L(p \<mapsto> n))" unfolding live_ok_def using n b t(3) big live_okD(1,3) [OF l] by (simp add: fun_upd_def)
    moreover have "within lo hi h' (L(p \<mapsto> n))"
    proof -
      have pg: "lo \<le> a" if "a \<in> page_addrs h'" for a using lo kept that by (fastforce simp: within_def mem_kept_def)
      obtain a where "a \<in> page_addrs h'" "a \<le> p" using used_page [OF heap_okD(1) [OF t(1)], of b p] t(3) by metis
      then have "lo \<le> p" using pg by fastforce
      then show ?thesis using pg lo kept by (auto simp: within_def mem_kept_def)
    qed
    ultimately show ?thesis using False s(1) e new t(1) kept by (auto simp: km_inv_def mem_kept_def)
  qed
qed

lemma kmalloc_pages:
  assumes ok: "heap_ok h g" and l: "live_ok h g L" and lo: "within lo hi h L" and n: "2048 \<le> n" "n \<le> 3 * 2 ^ 30"
  shows "\<exists>p h'. kmalloc c n h = Ok p h' \<and> (if p = 0 then km_inv lo hi h' L \<and> lastpaddr h < firstpaddr h + extent n else L p = None \<and> km_inv lo hi h' (L(p \<mapsto> n))) \<and>
    mem h' = mem h"
proof -
  note inv = heap_okD(1) [OF ok]
  note i = heap_invD [OF inv]
  let ?n = "(n + 4095) div 4096"
  have e: "kmalloc c n h = alloc_kpages c ?n h" using n by (simp add: kmalloc_def LARGEST_SUBPAGE_SIZE_def add.commute)
  have ex: "extent n = ?n * 4096" using extent_big [OF n(1)] by simp
  have "?n * 4096 \<le> n + 4095" by (rule div_times_less_eq_dividend)
  then have lim: "?n * 4096 + 508 * 1024 * 1024 < 2 ^ 32" using n(2) by simp
  show ?thesis
  proof (cases "lastpaddr h < firstpaddr h + ?n * 4096")
    case True
    have "km_inv lo hi h L" using ok l lo by (auto simp: km_inv_def)
    then show ?thesis using alloc_kpages_spec(1) [OF inv lim True, of c] e ex True by simp
  next
    case False
    let ?p = "MIPS_KSEG0 + firstpaddr h" and ?h = "h\<lparr>firstpaddr := firstpaddr h + ?n * 4096\<rparr>"
    have a: "alloc_kpages c ?n h = Ok ?p ?h" "heap_inv ?h g" using alloc_kpages_spec(2) [OF inv lim, of c] False by auto
    have new: "L ?p = None"
    proof (cases "L ?p")
      case (Some m)
      then show ?thesis using live_below(1) [OF inv l Some] extent_pos [of m] by simp
    qed simp
    have pg: "page_addrs ?h = page_addrs h" by (simp add: page_addrs_def)
    have big: "big_ok ?h q (extent m)" if "L q = Some m" "2048 \<le> m" for q m
      by (rule big_kept [OF live_okD(2) [OF l that] extent_pos]) (auto simp: pg)
    have bigp: "big_ok ?h ?p (extent n)"
      using i(13,14) page_low [OF inv] ex by (auto simp: big_ok_def clear_of_pages_def pg MIPS_KSEG0_def dvd_eq_mod_eq_0 [symmetric] intro: dvd_add)
    have below: "q + extent m \<le> ?p" if "L q = Some m" for q m using live_below(1) [OF inv l that] .
    have "used_at ?h g b q \<longleftrightarrow> used_at h g b q" for b q by (simp add: used_at_def used_in_def)
    then have "live_ok ?h g (L(?p \<mapsto> n))" unfolding live_ok_def using n(1) big bigp below live_okD(1,3) [OF l] by (auto simp: fun_upd_def)
    moreover have "heap_ok ?h g" using ok a(2) by (simp add: heap_ok_def)
    moreover have "within lo hi ?h (L(?p \<mapsto> n))" using lo pg by (auto simp: within_def)
    ultimately show ?thesis using a(1) e new i(14) by (intro exI [of _ ?p] exI [of _ ?h]) (auto simp: km_inv_def)
  qed
qed

lemma kfree_live:
  assumes ok: "heap_ok h g" and l: "live_ok h g L" and lo: "within lo hi h L" and p: "L p = Some n"
  shows "\<exists>h'. kfree c p h = Ok () h' \<and> km_inv lo hi h' (L(p := None)) \<and> (\<forall>x. x < p \<or> p + extent n \<le> x \<longrightarrow> mem h' x = mem h x)"
proof -
  note inv = heap_okD(1) [OF ok]
  have p0: "p \<noteq> 0" using live_below(2) [OF inv l p] by simp
  show ?thesis
  proof (cases "n < 2048")
    case True
    obtain b where b: "blocktype n = Some b" "extent n = sizes ! b" using extent_small [OF True] by auto
    have "used_at h g b p" using live_okD(1) [OF l p True] b(1) by simp
    then obtain h' g' where f: "subpage_kfree c p h = Ok True h'" "gave h g b p h' g'" using subpage_kfree_spec [OF ok] by blast
    have big: "big_ok h' q (extent m)" if "L q = Some m" "2048 \<le> m" for q m
      by (rule big_kept [OF live_okD(2) [OF l that] extent_pos]) (use f(2) in \<open>auto simp: gave_def\<close>)
    have "live_ok h' g' (L(p := None))" unfolding live_ok_def using f(2) big live_okD(1,3) [OF l] by (auto simp: gave_def)
    moreover have "within lo hi h' (L(p := None))" using lo f(2) by (fastforce simp: within_def gave_def)
    ultimately show ?thesis using f b(2) p0 by (auto simp: kfree_def km_inv_def gave_def)
  next
    case False
    then have g: "big_ok h p (extent n)" using live_okD(2) [OF l p] by simp
    have "subpage_kfree c p h = Ok False h"
      using g extent_pos [of n] by (intro subpage_kfree_other [OF ok]) (fastforce simp: big_ok_def clear_of_pages_def page_addrs_def)
    then have "kfree c p h = Ok () h" using g p0 by (simp add: kfree_def free_kpages_def big_ok_def)
    moreover have "live_ok h g (L(p := None))" using l unfolding live_ok_def by auto
    moreover have "within lo hi h (L(p := None))" using lo by (simp add: within_def)
    ultimately show ?thesis using ok by (auto simp: km_inv_def)
  qed
qed

text \<open>What users write to their blocks does not touch a free list.\<close>

lemma free_outside:
  assumes inv: "heap_inv h g" and l: "live_ok h g L" and p: "L p = Some n" and i: "i \<in> inuse h" and a: "a \<in> set (g_free g i)"
  shows "a < p \<or> p + extent n \<le> a"
proof -
  note k = pr_okD [OF heap_invD(10) [OF inv i]]
  note fp = free_in_page [OF heap_invD(10) [OF inv i] a]
  show ?thesis
  proof (cases "n < 2048")
    case True
    obtain b where b: "blocktype n = Some b" "extent n = sizes ! b" using extent_small [OF True] by auto
    have u: "used_at h g b p" using live_okD(1) [OF l p True] b(1) by simp
    obtain j where j: "j \<in> inuse h" "PR_BLOCKTYPE (pr_of h j) = b" "p \<in> slots (PR_PAGEADDR (pr_of h j)) (sizes ! b)" "p \<notin> set (g_free g j)" "b < 8"
      "PR_PAGEADDR (pr_of h j) \<le> p" "p + sizes ! b \<le> PR_PAGEADDR (pr_of h j) + 4096" using used_atD [OF inv u] by metis
    show ?thesis
    proof (cases "i = j")
      case True
      then show ?thesis using slot_apart [OF j(5,3), of a] k(6) a j(2,4) b(2) by (metis linorder_neqE_nat subsetD)
    next
      case False
      then show ?thesis using pages_apart [OF inv i j(1)] fp j(6,7) b(2) by auto
    qed
  next
    case False
    have "PR_PAGEADDR (pr_of h i) \<in> page_addrs h" using i by (simp add: page_addrs_def)
    then show ?thesis using live_okD(2) [OF l p] False fp by (fastforce simp: big_ok_def clear_of_pages_def)
  qed
qed

lemma km_write:
  assumes ok: "km_inv lo hi h L" and p: "L p = Some n" "off < extent n"
  shows "km_inv lo hi (store (p + off) v h) L"
proof -
  obtain g where g: "heap_ok h g" "live_ok h g L" and lo: "within lo hi h L" using ok by (auto simp: km_inv_def)
  note inv = heap_okD(1) [OF g(1)]
  let ?h = "store (p + off) v h"
  have iu: "inuse ?h = inuse h" by (rule inuse_cong) simp
  have "pr_ok (firstpaddr h) (mem ?h) (pr_of h i) (g_free g i)" if i: "i \<in> inuse h" for i
  proof (rule pr_ok_cong [OF heap_invD(10) [OF inv i]])
    show "mem ?h a = mem h a" if "a \<in> set (g_free g i)" for a using free_outside [OF inv g(2) p(1) i that] p(2) by auto
  qed simp
  then have "heap_inv ?h g" using inv iu unfolding heap_inv_def ram_ok_def lists_ok_def pages_ok_def by simp
  then have "heap_ok ?h g" using g(1) iu by (simp add: heap_ok_def)
  moreover have "page_addrs ?h = page_addrs h" using iu by (simp add: page_addrs_def)
  moreover have "used_at ?h g b x = used_at h g b x" for b x using iu by (simp add: used_at_def used_in_def)
  ultimately show ?thesis using g(2) lo by (auto simp: km_inv_def live_ok_def big_ok_def clear_of_pages_def within_def)
qed

interpretation kh: block_heap "kmalloc c" "kfree c" store "km_inv lo hi" extent mem "3 * 2 ^ 30" for c lo hi
proof unfold_locales
  show "p + extent m \<le> q \<or> q + extent n \<le> p" if "km_inv lo hi h L" "L p = Some m" "L q = Some n" "p \<noteq> q" for h L p m q n
    using that km_apart heap_okD(1) unfolding km_inv_def by metis
next
  fix h L and n :: nat
  assume "km_inv lo hi h L" and n: "n \<le> 3 * 2 ^ 30"
  then obtain g where g: "heap_ok h g" "live_ok h g L" "within lo hi h L" by (auto simp: km_inv_def)
  have below: "x < MIPS_KSEG0 + firstpaddr h" if "L q = Some m" "x < q + extent m" for q m x
    using live_below(1) [OF heap_okD(1) [OF g(1)] g(2) that(1)] that(2) by simp
  show "\<exists>p h'. kmalloc c n h = Ok p h' \<and> (if p = 0 then km_inv lo hi h' L else L p = None \<and> km_inv lo hi h' (L(p \<mapsto> n))) \<and>
    (\<forall>q m x. L q = Some m \<longrightarrow> q \<le> x \<longrightarrow> x < q + extent m \<longrightarrow> mem h' x = mem h x)"
  proof (cases "n < 2048")
    case True
    then obtain p h' where "kmalloc c n h = Ok p h'" "if p = 0 then km_inv lo hi h' L \<and> no_page h else L p = None \<and> km_inv lo hi h' (L(p \<mapsto> n))"
      "\<forall>x < MIPS_KSEG0 + firstpaddr h. mem h' x = mem h x" using kmalloc_small [OF g] by blast
    then show ?thesis using below by (intro exI [of _ p] exI [of _ h']) (auto split: if_splits)
  next
    case False
    then obtain p h' where "kmalloc c n h = Ok p h'" "if p = 0 then km_inv lo hi h' L \<and> lastpaddr h < firstpaddr h + extent n else L p = None \<and> km_inv lo hi h' (L(p \<mapsto> n))"
      "mem h' = mem h" using kmalloc_pages [OF g _ n, of c] by auto
    then show ?thesis by (intro exI [of _ p] exI [of _ h']) (auto split: if_splits)
  qed
next
  show "\<exists>h'. kfree c p h = Ok () h' \<and> km_inv lo hi h' (L(p := None)) \<and> (\<forall>x. x < p \<or> p + extent n \<le> x \<longrightarrow> mem h' x = mem h x)"
    if "km_inv lo hi h L" "L p = Some n" for h L p n using that kfree_live by (auto simp: km_inv_def)
next
  show "n \<le> extent n" for n using extent_small [of n] extent_big [of n] by (cases "n < 2048") auto
next
  show "km_inv lo hi (store (p + off) v h) L \<and> mem (store (p + off) v h) = (mem h)(p + off := v)"
    if "km_inv lo hi h L" "L p = Some n" "off < extent n" for h L p n off v using km_write [OF that] by simp
qed

section \<open>From boot on\<close>

text \<open>The tables as they are in the kernel's zeroed data segment.\<close>

definition bss_heap :: "(nat \<Rightarrow> nat) \<Rightarrow> kheap" where
  "bss_heap m = \<lparr>pagerefs = replicate 256 \<lparr>next_samesize = None, next_all = None, pageaddr_and_blocktype = 0, freelist_offset = 0, nfree = 0\<rparr>,
     pagerefs_inuse = replicate 8 0, sizebases = replicate 8 None, allbase = None, kmalloc_spinlock = None, stealmem_lock = None,
     firstpaddr = 0, lastpaddr = 0, mem = m\<rparr>"

text \<open>The kernel image ends at a page boundary and there is RAM above it.\<close>

definition good_boot :: "nat \<Rightarrow> nat \<Rightarrow> bool" where
  "good_boot ramsize firstfree \<longleftrightarrow> firstfree mod 4096 = 0 \<and> MIPS_KSEG0 < firstfree \<and> firstfree \<le> MIPS_KSEG0 + min ramsize (508 * 1024 * 1024)"

lemma boot_inv:
  assumes "good_boot ramsize firstfree"
  shows "km_inv firstfree (min ramsize (508 * 1024 * 1024)) (ram_bootstrap ramsize firstfree (bss_heap m)) Map.empty"
proof -
  let ?h = "ram_bootstrap ramsize firstfree (bss_heap m)"
  have f: "firstpaddr ?h = firstfree - MIPS_KSEG0" "lastpaddr ?h = min ramsize (508 * 1024 * 1024)"
    using assms by (auto simp: ram_bootstrap_def good_boot_def Let_def)
  have iu: "inuse ?h = {}" by (auto simp: inuse_def ram_bootstrap_def bss_heap_def Let_def nth_replicate less_mult_imp_div_less)
  have "4096 dvd firstfree" "4096 dvd MIPS_KSEG0" using assms by (auto simp: good_boot_def MIPS_KSEG0_def)
  then have "(firstfree - MIPS_KSEG0) mod 4096 = 0" by (simp add: dvd_diff_nat)
  then have "ram_ok ?h" using f assms by (auto simp: ram_ok_def good_boot_def) (simp_all add: ram_bootstrap_def bss_heap_def Let_def)
  moreover have "lists_ok ?h \<lparr>g_all = [], g_same = (\<lambda>_. []), g_free = (\<lambda>_. [])\<rparr>"
    unfolding lists_ok_def iu by (auto simp: ram_bootstrap_def bss_heap_def Let_def)
  moreover have "pages_ok ?h \<lparr>g_all = [], g_same = (\<lambda>_. []), g_free = (\<lambda>_. [])\<rparr>" unfolding pages_ok_def iu by simp
  ultimately have "heap_ok ?h \<lparr>g_all = [], g_same = (\<lambda>_. []), g_free = (\<lambda>_. [])\<rparr>"
    unfolding heap_ok_def heap_inv_def iu by (simp add: ram_bootstrap_def bss_heap_def Let_def)
  moreover have "within firstfree (min ramsize (508 * 1024 * 1024)) ?h Map.empty" using f assms iu by (simp add: within_def page_addrs_def good_boot_def)
  ultimately show "km_inv firstfree (min ramsize (508 * 1024 * 1024)) ?h Map.empty" by (auto simp: km_inv_def live_ok_def)
qed

text \<open>The heap after a sequence of requests made from boot on.\<close>

abbreviation heap_after :: "nat \<Rightarrow> nat \<Rightarrow> nat \<Rightarrow> (nat \<Rightarrow> nat) \<Rightarrow> request list \<Rightarrow> (nat \<Rightarrow> nat option, kheap) out" where
  "heap_after c ramsize firstfree m rs \<equiv> heap_run (kmalloc c) (kfree c) store rs Map.empty (ram_bootstrap ramsize firstfree (bss_heap m))"

lemma heap_after_inv:
  assumes "good_boot ramsize firstfree" "\<And>n. Alloc n \<in> set rs \<Longrightarrow> n \<le> 3 * 2 ^ 30"
  shows "\<exists>L h. heap_after c ramsize firstfree m rs = Ok L h \<and> km_inv firstfree (min ramsize (508 * 1024 * 1024)) h L"
  using kh.run_served [OF boot_inv [OF assms(1)], of rs] assms(2) by blast

section \<open>Properties\<close>

lemma heap_run_append:
  "heap_run malloc free putw (rs @ rs') L s = kbind (heap_run malloc free putw rs L s) (\<lambda>L s. heap_run malloc free putw rs' L s)"
proof (induction rs arbitrary: L s)
  case (Cons r rs)
  show ?case
  proof (cases r)
    case (Alloc n)
    then show ?thesis using Cons by (cases "malloc n s") simp_all
  next
    case (Release p)
    then show ?thesis using Cons by (cases "free p s") simp_all
  qed (simp add: Cons split: option.splits)
qed simp

lemma good_boot_example: "good_boot (4 * 1024 * 1024) (MIPS_KSEG0 + 0x20000)"
  by (simp add: good_boot_def MIPS_KSEG0_def)

text \<open>C12. From boot on, whatever blocks are asked for, released and written to in whatever order, no request panics, and the
  blocks in use at any time are aligned, lie in RAM above the kernel image and do not overlap. (Requests are limited to 3 GB.)\<close>

theorem kmalloc_blocks_disjoint:
  assumes "good_boot ramsize firstfree" and "\<And>n. Alloc n \<in> set rs \<Longrightarrow> n \<le> 3 * 2 ^ 30"
  shows "\<exists>L h. heap_run (kmalloc c) (kfree c) store rs Map.empty (ram_bootstrap ramsize firstfree (bss_heap m)) = Ok L h \<and>
    (\<forall>p n. L p = Some n \<longrightarrow> p mod 16 = 0 \<and> firstfree \<le> p \<and> p + n \<le> MIPS_KSEG0 + ramsize) \<and>
    (\<forall>p q k n. L p = Some k \<longrightarrow> L q = Some n \<longrightarrow> p \<noteq> q \<longrightarrow> p + k \<le> q \<or> q + n \<le> p)"
proof -
  obtain L h where h: "heap_after c ramsize firstfree m rs = Ok L h" "km_inv firstfree (min ramsize (508 * 1024 * 1024)) h L"
    using heap_after_inv [OF assms] by blast
  then obtain g where g: "heap_ok h g" "live_ok h g L" "within firstfree (min ramsize (508 * 1024 * 1024)) h L" by (auto simp: km_inv_def)
  note inv = heap_okD(1) [OF g(1)]
  have "p mod 16 = 0 \<and> firstfree \<le> p \<and> p + n \<le> MIPS_KSEG0 + ramsize" if p: "L p = Some n" for p n
    using live_below [OF inv g(2) p] kh.extent_law [of n] heap_invD(15) [OF inv] g(3) p by (auto simp: within_def)
  moreover have "p + k \<le> q \<or> q + n \<le> p" if "L p = Some k" "L q = Some n" "p \<noteq> q" for p q k n
    using kh.apart [OF h(2) that] kh.extent_law [of n] kh.extent_law [of k] by linarith
  ultimately show ?thesis using h(1) by blast
qed

theorem kmalloc_blocks_disjoint_witness:
  "\<exists>L h. heap_run (kmalloc 0) (kfree 0) store [Alloc 100, Alloc 5000, Release (MIPS_KSEG0 + 0x20f80), Alloc 120] Map.empty
     (ram_bootstrap (4 * 1024 * 1024) (MIPS_KSEG0 + 0x20000) (bss_heap (\<lambda>_. 0))) = Ok L h"
proof -
  have a: "n \<le> 3 * 2 ^ 30" if "Alloc n \<in> set [Alloc 100, Alloc 5000, Release (MIPS_KSEG0 + 0x20f80), Alloc 120]" for n using that by auto
  show ?thesis
    by (rule exE [OF kmalloc_blocks_disjoint [where c = 0 and m = "\<lambda>_. 0", OF good_boot_example]], erule a, elim exE conjE, intro exI)
qed

text \<open>C13. What the owner of a block writes stays there until the owner writes again or releases the block: neither the links the
  allocator keeps in free blocks, nor the filling of released blocks, nor other users' writes touch it.\<close>

theorem kmalloc_contents_kept:
  assumes "good_boot ramsize firstfree" and "\<And>n. Alloc n \<in> set (rs @ rs') \<Longrightarrow> n \<le> 3 * 2 ^ 30"
    and "heap_run (kmalloc c) (kfree c) store rs Map.empty (ram_bootstrap ramsize firstfree (bss_heap m)) = Ok L h"
    and "L p = Some n" and "off mod 4 = 0" and "off + 4 \<le> n" and "\<And>r. r \<in> set rs' \<Longrightarrow> leaves p r"
  shows "\<exists>L' h'. heap_run (kmalloc c) (kfree c) store (rs @ Write p off v # rs') Map.empty (ram_bootstrap ramsize firstfree (bss_heap m)) = Ok L' h' \<and>
    L' p = Some n \<and> mem h' (p + off) = v"
proof -
  have "km_inv firstfree (min ramsize (508 * 1024 * 1024)) h L" using heap_after_inv [of ramsize firstfree rs c m] assms(1-3) by auto
  then have w: "km_inv firstfree (min ramsize (508 * 1024 * 1024)) (store (p + off) v h) L"
    using km_write [of _ _ h L p n off v] kh.extent_law [of n] assms(4,6) by simp
  obtain L' h' where r: "heap_run (kmalloc c) (kfree c) store rs' L (store (p + off) v h) = Ok L' h'" "kh.holds L (store (p + off) v h) L' h' p"
    using kh.run_served [OF w, of rs' c] assms(2,7) by auto
  have "p + off < p + extent n" using kh.extent_law [of n] assms(6) by simp
  then have "L' p = Some n" "mem h' (p + off) = v" using r(2) assms(4) by (simp_all add: kh.holds_def)
  then show ?thesis using r(1) assms(3-6) by (simp add: heap_run_append)
qed

theorem kmalloc_contents_kept_witness:
  "\<exists>p L' h'. heap_run (kmalloc 0) (kfree 0) store ([Alloc 5000] @ Write p 8 42 # [Alloc 100, Alloc 100]) Map.empty
     (ram_bootstrap (4 * 1024 * 1024) (MIPS_KSEG0 + 0x20000) (bss_heap (\<lambda>_. 0))) = Ok L' h' \<and> mem h' (p + 8) = 42"
proof -
  let ?h = "ram_bootstrap (4 * 1024 * 1024) (MIPS_KSEG0 + 0x20000) (bss_heap (\<lambda>_. 0))"
  obtain h where "heap_run (kmalloc 0) (kfree 0) store [Alloc 5000] Map.empty ?h = Ok [MIPS_KSEG0 + 0x20000 \<mapsto> 5000] h"
    by (simp add: ram_bootstrap_def bss_heap_def kmalloc_def LARGEST_SUBPAGE_SIZE_def alloc_kpages_def getppages_def ram_stealmem_def
      spinlock_acquire_def spinlock_release_def MIPS_KSEG0_def wsub32_def wadd32_def Let_def)
  note r = this
  have a: "n \<le> 3 * 2 ^ 30" if "Alloc n \<in> set ([Alloc 5000] @ [Alloc 100, Alloc 100])" for n using that by auto
  have l: "leaves (MIPS_KSEG0 + 0x20000) r" if "r \<in> set [Alloc 100, Alloc 100]" for r using that by auto
  have p: "[MIPS_KSEG0 + 0x20000 \<mapsto> 5000] (MIPS_KSEG0 + 0x20000) = Some 5000" "(8::nat) mod 4 = 0" "8 + 4 \<le> (5000::nat)" by simp_all
  show ?thesis using kmalloc_contents_kept [where v = 42, OF good_boot_example a r p l] by blast
qed

text \<open>C14. \<open>kmalloc\<close> returns the null pointer only when memory has run out: for a block of whole pages when fewer pages are left than it needs,
  for a small block when no page is left or all 256 page references are in use.\<close>

theorem kmalloc_null_only_full:
  assumes "good_boot ramsize firstfree" and "\<And>n. Alloc n \<in> set rs \<Longrightarrow> n \<le> 3 * 2 ^ 30"
    and "heap_run (kmalloc c) (kfree c) store rs Map.empty (ram_bootstrap ramsize firstfree (bss_heap m)) = Ok L h"
    and "kmalloc c n h = Ok 0 h'" and "n \<le> 3 * 2 ^ 30"
  shows "if n < 2048 then lastpaddr h < firstpaddr h + 4096 \<or> inuse h = {..<256} else lastpaddr h < firstpaddr h + (n + 4095) div 4096 * 4096"
proof -
  have "km_inv firstfree (min ramsize (508 * 1024 * 1024)) h L" using heap_after_inv [of ramsize firstfree rs c m] assms(1-3) by auto
  then obtain g where g: "heap_ok h g" "live_ok h g L" "within firstfree (min ramsize (508 * 1024 * 1024)) h L" by (auto simp: km_inv_def)
  show ?thesis
  proof (cases "n < 2048")
    case True
    then show ?thesis using kmalloc_small [OF g True, of c] assms(4) by (auto simp: no_page_def)
  next
    case False
    then show ?thesis using kmalloc_pages [OF g _ assms(5), of c] assms(4) extent_big [of n] by auto
  qed
qed

theorem kmalloc_null_only_full_witness:
  "\<exists>h'. kmalloc 0 5000 (ram_bootstrap 0x20000 (MIPS_KSEG0 + 0x20000) (bss_heap (\<lambda>_. 0))) = Ok 0 h' \<and>
     lastpaddr (ram_bootstrap 0x20000 (MIPS_KSEG0 + 0x20000) (bss_heap (\<lambda>_. 0))) < firstpaddr (ram_bootstrap 0x20000 (MIPS_KSEG0 + 0x20000) (bss_heap (\<lambda>_. 0))) + 8192"
proof -
  let ?h = "ram_bootstrap 0x20000 (MIPS_KSEG0 + 0x20000) (bss_heap (\<lambda>_. 0))"
  have b: "good_boot 0x20000 (MIPS_KSEG0 + 0x20000)" by (simp add: good_boot_def MIPS_KSEG0_def)
  have k: "kmalloc 0 5000 ?h = Ok 0 ?h"
    by (simp add: ram_bootstrap_def bss_heap_def kmalloc_def LARGEST_SUBPAGE_SIZE_def alloc_kpages_def getppages_def ram_stealmem_def
      spinlock_acquire_def spinlock_release_def MIPS_KSEG0_def wsub32_def wadd32_def Let_def)
  show ?thesis using kmalloc_null_only_full [OF b, of "[]" 0 "\<lambda>_. 0" Map.empty ?h 5000 ?h] k by simp
qed

text \<open>C38. A request for almost the whole address space is granted although no machine has the memory: the sum in \<open>ram_stealmem\<close> wraps
  around and moves the boundary of free memory back, so the next caller is given a block that is still in use.\<close>

theorem kmalloc_huge_hands_out_twice:
  assumes "good_boot ramsize firstfree" and "\<And>n. Alloc n \<in> set rs \<Longrightarrow> n \<le> 3 * 2 ^ 30"
    and "heap_run (kmalloc c) (kfree c) store rs Map.empty (ram_bootstrap ramsize firstfree (bss_heap m)) = Ok L h"
    and "firstpaddr h + 4096 \<le> lastpaddr h"
  shows "\<exists>p h1 q h2 h3. kmalloc c 4096 h = Ok p h1 \<and> p \<noteq> 0 \<and> kmalloc c (2 ^ 32 - 4096) h1 = Ok q h2 \<and> q \<noteq> 0 \<and> kmalloc c 4096 h2 = Ok p h3"
proof -
  have "km_inv firstfree (min ramsize (508 * 1024 * 1024)) h L" using heap_after_inv [of ramsize firstfree rs c m] assms(1-3) by auto
  then obtain g where g: "heap_ok h g" by (auto simp: km_inv_def)
  note i = heap_invD(12-16) [OF heap_okD(1) [OF g]]
  define f where "f = firstpaddr h"
  have f: "0 < f" "f + 4096 \<le> lastpaddr h" "lastpaddr h \<le> 532676608" "stealmem_lock h = None" using i assms(4) by (simp_all add: f_def)
  have al: "alloc_kpages c k h' = (if lastpaddr h' < (firstpaddr h' + k * 4096 mod 2 ^ 32) mod 2 ^ 32 then Ok 0 h'
      else Ok (wadd32 (firstpaddr h') MIPS_KSEG0) (h'\<lparr>firstpaddr := (firstpaddr h' + k * 4096 mod 2 ^ 32) mod 2 ^ 32\<rparr>))"
    if "stealmem_lock h' = None" "0 < firstpaddr h'" for k h'
    using that by (cases h') (simp add: alloc_kpages_def getppages_def ram_stealmem_def spinlock_acquire_def spinlock_release_def Let_def wadd32_def)
  have k1: "kmalloc c 4096 h' = alloc_kpages c 1 h'" "kmalloc c (2 ^ 32 - 4096) h' = alloc_kpages c 1048575 h'" for h'
    by (simp_all add: kmalloc_def LARGEST_SUBPAGE_SIZE_def wadd32_def wsub32_def)
  have 1: "kmalloc c 4096 h = Ok (MIPS_KSEG0 + f) (h\<lparr>firstpaddr := f + 4096\<rparr>)"
    using al [of h 1] f unfolding k1 by (simp add: f_def [symmetric] MIPS_KSEG0_def wadd32_def)
  have 2: "kmalloc c (2 ^ 32 - 4096) (h\<lparr>firstpaddr := f + 4096\<rparr>) = Ok (MIPS_KSEG0 + f + 4096) (h\<lparr>firstpaddr := f\<rparr>)"
    using al [of "h\<lparr>firstpaddr := f + 4096\<rparr>" 1048575] f unfolding k1 by (simp add: MIPS_KSEG0_def wadd32_def)
  have 3: "kmalloc c 4096 (h\<lparr>firstpaddr := f\<rparr>) = Ok (MIPS_KSEG0 + f) (h\<lparr>firstpaddr := f + 4096\<rparr>)"
    using al [of "h\<lparr>firstpaddr := f\<rparr>" 1] f unfolding k1 by (simp add: MIPS_KSEG0_def wadd32_def)
  show ?thesis using 1 2 3 by (intro exI conjI) (assumption | simp add: MIPS_KSEG0_def)+
qed

theorem kmalloc_huge_hands_out_twice_witness:
  "\<exists>p h1 q h2 h3. kmalloc 0 4096 (ram_bootstrap (4 * 1024 * 1024) (MIPS_KSEG0 + 0x20000) (bss_heap (\<lambda>_. 0))) = Ok p h1 \<and> p \<noteq> 0 \<and>
     kmalloc 0 (2 ^ 32 - 4096) h1 = Ok q h2 \<and> q \<noteq> 0 \<and> kmalloc 0 4096 h2 = Ok p h3"
proof -
  let ?h = "ram_bootstrap (4 * 1024 * 1024) (MIPS_KSEG0 + 0x20000) (bss_heap (\<lambda>_. 0))"
  have "firstpaddr ?h + 4096 \<le> lastpaddr ?h" by (simp add: ram_bootstrap_def bss_heap_def Let_def)
  then show ?thesis using kmalloc_huge_hands_out_twice [OF good_boot_example, of "[]" 0 "\<lambda>_. 0" Map.empty ?h] by simp
qed

end
