(* ===== verification/PageAlloc.thy ===== *)
theory PageAlloc
  imports KmallocInv
begin

text \<open>
  The allocator of physical pages of the kernel's own VM system, \<open>kern/arch/mips/vm/vm.c\<close>: blocks of contiguous pages, free and
  used ones on a list each, both in the order of their addresses. The list nodes are containers in an array \<open>vm_space\<close> that is set
  aside at startup; a container whose address is 0 is free. A pointer to a node is its index in the array here; \<open>node_ptr\<close> is the address
  the machine has for it.
\<close>

section \<open>Data\<close>

definition VM_PAGES :: nat where "VM_PAGES = 16"
definition MAX_NODES :: nat where "MAX_NODES = (VM_PAGES * PAGE_SIZE) div 12"

record node_t =
  node_addr :: nat
  node_pages :: nat
  node_next :: "nat option"

datatype mem_policy_t = first_fit | best_fit | worst_fit

record memory_t =
  mem_start :: nat
  mem_end :: nat
  mem_pages :: nat
  mem_free_pages :: nat
  free_blks :: "nat option"
  used_blks :: "nat option"
  policy :: mem_policy_t

text \<open>\<open>vm_ram\<close> is the memory below, of which the allocator takes over what \<open>ram_getsize\<close> gives it.\<close>

record vmsys =
  vm_ram :: kheap
  vm_base :: nat
  vm_space :: "node_t list"
  vm_mem :: memory_t

abbreviation nd :: "vmsys \<Rightarrow> nat \<Rightarrow> node_t" where "nd s i \<equiv> vm_space s ! i"

definition node_ptr :: "vmsys \<Rightarrow> nat \<Rightarrow> nat" where
  "node_ptr s i = wadd32 (vm_base s) (12 * i)"

definition upd_node :: "nat \<Rightarrow> (node_t \<Rightarrow> node_t) \<Rightarrow> vmsys \<Rightarrow> vmsys" where
  "upd_node i f s = s\<lparr>vm_space := (vm_space s)[i := f (nd s i)]\<rparr>"

definition upd_mem :: "(memory_t \<Rightarrow> memory_t) \<Rightarrow> vmsys \<Rightarrow> vmsys" where
  "upd_mem f s = s\<lparr>vm_mem := f (vm_mem s)\<rparr>"

section \<open>Node containers\<close>

text \<open>The loop of \<open>allocNode\<close> and \<open>freeNode\<close>: the first container from \<open>i\<close> on whose address is \<open>a\<close>.\<close>

function find_node :: "nat \<Rightarrow> nat \<Rightarrow> vmsys \<Rightarrow> nat option" where
  "find_node a i s = (if i < MAX_NODES then (if node_addr (nd s i) = a then Some i else find_node a (Suc i) s) else None)"
  by pat_completeness auto
termination by (relation "measure (\<lambda>(a, i, s). MAX_NODES - i)") auto

declare find_node.simps [simp del]

definition allocNode :: "nat \<Rightarrow> nat \<Rightarrow> vmsys \<Rightarrow> nat option \<times> vmsys" where
  "allocNode a n s =
     (if a = 0 then (None, s)
      else
        (case find_node 0 0 s of
           Some i \<Rightarrow> (Some i, upd_node i (\<lambda>_. \<lparr>node_addr = a, node_pages = n, node_next = None\<rparr>) s)
         | None \<Rightarrow> (None, s)))"

definition freeNode :: "nat \<Rightarrow> vmsys \<Rightarrow> vmsys" where
  "freeNode a s =
     (if a = 0 then s
      else
        (case find_node a 0 s of
           Some i \<Rightarrow> upd_node i (\<lambda>_. \<lparr>node_addr = 0, node_pages = 0, node_next = None\<rparr>) s
         | None \<Rightarrow> s))"

definition vm_bootstrap :: "nat \<Rightarrow> vmsys \<Rightarrow> (unit, vmsys) out" where
  "vm_bootstrap c s =
     (case getppages c VM_PAGES (vm_ram s) of
        Ok pa h \<Rightarrow>
          let ((lo, hi), h) = ram_getsize h;
              s = s\<lparr>vm_ram := h, vm_base := wadd32 pa MIPS_KSEG0,
                    vm_space := replicate MAX_NODES \<lparr>node_addr = 0, node_pages = 0, node_next = None\<rparr>\<rparr>;
              n = wsub32 hi lo div PAGE_SIZE;
              s = upd_mem (\<lambda>m. m\<lparr>mem_start := lo, mem_end := hi, mem_pages := n, mem_free_pages := n\<rparr>) s
          in (case allocNode lo n s of
                (None, s) \<Rightarrow> Panic
              | (Some i, s) \<Rightarrow> Ok () (upd_mem (\<lambda>m. m\<lparr>free_blks := Some i, used_blks := None, policy := first_fit\<rparr>) s))
      | Err e h \<Rightarrow> Err e (s\<lparr>vm_ram := h\<rparr>)
      | Panic \<Rightarrow> Panic)"

section \<open>Lists of blocks\<close>

text \<open>
  The loops \<open>while (node != NULL && !stop) { prev = node; node = node->next; }\<close>. A list has at most \<open>MAX_NODES\<close> entries, so that a walk of
  more steps goes round in a circle and never ends.
\<close>

fun walk :: "nat \<Rightarrow> (node_t \<Rightarrow> bool) \<Rightarrow> nat option \<Rightarrow> nat option \<Rightarrow> vmsys \<Rightarrow> (nat option \<times> nat option, vmsys) out" where
  "walk 0 stop prev node s = Panic"
| "walk (Suc k) stop prev node s =
     (case node of
        None \<Rightarrow> Ok (prev, None) s
      | Some i \<Rightarrow> if stop (nd s i) then Ok (prev, Some i) s else walk k stop (Some i) (node_next (nd s i)) s)"

text \<open>The loops for \<open>best_fit\<close> and \<open>worst_fit\<close>: \<open>better n m\<close> says that a block of \<open>n\<close> pages is to be preferred to the choice so far, of \<open>m\<close>.\<close>

fun fit_loop :: "nat \<Rightarrow> nat \<Rightarrow> (nat \<Rightarrow> nat \<Rightarrow> bool) \<Rightarrow> nat \<Rightarrow> (nat option \<times> nat) option \<Rightarrow> nat option \<Rightarrow> nat option \<Rightarrow> vmsys \<Rightarrow>
    ((nat option \<times> nat) option, vmsys) out" where
  "fit_loop 0 npages better selectedPages sel prev node s = Panic"
| "fit_loop (Suc k) npages better selectedPages sel prev node s =
     (case node of
        None \<Rightarrow> Ok sel s
      | Some i \<Rightarrow>
          if node_pages (nd s i) \<ge> npages \<and> better (node_pages (nd s i)) selectedPages
          then fit_loop k npages better (node_pages (nd s i)) (Some (prev, i)) (Some i) (node_next (nd s i)) s
          else fit_loop k npages better selectedPages sel (Some i) (node_next (nd s i)) s)"

definition select_blk :: "nat \<Rightarrow> vmsys \<Rightarrow> ((nat option \<times> nat) option, vmsys) out" where
  "select_blk npages s =
     (case policy (vm_mem s) of
        first_fit \<Rightarrow>
          kbind (walk (Suc MAX_NODES) (\<lambda>n. node_pages n \<ge> npages) None (free_blks (vm_mem s)) s) (\<lambda>(prev, node) s.
            Ok (case node of None \<Rightarrow> None | Some i \<Rightarrow> Some (prev, i)) s)
      | best_fit \<Rightarrow> fit_loop (Suc MAX_NODES) npages (<) 0xffffffff None None (free_blks (vm_mem s)) s
      | worst_fit \<Rightarrow> fit_loop (Suc MAX_NODES) npages (>) 0 None None (free_blks (vm_mem s)) s)"

definition set_free_link :: "nat option \<Rightarrow> nat option \<Rightarrow> vmsys \<Rightarrow> vmsys" where
  "set_free_link prev v s =
     (case prev of None \<Rightarrow> upd_mem (\<lambda>m. m\<lparr>free_blks := v\<rparr>) s | Some p \<Rightarrow> upd_node p (\<lambda>n. n\<lparr>node_next := v\<rparr>) s)"

definition set_used_link :: "nat option \<Rightarrow> nat option \<Rightarrow> vmsys \<Rightarrow> vmsys" where
  "set_used_link prev v s =
     (case prev of None \<Rightarrow> upd_mem (\<lambda>m. m\<lparr>used_blks := v\<rparr>) s | Some p \<Rightarrow> upd_node p (\<lambda>n. n\<lparr>node_next := v\<rparr>) s)"

section \<open>Allocating and freeing\<close>

text \<open>Taking the chosen block off the free list, or the first pages of it.\<close>

definition take_blk :: "nat \<Rightarrow> nat option \<Rightarrow> nat \<Rightarrow> vmsys \<Rightarrow> (nat, vmsys) out" where
  "take_blk npages prevSelected selected s =
     (if node_pages (nd s selected) = npages
      then Ok selected (set_free_link prevSelected (node_next (nd s selected)) s)
      else
        (case allocNode (node_addr (nd s selected)) npages s of
           (None, s) \<Rightarrow> Panic
         | (Some used, s) \<Rightarrow>
             Ok used (upd_node selected (\<lambda>n. n\<lparr>node_addr := wadd32 (node_addr n) (npages * PAGE_SIZE mod 2 ^ 32),
                                            node_pages := wsub32 (node_pages n) npages\<rparr>) s)))"

definition alloc_ppages :: "nat \<Rightarrow> vmsys \<Rightarrow> (nat, vmsys) out" where
  "alloc_ppages npages s =
     (if npages = 0 then Ok 0 s
      else if mem_free_pages (vm_mem s) < npages \<or> free_blks (vm_mem s) = None then Ok 0 s
      else
        kbind (select_blk npages s) (\<lambda>sel s.
          case sel of
            None \<Rightarrow> Ok 0 s
          | Some (prevSelected, selected) \<Rightarrow>
              kbind (take_blk npages prevSelected selected s) (\<lambda>used s.
              kbind (walk (Suc MAX_NODES) (\<lambda>n. \<not> node_addr n < node_addr (nd s used)) None (used_blks (vm_mem s)) s) (\<lambda>(prev, node) s.
                let s = upd_node used (\<lambda>n. n\<lparr>node_next := node\<rparr>) s;
                    s = set_used_link prev (Some used) s;
                    s = upd_mem (\<lambda>m. m\<lparr>mem_free_pages := wsub32 (mem_free_pages m) (node_pages (nd s used))\<rparr>) s
                in Ok (node_addr (nd s used)) s))))"

definition blk_end :: "node_t \<Rightarrow> nat" where
  "blk_end n = wadd32 (node_addr n) (node_pages n * PAGE_SIZE mod 2 ^ 32)"

text \<open>Joining a block with the one after it. \<open>freeNode\<close> is given the pointer to the node.\<close>

definition join_blks :: "nat \<Rightarrow> nat \<Rightarrow> vmsys \<Rightarrow> vmsys" where
  "join_blks p q s =
     freeNode (node_ptr s q)
       (upd_node p (\<lambda>n. n\<lparr>node_pages := wadd32 (node_pages n) (node_pages (nd s q)), node_next := node_next (nd s q)\<rparr>) s)"

definition compact :: "nat option \<Rightarrow> nat \<Rightarrow> nat option \<Rightarrow> vmsys \<Rightarrow> vmsys" where
  "compact prev free_n node s =
     (let (free_n, s) =
            (case prev of
               Some p \<Rightarrow> if node_addr (nd s free_n) = blk_end (nd s p) then (p, join_blks p free_n s) else (free_n, s)
             | None \<Rightarrow> (free_n, s))
      in (case node of
            Some q \<Rightarrow> if node_addr (nd s q) = blk_end (nd s free_n) then join_blks free_n q s else s
          | None \<Rightarrow> s))"

definition free_ppages :: "nat \<Rightarrow> vmsys \<Rightarrow> (unit, vmsys) out" where
  "free_ppages a s =
     (if a = 0 then Ok () s
      else
        kbind (walk (Suc MAX_NODES) (\<lambda>n. node_addr n = a) None (used_blks (vm_mem s)) s) (\<lambda>(prev, node) s.
          case node of
            None \<Rightarrow> Ok () s
          | Some free_n \<Rightarrow>
              let s = set_used_link prev (node_next (nd s free_n)) s in
              kbind (walk (Suc MAX_NODES) (\<lambda>n. \<not> node_addr n < node_addr (nd s free_n)) None (free_blks (vm_mem s)) s) (\<lambda>(prev, node) s.
                let s = upd_node free_n (\<lambda>n. n\<lparr>node_next := node\<rparr>) s;
                    s = set_free_link prev (Some free_n) s;
                    s = upd_mem (\<lambda>m. m\<lparr>mem_free_pages := wadd32 (mem_free_pages m) (node_pages (nd s free_n))\<rparr>) s
                in Ok () (compact prev free_n node s))))"

definition vm_alloc_kpages :: "nat \<Rightarrow> vmsys \<Rightarrow> (nat, vmsys) out" where
  "vm_alloc_kpages npages s = kbind (alloc_ppages npages s) (\<lambda>pa s. Ok (wadd32 pa MIPS_KSEG0) s)"

definition vm_free_kpages :: "nat \<Rightarrow> vmsys \<Rightarrow> (unit, vmsys) out" where
  "vm_free_kpages vaddr s = free_ppages (wsub32 vaddr MIPS_KSEG0) s"

end
