(* ===== verification/PagePool.thy ===== *)
theory PagePool
  imports PageAlloc
begin

text \<open>
  What the allocator of physical pages promises: its invariant, the contract as a locale and its interpretation.
\<close>

section \<open>Lists\<close>

definition hd_opt :: "'a list \<Rightarrow> 'a option" where
  "hd_opt xs = (case xs of [] \<Rightarrow> None | x # _ \<Rightarrow> Some x)"

definition last_opt :: "'a option \<Rightarrow> 'a list \<Rightarrow> 'a option" where
  "last_opt d xs = (if xs = [] then d else Some (last xs))"

lemma hd_opt_simps [simp]: "hd_opt [] = None" "hd_opt (x # xs) = Some x"
  by (simp_all add: hd_opt_def)

lemma last_opt_simps [simp]: "last_opt d [] = d" "last_opt d (x # xs) = last_opt (Some x) xs"
  by (simp_all add: last_opt_def)

lemma chain_hd: "chain f p xs \<Longrightarrow> p = hd_opt xs"
  by (cases xs) auto

lemma chain_append: "chain f p (xs @ ys) \<Longrightarrow> chain f (hd_opt ys) ys"
  by (induction xs arbitrary: p) (auto dest: chain_hd)

lemma chain_relink:
  assumes "chain f p (xs @ zs)" "xs \<noteq> []" "distinct xs" "last xs \<notin> set ys" "chain f v ys"
  shows "chain (f(last xs := v)) p (xs @ ys)"
  using assms
proof (induction xs arbitrary: p)
  case (Cons x xs)
  show ?case
  proof (cases xs)
    case Nil
    have "chain (f(x := v)) v ys = chain f v ys" using Cons.prems(4) Nil by (intro chain_cong) auto
    then show ?thesis using Nil Cons.prems(1,5) by (simp add: fun_upd_def)
  next
    case (Cons y zs)
    then have "last xs \<noteq> x" using Cons.prems(3) last_in_set [of xs] by auto
    then show ?thesis using Cons.IH [of "f x"] Cons.prems \<open>xs = y # zs\<close> by simp
  qed
qed simp

text \<open>The walk stops at the first entry where it should.\<close>

lemma walk_spec:
  assumes "chain (\<lambda>i. node_next (nd s i)) node xs" "length xs < k"
  shows "walk k stop prev node s =
    Ok (last_opt prev (takeWhile (\<lambda>i. \<not> stop (nd s i)) xs), hd_opt (dropWhile (\<lambda>i. \<not> stop (nd s i)) xs)) s"
  using assms
proof (induction xs arbitrary: k prev node)
  case Nil
  then show ?case by (cases k) auto
next
  case (Cons x xs)
  then show ?case by (cases k) auto
qed

lemma find_node_spec:
  "find_node a i s = List.find (\<lambda>j. node_addr (nd s j) = a) [i..<MAX_NODES]"
proof (induction a i s rule: find_node.induct)
  case (1 a i s)
  show ?case
  proof (cases "i < MAX_NODES")
    case True
    then show ?thesis using 1 by (subst find_node.simps) (simp add: upt_conv_Cons)
  qed (subst find_node.simps, simp)
qed

lemma find_node_Some: "find_node a 0 s = Some i \<Longrightarrow> i < MAX_NODES \<and> node_addr (nd s i) = a"
  by (auto simp: find_node_spec find_Some_iff)

lemma find_node_None: "find_node a 0 s = None \<longleftrightarrow> (\<forall>i < MAX_NODES. node_addr (nd s i) \<noteq> a)"
  by (auto simp: find_node_spec find_None_iff)

section \<open>Updates\<close>

lemma upd_node_sel [simp]:
  "vm_ram (upd_node i f s) = vm_ram s" "vm_base (upd_node i f s) = vm_base s" "vm_mem (upd_node i f s) = vm_mem s"
  "length (vm_space (upd_node i f s)) = length (vm_space s)"
  "i < length (vm_space s) \<Longrightarrow> nd (upd_node i f s) j = (if j = i then f (nd s i) else nd s j)"
  by (simp_all add: upd_node_def)

lemma upd_mem_sel [simp]:
  "vm_ram (upd_mem f s) = vm_ram s" "vm_base (upd_mem f s) = vm_base s" "vm_mem (upd_mem f s) = f (vm_mem s)" "vm_space (upd_mem f s) = vm_space s"
  by (simp_all add: upd_mem_def)

lemma set_link_sel [simp]:
  "vm_ram (set_free_link p v s) = vm_ram s" "vm_base (set_free_link p v s) = vm_base s" "length (vm_space (set_free_link p v s)) = length (vm_space s)"
  "vm_ram (set_used_link p v s) = vm_ram s" "vm_base (set_used_link p v s) = vm_base s" "length (vm_space (set_used_link p v s)) = length (vm_space s)"
  "vm_mem (set_free_link p v s) = (if p = None then (vm_mem s)\<lparr>free_blks := v\<rparr> else vm_mem s)"
  "vm_mem (set_used_link p v s) = (if p = None then (vm_mem s)\<lparr>used_blks := v\<rparr> else vm_mem s)"
  by (simp_all add: set_free_link_def set_used_link_def split: option.splits)

lemma set_link_nd:
  assumes "\<And>i. p = Some i \<Longrightarrow> i < length (vm_space s)"
  shows "nd (set_free_link p v s) j = (if p = Some j then (nd s j)\<lparr>node_next := v\<rparr> else nd s j)"
    "nd (set_used_link p v s) j = (if p = Some j then (nd s j)\<lparr>node_next := v\<rparr> else nd s j)"
  using assms by (auto simp: set_free_link_def set_used_link_def split: option.splits)

section \<open>Blocks\<close>

text \<open>A block is its address and its number of pages.\<close>

type_synonym blk = "nat \<times> nat"

definition ends :: "blk \<Rightarrow> nat" where "ends x = fst x + snd x * 4096"
definition has :: "blk \<Rightarrow> nat \<Rightarrow> bool" where "has x p \<longleftrightarrow> fst x \<le> p \<and> p < ends x"
definition gap :: "blk \<Rightarrow> blk \<Rightarrow> bool" where "gap x y \<longleftrightarrow> ends x < fst y"
definition below :: "blk \<Rightarrow> blk \<Rightarrow> bool" where "below x y \<longleftrightarrow> ends x \<le> fst y"

definition good_blk :: "blk \<Rightarrow> bool" where
  "good_blk x \<longleftrightarrow> 0 < fst x \<and> 0 < snd x \<and> fst x mod 4096 = 0 \<and> ends x \<le> 508 * 1024 * 1024"

text \<open>The free blocks \<open>fs\<close> and the used blocks \<open>us\<close> make up the memory from \<open>lo\<close> to \<open>hi\<close>; there is something in use between any
  two free blocks.\<close>

definition tiled :: "nat \<Rightarrow> nat \<Rightarrow> blk list \<Rightarrow> blk list \<Rightarrow> bool" where
  "tiled lo hi fs us \<longleftrightarrow> sorted_wrt gap fs \<and> sorted_wrt below us \<and> (\<forall>x \<in> set fs \<union> set us. good_blk x) \<and>
     (\<forall>x \<in> set fs. \<forall>y \<in> set us. below x y \<or> below y x) \<and>
     (\<forall>p. (\<exists>x \<in> set fs \<union> set us. has x p) \<longleftrightarrow> lo \<le> p \<and> p < hi)"

lemma tiledD:
  assumes "tiled lo hi fs us"
  shows "sorted_wrt gap fs" "sorted_wrt below us" "x \<in> set fs \<union> set us \<Longrightarrow> good_blk x"
    "x \<in> set fs \<Longrightarrow> y \<in> set us \<Longrightarrow> below x y \<or> below y x" "(\<exists>x \<in> set fs \<union> set us. has x p) \<longleftrightarrow> lo \<le> p \<and> p < hi"
  using assms unfolding tiled_def by blast+

lemma good_ends: "good_blk x \<Longrightarrow> fst x < ends x"
  by (simp add: good_blk_def ends_def)

text \<open>Where a block goes on a list in the order of addresses.\<close>

lemma insert_place:
  assumes "sorted_wrt below us" "\<And>u. u \<in> set us \<Longrightarrow> good_blk u \<and> (below x u \<or> below u x)" "good_blk x"
  shows "\<And>u. u \<in> set (takeWhile (\<lambda>u. fst u < fst x) us) \<Longrightarrow> below u x" "\<And>u. u \<in> set (dropWhile (\<lambda>u. fst u < fst x) us) \<Longrightarrow> below x u"
proof -
  show "below u x" if "u \<in> set (takeWhile (\<lambda>u. fst u < fst x) us)" for u
    using set_takeWhileD [OF that] assms(2) [of u] good_ends [OF assms(3)] by (auto simp: below_def)
  show "below x u" if "u \<in> set (dropWhile (\<lambda>u. fst u < fst x) us)" for u
    using assms(1,2) that
  proof (induction us)
    case (Cons v us)
    show ?case
    proof (cases "fst v < fst x")
      case True
      then show ?thesis using Cons by simp
    next
      case False
      then have "below x v" using Cons.prems(2) [of v] good_ends [of v] by (auto simp: below_def)
      then show ?thesis using Cons.prems False good_ends [of v] by (auto simp: below_def)
    qed
  qed simp
qed

lemma below_mono: "sorted_wrt gap fs \<Longrightarrow> sorted_wrt below fs"
  by (erule sorted_wrt_mono_rel [rotated]) (auto simp: gap_def below_def)

lemma tiled_take:
  assumes t: "tiled lo hi (f1 @ x # f2) (u1 @ u2)" and u: "\<And>u. u \<in> set u1 \<Longrightarrow> below u x" "\<And>u. u \<in> set u2 \<Longrightarrow> below x u"
  shows "tiled lo hi (f1 @ f2) (u1 @ x # u2)"
proof -
  note d = tiledD [OF t]
  have "(\<exists>y \<in> set (f1 @ f2) \<union> set (u1 @ x # u2). has y p) \<longleftrightarrow> lo \<le> p \<and> p < hi" for p using d(5) [of p] by auto
  moreover have "below y z \<or> below z y" if "y \<in> set (f1 @ f2)" "z \<in> set (u1 @ x # u2)" for y z
    using d(1) d(4) [of y z] that by (auto simp: sorted_wrt_append gap_def below_def)
  moreover have "sorted_wrt gap (f1 @ f2)" "sorted_wrt below (u1 @ x # u2)" using d(1,2) u by (auto simp: sorted_wrt_append)
  ultimately show ?thesis using d(3) unfolding tiled_def by auto
qed

lemma tiled_split:
  assumes t: "tiled lo hi (f1 @ (a, m) # f2) us" and n: "0 < n" "n < m"
  shows "sorted_wrt gap (f1 @ (a + n * 4096, m - n) # f2)" "good_blk (a, n)" "good_blk (a + n * 4096, m - n)"
    "\<And>p. has (a, m) p \<longleftrightarrow> has (a, n) p \<or> has (a + n * 4096, m - n) p"
    "\<And>y. below y (a, m) \<Longrightarrow> below y (a, n) \<and> below y (a + n * 4096, m - n)" "\<And>y. below (a, m) y \<Longrightarrow> below (a, n) y \<and> below (a + n * 4096, m - n) y"
proof -
  note d = tiledD [OF t]
  have e: "a + n * 4096 + (m - n) * 4096 = a + m * 4096" "n * 4096 < m * 4096" using n by (simp_all add: algebra_simps)
  show "sorted_wrt gap (f1 @ (a + n * 4096, m - n) # f2)" using d(1) n by (auto simp: sorted_wrt_append gap_def ends_def e)
  show "good_blk (a, n)" "good_blk (a + n * 4096, m - n)" using d(3) [of "(a, m)"] n e by (auto simp: good_blk_def ends_def)
  show "has (a, m) p \<longleftrightarrow> has (a, n) p \<or> has (a + n * 4096, m - n) p" for p using e by (auto simp: has_def ends_def)
  show "below y (a, n) \<and> below y (a + n * 4096, m - n)" if "below y (a, m)" for y using that by (simp add: below_def)
  show "below (a, n) y \<and> below (a + n * 4096, m - n) y" if "below (a, m) y" for y using that e by (simp add: below_def ends_def)
qed

lemma tiled_part:
  assumes t: "tiled lo hi (f1 @ (a, m) # f2) (u1 @ u2)" and n: "0 < n" "n < m"
    and u: "\<And>u. u \<in> set u1 \<Longrightarrow> below u (a, n)" "\<And>u. u \<in> set u2 \<Longrightarrow> below (a, n) u"
  shows "tiled lo hi (f1 @ (a + n * 4096, m - n) # f2) (u1 @ (a, n) # u2)"
proof -
  note d = tiledD [OF t] and s = tiled_split [OF t n]
  let ?y = "(a + n * 4096, m - n)"
  have "(\<exists>y \<in> set (f1 @ ?y # f2) \<union> set (u1 @ (a, n) # u2). has y p) \<longleftrightarrow> lo \<le> p \<and> p < hi" for p using d(5) [of p] s(4) [of p] by auto
  moreover have "below y z \<or> below z y" if y: "y \<in> set (f1 @ ?y # f2)" and z: "z \<in> set (u1 @ (a, n) # u2)" for y z
  proof (cases "z = (a, n)")
    case True
    have "below (a, n) ?y" by (simp add: below_def ends_def)
    moreover have "below y (a, m) \<or> below (a, m) y" if "y \<in> set f1 \<union> set f2" using d(1) that by (auto simp: sorted_wrt_append gap_def below_def)
    ultimately show ?thesis using y True s(5) [of y] s(6) [of y] by auto
  next
    case False
    then have "z \<in> set (u1 @ u2)" using z by auto
    then show ?thesis using y d(4) [of y z] d(4) [of "(a, m)" z] s(5,6) [of z] by auto
  qed
  moreover have "sorted_wrt below (u1 @ (a, n) # u2)" using d(2) u by (auto simp: sorted_wrt_append)
  ultimately show ?thesis using d(3) s(1-3) unfolding tiled_def by auto
qed

text \<open>A block that comes back to the free list is joined with its neighbours where they touch.\<close>

definition join :: "blk \<Rightarrow> blk \<Rightarrow> blk" where "join x y = (fst x, snd x + snd y)"

lemma join_facts:
  assumes "fst y = ends x" "good_blk x" "good_blk y"
  shows "ends (join x y) = ends y" "fst (join x y) = fst x" "good_blk (join x y)" "has (join x y) p \<longleftrightarrow> has x p \<or> has y p"
    "below z (join x y) \<longleftrightarrow> below z x" "below (join x y) z \<longleftrightarrow> below y z"
proof -
  show e: "ends (join x y) = ends y" "fst (join x y) = fst x" using assms(1) by (simp_all add: join_def ends_def algebra_simps)
  have "fst x < fst y" using assms(1) good_ends [OF assms(2)] by simp
  then show "good_blk (join x y)" "has (join x y) p \<longleftrightarrow> has x p \<or> has y p" "below z (join x y) \<longleftrightarrow> below z x" "below (join x y) z \<longleftrightarrow> below y z"
    using assms e good_ends [OF assms(3)] unfolding good_blk_def has_def below_def by (auto simp: join_def)
qed

text \<open>The free list while block \<open>x\<close> is put back between \<open>f1\<close> and \<open>f2\<close>: apart from \<open>x\<close> no two blocks touch.\<close>

definition loose :: "nat \<Rightarrow> nat \<Rightarrow> blk list \<Rightarrow> blk \<Rightarrow> blk list \<Rightarrow> blk list \<Rightarrow> bool" where
  "loose lo hi f1 x f2 us \<longleftrightarrow> sorted_wrt gap (f1 @ f2) \<and> sorted_wrt below (f1 @ x # f2) \<and> sorted_wrt below us \<and>
     (\<forall>y \<in> set (f1 @ x # f2) \<union> set us. good_blk y) \<and> (\<forall>y \<in> set (f1 @ x # f2). \<forall>z \<in> set us. below y z \<or> below z y) \<and>
     (\<forall>p. (\<exists>y \<in> set (f1 @ x # f2) \<union> set us. has y p) \<longleftrightarrow> lo \<le> p \<and> p < hi)"

lemma tiled_put:
  assumes t: "tiled lo hi (f1 @ f2) (u1 @ x # u2)" and f: "\<And>u. u \<in> set f1 \<Longrightarrow> below u x" "\<And>u. u \<in> set f2 \<Longrightarrow> below x u"
  shows "loose lo hi f1 x f2 (u1 @ u2)"
proof -
  note d = tiledD [OF t]
  have "(\<exists>y \<in> set (f1 @ x # f2) \<union> set (u1 @ u2). has y p) \<longleftrightarrow> lo \<le> p \<and> p < hi" for p using d(5) [of p] by auto
  moreover have "below y z \<or> below z y" if "y \<in> set (f1 @ x # f2)" "z \<in> set (u1 @ u2)" for y z
    using d(2) d(4) [of y z] that by (auto simp: sorted_wrt_append)
  moreover have "sorted_wrt below (f1 @ x # f2)" using below_mono [OF d(1)] f by (auto simp: sorted_wrt_append)
  moreover have "sorted_wrt below (u1 @ u2)" using d(2) by (auto simp: sorted_wrt_append)
  ultimately show ?thesis using d(1,3) unfolding loose_def by auto
qed

lemma looseD:
  assumes "loose lo hi f1 x f2 us"
  shows "sorted_wrt gap (f1 @ f2)" "sorted_wrt below (f1 @ x # f2)" "sorted_wrt below us" "y \<in> set (f1 @ x # f2) \<union> set us \<Longrightarrow> good_blk y"
    "y \<in> set (f1 @ x # f2) \<Longrightarrow> z \<in> set us \<Longrightarrow> below y z \<or> below z y" "(\<exists>y \<in> set (f1 @ x # f2) \<union> set us. has y p) \<longleftrightarrow> lo \<le> p \<and> p < hi"
  using assms unfolding loose_def by blast+

lemma loose_join_left:
  assumes l: "loose lo hi (f1 @ [p]) x f2 us" and j: "fst x = ends p"
  shows "loose lo hi f1 (join p x) f2 us" "\<And>y. y \<in> set f1 \<Longrightarrow> gap y (join p x)"
proof -
  note d = looseD [OF l]
  have g: "good_blk p" "good_blk x" using d(4) by auto
  note jf = join_facts [OF j g]
  have "(\<exists>y \<in> set (f1 @ join p x # f2) \<union> set us. has y q) \<longleftrightarrow> lo \<le> q \<and> q < hi" for q using d(6) [of q] jf(4) [of q] by auto
  moreover have "below y z \<or> below z y" if y: "y \<in> set (f1 @ join p x # f2)" and z: "z \<in> set us" for y z
  proof (cases "y = join p x")
    case True
    show ?thesis using d(5) [of p z] d(5) [of x z] z True jf(5) [of z] jf(6) [of z] j good_ends [OF g(1)] good_ends [OF d(4) [of z]] by (auto simp: below_def)
  next
    case False
    then show ?thesis using y d(5) [of y z] z by auto
  qed
  moreover have "sorted_wrt below (f1 @ join p x # f2)" using d(2) jf(5,6) by (auto simp: sorted_wrt_append)
  moreover have "sorted_wrt gap (f1 @ f2)" using d(1) by (auto simp: sorted_wrt_append)
  ultimately show "loose lo hi f1 (join p x) f2 us" using d(3,4) jf(3) unfolding loose_def by auto
  show "gap y (join p x)" if "y \<in> set f1" for y using that d(1) jf(2) by (auto simp: sorted_wrt_append gap_def)
qed

lemma loose_apart_left:
  assumes l: "loose lo hi f1 x f2 us" and j: "f1 \<noteq> [] \<Longrightarrow> fst x \<noteq> ends (last f1)" and y: "y \<in> set f1"
  shows "gap y x"
proof -
  note d = looseD [OF l]
  obtain g where g: "f1 = g @ [last f1]" using y by (metis append_butlast_last_id list.distinct(1) list.set_cases)
  have "below (last f1) x" using d(2) g y by (metis Un_iff last_in_set list.set_intros(1) set_append sorted_wrt_append empty_iff empty_set)
  then have "gap (last f1) x" using j y by (fastforce simp: gap_def below_def)
  moreover have "gap y (last f1)" if "y \<in> set g" using d(1) that by (subst (asm) g) (auto simp: sorted_wrt_append)
  moreover have "good_blk (last f1)" using d(4) y by (metis Un_iff last_in_set list.distinct(1) list.set_cases set_append)
  ultimately show ?thesis using y g good_ends [of "last f1"] by (metis (no_types, lifting) Un_iff empty_iff empty_set gap_def insert_iff less_trans list.simps(15) set_append)
qed

lemma loose_join_right:
  assumes l: "loose lo hi f1 x (q # f2) us" and j: "fst q = ends x" and f: "\<And>y. y \<in> set f1 \<Longrightarrow> gap y x"
  shows "tiled lo hi (f1 @ join x q # f2) us"
proof -
  note d = looseD [OF l]
  have g: "good_blk x" "good_blk q" using d(4) by auto
  note jf = join_facts [OF j g]
  have "(\<exists>y \<in> set (f1 @ join x q # f2) \<union> set us. has y p) \<longleftrightarrow> lo \<le> p \<and> p < hi" for p using d(6) [of p] jf(4) [of p] by auto
  moreover have "below y z \<or> below z y" if y: "y \<in> set (f1 @ join x q # f2)" and z: "z \<in> set us" for y z
  proof (cases "y = join x q")
    case True
    show ?thesis using d(5) [of x z] d(5) [of q z] z True jf(5) [of z] jf(6) [of z] j good_ends [OF g(1)] good_ends [OF d(4) [of z]] by (auto simp: below_def)
  next
    case False
    then show ?thesis using y d(5) [of y z] z by auto
  qed
  moreover have "sorted_wrt gap (f1 @ join x q # f2)" using d(1) f jf(1,2) by (auto simp: sorted_wrt_append gap_def)
  ultimately show ?thesis using d(3,4) jf(3) unfolding tiled_def by auto
qed

lemma loose_apart_right:
  assumes l: "loose lo hi f1 x f2 us" and j: "f2 \<noteq> [] \<Longrightarrow> fst (hd f2) \<noteq> ends x" and f: "\<And>y. y \<in> set f1 \<Longrightarrow> gap y x"
  shows "tiled lo hi (f1 @ x # f2) us"
proof -
  note d = looseD [OF l]
  have "gap x y" if y: "y \<in> set f2" for y
  proof -
    obtain q g where g: "f2 = q # g" using y by (cases f2) auto
    have "below x q" using d(2) g by (auto simp: sorted_wrt_append)
    then have "gap x q" using j g by (auto simp: gap_def below_def)
    moreover have "y = q \<or> gap q y" using d(1) y g by (auto simp: sorted_wrt_append)
    ultimately show ?thesis using good_ends [OF d(4) [of q]] g by (auto simp: gap_def)
  qed
  then have "sorted_wrt gap (f1 @ x # f2)" using d(1) f by (auto simp: sorted_wrt_append)
  then show ?thesis using d(3-6) unfolding tiled_def by blast
qed

lemma total_pages: "sorted_wrt below xs \<Longrightarrow> (\<And>x. x \<in> set xs \<Longrightarrow> ends x \<le> b) \<Longrightarrow> sum_list (map snd xs) * 4096 \<le> b"
proof (induction xs arbitrary: b rule: rev_induct)
  case (snoc x xs)
  have "sum_list (map snd xs) * 4096 \<le> fst x" using snoc.prems(1) by (intro snoc.IH) (auto simp: sorted_wrt_append below_def)
  moreover have "ends x \<le> b" using snoc.prems(2) by simp
  ultimately show ?case by (simp add: ends_def algebra_simps)
qed simp

text \<open>Free memory in one piece lies in one block.\<close>

lemma run_in_block:
  assumes s: "sorted_wrt gap fs" and g: "\<And>x. x \<in> set fs \<Longrightarrow> good_blk x"
    and c: "\<And>p. a \<le> p \<Longrightarrow> p < a + k \<Longrightarrow> \<exists>x \<in> set fs. has x p" and k: "0 < k"
  shows "\<exists>x \<in> set fs. fst x \<le> a \<and> a + k \<le> ends x"
proof -
  obtain x where x: "x \<in> set fs" "has x a" using c [of a] k by auto
  have "a + k \<le> ends x"
  proof (rule ccontr)
    assume "\<not> a + k \<le> ends x"
    then obtain y where y: "y \<in> set fs" "has y (ends x)" using c [of "ends x"] x(2) by (auto simp: has_def)
    then have "x \<noteq> y" by (auto simp: has_def)
    then have "gap x y \<or> gap y x" using s x(1) y(1)
      by (metis sorted_wrt_iff_nth_less in_set_conv_nth linorder_neqE_nat)
    then show False using x(2) y(2) good_ends [OF g [OF x(1)]] by (auto simp: gap_def has_def)
  qed
  then show ?thesis using x by (auto simp: has_def)
qed

section \<open>The invariant\<close>

abbreviation nx :: "vmsys \<Rightarrow> nat \<Rightarrow> nat option" where "nx s \<equiv> \<lambda>i. node_next (nd s i)"

definition blk_of :: "vmsys \<Rightarrow> nat \<Rightarrow> blk" where
  "blk_of s i = (node_addr (nd s i), node_pages (nd s i))"

definition lists :: "vmsys \<Rightarrow> nat list \<Rightarrow> nat list \<Rightarrow> bool" where
  "lists s F U \<longleftrightarrow> length (vm_space s) = MAX_NODES \<and> chain (nx s) (free_blks (vm_mem s)) F \<and> chain (nx s) (used_blks (vm_mem s)) U \<and>
     distinct (F @ U) \<and> set (F @ U) \<subseteq> {..<MAX_NODES}"

text \<open>The containers lie above all physical addresses, so no pointer to one is the address of a block.\<close>

definition space_ok :: "vmsys \<Rightarrow> bool" where
  "space_ok s \<longleftrightarrow> (\<forall>i < MAX_NODES. node_addr (nd s i) < MIPS_KSEG0) \<and> MIPS_KSEG0 < vm_base s \<and> vm_base s + VM_PAGES * PAGE_SIZE \<le> 2 ^ 32"

definition pool :: "nat \<Rightarrow> nat \<Rightarrow> vmsys \<Rightarrow> nat list \<Rightarrow> nat list \<Rightarrow> bool" where
  "pool lo hi s F U \<longleftrightarrow> lists s F U \<and> space_ok s \<and> tiled lo hi (map (blk_of s) F) (map (blk_of s) U) \<and>
     mem_free_pages (vm_mem s) = sum_list (map (\<lambda>i. node_pages (nd s i)) F)"

text \<open>The containers that are left.\<close>

definition spare :: "vmsys \<Rightarrow> nat" where
  "spare s = card {i. i < MAX_NODES \<and> node_addr (nd s i) = 0}"

lemma MAX_NODES_eq: "MAX_NODES = 5461"
  by (simp add: MAX_NODES_def VM_PAGES_def)

lemma join_blks_eq:
  assumes "space_ok s" "length (vm_space s) = MAX_NODES" "p < MAX_NODES" "q < MAX_NODES"
  shows "join_blks p q s = upd_node p (\<lambda>n. n\<lparr>node_pages := wadd32 (node_pages n) (node_pages (nd s q)), node_next := node_next (nd s q)\<rparr>) s"
proof -
  let ?s = "upd_node p (\<lambda>n. n\<lparr>node_pages := wadd32 (node_pages n) (node_pages (nd s q)), node_next := node_next (nd s q)\<rparr>) s"
  have "12 * q < VM_PAGES * PAGE_SIZE" using assms(4) by (simp add: MAX_NODES_eq VM_PAGES_def)
  then have "MIPS_KSEG0 < node_ptr s q" using assms(1) by (simp add: node_ptr_def space_ok_def)
  moreover have "node_addr (nd ?s i) = node_addr (nd s i)" for i using assms(2,3) by simp
  ultimately have "node_addr (nd ?s i) \<noteq> node_ptr s q" if "i < MAX_NODES" for i using assms(1) that by (fastforce simp: space_ok_def)
  then have "find_node (node_ptr s q) 0 ?s = None" by (simp add: find_node_None)
  then show ?thesis by (simp add: join_blks_def freeNode_def)
qed

section \<open>Linking\<close>

lemma link_nx:
  assumes "set xs \<subseteq> {..<length (vm_space s)}"
  shows "nx (set_free_link (last_opt None xs) v s) = (if xs = [] then nx s else (nx s)(last xs := v))"
    "nx (set_used_link (last_opt None xs) v s) = (if xs = [] then nx s else (nx s)(last xs := v))"
proof -
  have "last xs < length (vm_space s)" if "xs \<noteq> []" using assms last_in_set [OF that] by auto
  then have l: "i < length (vm_space s)" if "last_opt None xs = Some i" for i using that by (auto simp: last_opt_def split: if_splits)
  show "nx (set_free_link (last_opt None xs) v s) = (if xs = [] then nx s else (nx s)(last xs := v))"
    "nx (set_used_link (last_opt None xs) v s) = (if xs = [] then nx s else (nx s)(last xs := v))"
    using set_link_nd [OF l, where v = v] by (auto simp: fun_eq_iff last_opt_def)
qed

lemma link_blk:
  assumes "set xs \<subseteq> {..<length (vm_space s)}"
  shows "node_addr (nd (set_free_link (last_opt None xs) v s) i) = node_addr (nd s i)" "node_pages (nd (set_free_link (last_opt None xs) v s) i) = node_pages (nd s i)"
    "node_addr (nd (set_used_link (last_opt None xs) v s) i) = node_addr (nd s i)" "node_pages (nd (set_used_link (last_opt None xs) v s) i) = node_pages (nd s i)"
proof -
  have "last xs < length (vm_space s)" if "xs \<noteq> []" using assms last_in_set [OF that] by auto
  then have l: "j < length (vm_space s)" if "last_opt None xs = Some j" for j using that by (auto simp: last_opt_def split: if_splits)
  show "node_addr (nd (set_free_link (last_opt None xs) v s) i) = node_addr (nd s i)" "node_pages (nd (set_free_link (last_opt None xs) v s) i) = node_pages (nd s i)"
    "node_addr (nd (set_used_link (last_opt None xs) v s) i) = node_addr (nd s i)" "node_pages (nd (set_used_link (last_opt None xs) v s) i) = node_pages (nd s i)"
    using set_link_nd [OF l, where v = v] by auto
qed

lemma relink_chain:
  assumes "chain f b (xs @ zs)" "distinct xs" "set xs \<inter> set ys = {}" "chain f v ys"
  shows "chain (if xs = [] then f else f(last xs := v)) (if xs = [] then v else b) (xs @ ys)"
proof (cases "xs = []")
  case False
  then have "last xs \<notin> set ys" using assms(3) last_in_set by blast
  then show ?thesis using chain_relink [OF assms(1) False assms(2) _ assms(4)] False by simp
qed (use assms(4) in simp)

lemma relink_other:
  assumes "set xs \<inter> set us = {}"
  shows "chain (if xs = [] then f else f(last xs := v)) c us = chain f c us"
proof (cases "xs = []")
  case False
  then have "last xs \<notin> set us" using assms last_in_set by blast
  then show ?thesis using False by (auto intro!: chain_cong)
qed simp

lemma last_opt_None: "last_opt None xs = None \<longleftrightarrow> xs = []"
  by (simp add: last_opt_def)

text \<open>Replacing what follows \<open>xs\<close> on one of the lists.\<close>

lemma lists_free_link:
  assumes l: "lists s (xs @ zs) U" and ys: "chain (nx s) v ys" "distinct (xs @ ys @ U)" "set ys \<subseteq> {..<MAX_NODES}"
  shows "lists (set_free_link (last_opt None xs) v s) (xs @ ys) U"
proof -
  have xs: "set xs \<subseteq> {..<length (vm_space s)}" using l by (auto simp: lists_def)
  have "set xs \<inter> set ys = {}" "set xs \<inter> set U = {}" "distinct xs" using ys(2) by auto
  note r = relink_chain [OF _ this(3,1) ys(1)] and o = relink_other [OF this(2)]
  show ?thesis unfolding lists_def link_nx [OF xs] using l ys r [of "free_blks (vm_mem s)" zs] o
    by (auto simp: lists_def last_opt_None)
qed

lemma lists_used_link:
  assumes l: "lists s F (xs @ zs)" and ys: "chain (nx s) v ys" "distinct (F @ xs @ ys)" "set ys \<subseteq> {..<MAX_NODES}"
  shows "lists (set_used_link (last_opt None xs) v s) F (xs @ ys)"
proof -
  have xs: "set xs \<subseteq> {..<length (vm_space s)}" using l by (auto simp: lists_def)
  have "set xs \<inter> set ys = {}" "set xs \<inter> set F = {}" "distinct xs" using ys(2) by auto
  note r = relink_chain [OF _ this(3,1) ys(1)] and o = relink_other [OF this(2)]
  show ?thesis unfolding lists_def link_nx [OF xs] using l ys r [of "used_blks (vm_mem s)" zs] o
    by (auto simp: lists_def last_opt_None)
qed

lemma lists_upd:
  assumes "lists s F U" "i \<notin> set F" "i \<notin> set U" "i < MAX_NODES"
  shows "lists (upd_node i f s) F U"
proof -
  have "chain (nx (upd_node i f s)) b xs = chain (nx s) b xs" if "i \<notin> set xs" for b xs
    using assms(1,4) that by (intro chain_cong) (auto simp: lists_def)
  then show ?thesis using assms by (auto simp: lists_def)
qed

lemma lists_mem: "lists s F U \<Longrightarrow> free_blks (f (vm_mem s)) = free_blks (vm_mem s) \<Longrightarrow> used_blks (f (vm_mem s)) = used_blks (vm_mem s) \<Longrightarrow> lists (upd_mem f s) F U"
  by (simp add: lists_def)

lemma lists_same_next:
  assumes "lists s F U" "i < MAX_NODES" "\<And>n. node_next (f n) = node_next n"
  shows "lists (upd_node i f s) F U"
proof -
  have "nx (upd_node i f s) = nx s" using assms by (auto simp: lists_def fun_eq_iff)
  then show ?thesis using assms(1) by (simp add: lists_def)
qed

section \<open>Choosing a block\<close>

lemma chain_length: "lists s F U \<Longrightarrow> length F < Suc MAX_NODES \<and> length U < Suc MAX_NODES"
  using card_mono [of "{..<MAX_NODES}" "set F"] card_mono [of "{..<MAX_NODES}" "set U"] by (auto simp: lists_def distinct_card less_Suc_eq_le)

lemma fit_loop_spec:
  assumes "chain (nx s) node xs" "length xs < k" "pre @ xs = F" "prev = last_opt None pre"
    and "\<And>m n. better m n \<Longrightarrow> \<not> better n m"
    and "case sel of None \<Rightarrow> (\<forall>i \<in> set pre. node_pages (nd s i) < npages) \<and> (\<forall>i \<in> set F. better (node_pages (nd s i)) selp)
       | Some (p, i) \<Rightarrow> \<exists>F1 F2. F = F1 @ i # F2 \<and> p = last_opt None F1 \<and> npages \<le> node_pages (nd s i)"
  shows "\<exists>r. fit_loop k npages better selp sel prev node s = Ok r s \<and>
    (case r of None \<Rightarrow> \<forall>i \<in> set F. node_pages (nd s i) < npages
     | Some (p, i) \<Rightarrow> \<exists>F1 F2. F = F1 @ i # F2 \<and> p = last_opt None F1 \<and> npages \<le> node_pages (nd s i))"
  using assms(1-4,6)
proof (induction xs arbitrary: k node pre prev sel selp)
  case Nil
  then show ?case by (cases k; cases sel) auto
next
  case (Cons x xs)
  then obtain k' where k: "k = Suc k'" by (cases k) auto
  have p: "Some x = last_opt None (pre @ [x])" by (simp add: last_opt_def)
  have nx: "chain (nx s) (nx s x) xs" "node = Some x" using Cons.prems(1) by auto
  have F: "(pre @ [x]) @ xs = F" using Cons.prems(3) by simp
  show ?case
  proof (cases "npages \<le> node_pages (nd s x) \<and> better (node_pages (nd s x)) selp")
    case True
    have "case Some (prev, x) of None \<Rightarrow> (\<forall>i \<in> set (pre @ [x]). node_pages (nd s i) < npages) \<and> (\<forall>i \<in> set F. better (node_pages (nd s i)) (node_pages (nd s x)))
       | Some (p, i) \<Rightarrow> \<exists>F1 F2. F = F1 @ i # F2 \<and> p = last_opt None F1 \<and> npages \<le> node_pages (nd s i)"
      using True Cons.prems(3,4) by auto
    from Cons.IH [OF nx(1) _ F p this] show ?thesis using Cons.prems(2) True k nx(2) by simp
  next
    case False
    have "case sel of None \<Rightarrow> (\<forall>i \<in> set (pre @ [x]). node_pages (nd s i) < npages) \<and> (\<forall>i \<in> set F. better (node_pages (nd s i)) selp)
       | Some (p, i) \<Rightarrow> \<exists>F1 F2. F = F1 @ i # F2 \<and> p = last_opt None F1 \<and> npages \<le> node_pages (nd s i)"
      using False Cons.prems(3,5) by (auto split: option.splits)
    from Cons.IH [OF nx(1) _ F p this] show ?thesis using Cons.prems(2) False k nx(2) by auto
  qed
qed

lemma select_blk_spec:
  assumes l: "lists s F U" and p: "\<And>i. i \<in> set F \<Longrightarrow> 0 < node_pages (nd s i) \<and> node_pages (nd s i) < 2 ^ 32 - 1"
  shows "\<exists>r. select_blk npages s = Ok r s \<and>
    (case r of None \<Rightarrow> \<forall>i \<in> set F. node_pages (nd s i) < npages
     | Some (p, i) \<Rightarrow> \<exists>F1 F2. F = F1 @ i # F2 \<and> p = last_opt None F1 \<and> npages \<le> node_pages (nd s i))"
proof -
  have c: "chain (nx s) (free_blks (vm_mem s)) F" "length F < Suc MAX_NODES" using l chain_length [OF l] by (auto simp: lists_def)
  show ?thesis
  proof (cases "policy (vm_mem s)")
    case first_fit
    let ?P = "\<lambda>i. \<not> npages \<le> node_pages (nd s i)"
    have w: "walk (Suc MAX_NODES) (\<lambda>n. node_pages n \<ge> npages) None (free_blks (vm_mem s)) s = Ok (last_opt None (takeWhile ?P F), hd_opt (dropWhile ?P F)) s"
      by (rule walk_spec [OF c])
    show ?thesis
    proof (cases "dropWhile ?P F")
      case Nil
      then have "\<forall>i \<in> set F. node_pages (nd s i) < npages" by (auto simp: dropWhile_eq_Nil_conv)
      then show ?thesis using w first_fit Nil by (simp add: select_blk_def del: walk.simps)
    next
      case (Cons i F2)
      then have "npages \<le> node_pages (nd s i)" by (auto simp: dropWhile_eq_Cons_conv)
      moreover have "F = takeWhile ?P F @ i # F2" using Cons takeWhile_dropWhile_id [of ?P F] by simp
      ultimately show ?thesis using w first_fit Cons by (auto simp: select_blk_def simp del: walk.simps)
    qed
  next
    case best_fit
    show ?thesis using fit_loop_spec [OF c, where pre = "[]" and F = F and prev = None and better = "(<)" and sel = None and npages = npages and selp = "0xffffffff"] best_fit p by (auto simp: select_blk_def)
  next
    case worst_fit
    show ?thesis using fit_loop_spec [OF c, where pre = "[]" and F = F and prev = None and better = "(>)" and sel = None and npages = npages and selp = 0] worst_fit p by (auto simp: select_blk_def)
  qed
qed

section \<open>Allocating\<close>

declare walk.simps [simp del] fit_loop.simps [simp del]

lemma lists_insert_used:
  assumes l: "lists s F (U1 @ U2)" and u: "u \<notin> set F" "u \<notin> set (U1 @ U2)" "u < MAX_NODES"
  shows "lists (set_used_link (last_opt None U1) (Some u) (upd_node u (\<lambda>n. n\<lparr>node_next := hd_opt U2\<rparr>) s)) F (U1 @ u # U2)"
proof (rule lists_used_link)
  let ?s = "upd_node u (\<lambda>n. n\<lparr>node_next := hd_opt U2\<rparr>) s"
  show l': "lists ?s F (U1 @ U2)" by (rule lists_upd [OF l u])
  have "chain (nx ?s) (hd_opt U2) U2" using l' chain_append by (auto simp: lists_def)
  then show "chain (nx ?s) (Some u) (u # U2)" using l u(3) by (simp add: lists_def)
qed (use l u in \<open>auto simp: lists_def\<close>)

lemma lists_insert_free:
  assumes l: "lists s (F1 @ F2) U" and u: "u \<notin> set (F1 @ F2)" "u \<notin> set U" "u < MAX_NODES"
  shows "lists (set_free_link (last_opt None F1) (Some u) (upd_node u (\<lambda>n. n\<lparr>node_next := hd_opt F2\<rparr>) s)) (F1 @ u # F2) U"
proof (rule lists_free_link)
  let ?s = "upd_node u (\<lambda>n. n\<lparr>node_next := hd_opt F2\<rparr>) s"
  show l': "lists ?s (F1 @ F2) U" by (rule lists_upd [OF l u])
  have "chain (nx ?s) (hd_opt F2) F2" using l' chain_append by (auto simp: lists_def)
  then show "chain (nx ?s) (Some u) (u # F2)" using l u(3) by (simp add: lists_def)
qed (use l u in \<open>auto simp: lists_def\<close>)

lemma lists_remove_free:
  assumes l: "lists s (F1 @ i # F2) U"
  shows "lists (set_free_link (last_opt None F1) (node_next (nd s i)) s) (F1 @ F2) U"
proof (rule lists_free_link [OF l])
  have "chain (nx s) (Some i) (i # F2)" using l chain_append [of "nx s" _ F1 "i # F2"] by (auto simp: lists_def)
  then show "chain (nx s) (node_next (nd s i)) F2" by simp
qed (use l in \<open>auto simp: lists_def\<close>)

lemma lists_remove_used:
  assumes l: "lists s F (U1 @ i # U2)"
  shows "lists (set_used_link (last_opt None U1) (node_next (nd s i)) s) F (U1 @ U2)"
proof (rule lists_used_link [OF l])
  have "chain (nx s) (Some i) (i # U2)" using l chain_append [of "nx s" _ U1 "i # U2"] by (auto simp: lists_def)
  then show "chain (nx s) (node_next (nd s i)) U2" by simp
qed (use l in \<open>auto simp: lists_def\<close>)

text \<open>Putting block \<open>u\<close> on the list of used blocks.\<close>

definition insert_used :: "nat \<Rightarrow> nat list \<Rightarrow> nat list \<Rightarrow> vmsys \<Rightarrow> vmsys" where
  "insert_used u U1 U2 s = set_used_link (last_opt None U1) (Some u) (upd_node u (\<lambda>n. n\<lparr>node_next := hd_opt U2\<rparr>) s)"

lemma insert_used_nd:
  assumes "lists s F (U1 @ U2)" "u < MAX_NODES"
  shows "node_addr (nd (insert_used u U1 U2 s) i) = node_addr (nd s i)" "node_pages (nd (insert_used u U1 U2 s) i) = node_pages (nd s i)"
    "blk_of (insert_used u U1 U2 s) i = blk_of s i" "vm_ram (insert_used u U1 U2 s) = vm_ram s" "vm_base (insert_used u U1 U2 s) = vm_base s"
    "mem_free_pages (vm_mem (insert_used u U1 U2 s)) = mem_free_pages (vm_mem s)"
proof -
  let ?s = "upd_node u (\<lambda>n. n\<lparr>node_next := hd_opt U2\<rparr>) s"
  have u: "u < length (vm_space s)" using assms by (simp add: lists_def)
  have "set U1 \<subseteq> {..<length (vm_space ?s)}" using assms(1) by (auto simp: lists_def)
  note b = link_blk(3,4) [OF this, of "Some u" i]
  show "node_addr (nd (insert_used u U1 U2 s) i) = node_addr (nd s i)" "node_pages (nd (insert_used u U1 U2 s) i) = node_pages (nd s i)"
    "blk_of (insert_used u U1 U2 s) i = blk_of s i"
    using b u by (simp_all add: insert_used_def blk_of_def)
qed (simp_all add: insert_used_def)

text \<open>The last part of \<open>alloc_ppages\<close>.\<close>

lemma alloc_insert:
  assumes l: "lists s F U" and u: "u \<notin> set F" "u \<notin> set U" "u < MAX_NODES"
    and U1: "U1 = takeWhile (\<lambda>i. node_addr (nd s i) < node_addr (nd s u)) U" and U2: "U2 = dropWhile (\<lambda>i. node_addr (nd s i) < node_addr (nd s u)) U"
  shows "kbind (walk (Suc MAX_NODES) (\<lambda>n. \<not> node_addr n < node_addr (nd s u)) None (used_blks (vm_mem s)) s) (\<lambda>(prev, node) s.
      let s = upd_node u (\<lambda>n. n\<lparr>node_next := node\<rparr>) s;
          s = set_used_link prev (Some u) s;
          s = upd_mem (\<lambda>m. m\<lparr>mem_free_pages := wsub32 (mem_free_pages m) (node_pages (nd s u))\<rparr>) s
      in Ok (node_addr (nd s u)) s) =
    Ok (node_addr (nd s u)) (upd_mem (\<lambda>m. m\<lparr>mem_free_pages := wsub32 (mem_free_pages m) (node_pages (nd s u))\<rparr>) (insert_used u U1 U2 s))"
proof -
  have c: "chain (nx s) (used_blks (vm_mem s)) U" "length U < Suc MAX_NODES" using l chain_length [OF l] by (auto simp: lists_def)
  have "lists s F (U1 @ U2)" using l U1 U2 by simp
  note b = insert_used_nd [OF this u(3)]
  show ?thesis by (subst walk_spec [OF c]) (simp add: U1 [symmetric] U2 [symmetric] Let_def insert_used_def [symmetric] b)
qed

lemma poolD:
  assumes "pool lo hi s F U"
  shows "lists s F U" "space_ok s" "tiled lo hi (map (blk_of s) F) (map (blk_of s) U)" "mem_free_pages (vm_mem s) = sum_list (map (\<lambda>i. node_pages (nd s i)) F)"
    "i \<in> set F \<union> set U \<Longrightarrow> good_blk (blk_of s i) \<and> i < MAX_NODES \<and> node_addr (nd s i) \<noteq> 0" "length (vm_space s) = MAX_NODES"
proof -
  show l: "lists s F U" and "space_ok s" and t: "tiled lo hi (map (blk_of s) F) (map (blk_of s) U)" and
    "mem_free_pages (vm_mem s) = sum_list (map (\<lambda>i. node_pages (nd s i)) F)" using assms by (simp_all add: pool_def)
  show "good_blk (blk_of s i) \<and> i < MAX_NODES \<and> node_addr (nd s i) \<noteq> 0" if "i \<in> set F \<union> set U"
    using tiledD(3) [OF t, of "blk_of s i"] that l by (auto simp: lists_def good_blk_def blk_of_def)
  show "length (vm_space s) = MAX_NODES" using l by (simp add: lists_def)
qed

lemma pool_insert_used:
  assumes l: "lists s F (U1 @ U2)" and u: "u \<notin> set F" "u \<notin> set (U1 @ U2)" "u < MAX_NODES" and sp: "space_ok s"
    and t: "tiled lo hi (map (blk_of s) F) (map (blk_of s) (U1 @ u # U2))"
    and n: "mem_free_pages (vm_mem s) = sum_list (map (\<lambda>i. node_pages (nd s i)) F) + node_pages (nd s u)"
    and s': "s' = upd_mem (\<lambda>m. m\<lparr>mem_free_pages := wsub32 (mem_free_pages m) (node_pages (nd s u))\<rparr>) (insert_used u U1 U2 s)"
  shows "pool lo hi s' F (U1 @ u # U2)" "\<And>i. blk_of s' i = blk_of s i" "spare s' = spare s" "vm_ram s' = vm_ram s"
proof -
  note b = insert_used_nd [OF l u(3)]
  show bs: "blk_of s' i = blk_of s i" for i using b by (simp add: s' blk_of_def)
  have "lists (insert_used u U1 U2 s) F (U1 @ u # U2)" unfolding insert_used_def by (rule lists_insert_used [OF l u])
  then have "lists s' F (U1 @ u # U2)" unfolding s' by (rule lists_mem) simp_all
  moreover have "space_ok s'" using sp b by (simp add: s' space_ok_def)
  moreover have "tiled lo hi (map (blk_of s') F) (map (blk_of s') (U1 @ u # U2))" using t ext [of "blk_of s'" "blk_of s", OF bs] by simp
  moreover have "mem_free_pages (vm_mem s') = sum_list (map (\<lambda>i. node_pages (nd s' i)) F)" using n by (simp add: s' b)
  ultimately show "pool lo hi s' F (U1 @ u # U2)" by (simp add: pool_def)
  show "spare s' = spare s" "vm_ram s' = vm_ram s" using b by (simp_all add: s' spare_def)
qed

text \<open>What a successful allocation does.\<close>

definition allocated :: "nat \<Rightarrow> nat \<Rightarrow> vmsys \<Rightarrow> nat list \<Rightarrow> nat list \<Rightarrow> nat \<Rightarrow> nat \<Rightarrow> vmsys \<Rightarrow> bool" where
  "allocated lo hi s F U p n s' \<longleftrightarrow> (\<exists>F' U'. pool lo hi s' F' U' \<and> p \<noteq> 0 \<and> blk_of s' ` set U' = insert (p, n) (blk_of s ` set U) \<and>
     (\<exists>i \<in> set F. node_addr (nd s i) = p \<and> n \<le> node_pages (nd s i) \<and> spare s = (if n = node_pages (nd s i) then spare s' else Suc (spare s'))) \<and>
     vm_ram s' = vm_ram s)"

lemma sum_list_mid: "sum_list (map f (xs @ x # ys)) = sum_list (map f (xs @ ys)) + (f x :: nat)"
  by simp

lemma used_place:
  assumes t: "tiled lo hi (map (blk_of s) (F1 @ i # F2)) (map (blk_of s) U)" and x: "good_blk x" "fst x = node_addr (nd s i)" "snd x \<le> node_pages (nd s i)"
    and e: "\<And>j. j \<in> set U \<Longrightarrow> node_addr (nd s' j) = node_addr (nd s j)"
    and U1: "U1 = takeWhile (\<lambda>j. node_addr (nd s' j) < fst x) U" and U2: "U2 = dropWhile (\<lambda>j. node_addr (nd s' j) < fst x) U"
  shows "\<And>u. u \<in> set (map (blk_of s) U1) \<Longrightarrow> below u x" "\<And>u. u \<in> set (map (blk_of s) U2) \<Longrightarrow> below x u" "U = U1 @ U2"
proof -
  note d = tiledD [OF t]
  have "ends x \<le> ends (blk_of s i)" using x(2,3) by (simp add: ends_def blk_of_def)
  then have a: "good_blk u \<and> (below x u \<or> below u x)" if "u \<in> set (map (blk_of s) U)" for u
    using d(3) [of u] d(4) [of "blk_of s i" u] that x(2) by (auto simp: below_def blk_of_def)
  have "map (blk_of s) U1 = takeWhile (\<lambda>u. fst u < fst x) (map (blk_of s) U)" "map (blk_of s) U2 = dropWhile (\<lambda>u. fst u < fst x) (map (blk_of s) U)"
    unfolding U1 U2 takeWhile_map dropWhile_map
    by (auto intro!: arg_cong [of _ _ "map (blk_of s)"] takeWhile_cong dropWhile_cong simp: blk_of_def e)
  then show "\<And>u. u \<in> set (map (blk_of s) U1) \<Longrightarrow> below u x" "\<And>u. u \<in> set (map (blk_of s) U2) \<Longrightarrow> below x u"
    using insert_place [OF d(2) a x(1)] by simp_all
  show "U = U1 @ U2" by (simp add: U1 U2)
qed

lemma alloc_whole:
  assumes P: "pool lo hi s (F1 @ i # F2) U"
  shows "\<exists>s'. kbind (take_blk (node_pages (nd s i)) (last_opt None F1) i s) (\<lambda>used s.
      kbind (walk (Suc MAX_NODES) (\<lambda>n. \<not> node_addr n < node_addr (nd s used)) None (used_blks (vm_mem s)) s) (\<lambda>(prev, node) s.
        let s = upd_node used (\<lambda>n. n\<lparr>node_next := node\<rparr>) s;
            s = set_used_link prev (Some used) s;
            s = upd_mem (\<lambda>m. m\<lparr>mem_free_pages := wsub32 (mem_free_pages m) (node_pages (nd s used))\<rparr>) s
        in Ok (node_addr (nd s used)) s)) = Ok (node_addr (nd s i)) s' \<and>
    allocated lo hi s (F1 @ i # F2) U (node_addr (nd s i)) (node_pages (nd s i)) s'"
proof -
  note d = poolD [OF P]
  define s1 where "s1 = set_free_link (last_opt None F1) (node_next (nd s i)) s"
  have l1: "lists s1 (F1 @ F2) U" unfolding s1_def by (rule lists_remove_free [OF d(1)])
  have i: "i \<notin> set (F1 @ F2)" "i \<notin> set U" "i < MAX_NODES" "good_blk (blk_of s i)" "node_addr (nd s i) \<noteq> 0" using d(1) d(5) [of i] by (auto simp: lists_def)
  have "set F1 \<subseteq> {..<length (vm_space s)}" using d(1) by (auto simp: lists_def)
  note b = link_blk(1,2) [OF this, of "node_next (nd s i)", folded s1_def]
  have bs: "blk_of s1 j = blk_of s j" for j by (simp add: blk_of_def b)
  define U1 where "U1 = takeWhile (\<lambda>j. node_addr (nd s1 j) < node_addr (nd s1 i)) U"
  define U2 where "U2 = dropWhile (\<lambda>j. node_addr (nd s1 j) < node_addr (nd s1 i)) U"
  have pl: "\<And>u. u \<in> set (map (blk_of s) U1) \<Longrightarrow> below u (blk_of s i)" "\<And>u. u \<in> set (map (blk_of s) U2) \<Longrightarrow> below (blk_of s i) u" "U = U1 @ U2"
    using used_place [OF d(3) i(4), where s' = s1] U1_def U2_def by (simp_all add: b blk_of_def)
  define s' where "s' = upd_mem (\<lambda>m. m\<lparr>mem_free_pages := wsub32 (mem_free_pages m) (node_pages (nd s1 i))\<rparr>) (insert_used i U1 U2 s1)"
  have "tiled lo hi (map (blk_of s) (F1 @ F2)) (map (blk_of s) (U1 @ i # U2))"
    using tiled_take [of lo hi "map (blk_of s) F1" "blk_of s i" "map (blk_of s) F2" "map (blk_of s) U1" "map (blk_of s) U2"] d(3) pl by simp
  then have t: "tiled lo hi (map (blk_of s1) (F1 @ F2)) (map (blk_of s1) (U1 @ i # U2))" using ext [of "blk_of s1" "blk_of s", OF bs] by simp
  have sp: "space_ok s1" using d(2) by (simp add: space_ok_def b) (simp add: s1_def)
  have n: "mem_free_pages (vm_mem s1) = sum_list (map (\<lambda>i. node_pages (nd s1 i)) (F1 @ F2)) + node_pages (nd s1 i)" using d(4) by (simp add: b) (simp add: s1_def)
  note q = pool_insert_used [OF l1 [unfolded pl(3)] i(1) _ i(3) sp t n s'_def]
  have al: "allocated lo hi s (F1 @ i # F2) U (node_addr (nd s i)) (node_pages (nd s i)) s'"
    unfolding allocated_def
  proof (intro exI conjI)
    show "pool lo hi s' (F1 @ F2) (U1 @ i # U2)" using q(1) i(2) pl(3) by simp
    show "blk_of s' ` set (U1 @ i # U2) = insert (node_addr (nd s i), node_pages (nd s i)) (blk_of s ` set U)"
      using q(2) i(2) pl(3) by (auto simp: bs) (auto simp: blk_of_def)
    have "spare s1 = spare s" by (simp add: spare_def b)
    then show "\<exists>j \<in> set (F1 @ i # F2). node_addr (nd s j) = node_addr (nd s i) \<and> node_pages (nd s i) \<le> node_pages (nd s j) \<and>
        spare s = (if node_pages (nd s i) = node_pages (nd s j) then spare s' else Suc (spare s'))"
      using q(3) i(2) pl(3) by (intro bexI [of _ i]) simp_all
    show "vm_ram s' = vm_ram s" using q(4) i(2) pl(3) by (simp add: s1_def)
  qed (use i(5) in auto)
  have "take_blk (node_pages (nd s i)) (last_opt None F1) i s = Ok i s1" by (simp add: take_blk_def s1_def)
  then show ?thesis using al alloc_insert [OF l1 i(1-3) U1_def U2_def] by (simp add: s'_def b)
qed

lemma sum_list_change:
  assumes "distinct (xs @ x # ys)" "\<And>j. j \<noteq> x \<Longrightarrow> f j = g j" "(f x :: nat) + n = g x"
  shows "sum_list (map f (xs @ x # ys)) + n = sum_list (map g (xs @ x # ys))"
proof -
  have "f j = g j" if "j \<in> set xs \<union> set ys" for j using assms(1) that by (intro assms(2)) auto
  then have m: "map f xs = map g xs" "map f ys = map g ys" by simp_all
  show ?thesis by (simp add: m assms(3) [symmetric])
qed

lemma alloc_part:
  assumes P: "pool lo hi s (F1 @ i # F2) U" and n: "0 < n" "n < node_pages (nd s i)" and u0: "find_node 0 0 s = Some u"
  shows "\<exists>s'. kbind (take_blk n (last_opt None F1) i s) (\<lambda>used s.
      kbind (walk (Suc MAX_NODES) (\<lambda>n. \<not> node_addr n < node_addr (nd s used)) None (used_blks (vm_mem s)) s) (\<lambda>(prev, node) s.
        let s = upd_node used (\<lambda>n. n\<lparr>node_next := node\<rparr>) s;
            s = set_used_link prev (Some used) s;
            s = upd_mem (\<lambda>m. m\<lparr>mem_free_pages := wsub32 (mem_free_pages m) (node_pages (nd s used))\<rparr>) s
        in Ok (node_addr (nd s used)) s)) = Ok (node_addr (nd s i)) s' \<and>
    allocated lo hi s (F1 @ i # F2) U (node_addr (nd s i)) n s'"
proof -
  note d = poolD [OF P]
  let ?F = "F1 @ i # F2"
  have u: "u < MAX_NODES" "node_addr (nd s u) = 0" using find_node_Some [OF u0] by auto
  have uf: "u \<notin> set ?F" "u \<notin> set U" "u \<noteq> i" using d(5) [of u] u(2) by auto
  have i: "i < MAX_NODES" "good_blk (blk_of s i)" "node_addr (nd s i) \<noteq> 0" using d(5) [of i] by auto
  define a where "a = node_addr (nd s i)"
  define m where "m = node_pages (nd s i)"
  have am: "a + m * 4096 \<le> 508 * 1024 * 1024" "a \<noteq> 0" using i(2,3) by (simp_all add: good_blk_def ends_def blk_of_def a_def m_def)
  have nm: "n < m" "n * 4096 < m * 4096" using n(2) by (simp_all add: m_def)
  define s0 where "s0 = upd_node u (\<lambda>_. \<lparr>node_addr = a, node_pages = n, node_next = None\<rparr>) s"
  define s1 where "s1 = upd_node i (\<lambda>x. x\<lparr>node_addr := a + n * 4096, node_pages := m - n\<rparr>) s0"
  have i0: "nd s0 j = (if j = u then \<lparr>node_addr = a, node_pages = n, node_next = None\<rparr> else nd s j)" for j using u(1) d(6) by (simp add: s0_def)
  have len0: "length (vm_space s0) = MAX_NODES" using d(6) by (simp add: s0_def)
  have i1: "nd s1 j = (if j = i then (nd s i)\<lparr>node_addr := a + n * 4096, node_pages := m - n\<rparr> else nd s0 j)" for j
    using i(1) uf(3) len0 by (simp add: s1_def i0)
  have "take_blk n (last_opt None F1) i s = Ok u (upd_node i (\<lambda>x. x\<lparr>node_addr := wadd32 (node_addr x) (n * PAGE_SIZE mod 2 ^ 32), node_pages := wsub32 (node_pages x) n\<rparr>) s0)"
    using n u0 i(3) by (simp add: take_blk_def allocNode_def s0_def a_def)
  also have "\<dots> = Ok u s1" using i(1) nm am by (simp add: s1_def upd_node_def [of i] i0 uf(3) [symmetric] a_def m_def)
  finally have tk: "take_blk n (last_opt None F1) i s = Ok u s1" .
  have l1: "lists s1 ?F U" unfolding s1_def s0_def by (rule lists_same_next [OF lists_upd [OF d(1) uf(1,2) u(1)] i(1)]) simp
  have b: "blk_of s1 u = (a, n)" "blk_of s1 i = (a + n * 4096, m - n)" "j \<noteq> u \<Longrightarrow> j \<noteq> i \<Longrightarrow> blk_of s1 j = blk_of s j" for j
    using uf(3) by (simp_all add: blk_of_def i1 i0)
  have iU: "i \<notin> set U" "i \<notin> set F1" "i \<notin> set F2" using d(1) by (auto simp: lists_def)
  have bU: "map (blk_of s1) V = map (blk_of s) V" if "set V \<subseteq> set U \<or> set V \<subseteq> set F1 \<or> set V \<subseteq> set F2" for V
  proof (intro map_cong refl b(3))
    show "x \<noteq> u" "x \<noteq> i" if "x \<in> set V" for x using that \<open>set V \<subseteq> set U \<or> set V \<subseteq> set F1 \<or> set V \<subseteq> set F2\<close> uf iU by auto
  qed
  have si: "blk_of s i = (a, m)" by (simp add: blk_of_def a_def m_def)
  have t0: "tiled lo hi (map (blk_of s) F1 @ (a, m) # map (blk_of s) F2) (map (blk_of s) U)" using d(3) si by simp
  have gu: "good_blk (a, n)" using tiled_split(2) [OF t0 n(1) nm(1)] .
  define U1 where "U1 = takeWhile (\<lambda>j. node_addr (nd s1 j) < node_addr (nd s1 u)) U"
  define U2 where "U2 = dropWhile (\<lambda>j. node_addr (nd s1 j) < node_addr (nd s1 u)) U"
  have au: "node_addr (nd s1 u) = a" "node_pages (nd s1 u) = n" using b(1) by (auto simp: blk_of_def)
  have "node_addr (nd s1 j) = node_addr (nd s j)" if "j \<in> set U" for j using that uf(2) iU(1) by (auto simp: i1 i0)
  then have pl: "\<And>v. v \<in> set (map (blk_of s) U1) \<Longrightarrow> below v (a, n)" "\<And>v. v \<in> set (map (blk_of s) U2) \<Longrightarrow> below (a, n) v" "U = U1 @ U2"
    using used_place [OF d(3) gu, where s' = s1] U1_def U2_def nm(1) by (simp_all add: au a_def m_def)
  have "set U1 \<subseteq> set U" "set U2 \<subseteq> set U" using pl(3) by auto
  then have t: "tiled lo hi (map (blk_of s1) ?F) (map (blk_of s1) (U1 @ u # U2))"
    using tiled_part [OF t0 [unfolded pl(3) map_append] n(1) nm(1) pl(1,2)] by (simp add: b(1,2) bU)
  have ad: "node_addr (nd s1 j) < MIPS_KSEG0" if "j < MAX_NODES" for j
    using d(2) that am nm by (auto simp: i1 i0 space_ok_def MIPS_KSEG0_def)
  then have sp: "space_ok s1" using d(2) by (simp add: space_ok_def) (simp add: s1_def s0_def)
  have "sum_list (map (\<lambda>j. node_pages (nd s1 j)) ?F) + n = sum_list (map (\<lambda>j. node_pages (nd s0 j)) ?F)"
    using nm(1) uf(3) d(1) by (intro sum_list_change) (auto simp: i1 i0 lists_def m_def)
  moreover have "map (\<lambda>j. node_pages (nd s0 j)) ?F = map (\<lambda>j. node_pages (nd s j)) ?F" using uf(1) by (intro map_cong refl) (auto simp: i0)
  ultimately have fp: "mem_free_pages (vm_mem s1) = sum_list (map (\<lambda>j. node_pages (nd s1 j)) ?F) + node_pages (nd s1 u)"
    using d(4) by (simp only: au(2)) (simp add: s1_def s0_def)
  define s' where "s' = upd_mem (\<lambda>m. m\<lparr>mem_free_pages := wsub32 (mem_free_pages m) (node_pages (nd s1 u))\<rparr>) (insert_used u U1 U2 s1)"
  note q = pool_insert_used [OF l1 [unfolded pl(3)] uf(1) _ u(1) sp t fp s'_def]
  have al: "allocated lo hi s ?F U a n s'"
    unfolding allocated_def
  proof (intro exI conjI)
    show "pool lo hi s' ?F (U1 @ u # U2)" using q(1) uf(2) pl(3) by simp
    have "blk_of s1 ` set U = blk_of s ` set U" using b(3) uf(2) iU(1) by (intro image_cong refl) metis
    then show "blk_of s' ` set (U1 @ u # U2) = insert (a, n) (blk_of s ` set U)"
      using q(2) uf(2) pl(3) b(1) by (auto simp: image_Un)
    have "{j. j < MAX_NODES \<and> node_addr (nd s1 j) = 0} = {j. j < MAX_NODES \<and> node_addr (nd s j) = 0} - {u}"
      using am(2) i(3) by (auto simp: i1 i0)
    then have "spare s = Suc (spare s1)" using u by (simp add: spare_def card_Suc_Diff1 del: card_Diff_insert)
    then show "\<exists>i \<in> set ?F. node_addr (nd s i) = a \<and> n \<le> node_pages (nd s i) \<and> spare s = (if n = node_pages (nd s i) then spare s' else Suc (spare s'))"
      using q(3) uf(2) pl(3) nm(1) by (intro bexI [of _ i]) (simp_all add: a_def m_def)
    show "vm_ram s' = vm_ram s" using q(4) uf(2) pl(3) by (simp add: s1_def s0_def)
  qed (use am(2) in auto)
  then show ?thesis using tk alloc_insert [OF l1 uf(1,2) u(1) U1_def U2_def] by (simp add: s'_def au a_def)
qed

lemma alloc_ppages_spec:
  assumes P: "pool lo hi s F U" and n: "0 < n"
  shows "(\<forall>i \<in> set F. node_pages (nd s i) < n) \<and> alloc_ppages n s = Ok 0 s \<or>
    (\<exists>i \<in> set F. n \<le> node_pages (nd s i)) \<and> spare s = 0 \<and> alloc_ppages n s = Panic \<or>
    (\<exists>p s'. alloc_ppages n s = Ok p s' \<and> allocated lo hi s F U p n s')"
proof -
  note d = poolD [OF P]
  have big: "\<forall>i \<in> set F. node_pages (nd s i) < n" if "mem_free_pages (vm_mem s) < n \<or> free_blks (vm_mem s) = None"
    using that
  proof
    assume "mem_free_pages (vm_mem s) < n"
    then show ?thesis using d(4) member_le_sum_list [of _ "map (\<lambda>i. node_pages (nd s i)) F"] by fastforce
  next
    assume "free_blks (vm_mem s) = None"
    then show ?thesis using d(1) by (simp add: lists_def)
  qed
  show ?thesis
  proof (cases "mem_free_pages (vm_mem s) < n \<or> free_blks (vm_mem s) = None")
    case True
    then show ?thesis using big n by (auto simp: alloc_ppages_def)
  next
    case False
    have "0 < node_pages (nd s i) \<and> node_pages (nd s i) < 2 ^ 32 - 1" if "i \<in> set F" for i
      using d(5) [of i] that by (auto simp: good_blk_def blk_of_def ends_def)
    then obtain r where r: "select_blk n s = Ok r s" "case r of None \<Rightarrow> \<forall>i \<in> set F. node_pages (nd s i) < n
     | Some (p, i) \<Rightarrow> \<exists>F1 F2. F = F1 @ i # F2 \<and> p = last_opt None F1 \<and> n \<le> node_pages (nd s i)"
      using select_blk_spec [OF d(1), of n] by auto
    show ?thesis
    proof (cases r)
      case None
      then show ?thesis using r False n by (auto simp: alloc_ppages_def)
    next
      case (Some pi)
      then obtain F1 i F2 where F: "F = F1 @ i # F2" "pi = (last_opt None F1, i)" "n \<le> node_pages (nd s i)" using r(2) by (cases pi) auto
      note P' = P [unfolded F(1)]
      have e: "alloc_ppages n s = kbind (take_blk n (last_opt None F1) i s) (\<lambda>used s.
        kbind (walk (Suc MAX_NODES) (\<lambda>n. \<not> node_addr n < node_addr (nd s used)) None (used_blks (vm_mem s)) s) (\<lambda>(prev, node) s.
        let s = upd_node used (\<lambda>n. n\<lparr>node_next := node\<rparr>) s;
            s = set_used_link prev (Some used) s;
            s = upd_mem (\<lambda>m. m\<lparr>mem_free_pages := wsub32 (mem_free_pages m) (node_pages (nd s used))\<rparr>) s
        in Ok (node_addr (nd s used)) s))" using False n r(1) Some F(2) by (auto simp: alloc_ppages_def)
      consider "n = node_pages (nd s i)" | u where "n < node_pages (nd s i)" "find_node 0 0 s = Some u" | "n < node_pages (nd s i)" "find_node 0 0 s = None"
        using F(3) by (meson le_neq_implies_less option.exhaust)
      then show ?thesis
      proof cases
        case 1
        then show ?thesis using alloc_whole [OF P'] e F(1) by auto
      next
        case 2
        then show ?thesis using alloc_part [OF P' n 2] e F(1) by auto
      next
        case 3
        have "node_addr (nd s i) \<noteq> 0" using d(5) [of i] F(1) by auto
        then have "take_blk n (last_opt None F1) i s = Panic" using 3 by (simp add: take_blk_def allocNode_def)
        moreover have "spare s = 0" using 3(2) by (simp add: spare_def find_node_None)
        ultimately show ?thesis using e F by auto
      qed
    qed
  qed
qed

section \<open>Freeing\<close>

text \<open>What joining blocks of the free list leaves alone.\<close>

definition same_addrs :: "vmsys \<Rightarrow> vmsys \<Rightarrow> bool" where
  "same_addrs s s' \<longleftrightarrow> vm_mem s' = vm_mem s \<and> vm_base s' = vm_base s \<and> vm_ram s' = vm_ram s \<and> (\<forall>i. node_addr (nd s' i) = node_addr (nd s i))"

lemma same_addrs_ok: "same_addrs s s' \<Longrightarrow> space_ok s' = space_ok s \<and> spare s' = spare s"
  by (simp add: same_addrs_def space_ok_def spare_def)

lemma join_step:
  assumes l: "lists s (G @ p # q # R) U" and sp: "space_ok s" and j: "fst (blk_of s q) = ends (blk_of s p)" and g: "good_blk (blk_of s p)" "good_blk (blk_of s q)"
  shows "lists (join_blks p q s) (G @ p # R) U" "same_addrs s (join_blks p q s)" "blk_of (join_blks p q s) p = join (blk_of s p) (blk_of s q)"
    "\<And>i. i \<noteq> p \<Longrightarrow> blk_of (join_blks p q s) i = blk_of s i"
    "sum_list (map (\<lambda>i. node_pages (nd (join_blks p q s) i)) (G @ p # R)) = sum_list (map (\<lambda>i. node_pages (nd s i)) (G @ p # q # R))"
proof -
  have pq: "p < MAX_NODES" "q < MAX_NODES" "length (vm_space s) = MAX_NODES" "p \<notin> set R" "q \<notin> set R" "p \<notin> set G" "p \<notin> set U" "q \<noteq> p" using l by (auto simp: lists_def)
  have "node_pages (nd s p) + node_pages (nd s q) < 2 ^ 32" using j g by (simp add: good_blk_def ends_def blk_of_def)
  then have e: "join_blks p q s = upd_node p (\<lambda>n. n\<lparr>node_pages := node_pages (nd s p) + node_pages (nd s q), node_next := node_next (nd s q)\<rparr>) s"
    using join_blks_eq [OF sp pq(3,1,2)] by (simp add: upd_node_def)
  have nd: "nd (join_blks p q s) i = (if i = p then (nd s p)\<lparr>node_pages := node_pages (nd s p) + node_pages (nd s q), node_next := node_next (nd s q)\<rparr> else nd s i)" for i
    using pq(1,3) by (simp add: e)
  have nx: "nx (join_blks p q s) = (nx s)(p := nx s q)" by (auto simp: fun_eq_iff nd)
  have c: "chain (nx s) (free_blks (vm_mem s)) ((G @ [p]) @ q # R)" "chain (nx s) (used_blks (vm_mem s)) U" using l by (simp_all add: lists_def)
  have "chain (nx s) (nx s q) R" using chain_append [OF c(1)] by simp
  then have "chain ((nx s)(p := nx s q)) (free_blks (vm_mem s)) ((G @ [p]) @ R)"
    using chain_relink [OF c(1), of R "nx s q"] l pq(4) by (simp add: lists_def)
  moreover have "chain ((nx s)(p := nx s q)) (used_blks (vm_mem s)) U" using c(2) relink_other [of "[p]" U "nx s" "nx s q"] pq(7) by simp
  ultimately show "lists (join_blks p q s) (G @ p # R) U" using l unfolding lists_def nx by (auto simp: e)
  show "same_addrs s (join_blks p q s)" using nd by (simp add: same_addrs_def) (simp add: e)
  show "blk_of (join_blks p q s) p = join (blk_of s p) (blk_of s q)" by (simp add: blk_of_def nd join_def)
  show "\<And>i. i \<noteq> p \<Longrightarrow> blk_of (join_blks p q s) i = blk_of s i" by (simp add: blk_of_def nd)
  have "map (\<lambda>i. node_pages (nd (join_blks p q s) i)) V = map (\<lambda>i. node_pages (nd s i)) V" if "p \<notin> set V" for V using that by (auto simp: nd)
  note m = this [OF pq(4)] this [OF pq(6)]
  show "sum_list (map (\<lambda>i. node_pages (nd (join_blks p q s) i)) (G @ p # R)) = sum_list (map (\<lambda>i. node_pages (nd s i)) (G @ p # q # R))"
    by (simp add: m) (simp add: nd)
qed

lemma blk_end_eq: "good_blk (blk_of s i) \<Longrightarrow> blk_end (nd s i) = ends (blk_of s i)"
  by (simp add: blk_end_def good_blk_def ends_def blk_of_def)

definition compacted :: "nat \<Rightarrow> nat \<Rightarrow> vmsys \<Rightarrow> nat list \<Rightarrow> nat list \<Rightarrow> vmsys \<Rightarrow> nat list \<Rightarrow> bool" where
  "compacted lo hi s F U s' F' \<longleftrightarrow> lists s' F' U \<and> same_addrs s s' \<and> tiled lo hi (map (blk_of s') F') (map (blk_of s') U) \<and> map (blk_of s') U = map (blk_of s) U \<and>
     sum_list (map (\<lambda>i. node_pages (nd s' i)) F') = sum_list (map (\<lambda>i. node_pages (nd s i)) F)"

lemma compact_right:
  assumes l: "lists s (F1 @ i # F2) U" and sp: "space_ok s" and lo: "loose lo hi (map (blk_of s) F1) (blk_of s i) (map (blk_of s) F2) (map (blk_of s) U)"
    and f: "\<And>y. y \<in> set (map (blk_of s) F1) \<Longrightarrow> gap y (blk_of s i)"
  shows "\<exists>F'. compacted lo hi s (F1 @ i # F2) U
    (case hd_opt F2 of Some q \<Rightarrow> if node_addr (nd s q) = blk_end (nd s i) then join_blks i q s else s | None \<Rightarrow> s) F'"
proof (cases "F2 \<noteq> [] \<and> node_addr (nd s (hd F2)) = blk_end (nd s i)")
  case True
  then obtain q R where q: "F2 = q # R" "node_addr (nd s q) = blk_end (nd s i)" by (cases F2) auto
  have g: "good_blk (blk_of s i)" "good_blk (blk_of s q)" using looseD(4) [OF lo] q(1) by auto
  have j: "fst (blk_of s q) = ends (blk_of s i)" using q(2) blk_end_eq [OF g(1)] by (simp add: blk_of_def)
  note js = join_step [OF l [unfolded q(1)] sp j g]
  have ni: "i \<notin> set F1" "i \<notin> set R" "i \<notin> set U" using l q(1) by (auto simp: lists_def)
  have m: "map (blk_of (join_blks i q s)) V = map (blk_of s) V" if "i \<notin> set V" for V using that by (intro map_cong refl js(4)) auto
  have "tiled lo hi (map (blk_of s) F1 @ join (blk_of s i) (blk_of s q) # map (blk_of s) R) (map (blk_of s) U)"
    using loose_join_right [OF lo [unfolded q(1) list.map(2)] j f] by simp
  then have "tiled lo hi (map (blk_of (join_blks i q s)) (F1 @ i # R)) (map (blk_of (join_blks i q s)) U)" by (simp add: m [OF ni(1)] m [OF ni(2)] m [OF ni(3)] js(3))
  then have "compacted lo hi s (F1 @ i # F2) U (join_blks i q s) (F1 @ i # R)" unfolding compacted_def q(1) using js(1,2,5) m [OF ni(3)] by blast
  then show ?thesis using q by auto
next
  case False
  have g: "good_blk (blk_of s i)" using looseD(4) [OF lo] by auto
  have "fst (hd (map (blk_of s) F2)) \<noteq> ends (blk_of s i)" if "map (blk_of s) F2 \<noteq> []" using False that blk_end_eq [OF g] by (cases F2) (auto simp: blk_of_def)
  then have "tiled lo hi (map (blk_of s) (F1 @ i # F2)) (map (blk_of s) U)" using loose_apart_right [OF lo _ f] by simp
  then have "compacted lo hi s (F1 @ i # F2) U s (F1 @ i # F2)" using l by (simp add: compacted_def same_addrs_def)
  then show ?thesis using False by (cases F2) auto
qed

lemma compact_spec:
  assumes l: "lists s (F1 @ i # F2) U" and sp: "space_ok s" and lo: "loose lo hi (map (blk_of s) F1) (blk_of s i) (map (blk_of s) F2) (map (blk_of s) U)"
  shows "\<exists>F'. compacted lo hi s (F1 @ i # F2) U (compact (last_opt None F1) i (hd_opt F2) s) F'"
proof (cases "F1 \<noteq> [] \<and> node_addr (nd s i) = blk_end (nd s (last F1))")
  case True
  then obtain p G where p: "F1 = G @ [p]" "node_addr (nd s i) = blk_end (nd s p)" by (cases F1 rule: rev_cases) auto
  have g: "good_blk (blk_of s p)" "good_blk (blk_of s i)" using looseD(4) [OF lo] p(1) by auto
  have j: "fst (blk_of s i) = ends (blk_of s p)" using p(2) blk_end_eq [OF g(1)] by (simp add: blk_of_def)
  have l': "lists s (G @ p # i # F2) U" using l p(1) by simp
  note js = join_step [OF l' sp j g]
  let ?s = "join_blks p i s"
  have np: "p \<notin> set G" "p \<notin> set F2" "p \<notin> set U" using l' by (auto simp: lists_def)
  have m: "map (blk_of ?s) V = map (blk_of s) V" if "p \<notin> set V" for V using that by (intro map_cong refl js(4)) auto
  have lo': "loose lo hi (map (blk_of s) G @ [blk_of s p]) (blk_of s i) (map (blk_of s) F2) (map (blk_of s) U)" using lo p(1) by simp
  note ll = loose_join_left [OF lo' j]
  have "\<exists>F'. compacted lo hi ?s (G @ p # F2) U
    (case hd_opt F2 of Some q \<Rightarrow> if node_addr (nd ?s q) = blk_end (nd ?s p) then join_blks p q ?s else ?s | None \<Rightarrow> ?s) F'"
  proof (rule compact_right [OF js(1)])
    show "space_ok ?s" using sp same_addrs_ok [OF js(2)] by simp
    show "loose lo hi (map (blk_of ?s) G) (blk_of ?s p) (map (blk_of ?s) F2) (map (blk_of ?s) U)" using ll(1) by (simp only: m [OF np(1)] m [OF np(2)] m [OF np(3)] js(3))
    show "gap y (blk_of ?s p)" if "y \<in> set (map (blk_of ?s) G)" for y using ll(2) [of y] that by (simp only: m [OF np(1)] js(3))
  qed
  then obtain F' where F': "compacted lo hi ?s (G @ p # F2) U (compact (last_opt None F1) i (hd_opt F2) s) F'"
    using p by (auto simp: compact_def last_opt_def Let_def)
  have "compacted lo hi s (F1 @ i # F2) U (compact (last_opt None F1) i (hd_opt F2) s) F'"
    using F' js(2,5) m [OF np(3)] p(1) unfolding compacted_def same_addrs_def by (simp del: map_append sum_list_append)
  then show ?thesis by blast
next
  case False
  then have c: "compact (last_opt None F1) i (hd_opt F2) s =
    (case hd_opt F2 of Some q \<Rightarrow> if node_addr (nd s q) = blk_end (nd s i) then join_blks i q s else s | None \<Rightarrow> s)"
    by (auto simp: compact_def last_opt_def Let_def)
  have "fst (blk_of s i) \<noteq> ends (last (map (blk_of s) F1))" if "map (blk_of s) F1 \<noteq> []"
    using False that blk_end_eq [of s "last F1"] looseD(4) [OF lo, of "blk_of s (last F1)"] by (auto simp: last_map blk_of_def)
  then have "gap y (blk_of s i)" if "y \<in> set (map (blk_of s) F1)" for y using loose_apart_left [OF lo _ that] by blast
  from compact_right [OF l sp lo this] show ?thesis by (simp only: c)
qed

definition freed_blk :: "nat \<Rightarrow> nat \<Rightarrow> vmsys \<Rightarrow> nat list \<Rightarrow> nat \<Rightarrow> nat \<Rightarrow> vmsys \<Rightarrow> bool" where
  "freed_blk lo hi s U p n s' \<longleftrightarrow> (\<exists>F' U'. pool lo hi s' F' U' \<and> blk_of s' ` set U' = blk_of s ` set U - {(p, n)} \<and> spare s' = spare s \<and> vm_ram s' = vm_ram s)"

lemma free_ppages_spec:
  assumes P: "pool lo hi s F U" and i: "(p, n) \<in> blk_of s ` set U"
  shows "\<exists>s'. free_ppages p s = Ok () s' \<and> freed_blk lo hi s U p n s'"
proof -
  note d = poolD [OF P]
  let ?A = "\<lambda>j. \<not> node_addr (nd s j) = p"
  obtain i0 where i0: "i0 \<in> set U" "blk_of s i0 = (p, n)" using i by auto
  define U1 where "U1 = takeWhile ?A U"
  obtain i U2 where U2: "dropWhile ?A U = i # U2" using i0 by (cases "dropWhile ?A U") (auto simp: dropWhile_eq_Nil_conv blk_of_def)
  have U: "U = U1 @ i # U2" using U2 takeWhile_dropWhile_id [of ?A U] by (simp add: U1_def)
  have ip: "node_addr (nd s i) = p" using U2 by (auto simp: dropWhile_eq_Cons_conv)
  have dU: "sorted_wrt below (map (blk_of s) U)" using tiledD(2) [OF d(3)] .
  have gU: "good_blk (blk_of s j)" if "j \<in> set U" for j using d(5) [of j] that by simp
  have uniq: "fst x = p \<Longrightarrow> x = blk_of s i" if "x \<in> blk_of s ` set U" for x
  proof -
    assume x: "fst x = p"
    have "x \<notin> blk_of s ` set U1" using x by (auto simp: U1_def blk_of_def dest: set_takeWhileD)
    have "good_blk (blk_of s i)" using gU U by simp
    from good_ends [OF this] have "x \<notin> blk_of s ` set U2" using dU x U ip by (auto simp: sorted_wrt_append below_def blk_of_def)
    with \<open>x \<notin> blk_of s ` set U1\<close> show ?thesis using that U by auto
  qed
  have bi: "blk_of s i = (p, n)" using uniq [of "(p, n)"] i by simp
  have p0: "p \<noteq> 0" using d(5) [of i] U ip by auto
  define s1 where "s1 = set_used_link (last_opt None U1) (node_next (nd s i)) s"
  have l1: "lists s1 F (U1 @ U2)" unfolding s1_def by (rule lists_remove_used [OF d(1) [unfolded U]])
  have sU1: "set U1 \<subseteq> {..<length (vm_space s)}" using d(1) U by (auto simp: lists_def)
  note b1 = link_blk(3,4) [OF sU1, of "node_next (nd s i)", folded s1_def]
  have inF: "i \<notin> set F" "i \<notin> set (U1 @ U2)" "i < MAX_NODES" using d(1) U by (auto simp: lists_def)
  define F1 where "F1 = takeWhile (\<lambda>j. node_addr (nd s1 j) < node_addr (nd s1 i)) F"
  define F2 where "F2 = dropWhile (\<lambda>j. node_addr (nd s1 j) < node_addr (nd s1 i)) F"
  have F: "F = F1 @ F2" by (simp add: F1_def F2_def)
  have m: "map (blk_of s) F1 = takeWhile (\<lambda>u. fst u < fst (p, n)) (map (blk_of s) F)" "map (blk_of s) F2 = dropWhile (\<lambda>u. fst u < fst (p, n)) (map (blk_of s) F)"
    unfolding F1_def F2_def takeWhile_map dropWhile_map by (auto intro!: arg_cong [of _ _ "map (blk_of s)"] takeWhile_cong dropWhile_cong simp: blk_of_def b1 ip)
  have t: "tiled lo hi (map (blk_of s) F1 @ map (blk_of s) F2) (map (blk_of s) U1 @ (p, n) # map (blk_of s) U2)" using d(3) bi unfolding F U by simp
  have gp: "good_blk u \<and> (below (p, n) u \<or> below u (p, n))" if "u \<in> set (map (blk_of s) F)" for u
    using tiledD(3) [OF t, of u] tiledD(4) [OF t, of u "(p, n)"] that F by auto
  have "good_blk (p, n)" using tiledD(3) [OF t] by simp
  note pl = insert_place [OF below_mono [OF tiledD(1) [OF d(3)]] gp this, folded m]
  have lo0: "loose lo hi (map (blk_of s) F1) (p, n) (map (blk_of s) F2) (map (blk_of s) U1 @ map (blk_of s) U2)" by (rule tiled_put [OF t pl])
  define s2 where "s2 = set_free_link (last_opt None F1) (Some i) (upd_node i (\<lambda>n. n\<lparr>node_next := hd_opt F2\<rparr>) s1)"
  have l2: "lists s2 (F1 @ i # F2) (U1 @ U2)" unfolding s2_def by (rule lists_insert_free [OF l1 [unfolded F] _ inF(2,3)]) (use inF F in simp)
  have len: "length (vm_space s1) = MAX_NODES" using l1 by (simp add: lists_def)
  have "set F1 \<subseteq> {..<length (vm_space (upd_node i (\<lambda>n. n\<lparr>node_next := hd_opt F2\<rparr>) s1))}" using d(1) F len by (auto simp: lists_def)
  note b2 = link_blk(1,2) [OF this, of "Some i", folded s2_def]
  have ap: "node_addr (nd s2 j) = node_addr (nd s j)" "node_pages (nd s2 j) = node_pages (nd s j)" for j using inF(3) len by (simp_all add: b2 b1)
  define s3 where "s3 = upd_mem (\<lambda>m. m\<lparr>mem_free_pages := wadd32 (mem_free_pages m) (node_pages (nd s2 i))\<rparr>) s2"
  have bs: "blk_of s3 = blk_of s" by (auto simp: fun_eq_iff blk_of_def s3_def ap)
  have l3: "lists s3 (F1 @ i # F2) (U1 @ U2)" unfolding s3_def by (rule lists_mem [OF l2]) simp_all
  have sp: "space_ok s3" using d(2) by (simp add: space_ok_def s3_def ap) (simp add: s2_def s1_def)
  obtain F' where c: "compacted lo hi s3 (F1 @ i # F2) (U1 @ U2) (compact (last_opt None F1) i (hd_opt F2) s3) F'"
    using compact_spec [OF l3 sp] lo0 by (auto simp: bs bi)
  define s' where "s' = compact (last_opt None F1) i (hd_opt F2) s3"
  note c' = c [folded s'_def, unfolded compacted_def]
  have "snd (p, n) * 4096 \<le> 508 * 1024 * 1024" using \<open>good_blk (p, n)\<close> by (simp add: good_blk_def ends_def)
  moreover have "sum_list (map snd (map (blk_of s) F)) * 4096 \<le> 508 * 1024 * 1024"
    using gp by (intro total_pages [OF below_mono [OF tiledD(1) [OF d(3)]]]) (auto simp: good_blk_def)
  ultimately have tot: "sum_list (map (\<lambda>j. node_pages (nd s j)) F) + n < 2 ^ 32" by (simp add: blk_of_def comp_def)
  have "sum_list (map (\<lambda>j. node_pages (nd s3 j)) (F1 @ i # F2)) = mem_free_pages (vm_mem s3)"
    using d(4) tot bi by (simp add: s3_def ap F blk_of_def) (simp add: s2_def s1_def)
  then have P': "pool lo hi s' F' (U1 @ U2)" using c' sp same_addrs_ok [of s3 s'] unfolding pool_def same_addrs_def by simp
  have "blk_of s' ` set (U1 @ U2) = blk_of s ` set (U1 @ U2)" using c' bs by (metis list.set_map)
  moreover have "(p, n) \<notin> blk_of s ` set (U1 @ U2)"
  proof
    assume "(p, n) \<in> blk_of s ` set (U1 @ U2)"
    then obtain j where j: "j \<in> set U1 \<union> set U2" "blk_of s j = (p, n)" by (metis imageE set_append)
    then have "below (blk_of s j) (p, n) \<or> below (p, n) (blk_of s j)" using dU bi U by (auto simp: sorted_wrt_append)
    then show False using j(2) good_ends [OF \<open>good_blk (p, n)\<close>] by (simp add: below_def)
  qed
  ultimately have im: "blk_of s' ` set (U1 @ U2) = blk_of s ` set U - {(p, n)}" using U bi by auto
  have "spare s3 = spare s" by (simp add: spare_def s3_def ap)
  then have "spare s' = spare s" "vm_ram s' = vm_ram s" using c' same_addrs_ok [of s3 s'] by (simp_all add: same_addrs_def) (simp add: s3_def s2_def s1_def)
  then have fr: "freed_blk lo hi s U p n s'" unfolding freed_blk_def using P' im by blast
  have cU: "chain (nx s) (used_blks (vm_mem s)) U" "length U < Suc MAX_NODES" using d(1) chain_length [OF d(1)] by (auto simp: lists_def)
  have cF: "chain (nx s1) (free_blks (vm_mem s1)) F" "length F < Suc MAX_NODES" using l1 chain_length [OF d(1)] by (auto simp: lists_def)
  have "free_ppages p s = Ok () s'" using p0
    by (simp add: free_ppages_def walk_spec [OF cU] U1_def [symmetric] U2 s1_def [symmetric] walk_spec [OF cF] F1_def [symmetric] F2_def [symmetric] Let_def
      s2_def [symmetric] s3_def [symmetric] s'_def [symmetric] del: set_link_sel)
  then show ?thesis using fr by blast
qed

section \<open>The contract\<close>

text \<open>Somewhere between \<open>lo\<close> and \<open>hi\<close> there are \<open>n\<close> pages in one piece of which nothing is in use.\<close>

definition free_run :: "nat \<Rightarrow> nat \<Rightarrow> (nat \<Rightarrow> nat option) \<Rightarrow> nat \<Rightarrow> bool" where
  "free_run lo hi U n \<longleftrightarrow> (\<exists>a. \<forall>x. a \<le> x \<and> x < a + n * 4096 \<longrightarrow> lo \<le> x \<and> x < hi \<and> (\<forall>p m. U p = Some m \<longrightarrow> x < p \<or> p + m * 4096 \<le> x))"

datatype prequest = Get nat | Put nat

text \<open>Users give back only what they have.\<close>

fun pool_run :: "(nat \<Rightarrow> 's \<Rightarrow> (nat, 's) out) \<Rightarrow> (nat \<Rightarrow> 's \<Rightarrow> (unit, 's) out) \<Rightarrow> prequest list \<Rightarrow> (nat \<Rightarrow> nat option) \<Rightarrow> 's \<Rightarrow> (nat \<Rightarrow> nat option, 's) out" where
  "pool_run alloc release [] U s = Ok U s"
| "pool_run alloc release (Get n # rs) U s = kbind (alloc n s) (\<lambda>p s. pool_run alloc release rs (if p = 0 then U else U(p \<mapsto> n)) s)"
| "pool_run alloc release (Put p # rs) U s =
     (if U p = None then pool_run alloc release rs U s else kbind (release p s) (\<lambda>_ s. pool_run alloc release rs (U(p := None)) s))"

definition gets :: "prequest list \<Rightarrow> nat" where
  "gets rs = length (filter (\<lambda>r. \<exists>n. r = Get n) rs)"

lemma gets_simps [simp]: "gets [] = 0" "gets (Get n # rs) = Suc (gets rs)" "gets (Put p # rs) = gets rs"
  by (simp_all add: gets_def)

text \<open>\<open>budget\<close> is the number of allocations that are certain not to run out of containers.\<close>

locale page_pool =
  fixes alloc :: "nat \<Rightarrow> 's \<Rightarrow> (nat, 's) out"
    and release :: "nat \<Rightarrow> 's \<Rightarrow> (unit, 's) out"
    and inv :: "'s \<Rightarrow> (nat \<Rightarrow> nat option) \<Rightarrow> bool"
    and budget :: "'s \<Rightarrow> nat"
    and lo hi :: nat
  assumes inside: "inv s U \<Longrightarrow> U p = Some n \<Longrightarrow> 0 < p \<and> 0 < n \<and> p mod 4096 = 0 \<and> lo \<le> p \<and> p + n * 4096 \<le> hi"
    and apart: "inv s U \<Longrightarrow> U p = Some m \<Longrightarrow> U q = Some n \<Longrightarrow> p \<noteq> q \<Longrightarrow> p + m * 4096 \<le> q \<or> q + n * 4096 \<le> p"
    and alloc_none: "alloc 0 s = Ok 0 s"
    and alloc_law: "inv s U \<Longrightarrow> 0 < n \<Longrightarrow> 0 < budget s \<Longrightarrow> \<exists>p s'. alloc n s = Ok p s' \<and>
      (if p = 0 then s' = s \<and> \<not> free_run lo hi U n else U p = None \<and> inv s' (U(p \<mapsto> n)) \<and> budget s \<le> Suc (budget s'))"
    and release_law: "inv s U \<Longrightarrow> U p = Some n \<Longrightarrow> \<exists>s'. release p s = Ok () s' \<and> inv s' (U(p := None)) \<and> budget s' = budget s"
begin

lemma get_served:
  assumes "inv s U" "0 < budget s"
  obtains p s' where "alloc n s = Ok p s'" "inv s' (if p = 0 then U else U(p \<mapsto> n))" "budget s \<le> Suc (budget s')"
    "p \<noteq> 0 \<Longrightarrow> U p = None" "p = 0 \<Longrightarrow> s' = s" "p = 0 \<Longrightarrow> 0 < n \<Longrightarrow> \<not> free_run lo hi U n"
proof (cases "n = 0")
  case True
  then show thesis using that [of 0 s] assms alloc_none by simp
next
  case False
  then obtain p s' where a: "alloc n s = Ok p s'"
    "if p = 0 then s' = s \<and> \<not> free_run lo hi U n else U p = None \<and> inv s' (U(p \<mapsto> n)) \<and> budget s \<le> Suc (budget s')"
    using alloc_law [OF assms(1) _ assms(2)] by blast
  show thesis by (rule that [OF a(1)]) (use a(2) assms(1) in \<open>auto split: if_splits\<close>)
qed

text \<open>An allocation fails only when there is no such piece, and succeeds only when there is one.\<close>

lemma get_iff:
  assumes "inv s U" "0 < budget s" "0 < n"
  shows "\<exists>p s'. alloc n s = Ok p s' \<and> (p = 0 \<longleftrightarrow> \<not> free_run lo hi U n)"
proof -
  obtain p s' where a: "alloc n s = Ok p s'" "inv s' (if p = 0 then U else U(p \<mapsto> n))" "p \<noteq> 0 \<Longrightarrow> U p = None" "p = 0 \<Longrightarrow> \<not> free_run lo hi U n"
    using get_served [OF assms(1,2)] assms(3) by metis
  have "free_run lo hi U n" if p: "p \<noteq> 0"
    unfolding free_run_def
  proof (intro exI [of _ p] allI impI conjI)
    have i: "inv s' (U(p \<mapsto> n))" using a(2) p by simp
    fix x
    assume x: "p \<le> x \<and> x < p + n * 4096"
    show "lo \<le> x" "x < hi" using inside [OF i, of p n] x by auto
    fix q m
    assume q: "U q = Some m"
    then have "p \<noteq> q" using a(3) [OF p] by auto
    then show "x < q \<or> q + m * 4096 \<le> x" using apart [OF i, of p n q m] q x by auto
  qed
  then show ?thesis using a(1,4) by (intro exI [of _ p] exI [of _ s']) auto
qed

lemma run_served:
  assumes "inv s U" "gets rs \<le> budget s"
  shows "\<exists>U' s'. pool_run alloc release rs U s = Ok U' s' \<and> inv s' U' \<and> budget s \<le> gets rs + budget s'"
  using assms
proof (induction rs arbitrary: U s)
  case (Cons r rs)
  show ?case
  proof (cases r)
    case (Get n)
    then have "0 < budget s" using Cons.prems(2) by simp
    then obtain p s1 where 1: "alloc n s = Ok p s1" "inv s1 (if p = 0 then U else U(p \<mapsto> n))" "budget s \<le> Suc (budget s1)"
      using get_served [OF Cons.prems(1)] by blast
    then show ?thesis using Cons.IH [OF 1(2)] Cons.prems(2) Get by fastforce
  next
    case (Put p)
    show ?thesis
    proof (cases "U p")
      case None
      then show ?thesis using Cons Put by simp
    next
      case (Some n)
      obtain s1 where 1: "release p s = Ok () s1" "inv s1 (U(p := None))" "budget s1 = budget s" using release_law [OF Cons.prems(1) Some] by blast
      then show ?thesis using Cons.IH [OF 1(2)] Cons.prems(2) Put Some by (simp add: fun_upd_def)
    qed
  qed
qed simp

end

section \<open>The kernel's allocator\<close>

definition page_inv :: "nat \<Rightarrow> nat \<Rightarrow> vmsys \<Rightarrow> (nat \<Rightarrow> nat option) \<Rightarrow> bool" where
  "page_inv lo hi s U \<longleftrightarrow> (\<exists>F L. pool lo hi s F L \<and> (\<forall>p n. U p = Some n \<longleftrightarrow> (p, n) \<in> blk_of s ` set L))"

lemma sorted_distinct:
  assumes "sorted_wrt below xs" "\<And>x. x \<in> set xs \<Longrightarrow> good_blk x" "x \<in> set xs" "y \<in> set xs" "x \<noteq> y"
  shows "below x y \<or> below y x"
  using assms by (metis in_set_conv_nth linorder_neqE_nat sorted_wrt_nth_less)

lemma used_unique:
  assumes "pool lo hi s F L" "(p, m) \<in> blk_of s ` set L" "(p, n) \<in> blk_of s ` set L"
  shows "m = n"
proof (rule ccontr)
  assume "m \<noteq> n"
  note t = tiledD [OF poolD(3) [OF assms(1)]]
  have g: "good_blk (p, m)" "good_blk (p, n)" using t(3) assms(2,3) by auto
  have "below (p, m) (p, n) \<or> below (p, n) (p, m)" using sorted_distinct [OF t(2), of "(p, m)" "(p, n)"] t(3) assms(2,3) \<open>m \<noteq> n\<close> by auto
  then show False using good_ends [OF g(1)] good_ends [OF g(2)] by (simp add: below_def)
qed

lemma no_free_run:
  assumes P: "pool lo hi s F L" and f: "\<And>i. i \<in> set F \<Longrightarrow> node_pages (nd s i) < n" and U: "\<And>p m. U p = Some m \<longleftrightarrow> (p, m) \<in> blk_of s ` set L" and n: "0 < n"
  shows "\<not> free_run lo hi U n"
proof
  assume "free_run lo hi U n"
  then obtain a where a: "\<And>x. a \<le> x \<Longrightarrow> x < a + n * 4096 \<Longrightarrow> lo \<le> x \<and> x < hi \<and> (\<forall>p m. U p = Some m \<longrightarrow> x < p \<or> p + m * 4096 \<le> x)"
    unfolding free_run_def by blast
  note t = tiledD [OF poolD(3) [OF P]]
  have "\<exists>y \<in> set (map (blk_of s) F). has y x" if x: "a \<le> x" "x < a + n * 4096" for x
  proof -
    obtain y where y: "y \<in> set (map (blk_of s) F) \<union> set (map (blk_of s) L)" "has y x" using t(5) [of x] a [OF x] by blast
    moreover have "y \<notin> set (map (blk_of s) L)" using a [OF x] U [of "fst y" "snd y"] y(2) by (force simp: has_def ends_def)
    ultimately show ?thesis by blast
  qed
  note c = this
  have "\<exists>y \<in> set (map (blk_of s) F). fst y \<le> a \<and> a + n * 4096 \<le> ends y"
    by (rule run_in_block [OF t(1) _ c]) (use t(3) n in simp_all)
  then show False using f by (fastforce simp: ends_def blk_of_def)
qed

interpretation pg: page_pool alloc_ppages free_ppages "page_inv lo hi" spare lo hi for lo hi
proof unfold_locales
  fix s U p n
  assume "page_inv lo hi s U" and u: "U p = Some n"
  then obtain F L where P: "pool lo hi s F L" and U: "\<And>p n. U p = Some n \<longleftrightarrow> (p, n) \<in> blk_of s ` set L" unfolding page_inv_def by blast
  note t = tiledD [OF poolD(3) [OF P]]
  have pn: "(p, n) \<in> blk_of s ` set L" using U u by simp
  have "good_blk (p, n)" using t(3) [of "(p, n)"] pn by simp
  moreover have h: "lo \<le> x \<and> x < hi" if "has (p, n) x" for x using t(5) [of x] pn that by (metis UnI2 list.set_map)
  moreover have "has (p, n) p" "has (p, n) (p + n * 4096 - 1)" using \<open>good_blk (p, n)\<close> by (auto simp: has_def ends_def good_blk_def)
  ultimately show "0 < p \<and> 0 < n \<and> p mod 4096 = 0 \<and> lo \<le> p \<and> p + n * 4096 \<le> hi" by (fastforce simp: good_blk_def)
  show "\<exists>s'. free_ppages p s = Ok () s' \<and> page_inv lo hi s' (U(p := None)) \<and> spare s' = spare s"
  proof -
    obtain s' F' L' where s': "free_ppages p s = Ok () s'" "pool lo hi s' F' L'" "blk_of s' ` set L' = blk_of s ` set L - {(p, n)}" "spare s' = spare s"
      using free_ppages_spec [OF P pn] by (auto simp: freed_blk_def)
    have "(U(p := None)) q = Some m \<longleftrightarrow> (q, m) \<in> blk_of s' ` set L'" for q m using U [of q m] used_unique [OF P pn, of m] by (auto simp: s'(3))
    then show ?thesis using s' unfolding page_inv_def by blast
  qed
next
  fix s U p m q n
  assume "page_inv lo hi s U" and u: "U p = Some m" "U q = Some n" "p \<noteq> q"
  then obtain F L where P: "pool lo hi s F L" and U: "\<And>p n. U p = Some n \<longleftrightarrow> (p, n) \<in> blk_of s ` set L" unfolding page_inv_def by blast
  note t = tiledD [OF poolD(3) [OF P]]
  have "below (p, m) (q, n) \<or> below (q, n) (p, m)" using sorted_distinct [OF t(2) t(3), of "(p, m)" "(q, n)"] u U by auto
  then show "p + m * 4096 \<le> q \<or> q + n * 4096 \<le> p" by (simp add: below_def ends_def)
next
  show "alloc_ppages 0 s = Ok 0 s" for s by (simp add: alloc_ppages_def)
next
  fix s U and n :: nat
  assume "page_inv lo hi s U" and n: "0 < n" "0 < spare s"
  then obtain F L where P: "pool lo hi s F L" and U: "\<And>p n. U p = Some n \<longleftrightarrow> (p, n) \<in> blk_of s ` set L" unfolding page_inv_def by blast
  note t = tiledD [OF poolD(3) [OF P]]
  consider "\<forall>i \<in> set F. node_pages (nd s i) < n" "alloc_ppages n s = Ok 0 s" | p s' where "alloc_ppages n s = Ok p s'" "allocated lo hi s F L p n s'"
    using alloc_ppages_spec [OF P n(1)] n(2) by auto
  then show "\<exists>p s'. alloc_ppages n s = Ok p s' \<and> (if p = 0 then s' = s \<and> \<not> free_run lo hi U n else U p = None \<and> page_inv lo hi s' (U(p \<mapsto> n)) \<and> spare s \<le> Suc (spare s'))"
  proof cases
    case 1
    then show ?thesis using no_free_run [OF P _ U n(1)] by auto
  next
    case (2 p s')
    then obtain F' L' i where a: "pool lo hi s' F' L'" "p \<noteq> 0" "blk_of s' ` set L' = insert (p, n) (blk_of s ` set L)" "i \<in> set F" "node_addr (nd s i) = p"
      "spare s \<le> Suc (spare s')" by (auto simp: allocated_def split: if_splits)
    have new: "(p, m) \<notin> blk_of s ` set L" for m
    proof
      assume "(p, m) \<in> blk_of s ` set L"
      then have "below (blk_of s i) (p, m) \<or> below (p, m) (blk_of s i)" "good_blk (p, m)" "good_blk (blk_of s i)" using t(3,4) a(4) by auto
      then show False using a(5) good_ends [of "(p, m)"] good_ends [of "blk_of s i"] by (auto simp: below_def blk_of_def)
    qed
    then have "U p = None" using U [of p] by (cases "U p") auto
    moreover have "(U(p \<mapsto> n)) q = Some m \<longleftrightarrow> (q, m) \<in> blk_of s' ` set L'" for q m using U [of q m] new by (auto simp: a(3))
    then have "page_inv lo hi s' (U(p \<mapsto> n))" using a(1) unfolding page_inv_def by blast
    ultimately show ?thesis using 2(1) a(2,6) by auto
  qed
qed

end
