(* ===== verification/PageRun.thy ===== *)
theory PageRun
  imports PagePool
begin

text \<open>
  The page allocator from startup on: what any sequence of requests meets.
\<close>

section \<open>Startup\<close>

text \<open>The kernel image ends at a page boundary and there is room above it for the containers and one more page.\<close>

definition vm_room :: "nat \<Rightarrow> nat \<Rightarrow> bool" where
  "vm_room ramsize firstfree \<longleftrightarrow> firstfree mod 4096 = 0 \<and> MIPS_KSEG0 < firstfree \<and> firstfree + 17 * 4096 \<le> MIPS_KSEG0 + min ramsize (508 * 1024 * 1024)"

text \<open>The memory the allocator manages: from the end of the containers on, in whole pages.\<close>

definition pool_lo :: "nat \<Rightarrow> nat" where
  "pool_lo firstfree = firstfree - MIPS_KSEG0 + 16 * 4096"

definition pool_pages :: "nat \<Rightarrow> nat \<Rightarrow> nat" where
  "pool_pages ramsize firstfree = (min ramsize (508 * 1024 * 1024) - pool_lo firstfree) div 4096"

definition pool_hi :: "nat \<Rightarrow> nat \<Rightarrow> nat" where
  "pool_hi ramsize firstfree = pool_lo firstfree + pool_pages ramsize firstfree * 4096"

text \<open>The memory at the time of \<open>vm_bootstrap\<close>.\<close>

definition vm_start :: "nat \<Rightarrow> nat \<Rightarrow> vmsys \<Rightarrow> bool" where
  "vm_start ramsize firstfree s \<longleftrightarrow> vm_room ramsize firstfree \<and> stealmem_lock (vm_ram s) = None \<and>
     firstpaddr (vm_ram s) = firstpaddr (ram_bootstrap ramsize firstfree (vm_ram s)) \<and> lastpaddr (vm_ram s) = lastpaddr (ram_bootstrap ramsize firstfree (vm_ram s))"

lemma vm_bootstrap_eq:
  assumes "vm_start ramsize firstfree s"
  defines "lo \<equiv> pool_lo firstfree" and "n \<equiv> pool_pages ramsize firstfree" and "z \<equiv> \<lparr>node_addr = 0, node_pages = 0, node_next = None\<rparr>"
  shows "\<exists>h. vm_bootstrap c s = Ok () (s\<lparr>vm_ram := h, vm_base := firstfree, vm_space := (replicate MAX_NODES z)[0 := \<lparr>node_addr = lo, node_pages = n, node_next = None\<rparr>],
     vm_mem := \<lparr>mem_start = lo, mem_end = min ramsize (508 * 1024 * 1024), mem_pages = n, mem_free_pages = n, free_blks = Some 0, used_blks = None, policy = first_fit\<rparr>\<rparr>)"
    "0 < n" "lo mod 4096 = 0" "lo + n * 4096 \<le> 508 * 1024 * 1024" "0 < lo"
proof -
  have r: "vm_room ramsize firstfree" using assms(1) by (simp add: vm_start_def)
  define f where "f = firstfree - MIPS_KSEG0"
  have f: "firstfree = MIPS_KSEG0 + f" "0 < f" "f + 17 * 4096 \<le> min ramsize (508 * 1024 * 1024)" using r by (auto simp: vm_room_def f_def)
  have lo: "lo = f + 16 * 4096" by (simp add: lo_def pool_lo_def f_def)
  have "4096 dvd firstfree" "4096 dvd MIPS_KSEG0" using r by (auto simp: vm_room_def MIPS_KSEG0_def)
  then have "4096 dvd f" unfolding f_def by (rule dvd_diff_nat)
  then show "lo mod 4096 = 0" by (auto simp: lo)
  show "0 < lo" using f(2) by (simp add: lo)
  have d: "lo + 4096 \<le> min ramsize (508 * 1024 * 1024)" using f(3) by (simp add: lo)
  have "1 * 4096 \<le> min ramsize (508 * 1024 * 1024) - lo" using d by linarith
  then show "0 < n" unfolding n_def pool_pages_def lo_def [symmetric] by (simp add: div_greater_zero_iff)
  have "n * 4096 \<le> min ramsize (508 * 1024 * 1024) - lo" unfolding n_def pool_pages_def lo_def by (rule div_times_less_eq_dividend)
  then show "lo + n * 4096 \<le> 508 * 1024 * 1024" using d by linarith
  have h: "firstpaddr (vm_ram s) = f" "lastpaddr (vm_ram s) = min ramsize (508 * 1024 * 1024)" "stealmem_lock (vm_ram s) = None"
    using assms(1) f by (auto simp: vm_start_def ram_bootstrap_def Let_def)
  define h1 where "h1 = (vm_ram s)\<lparr>firstpaddr := f + 65536\<rparr>"
  have "\<not> min ramsize (508 * 1024 * 1024) < f + 65536" using f(3) by linarith
  then have g: "getppages c VM_PAGES (vm_ram s) = Ok f h1"
    using h f by (simp add: getppages_def ram_stealmem_def spinlock_acquire_def spinlock_release_def Let_def VM_PAGES_def h1_def)
  have z0: "find_node 0 0 t = Some 0" if "vm_space t = replicate MAX_NODES z" for t using that by (subst find_node.simps) (simp add: MAX_NODES_eq z_def)
  have w: "wadd32 f MIPS_KSEG0 = firstfree" "wsub32 (min ramsize 532676608) lo div 4096 = n"
    using f d by (simp_all add: MIPS_KSEG0_def n_def pool_pages_def lo_def)
  have q: "ram_getsize h1 = ((lo, min ramsize (508 * 1024 * 1024)), h1\<lparr>firstpaddr := 0, lastpaddr := 0\<rparr>)" using h by (simp add: ram_getsize_def h1_def lo)
  show "\<exists>h. vm_bootstrap c s = Ok () (s\<lparr>vm_ram := h, vm_base := firstfree, vm_space := (replicate MAX_NODES z)[0 := \<lparr>node_addr = lo, node_pages = n, node_next = None\<rparr>],
     vm_mem := \<lparr>mem_start = lo, mem_end = min ramsize (508 * 1024 * 1024), mem_pages = n, mem_free_pages = n, free_blks = Some 0, used_blks = None, policy = first_fit\<rparr>\<rparr>)"
    using \<open>0 < lo\<close> by (simp add: vm_bootstrap_def g q Let_def w z_def [symmetric] upd_mem_def allocNode_def z0)
      (rule exI [of _ "h1\<lparr>firstpaddr := 0, lastpaddr := 0\<rparr>"], cases "vm_mem s", simp add: upd_node_def)
qed

lemma spare_start: "spare (s\<lparr>vm_space := (replicate MAX_NODES \<lparr>node_addr = 0, node_pages = 0, node_next = None\<rparr>)[0 := \<lparr>node_addr = lo, node_pages = n, node_next = None\<rparr>], vm_mem := m\<rparr>) = 5460"
  if "0 < lo"
proof -
  have "{i. i < MAX_NODES \<and> node_addr (((replicate MAX_NODES \<lparr>node_addr = 0, node_pages = 0, node_next = None\<rparr>)[0 := \<lparr>node_addr = lo, node_pages = n, node_next = None\<rparr>]) ! i) = 0} = {1..<MAX_NODES}"
    using that by (auto simp: nth_list_update MAX_NODES_eq)
  then show ?thesis by (simp add: spare_def MAX_NODES_eq)
qed

lemma vm_bootstrap_inv:
  assumes "vm_start ramsize firstfree s"
  shows "\<exists>s'. vm_bootstrap c s = Ok () s' \<and> page_inv (pool_lo firstfree) (pool_hi ramsize firstfree) s' Map.empty \<and> spare s' = 5460"
proof -
  let ?lo = "pool_lo firstfree" and ?n = "pool_pages ramsize firstfree" and ?z = "\<lparr>node_addr = 0, node_pages = 0, node_next = None\<rparr>"
  note e = vm_bootstrap_eq [OF assms]
  obtain h where h: "vm_bootstrap c s = Ok () (s\<lparr>vm_ram := h, vm_base := firstfree, vm_space := (replicate MAX_NODES ?z)[0 := \<lparr>node_addr = ?lo, node_pages = ?n, node_next = None\<rparr>],
     vm_mem := \<lparr>mem_start = ?lo, mem_end = min ramsize (508 * 1024 * 1024), mem_pages = ?n, mem_free_pages = ?n, free_blks = Some 0, used_blks = None, policy = first_fit\<rparr>\<rparr>)" (is "_ = Ok () ?s")
    using e(1) by blast
  have ff: "MIPS_KSEG0 < firstfree" "firstfree + 65536 \<le> 2 ^ 32" using assms by (auto simp: vm_start_def vm_room_def MIPS_KSEG0_def)
  have z: "nd ?s i = (if i = 0 then \<lparr>node_addr = ?lo, node_pages = ?n, node_next = None\<rparr> else ?z)" if "i < MAX_NODES" for i
    using that by (simp add: nth_list_update MAX_NODES_eq)
  have z0: "nd ?s 0 = \<lparr>node_addr = ?lo, node_pages = ?n, node_next = None\<rparr>" using z [of 0] by (simp add: MAX_NODES_eq)
  have b: "blk_of ?s 0 = (?lo, ?n)" unfolding blk_of_def z0 by simp
  have "lists ?s [0] []" unfolding lists_def using z0 by (simp add: MAX_NODES_eq)
  moreover have "node_addr (nd ?s i) < MIPS_KSEG0" if "i < MAX_NODES" for i unfolding z [OF that] using e(4) by (simp add: MIPS_KSEG0_def)
  then have "space_ok ?s" using ff unfolding space_ok_def by (simp add: VM_PAGES_def)
  moreover have "tiled ?lo (pool_hi ramsize firstfree) (map (blk_of ?s) [0]) (map (blk_of ?s) [])"
    unfolding list.map b using e(2-5) by (simp add: tiled_def good_blk_def ends_def has_def pool_hi_def)
  moreover have "mem_free_pages (vm_mem ?s) = sum_list (map (\<lambda>i. node_pages (nd ?s i)) [0])" using z0 by simp
  ultimately have "pool ?lo (pool_hi ramsize firstfree) ?s [0] []" unfolding pool_def by blast
  then have "page_inv ?lo (pool_hi ramsize firstfree) ?s Map.empty" unfolding page_inv_def by (intro exI [of _ "[0]"] exI [of _ "[]"]) simp
  moreover have "spare ?s = 5460" by (rule spare_start [OF e(5)])
  ultimately show ?thesis using h by blast
qed

section \<open>Rounds of allocation and release\<close>

text \<open>When nothing is in use there is one free block.\<close>

lemma empty_pool:
  assumes P: "pool lo hi s F L" and L: "set L = {}" and n: "hi = lo + n * 4096" "0 < n"
  shows "\<exists>i. F = [i] \<and> blk_of s i = (lo, n)"
proof -
  note t = tiledD [OF poolD(3) [OF P]]
  have c: "\<exists>x \<in> set (map (blk_of s) F). has x p" if "lo \<le> p" "p < lo + n * 4096" for p using t(5) [of p] that L n(1) by auto
  have "\<exists>x \<in> set (map (blk_of s) F). fst x \<le> lo \<and> lo + n * 4096 \<le> ends x"
    by (rule run_in_block [OF t(1) _ c]) (use t(3) n in simp_all)
  then obtain x where x: "x \<in> set (map (blk_of s) F)" "fst x \<le> lo" "hi \<le> ends x" using n(1) by blast
  have in': "lo \<le> fst y \<and> ends y \<le> hi" if "y \<in> set (map (blk_of s) F)" for y
  proof -
    have g: "good_blk y" using t(3) that by blast
    then have "has y (fst y)" "has y (ends y - 1)" using good_ends [OF g] by (auto simp: has_def)
    then have "lo \<le> fst y" "ends y - 1 < hi" using t(5) [of "fst y"] t(5) [of "ends y - 1"] that by blast+
    then show ?thesis using good_ends [OF g] by linarith
  qed
  have xe: "fst x = lo" "ends x = hi" using in' [OF x(1)] x(2,3) by auto
  then have xn: "x = (lo, n)" using n(1) by (cases x) (simp add: ends_def)
  have one: "y = x" if y: "y \<in> set (map (blk_of s) F)" for y
  proof (rule ccontr)
    assume "y \<noteq> x"
    then have "below x y \<or> below y x" using sorted_distinct [OF below_mono [OF t(1)] _ x(1) y] t(3) by blast
    then show False using in' [OF y] xe good_ends [of y] t(3) y by (auto simp: below_def)
  qed
  obtain i where i: "i \<in> set F" "blk_of s i = x" using x(1) by auto
  obtain y r where F: "F = y # r" using i(1) by (cases F) auto
  have "z \<notin> set r" for z
  proof
    assume "z \<in> set r"
    then have "gap (blk_of s y) (blk_of s z)" "blk_of s y = x" "blk_of s z = x" using t(1) one F by auto
    then show False using good_ends [of x] t(3) x(1) by (auto simp: gap_def)
  qed
  then have "r = []" by (cases r) auto
  then show ?thesis using i xn F by simp
qed

lemma round_trip:
  assumes I: "page_inv lo hi s Map.empty" and n: "hi = lo + n * 4096" "2 \<le> n"
  shows "spare s = 0 \<Longrightarrow> alloc_ppages 1 s = Panic"
    "spare s = Suc k \<Longrightarrow> \<exists>s1 s2. alloc_ppages 1 s = Ok lo s1 \<and> free_ppages lo s1 = Ok () s2 \<and> page_inv lo hi s2 Map.empty \<and> spare s2 = k \<and> lo \<noteq> 0"
proof -
  obtain F L where P: "pool lo hi s F L" and U: "\<And>p n. (p, n) \<notin> blk_of s ` set L" using I unfolding page_inv_def by auto
  have L: "set L = {}" using U by (metis all_not_in_conv imageI surj_pair)
  obtain i where i: "F = [i]" "blk_of s i = (lo, n)" using empty_pool [OF P L n(1)] n(2) by auto
  have pi: "node_addr (nd s i) = lo" "node_pages (nd s i) = n" using i(2) by (simp_all add: blk_of_def)
  have c: "spare s = 0 \<and> alloc_ppages 1 s = Panic \<or> (\<exists>p s'. alloc_ppages 1 s = Ok p s' \<and> allocated lo hi s F L p 1 s')"
    using alloc_ppages_spec [OF P, of 1] i(1) pi n(2) by auto
  have al: "p = lo \<and> spare s = Suc (spare s')" if "allocated lo hi s F L p 1 s'" for p s' using that i(1) pi n(2) by (auto simp: allocated_def)
  show "alloc_ppages 1 s = Panic" if "spare s = 0" using c al that by auto
  assume k: "spare s = Suc k"
  then obtain s1 where s1: "alloc_ppages 1 s = Ok lo s1" "spare s1 = k" using c al by fastforce
  obtain p s' where ps: "alloc_ppages 1 s = Ok p s'" "p \<noteq> 0 \<Longrightarrow> page_inv lo hi s' [p \<mapsto> 1]"
    using pg.get_served [OF I, of 1] k by (metis zero_less_Suc)
  have lo0: "lo \<noteq> 0" using poolD(5) [OF P, of i] i(1) pi by auto
  then have "page_inv lo hi s1 [lo \<mapsto> 1]" using s1 ps by simp
  from pg.release_law [OF this, of lo 1] s1(2) lo0 show "\<exists>s1 s2. alloc_ppages 1 s = Ok lo s1 \<and> free_ppages lo s1 = Ok () s2 \<and> page_inv lo hi s2 Map.empty \<and> spare s2 = k \<and> lo \<noteq> 0"
    using s1(1) by auto
qed

lemma rounds_panic:
  assumes "page_inv lo hi s Map.empty" "hi = lo + n * 4096" "2 \<le> n" "spare s = k"
  shows "pool_run alloc_ppages free_ppages (concat (replicate (Suc k) [Get 1, Put lo])) Map.empty s = Panic"
  using assms(1,4)
proof (induction k arbitrary: s)
  case 0
  then show ?case using round_trip(1) [OF 0(1) assms(2,3)] by simp
next
  case (Suc k)
  obtain s1 s2 where r: "alloc_ppages 1 s = Ok lo s1" "free_ppages lo s1 = Ok () s2" "page_inv lo hi s2 Map.empty" "spare s2 = k" "lo \<noteq> 0"
    using round_trip(2) [OF Suc.prems(1) assms(2,3) Suc.prems(2)] by blast
  have "concat (replicate (Suc (Suc k)) [Get 1, Put lo]) = Get 1 # Put lo # concat (replicate (Suc k) [Get 1, Put lo])" by simp
  moreover have "[lo \<mapsto> Suc 0](lo := None) = Map.empty" by auto
  ultimately show ?case using r(1,2,5) Suc.IH [OF r(3,4)] by (simp del: replicate.simps)
qed

section \<open>Properties\<close>

definition ex_vm :: vmsys where
  "ex_vm = \<lparr>vm_ram = \<lparr>pagerefs = [], pagerefs_inuse = [], sizebases = [], allbase = None, kmalloc_spinlock = None, stealmem_lock = None,
       firstpaddr = 0x20000, lastpaddr = 0x100000, mem = (\<lambda>_. 0)\<rparr>, vm_base = 0, vm_space = [],
     vm_mem = \<lparr>mem_start = 0, mem_end = 0, mem_pages = 0, mem_free_pages = 0, free_blks = None, used_blks = None, policy = first_fit\<rparr>\<rparr>"

lemma ex_vm_start: "vm_start 0x100000 (MIPS_KSEG0 + 0x20000) ex_vm"
  by (simp add: vm_start_def vm_room_def ex_vm_def ram_bootstrap_def MIPS_KSEG0_def Let_def)

text \<open>C15. From startup on, any sequence of up to 5460 allocations, with blocks given back in any order in between, is served without a
  panic. The blocks in use are whole pages of the managed memory and do not overlap, and an allocation fails exactly when there are not
  that many free pages in one piece.\<close>

theorem page_pool_serves:
  assumes "vm_start ramsize firstfree s" and "gets rs \<le> 5460"
  shows "\<exists>s1 U s2. vm_bootstrap c s = Ok () s1 \<and> pool_run alloc_ppages free_ppages rs Map.empty s1 = Ok U s2 \<and>
    (\<forall>p n. U p = Some n \<longrightarrow> p mod 4096 = 0 \<and> pool_lo firstfree \<le> p \<and> p + n * 4096 \<le> pool_hi ramsize firstfree) \<and>
    (\<forall>p q m n. U p = Some m \<longrightarrow> U q = Some n \<longrightarrow> p \<noteq> q \<longrightarrow> p + m * 4096 \<le> q \<or> q + n * 4096 \<le> p) \<and>
    (gets rs < 5460 \<longrightarrow> (\<forall>n > 0. \<exists>p s3. alloc_ppages n s2 = Ok p s3 \<and> (p = 0 \<longleftrightarrow> \<not> free_run (pool_lo firstfree) (pool_hi ramsize firstfree) U n)))"
proof -
  obtain s1 where s1: "vm_bootstrap c s = Ok () s1" "page_inv (pool_lo firstfree) (pool_hi ramsize firstfree) s1 Map.empty" "spare s1 = 5460"
    using vm_bootstrap_inv [OF assms(1)] by blast
  obtain U s2 where s2: "pool_run alloc_ppages free_ppages rs Map.empty s1 = Ok U s2" "page_inv (pool_lo firstfree) (pool_hi ramsize firstfree) s2 U"
    "spare s1 \<le> gets rs + spare s2" using pg.run_served [OF s1(2), of rs] s1(3) assms(2) by auto
  note i = pg.inside [OF s2(2)] and a = pg.apart [OF s2(2)] and g = pg.get_iff [OF s2(2)]
  show ?thesis using s1(1,3) s2(1,3) i a g by (intro exI [of _ s1] exI [of _ U] exI [of _ s2] conjI) auto
qed

theorem page_pool_serves_witness:
  "\<exists>s1 U s2. vm_bootstrap 0 ex_vm = Ok () s1 \<and> pool_run alloc_ppages free_ppages [Get 3, Get 1, Put 0x30000, Get 2] Map.empty s1 = Ok U s2 \<and>
     (\<exists>p s3. alloc_ppages 5 s2 = Ok p s3)"
proof -
  let ?rs = "[Get 3, Get 1, Put 0x30000, Get 2]"
  have g: "gets ?rs < 5460" "gets ?rs \<le> 5460" by simp_all
  let ?lo = "pool_lo (MIPS_KSEG0 + 0x20000)" and ?hi = "pool_hi 0x100000 (MIPS_KSEG0 + 0x20000)"
  from page_pool_serves [OF ex_vm_start g(2), of 0]
  obtain s1 U s2 where r: "vm_bootstrap 0 ex_vm = Ok () s1" "pool_run alloc_ppages free_ppages ?rs Map.empty s1 = Ok U s2"
    "gets ?rs < 5460 \<longrightarrow> (\<forall>n > 0. \<exists>p s3. alloc_ppages n s2 = Ok p s3 \<and> (p = 0 \<longleftrightarrow> \<not> free_run ?lo ?hi U n))"
    by (elim exE conjE) (rule that; assumption)
  have "\<exists>p s3. alloc_ppages 5 s2 = Ok p s3" using r(3) [rule_format, OF g(1), of 5] by auto
  then show ?thesis using r(1,2) by blast
qed

text \<open>C16. Memory does not stay in pieces: when everything has been given back, all of it is available as one block, whatever the order in which it
  was taken and returned.\<close>

theorem page_pool_all_back:
  assumes "vm_start ramsize firstfree s" and "gets rs < 5460"
    and "vm_bootstrap c s = Ok () s1" and "pool_run alloc_ppages free_ppages rs Map.empty s1 = Ok Map.empty s2"
  shows "\<exists>s3. alloc_ppages (pool_pages ramsize firstfree) s2 = Ok (pool_lo firstfree) s3"
proof -
  let ?lo = "pool_lo firstfree" and ?hi = "pool_hi ramsize firstfree" and ?n = "pool_pages ramsize firstfree"
  have s1: "page_inv ?lo ?hi s1 Map.empty" "spare s1 = 5460" using vm_bootstrap_inv [OF assms(1), of c] assms(3) by auto
  have s2: "page_inv ?lo ?hi s2 Map.empty" "0 < spare s2" using pg.run_served [OF s1(1), of rs] s1(2) assms(2,4) by auto
  have n: "0 < ?n" using vm_bootstrap_eq(2) [OF assms(1)] .
  have "free_run ?lo ?hi Map.empty ?n" unfolding free_run_def by (intro exI [of _ ?lo]) (simp add: pool_hi_def)
  moreover obtain p s3 where p: "alloc_ppages ?n s2 = Ok p s3"
    "if p = 0 then s3 = s2 \<and> \<not> free_run ?lo ?hi Map.empty ?n else (Map.empty :: nat \<Rightarrow> nat option) p = None \<and> page_inv ?lo ?hi s3 [p \<mapsto> ?n] \<and> spare s2 \<le> Suc (spare s3)"
    using pg.alloc_law [OF s2(1) n s2(2)] by blast
  ultimately have "page_inv ?lo ?hi s3 [p \<mapsto> ?n]" by (simp split: if_splits)
  then have "?lo \<le> p" "p + ?n * 4096 \<le> ?hi" using pg.inside [of ?lo ?hi s3 "[p \<mapsto> ?n]" p ?n] by auto
  then have "p = ?lo" by (simp add: pool_hi_def)
  then show ?thesis using p(1) by blast
qed

lemma ex_round:
  "\<exists>s1 s2. vm_bootstrap 0 ex_vm = Ok () s1 \<and> pool_run alloc_ppages free_ppages [Get 1, Put 0x30000] Map.empty s1 = Ok Map.empty s2"
proof -
  have lo: "pool_lo (MIPS_KSEG0 + 0x20000) = 0x30000" by (simp add: pool_lo_def)
  have n: "2 \<le> pool_pages 0x100000 (MIPS_KSEG0 + 0x20000)" by (simp add: pool_pages_def lo)
  obtain s1 where s1: "vm_bootstrap 0 ex_vm = Ok () s1" "page_inv (pool_lo (MIPS_KSEG0 + 0x20000)) (pool_hi 0x100000 (MIPS_KSEG0 + 0x20000)) s1 Map.empty" "spare s1 = Suc 5459"
    using vm_bootstrap_inv [OF ex_vm_start, of 0] by auto
  obtain s2 s3 where "alloc_ppages 1 s1 = Ok 0x30000 s2" "free_ppages 0x30000 s2 = Ok () s3"
    using round_trip(2) [OF s1(2) pool_hi_def n s1(3)] by (auto simp: lo)
  moreover have "[0x30000 \<mapsto> Suc 0](0x30000 := None) = Map.empty" by auto
  ultimately show ?thesis using s1(1) by (intro exI [of _ s1] exI [of _ s3]) simp
qed

theorem page_pool_all_back_witness:
  "\<exists>s1 s2 s3. vm_bootstrap 0 ex_vm = Ok () s1 \<and> pool_run alloc_ppages free_ppages [Get 1, Put 0x30000] Map.empty s1 = Ok Map.empty s2 \<and>
     alloc_ppages 208 s2 = Ok 0x30000 s3"
proof -
  obtain s1 s2 where r: "vm_bootstrap 0 ex_vm = Ok () s1" "pool_run alloc_ppages free_ppages [Get 1, Put 0x30000] Map.empty s1 = Ok Map.empty s2"
    using ex_round by blast
  have g: "gets [Get 1, Put 0x30000] < 5460" by simp
  have lo: "pool_lo (MIPS_KSEG0 + 0x20000) = 0x30000" "pool_pages 0x100000 (MIPS_KSEG0 + 0x20000) = 208" by (simp_all add: pool_lo_def pool_pages_def)
  show ?thesis using page_pool_all_back [OF ex_vm_start g r] r unfolding lo by blast
qed

text \<open>C33. The allocator wears out. \<open>free_ppages\<close> hands \<open>freeNode\<close> the pointer to a node, which looks for a block of that address and finds
  none, so the containers of joined blocks are never reused: taking one page and giving it back 5461 times ends in a panic although no
  memory is in use.\<close>

theorem page_pool_wears_out:
  assumes "vm_start ramsize firstfree s" and "2 \<le> pool_pages ramsize firstfree"
  shows "\<exists>s1. vm_bootstrap c s = Ok () s1 \<and>
    pool_run alloc_ppages free_ppages (concat (replicate 5461 [Get 1, Put (pool_lo firstfree)])) Map.empty s1 = Panic"
proof -
  obtain s1 where s1: "vm_bootstrap c s = Ok () s1" "page_inv (pool_lo firstfree) (pool_hi ramsize firstfree) s1 Map.empty" "spare s1 = 5460"
    using vm_bootstrap_inv [OF assms(1)] by blast
  have "5461 = Suc (5460 :: nat)" by simp
  then show ?thesis using s1(1) rounds_panic [OF s1(2) pool_hi_def assms(2) s1(3)] by (metis (no_types))
qed

theorem page_pool_wears_out_witness:
  "\<exists>s1. vm_bootstrap 0 ex_vm = Ok () s1 \<and> pool_run alloc_ppages free_ppages (concat (replicate 5461 [Get 1, Put 0x30000])) Map.empty s1 = Panic"
proof -
  have lo: "pool_lo (MIPS_KSEG0 + 0x20000) = 0x30000" by (simp add: pool_lo_def)
  have "2 \<le> pool_pages 0x100000 (MIPS_KSEG0 + 0x20000)" by (simp add: pool_pages_def lo)
  from page_pool_wears_out [OF ex_vm_start this, of 0] show ?thesis by (simp only: lo)
qed

text \<open>C34. When there is no memory left, \<open>alloc_kpages\<close> does not return the null pointer its callers test for: it converts the 0 of
  \<open>alloc_ppages\<close> and returns the kernel's address of physical page 0, which holds the exception handlers.\<close>

theorem vm_alloc_kpages_exhausted:
  assumes "vm_start ramsize firstfree s" and "gets rs < 5460"
    and "vm_bootstrap c s = Ok () s1" and "pool_run alloc_ppages free_ppages rs Map.empty s1 = Ok U s2"
    and "0 < n" and "\<not> free_run (pool_lo firstfree) (pool_hi ramsize firstfree) U n"
  shows "vm_alloc_kpages n s2 = Ok 0x80000000 s2"
proof -
  let ?lo = "pool_lo firstfree" and ?hi = "pool_hi ramsize firstfree"
  have s1: "page_inv ?lo ?hi s1 Map.empty" "spare s1 = 5460" using vm_bootstrap_inv [OF assms(1), of c] assms(3) by auto
  have s2: "page_inv ?lo ?hi s2 U" "0 < spare s2" using pg.run_served [OF s1(1), of rs] s1(2) assms(2,4) by auto
  have "alloc_ppages n s2 = Ok 0 s2" using pg.get_iff [OF s2 assms(5)] assms(6) pg.alloc_law [OF s2(1) assms(5) s2(2)] by auto
  then show ?thesis by (simp add: vm_alloc_kpages_def MIPS_KSEG0_def)
qed

theorem vm_alloc_kpages_exhausted_witness:
  "\<exists>s1. vm_bootstrap 0 ex_vm = Ok () s1 \<and> vm_alloc_kpages 300 s1 = Ok 0x80000000 s1"
proof -
  obtain s1 where s1: "vm_bootstrap 0 ex_vm = Ok () s1" using vm_bootstrap_inv [OF ex_vm_start] by blast
  have f: "\<not> free_run (pool_lo (MIPS_KSEG0 + 0x20000)) (pool_hi 0x100000 (MIPS_KSEG0 + 0x20000)) Map.empty 300"
  proof
    assume "free_run (pool_lo (MIPS_KSEG0 + 0x20000)) (pool_hi 0x100000 (MIPS_KSEG0 + 0x20000)) Map.empty 300"
    then obtain a where a: "\<And>x. a \<le> x \<Longrightarrow> x < a + 300 * 4096 \<Longrightarrow> x < pool_hi 0x100000 (MIPS_KSEG0 + 0x20000)" unfolding free_run_def by blast
    show False using a [of "a + 300 * 4096 - 1"] by (simp add: pool_hi_def pool_lo_def pool_pages_def)
  qed
  have g: "gets [] < 5460" "pool_run alloc_ppages free_ppages [] Map.empty s1 = Ok Map.empty s1" "0 < (300 :: nat)" by simp_all
  show ?thesis using vm_alloc_kpages_exhausted [OF ex_vm_start g(1) s1 g(2,3) f] s1 by blast
qed

end
