(* ===== verification/AddrSpace.thy ===== *)
theory AddrSpace
  imports PageRun
begin

text \<open>
  Address spaces of processes: \<open>kern/vm/addrspace.c\<close> and \<open>vm_fault\<close> of \<open>kern/arch/mips/vm/vm.c\<close>. An address space is two regions and a
  stack, each backed by a block of physical pages; the TLB is loaded by \<open>vm_fault\<close> when the processor misses a translation. Physical memory
  is seen by the kernel through its fixed mapping at \<open>MIPS_KSEG0\<close>, word by word. Interrupt priority levels and messages are not modelled.
\<close>

section \<open>Data\<close>

definition USERSTACK :: nat where "USERSTACK = 0x80000000"
definition VM_STACKPAGES :: nat where "VM_STACKPAGES = 12"
definition NUM_TLB :: nat where "NUM_TLB = 64"
definition TLBLO_DIRTY :: nat where "TLBLO_DIRTY = 0x400"
definition TLBLO_VALID :: nat where "TLBLO_VALID = 0x200"

definition TLBHI_INVALID :: "nat \<Rightarrow> nat" where
  "TLBHI_INVALID entryno = push_bit 12 (0x80000 + entryno)"

datatype vm_faulttype = VM_FAULT_READ | VM_FAULT_WRITE | VM_FAULT_READONLY | VM_FAULT_other

record addrspace =
  as_vbase1 :: nat
  as_pbase1 :: nat
  as_npages1 :: nat
  as_vbase2 :: nat
  as_pbase2 :: nat
  as_npages2 :: nat
  as_stackpbase :: nat

text \<open>\<open>vs_as\<close> holds the address spaces by their address; \<open>vs_cur\<close> is the one of the current thread, 0 for none. An entry of the TLB is
  its high and its low word.\<close>

record vmas =
  vs_sys :: vmsys
  vs_as :: "nat \<Rightarrow> addrspace option"
  vs_cur :: nat
  vs_tlb :: "(nat \<times> nat) list"

definition on_sys :: "(vmsys \<Rightarrow> ('a, vmsys) out) \<Rightarrow> vmas \<Rightarrow> ('a, vmas) out" where
  "on_sys f s = (case f (vs_sys s) of Ok a y \<Rightarrow> Ok a (s\<lparr>vs_sys := y\<rparr>) | Err e y \<Rightarrow> Err e (s\<lparr>vs_sys := y\<rparr>) | Panic \<Rightarrow> Panic)"

definition as_get :: "nat \<Rightarrow> vmas \<Rightarrow> (addrspace \<Rightarrow> ('a, vmas) out) \<Rightarrow> ('a, vmas) out" where
  "as_get as s k = (case vs_as s as of Some a \<Rightarrow> k a | None \<Rightarrow> Panic)"

definition as_upd :: "nat \<Rightarrow> (addrspace \<Rightarrow> addrspace) \<Rightarrow> vmas \<Rightarrow> vmas" where
  "as_upd as f s = s\<lparr>vs_as := (vs_as s)(as := map_option f (vs_as s as))\<rparr>"

definition upd_phys :: "((nat \<Rightarrow> nat) \<Rightarrow> nat \<Rightarrow> nat) \<Rightarrow> vmas \<Rightarrow> vmas" where
  "upd_phys f s = s\<lparr>vs_sys := (vs_sys s)\<lparr>vm_ram := (vm_ram (vs_sys s))\<lparr>mem := f (mem (vm_ram (vs_sys s)))\<rparr>\<rparr>\<rparr>"

abbreviation phys :: "vmas \<Rightarrow> nat \<Rightarrow> nat" where "phys s \<equiv> mem (vm_ram (vs_sys s))"

definition PADDR_TO_KVADDR :: "nat \<Rightarrow> nat" where
  "PADDR_TO_KVADDR paddr = wadd32 paddr MIPS_KSEG0"

section \<open>Clearing and copying memory\<close>

text \<open>\<open>bzero\<close>, \<open>memcpy\<close> and \<open>memmove\<close> of \<open>common/libc/string\<close> on word-aligned addresses and lengths, the only ones here.\<close>

definition bzero :: "nat \<Rightarrow> nat \<Rightarrow> (nat \<Rightarrow> nat) \<Rightarrow> nat \<Rightarrow> nat" where
  "bzero vblock len m = fold (\<lambda>i m. m(vblock + 4 * i := 0)) [0..<len div 4] m"

definition copy_word :: "nat \<Rightarrow> nat \<Rightarrow> nat \<Rightarrow> (nat \<Rightarrow> nat) \<Rightarrow> nat \<Rightarrow> nat" where
  "copy_word dst src i m = m(dst + 4 * i := m (src + 4 * i))"

definition memcpy :: "nat \<Rightarrow> nat \<Rightarrow> nat \<Rightarrow> (nat \<Rightarrow> nat) \<Rightarrow> nat \<Rightarrow> nat" where
  "memcpy dst src len m = fold (copy_word dst src) [0..<len div 4] m"

definition memmove :: "nat \<Rightarrow> nat \<Rightarrow> nat \<Rightarrow> (nat \<Rightarrow> nat) \<Rightarrow> nat \<Rightarrow> nat" where
  "memmove dst src len m = (if dst < src then memcpy dst src len m else fold (copy_word dst src) (rev [0..<len div 4]) m)"

section \<open>Operations\<close>

text \<open>\<open>p\<close> is what \<open>kmalloc\<close> returns for the structure, 0 when it fails.\<close>

definition as_create :: "nat \<Rightarrow> vmas \<Rightarrow> (nat, vmas) out" where
  "as_create p s =
     (if p = 0 then Ok 0 s
      else Ok p (s\<lparr>vs_as := (vs_as s)(p \<mapsto> \<lparr>as_vbase1 = 0, as_pbase1 = 0, as_npages1 = 0, as_vbase2 = 0, as_pbase2 = 0, as_npages2 = 0, as_stackpbase = 0\<rparr>)\<rparr>))"

definition as_destroy :: "nat \<Rightarrow> vmas \<Rightarrow> (unit, vmas) out" where
  "as_destroy as s =
     as_get as s (\<lambda>a.
       kbind (if as_pbase1 a \<noteq> 0 then on_sys (free_ppages (as_pbase1 a)) s else Ok () s) (\<lambda>_ s.
       kbind (if as_pbase2 a \<noteq> 0 then on_sys (free_ppages (as_pbase2 a)) s else Ok () s) (\<lambda>_ s.
       kbind (if as_stackpbase a \<noteq> 0 then on_sys (free_ppages (as_stackpbase a)) s else Ok () s) (\<lambda>_ s.
         Ok () (s\<lparr>vs_as := (vs_as s)(as := None)\<rparr>)))))"

text \<open>The TLB of the machine, \<open>tlb_read\<close> and \<open>tlb_write\<close>.\<close>

definition tlb_write :: "nat \<Rightarrow> nat \<Rightarrow> nat \<Rightarrow> vmas \<Rightarrow> vmas" where
  "tlb_write ehi elo i s = s\<lparr>vs_tlb := (vs_tlb s)[i := (ehi, elo)]\<rparr>"

definition as_activate :: "vmas \<Rightarrow> vmas" where
  "as_activate s = fold (\<lambda>i. tlb_write (TLBHI_INVALID i) 0 i) [0..<NUM_TLB] s"

definition as_define_region :: "nat \<Rightarrow> nat \<Rightarrow> nat \<Rightarrow> vmas \<Rightarrow> (unit, vmas) out" where
  "as_define_region as vaddr sz s =
     (let sz = wadd32 sz (vaddr AND (2 ^ 32 - 1 - PAGE_FRAME));
          vaddr = vaddr AND PAGE_FRAME;
          sz = wadd32 sz (PAGE_SIZE - 1) AND PAGE_FRAME;
          npages = sz div PAGE_SIZE
      in as_get as s (\<lambda>a.
           if as_vbase1 a = 0 then Ok () (as_upd as (\<lambda>a. a\<lparr>as_vbase1 := vaddr, as_npages1 := npages\<rparr>) s)
           else if as_vbase2 a = 0 then Ok () (as_upd as (\<lambda>a. a\<lparr>as_vbase2 := vaddr, as_npages2 := npages\<rparr>) s)
           else Err EUNIMP s))"

definition as_zero_region :: "nat \<Rightarrow> nat \<Rightarrow> vmas \<Rightarrow> vmas" where
  "as_zero_region paddr npages s = upd_phys (bzero (PADDR_TO_KVADDR paddr) (npages * PAGE_SIZE mod 2 ^ 32)) s"

definition as_prepare_load :: "nat \<Rightarrow> vmas \<Rightarrow> (unit, vmas) out" where
  "as_prepare_load as s =
     as_get as s (\<lambda>a.
       kassert (as_pbase1 a = 0) (kassert (as_pbase2 a = 0) (kassert (as_stackpbase a = 0)
         (kbind (on_sys (alloc_ppages (as_npages1 a)) s) (\<lambda>pa s.
            let s = as_upd as (\<lambda>a. a\<lparr>as_pbase1 := pa\<rparr>) s in
            if pa = 0 then Err ENOMEM s
            else kbind (on_sys (alloc_ppages (as_npages2 a)) s) (\<lambda>pb s.
              let s = as_upd as (\<lambda>a. a\<lparr>as_pbase2 := pb\<rparr>) s in
              if pb = 0 then Err ENOMEM s
              else kbind (on_sys (alloc_ppages VM_STACKPAGES) s) (\<lambda>pc s.
                let s = as_upd as (\<lambda>a. a\<lparr>as_stackpbase := pc\<rparr>) s in
                if pc = 0 then Err ENOMEM s
                else
                  let s = as_zero_region pa (as_npages1 a) s;
                      s = as_zero_region pb (as_npages2 a) s;
                      s = as_zero_region pc VM_STACKPAGES s
                  in Ok () s)))))))"

definition as_complete_load :: "nat \<Rightarrow> vmas \<Rightarrow> (unit, vmas) out" where
  "as_complete_load as s = Ok () s"

definition as_define_stack :: "nat \<Rightarrow> vmas \<Rightarrow> (nat, vmas) out" where
  "as_define_stack as s = as_get as s (\<lambda>a. kassert (as_stackpbase a \<noteq> 0) (Ok USERSTACK s))"

definition as_copy :: "nat \<Rightarrow> nat \<Rightarrow> vmas \<Rightarrow> (nat, vmas) out" where
  "as_copy p old s =
     kbind (as_create p s) (\<lambda>new s.
       if new = 0 then Err ENOMEM s
       else as_get old s (\<lambda>a.
         let s = as_upd new (\<lambda>n. n\<lparr>as_vbase1 := as_vbase1 a, as_npages1 := as_npages1 a, as_vbase2 := as_vbase2 a, as_npages2 := as_npages2 a\<rparr>) s in
         (case as_prepare_load new s of
            Err e s \<Rightarrow> kbind (as_destroy new s) (\<lambda>_ s. Err ENOMEM s)
          | Panic \<Rightarrow> Panic
          | Ok _ s \<Rightarrow>
              as_get new s (\<lambda>n.
                kassert (as_pbase1 n \<noteq> 0) (kassert (as_pbase2 n \<noteq> 0) (kassert (as_stackpbase n \<noteq> 0)
                  (let s = upd_phys (memmove (PADDR_TO_KVADDR (as_pbase1 n)) (PADDR_TO_KVADDR (as_pbase1 a)) (as_npages1 a * PAGE_SIZE mod 2 ^ 32)) s;
                       s = upd_phys (memmove (PADDR_TO_KVADDR (as_pbase2 n)) (PADDR_TO_KVADDR (as_pbase2 a)) (as_npages2 a * PAGE_SIZE mod 2 ^ 32)) s;
                       s = upd_phys (memmove (PADDR_TO_KVADDR (as_stackpbase n)) (PADDR_TO_KVADDR (as_stackpbase a)) (VM_STACKPAGES * PAGE_SIZE)) s
                   in Ok new s)))))))"

text \<open>The loop of \<open>vm_fault\<close> that looks for a free entry of the TLB.\<close>

function tlb_loop :: "nat \<Rightarrow> nat \<Rightarrow> nat \<Rightarrow> vmas \<Rightarrow> (unit, vmas) out" where
  "tlb_loop i faultaddress paddr s =
     (if i < NUM_TLB then
        (if snd (vs_tlb s ! i) AND TLBLO_VALID \<noteq> 0 then tlb_loop (Suc i) faultaddress paddr s
         else Ok () (tlb_write faultaddress (paddr OR TLBLO_DIRTY OR TLBLO_VALID) i s))
      else Err EFAULT s)"
  by pat_completeness auto
termination by (relation "measure (\<lambda>(i, f, p, s). NUM_TLB - i)") auto

declare tlb_loop.simps [simp del]

definition fault_paddr :: "addrspace \<Rightarrow> nat \<Rightarrow> nat option" where
  "fault_paddr a faultaddress =
     (let vbase1 = as_vbase1 a; vtop1 = wadd32 vbase1 (as_npages1 a * PAGE_SIZE mod 2 ^ 32);
          vbase2 = as_vbase2 a; vtop2 = wadd32 vbase2 (as_npages2 a * PAGE_SIZE mod 2 ^ 32);
          stackbase = USERSTACK - VM_STACKPAGES * PAGE_SIZE; stacktop = USERSTACK
      in if faultaddress \<ge> vbase1 \<and> faultaddress < vtop1 then Some (wadd32 (faultaddress - vbase1) (as_pbase1 a))
         else if faultaddress \<ge> vbase2 \<and> faultaddress < vtop2 then Some (wadd32 (faultaddress - vbase2) (as_pbase2 a))
         else if faultaddress \<ge> stackbase \<and> faultaddress < stacktop then Some (wadd32 (faultaddress - stackbase) (as_stackpbase a))
         else None)"

definition vm_fault :: "vm_faulttype \<Rightarrow> nat \<Rightarrow> vmas \<Rightarrow> (unit, vmas) out" where
  "vm_fault faulttype faultaddress s =
     (let faultaddress = faultaddress AND PAGE_FRAME in
      case faulttype of
        VM_FAULT_READONLY \<Rightarrow> Panic
      | VM_FAULT_other \<Rightarrow> Err EINVAL s
      | _ \<Rightarrow>
          if vs_cur s = 0 then Err EFAULT s
          else as_get (vs_cur s) s (\<lambda>a.
            kassert (as_vbase1 a \<noteq> 0 \<and> as_pbase1 a \<noteq> 0 \<and> as_npages1 a \<noteq> 0 \<and> as_vbase2 a \<noteq> 0 \<and> as_pbase2 a \<noteq> 0 \<and> as_npages2 a \<noteq> 0 \<and> as_stackpbase a \<noteq> 0)
              (kassert (as_vbase1 a AND PAGE_FRAME = as_vbase1 a \<and> as_pbase1 a AND PAGE_FRAME = as_pbase1 a \<and>
                        as_vbase2 a AND PAGE_FRAME = as_vbase2 a \<and> as_pbase2 a AND PAGE_FRAME = as_pbase2 a \<and>
                        as_stackpbase a AND PAGE_FRAME = as_stackpbase a)
                (case fault_paddr a faultaddress of
                   None \<Rightarrow> Err EFAULT s
                 | Some paddr \<Rightarrow> kassert (paddr AND PAGE_FRAME = paddr) (tlb_loop 0 faultaddress paddr s)))))"

end
