(* ===== verification/AddrSpaceInv.thy ===== *)
theory AddrSpaceInv
  imports AddrSpace
begin

text \<open>
  What address spaces promise: the invariant that each has its own blocks of memory, what loading, destroying and copying one do to the
  memory and to the blocks in use, over the contract of the page allocator.
\<close>

section \<open>Memory\<close>

lemma bzero_eq: "bzero b len m x = (if \<exists>i < len div 4. x = b + 4 * i then 0 else m x)"
proof -
  have "fold (\<lambda>i m. m(b + 4 * i := 0)) [0..<n] m x = (if \<exists>i < n. x = b + 4 * i then 0 else m x)" for n
    by (induction n) (auto simp: less_Suc_eq)
  then show ?thesis by (simp add: bzero_def)
qed

lemma fold_copy:
  assumes "\<And>i j. i \<in> set is \<Longrightarrow> j \<in> set is \<Longrightarrow> d + 4 * i \<noteq> s + 4 * j"
  shows "fold (copy_word d s) is m x = (if \<exists>i \<in> set is. x = d + 4 * i then m (s + (x - d)) else m x)"
  using assms
proof (induction "is" arbitrary: m)
  case (Cons i "is")
  have a: "(copy_word d s i m) (s + 4 * j) = m (s + 4 * j)" if "j \<in> set is" for j using Cons.prems [of i j] that by (auto simp: copy_word_def)
  have "fold (copy_word d s) (i # is) m x = fold (copy_word d s) is (copy_word d s i m) x" by simp
  also have "\<dots> = (if \<exists>i \<in> set is. x = d + 4 * i then (copy_word d s i m) (s + (x - d)) else (copy_word d s i m) x)" using Cons.prems by (intro Cons.IH) auto
  also have "\<dots> = (if \<exists>i \<in> set (i # is). x = d + 4 * i then m (s + (x - d)) else m x)"
  proof (cases "\<exists>j \<in> set is. x = d + 4 * j")
    case True
    then obtain j where "j \<in> set is" "x = d + 4 * j" by blast
    then show ?thesis using a by auto
  qed (auto simp: copy_word_def)
  finally show ?case .
qed simp

lemma memmove_eq:
  assumes "\<And>i j. i < len div 4 \<Longrightarrow> j < len div 4 \<Longrightarrow> d + 4 * i \<noteq> s + 4 * j"
  shows "memmove d s len m x = (if \<exists>i < len div 4. x = d + 4 * i then m (s + (x - d)) else m x)"
proof -
  have "fold (copy_word d s) is m x = (if \<exists>i < len div 4. x = d + 4 * i then m (s + (x - d)) else m x)" if "set is = {..<len div 4}" for "is"
    using assms that by (subst fold_copy) auto
  note f = this
  show ?thesis using f [of "[0..<len div 4]"] f [of "rev [0..<len div 4]"] by (simp add: memmove_def memcpy_def atLeast0LessThan) blast
qed

text \<open>Block \<open>p\<close> of \<open>n\<close> pages as the kernel sees it.\<close>

definition in_blk :: "nat \<Rightarrow> nat \<Rightarrow> nat \<Rightarrow> bool" where
  "in_blk p n x \<longleftrightarrow> MIPS_KSEG0 + p \<le> x \<and> x < MIPS_KSEG0 + p + n * 4096"

lemma words_in_blk: "(\<exists>i < n * 4096 div 4. x = MIPS_KSEG0 + p + 4 * i) \<longleftrightarrow> in_blk p n x \<and> (x - (MIPS_KSEG0 + p)) mod 4 = 0"
proof
  assume "in_blk p n x \<and> (x - (MIPS_KSEG0 + p)) mod 4 = 0"
  then have "(x - (MIPS_KSEG0 + p)) div 4 < n * 4096 div 4 \<and> x = MIPS_KSEG0 + p + 4 * ((x - (MIPS_KSEG0 + p)) div 4)" by (auto simp: in_blk_def)
  then show "\<exists>i < n * 4096 div 4. x = MIPS_KSEG0 + p + 4 * i" by blast
qed (auto simp: in_blk_def)

section \<open>The allocator below\<close>

lemma page_inv_bound:
  assumes "page_inv lo hi y U" "U p = Some n"
  shows "p mod 4096 = 0" "0 < p" "0 < n" "p + n * 4096 \<le> 508 * 1024 * 1024"
proof -
  obtain F L where P: "pool lo hi y F L" and "(p, n) \<in> blk_of y ` set L" using assms unfolding page_inv_def by blast
  then have "good_blk (p, n)" using tiledD(3) [OF poolD(3) [OF P], of "(p, n)"] by simp
  then show "p mod 4096 = 0" "0 < p" "0 < n" "p + n * 4096 \<le> 508 * 1024 * 1024" by (simp_all add: good_blk_def ends_def)
qed

lemma page_inv_ram: "page_inv lo hi (y\<lparr>vm_ram := h\<rparr>) U = page_inv lo hi y U" "spare (y\<lparr>vm_ram := h\<rparr>) = spare y"
proof -
  have "blk_of (y\<lparr>vm_ram := h\<rparr>) = blk_of y" by (simp add: fun_eq_iff blk_of_def)
  then show "page_inv lo hi (y\<lparr>vm_ram := h\<rparr>) U = page_inv lo hi y U" by (simp add: page_inv_def pool_def lists_def space_ok_def)
  show "spare (y\<lparr>vm_ram := h\<rparr>) = spare y" by (simp add: spare_def)
qed

lemma alloc_ram:
  assumes "page_inv lo hi y U" "alloc_ppages n y = Ok p y'"
  shows "vm_ram y' = vm_ram y"
proof (cases "n = 0")
  case True
  then show ?thesis using assms(2) by (simp add: alloc_ppages_def)
next
  case False
  obtain F L where P: "pool lo hi y F L" using assms(1) unfolding page_inv_def by blast
  show ?thesis using alloc_ppages_spec [OF P, of n] False assms(2) by (auto simp: allocated_def)
qed

lemma free_ram:
  assumes "page_inv lo hi y U" "U p = Some n" "free_ppages p y = Ok () y'"
  shows "vm_ram y' = vm_ram y"
proof -
  obtain F L where P: "pool lo hi y F L" "(p, n) \<in> blk_of y ` set L" using assms(1,2) unfolding page_inv_def by blast
  show ?thesis using free_ppages_spec [OF P] assms(3) by (auto simp: freed_blk_def)
qed

lemma alloc_step:
  assumes "page_inv lo hi (vs_sys s) U" "0 < spare (vs_sys s)"
  obtains p y where "on_sys (alloc_ppages n) s = Ok p (s\<lparr>vs_sys := y\<rparr>)" "page_inv lo hi y (if p = 0 then U else U(p \<mapsto> n))"
    "p \<noteq> 0 \<Longrightarrow> U p = None" "spare (vs_sys s) \<le> Suc (spare y)" "vm_ram y = vm_ram (vs_sys s)"
proof -
  obtain p y where a: "alloc_ppages n (vs_sys s) = Ok p y" "page_inv lo hi y (if p = 0 then U else U(p \<mapsto> n))" "spare (vs_sys s) \<le> Suc (spare y)"
    "p \<noteq> 0 \<Longrightarrow> U p = None" using pg.get_served [OF assms, of n] by metis
  show thesis by (rule that [of p y]) (use a alloc_ram [OF assms(1) a(1)] in \<open>auto simp: on_sys_def\<close>)
qed

lemma free_step:
  assumes "page_inv lo hi (vs_sys s) U" "b \<noteq> 0 \<Longrightarrow> U b \<noteq> None"
  shows "\<exists>y. (if b \<noteq> 0 then on_sys (free_ppages b) s else Ok () s) = Ok () (s\<lparr>vs_sys := y\<rparr>) \<and> page_inv lo hi y (U |` (- {b})) \<and>
    spare y = spare (vs_sys s) \<and> vm_ram y = vm_ram (vs_sys s)"
proof (cases "b = 0")
  case True
  have "U 0 = None" using page_inv_bound(2) [OF assms(1), of 0] by (cases "U 0") auto
  then have "U |` (- {b}) = U" using True by (auto simp: restrict_map_def)
  then show ?thesis using True assms(1) by (intro exI [of _ "vs_sys s"]) simp
next
  case False
  then obtain n where n: "U b = Some n" using assms(2) by auto
  obtain y where y: "free_ppages b (vs_sys s) = Ok () y" "page_inv lo hi y (U(b := None))" "spare y = spare (vs_sys s)"
    using pg.release_law [OF assms(1) n] by blast
  have "U(b := None) = U |` (- {b})" by (auto simp: restrict_map_def)
  then show ?thesis using False y free_ram [OF assms(1) n y(1)] by (intro exI [of _ y]) (simp add: on_sys_def)
qed

section \<open>Destroying an address space\<close>

definition as_bases :: "addrspace \<Rightarrow> nat set" where
  "as_bases a = {as_pbase1 a, as_pbase2 a, as_stackpbase a}"

text \<open>The address space owns its blocks, as many as it has.\<close>

definition owns :: "addrspace \<Rightarrow> (nat \<Rightarrow> nat option) \<Rightarrow> bool" where
  "owns a U \<longleftrightarrow> as_bases a - {0} \<subseteq> dom U \<and> (as_pbase1 a \<noteq> 0 \<longrightarrow> as_pbase1 a \<noteq> as_pbase2 a \<and> as_pbase1 a \<noteq> as_stackpbase a) \<and>
     (as_pbase2 a \<noteq> 0 \<longrightarrow> as_pbase2 a \<noteq> as_stackpbase a)"

lemma restrict_two: "(U |` (- A)) |` (- {b}) = U |` (- insert b A)"
  by (auto simp: restrict_map_def)

lemma as_destroy_spec:
  assumes I: "page_inv lo hi (vs_sys s) U" and a: "vs_as s as = Some a" and o: "owns a U"
  shows "\<exists>y. as_destroy as s = Ok () (s\<lparr>vs_sys := y, vs_as := (vs_as s)(as := None)\<rparr>) \<and> page_inv lo hi y (U |` (- as_bases a)) \<and>
    spare y = spare (vs_sys s) \<and> vm_ram y = vm_ram (vs_sys s)"
proof -
  have d: "b \<noteq> 0 \<Longrightarrow> U b \<noteq> None" if "b \<in> as_bases a" for b using o that by (auto simp: owns_def)
  obtain y1 where 1: "(if as_pbase1 a \<noteq> 0 then on_sys (free_ppages (as_pbase1 a)) s else Ok () s) = Ok () (s\<lparr>vs_sys := y1\<rparr>)"
    "page_inv lo hi y1 (U |` (- {as_pbase1 a}))" "spare y1 = spare (vs_sys s)" "vm_ram y1 = vm_ram (vs_sys s)"
    using free_step [OF I d] by (auto simp: as_bases_def)
  have "(U |` (- {as_pbase1 a})) (as_pbase2 a) \<noteq> None" if "as_pbase2 a \<noteq> 0" using that o d [of "as_pbase2 a"] by (auto simp: owns_def as_bases_def restrict_map_def)
  then obtain y2 where 2: "(if as_pbase2 a \<noteq> 0 then on_sys (free_ppages (as_pbase2 a)) (s\<lparr>vs_sys := y1\<rparr>) else Ok () (s\<lparr>vs_sys := y1\<rparr>)) = Ok () (s\<lparr>vs_sys := y2\<rparr>)"
    "page_inv lo hi y2 (U |` (- {as_pbase1 a, as_pbase2 a}))" "spare y2 = spare y1" "vm_ram y2 = vm_ram y1"
    using free_step [of lo hi "s\<lparr>vs_sys := y1\<rparr>" "U |` (- {as_pbase1 a})" "as_pbase2 a"] 1(2) by (auto simp: restrict_two insert_commute simp del: restrict_restrict)
  have "(U |` (- {as_pbase1 a, as_pbase2 a})) (as_stackpbase a) \<noteq> None" if "as_stackpbase a \<noteq> 0"
  proof -
    have "as_stackpbase a \<notin> {as_pbase1 a, as_pbase2 a}" using that o unfolding owns_def by (metis insertE singletonD)
    then show ?thesis using that d [of "as_stackpbase a"] by (simp add: as_bases_def restrict_map_def)
  qed
  then obtain y3 where 3: "(if as_stackpbase a \<noteq> 0 then on_sys (free_ppages (as_stackpbase a)) (s\<lparr>vs_sys := y2\<rparr>) else Ok () (s\<lparr>vs_sys := y2\<rparr>)) = Ok () (s\<lparr>vs_sys := y3\<rparr>)"
    "page_inv lo hi y3 (U |` (- as_bases a))" "spare y3 = spare y2" "vm_ram y3 = vm_ram y2"
    using free_step [of lo hi "s\<lparr>vs_sys := y2\<rparr>" "U |` (- {as_pbase1 a, as_pbase2 a})" "as_stackpbase a"] 2(2) by (auto simp: restrict_two insert_commute as_bases_def simp del: restrict_restrict)
  show ?thesis using a 1 2(1,3,4) 3 by (intro exI [of _ y3]) (simp add: as_destroy_def as_get_def)
qed

section \<open>Loading\<close>

lemma upd_phys_sel [simp]:
  "vs_as (upd_phys f s) = vs_as s" "vs_cur (upd_phys f s) = vs_cur s" "vs_tlb (upd_phys f s) = vs_tlb s" "phys (upd_phys f s) = f (phys s)"
  "page_inv lo hi (vs_sys (upd_phys f s)) U = page_inv lo hi (vs_sys s) U" "spare (vs_sys (upd_phys f s)) = spare (vs_sys s)"
  by (simp_all add: upd_phys_def page_inv_ram)

lemma as_upd_sel [simp]:
  "vs_sys (as_upd as f s) = vs_sys s" "vs_cur (as_upd as f s) = vs_cur s" "vs_tlb (as_upd as f s) = vs_tlb s"
  "vs_as s as = Some a \<Longrightarrow> vs_as (as_upd as f s) = (vs_as s)(as \<mapsto> f a)"
  by (simp_all add: as_upd_def)

lemma blk_address:
  assumes "page_inv lo hi y U" "U p = Some n"
  shows "PADDR_TO_KVADDR p = MIPS_KSEG0 + p" "n * PAGE_SIZE mod 2 ^ 32 = n * 4096" "(MIPS_KSEG0 + p) mod 4 = 0" "in_blk p n x \<Longrightarrow> (x - (MIPS_KSEG0 + p)) mod 4 = 0 \<longleftrightarrow> x mod 4 = 0"
proof -
  note b = page_inv_bound [OF assms]
  show "PADDR_TO_KVADDR p = MIPS_KSEG0 + p" "n * PAGE_SIZE mod 2 ^ 32 = n * 4096" using b(4) by (simp_all add: PADDR_TO_KVADDR_def MIPS_KSEG0_def)
  have "4096 dvd p" using b(1) by (simp add: dvd_eq_mod_eq_0)
  then have "4 dvd p" by (rule dvd_trans [rotated]) simp
  then have d: "4 dvd MIPS_KSEG0 + p" by (simp add: MIPS_KSEG0_def)
  then show "(MIPS_KSEG0 + p) mod 4 = 0" by simp
  assume "in_blk p n x"
  then have "x = (x - (MIPS_KSEG0 + p)) + (MIPS_KSEG0 + p)" by (simp add: in_blk_def)
  then show "(x - (MIPS_KSEG0 + p)) mod 4 = 0 \<longleftrightarrow> x mod 4 = 0" using d by (metis dvd_add_left_iff dvd_eq_mod_eq_0)
qed

lemma zero_region:
  assumes "page_inv lo hi (vs_sys s) U" "U p = Some n"
  shows "phys (as_zero_region p n s) x = (if in_blk p n x \<and> x mod 4 = 0 then 0 else phys s x)"
  unfolding as_zero_region_def upd_phys_sel bzero_eq blk_address(1,2) [OF assms] words_in_blk using blk_address(4) [OF assms, of x] by auto

lemma zero_region_sel [simp]:
  "vs_as (as_zero_region p n s) = vs_as s" "vs_cur (as_zero_region p n s) = vs_cur s" "vs_tlb (as_zero_region p n s) = vs_tlb s"
  "page_inv lo hi (vs_sys (as_zero_region p n s)) U = page_inv lo hi (vs_sys s) U" "spare (vs_sys (as_zero_region p n s)) = spare (vs_sys s)"
  by (simp_all add: as_zero_region_def)

text \<open>The address space has its three blocks.\<close>

definition loaded :: "addrspace \<Rightarrow> (nat \<Rightarrow> nat option) \<Rightarrow> bool" where
  "loaded a U \<longleftrightarrow> U (as_pbase1 a) = Some (as_npages1 a) \<and> U (as_pbase2 a) = Some (as_npages2 a) \<and> U (as_stackpbase a) = Some 12 \<and>
     distinct [as_pbase1 a, as_pbase2 a, as_stackpbase a]"

definition in_as :: "addrspace \<Rightarrow> nat \<Rightarrow> bool" where
  "in_as a x \<longleftrightarrow> in_blk (as_pbase1 a) (as_npages1 a) x \<or> in_blk (as_pbase2 a) (as_npages2 a) x \<or> in_blk (as_stackpbase a) 12 x"

definition prepared :: "nat \<Rightarrow> nat \<Rightarrow> vmas \<Rightarrow> (nat \<Rightarrow> nat option) \<Rightarrow> nat \<Rightarrow> addrspace \<Rightarrow> vmas \<Rightarrow> (nat \<Rightarrow> nat option) \<Rightarrow> addrspace \<Rightarrow> bool" where
  "prepared lo hi s U as a s' U' a' \<longleftrightarrow> page_inv lo hi (vs_sys s') U' \<and> vs_as s' = (vs_as s)(as \<mapsto> a') \<and> loaded a' U' \<and> as_bases a' \<inter> dom U = {} \<and>
     U' |` (- as_bases a') = U \<and> (\<exists>pa pb pc. a' = a\<lparr>as_pbase1 := pa, as_pbase2 := pb, as_stackpbase := pc\<rparr>) \<and>
     (\<forall>x. \<not> in_as a' x \<longrightarrow> phys s' x = phys s x) \<and> (\<forall>x. in_as a' x \<longrightarrow> x mod 4 = 0 \<longrightarrow> phys s' x = 0) \<and>
     vs_cur s' = vs_cur s \<and> vs_tlb s' = vs_tlb s \<and> spare (vs_sys s) \<le> spare (vs_sys s') + 3"

definition unprepared :: "nat \<Rightarrow> nat \<Rightarrow> vmas \<Rightarrow> (nat \<Rightarrow> nat option) \<Rightarrow> nat \<Rightarrow> vmas \<Rightarrow> bool" where
  "unprepared lo hi s U as s' \<longleftrightarrow> (\<exists>U' a'. page_inv lo hi (vs_sys s') U' \<and> vs_as s' = (vs_as s)(as \<mapsto> a') \<and> owns a' U' \<and> U' |` (- as_bases a') = U \<and>
     phys s' = phys s \<and> vs_cur s' = vs_cur s \<and> vs_tlb s' = vs_tlb s \<and> spare (vs_sys s) \<le> spare (vs_sys s') + 3)"

lemma restrict_new: "U p = None \<Longrightarrow> (U(p \<mapsto> n)) |` (- insert p A) = U |` (- A)"
  by (auto simp: restrict_map_def)

lemma prepare_end:
  assumes I: "page_inv lo hi (vs_sys s) U" and p: "U pa = Some na" "U pb = Some nb" "U pc = Some 12"
  shows "phys (as_zero_region pc 12 (as_zero_region pb nb (as_zero_region pa na s))) x =
    (if (in_blk pa na x \<or> in_blk pb nb x \<or> in_blk pc 12 x) \<and> x mod 4 = 0 then 0 else phys s x)"
  using zero_region [OF I p(1), of x] zero_region [of lo hi "as_zero_region pa na s" U pb nb x]
    zero_region [of lo hi "as_zero_region pb nb (as_zero_region pa na s)" U pc 12 x] I p by simp

lemma as_prepare_load_spec:
  assumes I: "page_inv lo hi (vs_sys s) U" and a: "vs_as s as = Some a" "as_pbase1 a = 0" "as_pbase2 a = 0" "as_stackpbase a = 0" and b: "3 \<le> spare (vs_sys s)"
  shows "(\<exists>s' U' a'. as_prepare_load as s = Ok () s' \<and> prepared lo hi s U as a s' U' a') \<or> (\<exists>s'. as_prepare_load as s = Err ENOMEM s' \<and> unprepared lo hi s U as s')"
proof -
  have U0: "U 0 = None" using page_inv_bound(2) [OF I, of 0] by (cases "U 0") auto
  have r0: "U |` (- {0}) = U" using U0 by (auto simp: restrict_map_def)
  obtain pa ya where A: "on_sys (alloc_ppages (as_npages1 a)) s = Ok pa (s\<lparr>vs_sys := ya\<rparr>)" "page_inv lo hi ya (if pa = 0 then U else U(pa \<mapsto> as_npages1 a))"
    "pa \<noteq> 0 \<Longrightarrow> U pa = None" "spare (vs_sys s) \<le> Suc (spare ya)" "vm_ram ya = vm_ram (vs_sys s)" using alloc_step [OF I] b by (metis less_le_trans zero_less_numeral)
  define sa where "sa = as_upd as (\<lambda>a. a\<lparr>as_pbase1 := pa\<rparr>) (s\<lparr>vs_sys := ya\<rparr>)"
  have sa: "vs_sys sa = ya" "vs_as sa = (vs_as s)(as \<mapsto> a\<lparr>as_pbase1 := pa\<rparr>)" "vs_cur sa = vs_cur s" "vs_tlb sa = vs_tlb s" using a(1) by (simp_all add: sa_def)
  show ?thesis
  proof (cases "pa = 0")
    case True
    then have "as_prepare_load as s = Err ENOMEM sa" using a A(1) by (simp add: as_prepare_load_def as_get_def sa_def Let_def)
    moreover have "owns (a\<lparr>as_pbase1 := pa\<rparr>) U" "as_bases (a\<lparr>as_pbase1 := pa\<rparr>) = {0}" using a True by (auto simp: owns_def as_bases_def)
    then have "unprepared lo hi s U as sa" using True A sa r0 unfolding unprepared_def by (intro exI [of _ U] exI [of _ "a\<lparr>as_pbase1 := pa\<rparr>"]) simp
    ultimately show ?thesis by blast
  next
    case pa: False
    let ?Ua = "U(pa \<mapsto> as_npages1 a)"
    have Ia: "page_inv lo hi (vs_sys sa) ?Ua" using A(2) pa sa(1) by simp
    have "0 < spare (vs_sys sa)" using A(4) b sa(1) by simp
    then obtain pb yb where B: "on_sys (alloc_ppages (as_npages2 a)) sa = Ok pb (sa\<lparr>vs_sys := yb\<rparr>)" "page_inv lo hi yb (if pb = 0 then ?Ua else ?Ua(pb \<mapsto> as_npages2 a))"
      "pb \<noteq> 0 \<Longrightarrow> ?Ua pb = None" "spare (vs_sys sa) \<le> Suc (spare yb)" "vm_ram yb = vm_ram (vs_sys sa)" using alloc_step [OF Ia] by metis
    define sb where "sb = as_upd as (\<lambda>a. a\<lparr>as_pbase2 := pb\<rparr>) (sa\<lparr>vs_sys := yb\<rparr>)"
    have sb: "vs_sys sb = yb" "vs_as sb = (vs_as s)(as \<mapsto> a\<lparr>as_pbase1 := pa, as_pbase2 := pb\<rparr>)" "vs_cur sb = vs_cur s" "vs_tlb sb = vs_tlb s"
      using sa by (simp_all add: sb_def)
    show ?thesis
    proof (cases "pb = 0")
      case True
      then have "as_prepare_load as s = Err ENOMEM sb" using a A(1) B(1) pa by (simp add: as_prepare_load_def as_get_def sa_def [symmetric] sb_def Let_def)
      moreover have "as_bases (a\<lparr>as_pbase1 := pa, as_pbase2 := pb\<rparr>) = {pa, 0}" "owns (a\<lparr>as_pbase1 := pa, as_pbase2 := pb\<rparr>) ?Ua"
        using a True pa by (auto simp: owns_def as_bases_def)
      moreover have "?Ua |` (- {pa, 0}) = U" using restrict_new [of U pa "as_npages1 a" "{0}"] A(3) [OF pa] r0 by simp
      ultimately have "unprepared lo hi s U as sb" unfolding unprepared_def
        using True A(4,5) B(2,4,5) sa(1) sb by (intro exI [of _ ?Ua] exI [of _ "a\<lparr>as_pbase1 := pa, as_pbase2 := pb\<rparr>"]) simp
      then show ?thesis using \<open>as_prepare_load as s = Err ENOMEM sb\<close> by blast
    next
      case pb: False
      let ?Ub = "?Ua(pb \<mapsto> as_npages2 a)"
      have ab: "pa \<noteq> pb" "U pa = None" "U pb = None" using A(3) [OF pa] B(3) [OF pb] by (auto split: if_splits)
      have Ib: "page_inv lo hi (vs_sys sb) ?Ub" using B(2) pb sb(1) by simp
      have "0 < spare (vs_sys sb)" using A(4) B(4) b sa(1) sb(1) by simp
      then obtain pc yc where C: "on_sys (alloc_ppages VM_STACKPAGES) sb = Ok pc (sb\<lparr>vs_sys := yc\<rparr>)" "page_inv lo hi yc (if pc = 0 then ?Ub else ?Ub(pc \<mapsto> VM_STACKPAGES))"
        "pc \<noteq> 0 \<Longrightarrow> ?Ub pc = None" "spare (vs_sys sb) \<le> Suc (spare yc)" "vm_ram yc = vm_ram (vs_sys sb)" using alloc_step [OF Ib] by metis
      define sc where "sc = as_upd as (\<lambda>a. a\<lparr>as_stackpbase := pc\<rparr>) (sb\<lparr>vs_sys := yc\<rparr>)"
      define a' where "a' = a\<lparr>as_pbase1 := pa, as_pbase2 := pb, as_stackpbase := pc\<rparr>"
      have sc: "vs_sys sc = yc" "vs_as sc = (vs_as s)(as \<mapsto> a')" "vs_cur sc = vs_cur s" "vs_tlb sc = vs_tlb s" using sb by (simp_all add: sc_def a'_def)
      have ph: "phys sc = phys s" "spare (vs_sys s) \<le> spare (vs_sys sc) + 3" using A(4,5) B(4,5) C(4,5) sa(1) sb(1) sc(1) by simp_all
      have rb: "?Ub |` (- {pb, pa, 0}) = U" using restrict_new [of ?Ua pb "as_npages2 a" "{pa, 0}"] restrict_new [of U pa "as_npages1 a" "{0}"] r0 ab by simp
      show ?thesis
      proof (cases "pc = 0")
        case True
        then have "as_prepare_load as s = Err ENOMEM sc" using a A(1) B(1) C(1) pa pb
          by (simp add: as_prepare_load_def as_get_def sa_def [symmetric] sb_def [symmetric] sc_def Let_def)
        moreover have "as_bases a' = {pb, pa, 0}" "owns a' ?Ub" using True pa pb ab by (auto simp: owns_def as_bases_def a'_def)
        then have "unprepared lo hi s U as sc" unfolding unprepared_def using True C(2) sc ph rb by (intro exI [of _ ?Ub] exI [of _ a']) simp
        ultimately show ?thesis by blast
      next
        case pc: False
        let ?Uc = "?Ub(pc \<mapsto> VM_STACKPAGES)"
        define s' where "s' = as_zero_region pc VM_STACKPAGES (as_zero_region pb (as_npages2 a) (as_zero_region pa (as_npages1 a) sc))"
        have p: "as_prepare_load as s = Ok () s'" using a A(1) B(1) C(1) pa pb pc
          by (simp add: as_prepare_load_def as_get_def sa_def [symmetric] sb_def [symmetric] sc_def [symmetric] s'_def Let_def)
        have cc: "pc \<noteq> pa" "pc \<noteq> pb" "U pc = None" using C(3) [OF pc] by (auto split: if_splits)
        have Ic: "page_inv lo hi (vs_sys sc) ?Uc" using C(2) pc sc(1) by simp
        have st: "VM_STACKPAGES = 12" by (simp add: VM_STACKPAGES_def)
        have z: "phys s' x = (if in_as a' x \<and> x mod 4 = 0 then 0 else phys s x)" for x
          using prepare_end [OF Ic, of pa "as_npages1 a" pb "as_npages2 a" pc x] ab cc ph(1) by (simp add: s'_def st in_as_def a'_def)
        have "?Uc |` (- {pc, pb, pa}) = ?Ub |` (- {pb, pa})" using restrict_new [of ?Ub pc VM_STACKPAGES "{pb, pa}"] cc by simp
        also have "\<dots> = U" using rb U0 pa pb ab by (auto simp: restrict_map_def fun_eq_iff split: if_splits)
        finally have rc: "?Uc |` (- as_bases a') = U" by (simp add: as_bases_def a'_def insert_commute)
        have "prepared lo hi s U as a s' ?Uc a'" unfolding prepared_def
        proof (intro conjI)
          show "page_inv lo hi (vs_sys s') ?Uc" "vs_as s' = (vs_as s)(as \<mapsto> a')" "vs_cur s' = vs_cur s" "vs_tlb s' = vs_tlb s" using Ic sc by (simp_all add: s'_def)
          show "loaded a' ?Uc" using ab cc by (simp add: loaded_def a'_def st)
          show "as_bases a' \<inter> dom U = {}" using ab cc by (auto simp: as_bases_def a'_def)
          show "\<exists>pa pb pc. a' = a\<lparr>as_pbase1 := pa, as_pbase2 := pb, as_stackpbase := pc\<rparr>" by (auto simp: a'_def)
          show "spare (vs_sys s) \<le> spare (vs_sys s') + 3" using ph(2) by (simp add: s'_def)
        qed (use z rc in auto)
        then show ?thesis using p by blast
      qed
    qed
  qed
qed

section \<open>What a process sees\<close>

text \<open>The physical address behind a user address, and the word there.\<close>

definition translate :: "addrspace \<Rightarrow> nat \<Rightarrow> nat option" where
  "translate a va =
     (if as_vbase1 a \<le> va \<and> va < as_vbase1 a + as_npages1 a * 4096 then Some (as_pbase1 a + (va - as_vbase1 a))
      else if as_vbase2 a \<le> va \<and> va < as_vbase2 a + as_npages2 a * 4096 then Some (as_pbase2 a + (va - as_vbase2 a))
      else if USERSTACK - 12 * 4096 \<le> va \<and> va < USERSTACK then Some (as_stackpbase a + (va - (USERSTACK - 12 * 4096)))
      else None)"

definition user_word :: "vmas \<Rightarrow> addrspace \<Rightarrow> nat \<Rightarrow> nat option" where
  "user_word s a va = map_option (\<lambda>pa. phys s (MIPS_KSEG0 + pa)) (translate a va)"

definition as_shape :: "addrspace \<Rightarrow> bool" where
  "as_shape a \<longleftrightarrow> as_vbase1 a mod 4096 = 0 \<and> as_vbase2 a mod 4096 = 0"

text \<open>All address spaces of the system: each has all its blocks or none yet, and no two share one.\<close>

definition as_inv :: "nat \<Rightarrow> nat \<Rightarrow> vmas \<Rightarrow> (nat \<Rightarrow> nat option) \<Rightarrow> bool" where
  "as_inv lo hi s U \<longleftrightarrow> page_inv lo hi (vs_sys s) U \<and> vs_as s 0 = None \<and>
     (\<forall>p a. vs_as s p = Some a \<longrightarrow> as_shape a \<and> (as_bases a = {0} \<or> loaded a U)) \<and>
     (\<forall>p q a b. p \<noteq> q \<longrightarrow> vs_as s p = Some a \<longrightarrow> vs_as s q = Some b \<longrightarrow> as_bases a \<inter> as_bases b \<subseteq> {0})"

lemma as_invD:
  assumes "as_inv lo hi s U"
  shows "page_inv lo hi (vs_sys s) U" "vs_as s 0 = None" "vs_as s p = Some a \<Longrightarrow> as_shape a \<and> (as_bases a = {0} \<or> loaded a U)"
    "p \<noteq> q \<Longrightarrow> vs_as s p = Some a \<Longrightarrow> vs_as s q = Some b \<Longrightarrow> as_bases a \<inter> as_bases b \<subseteq> {0}"
  using assms unfolding as_inv_def by blast+

lemma translate_in: "translate a va = Some pa \<Longrightarrow> in_as a (MIPS_KSEG0 + pa)"
  by (auto simp: translate_def in_as_def in_blk_def split: if_splits)

lemma blks_apart:
  assumes "page_inv lo hi y U" "U p = Some m" "U q = Some n" "p \<noteq> q" "in_blk p m x"
  shows "\<not> in_blk q n x"
  using pg.apart [OF assms(1-4)] assms(5) by (auto simp: in_blk_def)

lemma as_apart:
  assumes "page_inv lo hi y U" "loaded a U" "loaded b U" "as_bases a \<inter> as_bases b = {}" "in_as a x"
  shows "\<not> in_as b x"
proof -
  have "\<exists>p m. p \<in> as_bases a \<and> U p = Some m \<and> in_blk p m x" using assms(2,5) by (auto simp: in_as_def loaded_def as_bases_def)
  then obtain p m where p: "p \<in> as_bases a" "U p = Some m" "in_blk p m x" by blast
  have "\<not> in_blk q n x" if "q \<in> as_bases b" "U q = Some n" for q n using blks_apart [OF assms(1) p(2) that(2) _ p(3)] assms(4) p(1) that(1) by auto
  then show ?thesis using assms(3) by (auto simp: in_as_def loaded_def as_bases_def)
qed

lemma move_blk:
  assumes I: "page_inv lo hi (vs_sys t) U" and d: "U d = Some n" and p: "U p = Some n" and ne: "d \<noteq> p"
  shows "phys (upd_phys (memmove (PADDR_TO_KVADDR d) (PADDR_TO_KVADDR p) (n * PAGE_SIZE mod 2 ^ 32)) t) x =
    (if in_blk d n x \<and> x mod 4 = 0 then phys t (MIPS_KSEG0 + p + (x - (MIPS_KSEG0 + d))) else phys t x)"
proof -
  have "MIPS_KSEG0 + d + 4 * i \<noteq> MIPS_KSEG0 + p + 4 * j" if "i < n * 4096 div 4" "j < n * 4096 div 4" for i j
  proof -
    have "in_blk d n (MIPS_KSEG0 + d + 4 * i)" "in_blk p n (MIPS_KSEG0 + p + 4 * j)" using that words_in_blk by blast+
    then show ?thesis using blks_apart [OF I d p ne] by metis
  qed
  then have "memmove (MIPS_KSEG0 + d) (MIPS_KSEG0 + p) (n * 4096) (phys t) x =
    (if \<exists>i < n * 4096 div 4. x = MIPS_KSEG0 + d + 4 * i then phys t (MIPS_KSEG0 + p + (x - (MIPS_KSEG0 + d))) else phys t x)" by (rule memmove_eq)
  note m = this [unfolded words_in_blk]
  show ?thesis unfolding upd_phys_sel blk_address(1,2) [OF I d] blk_address(1) [OF I p] m using blk_address(4) [OF I d, of x] by auto
qed

text \<open>The three copies of \<open>as_copy\<close>.\<close>

definition copy_blks :: "addrspace \<Rightarrow> addrspace \<Rightarrow> vmas \<Rightarrow> vmas" where
  "copy_blks a n s =
     upd_phys (memmove (PADDR_TO_KVADDR (as_stackpbase n)) (PADDR_TO_KVADDR (as_stackpbase a)) (VM_STACKPAGES * PAGE_SIZE))
       (upd_phys (memmove (PADDR_TO_KVADDR (as_pbase2 n)) (PADDR_TO_KVADDR (as_pbase2 a)) (as_npages2 a * PAGE_SIZE mod 2 ^ 32))
         (upd_phys (memmove (PADDR_TO_KVADDR (as_pbase1 n)) (PADDR_TO_KVADDR (as_pbase1 a)) (as_npages1 a * PAGE_SIZE mod 2 ^ 32)) s))"

lemma copy_blks_phys:
  assumes I: "page_inv lo hi (vs_sys s) U" and l: "loaded a U" "loaded n U" "as_bases a \<inter> as_bases n = {}" and e: "as_npages1 n = as_npages1 a" "as_npages2 n = as_npages2 a"
  shows "\<not> in_as n x \<Longrightarrow> phys (copy_blks a n s) x = phys s x"
    "x mod 4 = 0 \<Longrightarrow> in_blk (as_pbase1 n) (as_npages1 a) x \<Longrightarrow> phys (copy_blks a n s) x = phys s (MIPS_KSEG0 + as_pbase1 a + (x - (MIPS_KSEG0 + as_pbase1 n)))"
    "x mod 4 = 0 \<Longrightarrow> in_blk (as_pbase2 n) (as_npages2 a) x \<Longrightarrow> phys (copy_blks a n s) x = phys s (MIPS_KSEG0 + as_pbase2 a + (x - (MIPS_KSEG0 + as_pbase2 n)))"
    "x mod 4 = 0 \<Longrightarrow> in_blk (as_stackpbase n) 12 x \<Longrightarrow> phys (copy_blks a n s) x = phys s (MIPS_KSEG0 + as_stackpbase a + (x - (MIPS_KSEG0 + as_stackpbase n)))"
proof -
  define s1 where "s1 = upd_phys (memmove (PADDR_TO_KVADDR (as_pbase1 n)) (PADDR_TO_KVADDR (as_pbase1 a)) (as_npages1 a * PAGE_SIZE mod 2 ^ 32)) s"
  define s2 where "s2 = upd_phys (memmove (PADDR_TO_KVADDR (as_pbase2 n)) (PADDR_TO_KVADDR (as_pbase2 a)) (as_npages2 a * PAGE_SIZE mod 2 ^ 32)) s1"
  have U: "U (as_pbase1 n) = Some (as_npages1 a)" "U (as_pbase2 n) = Some (as_npages2 a)" "U (as_stackpbase n) = Some 12"
    "U (as_pbase1 a) = Some (as_npages1 a)" "U (as_pbase2 a) = Some (as_npages2 a)" "U (as_stackpbase a) = Some 12" using l e by (auto simp: loaded_def)
  have ne: "as_pbase1 n \<noteq> as_pbase1 a" "as_pbase2 n \<noteq> as_pbase2 a" "as_stackpbase n \<noteq> as_stackpbase a" "as_pbase1 n \<noteq> as_pbase2 n" "as_pbase1 n \<noteq> as_stackpbase n" "as_pbase2 n \<noteq> as_stackpbase n"
    using l by (auto simp: loaded_def as_bases_def)
  have I1: "page_inv lo hi (vs_sys s1) U" "page_inv lo hi (vs_sys s2) U" using I by (simp_all add: s1_def s2_def)
  have st: "VM_STACKPAGES * PAGE_SIZE = 12 * PAGE_SIZE mod 2 ^ 32" by (simp add: VM_STACKPAGES_def)
  note m1 = move_blk [OF I U(1,4) ne(1), folded s1_def] and m2 = move_blk [OF I1(1) U(2,5) ne(2), folded s2_def]
  note m3 = move_blk [OF I1(2) U(3,6) ne(3), folded st]
  have c: "copy_blks a n s = upd_phys (memmove (PADDR_TO_KVADDR (as_stackpbase n)) (PADDR_TO_KVADDR (as_stackpbase a)) (VM_STACKPAGES * PAGE_SIZE)) s2"
    by (simp add: copy_blks_def s1_def s2_def)
  have out1: "phys s1 z = phys s z" if "\<not> in_as n z" for z using m1 [of z] that e by (simp add: in_as_def)
  have out2: "phys s2 z = phys s z" if "\<not> in_as n z" for z using m2 [of z] out1 [OF that] that e by (simp add: in_as_def)
  show "\<not> in_as n x \<Longrightarrow> phys (copy_blks a n s) x = phys s x" unfolding c m3 using out2 [of x] by (simp add: in_as_def)
  have old: "\<not> in_as n z" if "in_as a z" for z by (rule as_apart [OF I l that])
  note ap = blks_apart [OF I]
  assume x: "x mod 4 = 0"
  show "phys (copy_blks a n s) x = phys s (MIPS_KSEG0 + as_pbase1 a + (x - (MIPS_KSEG0 + as_pbase1 n)))" if "in_blk (as_pbase1 n) (as_npages1 a) x"
  proof -
    have "\<not> in_blk (as_pbase2 n) (as_npages2 a) x" "\<not> in_blk (as_stackpbase n) 12 x" using ap [OF U(1) U(2) ne(4) that] ap [OF U(1) U(3) ne(5) that] by auto
    then show ?thesis unfolding c m3 m2 m1 using that x by simp
  qed
  show "phys (copy_blks a n s) x = phys s (MIPS_KSEG0 + as_pbase2 a + (x - (MIPS_KSEG0 + as_pbase2 n)))" if "in_blk (as_pbase2 n) (as_npages2 a) x"
  proof -
    have "\<not> in_blk (as_stackpbase n) 12 x" using ap [OF U(2) U(3) ne(6) that] .
    moreover have "in_as a (MIPS_KSEG0 + as_pbase2 a + (x - (MIPS_KSEG0 + as_pbase2 n)))" using that by (auto simp: in_as_def in_blk_def)
    ultimately show ?thesis unfolding c m3 m2 using that x out1 [OF old] by simp
  qed
  show "phys (copy_blks a n s) x = phys s (MIPS_KSEG0 + as_stackpbase a + (x - (MIPS_KSEG0 + as_stackpbase n)))" if "in_blk (as_stackpbase n) 12 x"
  proof -
    have "in_as a (MIPS_KSEG0 + as_stackpbase a + (x - (MIPS_KSEG0 + as_stackpbase n)))" using that by (auto simp: in_as_def in_blk_def)
    then show ?thesis unfolding c m3 using that x out2 [OF old] by simp
  qed
qed

lemma dvd4: "x mod 4096 = 0 \<Longrightarrow> (x :: nat) mod 4 = 0"
  using dvd_trans [of 4 4096 x] by (simp add: dvd_eq_mod_eq_0)

lemma copied_view:
  assumes I: "page_inv lo hi (vs_sys s) U" and l: "loaded a U" "loaded n U" "as_bases a \<inter> as_bases n = {}"
    and n: "n = a\<lparr>as_pbase1 := pa, as_pbase2 := pb, as_stackpbase := pc\<rparr>" and sh: "as_shape a" and va: "va mod 4 = 0"
  shows "user_word (copy_blks a n s) n va = user_word s a va"
proof -
  note c = copy_blks_phys(2-4) [OF I l]
  have U: "U pa = Some (as_npages1 a)" "U pb = Some (as_npages2 a)" "U pc = Some 12" using l(2) n by (simp_all add: loaded_def)
  have al: "(MIPS_KSEG0 + p + (va - v)) mod 4 = 0" if "U p = Some k" "v mod 4096 = 0" "v \<le> va" for p k v
  proof -
    have "4 dvd MIPS_KSEG0 + p" "4 dvd v" "4 dvd va" using blk_address(3) [OF I that(1)] dvd4 [OF that(2)] va by (simp_all add: dvd_eq_mod_eq_0)
    then show ?thesis by (metis dvd_add dvd_diff_nat dvd_eq_mod_eq_0)
  qed
  have st: "(USERSTACK - 12 * 4096) mod 4096 = 0" by (simp add: USERSTACK_def)
  have sh: "as_vbase1 a mod 4096 = 0" "as_vbase2 a mod 4096 = 0" using sh by (simp_all add: as_shape_def)
  consider (one) "as_vbase1 a \<le> va" "va < as_vbase1 a + as_npages1 a * 4096"
    | (two) "\<not> (as_vbase1 a \<le> va \<and> va < as_vbase1 a + as_npages1 a * 4096)" "as_vbase2 a \<le> va" "va < as_vbase2 a + as_npages2 a * 4096"
    | (stack) "\<not> (as_vbase1 a \<le> va \<and> va < as_vbase1 a + as_npages1 a * 4096)" "\<not> (as_vbase2 a \<le> va \<and> va < as_vbase2 a + as_npages2 a * 4096)"
        "USERSTACK - 12 * 4096 \<le> va" "va < USERSTACK"
    | (none) "\<not> (as_vbase1 a \<le> va \<and> va < as_vbase1 a + as_npages1 a * 4096)" "\<not> (as_vbase2 a \<le> va \<and> va < as_vbase2 a + as_npages2 a * 4096)"
        "\<not> (USERSTACK - 12 * 4096 \<le> va \<and> va < USERSTACK)" by blast
  then show ?thesis
  proof cases
    case one
    have "in_blk pa (as_npages1 a) (MIPS_KSEG0 + pa + (va - as_vbase1 a))" using one by (auto simp: in_blk_def)
    then show ?thesis using c(1) [of "MIPS_KSEG0 + pa + (va - as_vbase1 a)"] al [OF U(1) sh(1)] one by (simp add: user_word_def translate_def n add.assoc)
  next
    case two
    have "in_blk pb (as_npages2 a) (MIPS_KSEG0 + pb + (va - as_vbase2 a))" using two by (auto simp: in_blk_def)
    then show ?thesis using c(2) [of "MIPS_KSEG0 + pb + (va - as_vbase2 a)"] al [OF U(2) sh(2)] two by (auto simp: user_word_def translate_def n add.assoc)
  next
    case stack
    have "in_blk pc 12 (MIPS_KSEG0 + pc + (va - (USERSTACK - 12 * 4096)))" using stack by (auto simp: in_blk_def USERSTACK_def)
    then show ?thesis using c(3) [of "MIPS_KSEG0 + pc + (va - (USERSTACK - 12 * 4096))"] al [OF U(3) st] stack by (auto simp: user_word_def translate_def n add.assoc)
  next
    case none
    then have "translate n va = None" "translate a va = None" unfolding translate_def n by simp_all
    then show ?thesis by (simp add: user_word_def)
  qed
qed

text \<open>A copy succeeds with an address space of its own that shows the same contents, or fails and leaves everything as it was.\<close>

lemma as_copy_spec:
  assumes V: "as_inv lo hi s U" and old: "vs_as s old = Some a" "loaded a U" and p: "p \<noteq> 0" "vs_as s p = None" and b: "3 \<le> spare (vs_sys s)"
  shows "(\<exists>s' U' n. as_copy p old s = Ok p s' \<and> as_inv lo hi s' U' \<and> vs_as s' = (vs_as s)(p \<mapsto> n) \<and> loaded n U' \<and> U' |` (- as_bases n) = U \<and>
      (\<forall>va. va mod 4 = 0 \<longrightarrow> user_word s' n va = user_word s a va) \<and>
      (\<forall>q c va. vs_as s q = Some c \<longrightarrow> loaded c U \<longrightarrow> loaded c U' \<and> user_word s' c va = user_word s c va) \<and> spare (vs_sys s) \<le> spare (vs_sys s') + 3) \<or>
    (\<exists>s'. as_copy p old s = Err ENOMEM s' \<and> as_inv lo hi s' U \<and> vs_as s' = vs_as s \<and> phys s' = phys s)"
proof -
  note v = as_invD [OF V]
  define n0 where "n0 = \<lparr>as_vbase1 = as_vbase1 a, as_pbase1 = 0, as_npages1 = as_npages1 a, as_vbase2 = as_vbase2 a, as_pbase2 = 0, as_npages2 = as_npages2 a, as_stackpbase = 0\<rparr>"
  define s0 where "s0 = s\<lparr>vs_as := (vs_as s)(p \<mapsto> n0)\<rparr>"
  have s0: "page_inv lo hi (vs_sys s0) U" "vs_as s0 p = Some n0" "as_pbase1 n0 = 0" "as_pbase2 n0 = 0" "as_stackpbase n0 = 0" "3 \<le> spare (vs_sys s0)"
    using v(1) b by (simp_all add: s0_def n0_def)
  have op: "old \<noteq> p" using old p by auto
  have c: "as_copy p old s = (case as_prepare_load p s0 of
            Err e s \<Rightarrow> kbind (as_destroy p s) (\<lambda>_ s. Err ENOMEM s)
          | Panic \<Rightarrow> Panic
          | Ok _ s \<Rightarrow> as_get p s (\<lambda>n. kassert (as_pbase1 n \<noteq> 0) (kassert (as_pbase2 n \<noteq> 0) (kassert (as_stackpbase n \<noteq> 0) (Ok p (copy_blks a n s))))))"
    using op old p by (simp add: as_copy_def as_create_def as_get_def as_upd_def s0_def n0_def copy_blks_def Let_def split: out.split option.split)
  from as_prepare_load_spec [OF s0] show ?thesis
  proof (elim disjE exE conjE)
    fix s1 U' n
    assume pl: "as_prepare_load p s0 = Ok () s1" and "prepared lo hi s0 U p n0 s1 U' n"
    then have P: "page_inv lo hi (vs_sys s1) U'" "vs_as s1 = (vs_as s)(p \<mapsto> n)" "loaded n U'" "as_bases n \<inter> dom U = {}" "U' |` (- as_bases n) = U"
      "\<And>x. \<not> in_as n x \<Longrightarrow> phys s1 x = phys s x" "spare (vs_sys s) \<le> spare (vs_sys s1) + 3"
      and "\<exists>pa pb pc. n = n0\<lparr>as_pbase1 := pa, as_pbase2 := pb, as_stackpbase := pc\<rparr>" by (auto simp: prepared_def s0_def)
    then obtain pa pb pc where "n = n0\<lparr>as_pbase1 := pa, as_pbase2 := pb, as_stackpbase := pc\<rparr>" by blast
    then have n: "n = a\<lparr>as_pbase1 := pa, as_pbase2 := pb, as_stackpbase := pc\<rparr>" by (simp add: n0_def)
    have nz: "as_pbase1 n \<noteq> 0" "as_pbase2 n \<noteq> 0" "as_stackpbase n \<noteq> 0" using P(3) page_inv_bound(2) [OF P(1)] by (fastforce simp: loaded_def)+
    have cp: "as_copy p old s = Ok p (copy_blks a n s1)" using pl P(2) nz by (simp add: c as_get_def)
    have up: "U' x = Some k" if "U x = Some k" for x k using P(5) that by (metis option.distinct(1) restrict_in restrict_out)
    have ld: "loaded d U'" if "loaded d U" for d using that up by (simp add: loaded_def)
    have ap: "as_bases d \<inter> as_bases n = {}" if "loaded d U" for d using that P(4) by (auto simp: loaded_def as_bases_def)
    have keep: "phys (copy_blks a n s1) x = phys s x" if "\<not> in_as n x" for x
      using copy_blks_phys(1) [OF P(1) ld [OF old(2)] P(3) ap [OF old(2)]] P(6) that n by simp
    have sh: "as_shape a" using v(3) [OF old(1)] by simp
    have sees: "user_word (copy_blks a n s1) d va = user_word s d va" if "loaded d U" for d va
    proof (cases "translate d va")
      case (Some q)
      then have "\<not> in_as n (MIPS_KSEG0 + q)" using as_apart [OF P(1) ld [OF that] P(3) ap [OF that] translate_in] by blast
      then show ?thesis using Some keep by (simp add: user_word_def)
    qed (simp add: user_word_def)
    have s1a: "user_word s1 a va = user_word s a va" for va
    proof (cases "translate a va")
      case (Some q)
      then have "\<not> in_as n (MIPS_KSEG0 + q)" using as_apart [OF P(1) ld [OF old(2)] P(3) ap [OF old(2)] translate_in] by blast
      then show ?thesis using Some P(6) by (simp add: user_word_def)
    qed (simp add: user_word_def)
    have "user_word (copy_blks a n s1) n va = user_word s a va" if "va mod 4 = 0" for va
      using copied_view [OF P(1) ld [OF old(2)] P(3) ap [OF old(2)] n sh that] s1a by simp
    moreover have "as_inv lo hi (copy_blks a n s1) U'"
    proof -
      have vs: "vs_as (copy_blks a n s1) = (vs_as s)(p \<mapsto> n)" "page_inv lo hi (vs_sys (copy_blks a n s1)) U'" using P(1,2) by (simp_all add: copy_blks_def)
      have "as_shape n" using sh n by (simp add: as_shape_def)
      moreover have "as_bases d \<inter> as_bases n \<subseteq> {0}" if "vs_as s q = Some d" for q d using v(3) [OF that] ap [of d] by auto
      moreover have "as_shape d \<and> (as_bases d = {0} \<or> loaded d U')" if "vs_as s q = Some d" for q d using v(3) [OF that] ld by blast
      ultimately show ?thesis unfolding as_inv_def vs(1) using vs(2) v(2,4) p P(3) by (auto simp: Int_commute split: if_splits)
    qed
    ultimately show ?thesis using cp P(2,3,5,7) ld sees
      by (intro disjI1 exI [of _ "copy_blks a n s1"] exI [of _ U'] exI [of _ n]) (simp add: copy_blks_def)
  next
    fix s1
    assume pl: "as_prepare_load p s0 = Err ENOMEM s1" and "unprepared lo hi s0 U p s1"
    then obtain U' n where P: "page_inv lo hi (vs_sys s1) U'" "vs_as s1 = (vs_as s)(p \<mapsto> n)" "owns n U'" "U' |` (- as_bases n) = U" "phys s1 = phys s"
      by (auto simp: unprepared_def s0_def)
    obtain y where y: "as_destroy p s1 = Ok () (s1\<lparr>vs_sys := y, vs_as := (vs_as s1)(p := None)\<rparr>)" "page_inv lo hi y (U' |` (- as_bases n))" "vm_ram y = vm_ram (vs_sys s1)"
      using as_destroy_spec [OF P(1) _ P(3), of p] P(2) by auto
    define s2 where "s2 = s1\<lparr>vs_sys := y, vs_as := (vs_as s1)(p := None)\<rparr>"
    have "(vs_as s1)(p := None) = vs_as s" using P(2) p(2) by auto
    then have vs: "vs_as s2 = vs_as s" by (simp add: s2_def)
    then have "as_inv lo hi s2 U" unfolding as_inv_def vs using y(2) P(4) v(2-4) by (auto simp: s2_def)
    moreover have "phys s2 = phys s" using y(3) P(5) by (simp add: s2_def)
    ultimately show ?thesis using pl y(1) vs by (intro disjI2 exI [of _ s2]) (simp add: c s2_def)
  qed
qed

end
