(* ===== verification/AddrSpaceRun.thy ===== *)
theory AddrSpaceRun
  imports AddrSpaceInv
begin

text \<open>
  A process and its address space: what it reaches through the TLB that \<open>vm_fault\<close> fills, how its address space is set up, and the
  properties of address spaces: a copy is exact and separate, nothing is lost when memory runs out, and the TLB shows exactly the
  address space.
\<close>

section \<open>The TLB\<close>

definition valid :: "nat \<times> nat \<Rightarrow> bool" where
  "valid e \<longleftrightarrow> snd e AND TLBLO_VALID \<noteq> 0"

text \<open>What the processor does with a user address: it uses a matching entry of the TLB, and without one the kernel handles the fault
  and the access is tried again.\<close>

definition tlb_lookup :: "vmas \<Rightarrow> nat \<Rightarrow> nat option" where
  "tlb_lookup s va =
     (case List.find (\<lambda>e. valid e \<and> fst e = va AND PAGE_FRAME) (vs_tlb s) of
        None \<Rightarrow> None
      | Some e \<Rightarrow> Some ((snd e AND PAGE_FRAME) + va mod 4096))"

definition user_access :: "nat \<Rightarrow> vmas \<Rightarrow> (nat, vmas) out" where
  "user_access va s =
     (case tlb_lookup s va of
        Some pa \<Rightarrow> Ok pa s
      | None \<Rightarrow> kbind (vm_fault VM_FAULT_READ va s) (\<lambda>_ s. case tlb_lookup s va of Some pa \<Rightarrow> Ok pa s | None \<Rightarrow> Panic))"

text \<open>A process goes on after an access that failed.\<close>

fun touch_all :: "nat list \<Rightarrow> vmas \<Rightarrow> (nat option list, vmas) out" where
  "touch_all [] s = Ok [] s"
| "touch_all (va # vas) s =
     (case user_access va s of
        Ok pa s \<Rightarrow> kbind (touch_all vas s) (\<lambda>r s. Ok (Some pa # r) s)
      | Err e s \<Rightarrow> kbind (touch_all vas s) (\<lambda>r s. Ok (None # r) s)
      | Panic \<Rightarrow> Panic)"

definition as_wf :: "addrspace \<Rightarrow> bool" where
  "as_wf a \<longleftrightarrow> as_shape a \<and> as_vbase1 a \<noteq> 0 \<and> as_vbase2 a \<noteq> 0 \<and> as_vbase1 a + as_npages1 a * 4096 \<le> USERSTACK \<and> as_vbase2 a + as_npages2 a * 4096 \<le> USERSTACK"

definition slots_of :: "vmas \<Rightarrow> nat set" where
  "slots_of s = {i. i < 64 \<and> valid (vs_tlb s ! i)}"

text \<open>The TLB holds the translations of the pages \<open>P\<close> of address space \<open>a\<close>, each once, and nothing else.\<close>

definition tlb_has :: "vmas \<Rightarrow> addrspace \<Rightarrow> nat set \<Rightarrow> bool" where
  "tlb_has s a P \<longleftrightarrow> length (vs_tlb s) = 64 \<and> inj_on (\<lambda>i. fst (vs_tlb s ! i)) (slots_of s) \<and> P = (\<lambda>i. fst (vs_tlb s ! i)) ` slots_of s \<and>
     (\<forall>i \<in> slots_of s. fst (vs_tlb s ! i) mod 4096 = 0 \<and> translate a (fst (vs_tlb s ! i)) = Some (snd (vs_tlb s ! i) AND PAGE_FRAME))"

lemma entry_bits:
  assumes "p mod 4096 = 0" "p < 2 ^ 32"
  shows "valid (v, p OR TLBLO_DIRTY OR TLBLO_VALID)" "(p OR TLBLO_DIRTY OR TLBLO_VALID) AND PAGE_FRAME = p"
proof -
  have d: "(x OR y) AND z = (x AND z) OR (y AND z)" for x y z :: nat by (rule bit_eqI) (auto simp: bit_simps)
  have "TLBLO_VALID AND TLBLO_VALID = TLBLO_VALID" "TLBLO_DIRTY AND TLBLO_VALID = 0" by (simp_all add: TLBLO_VALID_def TLBLO_DIRTY_def)
  then have "(p OR TLBLO_DIRTY OR TLBLO_VALID) AND TLBLO_VALID = (p AND TLBLO_VALID) OR TLBLO_VALID" by (simp add: d)
  then show "valid (v, p OR TLBLO_DIRTY OR TLBLO_VALID)" by (auto simp: valid_def TLBLO_VALID_def or_eq_0_iff)
  have "TLBLO_VALID AND PAGE_FRAME = 0" "TLBLO_DIRTY AND PAGE_FRAME = 0" by (simp_all add: TLBLO_VALID_def TLBLO_DIRTY_def PAGE_FRAME_def)
  then show "(p OR TLBLO_DIRTY OR TLBLO_VALID) AND PAGE_FRAME = p" using and_frame [OF assms(2)] assms(1) by (simp add: d)
qed

lemma tlb_loop_spec:
  "tlb_loop i f p s = (case List.find (\<lambda>j. \<not> valid (vs_tlb s ! j)) [i..<64] of None \<Rightarrow> Err EFAULT s
     | Some j \<Rightarrow> Ok () (tlb_write f (p OR TLBLO_DIRTY OR TLBLO_VALID) j s))"
proof (induction i f p s rule: tlb_loop.induct)
  case (1 i f p s)
  have n: "NUM_TLB = 64" by (simp add: NUM_TLB_def)
  show ?case
  proof (cases "i < 64")
    case True
    then show ?thesis using 1 by (subst tlb_loop.simps) (simp add: n upt_conv_Cons valid_def)
  next
    case False
    then show ?thesis by (subst tlb_loop.simps) (simp add: n)
  qed
qed

lemma translate_page:
  assumes "as_wf a"
  shows "translate a va = map_option (\<lambda>p. p + va mod 4096) (translate a (va - va mod 4096))"
proof -
  have le: "v \<le> va - va mod 4096 \<longleftrightarrow> v \<le> va" "va - va mod 4096 < w \<longleftrightarrow> va < w" if "v mod 4096 = 0" "w mod 4096 = 0" for v w :: nat
  proof -
    have "4096 dvd v" "4096 dvd w" using that by (simp_all add: dvd_eq_mod_eq_0)
    then obtain i j where v: "v = 4096 * i" "w = 4096 * j" by (elim dvdE)
    have "va - va mod 4096 = 4096 * (va div 4096)" by (simp add: minus_mod_eq_mult_div)
    moreover have "i \<le> va div 4096 \<longleftrightarrow> 4096 * i \<le> va" by (simp add: less_eq_div_iff_mult_less_eq mult.commute)
    moreover have "va div 4096 < j \<longleftrightarrow> va < 4096 * j" by (simp add: div_less_iff_less_mult mult.commute)
    ultimately show "v \<le> va - va mod 4096 \<longleftrightarrow> v \<le> va" "va - va mod 4096 < w \<longleftrightarrow> va < w" using v by simp_all
  qed
  have m: "as_vbase1 a mod 4096 = 0" "(as_vbase1 a + as_npages1 a * 4096) mod 4096 = 0" "as_vbase2 a mod 4096 = 0" "(as_vbase2 a + as_npages2 a * 4096) mod 4096 = 0"
    "(USERSTACK - 12 * 4096) mod 4096 = 0" "USERSTACK mod 4096 = 0" using assms by (simp_all add: as_wf_def as_shape_def USERSTACK_def)
  have s: "p + (va - va mod 4096 - v) + va mod 4096 = p + (va - v)" if "v \<le> va - va mod 4096" for p v :: nat
    using that mod_less_eq_dividend [of va 4096] by linarith
  define vb where "vb = va - va mod 4096"
  note le = le [folded vb_def] and s = s [folded vb_def]
  have "map_option (\<lambda>p. p + va mod 4096) (translate a vb) = translate a va"
    unfolding translate_def if_distrib [of "map_option _"] option.map
    by (intro if_cong) (simp_all only: le [OF m(1,2)] le [OF m(3,4)] le [OF m(5,6)] s)
  then show ?thesis by (simp add: vb_def)
qed

lemma translate_bound:
  assumes "page_inv lo hi y U" "loaded a U" "translate a va = Some p"
  shows "p < 2 ^ 32"
proof -
  have "q + n * 4096 \<le> 508 * 1024 * 1024" if "U q = Some n" for q n using page_inv_bound(4) [OF assms(1) that] .
  then show ?thesis using translate_in [OF assms(3)] assms(2) by (fastforce simp: in_as_def in_blk_def loaded_def)
qed

lemma translate_aligned:
  assumes "page_inv lo hi y U" "loaded a U" "as_wf a" "translate a va = Some p" "va mod 4096 = 0"
  shows "p mod 4096 = 0"
proof -
  have b: "4096 dvd q" if "U q = Some n" for q n using page_inv_bound(1) [OF assms(1) that] by (simp add: dvd_eq_mod_eq_0)
  have v: "4096 dvd as_vbase1 a" "4096 dvd as_vbase2 a" "4096 dvd va" "4096 dvd USERSTACK - 12 * 4096"
    using assms(3,5) by (simp_all add: as_wf_def as_shape_def dvd_eq_mod_eq_0 USERSTACK_def)
  have d: "4096 dvd q + (va - w)" if "U q = Some n" "4096 dvd w" for q w n using b [OF that(1)] that(2) v(3) by (intro dvd_add dvd_diff_nat)
  have "\<exists>q n w. U q = Some n \<and> 4096 dvd w \<and> p = q + (va - w)" using assms(2,4) v unfolding translate_def loaded_def
    by (metis (no_types, lifting) option.distinct(1) option.inject)
  then have "4096 dvd p" using d by blast
  then show ?thesis by simp
qed

lemma translate_word:
  assumes "page_inv lo hi y U" "loaded a U" "as_wf a" "translate a va = Some q" "va mod 4 = 0"
  shows "(MIPS_KSEG0 + q) mod 4 = 0"
proof -
  have t: "translate a (va - va mod 4096) = Some (q - va mod 4096)" "va mod 4096 \<le> q"
    using translate_page [OF assms(3), of va] assms(4) by (cases "translate a (va - va mod 4096)"; simp)+
  have "(q - va mod 4096) mod 4096 = 0" using translate_aligned [OF assms(1-3) t(1)] by (simp add: minus_mod_eq_mult_div)
  then have "4 dvd q - va mod 4096" using dvd4 by (simp add: dvd_eq_mod_eq_0)
  moreover have "4 dvd va mod 4096" using assms(5) mod_mod_cancel [of 4 4096 va] by (simp add: dvd_eq_mod_eq_0)
  ultimately have "4 dvd q" using t(2) by (metis dvd_add le_add_diff_inverse2)
  then have "4 dvd MIPS_KSEG0 + q" by (simp add: MIPS_KSEG0_def)
  then show ?thesis by simp
qed

lemma fault_paddr_eq:
  assumes I: "page_inv lo hi y U" and l: "loaded a U" and w: "as_wf a"
  shows "fault_paddr a va = translate a va"
proof -
  have u: "as_vbase1 a + as_npages1 a * 4096 \<le> 2147483648" "as_vbase2 a + as_npages2 a * 4096 \<le> 2147483648" using w by (simp_all add: as_wf_def USERSTACK_def)
  have t: "wadd32 (as_vbase1 a) (as_npages1 a * PAGE_SIZE mod 2 ^ 32) = as_vbase1 a + as_npages1 a * 4096"
    "wadd32 (as_vbase2 a) (as_npages2 a * PAGE_SIZE mod 2 ^ 32) = as_vbase2 a + as_npages2 a * 4096"
    using u by (simp_all)
  have p: "wadd32 x q = q + x" if "U q = Some n" "x < n * 4096" for x q n using page_inv_bound(4) [OF I that(1)] that(2) by (simp add: add.commute)
  note p1 = p [of "as_pbase1 a" "as_npages1 a"] and p2 = p [of "as_pbase2 a" "as_npages2 a"] and p3 = p [of "as_stackpbase a" 12]
  show ?thesis unfolding fault_paddr_def translate_def Let_def t using l p1 p2 p3 by (auto simp: loaded_def USERSTACK_def VM_STACKPAGES_def)
qed

lemma vm_fault_eq:
  assumes I: "page_inv lo hi (vs_sys s) U" and c: "vs_cur s \<noteq> 0" "vs_as s (vs_cur s) = Some a" and l: "loaded a U" and w: "as_wf a" and va: "va < 2 ^ 32"
  shows "vm_fault VM_FAULT_READ va s = (case translate a (va - va mod 4096) of None \<Rightarrow> Err EFAULT s | Some p \<Rightarrow> tlb_loop 0 (va - va mod 4096) p s)"
proof -
  have f: "x AND PAGE_FRAME = x" if "x mod 4096 = 0" "x < 2 ^ 32" for x using and_frame [OF that(2)] that(1) by simp
  have b: "0 < q" "0 < n" "q AND PAGE_FRAME = q" if "U q = Some n" for q n
    using page_inv_bound [OF I that] by (auto intro!: f)
  have v: "as_vbase1 a AND PAGE_FRAME = as_vbase1 a" "as_vbase2 a AND PAGE_FRAME = as_vbase2 a" "as_vbase1 a \<noteq> 0" "as_vbase2 a \<noteq> 0"
    using w by (auto simp: as_wf_def as_shape_def USERSTACK_def intro!: f)
  have q: "p AND PAGE_FRAME = p" if "translate a (va - va mod 4096) = Some p" for p
    using translate_bound [OF I l that] translate_aligned [OF I l w that] f by (simp add: minus_mod_eq_mult_div)
  have n: "as_npages1 a \<noteq> 0" "as_npages2 a \<noteq> 0" "as_pbase1 a \<noteq> 0" "as_pbase2 a \<noteq> 0" "as_stackpbase a \<noteq> 0" using b l by (fastforce simp: loaded_def)+
  have g: "as_pbase1 a AND PAGE_FRAME = as_pbase1 a" "as_pbase2 a AND PAGE_FRAME = as_pbase2 a" "as_stackpbase a AND PAGE_FRAME = as_stackpbase a"
    using b(3) l by (simp_all add: loaded_def)
  show ?thesis using c v n g q by (simp add: vm_fault_def as_get_def and_frame [OF va] fault_paddr_eq [OF I l w] split: option.split)
qed

lemma slots_bound: "finite (slots_of s)" "slots_of s \<subseteq> {..<64}"
  by (auto simp: slots_of_def)

lemma tlb_hasD:
  assumes "tlb_has s a P"
  shows "length (vs_tlb s) = 64" "card P = card (slots_of s)" "finite P" "q \<in> P \<Longrightarrow> q mod 4096 = 0 \<and> translate a q \<noteq> None"
  using assms slots_bound(1) [of s] by (auto simp: tlb_has_def card_image)

text \<open>The lookup of a page in the TLB.\<close>

lemma tlb_lookup_eq:
  assumes h: "tlb_has s a P" and w: "as_wf a" and va: "va < 2 ^ 32"
  shows "tlb_lookup s va = (if va - va mod 4096 \<in> P then translate a va else None)"
proof (cases "List.find (\<lambda>e. valid e \<and> fst e = va AND PAGE_FRAME) (vs_tlb s)")
  case None
  then have "\<not> (valid (vs_tlb s ! i) \<and> fst (vs_tlb s ! i) = va - va mod 4096)" if "i < 64" for i
    using that tlb_hasD(1) [OF h] and_frame [OF va] nth_mem [of i "vs_tlb s"] unfolding find_None_iff by metis
  note none = this
  have "P = (\<lambda>i. fst (vs_tlb s ! i)) ` slots_of s" using h by (simp add: tlb_has_def)
  then have "va - va mod 4096 \<notin> P" using none by (fastforce simp: slots_of_def)
  then show ?thesis using None by (simp add: tlb_lookup_def)
next
  case (Some e)
  then obtain i where i: "i < 64" "e = vs_tlb s ! i" "valid e" "fst e = va - va mod 4096"
    using tlb_hasD(1) [OF h] and_frame [OF va] by (auto simp: find_Some_iff)
  then have "i \<in> slots_of s" by (simp add: slots_of_def)
  then have "va - va mod 4096 \<in> P" "translate a (va - va mod 4096) = Some (snd e AND PAGE_FRAME)" using h i unfolding tlb_has_def by (metis image_eqI)+
  then show ?thesis using Some translate_page [OF w, of va] by (simp add: tlb_lookup_def)
qed

lemma free_slot:
  assumes h: "tlb_has s a P"
  shows "(List.find (\<lambda>j. \<not> valid (vs_tlb s ! j)) [0..<64] = None) \<longleftrightarrow> card P = 64"
proof
  assume "List.find (\<lambda>j. \<not> valid (vs_tlb s ! j)) [0..<64] = None"
  then have "slots_of s = {..<64}" by (auto simp: find_None_iff slots_of_def)
  then show "card P = 64" using tlb_hasD(2) [OF h] by simp
next
  assume "card P = 64"
  then have "slots_of s = {..<64}" using tlb_hasD(2) [OF h] slots_bound(2) [of s] by (intro card_subset_eq) simp_all
  then show "List.find (\<lambda>j. \<not> valid (vs_tlb s ! j)) [0..<64] = None" by (auto simp: find_None_iff slots_of_def)
qed

text \<open>Writing a free entry adds one page.\<close>

lemma tlb_has_insert:
  assumes h: "tlb_has s a P" and j: "j < 64" "\<not> valid (vs_tlb s ! j)" and q: "q \<notin> P" "q mod 4096 = 0" and e: "valid (q, e)" "translate a q = Some (e AND PAGE_FRAME)"
  shows "tlb_has (tlb_write q e j s) a (insert q P)"
proof -
  let ?t = "tlb_write q e j s"
  have n: "vs_tlb ?t ! i = (if i = j then (q, e) else vs_tlb s ! i)" for i using j(1) tlb_hasD(1) [OF h] by (simp add: tlb_write_def nth_list_update)
  have sl: "slots_of ?t = insert j (slots_of s)" "j \<notin> slots_of s" using j e(1) by (auto simp: slots_of_def n)
  have p: "P = (\<lambda>i. fst (vs_tlb s ! i)) ` slots_of s" using h by (simp add: tlb_has_def)
  have im: "fst (vs_tlb ?t ! i) = fst (vs_tlb s ! i)" "snd (vs_tlb ?t ! i) = snd (vs_tlb s ! i)" if "i \<in> slots_of s" for i using that sl(2) by (auto simp: n)
  have "inj_on (\<lambda>i. fst (vs_tlb ?t ! i)) (slots_of s)" using h im(1) unfolding tlb_has_def by (metis (mono_tags, lifting) inj_on_cong)
  moreover have "(\<lambda>i. fst (vs_tlb ?t ! i)) ` slots_of s = P" unfolding p using im(1) by (rule image_cong [OF refl])
  moreover have "length (vs_tlb ?t) = 64" using tlb_hasD(1) [OF h] by (simp add: tlb_write_def)
  moreover have "fst (vs_tlb ?t ! i) mod 4096 = 0 \<and> translate a (fst (vs_tlb ?t ! i)) = Some (snd (vs_tlb ?t ! i) AND PAGE_FRAME)" if "i \<in> slots_of ?t" for i
    using that h e(2) q(2) im unfolding sl(1) by (cases "i = j") (auto simp: n tlb_has_def)
  ultimately show ?thesis unfolding tlb_has_def sl(1) using q(1) sl(2) by (auto simp: n)
qed

text \<open>The address space of the current thread is complete.\<close>

definition running :: "nat \<Rightarrow> nat \<Rightarrow> vmas \<Rightarrow> (nat \<Rightarrow> nat option) \<Rightarrow> addrspace \<Rightarrow> bool" where
  "running lo hi s U a \<longleftrightarrow> page_inv lo hi (vs_sys s) U \<and> vs_cur s \<noteq> 0 \<and> vs_as s (vs_cur s) = Some a \<and> loaded a U \<and> as_wf a"

lemma running_tlb: "running lo hi (s\<lparr>vs_tlb := t\<rparr>) U a = running lo hi s U a"
  by (simp add: running_def)

lemma access_spec:
  assumes r: "running lo hi s U a" and h: "tlb_has s a P" and va: "va < 2 ^ 32"
  shows "translate a va = None \<Longrightarrow> user_access va s = Err EFAULT s"
    "va - va mod 4096 \<in> P \<Longrightarrow> translate a va = Some pa \<Longrightarrow> user_access va s = Ok pa s"
    "va - va mod 4096 \<notin> P \<Longrightarrow> translate a va = Some pa \<Longrightarrow> card P = 64 \<Longrightarrow> user_access va s = Err EFAULT s"
    "va - va mod 4096 \<notin> P \<Longrightarrow> translate a va = Some pa \<Longrightarrow> card P < 64 \<Longrightarrow>
       \<exists>t. user_access va s = Ok pa (s\<lparr>vs_tlb := t\<rparr>) \<and> tlb_has (s\<lparr>vs_tlb := t\<rparr>) a (insert (va - va mod 4096) P)"
proof -
  have R: "page_inv lo hi (vs_sys s) U" "vs_cur s \<noteq> 0" "vs_as s (vs_cur s) = Some a" "loaded a U" "as_wf a" using r by (simp_all add: running_def)
  let ?q = "va - va mod 4096"
  note lk = tlb_lookup_eq [OF h R(5) va] and vf = vm_fault_eq [OF R va] and tp = translate_page [OF R(5), of va]
  show "user_access va s = Err EFAULT s" if "translate a va = None" using that lk vf tp by (simp add: user_access_def)
  show "user_access va s = Ok pa s" if "?q \<in> P" "translate a va = Some pa" using that lk by (simp add: user_access_def)
  show "user_access va s = Err EFAULT s" if "?q \<notin> P" "translate a va = Some pa" "card P = 64"
    using that lk vf tp free_slot [OF h] by (auto simp: user_access_def tlb_loop_spec)
  assume new: "?q \<notin> P" and pa: "translate a va = Some pa" and c: "card P < 64"
  obtain p where p: "translate a ?q = Some p" "pa = p + va mod 4096" using tp pa by (cases "translate a ?q") simp_all
  obtain j where j: "List.find (\<lambda>j. \<not> valid (vs_tlb s ! j)) [0..<64] = Some j" using free_slot [OF h] c by fastforce
  then have j': "j < 64" "\<not> valid (vs_tlb s ! j)" by (auto simp: find_Some_iff)
  have q: "?q mod 4096 = 0" by (simp add: minus_mod_eq_mult_div)
  note e = entry_bits [OF translate_aligned [OF R(1,4,5) p(1) q] translate_bound [OF R(1,4) p(1)]]
  let ?s = "tlb_write ?q (p OR TLBLO_DIRTY OR TLBLO_VALID) j s"
  have h': "tlb_has ?s a (insert ?q P)" by (rule tlb_has_insert [OF h j' new q e(1)]) (simp add: e(2) p(1))
  have f: "vm_fault VM_FAULT_READ va s = Ok () ?s" using vf p(1) j by (simp add: tlb_loop_spec)
  have "user_access va s = Ok pa ?s" using lk new f tlb_lookup_eq [OF h' R(5) va] pa by (simp add: user_access_def)
  then show "\<exists>t. user_access va s = Ok pa (s\<lparr>vs_tlb := t\<rparr>) \<and> tlb_has (s\<lparr>vs_tlb := t\<rparr>) a (insert ?q P)"
    using h' by (intro exI [of _ "vs_tlb ?s"]) (simp add: tlb_write_def)
qed

text \<open>The mapped pages among the addresses a process uses.\<close>

definition pages_of :: "addrspace \<Rightarrow> nat list \<Rightarrow> nat set" where
  "pages_of a vas = (\<lambda>va. va - va mod 4096) ` {va \<in> set vas. translate a va \<noteq> None}"

lemma touch_all_spec:
  assumes "running lo hi s U a" "tlb_has s a P" "\<forall>va \<in> set vas. va < 2 ^ 32" "card (P \<union> pages_of a vas) \<le> 64"
  shows "\<exists>t. touch_all vas s = Ok (map (translate a) vas) (s\<lparr>vs_tlb := t\<rparr>) \<and> tlb_has (s\<lparr>vs_tlb := t\<rparr>) a (P \<union> pages_of a vas)"
  using assms
proof (induction vas arbitrary: s P)
  case Nil
  then show ?case by (intro exI [of _ "vs_tlb s"]) (simp add: pages_of_def)
next
  case (Cons va vas)
  let ?q = "va - va mod 4096"
  have va: "va < 2 ^ 32" and vas: "\<forall>va \<in> set vas. va < 2 ^ 32" using Cons.prems(3) by auto
  note a = access_spec [OF Cons.prems(1,2) va]
  have fin: "finite (pages_of a l)" for l by (simp add: pages_of_def)
  show ?case
  proof (cases "translate a va")
    case None
    then have p: "pages_of a (va # vas) = pages_of a vas" by (auto simp: pages_of_def)
    show ?thesis using Cons.IH [OF Cons.prems(1,2) vas] Cons.prems(4) None a(1) unfolding p by auto
  next
    case (Some pa)
    then have p: "pages_of a (va # vas) = insert ?q (pages_of a vas)" by (auto simp: pages_of_def)
    have "\<exists>t. user_access va s = Ok pa (s\<lparr>vs_tlb := t\<rparr>) \<and> tlb_has (s\<lparr>vs_tlb := t\<rparr>) a (insert ?q P)"
    proof (cases "?q \<in> P")
      case True
      then show ?thesis using a(2) [OF True Some] Cons.prems(2) by (intro exI [of _ "vs_tlb s"]) (simp add: insert_absorb)
    next
      case False
      have "card (insert ?q P) \<le> card (P \<union> pages_of a (va # vas))" using tlb_hasD(3) [OF Cons.prems(2)] fin unfolding p by (intro card_mono) auto
      then have "card P < 64" using False Cons.prems(4) tlb_hasD(3) [OF Cons.prems(2)] by simp
      then show ?thesis by (rule a(4) [OF False Some])
    qed
    then obtain t where t: "user_access va s = Ok pa (s\<lparr>vs_tlb := t\<rparr>)" "tlb_has (s\<lparr>vs_tlb := t\<rparr>) a (insert ?q P)" by blast
    have u: "P \<union> pages_of a (va # vas) = insert ?q P \<union> pages_of a vas" by (simp add: p)
    obtain t' where "touch_all vas (s\<lparr>vs_tlb := t\<rparr>) = Ok (map (translate a) vas) (s\<lparr>vs_tlb := t'\<rparr>)" "tlb_has (s\<lparr>vs_tlb := t'\<rparr>) a (insert ?q P \<union> pages_of a vas)"
      using Cons.IH [OF _ t(2) vas] Cons.prems(1,4) unfolding u by (auto simp: running_tlb)
    then show ?thesis using t(1) Some unfolding u by (intro exI [of _ t']) simp
  qed
qed

lemma as_activate_tlb: "as_activate s = s\<lparr>vs_tlb := vs_tlb (as_activate s)\<rparr>"
proof -
  have "fold (\<lambda>i. tlb_write (TLBHI_INVALID i) 0 i) is s = s\<lparr>vs_tlb := vs_tlb (fold (\<lambda>i. tlb_write (TLBHI_INVALID i) 0 i) is s)\<rparr>" for "is"
    by (induction "is" arbitrary: s) (simp, metis (no_types, lifting) fold_simps(2) tlb_write_def vmas.surjective vmas.update_convs(4))
  then show ?thesis by (simp add: as_activate_def)
qed

lemma as_activate_empty:
  assumes "length (vs_tlb s) = 64"
  shows "tlb_has (as_activate s) a {}"
proof -
  have "vs_tlb (fold (\<lambda>i. tlb_write (TLBHI_INVALID i) 0 i) [0..<n] s) ! j = (if j < n then (TLBHI_INVALID j, 0) else vs_tlb s ! j) \<and>
      length (vs_tlb (fold (\<lambda>i. tlb_write (TLBHI_INVALID i) 0 i) [0..<n] s)) = 64" if "n \<le> 64" for n j
    using that by (induction n) (auto simp: assms tlb_write_def nth_list_update less_Suc_eq)
  from this [of 64] have "length (vs_tlb (as_activate s)) = 64" "\<And>j. j < 64 \<Longrightarrow> vs_tlb (as_activate s) ! j = (TLBHI_INVALID j, 0)"
    by (simp_all add: as_activate_def NUM_TLB_def)
  moreover from this have "slots_of (as_activate s) = {}" by (auto simp: slots_of_def valid_def)
  ultimately show ?thesis by (simp add: tlb_has_def)
qed

section \<open>Setting up an address space\<close>

text \<open>The calls of \<open>load_elf\<close> for a program of two segments, up to the point where the segments are read from the file.\<close>

definition as_setup :: "nat \<Rightarrow> nat \<Rightarrow> nat \<Rightarrow> nat \<Rightarrow> nat \<Rightarrow> vmas \<Rightarrow> (unit, vmas) out" where
  "as_setup p v1 n1 v2 n2 s =
     kbind (as_create p s) (\<lambda>_ s. kbind (as_define_region p v1 n1 s) (\<lambda>_ s. kbind (as_define_region p v2 n2 s) (\<lambda>_ s. as_prepare_load p s)))"

lemma region_pages:
  assumes "v + n \<le> USERSTACK" "0 < n"
  defines "k \<equiv> (v mod 4096 + n + 4095) div 4096"
  shows "wadd32 (wadd32 n (v AND (2 ^ 32 - 1 - PAGE_FRAME))) (PAGE_SIZE - 1) AND PAGE_FRAME = k * 4096" "v AND PAGE_FRAME = v - v mod 4096"
    "v + n \<le> v - v mod 4096 + k * 4096" "v - v mod 4096 + k * 4096 \<le> USERSTACK" "0 < k"
proof -
  have u: "v + n \<le> 2147483648" using assms(1) by (simp add: USERSTACK_def)
  then have v: "v < 2 ^ 32" by simp
  then show "v AND PAGE_FRAME = v - v mod 4096" by (rule and_frame)
  have "2 ^ 32 - 1 - PAGE_FRAME = (mask 12 :: nat)" by (simp add: PAGE_FRAME_def mask_eq_exp_minus_1)
  then have m: "v AND (2 ^ 32 - 1 - PAGE_FRAME) = v mod 4096" by (simp add: take_bit_eq_mask [symmetric] take_bit_eq_mod)
  have l: "v mod 4096 < 4096" "v mod 4096 \<le> v" by simp_all
  have s: "n + v mod 4096 + 4095 < 2 ^ 32" using u l by simp
  have "wadd32 (wadd32 n (v mod 4096)) (PAGE_SIZE - 1) = n + v mod 4096 + 4095" using s by simp
  then have "wadd32 (wadd32 n (v mod 4096)) (PAGE_SIZE - 1) AND PAGE_FRAME = n + v mod 4096 + 4095 - (n + v mod 4096 + 4095) mod 4096" using and_frame [OF s] by simp
  also have "\<dots> = k * 4096" unfolding k_def by (simp add: minus_mod_eq_div_mult add.commute add.left_commute)
  finally show "wadd32 (wadd32 n (v AND (2 ^ 32 - 1 - PAGE_FRAME))) (PAGE_SIZE - 1) AND PAGE_FRAME = k * 4096" unfolding m .
  have k: "k * 4096 \<le> v mod 4096 + n + 4095" "v mod 4096 + n \<le> k * 4096" unfolding k_def by linarith+
  then show "v + n \<le> v - v mod 4096 + k * 4096" "0 < k" using assms(2) l by linarith+
  have w: "v - v mod 4096 = 4096 * (v div 4096)" by (simp add: minus_mod_eq_mult_div)
  have "4096 * (v div 4096) + k * 4096 < 2147483648 + 4096" using k(1) u w l by linarith
  then have "4096 * (v div 4096 + k) < 4096 * 524289" by simp
  then have "v div 4096 + k \<le> 524288" by simp
  then show "v - v mod 4096 + k * 4096 \<le> USERSTACK" by (simp add: w USERSTACK_def)
qed

lemma as_setup_spec:
  assumes I: "page_inv lo hi (vs_sys s) U" "3 \<le> spare (vs_sys s)" and p: "p \<noteq> 0"
    and v1: "4096 \<le> v1" "0 < n1" "v1 + n1 \<le> USERSTACK" and v2: "4096 \<le> v2" "0 < n2" "v2 + n2 \<le> USERSTACK"
  defines "a0 \<equiv> \<lparr>as_vbase1 = v1 - v1 mod 4096, as_pbase1 = 0, as_npages1 = (v1 mod 4096 + n1 + 4095) div 4096,
     as_vbase2 = v2 - v2 mod 4096, as_pbase2 = 0, as_npages2 = (v2 mod 4096 + n2 + 4095) div 4096, as_stackpbase = 0\<rparr>"
  defines "s0 \<equiv> s\<lparr>vs_as := (vs_as s)(p \<mapsto> a0)\<rparr>"
  shows "as_setup p v1 n1 v2 n2 s = as_prepare_load p s0"
    "(\<exists>s' U' a. as_setup p v1 n1 v2 n2 s = Ok () s' \<and> prepared lo hi s0 U p a0 s' U' a) \<or> (\<exists>s'. as_setup p v1 n1 v2 n2 s = Err ENOMEM s' \<and> unprepared lo hi s0 U p s')"
proof -
  note r1 = region_pages [OF v1(3,2)] and r2 = region_pages [OF v2(3,2)]
  have nz: "v - v mod 4096 \<noteq> 0" if "4096 \<le> v" for v :: nat using that by (simp add: minus_mod_eq_mult_div)
  show e: "as_setup p v1 n1 v2 n2 s = as_prepare_load p s0"
    using p nz [OF v1(1)] nz [OF v2(1)] unfolding as_setup_def as_create_def as_define_region_def Let_def r1(1,2) r2(1,2)
    by (simp add: as_get_def as_upd_def s0_def a0_def)
  show "(\<exists>s' U' a. as_setup p v1 n1 v2 n2 s = Ok () s' \<and> prepared lo hi s0 U p a0 s' U' a) \<or> (\<exists>s'. as_setup p v1 n1 v2 n2 s = Err ENOMEM s' \<and> unprepared lo hi s0 U p s')"
    unfolding e by (rule as_prepare_load_spec) (use I in \<open>simp_all add: s0_def a0_def\<close>)
qed

section \<open>Stores of a process\<close>

text \<open>Words a process writes through its address space.\<close>

fun store_all :: "addrspace \<Rightarrow> (nat \<times> nat) list \<Rightarrow> vmas \<Rightarrow> vmas" where
  "store_all a [] s = s"
| "store_all a ((va, w) # ws) s =
     store_all a ws (case translate a va of None \<Rightarrow> s | Some pa \<Rightarrow> upd_phys (\<lambda>m. m(MIPS_KSEG0 + pa := w)) s)"

lemma store_all_phys: "\<not> in_as a x \<Longrightarrow> phys (store_all a ws s) x = phys s x"
proof (induction a ws s rule: store_all.induct)
  case (2 a va w ws s)
  then show ?case using translate_in [of a va] by (cases "translate a va") auto
qed simp

lemma store_all_other:
  assumes "page_inv lo hi y U" "loaded a U" "loaded b U" "as_bases a \<inter> as_bases b = {}"
  shows "user_word (store_all a ws s) b va = user_word s b va"
proof (cases "translate b va")
  case (Some q)
  have "as_bases b \<inter> as_bases a = {}" using assms(4) by blast
  then have "\<not> in_as a (MIPS_KSEG0 + q)" using as_apart [OF assms(1,3,2) _ translate_in [OF Some]] by blast
  then show ?thesis using Some store_all_phys by (simp add: user_word_def)
qed (simp add: user_word_def)

lemma loaded_apart:
  assumes "as_inv lo hi s U" "vs_as s p = Some a" "vs_as s q = Some b" "p \<noteq> q" "loaded a U"
  shows "as_bases a \<inter> as_bases b = {}"
proof -
  note v = as_invD [OF assms(1)]
  have "0 \<notin> as_bases a" using assms(5) page_inv_bound(2) [OF v(1)] by (fastforce simp: loaded_def as_bases_def)
  then show ?thesis using v(4) [OF assms(4,2,3)] by blast
qed

lemma loaded_owns: "loaded a U \<Longrightarrow> owns a U"
  by (auto simp: loaded_def owns_def as_bases_def)

section \<open>Properties\<close>

text \<open>C17. A copy of an address space, as \<open>fork\<close> makes it, has the contents of the original in memory of its own: whatever one of the two
  processes stores afterwards, the other one sees the words that were there at the time of the copy. When memory runs out the copy
  reports \<open>ENOMEM\<close>, and no page stays allocated and no word has changed.\<close>

theorem as_copy_exact:
  assumes "as_inv lo hi s U" and "vs_as s old = Some a" and "loaded a U" and "p \<noteq> 0" and "vs_as s p = None" and "3 \<le> spare (vs_sys s)"
  shows "(\<exists>s' U' n. as_copy p old s = Ok p s' \<and> as_inv lo hi s' U' \<and> vs_as s' = (vs_as s)(p \<mapsto> n) \<and>
      (\<forall>ws va. va mod 4 = 0 \<longrightarrow> user_word (store_all a ws s') n va = user_word s a va) \<and>
      (\<forall>ws va. user_word (store_all n ws s') a va = user_word s a va)) \<or>
    (\<exists>s'. as_copy p old s = Err ENOMEM s' \<and> as_inv lo hi s' U \<and> vs_as s' = vs_as s \<and> phys s' = phys s)"
  using as_copy_spec [OF assms]
proof (elim disjE exE conjE)
  fix s' U' n
  assume c: "as_copy p old s = Ok p s'" "as_inv lo hi s' U'" "vs_as s' = (vs_as s)(p \<mapsto> n)" "loaded n U'"
    "\<forall>va. va mod 4 = 0 \<longrightarrow> user_word s' n va = user_word s a va"
    "\<forall>q c va. vs_as s q = Some c \<longrightarrow> loaded c U \<longrightarrow> loaded c U' \<and> user_word s' c va = user_word s c va"
  have o: "loaded a U'" "user_word s' a va = user_word s a va" for va using c(6) assms(2,3) by blast+
  have "p \<noteq> old" using assms(2,5) by auto
  then have d: "as_bases n \<inter> as_bases a = {}" using loaded_apart [OF c(2) _ _ _ c(4), of p old a] c(3) assms(2) by simp
  note I = as_invD(1) [OF c(2)]
  have "user_word (store_all a ws s') n va = user_word s' n va" "user_word (store_all n ws s') a va = user_word s' a va" for ws va
    using store_all_other [OF I o(1) c(4)] store_all_other [OF I c(4) o(1) d] d by (simp_all add: Int_commute)
  then show ?thesis using c(1-3,5) o(2) by (intro disjI1 exI [of _ s'] exI [of _ U'] exI [of _ n]) simp
qed blast

text \<open>C18. Copying an address space and destroying the copy leaves no trace: whether the copy succeeded or ran out of memory halfway, the pages
  in use are those before it and every address space has the contents it had.\<close>

theorem as_copy_destroy:
  assumes "as_inv lo hi s U" and "vs_as s old = Some a" and "loaded a U" and "p \<noteq> 0" and "vs_as s p = None" and "3 \<le> spare (vs_sys s)"
  shows "\<exists>s'. kbind (as_copy p old s) (\<lambda>new. as_destroy new) \<in> {Ok () s', Err ENOMEM s'} \<and> as_inv lo hi s' U \<and> vs_as s' = vs_as s \<and>
    (\<forall>q c va. vs_as s q = Some c \<longrightarrow> loaded c U \<longrightarrow> user_word s' c va = user_word s c va)"
  using as_copy_spec [OF assms]
proof (elim disjE exE conjE)
  fix s1 U' n
  assume c: "as_copy p old s = Ok p s1" "as_inv lo hi s1 U'" "vs_as s1 = (vs_as s)(p \<mapsto> n)" "loaded n U'" "U' |` (- as_bases n) = U"
    "\<forall>q c va. vs_as s q = Some c \<longrightarrow> loaded c U \<longrightarrow> loaded c U' \<and> user_word s1 c va = user_word s c va"
  obtain y where y: "as_destroy p s1 = Ok () (s1\<lparr>vs_sys := y, vs_as := (vs_as s1)(p := None)\<rparr>)" "page_inv lo hi y U" "vm_ram y = vm_ram (vs_sys s1)"
    using as_destroy_spec [OF as_invD(1) [OF c(2)] _ loaded_owns [OF c(4)], of p] c(3,5) by auto
  define s2 where "s2 = s1\<lparr>vs_sys := y, vs_as := (vs_as s1)(p := None)\<rparr>"
  have vs: "vs_as s2 = vs_as s" using c(3) assms(5) by (auto simp: s2_def)
  have "as_inv lo hi s2 U" unfolding as_inv_def vs using y(2) as_invD(2-4) [OF assms(1)] by (auto simp: s2_def)
  moreover have "user_word s2 c va = user_word s1 c va" for c va using y(3) by (simp add: user_word_def s2_def)
  ultimately show ?thesis using y(1) vs c(1,6) by (intro exI [of _ s2]) (simp add: s2_def)
next
  fix s1
  assume e: "as_copy p old s = Err ENOMEM s1" "as_inv lo hi s1 U" "vs_as s1 = vs_as s" "phys s1 = phys s"
  then show ?thesis by (intro exI [of _ s1]) (simp add: user_word_def)
qed


text \<open>C19. Through the TLB a process reaches exactly its address space: after \<open>as_activate\<close>, accesses to at most 64 different mapped pages, in any
  order and number, each reach the physical address of the address space, and those outside of it fail.\<close>

theorem tlb_translates:
  assumes "running lo hi s U a" and "length (vs_tlb s) = 64" and "\<forall>va \<in> set vas. va < 2 ^ 32" and "card (pages_of a vas) \<le> 64"
  shows "\<exists>t. touch_all vas (as_activate s) = Ok (map (translate a) vas) (s\<lparr>vs_tlb := t\<rparr>)"
proof -
  have r: "running lo hi (as_activate s) U a" using assms(1) running_tlb as_activate_tlb by metis
  obtain t where "touch_all vas (as_activate s) = Ok (map (translate a) vas) ((as_activate s)\<lparr>vs_tlb := t\<rparr>)"
    using touch_all_spec [OF r as_activate_empty [OF assms(2)] assms(3)] assms(4) by auto
  moreover have "(as_activate s)\<lparr>vs_tlb := t\<rparr> = s\<lparr>vs_tlb := t\<rparr>" by (subst as_activate_tlb) simp
  ultimately show ?thesis by auto
qed

text \<open>C35. No entry of the TLB is ever replaced: once a process has used 64 different pages since \<open>as_activate\<close>, its next access to another
  page of its own fails with \<open>EFAULT\<close> although the address is mapped.\<close>

theorem tlb_full_faults:
  assumes "running lo hi s U a" and "length (vs_tlb s) = 64" and "\<forall>va \<in> set vas. va < 2 ^ 32" and "card (pages_of a vas) = 64"
    and "va < 2 ^ 32" and "translate a va \<noteq> None" and "va - va mod 4096 \<notin> pages_of a vas"
  shows "\<exists>s'. touch_all vas (as_activate s) = Ok (map (translate a) vas) s' \<and> user_access va s' = Err EFAULT s'"
proof -
  have r: "running lo hi (as_activate s) U a" using assms(1) running_tlb as_activate_tlb by metis
  obtain t where t: "touch_all vas (as_activate s) = Ok (map (translate a) vas) ((as_activate s)\<lparr>vs_tlb := t\<rparr>)"
    "tlb_has ((as_activate s)\<lparr>vs_tlb := t\<rparr>) a (pages_of a vas)"
    using touch_all_spec [OF r as_activate_empty [OF assms(2)] assms(3)] assms(4) by auto
  obtain pa where "translate a va = Some pa" using assms(6) by auto
  with access_spec(3) [OF _ t(2) assms(5,7) _ assms(4)] r have "user_access va ((as_activate s)\<lparr>vs_tlb := t\<rparr>) = Err EFAULT ((as_activate s)\<lparr>vs_tlb := t\<rparr>)"
    by (simp add: running_tlb)
  then show ?thesis using t(1) by blast
qed

section \<open>An example\<close>

definition ex_vmas :: "vmsys \<Rightarrow> vmas" where
  "ex_vmas y = \<lparr>vs_sys = y, vs_as = Map.empty, vs_cur = 1, vs_tlb = replicate 64 (0, 0)\<rparr>"

lemma as_prepare_load_enough:
  assumes "vs_as s p = Some a" "as_pbase1 a = 0" "as_pbase2 a = 0" "as_stackpbase a = 0"
    "alloc_ppages (as_npages1 a) (vs_sys s) = Ok pa y1" "alloc_ppages (as_npages2 a) y1 = Ok pb y2" "alloc_ppages 12 y2 = Ok pc y3"
    "pa \<noteq> 0" "pb \<noteq> 0" "pc \<noteq> 0"
  shows "\<exists>s'. as_prepare_load p s = Ok () s'"
  using assms by (simp add: as_prepare_load_def as_get_def on_sys_def VM_STACKPAGES_def Let_def as_upd_def)

lemma ex_allocs:
  assumes I: "page_inv lo hi y Map.empty" "3 \<le> spare y" and hi: "hi = lo + 208 * 4096"
  shows "\<exists>pa pb pc y1 y2 y3. alloc_ppages 65 y = Ok pa y1 \<and> alloc_ppages 1 y1 = Ok pb y2 \<and> alloc_ppages 12 y2 = Ok pc y3 \<and> pa \<noteq> 0 \<and> pb \<noteq> 0 \<and> pc \<noteq> 0"
proof -
  have run: "free_run lo hi U n" if "lo \<le> c" "c + n * 4096 \<le> hi" "\<And>p m. U p = Some m \<Longrightarrow> c + n * 4096 \<le> p \<or> p + m * 4096 \<le> c" for U c n
    unfolding free_run_def using that by (intro exI [of _ c]) fastforce
  have g: "\<exists>p t. alloc_ppages n u = Ok p t \<and> p \<noteq> 0 \<and> page_inv lo hi t (U(p \<mapsto> n)) \<and> spare u \<le> Suc (spare t)"
    if "page_inv lo hi u U" "0 < spare u" "free_run lo hi U n" "0 < n" for u U n
    using pg.alloc_law [OF that(1,4,2)] that(3) by (auto split: if_splits)
  have "free_run lo hi Map.empty 65" using run [of lo 65 Map.empty] hi by simp
  then obtain pa y1 where a: "alloc_ppages 65 y = Ok pa y1" "pa \<noteq> 0" "page_inv lo hi y1 [pa \<mapsto> 65]" "spare y \<le> Suc (spare y1)" using g [OF I(1), of 65] I(2) by auto
  have "free_run lo hi [pa \<mapsto> 65] 1" 
  proof (cases "lo + 4096 \<le> pa")
    case True
    then show ?thesis using hi by (intro run [of lo]) (auto split: if_splits)
  next
    case False
    then show ?thesis using hi by (intro run [of "lo + 98 * 4096"]) (auto split: if_splits)
  qed
  then obtain pb y2 where b: "alloc_ppages 1 y1 = Ok pb y2" "pb \<noteq> 0" "page_inv lo hi y2 [pa \<mapsto> 65, pb \<mapsto> 1]" "spare y1 \<le> Suc (spare y2)"
    using g [OF a(3), of 1] a(4) I(2) by auto
  let ?U = "[pa \<mapsto> 65, pb \<mapsto> 1]"
  have c: "(lo + 12 * 4096 \<le> pa \<and> (lo + 12 * 4096 \<le> pb \<or> pb + 4096 \<le> lo)) \<or>
    ((lo + 110 * 4096 \<le> pa \<or> pa + 65 * 4096 \<le> lo + 98 * 4096) \<and> (lo + 110 * 4096 \<le> pb \<or> pb + 4096 \<le> lo + 98 * 4096)) \<or>
    (pa + 65 * 4096 \<le> lo + 196 * 4096 \<and> pb + 4096 \<le> lo + 196 * 4096)"
  proof (cases "pa < lo + 12 * 4096")
    case True
    then show ?thesis by (cases "pb + 4096 \<le> lo + 196 * 4096") simp_all
  next
    case False
    then show ?thesis by (cases "lo + 12 * 4096 \<le> pb"; cases "pa + 65 * 4096 \<le> lo + 196 * 4096") simp_all
  qed
  from c have "free_run lo hi ?U 12"
  proof (elim disjE)
    assume "lo + 12 * 4096 \<le> pa \<and> (lo + 12 * 4096 \<le> pb \<or> pb + 4096 \<le> lo)"
    then show ?thesis using hi by (intro run [of lo]) (auto split: if_splits)
  next
    assume "(lo + 110 * 4096 \<le> pa \<or> pa + 65 * 4096 \<le> lo + 98 * 4096) \<and> (lo + 110 * 4096 \<le> pb \<or> pb + 4096 \<le> lo + 98 * 4096)"
    then show ?thesis using hi by (intro run [of "lo + 98 * 4096"]) (auto split: if_splits)
  next
    assume "pa + 65 * 4096 \<le> lo + 196 * 4096 \<and> pb + 4096 \<le> lo + 196 * 4096"
    then show ?thesis using hi by (intro run [of "lo + 196 * 4096"]) (auto split: if_splits)
  qed
  then obtain pc y3 where "alloc_ppages 12 y2 = Ok pc y3" "pc \<noteq> 0" using g [OF b(3), of 12] b(4) a(4) I(2) by auto
  then show ?thesis using a(1,2) b(1,2) by blast
qed

lemma ex_setup:
  obtains lo hi y s U a where "vm_bootstrap 0 ex_vm = Ok () y" "page_inv lo hi (vs_sys (ex_vmas y)) Map.empty" "3 \<le> spare (vs_sys (ex_vmas y))"
    "as_setup 1 0x400000 0x41000 0x10000000 100 (ex_vmas y) = Ok () s" "as_inv lo hi s U" "running lo hi s U a" "vs_as s = [1 \<mapsto> a]" "loaded a U"
    "as_vbase1 a = 0x400000" "as_npages1 a = 65" "3 \<le> spare (vs_sys s)" "length (vs_tlb s) = 64"
proof -
  let ?lo = "pool_lo (MIPS_KSEG0 + 0x20000)" and ?hi = "pool_hi 0x100000 (MIPS_KSEG0 + 0x20000)"
  obtain y where y: "vm_bootstrap 0 ex_vm = Ok () y" "page_inv ?lo ?hi y Map.empty" "spare y = 5460" using vm_bootstrap_inv [OF ex_vm_start] by blast
  let ?s = "ex_vmas y"
  let ?a = "\<lparr>as_vbase1 = 0x400000, as_pbase1 = 0, as_npages1 = 65, as_vbase2 = 0x10000000, as_pbase2 = 0, as_npages2 = 1, as_stackpbase = 0\<rparr>"
  let ?t = "?s\<lparr>vs_as := [1 \<mapsto> ?a]\<rparr>"
  have I: "page_inv ?lo ?hi (vs_sys ?s) Map.empty" "3 \<le> spare (vs_sys ?s)" "vs_as ?s = Map.empty" "vs_cur ?s = 1" "length (vs_tlb ?s) = 64"
    using y(2,3) by (simp_all add: ex_vmas_def)
  have c: "(1 :: nat) \<noteq> 0" "4096 \<le> (0x400000 :: nat)" "0 < (0x41000 :: nat)" "0x400000 + 0x41000 \<le> USERSTACK" "4096 \<le> (0x10000000 :: nat)" "0 < (100 :: nat)" "0x10000000 + 100 \<le> USERSTACK"
    by (simp_all add: USERSTACK_def)
  note sp = as_setup_spec [OF I(1,2) c, simplified I(3)]
  have hi: "?hi = ?lo + 208 * 4096" by (simp add: pool_hi_def pool_pages_def pool_lo_def)
  obtain pa pb pc y1 y2 y3 where al: "alloc_ppages 65 y = Ok pa y1" "alloc_ppages 1 y1 = Ok pb y2" "alloc_ppages 12 y2 = Ok pc y3" "pa \<noteq> 0" "pb \<noteq> 0" "pc \<noteq> 0"
    using ex_allocs [OF y(2) _ hi] y(3) by auto
  have "\<exists>s'. as_prepare_load 1 ?t = Ok () s'" by (rule as_prepare_load_enough [of _ _ ?a pa y1 pb y2 pc y3]) (use al in \<open>simp_all add: ex_vmas_def\<close>)
  then obtain s U a where s: "as_setup 1 0x400000 0x41000 0x10000000 100 ?s = Ok () s" "prepared ?lo ?hi ?t Map.empty 1 ?a s U a" using sp by auto
  then have P: "page_inv ?lo ?hi (vs_sys s) U" "vs_as s = [1 \<mapsto> a]" "loaded a U" "vs_cur s = 1" "length (vs_tlb s) = 64" "5460 \<le> spare (vs_sys s) + 3"
    and "\<exists>pa pb pc. a = ?a\<lparr>as_pbase1 := pa, as_pbase2 := pb, as_stackpbase := pc\<rparr>" using I(4,5) y(3) by (auto simp: prepared_def ex_vmas_def)
  then have f: "as_vbase1 a = 0x400000" "as_npages1 a = 65" "as_vbase2 a = 0x10000000" "as_npages2 a = 1" by auto
  have w: "as_wf a" by (simp add: as_wf_def as_shape_def f USERSTACK_def)
  have "as_inv ?lo ?hi s U" unfolding as_inv_def P(2) using P(1,3) w by (auto simp: as_wf_def split: if_splits)
  moreover have "running ?lo ?hi s U a" using P w by (simp add: running_def)
  ultimately show thesis using that [OF y(1) I(1,2) s(1)] P f by simp
qed

theorem as_copy_exact_witness:
  "\<exists>y s a. as_setup 1 0x400000 0x41000 0x10000000 100 (ex_vmas y) = Ok () s \<and> vs_as s 1 = Some a \<and>
     ((\<exists>s' n. as_copy 2 1 s = Ok 2 s' \<and> (\<forall>ws. user_word (store_all a ws s') n 0x400000 = user_word s a 0x400000)) \<or>
      (\<exists>s'. as_copy 2 1 s = Err ENOMEM s' \<and> phys s' = phys s))"
proof -
  obtain lo hi y s U a where e: "as_setup 1 0x400000 0x41000 0x10000000 100 (ex_vmas y) = Ok () s" "as_inv lo hi s U" "vs_as s = [1 \<mapsto> a]" "loaded a U" "3 \<le> spare (vs_sys s)"
    by (rule ex_setup)
  have v: "vs_as s 1 = Some a" "(2 :: nat) \<noteq> 0" "vs_as s 2 = None" using e(3) by simp_all
  have m: "(0x400000 :: nat) mod 4 = 0" by simp
  from as_copy_exact [OF e(2) v(1) e(4) v(2,3) e(5)] show ?thesis
  proof (elim disjE exE conjE)
    fix s' U' n
    assume "as_copy 2 1 s = Ok 2 s'" and w: "\<forall>ws va. va mod 4 = 0 \<longrightarrow> user_word (store_all a ws s') n va = user_word s a va"
    moreover have "\<forall>ws. user_word (store_all a ws s') n 0x400000 = user_word s a 0x400000" using w [rule_format, OF m] by simp
    ultimately show ?thesis using e(1) v(1) by blast
  next
    fix s'
    assume "as_copy 2 1 s = Err ENOMEM s'" "phys s' = phys s"
    then show ?thesis using e(1) v(1) by blast
  qed
qed

theorem as_copy_destroy_witness:
  "\<exists>y s s'. as_setup 1 0x400000 0x41000 0x10000000 100 (ex_vmas y) = Ok () s \<and>
     kbind (as_copy 2 1 s) (\<lambda>new. as_destroy new) \<in> {Ok () s', Err ENOMEM s'} \<and> vs_as s' = vs_as s"
proof -
  obtain lo hi y s U a where e: "as_setup 1 0x400000 0x41000 0x10000000 100 (ex_vmas y) = Ok () s" "as_inv lo hi s U" "vs_as s = [1 \<mapsto> a]" "loaded a U" "3 \<le> spare (vs_sys s)"
    by (rule ex_setup)
  have v: "vs_as s 1 = Some a" "(2 :: nat) \<noteq> 0" "vs_as s 2 = None" using e(3) by simp_all
  show ?thesis using as_copy_destroy [OF e(2) v(1) e(4) v(2,3) e(5)] e(1) by blast
qed


lemma ex_page: "as_vbase1 a = 0x400000 \<Longrightarrow> as_npages1 a = 65 \<Longrightarrow> i < 65 \<Longrightarrow> translate a (0x400000 + i * 4096) \<noteq> None \<and> 0x400000 + i * 4096 < (2 ^ 32 :: nat) \<and> (0x400000 + i * 4096) mod 4096 = (0 :: nat)"
  by (auto simp: translate_def)

lemma ex_pages:
  assumes "as_vbase1 a = 0x400000" "as_npages1 a = 65" "k \<le> 65"
  shows "pages_of a (map (\<lambda>i. 0x400000 + i * 4096) [0..<k]) = (\<lambda>i. 0x400000 + i * 4096) ` {..<k}"
    "card (pages_of a (map (\<lambda>i. 0x400000 + i * 4096) [0..<k])) = k" "\<forall>va \<in> set (map (\<lambda>i. 0x400000 + i * 4096) [0..<k]). va < (2 ^ 32 :: nat)"
proof -
  have i: "translate a (0x400000 + i * 4096) \<noteq> None \<and> 0x400000 + i * 4096 < (2 ^ 32 :: nat) \<and> (0x400000 + i * 4096) mod 4096 = (0 :: nat)" if "i < k" for i
    using ex_page [OF assms(1,2), of i] that assms(3) by simp
  have "{va \<in> set (map (\<lambda>i. 0x400000 + i * 4096) [0..<k]). translate a va \<noteq> None} = (\<lambda>i. 0x400000 + i * 4096) ` {..<k}" using i by auto
  then show p: "pages_of a (map (\<lambda>i. 0x400000 + i * 4096) [0..<k]) = (\<lambda>i. 0x400000 + i * 4096) ` {..<k}"
    unfolding pages_of_def using i by (force simp: image_image)
  show "card (pages_of a (map (\<lambda>i. 0x400000 + i * 4096) [0..<k])) = k" unfolding p by (subst card_image) (auto simp: inj_on_def)
  show "\<forall>va \<in> set (map (\<lambda>i. 0x400000 + i * 4096) [0..<k]). va < (2 ^ 32 :: nat)" using i by auto
qed

theorem tlb_translates_witness:
  "\<exists>y s a t. as_setup 1 0x400000 0x41000 0x10000000 100 (ex_vmas y) = Ok () s \<and>
     touch_all (map (\<lambda>i. 0x400000 + i * 4096) [0..<10]) (as_activate s) = Ok (map (translate a) (map (\<lambda>i. 0x400000 + i * 4096) [0..<10])) (s\<lparr>vs_tlb := t\<rparr>)"
proof -
  obtain lo hi y s U a where e: "as_setup 1 0x400000 0x41000 0x10000000 100 (ex_vmas y) = Ok () s" "running lo hi s U a" "as_vbase1 a = 0x400000" "as_npages1 a = 65" "length (vs_tlb s) = 64"
    by (rule ex_setup)
  have k: "(10 :: nat) \<le> 65" by simp
  have "card (pages_of a (map (\<lambda>i. 0x400000 + i * 4096) [0..<10])) \<le> 64" unfolding ex_pages(2) [OF e(3,4) k] by simp
  then show ?thesis using tlb_translates [OF e(2,5) ex_pages(3) [OF e(3,4) k]] e(1) by blast
qed

theorem tlb_full_faults_witness:
  "\<exists>y s a s'. as_setup 1 0x400000 0x41000 0x10000000 100 (ex_vmas y) = Ok () s \<and>
     touch_all (map (\<lambda>i. 0x400000 + i * 4096) [0..<64]) (as_activate s) = Ok (map (translate a) (map (\<lambda>i. 0x400000 + i * 4096) [0..<64])) s' \<and>
     user_access 0x440000 s' = Err EFAULT s'"
proof -
  obtain lo hi y s U a where e: "as_setup 1 0x400000 0x41000 0x10000000 100 (ex_vmas y) = Ok () s" "running lo hi s U a" "as_vbase1 a = 0x400000" "as_npages1 a = 65" "length (vs_tlb s) = 64"
    by (rule ex_setup)
  have k: "(64 :: nat) \<le> 65" by simp
  have v: "0x440000 < (2 ^ 32 :: nat)" "translate a 0x440000 \<noteq> None" using ex_page [OF e(3,4), of 64] by simp_all
  have n: "0x440000 - 0x440000 mod 4096 \<notin> pages_of a (map (\<lambda>i. 0x400000 + i * 4096) [0..<64])" unfolding ex_pages(1) [OF e(3,4) k] by auto
  show ?thesis using tlb_full_faults [OF e(2,5) ex_pages(3) [OF e(3,4) k] ex_pages(2) [OF e(3,4) k] v n] e(1) by blast
qed

end
