(* ===== verification/Spec2Isabelle.thy ===== *)
theory Spec2Isabelle
  imports VfsRun Synch KmallocRun AddrSpaceRun
begin

text \<open>
  A verification development for the OS/161 teaching kernel kept in this repository. All paths below are
  under \<open>src/Cabodi/os161/src/kern\<close>.

  \<^bold>\<open>The program.\<close> OS/161 is a small multiprocessor kernel. System calls on files reach the VFS layer (\<open>vfs\<close>), which
  finds the volume or device a path name begins with in its table of devices and calls the operations of vnodes;
  SFS (\<open>fs/sfs\<close>) implements them on a disk reached block by block through the driver
  (\<open>dev/lamebus/lhd.c\<close>). Data travels in \<open>struct uio\<close>s (\<open>lib/uio.c\<close>) that end in \<open>copyin\<close> and \<open>copyout\<close>
  (\<open>vm/copyinout.c\<close>) when the other side is a process. SFS keeps its free blocks in a bitmap (\<open>lib/bitmap.c\<close>) and
  its loaded vnodes in a resizable array (\<open>lib/array.c\<close>), and every operation runs under one recursive lock
  (\<open>vfs/vfslist.c\<close>). Below all of it are threads (\<open>thread/thread.c\<close>) on linked lists (\<open>thread/threadlist.c\<close>), protected
  by spinlocks and used by semaphores (\<open>thread/synch.c\<close>), and the memory handed out by \<open>kmalloc\<close> (\<open>vm/kmalloc.c\<close>)
  from the pages of \<open>arch/mips/vm\<close>. The kernel has two VM systems, chosen by the option \<open>dumbvm\<close>: \<open>dumbvm.c\<close>, which takes pages and never
  gets them back, and \<open>vm.c\<close> with a page allocator of its own under the address spaces of \<open>vm/addrspace.c\<close>.

  \<^bold>\<open>How code is modelled.\<close> A C function is a HOL function from its arguments and the state it can reach to an
  outcome: a value, an error number, or a panic (\<open>Prelude.out\<close>); a failed \<open>KASSERT\<close>, a followed null pointer and
  a call of \<open>panic\<close> are all \<open>Panic\<close>, so a theorem that an operation returns \<open>Ok\<close> also says that none of them happens.
  Names are the source's. Unsigned 32-bit quantities are words or natural numbers with the reduction modulo
  \<open>2^32\<close> written out where the code computes; on-disk integers are words laid out big-endian. Pointers to
  threads, vnodes, page references and memory blocks are numbers; memory that is shared is an explicit store.
  What lies outside the sources is a parameter or part of the state: the results the disk hardware will report,
  which allocations of \<open>kmalloc\<close> succeed where the heap is not the subject, and the size of RAM.

  \<^bold>\<open>The theories.\<close>

  \<^item> \<open>Prelude\<close>: error numbers, outcomes with their bind and weakest preconditions, byte memory, big-endian words.
  \<^item> \<open>Bitmap\<close> (\<open>lib/bitmap.c\<close>): a bitmap refines the set of its used indices.
  \<^item> \<open>KArray\<close> (\<open>lib/array.c\<close>): an array refines a list; growing terminates.
  \<^item> \<open>CopyInOut\<close> (\<open>vm/copyinout.c\<close>) and \<open>Uio\<close> (\<open>lib/uio.c\<close>): exactly the user range is accepted; \<open>uiomove\<close> moves the first
    bytes of the list of addresses a uio stands for, over any number of iovecs.
  \<^item> \<open>Lhd\<close> (\<open>dev/lamebus/lhd.c\<close>): one sector at a time, with the two semaphores and the interrupt handler.
  \<^item> \<open>SfsDisk\<close> (\<open>include/kern/sfs.h\<close>, \<open>fs/sfs/sfs_io.c\<close>): the on-disk structures and block I/O with its retries.
  \<^item> \<open>SfsBmap\<close>, \<open>SfsFile\<close>, \<open>SfsDir\<close> (\<open>fs/sfs/sfs_vnode.c\<close>): block allocation, mapping and truncation; reading and writing
    files; directories as tables of slots. Each operation has a weakest-precondition lemma over the abstract
    file (its bytes) or directory (its map of names).
  \<^item> \<open>SfsVnode\<close> (\<open>vfs/vnode.c\<close> and the vnode operations of SFS), \<open>SfsName\<close> (loading inodes and the operations on names),
    \<open>SfsFs\<close> (\<open>fs/sfs/sfs_fs.c\<close>: syncing, mounting, unmounting).
  \<^item> \<open>SfsInv\<close>, \<open>SfsTree\<close>: the invariant of a mounted volume (no block belongs to two files, used blocks are marked,
    each inode is loaded at most once and a clean vnode agrees with the disk; every name leads to a file whose link count is the number of
    its names) and that every operation keeps it.
  \<^item> \<open>SfsRun\<close>: SFS as a step relation, the abstract volume (names and byte strings), and the simulation between them. \<open>SfsLock\<close>:
    the big lock is given back on every path. \<open>SfsExample\<close>: a concrete volume for the hypotheses.
  \<^item> \<open>Vfs\<close> (\<open>vfs/vfslist.c\<close>, \<open>vfslookup.c\<close>, \<open>vfscwd.c\<close>, \<open>vfspath.c\<close>, \<open>device.c\<close>, \<open>devnull.c\<close>): the table of devices, path names, the current directory
    and device vnodes, over any number of SFS volumes. \<open>VfsTable\<close>: the invariant of the table (no two devices share a name, a device or a file system) and
    that its operations keep it, \<open>vfs_mount\<close> for any function that mounts. \<open>VfsRun\<close>: what names stand for from startup on, path lookup down to the file in
    the volume, and the flaws of the table.
  \<^item> \<open>ThreadList\<close> (\<open>thread/threadlist.c\<close>): the lists as a locale-based refinement of sequences, all lists of the system at once.
  \<^item> \<open>Thread\<close> (\<open>thread/thread.c\<close>, \<open>spinlock.c\<close>, \<open>clock.c\<close>): the operations of the thread system. \<open>Sched\<close>, \<open>SchedOps\<close>, \<open>Migrate\<close>:
    the invariant and, for each operation, the step of an abstract scheduler (running threads and queues) it takes.
    \<open>SchedRun\<close>: any sequence of operations on any processors from startup on.
  \<^item> \<open>Synch\<close> (\<open>thread/synch.c\<close>): semaphores on top of it, with threads asleep in the middle of \<open>P\<close>.
  \<^item> \<open>Kmalloc\<close> (\<open>vm/kmalloc.c\<close>, \<open>arch/mips/vm/ram.c\<close>, \<open>dumbvm.c\<close>): the allocator with its lists in memory. \<open>KmallocInv\<close>, \<open>KmallocOps\<close>: its
    invariant and what each operation does to it. \<open>KmallocRun\<close>: the contract of an allocator as a locale, what its users may
    rely on, and its interpretation on \<open>kmalloc\<close> and \<open>kfree\<close>.
  \<^item> \<open>PageAlloc\<close> (\<open>arch/mips/vm/vm.c\<close>): the page allocator with its two lists of nodes. \<open>PagePool\<close>: its refinement of a pool of pages. \<open>PageRun\<close>: any sequence
    of requests from startup on, exactly when they fail, that everything comes back, and that the nodes wear out.
  \<^item> \<open>AddrSpace\<close> (\<open>vm/addrspace.c\<close>, \<open>vm_fault\<close> and the TLB): the operations on address spaces. \<open>AddrSpaceInv\<close>: their segments stay apart. \<open>AddrSpaceRun\<close>:
    copies are exact and private, segments start zeroed, and accesses through the TLB reach the memory of the address space.

  This theory holds the properties of SFS that span theories. Interfaces between components are locales (bitmaps as
  sets, region I/O, directories as maps of names, functions that mount, thread lists as sequences, allocators as maps of live
  blocks, pools of pages); each is
  interpreted on the model of the code that provides it, and the theorems use the facts of the interpretation.

  \<^bold>\<open>Concurrency.\<close> An operation of the thread system runs to the point where the processor leaves the thread; operations of
  different processors are interleaved at these points. Waiting for a spinlock is not a step of its own: the stretches
  are short and never nest in a way that leaves a lock held, which is proved (\<open>locks_free\<close>). SFS
  operations run under the big lock and are atomic; in the VFS layer all volumes share this lock, whose depth is lent to the volume that is called.
  \<open>kmalloc\<close> drops its lock around \<open>alloc_kpages\<close>; this is one step here.

  \<^bold>\<open>Bounds and fuel.\<close> Loops over counters and lists are structural or have a termination proof. Walks of linked
  lists that could be circular carry a number of steps: 257 for the lists of page references, of which there are
  256; 5462 for the lists of the page allocator, whose table has 5461 nodes; the count of a thread list for its loops; running out is a panic, and the theorems show that it does not happen.
  SFS volumes are below \<open>2^32\<close> blocks, files below the 143 blocks an inode can map, directories below 1144 slots as the same limit
  gives. The page allocator is followed for 5460 allocations, because no node of its table is ever used again; that is a theorem of
  its own. The lookup theorem of the VFS layer takes a volume whose root vnode is in memory, since \<open>sfs_getroot\<close> panics when it cannot load it.
  Requests to \<open>kmalloc\<close> are at most 3 GB in the safety theorems, because the sum in
  \<open>ram_stealmem\<close> wraps around above; that is a theorem of its own.

  \<^bold>\<open>Not modelled.\<close> Device registers and buses other than the disk, traps, register contexts and assembly: behaviour of the
  machine. Interrupt priority levels: interrupts are events at the points where the code lets them in. Locks and condition
  variables: their bodies are empty in this kernel. Printing. The file system on the host (\<open>emufs\<close>) and reading and writing raw devices; \<open>vfs_getcwd\<close> and
  \<open>vfs_readlink\<close>; loading of programs and the dispatch of system calls. Start-up
  and menu, in-kernel tests, user programs and libraries: glue and clients of what is modelled.
\<close>

section \<open>SFS implements the abstract volume\<close>



section \<open>The name space of a mounted SFS volume\<close>

lemma ex_root_slots: "dir_nslots (sv_i ex_root_vn) < 1144"
  by (simp add: dir_nslots_def ex_root_def)

text \<open>C21. \<open>sfs_creat\<close> refines insertion into the name map: on a consistent volume it returns a
  vnode for the inode now bound to the name, binds the name to a fresh inode with one link when it was
  free, fails with \<open>EEXIST\<close> for an exclusive creation of a bound name, and an error leaves the name
  map, the contents of every file and the consistency of the volume as they were.\<close>

theorem sfs_creat_refines_insert:
  assumes "tree_inv s I" and "root_at s d dv" and "0 \<notin> set name" and "dir_nslots (sv_i dv) < 1144"
  shows "out_wp (sfs_creat d name excl s)
    (\<lambda>v s'. biglock_depth s' = biglock_depth s \<and> contents_same s I s' \<and> (\<exists>sv. sfs_heap s' v = Some sv \<and>
       (case names_of s name of
          Some ino \<Rightarrow> \<not> excl \<and> sv_ino sv = ino \<and> tree_inv s' I \<and> names_of s' = names_of s
        | None \<Rightarrow> sv_ino sv \<notin> I \<and> sv_i sv = linked_once (new_inode SFS_TYPE_FILE) \<and>
            tree_inv s' (insert (sv_ino sv) I) \<and> names_of s' = (names_of s)(name \<mapsto> sv_ino sv))))
    (\<lambda>e s'. tree_inv s' I \<and> names_of s' = names_of s \<and> contents_same s I s' \<and> biglock_depth s' = biglock_depth s \<and>
       (e = EEXIST \<and> excl \<and> names_of s name \<noteq> None \<or> e = ENOSPC \<or> e = ENOMEM \<or> e = ENAMETOOLONG \<and> 60 \<le> length name))"
  using assms by (rule sfs_creat_wp)

theorem sfs_creat_refines_insert_witness:
  "out_wp (sfs_creat 0 [98] True ex_fs)
    (\<lambda>v s'. \<exists>ino. ino \<notin> {1, 3} \<and> tree_inv s' (insert ino {1, 3}) \<and> names_of s' = [[97] \<mapsto> 3, [98] \<mapsto> ino])
    (\<lambda>e s'. tree_inv s' {1, 3} \<and> names_of s' = [[97] \<mapsto> 3])"
  by (rule out_wp_conseq [OF sfs_creat_refines_insert [OF ex_tree_inv ex_root_at _ ex_root_slots]])
    (auto simp: ex_names)



text \<open>\<open>sfs_link\<close> gives a file a further name: it binds a free name to the inode of the given vnode and
  nothing else, and otherwise reports \<open>EEXIST\<close>, \<open>ENAMETOOLONG\<close> or \<open>ENOSPC\<close>, in that order of precedence,
  leaving the name map as it was. Link counts stay equal to the number of names throughout.\<close>

theorem sfs_link_refines_insert:
  assumes "tree_inv s I" and "root_at s d dv" and "0 \<notin> set name" and "dir_nslots (sv_i dv) < 1144"
    and "sfs_heap s file = Some fv" and "sv_ino fv \<noteq> SFS_ROOT_LOCATION"
  shows "out_wp (sfs_link d name file s)
    (\<lambda>_ s'. names_of s name = None \<and> tree_inv s' I \<and> names_of s' = (names_of s)(name \<mapsto> sv_ino fv) \<and>
       contents_same s I s' \<and> biglock_depth s' = biglock_depth s)
    (\<lambda>e s'. tree_inv s' I \<and> names_of s' = names_of s \<and> contents_same s I s' \<and> biglock_depth s' = biglock_depth s \<and>
       (if names_of s name \<noteq> None then e = EEXIST
        else if 60 \<le> length name then e = ENAMETOOLONG else e = ENOSPC))"
  using assms by (intro sfs_link_wp) simp_all

theorem sfs_link_refines_insert_witness:
  "out_wp (sfs_link 0 [98] 1 ex_fs)
    (\<lambda>_ s'. tree_inv s' {1, 3} \<and> names_of s' = [[97] \<mapsto> 3, [98] \<mapsto> 3])
    (\<lambda>e s'. e = ENOSPC \<and> tree_inv s' {1, 3} \<and> names_of s' = [[97] \<mapsto> 3])"
  by (rule out_wp_conseq [OF sfs_link_refines_insert [OF ex_tree_inv ex_root_at _ ex_root_slots, of _ 1 ex_file_vn]])
    (auto simp: ex_names)



text \<open>\<open>sfs_lookup\<close> from the root returns a vnode of exactly the inode the name is bound to, \<open>ENOENT\<close>
  for an unbound name, and changes neither names nor contents.\<close>

theorem sfs_lookup_finds_binding:
  assumes "tree_inv s I" and "root_at s d dv"
  shows "out_wp (sfs_lookup d path s)
    (\<lambda>v s'. tree_inv s' I \<and> contents_same s I s' \<and> names_of s' = names_of s \<and> biglock_depth s' = biglock_depth s \<and>
       (\<exists>sv. sfs_heap s' v = Some sv \<and> names_of s path = Some (sv_ino sv)))
    (\<lambda>e s'. tree_inv s' I \<and> contents_same s I s' \<and> names_of s' = names_of s \<and> biglock_depth s' = biglock_depth s \<and>
       e = (if names_of s path = None then ENOENT else ENOMEM))"
  by (rule out_wp_conseq [OF sfs_lookup_wp [OF assms]]) auto

theorem sfs_lookup_finds_binding_witness:
  "out_wp (sfs_lookup 0 [98] ex_fs) (\<lambda>_ _. False) (\<lambda>e s'. e = ENOENT \<and> tree_inv s' {1, 3})"
  by (rule out_wp_conseq [OF sfs_lookup_finds_binding [OF ex_tree_inv ex_root_at]])
    (auto simp: ex_names)

section \<open>File contents\<close>

text \<open>C24. \<open>sfs_write\<close> writes all the bytes the uio supplies at its offset or fails: on success the
  file's bytes are the old ones overwritten at the offset, the size is the larger of the old size and the
  end of the write, every other file is untouched and the volume stays consistent; it fails only with
  \<open>ENOSPC\<close> or a fault on a user address, keeping consistency and all other files.\<close>

theorem sfs_write_overwrites:
  assumes "fs_inv s I" and "sfs_heap s vp = Some sv"
    and "uio_ok u" and "uio_rw u = UIO_WRITE" and "uio_offset u = int off"
    and "off + uio_resid u \<le> 143 * 512" and "off < 143 * 512"
  shows "out_wp (sfs_write vp (s, u))
    (\<lambda>_ (s', u'). \<exists>bs. length bs = uio_resid u \<and> uio_drain bs u u' \<and> fs_inv s' I \<and>
       others_same s I (sv_ino sv) s' \<and> biglock_depth s' = biglock_depth s \<and>
       file_byte s' (inode_of s' (sv_ino sv)) = bytes_upd (file_byte s (sv_i sv)) off bs \<and>
       file_size (inode_of s' (sv_ino sv)) = max (file_size (sv_i sv)) (off + length bs))
    (\<lambda>e (s', u'). (e = ENOSPC \<or> uio_fault e u u') \<and> fs_inv s' I \<and> others_same s I (sv_ino sv) s')"
  by (rule out_wp_conseq [OF sfs_write_wp [OF assms]]) (auto simp: vn_moved_def)

theorem sfs_write_overwrites_witness:
  "out_wp (sfs_write 1 (ex_fs, uio_kinit (\<lambda>_. 65) 0 3 4 UIO_WRITE))
    (\<lambda>_ (s', u'). fs_inv s' {1, 3} \<and> file_size (inode_of s' 3) = 7)
    (\<lambda>e (s', u'). e = ENOSPC \<and> fs_inv s' {1, 3})"
proof -
  have "sfs_heap ex_fs 1 = Some ex_file_vn" by simp
  from sfs_write_overwrites [OF ex_fs_inv this, of "uio_kinit (\<lambda>_. 65) 0 3 4 UIO_WRITE" 4]
  show ?thesis by (rule out_wp_conseq) (auto simp: ex_file_def)
qed

text \<open>C25. \<open>sfs_read\<close> delivers exactly the bytes of the file between the offset and the smaller of the end
  of the request and the end of the file, and changes nothing of the volume; it can only fail on a
  faulting user address.\<close>

theorem sfs_read_delivers:
  assumes "fs_inv s I" and "sfs_heap s vp = Some sv" and "file_size (sv_i sv) \<le> 143 * 512"
    and "uio_ok u" and "uio_rw u = UIO_READ" and "uio_offset u = int off"
  shows "out_wp (sfs_read vp (s, u))
    (\<lambda>_ (s', u'). dev_step s s' \<and> uio_fill (file_read s (sv_i sv) off (uio_resid u)) u u')
    (\<lambda>e (s', u'). dev_step s s' \<and> uio_fault e u u')"
  using assms by (rule sfs_read_wp)

theorem sfs_read_delivers_witness:
  "out_wp (sfs_read 1 (ex_fs, uio_kinit (\<lambda>_. 0) 0 9 1 UIO_READ))
    (\<lambda>_ (s', u'). uio_resid u' = 5 \<and> map (us_mem (uio_mem u')) [0, 1, 2, 3] = [101, 108, 108, 111])
    (\<lambda>_ _. False)"
proof -
  have "file_size ex_file = 5" and "[1..<5] = [1, 2, 3, 4::nat]" by (simp_all add: ex_file_def upt_rec)
  then have r: "file_read ex_fs ex_file 1 9 = [101, 108, 108, 111]"
    by (simp add: file_read_def file_byte_def ex_bmap ex_sect_def)
  have v: "sfs_heap ex_fs 1 = Some ex_file_vn" by simp
  have "file_size (sv_i ex_file_vn) \<le> 143 * 512" by (simp add: ex_file_def)
  from sfs_read_delivers [OF ex_fs_inv v this, of "uio_kinit (\<lambda>_. 0) 0 9 1 UIO_READ" 1]
  show ?thesis by (rule out_wp_conseq) (auto simp: r [unfolded One_nat_def] uio_fill_def)
qed


lemma kfill_read:
  assumes "uio_fill bs (uio_kinit m a n off UIO_READ) u" and "length bs = n"
  shows "mem_read (us_mem (uio_mem u)) a n = bs" "uio_resid u = 0"
  using assms by (auto simp: uio_fill_def mem_store_upt uio_addrs_def iov_addrs_def uio_kinit_def mem_read_write_same)

lemma kdrain_write:
  assumes "uio_drain bs (uio_kinit m a n off UIO_WRITE) u" and "length bs = n"
  shows "bs = mem_read m a n"
  using assms by (auto simp: uio_drain_def uio_addrs_def iov_addrs_def uio_kinit_def mem_read_def)

text \<open>C26. Round trip: \<open>sfs_write\<close> from a kernel buffer followed by \<open>sfs_read\<close> of the same range into any
  other kernel buffer delivers the bytes that were written; the only way the sequence can fail is
  \<open>ENOSPC\<close>.\<close>

theorem sfs_write_read_roundtrip:
  assumes inv: "fs_inv s I" and vp: "sfs_heap s vp = Some sv" and sz: "file_size (sv_i sv) \<le> 143 * 512"
    and lim: "off + n \<le> 143 * 512" "off < 143 * 512"
  shows "out_wp (kbind (sfs_write vp (s, uio_kinit m a n (int off) UIO_WRITE))
                  (\<lambda>_ (s', _). sfs_read vp (s', uio_kinit m' b n (int off) UIO_READ)))
    (\<lambda>_ (s'', u''). mem_read (us_mem (uio_mem u'')) b n = mem_read m a n \<and> uio_resid u'' = 0)
    (\<lambda>e _. e = ENOSPC)"
proof -
  let ?u = "uio_kinit m a n (int off) UIO_WRITE" and ?r = "uio_kinit m' b n (int off) UIO_READ"
  have n: "n < 2 ^ 32" using lim by simp
  have "out_wp (sfs_read vp (s', ?r))
      (\<lambda>_ (s'', u''). mem_read (us_mem (uio_mem u'')) b n = mem_read m a n \<and> uio_resid u'' = 0) (\<lambda>_ _. False)"
    if w: "sfs_write vp (s, ?u) = Ok () (s', u')" for s' u'
  proof -
    have "out_wp (sfs_write vp (s, ?u)) (\<lambda>_ (s', u'). \<exists>bs. length bs = n \<and> uio_drain bs ?u u' \<and> fs_inv s' I \<and>
        (\<exists>sv'. sfs_heap s' vp = Some sv' \<and> file_byte s' (sv_i sv') = bytes_upd (file_byte s (sv_i sv)) off bs \<and>
           file_size (sv_i sv') = max (file_size (sv_i sv)) (off + length bs))) (\<lambda>_ _. True)"
      by (rule out_wp_conseq [OF sfs_write_wp [OF inv vp, of ?u off]]) (use n lim in \<open>auto simp: vn_moved_def\<close>)
    then obtain bs sv' where d: "length bs = n" "uio_drain bs ?u u'" and inv': "fs_inv s' I"
      and f: "file_byte s' (sv_i sv') = bytes_upd (file_byte s (sv_i sv)) off bs"
        "file_size (sv_i sv') = max (file_size (sv_i sv)) (off + length bs)"
      and vp': "sfs_heap s' vp = Some sv'"
      by (simp add: w) blast
    have rd: "file_read s' (sv_i sv') off n = bs"
      using d(1) by (auto simp: file_read_def f bytes_upd_def min_def intro!: nth_equalityI)
    have "file_size (sv_i sv') \<le> 143 * 512" using sz lim d f by simp
    then show ?thesis
      by (intro out_wp_conseq [OF sfs_read_wp [OF inv' vp', of ?r off]])
        (use n in \<open>auto simp: rd kfill_read [OF _ d(1)] kdrain_write [OF d(2,1)]\<close>)
  qed
  then show ?thesis
    using sfs_write_wp [OF inv vp, of ?u off] n lim
    by (cases "sfs_write vp (s, ?u)") (auto elim!: out_wp_conseq)
qed

theorem sfs_write_read_roundtrip_witness:
  "out_wp (kbind (sfs_write 1 (ex_fs, uio_kinit (\<lambda>x. word_of_nat x) 65 2 (int 4) UIO_WRITE))
                  (\<lambda>_ (s', _). sfs_read 1 (s', uio_kinit (\<lambda>_. 0) 0 2 (int 4) UIO_READ)))
    (\<lambda>_ (s'', u''). mem_read (us_mem (uio_mem u'')) 0 2 = [65, 66])
    (\<lambda>e _. e = ENOSPC)"
proof -
  have v: "sfs_heap ex_fs 1 = Some ex_file_vn" by simp
  have "file_size (sv_i ex_file_vn) \<le> 143 * 512" by (simp add: ex_file_def)
  moreover have "mem_read (\<lambda>x. word_of_nat x :: u8) 65 2 = [65, 66]" by (simp add: mem_read_def upt_rec)
  ultimately show ?thesis
    by (intro out_wp_conseq [OF sfs_write_read_roundtrip [OF ex_fs_inv v]]) auto
qed




section \<open>Vnodes\<close>

text \<open>C28. \<open>sfs_reclaim\<close> of the last reference never fails on a consistent volume: it removes the vnode
  from memory, and when the inode has no links left it frees exactly the inode's own block and all the
  blocks the file refers to, no more and no fewer; all other files are untouched.\<close>

theorem sfs_reclaim_frees_all:
  assumes "fs_inv s I" and "sfs_heap s vp = Some sv" and "biglock_depth s > 0"
    and "vn_refcount sv = 1" and "vn_opencount sv = 0"
    and "sfi_linkcount (sv_i sv) = 0 \<Longrightarrow> vn_ops sv = sfs_fileops"
  shows "\<exists>s'. sfs_reclaim vp s = Ok () s' \<and> fs_inv s' (inodes_left I sv) \<and> files_same s (inodes_left I sv) s' \<and>
    biglock_depth s' = biglock_depth s \<and> sfs_heap s' = (sfs_heap s)(vp := None) \<and>
    fs_used s' = fs_used s - (if sfi_linkcount (sv_i sv) = 0 then insert (sv_ino sv) (file_refs s (sv_i sv)) else {})"
  using out_wp_total [OF sfs_reclaim_wp [OF assms]] by auto

theorem sfs_reclaim_frees_all_witness:
  "\<exists>s'. sfs_reclaim 1 ex_fs = Ok () s' \<and> fs_inv s' {1, 3} \<and> sfs_heap s' = [0 \<mapsto> ex_root_vn]"
proof -
  have v: "sfs_heap ex_fs 1 = Some ex_file_vn" "biglock_depth ex_fs > 0" "vn_refcount ex_file_vn = 1"
    "vn_opencount ex_file_vn = 0" "vn_ops ex_file_vn = sfs_fileops" "inodes_left {1, 3} ex_file_vn = {1, 3}"
    by (simp_all add: ex_file_vn_def inodes_left_def ex_file_def)
  from sfs_reclaim_frees_all [OF ex_fs_inv v(1-5)] v(6) show ?thesis by auto
qed

text \<open>\<open>sfs_loadvnode\<close> keeps vnodes unique: it returns the vnode already in the table with one more
  reference, or a new one for the inode read from disk with a single reference; it fails only with
  \<open>ENOMEM\<close>, leaving table and free map as they were.\<close>

theorem sfs_loadvnode_unique:
  assumes "fs_inv s I" and "biglock_depth s > 0" and "ino \<in> I"
  shows "out_wp (sfs_loadvnode ino 0 s)
    (\<lambda>vp s'. fs_inv s' I \<and> files_same s I s' \<and> sfs_freemap s' = sfs_freemap s \<and>
       (\<exists>sv. sfs_heap s' = (sfs_heap s)(vp \<mapsto> sv) \<and> sv_ino sv = ino \<and> sv_i sv = inode_of s ino \<and>
          vn_refcount sv = (case sfs_heap s vp of None \<Rightarrow> 1 | Some sw \<Rightarrow> vn_refcount sw + 1)) \<and>
       (\<forall>vq sw. sfs_heap s' vq = Some sw \<longrightarrow> sv_ino sw = ino \<longrightarrow> vq = vp))
    (\<lambda>e s'. e = ENOMEM \<and> fs_inv s' I \<and> files_same s I s' \<and> sfs_heap s' = sfs_heap s \<and> sfs_freemap s' = sfs_freemap s)"
proof (rule out_wp_conseq [OF sfs_loadvnode_wp [OF assms]], goal_cases)
  case (1 vp s')
  then obtain sv where sv: "sfs_heap s' vp = Some sv" "sv_ino sv = ino" by auto
  have "vq = vp" if "sfs_heap s' vq = Some sw" "sv_ino sw = ino" for vq sw
    using fs_invD(3) [of s' I] 1(2) sv that by (auto simp: table_ok_def)
  then show ?case using 1(2) by auto
qed auto

theorem sfs_loadvnode_unique_witness:
  "out_wp (sfs_loadvnode 3 0 ex_fs) (\<lambda>vp s'. vp = 1 \<and> fs_inv s' {1, 3})
    (\<lambda>e s'. e = ENOMEM \<and> fs_inv s' {1, 3})"
proof -
  have "biglock_depth ex_fs > 0" "3 \<in> {1, 3::nat}" by simp_all
  from sfs_loadvnode_unique [OF ex_fs_inv this] show ?thesis
  proof (rule out_wp_conseq, goal_cases)
    case (1 vp s')
    then obtain sv where "sfs_heap s' = (sfs_heap ex_fs)(vp \<mapsto> sv)" by blast
    then have "\<exists>sw. sfs_heap s' 1 = Some sw \<and> (vp = 1 \<or> sv_ino sw = 3)" by simp
    then show ?case using 1(2) by blast
  qed auto
qed

text \<open>\<open>sfs_makeobj\<close> allocates a block that was free for the new inode and returns a vnode of an empty,
  unlinked object. On \<open>ENOSPC\<close> nothing has changed; on \<open>ENOMEM\<close> the block stays allocated although no
  inode uses it.\<close>

theorem sfs_makeobj_allocates:
  assumes "fs_inv s I" and "biglock_depth s > 0" and "ty = SFS_TYPE_FILE \<or> ty = SFS_TYPE_DIR"
  shows "out_wp (sfs_makeobj ty s)
    (\<lambda>vp s'. \<exists>sv. sv_ino sv \<notin> fs_used s \<and> fs_inv s' (insert (sv_ino sv) I) \<and> files_same s I s' \<and>
       sfs_heap s vp = None \<and> sfs_heap s' = (sfs_heap s)(vp \<mapsto> sv) \<and> sv_i sv = new_inode ty \<and>
       vn_refcount sv = 1 \<and> vn_opencount sv = 0 \<and> sv_dirty sv)
    (\<lambda>e s'. fs_inv s' I \<and> files_same s I s' \<and> sfs_heap s' = sfs_heap s \<and>
       (e = ENOSPC \<and> s' = s \<or> e = ENOMEM \<and> (\<exists>b. b \<notin> fs_used s \<and> fs_used s' = insert b (fs_used s))))"
  by (rule out_wp_conseq [OF sfs_makeobj_wp [OF assms]]) auto

theorem sfs_makeobj_allocates_witness:
  "out_wp (sfs_makeobj 1 ex_fs) (\<lambda>vp s'. \<exists>n. fs_inv s' {n, 1, 3} \<and> n \<notin> {0, 1, 2, 3, 4, 5})
    (\<lambda>e s'. fs_inv s' {1, 3})"
proof -
  have "biglock_depth ex_fs > 0" "(1::u16) = SFS_TYPE_FILE \<or> (1::u16) = SFS_TYPE_DIR" by simp_all
  from sfs_makeobj_allocates [OF ex_fs_inv this] show ?thesis by (rule out_wp_conseq) (use ex_used in auto)
qed

section \<open>Locking\<close>



section \<open>Blocks\<close>

text \<open>\<open>sfs_balloc\<close> returns a block of the volume that was free, now marked in use and zeroed on disk,
  and changes no other block; it reports \<open>ENOSPC\<close> only when every block of the volume is in use.\<close>

theorem sfs_balloc_fresh_zeroed:
  assumes "fs_ok s"
  shows "out_wp (sfs_balloc s)
    (\<lambda>b s'. b \<notin> fs_used s \<and> b \<noteq> 0 \<and> b < fs_nblocks s \<and> fs_used s' = insert b (fs_used s) \<and>
       sect s' = (sect s)(b := replicate 512 0) \<and> fs_ok s' \<and> sfs_heap s' = sfs_heap s \<and> sfs_freemapdirty s')
    (\<lambda>e s'. e = ENOSPC \<and> s' = s \<and> {..<fs_nblocks s} \<subseteq> fs_used s)"
  by (rule out_wp_conseq [OF sfs_balloc_wp [OF assms]]) (auto simp: balloc_post_def)

theorem sfs_balloc_fresh_zeroed_witness:
  "\<exists>b s'. sfs_balloc ex_fs = Ok b s' \<and> b \<in> {6..<16} \<and> sect s' b = replicate 512 0"
proof -
  have "out_wp (sfs_balloc ex_fs) (\<lambda>b s'. b \<in> {6..<16} \<and> sect s' b = replicate 512 0) (\<lambda>_ _. False)"
    by (rule out_wp_conseq [OF sfs_balloc_fresh_zeroed [OF ex_fs_ok]])
      (auto simp: ex_used dest: subsetD [of _ _ 6])
  then show ?thesis by (rule out_wp_total)
qed

text \<open>\<open>sfs_bmap\<close> answers with the block the abstract block map of the (possibly grown) file has for the
  file block; without allocation it changes nothing but the device's bookkeeping, with allocation the
  answer is a real block and the bytes of the file do not change; beyond 143 file blocks it is \<open>EFBIG\<close>.\<close>

theorem sfs_bmap_maps:
  assumes "fs_ok s" and "sfs_heap s vp = Some sv" and "file_ok s (sv_i sv)"
  shows "out_wp (sfs_bmap vp fb alloc s)
    (\<lambda>b s'. \<exists>sv'. sfs_heap s' = (sfs_heap s)(vp \<mapsto> sv') \<and> file_step s (sv_i sv) s' (sv_i sv') \<and> vn_same sv sv' \<and>
       b = bmap_of s' (sv_i sv') fb \<and> fb < 143 \<and> (alloc \<longrightarrow> b \<noteq> 0) \<and> (\<not> alloc \<longrightarrow> dev_step s s'))
    (\<lambda>e s'. e = EFBIG \<and> 143 \<le> fb \<and> s' = s \<or>
       e = ENOSPC \<and> alloc \<and> fb < 143 \<and> {..<fs_nblocks s} \<subseteq> fs_used s' \<and> bmap_of s (sv_i sv) fb = 0)"
  by (rule out_wp_conseq [OF sfs_bmap_wp [OF assms]]) (auto simp: bmap_state_def)

theorem sfs_bmap_maps_witness:
  "out_wp (sfs_bmap 1 0 True ex_fs) (\<lambda>b s'. b \<noteq> 0) (\<lambda>_ _. False) \<and>
   out_wp (sfs_bmap 1 143 True ex_fs) (\<lambda>_ _. False) (\<lambda>e s'. e = EFBIG \<and> s' = ex_fs)"
proof -
  have v: "sfs_heap ex_fs 1 = Some ex_file_vn" "file_ok ex_fs (sv_i ex_file_vn)" using ex_file_ok by simp_all
  show ?thesis
    by (intro conjI; rule out_wp_conseq [OF sfs_bmap_maps [OF ex_fs_ok v]]) (auto simp: ex_bmap)
qed

section \<open>Devices, disk format and directories\<close>

text \<open>Whatever the card answers, \<open>lhd_io\<close> leaves both of its semaphores as it found them, on success
  and on every error path, so a failed transfer never blocks the next one.\<close>

theorem lhd_io_semaphores:
  assumes "lh_clear d > 0"
  shows "keeps (\<lambda>du. lh_clear (fst du)) (lh_clear d) (lhd_io (d, u)) \<and>
    keeps (\<lambda>du. lh_done (fst du)) (lh_done d) (lhd_io (d, u))"
  using lhd_io_sems [OF assms, of u] by (auto simp: lhd_sems_def keeps_def split: out.split)

theorem lhd_io_semaphores_witness:
  "keeps (\<lambda>du. lh_clear (fst du)) 1 (lhd_io (ex_dev\<lparr>lh_hw := [HwOk, HwMedia]\<rparr>, uio_kinit (\<lambda>_. 0) 0 1024 0 UIO_READ))"
  using lhd_io_semaphores [of "ex_dev\<lparr>lh_hw := [HwOk, HwMedia]\<rparr>"] by (simp add: ex_dev_def)

text \<open>An inode, a superblock and a directory entry survive the round trip through their on-disk
  big-endian layout.\<close>

theorem disk_roundtrip:
  assumes "inode_wf i" and "super_wf sp" and "dir_wf sd"
  shows "inode_of_bytes (inode_bytes i) = i \<and> super_of_bytes (super_bytes sp) = sp \<and> dir_of_bytes (dir_bytes sd) = sd"
  using assms by simp

theorem disk_roundtrip_witness:
  "inode_of_bytes (inode_bytes ex_root) = ex_root \<and>
   super_of_bytes (super_bytes (sfs_super ex_fs)) = sfs_super ex_fs \<and>
   dir_of_bytes (dir_bytes (new_entry [97] 3)) = new_entry [97] 3"
  by (rule disk_roundtrip) (simp_all add: super_wf_def dir_wf_def ex_fs_def new_entry_def)

text \<open>C31. A media error on a write is lost: when the card answers the first attempt with a media error and
  then succeeds, \<open>sfs_wblock\<close> reports success although the block on disk has not changed. The first
  attempt has consumed the uio, and the retry transfers zero bytes.\<close>

theorem sfs_wblock_loses_media_error:
  assumes "lhd_inv (sfs_device s)" and "biglock_depth s > 0" and "b < d_blocks (sfs_device s)"
    and "length bs = 512" and "lh_hw (sfs_device s) = HwMedia # rest"
  shows "\<exists>s'. sfs_wblock bs b s = Ok () s' \<and> sect s' = sect s"
  using assms by (rule sfs_wblock_media_error)

theorem sfs_wblock_loses_media_error_witness:
  "\<exists>s'. sfs_wblock (replicate 512 7) 4 (ex_fs\<lparr>sfs_device := ex_dev\<lparr>lh_hw := [HwMedia]\<rparr>\<rparr>) = Ok () s' \<and>
     sect s' 4 = [104, 101, 108, 108, 111] @ replicate 507 0"
proof -
  let ?s = "ex_fs\<lparr>sfs_device := ex_dev\<lparr>lh_hw := [HwMedia]\<rparr>\<rparr>"
  have "lhd_inv (sfs_device ?s)" using ex_fs_ok by (simp add: fs_ok_def dev_ok_def lhd_inv_def)
  moreover have "4 < d_blocks (sfs_device ?s)" "lh_hw (sfs_device ?s) = [HwMedia]" by (simp_all add: ex_dev_def)
  ultimately obtain s' where "sfs_wblock (replicate 512 7) 4 ?s = Ok () s'" "sect s' = sect ?s"
    using sfs_wblock_loses_media_error [of ?s 4 "replicate 512 7" "[]"] by auto
  then show ?thesis by (auto simp: ex_sect_def)
qed

text \<open>A write that starts beyond the largest file SFS can map fails with \<open>EFBIG\<close>, but the size of the
  file has already been raised to the offset of the write.\<close>

theorem sfs_io_toobig_grows:
  assumes "sfs_heap s vp = Some sv" and "uio_rw u = UIO_WRITE" and "uio_offset u = int off"
    and "143 * 512 \<le> off" and "off < 2 ^ 32" and "0 < uio_resid u" and "uio_resid u < 2 ^ 32"
    and "file_size (sv_i sv) < off"
  shows "sfs_io vp (s, u) = Err EFBIG
    (vn_put vp (sv\<lparr>sv_i := (sv_i sv)\<lparr>sfi_size := word_of_nat off\<rparr>, sv_dirty := True\<rparr>) s, u)"
  using assms by (rule sfs_io_write_toobig)

theorem sfs_io_toobig_grows_witness:
  "\<exists>s' u'. sfs_io 1 (ex_fs, uio_kinit (\<lambda>_. 0) 0 1 (int 73216) UIO_WRITE) = Err EFBIG (s', u') \<and>
     (case sfs_heap s' 1 of Some sv \<Rightarrow> file_size (sv_i sv) = 73216 | None \<Rightarrow> False)"
proof -
  have "sfs_heap ex_fs 1 = Some ex_file_vn" "file_size (sv_i ex_file_vn) < 73216" by simp_all (simp add: ex_file_def)
  then show ?thesis
    using sfs_io_toobig_grows [of ex_fs 1 ex_file_vn "uio_kinit (\<lambda>_. 0) 0 1 (int 73216) UIO_WRITE" 73216]
    by (simp add: vn_put_def)
qed

text \<open>A directory is a name table: \<open>sfs_dir_link\<close> of a name followed by a lookup finds the linked inode
  under that name and under any other name what was there before; a failed link leaves the table as it
  was.\<close>

theorem sfs_dir_link_lookup:
  assumes "dir_inv vp s" and "dir_room vp s" and "0 \<notin> set n" and "0 < ino" and "ino < 2 ^ 32"
  shows "out_wp (kbind (sfs_dir_link vp n ino s) (\<lambda>_. dir_lookup vp m))
    (\<lambda>r t. r = (if m = n then Some ino else dir_table vp s m) \<and> dir_inv vp t)
    (\<lambda>e t. dir_inv vp t \<and> dir_table vp t = dir_table vp s \<and> (dir_table vp s n \<noteq> None \<longrightarrow> e = EEXIST))"
  unfolding out_wp_kbind
proof (rule out_wp_conseq [OF sd.insert_law [OF assms]], goal_cases)
  case (1 a s')
  then show ?case by (intro out_wp_conseq [OF sd.lookup_law [of vp s' m]]) auto
qed

theorem sfs_dir_link_lookup_witness:
  "out_wp (kbind (sfs_dir_link 0 [98] 3 ex_fs) (\<lambda>_. dir_lookup 0 [97]))
    (\<lambda>r t. r = Some 3) (\<lambda>e t. dir_table 0 t [97] = Some 3)"
proof -
  have "dir_ok ex_fs ex_root"
    using root_dir(1) [OF ex_tree_inv ex_root_at] by simp
  moreover have "dir_unique (dir_slots ex_fs ex_root)" using ex_slots by (simp add: dir_unique_def)
  ultimately have i: "dir_inv 0 ex_fs" "dir_room 0 ex_fs" using ex_root_slots by (simp_all add: dir_inv_def dir_room_def)
  have "dir_table 0 ex_fs = names_of ex_fs"
    using root_dir(4) [OF ex_tree_inv ex_root_at] by (simp add: dir_table_def)
  then have "dir_table 0 ex_fs [97] = Some 3" by (simp add: ex_names)
  then show ?thesis
    by (intro out_wp_conseq [OF sfs_dir_link_lookup [OF i]]) auto
qed

end
